(* ===== verification/Prelude.thy ===== *)
theory Prelude
  imports Main "HOL-Library.Word" "HOL-Library.List_Lexorder"
begin

text \<open>
  Shared vocabulary of the RunKV development.

  The theory fixes the machine types the Rust code uses, the outcome of a fallible call, byte
  buffers with their cursor operations, and the comparison result of Rust's \<open>Ord\<close>.

  \<^item> \<open>usize\<close>, and the \<open>u64\<close> values the code only adds, subtracts and compares (log indices, file
    identifiers, offsets), are \<open>nat\<close>; a cast to a narrower type is written out as \<open>mod 2 ^ w\<close>.
    Values whose bits matter (sequences, hashes, variable-length integers) are words.
  \<^item> A call returns \<open>Ok v\<close>, \<open>Err e\<close> (the Rust \<open>Err\<close>), \<open>Panic\<close> (an assertion, an unwrap, an
    index out of range, an arithmetic overflow under overflow checks) or \<open>OutOfFuel\<close>: a loop whose
    termination depends on the data runs on fuel, and that outcome says it was used up.
  \<^item> A \<open>bytes::Buf\<close> cursor is the list of the bytes not yet read; a read returns the value and the
    rest. A \<open>BufMut\<close> is the list of the bytes written so far; a write appends.
\<close>

unbundle bit_operations_syntax

named_theorems codec_simps \<open>round trips of encoders and decoders over buffers\<close>
named_theorems outcome_simps \<open>evaluation of fallible calls\<close>

section \<open>Types\<close>

type_synonym byte = "8 word"
type_synonym bytes = "byte list"
type_synonym u32 = "32 word"
type_synonym u64 = "64 word"

abbreviation u32_max :: nat where
  "u32_max \<equiv> 2 ^ 32 - 1"

abbreviation u64_max :: nat where
  "u64_max \<equiv> 2 ^ 64 - 1"

section \<open>Outcomes of fallible calls\<close>

datatype ('a, 'e) result = Ok 'a | Err 'e | Panic | OutOfFuel

text \<open>The question-mark operator: continue with the value, pass errors and panics on.\<close>

fun rbind :: "('a, 'e) result \<Rightarrow> ('a \<Rightarrow> ('b, 'e) result) \<Rightarrow> ('b, 'e) result" where
  "rbind (Ok a) f = f a"
| "rbind (Err e) f = Err e"
| "rbind Panic f = Panic"
| "rbind OutOfFuel f = OutOfFuel"

fun rmap :: "('a \<Rightarrow> 'b) \<Rightarrow> ('a, 'e) result \<Rightarrow> ('b, 'e) result" where
  "rmap f (Ok a) = Ok (f a)"
| "rmap f (Err e) = Err e"
| "rmap f Panic = Panic"
| "rmap f OutOfFuel = OutOfFuel"

fun map_err :: "('e \<Rightarrow> 'f) \<Rightarrow> ('a, 'e) result \<Rightarrow> ('a, 'f) result" where
  "map_err f (Ok a) = Ok a"
| "map_err f (Err e) = Err (f e)"
| "map_err f Panic = Panic"
| "map_err f OutOfFuel = OutOfFuel"

definition rassert :: "bool \<Rightarrow> (unit, 'e) result" where
  "rassert b = (if b then Ok () else Panic)"

fun is_ok :: "('a, 'e) result \<Rightarrow> bool" where
  "is_ok (Ok a) = True"
| "is_ok _ = False"

fun ok_or :: "'e \<Rightarrow> 'a option \<Rightarrow> ('a, 'e) result" where
  "ok_or e None = Err e"
| "ok_or e (Some a) = Ok a"

fun unwrap :: "'a option \<Rightarrow> ('a, 'e) result" where
  "unwrap None = Panic"
| "unwrap (Some a) = Ok a"

text \<open>A loop whose body may leave with an error: the first failure ends it.\<close>

fun rfold :: "('x \<Rightarrow> 's \<Rightarrow> ('s, 'e) result) \<Rightarrow> 'x list \<Rightarrow> 's \<Rightarrow> ('s, 'e) result" where
  "rfold f [] s = Ok s"
| "rfold f (x # xs) s = rbind (f x s) (rfold f xs)"

text \<open>\<open>while\<close>: a condition and a body that may fail, on fuel.\<close>

fun rwhile ::
  "nat \<Rightarrow> ('s \<Rightarrow> (bool, 'e) result) \<Rightarrow> ('s \<Rightarrow> ('s, 'e) result) \<Rightarrow> 's \<Rightarrow> ('s, 'e) result" where
  "rwhile 0 cond body s = OutOfFuel"
| "rwhile (Suc fuel) cond body s =
     rbind (cond s) (\<lambda>continue. if continue then rbind (body s) (rwhile fuel cond body) else Ok s)"

text \<open>A loop that collects one value per element.\<close>

fun rmap_list :: "('x \<Rightarrow> ('y, 'e) result) \<Rightarrow> 'x list \<Rightarrow> ('y list, 'e) result" where
  "rmap_list f [] = Ok []"
| "rmap_list f (x # xs) = rbind (f x) (\<lambda>y. rbind (rmap_list f xs) (\<lambda>ys. Ok (y # ys)))"

lemma rbind_eq_Ok [outcome_simps]:
  "rbind r f = Ok b \<longleftrightarrow> (\<exists>a. r = Ok a \<and> f a = Ok b)"
  by (cases r) auto

lemma rbind_Ok_right [simp]: "rbind r Ok = r"
  by (cases r) auto

lemma rbind_assoc: "rbind (rbind r f) g = rbind r (\<lambda>a. rbind (f a) g)"
  by (cases r) auto

lemma rmap_eq_Ok [outcome_simps]: "rmap f r = Ok b \<longleftrightarrow> (\<exists>a. r = Ok a \<and> b = f a)"
  by (cases r) auto

lemma map_err_eq_Ok [outcome_simps]: "map_err f r = Ok b \<longleftrightarrow> r = Ok b"
  by (cases r) auto

lemma rassert_eq_Ok [simp]: "rassert b = Ok u \<longleftrightarrow> b"
  by (simp add: rassert_def)

lemma rassert_True [simp]: "rassert True = Ok ()"
  by (simp add: rassert_def)

lemma rassert_False [simp]: "rassert False = Panic"
  by (simp add: rassert_def)

lemma ok_or_eq_Ok [outcome_simps]: "ok_or e x = Ok a \<longleftrightarrow> x = Some a"
  by (cases x) auto

lemma unwrap_eq_Ok [outcome_simps]: "unwrap x = Ok a \<longleftrightarrow> x = Some a"
  by (cases x) auto

lemma rbind_cong [fundef_cong]:
  "r = r' \<Longrightarrow> (\<And>a. r' = Ok a \<Longrightarrow> f a = g a) \<Longrightarrow> rbind r f = rbind r' g"
  by (cases r') auto

lemma rfold_append: "rfold f (xs @ ys) s = rbind (rfold f xs s) (rfold f ys)"
proof (induction xs arbitrary: s)
  case (Cons x xs)
  have "rfold f (xs @ ys) = (\<lambda>a. rbind (rfold f xs a) (rfold f ys))"
    using Cons.IH by blast
  then show ?case by (simp add: rbind_assoc)
qed simp

lemma rfold_invariant:
  assumes "rfold f xs s = Ok t" and "P s"
    and "\<And>x s s'. x \<in> set xs \<Longrightarrow> P s \<Longrightarrow> f x s = Ok s' \<Longrightarrow> P s'"
  shows "P t"
  using assms by (induction xs arbitrary: s) (auto simp: rbind_eq_Ok)

text \<open>A loop with an invariant and a variant ends, with the condition false.\<close>

lemma rwhile_terminates:
  assumes "I s" "variant s < fuel"
    and "\<And>s. I s \<Longrightarrow> cond s = Ok (C s)"
    and "\<And>s. I s \<Longrightarrow> C s \<Longrightarrow> \<exists>t. body s = Ok t \<and> I t \<and> variant t < (variant s :: nat)"
  shows "\<exists>t. rwhile fuel cond body s = Ok t \<and> I t \<and> \<not> C t"
  using assms(1,2)
proof (induction fuel arbitrary: s)
  case (Suc fuel)
  show ?case
  proof (cases "C s")
    case True
    with assms(4) Suc.prems obtain t where "body s = Ok t" "I t" "variant t < variant s" by blast
    with Suc.IH[of t] Suc.prems assms(3) True show ?thesis by auto
  next
    case False
    with assms(3) Suc.prems show ?thesis by auto
  qed
qed simp

lemma rmap_list_Ok: "(\<And>x. x \<in> set xs \<Longrightarrow> f x = Ok (g x)) \<Longrightarrow> rmap_list f xs = Ok (map g xs)"
  by (induction xs) auto

lemma rmap_list_cong [fundef_cong]:
  "xs = ys \<Longrightarrow> (\<And>x. x \<in> set ys \<Longrightarrow> f x = g x) \<Longrightarrow> rmap_list f xs = rmap_list g ys"
  by (induction xs arbitrary: ys) auto

lemma rfold_cong:
  "(\<And>x s. x \<in> set xs \<Longrightarrow> f x s = g x s) \<Longrightarrow> rfold f xs s = rfold g xs s"
proof (induction xs arbitrary: s)
  case (Cons x xs)
  then show ?case by (cases "g x s") auto
qed simp

section \<open>Errors\<close>

text \<open>The error enums of the crates. \<open>From\<close> conversions are written as the constructor that wraps
  the inner error; messages built by \<open>format!\<close> are reduced to their fixed text.\<close>

datatype object_store_error =
    ObjectNotFound string
  | InvalidRange string
  | S3Error string
  | ObjectStoreOther string

datatype manifest_error =
    VersionDiffIdNotMatch nat nat
  | InvalidVersionDiff string
  | VersionDiffExpired nat
  | LevelNotExists nat nat
  | InvalidWatermark u64 u64
  | ManifestOther string

datatype raft_log_store_error =
    GroupNotExists nat
  | GroupAlreadyExists nat
  | RaftEncodeError string
  | RaftDecodeError string
  | ChecksumMismatch nat nat
  | RaftLogGap nat nat
  | RaftLogStoreOther string

text \<open>\<open>runkv_storage::Error\<close>, followed by the variants the wheel and rudder crates add.\<close>

datatype error =
    EncodeError string
  | DecodeError string
  | ObjectStoreError object_store_error
  | ManifestError manifest_error
  | IoError string
  | RaftLogStoreError raft_log_store_error
  | Other string
  | SerdeError string
  | RaftError string
  | RaftStoreCompacted
  | RaftStoreUnavailable
  | RaftGroupAlreadyExists nat
  | RaftGroupNotExists nat
  | RaftNodeNotExists nat nat
  | RaftNodeAlreadyExists nat nat nat
  | KeyRangeOverlaps "bytes \<times> bytes" "bytes \<times> bytes"
  | InvalidShard
  | NoValidLeader nat
  | RpcStatus
  | ConfigError string

type_synonym 'a res = "('a, error) result"

section \<open>Comparison\<close>

text \<open>\<open>std::cmp::Ordering\<close>, and \<open>Ord::cmp\<close> of a linearly ordered type. Slices compare
  lexicographically, which is the order \<open>List_Lexorder\<close> gives to lists of bytes.\<close>

datatype ordering = Less | Equal | Greater

definition cmp :: "'a::linorder \<Rightarrow> 'a \<Rightarrow> ordering" where
  "cmp a b = (if a < b then Less else if a = b then Equal else Greater)"

fun then_with :: "ordering \<Rightarrow> ordering \<Rightarrow> ordering" where
  "then_with Equal o2 = o2"
| "then_with o1 o2 = o1"

lemma cmp_simps [simp]:
  "cmp a b = Less \<longleftrightarrow> a < b"
  "cmp a b = Equal \<longleftrightarrow> a = b"
  "cmp a b = Greater \<longleftrightarrow> b < a"
  by (auto simp: cmp_def)

lemma then_with_simps [simp]:
  "then_with x y = Less \<longleftrightarrow> x = Less \<or> x = Equal \<and> y = Less"
  "then_with x y = Equal \<longleftrightarrow> x = Equal \<and> y = Equal"
  "then_with x y = Greater \<longleftrightarrow> x = Greater \<or> x = Equal \<and> y = Greater"
  by (cases x; simp)+

section \<open>Slices\<close>

text \<open>\<open>&xs[a..b]\<close> panics unless \<open>a \<le> b \<le> xs.len()\<close>.\<close>

definition slice :: "nat \<Rightarrow> nat \<Rightarrow> 'a list \<Rightarrow> ('a list) res" where
  "slice a b xs = (if a \<le> b \<and> b \<le> length xs then Ok (take (b - a) (drop a xs)) else Panic)"

definition index :: "'a list \<Rightarrow> nat \<Rightarrow> 'a res" where
  "index xs i = (if i < length xs then Ok (xs ! i) else Panic)"

lemma slice_eq_Ok [outcome_simps]:
  "slice a b xs = Ok ys \<longleftrightarrow> a \<le> b \<and> b \<le> length xs \<and> ys = take (b - a) (drop a xs)"
  by (auto simp: slice_def)

lemma index_eq_Ok [outcome_simps]: "index xs i = Ok x \<longleftrightarrow> i < length xs \<and> x = xs ! i"
  by (auto simp: index_def)

lemma slice_append [simp]:
  "a = length xs \<Longrightarrow> b = length xs + length ys \<Longrightarrow> slice a b (xs @ ys @ zs) = Ok ys"
  by (simp add: slice_def)

lemma index_Ok [simp]: "i < length xs \<Longrightarrow> index xs i = Ok (xs ! i)"
  by (simp add: index_def)

section \<open>Checked arithmetic\<close>

text \<open>Addition and subtraction of \<open>u64\<close> and \<open>usize\<close> values under overflow checks.\<close>

definition add_u64 :: "nat \<Rightarrow> nat \<Rightarrow> nat res" where
  "add_u64 a b = (if a + b < 2 ^ 64 then Ok (a + b) else Panic)"

definition sub_u64 :: "nat \<Rightarrow> nat \<Rightarrow> nat res" where
  "sub_u64 a b = (if b \<le> a then Ok (a - b) else Panic)"

lemma add_u64_eq_Ok [outcome_simps]: "add_u64 a b = Ok c \<longleftrightarrow> a + b < 2 ^ 64 \<and> c = a + b"
  by (auto simp: add_u64_def)

lemma sub_u64_eq_Ok [outcome_simps]: "sub_u64 a b = Ok c \<longleftrightarrow> b \<le> a \<and> c = a - b"
  by (auto simp: sub_u64_def)

lemma add_u64_Ok [simp]: "a + b < 2 ^ 64 \<Longrightarrow> add_u64 a b = Ok (a + b)"
  by (simp add: add_u64_def)

lemma sub_u64_Ok [simp]: "b \<le> a \<Longrightarrow> sub_u64 a b = Ok (a - b)"
  by (simp add: sub_u64_def)

section \<open>Byte buffers\<close>

text \<open>Fixed-width integers: \<open>put_u32_le\<close>, \<open>put_u64_le\<close> write the low bytes first, \<open>put_u64\<close>
  (network order) the high bytes first. The value written is the value modulo the width.\<close>

fun le_bytes :: "nat \<Rightarrow> nat \<Rightarrow> bytes" where
  "le_bytes 0 n = []"
| "le_bytes (Suc k) n = of_nat (n mod 256) # le_bytes k (n div 256)"

fun le_value :: "bytes \<Rightarrow> nat" where
  "le_value [] = 0"
| "le_value (b # bs) = unat b + 256 * le_value bs"

definition be_bytes :: "nat \<Rightarrow> nat \<Rightarrow> bytes" where
  "be_bytes k n = rev (le_bytes k n)"

definition be_value :: "bytes \<Rightarrow> nat" where
  "be_value bs = le_value (rev bs)"

lemma length_le_bytes [simp]: "length (le_bytes k n) = k"
  by (induction k arbitrary: n) auto

lemma length_be_bytes [simp]: "length (be_bytes k n) = k"
  by (simp add: be_bytes_def)

lemma unat_byte_of_nat [simp]: "unat (of_nat (n mod 256) :: byte) = n mod 256"
  by (simp add: unat_of_nat)

lemma le_value_le_bytes [codec_simps]: "le_value (le_bytes k n) = n mod 256 ^ k"
proof (induction k arbitrary: n)
  case (Suc k)
  show ?case by (simp add: Suc.IH mod_mult2_eq)
qed simp

lemma le_value_bound: "le_value bs < 256 ^ length bs"
proof (induction bs)
  case (Cons b bs)
  have "unat b < 256" using unsigned_less[of b] by simp
  with Cons.IH show ?case by simp
qed simp

lemma le_bytes_le_value: "le_bytes (length bs) (le_value bs) = bs"
proof (induction bs)
  case (Cons b bs)
  have "unat b < 256" using unsigned_less[of b] by simp
  with Cons.IH show ?case by simp
qed simp

lemma be_value_be_bytes [codec_simps]: "be_value (be_bytes k n) = n mod 256 ^ k"
  by (simp add: be_value_def be_bytes_def le_value_le_bytes)

text \<open>Reads consume the front of the cursor and panic when too few bytes remain.\<close>

fun get_u8 :: "bytes \<Rightarrow> (byte \<times> bytes) res" where
  "get_u8 [] = Panic"
| "get_u8 (b # bs) = Ok (b, bs)"

definition copy_to_bytes :: "nat \<Rightarrow> bytes \<Rightarrow> (bytes \<times> bytes) res" where
  "copy_to_bytes n bs = (if n \<le> length bs then Ok (take n bs, drop n bs) else Panic)"

definition advance :: "nat \<Rightarrow> bytes \<Rightarrow> bytes res" where
  "advance n bs = (if n \<le> length bs then Ok (drop n bs) else Panic)"

definition get_le :: "nat \<Rightarrow> bytes \<Rightarrow> (nat \<times> bytes) res" where
  "get_le k bs = rbind (copy_to_bytes k bs) (\<lambda>(v, rest). Ok (le_value v, rest))"

definition get_be :: "nat \<Rightarrow> bytes \<Rightarrow> (nat \<times> bytes) res" where
  "get_be k bs = rbind (copy_to_bytes k bs) (\<lambda>(v, rest). Ok (be_value v, rest))"

abbreviation put_u32_le :: "nat \<Rightarrow> bytes \<Rightarrow> bytes" where
  "put_u32_le n buf \<equiv> buf @ le_bytes 4 n"

abbreviation put_u64_le :: "nat \<Rightarrow> bytes \<Rightarrow> bytes" where
  "put_u64_le n buf \<equiv> buf @ le_bytes 8 n"

abbreviation put_u64 :: "nat \<Rightarrow> bytes \<Rightarrow> bytes" where
  "put_u64 n buf \<equiv> buf @ be_bytes 8 n"

abbreviation get_u32_le :: "bytes \<Rightarrow> (nat \<times> bytes) res" where
  "get_u32_le bs \<equiv> get_le 4 bs"

abbreviation get_u64_le :: "bytes \<Rightarrow> (nat \<times> bytes) res" where
  "get_u64_le bs \<equiv> get_le 8 bs"

abbreviation get_u64 :: "bytes \<Rightarrow> (nat \<times> bytes) res" where
  "get_u64 bs \<equiv> get_be 8 bs"

lemma copy_to_bytes_append [codec_simps]:
  "length xs = n \<Longrightarrow> copy_to_bytes n (xs @ ys) = Ok (xs, ys)"
  by (simp add: copy_to_bytes_def)

lemma get_le_put [codec_simps]: "get_le k (le_bytes k n @ rest) = Ok (n mod 256 ^ k, rest)"
  by (simp add: get_le_def codec_simps)

lemma get_be_put [codec_simps]: "get_be k (be_bytes k n @ rest) = Ok (n mod 256 ^ k, rest)"
  by (simp add: get_be_def codec_simps)

lemma get_be_put_all [codec_simps]: "get_be k (be_bytes k n) = Ok (n mod 256 ^ k, [])"
  using get_be_put[of k n "[]"] by simp

end
