(* ===== verification/Coding.thy ===== *)
theory Coding
  imports Prelude "HOL-Library.Product_Lexorder"
begin

text \<open>
  \<open>storage/src/utils/coding.rs\<close>: variable-length integers, length-prefixed slices, the shared-prefix
  difference of two keys, full keys (user key followed by the complemented sequence), tombstone
  tagged values and the full-key comparison.

  The checksum of \<open>crc32fast\<close> is a parameter: the definitions that verify a checksum take the
  function that computes it.
\<close>

section \<open>Variable-length integers\<close>

definition MASK :: u32 where
  "MASK = 128"

definition var_u32_len :: "u32 \<Rightarrow> nat" where
  "var_u32_len n =
     (if n < push_bit 7 1 then 1
      else if n < push_bit 14 1 then 2
      else if n < push_bit 21 1 then 3
      else if n < push_bit 28 1 then 4
      else 5)"

definition put_var_u32 :: "u32 \<Rightarrow> bytes \<Rightarrow> bytes" where
  "put_var_u32 n buf =
     (if n < push_bit 7 1 then buf @ [ucast n]
      else if n < push_bit 14 1 then
        buf @ [ucast (n OR MASK), ucast (drop_bit 7 n)]
      else if n < push_bit 21 1 then
        buf @ [ucast (n OR MASK), ucast (drop_bit 7 n OR MASK), ucast (drop_bit 14 n)]
      else if n < push_bit 28 1 then
        buf @ [ucast (n OR MASK), ucast (drop_bit 7 n OR MASK), ucast (drop_bit 14 n OR MASK),
               ucast (drop_bit 21 n)]
      else
        buf @ [ucast (n OR MASK), ucast (drop_bit 7 n OR MASK), ucast (drop_bit 14 n OR MASK),
               ucast (drop_bit 21 n OR MASK), ucast (drop_bit 28 n)])"

text \<open>The decoding loop. Shifting a \<open>u32\<close> by 32 or more is an overflow.\<close>

fun get_var_u32_loop :: "u32 \<Rightarrow> nat \<Rightarrow> bytes \<Rightarrow> (u32 \<times> bytes) res" where
  "get_var_u32_loop n shift [] = Panic"
| "get_var_u32_loop n shift (b # bs) =
     (let v = ucast b :: u32 in
      if 32 \<le> shift then Panic
      else if v AND MASK \<noteq> 0
      then get_var_u32_loop (n OR push_bit shift (v AND (MASK - 1))) (shift + 7) bs
      else Ok (n OR push_bit shift v, bs))"

definition get_var_u32 :: "bytes \<Rightarrow> (u32 \<times> bytes) res" where
  "get_var_u32 bs = get_var_u32_loop 0 0 bs"

section \<open>Length-prefixed slices\<close>

text \<open>\<open>BufMutExt::put_length_prefixed_slice\<close> and \<open>BufExt::get_length_prefixed_slice\<close> use a
  variable-length prefix; the free functions of the same name a four-byte one.\<close>

definition put_var_length_prefixed_slice :: "bytes \<Rightarrow> bytes \<Rightarrow> bytes" where
  "put_var_length_prefixed_slice s buf = put_var_u32 (of_nat (length s)) buf @ s"

definition get_var_length_prefixed_slice :: "bytes \<Rightarrow> (bytes \<times> bytes) res" where
  "get_var_length_prefixed_slice bs =
     rbind (get_var_u32 bs) (\<lambda>(len, rest). copy_to_bytes (unat len) rest)"

definition put_length_prefixed_slice :: "bytes \<Rightarrow> bytes \<Rightarrow> bytes" where
  "put_length_prefixed_slice s buf = put_u32_le (length s) buf @ s"

definition get_length_prefixed_slice :: "bytes \<Rightarrow> (bytes \<times> bytes) res" where
  "get_length_prefixed_slice buf =
     rbind (get_u32_le buf) (\<lambda>(len, rest).
     rbind (slice 0 len rest) (\<lambda>v.
     rbind (advance len rest) (\<lambda>rest'. Ok (v, rest'))))"

section \<open>Shared prefixes\<close>

text \<open>\<open>bytes_diff\<close> compares eight bytes at a time, then four, then one. An unaligned read of a
  \<open>u64\<close> at offset \<open>i\<close> is determined by, and determines, the eight bytes there.\<close>

definition u64_at :: "bytes \<Rightarrow> nat \<Rightarrow> nat" where
  "u64_at bs i = le_value (take 8 (drop i bs))"

definition u32_at :: "bytes \<Rightarrow> nat \<Rightarrow> nat" where
  "u32_at bs i = le_value (take 4 (drop i bs))"

function bytes_diff_skip8 :: "bytes \<Rightarrow> bytes \<Rightarrow> nat \<Rightarrow> nat \<Rightarrow> nat" where
  "bytes_diff_skip8 base target end i =
     (if i + 8 \<le> end \<and> u64_at base i = u64_at target i
      then bytes_diff_skip8 base target end (i + 8) else i)"
  by pat_completeness auto
termination
  by (relation "measure (\<lambda>(base, target, end, i). end - i)") auto

function bytes_diff_skip1 :: "bytes \<Rightarrow> bytes \<Rightarrow> nat \<Rightarrow> nat \<Rightarrow> bytes" where
  "bytes_diff_skip1 base target end i =
     (if i < end then
        if base ! i \<noteq> target ! i then drop i target
        else bytes_diff_skip1 base target end (i + 1)
      else drop end target)"
  by pat_completeness auto
termination
  by (relation "measure (\<lambda>(base, target, end, i). end - i)") auto

declare bytes_diff_skip8.simps [simp del] bytes_diff_skip1.simps [simp del]

definition bytes_diff :: "bytes \<Rightarrow> bytes \<Rightarrow> bytes" where
  "bytes_diff base target =
     (let end = min (length base) (length target);
          i = bytes_diff_skip8 base target end 0;
          i' = (if i + 4 \<le> end \<and> u32_at base i = u32_at target i then i + 4 else i)
      in bytes_diff_skip1 base target end i')"

definition key_diff :: "bytes \<Rightarrow> bytes \<Rightarrow> bytes" where
  "key_diff base target = bytes_diff base target"

section \<open>Checksums\<close>

definition crc32sum :: "(bytes \<Rightarrow> nat) \<Rightarrow> bytes \<Rightarrow> nat" where
  "crc32sum crc32 data = crc32 data"

definition crc32check :: "(bytes \<Rightarrow> nat) \<Rightarrow> bytes \<Rightarrow> nat \<Rightarrow> bool" where
  "crc32check crc32 data chk \<longleftrightarrow> crc32 data = chk"

section \<open>Full keys and raw values\<close>

definition full_key :: "bytes \<Rightarrow> u64 \<Rightarrow> bytes" where
  "full_key uk seq = put_u64 (unat (NOT seq)) uk"

definition user_key :: "bytes \<Rightarrow> bytes res" where
  "user_key fk = (if length fk < 8 then Panic else slice 0 (length fk - 8) fk)"

definition sequence :: "bytes \<Rightarrow> u64 res" where
  "sequence fk =
     (if length fk < 8 then Panic
      else rbind (slice (length fk - 8) (length fk) fk) (\<lambda>s.
           rbind (get_u64 s) (\<lambda>(v, _). Ok (NOT (of_nat v)))))"

definition raw_value :: "bytes option \<Rightarrow> bytes" where
  "raw_value v = (case v of None \<Rightarrow> [0] | Some v \<Rightarrow> 1 # v)"

definition raw_to_value :: "bytes \<Rightarrow> (bytes option) res" where
  "raw_to_value raw =
     rbind (index raw 0) (\<lambda>tag.
       if tag = 0 then Ok None
       else if tag = 1 then rbind (slice 1 (length raw) raw) (\<lambda>v. Ok (Some v))
       else Panic)"

definition compare_full_key :: "bytes \<Rightarrow> bytes \<Rightarrow> ordering res" where
  "compare_full_key lhs rhs =
     (if length lhs < 8 \<or> length rhs < 8 then Panic
      else let lkey = take (length lhs - 8) lhs;
               rkey = take (length rhs - 8) rhs;
               lts = drop (length lhs - 8) lhs;
               rts = drop (length rhs - 8) rhs
           in Ok (then_with (cmp lkey rkey) (cmp lts rts)))"

text \<open>\<open>FullKeyComparator\<close>, the comparator of the memtable's skiplist.\<close>

definition compare_key :: "bytes \<Rightarrow> bytes \<Rightarrow> ordering res" where
  "compare_key lhs rhs = compare_full_key lhs rhs"

definition same_key :: "bytes \<Rightarrow> bytes \<Rightarrow> bool res" where
  "same_key lhs rhs =
     (if length lhs \<noteq> length rhs then Ok False
      else if length lhs < 8 then Panic
      else Ok (take (length lhs - 8) lhs = take (length rhs - 8) rhs))"


section \<open>Variable-length integers: length and round trip\<close>

lemma put_var_u32_append: "put_var_u32 n buf = buf @ put_var_u32 n []"
  by (simp add: put_var_u32_def)

lemma length_put_var_u32 [simp]: "length (put_var_u32 n buf) = length buf + var_u32_len n"
  by (simp add: put_var_u32_def var_u32_len_def)

lemma var_u32_len_bounds: "0 < var_u32_len n \<and> var_u32_len n \<le> 5"
  by (simp add: var_u32_len_def)

lemma bit_127_iff: "bit (127::int) i \<longleftrightarrow> i < 7"
proof -
  have "(127::int) = mask 7" by (simp add: mask_eq_exp_minus_1)
  then show ?thesis by (simp only: bit_mask_iff) auto
qed

lemma bit_128_iff: "bit (128::int) i \<longleftrightarrow> i = 7"
proof -
  have "(128::int) = 2 ^ 7" by simp
  then show ?thesis by (simp only: bit_exp_iff) auto
qed

lemma tagged_byte_continues: "ucast (ucast (m OR MASK :: u32) :: byte) AND MASK \<noteq> 0"
proof -
  have "bit (ucast (ucast (m OR MASK :: u32) :: byte) AND MASK) 7"
    by (simp add: MASK_def bit_simps bit_128_iff)
  then show ?thesis by (metis bit_0_eq bot_apply bot_bool_def)
qed

lemma tagged_byte_payload:
  "ucast (ucast (m OR MASK :: u32) :: byte) AND (MASK - 1) = m AND 127"
  by (auto intro!: bit_word_eqI simp: bit_simps MASK_def bit_127_iff bit_128_iff)

lemma unat_exp_u32: "k < 32 \<Longrightarrow> unat (push_bit k 1 :: u32) = 2 ^ k"
proof -
  assume "k < 32"
  then have "(2::nat) ^ k < 2 ^ 32" by (rule power_strict_increasing) simp
  moreover have "(push_bit k 1 :: u32) = of_nat (2 ^ k)" by (simp add: push_bit_eq_mult)
  ultimately show ?thesis by (simp only: unat_of_nat) simp
qed

lemma bit_below_exp:
  assumes "(m::u32) < push_bit k 1" "k < 32" "bit m i" shows "i < k"
proof (rule ccontr)
  assume "\<not> i < k"
  have "unat m < 2 ^ k" using assms(1,2) by (simp only: word_less_nat_alt unat_exp_u32)
  also have "(2::nat) ^ k \<le> 2 ^ i" using \<open>\<not> i < k\<close> by simp
  finally have "unat m div 2 ^ i = 0" by simp
  moreover have "bit (unat m) i" using assms(3) by (simp add: bit_unsigned_iff)
  ultimately show False by (simp add: bit_iff_odd)
qed

lemma last_byte:
  assumes "(m::u32) < 128"
  shows "ucast (ucast m :: byte) = m" and "m AND MASK = 0"
proof -
  have low: "bit m i \<Longrightarrow> i < 7" for i using bit_below_exp[of m 7 i] assms by simp
  have "bit m i \<Longrightarrow> i < 8" for i using low[of i] by simp
  then show "ucast (ucast m :: byte) = m"
    by (auto intro!: bit_word_eqI simp: bit_simps)
  show "m AND MASK = 0"
    using low by (force intro!: bit_word_eqI simp: bit_simps MASK_def bit_128_iff)
qed

lemma get_var_u32_more:
  "shift < 32 \<Longrightarrow> get_var_u32_loop acc shift (ucast (m OR MASK) # bs) =
     get_var_u32_loop (acc OR push_bit shift (m AND 127)) (shift + 7) bs"
  by (simp add: Let_def tagged_byte_continues tagged_byte_payload)

lemma get_var_u32_last:
  "shift < 32 \<Longrightarrow> m < 128 \<Longrightarrow>
     get_var_u32_loop acc shift (ucast m # bs) = Ok (acc OR push_bit shift m, bs)"
  by (simp add: Let_def last_byte)

lemma join_seven_bits:
  "push_bit k (drop_bit k n AND 127) OR push_bit (k + 7) (drop_bit (k + 7) n) =
     push_bit k (drop_bit k (n::u32))"
proof (rule bit_word_eqI)
  fix i
  show "bit (push_bit k (drop_bit k n AND 127) OR push_bit (k + 7) (drop_bit (k + 7) n)) i
    = bit (push_bit k (drop_bit k n)) i"
    by (cases "i < k + 7") (auto simp: bit_simps bit_127_iff)
qed

lemma drop_bit_small:
  assumes "(m::u32) < push_bit (j + 7) 1" "j + 7 < 32" shows "drop_bit j m < 128"
proof -
  have "unat m < 2 ^ j * 128"
    using assms by (simp only: word_less_nat_alt unat_exp_u32) (simp add: power_add)
  then have "unat m div 2 ^ j < 128" by (simp add: less_mult_imp_div_less mult.commute)
  then show ?thesis
    by (simp add: word_less_nat_alt unat_drop_bit_eq) (simp add: drop_bit_eq_div)
qed

lemma drop_bit_28_small: "drop_bit 28 (m::u32) < 128"
proof -
  have "unat m < 2 ^ 28 * 16" using unsigned_less[of m] by simp
  then have "unat m div 2 ^ 28 < 16" by (simp add: less_mult_imp_div_less mult.commute)
  then show ?thesis
    by (simp add: word_less_nat_alt unat_drop_bit_eq) (simp add: drop_bit_eq_div)
qed

lemmas get_var_u32_steps = get_var_u32_def put_var_u32_def get_var_u32_last get_var_u32_more or.assoc

lemma get_put_var_u32 [codec_simps]: "get_var_u32 (put_var_u32 n [] @ rest) = Ok (n, rest)"
proof -
  note joins = join_seven_bits[of 0 n] join_seven_bits[of 7 n] join_seven_bits[of 14 n]
    join_seven_bits[of 21 n]
  consider "n < push_bit 7 1" | "\<not> n < push_bit 7 1" "n < push_bit 14 1"
    | "\<not> n < push_bit 7 1" "\<not> n < push_bit 14 1" "n < push_bit 21 1"
    | "\<not> n < push_bit 7 1" "\<not> n < push_bit 14 1" "\<not> n < push_bit 21 1" "n < push_bit 28 1"
    | "\<not> n < push_bit 7 1" "\<not> n < push_bit 14 1" "\<not> n < push_bit 21 1" "\<not> n < push_bit 28 1"
    by blast
  then show ?thesis
  proof cases
    case 1
    then show ?thesis by (simp add: get_var_u32_steps del: get_var_u32_loop.simps)
  next
    case 2
    with drop_bit_small[of n 7] joins show ?thesis
      by (simp add: get_var_u32_steps del: get_var_u32_loop.simps)
  next
    case 3
    with drop_bit_small[of n 14] joins show ?thesis
      by (simp add: get_var_u32_steps del: get_var_u32_loop.simps)
  next
    case 4
    with drop_bit_small[of n 21] joins show ?thesis
      by (simp add: get_var_u32_steps del: get_var_u32_loop.simps)
  next
    case 5
    with drop_bit_28_small[of n] joins show ?thesis
      by (simp add: get_var_u32_steps del: get_var_u32_loop.simps)
  qed
qed

lemma get_put_var_length_prefixed_slice [codec_simps]:
  "length s < 2 ^ 32 \<Longrightarrow>
     get_var_length_prefixed_slice (put_var_length_prefixed_slice s [] @ rest) = Ok (s, rest)"
  by (simp add: get_var_length_prefixed_slice_def put_var_length_prefixed_slice_def get_put_var_u32
      unat_of_nat copy_to_bytes_def)

lemma put_var_length_prefixed_slice_append:
  "put_var_length_prefixed_slice s buf = buf @ put_var_length_prefixed_slice s []"
  by (simp add: put_var_length_prefixed_slice_def put_var_u32_append[of _ buf])

lemma get_put_length_prefixed_slice [codec_simps]:
  "length s < 2 ^ 32 \<Longrightarrow>
     get_length_prefixed_slice (put_length_prefixed_slice s [] @ rest) = Ok (s, rest)"
  by (simp add: get_length_prefixed_slice_def put_length_prefixed_slice_def codec_simps slice_def
      advance_def)

lemma put_length_prefixed_slice_append:
  "put_length_prefixed_slice s buf = buf @ put_length_prefixed_slice s []"
  by (simp add: put_length_prefixed_slice_def)

section \<open>The difference of two keys\<close>

text \<open>Reference definition: the length of the longest common prefix.\<close>

fun lcp :: "'a list \<Rightarrow> 'a list \<Rightarrow> nat" where
  "lcp (x # xs) (y # ys) = (if x = y then Suc (lcp xs ys) else 0)"
| "lcp _ _ = 0"

lemma lcp_le: "lcp xs ys \<le> length xs" "lcp xs ys \<le> length ys"
  by (induction xs ys rule: lcp.induct) auto

lemma lcp_take: "take (lcp xs ys) xs = take (lcp xs ys) ys"
  by (induction xs ys rule: lcp.induct) auto

lemma lcp_unique:
  "i \<le> length xs \<Longrightarrow> i \<le> length ys \<Longrightarrow> take i xs = take i ys \<Longrightarrow>
     (i < length xs \<Longrightarrow> i < length ys \<Longrightarrow> xs ! i \<noteq> ys ! i) \<Longrightarrow> lcp xs ys = i"
proof (induction xs ys arbitrary: i rule: lcp.induct)
  case (1 x xs y ys)
  then show ?case by (cases i) auto
qed auto

lemma take_extend:
  "take i xs = take i ys \<Longrightarrow> take k (drop i xs) = take k (drop i ys) \<Longrightarrow>
     take (i + k) xs = take (i + k) ys"
  by (simp add: take_add)

lemma le_value_inject: "length xs = length ys \<Longrightarrow> le_value xs = le_value ys \<longleftrightarrow> xs = ys"
  by (metis le_bytes_le_value)

lemma bytes_diff_skip8_common:
  assumes "end \<le> length base" "end \<le> length target" "i \<le> end" "take i base = take i target"
  shows "bytes_diff_skip8 base target end i \<le> end \<and>
     take (bytes_diff_skip8 base target end i) base =
       take (bytes_diff_skip8 base target end i) target"
  using assms
proof (induction base target "end" i rule: bytes_diff_skip8.induct)
  case (1 base target "end" i)
  show ?case
  proof (cases "i + 8 \<le> end \<and> u64_at base i = u64_at target i")
    case True
    then have "take (i + 8) base = take (i + 8) target"
      using 1(2-) by (intro take_extend) (auto simp: u64_at_def le_value_inject)
    with 1 True show ?thesis by (simp add: bytes_diff_skip8.simps[of _ _ _ i])
  next
    case False
    with 1 show ?thesis by (auto simp: bytes_diff_skip8.simps[of _ _ _ i])
  qed
qed

lemma bytes_diff_skip1_lcp:
  assumes "end = min (length base) (length target)" "i \<le> end" "take i base = take i target"
  shows "bytes_diff_skip1 base target end i = drop (lcp base target) target"
  using assms
proof (induction base target "end" i rule: bytes_diff_skip1.induct)
  case (1 base target "end" i)
  show ?case
  proof (cases "i < end \<and> base ! i = target ! i")
    case True
    with 1 have "take (Suc i) base = take (Suc i) target" by (simp add: take_Suc_conv_app_nth)
    with 1 True show ?thesis by (simp add: bytes_diff_skip1.simps[of _ _ _ i])
  next
    case False
    then have "lcp base target = i" using 1(2-) by (intro lcp_unique) auto
    with 1(2-) False show ?thesis
      by (auto simp: bytes_diff_skip1.simps[of _ _ _ i] min_def)
  qed
qed

lemma bytes_diff_lcp: "bytes_diff base target = drop (lcp base target) target"
proof -
  define e where "e = min (length base) (length target)"
  define i where "i = bytes_diff_skip8 base target e 0"
  define i' where "i' = (if i + 4 \<le> e \<and> u32_at base i = u32_at target i then i + 4 else i)"
  have i: "i \<le> e \<and> take i base = take i target"
    using bytes_diff_skip8_common[of e base target 0] by (simp add: i_def e_def)
  have "i' \<le> e \<and> take i' base = take i' target"
  proof (cases "i + 4 \<le> e \<and> u32_at base i = u32_at target i")
    case True
    then have "take (i + 4) base = take (i + 4) target"
      using i by (intro take_extend) (auto simp: u32_at_def le_value_inject e_def)
    with True show ?thesis by (simp add: i'_def)
  next
    case False
    with i show ?thesis unfolding i'_def by auto
  qed
  then have "bytes_diff_skip1 base target e i' = drop (lcp base target) target"
    by (intro bytes_diff_skip1_lcp) (auto simp: e_def)
  then show ?thesis
    by (simp only: bytes_diff_def Let_def flip: e_def i_def i'_def)
qed

lemma key_diff_split:
  obtains p where "target = p @ key_diff base target" "p = take (length p) base"
proof
  show "target = take (lcp base target) target @ key_diff base target"
    by (simp add: key_diff_def bytes_diff_lcp)
  show "take (lcp base target) target = take (length (take (lcp base target) target)) base"
    by (metis length_take lcp_le(2) lcp_take min.absorb2)
qed

lemma length_key_diff: "length (key_diff base target) = length target - lcp base target"
  by (simp add: key_diff_def bytes_diff_lcp)

section \<open>Full keys and raw values\<close>

lemma unat_u64_mod [simp]: "unat (s::u64) mod 18446744073709551616 = unat s"
  using unsigned_less[of s, where 'a = nat] by simp

lemma unat_not_u64: "unat (NOT x) = 2 ^ 64 - 1 - unat x" for x :: u64
proof -
  have "NOT x = - 1 - x" by (simp add: not_eq_complement)
  moreover have "unat (- 1 - x) = unat (- 1 :: u64) - unat x" by (rule unat_sub) simp
  ultimately show ?thesis by (simp add: unsigned_minus_1_eq_mask mask_eq_exp_minus_1)
qed

lemma not_less_not_u64: "NOT s < NOT t \<longleftrightarrow> t < s" for s t :: u64
  using unsigned_less[of s, where 'a = nat] unsigned_less[of t, where 'a = nat]
  by (simp add: word_less_nat_alt unat_not_u64) linarith

lemma length_full_key [simp]: "length (full_key k s) = length k + 8"
  by (simp add: full_key_def)

lemma user_key_full_key [simp]: "user_key (full_key k s) = Ok k"
  by (simp add: user_key_def full_key_def slice_def)

lemma sequence_full_key [simp]: "sequence (full_key k s) = Ok s"
  by (simp add: sequence_def full_key_def slice_def codec_simps)

lemma full_key_inject [simp]: "full_key k s = full_key l t \<longleftrightarrow> k = l \<and> s = t"
  by (metis user_key_full_key sequence_full_key result.inject(1))

text \<open>Every byte string of at least eight bytes is a full key.\<close>

lemma full_key_exhaust:
  assumes "8 \<le> length fk" obtains k s where "fk = full_key k s"
proof
  define ts where "ts = drop (length fk - 8) fk"
  have len: "length ts = 8" using assms by (simp add: ts_def)
  have "be_value ts < 256 ^ 8" using le_value_bound[of "rev ts"] len by (simp add: be_value_def)
  then have "unat (of_nat (be_value ts) :: u64) = be_value ts" by (simp add: unat_of_nat)
  moreover have "be_bytes 8 (be_value ts) = ts"
    using le_bytes_le_value[of "rev ts"] len by (simp add: be_bytes_def be_value_def)
  ultimately have "be_bytes 8 (unat (NOT (NOT (of_nat (be_value ts) :: u64)))) = ts" by simp
  then show "fk = full_key (take (length fk - 8) fk) (NOT (of_nat (be_value ts)))"
    by (simp add: full_key_def ts_def)
qed

lemma raw_to_value_raw_value [simp]: "raw_to_value (raw_value v) = Ok v"
  by (cases v) (auto simp: raw_to_value_def raw_value_def slice_def)

lemma le_value_append: "le_value (xs @ ys) = le_value xs + 256 ^ length xs * le_value ys"
  by (induction xs) (auto simp: algebra_simps)

lemma be_value_Cons: "be_value (b # bs) = unat b * 256 ^ length bs + be_value bs"
  by (simp add: be_value_def le_value_append)

lemma be_value_bound: "be_value bs < 256 ^ length bs"
  using le_value_bound[of "rev bs"] by (simp add: be_value_def)

lemma be_value_first_byte:
  assumes "length xs = length ys" "x < y"
  shows "be_value (x # xs) < be_value (y # ys)"
proof -
  have "Suc (unat x) \<le> unat y" using assms(2) by (simp add: word_less_nat_alt)
  then have "Suc (unat x) * 256 ^ length ys \<le> unat y * 256 ^ length ys" by (rule mult_le_mono1)
  with be_value_bound[of xs] assms(1) show ?thesis by (simp add: be_value_Cons)
qed

text \<open>Big-endian integers of one width compare as byte strings.\<close>

lemma less_bytes_be_value:
  "length xs = length ys \<Longrightarrow> xs < ys \<longleftrightarrow> be_value xs < be_value ys"
proof (induction xs ys rule: list_induct2)
  case (Cons x xs y ys)
  consider "x < y" | "x = y" | "y < x" by force
  then show ?case
  proof cases
    case 1
    with be_value_first_byte[of xs ys x y] Cons show ?thesis by simp
  next
    case 2
    with Cons show ?thesis by (simp add: be_value_Cons)
  next
    case 3
    with be_value_first_byte[of ys xs y x] Cons show ?thesis by auto
  qed
qed simp

text \<open>The order of full keys: user keys ascending, sequences of one user key descending.\<close>

definition key_ord :: "bytes \<Rightarrow> bytes \<times> bytes" where
  "key_ord fk = (take (length fk - 8) fk, drop (length fk - 8) fk)"

lemma key_ord_inject: "key_ord a = key_ord b \<longleftrightarrow> a = b"
  by (metis append_take_drop_id key_ord_def prod.inject)

lemma compare_full_key_cmp:
  "8 \<le> length a \<Longrightarrow> 8 \<le> length b \<Longrightarrow> compare_full_key a b = Ok (cmp (key_ord a) (key_ord b))"
  by (auto simp: compare_full_key_def key_ord_def Let_def cmp_def less_prod_def)

lemma key_ord_full_key_less:
  "key_ord (full_key k s) < key_ord (full_key l t) \<longleftrightarrow> k < l \<or> k = l \<and> t < s"
proof -
  have "be_bytes 8 (unat (NOT s)) < be_bytes 8 (unat (NOT t)) \<longleftrightarrow> t < s"
    using not_less_not_u64[of s t]
    by (simp add: less_bytes_be_value be_value_be_bytes word_less_nat_alt)
  then show ?thesis by (auto simp: key_ord_def full_key_def less_prod_def)
qed

lemma same_key_full_key [simp]: "same_key (full_key k s) (full_key l t) = Ok (k = l)"
  by (auto simp: same_key_def full_key_def)

section \<open>Properties\<close>

text \<open>A variable-length integer decodes to the value that was encoded, whatever bytes follow it,
  the decoder stops exactly behind it, and its encoding takes \<open>var_u32_len\<close> bytes, between one and
  five.\<close>

theorem var_u32_round_trip:
  "get_var_u32 (put_var_u32 n [] @ rest) = Ok (n, rest) \<and>
   length (put_var_u32 n []) = var_u32_len n \<and> 1 \<le> var_u32_len n \<and> var_u32_len n \<le> 5"
  using var_u32_len_bounds[of n] by (simp add: get_put_var_u32)

text \<open>The wide-step \<open>bytes_diff\<close> computes what a byte-by-byte comparison computes: it returns
  \<open>target\<close> without the longest prefix it shares with \<open>base\<close>, for all lengths.\<close>

theorem bytes_diff_drops_common_prefix:
  "bytes_diff base target = drop (lcp base target) target \<and>
   take (lcp base target) base = take (lcp base target) target \<and>
   (lcp base target < length base \<and> lcp base target < length target \<longrightarrow>
      base ! lcp base target \<noteq> target ! lcp base target)"
proof -
  have "lcp base target < length base \<Longrightarrow> lcp base target < length target \<Longrightarrow>
    base ! lcp base target \<noteq> target ! lcp base target"
    by (induction base target rule: lcp.induct) auto
  then show ?thesis using lcp_take[of base target] by (simp add: bytes_diff_lcp)
qed

theorem bytes_diff_drops_common_prefix_witness:
  "lcp [1, 2, 3, 4, 5, 6, 7, 8, 9, 10] [1, 2, 3, 4, 5, 6, 7, 8, 9, 11, 12 :: byte] = 9 \<and>
   bytes_diff [1, 2, 3, 4, 5, 6, 7, 8, 9, 10] [1, 2, 3, 4, 5, 6, 7, 8, 9, 11, 12] = [11, 12]"
  using bytes_diff_drops_common_prefix
    [of "[1, 2, 3, 4, 5, 6, 7, 8, 9, 10]" "[1, 2, 3, 4, 5, 6, 7, 8, 9, 11, 12]"]
  by simp

text \<open>The full-key comparison orders keys by user key ascending and, within one user key, by
  sequence descending, so the newest version of a key comes first; user key and sequence are read
  back from the full key.\<close>

theorem full_key_order:
  "compare_full_key (full_key k s) (full_key l t) =
     Ok (if k < l \<or> k = l \<and> t < s then Less else if k = l \<and> s = t then Equal else Greater) \<and>
   user_key (full_key k s) = Ok k \<and> sequence (full_key k s) = Ok s"
  by (auto simp: compare_full_key_cmp cmp_def key_ord_full_key_less key_ord_inject)

end
