(* ===== verification/Compression.thy ===== *)
theory Compression
  imports Prelude
begin

text \<open>
  \<open>common/src/coding.rs\<close>: the compression algorithm tag stored in front of block checksums.
  The LZ4 codec itself is the \<open>lz4\<close> crate: the definitions that compress take the frame encoder
  and the stream decoder as arguments. A decoder returns \<open>None\<close> where the crate reports an error.
\<close>

datatype compression_algorithm = NoCompression | Lz4

definition compression_encode :: "compression_algorithm \<Rightarrow> bytes \<Rightarrow> bytes" where
  "compression_encode a buf = buf @ [case a of NoCompression \<Rightarrow> 0 | Lz4 \<Rightarrow> 1]"

definition compression_decode :: "bytes \<Rightarrow> (compression_algorithm \<times> bytes) res" where
  "compression_decode buf =
     rbind (get_u8 buf) (\<lambda>(v, rest).
       if v = 0 then Ok (NoCompression, rest)
       else if v = 1 then Ok (Lz4, rest)
       else Err (Other ''not valid compression algorithm''))"

definition u64_of_compression :: "compression_algorithm \<Rightarrow> nat" where
  "u64_of_compression ca = (case ca of NoCompression \<Rightarrow> 0 | Lz4 \<Rightarrow> 1)"

definition compression_try_from :: "byte \<Rightarrow> compression_algorithm res" where
  "compression_try_from v =
     (if v = 0 then Ok NoCompression else if v = 1 then Ok Lz4
      else Err (Other ''not valid compression algorithm''))"

lemma compression_decode_encode [codec_simps]:
  "compression_decode (compression_encode a [] @ rest) = Ok (a, rest)"
  by (cases a) (simp_all add: compression_decode_def compression_encode_def)

lemma compression_try_from_u64:
  "compression_try_from (of_nat (u64_of_compression ca)) = Ok ca"
  by (cases ca) (simp_all add: compression_try_from_def u64_of_compression_def)

text \<open>What the code relies on of the \<open>lz4\<close> crate: decoding a frame yields the bytes that were
  encoded, and the stream decoder stops at the end of the frame whatever bytes follow.\<close>

definition lz4_frames :: "(bytes \<Rightarrow> bytes) \<Rightarrow> (bytes \<Rightarrow> bytes option) \<Rightarrow> bool" where
  "lz4_frames compress decompress \<longleftrightarrow> (\<forall>raw rest. decompress (compress raw @ rest) = Some raw)"

text \<open>A concrete codec with that behaviour, for witnesses: a stored block behind its length.\<close>

definition stored_compress :: "bytes \<Rightarrow> bytes" where
  "stored_compress raw = concat (map (\<lambda>b. [1, b]) raw) @ [0]"

fun stored_decompress :: "bytes \<Rightarrow> bytes option" where
  "stored_decompress [] = None"
| "stored_decompress (t # bs) =
     (if t = 0 then Some []
      else case bs of [] \<Rightarrow> None | b # bs' \<Rightarrow> map_option (Cons b) (stored_decompress bs'))"

lemma lz4_frames_stored: "lz4_frames stored_compress stored_decompress"
proof -
  have "stored_decompress (stored_compress raw @ rest) = Some raw" for raw rest
    by (induction raw) (auto simp: stored_compress_def)
  then show ?thesis by (simp add: lz4_frames_def)
qed

end
