(* ===== verification/RaftEntry.thy ===== *)
theory RaftEntry
  imports Coding Compression
begin

text \<open>
  \<open>storage/src/raft_log_store/entry.rs\<close>: the entries of the raft log file, their byte encoding, and
  the builder that groups consecutive raft log entries of one group and term into batches.

  A batch's \<open>raw\<close> field holds the concatenated payloads, \<open>offsets\<close> their start positions plus a
  final phantom offset, \<open>data\<close> the compressed and checksummed form that is written. Decoding reads
  the meta part only.
\<close>

record raft_log_batch =
  rb_group :: nat
  rb_term :: nat
  rb_first_index :: nat
  rb_offsets :: "nat list"
  rb_ctxs :: "bytes list"
  rb_data_len :: nat
  rb_raw :: bytes
  rb_data :: bytes

definition default_raft_log_batch :: raft_log_batch where
  "default_raft_log_batch =
     \<lparr>rb_group = 0, rb_term = 0, rb_first_index = 0, rb_offsets = [], rb_ctxs = [],
      rb_data_len = 0, rb_raw = [], rb_data = []\<rparr>"

record truncate_entry =
  truncate_group :: nat
  truncate_index :: nat

record compact_entry =
  compact_group :: nat
  compact_index :: nat

record mask_entry =
  mask_group :: nat
  mask_index_at :: nat

datatype kv = Put nat bytes bytes | Delete nat bytes

datatype entry =
    RaftLogBatch raft_log_batch
  | Truncate truncate_entry
  | Compact compact_entry
  | Mask mask_entry
  | Kv kv

section \<open>Batches\<close>

definition batch_len :: "raft_log_batch \<Rightarrow> nat res" where
  "batch_len b = (if rb_offsets b = [] then Panic else Ok (length (rb_offsets b) - 1))"

definition data_segment_location :: "raft_log_batch \<Rightarrow> nat \<times> nat" where
  "data_segment_location b =
     (8 + 8 + 8 + 8
        + sum_list (map (\<lambda>offset. var_u32_len (of_nat offset)) (rb_offsets b))
        + sum_list (map (\<lambda>ctx. var_u32_len (of_nat (length ctx)) + length ctx) (rb_ctxs b))
        + 8,
      rb_data_len b)"

definition batch_location :: "raft_log_batch \<Rightarrow> nat \<Rightarrow> (nat \<times> nat) res" where
  "batch_location b i =
     rbind (batch_len b) (\<lambda>len.
     rbind (rassert (i < len)) (\<lambda>_.
     rbind (index (rb_offsets b) i) (\<lambda>offset.
     rbind (index (rb_offsets b) (i + 1)) (\<lambda>next.
       if next < offset then Panic else Ok (offset, next - offset)))))"

definition batch_ctx :: "raft_log_batch \<Rightarrow> nat \<Rightarrow> bytes res" where
  "batch_ctx b i =
     rbind (batch_len b) (\<lambda>len.
     rbind (rassert (i < len)) (\<lambda>_. index (rb_ctxs b) i))"

definition take_raw :: "raft_log_batch \<Rightarrow> bytes \<times> raft_log_batch" where
  "take_raw b = (rb_raw b, b\<lparr>rb_raw := []\<rparr>)"

text \<open>The data segment: compressed payloads, algorithm tag, checksum.\<close>

definition data_segment :: "(bytes \<Rightarrow> bytes) \<Rightarrow> (bytes \<Rightarrow> nat) \<Rightarrow> bytes \<Rightarrow> bytes" where
  "data_segment compress crc32 raw =
     (let buf = compression_encode Lz4 (compress raw) in put_u32_le (crc32sum crc32 buf) buf)"

definition encode_data ::
  "(bytes \<Rightarrow> bytes) \<Rightarrow> (bytes \<Rightarrow> nat) \<Rightarrow> raft_log_batch \<Rightarrow> raft_log_batch" where
  "encode_data compress crc32 b =
     (let d = data_segment compress crc32 (rb_raw b) in b\<lparr>rb_data := d, rb_data_len := length d\<rparr>)"

definition batch_encode :: "raft_log_batch \<Rightarrow> bytes \<Rightarrow> bytes res" where
  "batch_encode b buf =
     rbind (rassert (rb_offsets b \<noteq> [])) (\<lambda>_.
       let buf = put_u64_le (rb_group b) buf;
           buf = put_u64_le (rb_term b) buf;
           buf = put_u64_le (rb_first_index b) buf;
           buf = put_u64_le (length (rb_offsets b)) buf;
           buf = fold (\<lambda>offset buf. put_var_u32 (of_nat offset) buf) (rb_offsets b) buf;
           buf = fold (\<lambda>ctx buf. put_var_length_prefixed_slice ctx buf) (rb_ctxs b) buf;
           buf = put_u64_le (rb_data_len b) buf
       in Ok (buf @ rb_data b))"

text \<open>A loop that reads \<open>n\<close> values with one decoder.\<close>

fun get_many :: "(bytes \<Rightarrow> ('a \<times> bytes) res) \<Rightarrow> nat \<Rightarrow> bytes \<Rightarrow> ('a list \<times> bytes) res" where
  "get_many get 0 buf = Ok ([], buf)"
| "get_many get (Suc n) buf =
     rbind (get buf) (\<lambda>(x, buf). rbind (get_many get n buf) (\<lambda>(xs, buf). Ok (x # xs, buf)))"

definition get_offset :: "bytes \<Rightarrow> (nat \<times> bytes) res" where
  "get_offset buf = rbind (get_var_u32 buf) (\<lambda>(v, buf). Ok (unat v, buf))"

definition batch_decode :: "bytes \<Rightarrow> (raft_log_batch \<times> bytes) res" where
  "batch_decode buf =
     rbind (get_u64_le buf) (\<lambda>(group, buf).
     rbind (get_u64_le buf) (\<lambda>(term, buf).
     rbind (get_u64_le buf) (\<lambda>(first_index, buf).
     rbind (get_u64_le buf) (\<lambda>(offsets_len, buf).
     rbind (get_many get_offset offsets_len buf) (\<lambda>(offsets, buf).
     rbind (rassert (offsets_len \<noteq> 0)) (\<lambda>_.
     rbind (get_many get_var_length_prefixed_slice (offsets_len - 1) buf) (\<lambda>(ctxs, buf).
     rbind (get_u64_le buf) (\<lambda>(data_segment_len, buf).
     rbind (advance data_segment_len buf) (\<lambda>buf.
       Ok (\<lparr>rb_group = group, rb_term = term, rb_first_index = first_index,
            rb_offsets = offsets, rb_ctxs = ctxs, rb_data_len = data_segment_len,
            rb_raw = [], rb_data = []\<rparr>, buf))))))))))"

definition extract_data_segment ::
  "(bytes \<Rightarrow> bytes option) \<Rightarrow> (bytes \<Rightarrow> nat) \<Rightarrow> bytes \<Rightarrow> bytes res" where
  "extract_data_segment decompress crc32 buf =
     rbind (rassert (4 \<le> length buf)) (\<lambda>_.
     rbind (slice (length buf - 4) (length buf) buf) (\<lambda>sum_bytes.
     rbind (get_u32_le sum_bytes) (\<lambda>(checksum, _).
     rbind (slice 0 (length buf - 4) buf) (\<lambda>buf.
       if \<not> crc32check crc32 buf checksum
       then Err (RaftLogStoreError (ChecksumMismatch checksum (crc32sum crc32 buf)))
       else
         rbind (rassert (1 \<le> length buf)) (\<lambda>_.
         rbind (slice (length buf - 1) (length buf) buf) (\<lambda>tag.
         rbind (map_err (\<lambda>_. RaftLogStoreError (RaftDecodeError [])) (compression_decode tag))
           (\<lambda>(compression, _).
         rbind (slice 0 (length buf - 1) buf) (\<lambda>buf.
           case compression of
             NoCompression \<Rightarrow> Ok buf
           | Lz4 \<Rightarrow> unwrap (decompress buf)))))))))"

section \<open>Other entries\<close>

definition truncate_encode :: "truncate_entry \<Rightarrow> bytes \<Rightarrow> bytes" where
  "truncate_encode t buf = put_u64_le (truncate_index t) (put_u64_le (truncate_group t) buf)"

definition truncate_decode :: "bytes \<Rightarrow> (truncate_entry \<times> bytes) res" where
  "truncate_decode buf =
     rbind (get_u64_le buf) (\<lambda>(group, buf).
     rbind (get_u64_le buf) (\<lambda>(i, buf).
       Ok (\<lparr>truncate_group = group, truncate_index = i\<rparr>, buf)))"

definition compact_encode :: "compact_entry \<Rightarrow> bytes \<Rightarrow> bytes" where
  "compact_encode t buf = put_u64_le (compact_index t) (put_u64_le (compact_group t) buf)"

definition compact_decode :: "bytes \<Rightarrow> (compact_entry \<times> bytes) res" where
  "compact_decode buf =
     rbind (get_u64_le buf) (\<lambda>(group, buf).
     rbind (get_u64_le buf) (\<lambda>(i, buf).
       Ok (\<lparr>compact_group = group, compact_index = i\<rparr>, buf)))"

definition mask_encode :: "mask_entry \<Rightarrow> bytes \<Rightarrow> bytes" where
  "mask_encode t buf = put_u64_le (mask_index_at t) (put_u64_le (mask_group t) buf)"

definition mask_decode :: "bytes \<Rightarrow> (mask_entry \<times> bytes) res" where
  "mask_decode buf =
     rbind (get_u64_le buf) (\<lambda>(group, buf).
     rbind (get_u64_le buf) (\<lambda>(i, buf).
       Ok (\<lparr>mask_group = group, mask_index_at = i\<rparr>, buf)))"

fun kv_encode :: "kv \<Rightarrow> bytes \<Rightarrow> bytes" where
  "kv_encode (Put gid key val) buf =
     put_length_prefixed_slice val
       (put_length_prefixed_slice key (put_u64_le gid buf) @ [1])"
| "kv_encode (Delete gid key) buf =
     put_length_prefixed_slice key (put_u64_le gid buf) @ [0]"

definition kv_decode :: "bytes \<Rightarrow> (kv \<times> bytes) res" where
  "kv_decode buf =
     rbind (get_u64_le buf) (\<lambda>(group, buf).
     rbind (get_length_prefixed_slice buf) (\<lambda>(key, buf).
     rbind (get_u8 buf) (\<lambda>(tag, buf).
       if tag = 1 then
         rbind (get_length_prefixed_slice buf) (\<lambda>(val, buf). Ok (Put group key val, buf))
       else if tag = 0 then Ok (Delete group key, buf)
       else Panic)))"

fun entry_encode :: "entry \<Rightarrow> bytes \<Rightarrow> bytes res" where
  "entry_encode (RaftLogBatch b) buf = batch_encode b (buf @ [0])"
| "entry_encode (Truncate t) buf = Ok (truncate_encode t (buf @ [1]))"
| "entry_encode (Compact t) buf = Ok (compact_encode t (buf @ [2]))"
| "entry_encode (Mask t) buf = Ok (mask_encode t (buf @ [3]))"
| "entry_encode (Kv kv) buf = Ok (kv_encode kv (buf @ [4]))"

definition entry_decode :: "bytes \<Rightarrow> (entry \<times> bytes) res" where
  "entry_decode buf =
     rbind (get_u8 buf) (\<lambda>(tag, buf).
       if tag = 0 then rmap (map_prod RaftLogBatch id) (batch_decode buf)
       else if tag = 1 then rmap (map_prod Truncate id) (truncate_decode buf)
       else if tag = 2 then rmap (map_prod Compact id) (compact_decode buf)
       else if tag = 3 then rmap (map_prod Mask id) (mask_decode buf)
       else if tag = 4 then rmap (map_prod Kv id) (kv_decode buf)
       else Panic)"

section \<open>The batch builder\<close>

record raft_log_batch_builder =
  bb_current :: raft_log_batch
  bb_batches :: "raft_log_batch list"

definition default_builder :: raft_log_batch_builder where
  "default_builder = \<lparr>bb_current = default_raft_log_batch, bb_batches = []\<rparr>"

text \<open>The sum of the first index and the number of entries is taken in \<open>u64\<close> and only when group and term
  agree.\<close>

definition may_rotate ::
  "nat \<Rightarrow> nat \<Rightarrow> nat \<Rightarrow> raft_log_batch_builder \<Rightarrow> raft_log_batch_builder res" where
  "may_rotate gid term i bb =
     (let cur = bb_current bb in
      if rb_offsets cur = [] then Ok bb
      else
        rbind (if rb_group cur \<noteq> gid \<or> rb_term cur \<noteq> term then Ok True
               else rmap (\<lambda>next. next \<noteq> i) (add_u64 (rb_first_index cur) (length (rb_offsets cur)))) (\<lambda>rotate.
        Ok (if rotate
            then bb\<lparr>bb_current := default_raft_log_batch,
                    bb_batches := bb_batches bb @
                      [cur\<lparr>rb_offsets := rb_offsets cur @ [length (rb_raw cur)]\<rparr>]\<rparr>
            else bb)))"

definition builder_add ::
  "nat \<Rightarrow> nat \<Rightarrow> nat \<Rightarrow> bytes \<Rightarrow> bytes \<Rightarrow> raft_log_batch_builder \<Rightarrow> raft_log_batch_builder res" where
  "builder_add gid term i ctx data bb =
     rbind (may_rotate gid term i bb) (\<lambda>bb.
     let cur = bb_current bb;
         cur = (if rb_offsets cur = []
                then cur\<lparr>rb_group := gid, rb_term := term, rb_first_index := i\<rparr> else cur);
         cur = cur\<lparr>rb_offsets := rb_offsets cur @ [length (rb_raw cur)],
                   rb_ctxs := rb_ctxs cur @ [ctx],
                   rb_raw := rb_raw cur @ data\<rparr>
     in Ok (bb\<lparr>bb_current := cur\<rparr>))"

definition builder_build ::
  "(bytes \<Rightarrow> bytes) \<Rightarrow> (bytes \<Rightarrow> nat) \<Rightarrow> raft_log_batch_builder \<Rightarrow> raft_log_batch list res" where
  "builder_build compress crc32 bb =
     rmap (\<lambda>bb. map (encode_data compress crc32) (bb_batches bb)) (may_rotate 0 0 0 bb)"


section \<open>Round trips\<close>

lemma get_many_put:
  assumes "\<And>x rest. x \<in> set xs \<Longrightarrow> get (put x @ rest) = Ok (x, rest)"
  shows "get_many get (length xs) (concat (map put xs) @ rest) = Ok (xs, rest)"
  using assms by (induction xs) auto

lemma fold_append_buf:
  assumes "\<And>x buf. put x buf = buf @ put x []"
  shows "fold put xs buf = buf @ concat (map (\<lambda>x. put x []) xs)"
proof (induction xs arbitrary: buf)
  case (Cons x xs)
  show ?case by (simp add: Cons.IH) (metis assms append.assoc)
qed simp

text \<open>The header of a batch and its whole encoding, as byte strings.\<close>

definition batch_head :: "raft_log_batch \<Rightarrow> bytes" where
  "batch_head b =
     le_bytes 8 (rb_group b) @ le_bytes 8 (rb_term b) @ le_bytes 8 (rb_first_index b) @
     le_bytes 8 (length (rb_offsets b)) @
     concat (map (\<lambda>offset. put_var_u32 (of_nat offset) []) (rb_offsets b)) @
     concat (map (\<lambda>ctx. put_var_length_prefixed_slice ctx []) (rb_ctxs b)) @
     le_bytes 8 (rb_data_len b)"

lemma batch_encode_eq:
  "rb_offsets b \<noteq> [] \<Longrightarrow> batch_encode b buf = Ok (buf @ batch_head b @ rb_data b)"
proof -
  have f1: "fold (\<lambda>offset buf. put_var_u32 (of_nat offset) buf) xs buf =
      buf @ concat (map (\<lambda>offset. put_var_u32 (of_nat offset) []) xs)" for xs buf
    by (rule fold_append_buf) (rule put_var_u32_append)
  have f2: "fold (\<lambda>ctx buf. put_var_length_prefixed_slice ctx buf) xs buf =
      buf @ concat (map (\<lambda>ctx. put_var_length_prefixed_slice ctx []) xs)" for xs buf
    by (rule fold_append_buf) (rule put_var_length_prefixed_slice_append)
  assume "rb_offsets b \<noteq> []"
  then show ?thesis by (simp add: batch_encode_def batch_head_def Let_def f1 f2)
qed

lemma length_put_var_length_prefixed_slice [simp]:
  "length (put_var_length_prefixed_slice s buf) =
     length buf + var_u32_len (of_nat (length s)) + length s"
  by (simp add: put_var_length_prefixed_slice_def)

lemma length_batch_head: "length (batch_head b) = fst (data_segment_location b)"
  by (simp add: batch_head_def data_segment_location_def length_concat comp_def)

text \<open>Batches whose fields fit their encoding.\<close>

definition wf_batch :: "raft_log_batch \<Rightarrow> bool" where
  "wf_batch b \<longleftrightarrow>
     rb_group b < 2 ^ 64 \<and> rb_term b < 2 ^ 64 \<and> rb_first_index b < 2 ^ 64 \<and>
     rb_offsets b \<noteq> [] \<and> length (rb_offsets b) < 2 ^ 64 \<and>
     (\<forall>offset \<in> set (rb_offsets b). offset < 2 ^ 32) \<and>
     length (rb_ctxs b) = length (rb_offsets b) - 1 \<and>
     (\<forall>ctx \<in> set (rb_ctxs b). length ctx < 2 ^ 32) \<and>
     rb_data_len b = length (rb_data b) \<and> length (rb_data b) < 2 ^ 64"

fun wf_kv :: "kv \<Rightarrow> bool" where
  "wf_kv (Put gid key val) \<longleftrightarrow> gid < 2 ^ 64 \<and> length key < 2 ^ 32 \<and> length val < 2 ^ 32"
| "wf_kv (Delete gid key) \<longleftrightarrow> gid < 2 ^ 64 \<and> length key < 2 ^ 32"

fun wf_entry :: "entry \<Rightarrow> bool" where
  "wf_entry (RaftLogBatch b) \<longleftrightarrow> wf_batch b"
| "wf_entry (Truncate t) \<longleftrightarrow> truncate_group t < 2 ^ 64 \<and> truncate_index t < 2 ^ 64"
| "wf_entry (Compact t) \<longleftrightarrow> compact_group t < 2 ^ 64 \<and> compact_index t < 2 ^ 64"
| "wf_entry (Mask t) \<longleftrightarrow> mask_group t < 2 ^ 64 \<and> mask_index_at t < 2 ^ 64"
| "wf_entry (Kv kv) \<longleftrightarrow> wf_kv kv"

text \<open>What a decoder recovers: the entry without the buffers that are used for encoding only.\<close>

fun entry_meta :: "entry \<Rightarrow> entry" where
  "entry_meta (RaftLogBatch b) = RaftLogBatch (b\<lparr>rb_raw := [], rb_data := []\<rparr>)"
| "entry_meta e = e"

lemma get_offset_put: "n < 2 ^ 32 \<Longrightarrow> get_offset (put_var_u32 (of_nat n) [] @ rest) = Ok (n, rest)"
  by (simp add: get_offset_def get_put_var_u32 unat_of_nat)

lemma batch_decode_encode:
  assumes "wf_batch b"
  shows "batch_decode (batch_head b @ rb_data b @ rest) =
     Ok (b\<lparr>rb_raw := [], rb_data := []\<rparr>, rest)"
proof -
  have m1: "get_many get_offset (length (rb_offsets b))
      (concat (map (\<lambda>offset. put_var_u32 (of_nat offset) []) (rb_offsets b)) @ r) =
      Ok (rb_offsets b, r)" for r
    using assms by (intro get_many_put) (auto simp: wf_batch_def get_offset_put)
  have m2: "get_many get_var_length_prefixed_slice (length (rb_ctxs b))
      (concat (map (\<lambda>ctx. put_var_length_prefixed_slice ctx []) (rb_ctxs b)) @ r) =
      Ok (rb_ctxs b, r)" for r
    using assms by (intro get_many_put) (auto simp: wf_batch_def codec_simps)
  have len: "length (rb_offsets b) - Suc 0 = length (rb_ctxs b)" using assms by (simp add: wf_batch_def)
  show ?thesis
    using assms m1 m2
    by (simp add: batch_decode_def batch_head_def wf_batch_def codec_simps len advance_def)
qed

lemma kv_encode_eq:
  "kv_encode (Put gid key val) [] =
     le_bytes 8 gid @ put_length_prefixed_slice key [] @ [1] @ put_length_prefixed_slice val []"
  "kv_encode (Delete gid key) [] = le_bytes 8 gid @ put_length_prefixed_slice key [] @ [0]"
  by (simp_all add: put_length_prefixed_slice_def)

lemma kv_decode_encode: "wf_kv kv \<Longrightarrow> kv_decode (kv_encode kv [] @ rest) = Ok (kv, rest)"
  by (cases kv) (simp_all add: kv_decode_def kv_encode_eq codec_simps del: kv_encode.simps)

lemma kv_encode_append: "kv_encode kv buf = buf @ kv_encode kv []"
  by (cases kv) (simp_all add: put_length_prefixed_slice_def)

lemma entry_encode_append:
  "entry_encode e buf = rmap (\<lambda>bs. buf @ bs) (entry_encode e [])"
proof (cases e)
  case (RaftLogBatch b)
  show ?thesis
    by (cases "rb_offsets b = []")
      (simp_all add: RaftLogBatch batch_encode_eq, simp add: batch_encode_def)
next
  case (Kv kv)
  then show ?thesis by (simp add: kv_encode_append[of kv "buf @ [4]"] kv_encode_append[of kv "[4]"])
qed (simp_all add: truncate_encode_def compact_encode_def mask_encode_def)

lemma entry_decode_encode:
  assumes "wf_entry e" and "entry_encode e [] = Ok bs"
  shows "entry_decode (bs @ rest) = Ok (entry_meta e, rest)"
proof (cases e)
  case (RaftLogBatch b)
  with assms have "bs = 0 # batch_head b @ rb_data b" "wf_batch b"
    by (auto simp: batch_encode_eq wf_batch_def)
  then show ?thesis using batch_decode_encode by (simp add: entry_decode_def RaftLogBatch)
next
  case (Kv kv)
  with assms show ?thesis
    using kv_decode_encode[of kv rest]
    by (auto simp: entry_decode_def kv_encode_append[of kv "[4]"])
qed (use assms in \<open>auto simp: entry_decode_def codec_simps truncate_encode_def truncate_decode_def
    compact_encode_def compact_decode_def mask_encode_def mask_decode_def\<close>)

lemma entry_encode_wf: "wf_entry e \<Longrightarrow> \<exists>bs. entry_encode e [] = Ok bs \<and> bs \<noteq> []"
proof (cases e)
  case (Kv kv)
  then show ?thesis by (simp add: kv_encode_append[of kv "[4]"])
qed (auto simp: batch_encode_eq wf_batch_def truncate_encode_def compact_encode_def mask_encode_def)

section \<open>Data segments\<close>

lemma extract_data_segment_ok:
  assumes "lz4_frames compress decompress" and "\<And>bs. crc32 bs < 2 ^ 32"
  shows "extract_data_segment decompress crc32 (data_segment compress crc32 raw) = Ok raw"
proof -
  have d: "decompress (compress raw) = Some raw"
    using assms(1) unfolding lz4_frames_def by (metis append_Nil2)
  let ?body = "compress raw @ [1]"
  have "get_le 4 (le_bytes 4 (crc32 ?body)) = Ok (crc32 ?body, [])"
    using get_le_put[of 4 "crc32 ?body" "[]"] assms(2)[of ?body] by simp
  then show ?thesis
    by (simp add: extract_data_segment_def data_segment_def compression_encode_def Let_def
        crc32sum_def crc32check_def slice_def compression_decode_def d)
qed


section \<open>The batch builder keeps every entry\<close>

type_synonym raft_log_item = "nat \<times> nat \<times> nat \<times> bytes \<times> bytes"

text \<open>The raft log entries a finished batch stands for: group, term, index, context, payload.\<close>

definition batch_items :: "raft_log_batch \<Rightarrow> raft_log_item list" where
  "batch_items b =
     map (\<lambda>i. (rb_group b, rb_term b, rb_first_index b + i, rb_ctxs b ! i,
               take (rb_offsets b ! Suc i - rb_offsets b ! i) (drop (rb_offsets b ! i) (rb_raw b))))
       [0..<length (rb_offsets b) - 1]"

definition add_item :: "raft_log_item \<Rightarrow> raft_log_batch_builder \<Rightarrow> raft_log_batch_builder res" where
  "add_item it bb = (case it of (gid, tm, i, ctx, data) \<Rightarrow> builder_add gid tm i ctx data bb)"

definition offset_at :: "bytes list \<Rightarrow> nat \<Rightarrow> nat" where
  "offset_at ds i = length (concat (take i ds))"

text \<open>An open batch: its raw bytes are the payloads so far, its offsets their start positions.\<close>

definition open_batch :: "raft_log_batch \<Rightarrow> bytes list \<Rightarrow> bool" where
  "open_batch b ds \<longleftrightarrow>
     rb_raw b = concat ds \<and> rb_offsets b = map (offset_at ds) [0..<length ds] \<and>
     length (rb_ctxs b) = length ds"

definition seal :: "raft_log_batch \<Rightarrow> raft_log_batch" where
  "seal b = b\<lparr>rb_offsets := rb_offsets b @ [length (rb_raw b)]\<rparr>"

lemma offset_at_slice:
  assumes "i < length ds"
  shows "take (offset_at ds (Suc i) - offset_at ds i) (drop (offset_at ds i) (concat ds)) = ds ! i"
proof -
  have "concat ds = concat (take i ds) @ ds ! i @ concat (drop (Suc i) ds)"
    by (metis assms concat.simps(2) concat_append id_take_nth_drop)
  then show ?thesis using assms by (simp add: offset_at_def take_Suc_conv_app_nth)
qed

lemma offset_at_append: "i \<le> length ds \<Longrightarrow> offset_at (ds @ [d]) i = offset_at ds i"
  by (simp add: offset_at_def)

lemma seal_offsets:
  "open_batch b ds \<Longrightarrow> rb_offsets (seal b) = map (offset_at ds) [0..<Suc (length ds)]"
  by (simp add: open_batch_def seal_def offset_at_def)

lemma batch_items_seal:
  assumes "open_batch b ds"
  shows "batch_items (seal b) =
     map (\<lambda>i. (rb_group b, rb_term b, rb_first_index b + i, rb_ctxs b ! i, ds ! i)) [0..<length ds]"
proof -
  have "rb_offsets (seal b) ! i = offset_at ds i" if "i \<le> length ds" for i
    using that seal_offsets[OF assms] by (simp del: upt_Suc)
  then show ?thesis
    using assms seal_offsets[OF assms]
    by (auto simp: batch_items_def seal_def open_batch_def offset_at_slice simp del: upt_Suc)
qed

lemma open_batch_push:
  assumes "open_batch b ds"
  shows "open_batch (b\<lparr>rb_offsets := rb_offsets b @ [length (rb_raw b)], rb_ctxs := rb_ctxs b @ [c],
            rb_raw := rb_raw b @ d\<rparr>) (ds @ [d])"
  using assms by (auto simp: open_batch_def offset_at_append) (simp add: offset_at_def)

text \<open>The builder's content: finished batches, then the open one.\<close>

definition builder_items :: "raft_log_batch_builder \<Rightarrow> raft_log_item list" where
  "builder_items bb =
     concat (map batch_items (bb_batches bb)) @
     (if rb_offsets (bb_current bb) = [] then [] else batch_items (seal (bb_current bb)))"

definition builder_inv :: "raft_log_batch_builder \<Rightarrow> bool" where
  "builder_inv bb \<longleftrightarrow>
     (if rb_offsets (bb_current bb) = [] then bb_current bb = default_raft_log_batch
      else \<exists>ds. open_batch (bb_current bb) ds)"

text \<open>The index after the last entry of the open batch is a \<open>u64\<close>.\<close>

definition builder_room :: "raft_log_batch_builder \<Rightarrow> bool" where
  "builder_room bb \<longleftrightarrow> rb_first_index (bb_current bb) + length (rb_offsets (bb_current bb)) < 2 ^ 64"

lemma may_rotate_ok: "builder_room bb \<Longrightarrow> \<exists>bb'. may_rotate gid tm i bb = Ok bb'"
  by (simp add: may_rotate_def builder_room_def add_u64_def Let_def)

lemma may_rotate_items:
  "may_rotate gid tm i bb = Ok bb' \<Longrightarrow> builder_inv bb \<Longrightarrow> builder_inv bb' \<and> builder_items bb' = builder_items bb"
  by (auto simp: may_rotate_def builder_inv_def builder_items_def Let_def seal_def outcome_simps
      default_raft_log_batch_def split: if_splits)

lemma may_rotate_current:
  assumes "may_rotate gid tm i bb = Ok bb'" "rb_offsets (bb_current bb') \<noteq> []"
  shows "rb_group (bb_current bb') = gid"
    and "rb_term (bb_current bb') = tm"
    and "rb_first_index (bb_current bb') + length (rb_offsets (bb_current bb')) = i"
proof -
  have "bb_current bb' = default_raft_log_batch \<or> rb_group (bb_current bb') = gid \<and> rb_term (bb_current bb') = tm \<and>
    rb_first_index (bb_current bb') + length (rb_offsets (bb_current bb')) = i"
  proof (cases "rb_offsets (bb_current bb) = [] \<or> rb_group (bb_current bb) \<noteq> gid \<or> rb_term (bb_current bb) \<noteq> tm")
    case True
    then show ?thesis using assms by (auto simp: may_rotate_def Let_def split: if_splits)
  next
    case False
    then show ?thesis using assms(1)
      by (cases "rb_first_index (bb_current bb) + length (rb_offsets (bb_current bb)) < 2 ^ 64")
        (auto simp: may_rotate_def Let_def add_u64_def split: if_splits)
  qed
  then show "rb_group (bb_current bb') = gid" "rb_term (bb_current bb') = tm"
    "rb_first_index (bb_current bb') + length (rb_offsets (bb_current bb')) = i"
    using assms(2) by (auto simp: default_raft_log_batch_def)
qed

lemma open_default: "open_batch (default_raft_log_batch\<lparr>rb_group := g, rb_term := t,
    rb_first_index := i\<rparr>) []"
  by (simp add: open_batch_def default_raft_log_batch_def)

lemma add_item_items:
  assumes inv: "builder_inv bb" and room: "builder_room bb" and it: "it = (gid, tm, i, ctx, data)" and i: "i + 1 < 2 ^ 64"
  shows "\<exists>bb'. add_item it bb = Ok bb' \<and> builder_inv bb' \<and> builder_room bb' \<and> builder_items bb' = builder_items bb @ [it]"
proof -
  obtain bb1 where bb1: "may_rotate gid tm i bb = Ok bb1" using may_rotate_ok[OF room] by blast
  define cur where "cur = (if rb_offsets (bb_current bb1) = []
    then (bb_current bb1)\<lparr>rb_group := gid, rb_term := tm, rb_first_index := i\<rparr> else bb_current bb1)"
  define nxt where "nxt = cur\<lparr>rb_offsets := rb_offsets cur @ [length (rb_raw cur)],
    rb_ctxs := rb_ctxs cur @ [ctx], rb_raw := rb_raw cur @ data\<rparr>"
  have add: "add_item it bb = Ok (bb1\<lparr>bb_current := nxt\<rparr>)"
    by (simp add: add_item_def it builder_add_def Let_def bb1 cur_def nxt_def)
  have b1: "builder_inv bb1" "builder_items bb1 = builder_items bb"
    using may_rotate_items[OF bb1 inv] by auto
  obtain ds where ds: "open_batch cur ds"
    using b1(1) open_default unfolding builder_inv_def cur_def by (auto split: if_splits)
  have hdr: "rb_group cur = gid" "rb_term cur = tm" "rb_first_index cur + length ds = i"
    using ds may_rotate_current[OF bb1] by (auto simp: cur_def open_batch_def split: if_splits)
  have nx: "open_batch nxt (ds @ [data])" unfolding nxt_def by (rule open_batch_push[OF ds])
  have ne: "rb_offsets nxt \<noteq> []" by (simp add: nxt_def)
  have ctxs: "length (rb_ctxs cur) = length ds" "length (rb_offsets cur) = length ds" using ds by (simp_all add: open_batch_def)
  have "batch_items (seal nxt) = batch_items (seal cur) @ [it]"
    using ctxs(1) hdr unfolding batch_items_seal[OF nx] batch_items_seal[OF ds]
    by (auto simp: nxt_def it nth_append)
  moreover have "batch_items (seal cur) =
      (if rb_offsets (bb_current bb1) = [] then [] else batch_items (seal (bb_current bb1)))"
    using batch_items_seal[OF ds] ds by (auto simp: cur_def open_batch_def)
  ultimately have "builder_items (bb1\<lparr>bb_current := nxt\<rparr>) = builder_items bb @ [it]"
    using ne b1(2) by (simp add: builder_items_def)
  moreover have "builder_inv (bb1\<lparr>bb_current := nxt\<rparr>)"
    using nx ne by (auto simp: builder_inv_def)
  moreover have "builder_room (bb1\<lparr>bb_current := nxt\<rparr>)"
    using hdr(3) ctxs(2) i by (simp add: builder_room_def nxt_def)
  ultimately show ?thesis using add by blast
qed

lemma fold_add_item_items:
  assumes "\<forall>(gid, tm, i, ctx, data) \<in> set es. i + 1 < 2 ^ 64" "builder_inv bb" "builder_room bb"
  shows "\<exists>bb'. rfold add_item es bb = Ok bb' \<and> builder_inv bb' \<and> builder_room bb' \<and> builder_items bb' = builder_items bb @ es"
  using assms
proof (induction es arbitrary: bb)
  case (Cons it es)
  obtain gid tm i ctx data where it: "it = (gid, tm, i, ctx, data)" by (cases it) auto
  obtain bb1 where 1: "add_item it bb = Ok bb1" "builder_inv bb1" "builder_room bb1" "builder_items bb1 = builder_items bb @ [it]"
    using add_item_items[OF Cons.prems(2,3) it] Cons.prems(1) it by auto
  from Cons.IH[OF _ 1(2,3)] Cons.prems(1) 1(1,4) show ?case by auto
qed auto

lemma batch_items_encode_data [simp]: "batch_items (encode_data compress crc32 b) = batch_items b"
  by (simp add: batch_items_def encode_data_def Let_def)

lemma builder_build_items:
  assumes "builder_inv bb" "builder_room bb"
  shows "\<exists>bs. builder_build compress crc32 bb = Ok bs \<and> concat (map batch_items bs) = builder_items bb"
proof -
  obtain bb1 where bb1: "may_rotate 0 0 0 bb = Ok bb1" using may_rotate_ok[OF assms(2)] by blast
  have "rb_offsets (bb_current bb1) = []"
    using may_rotate_current(3)[OF bb1] by auto
  with may_rotate_items[OF bb1 assms(1)] show ?thesis
    by (simp add: builder_build_def builder_items_def comp_def bb1)
qed

section \<open>Properties\<close>

text \<open>C22. Every log entry that fits its encoding decodes, at the front of any log, to its meta data
  (a batch without its payload buffers), and the decoder consumes exactly the bytes the entry
  was encoded to; encoding such an entry never fails.\<close>

theorem raft_entry_round_trip:
  assumes "wf_entry e"
  shows "\<exists>bs. entry_encode e [] = Ok bs \<and> entry_decode (bs @ rest) = Ok (entry_meta e, rest)"
  using assms entry_encode_wf entry_decode_encode by blast

theorem raft_entry_round_trip_witness:
  "\<exists>bs. entry_encode (Kv (Put 7 [107] [118, 119])) [] = Ok bs \<and>
     entry_decode (bs @ [9]) = Ok (entry_meta (Kv (Put 7 [107] [118, 119])), [9])"
  by (rule raft_entry_round_trip) simp

text \<open>The builder loses, duplicates and reorders nothing: the raft log entries of the batches it
  builds, read in order, are the entries that were added, whatever their groups, terms and
  indices, as long as the index after each of them is a \<open>u64\<close>.\<close>

theorem batch_builder_keeps_entries:
  assumes "\<forall>(gid, tm, i, ctx, data) \<in> set es. i + 1 < 2 ^ 64"
  shows "\<exists>bb bs. rfold add_item es default_builder = Ok bb \<and> builder_build compress crc32 bb = Ok bs \<and>
    concat (map batch_items bs) = es"
proof -
  have "builder_inv default_builder \<and> builder_room default_builder \<and> builder_items default_builder = []"
    by (simp add: default_builder_def builder_inv_def builder_room_def builder_items_def default_raft_log_batch_def)
  then obtain bb where "rfold add_item es default_builder = Ok bb" "builder_inv bb" "builder_room bb" "builder_items bb = es"
    using fold_add_item_items[OF assms, of default_builder] by auto
  with builder_build_items[of bb compress crc32] show ?thesis by auto
qed

text \<open>The data segment of an encoded batch lies where \<open>data_segment_location\<close> says, one byte
  behind the entry tag, and extracting it yields the raw payloads again.\<close>

theorem data_segment_found:
  assumes "lz4_frames compress decompress" and "\<forall>bs. crc32 bs < 2 ^ 32"
    and "rb_offsets b \<noteq> []" and "b' = encode_data compress crc32 b"
    and "data_segment_location b' = (offset, len)"
  shows "\<exists>bs seg. entry_encode (RaftLogBatch b') [] = Ok bs \<and>
     slice (offset + 1) (offset + 1 + len) bs = Ok seg \<and>
     extract_data_segment decompress crc32 seg = Ok (rb_raw b)"
proof -
  have ne: "rb_offsets b' \<noteq> []" using assms(3,4) by (simp add: encode_data_def Let_def)
  have d: "rb_data b' = data_segment compress crc32 (rb_raw b)" "rb_data_len b' = length (rb_data b')"
    using assms(4) by (simp_all add: encode_data_def Let_def)
  have "offset = length (batch_head b')" "len = length (rb_data b')"
    using assms(5) length_batch_head[of b'] d(2)
    by (simp_all add: data_segment_location_def)
  then have "slice (offset + 1) (offset + 1 + len) (0 # batch_head b' @ rb_data b') = Ok (rb_data b')"
    by (simp add: slice_def)
  moreover have "entry_encode (RaftLogBatch b') [] = Ok (0 # batch_head b' @ rb_data b')"
    using ne by (simp add: batch_encode_eq)
  moreover have "extract_data_segment decompress crc32 (rb_data b') = Ok (rb_raw b)"
    using extract_data_segment_ok[OF assms(1), of crc32 "rb_raw b"] assms(2) d(1) by simp
  ultimately show ?thesis by blast
qed

theorem data_segment_found_witness:
  "\<exists>bs seg. entry_encode (RaftLogBatch (encode_data stored_compress (\<lambda>_. 7)
        (default_raft_log_batch\<lparr>rb_offsets := [0, 2], rb_ctxs := [[1]], rb_raw := [5, 6]\<rparr>))) [] = Ok bs \<and>
     slice (44 + 1) (44 + 1 + 10) bs = Ok seg \<and>
     extract_data_segment stored_decompress (\<lambda>_. 7) seg = Ok [5, 6]"
  using data_segment_found[OF lz4_frames_stored, of "\<lambda>_. 7"
      "default_raft_log_batch\<lparr>rb_offsets := [0, 2], rb_ctxs := [[1]], rb_raw := [5, 6]\<rparr>" _ 44 10]
  by (simp add: encode_data_def data_segment_def data_segment_location_def var_u32_len_def
      compression_encode_def stored_compress_def default_raft_log_batch_def Let_def)

end
