(* ===== verification/RaftLog.thy ===== *)
theory RaftLog
  imports RaftEntry Decimal
begin

text \<open>
  \<open>storage/src/raft_log_store/log.rs\<close>: the raft log on disk, a sequence of files whose names are
  consecutive identifiers. Appends are group commits: a caller puts its entries into a queue; the
  one that found the queue empty takes the lock of the active file, takes the whole queue, encodes
  every writer's entries into one buffer and writes it, rotating to a new file whenever the active
  file has reached its capacity.

  The directory is a map from file names to contents, and an open file is its name. The leader holds
  the lock of the active file from taking the queue to its last write, so its turn is one step
  (\<open>log_lead\<close>); callers enqueue between turns (\<open>log_enqueue\<close>), and \<open>read\<close> and \<open>replay\<close> run between turns too. The
  interleaving of a turn with \<open>read\<close> is left out: the leader locks the active file and then the frozen
  files, \<open>read\<close> the frozen files and then the active file, so two such calls can wait for each other for
  ever. Writes and syncs succeed; metrics are left out. The order in which the operating system lists
  a directory is an argument of \<open>log_open\<close>.
\<close>

datatype persist = Flush | Sync

definition persist_from_str :: "string \<Rightarrow> persist res" where
  "persist_from_str s =
     (if s = ''sync'' then Ok Sync else if s = ''flush'' then Ok Flush
      else Err (Other ''fail to parse to Persist''))"

section \<open>File names\<close>

text \<open>\<open>format!("{:08}", id)\<close>.\<close>

definition filename :: "nat \<Rightarrow> string" where
  "filename file_id = (let s = dec_digits file_id in replicate (8 - length s) (digit_char 0) @ s)"

section \<open>State\<close>

record write_handle =
  wh_file_id :: nat
  wh_offset :: nat
  wh_len :: nat

record raft_log =
  log_dir :: "string \<rightharpoonup> bytes"
  log_file_capacity :: nat
  first_log_file_id :: nat
  frozen_files :: "string list"
  active_file :: string
  active_file_len :: nat
  log_queue :: "entry list list"

definition new_active_file :: "(string \<rightharpoonup> bytes) \<Rightarrow> nat \<Rightarrow> string \<times> (string \<rightharpoonup> bytes)" where
  "new_active_file dir file_id =
     (let name = filename file_id in
      (name, case dir name of None \<Rightarrow> dir(name \<mapsto> []) | Some _ \<Rightarrow> dir))"

definition write_all :: "string \<Rightarrow> bytes \<Rightarrow> (string \<rightharpoonup> bytes) \<Rightarrow> (string \<rightharpoonup> bytes)" where
  "write_all name buf dir =
     (case dir name of None \<Rightarrow> dir | Some content \<Rightarrow> dir(name \<mapsto> content @ buf))"

definition read_exact :: "string \<Rightarrow> nat \<Rightarrow> nat \<Rightarrow> (string \<rightharpoonup> bytes) \<Rightarrow> bytes res" where
  "read_exact name offset len dir =
     (case dir name of
        None \<Rightarrow> Err (IoError ''not found'')
      | Some content \<Rightarrow>
          if len = 0 \<or> offset + len \<le> length content then Ok (take len (drop offset content))
          else Err (IoError ''failed to fill whole buffer''))"

section \<open>Opening\<close>

text \<open>Parse the names in the order the directory lists them.\<close>

fun parse_names :: "string list \<Rightarrow> (nat \<times> string) list res" where
  "parse_names [] = Ok []"
| "parse_names (name # names) =
     rbind (ok_or (RaftLogStoreError (RaftLogStoreOther ''invalid file name'')) (parse_u64 name)) (\<lambda>file_id.
     rbind (parse_names names) (\<lambda>files. Ok ((file_id, name) # files)))"

text \<open>The files, sorted by identifier, must be numbered without a gap.\<close>

fun check_consecutive :: "nat \<Rightarrow> nat \<Rightarrow> (nat \<times> string) list \<Rightarrow> unit res" where
  "check_consecutive first i [] = Ok ()"
| "check_consecutive first i (file # files) =
     rbind (add_u64 first i) (\<lambda>expected.
       if fst file \<noteq> expected then Err (RaftLogStoreError (RaftLogStoreOther ''log file is missing''))
       else check_consecutive first (i + 1) files)"

definition log_open :: "(string \<rightharpoonup> bytes) \<Rightarrow> string list \<Rightarrow> nat \<Rightarrow> raft_log res" where
  "log_open dir names capacity =
     rbind (parse_names names) (\<lambda>files.
     rbind (if files = [] then Ok ([], 1)
            else let files = sort_key fst files; first = fst (hd files)
                 in rbind (check_consecutive first 0 files) (\<lambda>_. Ok (map snd files, first)))
       (\<lambda>(frozen, first).
     rbind (add_u64 first (length frozen)) (\<lambda>active_id.
       let (active, dir) = new_active_file dir active_id
       in Ok \<lparr>log_dir = dir, log_file_capacity = capacity, first_log_file_id = first,
              frozen_files = frozen, active_file = active, active_file_len = 0, log_queue = []\<rparr>)))"

definition frozen_file_count :: "raft_log \<Rightarrow> nat" where
  "frozen_file_count lg = length (frozen_files lg)"

section \<open>Appending\<close>

definition log_enqueue :: "entry list \<Rightarrow> raft_log \<Rightarrow> bool \<times> raft_log" where
  "log_enqueue entries lg =
     (let is_leader = (log_queue lg = [])
      in (is_leader, lg\<lparr>log_queue := log_queue lg @ [entries]\<rparr>))"

text \<open>The inner loop: encode a writer's entries behind the buffer, one handle per entry.\<close>

fun encode_entries :: "nat \<Rightarrow> nat \<Rightarrow> entry list \<Rightarrow> bytes \<Rightarrow> (write_handle list \<times> bytes) res" where
  "encode_entries file_id offset [] buf = Ok ([], buf)"
| "encode_entries file_id offset (e # es) buf =
     (let entry_offset = offset + length buf in
      rbind (entry_encode e buf) (\<lambda>buf.
        let entry_len = offset + length buf - entry_offset in
        rbind (encode_entries file_id offset es buf) (\<lambda>(handles, buf).
          Ok (\<lparr>wh_file_id = file_id, wh_offset = entry_offset, wh_len = entry_len\<rparr> # handles, buf))))"

text \<open>One round of the leader's loop over the writers, with the offset of the buffer in the active
  file, the buffer, and the handles collected so far.\<close>

type_synonym lead_state = "raft_log \<times> nat \<times> bytes \<times> write_handle list list"

fun lead_writer :: "entry list \<Rightarrow> lead_state \<Rightarrow> lead_state res" where
  "lead_writer entries (lg, offset, buf, handles) =
     (let file_id = first_log_file_id lg + length (frozen_files lg) in
      rbind (encode_entries file_id offset entries buf) (\<lambda>(entry_handles, buf).
        if log_file_capacity lg \<le> offset + length buf then
          let dir = write_all (active_file lg) buf (log_dir lg);
              (name, dir) = new_active_file dir (file_id + 1)
          in Ok (lg\<lparr>log_dir := dir, active_file := name, active_file_len := 0,
                    frozen_files := frozen_files lg @ [filename file_id]\<rparr>,
                 0, [], handles @ [entry_handles])
        else Ok (lg, offset, buf, handles @ [entry_handles])))"

definition log_lead :: "raft_log \<Rightarrow> (raft_log \<times> write_handle list list) res" where
  "log_lead lg =
     (let writers = log_queue lg in
      rbind (rfold lead_writer writers (lg\<lparr>log_queue := []\<rparr>, active_file_len lg, [], []))
        (\<lambda>(lg, offset, buf, handles).
          Ok (if buf \<noteq> [] then
                lg\<lparr>active_file_len := offset + length buf,
                   log_dir := write_all (active_file lg) buf (log_dir lg)\<rparr>
              else lg, handles)))"

text \<open>A whole call of \<open>append\<close>: enqueue, let the leader (the caller itself when the queue was empty)
  run, receive the handles of one's own position in the queue.\<close>

definition log_append :: "raft_log \<Rightarrow> entry list \<Rightarrow> (raft_log \<times> write_handle list) res" where
  "log_append lg entries =
     (let position = length (log_queue lg); (is_leader, lg) = log_enqueue entries lg in
      rbind (log_lead lg) (\<lambda>(lg, handles).
      rbind (index handles position) (\<lambda>entry_handles. Ok (lg, entry_handles))))"

section \<open>Reading\<close>

definition log_read :: "raft_log \<Rightarrow> nat \<Rightarrow> nat \<Rightarrow> nat \<Rightarrow> bytes res" where
  "log_read lg log_file_id offset len =
     rbind (sub_u64 log_file_id (first_log_file_id lg)) (\<lambda>i.
       read_exact (if i < length (frozen_files lg) then frozen_files lg ! i else active_file lg)
         offset len (log_dir lg))"

text \<open>Replaying the frozen files. The stream of entries is consumed as it is produced: the consumer's
  step runs before the next entry is decoded.\<close>

lemma get_le_shorter: "get_le k buf = Ok (v, rest) \<Longrightarrow> length rest \<le> length buf"
  by (auto simp: get_le_def copy_to_bytes_def outcome_simps split: if_splits)

lemma get_var_u32_loop_shorter:
  "get_var_u32_loop n shift buf = Ok (v, rest) \<Longrightarrow> length rest \<le> length buf"
  by (induction n shift buf rule: get_var_u32_loop.induct) (force simp: Let_def split: if_splits)+

lemma get_offset_shorter: "get_offset buf = Ok (v, rest) \<Longrightarrow> length rest \<le> length buf"
  by (auto simp: get_offset_def get_var_u32_def outcome_simps dest: get_var_u32_loop_shorter)

lemma get_slice_shorter:
  "get_var_length_prefixed_slice buf = Ok (v, rest) \<Longrightarrow> length rest \<le> length buf"
  by (fastforce simp: get_var_length_prefixed_slice_def get_var_u32_def copy_to_bytes_def outcome_simps
      dest: get_var_u32_loop_shorter split: if_splits)

lemma get_length_prefixed_slice_shorter:
  "get_length_prefixed_slice buf = Ok (v, rest) \<Longrightarrow> length rest \<le> length buf"
  by (fastforce simp: get_length_prefixed_slice_def advance_def outcome_simps
      dest: get_le_shorter split: if_splits)

lemma get_many_shorter:
  assumes "\<And>buf v rest. get buf = Ok (v, rest) \<Longrightarrow> length rest \<le> length buf"
  shows "get_many get n buf = Ok (vs, rest) \<Longrightarrow> length rest \<le> length buf"
  by (induction n arbitrary: buf vs) (fastforce simp: outcome_simps dest: assms)+

lemma get_offsets_shorter: "get_many get_offset n buf = Ok (vs, rest) \<Longrightarrow> length rest \<le> length buf"
  by (rule get_many_shorter[of get_offset]) (rule get_offset_shorter)

lemma get_ctxs_shorter:
  "get_many get_var_length_prefixed_slice n buf = Ok (vs, rest) \<Longrightarrow> length rest \<le> length buf"
  by (rule get_many_shorter[of get_var_length_prefixed_slice]) (rule get_slice_shorter)

lemmas shorter = get_le_shorter get_length_prefixed_slice_shorter get_offsets_shorter get_ctxs_shorter

lemma batch_decode_shorter: "batch_decode buf = Ok (b, rest) \<Longrightarrow> length rest \<le> length buf"
  by (auto simp: batch_decode_def advance_def outcome_simps dest!: shorter split: if_splits)

lemma kv_decode_shorter: "kv_decode buf = Ok (b, rest) \<Longrightarrow> length rest \<le> length buf"
proof -
  have u8: "get_u8 bs = Ok (v, r) \<Longrightarrow> length r \<le> length bs" for bs v r by (cases bs) auto
  show "kv_decode buf = Ok (b, rest) \<Longrightarrow> length rest \<le> length buf"
    by (fastforce simp: kv_decode_def outcome_simps dest!: shorter u8 split: if_splits)
qed

lemma entry_decode_shorter: "entry_decode buf = Ok (e, rest) \<Longrightarrow> length rest < length buf"
proof (cases buf)
  case (Cons tag bs)
  have "truncate_decode bs = Ok (t, rest) \<Longrightarrow> length rest \<le> length bs" for t
    by (fastforce simp: truncate_decode_def outcome_simps dest!: shorter)
  moreover have "compact_decode bs = Ok (t, rest) \<Longrightarrow> length rest \<le> length bs" for t
    by (fastforce simp: compact_decode_def outcome_simps dest!: shorter)
  moreover have "mask_decode bs = Ok (t, rest) \<Longrightarrow> length rest \<le> length bs" for t
    by (fastforce simp: mask_decode_def outcome_simps dest!: shorter)
  moreover assume "entry_decode buf = Ok (e, rest)"
  ultimately show ?thesis
    using batch_decode_shorter[of bs _ rest] kv_decode_shorter[of bs _ rest]
    by (fastforce simp: Cons entry_decode_def outcome_simps less_Suc_eq_le split: if_splits)
qed (simp add: entry_decode_def)

function replay_file ::
  "(nat \<times> nat \<times> entry \<Rightarrow> 's \<Rightarrow> 's res) \<Rightarrow> nat \<Rightarrow> nat \<Rightarrow> bytes \<Rightarrow> 's \<Rightarrow> 's res" where
  "replay_file body file_id len cursor s =
     (if cursor = [] then Ok s
      else
        let offset = len - length cursor in
        rbind (entry_decode cursor) (\<lambda>(e, cursor).
        rbind (body (file_id, offset, e) s) (\<lambda>s. replay_file body file_id len cursor s)))"
  by pat_completeness auto
termination
  by (relation "measure (\<lambda>(body, file_id, len, cursor, s). length cursor)")
    (auto dest: entry_decode_shorter)

declare replay_file.simps [simp del]

fun replay_files ::
  "(nat \<times> nat \<times> entry \<Rightarrow> 's \<Rightarrow> 's res) \<Rightarrow> (string \<rightharpoonup> bytes) \<Rightarrow> nat \<Rightarrow> string list \<Rightarrow> 's \<Rightarrow> 's res" where
  "replay_files body dir file_id [] s = Ok s"
| "replay_files body dir file_id (name # names) s =
     (case dir name of
        None \<Rightarrow> Err (IoError ''not found'')
      | Some buf \<Rightarrow> rbind (replay_file body file_id (length buf) buf s)
                      (replay_files body dir (file_id + 1) names))"

definition log_replay :: "(nat \<times> nat \<times> entry \<Rightarrow> 's \<Rightarrow> 's res) \<Rightarrow> raft_log \<Rightarrow> 's \<Rightarrow> 's res" where
  "log_replay body lg = replay_files body (log_dir lg) (first_log_file_id lg) (frozen_files lg)"

section \<open>File names are read back\<close>

lemma parse_filename: "n < 2 ^ 64 \<Longrightarrow> parse_u64 (filename n) = Some n"
proof -
  have ne: "dec_digits n \<noteq> []" by (subst dec_digits.simps) simp
  have all: "list_all is_digit (filename n)"
    using dec_digits_digits[of n] by (auto simp: filename_def Let_def list_all_iff)
  moreover have "filename n \<noteq> []" using ne by (simp add: filename_def Let_def)
  ultimately have "is_digit (hd (filename n))" by (simp add: list_all_iff)
  then have hd: "hd (filename n) \<noteq> CHR ''+''" by (auto simp: is_digit_def)
  have "dec_value (filename n) = n" "filename n \<noteq> []"
    using ne by (simp_all add: filename_def Let_def dec_value_pad dec_value_digits)
  moreover assume "n < 2 ^ 64"
  ultimately show ?thesis using all hd by (simp add: parse_u64_def Let_def)
qed

lemma filename_inject: "filename a = filename b \<longleftrightarrow> a = b"
  by (metis dec_value_digits dec_value_pad filename_def)

section \<open>What the files hold\<close>

text \<open>The abstract log: the entries of each closed file and of the active one.\<close>

definition enc :: "entry \<Rightarrow> bytes" where
  "enc e = (case entry_encode e [] of Ok bs \<Rightarrow> bs | _ \<Rightarrow> [])"

abbreviation content :: "entry list \<Rightarrow> bytes" where
  "content es \<equiv> concat (map enc es)"

fun handles_at :: "nat \<Rightarrow> nat \<Rightarrow> entry list \<Rightarrow> write_handle list" where
  "handles_at file_id offset [] = []"
| "handles_at file_id offset (e # es) =
     \<lparr>wh_file_id = file_id, wh_offset = offset, wh_len = length (enc e)\<rparr>
       # handles_at file_id (offset + length (enc e)) es"

fun dir_of :: "nat \<Rightarrow> entry list list \<Rightarrow> string \<rightharpoonup> bytes" where
  "dir_of first [] = Map.empty"
| "dir_of first (f # fs) = (dir_of (Suc first) fs)(filename first \<mapsto> content f)"

fun file_items :: "nat \<Rightarrow> entry list list \<Rightarrow> (write_handle \<times> entry) list" where
  "file_items first [] = []"
| "file_items first (f # fs) = zip (handles_at first 0 f) f @ file_items (Suc first) fs"

definition wf_entries :: "entry list \<Rightarrow> bool" where
  "wf_entries es \<longleftrightarrow> (\<forall>e \<in> set es. wf_entry e)"

lemma wf_entries_simps [simp]:
  "wf_entries []" "wf_entries (e # es) \<longleftrightarrow> wf_entry e \<and> wf_entries es"
  "wf_entries (es @ fs) \<longleftrightarrow> wf_entries es \<and> wf_entries fs"
  by (auto simp: wf_entries_def)

lemma entry_encode_enc: "wf_entry e \<Longrightarrow> entry_encode e buf = Ok (buf @ enc e)"
  using entry_encode_wf[of e] by (subst entry_encode_append) (auto simp: enc_def)

lemma entry_decode_enc: "wf_entry e \<Longrightarrow> entry_decode (enc e @ rest) = Ok (entry_meta e, rest)"
  using entry_encode_wf[of e] entry_decode_encode[of e] by (auto simp: enc_def)

lemma enc_nonempty: "wf_entry e \<Longrightarrow> enc e \<noteq> []"
  using entry_encode_wf[of e] by (auto simp: enc_def)

lemma encode_entries_eq:
  "wf_entries es \<Longrightarrow> encode_entries file_id offset es buf =
     Ok (handles_at file_id (offset + length buf) es, buf @ content es)"
  by (induction es arbitrary: buf) (auto simp: entry_encode_enc Let_def add.assoc)

lemma length_handles_at [simp]: "length (handles_at file_id offset es) = length es"
  by (induction es arbitrary: offset) auto

lemma handles_at_append:
  "handles_at file_id offset (es @ fs) =
     handles_at file_id offset es @ handles_at file_id (offset + length (content es)) fs"
  by (induction es arbitrary: offset) (auto simp: add.assoc)

lemma dir_of_outside: "name \<notin> filename ` {first..<first + length fs} \<Longrightarrow> dir_of first fs name = None"
proof (induction fs arbitrary: first)
  case (Cons f fs)
  have "filename ` {Suc first..<Suc first + length fs} \<subseteq> filename ` {first..<first + length (f # fs)}"
    by auto
  moreover have "filename first \<in> filename ` {first..<first + length (f # fs)}" by auto
  ultimately show ?case using Cons.prems Cons.IH[of "Suc first"] by auto
qed simp

lemma dir_of_nth: "i < length fs \<Longrightarrow> dir_of first fs (filename (first + i)) = Some (content (fs ! i))"
proof (induction fs arbitrary: first i)
  case (Cons f fs)
  then show ?case using Cons.IH[of "i - 1" "Suc first"] by (cases i) (auto simp: filename_inject)
qed simp

lemma dir_of_snoc:
  "dir_of first (fs @ [f]) = (dir_of first fs)(filename (first + length fs) \<mapsto> content f)"
  by (induction fs arbitrary: first) (auto simp: filename_inject fun_upd_twist)

lemma file_items_append:
  "file_items first (fs @ gs) = file_items first fs @ file_items (first + length fs) gs"
  by (induction fs arbitrary: first) auto

section \<open>The invariant of the log\<close>

definition disk_inv :: "raft_log \<Rightarrow> bytes \<Rightarrow> entry list list \<Rightarrow> bool" where
  "disk_inv lg written closed \<longleftrightarrow>
     frozen_files lg = map filename [first_log_file_id lg..<first_log_file_id lg + length closed] \<and>
     active_file lg = filename (first_log_file_id lg + length closed) \<and>
     active_file_len lg = length written \<and>
     log_dir lg = (dir_of (first_log_file_id lg) closed)
       (filename (first_log_file_id lg + length closed) \<mapsto> written)"

definition log_inv :: "raft_log \<Rightarrow> entry list list \<Rightarrow> entry list \<Rightarrow> bool" where
  "log_inv lg closed cur \<longleftrightarrow> disk_inv lg (content cur) closed \<and>
     wf_entries cur \<and> (\<forall>es \<in> set closed. wf_entries es)"

text \<open>Where the entries of a writer go: behind the active file's entries; then the file is closed if
  it has reached its capacity.\<close>

fun place :: "nat \<Rightarrow> entry list \<Rightarrow> entry list list \<times> entry list \<Rightarrow> entry list list \<times> entry list" where
  "place capacity es (closed, cur) =
     (if capacity \<le> length (content (cur @ es)) then (closed @ [cur @ es], []) else (closed, cur @ es))"

fun place_handles :: "nat \<Rightarrow> entry list \<Rightarrow> entry list list \<times> entry list \<Rightarrow> write_handle list" where
  "place_handles first es (closed, cur) = handles_at (first + length closed) (length (content cur)) es"

fun place_all ::
  "nat \<Rightarrow> nat \<Rightarrow> entry list list \<Rightarrow> entry list list \<times> entry list \<Rightarrow>
    (entry list list \<times> entry list) \<times> write_handle list list" where
  "place_all capacity first [] a = (a, [])"
| "place_all capacity first (w # ws) a =
     (let (b, handles) = place_all capacity first ws (place capacity w a)
      in (b, place_handles first w a # handles))"

lemma lead_writer_step:
  assumes inv: "disk_inv lg written closed" and cur: "content cur = written @ buf"
    and wf: "wf_entries es" and pl: "place (log_file_capacity lg) es (closed, cur) = (closed', cur')"
  shows "\<exists>lg' written' buf'.
    lead_writer es (lg, length written, buf, handles) = Ok (lg', length written', buf',
      handles @ [place_handles (first_log_file_id lg) es (closed, cur)]) \<and>
    disk_inv lg' written' closed' \<and> content cur' = written' @ buf' \<and>
    first_log_file_id lg' = first_log_file_id lg \<and>
    log_file_capacity lg' = log_file_capacity lg \<and> log_queue lg' = log_queue lg"
proof -
  let ?n = "first_log_file_id lg + length closed"
  have n: "first_log_file_id lg + length (frozen_files lg) = ?n" using inv by (simp add: disk_inv_def)
  have len: "length written + length buf = length (content cur)" using cur by simp
  have enc: "encode_entries ?n (length written) es buf =
      Ok (handles_at ?n (length (content cur)) es, buf @ content es)"
    using encode_entries_eq[OF wf, of ?n "length written" buf] len by simp
  show ?thesis
  proof (cases "log_file_capacity lg \<le> length (content (cur @ es))")
    case False
    then have "\<not> log_file_capacity lg \<le> length written + length (buf @ content es)" using len by simp
    then have "lead_writer es (lg, length written, buf, handles) = Ok (lg, length written,
        buf @ content es, handles @ [place_handles (first_log_file_id lg) es (closed, cur)])"
      using enc n by (simp add: Let_def)
    then show ?thesis using False pl inv cur by auto
  next
    case True
    then have cap: "log_file_capacity lg \<le> length written + length (buf @ content es)" using len by simp
    have fresh: "dir_of (first_log_file_id lg) closed (filename (Suc ?n)) = None"
      by (rule dir_of_outside) (auto simp: filename_inject)
    define lg' where "lg' = lg\<lparr>log_dir :=
        (dir_of (first_log_file_id lg) closed)(filename ?n \<mapsto> content (cur @ es),
          filename (Suc ?n) \<mapsto> []),
        active_file := filename (Suc ?n), active_file_len := 0,
        frozen_files := frozen_files lg @ [filename ?n]\<rparr>"
    have "lead_writer es (lg, length written, buf, handles) =
        Ok (lg', 0, [], handles @ [place_handles (first_log_file_id lg) es (closed, cur)])"
      using enc n cap inv cur fresh
      by (simp add: Let_def disk_inv_def write_all_def new_active_file_def filename_inject lg'_def)
    moreover have "closed' = closed @ [cur @ es]" "cur' = []" using True pl by auto
    moreover have "disk_inv lg' [] (closed @ [cur @ es])"
      using inv by (auto simp: disk_inv_def lg'_def dir_of_snoc)
    ultimately show ?thesis
      by (intro exI[of _ lg'] exI[of _ "[]"]) (simp add: lg'_def)
  qed
qed

lemma place_wf:
  "place capacity es (closed, cur) = (closed', cur') \<Longrightarrow> wf_entries es \<Longrightarrow> wf_entries cur \<Longrightarrow>
     \<forall>fs \<in> set closed. wf_entries fs \<Longrightarrow> wf_entries cur' \<and> (\<forall>fs \<in> set closed'. wf_entries fs)"
  by (auto split: if_splits)

lemma place_items:
  assumes "place capacity es (closed, cur) = (closed', cur')"
  shows "file_items first (closed' @ [cur']) = file_items first (closed @ [cur]) @
    zip (place_handles first es (closed, cur)) es"
  using assms
  by (auto simp: file_items_append handles_at_append split: if_splits)

lemma place_all_items:
  "place_all capacity first ws (closed, cur) = ((closed', cur'), handles) \<Longrightarrow>
     file_items first (closed' @ [cur']) = file_items first (closed @ [cur]) @
       concat (map2 zip handles ws) \<and> length handles = length ws"
proof (induction ws arbitrary: closed cur handles)
  case (Cons w ws)
  obtain closed1 cur1 where p: "place capacity w (closed, cur) = (closed1, cur1)" by fastforce
  with Cons.prems obtain hs where "place_all capacity first ws (closed1, cur1) = ((closed', cur'), hs)"
    "handles = place_handles first w (closed, cur) # hs" by (auto split: prod.splits)
  with Cons.IH[of closed1 cur1 hs] place_items[OF p, of first] show ?case by simp
qed simp

lemma lead_writers:
  assumes "disk_inv lg written closed" "content cur = written @ buf"
    and "wf_entries cur" "\<forall>es \<in> set closed. wf_entries es" "\<forall>w \<in> set ws. wf_entries w"
    and "place_all (log_file_capacity lg) (first_log_file_id lg) ws (closed, cur) = ((closed', cur'), hs)"
  shows "\<exists>lg' written' buf'.
    rfold lead_writer ws (lg, length written, buf, handles) =
      Ok (lg', length written', buf', handles @ hs) \<and>
    disk_inv lg' written' closed' \<and> content cur' = written' @ buf' \<and> wf_entries cur' \<and>
    (\<forall>es \<in> set closed'. wf_entries es) \<and>
    first_log_file_id lg' = first_log_file_id lg \<and>
    log_file_capacity lg' = log_file_capacity lg \<and> log_queue lg' = log_queue lg"
  using assms
proof (induction ws arbitrary: lg written buf closed cur handles hs)
  case Nil
  then show ?case by auto
next
  case (Cons w ws)
  obtain closed1 cur1 where p: "place (log_file_capacity lg) w (closed, cur) = (closed1, cur1)"
    by fastforce
  from Cons.prems p obtain hs1 where hs1:
    "place_all (log_file_capacity lg) (first_log_file_id lg) ws (closed1, cur1) = ((closed', cur'), hs1)"
    "hs = place_handles (first_log_file_id lg) w (closed, cur) # hs1" by (auto split: prod.splits)
  have wf1: "wf_entries cur1" "\<forall>fs \<in> set closed1. wf_entries fs" using place_wf[OF p] Cons.prems by auto
  from lead_writer_step[OF Cons.prems(1,2) _ p, of handles] Cons.prems(5) obtain lg1 written1 buf1 where
    lg1: "lead_writer w (lg, length written, buf, handles) = Ok (lg1, length written1, buf1,
      handles @ [place_handles (first_log_file_id lg) w (closed, cur)])"
    "disk_inv lg1 written1 closed1" "content cur1 = written1 @ buf1"
    "first_log_file_id lg1 = first_log_file_id lg" "log_file_capacity lg1 = log_file_capacity lg"
    "log_queue lg1 = log_queue lg" by auto
  have "\<forall>v \<in> set ws. wf_entries v" using Cons.prems(5) by simp
  from Cons.IH[OF lg1(2,3) wf1 this, of hs1
      "handles @ [place_handles (first_log_file_id lg) w (closed, cur)]"] hs1(1) lg1(4-6)
  obtain lg2 written2 buf2 where "rfold lead_writer ws (lg1, length written1, buf1,
      handles @ [place_handles (first_log_file_id lg) w (closed, cur)]) =
        Ok (lg2, length written2, buf2, handles @ hs)"
    "disk_inv lg2 written2 closed'" "content cur' = written2 @ buf2" "wf_entries cur'"
    "\<forall>es \<in> set closed'. wf_entries es" "first_log_file_id lg2 = first_log_file_id lg"
    "log_file_capacity lg2 = log_file_capacity lg" "log_queue lg2 = log_queue lg"
    using hs1(2) by auto
  moreover have "rfold lead_writer (w # ws) (lg, length written, buf, handles) =
      rfold lead_writer ws (lg1, length written1, buf1,
        handles @ [place_handles (first_log_file_id lg) w (closed, cur)])"
    using lg1(1) by (simp del: lead_writer.simps place_handles.simps)
  ultimately show ?case by metis
qed

lemma log_lead_spec:
  assumes "log_inv lg closed cur" "\<forall>w \<in> set (log_queue lg). wf_entries w"
    and "place_all (log_file_capacity lg) (first_log_file_id lg) (log_queue lg) (closed, cur) =
      ((closed', cur'), hs)"
  shows "\<exists>lg'. log_lead lg = Ok (lg', hs) \<and> log_inv lg' closed' cur' \<and>
    first_log_file_id lg' = first_log_file_id lg \<and>
    log_file_capacity lg' = log_file_capacity lg \<and> log_queue lg' = []"
proof -
  let ?lg = "lg\<lparr>log_queue := []\<rparr>"
  have "disk_inv ?lg (content cur) closed" "active_file_len lg = length (content cur)"
    using assms(1) by (auto simp: log_inv_def disk_inv_def)
  from lead_writers[OF this(1), of cur "[]" "log_queue lg" closed' cur' hs "[]"] this(2) assms
  obtain lg' written' buf' where lg': "rfold lead_writer (log_queue lg) (?lg, active_file_len lg, [], []) =
      Ok (lg', length written', buf', hs)" "disk_inv lg' written' closed'"
    "content cur' = written' @ buf'" "wf_entries cur'" "\<forall>es \<in> set closed'. wf_entries es"
    "first_log_file_id lg' = first_log_file_id lg"
    "log_file_capacity lg' = log_file_capacity lg" "log_queue lg' = []"
    by (auto simp: log_inv_def)
  show ?thesis
  proof (cases "buf' = []")
    case True
    with lg' show ?thesis by (auto simp: log_lead_def Let_def log_inv_def)
  next
    case False
    with lg' show ?thesis
      by (auto simp: log_lead_def Let_def log_inv_def disk_inv_def write_all_def)
  qed
qed

text \<open>The invariant determines the log's state.\<close>

lemma log_inv_unique:
  assumes "log_inv lg closed cur" "log_inv lg' closed cur"
    and "first_log_file_id lg = first_log_file_id lg'" "log_file_capacity lg = log_file_capacity lg'"
    and "log_queue lg = log_queue lg'"
  shows "lg = lg'"
  using assms by (cases lg; cases lg') (simp add: log_inv_def disk_inv_def)

section \<open>Opening a directory again\<close>

lemma parse_names_filenames:
  "\<forall>i \<in> set ids. i < 2 ^ 64 \<Longrightarrow>
     parse_names (map filename ids) = Ok (map (\<lambda>i. (i, filename i)) ids)"
  by (induction ids) (auto simp: parse_filename)

lemma check_consecutive_upt:
  "first + (i + n) \<le> 2 ^ 64 \<Longrightarrow>
     check_consecutive first i (map (\<lambda>i. (i, filename i)) [first + i..<first + i + n]) = Ok ()"
proof (induction n arbitrary: i)
  case (Suc n)
  have "[first + i..<first + i + Suc n] = (first + i) # [first + Suc i..<first + Suc i + n]"
    by (simp add: upt_conv_Cons)
  with Suc.IH[of "Suc i"] Suc.prems show ?case by simp
qed simp

lemma sort_key_ids:
  assumes "distinct ids" "set ids = {first..<first + n}"
  shows "sort_key fst (map (\<lambda>i. (i, filename i)) ids) =
    map (\<lambda>i. (i, filename i)) [first..<first + n]"
proof -
  let ?files = "sort_key fst (map (\<lambda>i. (i, filename i)) ids)"
  have ids: "map fst ?files = [first..<first + n]"
  proof (rule sorted_distinct_set_unique)
    show "sorted (map fst ?files)" by simp
    show "distinct (map fst ?files)"
      using assms(1) by (auto simp: distinct_map distinct_sort inj_on_def)
    show "set (map fst ?files) = set [first..<first + n]" using assms(2) by force
  qed auto
  have "snd p = filename (fst p)" if "p \<in> set ?files" for p using that by auto
  then have "map (\<lambda>p. (fst p, filename (fst p))) ?files = ?files" by (intro map_idI) (metis prod.collapse)
  then have "?files = map (\<lambda>p. (fst p, filename (fst p))) ?files" by simp
  also have "\<dots> = map (\<lambda>i. (i, filename i)) (map fst ?files)" by simp
  finally show ?thesis using ids by simp
qed

lemma filename_image_inj: "filename ` A = filename ` B \<Longrightarrow> A = B"
  by (metis filename_inject inj_image_eq_iff injI)

lemma log_open_spec:
  assumes inv: "log_inv lg closed cur" and names: "distinct names" "set names = dom (log_dir lg)"
    and bound: "first_log_file_id lg + length closed + 1 < 2 ^ 64"
  shows "\<exists>lg'. log_open (log_dir lg) names capacity = Ok lg' \<and> log_inv lg' (closed @ [cur]) [] \<and>
    first_log_file_id lg' = first_log_file_id lg \<and> log_queue lg' = [] \<and>
    log_file_capacity lg' = capacity"
proof -
  let ?f = "first_log_file_id lg" and ?n = "Suc (length closed)"
  have dir: "log_dir lg = dir_of ?f (closed @ [cur])"
    using inv by (simp add: log_inv_def disk_inv_def dir_of_snoc)
  have "dom (log_dir lg) = filename ` {?f..<?f + ?n}"
  proof
    show "dom (log_dir lg) \<subseteq> filename ` {?f..<?f + ?n}"
      using dir_of_outside[of _ ?f "closed @ [cur]"] unfolding dir by force
    show "filename ` {?f..<?f + ?n} \<subseteq> dom (log_dir lg)"
    proof
      fix name assume "name \<in> filename ` {?f..<?f + ?n}"
      then obtain k where "?f \<le> k" "k < ?f + ?n" "name = filename k" by auto
      then show "name \<in> dom (log_dir lg)"
        using dir_of_nth[of "k - ?f" "closed @ [cur]" ?f] dir by auto
    qed
  qed
  then obtain ids where ids: "names = map filename ids" using names(2) by (metis ex_map_conv imageE)
  have ids': "distinct ids" "set ids = {?f..<?f + ?n}"
    using names \<open>dom (log_dir lg) = _\<close> unfolding ids
    by (auto simp: distinct_map dest!: filename_image_inj)
  have "parse_names names = Ok (map (\<lambda>i. (i, filename i)) ids)"
    unfolding ids by (rule parse_names_filenames) (use ids' bound in auto)
  moreover have "sort_key fst (map (\<lambda>i. (i, filename i)) ids) = map (\<lambda>i. (i, filename i)) [?f..<?f + ?n]"
    by (rule sort_key_ids[OF ids'])
  moreover have "check_consecutive ?f 0 (map (\<lambda>i. (i, filename i)) [?f..<?f + ?n]) = Ok ()"
    using check_consecutive_upt[of ?f 0 ?n] bound by simp
  moreover have "ids \<noteq> []" using ids' by auto
  moreover have "hd (map (\<lambda>i. (i, filename i)) [?f..<?f + ?n]) = (?f, filename ?f)"
    by (subst upt_conv_Cons) simp_all
  moreover have "log_dir lg (filename (?f + ?n)) = None"
    unfolding dir by (rule dir_of_outside) (auto simp: filename_inject)
  ultimately have "log_open (log_dir lg) names capacity =
      Ok \<lparr>log_dir = (log_dir lg)(filename (?f + ?n) \<mapsto> []), log_file_capacity = capacity,
        first_log_file_id = ?f, frozen_files = map filename [?f..<?f + ?n],
        active_file = filename (?f + ?n), active_file_len = 0, log_queue = []\<rparr>"
    using bound by (simp add: log_open_def new_active_file_def Let_def comp_def)
  moreover have "wf_entries cur \<and> (\<forall>es \<in> set closed. wf_entries es)" using inv by (simp add: log_inv_def)
  ultimately show ?thesis by (auto simp: log_inv_def disk_inv_def dir)
qed

section \<open>Reading back and replaying\<close>

lemma handle_position:
  "(h, e) \<in> set (zip (handles_at file_id offset es) es) \<Longrightarrow>
     \<exists>pre post. es = pre @ e # post \<and> wh_file_id h = file_id \<and>
       wh_offset h = offset + length (content pre) \<and> wh_len h = length (enc e)"
proof (induction es arbitrary: offset)
  case (Cons a es)
  show ?case
  proof (cases "(h, e) \<in> set (zip (handles_at file_id (offset + length (enc a)) es) es)")
    case True
    from Cons.IH[OF this] obtain pre post where "es = pre @ e # post" "wh_file_id h = file_id"
      "wh_offset h = offset + length (enc a) + length (content pre)" "wh_len h = length (enc e)" by auto
    then show ?thesis by (intro exI[of _ "a # pre"] exI[of _ post]) auto
  next
    case False
    with Cons.prems show ?thesis by (intro exI[of _ "[]"] exI[of _ es]) auto
  qed
qed simp

lemma file_items_position:
  "(h, e) \<in> set (file_items first fs) \<Longrightarrow>
     \<exists>i pre post. i < length fs \<and> fs ! i = pre @ e # post \<and> wh_file_id h = first + i \<and>
       wh_offset h = length (content pre) \<and> wh_len h = length (enc e)"
proof (induction fs arbitrary: first)
  case (Cons f fs)
  show ?case
  proof (cases "(h, e) \<in> set (file_items (Suc first) fs)")
    case True
    from Cons.IH[OF this] obtain i pre post where "i < length fs" "fs ! i = pre @ e # post"
      "wh_file_id h = Suc first + i" "wh_offset h = length (content pre)" "wh_len h = length (enc e)" by auto
    then show ?thesis by (intro exI[of _ "Suc i"]) auto
  next
    case False
    with Cons.prems have "(h, e) \<in> set (zip (handles_at first 0 f) f)" by simp
    from handle_position[OF this] show ?thesis by (intro exI[of _ 0]) auto
  qed
qed simp

text \<open>Any part of an entry's encoding can be read at its handle.\<close>

lemma log_read_part:
  assumes "log_inv lg closed cur" "(h, e) \<in> set (file_items (first_log_file_id lg) (closed @ [cur]))"
    and "offset + len \<le> length (enc e)"
  shows "log_read lg (wh_file_id h) (wh_offset h + offset) len = Ok (take len (drop offset (enc e)))"
proof -
  let ?f = "first_log_file_id lg" and ?fs = "closed @ [cur]"
  have dir: "log_dir lg = dir_of ?f ?fs" "frozen_files lg = map filename [?f..<?f + length closed]"
    "active_file lg = filename (?f + length closed)"
    using assms(1) by (auto simp: log_inv_def disk_inv_def dir_of_snoc)
  obtain i pre post where i: "i < length ?fs" "?fs ! i = pre @ e # post" "wh_file_id h = ?f + i"
    "wh_offset h = length (content pre)" using file_items_position[OF assms(2)] by auto
  have "(if i < length (frozen_files lg) then frozen_files lg ! i else active_file lg) = filename (?f + i)"
    using i(1) dir by (cases "i < length closed") (auto simp: less_Suc_eq)
  moreover have "log_dir lg (filename (?f + i)) = Some (content (pre @ e # post))"
    using dir_of_nth[OF i(1), of ?f] i(2) dir(1) by simp
  ultimately show ?thesis using i assms(3) by (simp add: log_read_def read_exact_def)
qed

lemma replay_file_items:
  assumes "wf_entries es"
  shows "replay_file body file_id (offset + length (content es)) (content es) s =
    rfold (\<lambda>(h, e). body (wh_file_id h, wh_offset h, entry_meta e)) (zip (handles_at file_id offset es) es) s"
  using assms
proof (induction es arbitrary: offset s)
  case Nil
  show ?case by (simp add: replay_file.simps)
next
  case (Cons e es)
  have "enc e \<noteq> []" using enc_nonempty[of e] Cons.prems by simp
  moreover have "entry_decode (enc e @ content es) = Ok (entry_meta e, content es)"
    using entry_decode_enc[of e] Cons.prems by simp
  moreover have "replay_file body file_id (offset + length (enc e) + length (content es)) (content es) =
      rfold (\<lambda>(h, e). body (wh_file_id h, wh_offset h, entry_meta e))
        (zip (handles_at file_id (offset + length (enc e)) es) es)"
    using Cons.IH[of "offset + length (enc e)"] Cons.prems by auto
  moreover have "replay_file body file_id (offset + length (content (e # es))) (content (e # es)) s =
      rbind (body (file_id, offset, entry_meta e) s)
        (replay_file body file_id (offset + length (enc e) + length (content es)) (content es))"
    using calculation(1,2) by (subst replay_file.simps) (simp add: add.assoc)
  ultimately show ?case by simp
qed

lemma replay_files_items:
  assumes "\<forall>es \<in> set fs. wf_entries es" "\<And>i. i < length fs \<Longrightarrow> dir (filename (first + i)) = Some (content (fs ! i))"
  shows "replay_files body dir first (map filename [first..<first + length fs]) s =
    rfold (\<lambda>(h, e). body (wh_file_id h, wh_offset h, entry_meta e)) (file_items first fs) s"
  using assms
proof (induction fs arbitrary: first s)
  case (Cons f fs)
  let ?step = "\<lambda>(h, e). body (wh_file_id h, wh_offset h, entry_meta e)"
  have d: "dir (filename first) = Some (content f)" using Cons.prems(2)[of 0] by simp
  have "dir (filename (Suc first + i)) = Some (content (fs ! i))" if "i < length fs" for i
    using Cons.prems(2)[of "Suc i"] that by simp
  then have ih: "replay_files body dir (Suc first) (map filename [Suc first..<Suc first + length fs]) =
      rfold ?step (file_items (Suc first) fs)"
    using Cons.IH[of "Suc first"] Cons.prems(1) by auto
  have "[first..<first + length (f # fs)] = first # [Suc first..<Suc first + length fs]"
    using upt_conv_Cons[of first "first + length (f # fs)"] by simp
  moreover have "replay_file body first (length (content f)) (content f) s =
      rfold ?step (zip (handles_at first 0 f) f) s"
    using replay_file_items[of f body first 0 s] Cons.prems(1) by simp
  ultimately show ?case using d ih by (simp add: rfold_append)
qed simp

lemma log_replay_items:
  assumes "log_inv lg closed []"
  shows "log_replay body lg s =
    rfold (\<lambda>(h, e). body (wh_file_id h, wh_offset h, entry_meta e))
      (file_items (first_log_file_id lg) closed) s"
proof -
  let ?f = "first_log_file_id lg"
  have "log_dir lg = dir_of ?f (closed @ [[]])" "frozen_files lg = map filename [?f..<?f + length closed]"
    using assms by (auto simp: log_inv_def disk_inv_def dir_of_snoc)
  moreover have "\<forall>es \<in> set closed. wf_entries es" using assms by (simp add: log_inv_def)
  moreover have "log_dir lg (filename (?f + i)) = Some (content (closed ! i))" if "i < length closed" for i
    using dir_of_nth[of i "closed @ [[]]" ?f] that calculation(1) by (simp add: nth_append)
  ultimately show ?thesis unfolding log_replay_def by (simp add: replay_files_items)
qed

section \<open>Runs of the log\<close>

text \<open>A run interleaves callers that enqueue, turns of the leader, and shutdowns followed by opening
  the same directory. Its history pairs every acknowledged entry with the handle the caller got.\<close>

inductive log_run :: "raft_log \<Rightarrow> (write_handle \<times> entry) list \<Rightarrow> bool" where
  run_create: "log_open Map.empty [] capacity = Ok lg \<Longrightarrow> log_run lg []"
| run_enqueue: "log_run lg hist \<Longrightarrow> \<forall>e \<in> set entries. wf_entry e \<Longrightarrow>
    log_enqueue entries lg = (is_leader, lg') \<Longrightarrow> log_run lg' hist"
| run_lead: "log_run lg hist \<Longrightarrow> log_lead lg = Ok (lg', handles) \<Longrightarrow>
    log_run lg' (hist @ concat (map2 zip handles (log_queue lg)))"
| run_reopen: "log_run lg hist \<Longrightarrow> distinct names \<Longrightarrow> set names = dom (log_dir lg) \<Longrightarrow>
    first_log_file_id lg + length (frozen_files lg) + 1 < 2 ^ 64 \<Longrightarrow>
    log_open (log_dir lg) names capacity = Ok lg' \<Longrightarrow> log_run lg' hist"

inductive_cases log_run_cases: "log_run lg hist"

lemma log_inv_queue [simp]: "log_inv (lg\<lparr>log_queue := q\<rparr>) closed cur \<longleftrightarrow> log_inv lg closed cur"
  by (simp add: log_inv_def disk_inv_def)

lemma log_run_inv:
  "log_run lg hist \<Longrightarrow> \<exists>closed cur. log_inv lg closed cur \<and>
     hist = file_items (first_log_file_id lg) (closed @ [cur]) \<and>
     (\<forall>w \<in> set (log_queue lg). wf_entries w)"
proof (induction rule: log_run.induct)
  case (run_create capacity lg)
  then have "log_inv lg [] []" "log_queue lg = []"
    by (auto simp: log_open_def Let_def new_active_file_def log_inv_def disk_inv_def)
  then show ?case by (intro exI[of _ "[]"]) auto
next
  case (run_enqueue lg hist entries is_leader lg')
  have "lg' = lg\<lparr>log_queue := log_queue lg @ [entries]\<rparr>"
    using run_enqueue.hyps(3) by (simp add: log_enqueue_def Let_def)
  moreover have "wf_entries entries" using run_enqueue.hyps(2) by (simp add: wf_entries_def)
  ultimately show ?case using run_enqueue.IH by fastforce
next
  case (run_lead lg hist lg' handles)
  then obtain closed cur where inv: "log_inv lg closed cur"
    "hist = file_items (first_log_file_id lg) (closed @ [cur])"
    "\<forall>w \<in> set (log_queue lg). wf_entries w" by blast
  obtain closed' cur' hs where p: "place_all (log_file_capacity lg) (first_log_file_id lg) (log_queue lg)
      (closed, cur) = ((closed', cur'), hs)" by (metis prod.collapse)
  from log_lead_spec[OF inv(1,3) p] run_lead.hyps(2) have "handles = hs" "log_inv lg' closed' cur'"
    "first_log_file_id lg' = first_log_file_id lg" "log_queue lg' = []" by auto
  with place_all_items[OF p] inv(2) show ?case by (intro exI[of _ closed'] exI[of _ cur']) simp
next
  case (run_reopen lg hist names capacity lg')
  then obtain closed cur where inv: "log_inv lg closed cur"
    "hist = file_items (first_log_file_id lg) (closed @ [cur])" by blast
  then have "length (frozen_files lg) = length closed" by (simp add: log_inv_def disk_inv_def)
  with log_open_spec[OF inv(1) run_reopen.hyps(2,3), of capacity] run_reopen.hyps(4,5)
  have "log_inv lg' (closed @ [cur]) []" "first_log_file_id lg' = first_log_file_id lg"
    "log_queue lg' = []" by auto
  with inv(2) show ?case
    by (intro exI[of _ "closed @ [cur]"] exI[of _ "[]"]) (simp add: file_items_append)
qed

section \<open>Properties\<close>

text \<open>C19. Whatever appends, leader turns and restarts came in between, reading at a handle that \<open>append\<close>
  returned yields exactly the bytes its entry was encoded to.\<close>

theorem log_handles_stay_readable:
  assumes "log_run lg hist" "(h, e) \<in> set hist"
  shows "\<exists>bs. entry_encode e [] = Ok bs \<and> log_read lg (wh_file_id h) (wh_offset h) (wh_len h) = Ok bs"
proof -
  obtain closed cur where inv: "log_inv lg closed cur"
    "hist = file_items (first_log_file_id lg) (closed @ [cur])" using log_run_inv[OF assms(1)] by blast
  then have mem: "(h, e) \<in> set (file_items (first_log_file_id lg) (closed @ [cur]))" using assms(2) by simp
  obtain i pre post where "i < length (closed @ [cur])" "(closed @ [cur]) ! i = pre @ e # post"
    "wh_len h = length (enc e)" using file_items_position[OF mem] by blast
  moreover have "\<forall>es \<in> set (closed @ [cur]). wf_entries es" using inv(1) by (auto simp: log_inv_def)
  ultimately have "wf_entries (pre @ e # post)" by (metis nth_mem)
  then have "entry_encode e [] = Ok (enc e)" using entry_encode_enc[of e "[]"] by simp
  with log_read_part[OF inv(1) mem, of 0 "wh_len h"] \<open>wh_len h = _\<close> show ?thesis by simp
qed

text \<open>A small run: two callers enqueue before the leader's turn; the first one's entry fills a file.\<close>

definition example_truncate :: entry where
  "example_truncate = Truncate \<lparr>truncate_group = 1, truncate_index = 5\<rparr>"

definition example_handle :: "nat \<Rightarrow> write_handle" where
  "example_handle file_id = \<lparr>wh_file_id = file_id, wh_offset = 0, wh_len = 17\<rparr>"

definition example_log :: raft_log where
  "example_log = \<lparr>log_dir = [filename 1 \<mapsto> 1 # le_bytes 8 1 @ le_bytes 8 5,
       filename 2 \<mapsto> 1 # le_bytes 8 1 @ le_bytes 8 5, filename 3 \<mapsto> []],
     log_file_capacity = 10, first_log_file_id = 1, frozen_files = [filename 1, filename 2],
     active_file = filename 3, active_file_len = 0, log_queue = []\<rparr>"

lemma example_run:
  "log_run example_log [(example_handle 1, example_truncate), (example_handle 2, example_truncate)]"
proof -
  define lg0 where "lg0 = \<lparr>log_dir = [filename 1 \<mapsto> []], log_file_capacity = 10, first_log_file_id = 1,
      frozen_files = [], active_file = filename 1, active_file_len = 0, log_queue = []\<rparr>"
  define lg2 where "lg2 = lg0\<lparr>log_queue := [[example_truncate], [example_truncate]]\<rparr>"
  have "log_run lg0 []"
    by (rule run_create[of 10]) (simp add: log_open_def new_active_file_def Let_def lg0_def)
  then have "log_run (lg0\<lparr>log_queue := [[example_truncate]]\<rparr>) []"
    by (rule run_enqueue[where entries = "[example_truncate]"])
      (auto simp: example_truncate_def log_enqueue_def lg0_def)
  then have run: "log_run lg2 []"
    by (rule run_enqueue[where entries = "[example_truncate]"])
      (auto simp: example_truncate_def log_enqueue_def lg0_def lg2_def)
  have "log_lead lg2 = Ok (example_log, [[example_handle 1], [example_handle 2]])"
    by (simp add: log_lead_def Let_def lg2_def lg0_def example_truncate_def truncate_encode_def
        new_active_file_def write_all_def filename_inject example_log_def example_handle_def fun_upd_twist
        numeral_2_eq_2 numeral_3_eq_3)
  from run_lead[OF run this] show ?thesis by (simp add: lg2_def lg0_def)
qed

theorem log_handles_stay_readable_witness:
  "\<exists>bs. entry_encode example_truncate [] = Ok bs \<and> log_read example_log 2 0 17 = Ok bs"
  using log_handles_stay_readable[OF example_run, of "example_handle 2" example_truncate]
  by (simp add: example_handle_def)

text \<open>Opening the directory of a log again succeeds whatever order the directory lists its files
  in, and replaying visits exactly the acknowledged entries, in the order of their
  acknowledgement, each with the file and the offset of its handle.\<close>

theorem log_reopen_replays_history:
  assumes "log_run lg hist" "distinct names" "set names = dom (log_dir lg)"
    and "first_log_file_id lg + length (frozen_files lg) + 1 < 2 ^ 64"
  shows "\<exists>lg'. log_open (log_dir lg) names capacity = Ok lg' \<and>
    log_replay body lg' s =
      rfold (\<lambda>(h, e). body (wh_file_id h, wh_offset h, entry_meta e)) hist s"
proof -
  obtain closed cur where inv: "log_inv lg closed cur"
    "hist = file_items (first_log_file_id lg) (closed @ [cur])" using log_run_inv[OF assms(1)] by blast
  then have "length (frozen_files lg) = length closed" by (simp add: log_inv_def disk_inv_def)
  with log_open_spec[OF inv(1) assms(2,3), of capacity] assms(4) obtain lg' where
    lg': "log_open (log_dir lg) names capacity = Ok lg'" "log_inv lg' (closed @ [cur]) []"
    "first_log_file_id lg' = first_log_file_id lg" by auto
  with log_replay_items[OF lg'(2), of body s] inv(2) show ?thesis by auto
qed

theorem log_reopen_replays_history_witness:
  "\<exists>lg'. log_open (log_dir example_log) [filename 3, filename 1, filename 2] 10 = Ok lg' \<and>
     log_replay (\<lambda>(file_id, offset, e) s. Ok ((file_id, offset) # s)) lg' [] = Ok [(2, 0), (1, 0)]"
  using log_reopen_replays_history[OF example_run, of "[filename 3, filename 1, filename 2]" 10
      "\<lambda>(file_id, offset, e) s. Ok ((file_id, offset) # s)" "[]"]
  by (auto simp: example_log_def filename_inject example_handle_def)

fun append_each :: "raft_log \<Rightarrow> entry list list \<Rightarrow> (raft_log \<times> write_handle list list) res" where
  "append_each lg [] = Ok (lg, [])"
| "append_each lg (w # ws) =
     rbind (log_append lg w) (\<lambda>(lg, h). rbind (append_each lg ws) (\<lambda>(lg, hs). Ok (lg, h # hs)))"

lemma append_each_spec:
  assumes "log_inv lg closed cur" "log_queue lg = []" "\<forall>w \<in> set ws. wf_entries w"
    and "place_all (log_file_capacity lg) (first_log_file_id lg) ws (closed, cur) = ((closed', cur'), hs)"
  shows "\<exists>lg'. append_each lg ws = Ok (lg', hs) \<and> log_inv lg' closed' cur' \<and>
    first_log_file_id lg' = first_log_file_id lg \<and>
    log_file_capacity lg' = log_file_capacity lg \<and> log_queue lg' = []"
  using assms
proof (induction ws arbitrary: lg closed cur hs)
  case Nil
  then show ?case by auto
next
  case (Cons w ws)
  let ?lg = "lg\<lparr>log_queue := [w]\<rparr>"
  obtain closed1 cur1 where p: "place (log_file_capacity lg) w (closed, cur) = (closed1, cur1)"
    by fastforce
  from Cons.prems(4) p obtain hs1 where hs1:
    "place_all (log_file_capacity lg) (first_log_file_id lg) ws (closed1, cur1) = ((closed', cur'), hs1)"
    "hs = place_handles (first_log_file_id lg) w (closed, cur) # hs1" by (auto split: prod.splits)
  have "place_all (log_file_capacity ?lg) (first_log_file_id ?lg) (log_queue ?lg) (closed, cur) =
      ((closed1, cur1), [place_handles (first_log_file_id lg) w (closed, cur)])" using p by simp
  from log_lead_spec[OF _ _ this] Cons.prems(1,3) obtain lg1 where
    lg1: "log_lead ?lg = Ok (lg1, [place_handles (first_log_file_id lg) w (closed, cur)])"
    "log_inv lg1 closed1 cur1" "first_log_file_id lg1 = first_log_file_id lg"
    "log_file_capacity lg1 = log_file_capacity lg" "log_queue lg1 = []" by auto
  then have "log_append lg w = Ok (lg1, place_handles (first_log_file_id lg) w (closed, cur))"
    using Cons.prems(2) by (simp add: log_append_def log_enqueue_def Let_def index_def)
  with Cons.IH[of lg1 closed1 cur1 hs1] lg1 hs1 Cons.prems(3) show ?case by auto
qed

text \<open>C21. Group commit is transparent: a leader's turn over the queue \<open>ws\<close> leaves the same files and
  gives every writer the same handles as the writers' appends one after the other.\<close>

theorem group_commit_is_sequential:
  assumes "log_run lg hist" "log_queue lg = []" "\<forall>w \<in> set ws. \<forall>e \<in> set w. wf_entry e"
  shows "log_lead (lg\<lparr>log_queue := ws\<rparr>) = append_each lg ws \<and> is_ok (append_each lg ws)"
proof -
  let ?lg = "lg\<lparr>log_queue := ws\<rparr>"
  obtain closed cur where inv: "log_inv lg closed cur" using log_run_inv[OF assms(1)] by blast
  obtain closed' cur' hs where p: "place_all (log_file_capacity lg) (first_log_file_id lg) ws
      (closed, cur) = ((closed', cur'), hs)" by (metis prod.collapse)
  have wf: "\<forall>w \<in> set ws. wf_entries w" using assms(3) by (simp add: wf_entries_def)
  from append_each_spec[OF inv assms(2) wf p] obtain lg1 where
    lg1: "append_each lg ws = Ok (lg1, hs)" "log_inv lg1 closed' cur'"
    "first_log_file_id lg1 = first_log_file_id lg" "log_file_capacity lg1 = log_file_capacity lg"
    "log_queue lg1 = []" by blast
  from log_lead_spec[of ?lg closed cur closed' cur' hs] inv wf p obtain lg2 where
    lg2: "log_lead ?lg = Ok (lg2, hs)" "log_inv lg2 closed' cur'"
    "first_log_file_id lg2 = first_log_file_id lg" "log_file_capacity lg2 = log_file_capacity lg"
    "log_queue lg2 = []" by auto
  have "lg1 = lg2" by (rule log_inv_unique[OF lg1(2) lg2(2)]) (use lg1 lg2 in auto)
  with lg1(1) lg2(1) show ?thesis by simp
qed

theorem group_commit_is_sequential_witness:
  "log_lead (example_log\<lparr>log_queue := [[example_truncate], []]\<rparr>) =
     append_each example_log [[example_truncate], []]"
  using group_commit_is_sequential[OF example_run, of "[[example_truncate], []]"]
  by (simp add: example_log_def example_truncate_def)

end
