(* ===== verification/RaftMem.thy ===== *)
theory RaftMem
  imports Prelude
begin

text \<open>
  \<open>storage/src/raft_log_store/mem.rs\<close>: the in-memory index of the raft log store. Each raft group
  has a window of entry indices starting at \<open>first_index\<close>, a mask index below which entries are
  hidden from raft, the term of the entry just before the window, and a key-value map.

  The locks of \<open>MemStates\<close> are held for a whole call, so a call is one atomic step on the map from
  groups to states. \<open>u64\<close> arithmetic is checked.
\<close>

record entry_index =
  ei_term :: nat
  ei_ctx :: bytes
  ei_file_id :: nat
  ei_block_offset :: nat
  ei_block_len :: nat
  ei_offset :: nat
  ei_len :: nat

record mem_state =
  first_index :: nat
  mask_index :: nat
  indices :: "entry_index list"
  kvs :: "bytes \<rightharpoonup> bytes"
  phantom_term :: nat

type_synonym mem_states = "nat \<rightharpoonup> mem_state"

definition new_mem_state :: mem_state where
  "new_mem_state =
     \<lparr>first_index = 1, mask_index = 1, indices = [], kvs = Map.empty, phantom_term = 0\<rparr>"

text \<open>The macros \<open>state!\<close> and \<open>state_mut!\<close>: look the group up, run the body on its state.\<close>

definition with_state :: "mem_states \<Rightarrow> nat \<Rightarrow> (mem_state \<Rightarrow> 'a res) \<Rightarrow> 'a res" where
  "with_state states gid body =
     rbind (ok_or (RaftLogStoreError (GroupNotExists gid)) (states gid)) body"

definition with_state_mut ::
  "mem_states \<Rightarrow> nat \<Rightarrow> (mem_state \<Rightarrow> mem_state res) \<Rightarrow> mem_states res" where
  "with_state_mut states gid body =
     with_state states gid (\<lambda>st. rbind (body st) (\<lambda>st'. Ok (states(gid \<mapsto> st'))))"

definition next_index :: "mem_state \<Rightarrow> nat res" where
  "next_index st = add_u64 (first_index st) (length (indices st))"

section \<open>Groups\<close>

definition add_group :: "mem_states \<Rightarrow> nat \<Rightarrow> mem_states res" where
  "add_group states gid =
     (case states gid of
        Some _ \<Rightarrow> Err (RaftLogStoreError (GroupAlreadyExists gid))
      | None \<Rightarrow> Ok (states(gid \<mapsto> new_mem_state)))"

definition may_add_group :: "mem_states \<Rightarrow> nat \<Rightarrow> bool \<times> mem_states" where
  "may_add_group states gid =
     (case states gid of
        Some _ \<Rightarrow> (False, states)
      | None \<Rightarrow> (True, states(gid \<mapsto> new_mem_state)))"

definition remove_group :: "mem_states \<Rightarrow> nat \<Rightarrow> mem_states res" where
  "remove_group states gid =
     (case states gid of
        Some st \<Rightarrow> Ok (states(gid \<mapsto>
          st\<lparr>first_index := u64_max, indices := [], kvs := Map.empty\<rparr>))
      | None \<Rightarrow> Err (RaftLogStoreError (GroupNotExists gid)))"

section \<open>Reads\<close>

definition mem_term :: "mem_states \<Rightarrow> nat \<Rightarrow> nat \<Rightarrow> nat option res" where
  "mem_term states gid i = with_state states gid (\<lambda>st.
     if indices st = [] then Ok (Some (phantom_term st))
     else rbind (sub_u64 (first_index st) 1) (\<lambda>prev.
       if i = prev then Ok (Some (phantom_term st))
       else if i < first_index st then Ok None
       else rbind (next_index st) (\<lambda>next.
         if next \<le> i then Ok None
         else rbind (index (indices st) (i - first_index st)) (\<lambda>ei. Ok (Some (ei_term ei))))))"

definition mem_ctx :: "mem_states \<Rightarrow> nat \<Rightarrow> nat \<Rightarrow> bytes option res" where
  "mem_ctx states gid i = with_state states gid (\<lambda>st.
     if i < first_index st then Ok None
     else rbind (next_index st) (\<lambda>next.
       if next \<le> i then Ok None
       else rbind (index (indices st) (i - first_index st)) (\<lambda>ei. Ok (Some (ei_ctx ei)))))"

definition mem_first_index :: "mem_states \<Rightarrow> nat \<Rightarrow> nat res" where
  "mem_first_index states gid = with_state states gid (\<lambda>st. Ok (first_index st))"

definition mem_last_index :: "mem_states \<Rightarrow> nat \<Rightarrow> nat res" where
  "mem_last_index states gid = with_state states gid (\<lambda>st.
     rbind (next_index st) (\<lambda>next. sub_u64 next 1))"

definition masked_first_index :: "mem_states \<Rightarrow> nat \<Rightarrow> nat res" where
  "masked_first_index states gid = with_state states gid (\<lambda>st. Ok (mask_index st))"

definition masked_last_index :: "mem_states \<Rightarrow> nat \<Rightarrow> nat res" where
  "masked_last_index states gid = with_state states gid (\<lambda>st.
     if indices st = [] then sub_u64 (mask_index st) 1
     else rbind (next_index st) (\<lambda>next. sub_u64 next 1))"

section \<open>Updates\<close>

text \<open>The loop over the overlapping positions: an old index with a higher term stays.\<close>

fun overwrite_indices :: "nat \<Rightarrow> entry_index list \<Rightarrow> entry_index list \<Rightarrow> entry_index list res" where
  "overwrite_indices pos [] old = Ok old"
| "overwrite_indices pos (ei # eis) old =
     rbind (index old pos) (\<lambda>cur.
       overwrite_indices (pos + 1) eis (if ei_term cur > ei_term ei then old else old[pos := ei]))"

text \<open>The body of \<open>append\<close> on one state: reject a gap, drop the part before the window, append the
  part behind it, overwrite the overlap.\<close>

definition append_state :: "nat \<Rightarrow> entry_index list \<Rightarrow> mem_state \<Rightarrow> mem_state res" where
  "append_state first eis st =
     rbind (next_index st) (\<lambda>next.
       if first > next then Err (RaftLogStoreError (RaftLogGap next first))
       else
         let outdated = first_index st - first in
         if first < first_index st \<and> length eis < outdated then Panic
         else
           let eis' = (if first < first_index st then drop outdated eis else eis);
               first' = (if first < first_index st then first_index st else first)
           in if first < first_index st \<and> eis' = [] then Ok st
              else
                let fresh = (if next - first' < length eis' then drop (next - first') eis' else []);
                    overlap = (if next - first' < length eis' then take (next - first') eis' else eis')
                in rbind (overwrite_indices (first' - first_index st) overlap (indices st @ fresh))
                     (\<lambda>eis''. Ok (st\<lparr>indices := eis''\<rparr>)))"

definition mem_append :: "mem_states \<Rightarrow> nat \<Rightarrow> nat \<Rightarrow> entry_index list \<Rightarrow> mem_states res" where
  "mem_append states gid first eis =
     rbind (rassert (eis \<noteq> [])) (\<lambda>_. with_state_mut states gid (append_state first eis))"

definition truncate_state :: "nat \<Rightarrow> mem_state \<Rightarrow> mem_state res" where
  "truncate_state i st =
     (if i < first_index st then Err (RaftLogStoreError (RaftLogGap i (first_index st)))
      else rbind (next_index st) (\<lambda>next.
        if next \<le> i then Err (RaftLogStoreError (RaftLogGap next i))
        else Ok (st\<lparr>indices := take (i - first_index st) (indices st)\<rparr>)))"

definition mem_truncate :: "mem_states \<Rightarrow> nat \<Rightarrow> nat \<Rightarrow> mem_states res" where
  "mem_truncate states gid i = with_state_mut states gid (truncate_state i)"

definition compact_state :: "nat \<Rightarrow> mem_state \<Rightarrow> mem_state res" where
  "compact_state i st =
     (if i \<le> first_index st then Ok st
      else rbind (next_index st) (\<lambda>next.
        if i > next then
          Ok (st\<lparr>phantom_term := (if indices st = [] then phantom_term st
                                  else ei_term (last (indices st))),
                 first_index := i, indices := []\<rparr>)
        else
          let len = i - first_index st; drained = take len (indices st)
          in Ok (st\<lparr>indices := drop len (indices st),
                    phantom_term := (if drained = [] then phantom_term st
                                     else ei_term (last drained)),
                    first_index := i\<rparr>)))"

definition mem_compact :: "mem_states \<Rightarrow> nat \<Rightarrow> nat \<Rightarrow> mem_states res" where
  "mem_compact states gid i = with_state_mut states gid (compact_state i)"

definition mask_state :: "nat \<Rightarrow> mem_state \<Rightarrow> mem_state res" where
  "mask_state i st =
     rbind (next_index st) (\<lambda>next.
       if i > next then Err (RaftLogStoreError (RaftLogGap next i))
       else Ok (st\<lparr>mask_index := i\<rparr>))"

definition mem_mask :: "mem_states \<Rightarrow> nat \<Rightarrow> nat \<Rightarrow> mem_states res" where
  "mem_mask states gid i = with_state_mut states gid (mask_state i)"

section \<open>Entries and key-value pairs\<close>

definition mem_may_entries ::
  "mem_states \<Rightarrow> nat \<Rightarrow> nat \<Rightarrow> nat \<Rightarrow> bool \<Rightarrow> (nat \<times> entry_index list) res" where
  "mem_may_entries states gid i max_len unmask = with_state states gid (\<lambda>st.
     let start_index = max i (if unmask then first_index st
                              else max (mask_index st) (first_index st))
     in rbind (add_u64 i max_len) (\<lambda>limit.
        rbind (next_index st) (\<lambda>next.
          let end_index = min limit next in
          if start_index \<ge> end_index then Ok (0, [])
          else
            let start = start_index - first_index st;
                stop = start + (end_index - start_index)
            in rbind (slice start stop (indices st)) (\<lambda>eis. Ok (start_index, eis)))))"

definition mem_entries :: "mem_states \<Rightarrow> nat \<Rightarrow> nat \<Rightarrow> nat \<Rightarrow> entry_index list res" where
  "mem_entries states gid i max_len = with_state states gid (\<lambda>st.
     if i < first_index st then Err (RaftLogStoreError (RaftLogGap i (first_index st)))
     else rbind (next_index st) (\<lambda>next.
       if next \<le> i then Err (RaftLogStoreError (RaftLogGap next i))
       else
         let start = i - first_index st
         in rbind (add_u64 start max_len) (\<lambda>limit.
              slice start (min limit (length (indices st))) (indices st))))"

definition mem_put :: "mem_states \<Rightarrow> nat \<Rightarrow> bytes \<Rightarrow> bytes \<Rightarrow> mem_states res" where
  "mem_put states gid key val =
     with_state_mut states gid (\<lambda>st. Ok (st\<lparr>kvs := (kvs st)(key \<mapsto> val)\<rparr>))"

definition mem_delete :: "mem_states \<Rightarrow> nat \<Rightarrow> bytes \<Rightarrow> mem_states res" where
  "mem_delete states gid key =
     with_state_mut states gid (\<lambda>st. Ok (st\<lparr>kvs := (kvs st)(key := None)\<rparr>))"

definition mem_get :: "mem_states \<Rightarrow> nat \<Rightarrow> bytes \<Rightarrow> bytes option res" where
  "mem_get states gid key = with_state states gid (\<lambda>st. Ok (kvs st key))"

section \<open>The window as a partial map\<close>

text \<open>Specification of a state: a partial map from log indices to entry indices, defined on a
  contiguous interval. Every update has an abstract counterpart on it.\<close>

definition log_of :: "mem_state \<Rightarrow> nat \<rightharpoonup> entry_index" where
  "log_of st i =
     (if first_index st \<le> i \<and> i < first_index st + length (indices st)
      then Some (indices st ! (i - first_index st)) else None)"

definition wf_state :: "mem_state \<Rightarrow> bool" where
  "wf_state st \<longleftrightarrow> 1 \<le> first_index st \<and> first_index st + length (indices st) < 2 ^ 64"

definition merge_entry :: "entry_index option \<Rightarrow> entry_index \<Rightarrow> entry_index" where
  "merge_entry old ei =
     (case old of Some cur \<Rightarrow> (if ei_term cur > ei_term ei then cur else ei) | None \<Rightarrow> ei)"

definition merge_append ::
  "nat \<Rightarrow> nat \<Rightarrow> entry_index list \<Rightarrow> (nat \<rightharpoonup> entry_index) \<Rightarrow> (nat \<rightharpoonup> entry_index)" where
  "merge_append window first eis l = (\<lambda>i.
     if window \<le> i \<and> first \<le> i \<and> i < first + length eis
     then Some (merge_entry (l i) (eis ! (i - first))) else l i)"

lemma next_index_wf: "wf_state st \<Longrightarrow> next_index st = Ok (first_index st + length (indices st))"
  by (simp add: next_index_def wf_state_def)

lemma overwrite_indices_spec:
  "pos + length eis \<le> length old \<Longrightarrow>
     \<exists>new. overwrite_indices pos eis old = Ok new \<and> length new = length old \<and>
       (\<forall>j < length old. new ! j =
          (if pos \<le> j \<and> j < pos + length eis
           then merge_entry (Some (old ! j)) (eis ! (j - pos)) else old ! j))"
proof (induction eis arbitrary: pos old)
  case (Cons ei eis)
  let ?old = "if ei_term (old ! pos) > ei_term ei then old else old[pos := ei]"
  have "Suc pos + length eis \<le> length ?old" using Cons.prems by simp
  from Cons.IH[OF this] obtain new where new: "overwrite_indices (Suc pos) eis ?old = Ok new"
    "length new = length ?old"
    "\<forall>j < length ?old. new ! j = (if Suc pos \<le> j \<and> j < Suc pos + length eis
       then merge_entry (Some (?old ! j)) (eis ! (j - Suc pos)) else ?old ! j)" by blast
  have "new ! j = (if pos \<le> j \<and> j < pos + length (ei # eis)
      then merge_entry (Some (old ! j)) ((ei # eis) ! (j - pos)) else old ! j)"
    if j: "j < length old" for j
  proof -
    have "new ! j = (if Suc pos \<le> j \<and> j < Suc pos + length eis
       then merge_entry (Some (?old ! j)) (eis ! (j - Suc pos)) else ?old ! j)"
      using new(3) j by simp
    then show ?thesis
    proof (cases j pos rule: linorder_cases)
      case greater
      then have "j - pos = Suc (j - Suc pos)" by simp
      moreover have "?old ! j = old ! j" using greater by simp
      ultimately show ?thesis
        using greater \<open>new ! j = _\<close> by (simp add: Suc_le_eq)
    qed (use \<open>new ! j = _\<close> j in \<open>simp_all add: merge_entry_def\<close>)
  qed
  with new(1,2) Cons.prems show ?case by auto
qed auto

text \<open>A state whose window was extended by \<open>fresh\<close> and then overwritten from \<open>first\<close> on.\<close>

lemma log_of_overwritten:
  assumes new: "length new = length (indices st @ fresh)"
      "\<forall>j < length (indices st @ fresh). new ! j =
         (if first - first_index st \<le> j \<and> j < first - first_index st + length overlap
          then merge_entry (Some ((indices st @ fresh) ! j)) (overlap ! (j - (first - first_index st)))
          else (indices st @ fresh) ! j)"
    and eis: "eis = overlap @ fresh" and le: "first_index st \<le> first"
    and split: "fresh = [] \<and> first + length eis \<le> first_index st + length (indices st)
      \<or> first + length overlap = first_index st + length (indices st)"
  shows "log_of (st\<lparr>indices := new\<rparr>) = merge_append (first_index st) first eis (log_of st)"
proof (rule ext)
  fix i
  let ?f = "first_index st" and ?n = "length (indices st)"
  show "log_of (st\<lparr>indices := new\<rparr>) i = merge_append ?f first eis (log_of st) i"
  proof (cases "?f \<le> i \<and> i < ?f + ?n + length fresh")
    case False
    then show ?thesis using new(1) eis split by (auto simp: log_of_def merge_append_def)
  next
    case True
    define j where "j = i - ?f"
    have j: "j < ?n + length fresh" "i = ?f + j" using True by (auto simp: j_def)
    have nj: "new ! j = (if first \<le> i \<and> i < first + length overlap
        then merge_entry (Some ((indices st @ fresh) ! j)) (overlap ! (i - first))
        else (indices st @ fresh) ! j)"
      using new(2) j le by (auto simp: add.commute)
    have lo: "log_of (st\<lparr>indices := new\<rparr>) i = Some (new ! j)"
      using True new(1) by (simp add: log_of_def j_def)
    consider "i < first" | "first \<le> i" "i < ?f + ?n" | "?f + ?n \<le> i" by linarith
    then show ?thesis
    proof cases
      case 1
      then show ?thesis using lo nj j split by (auto simp: merge_append_def log_of_def nth_append)
    next
      case 2
      then show ?thesis
        using lo nj j split eis le
        by (auto simp: merge_append_def log_of_def nth_append merge_entry_def)
    next
      case 3
      then have "first + length overlap = ?f + ?n" using split True by auto
      then show ?thesis
        using 3 lo nj j eis le
        by (auto simp: merge_append_def log_of_def nth_append merge_entry_def)
    qed
  qed
qed

lemma append_state_gap:
  "wf_state st \<Longrightarrow> first_index st + length (indices st) < first \<Longrightarrow>
     append_state first eis st =
       Err (RaftLogStoreError (RaftLogGap (first_index st + length (indices st)) first))"
  by (simp add: append_state_def next_index_wf)

lemma append_state_outdated_panics:
  assumes "wf_state st" "first + length eis < first_index st"
  shows "append_state first eis st = Panic"
proof -
  have "length eis < first_index st - first" "first < first_index st" using assms(2) by auto
  then show ?thesis using assms(1) by (simp add: append_state_def next_index_wf Let_def)
qed

text \<open>The part of a batch that lies in or behind the window, once the outdated prefix is gone.\<close>

lemma append_state_in_window:
  assumes wf: "wf_state st" and lo: "first_index st \<le> first"
    and hi: "first \<le> first_index st + length (indices st)"
  obtains st' where "append_state first eis st = Ok st'"
    "first_index st' = first_index st" "mask_index st' = mask_index st" "kvs st' = kvs st"
    "phantom_term st' = phantom_term st"
    "length (indices st') = max (length (indices st)) (first + length eis - first_index st)"
    "log_of st' = merge_append (first_index st) first eis (log_of st)"
proof -
  let ?f = "first_index st" and ?n = "length (indices st)"
  let ?d = "?f + ?n - first"
  define fresh where "fresh = (if ?d < length eis then drop ?d eis else [])"
  define overlap where "overlap = (if ?d < length eis then take ?d eis else eis)"
  have parts: "eis = overlap @ fresh" by (simp add: fresh_def overlap_def)
  have fits: "(first - ?f) + length overlap \<le> length (indices st @ fresh)"
    using lo hi by (auto simp: fresh_def overlap_def)
  from overwrite_indices_spec[OF fits] obtain new where
    new: "overwrite_indices (first - ?f) overlap (indices st @ fresh) = Ok new"
      "length new = length (indices st @ fresh)"
      "\<forall>j < length (indices st @ fresh). new ! j =
         (if first - ?f \<le> j \<and> j < first - ?f + length overlap
          then merge_entry (Some ((indices st @ fresh) ! j)) (overlap ! (j - (first - ?f)))
          else (indices st @ fresh) ! j)" by blast
  have "append_state first eis st = Ok (st\<lparr>indices := new\<rparr>)"
    using lo hi new(1) by (simp add: append_state_def next_index_wf[OF wf] Let_def fresh_def overlap_def)
  moreover have "length new = max ?n (first + length eis - ?f)"
    using new(2) lo hi by (auto simp: fresh_def max_def)
  moreover have "log_of (st\<lparr>indices := new\<rparr>) = merge_append ?f first eis (log_of st)"
    by (rule log_of_overwritten[OF new(2,3) parts lo])
      (use hi in \<open>auto simp: fresh_def overlap_def\<close>)
  ultimately show ?thesis using that[of "st\<lparr>indices := new\<rparr>"] by simp
qed

lemma append_state_drops_outdated:
  assumes "wf_state st" "first < first_index st" "first_index st \<le> first + length eis"
  shows "append_state first eis st =
     (if drop (first_index st - first) eis = [] then Ok st
      else append_state (first_index st) (drop (first_index st - first) eis) st)"
  using assms by (auto simp: append_state_def next_index_wf Let_def)

lemma merge_append_drop:
  assumes "first \<le> window" "\<And>i. i < window \<Longrightarrow> l i = None"
  shows "merge_append window window (drop (window - first) eis) l = merge_append window first eis l"
  using assms by (auto simp: merge_append_def fun_eq_iff)

lemma log_of_below [simp]: "i < first_index st \<Longrightarrow> log_of st i = None"
  by (simp add: log_of_def)

lemma append_state_spec:
  assumes wf: "wf_state st" and lo: "first_index st \<le> first + length eis"
    and hi: "first \<le> first_index st + length (indices st)"
    and bound: "first + length eis < 2 ^ 64"
  shows "\<exists>st'. append_state first eis st = Ok st' \<and> wf_state st' \<and>
    first_index st' = first_index st \<and> mask_index st' = mask_index st \<and> kvs st' = kvs st \<and>
    phantom_term st' = phantom_term st \<and>
    log_of st' = merge_append (first_index st) first eis (log_of st)"
proof (cases "first_index st \<le> first")
  case True
  from append_state_in_window[OF wf True hi, of eis] obtain st' where
    "append_state first eis st = Ok st'" "first_index st' = first_index st"
    "mask_index st' = mask_index st" "kvs st' = kvs st" "phantom_term st' = phantom_term st"
    "length (indices st') = max (length (indices st)) (first + length eis - first_index st)"
    "log_of st' = merge_append (first_index st) first eis (log_of st)" .
  then show ?thesis using wf bound by (auto simp: wf_state_def)
next
  case False
  let ?eis = "drop (first_index st - first) eis"
  from append_state_in_window[OF wf, of "first_index st" ?eis] obtain st' where
    st': "append_state (first_index st) ?eis st = Ok st'" "first_index st' = first_index st"
    "mask_index st' = mask_index st" "kvs st' = kvs st" "phantom_term st' = phantom_term st"
    "length (indices st') = max (length (indices st)) (first_index st + length ?eis - first_index st)"
    "log_of st' = merge_append (first_index st) (first_index st) ?eis (log_of st)" by auto
  have la: "merge_append (first_index st) (first_index st) ?eis (log_of st) =
      merge_append (first_index st) first eis (log_of st)"
    using False by (intro merge_append_drop) auto
  show ?thesis
  proof (cases "?eis = []")
    case True
    then have "merge_append (first_index st) first eis (log_of st) = log_of st"
      by (auto simp: merge_append_def fun_eq_iff)
    with True show ?thesis using False lo wf append_state_drops_outdated by auto
  next
    case ne: False
    have "append_state first eis st = Ok st'"
      using append_state_drops_outdated[OF wf _ lo] False ne st'(1) by simp
    moreover have "wf_state st'" using st'(2,6) wf bound False lo by (auto simp: wf_state_def)
    ultimately show ?thesis using st' la by auto
  qed
qed

lemma truncate_state_spec:
  assumes "wf_state st" "first_index st \<le> i" "i < first_index st + length (indices st)"
  shows "truncate_state i st = Ok (st\<lparr>indices := take (i - first_index st) (indices st)\<rparr>)"
    and "log_of (st\<lparr>indices := take (i - first_index st) (indices st)\<rparr>) = log_of st |` {..<i}"
    and "wf_state (st\<lparr>indices := take (i - first_index st) (indices st)\<rparr>)"
  using assms
  by (auto simp: truncate_state_def next_index_wf log_of_def restrict_map_def fun_eq_iff wf_state_def)

lemma compact_state_spec:
  assumes "wf_state st" "i < 2 ^ 64"
  shows "\<exists>st'. compact_state i st = Ok st' \<and> wf_state st' \<and>
    first_index st' = max (first_index st) i \<and> mask_index st' = mask_index st \<and>
    kvs st' = kvs st \<and> log_of st' = log_of st |` {i..} \<and>
    phantom_term st' = (case log_of st (i - 1) of
        Some ei \<Rightarrow> ei_term ei
      | None \<Rightarrow> if first_index st < i \<and> indices st \<noteq> [] then ei_term (last (indices st))
                else phantom_term st)"
proof -
  let ?f = "first_index st" and ?n = "length (indices st)"
  consider "i \<le> ?f" | "?f < i" "i \<le> ?f + ?n" | "?f + ?n < i" by linarith
  then show ?thesis
  proof cases
    case 1
    then have "log_of st |` {i..} = log_of st"
      by (auto simp: restrict_map_def fun_eq_iff log_of_def)
    moreover have "log_of st (i - 1) = None"
      using 1 assms(1) by (auto simp: log_of_def wf_state_def)
    ultimately show ?thesis using 1 assms by (simp add: compact_state_def)
  next
    case 2
    have l: "last (take (i - ?f) (indices st)) = indices st ! (i - 1 - ?f)"
      using 2 by (subst last_conv_nth) auto
    have "log_of st (i - 1) = Some (indices st ! (i - 1 - ?f))" using 2 by (auto simp: log_of_def)
    moreover have "log_of (st\<lparr>indices := drop (i - ?f) (indices st), phantom_term := t,
        first_index := i\<rparr>) = log_of st |` {i..}" for t
      using 2 by (auto simp: log_of_def restrict_map_def fun_eq_iff)
    ultimately show ?thesis
      using 2 assms l by (auto simp: compact_state_def next_index_wf Let_def wf_state_def)
  next
    case 3
    then have "log_of st (i - 1) = None" "log_of st |` {i..} = Map.empty"
      by (auto simp: log_of_def restrict_map_def fun_eq_iff)
    moreover have "log_of (st\<lparr>phantom_term := t, first_index := i, indices := []\<rparr>) = Map.empty" for t
      by (auto simp: log_of_def fun_eq_iff)
    ultimately show ?thesis
      using 3 assms by (auto simp: compact_state_def next_index_wf wf_state_def)
  qed
qed

lemma mask_state_spec:
  "wf_state st \<Longrightarrow> mask_state i st =
     (if i \<le> first_index st + length (indices st) then Ok (st\<lparr>mask_index := i\<rparr>)
      else Err (RaftLogStoreError (RaftLogGap (first_index st + length (indices st)) i)))"
  by (auto simp: mask_state_def next_index_wf)

lemma window_slice:
  assumes "first_index st \<le> i" "i + n \<le> first_index st + length (indices st)"
  shows "take n (drop (i - first_index st) (indices st)) = map (the \<circ> log_of st) [i..<i + n]"
  using assms by (intro nth_equalityI) (auto simp: log_of_def add.commute)

section \<open>Reachable index states\<close>

text \<open>One rule per call that succeeds, with arbitrary arguments; the argument of \<open>compact\<close> is
  a \<open>u64\<close>.\<close>

inductive mem_step :: "mem_states \<Rightarrow> mem_states \<Rightarrow> bool" where
  step_add: "add_group s gid = Ok s' \<Longrightarrow> mem_step s s'"
| step_may_add: "may_add_group s gid = (b, s') \<Longrightarrow> mem_step s s'"
| step_remove: "remove_group s gid = Ok s' \<Longrightarrow> mem_step s s'"
| step_append: "mem_append s gid first eis = Ok s' \<Longrightarrow> mem_step s s'"
| step_truncate: "mem_truncate s gid i = Ok s' \<Longrightarrow> mem_step s s'"
| step_compact: "mem_compact s gid i = Ok s' \<Longrightarrow> i < 2 ^ 64 \<Longrightarrow> mem_step s s'"
| step_mask: "mem_mask s gid i = Ok s' \<Longrightarrow> mem_step s s'"
| step_put: "mem_put s gid key val = Ok s' \<Longrightarrow> mem_step s s'"
| step_delete: "mem_delete s gid key = Ok s' \<Longrightarrow> mem_step s s'"

inductive mem_reachable :: "mem_states \<Rightarrow> bool" where
  mem_start: "mem_reachable Map.empty"
| mem_next: "mem_reachable s \<Longrightarrow> mem_step s s' \<Longrightarrow> mem_reachable s'"

text \<open>What all these calls keep: every window starts at a position of \<open>u64\<close> other than 0. Its end
  may leave \<open>u64\<close>, since \<open>append\<close> never checks it.\<close>

definition starts_ok :: "mem_states \<Rightarrow> bool" where
  "starts_ok s \<longleftrightarrow> (\<forall>gid st. s gid = Some st \<longrightarrow> 1 \<le> first_index st \<and> first_index st < 2 ^ 64)"

definition wf_states :: "mem_states \<Rightarrow> bool" where
  "wf_states s \<longleftrightarrow> (\<forall>gid st. s gid = Some st \<longrightarrow> wf_state st)"

lemma with_state_mut_Ok:
  "with_state_mut s gid body = Ok s' \<longleftrightarrow>
     (\<exists>st st'. s gid = Some st \<and> body st = Ok st' \<and> s' = s(gid \<mapsto> st'))"
  by (auto simp: with_state_mut_def with_state_def outcome_simps)

lemma with_state_mut_Some:
  "s gid = Some st \<Longrightarrow> with_state_mut s gid body = rmap (\<lambda>st'. s(gid \<mapsto> st')) (body st)"
  by (cases "body st") (simp_all add: with_state_mut_def with_state_def)

lemma with_state_mut_wf:
  assumes "wf_states s" "with_state_mut s gid body = Ok s'"
    and "\<And>st st'. wf_state st \<Longrightarrow> body st = Ok st' \<Longrightarrow> wf_state st'"
  shows "wf_states s'"
proof -
  obtain st st' where st: "s gid = Some st" "body st = Ok st'" "s' = s(gid \<mapsto> st')"
    using assms(2) by (auto simp: with_state_mut_Ok)
  then have "wf_state st'" using assms(1,3) by (auto simp: wf_states_def)
  with st assms(1) show ?thesis by (auto simp: wf_states_def)
qed

lemma append_state_wf:
  assumes "wf_state st" "append_state first eis st = Ok st'" "first + length eis < 2 ^ 64"
  shows "wf_state st'"
proof -
  have "first \<le> first_index st + length (indices st)"
    using assms(1,2) append_state_gap[of st first eis] by (cases "first \<le> first_index st + length (indices st)") auto
  moreover have "first_index st \<le> first + length eis"
    using assms(1,2) append_state_outdated_panics[of st first eis] by (metis not_le result.distinct(3))
  ultimately show ?thesis using append_state_spec[of st first eis] assms by auto
qed

lemma truncate_state_wf: "wf_state st \<Longrightarrow> truncate_state i st = Ok st' \<Longrightarrow> wf_state st'"
  by (auto simp: truncate_state_def next_index_wf wf_state_def split: if_splits)

lemma compact_state_wf: "wf_state st \<Longrightarrow> compact_state i st = Ok st' \<Longrightarrow> i < 2 ^ 64 \<Longrightarrow> wf_state st'"
  using compact_state_spec[of st i] by auto

lemma mask_state_wf: "wf_state st \<Longrightarrow> mask_state i st = Ok st' \<Longrightarrow> wf_state st'"
  by (auto simp: mask_state_spec wf_state_def split: if_splits)

lemma with_state_mut_starts_ok:
  assumes "starts_ok s" "with_state_mut s gid body = Ok s'"
    and "\<And>st st'. body st = Ok st' \<Longrightarrow>
      first_index st' = first_index st \<or> 1 \<le> first_index st' \<and> first_index st' < 2 ^ 64"
  shows "starts_ok s'"
  using assms unfolding starts_ok_def with_state_mut_Ok
  by (metis (no_types, lifting) fun_upd_apply option.inject)

lemma append_state_start: "append_state first eis st = Ok st' \<Longrightarrow> first_index st' = first_index st"
  by (auto simp: append_state_def Let_def outcome_simps split: if_splits)

lemma truncate_state_start: "truncate_state i st = Ok st' \<Longrightarrow> first_index st' = first_index st"
  by (auto simp: truncate_state_def outcome_simps split: if_splits)

lemma compact_state_start:
  "compact_state i st = Ok st' \<Longrightarrow> i < 2 ^ 64 \<Longrightarrow>
     first_index st' = first_index st \<or> 1 \<le> first_index st' \<and> first_index st' < 2 ^ 64"
  by (auto simp: compact_state_def Let_def outcome_simps split: if_splits)

lemma mask_state_start: "mask_state i st = Ok st' \<Longrightarrow> first_index st' = first_index st"
  by (auto simp: mask_state_def outcome_simps split: if_splits)

lemma mem_step_starts_ok: "mem_step s s' \<Longrightarrow> starts_ok s \<Longrightarrow> starts_ok s'"
proof (induction rule: mem_step.induct)
  case (step_append s gid first eis s')
  then show ?case
    by (auto simp: mem_append_def outcome_simps intro: append_state_start
        elim!: with_state_mut_starts_ok)
next
  case (step_truncate s gid i s')
  then show ?case
    by (auto simp: mem_truncate_def intro: truncate_state_start elim!: with_state_mut_starts_ok)
next
  case (step_compact s gid i s')
  show ?case
    by (rule with_state_mut_starts_ok[OF step_compact.prems step_compact.hyps(1)[unfolded mem_compact_def]])
      (rule compact_state_start, assumption, rule step_compact.hyps(2))
next
  case (step_mask s gid i s')
  then show ?case
    by (auto simp: mem_mask_def intro: mask_state_start elim!: with_state_mut_starts_ok)
qed (auto simp: add_group_def may_add_group_def remove_group_def mem_put_def mem_delete_def
    starts_ok_def new_mem_state_def with_state_mut_Ok split: option.splits if_splits)

lemma mem_reachable_starts_ok: "mem_reachable s \<Longrightarrow> starts_ok s"
proof (induction rule: mem_reachable.induct)
  case mem_start
  show ?case by (simp add: starts_ok_def)
next
  case (mem_next s s')
  then show ?case by (blast intro: mem_step_starts_ok)
qed

lemma append_state_panics_iff:
  assumes "1 \<le> first_index st"
  shows "append_state first eis st = Panic \<longleftrightarrow>
    2 ^ 64 \<le> first_index st + length (indices st) \<or> first + length eis < first_index st"
proof (cases "first_index st + length (indices st) < 2 ^ 64")
  case True
  with assms have wf: "wf_state st" by (simp add: wf_state_def)
  consider "first + length eis < first_index st"
    | "first_index st \<le> first + length eis" "first_index st + length (indices st) < first"
    | "first_index st \<le> first" "first \<le> first_index st + length (indices st)"
    | "first < first_index st" "first_index st \<le> first + length eis" by linarith
  then show ?thesis
  proof cases
    case 1
    then show ?thesis by (simp add: append_state_outdated_panics[OF wf])
  next
    case 2
    then show ?thesis using True by (simp add: append_state_gap[OF wf])
  next
    case 3
    then obtain st' where "append_state first eis st = Ok st'"
      by (rule append_state_in_window[OF wf])
    with True 3 show ?thesis by simp
  next
    case 4
    obtain st' where
      "append_state (first_index st) (drop (first_index st - first) eis) st = Ok st'"
      by (rule append_state_in_window[OF wf, of "first_index st"]) simp_all
    with True 4 show ?thesis by (simp add: append_state_drops_outdated[OF wf 4])
  qed
next
  case False
  then show ?thesis by (simp add: append_state_def next_index_def add_u64_def)
qed

lemma mem_updates_panic:
  assumes "s gid = Some st"
  defines "stop \<equiv> first_index st + length (indices st)"
  shows "mem_truncate s gid i = Panic \<longleftrightarrow> first_index st \<le> i \<and> 2 ^ 64 \<le> stop"
    and "mem_compact s gid i = Panic \<longleftrightarrow> first_index st < i \<and> 2 ^ 64 \<le> stop"
    and "mem_mask s gid i = Panic \<longleftrightarrow> 2 ^ 64 \<le> stop"
  using assms(1) unfolding stop_def
  by (auto simp: mem_truncate_def mem_compact_def mem_mask_def truncate_state_def compact_state_def
      mask_state_def next_index_def add_u64_def with_state_mut_Some Let_def)

lemma mem_reads_panic:
  assumes "s gid = Some st" "1 \<le> first_index st" "first_index st < 2 ^ 64"
  defines "stop \<equiv> first_index st + length (indices st)"
  shows "mem_term s gid i = Panic \<longleftrightarrow> first_index st \<le> i \<and> 2 ^ 64 \<le> stop"
    and "mem_ctx s gid i = Panic \<longleftrightarrow> first_index st \<le> i \<and> 2 ^ 64 \<le> stop"
    and "mem_last_index s gid = Panic \<longleftrightarrow> 2 ^ 64 \<le> stop"
    and "masked_last_index s gid = Panic \<longleftrightarrow>
      (if indices st = [] then mask_index st = 0 else 2 ^ 64 \<le> stop)"
    and "mem_may_entries s gid i max_len unmask = Panic \<longleftrightarrow> 2 ^ 64 \<le> i + max_len \<or> 2 ^ 64 \<le> stop"
    and "mem_entries s gid i max_len = Panic \<longleftrightarrow> first_index st \<le> i \<and>
      (2 ^ 64 \<le> stop \<or> i < stop \<and> 2 ^ 64 \<le> (i - first_index st) + max_len)"
proof -
  note defs = with_state_def next_index_def add_u64_def sub_u64_def index_def slice_def Let_def stop_def
  show "mem_term s gid i = Panic \<longleftrightarrow> first_index st \<le> i \<and> 2 ^ 64 \<le> stop"
    using assms(1-3) by (auto simp: mem_term_def defs)
  show "mem_ctx s gid i = Panic \<longleftrightarrow> first_index st \<le> i \<and> 2 ^ 64 \<le> stop"
    using assms(1-3) by (auto simp: mem_ctx_def defs)
  show "mem_last_index s gid = Panic \<longleftrightarrow> 2 ^ 64 \<le> stop"
    using assms(1-3) by (auto simp: mem_last_index_def defs)
  show "masked_last_index s gid = Panic \<longleftrightarrow>
      (if indices st = [] then mask_index st = 0 else 2 ^ 64 \<le> stop)"
    using assms(1-3) by (auto simp: masked_last_index_def defs)
  show "mem_may_entries s gid i max_len unmask = Panic \<longleftrightarrow> 2 ^ 64 \<le> i + max_len \<or> 2 ^ 64 \<le> stop"
  proof -
    define start where
      "start = max i (if unmask then first_index st else max (mask_index st) (first_index st))"
    have "first_index st \<le> start" by (simp add: start_def le_max_iff_disj)
    moreover have "mem_may_entries s gid i max_len unmask =
        (if 2 ^ 64 \<le> i + max_len \<or> 2 ^ 64 \<le> stop then Panic
         else if min (i + max_len) stop \<le> start then Ok (0, [])
         else rbind (slice (start - first_index st)
             (start - first_index st + (min (i + max_len) stop - start)) (indices st)) (\<lambda>eis. Ok (start, eis)))"
      using assms(1) by (simp add: mem_may_entries_def with_state_def next_index_def add_u64_def Let_def
          stop_def not_less flip: start_def)
    ultimately show ?thesis by (auto simp: slice_def stop_def)
  qed
  show "mem_entries s gid i max_len = Panic \<longleftrightarrow> first_index st \<le> i \<and>
      (2 ^ 64 \<le> stop \<or> i < stop \<and> 2 ^ 64 \<le> (i - first_index st) + max_len)"
    using assms(1-3) by (auto simp: mem_entries_def defs)
qed

section \<open>Properties\<close>



text \<open>C23. Appending a batch that touches the window without a gap acts on the log as a partial map:
  inside the window every position of the batch takes the batch's entry unless the stored entry
  has a higher term, positions before the window are ignored, all others stay; the window's start,
  the mask, the phantom term and the key-value map are untouched. A batch behind a gap is refused
  with the gap's bounds.\<close>

theorem mem_append_refines:
  assumes "s gid = Some st" "wf_state st" "eis \<noteq> []" "first + length eis < 2 ^ 64"
    and "first_index st \<le> first + length eis"
  shows "if first \<le> first_index st + length (indices st)
     then \<exists>st'. mem_append s gid first eis = Ok (s(gid \<mapsto> st')) \<and>
        log_of st' = merge_append (first_index st) first eis (log_of st) \<and>
        first_index st' = first_index st \<and> mask_index st' = mask_index st \<and>
        phantom_term st' = phantom_term st \<and> kvs st' = kvs st \<and> wf_state st'
     else mem_append s gid first eis =
        Err (RaftLogStoreError (RaftLogGap (first_index st + length (indices st)) first))"
proof (cases "first \<le> first_index st + length (indices st)")
  case True
  then obtain st' where "append_state first eis st = Ok st'" "wf_state st'"
    "first_index st' = first_index st" "mask_index st' = mask_index st" "kvs st' = kvs st"
    "phantom_term st' = phantom_term st"
    "log_of st' = merge_append (first_index st) first eis (log_of st)"
    using append_state_spec[of st first eis] assms by auto
  then have "mem_append s gid first eis = Ok (s(gid \<mapsto> st'))"
    using assms by (simp add: mem_append_def with_state_mut_Some)
  with True show ?thesis using \<open>wf_state st'\<close> \<open>log_of st' = _\<close> \<open>first_index st' = _\<close>
      \<open>mask_index st' = _\<close> \<open>phantom_term st' = _\<close> \<open>kvs st' = _\<close> by auto
next
  case False
  then show ?thesis
    using assms append_state_gap[of st first eis] by (simp add: mem_append_def with_state_mut_Some)
qed

definition example_index :: "nat \<Rightarrow> entry_index" where
  "example_index t = \<lparr>ei_term = t, ei_ctx = [], ei_file_id = 1, ei_block_offset = 0,
     ei_block_len = 0, ei_offset = 0, ei_len = 0\<rparr>"

theorem mem_append_refines_witness:
  "\<exists>st'. mem_append [1 \<mapsto> new_mem_state\<lparr>indices := [example_index 5, example_index 2]\<rparr>] 1 1
        [example_index 3, example_index 3, example_index 3] = Ok [1 \<mapsto> st'] \<and>
     log_of st' 1 = Some (example_index 5) \<and> log_of st' 2 = Some (example_index 3) \<and>
     log_of st' 3 = Some (example_index 3)"
proof -
  define st where "st = new_mem_state\<lparr>indices := [example_index 5, example_index 2]\<rparr>"
  define batch where "batch = [example_index 3, example_index 3, example_index 3]"
  have "wf_state st" "first_index st = 1" "length (indices st) = 2"
    by (simp_all add: st_def new_mem_state_def wf_state_def)
  then obtain st' where st': "mem_append [1 \<mapsto> st] 1 1 batch = Ok [1 \<mapsto> st']"
    "log_of st' = merge_append 1 1 batch (log_of st)"
    using mem_append_refines[of "[1 \<mapsto> st]" 1 st batch 1] by (auto simp: batch_def)
  have "log_of st 1 = Some (example_index 5)" "log_of st 2 = Some (example_index 2)" "log_of st 3 = None"
    by (simp_all add: log_of_def st_def new_mem_state_def)
  then have "log_of st' 1 = Some (example_index 5) \<and> log_of st' 2 = Some (example_index 3) \<and>
      log_of st' 3 = Some (example_index 3)"
    unfolding st'(2) by (simp add: merge_append_def merge_entry_def batch_def example_index_def)
  then show ?thesis using st'(1) unfolding st_def batch_def by blast
qed

text \<open>Truncation keeps exactly the entries before the given index and refuses an index outside
  the window; compaction keeps exactly the entries from the given index on, also past the end of the
  window, and remembers the term of the entry it leaves just before the new start.\<close>

theorem mem_truncate_compact_refine:
  assumes "s gid = Some st" "wf_state st" "i < 2 ^ 64"
  shows "(if first_index st \<le> i \<and> i < first_index st + length (indices st)
      then \<exists>st'. mem_truncate s gid i = Ok (s(gid \<mapsto> st')) \<and> log_of st' = log_of st |` {..<i}
      else \<exists>a b. mem_truncate s gid i = Err (RaftLogStoreError (RaftLogGap a b))) \<and>
    (\<exists>st'. mem_compact s gid i = Ok (s(gid \<mapsto> st')) \<and> log_of st' = log_of st |` {i..} \<and>
       first_index st' = max (first_index st) i \<and>
       (\<forall>ei. log_of st (i - 1) = Some ei \<longrightarrow> phantom_term st' = ei_term ei))"
proof -
  have "mem_truncate s gid i = rmap (\<lambda>st'. s(gid \<mapsto> st')) (truncate_state i st)"
    using assms(1) by (simp add: mem_truncate_def with_state_mut_Some)
  moreover have "mem_compact s gid i = rmap (\<lambda>st'. s(gid \<mapsto> st')) (compact_state i st)"
    using assms(1) by (simp add: mem_compact_def with_state_mut_Some)
  moreover obtain st' where "compact_state i st = Ok st'" "log_of st' = log_of st |` {i..}"
    "first_index st' = max (first_index st) i"
    "\<forall>ei. log_of st (i - 1) = Some ei \<longrightarrow> phantom_term st' = ei_term ei"
    using compact_state_spec[OF assms(2,3)] by auto
  ultimately show ?thesis
    using truncate_state_spec[OF assms(2), of i] next_index_wf[OF assms(2)]
    by (auto simp: truncate_state_def)
qed

theorem mem_truncate_compact_refine_witness:
  "\<exists>st'. mem_compact [1 \<mapsto> new_mem_state\<lparr>indices := [example_index 5, example_index 2]\<rparr>] 1 2
      = Ok [1 \<mapsto> st'] \<and> first_index st' = 2 \<and> phantom_term st' = 5"
  using mem_truncate_compact_refine
    [of "[1 \<mapsto> new_mem_state\<lparr>indices := [example_index 5, example_index 2]\<rparr>]" 1
      "new_mem_state\<lparr>indices := [example_index 5, example_index 2]\<rparr>" 2]
  by (auto simp: new_mem_state_def wf_state_def log_of_def example_index_def)

text \<open>\<open>entries\<close> returns exactly the stored entries from the given index on, at most \<open>max_len\<close>
  of them, and \<open>may_entries\<close> the ones that are neither compacted nor, unless unmasked, below the
  mask.\<close>

theorem mem_entries_window:
  assumes "s gid = Some st" "wf_state st" "i + max_len < 2 ^ 64"
    and "first_index st \<le> i" "i < first_index st + length (indices st)"
  shows "mem_entries s gid i max_len =
      Ok (map (the \<circ> log_of st) [i..<min (i + max_len) (first_index st + length (indices st))]) \<and>
    (\<exists>start. mem_may_entries s gid i max_len unmask =
      Ok (start, map (the \<circ> log_of st)
        [max i (if unmask then first_index st else max (mask_index st) (first_index st))..<
         min (i + max_len) (first_index st + length (indices st))]))"
proof -
  let ?next = "first_index st + length (indices st)"
  let ?n = "min (i + max_len) ?next - i"
  have e: "slice (i - first_index st) (min (i - first_index st + max_len) (length (indices st)))
      (indices st) = Ok (map (the \<circ> log_of st) [i..<min (i + max_len) ?next])"
  proof -
    have "min (i - first_index st + max_len) (length (indices st)) - (i - first_index st) = ?n"
      using assms(4,5) by (auto simp: min_def)
    then show ?thesis
      using window_slice[of st i ?n] assms(4,5) by (auto simp: slice_def)
  qed
  define start where
    "start = max i (if unmask then first_index st else max (mask_index st) (first_index st))"
  define stop where "stop = min (i + max_len) ?next"
  have start: "first_index st \<le> start" using assms(4) by (simp add: start_def le_max_iff_disj)
  have "mem_may_entries s gid i max_len unmask =
      (if stop \<le> start then Ok (0, [])
       else rbind (slice (start - first_index st) (start - first_index st + (stop - start)) (indices st))
              (\<lambda>eis. Ok (start, eis)))"
    using assms(1,3) next_index_wf[OF assms(2)]
    by (simp add: mem_may_entries_def with_state_def Let_def flip: start_def stop_def)
  also have "\<dots> = Ok (if stop \<le> start then 0 else start, map (the \<circ> log_of st) [start..<stop])"
  proof (cases "stop \<le> start")
    case False
    have "stop \<le> ?next" by (simp add: stop_def)
    with False start have "slice (start - first_index st) (start - first_index st + (stop - start))
        (indices st) = Ok (map (the \<circ> log_of st) [start..<stop])"
      using window_slice[OF start, of "stop - start"] by (auto simp: slice_def)
    with False show ?thesis by simp
  qed simp
  finally have may: "\<exists>b. mem_may_entries s gid i max_len unmask =
      Ok (b, map (the \<circ> log_of st) [start..<stop])" by blast
  have "i - first_index st + max_len < 2 ^ 64" using assms(3) by linarith
  then have "mem_entries s gid i max_len =
      Ok (map (the \<circ> log_of st) [i..<min (i + max_len) ?next])"
    using assms e next_index_wf[OF assms(2)] by (simp add: mem_entries_def with_state_def Let_def)
  with may show ?thesis unfolding start_def stop_def by blast
qed

theorem mem_entries_window_witness:
  "mem_entries [1 \<mapsto> new_mem_state\<lparr>indices := [example_index 5, example_index 2]\<rparr>] 1 2 10 =
     Ok [example_index 2]"
  using mem_entries_window
    [of "[1 \<mapsto> new_mem_state\<lparr>indices := [example_index 5, example_index 2]\<rparr>]" 1
      "new_mem_state\<lparr>indices := [example_index 5, example_index 2]\<rparr>" 2 10]
  by (simp add: new_mem_state_def wf_state_def log_of_def)

text \<open>A batch that ends before the window even starts makes \<open>append\<close> panic: the code means to
  ignore outdated entries, but it drains more elements than the batch has.\<close>

theorem mem_append_outdated_batch_panics:
  assumes "s gid = Some st" "wf_state st" "eis \<noteq> []" "first + length eis < first_index st"
  shows "mem_append s gid first eis = Panic"
  using assms append_state_outdated_panics[of st first eis]
  by (simp add: mem_append_def with_state_mut_def with_state_def)

theorem mem_append_outdated_batch_panics_witness:
  "mem_append [1 \<mapsto> new_mem_state\<lparr>first_index := 10\<rparr>] 1 1 [example_index 1] = Panic"
  by (rule mem_append_outdated_batch_panics[of _ _ "new_mem_state\<lparr>first_index := 10\<rparr>"])
    (simp_all add: wf_state_def new_mem_state_def)

end
