(* ===== verification/RaftStore.thy ===== *)
theory RaftStore
  imports RaftLog RaftMem
begin

text \<open>
  \<open>storage/src/raft_log_store/store.rs\<close> and \<open>block_cache.rs\<close>: the raft log store. Every update is
  appended to the log first and applied to the in-memory index afterwards; opening a store replays
  the log into a fresh index. Payloads are read through a cache of decompressed data segments.

  An update returns its outcome and the store it leaves behind, since a failing call has already
  written to the log. The cache of the \<open>moka\<close> crate is a map from block positions to blocks; that
  it may drop any entry at any time is a step of its own (\<open>cache_evict\<close>). The LZ4 and CRC-32
  routines are parameters.
\<close>

section \<open>State\<close>

record raft_log_store =
  rs_log :: raft_log
  rs_states :: mem_states
  rs_cache :: "nat \<times> nat \<rightharpoonup> bytes"

record store_entry =
  se_group :: nat
  se_term :: nat
  se_index :: nat
  se_ctx :: bytes
  se_data :: bytes

record append_context =
  ac_group :: nat
  ac_first_index :: nat
  ac_raw :: bytes
  ac_data_segment_offset :: nat
  ac_data_segment_len :: nat
  ac_indices :: "entry_index list"

type_synonym 'a store_call = "raft_log_store \<Rightarrow> 'a res \<times> raft_log_store"

section \<open>The block cache\<close>

definition cache_insert ::
  "nat \<Rightarrow> nat \<Rightarrow> bytes \<Rightarrow> (nat \<times> nat \<rightharpoonup> bytes) \<Rightarrow> (nat \<times> nat \<rightharpoonup> bytes)" where
  "cache_insert file_id offset block cache = cache((file_id, offset) \<mapsto> block)"

definition cache_get_or_insert_with ::
  "nat \<Rightarrow> nat \<Rightarrow> bytes res \<Rightarrow> (nat \<times> nat \<rightharpoonup> bytes) \<Rightarrow> (bytes \<times> (nat \<times> nat \<rightharpoonup> bytes)) res" where
  "cache_get_or_insert_with file_id offset fill cache =
     (case cache (file_id, offset) of
        Some block \<Rightarrow> Ok (block, cache)
      | None \<Rightarrow> rbind (map_err (\<lambda>_. RaftLogStoreError (RaftLogStoreOther ''fill'')) fill)
                  (\<lambda>block. Ok (block, cache_insert file_id offset block cache)))"

definition cache_evict :: "(nat \<times> nat) set \<Rightarrow> raft_log_store \<Rightarrow> raft_log_store" where
  "cache_evict dropped st = st\<lparr>rs_cache := rs_cache st |` (- dropped)\<rparr>"

section \<open>Opening\<close>

text \<open>The indices of a batch, with the position of its data segment.\<close>

definition batch_index :: "raft_log_batch \<Rightarrow> nat \<Rightarrow> nat \<Rightarrow> nat \<Rightarrow> nat \<Rightarrow> entry_index res" where
  "batch_index b file_id block_offset block_len i =
     rbind (batch_location b i) (\<lambda>(offset, len).
     rbind (batch_ctx b i) (\<lambda>ctx.
       Ok \<lparr>ei_term = rb_term b, ei_ctx = ctx, ei_file_id = file_id, ei_block_offset = block_offset,
           ei_block_len = block_len, ei_offset = offset, ei_len = len\<rparr>))"

definition batch_indices :: "raft_log_batch \<Rightarrow> nat \<Rightarrow> nat \<Rightarrow> nat \<Rightarrow> entry_index list res" where
  "batch_indices b file_id block_offset block_len =
     rbind (batch_len b) (\<lambda>n. rmap_list (batch_index b file_id block_offset block_len) [0..<n])"

fun replay_entry :: "nat \<times> nat \<times> entry \<Rightarrow> mem_states \<Rightarrow> mem_states res" where
  "replay_entry (file_id, write_offset, RaftLogBatch b) states =
     (let (data_segment_offset, data_segment_len) = data_segment_location b in
      rbind (batch_indices b file_id (write_offset + data_segment_offset + 1) data_segment_len) (\<lambda>eis.
        mem_append (snd (may_add_group states (rb_group b))) (rb_group b) (rb_first_index b) eis))"
| "replay_entry (file_id, write_offset, Truncate t) states =
     mem_truncate (snd (may_add_group states (truncate_group t))) (truncate_group t) (truncate_index t)"
| "replay_entry (file_id, write_offset, Compact t) states =
     mem_compact (snd (may_add_group states (compact_group t))) (compact_group t) (compact_index t)"
| "replay_entry (file_id, write_offset, Mask t) states =
     mem_mask (snd (may_add_group states (mask_group t))) (mask_group t) (mask_index_at t)"
| "replay_entry (file_id, write_offset, Kv (Put gid key val)) states =
     mem_put (snd (may_add_group states gid)) gid key val"
| "replay_entry (file_id, write_offset, Kv (Delete gid key)) states =
     mem_delete (snd (may_add_group states gid)) gid key"

definition store_open :: "(string \<rightharpoonup> bytes) \<Rightarrow> string list \<Rightarrow> nat \<Rightarrow> raft_log_store res" where
  "store_open dir names capacity =
     rbind (log_open dir names capacity) (\<lambda>lg.
     rbind (log_replay replay_entry lg Map.empty) (\<lambda>states.
       Ok \<lparr>rs_log = lg, rs_states = states, rs_cache = Map.empty\<rparr>))"

section \<open>Updates\<close>

definition lift_states :: "(mem_states \<Rightarrow> mem_states res) \<Rightarrow> unit store_call" where
  "lift_states f st =
     (case f (rs_states st) of
        Ok states \<Rightarrow> (Ok (), st\<lparr>rs_states := states\<rparr>)
      | Err e \<Rightarrow> (Err e, st)
      | Panic \<Rightarrow> (Panic, st)
      | OutOfFuel \<Rightarrow> (OutOfFuel, st))"

text \<open>Append entries to the log, then continue with their handles.\<close>

definition with_log_append ::
  "entry list \<Rightarrow> (write_handle list \<Rightarrow> unit store_call) \<Rightarrow> unit store_call" where
  "with_log_append entries k st =
     (case log_append (rs_log st) entries of
        Ok (lg, handles) \<Rightarrow> k handles (st\<lparr>rs_log := lg\<rparr>)
      | Err e \<Rightarrow> (Err e, st)
      | Panic \<Rightarrow> (Panic, st)
      | OutOfFuel \<Rightarrow> (OutOfFuel, st))"

definition store_add_group :: "nat \<Rightarrow> unit store_call" where
  "store_add_group gid = lift_states (\<lambda>states. add_group states gid)"

definition store_remove_group :: "nat \<Rightarrow> unit store_call" where
  "store_remove_group gid = lift_states (\<lambda>states. remove_group states gid)"

definition prepare_batch :: "raft_log_batch \<Rightarrow> (append_context \<times> entry) res" where
  "prepare_batch b =
     rbind (batch_indices b 0 0 0) (\<lambda>eis.
       let (data_segment_offset, data_segment_len) = data_segment_location b;
           (raw, b') = take_raw b
       in Ok (\<lparr>ac_group = rb_group b, ac_first_index = rb_first_index b, ac_raw = raw,
               ac_data_segment_offset = data_segment_offset,
               ac_data_segment_len = data_segment_len, ac_indices = eis\<rparr>, RaftLogBatch b'))"

fun install_contexts :: "(append_context \<times> write_handle) list \<Rightarrow> unit store_call" where
  "install_contexts [] st = (Ok (), st)"
| "install_contexts ((ctx, handle) # rest) st =
     (let file_id = wh_file_id handle;
          block_offset = wh_offset handle + ac_data_segment_offset ctx + 1;
          eis = map (\<lambda>ei. ei\<lparr>ei_file_id := file_id, ei_block_offset := block_offset,
                        ei_block_len := ac_data_segment_len ctx\<rparr>) (ac_indices ctx);
          st = st\<lparr>rs_cache := cache_insert file_id block_offset (ac_raw ctx) (rs_cache st)\<rparr>
      in case lift_states (\<lambda>states. mem_append states (ac_group ctx) (ac_first_index ctx) eis) st of
           (Ok _, st) \<Rightarrow> install_contexts rest st
         | (outcome, st) \<Rightarrow> (outcome, st))"

definition store_append :: "raft_log_batch list \<Rightarrow> unit store_call" where
  "store_append batches st =
     (case rmap_list prepare_batch batches of
        Ok prepared \<Rightarrow>
          with_log_append (map snd prepared)
            (\<lambda>handles. install_contexts (zip (map fst prepared) handles)) st
      | Err e \<Rightarrow> (Err e, st)
      | Panic \<Rightarrow> (Panic, st)
      | OutOfFuel \<Rightarrow> (OutOfFuel, st))"

definition store_truncate :: "nat \<Rightarrow> nat \<Rightarrow> unit store_call" where
  "store_truncate gid i =
     with_log_append [Truncate \<lparr>truncate_group = gid, truncate_index = i\<rparr>]
       (\<lambda>_. lift_states (\<lambda>states. mem_truncate states gid i))"

definition store_compact :: "nat \<Rightarrow> nat \<Rightarrow> unit store_call" where
  "store_compact gid i =
     with_log_append [Compact \<lparr>compact_group = gid, compact_index = i\<rparr>]
       (\<lambda>_. lift_states (\<lambda>states. mem_compact states gid i))"

definition store_mask :: "nat \<Rightarrow> nat \<Rightarrow> unit store_call" where
  "store_mask gid i =
     with_log_append [Mask \<lparr>mask_group = gid, mask_index_at = i\<rparr>]
       (\<lambda>_. lift_states (\<lambda>states. mem_mask states gid i))"

definition store_put :: "nat \<Rightarrow> bytes \<Rightarrow> bytes \<Rightarrow> unit store_call" where
  "store_put gid key val =
     with_log_append [Kv (Put gid key val)] (\<lambda>_. lift_states (\<lambda>states. mem_put states gid key val))"

definition store_delete :: "nat \<Rightarrow> bytes \<Rightarrow> unit store_call" where
  "store_delete gid key =
     with_log_append [Kv (Delete gid key)] (\<lambda>_. lift_states (\<lambda>states. mem_delete states gid key))"

section \<open>Reads\<close>

definition store_entry_data ::
  "(bytes \<Rightarrow> bytes option) \<Rightarrow> (bytes \<Rightarrow> nat) \<Rightarrow> raft_log_store \<Rightarrow> entry_index \<Rightarrow>
    (bytes \<times> raft_log_store) res" where
  "store_entry_data decompress crc32 st ei =
     rbind (cache_get_or_insert_with (ei_file_id ei) (ei_block_offset ei)
       (rbind (log_read (rs_log st) (ei_file_id ei) (ei_block_offset ei) (ei_block_len ei))
         (extract_data_segment decompress crc32)) (rs_cache st)) (\<lambda>(block, cache).
     rbind (slice (ei_offset ei) (ei_offset ei + ei_len ei) block) (\<lambda>data.
       Ok (data, st\<lparr>rs_cache := cache\<rparr>)))"

fun store_entries_loop ::
  "(bytes \<Rightarrow> bytes option) \<Rightarrow> (bytes \<Rightarrow> nat) \<Rightarrow> nat \<Rightarrow> nat \<Rightarrow> entry_index list \<Rightarrow> raft_log_store \<Rightarrow>
    (store_entry list \<times> raft_log_store) res" where
  "store_entries_loop decompress crc32 gid i [] st = Ok ([], st)"
| "store_entries_loop decompress crc32 gid i (ei # eis) st =
     rbind (store_entry_data decompress crc32 st ei) (\<lambda>(data, st).
     rbind (store_entries_loop decompress crc32 gid (i + 1) eis st) (\<lambda>(entries, st).
       Ok (\<lparr>se_group = gid, se_term = ei_term ei, se_index = i, se_ctx = ei_ctx ei, se_data = data\<rparr>
             # entries, st)))"

definition store_may_entries ::
  "(bytes \<Rightarrow> bytes option) \<Rightarrow> (bytes \<Rightarrow> nat) \<Rightarrow> raft_log_store \<Rightarrow> nat \<Rightarrow> nat \<Rightarrow> nat \<Rightarrow> bool \<Rightarrow>
    (store_entry list \<times> raft_log_store) res" where
  "store_may_entries decompress crc32 st gid i max_len unmask =
     rbind (mem_may_entries (rs_states st) gid i max_len unmask) (\<lambda>(first, eis).
       store_entries_loop decompress crc32 gid first eis st)"

definition store_entries ::
  "(bytes \<Rightarrow> bytes option) \<Rightarrow> (bytes \<Rightarrow> nat) \<Rightarrow> raft_log_store \<Rightarrow> nat \<Rightarrow> nat \<Rightarrow> nat \<Rightarrow>
    (store_entry list \<times> raft_log_store) res" where
  "store_entries decompress crc32 st gid i max_len =
     rbind (mem_entries (rs_states st) gid i max_len) (\<lambda>eis.
       store_entries_loop decompress crc32 gid i eis st)"

definition store_term :: "raft_log_store \<Rightarrow> nat \<Rightarrow> nat \<Rightarrow> nat option res" where
  "store_term st gid i = mem_term (rs_states st) gid i"

definition store_ctx :: "raft_log_store \<Rightarrow> nat \<Rightarrow> nat \<Rightarrow> bytes option res" where
  "store_ctx st gid i = mem_ctx (rs_states st) gid i"

definition store_first_index :: "raft_log_store \<Rightarrow> nat \<Rightarrow> nat res" where
  "store_first_index st gid = mem_first_index (rs_states st) gid"

definition store_last_index :: "raft_log_store \<Rightarrow> nat \<Rightarrow> nat res" where
  "store_last_index st gid = mem_last_index (rs_states st) gid"

definition store_masked_first_index :: "raft_log_store \<Rightarrow> nat \<Rightarrow> nat res" where
  "store_masked_first_index st gid = masked_first_index (rs_states st) gid"

definition store_masked_last_index :: "raft_log_store \<Rightarrow> nat \<Rightarrow> nat res" where
  "store_masked_last_index st gid = masked_last_index (rs_states st) gid"

definition store_get :: "raft_log_store \<Rightarrow> nat \<Rightarrow> bytes \<Rightarrow> bytes option res" where
  "store_get st gid key = mem_get (rs_states st) gid key"

section \<open>Batches as the builder makes them\<close>

definition built_batch :: "(bytes \<Rightarrow> bytes) \<Rightarrow> (bytes \<Rightarrow> nat) \<Rightarrow> raft_log_batch \<Rightarrow> bool" where
  "built_batch compress crc32 b \<longleftrightarrow>
     wf_batch b \<and> rb_data b = data_segment compress crc32 (rb_raw b) \<and> 2 \<le> length (rb_offsets b) \<and>
     sorted (rb_offsets b) \<and> last (rb_offsets b) \<le> length (rb_raw b)"

definition index_of :: "raft_log_batch \<Rightarrow> nat \<Rightarrow> nat \<Rightarrow> nat \<Rightarrow> nat \<Rightarrow> entry_index" where
  "index_of b file_id block_offset block_len i =
     \<lparr>ei_term = rb_term b, ei_ctx = rb_ctxs b ! i, ei_file_id = file_id,
      ei_block_offset = block_offset, ei_block_len = block_len, ei_offset = rb_offsets b ! i,
      ei_len = rb_offsets b ! Suc i - rb_offsets b ! i\<rparr>"

abbreviation batch_size :: "raft_log_batch \<Rightarrow> nat" where
  "batch_size b \<equiv> length (rb_offsets b) - 1"

text \<open>The position of the data segment of a batch written at a handle.\<close>

definition block_offset_of :: "write_handle \<Rightarrow> raft_log_batch \<Rightarrow> nat" where
  "block_offset_of h b = wh_offset h + fst (data_segment_location b) + 1"

definition placed_indices :: "write_handle \<Rightarrow> raft_log_batch \<Rightarrow> entry_index list" where
  "placed_indices h b =
     map (index_of b (wh_file_id h) (block_offset_of h b) (rb_data_len b)) [0..<batch_size b]"

lemma built_batchD:
  assumes "built_batch compress crc32 b"
  shows "wf_batch b" "rb_data b = data_segment compress crc32 (rb_raw b)" "rb_offsets b \<noteq> []"
    "2 \<le> length (rb_offsets b)" "sorted (rb_offsets b)" "length (rb_ctxs b) = batch_size b"
    "rb_data_len b = length (rb_data b)"
  using assms by (auto simp: built_batch_def wf_batch_def)

lemma built_batch_offsets:
  assumes "built_batch compress crc32 b" "i < batch_size b"
  shows "rb_offsets b ! i \<le> rb_offsets b ! Suc i" "rb_offsets b ! Suc i \<le> length (rb_raw b)"
proof -
  have s: "sorted (rb_offsets b)" "last (rb_offsets b) \<le> length (rb_raw b)" "rb_offsets b \<noteq> []"
    using assms(1) by (auto simp: built_batch_def wf_batch_def)
  show "rb_offsets b ! i \<le> rb_offsets b ! Suc i" using s assms(2) by (auto intro!: sorted_nth_mono)
  have "rb_offsets b ! Suc i \<le> rb_offsets b ! (length (rb_offsets b) - 1)"
    using s assms(2) by (intro sorted_nth_mono) auto
  then show "rb_offsets b ! Suc i \<le> length (rb_raw b)" using s by (simp add: last_conv_nth)
qed

lemma batch_indices_built:
  assumes "built_batch compress crc32 b" "rb_offsets b' = rb_offsets b" "rb_ctxs b' = rb_ctxs b"
    "rb_term b' = rb_term b"
  shows "batch_indices b' f off len = Ok (map (index_of b f off len) [0..<batch_size b])"
proof -
  have "batch_index b' f off len i = Ok (index_of b f off len i)" if "i < batch_size b" for i
    using that assms built_batch_offsets[OF assms(1) that] built_batchD[OF assms(1)]
    by (simp add: batch_index_def batch_location_def batch_ctx_def batch_len_def index_of_def)
  then have "rmap_list (batch_index b' f off len) [0..<batch_size b] =
      Ok (map (index_of b f off len) [0..<batch_size b])" by (intro rmap_list_Ok) simp
  then show ?thesis
    using assms(2) built_batchD(3)[OF assms(1)] by (simp add: batch_indices_def batch_len_def)
qed

lemma data_segment_location_raw [simp]:
  "data_segment_location (b\<lparr>rb_raw := r\<rparr>) = data_segment_location b"
  "data_segment_location (b\<lparr>rb_raw := r, rb_data := d\<rparr>) = data_segment_location b"
  by (simp_all add: data_segment_location_def)

definition context_of :: "raft_log_batch \<Rightarrow> append_context" where
  "context_of b =
     \<lparr>ac_group = rb_group b, ac_first_index = rb_first_index b, ac_raw = rb_raw b,
      ac_data_segment_offset = fst (data_segment_location b), ac_data_segment_len = rb_data_len b,
      ac_indices = map (index_of b 0 0 0) [0..<batch_size b]\<rparr>"

lemma prepare_batches:
  assumes "\<forall>b \<in> set bs. built_batch compress crc32 b"
  shows "rmap_list prepare_batch bs = Ok (map (\<lambda>b. (context_of b, RaftLogBatch (b\<lparr>rb_raw := []\<rparr>))) bs)"
proof (rule rmap_list_Ok)
  fix b assume "b \<in> set bs"
  with assms have "built_batch compress crc32 b" by blast
  then show "prepare_batch b = Ok (context_of b, RaftLogBatch (b\<lparr>rb_raw := []\<rparr>))"
    by (simp add: prepare_batch_def batch_indices_built[of compress crc32 b] take_raw_def context_of_def
        data_segment_location_def)
qed

lemma index_of_fill:
  "(index_of b 0 0 0 i)\<lparr>ei_file_id := f, ei_block_offset := off, ei_block_len := len\<rparr> =
     index_of b f off len i"
  by (simp add: index_of_def)

lemma replay_batch:
  assumes "built_batch compress crc32 b"
  shows "replay_entry (wh_file_id h, wh_offset h, entry_meta (RaftLogBatch (b\<lparr>rb_raw := []\<rparr>))) s =
    mem_append (snd (may_add_group s (rb_group b))) (rb_group b) (rb_first_index b) (placed_indices h b)"
proof -
  have "batch_indices (b\<lparr>rb_raw := [], rb_data := []\<rparr>) (wh_file_id h) (block_offset_of h b) (rb_data_len b) =
      Ok (placed_indices h b)"
    using batch_indices_built[OF assms] by (simp add: placed_indices_def)
  moreover obtain dso where "data_segment_location b = (dso, rb_data_len b)"
    by (simp add: data_segment_location_def)
  ultimately show ?thesis by (simp add: block_offset_of_def Let_def)
qed

section \<open>Entries do not overlap in the log\<close>

lemma decompositions_disjoint:
  assumes "pre @ e # post = pre' @ e' # post'"
    and "length (content pre) \<le> x" "x < length (content pre) + length (enc e)"
    and "length (content pre') \<le> x" "x < length (content pre') + length (enc e')"
  shows "pre = pre' \<and> e = e'"
proof -
  have cov: "length (content p) + length (enc a) \<le> length (content q)"
    if "p @ a # r = q @ b # t" "length p < length q" for p q r t a b
  proof -
    have "q = p @ a # drop (Suc (length p)) q" using that
      by (metis append_eq_append_conv_if append_take_drop_id drop_Suc_Cons drop_append drop_eq_Nil2
          hd_drop_conv_nth nth_append_length nth_append take_all_iff id_take_nth_drop less_imp_le_nat)
    then have "content q = content p @ enc a @ content (drop (Suc (length p)) q)"
      by (metis concat.simps(2) concat_append list.simps(9) map_append)
    then show ?thesis by simp
  qed
  have "length pre = length pre'"
    using cov[OF assms(1)] cov[OF assms(1)[symmetric]] assms(2-5)
    by (meson less_le_trans linorder_neqE_nat not_le)
  then show ?thesis using assms(1) by simp
qed

lemma log_items_disjoint:
  assumes "(h, e) \<in> set (file_items first fs)" "(h', e') \<in> set (file_items first fs)"
    and "wh_file_id h = wh_file_id h'"
    and "wh_offset h \<le> x" "x < wh_offset h + wh_len h" "wh_offset h' \<le> x" "x < wh_offset h' + wh_len h'"
  shows "h = h' \<and> e = e'"
proof -
  obtain i pre post where i: "fs ! i = pre @ e # post" "wh_file_id h = first + i"
    "wh_offset h = length (content pre)" "wh_len h = length (enc e)"
    using file_items_position[OF assms(1)] by blast
  obtain j pre' post' where j: "fs ! j = pre' @ e' # post'" "wh_file_id h' = first + j"
    "wh_offset h' = length (content pre')" "wh_len h' = length (enc e')"
    using file_items_position[OF assms(2)] by blast
  have "i = j" using i(2) j(2) assms(3) by simp
  with i j assms(4-7) have "pre = pre' \<and> e = e'" by (intro decompositions_disjoint[of _ _ post _ _ post']) auto
  with i j assms(3) show ?thesis by (metis (full_types) old.unit.exhaust write_handle.surjective)
qed

section \<open>Stored batches and coherence\<close>

text \<open>A batch of the log's history, with the payload bytes its data segment stands for.\<close>

definition stored ::
  "(bytes \<Rightarrow> bytes) \<Rightarrow> (bytes \<Rightarrow> nat) \<Rightarrow> (write_handle \<times> entry) list \<Rightarrow> write_handle \<Rightarrow>
    raft_log_batch \<Rightarrow> bool" where
  "stored compress crc32 hist h b \<longleftrightarrow>
     (h, RaftLogBatch (b\<lparr>rb_raw := []\<rparr>)) \<in> set hist \<and> built_batch compress crc32 b"

definition cache_ok ::
  "(bytes \<Rightarrow> bytes) \<Rightarrow> (bytes \<Rightarrow> nat) \<Rightarrow> (write_handle \<times> entry) list \<Rightarrow> (nat \<times> nat \<rightharpoonup> bytes) \<Rightarrow> bool" where
  "cache_ok compress crc32 hist cache \<longleftrightarrow>
     (\<forall>file_id offset block. cache (file_id, offset) = Some block \<longrightarrow>
       (\<exists>h b. stored compress crc32 hist h b \<and> file_id = wh_file_id h \<and>
          offset = block_offset_of h b \<and> block = rb_raw b))"

definition states_ok ::
  "(bytes \<Rightarrow> bytes) \<Rightarrow> (bytes \<Rightarrow> nat) \<Rightarrow> (write_handle \<times> entry) list \<Rightarrow> mem_states \<Rightarrow> bool" where
  "states_ok compress crc32 hist states \<longleftrightarrow>
     (\<forall>gid ms ei. states gid = Some ms \<longrightarrow> ei \<in> set (indices ms) \<longrightarrow>
       (\<exists>h b. stored compress crc32 hist h b \<and> ei \<in> set (placed_indices h b)))"

lemma stored_mono: "stored compress crc32 hist h b \<Longrightarrow> stored compress crc32 (hist @ hist2) h b"
  by (auto simp: stored_def)

lemma cache_ok_mono: "cache_ok compress crc32 hist cache \<Longrightarrow> cache_ok compress crc32 (hist @ hist2) cache"
  unfolding cache_ok_def by (meson stored_mono)

lemma states_ok_mono: "states_ok compress crc32 hist s \<Longrightarrow> states_ok compress crc32 (hist @ hist2) s"
  unfolding states_ok_def by (meson stored_mono)

lemma enc_batch:
  "rb_offsets b \<noteq> [] \<Longrightarrow> enc (RaftLogBatch b) = 0 # batch_head b @ rb_data b"
  by (simp add: enc_def batch_encode_eq)

lemma length_data_segment: "length (data_segment compress crc32 raw) \<ge> 5"
  by (simp add: data_segment_def compression_encode_def Let_def)

lemma handle_len:
  assumes "log_run lg hist" "(h, e) \<in> set hist"
  shows "wh_len h = length (enc e)"
  using log_run_inv[OF assms(1)] assms(2) file_items_position[of h e] by blast

lemma stored_enc:
  assumes "log_run lg hist" "stored compress crc32 hist h b"
  shows "enc (RaftLogBatch (b\<lparr>rb_raw := []\<rparr>)) = 0 # batch_head (b\<lparr>rb_raw := []\<rparr>) @ rb_data b"
    and "length (batch_head (b\<lparr>rb_raw := []\<rparr>)) = fst (data_segment_location b)"
    and "wh_len h = Suc (fst (data_segment_location b) + rb_data_len b)" and "0 < rb_data_len b"
proof -
  have b: "built_batch compress crc32 b" using assms(2) by (simp add: stored_def)
  note bb = built_batchD[OF b]
  show 1: "enc (RaftLogBatch (b\<lparr>rb_raw := []\<rparr>)) = 0 # batch_head (b\<lparr>rb_raw := []\<rparr>) @ rb_data b"
    using bb(3) enc_batch[of "b\<lparr>rb_raw := []\<rparr>"] by simp
  show 2: "length (batch_head (b\<lparr>rb_raw := []\<rparr>)) = fst (data_segment_location b)"
    using length_batch_head[of "b\<lparr>rb_raw := []\<rparr>"] by simp
  show "wh_len h = Suc (fst (data_segment_location b) + rb_data_len b)"
    using handle_len[OF assms(1), of h "RaftLogBatch (b\<lparr>rb_raw := []\<rparr>)"] assms(2) 1 2 bb(7) by (simp add: stored_def)
  show "0 < rb_data_len b" using length_data_segment[of compress crc32 "rb_raw b"] bb(2,7) by auto
qed

text \<open>A block position determines the stored batch.\<close>

lemma stored_unique:
  assumes run: "log_run lg hist" and st: "stored compress crc32 hist h b" "stored compress crc32 hist h' b'"
    and pos: "wh_file_id h = wh_file_id h'" "block_offset_of h b = block_offset_of h' b'"
    and lz4: "lz4_frames compress decompress" and crc: "\<And>bs. crc32 bs < 2 ^ 32"
  shows "rb_raw b = rb_raw b'"
proof -
  obtain closed cur where "hist = file_items (first_log_file_id lg) (closed @ [cur])"
    using log_run_inv[OF run] by blast
  then have "h = h' \<and> RaftLogBatch (b\<lparr>rb_raw := []\<rparr>) = RaftLogBatch (b'\<lparr>rb_raw := []\<rparr>)"
    using st pos stored_enc(3,4)[OF run st(1)] stored_enc(3,4)[OF run st(2)]
    by (intro log_items_disjoint[where x = "block_offset_of h b"]) (auto simp: stored_def block_offset_of_def)
  then have "rb_data (b\<lparr>rb_raw := []\<rparr>) = rb_data (b'\<lparr>rb_raw := []\<rparr>)" by (simp only: entry.inject)
  then have "rb_data b = rb_data b'" by simp
  then have "data_segment compress crc32 (rb_raw b) = data_segment compress crc32 (rb_raw b')"
    using st by (simp add: stored_def built_batch_def)
  moreover have "extract_data_segment decompress crc32 (data_segment compress crc32 raw) = Ok raw" for raw
    by (rule extract_data_segment_ok[OF lz4 crc])
  ultimately show ?thesis by (metis result.inject(1))
qed

text \<open>The payload an index stands for.\<close>

definition payload :: "raft_log_batch \<Rightarrow> nat \<Rightarrow> bytes" where
  "payload b i = take (rb_offsets b ! Suc i - rb_offsets b ! i) (drop (rb_offsets b ! i) (rb_raw b))"

lemma store_entry_data_ok:
  assumes run: "log_run (rs_log st) hist" and cache: "cache_ok compress crc32 hist (rs_cache st)"
    and st: "stored compress crc32 hist h b" and i: "i < batch_size b"
    and ei: "ei = index_of b (wh_file_id h) (block_offset_of h b) (rb_data_len b) i"
    and lz4: "lz4_frames compress decompress" and crc: "\<And>bs. crc32 bs < 2 ^ 32"
  shows "\<exists>cache'. store_entry_data decompress crc32 st ei = Ok (payload b i, st\<lparr>rs_cache := cache'\<rparr>) \<and>
    cache_ok compress crc32 hist cache'"
proof -
  have b: "built_batch compress crc32 b" and mem: "(h, RaftLogBatch (b\<lparr>rb_raw := []\<rparr>)) \<in> set hist"
    using st by (auto simp: stored_def)
  have slice: "slice (ei_offset ei) (ei_offset ei + ei_len ei) (rb_raw b) = Ok (payload b i)"
    using built_batch_offsets[OF b i] by (simp add: ei index_of_def slice_def payload_def)
  show ?thesis
  proof (cases "rs_cache st (ei_file_id ei, ei_block_offset ei)")
    case (Some block)
    then obtain h' b' where "stored compress crc32 hist h' b'" "ei_file_id ei = wh_file_id h'"
      "ei_block_offset ei = block_offset_of h' b'" "block = rb_raw b'"
      using cache Some unfolding cache_ok_def by blast
    then have "block = rb_raw b" using stored_unique[OF run st _ _ _ lz4 crc] by (simp add: ei index_of_def)
    with Some slice cache show ?thesis
      by (auto simp: store_entry_data_def cache_get_or_insert_with_def intro!: exI[of _ "rs_cache st"])
  next
    case None
    obtain closed cur where inv: "log_inv (rs_log st) closed cur"
      "hist = file_items (first_log_file_id (rs_log st)) (closed @ [cur])" using log_run_inv[OF run] by blast
    have "log_read (rs_log st) (ei_file_id ei) (ei_block_offset ei) (ei_block_len ei) = Ok (rb_data b)"
      using log_read_part[OF inv(1) mem[unfolded inv(2)], of "Suc (fst (data_segment_location b))" "rb_data_len b"]
        stored_enc(1,2)[OF run st] built_batchD(7)[OF b]
      by (simp add: ei index_of_def block_offset_of_def)
    moreover have "extract_data_segment decompress crc32 (rb_data b) = Ok (rb_raw b)"
      using built_batchD(2)[OF b] extract_data_segment_ok[OF lz4 crc] by simp
    moreover have "cache_ok compress crc32 hist
        ((rs_cache st)((ei_file_id ei, ei_block_offset ei) \<mapsto> rb_raw b))"
      using cache st by (auto simp: cache_ok_def ei index_of_def)
    ultimately show ?thesis
      using None slice by (auto simp: store_entry_data_def cache_get_or_insert_with_def cache_insert_def)
  qed
qed

section \<open>The invariant of the store\<close>

abbreviation replay_item :: "write_handle \<times> entry \<Rightarrow> mem_states \<Rightarrow> mem_states res" where
  "replay_item \<equiv> (\<lambda>(h, e). replay_entry (wh_file_id h, wh_offset h, entry_meta e))"

text \<open>The replayed index agrees with the live one, except that it misses groups that were added but
  never written to, and except for the groups that were removed since the store was opened: removing a
  group is not logged.\<close>

definition recovers :: "nat set \<Rightarrow> mem_states \<Rightarrow> mem_states \<Rightarrow> bool" where
  "recovers removed s0 s \<longleftrightarrow>
     (\<forall>gid. gid \<notin> removed \<longrightarrow> s0 gid = s gid \<or> s0 gid = None \<and> s gid = Some new_mem_state)"

definition store_inv ::
  "(bytes \<Rightarrow> bytes) \<Rightarrow> (bytes \<Rightarrow> nat) \<Rightarrow> nat set \<Rightarrow> (write_handle \<times> entry) list \<Rightarrow> raft_log_store \<Rightarrow> bool" where
  "store_inv compress crc32 removed hist st \<longleftrightarrow>
     log_run (rs_log st) hist \<and> log_queue (rs_log st) = [] \<and>
     cache_ok compress crc32 hist (rs_cache st) \<and> states_ok compress crc32 hist (rs_states st) \<and>
     wf_states (rs_states st) \<and>
     (\<exists>s0. rfold replay_item hist Map.empty = Ok s0 \<and> recovers removed s0 (rs_states st) \<and>
        states_ok compress crc32 hist s0 \<and> wf_states s0)"

lemma log_append_run:
  assumes "log_run lg hist" "log_queue lg = []" "\<forall>e \<in> set es. wf_entry e"
  shows "\<exists>lg' hs. log_append lg es = Ok (lg', hs) \<and> log_run lg' (hist @ zip hs es) \<and>
    length hs = length es \<and> log_queue lg' = []"
proof -
  define lg1 where "lg1 = lg\<lparr>log_queue := [es]\<rparr>"
  have enq: "log_enqueue es lg = (True, lg1)" using assms(2) by (simp add: log_enqueue_def lg1_def)
  have run1: "log_run lg1 hist" by (rule run_enqueue[OF assms(1,3) enq])
  from log_run_inv[OF run1] obtain closed cur where inv: "log_inv lg1 closed cur" by blast
  obtain a hs where p: "place_all (log_file_capacity lg1) (first_log_file_id lg1) (log_queue lg1)
      (closed, cur) = (a, [hs])" "length hs = length es"
    by (cases "place (log_file_capacity lg) es (closed, cur)") (simp add: lg1_def)
  obtain closed' cur' where a: "a = (closed', cur')" by fastforce
  have "\<forall>w \<in> set (log_queue lg1). wf_entries w" using assms(3) by (simp add: lg1_def wf_entries_def)
  from log_lead_spec[OF inv this p(1)[unfolded a]] obtain lg' where
    lg': "log_lead lg1 = Ok (lg', [hs])" "log_queue lg' = []" by blast
  have "log_run lg' (hist @ concat (map2 zip [hs] (log_queue lg1)))" by (rule run_lead[OF run1 lg'(1)])
  moreover have "log_append lg es = Ok (lg', hs)"
    using lg'(1) enq assms(2) by (simp add: log_append_def index_def)
  ultimately show ?thesis using lg'(2) p(2) by (auto simp: lg1_def)
qed

lemma recovers_step:
  assumes "recovers removed s0 s" "with_state_mut s gid body = Ok s'" "gid \<notin> removed"
  shows "\<exists>s1. with_state_mut (snd (may_add_group s0 gid)) gid body = Ok s1 \<and> recovers removed s1 s'"
proof -
  obtain ms ms' where ms: "s gid = Some ms" "body ms = Ok ms'" "s' = s(gid \<mapsto> ms')"
    using assms(2) by (auto simp: with_state_mut_Ok)
  have g: "snd (may_add_group s0 gid) gid = Some ms"
    and o: "gid' \<noteq> gid \<Longrightarrow> snd (may_add_group s0 gid) gid' = s0 gid'" for gid'
    using assms(1)[unfolded recovers_def, rule_format, OF assms(3)] ms(1)
    by (auto simp: may_add_group_def split: option.splits)
  have "recovers removed ((snd (may_add_group s0 gid))(gid \<mapsto> ms')) s'"
    using assms(1) ms(3) o by (auto simp: recovers_def)
  then show ?thesis using g ms(2) by (simp add: with_state_mut_Some)
qed

lemma may_add_group_ok:
  "states_ok compress crc32 hist s \<Longrightarrow> states_ok compress crc32 hist (snd (may_add_group s gid))"
  "wf_states s \<Longrightarrow> wf_states (snd (may_add_group s gid))"
  by (auto simp: may_add_group_def states_ok_def wf_states_def wf_state_def new_mem_state_def
      split: option.splits if_splits)

lemma with_state_mut_states_ok:
  assumes "states_ok compress crc32 hist s" "with_state_mut s gid body = Ok s'"
    and "\<And>ms ms'. body ms = Ok ms' \<Longrightarrow> set (indices ms') \<subseteq> set (indices ms) \<union> added"
    and "\<And>ei. ei \<in> added \<Longrightarrow> \<exists>h b. stored compress crc32 hist h b \<and> ei \<in> set (placed_indices h b)"
  shows "states_ok compress crc32 hist s'"
proof -
  obtain ms ms' where ms: "s gid = Some ms" "body ms = Ok ms'" "s' = s(gid \<mapsto> ms')"
    using assms(2) by (auto simp: with_state_mut_Ok)
  show ?thesis
    unfolding states_ok_def
  proof (intro allI impI)
    fix g m ei assume "s' g = Some m" "ei \<in> set (indices m)"
    then have "ei \<in> added \<or> (\<exists>m'. s g = Some m' \<and> ei \<in> set (indices m'))"
      using ms assms(3)[OF ms(2)] by (auto split: if_splits)
    then show "\<exists>h b. stored compress crc32 hist h b \<and> ei \<in> set (placed_indices h b)"
      using assms(1,4) unfolding states_ok_def by blast
  qed
qed

lemma overwrite_indices_set:
  "overwrite_indices pos eis old = Ok new \<Longrightarrow> set new \<subseteq> set old \<union> set eis"
proof (induction pos eis old rule: overwrite_indices.induct)
  case (2 pos ei eis old)
  then obtain cur where "overwrite_indices (pos + 1) eis
      (if ei_term cur > ei_term ei then old else old[pos := ei]) = Ok new" "index old pos = Ok cur"
    by (auto simp: outcome_simps)
  with 2(1)[OF this(2)] show ?case using set_update_subset_insert[of old pos ei] by (auto split: if_splits)
qed simp

lemma append_state_set:
  assumes "append_state first eis st = Ok st'"
  shows "set (indices st') \<subseteq> set (indices st) \<union> set eis"
  using assms
  by (auto simp: append_state_def outcome_simps Let_def split: if_splits dest!: overwrite_indices_set)
    (auto dest!: subsetD dest: in_set_dropD in_set_takeD)

lemma lift_states_Ok:
  "lift_states f st = (Ok (), st') \<longleftrightarrow> (\<exists>s'. f (rs_states st) = Ok s' \<and> st' = st\<lparr>rs_states := s'\<rparr>)"
  by (auto simp: lift_states_def split: result.splits)

text \<open>Updates that log one entry and change one group's state.\<close>

lemma logged_update_inv:
  assumes inv: "store_inv compress crc32 removed hist st" and gid: "gid \<notin> removed"
    and e: "wf_entry e" "entry_meta e = e"
    and call: "with_log_append [e] (\<lambda>_. lift_states (\<lambda>s. with_state_mut s gid body)) st = (Ok (), st')"
    and replay: "\<And>f off s. replay_entry (f, off, e) s = with_state_mut (snd (may_add_group s gid)) gid body"
    and shrinks: "\<And>ms ms'. body ms = Ok ms' \<Longrightarrow> set (indices ms') \<subseteq> set (indices ms)"
    and wf: "\<And>ms ms'. wf_state ms \<Longrightarrow> body ms = Ok ms' \<Longrightarrow> wf_state ms'"
  shows "\<exists>hist'. store_inv compress crc32 removed hist' st'"
proof -
  have run: "log_run (rs_log st) hist" "log_queue (rs_log st) = []" using inv by (auto simp: store_inv_def)
  obtain lg' hs where lg': "log_append (rs_log st) [e] = Ok (lg', hs)" "log_run lg' (hist @ zip hs [e])"
    "length hs = 1" "log_queue lg' = []" using log_append_run[OF run, of "[e]"] e(1) by auto
  then obtain h where hs: "hs = [h]" by (cases hs) auto
  from call lg'(1) obtain s' where s': "with_state_mut (rs_states st) gid body = Ok s'"
    "st' = st\<lparr>rs_log := lg', rs_states := s'\<rparr>" by (auto simp: with_log_append_def lift_states_Ok)
  obtain s0 where s0: "rfold replay_item hist Map.empty = Ok s0" "recovers removed s0 (rs_states st)"
    "states_ok compress crc32 hist s0" "wf_states s0" using inv by (auto simp: store_inv_def)
  obtain s1 where s1: "with_state_mut (snd (may_add_group s0 gid)) gid body = Ok s1" "recovers removed s1 s'"
    using recovers_step[OF s0(2) s'(1) gid] by blast
  have "rfold replay_item (hist @ [(h, e)]) Map.empty = Ok s1"
    using s0(1) s1(1) e(2) replay by (simp add: rfold_append)
  moreover have "states_ok compress crc32 (hist @ [(h, e)]) s'"
    by (rule with_state_mut_states_ok[OF _ s'(1), where added = "{}"])
      (use inv shrinks in \<open>auto simp: store_inv_def intro: states_ok_mono\<close>)
  moreover have "wf_states s'"
    by (rule with_state_mut_wf[OF _ s'(1)]) (use inv wf in \<open>auto simp: store_inv_def\<close>)
  moreover have "states_ok compress crc32 (hist @ [(h, e)]) s1"
    by (rule with_state_mut_states_ok[OF may_add_group_ok(1)[OF states_ok_mono[OF s0(3)]] s1(1), where added = "{}"])
      (use shrinks in auto)
  moreover have "wf_states s1" by (rule with_state_mut_wf[OF may_add_group_ok(2)[OF s0(4)] s1(1) wf])
  moreover have "cache_ok compress crc32 (hist @ [(h, e)]) (rs_cache st)"
    using inv by (simp add: store_inv_def cache_ok_mono)
  ultimately have "store_inv compress crc32 removed (hist @ [(h, e)]) st'"
    using s1(2) lg' s'(2) hs by (simp add: store_inv_def)
  then show ?thesis by blast
qed

lemma install_contexts_inv:
  assumes "length hs = length bs" "install_contexts (zip (map context_of bs) hs) st = (Ok (), st')"
    and "\<forall>(h, b) \<in> set (zip hs bs). stored compress crc32 hist h b"
    and "\<forall>b \<in> set bs. rb_first_index b + batch_size b < 2 ^ 64 \<and> rb_group b \<notin> removed"
    and "cache_ok compress crc32 hist (rs_cache st)" "states_ok compress crc32 hist (rs_states st)"
    and "wf_states (rs_states st)" "recovers removed s0 (rs_states st)"
    and "states_ok compress crc32 hist s0" "wf_states s0"
  shows "\<exists>s1. rfold replay_item (zip hs (map (\<lambda>b. RaftLogBatch (b\<lparr>rb_raw := []\<rparr>)) bs)) s0 = Ok s1 \<and>
    recovers removed s1 (rs_states st') \<and> cache_ok compress crc32 hist (rs_cache st') \<and>
    states_ok compress crc32 hist (rs_states st') \<and> wf_states (rs_states st') \<and> rs_log st' = rs_log st \<and>
    states_ok compress crc32 hist s1 \<and> wf_states s1"
  using assms
proof (induction hs bs arbitrary: st s0 rule: list_induct2)
  case (Cons h hs b bs)
  define cache where "cache = cache_insert (wh_file_id h) (block_offset_of h b) (rb_raw b) (rs_cache st)"
  have st: "stored compress crc32 hist h b" using Cons.prems(2) by simp
  then have b: "built_batch compress crc32 b" by (simp add: stored_def)
  have eis: "map (\<lambda>ei. ei\<lparr>ei_file_id := wh_file_id h, ei_block_offset := block_offset_of h b,
      ei_block_len := rb_data_len b\<rparr>) (map (index_of b 0 0 0) [0..<batch_size b]) = placed_indices h b"
    by (simp add: placed_indices_def comp_def index_of_fill)
  have "install_contexts (zip (map context_of (b # bs)) (h # hs)) st =
      (case lift_states (\<lambda>s. mem_append s (rb_group b) (rb_first_index b) (placed_indices h b))
          (st\<lparr>rs_cache := cache\<rparr>) of
         (Ok _, st) \<Rightarrow> install_contexts (zip (map context_of bs) hs) st
       | (outcome, st) \<Rightarrow> (outcome, st))"
    using eis by (simp add: context_of_def Let_def cache_def block_offset_of_def del: map_map)
  with Cons.prems(1) obtain s' where s': "mem_append (rs_states st) (rb_group b) (rb_first_index b)
      (placed_indices h b) = Ok s'"
    "install_contexts (zip (map context_of bs) hs) (st\<lparr>rs_cache := cache, rs_states := s'\<rparr>) = (Ok (), st')"
    by (auto simp: lift_states_def split: result.splits)
  then have app: "with_state_mut (rs_states st) (rb_group b)
      (append_state (rb_first_index b) (placed_indices h b)) = Ok s'" "placed_indices h b \<noteq> []"
    by (auto simp: mem_append_def outcome_simps)
  have gid: "rb_group b \<notin> removed" using Cons.prems(3) by simp
  from recovers_step[OF Cons.prems(7) app(1) gid] obtain s1 where s1:
    "with_state_mut (snd (may_add_group s0 (rb_group b))) (rb_group b)
      (append_state (rb_first_index b) (placed_indices h b)) = Ok s1" "recovers removed s1 s'" by blast
  have rep: "replay_item (h, RaftLogBatch (b\<lparr>rb_raw := []\<rparr>)) s0 = Ok s1"
    using replay_batch[OF b, of h s0] s1(1) app(2) by (simp add: mem_append_def)
  have "cache_ok compress crc32 hist cache"
    using Cons.prems(4) st unfolding cache_def cache_insert_def cache_ok_def by (auto split: if_splits)
  moreover have "states_ok compress crc32 hist s'"
    by (rule with_state_mut_states_ok[OF Cons.prems(5) app(1) append_state_set]) (use st in blast)+
  moreover have "states_ok compress crc32 hist s1"
    by (rule with_state_mut_states_ok[OF may_add_group_ok(1)[OF Cons.prems(8)] s1(1) append_state_set])
      (use st in blast)+
  moreover have wf: "wf_state ms'"
    if "wf_state ms" "append_state (rb_first_index b) (placed_indices h b) ms = Ok ms'" for ms ms'
    by (rule append_state_wf[OF that]) (use Cons.prems(3) in \<open>simp add: placed_indices_def\<close>)
  moreover have "wf_states s'" by (rule with_state_mut_wf[OF Cons.prems(6) app(1) wf])
  moreover have "wf_states s1" by (rule with_state_mut_wf[OF may_add_group_ok(2)[OF Cons.prems(9)] s1(1) wf])
  ultimately show ?case
    using Cons.IH[OF s'(2), of s1] Cons.prems(2,3) s1(2) rep by (simp del: entry_meta.simps)
qed auto

lemma store_append_inv:
  assumes inv: "store_inv compress crc32 removed hist st" and bs: "\<forall>b \<in> set bs. built_batch compress crc32 b"
    and bound: "\<forall>b \<in> set bs. rb_first_index b + batch_size b < 2 ^ 64 \<and> rb_group b \<notin> removed"
    and call: "store_append bs st = (Ok (), st')"
  shows "\<exists>hist'. store_inv compress crc32 removed hist' st'"
proof -
  define es where "es = map (\<lambda>b. RaftLogBatch (b\<lparr>rb_raw := []\<rparr>)) bs"
  have run: "log_run (rs_log st) hist" "log_queue (rs_log st) = []" using inv by (auto simp: store_inv_def)
  have "\<forall>e \<in> set es. wf_entry e" using bs by (auto simp: es_def built_batch_def wf_batch_def)
  from log_append_run[OF run this] obtain lg' hs where lg':
    "log_append (rs_log st) es = Ok (lg', hs)" "log_run lg' (hist @ zip hs es)"
    "length hs = length bs" "log_queue lg' = []" by (auto simp: es_def)
  have "store_append bs st = install_contexts (zip (map context_of bs) hs) (st\<lparr>rs_log := lg'\<rparr>)"
    using lg'(1) unfolding store_append_def prepare_batches[OF bs]
    by (simp add: with_log_append_def comp_def es_def)
  with call have inst: "install_contexts (zip (map context_of bs) hs) (st\<lparr>rs_log := lg'\<rparr>) = (Ok (), st')"
    by simp
  let ?hist = "hist @ zip hs es"
  obtain s0 where s0: "rfold replay_item hist Map.empty = Ok s0" "recovers removed s0 (rs_states st)"
    "states_ok compress crc32 hist s0" "wf_states s0" using inv by (auto simp: store_inv_def)
  have "stored compress crc32 ?hist h b" if "(h, b) \<in> set (zip hs bs)" for h b
    using that bs lg'(3) by (auto simp: stored_def es_def in_set_zip dest: in_set_zipE)
  with install_contexts_inv[OF lg'(3) inst, of compress crc32 ?hist removed s0] inv bound s0(2-4)
  obtain s1 where "rfold replay_item (zip hs es) s0 = Ok s1" "recovers removed s1 (rs_states st')"
    "cache_ok compress crc32 ?hist (rs_cache st')" "states_ok compress crc32 ?hist (rs_states st')"
    "wf_states (rs_states st')" "rs_log st' = lg'" "states_ok compress crc32 ?hist s1" "wf_states s1"
    by (auto simp: store_inv_def es_def cache_ok_mono states_ok_mono)
  then have "store_inv compress crc32 removed ?hist st'"
    using s0(1) lg' by (simp add: store_inv_def rfold_append)
  then show ?thesis by blast
qed

section \<open>Reading entries\<close>

text \<open>Where the indices of a window come from: a handle, its batch and the position in the batch.\<close>

type_synonym origin = "write_handle \<times> raft_log_batch \<times> nat"

fun origin_index :: "origin \<Rightarrow> entry_index" where
  "origin_index (h, b, i) = index_of b (wh_file_id h) (block_offset_of h b) (rb_data_len b) i"

fun origin_entries :: "nat \<Rightarrow> nat \<Rightarrow> origin list \<Rightarrow> store_entry list" where
  "origin_entries gid k [] = []"
| "origin_entries gid k ((h, b, i) # os) =
     \<lparr>se_group = gid, se_term = rb_term b, se_index = k, se_ctx = rb_ctxs b ! i, se_data = payload b i\<rparr>
       # origin_entries gid (k + 1) os"

lemma states_ok_origin:
  assumes "states_ok compress crc32 hist s" "s gid = Some ms" "set eis \<subseteq> set (indices ms)"
  shows "\<exists>os. eis = map origin_index os \<and>
    (\<forall>(h, b, i) \<in> set os. stored compress crc32 hist h b \<and> i < batch_size b)"
  using assms(3)
proof (induction eis)
  case (Cons ei eis)
  then obtain os where os: "eis = map origin_index os"
    "\<forall>(h, b, i) \<in> set os. stored compress crc32 hist h b \<and> i < batch_size b" by auto
  obtain h b where "stored compress crc32 hist h b" "ei \<in> set (placed_indices h b)"
    using assms(1,2) Cons.prems unfolding states_ok_def by fastforce
  then obtain i where "stored compress crc32 hist h b" "i < batch_size b" "ei = origin_index (h, b, i)"
    by (auto simp: placed_indices_def)
  with os show ?case by (intro exI[of _ "(h, b, i) # os"]) auto
qed simp

lemma store_entries_loop_ok:
  assumes "log_run (rs_log st) hist" "cache_ok compress crc32 hist (rs_cache st)"
    and "\<forall>(h, b, i) \<in> set os. stored compress crc32 hist h b \<and> i < batch_size b"
    and "lz4_frames compress decompress" "\<And>bs. crc32 bs < 2 ^ 32"
  shows "\<exists>cache'. store_entries_loop decompress crc32 gid k (map origin_index os) st =
      Ok (origin_entries gid k os, st\<lparr>rs_cache := cache'\<rparr>) \<and> cache_ok compress crc32 hist cache'"
  using assms
proof (induction os arbitrary: k st)
  case Nil
  then show ?case by (intro exI[of _ "rs_cache st"]) simp
next
  case (Cons a os)
  obtain h b i where a: "a = (h, b, i)" by (cases a) auto
  from store_entry_data_ok[OF Cons.prems(1,2) _ _ refl Cons.prems(4,5), of h b i] Cons.prems(3)
  obtain c1 where c1: "store_entry_data decompress crc32 st (origin_index a) = Ok (payload b i, st\<lparr>rs_cache := c1\<rparr>)"
    "cache_ok compress crc32 hist c1" by (auto simp: a)
  from Cons.IH[of "st\<lparr>rs_cache := c1\<rparr>" "Suc k"] Cons.prems c1(2) obtain c2 where
    "store_entries_loop decompress crc32 gid (Suc k) (map origin_index os) (st\<lparr>rs_cache := c1\<rparr>) =
      Ok (origin_entries gid (Suc k) os, st\<lparr>rs_cache := c2\<rparr>)" "cache_ok compress crc32 hist c2" by auto
  with c1(1) show ?case by (intro exI[of _ c2]) (simp add: a index_of_def)
qed

lemma mem_entries_subset:
  assumes "mem_entries s gid i n = Ok eis"
  shows "\<exists>ms. s gid = Some ms \<and> set eis \<subseteq> set (indices ms)"
  using assms
  by (auto simp: mem_entries_def with_state_def outcome_simps Let_def split: if_splits
      dest: in_set_takeD in_set_dropD)

lemma mem_may_entries_subset:
  assumes "mem_may_entries s gid i n unmask = Ok (first, eis)"
  shows "\<exists>ms. s gid = Some ms \<and> set eis \<subseteq> set (indices ms)"
  using assms
  by (auto simp: mem_may_entries_def with_state_def outcome_simps Let_def split: if_splits
      dest: in_set_takeD in_set_dropD)

lemma window_readable:
  assumes inv: "store_inv compress crc32 removed hist st" and ms: "rs_states st gid = Some ms"
    and sub: "set eis \<subseteq> set (indices ms)"
    and lz4: "lz4_frames compress decompress" and crc: "\<And>bs. crc32 bs < 2 ^ 32"
  shows "\<exists>os cache'. eis = map origin_index os \<and>
    store_entries_loop decompress crc32 gid k eis st = Ok (origin_entries gid k os, st\<lparr>rs_cache := cache'\<rparr>) \<and>
    store_inv compress crc32 removed hist (st\<lparr>rs_cache := cache'\<rparr>)"
proof -
  obtain os where os: "eis = map origin_index os"
    "\<forall>(h, b, i) \<in> set os. stored compress crc32 hist h b \<and> i < batch_size b"
    using states_ok_origin[of compress crc32 hist "rs_states st" gid ms eis] inv ms sub
    unfolding store_inv_def by blast
  from store_entries_loop_ok[OF _ _ os(2) lz4 crc, of st gid k] inv obtain cache' where
    "store_entries_loop decompress crc32 gid k eis st = Ok (origin_entries gid k os, st\<lparr>rs_cache := cache'\<rparr>)"
    "cache_ok compress crc32 hist cache'" by (auto simp: store_inv_def os(1))
  with os(1) inv show ?thesis by (intro exI[of _ os] exI[of _ cache']) (simp add: store_inv_def)
qed

section \<open>Runs of the store\<close>

text \<open>A run creates a store, performs calls that succeed, lets the cache evict blocks, and closes and
  opens the store again. It keeps the set of the groups that were removed since the store was opened;
  \<open>mem.rs\<close> demands that a removed group is never used again, so no update names one.\<close>

inductive store_run ::
  "(bytes \<Rightarrow> bytes) \<Rightarrow> (bytes \<Rightarrow> bytes option) \<Rightarrow> (bytes \<Rightarrow> nat) \<Rightarrow> nat set \<Rightarrow> raft_log_store \<Rightarrow> bool"
  for compress decompress crc32 where
  st_create: "store_open Map.empty [] capacity = Ok st \<Longrightarrow> store_run compress decompress crc32 {} st"
| st_add: "store_run compress decompress crc32 removed st \<Longrightarrow> store_add_group gid st = (Ok (), st') \<Longrightarrow>
    store_run compress decompress crc32 removed st'"
| st_remove: "store_run compress decompress crc32 removed st \<Longrightarrow>
    store_remove_group gid st = (Ok (), st') \<Longrightarrow> store_run compress decompress crc32 (insert gid removed) st'"
| st_append: "store_run compress decompress crc32 removed st \<Longrightarrow>
    \<forall>b \<in> set bs. built_batch compress crc32 b \<and> rb_first_index b + batch_size b < 2 ^ 64 \<and>
      rb_group b \<notin> removed \<Longrightarrow>
    store_append bs st = (Ok (), st') \<Longrightarrow> store_run compress decompress crc32 removed st'"
| st_truncate: "store_run compress decompress crc32 removed st \<Longrightarrow> gid < 2 ^ 64 \<Longrightarrow> gid \<notin> removed \<Longrightarrow> i < 2 ^ 64 \<Longrightarrow>
    store_truncate gid i st = (Ok (), st') \<Longrightarrow> store_run compress decompress crc32 removed st'"
| st_compact: "store_run compress decompress crc32 removed st \<Longrightarrow> gid < 2 ^ 64 \<Longrightarrow> gid \<notin> removed \<Longrightarrow> i < 2 ^ 64 \<Longrightarrow>
    store_compact gid i st = (Ok (), st') \<Longrightarrow> store_run compress decompress crc32 removed st'"
| st_mask: "store_run compress decompress crc32 removed st \<Longrightarrow> gid < 2 ^ 64 \<Longrightarrow> gid \<notin> removed \<Longrightarrow> i < 2 ^ 64 \<Longrightarrow>
    store_mask gid i st = (Ok (), st') \<Longrightarrow> store_run compress decompress crc32 removed st'"
| st_put: "store_run compress decompress crc32 removed st \<Longrightarrow> gid < 2 ^ 64 \<Longrightarrow> gid \<notin> removed \<Longrightarrow> length key < 2 ^ 32 \<Longrightarrow>
    length val < 2 ^ 32 \<Longrightarrow> store_put gid key val st = (Ok (), st') \<Longrightarrow>
    store_run compress decompress crc32 removed st'"
| st_delete: "store_run compress decompress crc32 removed st \<Longrightarrow> gid < 2 ^ 64 \<Longrightarrow> gid \<notin> removed \<Longrightarrow> length key < 2 ^ 32 \<Longrightarrow>
    store_delete gid key st = (Ok (), st') \<Longrightarrow> store_run compress decompress crc32 removed st'"
| st_entries: "store_run compress decompress crc32 removed st \<Longrightarrow>
    store_entries decompress crc32 st gid i n = Ok (es, st') \<Longrightarrow> store_run compress decompress crc32 removed st'"
| st_may_entries: "store_run compress decompress crc32 removed st \<Longrightarrow>
    store_may_entries decompress crc32 st gid i n unmask = Ok (es, st') \<Longrightarrow>
    store_run compress decompress crc32 removed st'"
| st_evict: "store_run compress decompress crc32 removed st \<Longrightarrow>
    store_run compress decompress crc32 removed (cache_evict dropped st)"
| st_reopen: "store_run compress decompress crc32 removed st \<Longrightarrow> distinct names \<Longrightarrow>
    set names = dom (log_dir (rs_log st)) \<Longrightarrow>
    first_log_file_id (rs_log st) + length (frozen_files (rs_log st)) + 1 < 2 ^ 64 \<Longrightarrow>
    store_open (log_dir (rs_log st)) names capacity = Ok st' \<Longrightarrow> store_run compress decompress crc32 {} st'"

lemma log_reopen:
  assumes "log_run lg hist" "distinct names" "set names = dom (log_dir lg)"
    and "first_log_file_id lg + length (frozen_files lg) + 1 < 2 ^ 64"
  shows "\<exists>lg'. log_open (log_dir lg) names capacity = Ok lg' \<and> log_run lg' hist \<and> log_queue lg' = [] \<and>
    (\<forall>s. log_replay replay_entry lg' s = rfold replay_item hist s)"
proof -
  obtain closed cur where inv: "log_inv lg closed cur"
    "hist = file_items (first_log_file_id lg) (closed @ [cur])" using log_run_inv[OF assms(1)] by blast
  then have "length (frozen_files lg) = length closed" by (simp add: log_inv_def disk_inv_def)
  with log_open_spec[OF inv(1) assms(2,3), of capacity] assms(4) obtain lg' where
    lg': "log_open (log_dir lg) names capacity = Ok lg'" "log_inv lg' (closed @ [cur]) []"
    "first_log_file_id lg' = first_log_file_id lg" "log_queue lg' = []" by auto
  moreover have "log_run lg' hist" by (rule run_reopen[OF assms lg'(1)])
  moreover have "log_replay replay_entry lg' s = rfold replay_item hist s" for s
    using log_replay_items[OF lg'(2), of replay_entry s] lg'(3) inv(2) by simp
  ultimately show ?thesis by blast
qed

lemma store_reopen:
  assumes inv: "store_inv compress crc32 removed hist st" and names: "distinct names" "set names = dom (log_dir (rs_log st))"
    and bound: "first_log_file_id (rs_log st) + length (frozen_files (rs_log st)) + 1 < 2 ^ 64"
  shows "\<exists>st'. store_open (log_dir (rs_log st)) names capacity = Ok st' \<and>
    recovers removed (rs_states st') (rs_states st) \<and> store_inv compress crc32 {} hist st'"
proof -
  have run: "log_run (rs_log st) hist" using inv by (simp add: store_inv_def)
  obtain s0 where s0: "rfold replay_item hist Map.empty = Ok s0" "recovers removed s0 (rs_states st)"
    "states_ok compress crc32 hist s0" "wf_states s0" using inv by (auto simp: store_inv_def)
  from log_reopen[OF run names bound, of capacity] obtain lg' where
    lg': "log_open (log_dir (rs_log st)) names capacity = Ok lg'" "log_run lg' hist" "log_queue lg' = []"
    "log_replay replay_entry lg' Map.empty = Ok s0" using s0(1) by auto
  have "store_inv compress crc32 {} hist \<lparr>rs_log = lg', rs_states = s0, rs_cache = Map.empty\<rparr>"
    using lg' s0(1,3,4) by (auto simp: store_inv_def cache_ok_def recovers_def)
  then show ?thesis using lg'(1,4) s0(2) by (simp add: store_open_def)
qed

lemma shrinking_updates:
  "truncate_state i ms = Ok ms' \<Longrightarrow> set (indices ms') \<subseteq> set (indices ms)"
  "compact_state i ms = Ok ms' \<Longrightarrow> set (indices ms') \<subseteq> set (indices ms)"
  "mask_state i ms = Ok ms' \<Longrightarrow> set (indices ms') \<subseteq> set (indices ms)"
  by (auto simp: truncate_state_def compact_state_def mask_state_def outcome_simps Let_def
      split: if_splits dest: in_set_takeD in_set_dropD)

lemma store_add_group_inv:
  assumes inv: "store_inv compress crc32 removed hist st" and add: "store_add_group gid st = (Ok (), st')"
  shows "store_inv compress crc32 removed hist st'"
proof -
  obtain s' where s': "add_group (rs_states st) gid = Ok s'" "st' = st\<lparr>rs_states := s'\<rparr>"
    using add by (auto simp: store_add_group_def lift_states_Ok)
  then have "rs_states st gid = None" "s' = (rs_states st)(gid \<mapsto> new_mem_state)"
    by (auto simp: add_group_def split: option.splits)
  moreover obtain s0 where s0: "rfold replay_item hist Map.empty = Ok s0" "recovers removed s0 (rs_states st)"
    "states_ok compress crc32 hist s0" "wf_states s0" using inv by (auto simp: store_inv_def)
  moreover have "gid \<notin> removed \<Longrightarrow> s0 gid = None" using s0(2) \<open>rs_states st gid = None\<close>
    unfolding recovers_def by (metis option.distinct(1))
  ultimately have "recovers removed s0 s'" "states_ok compress crc32 hist s'" "wf_states s'"
    using inv by (auto simp: recovers_def store_inv_def states_ok_def wf_states_def wf_state_def
        new_mem_state_def split: if_splits)
  with inv s'(2) s0(1,3,4) show ?thesis by (auto simp: store_inv_def)
qed

lemma store_remove_group_inv:
  assumes inv: "store_inv compress crc32 removed hist st" and remove: "store_remove_group gid st = (Ok (), st')"
  shows "store_inv compress crc32 (insert gid removed) hist st'"
proof -
  obtain s' where s': "remove_group (rs_states st) gid = Ok s'" "st' = st\<lparr>rs_states := s'\<rparr>"
    using remove by (auto simp: store_remove_group_def lift_states_Ok)
  then obtain ms where "rs_states st gid = Some ms"
    "s' = (rs_states st)(gid \<mapsto> ms\<lparr>first_index := u64_max, indices := [], kvs := Map.empty\<rparr>)"
    by (auto simp: remove_group_def split: option.splits)
  with inv have "states_ok compress crc32 hist s'" "wf_states s'"
    "recovers removed s0 (rs_states st) \<Longrightarrow> recovers (insert gid removed) s0 s'" for s0
    by (auto simp: recovers_def store_inv_def states_ok_def wf_states_def wf_state_def split: if_splits)
  with inv s'(2) show ?thesis by (fastforce simp: store_inv_def)
qed

lemma store_run_inv:
  assumes lz4: "lz4_frames compress decompress" and crc: "\<And>bs. crc32 bs < 2 ^ 32"
  shows "store_run compress decompress crc32 removed st \<Longrightarrow> \<exists>hist. store_inv compress crc32 removed hist st"
proof (induction rule: store_run.induct)
  case (st_create capacity st)
  then obtain lg where lg: "log_open Map.empty [] capacity = Ok lg" "st = \<lparr>rs_log = lg, rs_states = Map.empty, rs_cache = Map.empty\<rparr>"
    by (auto simp: store_open_def outcome_simps log_open_def Let_def log_replay_def new_active_file_def)
  then have "log_queue lg = []" by (auto simp: log_open_def Let_def new_active_file_def)
  with run_create[OF lg(1)] lg(2) have "store_inv compress crc32 {} [] st"
    by (auto simp: store_inv_def cache_ok_def states_ok_def wf_states_def recovers_def)
  then show ?case by blast
next
  case (st_add removed st gid st')
  then show ?case using store_add_group_inv by blast
next
  case (st_remove removed st gid st')
  then show ?case using store_remove_group_inv by blast
next
  case (st_append removed st bs st')
  then show ?case using store_append_inv[of compress crc32 removed _ st bs st'] by blast
next
  case (st_truncate removed st gid i st')
  then obtain hist where inv: "store_inv compress crc32 removed hist st" by blast
  show ?case
    by (rule logged_update_inv[OF inv, of gid "Truncate \<lparr>truncate_group = gid, truncate_index = i\<rparr>"
        "truncate_state i" st', OF st_truncate.hyps(3)])
      (use st_truncate.hyps shrinking_updates in
        \<open>auto simp: store_truncate_def mem_truncate_def intro: truncate_state_wf\<close>)
next
  case (st_compact removed st gid i st')
  then obtain hist where inv: "store_inv compress crc32 removed hist st" by blast
  show ?case
    by (rule logged_update_inv[OF inv, of gid "Compact \<lparr>compact_group = gid, compact_index = i\<rparr>"
        "compact_state i" st', OF st_compact.hyps(3)])
      (use st_compact.hyps shrinking_updates in
        \<open>auto simp: store_compact_def mem_compact_def intro: compact_state_wf\<close>)
next
  case (st_mask removed st gid i st')
  then obtain hist where inv: "store_inv compress crc32 removed hist st" by blast
  show ?case
    by (rule logged_update_inv[OF inv, of gid "Mask \<lparr>mask_group = gid, mask_index_at = i\<rparr>"
        "mask_state i" st', OF st_mask.hyps(3)])
      (use st_mask.hyps shrinking_updates in
        \<open>auto simp: store_mask_def mem_mask_def intro: mask_state_wf\<close>)
next
  case (st_put removed st gid key val st')
  then obtain hist where inv: "store_inv compress crc32 removed hist st" by blast
  show ?case
    by (rule logged_update_inv[OF inv, of gid "Kv (Put gid key val)"
        "\<lambda>ms. Ok (ms\<lparr>kvs := (kvs ms)(key \<mapsto> val)\<rparr>)" st', OF st_put.hyps(3)])
      (use st_put.hyps in \<open>auto simp: store_put_def mem_put_def wf_state_def\<close>)
next
  case (st_delete removed st gid key st')
  then obtain hist where inv: "store_inv compress crc32 removed hist st" by blast
  show ?case
    by (rule logged_update_inv[OF inv, of gid "Kv (Delete gid key)"
        "\<lambda>ms. Ok (ms\<lparr>kvs := (kvs ms)(key := None)\<rparr>)" st', OF st_delete.hyps(3)])
      (use st_delete.hyps in \<open>auto simp: store_delete_def mem_delete_def wf_state_def\<close>)
next
  case (st_entries removed st gid i n es st')
  then obtain hist eis where inv: "store_inv compress crc32 removed hist st" and
    eis: "mem_entries (rs_states st) gid i n = Ok eis"
    "store_entries_loop decompress crc32 gid i eis st = Ok (es, st')"
    by (auto simp: store_entries_def outcome_simps)
  from mem_entries_subset[OF eis(1)] window_readable[OF inv _ _ lz4 crc, of gid _ eis i] eis(2)
  show ?case by auto
next
  case (st_may_entries removed st gid i n unmask es st')
  then obtain hist eis first where inv: "store_inv compress crc32 removed hist st" and
    eis: "mem_may_entries (rs_states st) gid i n unmask = Ok (first, eis)"
    "store_entries_loop decompress crc32 gid first eis st = Ok (es, st')"
    by (auto simp: store_may_entries_def outcome_simps)
  from mem_may_entries_subset[OF eis(1)] window_readable[OF inv _ _ lz4 crc, of gid _ eis first] eis(2)
  show ?case by auto
next
  case (st_evict removed st dropped)
  then show ?case
    by (fastforce simp: store_inv_def cache_evict_def cache_ok_def restrict_map_def split: if_splits)
next
  case (st_reopen removed st names capacity st')
  then obtain hist where "store_inv compress crc32 removed hist st" by blast
  from store_reopen[OF this st_reopen.hyps(2-4), of capacity] st_reopen.hyps(5) show ?case by auto
qed

section \<open>Appending behind the window\<close>

lemma append_state_at_end:
  "wf_state ms \<Longrightarrow> eis \<noteq> [] \<Longrightarrow> first = first_index ms + length (indices ms) \<Longrightarrow>
     append_state first eis ms = Ok (ms\<lparr>indices := indices ms @ eis\<rparr>)"
  by (simp add: append_state_def next_index_wf)

lemma mem_entries_tail:
  assumes "s gid = Some ms" "wf_state ms" "indices ms = old @ eis" "eis \<noteq> []"
    and "i = first_index ms + length old"
  shows "mem_entries s gid i (length eis) = Ok eis"
  using assms by (simp add: mem_entries_def with_state_def next_index_wf slice_def wf_state_def)

text \<open>The entries a batch stands for, as the store returns them.\<close>

fun store_entry_of :: "raft_log_item \<Rightarrow> store_entry" where
  "store_entry_of (gid, tm, i, ctx, data) =
     \<lparr>se_group = gid, se_term = tm, se_index = i, se_ctx = ctx, se_data = data\<rparr>"

lemma origin_entries_batch:
  "origin_entries (rb_group b) (rb_first_index b + k) (map (\<lambda>i. (h, b, i)) [k..<k + n]) =
     map store_entry_of (map (\<lambda>i. (rb_group b, rb_term b, rb_first_index b + i, rb_ctxs b ! i,
        take (rb_offsets b ! Suc i - rb_offsets b ! i) (drop (rb_offsets b ! i) (rb_raw b)))) [k..<k + n])"
proof (induction n arbitrary: k)
  case (Suc n)
  have "[k..<k + Suc n] = k # [Suc k..<Suc k + n]" using upt_conv_Cons[of k "k + Suc n"] by simp
  with Suc.IH[of "Suc k"] show ?case by (simp add: payload_def)
qed simp

lemma cache_ok_evict:
  "cache_ok compress crc32 hist (rs_cache st) \<Longrightarrow>
     cache_ok compress crc32 hist (rs_cache (cache_evict dropped st))"
  by (auto simp: cache_evict_def cache_ok_def restrict_map_def)

lemma store_append_single:
  assumes inv: "store_inv compress crc32 removed hist st" and b: "built_batch compress crc32 b"
    and ms: "rs_states st (rb_group b) = Some ms"
    and nxt: "rb_first_index b = first_index ms + length (indices ms)"
  shows "\<exists>st' hist' h. store_append [b] st = (Ok (), st') \<and> stored compress crc32 hist' h b \<and>
    log_run (rs_log st') hist' \<and> cache_ok compress crc32 hist' (rs_cache st') \<and>
    rs_states st' (rb_group b) = Some (ms\<lparr>indices := indices ms @ placed_indices h b\<rparr>)"
proof -
  have run: "log_run (rs_log st) hist" "log_queue (rs_log st) = []" and wf: "wf_state ms"
    using inv ms by (auto simp: store_inv_def wf_states_def)
  note bb = built_batchD[OF b]
  define e where "e = RaftLogBatch (b\<lparr>rb_raw := []\<rparr>)"
  have "\<forall>x \<in> set [e]. wf_entry x" using bb(1) by (simp add: e_def wf_batch_def)
  from log_append_run[OF run this] obtain lg' hs where lg': "log_append (rs_log st) [e] = Ok (lg', hs)"
    "log_run lg' (hist @ zip hs [e])" "length hs = 1" by auto
  then obtain h where hs: "hs = [h]" by (cases hs) auto
  define eis where "eis = placed_indices h b"
  have "eis \<noteq> []" using bb(4) by (auto simp: eis_def placed_indices_def)
  then have app: "mem_append (rs_states st) (rb_group b) (rb_first_index b) eis =
      Ok ((rs_states st)(rb_group b \<mapsto> ms\<lparr>indices := indices ms @ eis\<rparr>))"
    using append_state_at_end[OF wf _ nxt] ms by (simp add: mem_append_def with_state_mut_Some)
  define st' where "st' = st\<lparr>rs_log := lg', rs_cache := cache_insert (wh_file_id h) (block_offset_of h b)
      (rb_raw b) (rs_cache st), rs_states := (rs_states st)(rb_group b \<mapsto> ms\<lparr>indices := indices ms @ eis\<rparr>)\<rparr>"
  have prep: "rmap_list prepare_batch [b] = Ok [(context_of b, e)]"
    using prepare_batches[of "[b]" compress crc32] b by (simp add: e_def)
  have "map (\<lambda>ei. ei\<lparr>ei_file_id := wh_file_id h, ei_block_offset := block_offset_of h b,
      ei_block_len := rb_data_len b\<rparr>) (map (index_of b 0 0 0) [0..<batch_size b]) = eis"
    by (simp add: eis_def placed_indices_def comp_def index_of_fill)
  then have call: "store_append [b] st = (Ok (), st')"
    using lg'(1) app unfolding store_append_def prep hs
    by (simp add: with_log_append_def context_of_def Let_def lift_states_def block_offset_of_def
        st'_def del: map_map)
  have stored: "stored compress crc32 (hist @ [(h, e)]) h b" using b by (simp add: stored_def e_def)
  then have "cache_ok compress crc32 (hist @ [(h, e)]) (rs_cache st')"
    using cache_ok_mono[of compress crc32 hist "rs_cache st" "[(h, e)]"] inv
    unfolding st'_def cache_insert_def cache_ok_def store_inv_def by (auto split: if_splits)
  moreover have "log_run (rs_log st') (hist @ [(h, e)])" using lg'(2) hs by (simp add: st'_def)
  ultimately show ?thesis using call stored
    by (intro exI[of _ st'] exI[of _ "hist @ [(h, e)]"] exI[of _ h]) (simp add: st'_def eis_def)
qed

text \<open>A store whose window of a group ends with a batch, under the handle \<open>h\<close>.\<close>

definition holds_batch :: "(bytes \<Rightarrow> bytes) \<Rightarrow> (bytes \<Rightarrow> nat) \<Rightarrow> raft_log_batch \<Rightarrow> raft_log_store \<Rightarrow> bool" where
  "holds_batch compress crc32 b st \<longleftrightarrow>
     (\<exists>hist h old ms. stored compress crc32 hist h b \<and> log_run (rs_log st) hist \<and> log_queue (rs_log st) = [] \<and>
        cache_ok compress crc32 hist (rs_cache st) \<and> rs_states st (rb_group b) = Some ms \<and> wf_state ms \<and>
        indices ms = old @ placed_indices h b \<and> rb_first_index b = first_index ms + length old)"

lemma holds_batch_evict: "holds_batch compress crc32 b st \<Longrightarrow> holds_batch compress crc32 b (cache_evict dropped st)"
  unfolding holds_batch_def using cache_ok_evict[of compress crc32 _ st dropped] by (simp add: cache_evict_def) blast

lemma holds_batch_entries:
  assumes "lz4_frames compress decompress" "\<forall>bs. crc32 bs < 2 ^ 32" "holds_batch compress crc32 b st"
  shows "\<exists>st'. store_entries decompress crc32 st (rb_group b) (rb_first_index b) (batch_size b) = Ok (map store_entry_of (batch_items b), st')"
proof -
  obtain hist h old ms where st: "stored compress crc32 hist h b" "log_run (rs_log st) hist" "cache_ok compress crc32 hist (rs_cache st)"
    "rs_states st (rb_group b) = Some ms" "wf_state ms" "indices ms = old @ placed_indices h b" "rb_first_index b = first_index ms + length old"
    using assms(3) by (auto simp: holds_batch_def)
  let ?os = "map (\<lambda>i. (h, b, i)) [0..<batch_size b]"
  have bb: "built_batch compress crc32 b" using st(1) by (simp add: stored_def)
  have eis: "placed_indices h b = map origin_index ?os" "length (placed_indices h b) = batch_size b"
    "placed_indices h b \<noteq> []" using built_batchD(4)[OF bb] by (auto simp: placed_indices_def)
  have ent: "mem_entries (rs_states st) (rb_group b) (rb_first_index b) (batch_size b) = Ok (placed_indices h b)"
    using mem_entries_tail[of "rs_states st", OF st(4,5,6) eis(3) st(7)] by (simp only: eis(2))
  from store_entries_loop_ok[OF st(2,3) _ assms(1), of ?os "rb_group b" "rb_first_index b"]
  obtain st' where loop: "store_entries_loop decompress crc32 (rb_group b) (rb_first_index b)
      (map origin_index ?os) st = Ok (origin_entries (rb_group b) (rb_first_index b) ?os, st')"
    using st(1) assms(2) by auto
  have "origin_entries (rb_group b) (rb_first_index b) ?os = map store_entry_of (batch_items b)"
    using origin_entries_batch[of b 0 h "batch_size b"] by (simp add: batch_items_def)
  then show ?thesis using ent loop unfolding store_entries_def eis(1) by simp
qed

lemma store_append_holds:
  assumes "lz4_frames compress decompress" "\<forall>bs. crc32 bs < 2 ^ 32"
    and "store_run compress decompress crc32 removed st" "built_batch compress crc32 b"
    and "rs_states st (rb_group b) = Some ms" "rb_first_index b = first_index ms + length (indices ms)"
    and "rb_first_index b + length (rb_offsets b) < 2 ^ 64" "rb_group b \<notin> removed"
  shows "\<exists>st' ms'. store_append [b] st = (Ok (), st') \<and> store_run compress decompress crc32 removed st' \<and> holds_batch compress crc32 b st' \<and>
    rs_states st' (rb_group b) = Some ms' \<and> kvs ms' = kvs ms"
proof -
  obtain hist where inv: "store_inv compress crc32 removed hist st"
    using store_run_inv[OF assms(1) _ assms(3)] assms(2) by blast
  then have wf: "wf_state ms" using assms(5) by (auto simp: store_inv_def wf_states_def)
  obtain st' hist' h where st': "store_append [b] st = (Ok (), st')" "stored compress crc32 hist' h b"
    "log_run (rs_log st') hist'" "cache_ok compress crc32 hist' (rs_cache st')"
    "rs_states st' (rb_group b) = Some (ms\<lparr>indices := indices ms @ placed_indices h b\<rparr>)"
    using store_append_single[OF inv assms(4-6)] by blast
  have run: "store_run compress decompress crc32 removed st'" by (rule st_append[OF assms(3) _ st'(1)]) (use assms(4,7,8) in simp)
  from store_run_inv[OF assms(1) _ run] assms(2) have "log_queue (rs_log st') = []" by (auto simp: store_inv_def)
  moreover have "length (placed_indices h b) = batch_size b" by (simp add: placed_indices_def)
  then have "wf_state (ms\<lparr>indices := indices ms @ placed_indices h b\<rparr>)"
    using wf assms(6,7) built_batchD(4)[OF assms(4)] by (simp add: wf_state_def)
  ultimately have "holds_batch compress crc32 b st'" unfolding holds_batch_def using st' assms(6)
    by (intro exI[of _ hist'] exI[of _ h] exI[of _ "indices ms"] exI[of _ "ms\<lparr>indices := indices ms @ placed_indices h b\<rparr>"]) simp
  then show ?thesis using st'(1,5) run by simp
qed

section \<open>Properties\<close>

text \<open>C7. Append then read, end to end: appending a batch whose first index is the next index of its
  group, which was not removed, succeeds, and reading the appended range back, even after the cache evicted arbitrary
  blocks, returns the entries the batch was built from, with their terms, contexts and payloads.\<close>

theorem store_append_then_entries:
  assumes "lz4_frames compress decompress" "\<forall>bs. crc32 bs < 2 ^ 32"
    and "store_run compress decompress crc32 removed st" "built_batch compress crc32 b"
    and "rs_states st (rb_group b) = Some ms"
    and "rb_first_index b = first_index ms + length (indices ms)"
    and "rb_first_index b + length (rb_offsets b) < 2 ^ 64" "rb_group b \<notin> removed"
  shows "\<exists>st' st''. store_append [b] st = (Ok (), st') \<and>
    store_entries decompress crc32 (cache_evict dropped st') (rb_group b) (rb_first_index b)
      (length (rb_offsets b) - 1) = Ok (map store_entry_of (batch_items b), st'')"
  using store_append_holds[OF assms] holds_batch_entries[OF assms(1,2) holds_batch_evict[of _ _ _ _ dropped]] by blast

text \<open>C8. Recovery: however a store was used by calls that succeeded, group removals included,
  opening its directory again succeeds and rebuilds the same index, entry positions, mask, terms and
  key-value pairs included, for every group that was not removed since the store was last opened; only a
  group that was added and never written to is missing. The store can be used on from there. Updates of
  a removed group are excluded, as \<open>mem.rs\<close> demands; batches are built ones whose indices fit \<open>u64\<close>, and
  the identifiers of the log files have not run out.\<close>

theorem store_reopen_recovers:
  assumes "lz4_frames compress decompress" "\<forall>bs. crc32 bs < 2 ^ 32"
    and "store_run compress decompress crc32 removed st"
    and "distinct names" "set names = dom (log_dir (rs_log st))"
    and "first_log_file_id (rs_log st) + length (frozen_files (rs_log st)) + 1 < 2 ^ 64"
  shows "\<exists>st'. store_open (log_dir (rs_log st)) names capacity = Ok st' \<and>
    store_run compress decompress crc32 {} st' \<and>
    (\<forall>gid. gid \<notin> removed \<longrightarrow> rs_states st' gid = rs_states st gid \<or>
       rs_states st' gid = None \<and> rs_states st gid = Some new_mem_state)"
proof -
  obtain hist where "store_inv compress crc32 removed hist st"
    using store_run_inv[OF assms(1) _ assms(3)] assms(2) by blast
  from store_reopen[OF this assms(4-6), of capacity] obtain st' where
    "store_open (log_dir (rs_log st)) names capacity = Ok st'" "recovers removed (rs_states st') (rs_states st)"
    by blast
  moreover from this(1) have "store_run compress decompress crc32 {} st'" by (rule st_reopen[OF assms(3-6)])
  ultimately show ?thesis by (auto simp: recovers_def)
qed

text \<open>The block cache is transparent and every window is readable: what \<open>entries\<close> returns for a
  valid range does not depend on which blocks the cache still holds, and reading never fails.\<close>

theorem store_entries_cache_transparent:
  assumes "lz4_frames compress decompress" "\<forall>bs. crc32 bs < 2 ^ 32"
    and "store_run compress decompress crc32 removed st" "mem_entries (rs_states st) gid i n = Ok eis"
  shows "\<exists>es. length es = length eis \<and>
    (\<forall>dropped. \<exists>st'. store_entries decompress crc32 (cache_evict dropped st) gid i n = Ok (es, st'))"
proof -
  obtain hist where inv: "store_inv compress crc32 removed hist st"
    using store_run_inv[OF assms(1) _ assms(3)] assms(2) by blast
  obtain ms where ms: "rs_states st gid = Some ms" "set eis \<subseteq> set (indices ms)"
    using mem_entries_subset[OF assms(4)] by blast
  obtain os where os: "eis = map origin_index os"
    "\<forall>(h, b, i) \<in> set os. stored compress crc32 hist h b \<and> i < batch_size b"
    using states_ok_origin[of compress crc32 hist "rs_states st" gid ms eis] inv ms
    unfolding store_inv_def by blast
  have len: "length (origin_entries g k os) = length os" for g k os
    by (induction g k os rule: origin_entries.induct) auto
  have "\<exists>st'. store_entries decompress crc32 (cache_evict dropped st) gid i n =
      Ok (origin_entries gid i os, st')" for dropped
  proof -
    have "log_run (rs_log (cache_evict dropped st)) hist"
      "cache_ok compress crc32 hist (rs_cache (cache_evict dropped st))"
      using inv by (auto simp: store_inv_def cache_evict_def cache_ok_def restrict_map_def)
    from store_entries_loop_ok[OF this os(2) assms(1), of gid i] assms(2,4) show ?thesis
      by (auto simp: store_entries_def cache_evict_def os(1))
  qed
  then show ?thesis by (intro exI[of _ "origin_entries gid i os"]) (simp add: os(1) len)
qed

lemma recovers_truncate_Err:
  assumes "recovers removed s0 s" "s gid = Some ms" "truncate_state i ms = Err e" "gid \<notin> removed"
  shows "mem_truncate (snd (may_add_group s0 gid)) gid i = Err e" "mem_truncate s gid i = Err e"
proof -
  have "snd (may_add_group s0 gid) gid = Some ms"
    using assms(1)[unfolded recovers_def, rule_format, OF assms(4)] assms(2)
    by (auto simp: may_add_group_def split: option.splits)
  then show "mem_truncate (snd (may_add_group s0 gid)) gid i = Err e" "mem_truncate s gid i = Err e"
    using assms(2,3) by (simp_all add: mem_truncate_def with_state_mut_Some)
qed

text \<open>C25. A truncation outside the window of a group that was not removed is refused, but it has been logged
  by then: from there on the store cannot be opened again, since replaying the logged truncation is refused as well.\<close>

theorem refused_truncate_poisons_log:
  assumes "lz4_frames compress decompress" "\<forall>bs. crc32 bs < 2 ^ 32"
    and "store_run compress decompress crc32 removed st" "rs_states st gid = Some ms"
    and "i < first_index ms \<or> first_index ms + length (indices ms) \<le> i" "i < 2 ^ 64" "gid < 2 ^ 64"
    and "gid \<notin> removed"
  shows "\<exists>e st'. store_truncate gid i st = (Err e, st') \<and>
    (\<forall>names capacity. distinct names \<and> set names = dom (log_dir (rs_log st')) \<and>
       first_log_file_id (rs_log st') + length (frozen_files (rs_log st')) + 1 < 2 ^ 64 \<longrightarrow>
       store_open (log_dir (rs_log st')) names capacity = Err e)"
proof -
  obtain hist where inv: "store_inv compress crc32 removed hist st"
    using store_run_inv[OF assms(1) _ assms(3)] assms(2) by blast
  then have "wf_state ms" using assms(4) by (auto simp: store_inv_def wf_states_def)
  then obtain e where e: "truncate_state i ms = Err e"
    using assms(5) by (auto simp: truncate_state_def next_index_wf)
  define ent where "ent = Truncate \<lparr>truncate_group = gid, truncate_index = i\<rparr>"
  have "log_run (rs_log st) hist" "log_queue (rs_log st) = []" using inv by (auto simp: store_inv_def)
  from log_append_run[OF this, of "[ent]"] obtain lg' hs where lg':
    "log_append (rs_log st) [ent] = Ok (lg', hs)" "log_run lg' (hist @ zip hs [ent])" "length hs = 1"
    using assms(6,7) by (auto simp: ent_def)
  obtain s0 where s0: "rfold replay_item hist Map.empty = Ok s0" "recovers removed s0 (rs_states st)"
    using inv by (auto simp: store_inv_def)
  note err = recovers_truncate_Err[OF s0(2) assms(4) e assms(8)]
  have "store_truncate gid i st = (Err e, st\<lparr>rs_log := lg'\<rparr>)"
    using lg'(1) err(2) by (simp add: store_truncate_def with_log_append_def lift_states_def ent_def)
  moreover have "rfold replay_item (hist @ zip hs [ent]) Map.empty = Err e"
    using s0(1) err(1) lg'(3) by (cases hs) (simp_all add: rfold_append ent_def)
  then have "store_open (log_dir lg') names capacity = Err e"
    if "distinct names" "set names = dom (log_dir lg')"
      "first_log_file_id lg' + length (frozen_files lg') + 1 < 2 ^ 64" for names capacity
    using log_reopen[OF lg'(2) that, of capacity] by (auto simp: store_open_def)
  ultimately show ?thesis by auto
qed

section \<open>A small store\<close>

definition example_store :: raft_log_store where
  "example_store =
     \<lparr>rs_log = \<lparr>log_dir = [filename 1 \<mapsto> []], log_file_capacity = 10, first_log_file_id = 1,
        frozen_files = [], active_file = filename 1, active_file_len = 0, log_queue = []\<rparr>,
      rs_states = [1 \<mapsto> new_mem_state], rs_cache = Map.empty\<rparr>"

definition example_batch :: raft_log_batch where
  "example_batch = encode_data stored_compress (\<lambda>_. 7)
     (default_raft_log_batch\<lparr>rb_group := 1, rb_term := 3, rb_first_index := 1, rb_offsets := [0, 2, 3],
        rb_ctxs := [[1], []], rb_raw := [5, 6, 9]\<rparr>)"

lemma example_store_run: "store_run stored_compress stored_decompress (\<lambda>_. 7) {} example_store"
proof -
  have "store_run stored_compress stored_decompress (\<lambda>_. 7) {} (example_store\<lparr>rs_states := Map.empty\<rparr>)"
    by (rule st_create[of 10])
      (simp add: store_open_def log_open_def new_active_file_def Let_def log_replay_def example_store_def)
  then show ?thesis
    by (rule st_add[where gid = 1]) (simp add: store_add_group_def lift_states_def add_group_def example_store_def)
qed

lemma example_batch_built: "built_batch stored_compress (\<lambda>_. 7) example_batch"
  by (simp add: built_batch_def wf_batch_def example_batch_def encode_data_def data_segment_def
      compression_encode_def stored_compress_def default_raft_log_batch_def Let_def)

theorem store_append_then_entries_witness:
  "\<exists>st' st''. store_append [example_batch] example_store = (Ok (), st') \<and>
     store_entries stored_decompress (\<lambda>_. 7) (cache_evict UNIV st') 1 1 2 =
       Ok ([\<lparr>se_group = 1, se_term = 3, se_index = 1, se_ctx = [1], se_data = [5, 6]\<rparr>,
            \<lparr>se_group = 1, se_term = 3, se_index = 2, se_ctx = [], se_data = [9]\<rparr>], st'')"
proof -
  have b: "rb_group example_batch = 1" "rb_first_index example_batch = 1" "length (rb_offsets example_batch) = 3"
    "map store_entry_of (batch_items example_batch) =
       [\<lparr>se_group = 1, se_term = 3, se_index = 1, se_ctx = [1], se_data = [5, 6]\<rparr>,
        \<lparr>se_group = 1, se_term = 3, se_index = 2, se_ctx = [], se_data = [9]\<rparr>]"
    by (simp_all add: example_batch_def encode_data_def default_raft_log_batch_def Let_def batch_items_def
        upt_rec)
  then show ?thesis
    using store_append_then_entries[OF lz4_frames_stored _ example_store_run example_batch_built,
        of new_mem_state UNIV]
    by (simp add: example_store_def new_mem_state_def)
qed

lemma example_log_append:
  "\<exists>lg hs. log_append (rs_log example_store) [Kv (Put 1 [7] [8])] = Ok (lg, hs) \<and>
     dom (log_dir lg) = {filename 1, filename 2} \<and> first_log_file_id lg = 1 \<and> length (frozen_files lg) = 1"
  by (simp add: example_store_def log_append_def log_enqueue_def log_lead_def index_def
      put_length_prefixed_slice_def new_active_file_def write_all_def filename_inject insert_commute Let_def numeral_2_eq_2)

lemma example_put:
  "\<exists>st. store_put 1 [7] [8] example_store = (Ok (), st) \<and>
     dom (log_dir (rs_log st)) = {filename 1, filename 2} \<and> first_log_file_id (rs_log st) = 1 \<and>
     length (frozen_files (rs_log st)) = 1 \<and> rs_states st = [1 \<mapsto> new_mem_state\<lparr>kvs := [[7] \<mapsto> [8]]\<rparr>]"
  using example_log_append
  by (auto simp: store_put_def with_log_append_def lift_states_def mem_put_def with_state_mut_Some
      example_store_def new_mem_state_def)

theorem store_reopen_recovers_witness:
  "\<exists>st st'. store_run stored_compress stored_decompress (\<lambda>_. 7) {2} st \<and>
    rs_states st 1 = Some (new_mem_state\<lparr>kvs := [[7] \<mapsto> [8]]\<rparr>) \<and>
    store_open (log_dir (rs_log st)) [filename 1, filename 2] 10 = Ok st' \<and> rs_states st' 1 = rs_states st 1"
proof -
  let ?run = "store_run stored_compress stored_decompress (\<lambda>_. 7)"
  obtain st where st: "store_put 1 [7] [8] example_store = (Ok (), st)"
    "dom (log_dir (rs_log st)) = {filename 1, filename 2}" "first_log_file_id (rs_log st) = 1"
    "length (frozen_files (rs_log st)) = 1" "rs_states st = [1 \<mapsto> new_mem_state\<lparr>kvs := [[7] \<mapsto> [8]]\<rparr>]"
    using example_put by blast
  define st1 where "st1 = st\<lparr>rs_states := (rs_states st)(2 \<mapsto> new_mem_state)\<rparr>"
  define st2 where "st2 = st\<lparr>rs_states := (rs_states st)(2 \<mapsto> new_mem_state\<lparr>first_index := u64_max\<rparr>)\<rparr>"
  have "?run {} st" by (rule st_put[OF example_store_run _ _ _ _ st(1)]) simp_all
  then have "?run {} st1"
    by (rule st_add[where gid = 2]) (simp add: store_add_group_def lift_states_def add_group_def st(5) st1_def)
  then have run: "?run {2} st2"
    by (rule st_remove[where gid = 2])
      (simp add: store_remove_group_def lift_states_def remove_group_def st1_def st2_def new_mem_state_def)
  from store_reopen_recovers[OF lz4_frames_stored _ run, of "[filename 1, filename 2]" 10]
  obtain st' where "store_open (log_dir (rs_log st2)) [filename 1, filename 2] 10 = Ok st'"
    "rs_states st' 1 = rs_states st2 1 \<or> rs_states st' 1 = None \<and> rs_states st2 1 = Some new_mem_state"
    using st(2-4) by (auto simp: st2_def filename_inject)
  moreover have "rs_states st2 1 = Some (new_mem_state\<lparr>kvs := [[7] \<mapsto> [8]]\<rparr>)" using st(5) by (simp add: st2_def)
  moreover from this have "rs_states st2 1 \<noteq> Some new_mem_state" by (simp add: new_mem_state_def)
  ultimately show ?thesis using run by auto
qed

theorem store_entries_cache_transparent_witness:
  "\<exists>st eis es. store_run stored_compress stored_decompress (\<lambda>_. 7) {} st \<and>
     mem_entries (rs_states st) 1 1 2 = Ok eis \<and> length eis = 2 \<and> length es = 2 \<and>
     (\<forall>dropped. \<exists>st'. store_entries stored_decompress (\<lambda>_. 7) (cache_evict dropped st) 1 1 2 = Ok (es, st'))"
proof -
  obtain hist where inv: "store_inv stored_compress (\<lambda>_. 7) {} hist example_store"
    using store_run_inv[OF lz4_frames_stored _ example_store_run] by auto
  have b: "rb_group example_batch = 1" "rb_first_index example_batch = 1" "length (rb_offsets example_batch) = 3"
    by (simp_all add: example_batch_def encode_data_def default_raft_log_batch_def Let_def)
  have ms: "rs_states example_store 1 = Some new_mem_state" "first_index new_mem_state = 1"
    "indices new_mem_state = []" by (simp_all add: example_store_def new_mem_state_def)
  obtain st h where st: "store_append [example_batch] example_store = (Ok (), st)"
    "rs_states st 1 = Some (new_mem_state\<lparr>indices := placed_indices h example_batch\<rparr>)"
    using store_append_single[OF inv example_batch_built, of new_mem_state] ms b by auto
  have run: "store_run stored_compress stored_decompress (\<lambda>_. 7) {} st"
    by (rule st_append[OF example_store_run _ st(1)]) (use example_batch_built b in simp)
  have len: "length (placed_indices h example_batch) = 2" using b by (simp add: placed_indices_def)
  have ent: "mem_entries (rs_states st) 1 1 2 = Ok (placed_indices h example_batch)"
    unfolding len[symmetric]
    by (rule mem_entries_tail[where old = "[]" and ms = "new_mem_state\<lparr>indices := placed_indices h example_batch\<rparr>"])
      (use len ms st(2) in \<open>auto simp: wf_state_def\<close>)
  from store_entries_cache_transparent[OF lz4_frames_stored _ run ent] len
  obtain es where "length es = 2" "\<forall>dropped. \<exists>st'. store_entries stored_decompress (\<lambda>_. 7)
      (cache_evict dropped st) 1 1 2 = Ok (es, st')" by auto
  with run ent len show ?thesis by blast
qed

theorem refused_truncate_poisons_log_witness:
  "\<exists>e st'. store_truncate 1 5 example_store = (Err e, st') \<and>
    (\<forall>names capacity. distinct names \<and> set names = dom (log_dir (rs_log st')) \<and>
       first_log_file_id (rs_log st') + length (frozen_files (rs_log st')) + 1 < 2 ^ 64 \<longrightarrow>
       store_open (log_dir (rs_log st')) names capacity = Err e)"
  by (rule refused_truncate_poisons_log[OF lz4_frames_stored _ example_store_run, of 1 new_mem_state])
    (simp_all add: example_store_def new_mem_state_def)

end
