(* ===== verification/Sync.thy ===== *)
theory Sync
  imports Prelude
begin

text \<open>
  \<open>common/src/sync.rs\<close>: the ticket lock, and the threads that run critical sections under it.

  A thread takes a ticket by one atomic addition and then compares it with the tail, one load per
  turn of its loop; \<open>acquire\<close> and \<open>async_acquire\<close> differ only in what they do between two loads. So
  the atomic actions of a thread are taking the ticket, one load, each step of the critical section
  and the release, and an execution is a schedule of such actions by any number of threads. Tickets
  are 64-bit words and wrap around. A critical section may end without releasing the lock: an
  early return of its caller does.
\<close>

section \<open>The lock\<close>

record ticket_lock =
  tl_head :: u64
  tl_tail :: u64

definition ticket_lock_default :: ticket_lock where
  "ticket_lock_default = \<lparr>tl_head = 0, tl_tail = 0\<rparr>"

definition ticket_take :: "ticket_lock \<Rightarrow> u64 \<times> ticket_lock" where
  "ticket_take l = (tl_head l, l\<lparr>tl_head := tl_head l + 1\<rparr>)"

definition ticket_poll :: "u64 \<Rightarrow> ticket_lock \<Rightarrow> bool" where
  "ticket_poll ticket l \<longleftrightarrow> ticket = tl_tail l"

definition ticket_release :: "ticket_lock \<Rightarrow> ticket_lock" where
  "ticket_release l = l\<lparr>tl_tail := tl_tail l + 1\<rparr>"

record ('k, 's) lock_ops =
  lk_take :: "'s \<Rightarrow> 'k \<times> 's"
  lk_poll :: "'k \<Rightarrow> 's \<Rightarrow> bool"
  lk_release :: "'s \<Rightarrow> 's"

definition ticket_lock_ops :: "(u64, ticket_lock) lock_ops" where
  "ticket_lock_ops = \<lparr>lk_take = ticket_take, lk_poll = ticket_poll, lk_release = ticket_release\<rparr>"

section \<open>Threads under a lock\<close>

datatype ('k, 'l) thread_pc = Outside | Waiting 'k 'l | Inside 'k 'l

text \<open>A step of a critical section goes on, ends it, or returns from it without a release.\<close>

datatype 'l section_step = Stay 'l | Leave | Abandon

record ('k, 's, 'l, 'g) lock_system =
  ls_lock :: 's
  ls_shared :: 'g
  ls_pc :: "nat \<Rightarrow> ('k, 'l) thread_pc"

type_synonym ('l, 'g) section_code = "'l \<Rightarrow> 'g \<Rightarrow> 'l section_step \<times> 'g"

fun lock_step ::
  "('k, 's) lock_ops \<Rightarrow> ('l, 'g) section_code \<Rightarrow> nat \<times> 'l \<Rightarrow> ('k, 's, 'l, 'g) lock_system \<Rightarrow> ('k, 's, 'l, 'g) lock_system" where
  "lock_step ops work (t, arg) s =
     (case ls_pc s t of
        Outside \<Rightarrow>
          let (k, lock) = lk_take ops (ls_lock s)
          in s\<lparr>ls_lock := lock, ls_pc := (ls_pc s)(t := Waiting k arg)\<rparr>
      | Waiting k l \<Rightarrow>
          if lk_poll ops k (ls_lock s) then s\<lparr>ls_pc := (ls_pc s)(t := Inside k l)\<rparr> else s
      | Inside k l \<Rightarrow>
          (case work l (ls_shared s) of
             (Stay l', g) \<Rightarrow> s\<lparr>ls_shared := g, ls_pc := (ls_pc s)(t := Inside k l')\<rparr>
           | (Leave, g) \<Rightarrow> s\<lparr>ls_lock := lk_release ops (ls_lock s), ls_shared := g, ls_pc := (ls_pc s)(t := Outside)\<rparr>
           | (Abandon, g) \<Rightarrow> s\<lparr>ls_shared := g, ls_pc := (ls_pc s)(t := Outside)\<rparr>))"

definition lock_system_new :: "'s \<Rightarrow> 'g \<Rightarrow> ('k, 's, 'l, 'g) lock_system" where
  "lock_system_new lock g = \<lparr>ls_lock = lock, ls_shared = g, ls_pc = (\<lambda>_. Outside)\<rparr>"

abbreviation lock_run where
  "lock_run ops work labels s \<equiv> fold (lock_step ops work) labels s"

text \<open>The threads in the order in which they take tickets, and in which they enter.\<close>

fun lock_took where
  "lock_took ops work [] s = []"
| "lock_took ops work ((t, arg) # labels) s =
     (if ls_pc s t = Outside then [t] else []) @ lock_took ops work labels (lock_step ops work (t, arg) s)"

fun lock_entered where
  "lock_entered ops work [] s = []"
| "lock_entered ops work ((t, arg) # labels) s =
     (case ls_pc s t of Waiting k l \<Rightarrow> if lk_poll ops k (ls_lock s) then [t] else [] | _ \<Rightarrow> []) @
     lock_entered ops work labels (lock_step ops work (t, arg) s)"

text \<open>An endless execution; a fair one runs every thread that is not outside again.\<close>

primrec lock_state ::
  "('k, 's) lock_ops \<Rightarrow> ('l, 'g) section_code \<Rightarrow> (nat \<Rightarrow> nat \<times> 'l) \<Rightarrow> ('k, 's, 'l, 'g) lock_system \<Rightarrow> nat \<Rightarrow> ('k, 's, 'l, 'g) lock_system" where
  "lock_state ops work sched s 0 = s"
| "lock_state ops work sched s (Suc n) = lock_step ops work (sched n) (lock_state ops work sched s n)"

definition fair_schedule ::
  "('k, 's) lock_ops \<Rightarrow> ('l, 'g) section_code \<Rightarrow> (nat \<Rightarrow> nat \<times> 'l) \<Rightarrow> ('k, 's, 'l, 'g) lock_system \<Rightarrow> bool" where
  "fair_schedule ops work sched s \<longleftrightarrow>
     (\<forall>n t. ls_pc (lock_state ops work sched s n) t \<noteq> Outside \<longrightarrow> (\<exists>m \<ge> n. fst (sched m) = t))"

text \<open>Sections that always end with a release.\<close>

definition section_ends :: "('l \<Rightarrow> nat) \<Rightarrow> ('l, 'g) section_code \<Rightarrow> bool" where
  "section_ends steps work \<longleftrightarrow>
     (\<forall>l g. case fst (work l g) of Stay l' \<Rightarrow> steps l' < steps l | Leave \<Rightarrow> True | Abandon \<Rightarrow> False)"

fun ticket_of :: "('k, 'l) thread_pc \<Rightarrow> 'k option" where
  "ticket_of Outside = None"
| "ticket_of (Waiting k l) = Some k"
| "ticket_of (Inside k l) = Some k"

lemma ticket_of_None [simp]: "ticket_of pc = None \<longleftrightarrow> pc = Outside"
  by (cases pc) auto

fun is_inside :: "('k, 'l) thread_pc \<Rightarrow> bool" where
  "is_inside (Inside k l) = True"
| "is_inside _ = False"

fun is_waiting :: "('k, 'l) thread_pc \<Rightarrow> bool" where
  "is_waiting (Waiting k l) = True"
| "is_waiting _ = False"

section \<open>First come, first served\<close>

text \<open>The contract of such a lock: the outstanding tickets form a queue; a ticket is called when it is
  the first; at most \<open>cap\<close> tickets can be outstanding.\<close>

locale fifo_lock =
  fixes ops :: "('k, 's) lock_ops" and rep :: "'s \<Rightarrow> 'k list \<Rightarrow> bool" and cap :: nat
  assumes take_rep: "rep s q \<Longrightarrow> length q < cap \<Longrightarrow> rep (snd (lk_take ops s)) (q @ [fst (lk_take ops s)])"
    and poll_rep: "rep s q \<Longrightarrow> k \<in> set q \<Longrightarrow> lk_poll ops k s \<longleftrightarrow> k = hd q"
    and release_rep: "rep s (k # q) \<Longrightarrow> rep (lk_release ops s) q"
    and rep_distinct: "rep s q \<Longrightarrow> distinct q"
begin

text \<open>The queue with the owners of the tickets. Only the first ticket can have lost its owner.\<close>

definition queued :: "nat set \<Rightarrow> ('k, 's, 'l, 'g) lock_system \<Rightarrow> ('k \<times> nat option) list \<Rightarrow> bool" where
  "queued T s q \<longleftrightarrow>
     rep (ls_lock s) (map fst q) \<and>
     (\<forall>k t. (k, Some t) \<in> set q \<longleftrightarrow> ticket_of (ls_pc s t) = Some k) \<and>
     (\<forall>t k l. ls_pc s t = Inside k l \<longrightarrow> (\<exists>q'. q = (k, Some t) # q')) \<and>
     (\<forall>x \<in> set (tl q). snd x \<noteq> None) \<and>
     {t. Some t \<in> snd ` set q} \<subseteq> T"

lemma queued_init: "rep lock [] \<Longrightarrow> queued T (lock_system_new lock g) []"
  by (simp add: queued_def lock_system_new_def)

lemma queued_insideD: "queued T s q \<Longrightarrow> ls_pc s t = Inside k l \<Longrightarrow> \<exists>q'. q = (k, Some t) # q'"
  unfolding queued_def by blast

lemma queued_memb: "queued T s q \<Longrightarrow> (k, Some t) \<in> set q \<longleftrightarrow> ticket_of (ls_pc s t) = Some k"
  unfolding queued_def by blast

lemma queued_owner_unique:
  assumes "queued T s q" "(k, Some t) \<in> set q" "(k', Some t) \<in> set q"
  shows "k = k'"
proof -
  have "ticket_of (ls_pc s t) = Some k" "ticket_of (ls_pc s t) = Some k'" using assms by (auto simp: queued_def)
  then show ?thesis by simp
qed

lemma owners_distinct:
  assumes "queued T s q"
  shows "distinct (map snd q)"
proof -
  have fst: "distinct (map fst q)" using assms rep_distinct by (auto simp: queued_def)
  have "i = j" if "i < length q" "j < length q" "snd (q ! i) = snd (q ! j)" "i < j" for i j
  proof -
    have "q ! j \<in> set (tl q)" using that by (cases q) (auto simp: nth_Cons')
    then obtain t where t: "snd (q ! j) = Some t" using assms by (fastforce simp: queued_def)
    have "(fst (q ! i), Some t) \<in> set q" "(fst (q ! j), Some t) \<in> set q"
      using that t by (metis nth_mem prod.collapse)+
    then have "fst (q ! i) = fst (q ! j)" by (rule queued_owner_unique[OF assms])
    then show ?thesis using fst that by (simp add: distinct_conv_nth)
  qed
  then show ?thesis by (force simp: distinct_conv_nth nat_neq_iff)
qed

lemma queue_fits:
  assumes "queued T s q" "finite T" "card T < cap" "t \<in> T" "ls_pc s t = Outside"
  shows "length q < cap"
proof -
  let ?O = "{t. Some t \<in> snd ` set q}"
  have "t \<notin> ?O" using assms(1,5) by (fastforce simp: queued_def)
  then have "?O \<subseteq> T - {t}" using assms(1) by (auto simp: queued_def)
  then have O: "card ?O < card T" using assms(2,4) by (meson card_Diff1_less card_mono finite_Diff le_less_trans)
  have "set (map snd q) \<subseteq> insert None (Some ` ?O)" 
  proof
    fix x assume x: "x \<in> set (map snd q)"
    show "x \<in> insert None (Some ` ?O)"
    proof (cases x)
      case (Some t)
      then show ?thesis using x by (simp add: image_image)
    qed simp
  qed
  moreover have fin: "finite ?O" using assms(1,2) finite_subset by (auto simp: queued_def)
  ultimately have "card (set (map snd q)) \<le> card (insert None (Some ` ?O))" by (intro card_mono) auto
  also have "\<dots> \<le> Suc (card ?O)" using fin by (simp add: card_insert_if card_image)
  finally have "card (set (map snd q)) \<le> Suc (card ?O)" .
  then show ?thesis using distinct_card[OF owners_distinct[OF assms(1)]] O assms(3) by simp
qed

text \<open>What a step does to the queue.\<close>

lemma queued_take:
  assumes q: "queued T s q" and T: "finite T" "card T < cap" "t \<in> T" and pc: "ls_pc s t = Outside"
  shows "\<exists>k. queued T (lock_step ops work (t, arg) s) (q @ [(k, Some t)]) \<and> ls_pc (lock_step ops work (t, arg) s) t = Waiting k arg"
proof -
  obtain k lock where k: "lk_take ops (ls_lock s) = (k, lock)" by (cases "lk_take ops (ls_lock s)") auto
  have rep: "rep (ls_lock s) (map fst q)" using q by (simp add: queued_def)
  have rep': "rep lock (map fst q @ [k])" using take_rep[OF rep] queue_fits[OF q T pc] k by simp
  have no: "(k', Some t) \<notin> set q" for k' using q pc by (auto simp: queued_def)
  have "\<forall>x \<in> set (tl (q @ [(k, Some t)])). snd x \<noteq> None" using q by (cases q) (auto simp: queued_def)
  moreover have "\<exists>q'. q @ [(k, Some t)] = (k', Some t') # q'" if "ls_pc s t' = Inside k' l" for t' k' l
    using q that by (fastforce simp: queued_def)
  moreover have "(k', Some t') \<in> set (q @ [(k, Some t)]) \<longleftrightarrow> ticket_of (((ls_pc s)(t := Waiting k arg)) t') = Some k'" for k' t'
    using q no by (auto simp: queued_def)
  ultimately show ?thesis using q rep' pc k T(3)
    by (auto simp: queued_def intro!: exI[of _ k])
qed

lemma queued_enter:
  assumes q: "queued T s q" and pc: "ls_pc s t = Waiting k l"
  shows "lk_poll ops k (ls_lock s) \<longleftrightarrow> (\<exists>q'. q = (k, Some t) # q')"
proof -
  have kt: "(k, Some t) \<in> set q" and rep: "rep (ls_lock s) (map fst q)" using q pc by (auto simp: queued_def)
  then have "k \<in> set (map fst q)" by force
  then have "lk_poll ops k (ls_lock s) \<longleftrightarrow> k = hd (map fst q)" using poll_rep rep by blast
  also have "\<dots> \<longleftrightarrow> (\<exists>q'. q = (k, Some t) # q')"
    using kt rep_distinct[OF rep] by (cases q) (auto simp: image_iff)
  finally show ?thesis .
qed

lemma queued_inside:
  assumes q: "queued T s ((k, Some t) # q)" and pc: "ticket_of (ls_pc s t) = Some k"
  shows "queued T (s\<lparr>ls_shared := g, ls_pc := (ls_pc s)(t := Inside k l)\<rparr>) ((k, Some t) # q)"
    "queued T (s\<lparr>ls_pc := (ls_pc s)(t := Inside k l)\<rparr>) ((k, Some t) # q)"
  using q pc by (auto simp: queued_def)

lemma queued_leave:
  assumes q: "queued T s ((k, Some t) # q)"
  shows "queued T (s\<lparr>ls_lock := lk_release ops (ls_lock s), ls_shared := g, ls_pc := (ls_pc s)(t := Outside)\<rparr>) q"
proof -
  have d: "distinct (map snd ((k, Some t) # q))" by (rule owners_distinct[OF q])
  have "rep (lk_release ops (ls_lock s)) (map fst q)"
    by (rule release_rep[of _ k]) (use q in \<open>simp add: queued_def\<close>)
  moreover have no: "(k', Some t) \<notin> set q" for k' using d by force
  moreover have "ls_pc s t' \<noteq> Inside k' l" if "t' \<noteq> t" for t' k' l using queued_insideD[OF q] that by blast
  moreover have "(k', Some t') \<in> set q \<longleftrightarrow> ticket_of (((ls_pc s)(t := Outside)) t') = Some k'" for k' t'
    using queued_memb[OF q, of k' t'] no by (cases "t' = t") auto
  moreover have "\<forall>x \<in> set (tl q). snd x \<noteq> None" using q by (cases q) (auto simp: queued_def)
  ultimately show ?thesis using q by (auto simp: queued_def)
qed

lemma queued_abandon:
  assumes q: "queued T s ((k, Some t) # q)"
  shows "queued T (s\<lparr>ls_shared := g, ls_pc := (ls_pc s)(t := Outside)\<rparr>) ((k, None) # q)"
proof -
  have d: "distinct (map snd ((k, Some t) # q))" by (rule owners_distinct[OF q])
  have no: "(k', Some t) \<notin> set q" for k' using d by force
  moreover have "ls_pc s t' \<noteq> Inside k' l" if "t' \<noteq> t" for t' k' l using queued_insideD[OF q] that by blast
  moreover have "(k', Some t') \<in> set q \<longleftrightarrow> ticket_of (((ls_pc s)(t := Outside)) t') = Some k'" for k' t'
    using queued_memb[OF q, of k' t'] no by (cases "t' = t") auto
  ultimately show ?thesis using q by (auto simp: queued_def)
qed

text \<open>The five kinds of steps.\<close>

lemma lock_step_cases:
  assumes q: "queued T s q" and T: "finite T" "card T < cap" "t \<in> T" and s': "s' = lock_step ops work (t, arg) s"
  obtains (take) k where "ls_pc s t = Outside" "queued T s' (q @ [(k, Some t)])" "ls_pc s' = (ls_pc s)(t := Waiting k arg)"
  | (spin) k l where "ls_pc s t = Waiting k l" "\<not> lk_poll ops k (ls_lock s)" "s' = s"
  | (enter) k l q' where "ls_pc s t = Waiting k l" "lk_poll ops k (ls_lock s)" "q = (k, Some t) # q'" "queued T s' q"
      "ls_pc s' = (ls_pc s)(t := Inside k l)"
  | (stay) k l l' q' where "ls_pc s t = Inside k l" "q = (k, Some t) # q'" "fst (work l (ls_shared s)) = Stay l'" "queued T s' q"
      "ls_pc s' = (ls_pc s)(t := Inside k l')"
  | (leave) k l q' where "ls_pc s t = Inside k l" "q = (k, Some t) # q'" "fst (work l (ls_shared s)) = Leave" "queued T s' q'"
      "ls_pc s' = (ls_pc s)(t := Outside)"
  | (abandon) k l q' where "ls_pc s t = Inside k l" "q = (k, Some t) # q'" "fst (work l (ls_shared s)) = Abandon"
      "queued T s' ((k, None) # q')" "ls_pc s' = (ls_pc s)(t := Outside)"
proof (cases "ls_pc s t")
  case Outside
  obtain k where k: "queued T s' (q @ [(k, Some t)])" "ls_pc s' t = Waiting k arg"
    using queued_take[OF q T Outside] s' by blast
  then show ?thesis using take[OF Outside k(1)] Outside by (auto simp: s' split: prod.splits)
next
  case (Waiting k l)
  show ?thesis
  proof (cases "lk_poll ops k (ls_lock s)")
    case True
    then obtain q' where "q = (k, Some t) # q'" using queued_enter[OF q Waiting] by blast
    moreover from this have "queued T s' q" using queued_inside(2)[of T s k t q' l] q Waiting True by (simp add: s')
    ultimately show ?thesis using enter[OF Waiting True] Waiting True by (simp add: s')
  next
    case False
    then show ?thesis using spin[OF Waiting False] Waiting by (simp add: s')
  qed
next
  case (Inside k l)
  then obtain q' where q': "q = (k, Some t) # q'" using queued_insideD[OF q] by blast
  obtain r g where w: "work l (ls_shared s) = (r, g)" by (cases "work l (ls_shared s)") auto
  show ?thesis
  proof (cases r)
    case (Stay l')
    then show ?thesis using stay[OF Inside q', of l'] queued_inside(1)[where g = g and l = l', of T s k t q'] q q' w Inside by (simp add: s')
  next
    case Leave
    then show ?thesis using leave[OF Inside q'] queued_leave[of T s k t q' g] q q' w Inside by (simp add: s')
  next
    case Abandon
    then show ?thesis using abandon[OF Inside q'] queued_abandon[of T s k t q' g] q q' w Inside by (simp add: s')
  qed
qed

lemma one_inside:
  assumes "queued T s q" "is_inside (ls_pc s t)" "is_inside (ls_pc s t')"
  shows "t = t'"
proof -
  obtain k l k' l' where "ls_pc s t = Inside k l" "ls_pc s t' = Inside k' l'"
    using assms(2,3) by (metis is_inside.elims(2))
  then have "\<exists>q'. q = (k, Some t) # q'" "\<exists>q'. q = (k', Some t') # q'" using queued_insideD[OF assms(1)] by blast+
  then show ?thesis by auto
qed

text \<open>Threads enter in the order of their tickets.\<close>

definition pending :: "('k, 's, 'l, 'g) lock_system \<Rightarrow> ('k \<times> nat option) list \<Rightarrow> nat list" where
  "pending s q = filter (\<lambda>t. is_waiting (ls_pc s t)) (List.map_filter snd q)"

lemma owner_listed: "t \<in> set (List.map_filter snd q) \<longleftrightarrow> Some t \<in> snd ` set q"
  by (induction q) (auto simp: List.map_filter_def split: option.splits)

lemma pending_cong:
  "(\<And>t. Some t \<in> snd ` set q \<Longrightarrow> is_waiting (ls_pc s' t) = is_waiting (ls_pc s t)) \<Longrightarrow> pending s' q = pending s q"
  unfolding pending_def by (rule filter_cong) (auto simp: owner_listed)

lemma pending_Cons:
  "pending s ((k, None) # q) = pending s q"
  "pending s ((k, Some t) # q) = (if is_waiting (ls_pc s t) then [t] else []) @ pending s q"
  by (simp_all add: pending_def List.map_filter_def)

lemma head_owner_once:
  assumes "queued T s ((k, Some t) # q)" "Some t' \<in> snd ` set q"
  shows "t' \<noteq> t"
  using owners_distinct[OF assms(1)] assms(2) by auto

lemma served_step:
  assumes q: "queued T s q" and T: "finite T" "card T < cap" "t \<in> T" and s': "s' = lock_step ops work (t, arg) s"
  shows "\<exists>q'. queued T s' q' \<and> pending s q @ (if ls_pc s t = Outside then [t] else []) =
    (case ls_pc s t of Waiting k l \<Rightarrow> if lk_poll ops k (ls_lock s) then [t] else [] | _ \<Rightarrow> []) @ pending s' q'"
  using q T s'
proof (cases rule: lock_step_cases)
  case (take k)
  have "Some t \<notin> snd ` set q" using queued_memb[OF q, of _ t] take(1) by auto
  then have "pending s' q = pending s q" by (intro pending_cong) (auto simp: take(3))
  then have "pending s' (q @ [(k, Some t)]) = pending s q @ [t]"
    by (simp add: pending_def List.map_filter_def take(3))
  then show ?thesis using take by auto
next
  case (enter k l q')
  have "pending s' q' = pending s q'"
    using head_owner_once[OF q[unfolded enter(3)]] by (intro pending_cong) (auto simp: enter(5))
  then show ?thesis using enter by (auto simp: pending_Cons)
next
  case (stay k l l' q')
  have "pending s' q = pending s q" by (intro pending_cong) (auto simp: stay(1,5))
  then show ?thesis using stay by auto
next
  case (leave k l q')
  have "pending s' q' = pending s q'"
    using head_owner_once[OF q[unfolded leave(2)]] by (intro pending_cong) (auto simp: leave(5))
  then show ?thesis using leave by (auto simp: pending_Cons)
next
  case (abandon k l q')
  have "pending s' q' = pending s q'"
    using head_owner_once[OF q[unfolded abandon(2)]] by (intro pending_cong) (auto simp: abandon(5))
  then show ?thesis using abandon by (auto simp: pending_Cons)
qed (use q in auto)

lemma served_in_order:
  assumes "finite T" "card T < cap" "fst ` set labels \<subseteq> T" "queued T s q"
  shows "\<exists>q'. queued T (lock_run ops work labels s) q' \<and>
    pending s q @ lock_took ops work labels s = lock_entered ops work labels s @ pending (lock_run ops work labels s) q'"
  using assms(3,4)
proof (induction labels arbitrary: s q)
  case (Cons lab labels)
  obtain t arg where lab: "lab = (t, arg)" by (cases lab)
  let ?s = "lock_step ops work (t, arg) s"
  obtain q1 where q1: "queued T ?s q1" "pending s q @ (if ls_pc s t = Outside then [t] else []) =
      (case ls_pc s t of Waiting k l \<Rightarrow> if lk_poll ops k (ls_lock s) then [t] else [] | _ \<Rightarrow> []) @ pending ?s q1"
    using served_step[OF Cons.prems(2) assms(1,2) _ refl] Cons.prems(1) lab by fastforce
  from Cons.IH[OF _ q1(1)] Cons.prems(1) obtain q2 where q2: "queued T (lock_run ops work labels ?s) q2"
    "pending ?s q1 @ lock_took ops work labels ?s = lock_entered ops work labels ?s @ pending (lock_run ops work labels ?s) q2"
    by auto
  have "pending s q @ lock_took ops work (lab # labels) s =
      (pending s q @ (if ls_pc s t = Outside then [t] else [])) @ lock_took ops work labels ?s" by (simp add: lab)
  also have "\<dots> = lock_entered ops work (lab # labels) s @ pending (lock_run ops work labels ?s) q2"
    unfolding q1(2) by (simp add: lab q2(2)[symmetric] del: lock_step.simps)
  finally show ?case using q2(1) by (auto simp: lab simp del: lock_step.simps)
qed auto

text \<open>Once a section has been left without a release, no thread enters again.\<close>

lemma blocked:
  assumes "finite T" "card T < cap" "fst ` set labels \<subseteq> T" "queued T s ((k, None) # q)"
  shows "lock_entered ops work labels s = []"
  using assms(3,4)
proof (induction labels arbitrary: s q)
  case (Cons lab labels)
  obtain t arg where lab: "lab = (t, arg)" by (cases lab)
  have "t \<in> T" using Cons.prems(1) lab by auto
  from Cons.prems(2) assms(1,2) this refl[of "lock_step ops work (t, arg) s"]
  show ?case
  proof (cases rule: lock_step_cases)
    case (take k')
    then show ?thesis using Cons.IH[of _ "q @ [(k', Some t)]"] Cons.prems(1) by (simp add: lab del: lock_step.simps)
  next
    case (spin k' l)
    then show ?thesis using Cons.IH[of s q] Cons.prems by (simp add: lab del: lock_step.simps)
  qed auto
qed simp

lemma abandon_blocks:
  assumes T: "finite T" "card T < cap" "fst ` set labels \<subseteq> T" "t \<in> T" and q: "queued T s q"
    and pc: "ls_pc s t = Inside k l" "fst (work l (ls_shared s)) = Abandon"
  shows "lock_entered ops work labels (lock_step ops work (t, arg) s) = []"
  using q T(1,2,4) refl[of "lock_step ops work (t, arg) s"]
proof (cases rule: lock_step_cases)
  case (abandon k' l' q')
  then show ?thesis using blocked[OF T(1-3)] by blast
qed (use pc in auto)

end

section \<open>Monitors\<close>

text \<open>Sections that keep an invariant: \<open>P\<close> holds of the shared state while no thread is inside, \<open>Q\<close> relates
  it to the thread that is, and \<open>R\<close> is what remains for ever, also when a section was left without a
  release. \<open>A\<close> is what is known of the arguments of the sections.\<close>

locale fifo_monitor = fifo_lock ops rep cap
  for ops :: "('k, 's) lock_ops" and rep cap +
  fixes work :: "('l, 'g) section_code" and A :: "'l \<Rightarrow> bool" and P :: "'g \<Rightarrow> bool" and Q :: "'l \<Rightarrow> 'g \<Rightarrow> bool" and R :: "'g \<Rightarrow> bool"
  assumes enter_inv: "P g \<Longrightarrow> A l \<Longrightarrow> Q l g"
    and stay_inv: "Q l g \<Longrightarrow> work l g = (Stay l', g') \<Longrightarrow> Q l' g'"
    and leave_inv: "Q l g \<Longrightarrow> work l g = (Leave, g') \<Longrightarrow> P g'"
    and abandon_inv: "Q l g \<Longrightarrow> work l g = (Abandon, g') \<Longrightarrow> R g'"
    and outside_inv: "P g \<Longrightarrow> R g" and inside_inv: "Q l g \<Longrightarrow> R g"
begin

definition monitored :: "nat set \<Rightarrow> ('k, 's, 'l, 'g) lock_system \<Rightarrow> ('k \<times> nat option) list \<Rightarrow> bool" where
  "monitored T s q \<longleftrightarrow> queued T s q \<and> (\<forall>t k l. ls_pc s t = Waiting k l \<longrightarrow> A l) \<and>
     (if q \<noteq> [] \<and> snd (hd q) = None then R (ls_shared s)
      else (\<forall>t k l. ls_pc s t = Inside k l \<longrightarrow> Q l (ls_shared s)) \<and> ((\<forall>t. \<not> is_inside (ls_pc s t)) \<longrightarrow> P (ls_shared s)))"

lemma monitored_init: "rep lock [] \<Longrightarrow> P g \<Longrightarrow> monitored T (lock_system_new lock g) []"
  using queued_init by (simp add: monitored_def lock_system_new_def)

lemma monitored_inv: "monitored T s q \<Longrightarrow> R (ls_shared s)"
  unfolding monitored_def by (metis is_inside.elims(2) inside_inv outside_inv)

lemma monitored_insideI:
  assumes q: "queued T s ((k, Some t) # q)" and pc: "ls_pc s t = Inside k l" "Q l (ls_shared s)"
    and A: "\<And>t k l. ls_pc s t = Waiting k l \<Longrightarrow> A l"
  shows "monitored T s ((k, Some t) # q)"
proof -
  have "t' = t" if "ls_pc s t' = Inside k' l'" for t' k' l' using queued_insideD[OF q that] by simp
  then have "\<forall>t k l. ls_pc s t = Inside k l \<longrightarrow> Q l (ls_shared s)" using pc by fastforce
  moreover have "is_inside (ls_pc s t)" using pc by simp
  ultimately show ?thesis using q A unfolding monitored_def by auto
qed

lemma monitored_step:
  assumes I: "monitored T s q" and T: "finite T" "card T < cap" "t \<in> T" and arg: "A arg"
  shows "\<exists>q'. monitored T (lock_step ops work (t, arg) s) q'"
proof -
  let ?s = "lock_step ops work (t, arg) s"
  have q: "queued T s q" using I by (simp add: monitored_def)
  have only: "t' = t" if "is_inside (ls_pc s t)" "ls_pc s t' = Inside k l" for t' k l
    using one_inside[OF q that(1), of t'] that(2) by simp
  from q T refl[of ?s] show ?thesis
  proof (cases rule: lock_step_cases)
    case (take k)
    have "ls_shared ?s = ls_shared s" using take(1) by (auto split: prod.splits)
    moreover have "is_inside (ls_pc ?s t') \<longleftrightarrow> is_inside (ls_pc s t')" "ls_pc ?s t' = Inside k' l \<longleftrightarrow> ls_pc s t' = Inside k' l" for t' k' l
      using take(1,3) by (auto simp del: lock_step.simps)
    moreover have "q @ [(k, Some t)] \<noteq> [] \<and> snd (hd (q @ [(k, Some t)])) = None \<longleftrightarrow> q \<noteq> [] \<and> snd (hd q) = None" by (cases q) auto
    moreover have "A l" if "ls_pc ?s t' = Waiting k' l" for t' k' l
      using that I take(3) arg by (cases "t' = t") (auto simp: monitored_def simp del: lock_step.simps)
    ultimately have "monitored T ?s (q @ [(k, Some t)])" using I take(2) unfolding monitored_def
      by (simp del: lock_step.simps)
    then show ?thesis by blast
  next
    case (enter k l q')
    have "ls_shared ?s = ls_shared s" using enter(1) by auto
    moreover have out: "ls_pc s t' \<noteq> Inside k' l'" for t' k' l'
    proof
      assume "ls_pc s t' = Inside k' l'"
      moreover from queued_insideD[OF q this] have "t' = t" using enter(3) by auto
      ultimately show False using enter(1) by simp
    qed
    then have "\<not> is_inside (ls_pc s t')" for t' by (cases "ls_pc s t'") auto
    then have "Q l (ls_shared s)" using I enter(1,3) enter_inv by (auto simp: monitored_def)
    ultimately have "Q l (ls_shared ?s)" by (simp del: lock_step.simps)
    moreover have "A l'" if "ls_pc ?s t' = Waiting k' l'" for t' k' l'
      using that I enter(5) by (auto simp: monitored_def simp del: lock_step.simps split: if_splits)
    ultimately have "monitored T ?s ((k, Some t) # q')"
      using enter(3,4,5) by (intro monitored_insideI) (simp_all del: lock_step.simps)
    then show ?thesis by blast
  next
    case (stay k l l' q')
    have Q: "Q l (ls_shared s)" using I stay(1,2) by (auto simp: monitored_def)
    have "work l (ls_shared s) = (Stay l', ls_shared ?s)" using stay(1,3) by (auto split: prod.splits)
    note stay_inv[OF Q this]
    moreover have "A l'" if "ls_pc ?s t' = Waiting k' l'" for t' k' l'
      using that I stay(5) by (auto simp: monitored_def simp del: lock_step.simps split: if_splits)
    ultimately have "monitored T ?s ((k, Some t) # q')"
      using stay(2,4,5) by (intro monitored_insideI) (simp_all del: lock_step.simps)
    then show ?thesis by blast
  next
    case (leave k l q')
    have Q: "Q l (ls_shared s)" using I leave(1,2) by (auto simp: monitored_def)
    have "work l (ls_shared s) = (Leave, ls_shared ?s)" using leave(1,3) by (auto split: prod.splits)
    note P = leave_inv[OF Q this]
    have out: "ls_pc ?s t' \<noteq> Inside k' l'" for t' k' l'
      using only[of t' k' l'] leave(1,5) by (cases "t' = t") (auto simp del: lock_step.simps)
    have "q' \<noteq> [] \<Longrightarrow> snd (hd q') \<noteq> None" using q leave(2) by (cases q') (auto simp: queued_def)
    moreover have "A l'" if "ls_pc ?s t' = Waiting k' l'" for t' k' l'
      using that I leave(5) by (auto simp: monitored_def simp del: lock_step.simps split: if_splits)
    moreover have "\<not> is_inside (ls_pc ?s t')" for t' using out[of t'] by (cases "ls_pc ?s t'") (auto simp del: lock_step.simps)
    ultimately have "monitored T ?s q'" using leave(4) P out unfolding monitored_def by (auto simp del: lock_step.simps)
    then show ?thesis by blast
  next
    case (abandon k l q')
    have Q: "Q l (ls_shared s)" using I abandon(1,2) by (auto simp: monitored_def)
    have "work l (ls_shared s) = (Abandon, ls_shared ?s)" using abandon(1,3) by (auto split: prod.splits)
    note abandon_inv[OF Q this]
    moreover have "A l'" if "ls_pc ?s t' = Waiting k' l'" for t' k' l'
      using that I abandon(5) by (auto simp: monitored_def simp del: lock_step.simps split: if_splits)
    ultimately have "monitored T ?s ((k, None) # q')" using abandon(4) unfolding monitored_def by (simp del: lock_step.simps)
    then show ?thesis by blast
  qed (use I in auto)
qed

lemma monitored_run:
  assumes "finite T" "card T < cap" "fst ` set labels \<subseteq> T" "\<forall>x \<in> snd ` set labels. A x" "monitored T s q"
  shows "\<exists>q. monitored T (lock_run ops work labels s) q"
  using assms(3-)
proof (induction labels arbitrary: s q)
  case (Cons lab labels)
  then show ?case using monitored_step[of T s q "fst lab" "snd lab"] assms(1,2) by (auto simp del: lock_step.simps)
qed auto

end

section \<open>Every waiting thread enters\<close>

context fifo_lock
begin

text \<open>While the owner of the first ticket does not run, it stays the first and its state stays.\<close>

lemma head_stays:
  assumes T: "finite T" "card T < cap" "\<forall>n. fst (sched n) \<in> T" and w: "section_ends steps work"
    and q: "queued T (lock_state ops work sched s n) ((k, Some h) # q)"
    and idle: "\<forall>i. n \<le> i \<and> i < m \<longrightarrow> fst (sched i) \<noteq> h" and "n \<le> m"
  shows "\<exists>r. queued T (lock_state ops work sched s m) ((k, Some h) # q @ r) \<and>
    ls_pc (lock_state ops work sched s m) h = ls_pc (lock_state ops work sched s n) h"
  using \<open>n \<le> m\<close> idle
proof (induction m rule: dec_induct)
  case base
  then show ?case using q by (auto intro: exI[of _ "[]"])
next
  case (step m)
  let ?s = "lock_state ops work sched s m"
  obtain r where r: "queued T ?s ((k, Some h) # q @ r)" "ls_pc ?s h = ls_pc (lock_state ops work sched s n) h"
    using step by auto
  obtain t arg where lab: "sched m = (t, arg)" by (cases "sched m")
  have t: "t \<in> T" "t \<noteq> h" using spec[OF T(3), of m] step.prems step.hyps(1) lab by auto
  from r(1) T(1,2) t(1) refl[of "lock_step ops work (t, arg) ?s"]
  show ?case
  proof (cases rule: lock_step_cases)
    case (take k')
    then show ?thesis using r(2) t(2) by (auto simp: lab simp del: lock_step.simps intro!: exI[of _ "r @ [(k', Some t)]"])
  next
    case (spin k' l)
    then show ?thesis using r by (auto simp: lab simp del: lock_step.simps)
  qed (use t(2) in auto)
qed

text \<open>So it runs at some time, with the state it had.\<close>

lemma head_runs:
  assumes T: "finite T" "card T < cap" "\<forall>n. fst (sched n) \<in> T" and w: "section_ends steps work"
    and fair: "fair_schedule ops work sched s"
    and q: "queued T (lock_state ops work sched s n) ((k, Some h) # q)"
  obtains m r arg where "n \<le> m" "sched m = (h, arg)" "queued T (lock_state ops work sched s m) ((k, Some h) # q @ r)"
    "ls_pc (lock_state ops work sched s m) h = ls_pc (lock_state ops work sched s n) h"
proof -
  have "ls_pc (lock_state ops work sched s n) h \<noteq> Outside" using queued_memb[OF q, of k h] by auto
  then have ex: "\<exists>m. n \<le> m \<and> fst (sched m) = h" using fair by (auto simp: fair_schedule_def)
  define m where "m = (LEAST m. n \<le> m \<and> fst (sched m) = h)"
  have m: "n \<le> m" "fst (sched m) = h" using LeastI_ex[OF ex] by (auto simp: m_def)
  have "\<forall>i. n \<le> i \<and> i < m \<longrightarrow> fst (sched i) \<noteq> h" using not_less_Least unfolding m_def by blast
  from head_stays[OF T w q this m(1)] m that show ?thesis by (metis prod.collapse)
qed

lemma head_leaves:
  assumes T: "finite T" "card T < cap" "\<forall>n. fst (sched n) \<in> T" and w: "section_ends steps work"
    and fair: "fair_schedule ops work sched s"
    and q: "queued T (lock_state ops work sched s n) ((k, Some h) # q)"
    and pc: "ls_pc (lock_state ops work sched s n) h = Inside k l"
  shows "\<exists>m \<ge> n. \<exists>r. queued T (lock_state ops work sched s m) (q @ r)"
  using q pc
proof (induction "steps l" arbitrary: n q l rule: less_induct)
  case less
  obtain m r arg where m: "n \<le> m" "sched m = (h, arg)" "queued T (lock_state ops work sched s m) ((k, Some h) # q @ r)"
    "ls_pc (lock_state ops work sched s m) h = Inside k l"
    using head_runs[OF T w fair less.prems(1)] less.prems(2) by metis
  let ?s = "lock_state ops work sched s m"
  have ends: "case fst (work l (ls_shared ?s)) of Stay l' \<Rightarrow> steps l' < steps l | Leave \<Rightarrow> True | Abandon \<Rightarrow> False"
    using w by (simp add: section_ends_def)
  have "h \<in> T" using spec[OF T(3), of m] m(2) by simp
  from m(3) T(1,2) this refl[of "lock_step ops work (h, arg) ?s"]
  show ?case
  proof (cases rule: lock_step_cases)
    case (stay k' l0 l' q')
    then have "steps l' < steps l" "queued T (lock_state ops work sched s (Suc m)) ((k, Some h) # q @ r)"
      "ls_pc (lock_state ops work sched s (Suc m)) h = Inside k l'"
      using ends m(2,4) by (auto simp del: lock_step.simps)
    from less.hyps[OF this] m(1) show ?thesis by (metis append.assoc le_SucI le_trans)
  next
    case (leave k' l0 q')
    then have "queued T (lock_state ops work sched s (Suc m)) (q @ r)" using m(2) by (auto simp del: lock_step.simps)
    then show ?thesis using m(1) by (meson le_SucI)
  qed (use m(4) ends in auto)
qed

lemma head_enters:
  assumes T: "finite T" "card T < cap" "\<forall>n. fst (sched n) \<in> T" and w: "section_ends steps work"
    and fair: "fair_schedule ops work sched s"
    and q: "queued T (lock_state ops work sched s n) ((k, Some h) # q)"
  shows "\<exists>m \<ge> n. \<exists>r l. queued T (lock_state ops work sched s m) ((k, Some h) # q @ r) \<and>
    ls_pc (lock_state ops work sched s m) h = Inside k l"
proof -
  have "ticket_of (ls_pc (lock_state ops work sched s n) h) = Some k" using queued_memb[OF q, of k h] by simp
  then consider l where "ls_pc (lock_state ops work sched s n) h = Inside k l" | l where "ls_pc (lock_state ops work sched s n) h = Waiting k l"
    by (cases "ls_pc (lock_state ops work sched s n) h") auto
  then show ?thesis
  proof cases
    case 1
    then show ?thesis using q by (metis append.right_neutral order_refl)
  next
    case (2 l)
    obtain m r arg where m: "n \<le> m" "sched m = (h, arg)" "queued T (lock_state ops work sched s m) ((k, Some h) # q @ r)"
      "ls_pc (lock_state ops work sched s m) h = Waiting k l"
      using head_runs[OF T w fair q] 2 by metis
    have "h \<in> T" using spec[OF T(3), of m] m(2) by simp
    from m(3) T(1,2) this refl[of "lock_step ops work (h, arg) (lock_state ops work sched s m)"]
    have "queued T (lock_state ops work sched s (Suc m)) ((k, Some h) # q @ r) \<and>
        ls_pc (lock_state ops work sched s (Suc m)) h = Inside k l"
    proof (cases rule: lock_step_cases)
      case (spin k' l')
      then show ?thesis using queued_enter[OF m(3,4)] m(4) by auto
    qed (use m(2,4) in \<open>auto simp del: lock_step.simps\<close>)
    then show ?thesis using m(1) by (meson le_SucI)
  qed
qed

lemma queued_state:
  assumes T: "finite T" "card T < cap" "\<forall>n. fst (sched n) \<in> T" and w: "section_ends steps work" and init: "rep lock []"
  shows "\<exists>q. queued T (lock_state ops work sched (lock_system_new lock g) n) q \<and> (\<forall>x \<in> set q. snd x \<noteq> None)"
proof (induction n)
  case 0
  show ?case using queued_init[OF init] by (auto intro!: exI[of _ "[]"])
next
  case (Suc n)
  let ?s = "lock_state ops work sched (lock_system_new lock g) n"
  obtain q where q: "queued T ?s q" "\<forall>x \<in> set q. snd x \<noteq> None" using Suc by blast
  obtain t arg where lab: "sched n = (t, arg)" by (cases "sched n")
  have "t \<in> T" using spec[OF T(3), of n] lab by simp
  from q(1) T(1,2) this refl[of "lock_step ops work (t, arg) ?s"]
  show ?case
  proof (cases rule: lock_step_cases)
    case (abandon k l q')
    then show ?thesis using w[unfolded section_ends_def, rule_format, of l "ls_shared ?s"] by simp
  next
    case (take k)
    then show ?thesis using q(2) by (intro exI[of _ "q @ [(k, Some t)]"]) (simp add: lab del: lock_step.simps)
  next
    case (leave k l q')
    then show ?thesis using q(2) by (intro exI[of _ q']) (simp add: lab del: lock_step.simps)
  qed (use q in \<open>auto simp: lab simp del: lock_step.simps intro!: exI[of _ q]\<close>)
qed

lemma waiting_enters:
  assumes T: "finite T" "card T < cap" "\<forall>n. fst (sched n) \<in> T" and w: "section_ends steps work"
    and fair: "fair_schedule ops work sched s"
    and q: "queued T (lock_state ops work sched s n) q" "\<forall>x \<in> set q. snd x \<noteq> None" "i < length q" "snd (q ! i) = Some t"
  shows "\<exists>m \<ge> n. is_inside (ls_pc (lock_state ops work sched s m) t)"
  using q
proof (induction i arbitrary: n q)
  case 0
  then obtain k q' where "q = (k, Some t) # q'" by (cases q) auto
  then show ?case using head_enters[OF T w fair, of n k t q'] 0 by (metis is_inside.simps(1))
next
  case (Suc i)
  then obtain k h q' where q': "q = (k, Some h) # q'" by (cases q) auto
  from head_enters[OF T w fair, of n k h q'] Suc.prems(1) q' obtain m r l where
    m: "n \<le> m" "queued T (lock_state ops work sched s m) ((k, Some h) # q' @ r)" "ls_pc (lock_state ops work sched s m) h = Inside k l"
    by auto
  from head_leaves[OF T w fair m(2,3)] obtain m2 r2 where
    m2: "m \<le> m2" "queued T (lock_state ops work sched s m2) ((q' @ r) @ r2)" by blast
  have "\<forall>x \<in> set ((q' @ r) @ r2). snd x \<noteq> None"
  proof (cases "q' @ r @ r2")
    case (Cons x xs)
    have "x \<in> set q'" using Cons Suc.prems(3) q' by (cases q') auto
    then show ?thesis using m2(2) Cons Suc.prems(2) q' by (auto simp: queued_def)
  qed simp
  from Suc.IH[OF m2(2) this] Suc.prems(3,4) q' m(1) m2(1) show ?case
    by (auto simp: nth_append) (meson le_trans)
qed

end

section \<open>The ticket lock serves in order\<close>

definition ticket_rep :: "ticket_lock \<Rightarrow> u64 list \<Rightarrow> bool" where
  "ticket_rep l q \<longleftrightarrow> length q \<le> 2 ^ 64 \<and> q = map (\<lambda>i. tl_tail l + of_nat i) [0..<length q] \<and>
     tl_head l = tl_tail l + of_nat (length q)"

lemma ticket_eq_iff: "i < 2 ^ 64 \<Longrightarrow> j < 2 ^ 64 \<Longrightarrow> (a::u64) + of_nat i = a + of_nat j \<longleftrightarrow> i = j"
  by (simp add: word_of_nat_eq_iff take_bit_nat_eq_self)

interpretation ticket: fifo_lock ticket_lock_ops ticket_rep "2 ^ 64"
proof
  fix l q assume r: "ticket_rep l q"
  then have len: "length q \<le> 2 ^ 64" by (simp add: ticket_rep_def)
  from r have eq: "q = map (\<lambda>i. tl_tail l + of_nat i) [0..<length q]" by (simp add: ticket_rep_def)
  have q: "q ! i = tl_tail l + of_nat i" if "i < length q" for i
    by (subst eq) (use that in simp)
  show "ticket_rep (snd (lk_take ticket_lock_ops l)) (q @ [fst (lk_take ticket_lock_ops l)])" if "length q < 2 ^ 64"
    using r that by (simp add: ticket_rep_def ticket_lock_ops_def ticket_take_def)
  show "lk_poll ticket_lock_ops k l \<longleftrightarrow> k = hd q" if "k \<in> set q" for k
    using that q[of 0] by (cases q) (auto simp: ticket_lock_ops_def ticket_poll_def)
  show "distinct q" using q len ticket_eq_iff[of _ _ "tl_tail l"] by (auto simp: distinct_conv_nth)
next
  fix l k q assume r: "ticket_rep l (k # q)"
  have "map (\<lambda>i. tl_tail l + of_nat i) [0..<Suc (length q)] = (tl_tail l) # map (\<lambda>i. tl_tail l + 1 + of_nat i) [0..<length q]"
    by (simp add: map_upt_Suc add.assoc del: upt_Suc)
  then show "ticket_rep (lk_release ticket_lock_ops l) q"
    using r by (simp add: ticket_rep_def ticket_lock_ops_def ticket_release_def del: upt_Suc)
qed

lemma ticket_rep_default: "ticket_rep ticket_lock_default []"
  by (simp add: ticket_rep_def ticket_lock_default_def)

abbreviation ticket_system :: "'g \<Rightarrow> (u64, ticket_lock, 'l, 'g) lock_system" where
  "ticket_system g \<equiv> lock_system_new ticket_lock_default g"

text \<open>C11. Under the ticket lock at most one thread is in its critical section, whatever the sections do and
  however the threads are scheduled, and the threads enter in the order in which they took their
  tickets. Tickets wrap around at 64 bits; it takes fewer than 2 ^ 64 threads.\<close>

theorem ticket_lock_fifo:
  assumes "finite T" "card T < 2 ^ 64" "fst ` set labels \<subseteq> T"
  shows "(\<forall>t t'. is_inside (ls_pc (lock_run ticket_lock_ops work labels (ticket_system g)) t) \<and>
        is_inside (ls_pc (lock_run ticket_lock_ops work labels (ticket_system g)) t') \<longrightarrow> t = t') \<and>
    (\<exists>waiting. lock_took ticket_lock_ops work labels (ticket_system g) =
       lock_entered ticket_lock_ops work labels (ticket_system g) @ waiting)"
proof -
  note ticket.queued_init[OF ticket_rep_default]
  from ticket.served_in_order[OF assms(1,2,3) this, of work g] obtain q where
    q: "ticket.queued T (lock_run ticket_lock_ops work labels (ticket_system g)) q"
    "lock_took ticket_lock_ops work labels (ticket_system g) =
       lock_entered ticket_lock_ops work labels (ticket_system g) @ ticket.pending (lock_run ticket_lock_ops work labels (ticket_system g)) q"
    by (auto simp: ticket.pending_def List.map_filter_def)
  then show ?thesis using ticket.one_inside[OF q(1)] by blast
qed

text \<open>Two threads, of which the second waits while the first is in its section.\<close>

theorem ticket_lock_fifo_witness:
  "let s = lock_run ticket_lock_ops (\<lambda>l g. (Leave, g + 1)) [(0, ()), (1, ()), (0, ()), (1, ())] (ticket_system (0::nat))
   in is_inside (ls_pc s 0) \<and> \<not> is_inside (ls_pc s 1) \<and> (\<forall>t. is_inside (ls_pc s t) \<longrightarrow> t = 0)"
proof -
  let ?s = "lock_run ticket_lock_ops (\<lambda>l g. (Leave, g + 1)) [(0, ()), (1, ()), (0, ()), (1, ())] (ticket_system (0::nat))"
  have "is_inside (ls_pc ?s 0)" "\<not> is_inside (ls_pc ?s 1)"
    by (simp_all add: ticket_lock_ops_def ticket_take_def ticket_poll_def lock_system_new_def ticket_lock_default_def)
  moreover have "\<forall>t t'. is_inside (ls_pc ?s t) \<and> is_inside (ls_pc ?s t') \<longrightarrow> t = t'"
    by (rule ticket_lock_fifo[where T = "{0, 1}", THEN conjunct1]) auto
  ultimately show ?thesis unfolding Let_def by blast
qed

text \<open>C12. Under the ticket lock every thread that waits enters its section, provided that the schedule is fair
  and the sections end with a release.\<close>

theorem ticket_lock_waiting_enters:
  assumes T: "finite T" "card T < 2 ^ 64" "\<forall>n. fst (sched n) \<in> T" and ends: "section_ends steps work"
    and fair: "fair_schedule ticket_lock_ops work sched (ticket_system g)"
    and wait: "is_waiting (ls_pc (lock_state ticket_lock_ops work sched (ticket_system g) n) t)"
  shows "\<exists>m \<ge> n. is_inside (ls_pc (lock_state ticket_lock_ops work sched (ticket_system g) m) t)"
proof -
  obtain q where q: "ticket.queued T (lock_state ticket_lock_ops work sched (ticket_system g) n) q" "\<forall>x \<in> set q. snd x \<noteq> None"
    using ticket.queued_state[OF T ends ticket_rep_default] by blast
  obtain k l where "ls_pc (lock_state ticket_lock_ops work sched (ticket_system g) n) t = Waiting k l"
    using wait by (metis is_waiting.elims(2))
  then have "(k, Some t) \<in> set q" using ticket.queued_memb[OF q(1)] by simp
  then obtain i where "i < length q" "q ! i = (k, Some t)" by (auto simp: in_set_conv_nth)
  then show ?thesis using ticket.waiting_enters[OF T ends fair q] by auto
qed

text \<open>Two threads in turn.\<close>

theorem ticket_lock_waiting_enters_witness:
  "\<exists>m \<ge> 2. is_inside (ls_pc (lock_state ticket_lock_ops (\<lambda>l g. (Leave, g + 1)) (\<lambda>n. (n mod 2, ())) (ticket_system (0::nat)) m) 1)"
proof (rule ticket_lock_waiting_enters[where T = "{0, 1}" and steps = "\<lambda>_. 0"])
  let ?work = "\<lambda>(l::unit) g::nat. (Leave, g + 1)" and ?sched = "\<lambda>n::nat. (n mod 2, ())"
  show ends: "section_ends (\<lambda>_. 0) ?work" by (simp add: section_ends_def)
  show T: "\<forall>n. fst (?sched n) \<in> {0, 1}" by auto
  show "fair_schedule ticket_lock_ops ?work ?sched (ticket_system 0)"
    unfolding fair_schedule_def
  proof (intro allI impI)
    fix n t
    assume out: "ls_pc (lock_state ticket_lock_ops ?work ?sched (ticket_system 0) n) t \<noteq> Outside"
    have "\<exists>q. ticket.queued {0, 1} (lock_state ticket_lock_ops ?work ?sched (ticket_system 0) n) q \<and> (\<forall>x \<in> set q. snd x \<noteq> None)"
      by (rule ticket.queued_state[OF _ _ T ends ticket_rep_default]) auto
    then obtain q where q: "ticket.queued {0, 1} (lock_state ticket_lock_ops ?work ?sched (ticket_system 0) n) q" by blast
    obtain k where "ticket_of (ls_pc (lock_state ticket_lock_ops ?work ?sched (ticket_system 0) n) t) = Some k"
      using out by fastforce
    then have "(k, Some t) \<in> set q" using ticket.queued_memb[OF q] by simp
    then have "t \<in> {0, 1}" using q by (force simp: ticket.queued_def)
    then show "\<exists>m \<ge> n. fst (?sched m) = t" by (intro exI[of _ "2 * n + t"]) auto
  qed
  show "is_waiting (ls_pc (lock_state ticket_lock_ops ?work ?sched (ticket_system 0) 2) 1)"
    by (simp add: numeral_2_eq_2 ticket_lock_ops_def ticket_take_def lock_system_new_def ticket_lock_default_def)
qed auto

end
