(* ===== verification/Calls.thy ===== *)
theory Calls
  imports Prelude
begin

text \<open>
  Fallible calls that change a state, for code that threads one state through many of them. A call
  returns its outcome and the state, which stays changed when the call fails.
\<close>

type_synonym ('s, 'a) call = "'s \<Rightarrow> 'a res \<times> 's"

definition cok :: "'a \<Rightarrow> ('s, 'a) call" where
  "cok a s = (Ok a, s)"

definition cres :: "'a res \<Rightarrow> ('s, 'a) call" where
  "cres r s = (r, s)"

definition cget :: "('s \<Rightarrow> 'a res) \<Rightarrow> ('s, 'a) call" where
  "cget f s = (f s, s)"

fun continue_with :: "'a res \<Rightarrow> ('a \<Rightarrow> 'b res \<times> 's) \<Rightarrow> 's \<Rightarrow> 'b res \<times> 's" where
  "continue_with (Ok a) f s = f a"
| "continue_with (Err e) f s = (Err e, s)"
| "continue_with Panic f s = (Panic, s)"
| "continue_with OutOfFuel f s = (OutOfFuel, s)"

definition cbind :: "('s, 'a) call \<Rightarrow> ('a \<Rightarrow> ('s, 'b) call) \<Rightarrow> ('s, 'b) call" where
  "cbind c f s = (let (r, s') = c s in continue_with r (\<lambda>a. f a s') s')"

fun cfold :: "('x \<Rightarrow> ('s, unit) call) \<Rightarrow> 'x list \<Rightarrow> ('s, unit) call" where
  "cfold f [] = cok ()"
| "cfold f (x # xs) = cbind (f x) (\<lambda>_. cfold f xs)"

fun cmap :: "('x \<Rightarrow> ('s, 'y) call) \<Rightarrow> 'x list \<Rightarrow> ('s, 'y list) call" where
  "cmap f [] = cok []"
| "cmap f (x # xs) = cbind (f x) (\<lambda>y. cbind (cmap f xs) (\<lambda>ys. cok (y # ys)))"

lemma cbind_Ok [simp]: "c s = (Ok a, s') \<Longrightarrow> cbind c f s = f a s'"
  by (simp add: cbind_def)

lemma cbind_failed [simp]:
  "c s = (Err e, s') \<Longrightarrow> cbind c f s = (Err e, s')"
  "c s = (Panic, s') \<Longrightarrow> cbind c f s = (Panic, s')"
  "c s = (OutOfFuel, s') \<Longrightarrow> cbind c f s = (OutOfFuel, s')"
  by (simp_all add: cbind_def)

lemma cok_eq [simp]: "cok a s = (Ok a, s)"
  by (simp add: cok_def)

lemma cres_eq [simp]: "cres r s = (r, s)"
  by (simp add: cres_def)

lemma cget_eq [simp]: "cget f s = (f s, s)"
  by (simp add: cget_def)

lemma cbind_eq_Ok [outcome_simps]:
  "cbind c f s = (Ok b, s'') \<longleftrightarrow> (\<exists>a s'. c s = (Ok a, s') \<and> f a s' = (Ok b, s''))"
  by (cases "c s"; cases "fst (c s)") (auto simp: cbind_def)

lemma cmap_length: "cmap f xs s = (Ok ys, s') \<Longrightarrow> length ys = length xs"
  by (induction xs arbitrary: s ys) (auto simp: outcome_simps)

lemma cfold_append: "cfold f (xs @ ys) s = cbind (cfold f xs) (\<lambda>_. cfold f ys) s"
proof (induction xs arbitrary: s)
  case (Cons x xs)
  then show ?case by (cases "f x s"; cases "fst (f x s)") (auto simp: cbind_def)
qed (simp add: cbind_def)

end
