(* ===== verification/RaftGroup.thy ===== *)
theory RaftGroup
  imports RaftStore
begin

text \<open>
  \<open>wheel/src/components/raft_log_store.rs\<close>: the log of one raft group, as the raft library sees it.

  The structures of the raft library that are only stored (its hard and its configuration state) are
  values of type variables; their encoding (the \<open>bincode\<close> crate) is a pair of parameters. Errors of
  the log store are passed on under \<open>Error::StorageError\<close>, which the model drops.
\<close>

section \<open>Entries\<close>

datatype entry_type = EntryNormal | EntryConfChange | EntryConfChangeV2

text \<open>An entry of the raft library keeps its type as an \<open>i32\<close>.\<close>

record raft_entry =
  re_type :: "32 word"
  re_term :: nat
  re_index :: nat
  re_data :: bytes
  re_context :: bytes

definition encode_entry_data :: "raft_entry \<Rightarrow> bytes" where
  "encode_entry_data e = le_bytes 4 (unat (re_type e)) @ re_data e"

definition entry_type_of :: "32 word \<Rightarrow> entry_type res" where
  "entry_type_of raw =
     (if raw = 0 then Ok EntryNormal else if raw = 1 then Ok EntryConfChange
      else if raw = 2 then Ok EntryConfChangeV2 else Panic)"

definition decode_entry_data :: "bytes \<Rightarrow> (32 word \<times> entry_type \<times> bytes) res" where
  "decode_entry_data buf =
     rbind (get_u32_le buf) (\<lambda>(n, buf).
       let raw = word_of_nat n in rbind (entry_type_of raw) (\<lambda>ty. Ok (raw, ty, buf)))"

definition raft_entry_of :: "store_entry \<Rightarrow> raft_entry res" where
  "raft_entry_of e =
     rbind (decode_entry_data (se_data e)) (\<lambda>(raw, _, data).
       Ok \<lparr>re_type = raw, re_term = se_term e, re_index = se_index e, re_data = data, re_context = se_ctx e\<rparr>)"

section \<open>The store of a group\<close>

definition raft_hard_state_key :: bytes where
  "raft_hard_state_key = map (\<lambda>c. word_of_nat (of_char c)) ''raft_hard_state''"

definition raft_conf_state_key :: bytes where
  "raft_conf_state_key = map (\<lambda>c. word_of_nat (of_char c)) ''raft_conf_state''"

definition rg_append :: "raft_log_batch list \<Rightarrow> unit store_call" where
  "rg_append batches = store_append batches"

definition rg_put :: "nat \<Rightarrow> bytes \<Rightarrow> bytes \<Rightarrow> unit store_call" where
  "rg_put gid key val = store_put gid key val"

definition rg_get :: "nat \<Rightarrow> bytes \<Rightarrow> raft_log_store \<Rightarrow> bytes option res" where
  "rg_get gid key st = store_get st gid key"

definition rg_delete :: "nat \<Rightarrow> bytes \<Rightarrow> unit store_call" where
  "rg_delete gid key = store_delete gid key"

text \<open>A value under a fixed key: stored through the encoder, read through the decoder.\<close>

definition rg_put_state :: "('v \<Rightarrow> bytes option) \<Rightarrow> bytes \<Rightarrow> nat \<Rightarrow> 'v \<Rightarrow> unit store_call" where
  "rg_put_state encode key gid v st =
     (case encode v of
        None \<Rightarrow> (Err (SerdeError ''serialize''), st)
      | Some buf \<Rightarrow> rg_put gid key buf st)"

definition rg_get_state :: "(bytes \<Rightarrow> 'v option) \<Rightarrow> bytes \<Rightarrow> nat \<Rightarrow> raft_log_store \<Rightarrow> 'v option res" where
  "rg_get_state decode key gid st =
     rbind (rg_get gid key st) (\<lambda>buf.
     case buf of
       None \<Rightarrow> Ok None
     | Some buf \<Rightarrow> rbind (ok_or (SerdeError ''deserialize'') (decode buf)) (\<lambda>v. Ok (Some v)))"

definition put_hard_state :: "('hs \<Rightarrow> bytes option) \<Rightarrow> nat \<Rightarrow> 'hs \<Rightarrow> unit store_call" where
  "put_hard_state encode gid hs = rg_put_state encode raft_hard_state_key gid hs"

definition get_hard_state :: "(bytes \<Rightarrow> 'hs option) \<Rightarrow> nat \<Rightarrow> raft_log_store \<Rightarrow> 'hs option res" where
  "get_hard_state decode gid st = rg_get_state decode raft_hard_state_key gid st"

definition put_conf_state :: "('cs \<Rightarrow> bytes option) \<Rightarrow> nat \<Rightarrow> 'cs \<Rightarrow> unit store_call" where
  "put_conf_state encode gid cs = rg_put_state encode raft_conf_state_key gid cs"

definition get_conf_state :: "(bytes \<Rightarrow> 'cs option) \<Rightarrow> nat \<Rightarrow> raft_log_store \<Rightarrow> 'cs option res" where
  "get_conf_state decode gid st = rg_get_state decode raft_conf_state_key gid st"

definition rg_entries ::
  "(bytes \<Rightarrow> bytes option) \<Rightarrow> (bytes \<Rightarrow> nat) \<Rightarrow> nat \<Rightarrow> nat \<Rightarrow> nat \<Rightarrow> raft_log_store \<Rightarrow> (raft_entry list \<times> raft_log_store) res" where
  "rg_entries decompress crc32 gid i max_len st =
     rbind (store_entries decompress crc32 st gid i max_len) (\<lambda>(raw, st).
     rbind (rmap_list raft_entry_of raw) (\<lambda>entries. Ok (entries, st)))"

section \<open>The storage interface of the raft library\<close>

definition storage_initial_state ::
  "(bytes \<Rightarrow> 'hs option) \<Rightarrow> (bytes \<Rightarrow> 'cs option) \<Rightarrow> 'hs \<Rightarrow> 'cs \<Rightarrow> nat \<Rightarrow> raft_log_store \<Rightarrow> ('hs \<times> 'cs) res" where
  "storage_initial_state decode_hs decode_cs default_hs default_cs gid st =
     rbind (get_hard_state decode_hs gid st) (\<lambda>hs.
     rbind (get_conf_state decode_cs gid st) (\<lambda>cs.
       Ok (case hs of Some hs \<Rightarrow> hs | None \<Rightarrow> default_hs, case cs of Some cs \<Rightarrow> cs | None \<Rightarrow> default_cs)))"

definition storage_entries ::
  "(bytes \<Rightarrow> bytes option) \<Rightarrow> (bytes \<Rightarrow> nat) \<Rightarrow> nat \<Rightarrow> nat \<Rightarrow> nat \<Rightarrow> nat option \<Rightarrow> raft_log_store \<Rightarrow>
     (raft_entry list \<times> raft_log_store) res" where
  "storage_entries decompress crc32 gid low high max_size st =
     (let high = (case max_size of None \<Rightarrow> high | Some n \<Rightarrow> min high (min (low + max n 1) u64_max))
      in rbind (sub_u64 high low) (\<lambda>max_len.
         rbind (store_may_entries decompress crc32 st gid low max_len False) (\<lambda>(raw, st).
         rbind (rmap_list raft_entry_of raw) (\<lambda>entries. Ok (entries, st)))))"

definition storage_first_index :: "nat \<Rightarrow> raft_log_store \<Rightarrow> nat res" where
  "storage_first_index gid st = store_masked_first_index st gid"

definition storage_last_index :: "nat \<Rightarrow> raft_log_store \<Rightarrow> nat res" where
  "storage_last_index gid st = store_masked_last_index st gid"

definition storage_term :: "nat \<Rightarrow> nat \<Rightarrow> raft_log_store \<Rightarrow> nat res" where
  "storage_term gid i st =
     rbind (store_term st gid i) (\<lambda>may_term.
     case may_term of
       Some t \<Rightarrow> Ok t
     | None \<Rightarrow>
         rbind (storage_first_index gid st) (\<lambda>first.
         if i < first then Err RaftStoreCompacted else Err RaftStoreUnavailable))"

section \<open>Entries are read as they were written\<close>

lemma encode_entry_round_trip:
  assumes "entry_type_of (re_type e) = Ok ty"
  shows "decode_entry_data (encode_entry_data e) = Ok (re_type e, ty, re_data e)"
proof -
  have "unat (re_type e) < 256 ^ 4" using unsigned_less[of "re_type e", where 'a = nat] by simp
  then show ?thesis using assms by (simp add: decode_entry_data_def encode_entry_data_def codec_simps)
qed

lemma raft_entry_round_trip_store:
  assumes "entry_type_of (re_type e) = Ok ty"
  shows "raft_entry_of \<lparr>se_group = gid, se_term = re_term e, se_index = re_index e, se_ctx = re_context e, se_data = encode_entry_data e\<rparr> = Ok e"
  using encode_entry_round_trip[OF assms] by (simp add: raft_entry_of_def)

text \<open>A state that was put is read back, and a key that was not put before is absent.\<close>

lemma store_put_get:
  assumes "store_put gid key val st = (Ok u, st')"
  shows "store_get st' gid' key' = (if gid' = gid \<and> key' = key then Ok (Some val) else store_get st gid' key')"
proof -
  obtain lg hs where "log_append (rs_log st) [Kv (Put gid key val)] = Ok (lg, hs)"
    "lift_states (\<lambda>states. mem_put states gid key val) (st\<lparr>rs_log := lg\<rparr>) = (Ok u, st')"
    using assms by (auto simp: store_put_def with_log_append_def split: result.splits prod.splits)
  then obtain ms where "rs_states st gid = Some ms" "rs_states st' = (rs_states st)(gid \<mapsto> ms\<lparr>kvs := (kvs ms)(key \<mapsto> val)\<rparr>)"
    by (auto simp: lift_states_def mem_put_def with_state_mut_Ok split: result.splits)
  then show ?thesis by (auto simp: store_get_def mem_get_def with_state_def)
qed

text \<open>A group that exists takes every put of a sensible size, and is still there afterwards.\<close>

lemma store_put_total:
  assumes "lz4_frames compress decompress" "\<forall>x. crc32 x < 2 ^ 32" "store_run compress decompress crc32 removed st" "rs_states st gid \<noteq> None"
    and "gid < 2 ^ 64" "gid \<notin> removed" "length key < 2 ^ 32" "length val < 2 ^ 32"
  shows "\<exists>st'. store_put gid key val st = (Ok (), st') \<and> store_run compress decompress crc32 removed st' \<and> rs_states st' gid \<noteq> None"
proof -
  obtain hist where "store_inv compress crc32 removed hist st" using store_run_inv[OF assms(1) _ assms(3)] assms(2) by blast
  then have "log_run (rs_log st) hist" "log_queue (rs_log st) = []" by (auto simp: store_inv_def)
  from log_append_run[OF this, of "[Kv (Put gid key val)]"] assms(5-) obtain lg hs where
    "log_append (rs_log st) [Kv (Put gid key val)] = Ok (lg, hs)" by auto
  then obtain st' where st': "store_put gid key val st = (Ok (), st')" "rs_states st' gid \<noteq> None"
    using assms(4) by (auto simp: store_put_def with_log_append_def lift_states_def mem_put_def with_state_mut_def with_state_def)
  then show ?thesis using st_put[OF assms(3,5,6,7,8) st'(1)] by blast
qed

text \<open>A put leaves the window of every group alone.\<close>

lemma holds_batch_put:
  assumes "holds_batch compress crc32 b st" "store_put gid key val st = (Ok (), st')"
    and "gid < 2 ^ 64" "length key < 2 ^ 32" "length val < 2 ^ 32"
  shows "holds_batch compress crc32 b st'"
proof -
  obtain hist h old ms where st: "stored compress crc32 hist h b" "log_run (rs_log st) hist" "log_queue (rs_log st) = []"
    "cache_ok compress crc32 hist (rs_cache st)" "rs_states st (rb_group b) = Some ms" "wf_state ms"
    "indices ms = old @ placed_indices h b" "rb_first_index b = first_index ms + length old"
    using assms(1) by (auto simp: holds_batch_def)
  from log_append_run[OF st(2,3), of "[Kv (Put gid key val)]"] assms(3-) obtain lg hs where lg:
    "log_append (rs_log st) [Kv (Put gid key val)] = Ok (lg, hs)" "log_run lg (hist @ zip hs [Kv (Put gid key val)])" "log_queue lg = []" by auto
  have "lift_states (\<lambda>states. mem_put states gid key val) (st\<lparr>rs_log := lg\<rparr>) = (Ok (), st')"
    using assms(2) lg(1) by (simp add: store_put_def with_log_append_def)
  then obtain ms1 where st': "rs_states st' = (rs_states st)(gid \<mapsto> ms1\<lparr>kvs := (kvs ms1)(key \<mapsto> val)\<rparr>)" "rs_states st gid = Some ms1"
    "rs_log st' = lg" "rs_cache st' = rs_cache st"
    by (auto simp: lift_states_def mem_put_def with_state_mut_Ok split: result.splits)
  obtain ms2 where "rs_states st' (rb_group b) = Some ms2" "wf_state ms2" "indices ms2 = indices ms" "first_index ms2 = first_index ms"
  proof (cases "gid = rb_group b")
    case True
    then have "rs_states st' (rb_group b) = Some (ms\<lparr>kvs := (kvs ms)(key \<mapsto> val)\<rparr>)" using st'(1,2) st(5) by simp
    then show ?thesis by (rule that) (use st(6) in \<open>simp_all add: wf_state_def\<close>)
  next
    case False
    then have "rs_states st' (rb_group b) = Some ms" using st'(1) st(5) by simp
    then show ?thesis by (rule that) (use st(6) in simp_all)
  qed
  then show ?thesis unfolding holds_batch_def
    using stored_mono[OF st(1)] cache_ok_mono[OF st(4)] lg(2,3) st'(3,4) st(7,8)
    by (intro exI[of _ "hist @ zip hs [Kv (Put gid key val)]"] exI[of _ h] exI[of _ old] exI[of _ ms2]) simp
qed

section \<open>Entries in one batch\<close>

text \<open>Entries of one term with consecutive indices from \<open>i\<close> on, of a size the log can hold.\<close>

definition storable :: "(bytes \<Rightarrow> bytes) \<Rightarrow> (bytes \<Rightarrow> nat) \<Rightarrow> nat \<Rightarrow> raft_entry list \<Rightarrow> bool" where
  "storable compress crc32 i es \<longleftrightarrow> es \<noteq> [] \<and> map re_index es = [i..<i + length es] \<and> i + length es + 1 < 2 ^ 64 \<and>
     (\<forall>e \<in> set es. re_term e = re_term (hd es) \<and> length (re_context e) < 2 ^ 32 \<and> (\<exists>ty. entry_type_of (re_type e) = Ok ty)) \<and>
     re_term (hd es) < 2 ^ 64 \<and> length (concat (map encode_entry_data es)) < 2 ^ 32 \<and>
     length (data_segment compress crc32 (concat (map encode_entry_data es))) < 2 ^ 64"

abbreviation add_log_entry :: "nat \<Rightarrow> raft_entry \<Rightarrow> raft_log_batch_builder \<Rightarrow> raft_log_batch_builder res" where
  "add_log_entry gid e \<equiv> builder_add gid (re_term e) (re_index e) (re_context e) (encode_entry_data e)"

lemma add_entries_open:
  assumes "es \<noteq> []" "map re_index es = [i..<i + length es]" "\<forall>e \<in> set es. re_term e = tm"
    and "i + length es < 2 ^ 64"
  shows "\<exists>cur. rfold (add_log_entry gid) es default_builder = Ok \<lparr>bb_current = cur, bb_batches = []\<rparr> \<and>
    open_batch cur (map encode_entry_data es) \<and> rb_group cur = gid \<and> rb_term cur = tm \<and> rb_first_index cur = i \<and>
    rb_ctxs cur = map re_context es"
  using assms
proof (induction es rule: rev_induct)
  case (snoc e es)
  have e: "re_index e = i + length es" "map re_index es = [i..<i + length es]" using snoc.prems(2) by auto
  show ?case
  proof (cases "es = []")
    case True
    then show ?thesis using e(1) snoc.prems(3)
      by (simp add: builder_add_def may_rotate_def default_builder_def Let_def default_raft_log_batch_def open_batch_def offset_at_def)
  next
    case False
    then obtain cur where cur: "rfold (add_log_entry gid) es default_builder = Ok \<lparr>bb_current = cur, bb_batches = []\<rparr>"
      "open_batch cur (map encode_entry_data es)" "rb_group cur = gid" "rb_term cur = tm" "rb_first_index cur = i" "rb_ctxs cur = map re_context es"
      using snoc.IH[OF False e(2)] snoc.prems(3,4) by (simp, blast)
    have len: "length (rb_offsets cur) = length es" using cur(2) by (simp add: open_batch_def)
    then have ne: "rb_offsets cur \<noteq> []" using False by auto
    define cur' where "cur' = cur\<lparr>rb_offsets := rb_offsets cur @ [length (rb_raw cur)], rb_ctxs := rb_ctxs cur @ [re_context e],
      rb_raw := rb_raw cur @ encode_entry_data e\<rparr>"
    have "add_log_entry gid e \<lparr>bb_current = cur, bb_batches = []\<rparr> = Ok \<lparr>bb_current = cur', bb_batches = []\<rparr>"
      using cur(3-5) ne len e(1) snoc.prems(3,4) by (simp add: builder_add_def may_rotate_def add_u64_def Let_def cur'_def)
    then show ?thesis using cur open_batch_push[OF cur(2), where c = "re_context e" and d = "encode_entry_data e"]
      by (intro exI[of _ cur']) (simp add: cur'_def rfold_append)
  qed
qed simp

lemma batch_of_entries:
  assumes "storable compress crc32 i es" "gid < 2 ^ 64"
  shows "\<exists>b. rbind (rfold (add_log_entry gid) es default_builder) (builder_build compress crc32) = Ok [b] \<and> built_batch compress crc32 b \<and>
    rb_group b = gid \<and> rb_first_index b = i \<and> length (rb_offsets b) = length es + 1 \<and>
    batch_items b = map (\<lambda>e. (gid, re_term e, re_index e, re_context e, encode_entry_data e)) es"
proof -
  have es: "es \<noteq> []" "map re_index es = [i..<i + length es]" "\<forall>e \<in> set es. re_term e = re_term (hd es)"
    and fit: "i + length es + 1 < 2 ^ 64" "\<forall>e \<in> set es. length (re_context e) < 2 ^ 32" "re_term (hd es) < 2 ^ 64"
      "length (concat (map encode_entry_data es)) < 2 ^ 32" "length (data_segment compress crc32 (concat (map encode_entry_data es))) < 2 ^ 64"
    using assms(1) unfolding storable_def by blast+
  let ?ds = "map encode_entry_data es"
  obtain cur where cur: "rfold (add_log_entry gid) es default_builder = Ok \<lparr>bb_current = cur, bb_batches = []\<rparr>"
    "open_batch cur ?ds" "rb_group cur = gid" "rb_term cur = re_term (hd es)" "rb_first_index cur = i" "rb_ctxs cur = map re_context es"
    using add_entries_open[OF es, of gid] fit(1) by auto
  define b where "b = encode_data compress crc32 (seal cur)"
  have off: "rb_offsets (seal cur) = map (offset_at ?ds) [0..<Suc (length es)]" using seal_offsets[OF cur(2)] by simp
  have le: "offset_at ?ds j \<le> length (concat ?ds)" for j
    unfolding offset_at_def using append_take_drop_id[of j ?ds] by (metis concat_append le_add1 length_append)
  have mono: "offset_at ?ds j \<le> offset_at ?ds k" if "j \<le> k" for j k
  proof -
    have "take k ?ds = take j ?ds @ take (k - j) (drop j ?ds)" using that by (metis le_add_diff_inverse take_add)
    then show ?thesis unfolding offset_at_def by simp
  qed
  have raw: "rb_raw (seal cur) = concat ?ds" using cur(2) by (simp add: seal_def open_batch_def)
  have ne: "rb_offsets cur \<noteq> []" using cur(2) es by (simp add: open_batch_def)
  have "i + length (rb_offsets cur) < 2 ^ 64" using cur(2) fit(1) by (simp add: open_batch_def)
  then have "rbind (rfold (add_log_entry gid) es default_builder) (builder_build compress crc32) = Ok [b]"
    using ne cur(5) by (simp add: builder_build_def cur(1) may_rotate_def add_u64_def b_def seal_def)
  moreover have "rb_group b = gid" "rb_first_index b = i" "length (rb_offsets b) = length es + 1"
    using cur(3,5) off by (simp_all add: b_def encode_data_def Let_def seal_def)
  moreover have "built_batch compress crc32 b"
  proof -
    have "sorted (map (offset_at ?ds) [0..<Suc (length es)])" by (simp add: sorted_iff_nth_mono mono del: upt_Suc)
    moreover have "last (map (offset_at ?ds) [0..<Suc (length es)]) = length (concat ?ds)" by (simp add: offset_at_def)
    moreover have "\<forall>j \<le> length es. offset_at ?ds j < 2 ^ 32" using le fit(4) order_le_less_trans by blast
    ultimately show ?thesis using assms(2) cur(3-6) es(1) fit off raw
      by (auto simp: built_batch_def wf_batch_def b_def encode_data_def Let_def seal_def Suc_le_eq simp del: upt_Suc)
  qed
  moreover have "batch_items b = map (\<lambda>e. (gid, re_term e, re_index e, re_context e, encode_entry_data e)) es"
  proof (rule nth_equalityI)
    fix j assume "j < length (batch_items b)"
    then have j: "j < length es" by (simp add: b_def batch_items_seal[OF cur(2)])
    then have "re_index (es ! j) = i + j" using arg_cong[OF es(2), of "\<lambda>xs. xs ! j"] by simp
    then show "batch_items b ! j = map (\<lambda>e. (gid, re_term e, re_index e, re_context e, encode_entry_data e)) es ! j"
      using j es(3) cur(3-6) by (simp add: b_def batch_items_seal[OF cur(2)])
  qed (simp add: b_def batch_items_seal[OF cur(2)])
  ultimately show ?thesis by blast
qed

text \<open>Appending such entries at the end of a group's window: they can be read back, and the group's keys
  stay.\<close>

lemma append_entries_holds:
  assumes "lz4_frames compress decompress" "\<forall>bs. crc32 bs < 2 ^ 32" "store_run compress decompress crc32 removed st"
    and "rs_states st gid = Some ms" "storable compress crc32 (first_index ms + length (indices ms)) es" "gid < 2 ^ 64" "gid \<notin> removed"
  shows "\<exists>b st'. rbind (rfold (add_log_entry gid) es default_builder) (builder_build compress crc32) = Ok [b] \<and>
    store_append [b] st = (Ok (), st') \<and>
    store_run compress decompress crc32 removed st' \<and> rs_states st' gid \<noteq> None \<and> (\<forall>key. store_get st' gid key = store_get st gid key) \<and>
    holds_batch compress crc32 b st' \<and> rb_group b = gid \<and> rb_first_index b = re_index (hd es) \<and> length (rb_offsets b) = length es + 1 \<and>
    batch_items b = map (\<lambda>e. (gid, re_term e, re_index e, re_context e, encode_entry_data e)) es"
proof -
  let ?i = "first_index ms + length (indices ms)"
  obtain b where b: "rbind (rfold (add_log_entry gid) es default_builder) (builder_build compress crc32) = Ok [b]" "built_batch compress crc32 b"
    "rb_group b = gid" "rb_first_index b = ?i" "length (rb_offsets b) = length es + 1"
    "batch_items b = map (\<lambda>e. (gid, re_term e, re_index e, re_context e, encode_entry_data e)) es"
    using batch_of_entries[OF assms(5,6)] by blast
  have es: "es \<noteq> []" "map re_index es = [?i..<?i + length es]" "?i + length es + 1 < 2 ^ 64" using assms(5) unfolding storable_def by blast+
  have hd: "re_index (hd es) = ?i" using arg_cong[OF es(2), of hd] es(1) by (simp add: hd_map)
  obtain st' ms' where st': "store_append [b] st = (Ok (), st')" "store_run compress decompress crc32 removed st'" "holds_batch compress crc32 b st'"
    "rs_states st' gid = Some ms'" "kvs ms' = kvs ms"
    using store_append_holds[OF assms(1-3) b(2), of ms] assms(4,7) b(3-5) es(3) by auto
  have "store_get st' gid key = store_get st gid key" for key
    using st'(4,5) assms(4) by (simp add: store_get_def mem_get_def with_state_def)
  then show ?thesis using b st' hd by (intro exI[of _ b] exI[of _ st']) simp
qed

lemma holds_entries_read:
  assumes "lz4_frames compress decompress" "\<forall>bs. crc32 bs < 2 ^ 32" "holds_batch compress crc32 b st"
    and "batch_items b = map (\<lambda>e. (gid, re_term e, re_index e, re_context e, encode_entry_data e)) es"
    and "rb_group b = gid" "rb_first_index b = i" "length (rb_offsets b) = length es + 1" "\<forall>e \<in> set es. \<exists>ty. entry_type_of (re_type e) = Ok ty"
  shows "\<exists>st'. rg_entries decompress crc32 gid i (length es) st = Ok (es, st')"
proof -
  obtain st' where "store_entries decompress crc32 st gid i (length es) = Ok (map store_entry_of (batch_items b), st')"
    using holds_batch_entries[OF assms(1-3)] assms(5-7) by auto
  moreover have "rmap_list raft_entry_of (map store_entry_of (batch_items b)) = Ok es" unfolding assms(4)
    using assms(8)
  proof (induction es)
    case (Cons e es)
    then obtain ty where "entry_type_of (re_type e) = Ok ty" by auto
    from raft_entry_round_trip_store[OF this, of gid] Cons show ?case by simp
  qed simp
  ultimately show ?thesis by (simp add: rg_entries_def)
qed

end
