(* ===== verification/Iter.thy ===== *)
theory Iter
  imports Coding
begin

text \<open>
  \<open>storage/src/lsm_tree/iterator/mod.rs\<close>: the trait all iterators of the LSM tree implement, as a
  record of its operations (the method table of a boxed iterator), and its contract as two locales.

  A \<open>kv_iterator\<close> is a cursor over a sorted list of entries that moves both ways. A
  \<open>forward_iterator\<close> promises less: it stands before the list of the entries still ahead. Every
  cursor is a forward iterator.
\<close>

datatype seek = First | Last | RandomForward bytes | RandomBackward bytes

record 'it iterator_ops =
  it_next :: "'it \<Rightarrow> 'it res"
  it_prev :: "'it \<Rightarrow> 'it res"
  it_key :: "'it \<Rightarrow> bytes res"
  it_value :: "'it \<Rightarrow> bytes res"
  it_is_valid :: "'it \<Rightarrow> bool res"
  it_seek :: "seek \<Rightarrow> 'it \<Rightarrow> (bool \<times> 'it) res"

section \<open>Sorted entries\<close>

type_synonym kvs = "(bytes \<times> bytes) list"

abbreviation key_at :: "kvs \<Rightarrow> nat \<Rightarrow> bytes" where
  "key_at es i \<equiv> fst (es ! i)"

abbreviation value_at :: "kvs \<Rightarrow> nat \<Rightarrow> bytes" where
  "value_at es i \<equiv> snd (es ! i)"

abbreviation key_less :: "bytes \<times> bytes \<Rightarrow> bytes \<times> bytes \<Rightarrow> bool" where
  "key_less a b \<equiv> key_ord (fst a) < key_ord (fst b)"

definition key_sorted :: "kvs \<Rightarrow> bool" where
  "key_sorted es \<longleftrightarrow> sorted_wrt key_less es \<and> (\<forall>e \<in> set es. 8 \<le> length (fst e))"

lemma key_sorted_append:
  "key_sorted (es @ fs) \<longleftrightarrow> key_sorted es \<and> key_sorted fs \<and> (\<forall>e \<in> set es. \<forall>f \<in> set fs. key_less e f)"
  by (auto simp: key_sorted_def sorted_wrt_append)

lemma key_sorted_snoc:
  "key_sorted (es @ [e]) \<Longrightarrow> key_sorted es \<and> 8 \<le> length (fst e) \<and>
     (es \<noteq> [] \<longrightarrow> key_ord (fst (last es)) < key_ord (fst e) \<and> 8 \<le> length (fst (last es)))"
  by (auto simp: key_sorted_def sorted_wrt_append)

lemma key_sorted_length: "key_sorted es \<Longrightarrow> i < length es \<Longrightarrow> 8 \<le> length (key_at es i)"
  by (simp add: key_sorted_def)

lemma key_sorted_less_iff:
  assumes "key_sorted es" "i < length es" "j < length es"
  shows "key_ord (key_at es i) < key_ord (key_at es j) \<longleftrightarrow> i < j"
proof -
  have "a < b \<Longrightarrow> b < length es \<Longrightarrow> key_ord (key_at es a) < key_ord (key_at es b)" for a b
    using assms(1) by (simp add: key_sorted_def sorted_wrt_iff_nth_less)
  then show ?thesis using assms(2,3) by (metis less_asym linorder_neqE_nat)
qed

text \<open>Positions in a sorted list: the number of keys below, and of keys not above, a key.\<close>

definition lower :: "kvs \<Rightarrow> bytes \<Rightarrow> nat" where
  "lower es k = length (takeWhile (\<lambda>e. key_ord (fst e) < key_ord k) es)"

definition upper :: "kvs \<Rightarrow> bytes \<Rightarrow> nat" where
  "upper es k = length (takeWhile (\<lambda>e. key_ord (fst e) \<le> key_ord k) es)"

lemma lower_bound: "lower es k \<le> length es" "upper es k \<le> length es"
  by (simp_all add: lower_def upper_def length_takeWhile_le)

lemma lower_iff:
  assumes "key_sorted es" "i < length es"
  shows "i < lower es k \<longleftrightarrow> key_ord (key_at es i) < key_ord k"
proof
  assume "i < lower es k"
  then show "key_ord (key_at es i) < key_ord k" unfolding lower_def by (metis nth_mem set_takeWhileD takeWhile_nth)
next
  assume l: "key_ord (key_at es i) < key_ord k"
  show "i < lower es k"
  proof (rule ccontr)
    assume "\<not> i < lower es k"
    then have le: "lower es k \<le> i" by simp
    have "\<not> key_ord (key_at es (lower es k)) < key_ord k"
      using nth_length_takeWhile[of "\<lambda>e. key_ord (fst e) < key_ord k" es] le assms(2)
      unfolding lower_def by simp
    moreover have "key_ord (key_at es (lower es k)) \<le> key_ord (key_at es i)"
      using key_sorted_less_iff[OF assms(1), of i "lower es k"] le assms(2) by force
    ultimately show False using l by force
  qed
qed

lemma upper_iff:
  assumes "key_sorted es" "i < length es"
  shows "i < upper es k \<longleftrightarrow> key_ord (key_at es i) \<le> key_ord k"
proof
  assume "i < upper es k"
  then show "key_ord (key_at es i) \<le> key_ord k" unfolding upper_def by (metis nth_mem set_takeWhileD takeWhile_nth)
next
  assume l: "key_ord (key_at es i) \<le> key_ord k"
  show "i < upper es k"
  proof (rule ccontr)
    assume "\<not> i < upper es k"
    then have le: "upper es k \<le> i" by simp
    have "\<not> key_ord (key_at es (upper es k)) \<le> key_ord k"
      using nth_length_takeWhile[of "\<lambda>e. key_ord (fst e) \<le> key_ord k" es] le assms(2)
      unfolding upper_def by simp
    moreover have "key_ord (key_at es (upper es k)) \<le> key_ord (key_at es i)"
      using key_sorted_less_iff[OF assms(1), of i "upper es k"] le assms(2) by force
    ultimately show False using l by force
  qed
qed

lemma upper_after_lower:
  assumes "key_sorted es" "lower es k < length es"
  shows "upper es k \<le> Suc (lower es k)"
proof (rule ccontr)
  assume "\<not> upper es k \<le> Suc (lower es k)"
  then have u: "Suc (lower es k) < upper es k" by simp
  then have "Suc (lower es k) < length es" using lower_bound(2)[of es k] by simp
  then have "key_ord (key_at es (Suc (lower es k))) \<le> key_ord k"
    "key_ord (key_at es (lower es k)) < key_ord (key_at es (Suc (lower es k)))"
    using upper_iff[OF assms(1), of "Suc (lower es k)" k] u
      key_sorted_less_iff[OF assms(1), of "lower es k" "Suc (lower es k)"] by auto
  then show False using lower_iff[OF assms(1,2), of k] by simp
qed

lemma lower_le_upper: "lower es k \<le> upper es k"
  unfolding lower_def upper_def by (induction es) auto

lemma lower_at:
  assumes "key_sorted es" "j < length es" "key_at es j = k"
  shows "lower es k = j" "upper es k = Suc j"
proof -
  have "\<not> j < lower es k" using lower_iff[OF assms(1,2), of k] assms(3) by simp
  moreover have "\<not> lower es k < j"
  proof
    assume l: "lower es k < j"
    then have "key_ord (key_at es (lower es k)) < key_ord k" using key_sorted_less_iff[OF assms(1)] assms(2,3) by auto
    then show False using lower_iff[OF assms(1), of "lower es k" k] l assms(2) by simp
  qed
  ultimately show l: "lower es k = j" by simp
  show "upper es k = Suc j"
    using upper_after_lower[OF assms(1), of k] upper_iff[OF assms(1,2), of k] assms(2,3) l by simp
qed

text \<open>Where a seek leads, and whether it finds its key.\<close>

fun seek_target :: "kvs \<Rightarrow> seek \<Rightarrow> nat option" where
  "seek_target es First = (if es = [] then None else Some 0)"
| "seek_target es Last = (if es = [] then None else Some (length es - 1))"
| "seek_target es (RandomForward k) = (if lower es k < length es then Some (lower es k) else None)"
| "seek_target es (RandomBackward k) = (if upper es k = 0 then None else Some (upper es k - 1))"

fun seek_found :: "kvs \<Rightarrow> seek \<Rightarrow> bool" where
  "seek_found es (RandomForward k) \<longleftrightarrow> k \<in> fst ` set es"
| "seek_found es (RandomBackward k) \<longleftrightarrow> k \<in> fst ` set es"
| "seek_found es _ \<longleftrightarrow> es \<noteq> []"

fun wf_seek :: "seek \<Rightarrow> bool" where
  "wf_seek (RandomForward k) \<longleftrightarrow> 8 \<le> length k"
| "wf_seek (RandomBackward k) \<longleftrightarrow> 8 \<le> length k"
| "wf_seek _ \<longleftrightarrow> True"

lemma seek_target_bound: "seek_target es sk = Some i \<Longrightarrow> i < length es"
proof (cases sk)
  case (RandomBackward k)
  then show "seek_target es sk = Some i \<Longrightarrow> i < length es"
    using lower_bound(2)[of es k] by (auto split: if_splits)
qed (auto split: if_splits)

lemma found_forward:
  assumes "key_sorted es"
  shows "seek_found es (RandomForward k) \<longleftrightarrow> lower es k < length es \<and> key_at es (lower es k) = k"
proof
  assume "seek_found es (RandomForward k)"
  then obtain i where i: "i < length es" "key_at es i = k" by (auto simp: in_set_conv_nth)
  then have "\<not> i < lower es k" using lower_iff[OF assms, of i k] by simp
  moreover have "\<not> lower es k < i"
  proof
    assume "lower es k < i"
    then have "key_ord (key_at es (lower es k)) < key_ord k"
      using key_sorted_less_iff[OF assms, of "lower es k" i] i by simp
    then show False using lower_iff[OF assms, of "lower es k" k] \<open>lower es k < i\<close> i by simp
  qed
  ultimately have "i = lower es k" by simp
  with i show "lower es k < length es \<and> key_at es (lower es k) = k" by simp
next
  assume "lower es k < length es \<and> key_at es (lower es k) = k"
  then show "seek_found es (RandomForward k)" by (auto intro: image_eqI[of _ fst "es ! lower es k"])
qed

lemma found_backward:
  assumes "key_sorted es"
  shows "seek_found es (RandomBackward k) \<longleftrightarrow> upper es k \<noteq> 0 \<and> key_at es (upper es k - 1) = k"
proof
  assume "seek_found es (RandomBackward k)"
  then obtain i where i: "i < length es" "key_at es i = k" by (auto simp: in_set_conv_nth)
  then have lt: "i < upper es k" using upper_iff[OF assms, of i k] by simp
  have u: "upper es k - 1 < length es" using lt lower_bound(2)[of es k] by simp
  have "\<not> i < upper es k - 1"
  proof
    assume "i < upper es k - 1"
    then have "key_ord k < key_ord (key_at es (upper es k - 1))"
      using key_sorted_less_iff[OF assms, of i "upper es k - 1"] i u by simp
    moreover have "key_ord (key_at es (upper es k - 1)) \<le> key_ord k"
      using upper_iff[OF assms u, of k] lt by simp
    ultimately show False by simp
  qed
  then have "i = upper es k - 1" using lt by simp
  with i lt show "upper es k \<noteq> 0 \<and> key_at es (upper es k - 1) = k" by auto
next
  assume "upper es k \<noteq> 0 \<and> key_at es (upper es k - 1) = k"
  then show "seek_found es (RandomBackward k)"
    using lower_bound(2)[of es k] by (auto intro!: image_eqI[of _ fst "es ! (upper es k - 1)"])
qed

section \<open>The contract\<close>

locale forward_iterator =
  fixes ops :: "'it iterator_ops"
    and ahead :: "'it \<Rightarrow> kvs \<Rightarrow> bool"
    and over :: "'it \<Rightarrow> kvs \<Rightarrow> bool"
  assumes over_sorted: "over it es \<Longrightarrow> key_sorted es"
    and ahead_sorted: "ahead it xs \<Longrightarrow> key_sorted xs"
    and ahead_valid: "ahead it xs \<Longrightarrow> it_is_valid ops it = Ok (xs \<noteq> [])"
    and ahead_key: "ahead it (e # xs) \<Longrightarrow> it_key ops it = Ok (fst e)"
    and ahead_value: "ahead it (e # xs) \<Longrightarrow> it_value ops it = Ok (snd e)"
    and ahead_next: "ahead it (e # xs) \<Longrightarrow> \<exists>it'. it_next ops it = Ok it' \<and> ahead it' xs"
    and over_first: "over it es \<Longrightarrow> \<exists>found it'. it_seek ops First it = Ok (found, it') \<and> ahead it' es"
    and over_forward: "over it es \<Longrightarrow> 8 \<le> length k \<Longrightarrow>
      \<exists>found it'. it_seek ops (RandomForward k) it = Ok (found, it') \<and> ahead it' (drop (lower es k) es)"

text \<open>Reading an iterator to its end.\<close>

fun it_scan :: "'it iterator_ops \<Rightarrow> nat \<Rightarrow> 'it \<Rightarrow> kvs res" where
  "it_scan ops 0 it = OutOfFuel"
| "it_scan ops (Suc fuel) it =
     rbind (it_is_valid ops it) (\<lambda>valid.
     if valid then
       rbind (it_key ops it) (\<lambda>k.
       rbind (it_value ops it) (\<lambda>v.
       rbind (it_next ops it) (\<lambda>it.
       rbind (it_scan ops fuel it) (\<lambda>xs. Ok ((k, v) # xs)))))
     else Ok [])"

context forward_iterator
begin

lemma scan_ahead: "ahead it xs \<Longrightarrow> length xs < fuel \<Longrightarrow> it_scan ops fuel it = Ok xs"
proof (induction xs arbitrary: it fuel)
  case Nil
  then show ?case using ahead_valid[OF Nil.prems(1)] by (cases fuel) auto
next
  case (Cons e xs)
  obtain n where n: "fuel = Suc n" "length xs < n" using Cons.prems(2) by (cases fuel) auto
  obtain it' where "it_next ops it = Ok it'" "ahead it' xs" using ahead_next[OF Cons.prems(1)] by blast
  then show ?case using Cons.IH[of it' n] n ahead_valid[OF Cons.prems(1)] ahead_key[OF Cons.prems(1)]
    ahead_value[OF Cons.prems(1)] by simp
qed

end

locale kv_cursor =
  fixes ops :: "'it iterator_ops"
    and cursor :: "'it \<Rightarrow> kvs \<Rightarrow> nat option \<Rightarrow> bool"
    and over :: "'it \<Rightarrow> kvs \<Rightarrow> bool"
  assumes over_entries: "over it es \<Longrightarrow> key_sorted es \<and> es \<noteq> []"
    and cursor_over: "cursor it es p \<Longrightarrow> over it es"
    and cursor_bound: "cursor it es (Some i) \<Longrightarrow> i < length es"
    and cursor_valid: "cursor it es p \<Longrightarrow> it_is_valid ops it = Ok (p \<noteq> None)"
    and cursor_key: "cursor it es (Some i) \<Longrightarrow> it_key ops it = Ok (key_at es i)"
    and cursor_value: "cursor it es (Some i) \<Longrightarrow> it_value ops it = Ok (value_at es i)"
    and cursor_next: "cursor it es (Some i) \<Longrightarrow>
      \<exists>it'. it_next ops it = Ok it' \<and> cursor it' es (if Suc i < length es then Some (Suc i) else None)"
    and cursor_prev: "cursor it es (Some i) \<Longrightarrow>
      \<exists>it'. it_prev ops it = Ok it' \<and> cursor it' es (if i = 0 then None else Some (i - 1))"

locale kv_iterator = kv_cursor +
  assumes over_seek: "over it es \<Longrightarrow> wf_seek sk \<Longrightarrow>
      \<exists>it'. it_seek ops sk it = Ok (seek_found es sk, it') \<and> cursor it' es (seek_target es sk)"

text \<open>The loop \<open>while self.is_valid() && compare_full_key(self.key(), key) == Greater\<close> around \<open>prev_inner\<close>,
  and the test \<open>self.is_valid() && self.key() == key\<close>, which several iterators share. Positions are
  below \<open>2 ^ 64\<close>, so the fuel is never used up.\<close>

definition loop_fuel :: nat where
  "loop_fuel = 2 ^ 64"

definition prev_until ::
  "('it \<Rightarrow> bool res) \<Rightarrow> ('it \<Rightarrow> bytes res) \<Rightarrow> ('it \<Rightarrow> 'it res) \<Rightarrow> bytes \<Rightarrow> 'it \<Rightarrow> 'it res" where
  "prev_until valid key prev_inner k =
     rwhile loop_fuel
       (\<lambda>it. rbind (valid it) (\<lambda>v.
          if v then rbind (key it) (\<lambda>k'. rbind (compare_full_key k' k) (\<lambda>c. Ok (c = Greater))) else Ok False))
       prev_inner"

definition found_at :: "('it \<Rightarrow> bool res) \<Rightarrow> ('it \<Rightarrow> bytes res) \<Rightarrow> bytes \<Rightarrow> 'it \<Rightarrow> (bool \<times> 'it) res" where
  "found_at valid key k it =
     rbind (valid it) (\<lambda>v. if v then rbind (key it) (\<lambda>k'. Ok (k' = k, it)) else Ok (False, it))"

context kv_cursor
begin

lemma cursor_length: "cursor it es (Some i) \<Longrightarrow> 8 \<le> length (key_at es i)"
  using over_entries cursor_over cursor_bound key_sorted_length by blast

lemma cursor_found:
  assumes "cursor it es p"
  shows "found_at (it_is_valid ops) (it_key ops) k it = Ok ((\<exists>i. p = Some i \<and> key_at es i = k), it)"
  using assms cursor_valid[OF assms] cursor_key[of it es] by (cases p) (auto simp: found_at_def)

lemma cursor_found_seek:
  assumes "cursor it es (seek_target es sk)" "sk = RandomForward k \<or> sk = RandomBackward k"
  shows "found_at (it_is_valid ops) (it_key ops) k it = Ok (seek_found es sk, it)"
proof -
  have s: "key_sorted es" using assms(1) over_entries cursor_over by blast
  have "(\<exists>i. seek_target es (RandomForward k) = Some i \<and> key_at es i = k) = seek_found es (RandomForward k)"
    using found_forward[OF s, of k] by auto
  moreover have "(\<exists>i. seek_target es (RandomBackward k) = Some i \<and> key_at es i = k) = seek_found es (RandomBackward k)"
    using found_backward[OF s, of k] by auto
  ultimately have "(\<exists>i. seek_target es sk = Some i \<and> key_at es i = k) = seek_found es sk"
    using assms(2) by (elim disjE) (simp_all only:)
  then show ?thesis using cursor_found[OF assms(1), of k] by (simp only:)
qed

lemma cursor_prev_until:
  assumes at: "cursor it es (Some j)" and j: "upper es k \<le> Suc j" and k: "8 \<le> length k"
    and len: "length es < 2 ^ 64"
    and step: "\<And>it i. cursor it es (Some i) \<Longrightarrow>
      \<exists>it'. prev_inner it = Ok it' \<and> cursor it' es (if i = 0 then None else Some (i - 1))"
  shows "\<exists>it'. prev_until (it_is_valid ops) (it_key ops) prev_inner k it = Ok it' \<and>
    cursor it' es (seek_target es (RandomBackward k))"
proof -
  define cond where "cond it = rbind (it_is_valid ops it) (\<lambda>v. if v then rbind (it_key ops it)
      (\<lambda>k'. rbind (compare_full_key k' k) (\<lambda>c. Ok (c = Greater))) else Ok False)" for it
  have sorted: "key_sorted es" using at over_entries cursor_over by blast
  have cond: "cond it = Ok (\<exists>i. p = Some i \<and> upper es k \<le> i)" if c: "cursor it es p" for it p
  proof (cases p)
    case (Some i)
    then have "key_ord k < key_ord (key_at es i) \<longleftrightarrow> upper es k \<le> i" "8 \<le> length (key_at es i)"
      using upper_iff[OF sorted cursor_bound, of it i k] cursor_length[of it es i] c by (auto simp flip: not_less)
    then show ?thesis using Some cursor_valid[OF c] cursor_key[of it es i] c k by (simp add: cond_def compare_full_key_cmp)
  qed (use cursor_valid[OF c] in \<open>simp add: cond_def\<close>)
  have "\<exists>it'. rwhile fuel cond prev_inner it = Ok it' \<and> cursor it' es (seek_target es (RandomBackward k))"
    if "cursor it es p" "case p of Some i \<Rightarrow> upper es k \<le> Suc i \<and> Suc i < fuel | None \<Rightarrow> upper es k = 0 \<and> 0 < fuel"
    for fuel it p using that
  proof (induction fuel arbitrary: it p)
    case (Suc fuel)
    show ?case
    proof (cases "\<exists>i. p = Some i \<and> upper es k \<le> i")
      case False
      then have "p = seek_target es (RandomBackward k)" using Suc.prems(2) by (cases p) auto
      then show ?thesis using cond[OF Suc.prems(1)] Suc.prems(1) False by auto
    next
      case True
      then obtain i where i: "p = Some i" "upper es k \<le> i" by blast
      obtain it' where it': "prev_inner it = Ok it'" "cursor it' es (if i = 0 then None else Some (i - 1))"
        using step Suc.prems(1) i(1) by blast
      with Suc.IH[OF it'(2)] Suc.prems(2) i have
        "\<exists>it''. rwhile fuel cond prev_inner it' = Ok it'' \<and> cursor it'' es (seek_target es (RandomBackward k))"
        by (cases "i = 0") (auto split: option.splits)
      then show ?thesis using cond[OF Suc.prems(1)] True it'(1) by auto
    qed
  qed (auto split: option.splits)
  from this[of it "Some j" loop_fuel] at j cursor_bound[OF at] len show ?thesis
    unfolding prev_until_def cond_def by (simp add: loop_fuel_def)
qed

end

definition ahead_of :: "('it \<Rightarrow> kvs \<Rightarrow> nat option \<Rightarrow> bool) \<Rightarrow> 'it \<Rightarrow> kvs \<Rightarrow> bool" where
  "ahead_of cursor it xs \<longleftrightarrow>
     (\<exists>es p. cursor it es p \<and> xs = (case p of None \<Rightarrow> [] | Some i \<Rightarrow> drop i es))"

lemma key_sorted_drop: "key_sorted es \<Longrightarrow> key_sorted (drop n es)"
  by (metis append_take_drop_id key_sorted_append)

sublocale kv_iterator \<subseteq> fwd: forward_iterator ops "ahead_of cursor" over
proof
  fix it es
  show "over it es \<Longrightarrow> key_sorted es" using over_entries by blast
next
  fix it xs
  assume "ahead_of cursor it xs"
  then obtain es p where p: "cursor it es p" "xs = (case p of None \<Rightarrow> [] | Some i \<Rightarrow> drop i es)"
    by (auto simp: ahead_of_def)
  then have "key_sorted es" using over_entries cursor_over by blast
  then show "key_sorted xs" using p(2) key_sorted_drop[of es] key_sorted_def[of "[]"] by (cases p) auto
  show "it_is_valid ops it = Ok (xs \<noteq> [])"
    using p cursor_valid cursor_bound by (cases p) (auto simp: not_le)
next
  fix it e xs
  assume "ahead_of cursor it (e # xs)"
  then obtain es i where p: "cursor it es (Some i)" "e # xs = drop i es"
    by (auto simp: ahead_of_def split: option.splits)
  have i: "i < length es" using cursor_bound[OF p(1)] .
  then have e: "es ! i = e" "xs = drop (Suc i) es" using p(2) by (metis Cons_nth_drop_Suc list.inject)+
  show "it_key ops it = Ok (fst e)" "it_value ops it = Ok (snd e)"
    using cursor_key[OF p(1)] cursor_value[OF p(1)] e by auto
  obtain it' where it': "it_next ops it = Ok it'"
    "cursor it' es (if Suc i < length es then Some (Suc i) else None)" using cursor_next[OF p(1)] by blast
  then have "ahead_of cursor it' xs" using e(2) unfolding ahead_of_def
    by (intro exI[of _ es] exI[of _ "if Suc i < length es then Some (Suc i) else None"]) auto
  with it'(1) show "\<exists>it'. it_next ops it = Ok it' \<and> ahead_of cursor it' xs" by blast
next
  fix it es assume o: "over it es"
  then obtain it' where "it_seek ops First it = Ok (seek_found es First, it')" "cursor it' es (Some 0)"
    using over_seek[OF o, of First] over_entries by auto
  then show "\<exists>found it'. it_seek ops First it = Ok (found, it') \<and> ahead_of cursor it' es"
    unfolding ahead_of_def by fastforce
next
  fix it es and k :: bytes assume o: "over it es" and k: "8 \<le> length k"
  obtain it' where it': "it_seek ops (RandomForward k) it = Ok (seek_found es (RandomForward k), it')"
    "cursor it' es (seek_target es (RandomForward k))" using over_seek[OF o, of "RandomForward k"] k by auto
  have "ahead_of cursor it' (drop (lower es k) es)"
    unfolding ahead_of_def
    by (intro exI[of _ es] exI[of _ "seek_target es (RandomForward k)"])
      (use it'(2) in \<open>auto simp: not_less\<close>)
  with it'(1) show "\<exists>found it'. it_seek ops (RandomForward k) it = Ok (found, it') \<and>
      ahead_of cursor it' (drop (lower es k) es)" by blast
qed

end
