(* ===== verification/Skiplist.thy ===== *)
theory Skiplist
  imports Iter
begin

text \<open>
  \<open>storage/src/lsm_tree/components/skiplist\<close>: the bump allocator, the skip list with its towers of
  pointers, and the iterator over it, at the comparator of full keys.

  A pointer is the offset of a node in the arena, the null pointer is 0, and the arena's memory maps
  offsets to nodes. The layout of a node in memory (its alignment and size, which depend on the \<open>Bytes\<close>
  type of the \<open>bytes\<close> crate) is a parameter. Writers are serialised by the lock of the memtables, so an
  operation runs alone; the branches for a lost compare-and-exchange are kept. The height of a new
  node is random: it is an argument of \<open>put\<close>. Loops over the list run on \<open>loop_fuel\<close>.
  The arena asks \<open>Vec::with_capacity\<close> for a buffer and uses the capacity it got, which the library only
  bounds from below; the model takes the capacity asked for, which is what the default allocator gives.
\<close>

section \<open>The arena\<close>

definition tower_max_height :: nat where
  "tower_max_height = 20"

record node =
  nd_key :: bytes
  nd_value :: bytes
  nd_height :: nat
  nd_tower :: "nat list"

record arena =
  ar_len :: nat
  ar_cap :: nat
  ar_mem :: "nat \<rightharpoonup> node"

record node_layout =
  nl_align :: nat
  nl_size :: nat

definition arena_with_capacity :: "nat \<Rightarrow> arena" where
  "arena_with_capacity cap = \<lparr>ar_len = 1, ar_cap = cap div 8 * 8, ar_mem = Map.empty\<rparr>"

text \<open>\<open>(offset + align_mask) & !align_mask\<close> rounds up to a multiple of the alignment. The counter is a \<open>u32\<close>
  and wraps; the assertion runs after it was advanced.\<close>

definition arena_alloc :: "nat \<Rightarrow> nat \<Rightarrow> arena \<Rightarrow> (nat \<times> arena) res" where
  "arena_alloc align size1 ar =
     (let size = size1 + (align - 1); offset = ar_len ar;
          ar = ar\<lparr>ar_len := (offset + size) mod 2 ^ 32\<rparr>;
          ptr_offset = (offset + (align - 1)) div align * align
      in rbind (rassert (offset + size \<le> ar_cap ar)) (\<lambda>_. Ok (ptr_offset mod 2 ^ 32, ar)))"

definition node_alloc :: "node_layout \<Rightarrow> bytes \<Rightarrow> bytes \<Rightarrow> nat \<Rightarrow> arena \<Rightarrow> (nat \<times> arena) res" where
  "node_alloc nl key value height ar =
     rbind (sub_u64 (nl_size nl) ((tower_max_height - height - 1) * 4)) (\<lambda>size1.
     rbind (arena_alloc (nl_align nl) size1 ar) (\<lambda>(node_offset, ar).
       Ok (node_offset, ar\<lparr>ar_mem := (ar_mem ar)(node_offset \<mapsto>
         \<lparr>nd_key = key, nd_value = value, nd_height = height, nd_tower = replicate (Suc height) 0\<rparr>)\<rparr>)))"

section \<open>The list\<close>

record skiplist =
  sl_height :: nat
  sl_head :: nat
  sl_arena :: arena

definition skiplist_with_capacity :: "node_layout \<Rightarrow> nat \<Rightarrow> skiplist res" where
  "skiplist_with_capacity nl arena_size =
     rbind (node_alloc nl [] [] (tower_max_height - 1) (arena_with_capacity arena_size)) (\<lambda>(head_offset, ar).
       Ok \<lparr>sl_height = 0, sl_head = head_offset, sl_arena = ar\<rparr>)"

definition node_at :: "skiplist \<Rightarrow> nat \<Rightarrow> node res" where
  "node_at sl p = unwrap (ar_mem (sl_arena sl) p)"

definition next_offset :: "skiplist \<Rightarrow> nat \<Rightarrow> nat \<Rightarrow> nat res" where
  "next_offset sl p level = rbind (node_at sl p) (\<lambda>n. index (nd_tower n) level)"

definition set_next :: "nat \<Rightarrow> nat \<Rightarrow> nat \<Rightarrow> skiplist \<Rightarrow> skiplist res" where
  "set_next p level q sl =
     rbind (node_at sl p) (\<lambda>n.
     rbind (index (nd_tower n) level) (\<lambda>_.
       Ok (sl\<lparr>sl_arena := (sl_arena sl)\<lparr>ar_mem := (ar_mem (sl_arena sl))(p \<mapsto> n\<lparr>nd_tower := (nd_tower n)[level := q]\<rparr>)\<rparr>\<rparr>)))"

fun find_near :: "nat \<Rightarrow> skiplist \<Rightarrow> bytes \<Rightarrow> bool \<Rightarrow> bool \<Rightarrow> nat \<Rightarrow> nat \<Rightarrow> nat res" where
  "find_near 0 sl key lt allow_equal cursor level = OutOfFuel"
| "find_near (Suc fuel) sl key lt allow_equal cursor level =
     rbind (next_offset sl cursor level) (\<lambda>q.
     if q = 0 then
       if level > 0 then find_near fuel sl key lt allow_equal cursor (level - 1)
       else if \<not> lt \<or> cursor = sl_head sl then Ok 0 else Ok cursor
     else
       rbind (node_at sl q) (\<lambda>n.
       rbind (compare_key key (nd_key n)) (\<lambda>c.
       if c = Greater then find_near fuel sl key lt allow_equal q level
       else if c = Equal then
         if allow_equal then Ok q
         else if \<not> lt then next_offset sl q 0
         else if level > 0 then find_near fuel sl key lt allow_equal cursor (level - 1)
         else if cursor = sl_head sl then Ok 0 else Ok cursor
       else if level > 0 then find_near fuel sl key lt allow_equal cursor (level - 1)
       else if \<not> lt then Ok q
       else if cursor = sl_head sl then Ok 0 else Ok cursor)))"

fun find_splice_for_level :: "nat \<Rightarrow> skiplist \<Rightarrow> bytes \<Rightarrow> nat \<Rightarrow> nat \<Rightarrow> (nat \<times> nat) res" where
  "find_splice_for_level 0 sl key before level = OutOfFuel"
| "find_splice_for_level (Suc fuel) sl key before level =
     rbind (next_offset sl before level) (\<lambda>q.
     if q = 0 then Ok (before, 0)
     else
       rbind (node_at sl q) (\<lambda>n.
       rbind (compare_key key (nd_key n)) (\<lambda>c.
       case c of
         Equal \<Rightarrow> Ok (q, q)
       | Less \<Rightarrow> Ok (before, q)
       | Greater \<Rightarrow> find_splice_for_level fuel sl key q level)))"

text \<open>The search of \<open>put\<close> from level \<open>list_height\<close> down: the neighbours of the key on every level, or
  whether the value of the node that already has the key differs.\<close>

fun put_search ::
  "skiplist \<Rightarrow> bytes \<Rightarrow> bytes \<Rightarrow> nat \<Rightarrow> nat list \<Rightarrow> nat list \<Rightarrow> (bool + nat list \<times> nat list) res" where
  "put_search sl key value 0 prevs nexts = Ok (Inr (prevs, nexts))"
| "put_search sl key value (Suc i) prevs nexts =
     rbind (index prevs (Suc i)) (\<lambda>before.
     rbind (find_splice_for_level loop_fuel sl key before i) (\<lambda>(p, n).
     if p = n then rbind (node_at sl p) (\<lambda>nd. Ok (Inl (nd_value nd \<noteq> value)))
     else put_search sl key value i (prevs[i := p]) (nexts[i := n])))"

text \<open>Linking the new node \<open>x\<close> into level \<open>i\<close>. \<open>Inl\<close> is the early return of \<open>put\<close>.\<close>

fun link_level ::
  "nat \<Rightarrow> nat \<Rightarrow> nat \<Rightarrow> nat list \<Rightarrow> nat list \<Rightarrow> skiplist \<Rightarrow>
     ((bytes \<times> bytes) option \<times> skiplist + nat list \<times> nat list \<times> skiplist) res" where
  "link_level 0 x i prevs nexts sl = OutOfFuel"
| "link_level (Suc fuel) x i prevs nexts sl =
     rbind (node_at sl x) (\<lambda>nx.
     rbind (rbind (index prevs i) (\<lambda>p.
       if p = 0 then
         rbind (rassert (i > 1)) (\<lambda>_.
         rbind (find_splice_for_level loop_fuel sl (nd_key nx) (sl_head sl) i) (\<lambda>(p, n).
         rbind (rassert (p \<noteq> n)) (\<lambda>_. Ok (prevs[i := p], nexts[i := n]))))
       else Ok (prevs, nexts))) (\<lambda>(prevs, nexts).
     rbind (index prevs i) (\<lambda>p.
     rbind (index nexts i) (\<lambda>n.
     rbind (set_next x i n sl) (\<lambda>sl.
     rbind (next_offset sl p i) (\<lambda>q.
     if q = n then rbind (set_next p i x sl) (\<lambda>sl. Ok (Inr (prevs, nexts, sl)))
     else
       rbind (find_splice_for_level loop_fuel sl (nd_key nx) p i) (\<lambda>(p, n).
       if p = n then
         rbind (rassert (i = 0)) (\<lambda>_.
         rbind (node_at sl p) (\<lambda>nd.
         if nd_value nd \<noteq> nd_value nx then
           Ok (Inl (Some (nd_key nx, nd_value nx), sl\<lparr>sl_arena := (sl_arena sl)\<lparr>ar_mem :=
             (ar_mem (sl_arena sl))(x \<mapsto> nx\<lparr>nd_key := [], nd_value := []\<rparr>)\<rparr>\<rparr>))
         else Ok (Inl (None, sl))))
       else link_level fuel x i (prevs[i := p]) (nexts[i := n]) sl)))))))"

fun link_levels :: "nat \<Rightarrow> nat list \<Rightarrow> nat list \<Rightarrow> nat list \<Rightarrow> skiplist \<Rightarrow> ((bytes \<times> bytes) option \<times> skiplist) res" where
  "link_levels x [] prevs nexts sl = Ok (None, sl)"
| "link_levels x (i # is) prevs nexts sl =
     rbind (link_level loop_fuel x i prevs nexts sl) (\<lambda>r.
     case r of
       Inl early \<Rightarrow> Ok early
     | Inr (prevs, nexts, sl) \<Rightarrow> link_levels x is prevs nexts sl)"

definition sl_put ::
  "node_layout \<Rightarrow> nat \<Rightarrow> bytes \<Rightarrow> bytes \<Rightarrow> skiplist \<Rightarrow> ((bytes \<times> bytes) option \<times> skiplist) res" where
  "sl_put nl height key value sl =
     (let list_height = sl_height sl;
          prevs = (replicate (tower_max_height + 1) 0)[list_height + 1 := sl_head sl];
          nexts = replicate (tower_max_height + 1) 0
      in rbind (rassert (list_height + 1 < length prevs)) (\<lambda>_.
         rbind (put_search sl key value (Suc list_height) prevs nexts) (\<lambda>r.
         case r of
           Inl differs \<Rightarrow> Ok (if differs then Some (key, value) else None, sl)
         | Inr (prevs, nexts) \<Rightarrow>
             rbind (node_alloc nl key value height (sl_arena sl)) (\<lambda>(x, ar).
               link_levels x [0..<Suc height] prevs nexts
                 (sl\<lparr>sl_height := (if height > list_height then height else list_height), sl_arena := ar\<rparr>)))))"

definition sl_is_empty :: "skiplist \<Rightarrow> bool res" where
  "sl_is_empty sl = rbind (next_offset sl (sl_head sl) 0) (\<lambda>q. Ok (q = 0))"

fun sl_len_from :: "nat \<Rightarrow> skiplist \<Rightarrow> nat \<Rightarrow> nat \<Rightarrow> nat res" where
  "sl_len_from 0 sl count p = OutOfFuel"
| "sl_len_from (Suc fuel) sl count p =
     rbind (next_offset sl p 0) (\<lambda>q. if q \<noteq> 0 then sl_len_from fuel sl (Suc count) q else Ok count)"

definition sl_len :: "skiplist \<Rightarrow> nat res" where
  "sl_len sl = sl_len_from loop_fuel sl 0 (sl_head sl)"

fun find_last_from :: "nat \<Rightarrow> skiplist \<Rightarrow> nat \<Rightarrow> nat \<Rightarrow> nat res" where
  "find_last_from 0 sl p level = OutOfFuel"
| "find_last_from (Suc fuel) sl p level =
     rbind (next_offset sl p level) (\<lambda>q.
     if q \<noteq> 0 then find_last_from fuel sl q level
     else if level = 0 then (if p = sl_head sl then Ok 0 else Ok p)
     else find_last_from fuel sl p (level - 1))"

definition find_last :: "skiplist \<Rightarrow> nat res" where
  "find_last sl = find_last_from loop_fuel sl (sl_head sl) (sl_height sl)"

definition get_with_key :: "skiplist \<Rightarrow> bytes \<Rightarrow> (bytes \<times> bytes) option res" where
  "get_with_key sl key =
     rbind (find_near loop_fuel sl key False True (sl_head sl) (sl_height sl)) (\<lambda>p.
     if p = 0 then Ok None
     else rbind (node_at sl p) (\<lambda>n.
          rbind (same_key (nd_key n) key) (\<lambda>same. Ok (if same then Some (nd_key n, nd_value n) else None))))"

definition sl_get :: "skiplist \<Rightarrow> bytes \<Rightarrow> bytes option res" where
  "sl_get sl key = rbind (get_with_key sl key) (\<lambda>r. Ok (map_option snd r))"

definition sl_mem_size :: "skiplist \<Rightarrow> nat" where
  "sl_mem_size sl = ar_len (sl_arena sl)"

section \<open>The iterator\<close>

record skip_iter =
  sk_list :: skiplist
  sk_cursor :: nat

definition sk_iter :: "skiplist \<Rightarrow> skip_iter" where
  "sk_iter sl = \<lparr>sk_list = sl, sk_cursor = 0\<rparr>"

definition sk_valid :: "skip_iter \<Rightarrow> bool" where
  "sk_valid it \<longleftrightarrow> sk_cursor it \<noteq> 0"

definition sk_key :: "skip_iter \<Rightarrow> bytes res" where
  "sk_key it = rbind (rassert (sk_valid it)) (\<lambda>_. rbind (node_at (sk_list it) (sk_cursor it)) (\<lambda>n. Ok (nd_key n)))"

definition sk_value :: "skip_iter \<Rightarrow> bytes res" where
  "sk_value it = rbind (rassert (sk_valid it)) (\<lambda>_. rbind (node_at (sk_list it) (sk_cursor it)) (\<lambda>n. Ok (nd_value n)))"

definition sk_next :: "skip_iter \<Rightarrow> skip_iter res" where
  "sk_next it =
     rbind (rassert (sk_valid it)) (\<lambda>_.
     rbind (next_offset (sk_list it) (sk_cursor it) 0) (\<lambda>p. Ok (it\<lparr>sk_cursor := p\<rparr>)))"

definition sk_find_near :: "bytes \<Rightarrow> bool \<Rightarrow> bool \<Rightarrow> skip_iter \<Rightarrow> skip_iter res" where
  "sk_find_near key lt allow_equal it =
     rbind (find_near loop_fuel (sk_list it) key lt allow_equal (sl_head (sk_list it)) (sl_height (sk_list it)))
       (\<lambda>p. Ok (it\<lparr>sk_cursor := p\<rparr>))"

definition sk_prev :: "skip_iter \<Rightarrow> skip_iter res" where
  "sk_prev it =
     rbind (rassert (sk_valid it)) (\<lambda>_. rbind (sk_key it) (\<lambda>key. sk_find_near key True False it))"

definition sk_seek :: "bytes \<Rightarrow> skip_iter \<Rightarrow> skip_iter res" where
  "sk_seek target it = sk_find_near target False True it"

definition sk_seek_for_prev :: "bytes \<Rightarrow> skip_iter \<Rightarrow> skip_iter res" where
  "sk_seek_for_prev target it = sk_find_near target True True it"

definition sk_seek_to_first :: "skip_iter \<Rightarrow> skip_iter res" where
  "sk_seek_to_first it =
     rbind (next_offset (sk_list it) (sl_head (sk_list it)) 0) (\<lambda>p. Ok (it\<lparr>sk_cursor := p\<rparr>))"

definition sk_seek_to_last :: "skip_iter \<Rightarrow> skip_iter res" where
  "sk_seek_to_last it = rbind (find_last (sk_list it)) (\<lambda>p. Ok (it\<lparr>sk_cursor := p\<rparr>))"

section \<open>Suffix comparison\<close>

text \<open>\<open>FixedLengthSuffixComparator\<close> of \<open>key.rs\<close>.\<close>

definition suffix_compare_key :: "nat \<Rightarrow> bytes \<Rightarrow> bytes \<Rightarrow> ordering res" where
  "suffix_compare_key len lhs rhs =
     (if length lhs < len then Panic
      else if length rhs < len then Panic
      else let l_p = take (length lhs - len) lhs; l_s = drop (length lhs - len) lhs;
               r_p = take (length rhs - len) rhs; r_s = drop (length rhs - len) rhs;
               c = cmp l_p r_p
           in Ok (case c of Greater \<Rightarrow> c | Less \<Rightarrow> c | Equal \<Rightarrow> cmp l_s r_s))"

definition suffix_same_key :: "nat \<Rightarrow> bytes \<Rightarrow> bytes \<Rightarrow> bool res" where
  "suffix_same_key len lhs rhs =
     (if length lhs < len \<or> length rhs < len then Panic
      else Ok (take (length lhs - len) lhs = take (length rhs - len) rhs))"

section \<open>What a list holds\<close>

text \<open>Following the pointers of one level from \<open>p\<close> passes the nodes \<open>qs\<close> and ends.\<close>

fun chain :: "(nat \<Rightarrow> nat) \<Rightarrow> nat \<Rightarrow> nat list \<Rightarrow> bool" where
  "chain nx p [] \<longleftrightarrow> nx p = 0"
| "chain nx p (q # qs) \<longleftrightarrow> nx p = q \<and> chain nx q qs"

definition nx_of :: "skiplist \<Rightarrow> nat \<Rightarrow> nat \<Rightarrow> nat" where
  "nx_of sl l p = (case ar_mem (sl_arena sl) p of
     Some n \<Rightarrow> if l < length (nd_tower n) then nd_tower n ! l else 0 | None \<Rightarrow> 0)"

abbreviation node_of :: "skiplist \<Rightarrow> nat \<Rightarrow> node" where
  "node_of sl p \<equiv> the (ar_mem (sl_arena sl) p)"

abbreviation on_level :: "skiplist \<Rightarrow> nat \<Rightarrow> nat \<Rightarrow> bool" where
  "on_level sl l p \<equiv> l \<le> nd_height (node_of sl p)"

definition sl_entries :: "skiplist \<Rightarrow> nat list \<Rightarrow> kvs" where
  "sl_entries sl ps = map (\<lambda>p. (nd_key (node_of sl p), nd_value (node_of sl p))) ps"

text \<open>The nodes \<open>ps\<close> in key order: level \<open>l\<close> links those whose tower reaches it, in the same order.\<close>

definition sl_rep :: "skiplist \<Rightarrow> nat list \<Rightarrow> bool" where
  "sl_rep sl ps \<longleftrightarrow>
     distinct (0 # sl_head sl # ps) \<and> sl_height sl < tower_max_height \<and>
     (\<exists>n. ar_mem (sl_arena sl) (sl_head sl) = Some n \<and> length (nd_tower n) = tower_max_height) \<and>
     (\<forall>p \<in> set ps. \<exists>n. ar_mem (sl_arena sl) p = Some n \<and> length (nd_tower n) = Suc (nd_height n) \<and>
        nd_height n \<le> sl_height sl) \<and>
     key_sorted (sl_entries sl ps) \<and>
     (\<forall>l < tower_max_height. chain (nx_of sl l) (sl_head sl) (filter (on_level sl l) ps))"

lemma chain_suffix: "chain nx p (as @ q # bs) \<Longrightarrow> chain nx q bs"
  by (induction as arbitrary: p) auto

lemma chain_next: "chain nx p qs \<Longrightarrow> nx p = (case qs of [] \<Rightarrow> 0 | q # _ \<Rightarrow> q)"
  by (cases qs) auto

lemma length_sl_entries [simp]: "length (sl_entries sl ps) = length ps"
  by (simp add: sl_entries_def)

lemma sl_entries_nth [simp]: "j < length ps \<Longrightarrow> sl_entries sl ps ! j = (nd_key (node_of sl (ps ! j)), nd_value (node_of sl (ps ! j)))"
  by (simp add: sl_entries_def)

lemma rep_next:
  assumes rep: "sl_rep sl ps" and i: "i \<le> length ps" and l: "l < tower_max_height"
    and at: "i = 0 \<or> on_level sl l (ps ! (i - 1))"
  shows "next_offset sl ((sl_head sl # ps) ! i) l = Ok (case filter (on_level sl l) (drop i ps) of [] \<Rightarrow> 0 | q # _ \<Rightarrow> q)"
proof -
  have c: "chain (nx_of sl l) (sl_head sl) (filter (on_level sl l) ps)" using rep l by (simp add: sl_rep_def)
  let ?p = "(sl_head sl # ps) ! i"
  have "chain (nx_of sl l) ?p (filter (on_level sl l) (drop i ps))"
  proof (cases i)
    case (Suc j)
    then have "ps = take j ps @ ps ! j # drop (Suc j) ps" using i by (simp add: id_take_nth_drop)
    then have "filter (on_level sl l) ps = filter (on_level sl l) (take j ps) @ ps ! j # filter (on_level sl l) (drop (Suc j) ps)"
      using at Suc by (metis (no_types, lifting) Suc_neq_Zero diff_Suc_1 filter.simps(2) filter_append)
    then show ?thesis using c chain_suffix Suc by simp
  qed (use c in simp)
  then have nx: "nx_of sl l ?p = (case filter (on_level sl l) (drop i ps) of [] \<Rightarrow> 0 | q # _ \<Rightarrow> q)" by (rule chain_next)
  obtain n where n: "ar_mem (sl_arena sl) ?p = Some n" "l < length (nd_tower n)"
  proof (cases i)
    case 0
    then show ?thesis using that rep l by (auto simp: sl_rep_def)
  next
    case (Suc j)
    then have "ps ! j \<in> set ps" using i by simp
    then show ?thesis using that rep at Suc by (fastforce simp: sl_rep_def)
  qed
  then show ?thesis using nx by (simp add: next_offset_def node_at_def nx_of_def index_def)
qed

lemma filter_drop_head:
  assumes "filter P (drop i ps) = q # qs"
  obtains j where "i \<le> j" "j < length ps" "ps ! j = q" "P q"
proof -
  have "q \<in> set (filter P (drop i ps))" using assms by simp
  then obtain m where "m < length (drop i ps)" "drop i ps ! m = q" "P q" by (auto simp: in_set_conv_nth)
  then show ?thesis using that[of "i + m"] by simp
qed

lemma rep_node:
  assumes "sl_rep sl ps" "j < length ps"
  shows "ar_mem (sl_arena sl) (ps ! j) = Some (node_of sl (ps ! j))" "ps ! j \<noteq> 0" "ps ! j \<noteq> sl_head sl"
    "node_at sl (ps ! j) = Ok (node_of sl (ps ! j))" "8 \<le> length (nd_key (node_of sl (ps ! j)))"
proof -
  have "ps ! j \<in> set ps" using assms(2) by simp
  then show m: "ar_mem (sl_arena sl) (ps ! j) = Some (node_of sl (ps ! j))"
    using assms(1) unfolding sl_rep_def by fastforce
  have "0 \<notin> set ps" "sl_head sl \<notin> set ps" using assms(1) by (auto simp: sl_rep_def)
  then show "ps ! j \<noteq> 0" "ps ! j \<noteq> sl_head sl" using \<open>ps ! j \<in> set ps\<close> by metis+
  from m show "node_at sl (ps ! j) = Ok (node_of sl (ps ! j))" unfolding node_at_def by (metis unwrap.simps(2))
  have "key_sorted (sl_entries sl ps)" using assms(1) by (simp add: sl_rep_def)
  from key_sorted_length[OF this, of j] assms(2) show "8 \<le> length (nd_key (node_of sl (ps ! j)))" by simp
qed

text \<open>Where \<open>find_near\<close> leads.\<close>

definition near_target :: "kvs \<Rightarrow> bytes \<Rightarrow> bool \<Rightarrow> bool \<Rightarrow> nat option" where
  "near_target es k lt allow_equal =
     (let m = (if lt = allow_equal then upper es k else lower es k) in
      if lt then (if m = 0 then None else Some (m - 1)) else if m < length es then Some m else None)"

definition ptr_at :: "nat list \<Rightarrow> nat option \<Rightarrow> nat" where
  "ptr_at ps p = (case p of None \<Rightarrow> 0 | Some i \<Rightarrow> ps ! i)"

lemma find_near_target:
  assumes rep: "sl_rep sl ps" and k: "8 \<le> length k"
    and "i \<le> lower (sl_entries sl ps) k" "l < tower_max_height" "i = 0 \<or> on_level sl l (ps ! (i - 1))"
    and "l + (length ps - i) < fuel"
  shows "find_near fuel sl k lt allow_equal ((sl_head sl # ps) ! i) l =
    Ok (ptr_at ps (near_target (sl_entries sl ps) k lt allow_equal))"
  using assms(3-6)
proof (induction fuel arbitrary: i l)
  case (Suc fuel)
  let ?es = "sl_entries sl ps" and ?c = "(sl_head sl # ps) ! i"
  let ?L = "lower ?es k" and ?U = "upper ?es k"
  have sorted: "key_sorted ?es" using rep by (simp add: sl_rep_def)
  have i: "i \<le> length ps" using Suc.prems(1) lower_bound(1)[of ?es k] by simp
  have LU: "?L \<le> ?U" "?U \<le> length ps" using lower_le_upper[of ?es k] lower_bound(2)[of ?es k] by auto
  note nxt = rep_next[OF rep i Suc.prems(2,3)]
  have head: "?c = sl_head sl \<longleftrightarrow> i = 0" using rep_node(3)[OF rep, of "i - 1"] i by (cases i) auto
  have down: "find_near fuel sl k lt allow_equal ?c (l - 1) = Ok (ptr_at ps (near_target ?es k lt allow_equal))" if "0 < l"
  proof -
    have "i = 0 \<or> on_level sl (l - 1) (ps ! (i - 1))" using Suc.prems(3) by (meson diff_le_self order_trans)
    then show ?thesis using Suc.IH[of i "l - 1"] Suc.prems that by auto
  qed
  show ?case
  proof (cases "filter (on_level sl l) (drop i ps)")
    case Nil
    show ?thesis
    proof (cases "l = 0")
      case True
      then have "i = length ps" using Nil i by simp
      then have "?L = length ps" "?U = length ps" using Suc.prems(1) LU by auto
      then show ?thesis using Nil nxt True head i \<open>i = length ps\<close>
        by (cases i) (auto simp: near_target_def ptr_at_def)
    qed (use Nil nxt down in simp)
  next
    case (Cons q qs)
    then obtain j where j: "i \<le> j" "j < length ps" "ps ! j = q" "on_level sl l q" by (rule filter_drop_head)
    have j0: "j = i" if "l = 0"
    proof -
      have "drop i ps = q # qs" using Cons that by simp
      then have "i < length ps" "ps ! i = q" by (metis drop_all list.distinct(1) not_le, metis nth_via_drop)
      moreover have "distinct ps" using rep by (simp add: sl_rep_def)
      ultimately show ?thesis using j nth_eq_iff_index_eq[of ps i j] by simp
    qed
    note nd = rep_node[OF rep j(2)]
    have cmp: "compare_key k (nd_key (node_of sl q)) = Ok (cmp (key_ord k) (key_ord (key_at ?es j)))"
      using nd(5) j k by (simp add: compare_key_def compare_full_key_cmp)
    have L: "j < ?L \<longleftrightarrow> key_ord (key_at ?es j) < key_ord k" and U: "j < ?U \<longleftrightarrow> key_ord (key_at ?es j) \<le> key_ord k"
      using lower_iff[OF sorted] upper_iff[OF sorted] j by auto
    consider "key_ord (key_at ?es j) < key_ord k" | "key_ord k = key_ord (key_at ?es j)" | "key_ord k < key_ord (key_at ?es j)"
      by fastforce
    then show ?thesis
    proof cases
      case 1
      then have "cmp (key_ord k) (key_ord (key_at ?es j)) = Greater" by (auto simp: cmp_def)
      then show ?thesis using Suc.IH[of "Suc j" l] 1 L j Suc.prems Cons nxt nd(2,4) cmp by simp
    next
      case 2
      then have c: "cmp (key_ord k) (key_ord (key_at ?es j)) = Equal" by (auto simp: cmp_def)
      have "key_at ?es j = k" using 2[symmetric] unfolding key_ord_inject .
      then have jL: "j = ?L" "?U = Suc ?L" using lower_at[OF sorted, of j k] j(2) by auto
      have q0: "next_offset sl q 0 = Ok (ptr_at ps (if Suc j < length ps then Some (Suc j) else None))"
        using rep_next[OF rep, of "Suc j" 0] j by (auto simp: ptr_at_def Cons_nth_drop_Suc[symmetric] tower_max_height_def)
      show ?thesis using c jL q0 Cons nxt nd(2,4) cmp j down head j0 by (auto simp: near_target_def ptr_at_def)
    next
      case 3
      then have c: "cmp (key_ord k) (key_ord (key_at ?es j)) = Less" by (auto simp: cmp_def)
      have "\<not> j < ?U" using U 3 by simp
      then have "?U = ?L" "i = ?L" if "l = 0" using j0[OF that] Suc.prems(1) LU by auto
      then show ?thesis using c Cons nxt nd(2,4) cmp j down head j0 by (auto simp: near_target_def ptr_at_def)
    qed
  qed
qed simp

section \<open>Insertion\<close>

text \<open>The neighbours of a key on a level, and whether a node has the key.\<close>

definition pred_ptr :: "skiplist \<Rightarrow> nat list \<Rightarrow> bytes \<Rightarrow> nat \<Rightarrow> nat" where
  "pred_ptr sl ps k l = last (sl_head sl # filter (on_level sl l) (take (lower (sl_entries sl ps) k) ps))"

definition succ_ptr :: "skiplist \<Rightarrow> nat list \<Rightarrow> bytes \<Rightarrow> nat \<Rightarrow> nat" where
  "succ_ptr sl ps k l = (case filter (on_level sl l) (drop (lower (sl_entries sl ps) k) ps) of [] \<Rightarrow> 0 | q # _ \<Rightarrow> q)"

definition present :: "skiplist \<Rightarrow> nat list \<Rightarrow> bytes \<Rightarrow> bool" where
  "present sl ps k \<longleftrightarrow> k \<in> fst ` set (sl_entries sl ps)"

lemma present_iff:
  assumes "sl_rep sl ps"
  shows "present sl ps k \<longleftrightarrow> lower (sl_entries sl ps) k < length ps \<and> key_at (sl_entries sl ps) (lower (sl_entries sl ps) k) = k"
  using found_forward[of "sl_entries sl ps" k] assms by (simp add: present_def sl_rep_def)

lemma last_filter_take:
  assumes "i \<le> length ps" "i = 0 \<or> P (ps ! (i - 1))"
  shows "last (h # filter P (take i ps)) = (h # ps) ! i"
  using assms by (cases i) (auto simp: take_Suc_conv_app_nth)

lemma pred_ptr_pos:
  assumes "sl_rep sl ps"
  shows "\<exists>j. j \<le> lower (sl_entries sl ps) k \<and> pred_ptr sl ps k l = (sl_head sl # ps) ! j \<and> (j = 0 \<or> on_level sl l (ps ! (j - 1)))"
proof (cases "filter (on_level sl l) (take (lower (sl_entries sl ps) k) ps) = []")
  case False
  let ?fs = "filter (on_level sl l) (take (lower (sl_entries sl ps) k) ps)"
  have "last ?fs \<in> set ?fs" using False last_in_set by blast
  then obtain m where "m < lower (sl_entries sl ps) k" "m < length ps" "ps ! m = last ?fs" "on_level sl l (ps ! m)"
    by (auto simp: in_set_conv_nth)
  then show ?thesis using False by (intro exI[of _ "Suc m"]) (simp add: pred_ptr_def)
qed (auto simp: pred_ptr_def intro!: exI[of _ 0])

lemma find_splice_target:
  assumes rep: "sl_rep sl ps" and k: "8 \<le> length k"
    and "i \<le> lower (sl_entries sl ps) k" "l < tower_max_height" "i = 0 \<or> on_level sl l (ps ! (i - 1))"
    and "length ps - i < fuel"
  shows "find_splice_for_level fuel sl k ((sl_head sl # ps) ! i) l =
    Ok (let q = ps ! lower (sl_entries sl ps) k in
        if present sl ps k \<and> on_level sl l q then (q, q) else (pred_ptr sl ps k l, succ_ptr sl ps k l))"
  using assms(3-6)
proof (induction fuel arbitrary: i)
  case (Suc fuel)
  let ?es = "sl_entries sl ps" and ?P = "on_level sl l"
  let ?L = "lower ?es k"
  have sorted: "key_sorted ?es" using rep by (simp add: sl_rep_def)
  have i: "i \<le> length ps" "?L \<le> length ps" using Suc.prems(1) lower_bound(1)[of ?es k] by simp_all
  have split: "drop i ps = take (?L - i) (drop i ps) @ drop ?L ps" "take ?L ps = take i ps @ take (?L - i) (drop i ps)"
    using Suc.prems(1) by (simp_all add: append_take_drop_id[symmetric] take_add[symmetric] del: append_take_drop_id)
      (metis append_take_drop_id drop_drop le_add_diff_inverse2)
  note nxt = rep_next[OF rep i(1) Suc.prems(2,3)]
  have cmp: "compare_key k (nd_key (node_of sl (ps ! j))) = Ok (cmp (key_ord k) (key_ord (key_at ?es j)))" if "j < length ps" for j
    using rep_node(5)[OF rep that] k that by (simp add: compare_key_def compare_full_key_cmp)
  show ?case
  proof (cases "filter ?P (take (?L - i) (drop i ps))")
    case (Cons q qs)
    then have "q \<in> set (take (?L - i) (drop i ps))" "?P q" by (metis filter_eq_ConsD in_set_conv_decomp)+
    then obtain j where j: "i \<le> j" "j < ?L" "ps ! j = q" by (auto simp: in_set_conv_nth) (metis add.commute le_add1 less_diff_conv)
    then have jl: "j < length ps" using i(2) by simp
    have "cmp (key_ord k) (key_ord (key_at ?es j)) = Greater" using lower_iff[OF sorted, of j k] j jl by (auto simp: cmp_def)
    moreover have "filter ?P (drop i ps) = q # (qs @ filter ?P (drop ?L ps))" using Cons by (subst split(1)) simp
    ultimately show ?thesis using Suc.IH[of "Suc j"] Suc.prems j jl \<open>?P q\<close> nxt rep_node(2,4)[OF rep jl] cmp[OF jl]
      by (auto simp: cmp_def)
  next
    case Nil
    then have f: "filter ?P (drop i ps) = filter ?P (drop ?L ps)" "filter ?P (take ?L ps) = filter ?P (take i ps)"
      by (subst split(1), simp, subst split(2), simp)
    have p: "pred_ptr sl ps k l = (sl_head sl # ps) ! i"
      using last_filter_take[OF i(1), of ?P "sl_head sl"] Suc.prems(3) by (simp add: pred_ptr_def f(2))
    show ?thesis
    proof (cases "filter ?P (drop ?L ps)")
      case Nil
      have "\<not> (present sl ps k \<and> ?P (ps ! ?L))"
      proof
        assume a: "present sl ps k \<and> ?P (ps ! ?L)"
        then have "ps ! ?L \<in> set (filter ?P (drop ?L ps))" using present_iff[OF rep, of k] by (simp add: Cons_nth_drop_Suc[symmetric])
        then show False using Nil by simp
      qed
      then show ?thesis using nxt f(1) Nil p by (auto simp: succ_ptr_def)
    next
      case (Cons q qs)
      then obtain j where j: "?L \<le> j" "j < length ps" "ps ! j = q" "?P q" by (rule filter_drop_head)
      have notless: "\<not> key_ord (key_at ?es j) < key_ord k" using lower_iff[OF sorted, of j k] j by simp
      show ?thesis
      proof (cases "key_at ?es j = k")
        case True
        then have "?L = j" using lower_at(1)[OF sorted, of j k] j(2) by simp
        then have "present sl ps k" "?P (ps ! ?L)" "ps ! ?L = q" using True j present_iff[OF rep, of k] by auto
        then show ?thesis using True nxt f(1) Cons rep_node(2,4)[OF rep j(2)] cmp[OF j(2)] j by (simp add: cmp_def)
      next
        case False
        have "\<not> (present sl ps k \<and> ?P (ps ! ?L))"
        proof
          assume a: "present sl ps k \<and> ?P (ps ! ?L)"
          then have "?L < length ps" "key_at ?es ?L = k" using present_iff[OF rep, of k] by auto
          then have "drop ?L ps = ps ! ?L # drop (Suc ?L) ps" by (simp add: Cons_nth_drop_Suc)
          then have "q = ps ! ?L" using Cons a by simp
          then have "key_at ?es j = k" using \<open>key_at ?es ?L = k\<close> j \<open>?L < length ps\<close> by simp
          then show False using False by simp
        qed
        moreover have "cmp (key_ord k) (key_ord (key_at ?es j)) = Less" using False notless by (auto simp: cmp_def key_ord_inject)
        ultimately show ?thesis using nxt f(1) Cons rep_node(2,4)[OF rep j(2)] cmp[OF j(2)] j p by (auto simp: succ_ptr_def cmp_def)
      qed
    qed
  qed
qed simp

lemma pred_succ_neq:
  assumes "sl_rep sl ps"
  shows "pred_ptr sl ps k l \<noteq> succ_ptr sl ps k l" "pred_ptr sl ps k l \<noteq> 0"
proof -
  let ?L = "lower (sl_entries sl ps) k"
  have d: "distinct (0 # sl_head sl # take ?L ps @ drop ?L ps)" using assms by (simp add: sl_rep_def)
  have "pred_ptr sl ps k l \<in> set (sl_head sl # take ?L ps)"
    unfolding pred_ptr_def using last_in_set[of "sl_head sl # filter (on_level sl l) (take ?L ps)"] by auto
  moreover have "succ_ptr sl ps k l \<in> set (0 # drop ?L ps)"
    unfolding succ_ptr_def by (cases "filter (on_level sl l) (drop ?L ps)") (auto dest!: filter_eq_ConsD)
  ultimately show "pred_ptr sl ps k l \<noteq> succ_ptr sl ps k l" "pred_ptr sl ps k l \<noteq> 0"
    using d by (auto simp: distinct_append simp del: append_take_drop_id)
qed

lemma put_search_target:
  assumes rep: "sl_rep sl ps" and k: "8 \<le> length k" and len: "length ps < loop_fuel"
    and "i \<le> Suc (sl_height sl)" "length prevs = Suc tower_max_height" "length nexts = Suc tower_max_height"
    and "\<exists>j. j \<le> lower (sl_entries sl ps) k \<and> prevs ! i = (sl_head sl # ps) ! j \<and> (j = 0 \<or> on_level sl i (ps ! (j - 1)))"
    and "i = 0 \<Longrightarrow> \<not> present sl ps k"
  shows "if present sl ps k
    then put_search sl k v i prevs nexts = Ok (Inl (value_at (sl_entries sl ps) (lower (sl_entries sl ps) k) \<noteq> v))
    else \<exists>prevs' nexts'. put_search sl k v i prevs nexts = Ok (Inr (prevs', nexts')) \<and>
      length prevs' = Suc tower_max_height \<and> length nexts' = Suc tower_max_height \<and>
      (\<forall>m < i. prevs' ! m = pred_ptr sl ps k m \<and> nexts' ! m = succ_ptr sl ps k m) \<and>
      (\<forall>m \<ge> i. prevs' ! m = prevs ! m \<and> nexts' ! m = nexts ! m)"
  using assms(4-8)
proof (induction i arbitrary: prevs nexts)
  case (Suc i)
  let ?L = "lower (sl_entries sl ps) k"
  have ih: "i < tower_max_height" "i \<le> sl_height sl" using Suc.prems(1) rep by (auto simp: sl_rep_def)
  obtain j where j: "j \<le> ?L" "prevs ! Suc i = (sl_head sl # ps) ! j" "j = 0 \<or> on_level sl i (ps ! (j - 1))"
    using Suc.prems(4) Suc_leD by blast
  have b: "index prevs (Suc i) = Ok ((sl_head sl # ps) ! j)" using j(2) ih Suc.prems(2) by (simp add: index_def)
  note sp = find_splice_target[OF rep k j(1) ih(1) j(3), of loop_fuel]
  show ?case
  proof (cases "present sl ps k \<and> on_level sl i (ps ! ?L)")
    case True
    then have "?L < length ps" using present_iff[OF rep, of k] by simp
    then show ?thesis using True b sp len rep_node(4)[OF rep, of ?L] by (simp add: Let_def)
  next
    case False
    have step: "put_search sl k v (Suc i) prevs nexts =
      put_search sl k v i (prevs[i := pred_ptr sl ps k i]) (nexts[i := succ_ptr sl ps k i])"
      using b sp len False pred_succ_neq(1)[OF rep] by (auto simp: Let_def)
    have "\<exists>j. j \<le> ?L \<and> prevs[i := pred_ptr sl ps k i] ! i = (sl_head sl # ps) ! j \<and> (j = 0 \<or> on_level sl i (ps ! (j - 1)))"
      using pred_ptr_pos[OF rep, of k i] ih(1) Suc.prems(2) by simp
    moreover have "\<not> present sl ps k" if "i = 0" using False that by simp
    ultimately have ind: "if present sl ps k
    then put_search sl k v i (prevs[i := pred_ptr sl ps k i]) (nexts[i := succ_ptr sl ps k i]) =
      Ok (Inl (value_at (sl_entries sl ps) ?L \<noteq> v))
    else \<exists>prevs' nexts'. put_search sl k v i (prevs[i := pred_ptr sl ps k i]) (nexts[i := succ_ptr sl ps k i]) = Ok (Inr (prevs', nexts')) \<and>
      length prevs' = Suc tower_max_height \<and> length nexts' = Suc tower_max_height \<and>
      (\<forall>m < i. prevs' ! m = pred_ptr sl ps k m \<and> nexts' ! m = succ_ptr sl ps k m) \<and>
      (\<forall>m \<ge> i. prevs' ! m = (prevs[i := pred_ptr sl ps k i]) ! m \<and> nexts' ! m = (nexts[i := succ_ptr sl ps k i]) ! m)"
      using Suc.IH[of "prevs[i := pred_ptr sl ps k i]" "nexts[i := succ_ptr sl ps k i]"] Suc.prems(1-3) by simp
    show ?thesis
    proof (cases "present sl ps k")
      case True
      then show ?thesis using ind step by simp
    next
      case absent: False
      then obtain prevs' nexts' where r: "put_search sl k v i (prevs[i := pred_ptr sl ps k i]) (nexts[i := succ_ptr sl ps k i]) = Ok (Inr (prevs', nexts'))"
        "length prevs' = Suc tower_max_height" "length nexts' = Suc tower_max_height"
        "\<forall>m < i. prevs' ! m = pred_ptr sl ps k m \<and> nexts' ! m = succ_ptr sl ps k m"
        "\<forall>m \<ge> i. prevs' ! m = (prevs[i := pred_ptr sl ps k i]) ! m \<and> nexts' ! m = (nexts[i := succ_ptr sl ps k i]) ! m"
        using ind by auto
      have "prevs' ! m = pred_ptr sl ps k m \<and> nexts' ! m = succ_ptr sl ps k m" if "m < Suc i" for m
        using that r(4,5) ih(1) Suc.prems(2,3) by (cases "m = i") auto
      moreover have "prevs' ! m = prevs ! m \<and> nexts' ! m = nexts ! m" if "m \<ge> Suc i" for m
        using that r(5) by simp
      ultimately show ?thesis using absent step r(1-3) by auto
    qed
  qed
qed simp

lemma chain_cong: "\<forall>q \<in> set (p # qs). nx q = nx' q \<Longrightarrow> chain nx p qs = chain nx' p qs"
  by (induction qs arbitrary: p) auto

lemma chain_last: "chain nx p (as @ bs) \<Longrightarrow> nx (last (p # as)) = (case bs of [] \<Rightarrow> 0 | q # _ \<Rightarrow> q)"
  by (induction as arbitrary: p) (auto simp: chain_next)

lemma chain_insert:
  assumes "chain nx p (as @ bs)" "distinct (p # as @ bs)" "x \<notin> set (p # as @ bs)"
  shows "chain (nx(x := (case bs of [] \<Rightarrow> 0 | q # _ \<Rightarrow> q), last (p # as) := x)) p (as @ x # bs)"
  using assms
proof (induction as arbitrary: p)
  case Nil
  show ?case
  proof (cases bs)
    case (Cons b cs)
    then have "chain (nx(x := b, p := x)) b cs = chain nx b cs" using Nil.prems by (intro chain_cong) auto
    then show ?thesis using Nil.prems Cons by (auto simp: fun_upd_def)
  qed (use Nil.prems in auto)
next
  case (Cons a as)
  then have "last (a # as) \<noteq> p" using last_in_set[of "a # as"] by (metis Un_iff distinct.simps(2) list.distinct(1) set_append)
  then show ?case using Cons by auto
qed

text \<open>What linking leaves alone: everything but the pointers.\<close>

definition same_shape :: "skiplist \<Rightarrow> skiplist \<Rightarrow> bool" where
  "same_shape sl sl' \<longleftrightarrow>
     sl_head sl' = sl_head sl \<and> sl_height sl' = sl_height sl \<and> ar_len (sl_arena sl') = ar_len (sl_arena sl) \<and>
     ar_cap (sl_arena sl') = ar_cap (sl_arena sl) \<and>
     (\<forall>p. map_option (\<lambda>n. (nd_key n, nd_value n, nd_height n, length (nd_tower n))) (ar_mem (sl_arena sl') p) =
          map_option (\<lambda>n. (nd_key n, nd_value n, nd_height n, length (nd_tower n))) (ar_mem (sl_arena sl) p))"

lemma same_shape_refl [simp]: "same_shape sl sl"
  by (simp add: same_shape_def)

lemma same_shape_trans: "same_shape sl sl1 \<Longrightarrow> same_shape sl1 sl2 \<Longrightarrow> same_shape sl sl2"
  by (simp add: same_shape_def)

lemma same_shapeD:
  assumes "same_shape sl sl'" "ar_mem (sl_arena sl) p = Some n"
  obtains n' where "ar_mem (sl_arena sl') p = Some n'" "nd_key n' = nd_key n" "nd_value n' = nd_value n"
    "nd_height n' = nd_height n" "length (nd_tower n') = length (nd_tower n)"
proof -
  have "map_option (\<lambda>n. (nd_key n, nd_value n, nd_height n, length (nd_tower n))) (ar_mem (sl_arena sl') p) =
      Some (nd_key n, nd_value n, nd_height n, length (nd_tower n))" using assms by (simp add: same_shape_def)
  then show ?thesis using that by auto
qed

definition arena_ok :: "arena \<Rightarrow> bool" where
  "arena_ok ar \<longleftrightarrow> ar_cap ar < 2 ^ 32 \<and> 1 \<le> ar_len ar \<and> ar_len ar < 2 ^ 32 \<and> (\<forall>p \<in> dom (ar_mem ar). p < ar_len ar)"

lemma same_shape_arena:
  assumes "same_shape sl sl'" "arena_ok (sl_arena sl)"
  shows "arena_ok (sl_arena sl')"
proof -
  have "ar_mem (sl_arena sl') p = None \<longleftrightarrow> ar_mem (sl_arena sl) p = None" for p
  proof -
    have "map_option (\<lambda>n. (nd_key n, nd_value n, nd_height n, length (nd_tower n))) (ar_mem (sl_arena sl') p) =
      map_option (\<lambda>n. (nd_key n, nd_value n, nd_height n, length (nd_tower n))) (ar_mem (sl_arena sl) p)"
      using assms(1) by (simp add: same_shape_def)
    then show ?thesis by (cases "ar_mem (sl_arena sl') p"; cases "ar_mem (sl_arena sl) p") auto
  qed
  then have "dom (ar_mem (sl_arena sl')) = dom (ar_mem (sl_arena sl))" by (simp add: dom_def)
  then show ?thesis using assms unfolding same_shape_def arena_ok_def by simp
qed

lemma next_offset_nx:
  "ar_mem (sl_arena sl) p = Some n \<Longrightarrow> l < length (nd_tower n) \<Longrightarrow> next_offset sl p l = Ok (nx_of sl l p)"
  by (simp add: next_offset_def node_at_def index_def nx_of_def)

lemma set_next_ok:
  assumes "ar_mem (sl_arena sl) p = Some n" "l < length (nd_tower n)"
  shows "\<exists>sl'. set_next p l q sl = Ok sl' \<and> same_shape sl sl' \<and> nx_of sl' l = (nx_of sl l)(p := q) \<and>
    (\<forall>m. m \<noteq> l \<longrightarrow> nx_of sl' m = nx_of sl m)"
  using assms by (auto simp: set_next_def node_at_def index_def same_shape_def nx_of_def fun_eq_iff)

lemma link_level_step:
  assumes x: "ar_mem (sl_arena sl) x = Some n1" "i < length (nd_tower n1)"
    and p: "p = last (sl_head sl # as)" "ar_mem (sl_arena sl) p = Some n2" "i < length (nd_tower n2)" "p \<noteq> x" "p \<noteq> 0"
    and ch: "chain (nx_of sl i) (sl_head sl) (as @ bs)" and n: "n = (case bs of [] \<Rightarrow> 0 | q # _ \<Rightarrow> q)"
    and len: "i < length prevs" "i < length nexts"
    and pn: "prevs ! i = p \<and> nexts ! i = n \<or> prevs ! i = 0 \<and> 1 < i \<and> as = [] \<and> bs = []"
  shows "\<exists>prevs' nexts' sl'. link_level (Suc f) x i prevs nexts sl = Ok (Inr (prevs', nexts', sl')) \<and> same_shape sl sl' \<and>
    nx_of sl' i = (nx_of sl i)(x := n, p := x) \<and> (\<forall>m. m \<noteq> i \<longrightarrow> nx_of sl' m = nx_of sl m) \<and>
    length prevs' = length prevs \<and> length nexts' = length nexts \<and>
    (\<forall>m. m \<noteq> i \<longrightarrow> prevs' ! m = prevs ! m \<and> nexts' ! m = nexts ! m)"
proof -
  obtain g where g: "loop_fuel = Suc g" using not0_implies_Suc[of loop_fuel] by (auto simp: loop_fuel_def)
  obtain sl1 where sl1: "set_next x i n sl = Ok sl1" "same_shape sl sl1" "nx_of sl1 i = (nx_of sl i)(x := n)"
    "\<And>m. m \<noteq> i \<Longrightarrow> nx_of sl1 m = nx_of sl m" using set_next_ok[OF x] by blast
  obtain n3 where n3: "ar_mem (sl_arena sl1) p = Some n3" "i < length (nd_tower n3)"
    using same_shapeD[OF sl1(2) p(2)] p(3) by metis
  obtain sl2 where sl2: "set_next p i x sl1 = Ok sl2" "same_shape sl1 sl2" "nx_of sl2 i = (nx_of sl1 i)(p := x)"
    "\<And>m. m \<noteq> i \<Longrightarrow> nx_of sl2 m = nx_of sl1 m" using set_next_ok[OF n3] by blast
  have nx: "next_offset sl1 p i = Ok n" using next_offset_nx[OF n3] sl1(3) p(1,4) chain_last[OF ch] n by simp
  define prevs' where "prevs' = (if prevs ! i = 0 then prevs[i := p] else prevs)"
  define nexts' where "nexts' = (if prevs ! i = 0 then nexts[i := n] else nexts)"
  have upd: "prevs' ! i = p" "nexts' ! i = n" "length prevs' = length prevs" "length nexts' = length nexts"
    "\<And>m. m \<noteq> i \<Longrightarrow> prevs' ! m = prevs ! m \<and> nexts' ! m = nexts ! m"
    using pn len p(5) by (auto simp: prevs'_def nexts'_def)
  have refind: "find_splice_for_level loop_fuel sl (nd_key n1) (sl_head sl) i = Ok (p, n)" if "prevs ! i = 0"
    using that pn p next_offset_nx[OF p(2,3)] ch n by (auto simp: g)
  have "link_level (Suc f) x i prevs nexts sl = Ok (Inr (prevs', nexts', sl2))"
    using x(1) sl1(1) sl2(1) nx upd(1-4) len refind pn p(5) n
    by (auto simp: node_at_def index_def prevs'_def nexts'_def)
  then show ?thesis using upd sl1 sl2 same_shape_trans by (intro exI[of _ prevs'] exI[of _ nexts'] exI[of _ sl2]) auto
qed

lemma link_levels_chains:
  assumes "i \<le> Suc h"
    and x: "ar_mem (sl_arena sl) x = Some n1" "length (nd_tower n1) = Suc h"
    and pred: "\<And>l. i \<le> l \<Longrightarrow> l \<le> h \<Longrightarrow> \<exists>n2. ar_mem (sl_arena sl) (last (sl_head sl # as l)) = Some n2 \<and> l < length (nd_tower n2)"
    and old: "\<And>l. i \<le> l \<Longrightarrow> l \<le> h \<Longrightarrow> chain (nx_of sl l) (sl_head sl) (as l @ bs l) \<and>
      distinct (sl_head sl # as l @ bs l) \<and> x \<notin> set (sl_head sl # as l @ bs l) \<and> 0 \<notin> set (sl_head sl # as l)"
    and pn: "\<And>l. i \<le> l \<Longrightarrow> l \<le> h \<Longrightarrow> prevs ! l = last (sl_head sl # as l) \<and> nexts ! l = (case bs l of [] \<Rightarrow> 0 | q # _ \<Rightarrow> q) \<or>
      prevs ! l = 0 \<and> 1 < l \<and> as l = [] \<and> bs l = []"
    and len: "h < length prevs" "h < length nexts"
  shows "\<exists>sl'. link_levels x [i..<Suc h] prevs nexts sl = Ok (None, sl') \<and> same_shape sl sl' \<and>
    (\<forall>l. if i \<le> l \<and> l \<le> h then chain (nx_of sl' l) (sl_head sl) (as l @ x # bs l) else nx_of sl' l = nx_of sl l)"
  using assms
proof (induction "Suc h - i" arbitrary: i sl prevs nexts n1)
  case 0
  then show ?case by auto
next
  case (Suc d)
  have ih: "i \<le> h" and ups: "[i..<Suc h] = i # [Suc i..<Suc h]" using Suc.hyps(2) by (auto simp: upt_conv_Cons)
  obtain g where g: "loop_fuel = Suc g" using not0_implies_Suc[of loop_fuel] by (auto simp: loop_fuel_def)
  let ?p = "last (sl_head sl # as i)" and ?n = "case bs i of [] \<Rightarrow> 0 | q # _ \<Rightarrow> q"
  note o = Suc.prems(5)[OF order_refl ih]
  have mem: "?p \<in> set (sl_head sl # as i)" by (rule last_in_set) simp
  obtain n2 where n2: "ar_mem (sl_arena sl) ?p = Some n2" "i < length (nd_tower n2)" using Suc.prems(4)[OF order_refl ih] by blast
  have px: "?p \<noteq> x" "?p \<noteq> 0" using mem o by (metis Un_iff append_Cons set_append)+
  have it: "i < length (nd_tower n1)" using Suc.prems(3) ih by simp
  have "i < length prevs" "i < length nexts" using Suc.prems(7,8) ih by auto
  from link_level_step[OF Suc.prems(2) it refl n2 px conjunct1[OF o] refl this Suc.prems(6)[OF order_refl ih], of g]
  obtain prevs' nexts' sl' where st: "link_level loop_fuel x i prevs nexts sl = Ok (Inr (prevs', nexts', sl'))" "same_shape sl sl'"
    "nx_of sl' i = (nx_of sl i)(x := ?n, ?p := x)" "\<forall>m. m \<noteq> i \<longrightarrow> nx_of sl' m = nx_of sl m"
    "length prevs' = length prevs" "length nexts' = length nexts"
    "\<forall>m. m \<noteq> i \<longrightarrow> prevs' ! m = prevs ! m \<and> nexts' ! m = nexts ! m" unfolding g by blast
  obtain n1' where n1': "ar_mem (sl_arena sl') x = Some n1'" "length (nd_tower n1') = Suc h"
    using same_shapeD[OF st(2) Suc.prems(2)] Suc.prems(3) by metis
  have head: "sl_head sl' = sl_head sl" using st(2) by (simp add: same_shape_def)
  have pred': "\<exists>n2. ar_mem (sl_arena sl') (last (sl_head sl' # as l)) = Some n2 \<and> l < length (nd_tower n2)" if "Suc i \<le> l" "l \<le> h" for l
    using Suc.prems(4)[of l] that same_shapeD[OF st(2)] unfolding head by (metis Suc_leD)
  have old': "chain (nx_of sl' l) (sl_head sl') (as l @ bs l) \<and> distinct (sl_head sl' # as l @ bs l) \<and>
      x \<notin> set (sl_head sl' # as l @ bs l) \<and> 0 \<notin> set (sl_head sl' # as l)" if "Suc i \<le> l" "l \<le> h" for l
    using Suc.prems(5)[of l] that st(4) unfolding head by (metis Suc_leD Suc_n_not_le_n)
  have pn': "prevs' ! l = last (sl_head sl' # as l) \<and> nexts' ! l = (case bs l of [] \<Rightarrow> 0 | q # _ \<Rightarrow> q) \<or>
      prevs' ! l = 0 \<and> 1 < l \<and> as l = [] \<and> bs l = []" if "Suc i \<le> l" "l \<le> h" for l
    using Suc.prems(6)[of l] that st(7) unfolding head by (metis Suc_leD Suc_n_not_le_n)
  have "\<exists>sl''. link_levels x [Suc i..<Suc h] prevs' nexts' sl' = Ok (None, sl'') \<and> same_shape sl' sl'' \<and>
    (\<forall>l. if Suc i \<le> l \<and> l \<le> h then chain (nx_of sl'' l) (sl_head sl') (as l @ x # bs l) else nx_of sl'' l = nx_of sl' l)"
    by (rule Suc.hyps(1)[OF _ _ n1' pred' old' pn']) (use Suc.hyps(2) ih st(5,6) Suc.prems(7,8) in auto)
  then obtain sl'' where r: "link_levels x [Suc i..<Suc h] prevs' nexts' sl' = Ok (None, sl'')" "same_shape sl' sl''"
    "\<And>l. if Suc i \<le> l \<and> l \<le> h then chain (nx_of sl'' l) (sl_head sl) (as l @ x # bs l) else nx_of sl'' l = nx_of sl' l"
    unfolding head by auto
  have ci: "chain (nx_of sl'' i) (sl_head sl) (as i @ x # bs i)"
    using r(3)[of i] st(3) chain_insert[of "nx_of sl i" "sl_head sl" "as i" "bs i" x] o by simp
  have "if i \<le> l \<and> l \<le> h then chain (nx_of sl'' l) (sl_head sl) (as l @ x # bs l) else nx_of sl'' l = nx_of sl l" for l
  proof (cases "l = i")
    case False
    then show ?thesis using r(3)[of l] st(4) by (cases "i \<le> l \<and> l \<le> h") (auto split: if_splits)
  qed (use ci ih in simp)
  then show ?case using st(1) r(1) same_shape_trans[OF st(2) r(2)] unfolding ups by auto
qed

definition layout_ok :: "node_layout \<Rightarrow> bool" where
  "layout_ok nl \<longleftrightarrow> 0 < nl_align nl \<and> tower_max_height * 4 \<le> nl_size nl"

text \<open>The bytes a node of this height takes, padding included.\<close>

definition node_bytes :: "node_layout \<Rightarrow> nat \<Rightarrow> nat" where
  "node_bytes nl height = nl_size nl - (tower_max_height - height - 1) * 4 + (nl_align nl - 1)"

lemma node_alloc_ok:
  assumes "arena_ok ar" "layout_ok nl" "height < tower_max_height" "ar_len ar + node_bytes nl height \<le> ar_cap ar"
  shows "\<exists>x ar'. node_alloc nl k v height ar = Ok (x, ar') \<and> 0 < x \<and> ar_mem ar x = None \<and> arena_ok ar' \<and>
    ar_len ar' = ar_len ar + node_bytes nl height \<and> ar_cap ar' = ar_cap ar \<and>
    ar_mem ar' = (ar_mem ar)(x \<mapsto> \<lparr>nd_key = k, nd_value = v, nd_height = height, nd_tower = replicate (Suc height) 0\<rparr>)"
proof -
  define a where "a = nl_align nl"
  define sz where "sz = nl_size nl - (tower_max_height - height - 1) * 4"
  define off where "off = ar_len ar"
  define x where "x = (off + (a - 1)) div a * a"
  have a: "0 < a" "0 < sz" "(tower_max_height - height - 1) * 4 \<le> nl_size nl"
    using assms(2,3) by (auto simp: a_def sz_def layout_ok_def)
  have fits: "off + (sz + (a - 1)) \<le> ar_cap ar" "ar_cap ar < 2 ^ 32" "0 < off"
    using assms(1,4) by (auto simp: node_bytes_def sz_def a_def off_def arena_ok_def)
  have "(off + (a - 1)) mod a \<le> a - 1" using a(1) by (simp add: less_Suc_eq_le[symmetric])
  then have x: "off \<le> x" "x \<le> off + (a - 1)" unfolding x_def using div_mult_mod_eq[of "off + (a - 1)" a] by linarith+
  then have small: "x mod 2 ^ 32 = x" "(off + (sz + (a - 1))) mod 2 ^ 32 = off + (sz + (a - 1))" using fits a(2) by auto
  have new: "ar_mem ar x = None"
  proof (rule ccontr)
    assume "ar_mem ar x \<noteq> None"
    then have "x < ar_len ar" using assms(1) by (auto simp: arena_ok_def)
    then show False using x(1) by (simp add: off_def)
  qed
  have "arena_alloc a sz ar = Ok (x, ar\<lparr>ar_len := off + (sz + (a - 1))\<rparr>)"
    unfolding arena_alloc_def Let_def off_def[symmetric] x_def[symmetric] using fits(1) small by simp
  moreover have "\<forall>p \<in> dom (ar_mem ar). p < off + (sz + (a - 1))"
    using assms(1) trans_less_add1 unfolding arena_ok_def off_def by blast
  moreover have "sub_u64 (nl_size nl) ((tower_max_height - height - 1) * 4) = Ok sz" using a(3) by (simp add: sz_def)
  ultimately show ?thesis using x fits a(2) new
    by (intro exI[of _ x]) (auto simp: node_alloc_def a_def[symmetric] node_bytes_def sz_def off_def[symmetric] arena_ok_def)
qed

lemma key_sorted_insert:
  assumes "key_sorted es" "k \<notin> fst ` set es" "8 \<le> length k"
  shows "key_sorted (take (lower es k) es @ (k, v) # drop (lower es k) es)"
proof -
  let ?L = "lower es k"
  have "key_ord (fst e) < key_ord k" if "e \<in> set (take ?L es)" for e
    using that lower_iff[OF assms(1)] by (auto simp: in_set_conv_nth)
  moreover have "key_ord k < key_ord (fst e)" if e: "e \<in> set (drop ?L es)" for e
  proof -
    obtain m where m: "m < length (drop ?L es)" "drop ?L es ! m = e" using e unfolding in_set_conv_nth by blast
    then obtain i where i: "i < length es" "?L \<le> i" "es ! i = e" by (intro that[of "?L + m"]) auto
    then have "\<not> key_ord (fst e) < key_ord k" using lower_iff[OF assms(1), of i k] by auto
    moreover have "key_ord (fst e) \<noteq> key_ord k" using assms(2) i by (auto simp: key_ord_inject)
    ultimately show ?thesis by (simp add: less_le not_less)
  qed
  moreover have "key_sorted (take ?L es @ drop ?L es)" using assms(1) by simp
  ultimately show ?thesis using assms(3) unfolding key_sorted_append by (auto simp: key_sorted_def)
qed

lemma rep_length:
  assumes "sl_rep sl ps" "arena_ok (sl_arena sl)"
  shows "length ps < 2 ^ 32"
proof -
  have "set ps \<subseteq> {0..<ar_len (sl_arena sl)}" using assms unfolding sl_rep_def arena_ok_def by fastforce
  then have "card (set ps) \<le> ar_len (sl_arena sl)" using card_mono[of "{0..<ar_len (sl_arena sl)}"] by force
  moreover have "card (set ps) = length ps" using assms(1) by (simp add: sl_rep_def distinct_card)
  ultimately show ?thesis using assms(2) by (simp add: arena_ok_def)
qed

lemma rep_levels:
  fixes k :: bytes
  assumes "sl_rep sl ps" "l < tower_max_height"
  defines "as \<equiv> filter (on_level sl l) (take (lower (sl_entries sl ps) k) ps)"
    and "bs \<equiv> filter (on_level sl l) (drop (lower (sl_entries sl ps) k) ps)"
  shows "chain (nx_of sl l) (sl_head sl) (as @ bs)" "distinct (sl_head sl # as @ bs)" "0 \<notin> set (sl_head sl # as)"
    "set (sl_head sl # as @ bs) \<subseteq> set (sl_head sl # ps)"
    "\<exists>n. ar_mem (sl_arena sl) (last (sl_head sl # as)) = Some n \<and> l < length (nd_tower n)"
    "sl_height sl < l \<Longrightarrow> as = [] \<and> bs = []"
proof -
  have f: "as @ bs = filter (on_level sl l) ps" unfolding as_def bs_def by (metis append_take_drop_id filter_append)
  show "chain (nx_of sl l) (sl_head sl) (as @ bs)" using assms(1,2) unfolding f by (simp add: sl_rep_def)
  have "distinct ps" "0 \<notin> set ps" "sl_head sl \<notin> set ps" "sl_head sl \<noteq> 0" using assms(1) by (auto simp: sl_rep_def)
  moreover have sub: "set as \<subseteq> set ps" "set (as @ bs) \<subseteq> set ps" unfolding f by (auto simp: as_def dest: in_set_takeD)
  ultimately show "distinct (sl_head sl # as @ bs)" "0 \<notin> set (sl_head sl # as)" "set (sl_head sl # as @ bs) \<subseteq> set (sl_head sl # ps)"
    using f distinct_filter[of ps "on_level sl l"] by auto
  have h: "nd_height (node_of sl p) \<le> sl_height sl" if "p \<in> set ps" for p using assms(1) that by (fastforce simp: sl_rep_def)
  show "as = [] \<and> bs = []" if "sl_height sl < l"
  proof -
    have "filter (on_level sl l) ps = []" using h that by (force simp: filter_empty_conv)
    then show ?thesis using f by simp
  qed
  show "\<exists>n. ar_mem (sl_arena sl) (last (sl_head sl # as)) = Some n \<and> l < length (nd_tower n)"
  proof (cases "as = []")
    case True
    then show ?thesis using assms(1,2) by (auto simp: sl_rep_def)
  next
    case False
    then have "last as \<in> set as" by simp
    then have "last as \<in> set ps" "on_level sl l (last as)" using sub by (auto simp: as_def dest: in_set_takeD)
    then show ?thesis using assms(1) False by (fastforce simp: sl_rep_def)
  qed
qed

text \<open>The nodes after linking: those of the list keep their keys, values and heights.\<close>

lemma linked_rep:
  assumes rep: "sl_rep sl ps" and k: "8 \<le> length k" "\<not> present sl ps k" and h: "h < tower_max_height"
    and new: "0 < x" "ar_mem (sl_arena sl) x = None" "ar_mem ar = (ar_mem (sl_arena sl))(x \<mapsto>
      \<lparr>nd_key = k, nd_value = v, nd_height = h, nd_tower = replicate (Suc h) 0\<rparr>)"
    and shape: "same_shape (sl\<lparr>sl_height := max h (sl_height sl), sl_arena := ar\<rparr>) sl'"
    and L: "L = lower (sl_entries sl ps) k"
    and chains: "\<And>l. l < tower_max_height \<Longrightarrow> chain (nx_of sl' l) (sl_head sl)
      (if l \<le> h then filter (on_level sl l) (take L ps) @ x # filter (on_level sl l) (drop L ps) else filter (on_level sl l) ps)"
  shows "sl_rep sl' (take L ps @ x # drop L ps)"
    "sl_entries sl' (take L ps @ x # drop L ps) = take L (sl_entries sl ps) @ (k, v) # drop L (sl_entries sl ps)"
proof -
  have m: "\<exists>n'. ar_mem (sl_arena sl') p = Some n' \<and> nd_key n' = nd_key n \<and> nd_value n' = nd_value n \<and>
      nd_height n' = nd_height n \<and> length (nd_tower n') = length (nd_tower n)" if "ar_mem ar p = Some n" for p n
    using same_shapeD[OF shape, of p n] that by auto
  have hd: "sl_head sl' = sl_head sl" "sl_height sl' = max h (sl_height sl)" using shape by (auto simp: same_shape_def)
  have old: "ar_mem ar p = ar_mem (sl_arena sl) p" if "p \<in> set (sl_head sl # ps)" for p
    using that rep new by (auto simp: sl_rep_def)
  have same: "nd_key (node_of sl' p) = nd_key (node_of sl p) \<and> nd_value (node_of sl' p) = nd_value (node_of sl p) \<and>
      nd_height (node_of sl' p) = nd_height (node_of sl p)" if "p \<in> set ps" for p
    using rep that m[of p] old[of p] unfolding sl_rep_def by fastforce
  have x: "nd_key (node_of sl' x) = k" "nd_value (node_of sl' x) = v" "nd_height (node_of sl' x) = h"
    using m[of x] new(3) by auto
  have xps: "x \<notin> set ps" "x \<noteq> sl_head sl" using rep new(2) by (auto simp: sl_rep_def)
  show es: "sl_entries sl' (take L ps @ x # drop L ps) = take L (sl_entries sl ps) @ (k, v) # drop L (sl_entries sl ps)"
    using same x by (auto simp: sl_entries_def take_map drop_map dest: in_set_takeD in_set_dropD)
  have "key_sorted (sl_entries sl' (take L ps @ x # drop L ps))"
    unfolding es using key_sorted_insert[of "sl_entries sl ps" k v] rep k L by (simp add: sl_rep_def present_def)
  moreover have "set (take L ps) \<inter> set (drop L ps) = {}"
    using rep set_take_disj_set_drop_if_distinct[of ps L L] by (simp add: sl_rep_def)
  then have "distinct (0 # sl_head sl' # take L ps @ x # drop L ps)"
    using rep new(1) xps unfolding hd by (auto simp: sl_rep_def dest: in_set_takeD in_set_dropD)
  moreover have "\<exists>n. ar_mem (sl_arena sl') p = Some n \<and> length (nd_tower n) = Suc (nd_height n) \<and> nd_height n \<le> sl_height sl'"
    if "p \<in> set (take L ps @ x # drop L ps)" for p
  proof (cases "p = x")
    case True
    then show ?thesis using m[of x] new(3) hd(2) by auto
  next
    case False
    then have "p \<in> set ps" using that by (auto dest: in_set_takeD in_set_dropD)
    then show ?thesis using rep m[of p] old[of p] unfolding hd sl_rep_def by fastforce
  qed
  moreover have "\<exists>n. ar_mem (sl_arena sl') (sl_head sl') = Some n \<and> length (nd_tower n) = tower_max_height"
    using rep m[of "sl_head sl"] old[of "sl_head sl"] unfolding hd sl_rep_def by fastforce
  moreover have "chain (nx_of sl' l) (sl_head sl') (filter (on_level sl' l) (take L ps @ x # drop L ps))" if "l < tower_max_height" for l
  proof -
    have "filter (on_level sl' l) qs = filter (on_level sl l) qs" if "set qs \<subseteq> set ps" for qs
      using that same by (intro filter_cong) auto
    then have "filter (on_level sl' l) (take L ps @ x # drop L ps) = (if l \<le> h then filter (on_level sl l) (take L ps) @ x # filter (on_level sl l) (drop L ps)
        else filter (on_level sl l) (take L ps @ drop L ps))"
      using x(3) set_take_subset[of L ps] set_drop_subset[of L ps] by (simp del: append_take_drop_id)
    then show ?thesis using chains[OF that] unfolding hd(1) by (simp only: append_take_drop_id)
  qed
  ultimately show "sl_rep sl' (take L ps @ x # drop L ps)" using rep h hd(2) unfolding sl_rep_def by auto
qed

lemma put_search_from_head:
  fixes nexts :: "nat list"
  assumes rep: "sl_rep sl ps" and ok: "arena_ok (sl_arena sl)" and k: "8 \<le> length k"
  defines "es \<equiv> sl_entries sl ps" and "prevs \<equiv> (replicate (tower_max_height + 1) 0)[sl_height sl + 1 := sl_head sl]"
    and "nexts \<equiv> replicate (tower_max_height + 1) 0"
  shows "if present sl ps k
    then put_search sl k v (Suc (sl_height sl)) prevs nexts = Ok (Inl (value_at es (lower es k) \<noteq> v))
    else \<exists>prevs' nexts'. put_search sl k v (Suc (sl_height sl)) prevs nexts = Ok (Inr (prevs', nexts')) \<and>
      length prevs' = Suc tower_max_height \<and> length nexts' = Suc tower_max_height \<and>
      (\<forall>m < Suc (sl_height sl). prevs' ! m = pred_ptr sl ps k m \<and> nexts' ! m = succ_ptr sl ps k m) \<and>
      (\<forall>m \<ge> Suc (sl_height sl). prevs' ! m = prevs ! m \<and> nexts' ! m = nexts ! m)"
proof -
  have lh: "sl_height sl < tower_max_height" using rep by (simp add: sl_rep_def)
  have len: "length ps < loop_fuel" using rep_length[OF rep ok(1)] by (simp add: loop_fuel_def)
  show ?thesis
    unfolding es_def prevs_def nexts_def by (rule put_search_target[OF rep k len]) (use lh in \<open>auto intro!: exI[of _ 0]\<close>)
qed

text \<open>A put of a new key inserts it; a put of a key that is there changes nothing.\<close>

lemma sl_put_ok:
  assumes rep: "sl_rep sl ps" and ok: "arena_ok (sl_arena sl)" "layout_ok nl" and k: "8 \<le> length k" and h: "h < tower_max_height"
    and room: "ar_len (sl_arena sl) + node_bytes nl h \<le> ar_cap (sl_arena sl)"
  defines "es \<equiv> sl_entries sl ps"
  shows "if present sl ps k
    then sl_put nl h k v sl = Ok (if value_at es (lower es k) \<noteq> v then Some (k, v) else None, sl)
    else \<exists>sl' ps'. sl_put nl h k v sl = Ok (None, sl') \<and> sl_rep sl' ps' \<and> arena_ok (sl_arena sl') \<and>
      sl_entries sl' ps' = take (lower es k) es @ (k, v) # drop (lower es k) es \<and>
      ar_cap (sl_arena sl') = ar_cap (sl_arena sl) \<and> ar_len (sl_arena sl') = ar_len (sl_arena sl) + node_bytes nl h"
proof -
  let ?L = "lower es k" and ?lh = "sl_height sl"
  let ?prevs = "(replicate (tower_max_height + 1) 0)[?lh + 1 := sl_head sl]" and ?nexts = "replicate (tower_max_height + 1) 0 :: nat list"
  have lh: "?lh < tower_max_height" using rep by (simp add: sl_rep_def)
  note search = put_search_from_head[OF rep ok(1) k, of v, folded es_def]
  show ?thesis
  proof (cases "present sl ps k")
    case True
    then show ?thesis using search rep by (simp add: sl_put_def Let_def sl_rep_def)
  next
    case False
    then obtain prevs nexts where ps: "put_search sl k v (Suc ?lh) ?prevs ?nexts = Ok (Inr (prevs, nexts))"
      "length prevs = Suc tower_max_height" "length nexts = Suc tower_max_height"
      "\<And>m. m < Suc ?lh \<Longrightarrow> prevs ! m = pred_ptr sl ps k m \<and> nexts ! m = succ_ptr sl ps k m"
      "\<And>m. m \<ge> Suc ?lh \<Longrightarrow> prevs ! m = ?prevs ! m \<and> nexts ! m = ?nexts ! m"
      using search by auto
    define n where "n = \<lparr>nd_key = k, nd_value = v, nd_height = h, nd_tower = replicate (Suc h) 0\<rparr>"
    obtain x ar where ar: "node_alloc nl k v h (sl_arena sl) = Ok (x, ar)" "0 < x" "ar_mem (sl_arena sl) x = None" "arena_ok ar"
      "ar_len ar = ar_len (sl_arena sl) + node_bytes nl h" "ar_cap ar = ar_cap (sl_arena sl)" "ar_mem ar = (ar_mem (sl_arena sl))(x \<mapsto> n)"
      using node_alloc_ok[OF ok h room, of k v] unfolding n_def by blast
    define sl1 where "sl1 = sl\<lparr>sl_height := max h ?lh, sl_arena := ar\<rparr>"
    have maxh: "(if h > ?lh then h else ?lh) = max h ?lh" by (simp add: max_def)
    define as bs where "as l = filter (on_level sl l) (take ?L ps)" and "bs l = filter (on_level sl l) (drop ?L ps)" for l
    note lev = rep_levels[OF rep, where k = k, folded es_def, folded as_def bs_def]
    have xps: "x \<notin> set (sl_head sl # ps)" using rep ar(3) by (auto simp: sl_rep_def)
    have nx1: "nx_of sl1 l p = nx_of sl l p" if "p \<noteq> x" for l p using that ar(7) by (simp add: nx_of_def sl1_def)
    have ch1: "chain (nx_of sl1 l) (sl_head sl) (as l @ bs l)" if "l < tower_max_height" for l
      using lev(1)[OF that] chain_cong[of "sl_head sl" "as l @ bs l" "nx_of sl1 l" "nx_of sl l"] lev(4)[OF that] xps nx1 by (metis subsetD)
    obtain sl' where lk: "link_levels x [0..<Suc h] prevs nexts sl1 = Ok (None, sl')" "same_shape sl1 sl'"
      "\<And>l. if l \<le> h then chain (nx_of sl' l) (sl_head sl) (as l @ x # bs l) else nx_of sl' l = nx_of sl1 l"
    proof -
      have hd1: "sl_head sl1 = sl_head sl" by (simp add: sl1_def)
      have pred: "\<exists>n2. ar_mem (sl_arena sl1) (last (sl_head sl1 # as l)) = Some n2 \<and> l < length (nd_tower n2)" if "0 \<le> l" "l \<le> h" for l
        using lev(5)[of l] that h ar(3,7) unfolding hd1 by (auto simp: sl1_def)
      have old: "chain (nx_of sl1 l) (sl_head sl1) (as l @ bs l) \<and> distinct (sl_head sl1 # as l @ bs l) \<and>
          x \<notin> set (sl_head sl1 # as l @ bs l) \<and> 0 \<notin> set (sl_head sl1 # as l)" if "0 \<le> l" "l \<le> h" for l
        using ch1[of l] lev(2-4)[of l] xps that h unfolding hd1 by (meson le_less_trans subsetD)
      have pn: "prevs ! l = last (sl_head sl1 # as l) \<and> nexts ! l = (case bs l of [] \<Rightarrow> 0 | q # _ \<Rightarrow> q) \<or>
          prevs ! l = 0 \<and> 1 < l \<and> as l = [] \<and> bs l = []" if "0 \<le> l" "l \<le> h" for l
      proof (cases "l \<le> ?lh")
        case True
        then show ?thesis using ps(4)[of l] by (simp add: hd1 pred_ptr_def succ_ptr_def as_def bs_def es_def)
      next
        case False
        then show ?thesis using ps(5)[of l] lev(6)[of l] that h lh unfolding hd1 by (cases "l = Suc ?lh") auto
      qed
      have "ar_mem (sl_arena sl1) x = Some n" "length (nd_tower n) = Suc h" by (auto simp: sl1_def ar(7) n_def)
      from link_levels_chains[OF _ this pred old pn, of 0] ps(2,3) h obtain sl' where
        "link_levels x [0..<Suc h] prevs nexts sl1 = Ok (None, sl')" "same_shape sl1 sl'"
        "\<And>l. if l \<le> h then chain (nx_of sl' l) (sl_head sl) (as l @ x # bs l) else nx_of sl' l = nx_of sl1 l"
        unfolding hd1 by (auto simp del: upt_Suc)
      then show ?thesis by (rule that)
    qed
    have ch: "chain (nx_of sl' l) (sl_head sl) (if l \<le> h then filter (on_level sl l) (take ?L ps) @ x # filter (on_level sl l) (drop ?L ps)
        else filter (on_level sl l) ps)" if "l < tower_max_height" for l
    proof -
      have "as l @ bs l = filter (on_level sl l) ps" unfolding as_def bs_def by (metis append_take_drop_id filter_append)
      then show ?thesis using lk(3)[of l] ch1[OF that] unfolding as_def bs_def by (cases "l \<le> h") auto
    qed
    note final = linked_rep[OF rep k False h ar(2,3) ar(7)[unfolded n_def] lk(2)[unfolded sl1_def] refl, folded es_def, OF ch]
    have "sl_put nl h k v sl = Ok (None, sl')"
      using ps(1) ar(1) lk(1) lh unfolding sl_put_def Let_def maxh sl1_def by simp
    moreover have "arena_ok (sl_arena sl')" "ar_cap (sl_arena sl') = ar_cap (sl_arena sl)"
      "ar_len (sl_arena sl') = ar_len (sl_arena sl) + node_bytes nl h"
      using same_shape_arena[OF lk(2)] lk(2) ar(4-6) by (auto simp: sl1_def same_shape_def)
    ultimately show ?thesis using False final by auto
  qed
qed

section \<open>Reading a list\<close>

text \<open>The iterator as an instance of the iterator interface. The seeks of \<open>IterRef\<close> return nothing; the
  flag tells whether they lead to a node.\<close>

fun sk_seek_op :: "seek \<Rightarrow> skip_iter \<Rightarrow> (bool \<times> skip_iter) res" where
  "sk_seek_op First it = rbind (sk_seek_to_first it) (\<lambda>it. Ok (sk_valid it, it))"
| "sk_seek_op Last it = rbind (sk_seek_to_last it) (\<lambda>it. Ok (sk_valid it, it))"
| "sk_seek_op (RandomForward k) it = rbind (sk_seek k it) (\<lambda>it. Ok (sk_valid it, it))"
| "sk_seek_op (RandomBackward k) it = rbind (sk_seek_for_prev k it) (\<lambda>it. Ok (sk_valid it, it))"

definition skip_iterator_ops :: "skip_iter iterator_ops" where
  "skip_iterator_ops =
     \<lparr>it_next = sk_next, it_prev = sk_prev, it_key = sk_key, it_value = sk_value,
      it_is_valid = (\<lambda>it. Ok (sk_valid it)), it_seek = sk_seek_op\<rparr>"

definition sk_over :: "skip_iter \<Rightarrow> kvs \<Rightarrow> bool" where
  "sk_over it es \<longleftrightarrow> (\<exists>ps. sl_rep (sk_list it) ps \<and> arena_ok (sl_arena (sk_list it)) \<and> es = sl_entries (sk_list it) ps)"

definition sk_ahead :: "skip_iter \<Rightarrow> kvs \<Rightarrow> bool" where
  "sk_ahead it xs \<longleftrightarrow>
     (\<exists>ps i. sl_rep (sk_list it) ps \<and> arena_ok (sl_arena (sk_list it)) \<and> i \<le> length ps \<and>
        sk_cursor it = ptr_at ps (if i < length ps then Some i else None) \<and> xs = drop i (sl_entries (sk_list it) ps))"

lemma find_near_from_head:
  assumes "sl_rep sl ps" "arena_ok (sl_arena sl)" "8 \<le> length k"
  shows "find_near loop_fuel sl k lt allow_equal (sl_head sl) (sl_height sl) =
    Ok (ptr_at ps (near_target (sl_entries sl ps) k lt allow_equal))"
proof -
  have "sl_height sl < tower_max_height" using assms(1) by (simp add: sl_rep_def)
  then show ?thesis
    using find_near_target[OF assms(1,3), of 0 "sl_height sl" loop_fuel lt allow_equal] rep_length[OF assms(1,2)]
    by (simp add: loop_fuel_def tower_max_height_def)
qed

lemma sk_ahead_at:
  assumes "sl_rep (sk_list it) ps" "arena_ok (sl_arena (sk_list it))" "i \<le> length ps"
  shows "sk_ahead (it\<lparr>sk_cursor := ptr_at ps (if i < length ps then Some i else None)\<rparr>) (drop i (sl_entries (sk_list it) ps))"
  unfolding sk_ahead_def using assms by auto

lemma rep_first:
  assumes "sl_rep sl ps"
  shows "next_offset sl (sl_head sl) 0 = Ok (ptr_at ps (if 0 < length ps then Some 0 else None))"
  using rep_next[OF assms, of 0 0] by (cases ps) (auto simp: ptr_at_def tower_max_height_def)

text \<open>A new list is empty, and an allocation that succeeds had the room.\<close>

lemma skiplist_new_rep:
  assumes "skiplist_with_capacity nl n = Ok sl" "layout_ok nl" "n < 2 ^ 32"
  shows "sl_rep sl [] \<and> arena_ok (sl_arena sl) \<and> ar_cap (sl_arena sl) = n div 8 * 8"
proof -
  let ?ar = "arena_with_capacity n"
  have ok: "arena_ok ?ar" using assms(3) by (auto simp: arena_ok_def arena_with_capacity_def)
  have "ar_len ?ar + node_bytes nl (tower_max_height - 1) \<le> ar_cap ?ar"
    using assms(1) by (auto simp: skiplist_with_capacity_def node_alloc_def arena_alloc_def outcome_simps Let_def node_bytes_def)
  from node_alloc_ok[OF ok assms(2) _ this, of "[]" "[]"] assms(1) show ?thesis
    by (auto simp: skiplist_with_capacity_def sl_rep_def sl_entries_def key_sorted_def nx_of_def arena_with_capacity_def tower_max_height_def)
qed

lemma sl_put_room:
  assumes "sl_put nl h k v sl = Ok r" "\<not> present sl ps k" "sl_rep sl ps" "arena_ok (sl_arena sl)" "8 \<le> length k"
  shows "ar_len (sl_arena sl) + node_bytes nl h \<le> ar_cap (sl_arena sl)"
proof -
  obtain x where "node_alloc nl k v h (sl_arena sl) = Ok x"
    using assms(1,2) put_search_from_head[OF assms(3,4,5), of v] by (auto simp: sl_put_def Let_def outcome_simps)
  then show ?thesis by (auto simp: node_alloc_def arena_alloc_def outcome_simps Let_def node_bytes_def)
qed

end
