(* ===== verification/Search.thy ===== *)
theory Search
  imports Prelude
begin

text \<open>
  Binary search, in the form the standard library's \<open>slice::binary_search_by\<close> and the block searches
  of \<open>sstable_iterator.rs\<close> and \<open>concat_iterator.rs\<close> share: probe the middle of \<open>left..right\<close>, stop at an
  equal element, otherwise continue in one half. A probe may fail and may change a state.
\<close>

function bsearch ::
  "(nat \<Rightarrow> 's \<Rightarrow> (ordering \<times> 's) res) \<Rightarrow> nat \<Rightarrow> nat \<Rightarrow> 's \<Rightarrow> ((bool \<times> nat) \<times> 's) res" where
  "bsearch probe left right s =
     (if left < right then
        let mid = left + (right - left) div 2 in
        rbind (probe mid s) (\<lambda>(c, s).
          case c of
            Less \<Rightarrow> bsearch probe (mid + 1) right s
          | Equal \<Rightarrow> Ok ((True, mid), s)
          | Greater \<Rightarrow> bsearch probe left mid s)
      else Ok ((False, left), s))"
  by pat_completeness auto
termination
  by (relation "measure (\<lambda>(probe, left, right, s). right - left)") auto

declare bsearch.simps [simp del]

text \<open>\<open>slice::binary_search_by\<close>: \<open>Ok(i)\<close> for an equal element, \<open>Err(i)\<close> for the insertion point.\<close>

definition binary_search_by :: "('a \<Rightarrow> ordering res) \<Rightarrow> 'a list \<Rightarrow> (nat, nat) result res" where
  "binary_search_by f xs =
     rbind (bsearch (\<lambda>i _. rbind (f (xs ! i)) (\<lambda>c. Ok (c, ()))) 0 (length xs) ())
       (\<lambda>((found, i), _). Ok (if found then Ok i else Err i))"

text \<open>\<open>.unwrap_or_else(|x| x.saturating_sub(1))\<close>: the last element not above the target.\<close>

definition search_floor :: "('a \<Rightarrow> ordering res) \<Rightarrow> 'a list \<Rightarrow> nat res" where
  "search_floor f xs =
     rbind (binary_search_by f xs) (\<lambda>r. Ok (case r of Ok i \<Rightarrow> i | Err i \<Rightarrow> i - 1 | _ \<Rightarrow> 0))"

text \<open>The probes of a sorted sequence answer \<open>Less\<close> before a point and \<open>Greater\<close> from it on, apart
  from equal elements.\<close>

definition probe_order :: "(nat \<Rightarrow> ordering) \<Rightarrow> nat \<Rightarrow> bool" where
  "probe_order ord n \<longleftrightarrow>
     (\<forall>i j. i < j \<longrightarrow> j < n \<longrightarrow> (ord j \<noteq> Greater \<longrightarrow> ord i = Less) \<and> (ord i \<noteq> Less \<longrightarrow> ord j = Greater))"

lemma bsearch_correct:
  assumes "probe_order ord n" "right \<le> n" "left \<le> right" "I s"
    and "\<forall>i < left. ord i = Less" "\<forall>i. right \<le> i \<and> i < n \<longrightarrow> ord i = Greater"
    and probe: "\<And>i s. i < n \<Longrightarrow> I s \<Longrightarrow> \<exists>s'. probe i s = Ok (ord i, s') \<and> I s'"
  shows "\<exists>found i s'. bsearch probe left right s = Ok ((found, i), s') \<and> I s' \<and>
    (if found then i < n \<and> ord i = Equal
     else i \<le> n \<and> (\<forall>j < i. ord j = Less) \<and> (\<forall>j. i \<le> j \<and> j < n \<longrightarrow> ord j = Greater))"
  using assms(2-6)
proof (induction "right - left" arbitrary: left right s rule: less_induct)
  case less
  show ?case
  proof (cases "left < right")
    case False
    then show ?thesis using less.prems by (subst bsearch.simps) auto
  next
    case True
    define mid where "mid = left + (right - left) div 2"
    have mid: "left \<le> mid" "mid < right" "mid < n" using True less.prems(1) by (auto simp: mid_def)
    obtain s' where s': "probe mid s = Ok (ord mid, s')" "I s'" using probe[OF mid(3) less.prems(3)] by blast
    have step: "bsearch probe left right s = (case ord mid of
        Less \<Rightarrow> bsearch probe (mid + 1) right s' | Equal \<Rightarrow> Ok ((True, mid), s')
      | Greater \<Rightarrow> bsearch probe left mid s')"
      using True s'(1) unfolding mid_def by (subst bsearch.simps) (simp add: Let_def)
    show ?thesis
    proof (cases "ord mid")
      case Less
      have "\<forall>i < mid + 1. ord i = Less"
        using assms(1) Less mid(3) unfolding probe_order_def
        by (metis Suc_eq_plus1 less_Suc_eq ordering.distinct(3))
      with less.hyps[of right "mid + 1" s'] less.prems mid s'(2) step Less show ?thesis by simp
    next
      case Equal
      then show ?thesis using step mid s'(2) by auto
    next
      case Greater
      have "\<forall>i. mid \<le> i \<and> i < n \<longrightarrow> ord i = Greater"
        using assms(1) Greater unfolding probe_order_def
        by (metis le_neq_implies_less ordering.distinct(3))
      with less.hyps[of mid left s'] less.prems mid s'(2) step Greater show ?thesis by simp
    qed
  qed
qed

lemma search_floor_correct:
  assumes "probe_order ord (length xs)" "\<And>i. i < length xs \<Longrightarrow> f (xs ! i) = Ok (ord i)" "xs \<noteq> []"
  shows "\<exists>i. search_floor f xs = Ok i \<and> i < length xs \<and>
    (ord i \<noteq> Greater \<or> i = 0) \<and> (\<forall>j. i < j \<and> j < length xs \<longrightarrow> ord j = Greater)"
proof -
  let ?probe = "\<lambda>i _. rbind (f (xs ! i)) (\<lambda>c. Ok (c, ()))"
  have "\<exists>found i s'. bsearch ?probe 0 (length xs) () = Ok ((found, i), s') \<and> True \<and>
    (if found then i < length xs \<and> ord i = Equal
     else i \<le> length xs \<and> (\<forall>j < i. ord j = Less) \<and> (\<forall>j. i \<le> j \<and> j < length xs \<longrightarrow> ord j = Greater))"
    by (rule bsearch_correct[OF assms(1) order_refl]) (auto simp: assms(2))
  then obtain found i where r: "bsearch ?probe 0 (length xs) () = Ok ((found, i), ())"
    "if found then i < length xs \<and> ord i = Equal
     else i \<le> length xs \<and> (\<forall>j < i. ord j = Less) \<and> (\<forall>j. i \<le> j \<and> j < length xs \<longrightarrow> ord j = Greater)"
    by auto
  show ?thesis
  proof (cases found)
    case True
    then have "ord i \<noteq> Less" "i < length xs" using r(2) by auto
    then have "\<forall>j. i < j \<and> j < length xs \<longrightarrow> ord j = Greater"
      using assms(1) unfolding probe_order_def by blast
    moreover have "search_floor f xs = Ok i"
      using r(1) True by (simp add: search_floor_def binary_search_by_def)
    ultimately show ?thesis using \<open>i < length xs\<close> r(2) True by auto
  next
    case False
    then have "ord (i - 1) \<noteq> Greater \<or> i - 1 = 0" using r(2) by (cases i) auto
    moreover have "i - 1 < length xs" using r(2) False assms(3) by (cases i) auto
    moreover have "\<forall>j. i - 1 < j \<and> j < length xs \<longrightarrow> ord j = Greater" using r(2) False by auto
    moreover have "search_floor f xs = Ok (i - 1)"
      using r(1) False by (simp add: search_floor_def binary_search_by_def)
    ultimately show ?thesis by blast
  qed
qed

end
