(* ===== verification/Block.thy ===== *)
theory Block
  imports Iter Compression Search
begin

text \<open>
  \<open>storage/src/lsm_tree/components/block.rs\<close>: the blocks of a sorted-string table. The builder writes
  entries with their keys prefix-compressed against the preceding key, starting afresh at every
  restart point, and appends the restart points, a compression tag and a checksum. The decoder reads
  the trailer back; entries are decoded by the block iterator.
\<close>

section \<open>Blocks\<close>

record block =
  blk_data :: bytes
  blk_restart_points :: "nat list"

fun get_u32s :: "nat \<Rightarrow> bytes \<Rightarrow> nat list res" where
  "get_u32s 0 buf = Ok []"
| "get_u32s (Suc n) buf =
     rbind (get_u32_le buf) (\<lambda>(v, buf). rbind (get_u32s n buf) (\<lambda>vs. Ok (v # vs)))"

definition block_decode ::
  "(bytes \<Rightarrow> bytes option) \<Rightarrow> (bytes \<Rightarrow> nat) \<Rightarrow> bytes \<Rightarrow> block res" where
  "block_decode decompress crc32 buf =
     rbind (sub_u64 (length buf) 4) (\<lambda>chk_at.
     rbind (get_u32_le (drop chk_at buf)) (\<lambda>(chk, _).
     if \<not> crc32check crc32 (take chk_at buf) chk then Err (DecodeError ''invalid checksum'')
     else
       rbind (sub_u64 (length buf) 5) (\<lambda>tag_at.
       rbind (slice tag_at chk_at buf) (\<lambda>tag.
       rbind (map_err (\<lambda>_. DecodeError ''invalid compression algorithm'') (compression_decode tag))
         (\<lambda>(compression, _).
       rbind (case compression of
                NoCompression \<Rightarrow> Ok (take tag_at buf)
              | Lz4 \<Rightarrow> unwrap (decompress buf)) (\<lambda>buf.
       rbind (sub_u64 (length buf) 4) (\<lambda>count_at.
       rbind (get_u32_le (drop count_at buf)) (\<lambda>(n_restarts, _).
       rbind (sub_u64 count_at (n_restarts * 4)) (\<lambda>data_len.
       rbind (slice data_len count_at buf) (\<lambda>points_buf.
       rbind (get_u32s n_restarts points_buf) (\<lambda>points.
         Ok \<lparr>blk_data = take data_len buf, blk_restart_points = points\<rparr>)))))))))))"

definition block_len :: "block \<Rightarrow> nat res" where
  "block_len b = rbind (rassert (blk_data b \<noteq> [])) (\<lambda>_. Ok (length (blk_data b)))"

definition restart_point :: "block \<Rightarrow> nat \<Rightarrow> nat res" where
  "restart_point b i = index (blk_restart_points b) i"

definition restart_point_len :: "block \<Rightarrow> nat" where
  "restart_point_len b = length (blk_restart_points b)"

definition search_restart_point :: "block \<Rightarrow> nat \<Rightarrow> nat res" where
  "search_restart_point b offset =
     search_floor (\<lambda>point. Ok (cmp point (offset mod 2 ^ 32))) (blk_restart_points b)"

definition search_restart_point_by :: "block \<Rightarrow> (nat \<Rightarrow> ordering res) \<Rightarrow> nat res" where
  "search_restart_point_by b f = search_floor f (blk_restart_points b)"

definition block_slice :: "block \<Rightarrow> nat \<times> nat \<Rightarrow> bytes res" where
  "block_slice b rng = slice (fst rng) (snd rng) (blk_data b)"

section \<open>Key prefixes\<close>

record key_prefix =
  kp_overlap :: nat
  kp_diff :: nat
  kp_value :: nat
  kp_offset :: nat

definition prefix_encode :: "key_prefix \<Rightarrow> bytes \<Rightarrow> bytes" where
  "prefix_encode kp buf =
     put_var_u32 (of_nat (kp_value kp))
       (put_var_u32 (of_nat (kp_diff kp)) (put_var_u32 (of_nat (kp_overlap kp)) buf))"

definition prefix_decode :: "bytes \<Rightarrow> nat \<Rightarrow> key_prefix res" where
  "prefix_decode buf offset =
     rbind (get_var_u32 buf) (\<lambda>(overlap, buf).
     rbind (get_var_u32 buf) (\<lambda>(diff, buf).
     rbind (get_var_u32 buf) (\<lambda>(val, buf).
       Ok \<lparr>kp_overlap = unat overlap, kp_diff = unat diff, kp_value = unat val, kp_offset = offset\<rparr>)))"

definition prefix_len :: "key_prefix \<Rightarrow> nat" where
  "prefix_len kp = var_u32_len (of_nat (kp_overlap kp)) + var_u32_len (of_nat (kp_diff kp))
     + var_u32_len (of_nat (kp_value kp))"

definition overlap_len :: "key_prefix \<Rightarrow> nat" where
  "overlap_len kp = kp_overlap kp"

definition diff_key_range :: "key_prefix \<Rightarrow> nat \<times> nat" where
  "diff_key_range kp =
     (kp_offset kp + prefix_len kp, kp_offset kp + prefix_len kp + kp_diff kp)"

definition value_range :: "key_prefix \<Rightarrow> nat \<times> nat" where
  "value_range kp =
     (kp_offset kp + prefix_len kp + kp_diff kp,
      kp_offset kp + prefix_len kp + kp_diff kp + kp_value kp)"

definition entry_len :: "key_prefix \<Rightarrow> nat" where
  "entry_len kp = prefix_len kp + kp_diff kp + kp_value kp"

definition prefix_max_len :: nat where
  "prefix_max_len = 12"

section \<open>The builder\<close>

record block_builder =
  kb_buf :: bytes
  kb_restart_count :: nat
  kb_restart_points :: "nat list"
  kb_last_key :: bytes
  kb_entry_count :: nat
  kb_compression :: compression_algorithm

record block_builder_options =
  kbo_capacity :: nat
  kbo_compression_algorithm :: compression_algorithm
  kbo_restart_interval :: nat

text \<open>The buffers are allocated for the capacity; computing the number of restart points divides by
  the interval.\<close>

definition block_builder_new :: "block_builder_options \<Rightarrow> block_builder res" where
  "block_builder_new options =
     rbind (rassert (kbo_restart_interval options \<noteq> 0)) (\<lambda>_.
       Ok \<lparr>kb_buf = [], kb_restart_count = kbo_restart_interval options, kb_restart_points = [],
           kb_last_key = [], kb_entry_count = 0, kb_compression = kbo_compression_algorithm options\<rparr>)"

definition block_add :: "bytes \<Rightarrow> bytes \<Rightarrow> block_builder \<Rightarrow> block_builder res" where
  "block_add key val kb =
     rbind (if kb_entry_count kb > 0
            then rbind (compare_full_key (kb_last_key kb) key) (\<lambda>c. rassert (c = Less))
            else Ok ()) (\<lambda>_.
     rbind (rassert (kb_restart_count kb \<noteq> 0)) (\<lambda>_.
       let restart = (kb_entry_count kb mod kb_restart_count kb = 0);
           kb = (if restart
                 then kb\<lparr>kb_restart_points := kb_restart_points kb @ [length (kb_buf kb) mod 2 ^ 32],
                         kb_last_key := key\<rparr>
                 else kb);
           diff_key = (if restart then key else key_diff (kb_last_key kb) key);
           prefix = \<lparr>kp_overlap = length key - length diff_key, kp_diff = length diff_key,
                     kp_value = length val, kp_offset = length (kb_buf kb)\<rparr>;
           buf = prefix_encode prefix (kb_buf kb) @ diff_key @ val
       in Ok (kb\<lparr>kb_buf := buf, kb_last_key := key, kb_entry_count := kb_entry_count kb + 1\<rparr>)))"

definition block_build ::
  "(bytes \<Rightarrow> bytes) \<Rightarrow> (bytes \<Rightarrow> nat) \<Rightarrow> block_builder \<Rightarrow> bytes res" where
  "block_build compress crc32 kb =
     rbind (rassert (kb_entry_count kb > 0)) (\<lambda>_.
       let buf = fold (\<lambda>point buf. put_u32_le point buf) (kb_restart_points kb) (kb_buf kb);
           buf = put_u32_le (length (kb_restart_points kb)) buf;
           buf = (case kb_compression kb of NoCompression \<Rightarrow> buf | Lz4 \<Rightarrow> compress buf);
           buf = compression_encode (kb_compression kb) buf
       in Ok (put_u32_le (crc32sum crc32 buf) buf))"

definition block_approximate_len :: "block_builder \<Rightarrow> nat" where
  "block_approximate_len kb = length (kb_buf kb) + 4 * length (kb_restart_points kb) + 4 + 1 + 4"

section \<open>The layout of a block\<close>

text \<open>The reference layout: entry \<open>i\<close> of the list \<open>es\<close> shares \<open>overlap_at\<close> bytes with its predecessor
  unless it is at a restart point, every \<open>r\<close>-th entry.\<close>

definition overlap_at :: "nat \<Rightarrow> kvs \<Rightarrow> nat \<Rightarrow> nat" where
  "overlap_at r es i = (if i mod r = 0 then 0 else lcp (key_at es (i - 1)) (key_at es i))"

definition prefix_at :: "nat \<Rightarrow> kvs \<Rightarrow> nat \<Rightarrow> nat \<Rightarrow> key_prefix" where
  "prefix_at r es i offset =
     \<lparr>kp_overlap = overlap_at r es i, kp_diff = length (key_at es i) - overlap_at r es i,
      kp_value = length (value_at es i), kp_offset = offset\<rparr>"

definition entry_bytes :: "nat \<Rightarrow> kvs \<Rightarrow> nat \<Rightarrow> bytes" where
  "entry_bytes r es i =
     prefix_encode (prefix_at r es i 0) [] @ drop (overlap_at r es i) (key_at es i) @ value_at es i"

definition offset_of :: "nat \<Rightarrow> kvs \<Rightarrow> nat \<Rightarrow> nat" where
  "offset_of r es i = length (concat (map (entry_bytes r es) [0..<i]))"

definition layout :: "nat \<Rightarrow> kvs \<Rightarrow> bytes" where
  "layout r es = concat (map (entry_bytes r es) [0..<length es])"

definition restarts :: "nat \<Rightarrow> nat \<Rightarrow> nat" where
  "restarts r n = (n + r - 1) div r"

definition restart_offsets :: "nat \<Rightarrow> kvs \<Rightarrow> nat list" where
  "restart_offsets r es = map (\<lambda>j. offset_of r es (j * r)) [0..<restarts r (length es)]"

lemma restarts_Suc:
  assumes "0 < r"
  shows "restarts r (Suc n) = (if n mod r = 0 then Suc (n div r) else restarts r n)"
    and "n mod r = 0 \<Longrightarrow> restarts r n = n div r"
    and "restarts r (Suc n) = Suc (n div r)"
proof -
  show 3: "restarts r (Suc n) = Suc (n div r)"
    using assms by (simp add: restarts_def div_add_self2 del: div_add_self1)
  have n: "n = n div r * r + n mod r" by simp
  show 2: "n mod r = 0 \<Longrightarrow> restarts r n = n div r"
    unfolding restarts_def using n assms by (intro div_nat_eqI) (auto simp: algebra_simps)
  have "restarts r n = Suc (n div r)" if "n mod r \<noteq> 0"
  proof -
    have "n = r * (n div r) + n mod r" by simp
    then have "r * Suc (n div r) \<le> n + r - 1" "n + r - 1 < r * Suc (Suc (n div r))"
      using that mod_less_divisor[OF assms, of n] by (simp_all only: mult_Suc_right)
    then show ?thesis unfolding restarts_def by (intro div_nat_eqI) (simp_all add: mult.commute)
  qed
  then show "restarts r (Suc n) = (if n mod r = 0 then Suc (n div r) else restarts r n)" using 3 by simp
qed

lemma prefix_encode_append: "prefix_encode kp buf = buf @ prefix_encode kp []"
  unfolding prefix_encode_def
  by (metis append.assoc put_var_u32_append)

lemma length_prefix_encode [simp]: "length (prefix_encode kp []) = prefix_len kp"
  unfolding prefix_encode_def prefix_len_def by simp

lemma entry_bytes_append:
  "i < length es \<Longrightarrow> entry_bytes r (es @ fs) i = entry_bytes r es i"
  by (simp add: entry_bytes_def prefix_at_def overlap_at_def nth_append)

lemma offset_of_append: "i \<le> length es \<Longrightarrow> offset_of r (es @ fs) i = offset_of r es i"
  unfolding offset_of_def by (intro arg_cong[where f = length] arg_cong[where f = concat] map_cong)
    (auto simp: entry_bytes_append)

lemma layout_snoc: "layout r (es @ [e]) = layout r es @ entry_bytes r (es @ [e]) (length es)"
proof -
  have "map (entry_bytes r (es @ [e])) [0..<length es] = map (entry_bytes r es) [0..<length es]"
    by (intro map_cong) (auto simp: entry_bytes_append)
  then have "concat (map (entry_bytes r (es @ [e])) [0..<length es]) =
      concat (map (entry_bytes r es) [0..<length es])" by (rule arg_cong)
  then show ?thesis by (simp add: layout_def del: map_eq_conv)
qed

lemma offset_of_length: "offset_of r es (length es) = length (layout r es)"
  by (simp add: offset_of_def layout_def)

lemma restart_offsets_snoc:
  assumes "0 < r"
  shows "restart_offsets r (es @ [e]) =
    restart_offsets r es @ (if length es mod r = 0 then [length (layout r es)] else [])"
proof -
  have le: "j * r \<le> length es" if "j < restarts r (Suc (length es))" for j
  proof -
    have "j \<le> length es div r" using that restarts_Suc(3)[OF assms, of "length es"] by simp
    then have "j * r \<le> length es div r * r" by simp
    also have "\<dots> \<le> length es" by (rule div_times_less_eq_dividend)
    finally show ?thesis .
  qed
  have "restart_offsets r (es @ [e]) = map (\<lambda>j. offset_of r es (j * r)) [0..<restarts r (Suc (length es))]"
    unfolding restart_offsets_def by (intro map_cong) (auto simp: offset_of_append le)
  moreover have "offset_of r es (length es div r * r) = length (layout r es)" if "length es mod r = 0"
    using that offset_of_length[of r es] by (metis add.right_neutral div_mult_mod_eq)
  ultimately show ?thesis
    using restarts_Suc(1,2)[OF assms, of "length es"] by (auto simp: restart_offsets_def)
qed

section \<open>The builder writes the layout\<close>

definition built_block :: "nat \<Rightarrow> compression_algorithm \<Rightarrow> kvs \<Rightarrow> block_builder \<Rightarrow> bool" where
  "built_block r c es kb \<longleftrightarrow>
     kb_buf kb = layout r es \<and> kb_restart_count kb = r \<and>
     kb_restart_points kb = map (\<lambda>p. p mod 2 ^ 32) (restart_offsets r es) \<and>
     (es \<noteq> [] \<longrightarrow> kb_last_key kb = fst (last es)) \<and> kb_entry_count kb = length es \<and>
     kb_compression kb = c"

lemma key_diff_lcp: "key_diff base target = drop (lcp base target) target"
  by (simp add: key_diff_def bytes_diff_lcp)

lemma block_add_built:
  assumes "built_block r c es kb" "0 < r" "key_sorted (es @ [(key, val)])"
  shows "\<exists>kb'. block_add key val kb = Ok kb' \<and> built_block r c (es @ [(key, val)]) kb'"
proof -
  let ?es = "es @ [(key, val)]" and ?n = "length es"
  have cmp: "(if kb_entry_count kb > 0 then rbind (compare_full_key (kb_last_key kb) key) (\<lambda>c. rassert (c = Less))
      else Ok ()) = Ok ()"
    using assms(1) key_sorted_snoc[OF assms(3)] by (auto simp: built_block_def compare_full_key_cmp)
  define diff_key where "diff_key = (if ?n mod r = 0 then key else key_diff (kb_last_key kb) key)"
  have ov: "overlap_at r ?es ?n = (if ?n mod r = 0 then 0 else lcp (kb_last_key kb) key)"
  proof (cases "?n mod r = 0")
    case False
    then have "es \<noteq> []" by auto
    then have "?es ! (?n - 1) = last es" by (simp add: nth_append last_conv_nth)
    with False \<open>es \<noteq> []\<close> assms(1) show ?thesis by (simp add: overlap_at_def built_block_def)
  qed (simp add: overlap_at_def)
  then have diff: "diff_key = drop (overlap_at r ?es ?n) key" "overlap_at r ?es ?n \<le> length key"
    using lcp_le(2)[of "kb_last_key kb" key] by (auto simp: diff_key_def key_diff_lcp)
  then have pre: "length key - length diff_key = overlap_at r ?es ?n"
    "length diff_key = length key - overlap_at r ?es ?n" by auto
  have eb: "entry_bytes r ?es ?n = prefix_encode \<lparr>kp_overlap = length key - length diff_key,
      kp_diff = length diff_key, kp_value = length val, kp_offset = off\<rparr> [] @ diff_key @ val" for off
    using diff(1) unfolding pre(1) by (simp add: entry_bytes_def prefix_at_def prefix_encode_def)
  define kb' where "kb' = (if ?n mod r = 0
      then kb\<lparr>kb_restart_points := kb_restart_points kb @ [length (kb_buf kb) mod 2 ^ 32]\<rparr> else kb)
      \<lparr>kb_buf := kb_buf kb @ entry_bytes r ?es ?n, kb_last_key := key, kb_entry_count := ?n + 1\<rparr>"
  have "block_add key val kb = Ok kb'"
    using assms(1,2) cmp eb[of "length (kb_buf kb)"] unfolding block_add_def kb'_def
    by (simp add: built_block_def diff_key_def Let_def
        prefix_encode_append[of "\<lparr>kp_overlap = _, kp_diff = _, kp_value = _, kp_offset = _\<rparr>" "layout r es"])
  moreover have "built_block r c ?es kb'"
    using assms(1) by (auto simp: built_block_def kb'_def layout_snoc restart_offsets_snoc[OF assms(2)])
  ultimately show ?thesis by blast
qed

lemma block_add_all:
  assumes "0 < r" "key_sorted (es @ fs)" "built_block r c es kb"
  shows "\<exists>kb'. rfold (\<lambda>(k, v). block_add k v) fs kb = Ok kb' \<and> built_block r c (es @ fs) kb'"
  using assms(2,3)
proof (induction fs arbitrary: es kb)
  case (Cons f fs)
  obtain k v where f: "f = (k, v)" by fastforce
  have "key_sorted (es @ [(k, v)])"
    using Cons.prems(1) by (auto simp: f key_sorted_def sorted_wrt_append)
  from block_add_built[OF Cons.prems(2) assms(1) this] obtain kb' where
    "block_add k v kb = Ok kb'" "built_block r c (es @ [(k, v)]) kb'" by blast
  with Cons.IH[of "es @ [(k, v)]" kb'] Cons.prems(1) show ?case by (simp add: f)
qed simp

lemma built_block_new:
  "0 < kbo_restart_interval o1 \<Longrightarrow> \<exists>kb. block_builder_new o1 = Ok kb \<and>
     built_block (kbo_restart_interval o1) (kbo_compression_algorithm o1) [] kb"
  by (simp add: block_builder_new_def built_block_def layout_def restart_offsets_def restarts_def)

section \<open>Decoding a built block\<close>

definition block_image :: "nat \<Rightarrow> kvs \<Rightarrow> block" where
  "block_image r es = \<lparr>blk_data = layout r es, blk_restart_points = restart_offsets r es\<rparr>"

lemma length_entry_bytes: "3 \<le> length (entry_bytes r es i)"
  using var_u32_len_bounds[of "of_nat (overlap_at r es i)"]
    var_u32_len_bounds[of "of_nat (length (key_at es i) - overlap_at r es i)"]
    var_u32_len_bounds[of "of_nat (length (value_at es i))"]
  by (simp add: entry_bytes_def prefix_len_def prefix_at_def)

lemma offset_of_Suc: "offset_of r es (Suc i) = offset_of r es i + length (entry_bytes r es i)"
  by (simp add: offset_of_def)

lemma offset_of_mono: "i \<le> j \<Longrightarrow> offset_of r es i \<le> offset_of r es j"
  by (rule lift_Suc_mono_le[of "offset_of r es"]) (simp_all add: offset_of_Suc)

lemma offset_of_strict: "i < j \<Longrightarrow> offset_of r es i < offset_of r es j"
proof (rule lift_Suc_mono_less[of "offset_of r es"])
  show "offset_of r es k < offset_of r es (Suc k)" for k
    using length_entry_bytes[of r es k] by (auto simp: offset_of_Suc)
qed

lemma offset_of_less_iff: "offset_of r es i < offset_of r es j \<longleftrightarrow> i < j"
  by (metis leD linorder_le_less_linear offset_of_mono offset_of_strict)

lemma offset_of_le_iff: "offset_of r es i \<le> offset_of r es j \<longleftrightarrow> i \<le> j"
  by (simp add: offset_of_less_iff flip: not_less)

lemma offset_of_eq_iff: "offset_of r es i = offset_of r es j \<longleftrightarrow> i = j"
  by (metis less_irrefl linorder_neqE_nat offset_of_strict)

lemma offset_of_ge: "i \<le> offset_of r es i"
proof (induction i)
  case (Suc i)
  then show ?case using length_entry_bytes[of r es i] by (simp add: offset_of_Suc)
qed simp

lemma restarts_le: "0 < r \<Longrightarrow> restarts r n \<le> n"
proof -
  assume r: "0 < r"
  show "restarts r n \<le> n"
  proof (cases n)
    case (Suc m)
    then show ?thesis using restarts_Suc(3)[OF r, of m] by simp
  qed (use r in \<open>simp add: restarts_def\<close>)
qed

lemma get_u32s_put:
  "get_u32s (length ps) (concat (map (le_bytes 4) ps) @ rest) = Ok (map (\<lambda>p. p mod 2 ^ 32) ps)"
  by (induction ps) (simp_all add: codec_simps)

lemma fold_put_u32_le:
  "fold (\<lambda>point buf. put_u32_le point buf) ps buf = buf @ concat (map (le_bytes 4) ps)"
  by (induction ps arbitrary: buf) simp_all

lemma restart_offsets_bound:
  assumes "p \<in> set (restart_offsets r es)" "0 < r" "es \<noteq> []"
  shows "p < length (layout r es)"
proof -
  obtain j where j: "j < restarts r (length es)" "p = offset_of r es (j * r)"
    using assms(1) by (auto simp: restart_offsets_def)
  obtain n where n: "length es = Suc n" using assms(3) by (cases "length es") auto
  have "j \<le> n div r" using j(1) restarts_Suc(3)[OF assms(2), of n] n by simp
  then have "j * r \<le> n" by (metis assms(2) less_eq_div_iff_mult_less_eq)
  then show ?thesis using offset_of_strict[of "j * r" "length es" r es] n j(2) by (simp flip: offset_of_length)
qed

lemma block_body_decode:
  fixes data :: bytes
  assumes "\<forall>p \<in> set ps. p < 2 ^ 32" "length ps < 2 ^ 32"
  defines "body \<equiv> data @ concat (map (le_bytes 4) ps) @ le_bytes 4 (length ps)"
  shows "rbind (sub_u64 (length body) 4) (\<lambda>count_at.
       rbind (get_u32_le (drop count_at body)) (\<lambda>(n_restarts, _).
       rbind (sub_u64 count_at (n_restarts * 4)) (\<lambda>data_len.
       rbind (slice data_len count_at body) (\<lambda>points_buf.
       rbind (get_u32s n_restarts points_buf) (\<lambda>points.
         Ok \<lparr>blk_data = take data_len body, blk_restart_points = points\<rparr>))))) =
    Ok \<lparr>blk_data = data, blk_restart_points = ps\<rparr>"
proof -
  have len: "length (concat (map (le_bytes 4) ps)) = length ps * 4" by (induction ps) auto
  have "map (\<lambda>p. p mod 2 ^ 32) ps = ps" using assms(1) by (intro map_idI) auto
  then have pts: "get_u32s (length ps) (concat (map (le_bytes 4) ps)) = Ok ps"
    using get_u32s_put[of ps "[]"] by simp
  have cnt: "get_le 4 (le_bytes 4 (length ps)) = Ok (length ps, [])"
    using get_le_put[of 4 "length ps" "[]"] assms(2) by simp
  have "length body = length data + length ps * 4 + 4" by (simp add: body_def len)
  then have "sub_u64 (length body) 4 = Ok (length data + length ps * 4)" by (simp add: sub_u64_def)
  moreover have "drop (length data + length ps * 4) body = le_bytes 4 (length ps)"
    by (simp add: body_def len flip: len)
  moreover have "slice (length data) (length data + length ps * 4) body = Ok (concat (map (le_bytes 4) ps))"
    unfolding body_def by (rule slice_append) (simp_all add: len)
  moreover have "take (length data) body = data" by (simp add: body_def)
  ultimately show ?thesis by (simp add: cnt pts)
qed

lemma block_decode_build:
  assumes "built_block r c es kb" "es \<noteq> []" "0 < r" "length (layout r es) < 2 ^ 32"
    and lz4: "lz4_frames compress decompress" and crc: "\<And>bs. crc32 bs < 2 ^ 32"
  shows "\<exists>buf. block_build compress crc32 kb = Ok buf \<and>
    block_decode decompress crc32 buf = Ok (block_image r es)"
proof -
  define ps where "ps = restart_offsets r es"
  define body where "body = layout r es @ concat (map (le_bytes 4) ps) @ le_bytes 4 (length ps)"
  define packed where "packed = (case c of NoCompression \<Rightarrow> body | Lz4 \<Rightarrow> compress body)"
  define tagged where "tagged = packed @ [case c of NoCompression \<Rightarrow> 0 | Lz4 \<Rightarrow> 1]"
  define buf where "buf = tagged @ le_bytes 4 (crc32 tagged)"
  have ps: "\<forall>p \<in> set ps. p < 2 ^ 32"
    using restart_offsets_bound[OF _ assms(3,2)] assms(4) by (force simp: ps_def)
  have "length ps \<le> length es" using restarts_le[OF assms(3)] by (simp add: ps_def restart_offsets_def)
  also have "\<dots> \<le> length (layout r es)" using offset_of_ge[of "length es" r es] by (simp add: offset_of_length)
  finally have lps: "length ps < 2 ^ 32" using assms(4) by linarith
  have "map (\<lambda>p. p mod 2 ^ 32) ps = ps" using ps by (intro map_idI) auto
  then have "block_build compress crc32 kb = Ok buf"
    using assms(1,2)
    by (cases c) (simp_all add: block_build_def built_block_def fold_put_u32_le compression_encode_def crc32sum_def
        buf_def tagged_def packed_def body_def ps_def Let_def)
  moreover have "block_decode decompress crc32 buf = Ok (block_image r es)"
  proof -
    have chk: "get_le 4 (le_bytes 4 (crc32 tagged)) = Ok (crc32 tagged, [])"
      using get_le_put[of 4 "crc32 tagged" "[]"] crc[of tagged] by simp
    have len: "length buf = length packed + 5" by (simp add: buf_def tagged_def)
    have parts: "drop (length packed + 1) buf = le_bytes 4 (crc32 tagged)"
      "take (length packed + 1) buf = tagged" "take (length packed) buf = packed"
      by (simp_all add: buf_def tagged_def)
    have "slice (length packed) (length packed + 1) buf = Ok [case c of NoCompression \<Rightarrow> 0 | Lz4 \<Rightarrow> 1]"
      unfolding buf_def tagged_def append.assoc by (rule slice_append) simp_all
    moreover have "compression_decode [case c of NoCompression \<Rightarrow> 0 | Lz4 \<Rightarrow> 1] = Ok (c, [])"
      using compression_decode_encode[of c "[]"] by (simp add: compression_encode_def)
    moreover have "(case c of NoCompression \<Rightarrow> Ok (take (length packed) buf)
        | Lz4 \<Rightarrow> unwrap (decompress buf)) = (Ok body :: bytes res)"
      using lz4 parts(3) by (cases c) (simp_all add: packed_def lz4_frames_def buf_def tagged_def)
    ultimately show ?thesis
      using chk len parts block_body_decode[OF ps lps, of "layout r es"]
      by (simp add: block_decode_def crc32check_def block_image_def ps_def body_def)
  qed
  ultimately show ?thesis by blast
qed

lemma block_build_length:
  assumes "built_block r NoCompression es kb" "block_build compress crc32 kb = Ok buf"
  shows "length buf = length (layout r es) + 4 * length (restart_offsets r es) + 9"
proof -
  have len: "length (concat (map (\<lambda>p. le_bytes 4 (f p)) ps)) = 4 * length ps" for f :: "nat \<Rightarrow> nat" and ps
    by (induction ps) auto
  show ?thesis
    using assms by (auto simp: block_build_def built_block_def fold_put_u32_le compression_encode_def Let_def
        outcome_simps comp_def len)
qed

end
