(* ===== verification/BlockIterator.thy ===== *)
theory BlockIterator
  imports Block
begin

text \<open>
  \<open>storage/src/lsm_tree/iterator/block_iterator.rs\<close>: the cursor over the entries of one block. It
  keeps the offset of its entry, the decoded key, the range of the value and the index of the restart
  point it belongs to; moving back restarts from a restart point and scans forward.

  The scanning loops run on fuel: one step per byte of the block is more than enough, since every
  entry takes at least three bytes.
\<close>

record block_iterator =
  bi_block :: block
  bi_restart_point_index :: nat
  bi_offset :: nat
  bi_key :: bytes
  bi_value_range :: "nat \<times> nat"
  bi_entry_len :: nat

definition bi_new :: "block \<Rightarrow> block_iterator" where
  "bi_new b = \<lparr>bi_block = b, bi_restart_point_index = u64_max, bi_offset = u64_max, bi_key = [],
     bi_value_range = (0, 0), bi_entry_len = 0\<rparr>"

definition bi_invalid :: "block_iterator \<Rightarrow> block_iterator res" where
  "bi_invalid it =
     rbind (block_len (bi_block it)) (\<lambda>len.
       Ok (it\<lparr>bi_offset := len, bi_restart_point_index := restart_point_len (bi_block it),
              bi_key := [], bi_value_range := (0, 0), bi_entry_len := 0\<rparr>))"

definition bi_is_valid :: "block_iterator \<Rightarrow> bool res" where
  "bi_is_valid it = rbind (block_len (bi_block it)) (\<lambda>len. Ok (bi_offset it < len))"

definition decode_prefix_at :: "block \<Rightarrow> nat \<Rightarrow> key_prefix res" where
  "decode_prefix_at b offset =
     rbind (block_len b) (\<lambda>len.
     rbind (block_slice b (offset, min (offset + prefix_max_len) len)) (\<lambda>buf.
       prefix_decode buf offset))"

definition bi_next_inner :: "block_iterator \<Rightarrow> block_iterator res" where
  "bi_next_inner it =
     rbind (add_u64 (bi_offset it) (bi_entry_len it)) (\<lambda>offset.
     rbind (block_len (bi_block it)) (\<lambda>len.
       if len \<le> offset then bi_invalid it
       else
         rbind (decode_prefix_at (bi_block it) offset) (\<lambda>prefix.
         rbind (block_slice (bi_block it) (diff_key_range prefix)) (\<lambda>diff_key.
           let it = it\<lparr>bi_key := take (overlap_len prefix) (bi_key it) @ diff_key,
                       bi_value_range := value_range prefix, bi_offset := offset,
                       bi_entry_len := entry_len prefix\<rparr>
           in if bi_restart_point_index it + 1 < restart_point_len (bi_block it)
              then rbind (restart_point (bi_block it) (bi_restart_point_index it + 1)) (\<lambda>point.
                     Ok (if point \<le> bi_offset it
                         then it\<lparr>bi_restart_point_index := bi_restart_point_index it + 1\<rparr> else it))
              else Ok it))))"

definition bi_fuel :: "block_iterator \<Rightarrow> nat" where
  "bi_fuel it = length (blk_data (bi_block it)) + 2"

definition key_compares :: "block_iterator \<Rightarrow> bytes \<Rightarrow> ordering \<Rightarrow> bool res" where
  "key_compares it key c =
     rbind (bi_is_valid it) (\<lambda>valid.
       if valid then rbind (compare_full_key (bi_key it) key) (\<lambda>c'. Ok (c' = c)) else Ok False)"

definition bi_next_until_key :: "bytes \<Rightarrow> block_iterator \<Rightarrow> block_iterator res" where
  "bi_next_until_key key it =
     rwhile (bi_fuel it) (\<lambda>it. key_compares it key Less) bi_next_inner it"

definition bi_next_until_prev :: "nat \<Rightarrow> block_iterator \<Rightarrow> block_iterator res" where
  "bi_next_until_prev offset it =
     rwhile (bi_fuel it)
       (\<lambda>it. rbind (block_len (bi_block it)) (\<lambda>len. Ok (bi_offset it + bi_entry_len it < min len offset)))
       bi_next_inner it"

definition seek_restart_point_by_index :: "nat \<Rightarrow> block_iterator \<Rightarrow> block_iterator res" where
  "seek_restart_point_by_index i it =
     rbind (restart_point (bi_block it) i) (\<lambda>offset.
     rbind (decode_prefix_at (bi_block it) offset) (\<lambda>prefix.
     rbind (block_slice (bi_block it) (diff_key_range prefix)) (\<lambda>key.
       Ok (it\<lparr>bi_key := key, bi_value_range := value_range prefix, bi_offset := offset,
              bi_entry_len := entry_len prefix, bi_restart_point_index := i\<rparr>))))"

definition bi_prev_inner :: "block_iterator \<Rightarrow> block_iterator res" where
  "bi_prev_inner it =
     (if bi_offset it = 0 then bi_invalid it
      else
        rbind (restart_point (bi_block it) (bi_restart_point_index it)) (\<lambda>point.
        rbind (if point = bi_offset it then sub_u64 (bi_restart_point_index it) 1
               else Ok (bi_restart_point_index it)) (\<lambda>i.
        rbind (seek_restart_point_by_index i it) (bi_next_until_prev (bi_offset it)))))"

definition bi_prev_until_key :: "bytes \<Rightarrow> block_iterator \<Rightarrow> block_iterator res" where
  "bi_prev_until_key key it =
     rwhile (bi_fuel it) (\<lambda>it. key_compares it key Greater) bi_prev_inner it"

definition search_restart_point_index_by_key :: "block_iterator \<Rightarrow> bytes \<Rightarrow> nat res" where
  "search_restart_point_index_by_key it key =
     search_restart_point_by (bi_block it) (\<lambda>probe.
       rbind (decode_prefix_at (bi_block it) probe) (\<lambda>prefix.
       rbind (block_slice (bi_block it) (diff_key_range prefix)) (\<lambda>probe_key.
         compare_full_key probe_key key)))"

definition seek_restart_point_by_key :: "bytes \<Rightarrow> block_iterator \<Rightarrow> block_iterator res" where
  "seek_restart_point_by_key key it =
     rbind (search_restart_point_index_by_key it key) (\<lambda>i. seek_restart_point_by_index i it)"

definition bi_next :: "block_iterator \<Rightarrow> block_iterator res" where
  "bi_next it = rbind (bi_is_valid it) (\<lambda>valid. rbind (rassert valid) (\<lambda>_. bi_next_inner it))"

definition bi_prev :: "block_iterator \<Rightarrow> block_iterator res" where
  "bi_prev it = rbind (bi_is_valid it) (\<lambda>valid. rbind (rassert valid) (\<lambda>_. bi_prev_inner it))"

definition bi_key_of :: "block_iterator \<Rightarrow> bytes res" where
  "bi_key_of it = rbind (bi_is_valid it) (\<lambda>valid. rbind (rassert valid) (\<lambda>_. Ok (bi_key it)))"

definition bi_value_of :: "block_iterator \<Rightarrow> bytes res" where
  "bi_value_of it =
     rbind (bi_is_valid it) (\<lambda>valid.
     rbind (rassert valid) (\<lambda>_. block_slice (bi_block it) (bi_value_range it)))"

definition bi_seek_last :: "block_iterator \<Rightarrow> block_iterator res" where
  "bi_seek_last it =
     rbind (sub_u64 (restart_point_len (bi_block it)) 1) (\<lambda>i.
     rbind (seek_restart_point_by_index i it) (\<lambda>it.
     rbind (block_len (bi_block it)) (\<lambda>len. bi_next_until_prev len it)))"

text \<open>\<open>self.is_valid() && self.key() == key\<close>\<close>

definition bi_found :: "bytes \<Rightarrow> block_iterator \<Rightarrow> (bool \<times> block_iterator) res" where
  "bi_found key it = rbind (bi_is_valid it) (\<lambda>valid.
     if valid then rbind (bi_key_of it) (\<lambda>k. Ok (k = key, it)) else Ok (False, it))"

fun bi_seek :: "seek \<Rightarrow> block_iterator \<Rightarrow> (bool \<times> block_iterator) res" where
  "bi_seek First it =
     rbind (seek_restart_point_by_index 0 it) (\<lambda>it.
     rbind (bi_is_valid it) (\<lambda>valid. Ok (valid, it)))"
| "bi_seek Last it =
     rbind (bi_seek_last it) (\<lambda>it.
     rbind (bi_is_valid it) (\<lambda>valid. Ok (valid, it)))"
| "bi_seek (RandomForward key) it =
     rbind (seek_restart_point_by_key key it) (\<lambda>it.
     rbind (bi_next_until_key key it) (bi_found key))"
| "bi_seek (RandomBackward key) it =
     rbind (seek_restart_point_by_key key it) (\<lambda>it.
     rbind (bi_next_until_key key it) (\<lambda>it.
     rbind (bi_is_valid it) (\<lambda>valid.
     rbind (if valid then Ok it else bi_seek_last it) (\<lambda>it.
     rbind (bi_prev_until_key key it) (bi_found key)))))"

definition block_iterator_ops :: "block_iterator iterator_ops" where
  "block_iterator_ops =
     \<lparr>it_next = bi_next, it_prev = bi_prev, it_key = bi_key_of, it_value = bi_value_of,
      it_is_valid = bi_is_valid, it_seek = bi_seek\<rparr>"

section \<open>Decoding entries in place\<close>

text \<open>Blocks whose lengths leave their three variable-length integers within twelve bytes.\<close>

definition block_ok :: "nat \<Rightarrow> kvs \<Rightarrow> bool" where
  "block_ok r es \<longleftrightarrow> 0 < r \<and> es \<noteq> [] \<and> key_sorted es \<and> length (layout r es) < 2 ^ 63 \<and>
     (\<forall>e \<in> set es. length (fst e) < 2 ^ 28 \<and> length (snd e) < 2 ^ 28)"

lemma block_okD:
  assumes "block_ok r es"
  shows "0 < r" "es \<noteq> []" "key_sorted es" "layout r es \<noteq> []" "length (layout r es) < 2 ^ 63"
    and "i < length es \<Longrightarrow> length (key_at es i) < 2 ^ 28 \<and> length (value_at es i) < 2 ^ 28"
  using assms offset_of_strict[of 0 "length es" r es] offset_of_length[of r es]
  by (auto simp: block_ok_def)

lemma overlap_at_le: "i < length es \<Longrightarrow> overlap_at r es i \<le> length (key_at es i)"
  using lcp_le(2) by (auto simp: overlap_at_def)

lemma var_u32_len_28: "n < 2 ^ 28 \<Longrightarrow> var_u32_len (of_nat n) \<le> 4"
proof -
  assume "n < 2 ^ 28"
  then have "(of_nat n :: u32) < push_bit 28 1"
    by (simp add: word_less_nat_alt unat_of_nat push_bit_eq_mult)
  then show ?thesis by (simp add: var_u32_len_def)
qed

lemma prefix_at_fits:
  assumes "block_ok r es" "i < length es"
  shows "kp_overlap (prefix_at r es i off) < 2 ^ 28" "kp_diff (prefix_at r es i off) < 2 ^ 28"
    "kp_value (prefix_at r es i off) < 2 ^ 28" "prefix_len (prefix_at r es i off) \<le> 12"
proof -
  show a: "kp_overlap (prefix_at r es i off) < 2 ^ 28" "kp_diff (prefix_at r es i off) < 2 ^ 28"
    "kp_value (prefix_at r es i off) < 2 ^ 28"
    using block_okD(6)[OF assms] overlap_at_le[OF assms(2), of r] by (auto simp: prefix_at_def)
  show "prefix_len (prefix_at r es i off) \<le> 12"
    using a[THEN var_u32_len_28] unfolding prefix_len_def by linarith
qed

lemma prefix_decode_encode:
  assumes "kp_overlap kp < 2 ^ 32" "kp_diff kp < 2 ^ 32" "kp_value kp < 2 ^ 32"
  shows "prefix_decode (prefix_encode kp [] @ rest) offset = Ok (kp\<lparr>kp_offset := offset\<rparr>)"
proof -
  have "prefix_encode kp [] = put_var_u32 (of_nat (kp_overlap kp)) [] @
      put_var_u32 (of_nat (kp_diff kp)) [] @ put_var_u32 (of_nat (kp_value kp)) []"
    unfolding prefix_encode_def by (metis append.assoc put_var_u32_append)
  then show ?thesis using assms by (simp add: prefix_decode_def get_put_var_u32 unat_of_nat)
qed

lemma layout_split:
  assumes "i < length es"
  shows "layout r es = concat (map (entry_bytes r es) [0..<i]) @ entry_bytes r es i @
    concat (map (entry_bytes r es) [Suc i..<length es])"
proof -
  have "[0..<length es] = [0..<i] @ i # [Suc i..<length es]"
    using assms by (metis le0 less_imp_le_nat upt_add_eq_append upt_conv_Cons le_add_diff_inverse plus_nat.add_0)
  then show ?thesis by (simp add: layout_def)
qed

lemma block_len_image: "block_ok r es \<Longrightarrow> block_len (block_image r es) = Ok (length (layout r es))"
  using block_okD(4) by (simp add: block_len_def block_image_def)

lemma offset_of_end:
  "i < length es \<Longrightarrow> offset_of r es i + length (entry_bytes r es i) \<le> length (layout r es)"
  using offset_of_mono[of "Suc i" "length es" r es] by (simp add: offset_of_Suc flip: offset_of_length)

lemma decode_prefix_at_image:
  assumes "block_ok r es" "i < length es"
  shows "decode_prefix_at (block_image r es) (offset_of r es i) = Ok (prefix_at r es i (offset_of r es i))"
proof -
  let ?off = "offset_of r es i" and ?kp = "prefix_at r es i 0"
  note fits = prefix_at_fits[OF assms, of 0]
  have drop: "drop ?off (layout r es) = prefix_encode ?kp [] @
      (drop (overlap_at r es i) (key_at es i) @ value_at es i) @
      concat (map (entry_bytes r es) [Suc i..<length es])"
    unfolding layout_split[OF assms(2), of r] offset_of_def by (simp add: entry_bytes_def)
  define n where "n = min (?off + prefix_max_len) (length (layout r es)) - ?off"
  have le: "?off + prefix_len ?kp \<le> length (layout r es)"
    using offset_of_end[OF assms(2), of r] by (simp add: entry_bytes_def)
  then have "prefix_len ?kp \<le> n" using fits(4) by (simp add: n_def prefix_max_len_def)
  then have "take n (drop ?off (layout r es)) = prefix_encode ?kp [] @
      take (n - prefix_len ?kp) ((drop (overlap_at r es i) (key_at es i) @ value_at es i) @
      concat (map (entry_bytes r es) [Suc i..<length es]))" unfolding drop by simp
  then have "block_slice (block_image r es) (?off, min (?off + prefix_max_len) (length (layout r es))) =
      Ok (prefix_encode ?kp [] @ take (n - prefix_len ?kp) ((drop (overlap_at r es i) (key_at es i) @
        value_at es i) @ concat (map (entry_bytes r es) [Suc i..<length es])))"
    using le by (simp add: block_slice_def block_image_def slice_def n_def)
  then show ?thesis
    using block_len_image[OF assms(1)] prefix_decode_encode[of ?kp] fits
    by (simp add: decode_prefix_at_def prefix_at_def)
qed

lemma block_slices_image:
  assumes "block_ok r es" "i < length es"
  shows "block_slice (block_image r es) (diff_key_range (prefix_at r es i (offset_of r es i))) =
      Ok (drop (overlap_at r es i) (key_at es i))"
    and "block_slice (block_image r es) (value_range (prefix_at r es i (offset_of r es i))) =
      Ok (value_at es i)"
    and "entry_len (prefix_at r es i (offset_of r es i)) = length (entry_bytes r es i)"
proof -
  let ?pre = "concat (map (entry_bytes r es) [0..<i])" and ?kp = "prefix_at r es i (offset_of r es i)"
  let ?post = "concat (map (entry_bytes r es) [Suc i..<length es])"
  let ?dk = "drop (overlap_at r es i) (key_at es i)"
  have enc: "prefix_encode (prefix_at r es i 0) [] = prefix_encode ?kp []"
    by (simp add: prefix_encode_def prefix_at_def)
  have lay: "layout r es = (?pre @ prefix_encode ?kp []) @ ?dk @ (value_at es i @ ?post)"
    "layout r es = (?pre @ prefix_encode ?kp [] @ ?dk) @ value_at es i @ ?post"
    unfolding layout_split[OF assms(2), of r] by (simp_all add: entry_bytes_def enc)
  have len: "length ?pre = offset_of r es i" by (simp add: offset_of_def)
  show "block_slice (block_image r es) (diff_key_range ?kp) = Ok ?dk"
    unfolding block_slice_def block_image_def block.simps lay(1)
    by (rule slice_append) (simp_all add: diff_key_range_def len, simp_all add: prefix_at_def)
  show "block_slice (block_image r es) (value_range ?kp) = Ok (value_at es i)"
    unfolding block_slice_def block_image_def block.simps lay(2)
    by (rule slice_append) (simp_all add: value_range_def len, simp_all add: prefix_at_def)
  show "entry_len ?kp = length (entry_bytes r es i)"
    using enc by (simp add: entry_len_def entry_bytes_def) (simp add: prefix_at_def)
qed

section \<open>Cursors\<close>

text \<open>The iterator stands at entry \<open>i\<close> of a block built from \<open>es\<close> with restart interval \<open>r\<close>.\<close>

definition bi_at :: "nat \<Rightarrow> kvs \<Rightarrow> nat \<Rightarrow> block_iterator \<Rightarrow> bool" where
  "bi_at r es i it \<longleftrightarrow>
     block_ok r es \<and> i < length es \<and> bi_block it = block_image r es \<and>
     bi_offset it = offset_of r es i \<and> bi_key it = key_at es i \<and>
     bi_value_range it = value_range (prefix_at r es i (offset_of r es i)) \<and>
     bi_entry_len it = length (entry_bytes r es i) \<and> bi_restart_point_index it = i div r"

definition bi_over :: "block_iterator \<Rightarrow> kvs \<Rightarrow> bool" where
  "bi_over it es \<longleftrightarrow> (\<exists>r. block_ok r es \<and> bi_block it = block_image r es)"

definition bi_end :: "nat \<Rightarrow> kvs \<Rightarrow> block_iterator \<Rightarrow> bool" where
  "bi_end r es it \<longleftrightarrow> block_ok r es \<and> bi_block it = block_image r es \<and>
     length (layout r es) \<le> bi_offset it"

definition bi_pos :: "nat \<Rightarrow> kvs \<Rightarrow> nat option \<Rightarrow> block_iterator \<Rightarrow> bool" where
  "bi_pos r es p it = (case p of None \<Rightarrow> bi_end r es it | Some i \<Rightarrow> bi_at r es i it)"

definition bi_cursor :: "block_iterator \<Rightarrow> kvs \<Rightarrow> nat option \<Rightarrow> bool" where
  "bi_cursor it es p \<longleftrightarrow> (\<exists>r. bi_pos r es p it)"

lemma bi_pos_ok: "bi_pos r es p it \<Longrightarrow> block_ok r es \<and> bi_block it = block_image r es"
  by (auto simp: bi_pos_def bi_end_def bi_at_def split: option.splits)

lemma offset_of_before_end: "i < length es \<Longrightarrow> offset_of r es i < length (layout r es)"
  using offset_of_strict[of i "length es" r es] by (simp add: offset_of_length)

lemma bi_valid_pos: "bi_pos r es p it \<Longrightarrow> bi_is_valid it = Ok (p \<noteq> None)"
  using offset_of_before_end
  by (cases p) (auto simp: bi_pos_def bi_end_def bi_at_def bi_is_valid_def block_len_image)

lemma bi_invalid_pos:
  "block_ok r es \<Longrightarrow> bi_block it = block_image r es \<Longrightarrow> \<exists>it'. bi_invalid it = Ok it' \<and> bi_pos r es None it'"
  by (simp add: bi_invalid_def block_len_image bi_pos_def bi_end_def)

lemma restart_point_image:
  "j < restarts r (length es) \<Longrightarrow> restart_point (block_image r es) j = Ok (offset_of r es (j * r))"
  by (simp add: restart_point_def block_image_def restart_offsets_def)

lemma restart_point_len_image: "restart_point_len (block_image r es) = restarts r (length es)"
  by (simp add: restart_point_len_def block_image_def restart_offsets_def)

lemma restarts_iff:
  assumes "0 < r" shows "j < restarts r n \<longleftrightarrow> j * r < n"
proof (cases n)
  case (Suc m)
  then show ?thesis using restarts_Suc(3)[OF assms, of m] less_eq_div_iff_mult_less_eq[OF assms, of j m]
    by (simp add: less_Suc_eq_le)
qed (use assms in \<open>simp add: restarts_def\<close>)

lemma div_Suc_restart:
  assumes "0 < r" shows "Suc i div r = (if (i div r + 1) * r \<le> Suc i then i div r + 1 else i div r)"
proof -
  have "(i div r + 1) * r \<le> Suc i \<longleftrightarrow> i div r + 1 \<le> Suc i div r"
    using less_eq_div_iff_mult_less_eq[OF assms, of "i div r + 1" "Suc i"] by simp
  then show ?thesis by (simp add: div_Suc)
qed

lemma overlap_extend:
  assumes "Suc i < length es"
  shows "take (overlap_at r es (Suc i)) (key_at es i) @ drop (overlap_at r es (Suc i)) (key_at es (Suc i)) =
    key_at es (Suc i)"
proof -
  have "take (overlap_at r es (Suc i)) (key_at es i) = take (overlap_at r es (Suc i)) (key_at es (Suc i))"
    using lcp_take by (auto simp: overlap_at_def)
  then show ?thesis by (metis append_take_drop_id)
qed

lemma bi_next_inner_at:
  assumes at: "bi_at r es i it"
  shows "\<exists>it'. bi_next_inner it = Ok it' \<and>
    bi_pos r es (if Suc i < length es then Some (Suc i) else None) it'"
proof -
  let ?b = "block_image r es" and ?off = "offset_of r es (Suc i)"
  have ok: "block_ok r es" and i: "i < length es" and st: "bi_block it = ?b" "bi_offset it = offset_of r es i"
    "bi_key it = key_at es i" "bi_entry_len it = length (entry_bytes r es i)" "bi_restart_point_index it = i div r"
    using at by (auto simp: bi_at_def)
  have "?off \<le> length (layout r es)" using offset_of_mono[of "Suc i" "length es" r es] i by (simp add: offset_of_length)
  then have off: "add_u64 (bi_offset it) (bi_entry_len it) = Ok ?off"
    using block_okD(5)[OF ok] st by (simp add: offset_of_Suc)
  show ?thesis
  proof (cases "Suc i < length es")
    case False
    then have "?off = length (layout r es)" using i offset_of_length[of r es] by (metis Suc_lessI)
    then have "bi_next_inner it = bi_invalid it"
      using off st(1) block_len_image[OF ok] by (simp add: bi_next_inner_def)
    then show ?thesis using False bi_invalid_pos[OF ok st(1)] by simp
  next
    case True
    define it1 where "it1 = it\<lparr>bi_key := key_at es (Suc i),
        bi_value_range := value_range (prefix_at r es (Suc i) ?off), bi_offset := ?off,
        bi_entry_len := length (entry_bytes r es (Suc i))\<rparr>"
    have "overlap_len (prefix_at r es (Suc i) ?off) = overlap_at r es (Suc i)"
      by (simp add: overlap_len_def prefix_at_def)
    then have "bi_next_inner it = (if i div r + 1 < restarts r (length es)
        then rbind (restart_point ?b (i div r + 1)) (\<lambda>point.
          Ok (if point \<le> ?off then it1\<lparr>bi_restart_point_index := i div r + 1\<rparr> else it1)) else Ok it1)"
      using off st block_len_image[OF ok] offset_of_before_end[OF True, of r]
        decode_prefix_at_image[OF ok True] block_slices_image[OF ok True] overlap_extend[OF True, of r]
      by (simp add: bi_next_inner_def Let_def restart_point_len_image it1_def cong: if_cong)
    also have "\<dots> = Ok (it1\<lparr>bi_restart_point_index := Suc i div r\<rparr>)"
    proof (cases "i div r + 1 < restarts r (length es)")
      case in_range: True
      have "offset_of r es ((i div r + 1) * r) \<le> ?off \<longleftrightarrow> (i div r + 1) * r \<le> Suc i"
        by (rule offset_of_le_iff)
      then show ?thesis
        using in_range restart_point_image[OF in_range] div_Suc_restart[OF block_okD(1)[OF ok], of i] st(5)
        by (simp add: it1_def)
    next
      case out: False
      then have "length es \<le> (i div r + 1) * r" using restarts_iff[OF block_okD(1)[OF ok]] by (metis not_less)
      then have "Suc i div r = i div r" using True div_Suc_restart[OF block_okD(1)[OF ok], of i] by simp
      then show ?thesis using out st(5) by (simp add: it1_def)
    qed
    finally show ?thesis using True ok st(1) by (simp add: bi_pos_def bi_at_def it1_def)
  qed
qed

lemma seek_restart_at:
  assumes "block_ok r es" "bi_block it = block_image r es" "j * r < length es"
  shows "\<exists>it'. seek_restart_point_by_index j it = Ok it' \<and> bi_at r es (j * r) it'"
proof -
  have "j < restarts r (length es)" using assms restarts_iff block_okD(1) by blast
  moreover have "overlap_at r es (j * r) = 0" by (simp add: overlap_at_def)
  moreover have "j * r div r = j" using block_okD(1)[OF assms(1)] by simp
  ultimately show ?thesis
    using assms restart_point_image[of j r es] decode_prefix_at_image[OF assms(1,3)]
      block_slices_image[OF assms(1,3)]
    by (simp add: seek_restart_point_by_index_def bi_at_def)
qed

lemma bi_fuel_enough:
  assumes "bi_pos r es p it" shows "length es < bi_fuel it"
proof -
  have "length es \<le> length (layout r es)" using offset_of_ge[of "length es" r es] by (simp add: offset_of_length)
  then show ?thesis using bi_pos_ok[OF assms] by (simp add: bi_fuel_def block_image_def)
qed

text \<open>Scanning forward to the entry before a given offset.\<close>

lemma bi_next_until_prev_at:
  assumes "bi_at r es j it" "j < k" "k \<le> length es"
  shows "\<exists>it'. bi_next_until_prev (offset_of r es k) it = Ok it' \<and> bi_at r es (k - 1) it'"
proof -
  define C where "C it \<longleftrightarrow> bi_offset it + bi_entry_len it < min (length (layout r es)) (offset_of r es k)"
    for it :: block_iterator
  define I where "I it \<longleftrightarrow> (\<exists>i. bi_at r es i it \<and> i < k)" for it
  have C: "C it \<longleftrightarrow> Suc i < k" if "bi_at r es i it" for i it
  proof -
    have "bi_offset it + bi_entry_len it = offset_of r es (Suc i)"
      using that by (simp add: bi_at_def offset_of_Suc)
    moreover have "offset_of r es k \<le> length (layout r es)"
      using offset_of_mono[OF assms(3), of r es] by (simp add: offset_of_length)
    ultimately show ?thesis using offset_of_less_iff[of r es "Suc i" k] by (simp add: C_def min_def)
  qed
  have pos: "bi_pos r es (Some j) it" using assms(1) by (simp add: bi_pos_def)
  have "\<exists>t. rwhile (bi_fuel it) (\<lambda>it. rbind (block_len (bi_block it))
        (\<lambda>len. Ok (bi_offset it + bi_entry_len it < min len (offset_of r es k)))) bi_next_inner it = Ok t \<and>
      I t \<and> \<not> C t"
  proof (rule rwhile_terminates[where variant = "\<lambda>it. length (layout r es) - bi_offset it"])
    show "I it" using assms(1,2) by (auto simp: I_def)
    show "length (layout r es) - bi_offset it < bi_fuel it"
      using bi_pos_ok[OF pos] by (simp add: bi_fuel_def block_image_def)
    show "rbind (block_len (bi_block s)) (\<lambda>len. Ok (bi_offset s + bi_entry_len s < min len (offset_of r es k))) =
        Ok (C s)" if "I s" for s
      using that block_len_image by (auto simp: I_def bi_at_def C_def)
    fix s assume "I s" "C s"
    then obtain i where i: "bi_at r es i s" "Suc i < k" using C by (auto simp: I_def)
    obtain t where t: "bi_next_inner s = Ok t" "bi_at r es (Suc i) t"
      using bi_next_inner_at[OF i(1)] i(2) assms(3) by (auto simp: bi_pos_def)
    have "bi_offset s < bi_offset t" "bi_offset s < length (layout r es)"
      using i(1) t(2) offset_of_less_iff[of r es i "Suc i"] offset_of_before_end by (auto simp: bi_at_def)
    then show "\<exists>t. bi_next_inner s = Ok t \<and> I t \<and>
        length (layout r es) - bi_offset t < length (layout r es) - bi_offset s"
      using t i(2) by (intro exI[of _ t]) (auto simp: I_def)
  qed
  then obtain t i where "bi_next_until_prev (offset_of r es k) it = Ok t" "bi_at r es i t" "i < k" "\<not> C t"
    by (auto simp: bi_next_until_prev_def I_def)
  moreover have "i = k - 1" using C[OF \<open>bi_at r es i t\<close>] \<open>i < k\<close> \<open>\<not> C t\<close> by simp
  ultimately show ?thesis by blast
qed

lemma bi_prev_inner_at:
  assumes at: "bi_at r es i it"
  shows "\<exists>it'. bi_prev_inner it = Ok it' \<and> bi_pos r es (if i = 0 then None else Some (i - 1)) it'"
proof -
  have ok: "block_ok r es" and i: "i < length es" and st: "bi_block it = block_image r es"
    "bi_offset it = offset_of r es i" "bi_restart_point_index it = i div r"
    using at by (auto simp: bi_at_def)
  note r = block_okD(1)[OF ok]
  have zero: "offset_of r es 0 = 0" by (simp add: offset_of_def)
  show ?thesis
  proof (cases "i = 0")
    case True
    then show ?thesis using bi_invalid_pos[OF ok st(1)] st(2) zero by (simp add: bi_prev_inner_def)
  next
    case False
    then have "bi_offset it \<noteq> 0" using st(2) zero offset_of_eq_iff[of r es i 0] by simp
    have le: "i div r * r \<le> i" by simp
    then have "i div r * r < length es" using i by linarith
    then have pt: "restart_point (bi_block it) (bi_restart_point_index it) = Ok (offset_of r es (i div r * r))"
      using restart_point_image[of "i div r" r es] restarts_iff[OF r] st by simp
    define j where "j = (if i div r * r = i then i div r - 1 else i div r)"
    have j: "j * r < i"
    proof (cases "i div r * r = i")
      case True
      then have "i div r \<noteq> 0" using False by (metis mult_0)
      then have "(i div r - 1) * r < i div r * r" using r by (intro mult_less_mono1) auto
      then show ?thesis unfolding j_def using True le by simp
    next
      case other: False
      then show ?thesis using le_neq_implies_less[OF le] by (simp add: j_def)
    qed
    have idx: "(if offset_of r es (i div r * r) = bi_offset it then sub_u64 (bi_restart_point_index it) 1
        else Ok (bi_restart_point_index it)) = Ok j"
    proof (cases "i div r * r = i")
      case True
      then have "1 \<le> i div r" using False by (metis less_one mult_0 not_le)
      then show ?thesis using True st offset_of_eq_iff[of r es "i div r * r" i] by (simp add: j_def)
    qed (use st offset_of_eq_iff[of r es "i div r * r" i] in \<open>simp add: j_def\<close>)
    obtain it1 where it1: "seek_restart_point_by_index j it = Ok it1" "bi_at r es (j * r) it1"
      using seek_restart_at[OF ok st(1), of j] j i by auto
    from bi_next_until_prev_at[OF it1(2) j] i obtain it2 where
      "bi_next_until_prev (offset_of r es i) it1 = Ok it2" "bi_at r es (i - 1) it2" by auto
    then show ?thesis
      using False \<open>bi_offset it \<noteq> 0\<close> pt idx it1(1) st(2) by (simp add: bi_prev_inner_def bi_pos_def)
  qed
qed

lemma key_compares_pos:
  assumes "bi_pos r es p it" "8 \<le> length k"
  shows "key_compares it k c = Ok (\<exists>i. p = Some i \<and> cmp (key_ord (key_at es i)) (key_ord k) = c)"
proof (cases p)
  case (Some i)
  then have "bi_key it = key_at es i" "8 \<le> length (key_at es i)"
    using assms(1) block_okD(3) key_sorted_length by (auto simp: bi_pos_def bi_at_def)
  with Some assms bi_valid_pos[OF assms(1)] show ?thesis
    by (auto simp: key_compares_def compare_full_key_cmp)
qed (use bi_valid_pos[OF assms(1)] in \<open>simp add: key_compares_def\<close>)

lemma bi_next_until_key_pos:
  assumes at: "bi_at r es j it" and j: "j \<le> lower es k" and k: "8 \<le> length k"
  shows "\<exists>it'. bi_next_until_key k it = Ok it' \<and> bi_pos r es (seek_target es (RandomForward k)) it'"
proof -
  define I where "I it \<longleftrightarrow> (\<exists>p. bi_pos r es p it \<and>
    (case p of Some i \<Rightarrow> i \<le> lower es k | None \<Rightarrow> lower es k = length es))" for it
  define C where "C it \<longleftrightarrow> key_compares it k Less = Ok True" for it
  have ok: "block_ok r es" using at by (simp add: bi_at_def)
  note sorted = block_okD(3)[OF ok]
  have C: "C it \<longleftrightarrow> (\<exists>i. p = Some i \<and> i < lower es k)" if "bi_pos r es p it" for p it
    using key_compares_pos[OF that k, of Less] lower_iff[OF sorted] that
    by (cases p) (auto simp: C_def bi_pos_def bi_at_def)
  have "\<exists>t. rwhile (bi_fuel it) (\<lambda>it. key_compares it k Less) bi_next_inner it = Ok t \<and> I t \<and> \<not> C t"
  proof (rule rwhile_terminates[where variant = "\<lambda>it. length (layout r es) - bi_offset it"])
    have pos: "bi_pos r es (Some j) it" using at by (simp add: bi_pos_def)
    then show "I it" using j unfolding I_def by (intro exI[of _ "Some j"]) simp
    show "length (layout r es) - bi_offset it < bi_fuel it"
      using bi_pos_ok[OF pos] by (simp add: bi_fuel_def block_image_def)
    show "key_compares s k Less = Ok (C s)" if "I s" for s
      using that key_compares_pos[OF _ k] unfolding I_def C_def by fastforce
    fix s assume "I s" "C s"
    then obtain i where i: "bi_at r es i s" "i < lower es k" using C unfolding I_def by (auto simp: bi_pos_def)
    obtain t where t: "bi_next_inner s = Ok t" "bi_pos r es (if Suc i < length es then Some (Suc i) else None) t"
      using bi_next_inner_at[OF i(1)] by blast
    have "bi_offset s < length (layout r es)" "bi_offset s < bi_offset t"
      using i(1) t(2) offset_of_less_iff[of r es i "Suc i"] offset_of_before_end[of i es r]
      by (auto simp: bi_at_def bi_pos_def bi_end_def split: if_splits)
    moreover have "I t"
      unfolding I_def using t(2) i lower_bound(1)[of es k]
      by (intro exI[of _ "if Suc i < length es then Some (Suc i) else None"]) auto
    ultimately show "\<exists>t. bi_next_inner s = Ok t \<and> I t \<and>
        length (layout r es) - bi_offset t < length (layout r es) - bi_offset s"
      using t(1) by (intro exI[of _ t]) auto
  qed
  then obtain t p where t: "bi_next_until_key k it = Ok t" "bi_pos r es p t" "\<not> C t"
    "case p of Some i \<Rightarrow> i \<le> lower es k | None \<Rightarrow> lower es k = length es"
    by (auto simp: bi_next_until_key_def I_def)
  have "p = seek_target es (RandomForward k)"
    using t(2-4) C[OF t(2)] by (cases p) (auto simp: bi_pos_def bi_at_def)
  with t show ?thesis by blast
qed

lemma bi_prev_until_key_pos:
  assumes at: "bi_at r es j it" and j: "upper es k \<le> Suc j" and k: "8 \<le> length k"
  shows "\<exists>it'. bi_prev_until_key k it = Ok it' \<and> bi_pos r es (seek_target es (RandomBackward k)) it'"
proof -
  define I where "I it \<longleftrightarrow> (\<exists>p. bi_pos r es p it \<and>
    (case p of Some i \<Rightarrow> upper es k \<le> Suc i | None \<Rightarrow> upper es k = 0))" for it
  define C where "C it \<longleftrightarrow> key_compares it k Greater = Ok True" for it
  have ok: "block_ok r es" using at by (simp add: bi_at_def)
  note sorted = block_okD(3)[OF ok]
  have C: "C it \<longleftrightarrow> (\<exists>i. p = Some i \<and> upper es k \<le> i)" if "bi_pos r es p it" for p it
    using key_compares_pos[OF that k, of Greater] upper_iff[OF sorted] that
    by (cases p) (auto simp: C_def bi_pos_def bi_at_def simp flip: not_less)
  let ?variant = "\<lambda>it. if bi_offset it < length (layout r es) then Suc (bi_offset it) else 0"
  have "\<exists>t. rwhile (bi_fuel it) (\<lambda>it. key_compares it k Greater) bi_prev_inner it = Ok t \<and> I t \<and> \<not> C t"
  proof (rule rwhile_terminates[where variant = ?variant])
    have pos: "bi_pos r es (Some j) it" using at by (simp add: bi_pos_def)
    then show "I it" using j unfolding I_def by (intro exI[of _ "Some j"]) simp
    show "?variant it < bi_fuel it"
      using bi_pos_ok[OF pos] by (simp add: bi_fuel_def block_image_def)
    show "key_compares s k Greater = Ok (C s)" if "I s" for s
      using that key_compares_pos[OF _ k] unfolding I_def C_def by fastforce
    fix s assume "I s" "C s"
    then obtain i where i: "bi_at r es i s" "upper es k \<le> i" using C unfolding I_def by (auto simp: bi_pos_def)
    obtain t where t: "bi_prev_inner s = Ok t" "bi_pos r es (if i = 0 then None else Some (i - 1)) t"
      using bi_prev_inner_at[OF i(1)] by blast
    have "?variant t < ?variant s"
      using i(1) t(2) offset_of_less_iff[of r es "i - 1" i] offset_of_before_end[of i es r]
      by (auto simp: bi_at_def bi_pos_def bi_end_def split: if_splits)
    moreover have "I t"
      unfolding I_def using t(2) i(2) by (intro exI[of _ "if i = 0 then None else Some (i - 1)"]) auto
    ultimately show "\<exists>t. bi_prev_inner s = Ok t \<and> I t \<and> ?variant t < ?variant s" using t(1) by blast
  qed
  then obtain t p where t: "bi_prev_until_key k it = Ok t" "bi_pos r es p t" "\<not> C t"
    "case p of Some i \<Rightarrow> upper es k \<le> Suc i | None \<Rightarrow> upper es k = 0"
    by (auto simp: bi_prev_until_key_def I_def)
  have "p = seek_target es (RandomBackward k)" using t(4) C[OF t(2)] t(3) by (cases p) auto
  with t show ?thesis by blast
qed

section \<open>Seeking\<close>

lemma search_restart_image:
  assumes ok: "block_ok r es" and b: "bi_block it = block_image r es" and k: "8 \<le> length k"
  shows "\<exists>j. search_restart_point_index_by_key it k = Ok j \<and> j * r < length es \<and> j * r \<le> lower es k"
proof -
  note r = block_okD(1)[OF ok] and sorted = block_okD(3)[OF ok]
  define n where "n = restarts r (length es)"
  define ord where "ord j = cmp (key_ord (key_at es (j * r))) (key_ord k)" for j
  have in_es: "j * r < length es" if "j < n" for j using that restarts_iff[OF r] by (simp add: n_def)
  have len: "length (restart_offsets r es) = n" by (simp add: restart_offsets_def n_def)
  have "probe_order ord n"
    unfolding probe_order_def ord_def
  proof (intro allI impI)
    fix a c assume "a < c" "c < n"
    then have "key_ord (key_at es (a * r)) < key_ord (key_at es (c * r))"
      using key_sorted_less_iff[OF sorted, of "a * r" "c * r"] in_es r by simp
    then show "(cmp (key_ord (key_at es (c * r))) (key_ord k) \<noteq> Greater \<longrightarrow>
          cmp (key_ord (key_at es (a * r))) (key_ord k) = Less) \<and>
        (cmp (key_ord (key_at es (a * r))) (key_ord k) \<noteq> Less \<longrightarrow>
          cmp (key_ord (key_at es (c * r))) (key_ord k) = Greater)"
      by (auto simp: not_less)
  qed
  then have order: "probe_order ord (length (restart_offsets r es))" by (simp add: len)
  define f where "f probe = rbind (decode_prefix_at (bi_block it) probe) (\<lambda>prefix.
       rbind (block_slice (bi_block it) (diff_key_range prefix)) (\<lambda>probe_key. compare_full_key probe_key k))"
    for probe
  have "f (restart_offsets r es ! j) = Ok (ord j)" if "j < length (restart_offsets r es)" for j
    using decode_prefix_at_image[OF ok in_es] block_slices_image(1)[OF ok in_es]
      key_sorted_length[OF sorted in_es] k that len
    by (simp add: f_def b restart_offsets_def n_def overlap_at_def compare_full_key_cmp ord_def)
  moreover have "restart_offsets r es \<noteq> []"
    using restarts_iff[OF r, of 0 "length es"] block_okD(2)[OF ok] by (simp add: restart_offsets_def)
  ultimately obtain j where "search_floor f (restart_offsets r es) = Ok j" "j < n" "ord j \<noteq> Greater \<or> j = 0"
    using search_floor_correct[OF order, of f] len by auto
  then have j: "search_restart_point_index_by_key it k = Ok j" "j < n" "ord j \<noteq> Greater \<or> j = 0"
    unfolding search_restart_point_index_by_key_def search_restart_point_by_def f_def
    by (simp_all add: b block_image_def)
  have "\<not> lower es k < j * r"
  proof
    assume l: "lower es k < j * r"
    then have "key_ord (key_at es (lower es k)) < key_ord (key_at es (j * r))"
      using key_sorted_less_iff[OF sorted, of "lower es k" "j * r"] in_es[OF j(2)] by simp
    moreover have "key_ord (key_at es (j * r)) \<le> key_ord k" using j(3) l by (auto simp: ord_def not_less)
    ultimately have "lower es k < lower es k"
      using lower_iff[OF sorted, of "lower es k" k] l in_es[OF j(2)] by simp
    then show False by simp
  qed
  with j in_es show ?thesis by auto
qed

lemma bi_seek_last_pos:
  assumes ok: "block_ok r es" and b: "bi_block it = block_image r es"
  shows "\<exists>it'. bi_seek_last it = Ok it' \<and> bi_at r es (length es - 1) it'"
proof -
  note r = block_okD(1)[OF ok]
  define j where "j = restarts r (length es) - 1"
  have "0 < restarts r (length es)" using restarts_iff[OF r, of 0] block_okD(2)[OF ok] by simp
  then have "j < restarts r (length es)" "1 \<le> restarts r (length es)" by (auto simp: j_def)
  then have j: "j * r < length es" "1 \<le> restarts r (length es)" using restarts_iff[OF r] by auto
  obtain it1 where it1: "seek_restart_point_by_index j it = Ok it1" "bi_at r es (j * r) it1"
    using seek_restart_at[OF ok b j(1)] by blast
  from bi_next_until_prev_at[OF it1(2) j(1) order_refl] obtain it2 where
    "bi_next_until_prev (length (layout r es)) it1 = Ok it2" "bi_at r es (length es - 1) it2"
    by (auto simp: offset_of_length)
  then show ?thesis
    using it1 j(2) b block_len_image[OF ok]
    by (simp add: bi_seek_last_def restart_point_len_image j_def bi_at_def)
qed

lemma bi_key_pos: "bi_pos r es (Some i) it \<Longrightarrow> bi_key_of it = Ok (key_at es i)"
  using bi_valid_pos[of r es "Some i" it] by (simp add: bi_key_of_def bi_pos_def bi_at_def)

lemma bi_value_pos: "bi_pos r es (Some i) it \<Longrightarrow> bi_value_of it = Ok (value_at es i)"
  using bi_valid_pos[of r es "Some i" it] block_slices_image(2)[of r es i]
  by (simp add: bi_value_of_def bi_pos_def bi_at_def)

lemma bi_found_pos:
  "bi_pos r es p it \<Longrightarrow> bi_found k it = Ok ((\<exists>i. p = Some i \<and> key_at es i = k), it)"
  using bi_valid_pos[of r es p it] bi_key_pos[of r es _ it] by (cases p) (auto simp: bi_found_def)

lemma bi_seek_forward:
  assumes "block_ok r es" "bi_block it = block_image r es" "8 \<le> length k"
  shows "\<exists>it1 it'. seek_restart_point_by_key k it = Ok it1 \<and> bi_next_until_key k it1 = Ok it' \<and>
    bi_pos r es (seek_target es (RandomForward k)) it'"
proof -
  obtain j where j: "search_restart_point_index_by_key it k = Ok j" "j * r < length es" "j * r \<le> lower es k"
    using search_restart_image[OF assms] by blast
  obtain it1 where "seek_restart_point_by_index j it = Ok it1" "bi_at r es (j * r) it1"
    using seek_restart_at[OF assms(1,2) j(2)] by blast
  with bi_next_until_key_pos[OF _ j(3) assms(3)] j(1) show ?thesis
    by (auto simp: seek_restart_point_by_key_def)
qed

lemma bi_seek_pos:
  assumes ok: "block_ok r es" and b: "bi_block it = block_image r es" and wf: "wf_seek sk"
  shows "\<exists>it'. bi_seek sk it = Ok (seek_found es sk, it') \<and> bi_pos r es (seek_target es sk) it'"
proof (cases sk)
  case First
  then show ?thesis
    using seek_restart_at[OF ok b, of 0] block_okD(2)[OF ok] bi_valid_pos[of r es "Some 0"]
    by (auto simp: bi_pos_def)
next
  case Last
  obtain it' where "bi_seek_last it = Ok it'" "bi_pos r es (Some (length es - 1)) it'"
    using bi_seek_last_pos[OF ok b] by (auto simp: bi_pos_def)
  then show ?thesis using Last block_okD(2)[OF ok] bi_valid_pos[of r es "Some (length es - 1)" it'] by simp
next
  case (RandomForward k)
  then obtain it1 it' where it': "seek_restart_point_by_key k it = Ok it1" "bi_next_until_key k it1 = Ok it'"
    "bi_pos r es (seek_target es (RandomForward k)) it'" using bi_seek_forward[OF ok b, of k] wf by auto
  have "(\<exists>i. seek_target es (RandomForward k) = Some i \<and> key_at es i = k) = seek_found es (RandomForward k)"
    using found_forward[OF block_okD(3)[OF ok], of k] by auto
  then show ?thesis using RandomForward it' bi_found_pos[OF it'(3), of k] by (simp del: seek_found.simps)
next
  case (RandomBackward k)
  then have k: "8 \<le> length k" using wf by simp
  obtain it1 it2 where it2: "seek_restart_point_by_key k it = Ok it1" "bi_next_until_key k it1 = Ok it2"
    "bi_pos r es (seek_target es (RandomForward k)) it2" using bi_seek_forward[OF ok b k] by auto
  have "\<exists>it3 j. (if lower es k < length es then Ok it2 else bi_seek_last it2) = Ok it3 \<and>
      bi_at r es j it3 \<and> upper es k \<le> Suc j"
  proof (cases "lower es k < length es")
    case True
    then show ?thesis using it2(3) upper_after_lower[OF block_okD(3)[OF ok] True] by (auto simp: bi_pos_def)
  next
    case False
    then show ?thesis
      using bi_seek_last_pos[OF ok, of it2] bi_pos_ok[OF it2(3)] lower_bound(2)[of es k]
    by (auto intro!: exI[of _ "length es - 1"])
  qed
  then obtain it3 j where it3: "(if lower es k < length es then Ok it2 else bi_seek_last it2) = Ok it3"
    "bi_at r es j it3" "upper es k \<le> Suc j" by blast
  obtain it' where it': "bi_prev_until_key k it3 = Ok it'" "bi_pos r es (seek_target es (RandomBackward k)) it'"
    using bi_prev_until_key_pos[OF it3(2,3) k] by blast
  have "(\<exists>i. seek_target es (RandomBackward k) = Some i \<and> key_at es i = k) = seek_found es (RandomBackward k)"
    using found_backward[OF block_okD(3)[OF ok], of k] by auto
  then have "bi_found k it' = Ok (seek_found es (RandomBackward k), it')"
    using bi_found_pos[OF it'(2), of k] by simp
  moreover have "bi_is_valid it2 = Ok (lower es k < length es)" using bi_valid_pos[OF it2(3)] by simp
  ultimately show ?thesis
    using RandomBackward it2(1,2) it3(1) it' by (simp del: seek_found.simps seek_target.simps)
qed

interpretation block_iter: kv_iterator block_iterator_ops bi_cursor bi_over
proof
  fix it es p i sk
  show "bi_over it es \<Longrightarrow> key_sorted es \<and> es \<noteq> []" using block_okD by (auto simp: bi_over_def)
  show "bi_cursor it es p \<Longrightarrow> bi_over it es" unfolding bi_cursor_def bi_over_def using bi_pos_ok by blast
  show "bi_cursor it es (Some i) \<Longrightarrow> i < length es" by (auto simp: bi_cursor_def bi_pos_def bi_at_def)
  show "bi_cursor it es p \<Longrightarrow> it_is_valid block_iterator_ops it = Ok (p \<noteq> None)"
    using bi_valid_pos by (auto simp: bi_cursor_def block_iterator_ops_def)
  show "bi_cursor it es (Some i) \<Longrightarrow> it_key block_iterator_ops it = Ok (key_at es i)"
    using bi_key_pos by (auto simp: bi_cursor_def block_iterator_ops_def)
  show "bi_cursor it es (Some i) \<Longrightarrow> it_value block_iterator_ops it = Ok (value_at es i)"
    using bi_value_pos by (auto simp: bi_cursor_def block_iterator_ops_def)
  show "bi_cursor it es (Some i) \<Longrightarrow> \<exists>it'. it_next block_iterator_ops it = Ok it' \<and>
      bi_cursor it' es (if Suc i < length es then Some (Suc i) else None)"
    using bi_next_inner_at bi_valid_pos[of _ es "Some i" it]
    by (fastforce simp: bi_cursor_def block_iterator_ops_def bi_next_def bi_pos_def)
  show "bi_cursor it es (Some i) \<Longrightarrow> \<exists>it'. it_prev block_iterator_ops it = Ok it' \<and>
      bi_cursor it' es (if i = 0 then None else Some (i - 1))"
    using bi_prev_inner_at bi_valid_pos[of _ es "Some i" it]
    by (fastforce simp: bi_cursor_def block_iterator_ops_def bi_prev_def bi_pos_def)
  show "bi_over it es \<Longrightarrow> wf_seek sk \<Longrightarrow>
      \<exists>it'. it_seek block_iterator_ops sk it = Ok (seek_found es sk, it') \<and> bi_cursor it' es (seek_target es sk)"
    using bi_seek_pos by (fastforce simp: bi_over_def bi_cursor_def block_iterator_ops_def)
qed

section \<open>Properties\<close>

text \<open>C20. A block is faithful: building a block from any sorted entries, compressed or not, and decoding
  its bytes succeeds, and seeking in it leads exactly where a search in the sorted list leads, for
  all four ways to seek, with the key and the value of that entry.\<close>

theorem block_seek_after_build:
  assumes "lz4_frames compress decompress" "\<forall>bs. crc32 bs < 2 ^ 32"
    and "0 < r" "es \<noteq> []" "key_sorted es" "length (layout r es) < 2 ^ 32"
    and "\<forall>e \<in> set es. length (fst e) < 2 ^ 28 \<and> length (snd e) < 2 ^ 28"
    and "block_builder_new \<lparr>kbo_capacity = cap, kbo_compression_algorithm = c, kbo_restart_interval = r\<rparr> = Ok kb0"
    and "wf_seek sk"
  shows "\<exists>kb buf b it. rfold (\<lambda>(k, v). block_add k v) es kb0 = Ok kb \<and>
    block_build compress crc32 kb = Ok buf \<and> block_decode decompress crc32 buf = Ok b \<and>
    bi_seek sk (bi_new b) = Ok (seek_found es sk, it) \<and>
    bi_is_valid it = Ok (seek_target es sk \<noteq> None) \<and>
    (\<forall>i. seek_target es sk = Some i \<longrightarrow> bi_key_of it = Ok (key_at es i) \<and> bi_value_of it = Ok (value_at es i))"
proof -
  have "built_block r c [] kb0"
    using built_block_new[of "\<lparr>kbo_capacity = cap, kbo_compression_algorithm = c, kbo_restart_interval = r\<rparr>"]
      assms(3,8) by simp
  from block_add_all[OF assms(3) _ this, of es] assms(5) obtain kb where
    kb: "rfold (\<lambda>(k, v). block_add k v) es kb0 = Ok kb" "built_block r c es kb" by auto
  obtain buf where buf: "block_build compress crc32 kb = Ok buf"
    "block_decode decompress crc32 buf = Ok (block_image r es)"
    using block_decode_build[OF kb(2) assms(4,3,6,1)] assms(2) by blast
  have "block_ok r es" using assms(3-7) by (simp add: block_ok_def)
  then have "bi_over (bi_new (block_image r es)) es" by (auto simp: bi_over_def bi_new_def)
  from block_iter.over_seek[OF this assms(9)] obtain it where
    it: "bi_seek sk (bi_new (block_image r es)) = Ok (seek_found es sk, it)" "bi_cursor it es (seek_target es sk)"
    by (auto simp: block_iterator_ops_def)
  then have "bi_is_valid it = Ok (seek_target es sk \<noteq> None)"
    "\<forall>i. seek_target es sk = Some i \<longrightarrow> bi_key_of it = Ok (key_at es i) \<and> bi_value_of it = Ok (value_at es i)"
    using block_iter.cursor_valid[OF it(2)] block_iter.cursor_key[of it es] block_iter.cursor_value[of it es]
    by (auto simp: block_iterator_ops_def)
  with kb(1) buf it(1) show ?thesis by blast
qed

definition example_entries :: kvs where
  "example_entries = [(full_key [107, 49] 9, [1]), (full_key [107, 49] 4, [2, 3]), (full_key [107, 50] 7, [4])]"

lemma example_entries_sorted: "key_sorted example_entries"
  by (simp add: key_sorted_def example_entries_def key_ord_full_key_less)

lemma example_layout: "length (layout 2 example_entries) < 300"
proof -
  have "entry_len (prefix_at 2 example_entries i off) < 100" if "i < 3" for i off
  proof -
    have "kp_diff (prefix_at 2 example_entries i off) \<le> 10" "kp_value (prefix_at 2 example_entries i off) \<le> 2"
      using that by (auto simp: prefix_at_def example_entries_def full_key_def less_Suc_eq numeral_3_eq_3)
    then show ?thesis
      using var_u32_len_bounds[of "of_nat (kp_overlap (prefix_at 2 example_entries i off))"]
        var_u32_len_bounds[of "of_nat (kp_diff (prefix_at 2 example_entries i off))"]
        var_u32_len_bounds[of "of_nat (kp_value (prefix_at 2 example_entries i off))"]
      by (simp add: entry_len_def prefix_len_def)
  qed
  then have eb: "length (entry_bytes 2 example_entries i) < 100" if "i < 3" for i
    using that by (fastforce simp: entry_bytes_def entry_len_def prefix_at_def prefix_len_def)
  have "[0..<length example_entries] = [0, 1, 2]" by (simp add: example_entries_def upt_rec)
  then show ?thesis using eb[of 0] eb[of 1] eb[of 2] by (simp add: layout_def)
qed

theorem block_seek_after_build_witness:
  "\<exists>kb0 kb buf b it. rfold (\<lambda>(k, v). block_add k v) example_entries kb0 = Ok kb \<and>
    block_build stored_compress (\<lambda>_. 7) kb = Ok buf \<and> block_decode stored_decompress (\<lambda>_. 7) buf = Ok b \<and>
    bi_seek (RandomForward (full_key [107, 49] 5)) (bi_new b) = Ok (False, it) \<and>
    bi_key_of it = Ok (full_key [107, 49] 4) \<and> bi_value_of it = Ok [2, 3]"
proof -
  obtain kb0 where kb0: "block_builder_new \<lparr>kbo_capacity = 64, kbo_compression_algorithm = Lz4,
      kbo_restart_interval = 2\<rparr> = Ok kb0" by (simp add: block_builder_new_def)
  let ?k = "full_key [107, 49] 5"
  have e: "lower example_entries ?k = 1" "?k \<notin> fst ` set example_entries"
    by (simp_all add: lower_def example_entries_def key_ord_full_key_less)
  have lay: "length (layout 2 example_entries) < 2 ^ 32" using example_layout by simp
  have "\<forall>e \<in> set example_entries. length (fst e) < 2 ^ 28 \<and> length (snd e) < 2 ^ 28" "example_entries \<noteq> []"
    by (simp_all add: example_entries_def full_key_def)
  from block_seek_after_build[OF lz4_frames_stored _ _ this(2) example_entries_sorted lay this(1) kb0,
      of "\<lambda>_. 7" "RandomForward ?k"]
  obtain kb buf b it where "rfold (\<lambda>(k, v). block_add k v) example_entries kb0 = Ok kb"
    "block_build stored_compress (\<lambda>_. 7) kb = Ok buf" "block_decode stored_decompress (\<lambda>_. 7) buf = Ok b"
    "bi_seek (RandomForward ?k) (bi_new b) = Ok (seek_found example_entries (RandomForward ?k), it)"
    "\<forall>i. seek_target example_entries (RandomForward ?k) = Some i \<longrightarrow>
      bi_key_of it = Ok (key_at example_entries i) \<and> bi_value_of it = Ok (value_at example_entries i)"
    by (auto simp: full_key_def)
  with e show ?thesis by (fastforce simp: example_entries_def)
qed

end
