(* ===== verification/Bloom.thy ===== *)
theory Bloom
  imports Complex_Main Prelude
begin

text \<open>
  \<open>storage/src/utils/bloom.rs\<close>: bit slices over byte vectors and the Bloom filter an sstable keeps
  over the hashes of its user keys.

  The number of hash functions comes from a product of two \<open>f64\<close> values, modelled exactly: a
  natural number rounded to 53 significant bits (ties to even), times the \<open>f64\<close> nearest to 0.69.
  \<open>bloom_bits_per_key\<close> evaluates a logarithm; it is stated over the reals, so its result may be one
  off the machine's where the quotient is next to a whole number. The theorems about filters hold
  for every number of bits.
\<close>

section \<open>Bit slices\<close>

definition get_bit :: "bytes \<Rightarrow> nat \<Rightarrow> bool res" where
  "get_bit bs idx =
     (let pos = idx div 8; offset = idx mod 8
      in rbind (index bs pos) (\<lambda>b. Ok (b AND push_bit offset 1 \<noteq> 0)))"

definition bit_len :: "bytes \<Rightarrow> nat" where
  "bit_len bs = length bs * 8"

definition set_bit :: "bytes \<Rightarrow> nat \<Rightarrow> bool \<Rightarrow> bytes res" where
  "set_bit bs idx val =
     (let pos = idx div 8; offset = idx mod 8
      in rbind (index bs pos) (\<lambda>b.
           Ok (if val then bs[pos := b OR push_bit offset 1]
               else bs[pos := b AND NOT (push_bit offset 1)])))"

section \<open>Filters\<close>

record bloom =
  bloom_filter :: bytes
  bloom_k :: byte

definition bloom_new :: "bytes \<Rightarrow> bloom res" where
  "bloom_new buf =
     (if length buf = 0 then Panic
      else rbind (slice 0 (length buf - 1) buf) (\<lambda>f.
           rbind (index buf (length buf - 1)) (\<lambda>k.
           Ok \<lparr>bloom_filter = f, bloom_k = k\<rparr>)))"

text \<open>\<open>n as f64\<close>: the nearest value with a 53-bit significand.\<close>

fun bit_length :: "nat \<Rightarrow> nat" where
  "bit_length n = (if n = 0 then 0 else Suc (bit_length (n div 2)))"

declare bit_length.simps [simp del]

definition f64_round :: "nat \<Rightarrow> nat" where
  "f64_round n =
     (let l = bit_length n in
      if l \<le> 53 then n
      else let s = l - 53; m = n div 2 ^ s; r = n mod 2 ^ s
           in (if 2 ^ (s - 1) < r \<or> r = 2 ^ (s - 1) \<and> odd m then m + 1 else m) * 2 ^ s)"

text \<open>\<open>((bits_per_key as f64) * 0.69) as u32\<close>, where 0.69 is \<open>6214967485771284 / 2 ^ 53\<close>.\<close>

definition bloom_hash_count :: "nat \<Rightarrow> nat" where
  "bloom_hash_count bits_per_key =
     min (f64_round (f64_round bits_per_key * 6214967485771284) div 2 ^ 53) u32_max"

text \<open>The casts of the quotient to \<open>usize\<close>: a negative one gives 0, and so does the \<open>NaN\<close> of no entries
  (HOL's \<open>0 / 0\<close> is 0).\<close>

definition bloom_bits_per_key :: "nat \<Rightarrow> real \<Rightarrow> nat" where
  "bloom_bits_per_key entries false_positive_rate =
     (let size = - 1 * real entries * ln false_positive_rate / (ln 2)\<^sup>2
      in nat \<lceil>ln 2 * size / real entries\<rceil>)"

fun bloom_set_hash :: "nat \<Rightarrow> nat \<Rightarrow> u32 \<Rightarrow> u32 \<Rightarrow> bytes \<Rightarrow> bytes res" where
  "bloom_set_hash 0 nbits delta h f = Ok f"
| "bloom_set_hash (Suc n) nbits delta h f =
     (if nbits = 0 then Panic
      else rbind (set_bit f (unat h mod nbits) True) (bloom_set_hash n nbits delta (h + delta)))"

definition bloom_delta :: "u32 \<Rightarrow> u32" where
  "bloom_delta h = drop_bit 17 h OR push_bit 15 h"

definition build_from_key_hashes :: "u32 list \<Rightarrow> nat \<Rightarrow> bytes res" where
  "build_from_key_hashes keys bits_per_key =
     (let k = max (min (bloom_hash_count bits_per_key) 30) 1;
          nbytes = (max (length keys * bits_per_key) 64 + 7) div 8;
          nbits = nbytes * 8
      in rbind (rfold (\<lambda>h f. bloom_set_hash k nbits (bloom_delta h) h f) keys (replicate nbytes 0))
           (\<lambda>f. Ok (f @ [of_nat k])))"

fun bloom_check_hash :: "nat \<Rightarrow> u32 \<Rightarrow> u32 \<Rightarrow> u32 \<Rightarrow> bytes \<Rightarrow> bool res" where
  "bloom_check_hash 0 nbits delta h f = Ok True"
| "bloom_check_hash (Suc n) nbits delta h f =
     (if nbits = 0 then Panic
      else rbind (get_bit f (unat (h mod nbits))) (\<lambda>b.
           if \<not> b then Ok False else bloom_check_hash n nbits delta (h + delta) f))"

definition may_contain :: "bloom \<Rightarrow> u32 \<Rightarrow> bool res" where
  "may_contain bl h =
     (if bloom_k bl > 30 then Ok True
      else bloom_check_hash (unat (bloom_k bl)) (of_nat (bit_len (bloom_filter bl))) (bloom_delta h) h
             (bloom_filter bl))"

section \<open>No false negatives\<close>

text \<open>The bit at a position, and the order "every bit set in one filter is set in the other".\<close>

definition bit_at :: "bytes \<Rightarrow> nat \<Rightarrow> bool" where
  "bit_at bs i \<longleftrightarrow> bit (bs ! (i div 8)) (i mod 8)"

definition filter_le :: "bytes \<Rightarrow> bytes \<Rightarrow> bool" where
  "filter_le f g \<longleftrightarrow> length f = length g \<and> (\<forall>i < length f * 8. bit_at f i \<longrightarrow> bit_at g i)"

lemma filter_le_refl [simp]: "filter_le f f"
  by (simp add: filter_le_def)

lemma filter_le_trans: "filter_le f g \<Longrightarrow> filter_le g h \<Longrightarrow> filter_le f h"
  by (auto simp: filter_le_def)

lemma and_single_bit: "(b::byte) AND push_bit n 1 \<noteq> 0 \<longleftrightarrow> n < 8 \<and> bit b n"
proof -
  have "b AND push_bit n 1 = 0 \<longleftrightarrow> (\<forall>i. \<not> bit (b AND push_bit n 1) i)"
    by (metis bit_0_eq bot_apply bot_bool_def bit_eq_iff)
  then show ?thesis by (auto simp: bit_simps)
qed

lemma get_bit_eq: "i < length bs * 8 \<Longrightarrow> get_bit bs i = Ok (bit_at bs i)"
  using and_single_bit[of "bs ! (i div 8)" "i mod 8"]
  by (simp add: get_bit_def bit_at_def Let_def less_mult_imp_div_less)

lemma set_bit_spec:
  assumes "i < length bs * 8"
  obtains bs' where "set_bit bs i True = Ok bs'" "filter_le bs bs'" "bit_at bs' i"
proof
  let ?bs = "bs[i div 8 := bs ! (i div 8) OR push_bit (i mod 8) 1]"
  have pos: "i div 8 < length bs" using assms by (simp add: less_mult_imp_div_less)
  then show "set_bit bs i True = Ok ?bs" by (simp add: set_bit_def Let_def)
  show "filter_le bs ?bs"
    using pos by (auto simp: filter_le_def bit_at_def nth_list_update bit_simps less_mult_imp_div_less)
  show "bit_at ?bs i" using pos by (simp add: bit_at_def bit_simps)
qed

text \<open>The positions one hash sets, in the order the loop visits them.\<close>

fun hash_positions :: "nat \<Rightarrow> nat \<Rightarrow> u32 \<Rightarrow> u32 \<Rightarrow> nat list" where
  "hash_positions 0 nbits delta h = []"
| "hash_positions (Suc n) nbits delta h =
     (unat h mod nbits) # hash_positions n nbits delta (h + delta)"

lemma bloom_set_hash_spec:
  assumes "length f * 8 = nbits" "0 < nbits"
  obtains g where "bloom_set_hash n nbits delta h f = Ok g" "filter_le f g"
    "\<forall>i \<in> set (hash_positions n nbits delta h). bit_at g i"
  using assms
proof (induction n arbitrary: f h thesis)
  case (Suc n)
  have "unat h mod nbits < length f * 8" using Suc.prems by simp
  then obtain f' where f': "set_bit f (unat h mod nbits) True = Ok f'" "filter_le f f'"
    "bit_at f' (unat h mod nbits)" by (rule set_bit_spec)
  have len: "length f' * 8 = nbits" using f'(2) Suc.prems by (simp add: filter_le_def)
  obtain g where g: "bloom_set_hash n nbits delta (h + delta) f' = Ok g" "filter_le f' g"
    "\<forall>i \<in> set (hash_positions n nbits delta (h + delta)). bit_at g i"
    using Suc.IH[of "h + delta" f'] len Suc.prems(3) by blast
  have "bit_at g (unat h mod nbits)"
    using g(2) f'(3) len Suc.prems(3) by (auto simp: filter_le_def)
  moreover have "filter_le f g" using f'(2) g(2) by (rule filter_le_trans)
  ultimately show ?case using f'(1) g(1,3) Suc.prems(1)[of g] Suc.prems(3) by simp
qed simp

lemma bloom_check_hash_spec:
  assumes "length f * 8 = nbits" "0 < nbits" "nbits < 2 ^ 32"
    and "\<forall>i \<in> set (hash_positions n nbits delta h). bit_at f i"
  shows "bloom_check_hash n (of_nat nbits) delta h f = Ok True"
  using assms(4)
proof (induction n arbitrary: h)
  case (Suc n)
  have u: "unat (of_nat nbits :: u32) = nbits" using assms(3) by (simp add: unat_of_nat)
  then have "(of_nat nbits :: u32) \<noteq> 0" using assms(2) by (metis unsigned_0 less_irrefl)
  moreover have "unat (h mod of_nat nbits) = unat h mod nbits" by (simp add: unat_mod u)
  ultimately show ?case
    using Suc assms(1,2) by (simp add: get_bit_eq)
qed simp

lemma filter_build_spec:
  assumes "length f * 8 = nbits" "0 < nbits"
  obtains g where
    "rfold (\<lambda>h f. bloom_set_hash k nbits (bloom_delta h) h f) keys f = Ok g" "filter_le f g"
    "\<forall>h \<in> set keys. \<forall>i \<in> set (hash_positions k nbits (bloom_delta h) h). bit_at g i"
  using assms
proof (induction keys arbitrary: f thesis)
  case (Cons h keys)
  obtain f' where f': "bloom_set_hash k nbits (bloom_delta h) h f = Ok f'" "filter_le f f'"
    "\<forall>i \<in> set (hash_positions k nbits (bloom_delta h) h). bit_at f' i"
    by (rule bloom_set_hash_spec[OF Cons.prems(2,3)])
  have len: "length f' * 8 = nbits" using f'(2) Cons.prems by (simp add: filter_le_def)
  obtain g where g: "rfold (\<lambda>h f. bloom_set_hash k nbits (bloom_delta h) h f) keys f' = Ok g"
    "filter_le f' g"
    "\<forall>h \<in> set keys. \<forall>i \<in> set (hash_positions k nbits (bloom_delta h) h). bit_at g i"
    using Cons.IH[of f'] len Cons.prems(3) by blast
  have pos: "i < nbits" if "i \<in> set (hash_positions n nbits d x)" for i n d x
    using that Cons.prems(3) by (induction n arbitrary: x) auto
  have "\<forall>i \<in> set (hash_positions k nbits (bloom_delta h) h). bit_at g i"
    using f'(3) g(2) pos len by (auto simp: filter_le_def)
  moreover have "filter_le f g" using f'(2) g(2) by (rule filter_le_trans)
  ultimately show ?case using f'(1) g(1,3) Cons.prems(1)[of g] by simp
qed simp

lemma build_from_key_hashes_Ok: "\<exists>buf. (build_from_key_hashes keys bits_per_key :: bytes res) = Ok buf"
proof -
  define k where "k = max (min (bloom_hash_count bits_per_key) 30) 1"
  define nbytes where "nbytes = (max (length keys * bits_per_key) 64 + 7) div 8"
  have "0 < nbytes * 8" by (auto simp: nbytes_def max_def)
  then obtain g where "(rfold (\<lambda>h f. bloom_set_hash k (nbytes * 8) (bloom_delta h) h f) keys
      (replicate nbytes 0) :: bytes res) = Ok g"
    by (auto intro: filter_build_spec[of "replicate nbytes 0" "nbytes * 8" k keys])
  then show ?thesis unfolding build_from_key_hashes_def Let_def nbytes_def[symmetric] k_def[symmetric] by simp
qed

lemma bloom_check_hash_total:
  assumes "length f * 8 = nbits" "0 < nbits" "nbits < 2 ^ 32"
  shows "\<exists>b. bloom_check_hash n (of_nat nbits) delta h f = Ok b"
proof (induction n arbitrary: h)
  case (Suc n)
  have u: "unat (of_nat nbits :: u32) = nbits" using assms(3) by (simp add: unat_of_nat)
  then have "(of_nat nbits :: u32) \<noteq> 0" using assms(2) by (metis unsigned_0 less_irrefl)
  moreover have "unat (h mod of_nat nbits) < length f * 8" using assms(1,2) by (simp add: unat_mod u)
  then have "get_bit f (unat (h mod of_nat nbits)) = Ok (bit_at f (unat (h mod of_nat nbits)))" by (rule get_bit_eq)
  ultimately show ?case using Suc[of "h + delta"] by (cases "bit_at f (unat (h mod of_nat nbits))") auto
qed auto

lemma bloom_set_hash_length: "bloom_set_hash n nbits delta h f = Ok g \<Longrightarrow> length g = length f"
  by (induction n arbitrary: h f) (auto simp: set_bit_def outcome_simps Let_def split: if_splits)

lemma build_from_key_hashes_length:
  assumes "build_from_key_hashes keys bits_per_key = Ok buf"
  shows "length buf = Suc ((max (length keys * bits_per_key) 64 + 7) div 8)"
proof -
  have "length g = length f" if "rfold (\<lambda>h f. bloom_set_hash k nbits (bloom_delta h) h f) keys f = Ok g" for k nbits f g
    using that by (induction keys arbitrary: f) (auto simp: outcome_simps dest: bloom_set_hash_length)
  then show ?thesis using assms by (fastforce simp: build_from_key_hashes_def Let_def outcome_simps)
qed

lemma bloom_built:
  assumes "length keys * bits_per_key + 64 < 2 ^ 32"
  shows "\<exists>buf bl. (build_from_key_hashes keys bits_per_key :: bytes res) = Ok buf \<and> bloom_new buf = Ok bl \<and>
           (\<forall>h. \<exists>b. may_contain bl h = Ok b \<and> (h \<in> set keys \<longrightarrow> b))"
proof -
  define k where "k = max (min (bloom_hash_count bits_per_key) 30) 1"
  define nbytes where "nbytes = (max (length keys * bits_per_key) 64 + 7) div 8"
  have nb: "0 < nbytes * 8" "nbytes * 8 < 2 ^ 32"
    using assms by (auto simp: nbytes_def max_def)
  have k: "k \<le> 30" by (simp add: k_def)
  then have uk: "unat (of_nat k :: byte) = k" by (simp add: unat_of_nat)
  obtain g where g: "(rfold (\<lambda>h f. bloom_set_hash k (nbytes * 8) (bloom_delta h) h f) keys
      (replicate nbytes 0) :: bytes res) = Ok g" "filter_le (replicate nbytes 0) g"
    "\<forall>h \<in> set keys. \<forall>i \<in> set (hash_positions k (nbytes * 8) (bloom_delta h) h). bit_at g i"
    using filter_build_spec[of "replicate nbytes 0" "nbytes * 8" k keys] nb(1) by auto
  have len: "length g * 8 = nbytes * 8" using g(2) by (simp add: filter_le_def)
  have "(build_from_key_hashes keys bits_per_key :: bytes res) = Ok (g @ [of_nat k])"
    using g(1) unfolding build_from_key_hashes_def Let_def k_def[symmetric] nbytes_def[symmetric]
    by simp
  moreover have "bloom_new (g @ [of_nat k]) = Ok \<lparr>bloom_filter = g, bloom_k = of_nat k\<rparr>"
    by (simp add: bloom_new_def slice_def)
  moreover have "\<exists>b. may_contain \<lparr>bloom_filter = g, bloom_k = of_nat k\<rparr> h = Ok b \<and> (h \<in> set keys \<longrightarrow> b)" for h
  proof -
    have "\<exists>b. bloom_check_hash k (of_nat (nbytes * 8)) (bloom_delta h) h g = Ok b \<and> (h \<in> set keys \<longrightarrow> b)"
      using bloom_check_hash_spec[OF len nb, of k "bloom_delta h" h] g(3)
        bloom_check_hash_total[OF len nb, of k "bloom_delta h" h] by (cases "h \<in> set keys") auto
    moreover have "\<not> (30 < (of_nat k :: byte))" using k uk by (simp add: word_less_nat_alt)
    ultimately show ?thesis using uk len by (simp add: may_contain_def bit_len_def)
  qed
  ultimately show ?thesis by blast
qed

lemma bloom_no_false_negative_aux:
  assumes "h \<in> set keys" and "length keys * bits_per_key + 64 < 2 ^ 32"
  shows "\<exists>buf bl. (build_from_key_hashes keys bits_per_key :: bytes res) = Ok buf \<and> bloom_new buf = Ok bl \<and>
           may_contain bl h = Ok True"
  using bloom_built[OF assms(2)] assms(1) by fastforce

text \<open>C26. A Bloom filter built from a set of key hashes never denies one of them: building never
  panics, the buffer decodes, and \<open>may_contain\<close> answers true for every hash it was built from, as
  long as the filter has fewer than \<open>2 ^ 32\<close> bits (\<open>may_contain\<close> truncates the bit count to
  \<open>u32\<close>).\<close>

theorem bloom_no_false_negative:
  assumes "h \<in> set keys" and "length keys * bits_per_key + 64 < 2 ^ 32"
  shows "\<exists>buf bl. (build_from_key_hashes keys bits_per_key :: bytes res) = Ok buf \<and> bloom_new buf = Ok bl \<and>
           may_contain bl h = Ok True"
  using assms by (rule bloom_no_false_negative_aux)

theorem bloom_no_false_negative_witness:
  "\<exists>buf bl. build_from_key_hashes [3735928559, 1] 10 = Ok buf \<and> bloom_new buf = Ok bl \<and>
     may_contain bl 3735928559 = Ok True"
  by (rule bloom_no_false_negative) simp_all

end
