(* ===== verification/Sstable.thy ===== *)
theory Sstable
  imports BlockIterator Bloom
begin

text \<open>
  \<open>storage/src/lsm_tree/components/sstable.rs\<close>: sorted-string tables. A builder cuts a sorted run of
  entries into blocks and keeps their metadata and a Bloom filter over the user keys; the metadata
  has a binary encoding of its own. The LZ4 and CRC-32 functions and the FarmHash fingerprint are
  arguments.
\<close>

section \<open>Metadata\<close>

record block_meta =
  bm_offset :: nat
  bm_len :: nat
  bm_first_key :: bytes
  bm_last_key :: bytes

definition block_meta_encode :: "block_meta \<Rightarrow> bytes \<Rightarrow> bytes" where
  "block_meta_encode m buf =
     (let buf = put_u32_le (bm_offset m) buf;
          buf = put_u32_le (bm_len m) buf;
          buf = put_u32_le (length (bm_first_key m)) buf;
          buf = put_u32_le (length (bm_last_key m)) buf;
          buf = buf @ bm_first_key m
      in buf @ bm_last_key m)"

definition block_meta_decode :: "bytes \<Rightarrow> (block_meta \<times> bytes) res" where
  "block_meta_decode buf =
     rbind (get_u32_le buf) (\<lambda>(offset, buf).
     rbind (get_u32_le buf) (\<lambda>(len, buf).
     rbind (get_u32_le buf) (\<lambda>(first_key_len, buf).
     rbind (get_u32_le buf) (\<lambda>(last_key_len, buf).
     rbind (copy_to_bytes (first_key_len + last_key_len) buf) (\<lambda>(keys, buf).
       Ok (\<lparr>bm_offset = offset, bm_len = len, bm_first_key = take first_key_len keys,
            bm_last_key = drop first_key_len keys\<rparr>, buf))))))"

definition data_range :: "block_meta \<Rightarrow> nat \<times> nat" where
  "data_range m = (bm_offset m, bm_offset m + bm_len m)"

record sstable_meta =
  sm_block_metas :: "block_meta list"
  sm_bloom_filter_bytes :: bytes
  sm_data_size :: nat

record sstable =
  sst_id :: nat
  sst_meta :: sstable_meta

definition sstable_meta_encode :: "(bytes \<Rightarrow> nat) \<Rightarrow> sstable_meta \<Rightarrow> bytes" where
  "sstable_meta_encode crc32 m =
     (let buf = put_u32_le 0 [];
          buf = put_u32_le (length (sm_block_metas m)) buf;
          buf = fold block_meta_encode (sm_block_metas m) buf;
          buf = put_u32_le (length (sm_bloom_filter_bytes m)) buf;
          buf = buf @ sm_bloom_filter_bytes m;
          buf = put_u64_le (sm_data_size m) buf;
          checksum = crc32sum crc32 (drop 4 buf)
      in le_bytes 4 checksum @ drop 4 buf)"

fun block_metas_decode :: "nat \<Rightarrow> bytes \<Rightarrow> (block_meta list \<times> bytes) res" where
  "block_metas_decode 0 buf = Ok ([], buf)"
| "block_metas_decode (Suc n) buf =
     rbind (block_meta_decode buf) (\<lambda>(m, buf).
     rbind (block_metas_decode n buf) (\<lambda>(ms, buf). Ok (m # ms, buf)))"

text \<open>The result of \<open>crc32check\<close> is dropped; \<open>debug_assert!\<close> stops on trailing bytes.\<close>

definition sstable_meta_decode :: "bytes \<Rightarrow> sstable_meta res" where
  "sstable_meta_decode buf =
     rbind (get_u32_le buf) (\<lambda>(checksum, buf).
     rbind (get_u32_le buf) (\<lambda>(block_metas_len, buf).
     rbind (block_metas_decode block_metas_len buf) (\<lambda>(block_metas, buf).
     rbind (get_u32_le buf) (\<lambda>(bloom_filter_len, buf).
     rbind (copy_to_bytes bloom_filter_len buf) (\<lambda>(bloom_filter_bytes, buf).
     rbind (get_u64_le buf) (\<lambda>(data_size, buf).
     rbind (rassert (buf = [])) (\<lambda>_.
       Ok \<lparr>sm_block_metas = block_metas, sm_bloom_filter_bytes = bloom_filter_bytes,
           sm_data_size = data_size\<rparr>)))))))"

fun first_of :: "'a list \<Rightarrow> 'a option" where
  "first_of [] = None"
| "first_of (x # xs) = Some x"

definition last_of :: "'a list \<Rightarrow> 'a option" where
  "last_of xs = (if xs = [] then None else Some (last xs))"

definition meta_first_key :: "sstable_meta \<Rightarrow> bytes res" where
  "meta_first_key m = rbind (unwrap (first_of (sm_block_metas m))) (\<lambda>b. Ok (bm_first_key b))"

definition meta_last_key :: "sstable_meta \<Rightarrow> bytes res" where
  "meta_last_key m = rbind (unwrap (last_of (sm_block_metas m))) (\<lambda>b. Ok (bm_last_key b))"

text \<open>Both bounds compare as byte strings, not with \<open>compare_full_key\<close>.\<close>

definition meta_is_overlap_with_range :: "sstable_meta \<Rightarrow> bytes \<times> bytes \<Rightarrow> bool res" where
  "meta_is_overlap_with_range m rng =
     rbind (meta_first_key m) (\<lambda>first_key.
       if snd rng < first_key then Ok False
       else rbind (meta_last_key m) (\<lambda>last_key. Ok (\<not> last_key < fst rng)))"

definition meta_is_overlap_with :: "sstable_meta \<Rightarrow> sstable_meta \<Rightarrow> bool res" where
  "meta_is_overlap_with m rhs =
     rbind (meta_first_key rhs) (\<lambda>first_key.
     rbind (meta_last_key rhs) (\<lambda>last_key.
       meta_is_overlap_with_range m (first_key, last_key)))"

definition meta_is_overlap_with_user_key_range :: "sstable_meta \<Rightarrow> bytes \<times> bytes \<Rightarrow> bool res" where
  "meta_is_overlap_with_user_key_range m rng =
     rbind (rbind (meta_first_key m) user_key) (\<lambda>first_user_key.
     rbind (rbind (meta_last_key m) user_key) (\<lambda>last_user_key.
       Ok (\<not> (snd rng < first_user_key \<or> last_user_key < fst rng))))"

definition meta_may_contain_key :: "(bytes \<Rightarrow> u32) \<Rightarrow> sstable_meta \<Rightarrow> bytes \<Rightarrow> bool res" where
  "meta_may_contain_key fingerprint32 m key =
     rbind (bloom_new (sm_bloom_filter_bytes m)) (\<lambda>bl. may_contain bl (fingerprint32 key))"

section \<open>Handles\<close>

definition sst_data_size :: "sstable \<Rightarrow> nat" where
  "sst_data_size sst = sm_data_size (sst_meta sst)"

definition sst_first_key :: "sstable \<Rightarrow> bytes res" where
  "sst_first_key sst = meta_first_key (sst_meta sst)"

definition sst_last_key :: "sstable \<Rightarrow> bytes res" where
  "sst_last_key sst = meta_last_key (sst_meta sst)"

definition sst_is_overlap_with :: "sstable \<Rightarrow> sstable \<Rightarrow> bool res" where
  "sst_is_overlap_with sst rhs = meta_is_overlap_with (sst_meta sst) (sst_meta rhs)"

definition sst_is_overlap_with_range :: "sstable \<Rightarrow> bytes \<times> bytes \<Rightarrow> bool res" where
  "sst_is_overlap_with_range sst rng = meta_is_overlap_with_range (sst_meta sst) rng"

definition sst_is_overlap_with_user_key_range :: "sstable \<Rightarrow> bytes \<times> bytes \<Rightarrow> bool res" where
  "sst_is_overlap_with_user_key_range sst rng = meta_is_overlap_with_user_key_range (sst_meta sst) rng"

definition sst_may_contain_key :: "(bytes \<Rightarrow> u32) \<Rightarrow> sstable \<Rightarrow> bytes \<Rightarrow> bool res" where
  "sst_may_contain_key fingerprint32 sst key = meta_may_contain_key fingerprint32 (sst_meta sst) key"

definition blocks_len :: "sstable \<Rightarrow> nat" where
  "blocks_len sst = length (sm_block_metas (sst_meta sst))"

definition sst_block_meta :: "sstable \<Rightarrow> nat \<Rightarrow> block_meta option" where
  "sst_block_meta sst i =
     (if i < blocks_len sst then Some (sm_block_metas (sst_meta sst) ! i) else None)"

definition sst_encode_meta :: "(bytes \<Rightarrow> nat) \<Rightarrow> sstable \<Rightarrow> bytes" where
  "sst_encode_meta crc32 sst = sstable_meta_encode crc32 (sst_meta sst)"

section \<open>The builder\<close>

record sstable_builder_options =
  sbo_capacity :: nat
  sbo_block_capacity :: nat
  sbo_restart_interval :: nat
  sbo_bloom_false_positive :: real
  sbo_compression_algorithm :: compression_algorithm

record sstable_builder =
  sb_options :: sstable_builder_options
  sb_buf :: bytes
  sb_block_builder :: "block_builder option"
  sb_block_metas :: "block_meta list"
  sb_user_key_hashes :: "u32 list"
  sb_last_full_key :: bytes

text \<open>The allocations divide by the block capacity.\<close>

definition sstable_builder_new :: "sstable_builder_options \<Rightarrow> sstable_builder res" where
  "sstable_builder_new options =
     rbind (rassert (sbo_block_capacity options \<noteq> 0)) (\<lambda>_.
       Ok \<lparr>sb_options = options, sb_buf = [], sb_block_builder = None, sb_block_metas = [],
           sb_user_key_hashes = [], sb_last_full_key = []\<rparr>)"

definition sb_build_block ::
  "(bytes \<Rightarrow> bytes) \<Rightarrow> (bytes \<Rightarrow> nat) \<Rightarrow> sstable_builder \<Rightarrow> sstable_builder res" where
  "sb_build_block compress crc32 sb =
     (case sb_block_builder sb of
        None \<Rightarrow> Ok sb
      | Some kb \<Rightarrow>
          rbind (unwrap (last_of (sb_block_metas sb))) (\<lambda>m.
          rbind (block_build compress crc32 kb) (\<lambda>blk.
          let buf = sb_buf sb @ blk in
          rbind (sub_u64 (length buf) (bm_offset m)) (\<lambda>len.
            Ok (sb\<lparr>sb_block_builder := None, sb_buf := buf,
                   sb_block_metas := butlast (sb_block_metas sb) @
                     [m\<lparr>bm_last_key := sb_last_full_key sb, bm_len := len\<rparr>],
                   sb_last_full_key := []\<rparr>)))))"

definition sb_rotate :: "sstable_builder \<Rightarrow> sstable_builder res" where
  "sb_rotate sb =
     (case sb_block_builder sb of
        Some kb \<Rightarrow> Ok sb
      | None \<Rightarrow>
          rbind (block_builder_new
              \<lparr>kbo_capacity = sbo_capacity (sb_options sb),
               kbo_compression_algorithm = sbo_compression_algorithm (sb_options sb),
               kbo_restart_interval = sbo_restart_interval (sb_options sb)\<rparr>) (\<lambda>kb.
            Ok (sb\<lparr>sb_block_builder := Some kb,
                   sb_block_metas := sb_block_metas sb @
                     [\<lparr>bm_offset = length (sb_buf sb), bm_len = 0, bm_first_key = [], bm_last_key = []\<rparr>]\<rparr>)))"

definition sb_add ::
  "(bytes \<Rightarrow> bytes) \<Rightarrow> (bytes \<Rightarrow> nat) \<Rightarrow> (bytes \<Rightarrow> u32) \<Rightarrow> bytes \<Rightarrow> u64 \<Rightarrow> bytes option \<Rightarrow>
     sstable_builder \<Rightarrow> sstable_builder res" where
  "sb_add compress crc32 fingerprint32 ukey seqno val sb =
     rbind (sb_rotate sb) (\<lambda>sb.
     rbind (unwrap (sb_block_builder sb)) (\<lambda>kb.
     let key = full_key ukey seqno in
     rbind (block_add key (raw_value val) kb) (\<lambda>kb.
     let sb = sb\<lparr>sb_block_builder := Some kb,
                 sb_user_key_hashes := sb_user_key_hashes sb @ [fingerprint32 ukey]\<rparr> in
     rbind (if sb_last_full_key sb = [] then
              rbind (unwrap (last_of (sb_block_metas sb))) (\<lambda>m.
                Ok (sb\<lparr>sb_block_metas := butlast (sb_block_metas sb) @ [m\<lparr>bm_first_key := key\<rparr>]\<rparr>))
            else Ok sb) (\<lambda>sb.
     let sb = sb\<lparr>sb_last_full_key := key\<rparr> in
     if sbo_block_capacity (sb_options sb) \<le> block_approximate_len kb
     then sb_build_block compress crc32 sb
     else Ok sb))))"

definition sb_bloom :: "sstable_builder \<Rightarrow> bytes res" where
  "sb_bloom sb =
     (if sbo_bloom_false_positive (sb_options sb) > 0
      then build_from_key_hashes (sb_user_key_hashes sb)
             (bloom_bits_per_key (length (sb_user_key_hashes sb)) (sbo_bloom_false_positive (sb_options sb)))
      else Ok [])"

definition sb_build ::
  "(bytes \<Rightarrow> bytes) \<Rightarrow> (bytes \<Rightarrow> nat) \<Rightarrow> sstable_builder \<Rightarrow> (sstable_meta \<times> bytes) res" where
  "sb_build compress crc32 sb =
     rbind (sb_build_block compress crc32 sb) (\<lambda>sb.
     let buf = put_u32_le (length (sb_block_metas sb)) (sb_buf sb) in
     rbind (sb_bloom sb) (\<lambda>bloom_filter_bytes.
       Ok (\<lparr>sm_block_metas = sb_block_metas sb, sm_bloom_filter_bytes = bloom_filter_bytes,
            sm_data_size = length buf\<rparr>, buf)))"

definition sb_approximate_len :: "sstable_builder \<Rightarrow> nat" where
  "sb_approximate_len sb = length (sb_buf sb) + 4"

definition sb_len :: "sstable_builder \<Rightarrow> nat" where
  "sb_len sb = length (sb_user_key_hashes sb)"

definition sb_is_empty :: "sstable_builder \<Rightarrow> bool" where
  "sb_is_empty sb \<longleftrightarrow> sb_user_key_hashes sb = []"

section \<open>The metadata codec\<close>

definition block_meta_fits :: "block_meta \<Rightarrow> bool" where
  "block_meta_fits m \<longleftrightarrow> bm_offset m < 2 ^ 32 \<and> bm_len m < 2 ^ 32 \<and>
     length (bm_first_key m) < 2 ^ 32 \<and> length (bm_last_key m) < 2 ^ 32"

definition meta_fits :: "sstable_meta \<Rightarrow> bool" where
  "meta_fits m \<longleftrightarrow> (\<forall>b \<in> set (sm_block_metas m). block_meta_fits b) \<and> length (sm_block_metas m) < 2 ^ 32 \<and>
     length (sm_bloom_filter_bytes m) < 2 ^ 32 \<and> sm_data_size m < 2 ^ 64"

lemma block_meta_encode_append: "block_meta_encode m buf = buf @ block_meta_encode m []"
  by (simp add: block_meta_encode_def Let_def)

lemma block_meta_decode_encode [codec_simps]:
  "block_meta_fits m \<Longrightarrow> block_meta_decode (block_meta_encode m [] @ rest) = Ok (m, rest)"
  by (simp add: block_meta_decode_def block_meta_encode_def block_meta_fits_def Let_def codec_simps
      copy_to_bytes_def)

lemma fold_block_meta_encode:
  "fold block_meta_encode ms buf = buf @ concat (map (\<lambda>m. block_meta_encode m []) ms)"
proof (induction ms arbitrary: buf)
  case (Cons m ms)
  then show ?case using block_meta_encode_append[of m buf] by simp
qed simp

lemma block_metas_decode_encode [codec_simps]:
  "\<forall>m \<in> set ms. block_meta_fits m \<Longrightarrow>
     block_metas_decode (length ms) (concat (map (\<lambda>m. block_meta_encode m []) ms) @ rest) = Ok (ms, rest)"
  by (induction ms) (simp_all add: codec_simps)

lemma sstable_meta_decode_encode:
  assumes "meta_fits m"
  shows "sstable_meta_decode (sstable_meta_encode crc32 m) = Ok m"
proof -
  have "get_u64_le (le_bytes 8 (sm_data_size m)) = Ok (sm_data_size m, [])"
    using get_le_put[of 8 "sm_data_size m" "[]"] assms by (simp add: meta_fits_def)
  then show ?thesis
    using assms by (simp add: sstable_meta_decode_def sstable_meta_encode_def fold_block_meta_encode
        meta_fits_def Let_def codec_simps)
qed

section \<open>The builder writes blocks and their metadata\<close>

type_synonym version_entry = "bytes \<times> u64 \<times> bytes option"

definition entry_of :: "version_entry \<Rightarrow> bytes \<times> bytes" where
  "entry_of x = (full_key (fst x) (fst (snd x)), raw_value (snd (snd x)))"

definition entry_fits :: "bytes \<times> bytes \<Rightarrow> bool" where
  "entry_fits e \<longleftrightarrow> length (fst e) < 2 ^ 28 \<and> length (snd e) < 2 ^ 28"

definition block_stored ::
  "(bytes \<Rightarrow> bytes option) \<Rightarrow> (bytes \<Rightarrow> nat) \<Rightarrow> nat \<Rightarrow> kvs \<Rightarrow> bytes \<Rightarrow> bool" where
  "block_stored decompress crc32 r es buf \<longleftrightarrow>
     block_ok r es \<and> block_decode decompress crc32 buf = Ok (block_image r es)"

definition meta_of :: "nat \<Rightarrow> nat \<Rightarrow> kvs \<Rightarrow> block_meta" where
  "meta_of offset len es =
     \<lparr>bm_offset = offset, bm_len = len, bm_first_key = fst (hd es), bm_last_key = fst (last es)\<rparr>"

fun metas_of :: "nat \<Rightarrow> kvs list \<Rightarrow> bytes list \<Rightarrow> block_meta list" where
  "metas_of offset (es # bss) (buf # bufs) =
     meta_of offset (length buf) es # metas_of (offset + length buf) bss bufs"
| "metas_of offset _ _ = []"

lemma metas_of_snoc:
  "length bss = length bufs \<Longrightarrow> metas_of offset (bss @ [es]) (bufs @ [buf]) =
     metas_of offset bss bufs @ [meta_of (offset + length (concat bufs)) (length buf) es]"
  by (induction offset bss bufs rule: metas_of.induct) (auto simp: add.assoc)

text \<open>The builder has written the blocks \<open>bss\<close> and holds the entries \<open>cur\<close> of an open one.\<close>

definition sb_blocks ::
  "(bytes \<Rightarrow> bytes option) \<Rightarrow> (bytes \<Rightarrow> nat) \<Rightarrow> sstable_builder_options \<Rightarrow> kvs list \<Rightarrow> kvs \<Rightarrow>
     sstable_builder \<Rightarrow> bool" where
  "sb_blocks decompress crc32 o1 bss cur sb \<longleftrightarrow>
     sb_options sb = o1 \<and>
     (\<exists>bufs. list_all2 (block_stored decompress crc32 (sbo_restart_interval o1)) bss bufs \<and>
        sb_buf sb = concat bufs \<and>
        (if cur = [] then sb_block_builder sb = None \<and> sb_block_metas sb = metas_of 0 bss bufs \<and>
           sb_last_full_key sb = []
         else (\<exists>kb m. sb_block_builder sb = Some kb \<and>
           built_block (sbo_restart_interval o1) (sbo_compression_algorithm o1) cur kb \<and>
           sb_block_metas sb = metas_of 0 bss bufs @ [m] \<and> bm_offset m = length (concat bufs) \<and>
           bm_first_key m = fst (hd cur) \<and> sb_last_full_key sb = fst (last cur))))"

lemma sb_build_block_blocks:
  assumes inv: "sb_blocks decompress crc32 o1 bss cur sb" and ne: "cur \<noteq> []"
    and ok: "block_ok (sbo_restart_interval o1) cur" "length (layout (sbo_restart_interval o1) cur) < 2 ^ 32"
    and lz4: "lz4_frames compress decompress" and crc: "\<forall>bs. crc32 bs < 2 ^ 32"
  shows "\<exists>sb'. sb_build_block compress crc32 sb = Ok sb' \<and> sb_blocks decompress crc32 o1 (bss @ [cur]) [] sb' \<and>
    sb_user_key_hashes sb' = sb_user_key_hashes sb"
proof -
  obtain bufs kb m where st: "list_all2 (block_stored decompress crc32 (sbo_restart_interval o1)) bss bufs"
    "sb_buf sb = concat bufs" "sb_block_builder sb = Some kb"
    "built_block (sbo_restart_interval o1) (sbo_compression_algorithm o1) cur kb"
    "sb_block_metas sb = metas_of 0 bss bufs @ [m]" "bm_offset m = length (concat bufs)"
    "bm_first_key m = fst (hd cur)" "sb_last_full_key sb = fst (last cur)" "sb_options sb = o1"
    using inv ne unfolding sb_blocks_def by auto
  obtain buf where buf: "block_build compress crc32 kb = Ok buf"
    "block_decode decompress crc32 buf = Ok (block_image (sbo_restart_interval o1) cur)"
    using block_decode_build[OF st(4) ne block_okD(1)[OF ok(1)] ok(2) lz4, of crc32] crc by blast
  have m: "m\<lparr>bm_last_key := fst (last cur), bm_len := length buf\<rparr> = meta_of (length (concat bufs)) (length buf) cur"
    using st(6,7) by (simp add: meta_of_def)
  have "list_all2 (block_stored decompress crc32 (sbo_restart_interval o1)) (bss @ [cur]) (bufs @ [buf])"
    using st(1) ok(1) buf(2) by (auto intro!: list_all2_appendI simp: block_stored_def)
  moreover have "metas_of 0 (bss @ [cur]) (bufs @ [buf]) =
      metas_of 0 bss bufs @ [m\<lparr>bm_last_key := fst (last cur), bm_len := length buf\<rparr>]"
    using metas_of_snoc[OF list_all2_lengthD[OF st(1)], of 0 cur buf] m by simp
  ultimately show ?thesis
    using st buf(1) unfolding sb_build_block_def sb_blocks_def
    by (auto simp: last_of_def Let_def intro!: exI[of _ "bufs @ [buf]"])
qed

lemma sb_rotate_blocks:
  assumes "sb_blocks decompress crc32 o1 bss cur sb" "0 < sbo_restart_interval o1"
  shows "\<exists>sb' kb bufs m. sb_rotate sb = Ok sb' \<and> sb_block_builder sb' = Some kb \<and>
    built_block (sbo_restart_interval o1) (sbo_compression_algorithm o1) cur kb \<and>
    list_all2 (block_stored decompress crc32 (sbo_restart_interval o1)) bss bufs \<and> sb_buf sb' = concat bufs \<and>
    sb_block_metas sb' = metas_of 0 bss bufs @ [m] \<and> bm_offset m = length (concat bufs) \<and>
    (cur \<noteq> [] \<longrightarrow> bm_first_key m = fst (hd cur)) \<and> sb_options sb' = o1 \<and>
    sb_last_full_key sb' = (if cur = [] then [] else fst (last cur)) \<and>
    sb_user_key_hashes sb' = sb_user_key_hashes sb"
proof (cases "cur = []")
  case True
  let ?ko = "\<lparr>kbo_capacity = sbo_capacity o1, kbo_compression_algorithm = sbo_compression_algorithm o1,
    kbo_restart_interval = sbo_restart_interval o1\<rparr>"
  obtain kb where kb: "block_builder_new ?ko = Ok kb"
    "built_block (sbo_restart_interval o1) (sbo_compression_algorithm o1) [] kb"
    using built_block_new[of ?ko] assms(2) by auto
  with True assms(1) show ?thesis unfolding sb_blocks_def by (auto simp: sb_rotate_def)
next
  case False
  with assms(1) show ?thesis unfolding sb_blocks_def by (auto simp: sb_rotate_def)
qed

lemma length_entry_bytes_le:
  assumes "i < length es"
  shows "length (entry_bytes r es i) \<le> 15 + length (key_at es i) + length (value_at es i)"
proof -
  let ?p = "prefix_at r es i 0"
  have "prefix_len ?p \<le> 15"
    using var_u32_len_bounds[of "of_nat (kp_overlap ?p)"] var_u32_len_bounds[of "of_nat (kp_diff ?p)"]
      var_u32_len_bounds[of "of_nat (kp_value ?p)"] by (simp add: prefix_len_def)
  then show ?thesis by (simp add: entry_bytes_def)
qed

lemma layout_le: "length (layout r es) \<le> (\<Sum>e \<leftarrow> es. 15 + length (fst e) + length (snd e))"
proof (induction es rule: rev_induct)
  case (snoc e es)
  then show ?case using length_entry_bytes_le[of "length es" "es @ [e]" r] by (simp add: layout_snoc)
qed (simp add: layout_def)

lemma approximate_len_layout: "built_block r c es kb \<Longrightarrow> length (layout r es) < block_approximate_len kb"
  by (simp add: block_approximate_len_def built_block_def)

text \<open>An open block stays below the block capacity.\<close>

definition sb_inv ::
  "(bytes \<Rightarrow> bytes option) \<Rightarrow> (bytes \<Rightarrow> nat) \<Rightarrow> (bytes \<Rightarrow> u32) \<Rightarrow> sstable_builder_options \<Rightarrow> kvs list \<Rightarrow> kvs \<Rightarrow>
     version_entry list \<Rightarrow> sstable_builder \<Rightarrow> bool" where
  "sb_inv decompress crc32 fingerprint32 o1 bss cur xs sb \<longleftrightarrow>
     sb_blocks decompress crc32 o1 bss cur sb \<and> concat bss @ cur = map entry_of xs \<and>
     sb_user_key_hashes sb = map (fingerprint32 \<circ> fst) xs \<and>
     length (layout (sbo_restart_interval o1) cur) \<le> sbo_block_capacity o1"

definition options_ok :: "sstable_builder_options \<Rightarrow> bool" where
  "options_ok o1 \<longleftrightarrow> 0 < sbo_restart_interval o1 \<and> 0 < sbo_block_capacity o1 \<and> sbo_block_capacity o1 \<le> 2 ^ 31"

lemma layout_Nil [simp]: "layout r [] = []"
  by (simp add: layout_def)

lemma sb_add_inv:
  assumes inv: "sb_inv decompress crc32 fingerprint32 o1 bss cur xs sb" and o1: "options_ok o1"
    and sorted: "key_sorted (map entry_of (xs @ [(k, s, v)]))"
    and fits: "\<forall>e \<in> set (map entry_of (xs @ [(k, s, v)])). entry_fits e"
    and lz4: "lz4_frames compress decompress" and crc: "\<forall>bs. crc32 bs < 2 ^ 32"
  shows "\<exists>bss' cur' sb'. sb_add compress crc32 fingerprint32 k s v sb = Ok sb' \<and>
    sb_inv decompress crc32 fingerprint32 o1 bss' cur' (xs @ [(k, s, v)]) sb'"
proof -
  let ?e = "entry_of (k, s, v)" and ?r = "sbo_restart_interval o1"
  let ?cur = "cur @ [?e]"
  have blocks: "sb_blocks decompress crc32 o1 bss cur sb" and cat: "concat bss @ cur = map entry_of xs"
    and hashes: "sb_user_key_hashes sb = map (fingerprint32 \<circ> fst) xs"
    and cap: "length (layout ?r cur) \<le> sbo_block_capacity o1" using inv by (auto simp: sb_inv_def)
  have r: "0 < ?r" using o1 by (simp add: options_ok_def)
  have cat': "concat bss @ ?cur = map entry_of (xs @ [(k, s, v)])" using cat by simp
  have scur: "key_sorted ?cur" using sorted cat' by (metis key_sorted_append)
  obtain sb1 kb bufs m where sb1: "sb_rotate sb = Ok sb1" "sb_block_builder sb1 = Some kb"
    "built_block ?r (sbo_compression_algorithm o1) cur kb"
    "list_all2 (block_stored decompress crc32 ?r) bss bufs" "sb_buf sb1 = concat bufs"
    "sb_block_metas sb1 = metas_of 0 bss bufs @ [m]" "bm_offset m = length (concat bufs)"
    "cur \<noteq> [] \<longrightarrow> bm_first_key m = fst (hd cur)" "sb_options sb1 = o1"
    "sb_last_full_key sb1 = (if cur = [] then [] else fst (last cur))"
    "sb_user_key_hashes sb1 = sb_user_key_hashes sb"
    using sb_rotate_blocks[OF blocks r] by blast
  obtain kb' where kb': "block_add (full_key k s) (raw_value v) kb = Ok kb'"
    "built_block ?r (sbo_compression_algorithm o1) ?cur kb'"
    using block_add_built[OF sb1(3) r] scur by (auto simp: entry_of_def)
  have last: "sb_last_full_key sb1 = [] \<longleftrightarrow> cur = []"
  proof -
    have "8 \<le> length (fst (last cur))" if "cur \<noteq> []" using key_sorted_snoc[OF scur] that by simp
    then show ?thesis using sb1(10) by (cases "cur = []") fastforce+
  qed
  define sb2 where "sb2 = (let sb = sb1\<lparr>sb_block_builder := Some kb',
      sb_user_key_hashes := sb_user_key_hashes sb1 @ [fingerprint32 k]\<rparr> in
    (if cur = [] then sb\<lparr>sb_block_metas := metas_of 0 bss bufs @ [m\<lparr>bm_first_key := full_key k s\<rparr>]\<rparr> else sb)
      \<lparr>sb_last_full_key := full_key k s\<rparr>)"
  have step: "sb_add compress crc32 fingerprint32 k s v sb =
    (if sbo_block_capacity o1 \<le> block_approximate_len kb' then sb_build_block compress crc32 sb2 else Ok sb2)"
    using sb1 kb'(1) last by (cases "cur = []") (simp_all add: sb_add_def sb2_def last_of_def Let_def)
  have blocks2: "sb_blocks decompress crc32 o1 bss ?cur sb2"
    unfolding sb_blocks_def sb2_def using sb1 kb'(2)
    by (cases "cur = []") (auto simp: entry_of_def intro!: exI[of _ bufs])
  have hashes2: "sb_user_key_hashes sb2 = map (fingerprint32 \<circ> fst) (xs @ [(k, s, v)])"
    using sb1(11) hashes by (simp add: sb2_def Let_def)
  show ?thesis
  proof (cases "sbo_block_capacity o1 \<le> block_approximate_len kb'")
    case False
    then have "length (layout ?r ?cur) \<le> sbo_block_capacity o1"
      using approximate_len_layout[OF kb'(2)] by linarith
    then show ?thesis using False step blocks2 hashes2 cat'
      by (intro exI[of _ bss] exI[of _ ?cur] exI[of _ sb2]) (simp add: sb_inv_def)
  next
    case True
    have fe: "entry_fits ?e" "\<forall>e \<in> set ?cur. entry_fits e" using fits unfolding cat'[symmetric] by auto
    have "length (layout ?r ?cur) \<le> sbo_block_capacity o1 + 15 + length (fst ?e) + length (snd ?e)"
      using length_entry_bytes_le[of "length cur" ?cur ?r] cap layout_snoc[of ?r cur ?e] by simp
    then have lay: "length (layout ?r ?cur) < 2 ^ 32" using fe(1) o1 by (simp add: entry_fits_def options_ok_def)
    then have "block_ok ?r ?cur" using r scur fe(2) by (simp add: block_ok_def entry_fits_def)
    from sb_build_block_blocks[OF blocks2 _ this lay lz4 crc] obtain sb3 where
      "sb_build_block compress crc32 sb2 = Ok sb3" "sb_blocks decompress crc32 o1 (bss @ [?cur]) [] sb3"
      "sb_user_key_hashes sb3 = sb_user_key_hashes sb2" by auto
    then show ?thesis using True step hashes2 cat'
      by (intro exI[of _ "bss @ [?cur]"] exI[of _ "[]"] exI[of _ sb3]) (simp add: sb_inv_def)
  qed
qed

definition add_entry ::
  "(bytes \<Rightarrow> bytes) \<Rightarrow> (bytes \<Rightarrow> nat) \<Rightarrow> (bytes \<Rightarrow> u32) \<Rightarrow> version_entry \<Rightarrow> sstable_builder \<Rightarrow> sstable_builder res" where
  "add_entry compress crc32 fingerprint32 x = sb_add compress crc32 fingerprint32 (fst x) (fst (snd x)) (snd (snd x))"

lemma sb_add_all_inv:
  assumes "sb_inv decompress crc32 fingerprint32 o1 bss cur xs sb" "options_ok o1"
    and "key_sorted (map entry_of (xs @ ys))" "\<forall>e \<in> set (map entry_of (xs @ ys)). entry_fits e"
    and "lz4_frames compress decompress" "\<forall>bs. crc32 bs < 2 ^ 32"
  shows "\<exists>bss' cur' sb'. rfold (add_entry compress crc32 fingerprint32) ys sb = Ok sb' \<and>
    sb_inv decompress crc32 fingerprint32 o1 bss' cur' (xs @ ys) sb'"
  using assms(1,3,4)
proof (induction ys arbitrary: bss cur xs sb)
  case Nil
  then show ?case by auto
next
  case (Cons y ys)
  obtain k s v where y: "y = (k, s, v)" by (cases y) auto
  have "key_sorted (map entry_of (xs @ [(k, s, v)]))"
    using Cons.prems(2) by (auto simp: y key_sorted_def sorted_wrt_append)
  moreover have "\<forall>e \<in> set (map entry_of (xs @ [(k, s, v)])). entry_fits e" using Cons.prems(3) by (simp add: y)
  ultimately obtain bss' cur' sb' where st: "sb_add compress crc32 fingerprint32 k s v sb = Ok sb'"
    "sb_inv decompress crc32 fingerprint32 o1 bss' cur' (xs @ [(k, s, v)]) sb'"
    using sb_add_inv[OF Cons.prems(1) assms(2) _ _ assms(5,6)] by blast
  from Cons.IH[OF st(2)] Cons.prems(2,3) st(1) show ?case by (simp add: y add_entry_def)
qed

section \<open>A built table\<close>

text \<open>A table holds the blocks \<open>bss\<close>: every block's metadata names its range and its first and last key.\<close>

definition table_holds ::
  "(bytes \<Rightarrow> bytes option) \<Rightarrow> (bytes \<Rightarrow> nat) \<Rightarrow> nat \<Rightarrow> kvs list \<Rightarrow> sstable_meta \<Rightarrow> bytes \<Rightarrow> bool" where
  "table_holds decompress crc32 r bss m data \<longleftrightarrow>
     length (sm_block_metas m) = length bss \<and>
     (\<forall>i < length bss. bss ! i \<noteq> [] \<and> block_ok r (bss ! i) \<and>
        bm_first_key (sm_block_metas m ! i) = fst (hd (bss ! i)) \<and>
        bm_last_key (sm_block_metas m ! i) = fst (last (bss ! i)) \<and>
        (\<exists>buf. slice (fst (data_range (sm_block_metas m ! i))) (snd (data_range (sm_block_metas m ! i))) data = Ok buf \<and>
           block_decode decompress crc32 buf = Ok (block_image r (bss ! i))))"

lemma length_metas_of: "length bss = length bufs \<Longrightarrow> length (metas_of offset bss bufs) = length bss"
  by (induction offset bss bufs rule: metas_of.induct) auto

lemma metas_of_nth:
  assumes "length bss = length bufs" "i < length bss"
  shows "metas_of offset bss bufs ! i = meta_of (offset + length (concat (take i bufs))) (length (bufs ! i)) (bss ! i)"
  using assms by (induction offset bss bufs arbitrary: i rule: metas_of.induct) (auto simp: nth_Cons' add.assoc take_Cons')

lemma table_holds_metas:
  assumes "list_all2 (block_stored decompress crc32 r) bss bufs" "sm_block_metas m = metas_of 0 bss bufs"
  shows "table_holds decompress crc32 r bss m (concat bufs @ rest)"
  unfolding table_holds_def
proof (intro conjI allI impI)
  note len = list_all2_lengthD[OF assms(1)]
  show "length (sm_block_metas m) = length bss"
    using assms(2) length_metas_of[OF len] by simp
  fix i assume i: "i < length bss"
  note nth = metas_of_nth[OF len i, of 0]
  have st: "block_stored decompress crc32 r (bss ! i) (bufs ! i)" using list_all2_nthD[OF assms(1) i] .
  then show "bss ! i \<noteq> []" "block_ok r (bss ! i)" using block_okD(2) by (auto simp: block_stored_def)
  show "bm_first_key (sm_block_metas m ! i) = fst (hd (bss ! i))"
    "bm_last_key (sm_block_metas m ! i) = fst (last (bss ! i))" by (simp_all add: assms(2) nth meta_of_def)
  have split: "concat bufs @ rest = concat (take i bufs) @ bufs ! i @ concat (drop (Suc i) bufs) @ rest"
    using i len by (simp flip: concat_append append_assoc) (metis append_take_drop_id concat_append
        Cons_nth_drop_Suc concat.simps(2) append_assoc)
  show "\<exists>buf. slice (fst (data_range (sm_block_metas m ! i))) (snd (data_range (sm_block_metas m ! i)))
      (concat bufs @ rest) = Ok buf \<and> block_decode decompress crc32 buf = Ok (block_image r (bss ! i))"
    using st unfolding block_stored_def
    by (intro exI[of _ "bufs ! i"]) (simp add: assms(2) nth meta_of_def data_range_def split)
qed

lemma sb_build_holds:
  assumes inv: "sb_inv decompress crc32 fingerprint32 o1 bss cur xs sb" and o1: "options_ok o1"
    and sorted: "key_sorted (map entry_of xs)" and fits: "\<forall>e \<in> set (map entry_of xs). entry_fits e"
    and lz4: "lz4_frames compress decompress" and crc: "\<forall>bs. crc32 bs < 2 ^ 32"
  shows "\<exists>bss m data. sb_build compress crc32 sb = Ok (m, data) \<and> concat bss = map entry_of xs \<and>
    table_holds decompress crc32 (sbo_restart_interval o1) bss m data \<and> sm_data_size m = length data \<and>
    (0 < sbo_bloom_false_positive o1 \<longrightarrow> build_from_key_hashes (map (fingerprint32 \<circ> fst) xs)
       (bloom_bits_per_key (length xs) (sbo_bloom_false_positive o1)) = Ok (sm_bloom_filter_bytes m))"
proof -
  let ?r = "sbo_restart_interval o1"
  have blocks: "sb_blocks decompress crc32 o1 bss cur sb" and cat: "concat bss @ cur = map entry_of xs"
    and hashes: "sb_user_key_hashes sb = map (fingerprint32 \<circ> fst) xs"
    and cap: "length (layout ?r cur) \<le> sbo_block_capacity o1" using inv by (auto simp: sb_inv_def)
  have "\<exists>bss' sb'. sb_build_block compress crc32 sb = Ok sb' \<and> sb_blocks decompress crc32 o1 bss' [] sb' \<and>
      concat bss' = map entry_of xs \<and> sb_user_key_hashes sb' = sb_user_key_hashes sb"
  proof (cases "cur = []")
    case True
    then have "sb_build_block compress crc32 sb = Ok sb" using blocks by (auto simp: sb_build_block_def sb_blocks_def)
    then show ?thesis using True blocks cat by auto
  next
    case False
    have "key_sorted cur" "\<forall>e \<in> set cur. entry_fits e" using sorted fits key_sorted_append by (auto simp flip: cat)
    moreover have lay: "length (layout ?r cur) < 2 ^ 32" using cap o1 by (simp add: options_ok_def)
    ultimately have "block_ok ?r cur" using False o1 by (simp add: block_ok_def entry_fits_def options_ok_def)
    from sb_build_block_blocks[OF blocks False this lay lz4 crc] cat show ?thesis by fastforce
  qed
  then obtain bss' sb' bufs where sb': "sb_build_block compress crc32 sb = Ok sb'" "sb_options sb' = o1"
    "list_all2 (block_stored decompress crc32 ?r) bss' bufs" "sb_buf sb' = concat bufs"
    "sb_block_metas sb' = metas_of 0 bss' bufs" "concat bss' = map entry_of xs"
    "sb_user_key_hashes sb' = map (fingerprint32 \<circ> fst) xs" using hashes unfolding sb_blocks_def by auto
  obtain bl where bl: "sb_bloom sb' = Ok bl"
    using build_from_key_hashes_Ok unfolding sb_bloom_def by (cases "0 < sbo_bloom_false_positive (sb_options sb')") auto
  let ?data = "concat bufs @ le_bytes 4 (length (metas_of 0 bss' bufs))"
  let ?m = "\<lparr>sm_block_metas = metas_of 0 bss' bufs, sm_bloom_filter_bytes = bl, sm_data_size = length ?data\<rparr>"
  have "sb_build compress crc32 sb = Ok (?m, ?data)" using sb' bl by (simp add: sb_build_def Let_def)
  moreover have "table_holds decompress crc32 ?r bss' ?m ?data"
    by (rule table_holds_metas[OF sb'(3)]) simp
  moreover have "0 < sbo_bloom_false_positive o1 \<longrightarrow> build_from_key_hashes (map (fingerprint32 \<circ> fst) xs)
       (bloom_bits_per_key (length xs) (sbo_bloom_false_positive o1)) = Ok bl"
    using bl unfolding sb_bloom_def sb'(2,7) by (auto split: if_splits)
  ultimately show ?thesis using sb'(6)
    by (intro exI[of _ bss'] exI[of _ ?m] exI[of _ ?data]) simp
qed

section \<open>Properties\<close>

lemma sb_inv_new:
  assumes "sstable_builder_new o1 = Ok sb"
  shows "sb_inv decompress crc32 fingerprint32 o1 [] [] [] sb"
  using assms by (auto simp: sstable_builder_new_def sb_inv_def sb_blocks_def outcome_simps)

lemma sstable_built:
  assumes "lz4_frames compress decompress" "\<forall>bs. crc32 bs < 2 ^ 32" "options_ok o1"
    and "key_sorted (map entry_of xs)" "\<forall>x \<in> set xs. entry_fits (entry_of x)"
  shows "\<exists>sb0 sb bss m data. sstable_builder_new o1 = Ok sb0 \<and>
    rfold (add_entry compress crc32 fingerprint32) xs sb0 = Ok sb \<and> sb_build compress crc32 sb = Ok (m, data) \<and>
    concat bss = map entry_of xs \<and> table_holds decompress crc32 (sbo_restart_interval o1) bss m data \<and>
    sm_data_size m = length data \<and>
    (0 < sbo_bloom_false_positive o1 \<longrightarrow> build_from_key_hashes (map (fingerprint32 \<circ> fst) xs)
       (bloom_bits_per_key (length xs) (sbo_bloom_false_positive o1)) = Ok (sm_bloom_filter_bytes m))"
proof -
  have fits: "\<forall>e \<in> set (map entry_of xs). entry_fits e" using assms(5) by simp
  obtain sb0 where new: "sstable_builder_new o1 = Ok sb0"
    using assms(3) by (simp add: sstable_builder_new_def options_ok_def)
  obtain bss cur sb where sb: "rfold (add_entry compress crc32 fingerprint32) xs sb0 = Ok sb"
    "sb_inv decompress crc32 fingerprint32 o1 bss cur xs sb"
    using sb_add_all_inv[OF sb_inv_new[OF new] assms(3) _ _ assms(1,2), of xs fingerprint32] assms(4) fits by auto
  from sb_build_holds[OF sb(2) assms(3,4) fits assms(1,2)] new sb(1) show ?thesis by blast
qed

text \<open>The metadata of a table survives its encoding: decoding the encoded bytes gives it back, as
  long as every length and offset fits the width it is stored in.\<close>

theorem sstable_meta_round_trip:
  assumes "meta_fits m"
  shows "sstable_meta_decode (sstable_meta_encode crc32 m) = Ok m"
  using assms by (rule sstable_meta_decode_encode)

theorem sstable_meta_round_trip_witness:
  "let m = \<lparr>sm_block_metas = [\<lparr>bm_offset = 0, bm_len = 300, bm_first_key = [1], bm_last_key = [2, 3]\<rparr>],
            sm_bloom_filter_bytes = [255, 7], sm_data_size = 304\<rparr>
   in sstable_meta_decode (sstable_meta_encode (\<lambda>_. 7) m) = Ok m"
  unfolding Let_def by (rule sstable_meta_round_trip) (simp add: meta_fits_def block_meta_fits_def)

text \<open>A table holds what was added: for every sorted run of versions, adding them and building
  succeeds, and the entries are cut, in order and without a gap, into blocks, each of which lies in
  the data where its metadata says, decodes, and has the first and last key its metadata names.\<close>

theorem sstable_build_holds_entries:
  assumes "lz4_frames compress decompress" "\<forall>bs. crc32 bs < 2 ^ 32" "options_ok o1"
    and "key_sorted (map entry_of xs)" "\<forall>x \<in> set xs. entry_fits (entry_of x)"
  shows "\<exists>sb0 sb bss m data. sstable_builder_new o1 = Ok sb0 \<and>
    rfold (add_entry compress crc32 fingerprint32) xs sb0 = Ok sb \<and> sb_build compress crc32 sb = Ok (m, data) \<and>
    concat bss = map entry_of xs \<and> table_holds decompress crc32 (sbo_restart_interval o1) bss m data \<and>
    sm_data_size m = length data"
  using sstable_built[OF assms, of fingerprint32] by blast

definition example_options :: sstable_builder_options where
  "example_options = \<lparr>sbo_capacity = 1024, sbo_block_capacity = 32, sbo_restart_interval = 2,
     sbo_bloom_false_positive = 1, sbo_compression_algorithm = Lz4\<rparr>"

definition example_versions :: "version_entry list" where
  "example_versions = [([107, 49], 9, Some [1]), ([107, 49], 4, None), ([107, 50], 7, Some [4])]"

lemma example_versions_ok:
  "options_ok example_options" "key_sorted (map entry_of example_versions)"
  "\<forall>x \<in> set example_versions. entry_fits (entry_of x)"
  by (simp_all add: options_ok_def example_options_def example_versions_def key_sorted_def entry_of_def
      key_ord_full_key_less entry_fits_def raw_value_def)

theorem sstable_build_holds_entries_witness:
  "\<exists>sb0 sb bss m data. sstable_builder_new example_options = Ok sb0 \<and>
    rfold (add_entry stored_compress (\<lambda>_. 7) (\<lambda>_. 5)) example_versions sb0 = Ok sb \<and>
    sb_build stored_compress (\<lambda>_. 7) sb = Ok (m, data) \<and> concat bss = map entry_of example_versions \<and>
    table_holds stored_decompress (\<lambda>_. 7) (sbo_restart_interval example_options) bss m data \<and>
    sm_data_size m = length data"
  by (rule sstable_build_holds_entries[OF lz4_frames_stored _ example_versions_ok]) simp

text \<open>A table's filter never denies a key it holds: after building with a positive false-positive
  rate, \<open>may_contain_key\<close> answers true for every user key that was added.\<close>

theorem sstable_filter_no_false_negative:
  assumes "lz4_frames compress decompress" "\<forall>bs. crc32 bs < 2 ^ 32" "options_ok o1"
    and "key_sorted (map entry_of xs)" "\<forall>x \<in> set xs. entry_fits (entry_of x)"
    and "0 < sbo_bloom_false_positive o1"
    and "length xs * bloom_bits_per_key (length xs) (sbo_bloom_false_positive o1) + 64 < 2 ^ 32"
    and "(k, s, v) \<in> set xs"
  shows "\<exists>sb0 sb m data. sstable_builder_new o1 = Ok sb0 \<and>
    rfold (add_entry compress crc32 fingerprint32) xs sb0 = Ok sb \<and> sb_build compress crc32 sb = Ok (m, data) \<and>
    sst_may_contain_key fingerprint32 \<lparr>sst_id = i, sst_meta = m\<rparr> k = Ok True"
proof -
  obtain sb0 sb m data where t: "sstable_builder_new o1 = Ok sb0"
    "rfold (add_entry compress crc32 fingerprint32) xs sb0 = Ok sb" "sb_build compress crc32 sb = Ok (m, data)"
    "build_from_key_hashes (map (fingerprint32 \<circ> fst) xs)
       (bloom_bits_per_key (length xs) (sbo_bloom_false_positive o1)) = Ok (sm_bloom_filter_bytes m)"
    using sstable_built[OF assms(1-5), of fingerprint32] assms(6) by blast
  have "fingerprint32 k \<in> set (map (fingerprint32 \<circ> fst) xs)" using assms(8) by force
  from bloom_no_false_negative_aux[OF this] assms(7) t(4) have
    "\<exists>bl. bloom_new (sm_bloom_filter_bytes m) = Ok bl \<and> may_contain bl (fingerprint32 k) = Ok True" by fastforce
  with t show ?thesis by (auto simp: sst_may_contain_key_def meta_may_contain_key_def)
qed

theorem sstable_filter_no_false_negative_witness:
  "\<exists>sb0 sb m data. sstable_builder_new example_options = Ok sb0 \<and>
    rfold (add_entry stored_compress (\<lambda>_. 7) (\<lambda>k. of_nat (length k))) example_versions sb0 = Ok sb \<and>
    sb_build stored_compress (\<lambda>_. 7) sb = Ok (m, data) \<and>
    sst_may_contain_key (\<lambda>k. of_nat (length k)) \<lparr>sst_id = 1, sst_meta = m\<rparr> [107, 50] = Ok True"
  by (rule sstable_filter_no_false_negative[OF lz4_frames_stored _ example_versions_ok])
    (simp_all add: example_options_def example_versions_def bloom_bits_per_key_def)

end
