(* ===== verification/SstableStore.thy ===== *)
theory SstableStore
  imports Sstable Decimal
begin

text \<open>
  \<open>storage/src/object_store\<close> and \<open>storage/src/lsm_tree/components/sstable_store.rs\<close>, \<open>block_cache.rs\<close>: the
  object store trait, its in-memory implementation, and the store of tables on top of it, which
  keeps the data and the metadata of a table as two objects and caches blocks and metadata.

  The trait is a record of its operations with its contract as the locale \<open>object_store\<close>. The caches
  of the \<open>moka\<close> crate are maps; that an entry may be dropped at any time is \<open>ss_evict\<close>. A call that
  changes an object returns its outcome and the state it leaves.
\<close>

section \<open>Object stores\<close>

record 'os object_store_ops =
  os_put :: "string \<Rightarrow> bytes \<Rightarrow> 'os \<Rightarrow> unit res \<times> 'os"
  os_get :: "string \<Rightarrow> 'os \<Rightarrow> bytes option res"
  os_get_range :: "string \<Rightarrow> nat \<times> nat \<Rightarrow> 'os \<Rightarrow> bytes option res"
  os_remove :: "string \<Rightarrow> 'os \<Rightarrow> unit res \<times> 'os"

record mem_object_store =
  mo_objects :: "string \<rightharpoonup> bytes"

definition mem_os_put :: "string \<Rightarrow> bytes \<Rightarrow> mem_object_store \<Rightarrow> unit res \<times> mem_object_store" where
  "mem_os_put path obj os = (Ok (), os\<lparr>mo_objects := (mo_objects os)(path \<mapsto> obj)\<rparr>)"

definition mem_os_get :: "string \<Rightarrow> mem_object_store \<Rightarrow> bytes option res" where
  "mem_os_get path os = Ok (mo_objects os path)"

definition mem_os_get_range :: "string \<Rightarrow> nat \<times> nat \<Rightarrow> mem_object_store \<Rightarrow> bytes option res" where
  "mem_os_get_range path rng os =
     (case mo_objects os path of
        None \<Rightarrow> Ok None
      | Some obj \<Rightarrow> rbind (slice (fst rng) (snd rng) obj) (\<lambda>bs. Ok (Some bs)))"

definition mem_os_remove :: "string \<Rightarrow> mem_object_store \<Rightarrow> unit res \<times> mem_object_store" where
  "mem_os_remove path os =
     (case mo_objects os path of
        None \<Rightarrow> (Err (ObjectStoreError (ObjectNotFound path)), os)
      | Some _ \<Rightarrow> (Ok (), os\<lparr>mo_objects := (mo_objects os)(path := None)\<rparr>))"

definition mem_object_store_ops :: "mem_object_store object_store_ops" where
  "mem_object_store_ops =
     \<lparr>os_put = mem_os_put, os_get = mem_os_get, os_get_range = mem_os_get_range, os_remove = mem_os_remove\<rparr>"

text \<open>The contract: the store is a map from paths to objects that reads agree with. A write may fail
  and then changes nothing.\<close>

locale object_store =
  fixes ops :: "'os object_store_ops"
    and objects :: "'os \<Rightarrow> string \<rightharpoonup> bytes"
  assumes put_Ok: "os_put ops path obj os = (Ok (), os') \<Longrightarrow> objects os' = (objects os)(path \<mapsto> obj)"
    and put_fails: "os_put ops path obj os = (r, os') \<Longrightarrow> r \<noteq> Ok () \<Longrightarrow> objects os' = objects os"
    and get: "objects os path = Some obj \<Longrightarrow> os_get ops path os = Ok (Some obj)"
    and get_range: "objects os path = Some obj \<Longrightarrow> slice a b obj = Ok bs \<Longrightarrow>
      os_get_range ops path (a, b) os = Ok (Some bs)"
    and remove_Ok: "os_remove ops path os = (Ok (), os') \<Longrightarrow> objects os' = (objects os)(path := None)"
    and remove_fails: "os_remove ops path os = (r, os') \<Longrightarrow> r \<noteq> Ok () \<Longrightarrow> objects os' = objects os"

interpretation mem_os: object_store mem_object_store_ops mo_objects
  by unfold_locales
    (auto simp: mem_object_store_ops_def mem_os_put_def mem_os_get_def mem_os_get_range_def mem_os_remove_def
      split: option.splits)

section \<open>The block cache\<close>

type_synonym block_cache = "bytes \<rightharpoonup> block"

definition cache_key :: "nat \<Rightarrow> nat \<Rightarrow> bytes" where
  "cache_key sst block_idx = put_u64_le block_idx (put_u64_le sst [])"

definition block_cache_get :: "nat \<Rightarrow> nat \<Rightarrow> block_cache \<Rightarrow> block option" where
  "block_cache_get sst block_idx cache = cache (cache_key sst block_idx)"

definition block_cache_insert :: "nat \<Rightarrow> nat \<Rightarrow> block \<Rightarrow> block_cache \<Rightarrow> block_cache" where
  "block_cache_insert sst block_idx b cache = cache(cache_key sst block_idx \<mapsto> b)"

definition block_cache_get_or_insert_with ::
  "nat \<Rightarrow> nat \<Rightarrow> block res \<Rightarrow> block_cache \<Rightarrow> (block \<times> block_cache) res" where
  "block_cache_get_or_insert_with sst block_idx fill cache =
     (case cache (cache_key sst block_idx) of
        Some b \<Rightarrow> Ok (b, cache)
      | None \<Rightarrow> rbind (map_err (\<lambda>_. Other ''fill'') fill)
                  (\<lambda>b. Ok (b, cache(cache_key sst block_idx \<mapsto> b))))"

section \<open>The table store\<close>

datatype cache_policy = Disable | Fill | NotFill

record 'os sstable_store =
  ss_path :: string
  ss_object_store :: 'os
  ss_block_cache :: block_cache
  ss_meta_cache :: "nat \<rightharpoonup> sstable_meta"

definition sstable_store_new :: "string \<Rightarrow> 'os \<Rightarrow> block_cache \<Rightarrow> 'os sstable_store" where
  "sstable_store_new path os cache =
     \<lparr>ss_path = path, ss_object_store = os, ss_block_cache = cache, ss_meta_cache = Map.empty\<rparr>"

definition meta_path :: "'os sstable_store \<Rightarrow> nat \<Rightarrow> string" where
  "meta_path st i = ss_path st @ ''/'' @ dec_digits i @ ''.meta''"

definition data_path :: "'os sstable_store \<Rightarrow> nat \<Rightarrow> string" where
  "data_path st i = ss_path st @ ''/'' @ dec_digits i @ ''.data''"

fun fill_blocks ::
  "(bytes \<Rightarrow> bytes option) \<Rightarrow> (bytes \<Rightarrow> nat) \<Rightarrow> nat \<Rightarrow> bytes \<Rightarrow> nat \<Rightarrow> block_meta list \<Rightarrow> block_cache \<Rightarrow>
     unit res \<times> block_cache" where
  "fill_blocks decompress crc32 i data block_idx [] cache = (Ok (), cache)"
| "fill_blocks decompress crc32 i data block_idx (m # ms) cache =
     (case rbind (slice (fst (data_range m)) (snd (data_range m)) data) (block_decode decompress crc32) of
        Ok b \<Rightarrow> fill_blocks decompress crc32 i data (Suc block_idx) ms (block_cache_insert i block_idx b cache)
      | Err e \<Rightarrow> (Err e, cache)
      | Panic \<Rightarrow> (Panic, cache)
      | OutOfFuel \<Rightarrow> (OutOfFuel, cache))"

definition ss_put ::
  "'os object_store_ops \<Rightarrow> (bytes \<Rightarrow> bytes option) \<Rightarrow> (bytes \<Rightarrow> nat) \<Rightarrow> sstable \<Rightarrow> bytes \<Rightarrow> cache_policy \<Rightarrow>
     'os sstable_store \<Rightarrow> unit res \<times> 'os sstable_store" where
  "ss_put ops decompress crc32 sst data policy st =
     (let (r, os) = os_put ops (data_path st (sst_id sst)) data (ss_object_store st);
          st = st\<lparr>ss_object_store := os\<rparr>
      in if r \<noteq> Ok () then (r, st)
         else
           let (r, os) = os_put ops (meta_path st (sst_id sst)) (sst_encode_meta crc32 sst) (ss_object_store st);
               st = st\<lparr>ss_object_store := os\<rparr>
           in if r \<noteq> Ok () then
                let (r', os) = os_remove ops (data_path st (sst_id sst)) (ss_object_store st)
                in (if r' \<noteq> Ok () then r' else r, st\<lparr>ss_object_store := os\<rparr>)
              else if policy = Fill then
                let (r, cache) = fill_blocks decompress crc32 (sst_id sst) data 0
                      (sm_block_metas (sst_meta sst)) (ss_block_cache st)
                in (r, st\<lparr>ss_block_cache := cache\<rparr>)
              else (Ok (), st))"

definition fetch_block ::
  "'os object_store_ops \<Rightarrow> (bytes \<Rightarrow> bytes option) \<Rightarrow> (bytes \<Rightarrow> nat) \<Rightarrow> 'os sstable_store \<Rightarrow> sstable \<Rightarrow> nat \<Rightarrow>
     block res" where
  "fetch_block ops decompress crc32 st sst block_index =
     rbind (ok_or (Other ''invalid block idx'') (sst_block_meta sst block_index)) (\<lambda>m.
     rbind (os_get_range ops (data_path st (sst_id sst)) (data_range m) (ss_object_store st)) (\<lambda>data.
     rbind (ok_or (ObjectStoreError (ObjectNotFound (data_path st (sst_id sst)))) data) (\<lambda>block_data.
       block_decode decompress crc32 block_data)))"

definition ss_block ::
  "'os object_store_ops \<Rightarrow> (bytes \<Rightarrow> bytes option) \<Rightarrow> (bytes \<Rightarrow> nat) \<Rightarrow> sstable \<Rightarrow> nat \<Rightarrow> cache_policy \<Rightarrow>
     'os sstable_store \<Rightarrow> (block \<times> 'os sstable_store) res" where
  "ss_block ops decompress crc32 sst block_index policy st =
     (let fill = fetch_block ops decompress crc32 st sst block_index in
      case policy of
        Fill \<Rightarrow> rbind (block_cache_get_or_insert_with (sst_id sst) block_index fill (ss_block_cache st))
          (\<lambda>(b, cache). Ok (b, st\<lparr>ss_block_cache := cache\<rparr>))
      | NotFill \<Rightarrow> (case block_cache_get (sst_id sst) block_index (ss_block_cache st) of
          Some b \<Rightarrow> Ok (b, st)
        | None \<Rightarrow> rbind fill (\<lambda>b. Ok (b, st)))
      | Disable \<Rightarrow> rbind fill (\<lambda>b. Ok (b, st)))"

definition ss_meta :: "'os object_store_ops \<Rightarrow> nat \<Rightarrow> 'os sstable_store \<Rightarrow> (sstable_meta \<times> 'os sstable_store) res" where
  "ss_meta ops i st =
     (case ss_meta_cache st i of
        Some m \<Rightarrow> Ok (m, st)
      | None \<Rightarrow>
          rbind (os_get ops (meta_path st i) (ss_object_store st)) (\<lambda>buf.
          rbind (ok_or (ObjectStoreError (ObjectNotFound (meta_path st i))) buf) (\<lambda>buf.
          rbind (sstable_meta_decode buf) (\<lambda>m.
            Ok (m, st\<lparr>ss_meta_cache := (ss_meta_cache st)(i \<mapsto> m)\<rparr>)))))"

definition ss_sstable :: "'os object_store_ops \<Rightarrow> nat \<Rightarrow> 'os sstable_store \<Rightarrow> (sstable \<times> 'os sstable_store) res" where
  "ss_sstable ops i st = rbind (ss_meta ops i st) (\<lambda>(m, st). Ok (\<lparr>sst_id = i, sst_meta = m\<rparr>, st))"

definition ss_evict :: "bytes set \<Rightarrow> nat set \<Rightarrow> 'os sstable_store \<Rightarrow> 'os sstable_store" where
  "ss_evict blocks metas st =
     st\<lparr>ss_block_cache := ss_block_cache st |` (- blocks), ss_meta_cache := ss_meta_cache st |` (- metas)\<rparr>"

section \<open>Histories of a table store\<close>

text \<open>A table in the store: its restart interval, its blocks and its metadata. \<open>ss_run\<close> relates the tables
  put so far to the state; blocks and metadata are read under any policy and evicted at any time.
  Identifiers are never reused.\<close>

type_synonym table = "nat \<times> kvs list \<times> sstable_meta"

inductive ss_run ::
  "'os object_store_ops \<Rightarrow> (bytes \<Rightarrow> bytes option) \<Rightarrow> (bytes \<Rightarrow> nat) \<Rightarrow> (nat \<rightharpoonup> table) \<Rightarrow> 'os sstable_store \<Rightarrow> bool"
  for ops :: "'os object_store_ops" and decompress crc32 where
  run_new: "ss_run ops decompress crc32 Map.empty (sstable_store_new path os Map.empty)"
| run_put: "ss_run ops decompress crc32 tabs st \<Longrightarrow> tabs i = None \<Longrightarrow> i < 2 ^ 64 \<Longrightarrow> meta_fits m \<Longrightarrow>
    table_holds decompress crc32 r bss m data \<Longrightarrow>
    ss_put ops decompress crc32 \<lparr>sst_id = i, sst_meta = m\<rparr> data policy st = (Ok (), st') \<Longrightarrow>
    ss_run ops decompress crc32 (tabs(i \<mapsto> (r, bss, m))) st'"
| run_put_fails: "ss_run ops decompress crc32 tabs st \<Longrightarrow> tabs i = None \<Longrightarrow> i < 2 ^ 64 \<Longrightarrow>
    table_holds decompress crc32 r bss m data \<Longrightarrow>
    ss_put ops decompress crc32 \<lparr>sst_id = i, sst_meta = m\<rparr> data Disable st = (res, st') \<Longrightarrow> res \<noteq> Ok () \<Longrightarrow>
    ss_run ops decompress crc32 tabs st'"
| run_block: "ss_run ops decompress crc32 tabs st \<Longrightarrow> tabs i = Some (r, bss, m) \<Longrightarrow> j < length bss \<Longrightarrow>
    ss_block ops decompress crc32 \<lparr>sst_id = i, sst_meta = m\<rparr> j policy st = Ok (b, st') \<Longrightarrow>
    ss_run ops decompress crc32 tabs st'"
| run_sstable: "ss_run ops decompress crc32 tabs st \<Longrightarrow> tabs i = Some (r, bss, m) \<Longrightarrow>
    ss_sstable ops i st = Ok (sst, st') \<Longrightarrow> ss_run ops decompress crc32 tabs st'"
| run_evict: "ss_run ops decompress crc32 tabs st \<Longrightarrow> ss_run ops decompress crc32 tabs (ss_evict blocks metas st)"

section \<open>The invariant of a table store\<close>

definition table_stored ::
  "(bytes \<Rightarrow> bytes option) \<Rightarrow> (bytes \<Rightarrow> nat) \<Rightarrow> (string \<rightharpoonup> bytes) \<Rightarrow> 'os sstable_store \<Rightarrow> nat \<Rightarrow> table \<Rightarrow> bool" where
  "table_stored decompress crc32 objs st i t \<longleftrightarrow>
     (case t of (r, bss, m) \<Rightarrow> i < 2 ^ 64 \<and> meta_fits m \<and>
        objs (meta_path st i) = Some (sstable_meta_encode crc32 m) \<and>
        (\<exists>data. objs (data_path st i) = Some data \<and> table_holds decompress crc32 r bss m data))"

definition caches_ok :: "(nat \<rightharpoonup> table) \<Rightarrow> 'os sstable_store \<Rightarrow> bool" where
  "caches_ok tabs st \<longleftrightarrow>
     (\<forall>i j b. i < 2 ^ 64 \<longrightarrow> j < 2 ^ 64 \<longrightarrow> ss_block_cache st (cache_key i j) = Some b \<longrightarrow>
        (\<exists>r bss m. tabs i = Some (r, bss, m) \<and> j < length bss \<and> b = block_image r (bss ! j))) \<and>
     (\<forall>i m. ss_meta_cache st i = Some m \<longrightarrow> (\<exists>r bss. tabs i = Some (r, bss, m)))"

definition ss_inv ::
  "('os \<Rightarrow> string \<rightharpoonup> bytes) \<Rightarrow> (bytes \<Rightarrow> bytes option) \<Rightarrow> (bytes \<Rightarrow> nat) \<Rightarrow> (nat \<rightharpoonup> table) \<Rightarrow> 'os sstable_store \<Rightarrow> bool" where
  "ss_inv objects decompress crc32 tabs st \<longleftrightarrow>
     (\<forall>i t. tabs i = Some t \<longrightarrow> table_stored decompress crc32 (objects (ss_object_store st)) st i t) \<and>
     caches_ok tabs st"

lemma cache_key_inject:
  assumes "i < 2 ^ 64" "j < 2 ^ 64" "i' < 2 ^ 64" "j' < 2 ^ 64"
  shows "cache_key i j = cache_key i' j' \<longleftrightarrow> i = i' \<and> j = j'"
proof -
  have "le_bytes 8 a = le_bytes 8 b \<longleftrightarrow> a = b" if "a < 2 ^ 64" "b < 2 ^ 64" for a b
  proof -
    have "le_value (le_bytes 8 a) = a" "le_value (le_bytes 8 b) = b" using that by (simp_all add: le_value_le_bytes)
    then show ?thesis by metis
  qed
  then show ?thesis using assms by (simp add: cache_key_def)
qed

lemma paths_inject [simp]:
  "data_path st i = data_path st j \<longleftrightarrow> i = j" "meta_path st i = meta_path st j \<longleftrightarrow> i = j"
  "data_path st i \<noteq> meta_path st j" "meta_path st i \<noteq> data_path st j"
proof -
  show "data_path st i = data_path st j \<longleftrightarrow> i = j" "meta_path st i = meta_path st j \<longleftrightarrow> i = j"
    by (simp_all add: data_path_def meta_path_def)
  have d: "rev (data_path st i) ! 3 = CHR ''d''" "rev (meta_path st j) ! 3 = CHR ''m''" for i j
    by (simp_all add: data_path_def meta_path_def)
  have ne: "data_path st i \<noteq> meta_path st j" for i j
  proof
    assume "data_path st i = meta_path st j"
    then have "rev (data_path st i) ! 3 = rev (meta_path st j) ! 3" by simp
    then show False by (simp add: d)
  qed
  show "data_path st i \<noteq> meta_path st j" "meta_path st i \<noteq> data_path st j" by (rule ne, rule ne[symmetric])
qed

lemma paths_update [simp]:
  "data_path (st\<lparr>ss_object_store := os\<rparr>) i = data_path st i" "meta_path (st\<lparr>ss_object_store := os\<rparr>) i = meta_path st i"
  "data_path (st\<lparr>ss_block_cache := c\<rparr>) i = data_path st i" "meta_path (st\<lparr>ss_block_cache := c\<rparr>) i = meta_path st i"
  "data_path (st\<lparr>ss_meta_cache := mc\<rparr>) i = data_path st i" "meta_path (st\<lparr>ss_meta_cache := mc\<rparr>) i = meta_path st i"
  by (simp_all add: data_path_def meta_path_def)

lemma fill_blocks_table:
  assumes "\<forall>k < length ms. \<exists>buf. slice (fst (data_range (ms ! k))) (snd (data_range (ms ! k))) data = Ok buf \<and>
      block_decode decompress crc32 buf = Ok (block_image r (bs ! k))" "length ms = length bs" "j0 + length bs < 2 ^ 64"
    and "i < 2 ^ 64"
  shows "\<exists>cache'. fill_blocks decompress crc32 i data j0 ms cache = (Ok (), cache') \<and>
    (\<forall>i' j'. i' < 2 ^ 64 \<longrightarrow> j' < 2 ^ 64 \<longrightarrow> cache' (cache_key i' j') =
      (if i' = i \<and> j0 \<le> j' \<and> j' < j0 + length bs then Some (block_image r (bs ! (j' - j0))) else cache (cache_key i' j')))"
  using assms(1-3)
proof (induction ms arbitrary: j0 bs cache)
  case Nil
  then show ?case by auto
next
  case (Cons m ms)
  obtain b bs' where bs: "bs = b # bs'" using Cons.prems(2) by (cases bs) auto
  obtain buf where buf: "slice (fst (data_range m)) (snd (data_range m)) data = Ok buf"
    "block_decode decompress crc32 buf = Ok (block_image r b)" using Cons.prems(1) bs by fastforce
  have rest: "\<forall>k < length ms. \<exists>buf. slice (fst (data_range (ms ! k))) (snd (data_range (ms ! k))) data = Ok buf \<and>
      block_decode decompress crc32 buf = Ok (block_image r (bs' ! k))" using Cons.prems(1) bs by fastforce
  obtain cache' where c: "fill_blocks decompress crc32 i data (Suc j0) ms
      (block_cache_insert i j0 (block_image r b) cache) = (Ok (), cache')"
    "\<And>i' j'. i' < 2 ^ 64 \<Longrightarrow> j' < 2 ^ 64 \<Longrightarrow> cache' (cache_key i' j') =
      (if i' = i \<and> Suc j0 \<le> j' \<and> j' < Suc j0 + length bs' then Some (block_image r (bs' ! (j' - Suc j0)))
       else block_cache_insert i j0 (block_image r b) cache (cache_key i' j'))"
    using Cons.IH[OF rest, of "Suc j0" "block_cache_insert i j0 (block_image r b) cache"] Cons.prems(2,3) bs by auto
  have "cache' (cache_key i' j') = (if i' = i \<and> j0 \<le> j' \<and> j' < j0 + length bs
      then Some (block_image r (bs ! (j' - j0))) else cache (cache_key i' j'))"
    if "i' < 2 ^ 64" "j' < 2 ^ 64" for i' j'
    using c(2)[OF that] cache_key_inject[OF that assms(4), of j0] Cons.prems(3) bs
    by (cases "j' = j0") (auto simp: block_cache_insert_def nth_Cons')
  then show ?case using buf c(1) by (auto simp: intro!: exI[of _ cache'])
qed

lemma table_stored_update:
  "table_stored decompress crc32 objs (st\<lparr>ss_object_store := os\<rparr>) i t = table_stored decompress crc32 objs st i t"
  "table_stored decompress crc32 objs (st\<lparr>ss_block_cache := c\<rparr>) i t = table_stored decompress crc32 objs st i t"
  "table_stored decompress crc32 objs (st\<lparr>ss_meta_cache := mc\<rparr>) i t = table_stored decompress crc32 objs st i t"
  by (simp_all add: table_stored_def)

lemma table_stored_other:
  "j \<noteq> i \<Longrightarrow> table_stored decompress crc32 (objs(data_path st i := x)) st j t = table_stored decompress crc32 objs st j t"
  "j \<noteq> i \<Longrightarrow> table_stored decompress crc32 (objs(meta_path st i := y)) st j t = table_stored decompress crc32 objs st j t"
  by (simp_all add: table_stored_def)

context object_store
begin

lemma put_failed_inv:
  assumes inv: "ss_inv objects decompress crc32 tabs st" and new: "tabs i = None"
    and put: "ss_put ops decompress crc32 \<lparr>sst_id = i, sst_meta = m\<rparr> data Disable st = (res, st')" "res \<noteq> Ok ()"
  shows "ss_inv objects decompress crc32 tabs st'"
proof -
  obtain r1 os1 where p1: "os_put ops (data_path st i) data (ss_object_store st) = (r1, os1)" by fastforce
  obtain r2 os2 where p2: "os_put ops (meta_path st i) (sstable_meta_encode crc32 m) os1 = (r2, os2)" by fastforce
  obtain r3 os3 where p3: "os_remove ops (data_path st i) os2 = (r3, os3)" by fastforce
  note stored = inv[unfolded ss_inv_def]
  show ?thesis
  proof (cases "r1 = Ok ()")
    case False
    then have "st' = st\<lparr>ss_object_store := os1\<rparr>" "objects os1 = objects (ss_object_store st)"
      using put p1 put_fails[OF p1] by (auto simp: ss_put_def)
    then show ?thesis using stored by (simp add: ss_inv_def table_stored_update caches_ok_def)
  next
    case True
    have o1: "objects os1 = (objects (ss_object_store st))(data_path st i \<mapsto> data)"
      using put_Ok p1 True by blast
    have r2: "r2 \<noteq> Ok ()" using put p1 p2 True by (auto simp: ss_put_def sst_encode_meta_def)
    then have o2: "objects os2 = objects os1" using put_fails[OF p2] by blast
    have st': "st' = st\<lparr>ss_object_store := os3\<rparr>"
      using put p1 p2 p3 True r2 by (auto simp: ss_put_def sst_encode_meta_def)
    have "\<exists>x. objects os3 = (objects (ss_object_store st))(data_path st i := x)"
      using remove_Ok[of "data_path st i" os2 os3] remove_fails[OF p3] p3 o1 o2 by (cases "r3 = Ok ()") auto
    then obtain x where o3: "objects os3 = (objects (ss_object_store st))(data_path st i := x)" ..
    have "table_stored decompress crc32 (objects os3) st j t" if "tabs j = Some t" for j t
      using stored that new by (cases "j = i") (auto simp: o3 table_stored_other simp del: split_paired_All)
    then show ?thesis using stored by (simp add: ss_inv_def st' table_stored_update caches_ok_def)
  qed
qed

lemma put_inv:
  assumes inv: "ss_inv objects decompress crc32 tabs st" and new: "tabs i = None" "i < 2 ^ 64"
    and fits: "meta_fits m" and holds: "table_holds decompress crc32 r bss m data"
    and put: "ss_put ops decompress crc32 \<lparr>sst_id = i, sst_meta = m\<rparr> data policy st = (Ok (), st')"
  shows "ss_inv objects decompress crc32 (tabs(i \<mapsto> (r, bss, m))) st'"
proof -
  note stored = inv[unfolded ss_inv_def]
  obtain r1 os1 where p1: "os_put ops (data_path st i) data (ss_object_store st) = (r1, os1)" by fastforce
  obtain r2 os2 where p2: "os_put ops (meta_path st i) (sstable_meta_encode crc32 m) os1 = (r2, os2)" by fastforce
  obtain r3 os3 where p3: "os_remove ops (data_path st i) os2 = (r3, os3)" by fastforce
  obtain r4 cache where p4: "fill_blocks decompress crc32 i data 0 (sm_block_metas m) (ss_block_cache st) = (r4, cache)"
    by fastforce
  have r1: "r1 = Ok ()" using put p1 by (cases "r1 = Ok ()") (auto simp: ss_put_def)
  have r2: "r2 = Ok ()"
    using put p1 p2 p3 r1 by (cases "r2 = Ok ()") (auto simp: ss_put_def sst_encode_meta_def split: if_splits)
  have st': "st' = (if policy = Fill then st\<lparr>ss_object_store := os2, ss_block_cache := cache\<rparr>
      else st\<lparr>ss_object_store := os2\<rparr>)"
    using put p1 p2 p4 r1 r2 by (cases "policy = Fill") (auto simp: ss_put_def sst_encode_meta_def)
  have upd: "table_stored decompress crc32 (objects os2) st' j t = table_stored decompress crc32 (objects os2) st j t"
    "ss_object_store st' = os2" for j t by (auto simp: st' table_stored_update)
  have objs: "objects os2 = (objects (ss_object_store st))(data_path st i \<mapsto> data,
      meta_path st i \<mapsto> sstable_meta_encode crc32 m)" using put_Ok p1 p2 r1 r2 by metis
  have len: "length (sm_block_metas m) = length bss" "length bss < 2 ^ 64"
    using holds fits by (auto simp: table_holds_def meta_fits_def)
  have cache: "cache (cache_key i' j') = (if i' = i \<and> j' < length bss then Some (block_image r (bss ! j'))
      else ss_block_cache st (cache_key i' j'))" if "i' < 2 ^ 64" "j' < 2 ^ 64" for i' j'
    using fill_blocks_table[of "sm_block_metas m" data decompress crc32 r bss 0 i "ss_block_cache st"]
      holds len new(2) p4 that by (auto simp: table_holds_def)
  have "table_stored decompress crc32 (objects os2) st j t" if "(tabs(i \<mapsto> (r, bss, m))) j = Some t" for j t
  proof (cases "j = i")
    case True
    then show ?thesis using that objs holds fits new(2) by (auto simp: table_stored_def)
  next
    case False
    then show ?thesis using that stored by (auto simp: objs table_stored_other simp del: split_paired_All)
  qed
  moreover have "caches_ok (tabs(i \<mapsto> (r, bss, m))) st'"
    using stored new(1) cache unfolding caches_ok_def st' by (auto split: if_splits) (metis option.distinct(1))+
  ultimately show ?thesis unfolding ss_inv_def upd by simp
qed

lemma fetch_block_inv:
  assumes "ss_inv objects decompress crc32 tabs st" "tabs i = Some (r, bss, m)" "j < length bss"
  shows "fetch_block ops decompress crc32 st \<lparr>sst_id = i, sst_meta = m\<rparr> j = Ok (block_image r (bss ! j))"
proof -
  obtain data where data: "objects (ss_object_store st) (data_path st i) = Some data"
    "table_holds decompress crc32 r bss m data"
    using assms(1,2) by (fastforce simp: ss_inv_def table_stored_def)
  obtain buf where buf: "slice (fst (data_range (sm_block_metas m ! j))) (snd (data_range (sm_block_metas m ! j))) data = Ok buf"
    "block_decode decompress crc32 buf = Ok (block_image r (bss ! j))" "length (sm_block_metas m) = length bss"
    using data(2) assms(3) unfolding table_holds_def by blast
  have "os_get_range ops (data_path st i) (data_range (sm_block_metas m ! j)) (ss_object_store st) = Ok (Some buf)"
    using get_range[OF data(1) buf(1)] by simp
  then show ?thesis using buf(2,3) assms(3) by (simp add: fetch_block_def sst_block_meta_def blocks_len_def)
qed

lemma block_inv:
  assumes inv: "ss_inv objects decompress crc32 tabs st" and tab: "tabs i = Some (r, bss, m)" "j < length bss"
  shows "\<exists>st'. ss_block ops decompress crc32 \<lparr>sst_id = i, sst_meta = m\<rparr> j policy st = Ok (block_image r (bss ! j), st') \<and>
    ss_inv objects decompress crc32 tabs st' \<and> ss_path st' = ss_path st"
proof -
  have i: "i < 2 ^ 64" and j: "j < 2 ^ 64"
    using inv tab by (fastforce simp: ss_inv_def table_stored_def meta_fits_def table_holds_def)+
  have cached: "b = block_image r (bss ! j)" if "ss_block_cache st (cache_key i j) = Some b" for b
    using inv tab i j that by (auto simp: ss_inv_def caches_ok_def)
  define st' where "st' = st\<lparr>ss_block_cache := (ss_block_cache st)(cache_key i j \<mapsto> block_image r (bss ! j))\<rparr>"
  have "caches_ok tabs st'"
    using inv tab i j cache_key_inject[OF _ _ i j] by (auto simp: ss_inv_def caches_ok_def st'_def)
  then have st': "ss_inv objects decompress crc32 tabs st'" using inv by (simp add: ss_inv_def st'_def table_stored_update)
  have same: "st\<lparr>ss_block_cache := ss_block_cache st\<rparr> = st" by simp
  show ?thesis
    using fetch_block_inv[OF inv tab] cached inv st' same
    by (cases policy; cases "ss_block_cache st (cache_key i j)")
      (auto simp: ss_block_def block_cache_get_def block_cache_get_or_insert_with_def st'_def Let_def)
qed

lemma sstable_inv:
  assumes inv: "ss_inv objects decompress crc32 tabs st" and tab: "tabs i = Some (r, bss, m)"
  shows "\<exists>st'. ss_sstable ops i st = Ok (\<lparr>sst_id = i, sst_meta = m\<rparr>, st') \<and> ss_inv objects decompress crc32 tabs st'"
proof (cases "ss_meta_cache st i")
  case (Some m')
  then have "m' = m" using inv tab unfolding ss_inv_def caches_ok_def by fastforce
  with Some inv show ?thesis by (simp add: ss_sstable_def ss_meta_def)
next
  case None
  have "objects (ss_object_store st) (meta_path st i) = Some (sstable_meta_encode crc32 m)" "meta_fits m"
    using inv tab by (fastforce simp: ss_inv_def table_stored_def)+
  then have "ss_sstable ops i st = Ok (\<lparr>sst_id = i, sst_meta = m\<rparr>, st\<lparr>ss_meta_cache := (ss_meta_cache st)(i \<mapsto> m)\<rparr>)"
    using None get sstable_meta_decode_encode by (simp add: ss_sstable_def ss_meta_def)
  moreover have "ss_inv objects decompress crc32 tabs (st\<lparr>ss_meta_cache := (ss_meta_cache st)(i \<mapsto> m)\<rparr>)"
    using inv tab by (auto simp: ss_inv_def caches_ok_def table_stored_update simp del: split_paired_All)
  ultimately show ?thesis by blast
qed

lemma evict_inv: "ss_inv objects decompress crc32 tabs st \<Longrightarrow> ss_inv objects decompress crc32 tabs (ss_evict bs ms st)"
  by (auto simp: ss_inv_def ss_evict_def caches_ok_def table_stored_def data_path_def meta_path_def restrict_map_def
      split: if_splits)

lemma run_inv: "ss_run ops decompress crc32 tabs st \<Longrightarrow> ss_inv objects decompress crc32 tabs st"
proof (induction rule: ss_run.induct)
  case (run_new path os)
  then show ?case by (simp add: ss_inv_def caches_ok_def sstable_store_new_def)
next
  case (run_block tabs st i r bss m j policy b st')
  then show ?case using block_inv[OF run_block.IH, of i r bss m j policy] by auto
next
  case (run_sstable tabs st i r bss m sst st')
  then show ?case using sstable_inv[OF run_sstable.IH, of i r bss m] by auto
next
  case (run_put tabs st i m r bss data policy st')
  show ?case by (rule put_inv[OF run_put.IH run_put.hyps(2-6)])
next
  case (run_put_fails tabs st i r bss m data res st')
  show ?case by (rule put_failed_inv[OF run_put_fails.IH run_put_fails.hyps(2,5,6)])
next
  case (run_evict tabs st bs ms)
  show ?case by (rule evict_inv[OF run_evict.IH])
qed

end

section \<open>Properties\<close>

lemma mem_put_Ok:
  "\<exists>st'. ss_put mem_object_store_ops decompress crc32 sst data Disable st = (Ok (), st')"
  by (simp add: ss_put_def mem_object_store_ops_def mem_os_put_def)

lemma single_block_table:
  assumes "es \<noteq> []" "key_sorted es" "(\<Sum>e \<leftarrow> es. 15 + length (fst e) + length (snd e)) < 2 ^ 20"
  shows "\<exists>m data. table_holds stored_decompress (\<lambda>_. 7) 2 [es] m data \<and> meta_fits m"
proof -
  let ?o = "\<lparr>kbo_capacity = 64, kbo_compression_algorithm = NoCompression, kbo_restart_interval = 2\<rparr>"
  have lay: "length (layout 2 es) < 2 ^ 20" using layout_le[of 2 es] assms(3) by linarith
  have fit: "length (fst e) < 2 ^ 20 \<and> length (snd e) < 2 ^ 20" if "e \<in> set es" for e
    using that assms(3) member_le_sum_list[of "15 + length (fst e) + length (snd e)"
        "map (\<lambda>e. 15 + length (fst e) + length (snd e)) es"] by force
  have len: "length (restart_offsets 2 es) < 2 ^ 20"
    using lay restarts_le[of 2 "length es"] offset_of_ge[of "length es" 2 es]
    by (simp add: restart_offsets_def offset_of_length)
  obtain kb0 where "built_block 2 NoCompression [] kb0" using built_block_new[of ?o] by auto
  from block_add_all[OF _ _ this, of es] obtain kb where kb: "built_block 2 NoCompression es kb" using assms(2) by auto
  obtain buf where buf: "block_build stored_compress (\<lambda>_. 7) kb = Ok buf"
    "block_decode stored_decompress (\<lambda>_. 7) buf = Ok (block_image 2 es)"
    using block_decode_build[OF kb assms(1) _ _ lz4_frames_stored, of "\<lambda>_. 7"] lay by auto
  have blen: "length buf < 2 ^ 32" using block_build_length[OF kb buf(1)] lay len by simp
  have "block_ok 2 es" using assms(1,2) fit lay by (force simp: block_ok_def)
  then have st: "list_all2 (block_stored stored_decompress (\<lambda>_. 7) 2) [es] [buf]"
    using buf(2) by (simp add: block_stored_def)
  let ?m = "\<lparr>sm_block_metas = metas_of 0 [es] [buf], sm_bloom_filter_bytes = [], sm_data_size = 0\<rparr>"
  have "table_holds stored_decompress (\<lambda>_. 7) 2 [es] ?m buf" using table_holds_metas[OF st, of ?m "[]"] by simp
  moreover have "meta_fits ?m"
    using blen fit[of "hd es"] fit[of "last es"] assms(1) by (simp add: meta_fits_def block_meta_fits_def meta_of_def)
  ultimately show ?thesis by blast
qed

text \<open>C27. The table store returns what was put: in every history of puts, reads under any cache policy
  and evictions, a table that was put is found under its identifier with its metadata, and each of
  its blocks reads as the block that was written.\<close>

theorem table_store_reads_what_was_put:
  assumes "ss_run mem_object_store_ops decompress crc32 tabs st" "tabs i = Some (r, bss, m)" "j < length bss"
  shows "\<exists>st1 st2. ss_sstable mem_object_store_ops i st = Ok (\<lparr>sst_id = i, sst_meta = m\<rparr>, st1) \<and>
    ss_block mem_object_store_ops decompress crc32 \<lparr>sst_id = i, sst_meta = m\<rparr> j policy st1 =
      Ok (block_image r (bss ! j), st2)"
proof -
  obtain st1 where "ss_sstable mem_object_store_ops i st = Ok (\<lparr>sst_id = i, sst_meta = m\<rparr>, st1)"
    "ss_inv mo_objects decompress crc32 tabs st1"
    using mem_os.sstable_inv[OF mem_os.run_inv[OF assms(1)] assms(2)] by blast
  with mem_os.block_inv[OF this(2), of i r bss m j policy] assms(2,3) show ?thesis by blast
qed

theorem table_store_reads_what_was_put_witness:
  "\<exists>m st st1 st2. ss_run mem_object_store_ops stored_decompress (\<lambda>_. 7) [5 \<mapsto> (2, [example_entries], m)] st \<and>
    ss_sstable mem_object_store_ops 5 st = Ok (\<lparr>sst_id = 5, sst_meta = m\<rparr>, st1) \<and>
    ss_block mem_object_store_ops stored_decompress (\<lambda>_. 7) \<lparr>sst_id = 5, sst_meta = m\<rparr> 0 Fill st1 =
      Ok (block_image 2 example_entries, st2)"
proof -
  obtain m data where t: "table_holds stored_decompress (\<lambda>_. 7) 2 [example_entries] m data" "meta_fits m"
    using single_block_table[of example_entries] example_entries_sorted by (auto simp: example_entries_def)
  let ?st0 = "sstable_store_new ''t'' \<lparr>mo_objects = Map.empty\<rparr> Map.empty"
  obtain st where put: "ss_put mem_object_store_ops stored_decompress (\<lambda>_. 7) \<lparr>sst_id = 5, sst_meta = m\<rparr> data Disable ?st0 =
      (Ok (), st)" using mem_put_Ok by blast
  have "ss_run mem_object_store_ops stored_decompress (\<lambda>_. 7) [5 \<mapsto> (2, [example_entries], m)] st"
    by (rule run_put[OF run_new _ _ t(2,1) put]) simp_all
  with table_store_reads_what_was_put[OF this, of 5 2 "[example_entries]" m 0 Fill] show ?thesis by auto
qed

end
