(* ===== verification/Segments.thy ===== *)
theory Segments
  imports Iter Search
begin

text \<open>
  Sorted entries cut into consecutive non-empty segments: the blocks of a table, or the tables of a
  level. The theory relates positions in a segment to positions in the whole, and a search among the
  segments to a search in the whole.
\<close>

definition base :: "kvs list \<Rightarrow> nat \<Rightarrow> nat" where
  "base bss b = length (concat (take b bss))"

definition segments :: "kvs list \<Rightarrow> bool" where
  "segments bss \<longleftrightarrow> bss \<noteq> [] \<and> (\<forall>bs \<in> set bss. bs \<noteq> []) \<and> key_sorted (concat bss)"

lemma base_0 [simp]: "base bss 0 = 0"
  by (simp add: base_def)

lemma base_Suc: "b < length bss \<Longrightarrow> base bss (Suc b) = base bss b + length (bss ! b)"
  by (simp add: base_def take_Suc_conv_app_nth)

lemma base_length [simp]: "base bss (length bss) = length (concat bss)"
  by (simp add: base_def)

lemma concat_split: "b < length bss \<Longrightarrow> concat bss = concat (take b bss) @ bss ! b @ concat (drop (Suc b) bss)"
  by (metis append_take_drop_id concat.simps(2) concat_append Cons_nth_drop_Suc)

lemma concat_nth_base:
  "b < length bss \<Longrightarrow> k < length (bss ! b) \<Longrightarrow> concat bss ! (base bss b + k) = bss ! b ! k"
  by (simp add: concat_split[of b bss] base_def nth_append)

lemma base_bound: "b < length bss \<Longrightarrow> k < length (bss ! b) \<Longrightarrow> base bss b + k < length (concat bss)"
  by (simp add: concat_split[of b bss] base_def)

lemma segmentsD:
  assumes "segments bss"
  shows "key_sorted (concat bss)" "bss \<noteq> []" "b < length bss \<Longrightarrow> bss ! b \<noteq> []" "concat bss \<noteq> []"
    "b < length bss \<Longrightarrow> key_sorted (bss ! b)"
proof -
  show "key_sorted (concat bss)" "bss \<noteq> []" "b < length bss \<Longrightarrow> bss ! b \<noteq> []"
    using assms by (auto simp: segments_def)
  then show "concat bss \<noteq> []" using assms by (cases bss) (auto simp: segments_def)
  assume "b < length bss"
  then have "concat bss = concat (take b bss) @ bss ! b @ concat (drop (Suc b) bss)" by (rule concat_split)
  then show "key_sorted (bss ! b)" using \<open>key_sorted (concat bss)\<close> by (metis key_sorted_append)
qed

lemma segments_next:
  assumes "segments bss" "b < length bss" "k < length (bss ! b)"
  shows "Suc (base bss b + k) < length (concat bss) \<longleftrightarrow> Suc k < length (bss ! b) \<or> Suc b < length bss"
proof (cases "Suc k < length (bss ! b)")
  case True
  then show ?thesis using base_bound[OF assms(2) True] by simp
next
  case False
  then have k: "Suc k = length (bss ! b)" using assms(3) by simp
  then have "Suc (base bss b + k) = base bss (Suc b)" using base_Suc[OF assms(2)] by simp
  moreover have "base bss (Suc b) < length (concat bss)" if "Suc b < length bss"
    using base_bound[OF that, of 0] segmentsD(3)[OF assms(1) that] by simp
  moreover have "base bss (Suc b) = length (concat bss)" if "\<not> Suc b < length bss"
    using that assms(2) by (simp add: base_def)
  ultimately show ?thesis using False by (metis less_irrefl)
qed

lemma base_pos: "segments bss \<Longrightarrow> 0 < b \<Longrightarrow> b \<le> length bss \<Longrightarrow> 0 < base bss b"
proof -
  assume a: "segments bss" "0 < b" "b \<le> length bss"
  then obtain c where c: "b = Suc c" by (cases b) auto
  then show ?thesis using base_Suc[of c bss] segmentsD(3)[OF a(1), of c] a by simp
qed

lemma base_last: "segments bss \<Longrightarrow> base bss (length bss - 1) + (length (last bss) - 1) = length (concat bss) - 1"
proof -
  assume s: "segments bss"
  then have b: "length bss - 1 < length bss" "last bss = bss ! (length bss - 1)" "last bss \<noteq> []"
    using segmentsD(2)[OF s] segmentsD(3)[OF s, of "length bss - 1"] by (auto simp: last_conv_nth)
  have "length (concat bss) = base bss (length bss - 1) + length (last bss)"
    using base_Suc[OF b(1)] base_length[of bss] b segmentsD(2)[OF s] by (metis Suc_pred' length_greater_0_conv)
  then show ?thesis using b(3) by (cases "last bss") auto
qed

section \<open>Searching\<close>

text \<open>Segment \<open>b\<close> is the first that is not entirely below the key.\<close>

definition below :: "kvs list \<Rightarrow> bytes \<Rightarrow> nat \<Rightarrow> bool" where
  "below bss k b \<longleftrightarrow> lower (bss ! b) k = length (bss ! b)"

lemma lower_le: "lower es k \<le> length es"
  by (rule lower_bound)

lemma lower_unique:
  assumes "key_sorted es" "n \<le> length es" "\<forall>i < n. key_ord (key_at es i) < key_ord k"
    "n < length es \<Longrightarrow> \<not> key_ord (key_at es n) < key_ord k"
  shows "lower es k = n"
proof (rule antisym)
  show "n \<le> lower es k"
  proof (cases n)
    case (Suc m)
    then show ?thesis using lower_iff[OF assms(1), of m k] assms(2,3) by simp
  qed simp
  show "lower es k \<le> n"
  proof (rule ccontr)
    assume "\<not> lower es k \<le> n"
    then have "n < lower es k" "n < length es" using lower_le[of es k] by auto
    then show False using lower_iff[OF assms(1), of n k] assms(4) by simp
  qed
qed

lemma segment_order:
  assumes s: "segments bss" and "b < c" "c < length bss" "i < length (bss ! b)" "j < length (bss ! c)"
  shows "key_ord (key_at (bss ! b) i) < key_ord (key_at (bss ! c) j)"
proof -
  have b: "b < length bss" using assms by simp
  have "base bss (Suc b) \<le> base bss c" using assms(2) unfolding base_def
    by (metis Suc_leI concat_append le_add1 length_append take_add ordered_cancel_comm_monoid_diff_class.add_diff_inverse)
  then have "base bss b + i < base bss c + j" using base_Suc[OF b] assms(4) by simp
  then show ?thesis
    using key_sorted_less_iff[OF segmentsD(1)[OF s] base_bound[OF b assms(4)] base_bound[OF assms(3,5)]]
      concat_nth_base[OF b assms(4)] concat_nth_base[OF assms(3,5)] by simp
qed

lemma below_before:
  assumes s: "segments bss" and "b < c" "c < length bss" "j < length (bss ! c)"
    "key_ord (key_at (bss ! c) j) \<le> key_ord k"
  shows "below bss k b"
proof -
  have b: "b < length bss" using assms by simp
  have "\<forall>i < length (bss ! b). key_ord (key_at (bss ! b) i) < key_ord k"
    using segment_order[OF s assms(2,3) _ assms(4)] assms(5) by fastforce
  then show ?thesis unfolding below_def by (intro lower_unique segmentsD(5)[OF s b]) auto
qed

lemma lower_concat:
  assumes s: "segments bss" and "b \<le> length bss" "\<forall>c < b. below bss k c" "b < length bss \<Longrightarrow> \<not> below bss k b"
  shows "lower (concat bss) k = base bss b + (if b < length bss then lower (bss ! b) k else 0)"
proof (cases "b < length bss")
  case True
  let ?n = "lower (bss ! b) k"
  have n: "?n < length (bss ! b)" using assms(4)[OF True] lower_le[of "bss ! b" k] by (simp add: below_def)
  have "\<not> key_ord (key_at (bss ! b) ?n) < key_ord k" using lower_iff[OF segmentsD(5)[OF s True] n, of k] by simp
  then have ge: "\<not> key_ord (key_at (concat bss) (base bss b + ?n)) < key_ord k"
    using concat_nth_base[OF True n] by simp
  have lt: "key_ord (key_at (concat bss) i) < key_ord k" if "i < base bss b + ?n" for i
  proof (cases "?n")
    case 0
    then have b0: "0 < b" using that by (cases b) auto
    then obtain c where c: "b = Suc c" "c < length bss" "below bss k c" using assms(2,3) by (cases b) auto
    have l: "length (bss ! c) - 1 < length (bss ! c)" using segmentsD(3)[OF s c(2)] by simp
    have "key_ord (key_at (bss ! c) (length (bss ! c) - 1)) < key_ord k"
      using lower_iff[OF segmentsD(5)[OF s c(2)] l, of k] c(3) l by (simp add: below_def)
    then have "key_ord (key_at (concat bss) (base bss c + (length (bss ! c) - 1))) < key_ord k"
      using concat_nth_base[OF c(2) l] by simp
    moreover have "i \<le> base bss c + (length (bss ! c) - 1)" using that 0 base_Suc[OF c(2)] c(1) l by simp
    then have "key_ord (key_at (concat bss) i) \<le> key_ord (key_at (concat bss) (base bss c + (length (bss ! c) - 1)))"
      using key_sorted_less_iff[OF segmentsD(1)[OF s] base_bound[OF c(2) l], of i] base_bound[OF c(2) l]
      by (force simp: not_less)
    ultimately show ?thesis by force
  next
    case (Suc m)
    then have m: "m < length (bss ! b)" "m < ?n" using n by auto
    then have "key_ord (key_at (concat bss) (base bss b + m)) < key_ord k"
      using lower_iff[OF segmentsD(5)[OF s True] m(1), of k] concat_nth_base[OF True m(1)] by simp
    moreover have "i \<le> base bss b + m" using that Suc by simp
    then have "key_ord (key_at (concat bss) i) \<le> key_ord (key_at (concat bss) (base bss b + m))"
      using key_sorted_less_iff[OF segmentsD(1)[OF s] base_bound[OF True m(1)], of i] base_bound[OF True m(1)]
      by (force simp: not_less)
    ultimately show ?thesis by force
  qed
  have "lower (concat bss) k = base bss b + ?n"
    by (rule lower_unique[OF segmentsD(1)[OF s]]) (use base_bound[OF True n] lt ge in auto)
  then show ?thesis using True by simp
next
  case False
  then have b: "b = length bss" using assms(2) by simp
  define c where "c = length bss - 1"
  have c: "c < length bss" "Suc c = length bss" "below bss k c" using segmentsD(2)[OF s] assms(3) b by (auto simp: c_def)
  have l: "length (bss ! c) - 1 < length (bss ! c)" using segmentsD(3)[OF s c(1)] by simp
  have last: "key_ord (key_at (concat bss) (base bss c + (length (bss ! c) - 1))) < key_ord k"
    using lower_iff[OF segmentsD(5)[OF s c(1)] l, of k] c(3) l concat_nth_base[OF c(1) l] by (simp add: below_def)
  have end1: "Suc (base bss c + (length (bss ! c) - 1)) = length (concat bss)"
    using base_Suc[OF c(1)] c(2) l base_length[of bss] by simp
  have "lower (concat bss) k = length (concat bss)"
  proof (rule lower_unique[OF segmentsD(1)[OF s]])
    show "\<forall>i < length (concat bss). key_ord (key_at (concat bss) i) < key_ord k"
    proof (intro allI impI)
      fix i assume i: "i < length (concat bss)"
      then have "key_ord (key_at (concat bss) i) \<le> key_ord (key_at (concat bss) (base bss c + (length (bss ! c) - 1)))"
        using key_sorted_less_iff[OF segmentsD(1)[OF s] base_bound[OF c(1) l] i] end1 by (force simp: not_less)
      then show "key_ord (key_at (concat bss) i) < key_ord k" using last by force
    qed
  qed auto
  then show ?thesis using b by simp
qed

text \<open>What a probe of a segment answers, and that binary search over the probes finds the segment.\<close>

definition probe_of :: "kvs list \<Rightarrow> bytes \<Rightarrow> nat \<Rightarrow> ordering" where
  "probe_of bss k b = (if below bss k b then Less else cmp (key_ord (key_at (bss ! b) (lower (bss ! b) k))) (key_ord k))"

lemma probe_of_not_Less:
  assumes "segments bss" "b < length bss"
  shows "probe_of bss k b = Less \<longleftrightarrow> below bss k b"
proof (cases "below bss k b")
  case False
  then have "lower (bss ! b) k < length (bss ! b)" using lower_le[of "bss ! b" k] by (simp add: below_def)
  then show ?thesis using lower_iff[OF segmentsD(5)[OF assms(1,2)], of "lower (bss ! b) k" k] False
    by (simp add: probe_of_def)
qed (simp add: probe_of_def)

lemma probe_order_segments:
  assumes s: "segments bss"
  shows "probe_order (probe_of bss k) (length bss)"
proof -
  have below: "below bss k b" if bc: "b < c" "c < length bss" and c: "probe_of bss k c \<noteq> Greater" for b c
  proof (cases "below bss k c")
    case True
    have "0 < length (bss ! c)" using segmentsD(3)[OF s bc(2)] by simp
    then show ?thesis
      using below_before[OF s bc, of 0 k] lower_iff[OF segmentsD(5)[OF s bc(2)], of 0 k] True by (simp add: below_def)
  next
    case False
    then have "lower (bss ! c) k < length (bss ! c)" using lower_le[of "bss ! c" k] by (simp add: below_def)
    then show ?thesis using below_before[OF s bc, of "lower (bss ! c) k" k] c False by (simp add: probe_of_def not_less)
  qed
  then show ?thesis
    unfolding probe_order_def using probe_of_not_Less[OF s] by (meson order_less_trans)
qed

lemma segment_found:
  assumes s: "segments bss" and "b < length bss" "probe_of bss k b = Equal"
  shows "\<forall>c < b. below bss k c" "\<not> below bss k b"
proof -
  show "\<not> below bss k b" using probe_of_not_Less[OF assms(1,2), of k] assms(3) by auto
  show "\<forall>c < b. below bss k c"
    using probe_order_segments[OF s, of k] probe_of_not_Less[OF s, of _ k] assms(2,3)
    unfolding probe_order_def by (metis order_less_trans ordering.distinct(5))
qed

end
