(* ===== verification/SstableIterator.thy ===== *)
theory SstableIterator
  imports SstableStore Segments
begin

text \<open>
  \<open>storage/src/lsm_tree/iterator/sstable_iterator.rs\<close>: the cursor over a table. It keeps the index of its
  block and a block iterator, and fetches the next or previous block from the table store when it
  leaves one. The iterator carries the store it fetches from, whose caches change with every fetch.
\<close>

record 'os sstable_iterator =
  si_store :: "'os sstable_store"
  si_sstable :: sstable
  si_offset :: nat
  si_iter :: "block_iterator option"
  si_cache_policy :: cache_policy

definition si_new :: "'os sstable_store \<Rightarrow> sstable \<Rightarrow> cache_policy \<Rightarrow> 'os sstable_iterator" where
  "si_new st sst policy =
     \<lparr>si_store = st, si_sstable = sst, si_offset = u64_max, si_iter = None, si_cache_policy = policy\<rparr>"

definition si_invalid :: "'os sstable_iterator \<Rightarrow> 'os sstable_iterator" where
  "si_invalid it = it\<lparr>si_offset := blocks_len (si_sstable it), si_iter := None\<rparr>"

definition si_is_valid :: "'os sstable_iterator \<Rightarrow> bool" where
  "si_is_valid it \<longleftrightarrow> si_offset it < blocks_len (si_sstable it)"

text \<open>Fetching a block and seeking in a fresh iterator over it.\<close>

definition si_open ::
  "'os object_store_ops \<Rightarrow> (bytes \<Rightarrow> bytes option) \<Rightarrow> (bytes \<Rightarrow> nat) \<Rightarrow> nat \<Rightarrow> seek \<Rightarrow> 'os sstable_iterator \<Rightarrow>
     (block_iterator \<times> 'os sstable_iterator) res" where
  "si_open ops decompress crc32 block_index sk it =
     rbind (ss_block ops decompress crc32 (si_sstable it) block_index (si_cache_policy it) (si_store it)) (\<lambda>(b, st).
     rbind (bi_seek sk (bi_new b)) (\<lambda>(_, bi). Ok (bi, it\<lparr>si_store := st\<rparr>)))"

definition si_next_inner ::
  "'os object_store_ops \<Rightarrow> (bytes \<Rightarrow> bytes option) \<Rightarrow> (bytes \<Rightarrow> nat) \<Rightarrow> 'os sstable_iterator \<Rightarrow>
     'os sstable_iterator res" where
  "si_next_inner ops decompress crc32 it =
     rbind (unwrap (si_iter it)) (\<lambda>bi.
     rbind (bi_next bi) (\<lambda>bi.
     rbind (bi_is_valid bi) (\<lambda>valid.
     let it = it\<lparr>si_iter := Some bi\<rparr> in
     if valid then Ok it
     else if si_offset it + 1 < blocks_len (si_sstable it) then
       let it = it\<lparr>si_offset := si_offset it + 1\<rparr> in
       rbind (si_open ops decompress crc32 (si_offset it) First it) (\<lambda>(bi, it). Ok (it\<lparr>si_iter := Some bi\<rparr>))
     else Ok (si_invalid it))))"

definition si_prev_inner ::
  "'os object_store_ops \<Rightarrow> (bytes \<Rightarrow> bytes option) \<Rightarrow> (bytes \<Rightarrow> nat) \<Rightarrow> 'os sstable_iterator \<Rightarrow>
     'os sstable_iterator res" where
  "si_prev_inner ops decompress crc32 it =
     rbind (unwrap (si_iter it)) (\<lambda>bi.
     rbind (bi_prev bi) (\<lambda>bi.
     rbind (bi_is_valid bi) (\<lambda>valid.
     let it = it\<lparr>si_iter := Some bi\<rparr> in
     if valid then Ok it
     else if si_offset it > 0 then
       let it = it\<lparr>si_offset := si_offset it - 1\<rparr> in
       rbind (si_open ops decompress crc32 (si_offset it) Last it) (\<lambda>(bi, it). Ok (it\<lparr>si_iter := Some bi\<rparr>))
     else Ok (si_invalid it))))"

definition si_key :: "'os sstable_iterator \<Rightarrow> bytes res" where
  "si_key it = rbind (rassert (si_is_valid it)) (\<lambda>_. rbind (unwrap (si_iter it)) bi_key_of)"

definition si_value :: "'os sstable_iterator \<Rightarrow> bytes res" where
  "si_value it = rbind (rassert (si_is_valid it)) (\<lambda>_. rbind (unwrap (si_iter it)) bi_value_of)"

definition si_next ::
  "'os object_store_ops \<Rightarrow> (bytes \<Rightarrow> bytes option) \<Rightarrow> (bytes \<Rightarrow> nat) \<Rightarrow> 'os sstable_iterator \<Rightarrow>
     'os sstable_iterator res" where
  "si_next ops decompress crc32 it =
     rbind (rassert (si_is_valid it)) (\<lambda>_. si_next_inner ops decompress crc32 it)"

definition si_prev ::
  "'os object_store_ops \<Rightarrow> (bytes \<Rightarrow> bytes option) \<Rightarrow> (bytes \<Rightarrow> nat) \<Rightarrow> 'os sstable_iterator \<Rightarrow>
     'os sstable_iterator res" where
  "si_prev ops decompress crc32 it =
     rbind (rassert (si_is_valid it)) (\<lambda>_. si_prev_inner ops decompress crc32 it)"

definition si_prev_until_key ::
  "'os object_store_ops \<Rightarrow> (bytes \<Rightarrow> bytes option) \<Rightarrow> (bytes \<Rightarrow> nat) \<Rightarrow> bytes \<Rightarrow> 'os sstable_iterator \<Rightarrow>
     'os sstable_iterator res" where
  "si_prev_until_key ops decompress crc32 =
     prev_until (\<lambda>it. Ok (si_is_valid it)) si_key (si_prev_inner ops decompress crc32)"

definition si_probe ::
  "'os object_store_ops \<Rightarrow> (bytes \<Rightarrow> bytes option) \<Rightarrow> (bytes \<Rightarrow> nat) \<Rightarrow> bytes \<Rightarrow> nat \<Rightarrow> 'os sstable_iterator \<Rightarrow>
     (ordering \<times> 'os sstable_iterator) res" where
  "si_probe ops decompress crc32 key mid it =
     rbind (si_open ops decompress crc32 mid (RandomForward key) it) (\<lambda>(bi, it).
     rbind (bi_is_valid bi) (\<lambda>valid.
     rbind (if valid then rbind (bi_key_of bi) (\<lambda>k. compare_full_key k key) else Ok Less) (\<lambda>c.
       Ok (c, it))))"

definition si_binary_seek_inner ::
  "'os object_store_ops \<Rightarrow> (bytes \<Rightarrow> bytes option) \<Rightarrow> (bytes \<Rightarrow> nat) \<Rightarrow> bytes \<Rightarrow> 'os sstable_iterator \<Rightarrow>
     (nat \<times> 'os sstable_iterator) res" where
  "si_binary_seek_inner ops decompress crc32 key it =
     rbind (bsearch (si_probe ops decompress crc32 key) 0 (blocks_len (si_sstable it)) it)
       (\<lambda>((found, i), it). Ok (if found then i else i - 1, it))"

definition si_binary_seek ::
  "'os object_store_ops \<Rightarrow> (bytes \<Rightarrow> bytes option) \<Rightarrow> (bytes \<Rightarrow> nat) \<Rightarrow> bytes \<Rightarrow> 'os sstable_iterator \<Rightarrow>
     'os sstable_iterator res" where
  "si_binary_seek ops decompress crc32 key it =
     rbind (si_binary_seek_inner ops decompress crc32 key it) (\<lambda>(offset, it).
     if blocks_len (si_sstable it) \<le> offset then Ok (si_invalid it)
     else
       rbind (si_open ops decompress crc32 offset (RandomForward key) it) (\<lambda>(bi, it).
       rbind (bi_is_valid bi) (\<lambda>valid.
       if valid then Ok (it\<lparr>si_offset := offset, si_iter := Some bi\<rparr>)
       else
         let it = it\<lparr>si_offset := offset + 1\<rparr> in
         if si_offset it < blocks_len (si_sstable it) then
           rbind (si_open ops decompress crc32 (si_offset it) (RandomForward key) it)
             (\<lambda>(bi, it). Ok (it\<lparr>si_iter := Some bi\<rparr>))
         else Ok (si_invalid it))))"

definition si_seek_end ::
  "'os object_store_ops \<Rightarrow> (bytes \<Rightarrow> bytes option) \<Rightarrow> (bytes \<Rightarrow> nat) \<Rightarrow> seek \<Rightarrow> nat \<Rightarrow> 'os sstable_iterator \<Rightarrow>
     'os sstable_iterator res" where
  "si_seek_end ops decompress crc32 sk offset it =
     (let it = it\<lparr>si_offset := offset\<rparr> in
      rbind (si_open ops decompress crc32 offset sk it) (\<lambda>(bi, it). Ok (it\<lparr>si_iter := Some bi\<rparr>)))"

definition si_seek_last ::
  "'os object_store_ops \<Rightarrow> (bytes \<Rightarrow> bytes option) \<Rightarrow> (bytes \<Rightarrow> nat) \<Rightarrow> 'os sstable_iterator \<Rightarrow>
     (bool \<times> 'os sstable_iterator) res" where
  "si_seek_last ops decompress crc32 it =
     rbind (sub_u64 (blocks_len (si_sstable it)) 1) (\<lambda>offset.
     rbind (si_seek_end ops decompress crc32 Last offset it) (\<lambda>it. Ok (si_is_valid it, it)))"

fun si_seek ::
  "'os object_store_ops \<Rightarrow> (bytes \<Rightarrow> bytes option) \<Rightarrow> (bytes \<Rightarrow> nat) \<Rightarrow> seek \<Rightarrow> 'os sstable_iterator \<Rightarrow>
     (bool \<times> 'os sstable_iterator) res" where
  "si_seek ops decompress crc32 First it =
     rbind (si_seek_end ops decompress crc32 First 0 it) (\<lambda>it. Ok (si_is_valid it, it))"
| "si_seek ops decompress crc32 Last it = si_seek_last ops decompress crc32 it"
| "si_seek ops decompress crc32 (RandomForward key) it =
     rbind (si_binary_seek ops decompress crc32 key it) (found_at (\<lambda>it. Ok (si_is_valid it)) si_key key)"
| "si_seek ops decompress crc32 (RandomBackward key) it =
     rbind (si_binary_seek ops decompress crc32 key it) (\<lambda>it.
     rbind (if \<not> si_is_valid it then rbind (si_seek_last ops decompress crc32 it) (\<lambda>(_, it). Ok it) else Ok it) (\<lambda>it.
     rbind (si_prev_until_key ops decompress crc32 key it)
       (found_at (\<lambda>it. Ok (si_is_valid it)) si_key key)))"

definition sstable_iterator_ops ::
  "'os object_store_ops \<Rightarrow> (bytes \<Rightarrow> bytes option) \<Rightarrow> (bytes \<Rightarrow> nat) \<Rightarrow> 'os sstable_iterator iterator_ops" where
  "sstable_iterator_ops ops decompress crc32 =
     \<lparr>it_next = si_next ops decompress crc32, it_prev = si_prev ops decompress crc32, it_key = si_key,
      it_value = si_value, it_is_valid = (\<lambda>it. Ok (si_is_valid it)), it_seek = si_seek ops decompress crc32\<rparr>"

section \<open>Positions\<close>

definition si_table ::
  "('os \<Rightarrow> string \<rightharpoonup> bytes) \<Rightarrow> (bytes \<Rightarrow> bytes option) \<Rightarrow> (bytes \<Rightarrow> nat) \<Rightarrow> kvs list \<Rightarrow> 'os sstable_iterator \<Rightarrow> bool" where
  "si_table objects decompress crc32 bss it \<longleftrightarrow>
     (\<exists>tabs i r m. ss_inv objects decompress crc32 tabs (si_store it) \<and> tabs i = Some (r, bss, m) \<and>
        si_sstable it = \<lparr>sst_id = i, sst_meta = m\<rparr> \<and> segments bss \<and> length (concat bss) < 2 ^ 64)"

definition si_at :: "kvs list \<Rightarrow> nat \<Rightarrow> nat \<Rightarrow> 'os sstable_iterator \<Rightarrow> bool" where
  "si_at bss b k it \<longleftrightarrow> b < length bss \<and> k < length (bss ! b) \<and> si_offset it = b \<and>
     (\<exists>bi. si_iter it = Some bi \<and> bi_cursor bi (bss ! b) (Some k))"

definition si_pos :: "kvs list \<Rightarrow> nat option \<Rightarrow> 'os sstable_iterator \<Rightarrow> bool" where
  "si_pos bss p it \<longleftrightarrow>
     (case p of None \<Rightarrow> length bss \<le> si_offset it
      | Some g \<Rightarrow> \<exists>b k. g = base bss b + k \<and> si_at bss b k it)"

definition si_over ::
  "('os \<Rightarrow> string \<rightharpoonup> bytes) \<Rightarrow> (bytes \<Rightarrow> bytes option) \<Rightarrow> (bytes \<Rightarrow> nat) \<Rightarrow> 'os sstable_iterator \<Rightarrow> kvs \<Rightarrow> bool" where
  "si_over objects decompress crc32 it es \<longleftrightarrow> (\<exists>bss. si_table objects decompress crc32 bss it \<and> es = concat bss)"

definition si_cursor ::
  "('os \<Rightarrow> string \<rightharpoonup> bytes) \<Rightarrow> (bytes \<Rightarrow> bytes option) \<Rightarrow> (bytes \<Rightarrow> nat) \<Rightarrow> 'os sstable_iterator \<Rightarrow> kvs \<Rightarrow> nat option \<Rightarrow> bool" where
  "si_cursor objects decompress crc32 it es p \<longleftrightarrow>
     (\<exists>bss. si_table objects decompress crc32 bss it \<and> es = concat bss \<and> si_pos bss p it)"

lemma si_pos_at: "si_at bss b k it \<Longrightarrow> g = base bss b + k \<Longrightarrow> si_pos bss (Some g) it"
  by (auto simp: si_pos_def)

lemma bi_cursor_ops:
  "bi_cursor bi es p \<Longrightarrow> bi_is_valid bi = Ok (p \<noteq> None)"
  "bi_cursor bi es (Some k) \<Longrightarrow> bi_key_of bi = Ok (key_at es k)"
  "bi_cursor bi es (Some k) \<Longrightarrow> bi_value_of bi = Ok (value_at es k)"
  "bi_cursor bi es (Some k) \<Longrightarrow> \<exists>bi'. bi_next bi = Ok bi' \<and> bi_cursor bi' es (if Suc k < length es then Some (Suc k) else None)"
  "bi_cursor bi es (Some k) \<Longrightarrow> \<exists>bi'. bi_prev bi = Ok bi' \<and> bi_cursor bi' es (if k = 0 then None else Some (k - 1))"
  using block_iter.cursor_valid block_iter.cursor_key block_iter.cursor_value block_iter.cursor_next
    block_iter.cursor_prev by (auto simp: block_iterator_ops_def)

context object_store
begin

lemma table_facts:
  assumes "si_table objects decompress crc32 bss it"
  shows "segments bss" "length (concat bss) < 2 ^ 64" "blocks_len (si_sstable it) = length bss"
    "si_is_valid it \<longleftrightarrow> si_offset it < length bss"
proof -
  obtain tabs i r m where t: "ss_inv objects decompress crc32 tabs (si_store it)" "tabs i = Some (r, bss, m)"
    "si_sstable it = \<lparr>sst_id = i, sst_meta = m\<rparr>" "segments bss" "length (concat bss) < 2 ^ 64"
    using assms unfolding si_table_def by blast
  then have "table_stored decompress crc32 (objects (ss_object_store (si_store it))) (si_store it) i (r, bss, m)"
    by (simp add: ss_inv_def)
  then have "length (sm_block_metas m) = length bss" unfolding table_stored_def table_holds_def by auto
  then show "blocks_len (si_sstable it) = length bss" using t(3) by (simp add: blocks_len_def)
  then show "si_is_valid it \<longleftrightarrow> si_offset it < length bss" by (simp add: si_is_valid_def)
  show "segments bss" "length (concat bss) < 2 ^ 64" using t by auto
qed

lemma table_update [simp]:
  "si_table objects decompress crc32 bss (it\<lparr>si_offset := n\<rparr>) = si_table objects decompress crc32 bss it"
  "si_table objects decompress crc32 bss (it\<lparr>si_iter := bi\<rparr>) = si_table objects decompress crc32 bss it"
  "si_table objects decompress crc32 bss (si_invalid it) = si_table objects decompress crc32 bss it"
  by (simp_all add: si_table_def si_invalid_def)

lemma invalid_pos: "si_table objects decompress crc32 bss it \<Longrightarrow> si_pos bss None (si_invalid it)"
  using table_facts(3) by (simp add: si_pos_def si_invalid_def)

lemma open_block:
  assumes "si_table objects decompress crc32 bss it" "b < length bss" "wf_seek sk"
  shows "\<exists>bi st. si_open ops decompress crc32 b sk it = Ok (bi, it\<lparr>si_store := st\<rparr>) \<and>
    si_table objects decompress crc32 bss (it\<lparr>si_store := st\<rparr>) \<and> bi_cursor bi (bss ! b) (seek_target (bss ! b) sk)"
proof -
  obtain tabs i r m where t: "ss_inv objects decompress crc32 tabs (si_store it)" "tabs i = Some (r, bss, m)"
    "si_sstable it = \<lparr>sst_id = i, sst_meta = m\<rparr>" "segments bss" "length (concat bss) < 2 ^ 64"
    using assms(1) unfolding si_table_def by blast
  obtain st where st: "ss_block ops decompress crc32 \<lparr>sst_id = i, sst_meta = m\<rparr> b (si_cache_policy it) (si_store it) =
      Ok (block_image r (bss ! b), st)" "ss_inv objects decompress crc32 tabs st"
    using block_inv[of decompress crc32 tabs "si_store it" i r bss m b "si_cache_policy it"] t(1,2) assms(2) by auto
  have "table_stored decompress crc32 (objects (ss_object_store (si_store it))) (si_store it) i (r, bss, m)"
    using t(1,2) by (simp add: ss_inv_def)
  then have "block_ok r (bss ! b)" using assms(2) unfolding table_stored_def table_holds_def by auto
  then have "bi_over (bi_new (block_image r (bss ! b))) (bss ! b)" by (auto simp: bi_over_def bi_new_def)
  from block_iter.over_seek[OF this assms(3)] obtain bi where
    bi: "bi_seek sk (bi_new (block_image r (bss ! b))) = Ok (seek_found (bss ! b) sk, bi)"
    "bi_cursor bi (bss ! b) (seek_target (bss ! b) sk)" by (auto simp: block_iterator_ops_def)
  then have "si_open ops decompress crc32 b sk it = Ok (bi, it\<lparr>si_store := st\<rparr>)"
    using st(1) t(3) by (simp add: si_open_def)
  moreover have "si_table objects decompress crc32 bss (it\<lparr>si_store := st\<rparr>)"
    unfolding si_table_def using st(2) t by auto
  ultimately show ?thesis using bi(2) by blast
qed

lemma open_at:
  assumes "si_table objects decompress crc32 bss it" "b < length bss" "wf_seek sk" "si_offset it = b"
    "seek_target (bss ! b) sk = Some k"
  shows "\<exists>bi it1. si_open ops decompress crc32 b sk it = Ok (bi, it1) \<and>
    si_table objects decompress crc32 bss (it1\<lparr>si_iter := Some bi\<rparr>) \<and> si_at bss b k (it1\<lparr>si_iter := Some bi\<rparr>)"
proof -
  obtain bi st where o: "si_open ops decompress crc32 b sk it = Ok (bi, it\<lparr>si_store := st\<rparr>)"
    "si_table objects decompress crc32 bss (it\<lparr>si_store := st\<rparr>)" "bi_cursor bi (bss ! b) (seek_target (bss ! b) sk)"
    using open_block[OF assms(1-3)] by blast
  have "k < length (bss ! b)" using seek_target_bound[OF assms(5)] .
  then show ?thesis using o assms(2,4,5) by (auto simp: si_at_def)
qed

lemma next_inner_at:
  assumes t: "si_table objects decompress crc32 bss it" and at: "si_at bss b k it"
  shows "\<exists>it'. si_next_inner ops decompress crc32 it = Ok it' \<and> si_table objects decompress crc32 bss it' \<and>
    si_pos bss (if Suc (base bss b + k) < length (concat bss) then Some (Suc (base bss b + k)) else None) it'"
proof -
  note s = table_facts(1)[OF t]
  obtain bi where bi: "si_iter it = Some bi" "bi_cursor bi (bss ! b) (Some k)" "b < length bss" "k < length (bss ! b)"
    "si_offset it = b" using at by (auto simp: si_at_def)
  obtain bi' where bi': "bi_next bi = Ok bi'" "bi_cursor bi' (bss ! b) (if Suc k < length (bss ! b) then Some (Suc k) else None)"
    using bi_cursor_ops(4)[OF bi(2)] by blast
  note v = bi_cursor_ops(1)[OF bi'(2)]
  note n = segments_next[OF s bi(3,4)]
  consider "Suc k < length (bss ! b)" | "\<not> Suc k < length (bss ! b)" "Suc b < length bss"
    | "\<not> Suc k < length (bss ! b)" "\<not> Suc b < length bss" by blast
  then show ?thesis
  proof cases
    case 1
    then have "si_next_inner ops decompress crc32 it = Ok (it\<lparr>si_iter := Some bi'\<rparr>)"
      using bi bi'(1) v by (simp add: si_next_inner_def Let_def)
    moreover have "si_pos bss (Some (Suc (base bss b + k))) (it\<lparr>si_iter := Some bi'\<rparr>)"
      by (rule si_pos_at[of _ b "Suc k"]) (use bi bi'(2) 1 in \<open>auto simp: si_at_def\<close>)
    ultimately show ?thesis using n 1 t by auto
  next
    case 2
    let ?it = "it\<lparr>si_iter := Some bi', si_offset := Suc b\<rparr>"
    have ne: "bss ! Suc b \<noteq> []" using segmentsD(3)[OF s 2(2)] .
    obtain bi2 it1 where o: "si_open ops decompress crc32 (Suc b) First ?it = Ok (bi2, it1)"
      "si_table objects decompress crc32 bss (it1\<lparr>si_iter := Some bi2\<rparr>)" "si_at bss (Suc b) 0 (it1\<lparr>si_iter := Some bi2\<rparr>)"
      using open_at[of decompress crc32 bss ?it "Suc b" First 0] t 2(2) ne by auto
    have "si_next_inner ops decompress crc32 it = Ok (it1\<lparr>si_iter := Some bi2\<rparr>)"
      using bi bi'(1) v 2 o(1) table_facts(3)[OF t] by (simp add: si_next_inner_def Let_def)
    moreover have "Suc (base bss b + k) = base bss (Suc b)" using base_Suc[OF bi(3)] 2(1) bi(4) by simp
    ultimately show ?thesis using n 2 o(2) si_pos_at[OF o(3)] by auto
  next
    case 3
    then have "si_next_inner ops decompress crc32 it = Ok (si_invalid (it\<lparr>si_iter := Some bi'\<rparr>))"
      using bi bi'(1) v table_facts(3)[OF t] by (simp add: si_next_inner_def Let_def)
    moreover have "si_pos bss None (si_invalid (it\<lparr>si_iter := Some bi'\<rparr>))" by (rule invalid_pos) (use t in simp)
    ultimately show ?thesis using n 3 t by auto
  qed
qed

lemma prev_inner_at:
  assumes t: "si_table objects decompress crc32 bss it" and at: "si_at bss b k it"
  shows "\<exists>it'. si_prev_inner ops decompress crc32 it = Ok it' \<and> si_table objects decompress crc32 bss it' \<and>
    si_pos bss (if base bss b + k = 0 then None else Some (base bss b + k - 1)) it'"
proof -
  note s = table_facts(1)[OF t]
  obtain bi where bi: "si_iter it = Some bi" "bi_cursor bi (bss ! b) (Some k)" "b < length bss" "k < length (bss ! b)"
    "si_offset it = b" using at by (auto simp: si_at_def)
  obtain bi' where bi': "bi_prev bi = Ok bi'" "bi_cursor bi' (bss ! b) (if k = 0 then None else Some (k - 1))"
    using bi_cursor_ops(5)[OF bi(2)] by blast
  note v = bi_cursor_ops(1)[OF bi'(2)]
  consider "k \<noteq> 0" | "k = 0" "b \<noteq> 0" | "k = 0" "b = 0" by blast
  then show ?thesis
  proof cases
    case 1
    then have "si_prev_inner ops decompress crc32 it = Ok (it\<lparr>si_iter := Some bi'\<rparr>)"
      using bi bi'(1) v by (simp add: si_prev_inner_def Let_def)
    moreover have "si_pos bss (Some (base bss b + k - 1)) (it\<lparr>si_iter := Some bi'\<rparr>)"
      by (rule si_pos_at[of _ b "k - 1"]) (use bi bi'(2) 1 in \<open>auto simp: si_at_def\<close>)
    ultimately show ?thesis using 1 t by auto
  next
    case 2
    then obtain c where c: "b = Suc c" "c < length bss" using bi(3) by (cases b) auto
    let ?it = "it\<lparr>si_iter := Some bi', si_offset := c\<rparr>"
    have ne: "bss ! c \<noteq> []" using segmentsD(3)[OF s c(2)] .
    obtain bi2 it1 where o: "si_open ops decompress crc32 c Last ?it = Ok (bi2, it1)"
      "si_table objects decompress crc32 bss (it1\<lparr>si_iter := Some bi2\<rparr>)"
      "si_at bss c (length (bss ! c) - 1) (it1\<lparr>si_iter := Some bi2\<rparr>)"
      using open_at[of decompress crc32 bss ?it c Last "length (bss ! c) - 1"] t c(2) ne by auto
    have "si_prev_inner ops decompress crc32 it = Ok (it1\<lparr>si_iter := Some bi2\<rparr>)"
      using bi bi'(1) v 2 c o(1) by (simp add: si_prev_inner_def Let_def)
    moreover have "base bss b + k - 1 = base bss c + (length (bss ! c) - 1)" "base bss b + k \<noteq> 0"
      using base_Suc[OF c(2)] 2(1) c(1) ne by (cases "bss ! c"; simp)+
    ultimately show ?thesis using o(2) si_pos_at[OF o(3)] by auto
  next
    case 3
    then have "si_prev_inner ops decompress crc32 it = Ok (si_invalid (it\<lparr>si_iter := Some bi'\<rparr>))"
      using bi bi'(1) v by (simp add: si_prev_inner_def Let_def)
    moreover have "si_pos bss None (si_invalid (it\<lparr>si_iter := Some bi'\<rparr>))" by (rule invalid_pos) (use t in simp)
    ultimately show ?thesis using 3 t by auto
  qed
qed

lemma probe_block:
  assumes "si_table objects decompress crc32 bss it" "b < length bss" "8 \<le> length k"
  shows "\<exists>it'. si_probe ops decompress crc32 k b it = Ok (probe_of bss k b, it') \<and> si_table objects decompress crc32 bss it'"
proof -
  note s = table_facts(1)[OF assms(1)]
  obtain bi st where o: "si_open ops decompress crc32 b (RandomForward k) it = Ok (bi, it\<lparr>si_store := st\<rparr>)"
    "si_table objects decompress crc32 bss (it\<lparr>si_store := st\<rparr>)"
    "bi_cursor bi (bss ! b) (seek_target (bss ! b) (RandomForward k))"
    using open_block[OF assms(1,2), of "RandomForward k"] assms(3) by auto
  note v = bi_cursor_ops(1)[OF o(3)]
  show ?thesis
  proof (cases "below bss k b")
    case True
    then show ?thesis using o v by (auto simp: si_probe_def below_def probe_of_def)
  next
    case False
    then have l: "lower (bss ! b) k < length (bss ! b)" using lower_le[of "bss ! b" k] by (simp add: below_def)
    then have "bi_key_of bi = Ok (key_at (bss ! b) (lower (bss ! b) k))" "8 \<le> length (key_at (bss ! b) (lower (bss ! b) k))"
      using bi_cursor_ops(2)[of bi "bss ! b"] o(3) key_sorted_length[OF segmentsD(5)[OF s assms(2)] l] by auto
    then show ?thesis using o v False l assms(3) by (auto simp: si_probe_def probe_of_def compare_full_key_cmp)
  qed
qed

lemma binary_seek_pos:
  assumes t: "si_table objects decompress crc32 bss it" and k: "8 \<le> length k"
  shows "\<exists>it'. si_binary_seek ops decompress crc32 k it = Ok it' \<and> si_table objects decompress crc32 bss it' \<and>
    si_pos bss (seek_target (concat bss) (RandomForward k)) it'"
proof -
  note s = table_facts(1)[OF t]
  have "\<exists>found i it'. bsearch (si_probe ops decompress crc32 k) 0 (length bss) it = Ok ((found, i), it') \<and>
      si_table objects decompress crc32 bss it' \<and>
      (if found then i < length bss \<and> probe_of bss k i = Equal
       else i \<le> length bss \<and> (\<forall>j < i. probe_of bss k j = Less) \<and> (\<forall>j. i \<le> j \<and> j < length bss \<longrightarrow> probe_of bss k j = Greater))"
    by (rule bsearch_correct[OF probe_order_segments[OF s] order_refl]) (use probe_block[OF _ _ k] t in auto)
  then obtain found i it1 where b: "bsearch (si_probe ops decompress crc32 k) 0 (length bss) it = Ok ((found, i), it1)"
    "si_table objects decompress crc32 bss it1"
    "if found then i < length bss \<and> probe_of bss k i = Equal
     else i \<le> length bss \<and> (\<forall>j < i. probe_of bss k j = Less) \<and> (\<forall>j. i \<le> j \<and> j < length bss \<longrightarrow> probe_of bss k j = Greater)"
    by blast
  have i: "i \<le> length bss" "\<forall>c < i. below bss k c" "i < length bss \<Longrightarrow> \<not> below bss k i"
  proof -
    show "i \<le> length bss" "\<forall>c < i. below bss k c"
      using b(3) segment_found[OF s, of i k] probe_of_not_Less[OF s, of _ k] by (auto split: if_splits)
    assume "i < length bss"
    then have "probe_of bss k i \<noteq> Less" using b(3) by (auto split: if_splits)
    then show "\<not> below bss k i" using probe_of_not_Less[OF s \<open>i < length bss\<close>] by blast
  qed
  note low = lower_concat[OF s i]
  define o1 where "o1 = (if found then i else i - 1)"
  have o1: "o1 < length bss" using b(3) segmentsD(2)[OF s] by (cases i) (auto simp: o1_def split: if_splits)
  have inner: "si_binary_seek_inner ops decompress crc32 k it = Ok (o1, it1)"
    using b(1) table_facts(3)[OF t] by (simp add: si_binary_seek_inner_def o1_def)
  obtain bi st where op: "si_open ops decompress crc32 o1 (RandomForward k) it1 = Ok (bi, it1\<lparr>si_store := st\<rparr>)"
    "si_table objects decompress crc32 bss (it1\<lparr>si_store := st\<rparr>)"
    "bi_cursor bi (bss ! o1) (seek_target (bss ! o1) (RandomForward k))"
    using open_block[OF b(2) o1, of "RandomForward k"] k by auto
  note v = bi_cursor_ops(1)[OF op(3)]
  have len: "blocks_len (si_sstable it1) = length bss" using table_facts(3)[OF b(2)] .
  show ?thesis
  proof (cases "below bss k o1")
    case False
    then have "o1 = i" using i(2) by (cases i) (auto simp: o1_def split: if_splits)
    have l: "lower (bss ! o1) k < length (bss ! o1)" using False lower_le[of "bss ! o1" k] by (simp add: below_def)
    let ?it = "it1\<lparr>si_store := st, si_offset := o1, si_iter := Some bi\<rparr>"
    have "si_binary_seek ops decompress crc32 k it = Ok ?it"
      using inner op(1) v l o1 len by (simp add: si_binary_seek_def)
    moreover have "si_at bss o1 (lower (bss ! o1) k) ?it" using o1 l op(3) by (simp add: si_at_def)
    then have "si_pos bss (Some (lower (concat bss) k)) ?it" using low \<open>o1 = i\<close> o1 by (intro si_pos_at) auto
    moreover have "lower (concat bss) k < length (concat bss)" using low \<open>o1 = i\<close> o1 base_bound[OF o1 l] by simp
    ultimately show ?thesis using op(2) by auto
  next
    case True
    then have io: "i = Suc o1" using i(3) o1 by (cases i) (auto simp: o1_def split: if_splits)
    have nv: "\<not> lower (bss ! o1) k < length (bss ! o1)" using True by (simp add: below_def)
    let ?it = "it1\<lparr>si_store := st, si_offset := i\<rparr>"
    show ?thesis
    proof (cases "i < length bss")
      case True
      then have l: "lower (bss ! i) k < length (bss ! i)" using i(3) lower_le[of "bss ! i" k] by (simp add: below_def)
      obtain bi2 it2 where o2: "si_open ops decompress crc32 i (RandomForward k) ?it = Ok (bi2, it2)"
        "si_table objects decompress crc32 bss (it2\<lparr>si_iter := Some bi2\<rparr>)"
        "si_at bss i (lower (bss ! i) k) (it2\<lparr>si_iter := Some bi2\<rparr>)"
        using open_at[of decompress crc32 bss ?it i "RandomForward k" "lower (bss ! i) k"] op(2) True k l by auto
      have "si_binary_seek ops decompress crc32 k it = Ok (it2\<lparr>si_iter := Some bi2\<rparr>)"
        using inner op(1) v nv o1 len io True o2(1) by (simp add: si_binary_seek_def Let_def)
      moreover have "lower (concat bss) k < length (concat bss)" using low True base_bound[OF True l] by simp
      ultimately show ?thesis using o2(2) si_pos_at[OF o2(3)] low True by auto
    next
      case False
      then have "lower (concat bss) k = length (concat bss)" using low i(1) by simp
      moreover have "si_binary_seek ops decompress crc32 k it = Ok (si_invalid ?it)"
        using inner op(1) v nv o1 len io False by (simp add: si_binary_seek_def Let_def)
      moreover have "si_pos bss None (si_invalid ?it)" by (rule invalid_pos) (use op(2) in simp)
      ultimately show ?thesis using op(2) by auto
    qed
  qed
qed

lemma seek_end_pos:
  assumes t: "si_table objects decompress crc32 bss it"
  shows "\<exists>it'. si_seek_end ops decompress crc32 First 0 it = Ok it' \<and> si_table objects decompress crc32 bss it' \<and>
      si_pos bss (Some 0) it'"
    and "\<exists>it'. si_seek_end ops decompress crc32 Last (length bss - 1) it = Ok it' \<and>
      si_table objects decompress crc32 bss it' \<and> si_pos bss (Some (length (concat bss) - 1)) it'"
proof -
  note s = table_facts(1)[OF t]
  have b: "0 < length bss" "length bss - 1 < length bss" using segmentsD(2)[OF s] by auto
  obtain bi it1 where "si_open ops decompress crc32 0 First (it\<lparr>si_offset := 0\<rparr>) = Ok (bi, it1)"
    "si_table objects decompress crc32 bss (it1\<lparr>si_iter := Some bi\<rparr>)" "si_at bss 0 0 (it1\<lparr>si_iter := Some bi\<rparr>)"
    using open_at[of decompress crc32 bss "it\<lparr>si_offset := 0\<rparr>" 0 First 0] t b(1) segmentsD(3)[OF s b(1)] by auto
  then show "\<exists>it'. si_seek_end ops decompress crc32 First 0 it = Ok it' \<and> si_table objects decompress crc32 bss it' \<and>
      si_pos bss (Some 0) it'" using si_pos_at[of bss 0 0] by (auto simp: si_seek_end_def Let_def)
  let ?b = "length bss - 1"
  have last: "last bss = bss ! ?b" using segmentsD(2)[OF s] by (simp add: last_conv_nth)
  obtain bi it1 where "si_open ops decompress crc32 ?b Last (it\<lparr>si_offset := ?b\<rparr>) = Ok (bi, it1)"
    "si_table objects decompress crc32 bss (it1\<lparr>si_iter := Some bi\<rparr>)"
    "si_at bss ?b (length (bss ! ?b) - 1) (it1\<lparr>si_iter := Some bi\<rparr>)"
    using open_at[of decompress crc32 bss "it\<lparr>si_offset := ?b\<rparr>" ?b Last "length (bss ! ?b) - 1"] t b(2)
      segmentsD(3)[OF s b(2)] by auto
  then show "\<exists>it'. si_seek_end ops decompress crc32 Last ?b it = Ok it' \<and>
      si_table objects decompress crc32 bss it' \<and> si_pos bss (Some (length (concat bss) - 1)) it'"
    using si_pos_at[of bss ?b "length (bss ! ?b) - 1"] base_last[OF s] last by (auto simp: si_seek_end_def Let_def)
qed

lemma pos_valid: "si_table objects decompress crc32 bss it \<Longrightarrow> si_pos bss p it \<Longrightarrow> si_is_valid it \<longleftrightarrow> p \<noteq> None"
  using table_facts(4)[of decompress crc32 bss it] by (cases p) (auto simp: si_pos_def si_at_def)

end

text \<open>The cursor laws, for every object store.\<close>

sublocale object_store \<subseteq> table_cursor: kv_cursor "sstable_iterator_ops ops decompress crc32"
  "si_cursor objects decompress crc32" "si_over objects decompress crc32" for decompress crc32
proof
  fix it es p i
  show "si_over objects decompress crc32 it es \<Longrightarrow> key_sorted es \<and> es \<noteq> []"
    unfolding si_over_def using table_facts(1) segmentsD(1,4) by metis
  show "si_cursor objects decompress crc32 it es p \<Longrightarrow> si_over objects decompress crc32 it es"
    by (auto simp: si_cursor_def si_over_def)
  show "si_cursor objects decompress crc32 it es (Some i) \<Longrightarrow> i < length es"
    using base_bound by (auto simp: si_cursor_def si_pos_def si_at_def)
  show "si_cursor objects decompress crc32 it es p \<Longrightarrow>
      it_is_valid (sstable_iterator_ops ops decompress crc32) it = Ok (p \<noteq> None)"
    using pos_valid by (auto simp: si_cursor_def sstable_iterator_ops_def)
  show "si_cursor objects decompress crc32 it es (Some i) \<Longrightarrow>
      it_key (sstable_iterator_ops ops decompress crc32) it = Ok (key_at es i)"
    using table_facts(4) bi_cursor_ops(2) concat_nth_base
    by (fastforce simp: si_cursor_def sstable_iterator_ops_def si_key_def si_pos_def si_at_def)
  show "si_cursor objects decompress crc32 it es (Some i) \<Longrightarrow>
      it_value (sstable_iterator_ops ops decompress crc32) it = Ok (value_at es i)"
    using table_facts(4) bi_cursor_ops(3) concat_nth_base
    by (fastforce simp: si_cursor_def sstable_iterator_ops_def si_value_def si_pos_def si_at_def)
  show "si_cursor objects decompress crc32 it es (Some i) \<Longrightarrow>
      \<exists>it'. it_next (sstable_iterator_ops ops decompress crc32) it = Ok it' \<and>
        si_cursor objects decompress crc32 it' es (if Suc i < length es then Some (Suc i) else None)"
    using next_inner_at pos_valid[of decompress crc32 _ it "Some i"]
    by (fastforce simp: si_cursor_def sstable_iterator_ops_def si_next_def si_pos_def)
  show "si_cursor objects decompress crc32 it es (Some i) \<Longrightarrow>
      \<exists>it'. it_prev (sstable_iterator_ops ops decompress crc32) it = Ok it' \<and>
        si_cursor objects decompress crc32 it' es (if i = 0 then None else Some (i - 1))"
    using prev_inner_at pos_valid[of decompress crc32 _ it "Some i"]
    by (fastforce simp: si_cursor_def sstable_iterator_ops_def si_prev_def si_pos_def)
qed

sublocale object_store \<subseteq> table_iter: kv_iterator "sstable_iterator_ops ops decompress crc32"
  "si_cursor objects decompress crc32" "si_over objects decompress crc32" for decompress crc32
proof
  fix it es sk
  assume "si_over objects decompress crc32 it es" and wf: "wf_seek sk"
  then obtain bss where t: "si_table objects decompress crc32 bss it" and es: "es = concat bss"
    by (auto simp: si_over_def)
  note s = table_facts(1)[OF t]
  have ne: "es \<noteq> []" using segmentsD(4)[OF s] es by simp
  let ?goal = "\<lambda>sk. \<exists>it'. si_seek ops decompress crc32 sk it = Ok (seek_found es sk, it') \<and>
    si_cursor objects decompress crc32 it' es (seek_target es sk)"
  have valid: "it_is_valid (sstable_iterator_ops ops decompress crc32) = (\<lambda>it. Ok (si_is_valid it))"
    "it_key (sstable_iterator_ops ops decompress crc32) = si_key" by (simp_all add: sstable_iterator_ops_def)
  have last: "\<exists>it'. si_seek_last ops decompress crc32 it0 = Ok (True, it') \<and>
      si_table objects decompress crc32 bss it' \<and> si_pos bss (Some (length es - 1)) it'"
    if t0: "si_table objects decompress crc32 bss it0" for it0
    using seek_end_pos(2)[OF t0] pos_valid[of decompress crc32 bss] table_facts(3)[OF t0] segmentsD(2)[OF s] es
    by (auto simp: si_seek_last_def Suc_leI)
  have "?goal sk"
  proof (cases sk)
    case First
    then show ?thesis using seek_end_pos(1)[OF t] pos_valid[of decompress crc32 bss] ne es by (auto simp: si_cursor_def)
  next
    case Last
    then show ?thesis using last[OF t] ne es by (auto simp: si_cursor_def)
  next
    case (RandomForward k)
    obtain it' where it': "si_binary_seek ops decompress crc32 k it = Ok it'"
      "si_cursor objects decompress crc32 it' es (seek_target es sk)"
      using binary_seek_pos[OF t, of k] wf RandomForward es by (auto simp: si_cursor_def)
    from table_cursor.cursor_found_seek[OF it'(2), of k] it' RandomForward show ?thesis
      by (simp add: valid del: seek_found.simps)
  next
    case (RandomBackward k)
    then have k: "8 \<le> length k" using wf by simp
    obtain it1 where it1: "si_binary_seek ops decompress crc32 k it = Ok it1" "si_table objects decompress crc32 bss it1"
      "si_pos bss (seek_target es (RandomForward k)) it1" using binary_seek_pos[OF t k] es by blast
    have "\<exists>it2 j. (if \<not> si_is_valid it1 then rbind (si_seek_last ops decompress crc32 it1) (\<lambda>(_, it). Ok it) else Ok it1) = Ok it2 \<and>
        si_cursor objects decompress crc32 it2 es (Some j) \<and> upper es k \<le> Suc j"
    proof (cases "lower es k < length es")
      case True
      then show ?thesis using it1(2,3) pos_valid[OF it1(2,3)] upper_after_lower[OF segmentsD(1)[OF s], of k] es
        by (auto simp: si_cursor_def)
    next
      case False
      then have "\<not> si_is_valid it1" using pos_valid[OF it1(2,3)] by simp
      moreover obtain it2 where it2: "si_seek_last ops decompress crc32 it1 = Ok (True, it2)"
        "si_cursor objects decompress crc32 it2 es (Some (length es - 1))"
        using last[OF it1(2)] es by (auto simp: si_cursor_def)
      moreover have "upper es k \<le> Suc (length es - 1)" using lower_bound(2)[of es k] ne by simp
      ultimately show ?thesis by auto
    qed
    then obtain it2 j where it2: "(if \<not> si_is_valid it1 then rbind (si_seek_last ops decompress crc32 it1) (\<lambda>(_, it). Ok it)
        else Ok it1) = Ok it2" "si_cursor objects decompress crc32 it2 es (Some j)" "upper es k \<le> Suc j" by blast
    obtain it3 where it3: "si_prev_until_key ops decompress crc32 k it2 = Ok it3"
      "si_cursor objects decompress crc32 it3 es (seek_target es sk)"
      using table_cursor.cursor_prev_until[OF it2(2,3) k, of "si_prev_inner ops decompress crc32"] prev_inner_at
        table_facts(2)[OF t] es RandomBackward
      by (fastforce simp: si_prev_until_key_def valid si_cursor_def si_pos_def)
    from table_cursor.cursor_found_seek[OF it3(2), of k] it1(1) it2(1) it3 RandomBackward show ?thesis
      by (simp add: valid del: seek_found.simps cong: if_cong)
  qed
  then show "\<exists>it'. it_seek (sstable_iterator_ops ops decompress crc32) sk it = Ok (seek_found es sk, it') \<and>
      si_cursor objects decompress crc32 it' es (seek_target es sk)" by (simp add: sstable_iterator_ops_def)
qed

section \<open>Properties\<close>

lemma stored_table_over:
  assumes "ss_inv mo_objects decompress crc32 tabs st" "tabs i = Some (r, bss, m)" "segments bss"
    "length (concat bss) < 2 ^ 64"
  shows "si_over mo_objects decompress crc32 (si_new st \<lparr>sst_id = i, sst_meta = m\<rparr> policy) (concat bss)"
  unfolding si_over_def si_table_def using assms by (auto simp: si_new_def)

text \<open>A stored table is found whole: in every history of the table store, an iterator over a table
  that was put seeks, across its blocks, exactly where a search in the sorted list of all its entries
  leads, for all four ways to seek, and stands there with the key and the value of that entry.\<close>

theorem table_iterator_seeks:
  assumes "ss_run mem_object_store_ops decompress crc32 tabs st" "tabs i = Some (r, bss, m)" "segments bss"
    "length (concat bss) < 2 ^ 64" "wf_seek sk"
  shows "\<exists>it. si_seek mem_object_store_ops decompress crc32 sk (si_new st \<lparr>sst_id = i, sst_meta = m\<rparr> policy) =
      Ok (seek_found (concat bss) sk, it) \<and> si_is_valid it = (seek_target (concat bss) sk \<noteq> None) \<and>
    (\<forall>j. seek_target (concat bss) sk = Some j \<longrightarrow> si_key it = Ok (key_at (concat bss) j) \<and> si_value it = Ok (value_at (concat bss) j))"
proof -
  obtain it where it: "si_seek mem_object_store_ops decompress crc32 sk (si_new st \<lparr>sst_id = i, sst_meta = m\<rparr> policy) =
      Ok (seek_found (concat bss) sk, it)" "si_cursor mo_objects decompress crc32 it (concat bss) (seek_target (concat bss) sk)"
    using mem_os.table_iter.over_seek[OF stored_table_over[OF mem_os.run_inv[OF assms(1)] assms(2-4)] assms(5)]
    by (auto simp: sstable_iterator_ops_def)
  then show ?thesis
    using mem_os.table_cursor.cursor_valid[OF it(2)] mem_os.table_cursor.cursor_key[of decompress crc32 it "concat bss"]
      mem_os.table_cursor.cursor_value[of decompress crc32 it "concat bss"]
    by (auto simp: sstable_iterator_ops_def)
qed

text \<open>A scan of a stored table returns all its entries in order: seeking to the first entry and moving
  forward to the end passes every entry once.\<close>

theorem table_iterator_scans:
  assumes "ss_run mem_object_store_ops decompress crc32 tabs st" "tabs i = Some (r, bss, m)" "segments bss"
    "length (concat bss) < 2 ^ 64"
  shows "\<exists>found it. si_seek mem_object_store_ops decompress crc32 First (si_new st \<lparr>sst_id = i, sst_meta = m\<rparr> policy) =
      Ok (found, it) \<and>
    it_scan (sstable_iterator_ops mem_object_store_ops decompress crc32) (Suc (length (concat bss))) it = Ok (concat bss)"
  using mem_os.table_iter.fwd.over_first[OF stored_table_over[OF mem_os.run_inv[OF assms(1)] assms(2-4)]] mem_os.table_iter.fwd.scan_ahead
  by (fastforce simp: sstable_iterator_ops_def)

lemma example_table_run:
  "\<exists>m st. ss_run mem_object_store_ops stored_decompress (\<lambda>_. 7) [5 \<mapsto> (2, [example_entries], m)] st"
proof -
  obtain m data where t: "table_holds stored_decompress (\<lambda>_. 7) 2 [example_entries] m data" "meta_fits m"
    using single_block_table[of example_entries] example_entries_sorted by (auto simp: example_entries_def)
  let ?st0 = "sstable_store_new ''t'' \<lparr>mo_objects = Map.empty\<rparr> Map.empty"
  obtain st where put: "ss_put mem_object_store_ops stored_decompress (\<lambda>_. 7) \<lparr>sst_id = 5, sst_meta = m\<rparr> data Disable ?st0 =
      (Ok (), st)" using mem_put_Ok by blast
  have "ss_run mem_object_store_ops stored_decompress (\<lambda>_. 7) [5 \<mapsto> (2, [example_entries], m)] st"
    by (rule run_put[OF run_new _ _ t(2,1) put]) simp_all
  then show ?thesis by blast
qed

lemma example_segments: "segments [example_entries]" "length (concat [example_entries]) < 2 ^ 64"
  using example_entries_sorted by (simp_all add: segments_def example_entries_def)

theorem table_iterator_seeks_witness:
  "\<exists>m st it. si_seek mem_object_store_ops stored_decompress (\<lambda>_. 7) (RandomForward (full_key [107, 49] 5))
      (si_new st \<lparr>sst_id = 5, sst_meta = m\<rparr> Fill) = Ok (False, it) \<and> si_key it = Ok (full_key [107, 49] 4) \<and> si_value it = Ok [2, 3]"
proof -
  obtain m st where run: "ss_run mem_object_store_ops stored_decompress (\<lambda>_. 7) [5 \<mapsto> (2, [example_entries], m)] st"
    using example_table_run by blast
  let ?k = "full_key [107, 49] 5"
  have e: "lower example_entries ?k = 1" "?k \<notin> fst ` set example_entries"
    by (simp_all add: lower_def example_entries_def key_ord_full_key_less)
  from table_iterator_seeks[OF run, of 5 2 "[example_entries]" m "RandomForward ?k" Fill] example_segments e
  show ?thesis by (fastforce simp: example_entries_def)
qed

theorem table_iterator_scans_witness:
  "\<exists>m st found it. si_seek mem_object_store_ops stored_decompress (\<lambda>_. 7) First (si_new st \<lparr>sst_id = 5, sst_meta = m\<rparr> NotFill) =
      Ok (found, it) \<and> it_scan (sstable_iterator_ops mem_object_store_ops stored_decompress (\<lambda>_. 7)) 4 it = Ok example_entries"
proof -
  obtain m st where run: "ss_run mem_object_store_ops stored_decompress (\<lambda>_. 7) [5 \<mapsto> (2, [example_entries], m)] st"
    using example_table_run by blast
  have "Suc (length (concat [example_entries])) = 4" by (simp add: example_entries_def)
  moreover have "[5 \<mapsto> (2, [example_entries], m)] 5 = Some (2, [example_entries], m)" by simp
  ultimately show ?thesis
    using table_iterator_scans[OF run _ example_segments, of 5 2 m NotFill] by (simp only: concat.simps append_Nil2) blast
qed

end
