(* ===== verification/MergeIterator.thy ===== *)
theory MergeIterator
  imports SstableIterator "HOL-Library.Multiset"
begin

text \<open>
  \<open>storage/src/lsm_tree/iterator/merge_iterator.rs\<close>: the merge of several iterators. The valid ones are in
  a heap ordered by their current keys (\<open>impl Ord for BoxedIterator\<close>); the invalid ones are in a list.

  A \<open>BinaryHeap\<close> is the list of its elements: its root is the least (greatest) one in the order of the
  keys, the first of them on a tie; taking the key of an invalid iterator panics.
\<close>

datatype direction = Forward | Backward

record 'it merge_iterator =
  mi_direction :: direction
  mi_iters :: "'it list"
  mi_min_heap :: "'it list"
  mi_max_heap :: "'it list"

text \<open>The position of the root: \<open>c\<close> is \<open>Less\<close> for the min heap, \<open>Greater\<close> for the max heap.\<close>

fun heap_root_from :: "'it iterator_ops \<Rightarrow> ordering \<Rightarrow> nat \<Rightarrow> bytes \<Rightarrow> nat \<Rightarrow> 'it list \<Rightarrow> nat res" where
  "heap_root_from ops c best best_key i [] = Ok best"
| "heap_root_from ops c best best_key i (it # its) =
     rbind (it_key ops it) (\<lambda>k.
     rbind (compare_full_key k best_key) (\<lambda>ord.
       if ord = c then heap_root_from ops c i k (Suc i) its
       else heap_root_from ops c best best_key (Suc i) its))"

fun heap_root :: "'it iterator_ops \<Rightarrow> ordering \<Rightarrow> 'it list \<Rightarrow> nat res" where
  "heap_root ops c [] = Panic"
| "heap_root ops c [it] = Ok 0"
| "heap_root ops c (it # its) = rbind (it_key ops it) (\<lambda>k. heap_root_from ops c 0 k 1 its)"

definition mi_new :: "'it list \<Rightarrow> 'it merge_iterator" where
  "mi_new iters = \<lparr>mi_direction = Forward, mi_iters = iters, mi_min_heap = [], mi_max_heap = []\<rparr>"

definition mi_is_valid :: "'it merge_iterator \<Rightarrow> bool" where
  "mi_is_valid mi = (case mi_direction mi of Forward \<Rightarrow> mi_min_heap mi \<noteq> [] | Backward \<Rightarrow> mi_max_heap mi \<noteq> [])"

definition mi_root :: "'it iterator_ops \<Rightarrow> 'it merge_iterator \<Rightarrow> 'it res" where
  "mi_root ops mi =
     (case mi_direction mi of
        Forward \<Rightarrow> rbind (heap_root ops Less (mi_min_heap mi)) (\<lambda>j. index (mi_min_heap mi) j)
      | Backward \<Rightarrow> rbind (heap_root ops Greater (mi_max_heap mi)) (\<lambda>j. index (mi_max_heap mi) j))"

definition mi_key :: "'it iterator_ops \<Rightarrow> 'it merge_iterator \<Rightarrow> bytes res" where
  "mi_key ops mi = rbind (rassert (mi_is_valid mi)) (\<lambda>_. rbind (mi_root ops mi) (it_key ops))"

definition mi_value :: "'it iterator_ops \<Rightarrow> 'it merge_iterator \<Rightarrow> bytes res" where
  "mi_value ops mi = rbind (rassert (mi_is_valid mi)) (\<lambda>_. rbind (mi_root ops mi) (it_value ops))"

text \<open>\<open>drain_filter(|iter| iter.is_valid())\<close>: the valid iterators and the others.\<close>

fun split_valid :: "'it iterator_ops \<Rightarrow> 'it list \<Rightarrow> ('it list \<times> 'it list) res" where
  "split_valid ops [] = Ok ([], [])"
| "split_valid ops (it # its) =
     rbind (it_is_valid ops it) (\<lambda>valid.
     rbind (split_valid ops its) (\<lambda>(vs, ns). Ok (if valid then (it # vs, ns) else (vs, it # ns))))"

definition mi_drain :: "'it merge_iterator \<Rightarrow> 'it merge_iterator" where
  "mi_drain mi =
     mi\<lparr>mi_iters := mi_iters mi @ mi_min_heap mi @ mi_max_heap mi, mi_min_heap := [], mi_max_heap := []\<rparr>"

definition may_rebuild_heap :: "'it iterator_ops \<Rightarrow> direction \<Rightarrow> 'it merge_iterator \<Rightarrow> 'it merge_iterator res" where
  "may_rebuild_heap ops dir mi =
     (if mi_direction mi = dir then Ok mi
      else
        rbind (mi_key ops mi) (\<lambda>key.
        let mi = mi_drain (mi\<lparr>mi_direction := dir\<rparr>);
            sk = (case dir of Forward \<Rightarrow> RandomForward key | Backward \<Rightarrow> RandomBackward key) in
        rbind (rmap_list (\<lambda>it. rbind (it_seek ops sk it) (\<lambda>(_, it). Ok it)) (mi_iters mi)) (\<lambda>its.
        rbind (split_valid ops its) (\<lambda>(vs, ns).
          Ok (case dir of
                Forward \<Rightarrow> mi\<lparr>mi_iters := ns, mi_min_heap := vs\<rparr>
              | Backward \<Rightarrow> mi\<lparr>mi_iters := ns, mi_max_heap := vs\<rparr>)))))"

text \<open>Stepping the root of a heap: an iterator that became invalid leaves the heap.\<close>

definition heap_step ::
  "'it iterator_ops \<Rightarrow> ordering \<Rightarrow> ('it \<Rightarrow> 'it res) \<Rightarrow> 'it list \<Rightarrow> ('it list \<times> 'it list) res" where
  "heap_step ops c step heap =
     rbind (heap_root ops c heap) (\<lambda>j.
     rbind (index heap j) (\<lambda>it.
     rbind (step it) (\<lambda>it.
     rbind (it_is_valid ops it) (\<lambda>valid.
       Ok (if valid then (heap[j := it], []) else (take j heap @ drop (Suc j) heap, [it]))))))"

definition mi_next_inner :: "'it iterator_ops \<Rightarrow> 'it merge_iterator \<Rightarrow> 'it merge_iterator res" where
  "mi_next_inner ops mi =
     rbind (may_rebuild_heap ops Forward mi) (\<lambda>mi.
     rbind (heap_step ops Less (it_next ops) (mi_min_heap mi)) (\<lambda>(heap, out).
       Ok (mi\<lparr>mi_min_heap := heap, mi_iters := mi_iters mi @ out\<rparr>)))"

definition mi_prev_inner :: "'it iterator_ops \<Rightarrow> 'it merge_iterator \<Rightarrow> 'it merge_iterator res" where
  "mi_prev_inner ops mi =
     rbind (may_rebuild_heap ops Backward mi) (\<lambda>mi.
     rbind (heap_step ops Greater (it_prev ops) (mi_max_heap mi)) (\<lambda>(heap, out).
       Ok (mi\<lparr>mi_max_heap := heap, mi_iters := mi_iters mi @ out\<rparr>)))"

definition mi_next :: "'it iterator_ops \<Rightarrow> 'it merge_iterator \<Rightarrow> 'it merge_iterator res" where
  "mi_next ops mi = rbind (rassert (mi_is_valid mi)) (\<lambda>_. mi_next_inner ops mi)"

definition mi_prev :: "'it iterator_ops \<Rightarrow> 'it merge_iterator \<Rightarrow> 'it merge_iterator res" where
  "mi_prev ops mi = rbind (rassert (mi_is_valid mi)) (\<lambda>_. mi_prev_inner ops mi)"

text \<open>The loops of \<open>seek\<close> pop from the back of the list; a random seek drops the iterators it leaves
  invalid. Pushing on a heap that is not empty compares the new iterator with others of the heap, so an
  iterator without a key, new or pushed first, makes the push panic.\<close>

definition heap_push :: "'it iterator_ops \<Rightarrow> ordering \<Rightarrow> 'it list \<Rightarrow> 'it \<Rightarrow> 'it list res" where
  "heap_push ops c heap it = rbind (heap_root ops c (heap @ [it])) (\<lambda>_. Ok (heap @ [it]))"

fun seek_push :: "'it iterator_ops \<Rightarrow> ordering \<Rightarrow> seek \<Rightarrow> bool \<Rightarrow> 'it list \<Rightarrow> 'it list \<Rightarrow> 'it list res" where
  "seek_push ops c sk only_valid [] heap = Ok heap"
| "seek_push ops c sk only_valid (it # its) heap =
     rbind (it_seek ops sk it) (\<lambda>(_, it).
     rbind (if only_valid then it_is_valid ops it else Ok True) (\<lambda>keep.
     rbind (if keep then heap_push ops c heap it else Ok heap) (\<lambda>heap.
       seek_push ops c sk only_valid its heap)))"

fun mi_seek :: "'it iterator_ops \<Rightarrow> seek \<Rightarrow> 'it merge_iterator \<Rightarrow> (bool \<times> 'it merge_iterator) res" where
  "mi_seek ops First mi =
     (let mi = mi_drain (mi\<lparr>mi_direction := Forward\<rparr>) in
      rbind (seek_push ops Less First False (rev (mi_iters mi)) []) (\<lambda>heap.
      let mi = mi\<lparr>mi_iters := [], mi_min_heap := heap\<rparr> in Ok (mi_is_valid mi, mi)))"
| "mi_seek ops Last mi =
     (let mi = mi_drain (mi\<lparr>mi_direction := Backward\<rparr>) in
      rbind (seek_push ops Greater Last False (rev (mi_iters mi)) []) (\<lambda>heap.
      let mi = mi\<lparr>mi_iters := [], mi_max_heap := heap\<rparr> in Ok (mi_is_valid mi, mi)))"
| "mi_seek ops (RandomForward key) mi =
     (let mi = mi_drain (mi\<lparr>mi_direction := Forward\<rparr>) in
      rbind (seek_push ops Less (RandomForward key) True (rev (mi_iters mi)) []) (\<lambda>heap.
      found_at (\<lambda>mi. Ok (mi_is_valid mi)) (mi_key ops) key (mi\<lparr>mi_iters := [], mi_min_heap := heap\<rparr>)))"
| "mi_seek ops (RandomBackward key) mi =
     (let mi = mi_drain (mi\<lparr>mi_direction := Backward\<rparr>) in
      rbind (seek_push ops Greater (RandomBackward key) True (rev (mi_iters mi)) []) (\<lambda>heap.
      found_at (\<lambda>mi. Ok (mi_is_valid mi)) (mi_key ops) key (mi\<lparr>mi_iters := [], mi_max_heap := heap\<rparr>)))"

definition merge_iterator_ops :: "'it iterator_ops \<Rightarrow> 'it merge_iterator iterator_ops" where
  "merge_iterator_ops ops =
     \<lparr>it_next = mi_next ops, it_prev = mi_prev ops, it_key = mi_key ops, it_value = mi_value ops,
      it_is_valid = (\<lambda>mi. Ok (mi_is_valid mi)), it_seek = mi_seek ops\<rparr>"

section \<open>Merging\<close>

definition merged :: "kvs list \<Rightarrow> kvs \<Rightarrow> bool" where
  "merged xss ms \<longleftrightarrow> key_sorted ms \<and> mset ms = mset (concat xss)"

lemma merged_sorted: "merged xss ms \<Longrightarrow> j < length xss \<Longrightarrow> e \<in> set (xss ! j) \<Longrightarrow> e \<in> set ms"
  unfolding merged_def by (metis UN_I nth_mem set_concat set_mset_mset)

lemma merged_root:
  assumes m: "merged xss ms" and j: "j < length xss" "xss ! j = e # xs"
    and least: "\<forall>i < length xss. \<forall>f \<in> set (xss ! i). key_ord (fst e) \<le> key_ord (fst f)"
  shows "\<exists>ms'. ms = e # ms' \<and> merged (xss[j := xs]) ms'"
proof -
  have e: "e \<in> set ms" using merged_sorted[OF m j(1), of e] j(2) by simp
  then obtain m0 ms' where ms: "ms = m0 # ms'" by (cases ms) auto
  have sorted: "key_sorted ms" using m by (simp add: merged_def)
  have "m0 \<in> set (concat xss)" using m ms unfolding merged_def by (metis list.set_intros(1) set_mset_mset)
  then obtain i where i: "i < length xss" "m0 \<in> set (xss ! i)" by (metis UN_E in_set_conv_nth set_concat)
  have "m0 = e"
  proof (rule ccontr)
    assume "m0 \<noteq> e"
    then have "e \<in> set ms'" using e ms by auto
    then have "key_ord (fst m0) < key_ord (fst e)" using sorted ms by (auto simp: key_sorted_def)
    then show False using least i by force
  qed
  have "mset (concat xss) = add_mset e (mset (concat (xss[j := xs])))"
    using j by (subst (1) id_take_nth_drop[OF j(1)]) (simp add: upd_conv_take_nth_drop)
  then have "mset ms' = mset (concat (xss[j := xs]))" using m ms \<open>m0 = e\<close> unfolding merged_def by simp
  moreover have "key_sorted ms'" using sorted ms by (auto simp: key_sorted_def)
  ultimately show ?thesis using ms \<open>m0 = e\<close> by (auto simp: merged_def)
qed

lemma merged_drop_empty:
  assumes "j < length xss" "xss ! j = []"
  shows "merged xss ms \<longleftrightarrow> merged (take j xss @ drop (Suc j) xss) ms"
proof -
  have "mset (concat xss) = mset (concat (take j xss @ drop (Suc j) xss))"
    by (subst (1) id_take_nth_drop[OF assms(1)]) (simp add: assms(2))
  then show ?thesis by (simp add: merged_def)
qed

lemma drop_lower_filter:
  assumes "key_sorted es"
  shows "drop (lower es k) es = filter (\<lambda>e. \<not> key_ord (fst e) < key_ord k) es"
proof -
  have "drop (lower es k) es = dropWhile (\<lambda>e. key_ord (fst e) < key_ord k) es"
    by (simp add: lower_def dropWhile_eq_drop)
  also have "\<dots> = filter (\<lambda>e. \<not> key_ord (fst e) < key_ord k) es"
    using assms
  proof (induction es)
    case (Cons e es)
    then have s: "key_sorted es" "\<forall>f \<in> set es. key_ord (fst e) < key_ord (fst f)" by (auto simp: key_sorted_def)
    show ?case
    proof (cases "key_ord (fst e) < key_ord k")
      case False
      then have "\<forall>f \<in> set es. \<not> key_ord (fst f) < key_ord k" using s(2) by force
      then show ?thesis using False by simp
    qed (use Cons.IH[OF s(1)] in simp)
  qed simp
  finally show ?thesis .
qed

lemma merged_rev: "merged (rev xss) ms = merged xss ms"
proof -
  have "mset (concat (rev xss)) = mset (concat xss)" by (induction xss) auto
  then show ?thesis by (simp add: merged_def)
qed

lemma merged_filter: "merged xss ms \<Longrightarrow> merged (map (filter P) xss) (filter P ms)"
proof -
  assume m: "merged xss ms"
  have "mset (concat (map (filter P) xss)) = filter_mset P (mset (concat xss))" by (simp add: filter_concat flip: mset_filter)
  moreover have "key_sorted (filter P ms)" using m by (auto simp: merged_def key_sorted_def sorted_wrt_filter)
  ultimately show ?thesis using m by (simp add: merged_def)
qed

section \<open>The merge of cursors\<close>

definition mi_ahead :: "('it \<Rightarrow> kvs \<Rightarrow> bool) \<Rightarrow> 'it merge_iterator \<Rightarrow> kvs \<Rightarrow> bool" where
  "mi_ahead ahead mi ms \<longleftrightarrow> mi_direction mi = Forward \<and>
     (\<exists>xss. list_all2 ahead (mi_min_heap mi) xss \<and> (\<forall>xs \<in> set xss. xs \<noteq> []) \<and> merged xss ms)"

definition mi_over :: "('it \<Rightarrow> kvs \<Rightarrow> bool) \<Rightarrow> 'it merge_iterator \<Rightarrow> kvs \<Rightarrow> bool" where
  "mi_over over mi es \<longleftrightarrow>
     (\<exists>ess. list_all2 over (mi_iters mi @ mi_min_heap mi @ mi_max_heap mi) ess \<and> merged ess es)"

context forward_iterator
begin

lemma head_key: "ahead it (e # xs) \<Longrightarrow> it_key ops it = Ok (fst e) \<and> 8 \<le> length (fst e)"
  using ahead_key ahead_sorted by (auto simp: key_sorted_def)

lemma heap_root_from_least:
  assumes "list_all2 ahead its xss" "\<forall>xs \<in> set xss. xs \<noteq> []" "8 \<le> length bk"
  shows "\<exists>j. heap_root_from ops Less b bk i its = Ok j \<and>
    (j = b \<and> (\<forall>xs \<in> set xss. key_ord bk \<le> key_ord (fst (hd xs))) \<or>
     (i \<le> j \<and> j < i + length xss \<and> key_ord (fst (hd (xss ! (j - i)))) \<le> key_ord bk \<and>
      (\<forall>xs \<in> set xss. key_ord (fst (hd (xss ! (j - i)))) \<le> key_ord (fst (hd xs)))))"
  using assms
proof (induction its arbitrary: xss b bk i)
  case (Cons it its)
  obtain e ys xss' where x: "xss = (e # ys) # xss'" "ahead it (e # ys)" "list_all2 ahead its xss'" "\<forall>xs \<in> set xss'. xs \<noteq> []"
    using Cons.prems(1,2) by (cases xss) (auto simp: neq_Nil_conv list_all2_Cons1)
  note k = head_key[OF x(2)]
  show ?case
  proof (cases "key_ord (fst e) < key_ord bk")
    case True
    then have step: "heap_root_from ops Less b bk i (it # its) = heap_root_from ops Less i (fst e) (Suc i) its"
      using k Cons.prems(3) by (simp add: compare_full_key_cmp)
    obtain j where j: "heap_root_from ops Less i (fst e) (Suc i) its = Ok j"
      "j = i \<and> (\<forall>xs \<in> set xss'. key_ord (fst e) \<le> key_ord (fst (hd xs))) \<or>
       (Suc i \<le> j \<and> j < Suc i + length xss' \<and> key_ord (fst (hd (xss' ! (j - Suc i)))) \<le> key_ord (fst e) \<and>
        (\<forall>xs \<in> set xss'. key_ord (fst (hd (xss' ! (j - Suc i)))) \<le> key_ord (fst (hd xs))))"
      using Cons.IH[OF x(3,4)] k by blast
    from j(2) show ?thesis
    proof
      assume "j = i \<and> (\<forall>xs \<in> set xss'. key_ord (fst e) \<le> key_ord (fst (hd xs)))"
      then show ?thesis using True step j(1) x(1) by (intro exI[of _ j]) auto
    next
      assume a: "Suc i \<le> j \<and> j < Suc i + length xss' \<and> key_ord (fst (hd (xss' ! (j - Suc i)))) \<le> key_ord (fst e) \<and>
        (\<forall>xs \<in> set xss'. key_ord (fst (hd (xss' ! (j - Suc i)))) \<le> key_ord (fst (hd xs)))"
      then have "xss ! (j - i) = xss' ! (j - Suc i)" using x(1) by (simp add: nth_Cons' Suc_diff_le)
      then show ?thesis using True step j(1) x(1) a by (intro exI[of _ j]) auto
    qed
  next
    case False
    then have step: "heap_root_from ops Less b bk i (it # its) = heap_root_from ops Less b bk (Suc i) its"
      using k Cons.prems(3) by (simp add: compare_full_key_cmp)
    obtain j where j: "heap_root_from ops Less b bk (Suc i) its = Ok j"
      "j = b \<and> (\<forall>xs \<in> set xss'. key_ord bk \<le> key_ord (fst (hd xs))) \<or>
       (Suc i \<le> j \<and> j < Suc i + length xss' \<and> key_ord (fst (hd (xss' ! (j - Suc i)))) \<le> key_ord bk \<and>
        (\<forall>xs \<in> set xss'. key_ord (fst (hd (xss' ! (j - Suc i)))) \<le> key_ord (fst (hd xs))))"
      using Cons.IH[OF x(3,4) Cons.prems(3)] by blast
    from j(2) show ?thesis
    proof
      assume "j = b \<and> (\<forall>xs \<in> set xss'. key_ord bk \<le> key_ord (fst (hd xs)))"
      then show ?thesis using False step j(1) x(1) by (intro exI[of _ j]) auto
    next
      assume a: "Suc i \<le> j \<and> j < Suc i + length xss' \<and> key_ord (fst (hd (xss' ! (j - Suc i)))) \<le> key_ord bk \<and>
        (\<forall>xs \<in> set xss'. key_ord (fst (hd (xss' ! (j - Suc i)))) \<le> key_ord (fst (hd xs)))"
      then have "xss ! (j - i) = xss' ! (j - Suc i)" using x(1) by (simp add: nth_Cons' Suc_diff_le)
      then show ?thesis using False step j(1) x(1) a by (intro exI[of _ j]) auto
    qed
  qed
qed simp

lemma heap_root_least:
  assumes "list_all2 ahead its xss" "\<forall>xs \<in> set xss. xs \<noteq> []" "its \<noteq> []"
  shows "\<exists>j. heap_root ops Less its = Ok j \<and> j < length xss \<and>
    (\<forall>xs \<in> set xss. key_ord (fst (hd (xss ! j))) \<le> key_ord (fst (hd xs)))"
proof -
  obtain it its' e ys xss' where x: "its = it # its'" "xss = (e # ys) # xss'" "ahead it (e # ys)"
    "list_all2 ahead its' xss'" "\<forall>xs \<in> set xss'. xs \<noteq> []"
    using assms by (cases its; cases xss) (auto simp: neq_Nil_conv)
  show ?thesis
  proof (cases its')
    case Nil
    then show ?thesis using x by simp
  next
    case (Cons it2 its2)
    note k = head_key[OF x(3)]
    from heap_root_from_least[OF x(4,5), of "fst e" 0 1] k obtain j where
      "heap_root_from ops Less 0 (fst e) 1 its' = Ok j"
      "j = 0 \<and> (\<forall>xs \<in> set xss'. key_ord (fst e) \<le> key_ord (fst (hd xs))) \<or>
       (1 \<le> j \<and> j < 1 + length xss' \<and> key_ord (fst (hd (xss' ! (j - 1)))) \<le> key_ord (fst e) \<and>
        (\<forall>xs \<in> set xss'. key_ord (fst (hd (xss' ! (j - 1)))) \<le> key_ord (fst (hd xs))))" by blast
    then show ?thesis using x(1,2) k Cons by (intro exI[of _ j]) (auto simp: nth_Cons')
  qed
qed

lemma merge_root:
  assumes "mi_ahead ahead mi (e # ms)"
  shows "\<exists>xss j xs. list_all2 ahead (mi_min_heap mi) xss \<and> (\<forall>xs \<in> set xss. xs \<noteq> []) \<and>
    heap_root ops Less (mi_min_heap mi) = Ok j \<and> j < length xss \<and> xss ! j = e # xs \<and> merged (xss[j := xs]) ms"
proof -
  obtain xss where x: "list_all2 ahead (mi_min_heap mi) xss" "\<forall>xs \<in> set xss. xs \<noteq> []" "merged xss (e # ms)"
    using assms by (auto simp: mi_ahead_def)
  have "mi_min_heap mi \<noteq> []" using x by (auto simp: merged_def)
  from heap_root_least[OF x(1,2) this] obtain j where j: "heap_root ops Less (mi_min_heap mi) = Ok j" "j < length xss"
    "\<forall>xs \<in> set xss. key_ord (fst (hd (xss ! j))) \<le> key_ord (fst (hd xs))" by blast
  obtain f xs where f: "xss ! j = f # xs" using x(2) j(2) by (metis neq_Nil_conv nth_mem)
  have "key_ord (fst f) \<le> key_ord (fst g)" if i: "i < length xss" "g \<in> set (xss ! i)" for i g
  proof -
    have "key_sorted (xss ! i)" using x(1) i(1) ahead_sorted by (auto simp: list_all2_conv_all_nth)
    then have "key_ord (fst (hd (xss ! i))) \<le> key_ord (fst g)"
      using i(2) by (cases "xss ! i") (auto simp: key_sorted_def)
    moreover have "key_ord (fst f) \<le> key_ord (fst (hd (xss ! i)))" using j(3) i(1) f by (metis list.sel(1) nth_mem)
    ultimately show ?thesis by simp
  qed
  then obtain ms' where "e # ms = f # ms'" "merged (xss[j := xs]) ms'" using merged_root[OF x(3) j(2) f] by blast
  with x j f show ?thesis by auto
qed

lemma seek_push_all:
  assumes "list_all2 (\<lambda>it xs. \<exists>f it'. it_seek ops sk it = Ok (f, it') \<and> ahead it' xs) its xss"
    and "\<not> only_valid \<Longrightarrow> \<forall>xs \<in> set xss. xs \<noteq> []" "list_all2 ahead heap yss" "\<forall>ys \<in> set yss. ys \<noteq> []"
  shows "\<exists>heap'. seek_push ops Less sk only_valid its heap = Ok heap' \<and>
    list_all2 ahead heap' (yss @ filter (\<lambda>xs. xs \<noteq> []) xss)"
  using assms
proof (induction its arbitrary: xss heap yss)
  case (Cons it its)
  obtain xs xss' f it' where x: "xss = xs # xss'" "it_seek ops sk it = Ok (f, it')" "ahead it' xs"
    "list_all2 (\<lambda>it xs. \<exists>f it'. it_seek ops sk it = Ok (f, it') \<and> ahead it' xs) its xss'"
    using Cons.prems(1) by (cases xss) auto
  have keep: "(if only_valid then it_is_valid ops it' else Ok True) = Ok (xs \<noteq> [])"
    using ahead_valid[OF x(3)] Cons.prems(2) x(1) by (cases only_valid) auto
  have "\<not> only_valid \<Longrightarrow> \<forall>xs \<in> set xss'. xs \<noteq> []" using Cons.prems(2) x(1) by simp
  note IH = Cons.IH[OF x(4) this, of "if xs \<noteq> [] then heap @ [it'] else heap" "if xs \<noteq> [] then yss @ [xs] else yss"]
  have push: "heap_push ops Less heap it' = Ok (heap @ [it'])" if "xs \<noteq> []"
  proof -
    have "list_all2 ahead (heap @ [it']) (yss @ [xs])" using x(3) Cons.prems(3) by (auto intro: list_all2_appendI)
    from heap_root_least[OF this] that Cons.prems(4) show ?thesis by (auto simp: heap_push_def)
  qed
  show ?case using IH Cons.prems(3,4) x keep push by (cases "xs = []") (auto intro: list_all2_appendI)
qed auto

lemma merged_nonempty: "merged (filter (\<lambda>xs. xs \<noteq> []) xss) ms = merged xss ms"
proof -
  have "concat (filter (\<lambda>xs. xs \<noteq> []) xss) = concat xss" by (induction xss) auto
  then show ?thesis by (simp add: merged_def)
qed

lemma seek_forward_merged:
  assumes over: "mi_over over mi es" and ok: "\<And>it es. over it es \<Longrightarrow> \<exists>f it'. it_seek ops sk it = Ok (f, it') \<and> ahead it' (filter P es)"
    and ne: "\<And>it es. \<not> only_valid \<Longrightarrow> over it es \<Longrightarrow> filter P es \<noteq> []"
  shows "\<exists>heap. seek_push ops Less sk only_valid (rev (mi_iters mi @ mi_min_heap mi @ mi_max_heap mi)) [] = Ok heap \<and>
    mi_ahead ahead (mi_drain (mi\<lparr>mi_direction := Forward\<rparr>)\<lparr>mi_iters := [], mi_min_heap := heap\<rparr>) (filter P es)"
proof -
  let ?its = "mi_iters mi @ mi_min_heap mi @ mi_max_heap mi"
  obtain ess where e: "list_all2 over ?its ess" "merged ess es" using over by (auto simp: mi_over_def)
  have a: "list_all2 (\<lambda>it xs. \<exists>f it'. it_seek ops sk it = Ok (f, it') \<and> ahead it' xs) ?its (map (filter P) ess)"
    using e(1) ok by (auto simp: list_all2_map2 elim!: list_all2_mono)
  have nemp: "\<forall>xs \<in> set (rev (map (filter P) ess)). xs \<noteq> []" if "\<not> only_valid"
  proof -
    have "list_all2 (\<lambda>it es. filter P es \<noteq> []) ?its ess" using e(1) ne[OF that] by (auto elim!: list_all2_mono)
    then show ?thesis by (auto simp: list_all2_conv_all_nth in_set_conv_nth)
  qed
  have "list_all2 (\<lambda>it xs. \<exists>f it'. it_seek ops sk it = Ok (f, it') \<and> ahead it' xs) (rev ?its) (rev (map (filter P) ess))"
    using a by (simp only: list_all2_rev)
  from seek_push_all[OF this nemp, of only_valid "[]" "[]"] obtain heap where
    heap: "seek_push ops Less sk only_valid (rev ?its) [] = Ok heap"
    "list_all2 ahead heap (filter (\<lambda>xs. xs \<noteq> []) (rev (map (filter P) ess)))" by auto
  have "merged (map (filter P) ess) (filter P es)" by (rule merged_filter[OF e(2)])
  then have "merged (rev (map (filter P) ess)) (filter P es)" by (simp only: merged_rev)
  then have "merged (filter (\<lambda>xs. xs \<noteq> []) (rev (map (filter P) ess))) (filter P es)" by (simp only: merged_nonempty)
  moreover have "\<forall>xs \<in> set (filter (\<lambda>xs. xs \<noteq> []) (rev (map (filter P) ess))). xs \<noteq> []" by simp
  ultimately have "\<exists>xss. list_all2 ahead heap xss \<and> (\<forall>xs \<in> set xss. xs \<noteq> []) \<and> merged xss (filter P es)"
    using heap(2) by blast
  then have "mi_ahead ahead (mi_drain (mi\<lparr>mi_direction := Forward\<rparr>)\<lparr>mi_iters := [], mi_min_heap := heap\<rparr>) (filter P es)"
    by (simp add: mi_ahead_def mi_drain_def)
  then show ?thesis using heap(1) by blast
qed

end

sublocale kv_iterator \<subseteq> merge: forward_iterator "merge_iterator_ops ops" "mi_ahead (ahead_of cursor)" "mi_over over"
proof
  fix mi es
  show "mi_over over mi es \<Longrightarrow> key_sorted es" by (auto simp: mi_over_def merged_def)
next
  fix mi xs
  assume a: "mi_ahead (ahead_of cursor) mi xs"
  then show "key_sorted xs" by (auto simp: mi_ahead_def merged_def)
  obtain xss where x: "mi_direction mi = Forward" "list_all2 (ahead_of cursor) (mi_min_heap mi) xss" "\<forall>xs \<in> set xss. xs \<noteq> []" "merged xss xs"
    using a by (auto simp: mi_ahead_def)
  have "xs = [] \<longleftrightarrow> xss = []"
  proof -
    have "xs = [] \<longleftrightarrow> concat xss = []" using x(4) unfolding merged_def by (metis mset_zero_iff)
    then show ?thesis using x(3) by (cases xss) auto
  qed
  then show "it_is_valid (merge_iterator_ops ops) mi = Ok (xs \<noteq> [])"
    using x(1,2) by (auto simp: merge_iterator_ops_def mi_is_valid_def)
next
  fix mi e xs
  assume a: "mi_ahead (ahead_of cursor) mi (e # xs)"
  then have fw: "mi_direction mi = Forward" by (simp add: mi_ahead_def)
  obtain xss j ys where r: "list_all2 (ahead_of cursor) (mi_min_heap mi) xss" "\<forall>xs \<in> set xss. xs \<noteq> []"
    "heap_root ops Less (mi_min_heap mi) = Ok j" "j < length xss" "xss ! j = e # ys" "merged (xss[j := ys]) xs"
    using fwd.merge_root[OF a] by blast
  let ?it = "mi_min_heap mi ! j"
  have len: "length (mi_min_heap mi) = length xss" using r(1) by (rule list_all2_lengthD)
  have it: "ahead_of cursor ?it (e # ys)" using r(1,4,5) by (auto simp: list_all2_conv_all_nth)
  have valid: "mi_is_valid mi" using fw r(4) len by (auto simp: mi_is_valid_def)
  show "it_key (merge_iterator_ops ops) mi = Ok (fst e)" "it_value (merge_iterator_ops ops) mi = Ok (snd e)"
    using fw valid r(3,4) len fwd.ahead_key[OF it] fwd.ahead_value[OF it]
    by (simp_all add: merge_iterator_ops_def mi_key_def mi_value_def mi_root_def)
  obtain it' where it': "it_next ops ?it = Ok it'" "ahead_of cursor it' ys" using fwd.ahead_next[OF it] by blast
  define heap where "heap = (if ys \<noteq> [] then (mi_min_heap mi)[j := it'] else take j (mi_min_heap mi) @ drop (Suc j) (mi_min_heap mi))"
  define yss where "yss = (if ys \<noteq> [] then xss[j := ys] else take j xss @ drop (Suc j) xss)"
  let ?mi = "mi\<lparr>mi_min_heap := heap, mi_iters := mi_iters mi @ (if ys \<noteq> [] then [] else [it'])\<rparr>"
  have step: "it_next (merge_iterator_ops ops) mi = Ok ?mi"
    using fw valid r(3,4) len it'(1) fwd.ahead_valid[OF it'(2)]
    by (simp add: merge_iterator_ops_def mi_next_def mi_next_inner_def may_rebuild_heap_def heap_step_def heap_def)
  have "list_all2 (ahead_of cursor) heap yss"
    using r(1) it'(2) by (simp add: heap_def yss_def list_all2_update_cong list_all2_appendI list_all2_takeI list_all2_dropI)
  moreover have "\<forall>xs \<in> set yss. xs \<noteq> []"
    using r(2) set_update_subset_insert[of xss j ys] by (auto simp: yss_def dest: in_set_takeD in_set_dropD)
  moreover have "merged yss xs"
    using r(6) merged_drop_empty[of j "xss[j := ys]" xs] r(4) by (cases "ys = []") (simp_all add: yss_def)
  ultimately have "mi_ahead (ahead_of cursor) ?mi xs"
    using fw unfolding mi_ahead_def by auto
  with step show "\<exists>mi'. it_next (merge_iterator_ops ops) mi = Ok mi' \<and> mi_ahead (ahead_of cursor) mi' xs" by blast
next
  fix mi es
  assume "mi_over over mi es"
  from fwd.seek_forward_merged[OF this, of First "\<lambda>_. True" False] fwd.over_first over_entries
  show "\<exists>found mi'. it_seek (merge_iterator_ops ops) First mi = Ok (found, mi') \<and> mi_ahead (ahead_of cursor) mi' es"
    by (auto simp: merge_iterator_ops_def mi_drain_def Let_def)
next
  fix mi es and k :: bytes
  assume o: "mi_over over mi es" and k: "8 \<le> length k"
  then have s: "key_sorted es" by (auto simp: mi_over_def merged_def)
  have seek: "\<exists>f it'. it_seek ops (RandomForward k) it = Ok (f, it') \<and>
      ahead_of cursor it' (filter (\<lambda>e. \<not> key_ord (fst e) < key_ord k) es)" if "over it es" for it es
    using fwd.over_forward[OF that k] drop_lower_filter[OF fwd.over_sorted[OF that], of k] by simp
  from fwd.seek_forward_merged[OF o seek, of True] obtain heap where
    heap: "seek_push ops Less (RandomForward k) True (rev (mi_iters mi @ mi_min_heap mi @ mi_max_heap mi)) [] = Ok heap"
    "mi_ahead (ahead_of cursor) (mi_drain (mi\<lparr>mi_direction := Forward\<rparr>)\<lparr>mi_iters := [], mi_min_heap := heap\<rparr>)
       (drop (lower es k) es)" using drop_lower_filter[OF s] by auto
  let ?mi = "mi_drain (mi\<lparr>mi_direction := Forward\<rparr>)\<lparr>mi_iters := [], mi_min_heap := heap\<rparr>"
  have "\<exists>f. found_at (\<lambda>mi. Ok (mi_is_valid mi)) (mi_key ops) k ?mi = Ok (f, ?mi)"
  proof (cases "mi_is_valid ?mi")
    case True
    obtain xss where "list_all2 (ahead_of cursor) heap xss" "\<forall>xs \<in> set xss. xs \<noteq> []" using heap(2) by (auto simp: mi_ahead_def)
    moreover have "heap \<noteq> []" using True by (simp add: mi_is_valid_def mi_drain_def)
    ultimately obtain j where j: "heap_root ops Less heap = Ok j" "j < length xss" "ahead_of cursor (heap ! j) (xss ! j)"
      "xss ! j \<noteq> []" "length heap = length xss"
      using fwd.heap_root_least by (metis list_all2_conv_all_nth nth_mem)
    obtain e ys where "xss ! j = e # ys" using j(4) by (auto simp: neq_Nil_conv)
    then have "it_key ops (heap ! j) = Ok (fst e)" using fwd.ahead_key j(3) by metis
    then show ?thesis using True j(1,2,5) by (simp add: found_at_def mi_key_def mi_root_def mi_drain_def)
  qed (auto simp: found_at_def)
  with heap show "\<exists>found mi'. it_seek (merge_iterator_ops ops) (RandomForward k) mi = Ok (found, mi') \<and>
      mi_ahead (ahead_of cursor) mi' (drop (lower es k) es)"
    by (auto simp: merge_iterator_ops_def mi_drain_def Let_def)
qed

section \<open>Properties\<close>

lemma stored_tables_merge:
  assumes run: "ss_inv mo_objects decompress crc32 tabs st"
    and tabs: "\<forall>i \<in> set ids. \<exists>r. tabs i = Some (r, bss i, m i) \<and> segments (bss i) \<and> length (concat (bss i)) < 2 ^ 64"
    and es: "merged (map (\<lambda>i. concat (bss i)) ids) es"
  shows "mi_over (si_over mo_objects decompress crc32)
    (mi_new (map (\<lambda>i. si_new st \<lparr>sst_id = i, sst_meta = m i\<rparr> policy) ids)) es"
proof -
  have "list_all2 (si_over mo_objects decompress crc32)
      (map (\<lambda>i. si_new st \<lparr>sst_id = i, sst_meta = m i\<rparr> policy) ids) (map (\<lambda>i. concat (bss i)) ids)"
    unfolding list_all2_map1 list_all2_map2
  proof (rule list.rel_refl_strong)
    fix i assume "i \<in> set ids"
    then obtain r where "tabs i = Some (r, bss i, m i)" "segments (bss i)" "length (concat (bss i)) < 2 ^ 64" using tabs by blast
    then show "si_over mo_objects decompress crc32 (si_new st \<lparr>sst_id = i, sst_meta = m i\<rparr> policy) (concat (bss i))"
      by (rule stored_table_over[OF run])
  qed
  then show ?thesis using es by (auto simp: mi_over_def mi_new_def)
qed

text \<open>C14. Merging is a sorted union: a merge of any number of stored tables without a common key, read from
  its first entry to its end, returns all entries of all tables, each once, in the order of their
  keys.\<close>

theorem merge_scans_sorted_union:
  assumes "ss_run mem_object_store_ops decompress crc32 tabs st"
    and "\<forall>i \<in> set ids. \<exists>r. tabs i = Some (r, bss i, m i) \<and> segments (bss i) \<and> length (concat (bss i)) < 2 ^ 64"
    and "key_sorted es" "mset es = mset (concat (map (\<lambda>i. concat (bss i)) ids))"
  shows "\<exists>found mi. mi_seek (sstable_iterator_ops mem_object_store_ops decompress crc32) First
      (mi_new (map (\<lambda>i. si_new st \<lparr>sst_id = i, sst_meta = m i\<rparr> policy) ids)) = Ok (found, mi) \<and>
    it_scan (merge_iterator_ops (sstable_iterator_ops mem_object_store_ops decompress crc32)) (Suc (length es)) mi = Ok es"
proof -
  have "merged (map (\<lambda>i. concat (bss i)) ids) es" using assms(3,4) by (simp add: merged_def)
  from mem_os.table_iter.merge.over_first[OF stored_tables_merge[OF mem_os.run_inv[OF assms(1)] assms(2) this]]
  show ?thesis using mem_os.table_iter.merge.scan_ahead by (fastforce simp: merge_iterator_ops_def)
qed

definition other_entries :: kvs where
  "other_entries = [(full_key [107, 49] 6, [9]), (full_key [107, 51] 1, [0])]"

definition union_entries :: kvs where
  "union_entries = [(full_key [107, 49] 9, [1]), (full_key [107, 49] 6, [9]), (full_key [107, 49] 4, [2, 3]),
     (full_key [107, 50] 7, [4]), (full_key [107, 51] 1, [0])]"

lemma other_entries_ok:
  "segments [other_entries]" "other_entries \<noteq> []" "key_sorted other_entries" "key_sorted union_entries"
  "mset union_entries = mset (example_entries @ other_entries)"
  by (simp_all add: segments_def key_sorted_def other_entries_def union_entries_def example_entries_def key_ord_full_key_less)

lemma two_tables_run:
  "\<exists>m n st. ss_run mem_object_store_ops stored_decompress (\<lambda>_. 7)
    [5 \<mapsto> (2, [example_entries], m), 6 \<mapsto> (2, [other_entries], n)] st"
proof -
  obtain m st where run: "ss_run mem_object_store_ops stored_decompress (\<lambda>_. 7) [5 \<mapsto> (2, [example_entries], m)] st"
    using example_table_run by blast
  obtain n data where t: "table_holds stored_decompress (\<lambda>_. 7) 2 [other_entries] n data" "meta_fits n"
    using single_block_table[of other_entries] other_entries_ok by (auto simp: other_entries_def)
  obtain st' where put: "ss_put mem_object_store_ops stored_decompress (\<lambda>_. 7) \<lparr>sst_id = 6, sst_meta = n\<rparr> data Disable st =
      (Ok (), st')" using mem_put_Ok by blast
  have "ss_run mem_object_store_ops stored_decompress (\<lambda>_. 7)
      ([5 \<mapsto> (2, [example_entries], m)](6 \<mapsto> (2, [other_entries], n))) st'"
    by (rule run_put[OF run _ _ t(2,1) put]) simp_all
  then show ?thesis by blast
qed

theorem merge_scans_sorted_union_witness:
  "\<exists>m n st found mi. mi_seek (sstable_iterator_ops mem_object_store_ops stored_decompress (\<lambda>_. 7)) First
      (mi_new [si_new st \<lparr>sst_id = 5, sst_meta = m\<rparr> Fill, si_new st \<lparr>sst_id = 6, sst_meta = n\<rparr> Fill]) = Ok (found, mi) \<and>
    it_scan (merge_iterator_ops (sstable_iterator_ops mem_object_store_ops stored_decompress (\<lambda>_. 7)))
      (Suc (length union_entries)) mi = Ok union_entries"
proof -
  obtain m n st where run: "ss_run mem_object_store_ops stored_decompress (\<lambda>_. 7)
      [5 \<mapsto> (2, [example_entries], m), 6 \<mapsto> (2, [other_entries], n)] st" using two_tables_run by blast
  let ?bss = "\<lambda>i :: nat. if i = 5 then [example_entries] else [other_entries]" and ?m = "\<lambda>i :: nat. if i = 5 then m else n"
  have "\<forall>i \<in> set [5, 6]. \<exists>r. [5 \<mapsto> (2, [example_entries], m), 6 \<mapsto> (2, [other_entries], n)] i = Some (r, ?bss i, ?m i) \<and>
      segments (?bss i) \<and> length (concat (?bss i)) < 2 ^ 64"
    using example_segments other_entries_ok by (simp add: other_entries_def example_entries_def)
  moreover have "mset union_entries = mset (concat (map (\<lambda>i. concat (?bss i)) [5, 6]))" using other_entries_ok by simp
  ultimately have "\<exists>found mi. mi_seek (sstable_iterator_ops mem_object_store_ops stored_decompress (\<lambda>_. 7)) First
      (mi_new (map (\<lambda>i. si_new st \<lparr>sst_id = i, sst_meta = ?m i\<rparr> Fill) [5, 6])) = Ok (found, mi) \<and>
    it_scan (merge_iterator_ops (sstable_iterator_ops mem_object_store_ops stored_decompress (\<lambda>_. 7)))
      (Suc (length union_entries)) mi = Ok union_entries"
    by (rule merge_scans_sorted_union[OF run _ other_entries_ok(4)])
  then show ?thesis by (simp del: it_scan.simps mi_seek.simps) blast
qed

end
