(* ===== verification/UserKeyIterator.thy ===== *)
theory UserKeyIterator
  imports MergeIterator
begin

text \<open>
  \<open>storage/src/lsm_tree/iterator/user_key_iterator.rs\<close>: the view of the entries at a sequence number. It
  moves over the user keys of a full-key iterator, showing for each the newest version that is not
  newer than the sequence, and passing over the keys whose newest visible version is a tombstone.

  The loops run on \<open>loop_fuel\<close>: each step moves the inner iterator by one entry.
\<close>

record 'it user_key_iterator =
  ui_iter :: 'it
  ui_sequence :: u64
  ui_key :: bytes

definition ui_new :: "'it \<Rightarrow> u64 \<Rightarrow> 'it user_key_iterator" where
  "ui_new it seqno = \<lparr>ui_iter = it, ui_sequence = seqno, ui_key = []\<rparr>"

fun ui_next_inner :: "'it iterator_ops \<Rightarrow> nat \<Rightarrow> bytes \<Rightarrow> bool \<Rightarrow> 'it user_key_iterator \<Rightarrow> (bool \<times> 'it user_key_iterator) res" where
  "ui_next_inner ops 0 key found ui = OutOfFuel"
| "ui_next_inner ops (Suc fuel) key found ui =
     rbind (it_is_valid ops (ui_iter ui)) (\<lambda>valid.
     if \<not> valid then Ok (found, ui)
     else
       rbind (it_key ops (ui_iter ui)) (\<lambda>k.
       rbind (user_key k) (\<lambda>uk.
       rbind (sequence k) (\<lambda>ts.
       let found = (found \<or> key = uk \<and> ui_sequence ui \<ge> ts) in
       rbind (if ui_sequence ui \<ge> ts then
                rbind (rbind (it_value ops (ui_iter ui)) raw_to_value) (\<lambda>v. Ok (v = None))
              else Ok False) (\<lambda>deleted.
       let ui = (if deleted then ui\<lparr>ui_key := uk\<rparr> else ui) in
       if ui_sequence ui \<ge> ts \<and> uk \<noteq> ui_key ui then Ok (found, ui\<lparr>ui_key := uk\<rparr>)
       else
         rbind (it_next ops (ui_iter ui)) (\<lambda>it. ui_next_inner ops fuel key found (ui\<lparr>ui_iter := it\<rparr>)))))))"

fun seek_latest_visiable_current_user_key ::
  "'it iterator_ops \<Rightarrow> nat \<Rightarrow> 'it user_key_iterator \<Rightarrow> 'it user_key_iterator res" where
  "seek_latest_visiable_current_user_key ops 0 ui = OutOfFuel"
| "seek_latest_visiable_current_user_key ops (Suc fuel) ui =
     rbind (it_prev ops (ui_iter ui)) (\<lambda>it.
     rbind (it_is_valid ops it) (\<lambda>valid.
     if \<not> valid then
       rbind (it_seek ops First it) (\<lambda>(_, it). Ok (ui\<lparr>ui_iter := it\<rparr>))
     else
       rbind (it_key ops it) (\<lambda>k.
       rbind (user_key k) (\<lambda>uk.
       rbind (sequence k) (\<lambda>ts.
       if ui_key ui \<noteq> uk \<or> ui_sequence ui < ts then
         rbind (it_next ops it) (\<lambda>it. Ok (ui\<lparr>ui_iter := it\<rparr>))
       else seek_latest_visiable_current_user_key ops fuel (ui\<lparr>ui_iter := it\<rparr>))))))"

text \<open>\<open>prev_inner\<close> calls itself when the key it reached is deleted; the recursive call starts with
  \<open>found = false\<close>.\<close>

fun ui_prev_inner :: "'it iterator_ops \<Rightarrow> nat \<Rightarrow> bytes \<Rightarrow> bool \<Rightarrow> 'it user_key_iterator \<Rightarrow> (bool \<times> 'it user_key_iterator) res" where
  "ui_prev_inner ops 0 key found ui = OutOfFuel"
| "ui_prev_inner ops (Suc fuel) key found ui =
     rbind (it_is_valid ops (ui_iter ui)) (\<lambda>valid.
     if \<not> valid then Ok (found, ui)
     else
       rbind (it_key ops (ui_iter ui)) (\<lambda>k.
       rbind (user_key k) (\<lambda>uk.
       rbind (sequence k) (\<lambda>ts.
       let found = (found \<or> key = uk \<and> ui_sequence ui \<ge> ts) in
       if ui_sequence ui \<ge> ts \<and> uk \<noteq> ui_key ui then
         rbind (seek_latest_visiable_current_user_key ops loop_fuel (ui\<lparr>ui_key := uk\<rparr>)) (\<lambda>ui.
         rbind (rbind (it_value ops (ui_iter ui)) raw_to_value) (\<lambda>v.
           case v of Some _ \<Rightarrow> Ok (found, ui) | None \<Rightarrow> ui_prev_inner ops fuel key False ui))
       else
         rbind (it_prev ops (ui_iter ui)) (\<lambda>it. ui_prev_inner ops fuel key found (ui\<lparr>ui_iter := it\<rparr>))))))"

definition ui_is_valid :: "'it iterator_ops \<Rightarrow> 'it user_key_iterator \<Rightarrow> bool res" where
  "ui_is_valid ops ui = it_is_valid ops (ui_iter ui)"

definition ui_next :: "'it iterator_ops \<Rightarrow> 'it user_key_iterator \<Rightarrow> 'it user_key_iterator res" where
  "ui_next ops ui =
     rbind (ui_is_valid ops ui) (\<lambda>valid. rbind (rassert valid) (\<lambda>_.
     rbind (ui_next_inner ops loop_fuel [] False ui) (\<lambda>(_, ui). Ok ui)))"

definition ui_prev :: "'it iterator_ops \<Rightarrow> 'it user_key_iterator \<Rightarrow> 'it user_key_iterator res" where
  "ui_prev ops ui =
     rbind (ui_is_valid ops ui) (\<lambda>valid. rbind (rassert valid) (\<lambda>_.
     rbind (ui_prev_inner ops loop_fuel [] False ui) (\<lambda>(_, ui). Ok ui)))"

definition ui_key_of :: "'it iterator_ops \<Rightarrow> 'it user_key_iterator \<Rightarrow> bytes res" where
  "ui_key_of ops ui = rbind (ui_is_valid ops ui) (\<lambda>valid. rbind (rassert valid) (\<lambda>_. Ok (ui_key ui)))"

definition ui_value :: "'it iterator_ops \<Rightarrow> 'it user_key_iterator \<Rightarrow> bytes res" where
  "ui_value ops ui =
     rbind (ui_is_valid ops ui) (\<lambda>valid. rbind (rassert valid) (\<lambda>_.
     rbind (rbind (it_value ops (ui_iter ui)) raw_to_value) unwrap))"

definition seek_inner :: "'it iterator_ops \<Rightarrow> seek \<Rightarrow> 'it user_key_iterator \<Rightarrow> 'it user_key_iterator res" where
  "seek_inner ops sk ui = rbind (it_seek ops sk (ui_iter ui)) (\<lambda>(_, it). Ok (ui\<lparr>ui_key := [], ui_iter := it\<rparr>))"

fun ui_seek :: "'it iterator_ops \<Rightarrow> seek \<Rightarrow> 'it user_key_iterator \<Rightarrow> (bool \<times> 'it user_key_iterator) res" where
  "ui_seek ops First ui =
     rbind (seek_inner ops First ui) (\<lambda>ui.
     rbind (ui_next_inner ops loop_fuel [] False ui) (\<lambda>(_, ui).
     rbind (ui_is_valid ops ui) (\<lambda>valid. Ok (valid, ui))))"
| "ui_seek ops Last ui =
     rbind (seek_inner ops Last ui) (\<lambda>ui.
     rbind (ui_prev_inner ops loop_fuel [] False ui) (\<lambda>(_, ui).
     rbind (ui_is_valid ops ui) (\<lambda>valid. Ok (valid, ui))))"
| "ui_seek ops (RandomForward key) ui =
     rbind (seek_inner ops (RandomForward (full_key key (- 1))) ui) (\<lambda>ui.
       ui_next_inner ops loop_fuel key False ui)"
| "ui_seek ops (RandomBackward key) ui =
     rbind (seek_inner ops (RandomBackward (full_key key 0)) ui) (\<lambda>ui.
       ui_prev_inner ops loop_fuel key False ui)"

definition user_key_iterator_ops :: "'it iterator_ops \<Rightarrow> 'it user_key_iterator iterator_ops" where
  "user_key_iterator_ops ops =
     \<lparr>it_next = ui_next ops, it_prev = ui_prev ops, it_key = ui_key_of ops, it_value = ui_value ops,
      it_is_valid = ui_is_valid ops, it_seek = ui_seek ops\<rparr>"

section \<open>Snapshots\<close>

text \<open>The reference: a read of \<open>k\<close> at sequence \<open>s\<close> sees the first version of \<open>k\<close> in key order whose sequence is
  not above \<open>s\<close>, which is the newest such version.\<close>

definition visible :: "u64 \<Rightarrow> bytes \<Rightarrow> version_entry \<Rightarrow> bool" where
  "visible s k x \<longleftrightarrow> fst x = k \<and> fst (snd x) \<le> s"

definition read_at :: "u64 \<Rightarrow> bytes \<Rightarrow> version_entry list \<Rightarrow> bytes option option" where
  "read_at s k xs = map_option (snd \<circ> snd) (find (visible s k) xs)"

text \<open>Where \<open>next_inner\<close> stops, and whether it passes a visible version of the key.\<close>

fun advance_view :: "u64 \<Rightarrow> bytes \<Rightarrow> version_entry list \<Rightarrow> bytes \<times> version_entry list" where
  "advance_view s cur [] = (cur, [])"
| "advance_view s cur ((k, t, v) # xs) =
     (let cur = (if t \<le> s \<and> v = None then k else cur) in
      if t \<le> s \<and> k \<noteq> cur then (k, (k, t, v) # xs) else advance_view s cur xs)"

fun passes :: "u64 \<Rightarrow> bytes \<Rightarrow> bytes \<Rightarrow> version_entry list \<Rightarrow> bool" where
  "passes s key cur [] \<longleftrightarrow> False"
| "passes s key cur ((k, t, v) # xs) \<longleftrightarrow>
     key = k \<and> t \<le> s \<or>
     (let cur = (if t \<le> s \<and> v = None then k else cur) in
      \<not> (t \<le> s \<and> k \<noteq> cur) \<and> passes s key cur xs)"

abbreviation versions_sorted :: "version_entry list \<Rightarrow> bool" where
  "versions_sorted xs \<equiv> key_sorted (map entry_of xs)"

lemma entry_of_triple: "entry_of (k, t, v) = (full_key k t, raw_value v)"
  by (simp add: entry_of_def)

lemma versions_sorted_Cons:
  "versions_sorted ((k, t, v) # xs) \<longleftrightarrow> versions_sorted xs \<and> (\<forall>(k', t', v') \<in> set xs. k < k' \<or> k = k' \<and> t' < t)"
  by (auto simp: key_sorted_def entry_of_def key_ord_full_key_less)

lemma advance_length: "length (snd (advance_view s cur xs)) \<le> length xs"
  by (induction s cur xs rule: advance_view.induct) (auto simp: Let_def)

context forward_iterator
begin

lemma next_inner_ahead:
  assumes "ahead (ui_iter ui) (map entry_of xs)" "length xs < fuel"
  shows "\<exists>it'. ui_next_inner ops fuel key found ui =
      Ok (found \<or> passes (ui_sequence ui) key (ui_key ui) xs,
          ui\<lparr>ui_iter := it', ui_key := fst (advance_view (ui_sequence ui) (ui_key ui) xs)\<rparr>) \<and>
    ahead it' (map entry_of (snd (advance_view (ui_sequence ui) (ui_key ui) xs)))"
  using assms
proof (induction xs arbitrary: ui fuel found)
  case Nil
  have "ui\<lparr>ui_iter := ui_iter ui, ui_key := ui_key ui\<rparr> = ui" by simp
  then show ?case using Nil ahead_valid[OF Nil.prems(1)] by (cases fuel) (auto intro!: exI[of _ "ui_iter ui"])
next
  case (Cons x xs)
  obtain k t v where x: "x = (k, t, v)" by (cases x) auto
  obtain n where n: "fuel = Suc n" "length xs < n" using Cons.prems(2) by (cases fuel) auto
  have a: "ahead (ui_iter ui) ((full_key k t, raw_value v) # map entry_of xs)"
    using Cons.prems(1) by (simp add: x entry_of_triple)
  note op = ahead_valid[OF a] ahead_key[OF a] ahead_value[OF a]
  obtain it1 where it1: "it_next ops (ui_iter ui) = Ok it1" "ahead it1 (map entry_of xs)" using ahead_next[OF a] by blast
  define cur where "cur = (if t \<le> ui_sequence ui \<and> v = None then k else ui_key ui)"
  define ui1 where "ui1 = (if t \<le> ui_sequence ui \<and> v = None then ui\<lparr>ui_key := k\<rparr> else ui)"
  have ui1: "ui_sequence ui1 = ui_sequence ui" "ui_key ui1 = cur" "ui_iter ui1 = ui_iter ui"
    "ui1\<lparr>ui_iter := it, ui_key := c\<rparr> = ui\<lparr>ui_iter := it, ui_key := c\<rparr>" for it c by (auto simp: ui1_def cur_def)
  define f where "f = (found \<or> key = k \<and> t \<le> ui_sequence ui)"
  have step: "ui_next_inner ops fuel key found ui =
    (if t \<le> ui_sequence ui \<and> k \<noteq> cur then Ok (f, ui1\<lparr>ui_key := k\<rparr>)
     else ui_next_inner ops n key f (ui1\<lparr>ui_iter := it1\<rparr>))"
    using n op it1(1) by (simp add: f_def ui1_def cur_def Let_def)
  show ?case
  proof (cases "t \<le> ui_sequence ui \<and> k \<noteq> cur")
    case True
    have "ui1\<lparr>ui_key := k\<rparr> = ui\<lparr>ui_iter := ui_iter ui, ui_key := k\<rparr>" by (simp add: ui1_def)
    then show ?thesis using True step Cons.prems(1)
      by (auto simp: x f_def cur_def Let_def intro!: exI[of _ "ui_iter ui"])
  next
    case False
    from Cons.IH[of "ui1\<lparr>ui_iter := it1\<rparr>" n f] it1(2) n(2) ui1 obtain it' where
      "ui_next_inner ops n key f (ui1\<lparr>ui_iter := it1\<rparr>) =
        Ok (f \<or> passes (ui_sequence ui) key cur xs, ui\<lparr>ui_iter := it', ui_key := fst (advance_view (ui_sequence ui) cur xs)\<rparr>)"
      "ahead it' (map entry_of (snd (advance_view (ui_sequence ui) cur xs)))" by auto
    then show ?thesis using False step unfolding x by (auto simp: f_def cur_def Let_def)
  qed
qed

end

lemma passes_none: "\<forall>x \<in> set xs. fst x \<noteq> k \<Longrightarrow> \<not> passes s k cur xs"
  by (induction s k cur xs rule: passes.induct) (auto simp: Let_def)

lemma advance_leaves:
  assumes "versions_sorted xs" "\<forall>x \<in> set xs. k \<le> fst x" "cur = k \<or> (\<forall>x \<in> set xs. k < fst x)"
  shows "snd (advance_view s cur xs) = [] \<or> fst (advance_view s cur xs) \<noteq> k"
  using assms
proof (induction s cur xs rule: advance_view.induct)
  case (2 s cur k0 t v xs)
  define c where "c = (if t \<le> s \<and> v = None then k0 else cur)"
  have s: "versions_sorted xs" "\<forall>(k', t', v') \<in> set xs. k0 < k' \<or> k0 = k' \<and> t' < t"
    using "2.prems"(1) versions_sorted_Cons by blast+
  have le: "k0 \<le> fst x" if "x \<in> set xs" for x using s(2) that by (force simp: split_beta)
  show ?case
  proof (cases "t \<le> s \<and> k0 \<noteq> c")
    case True
    then show ?thesis using "2.prems"(3) by (auto simp: c_def Let_def split: if_splits)
  next
    case False
    have "c = k \<or> (\<forall>x \<in> set xs. k < fst x)"
    proof (cases "k0 = k")
      case True
      then show ?thesis using "2.prems"(3) by (auto simp: c_def)
    next
      case neq: False
      then have "k < k0" using "2.prems"(2) by (auto simp: order_less_le)
      then show ?thesis using le by force
    qed
    with "2.IH"[OF c_def False] s(1) "2.prems"(2)
    have "snd (advance_view s c xs) = [] \<or> fst (advance_view s c xs) \<noteq> k" by simp
    then show ?thesis using False unfolding advance_view.simps Let_def c_def[symmetric] by auto
  qed
qed simp

lemma read_from:
  assumes "versions_sorted xs" "\<forall>x \<in> set xs. k \<le> fst x" "cur \<noteq> k"
  shows "(passes s k cur xs \<longleftrightarrow> read_at s k xs \<noteq> None) \<and>
    (\<forall>b. read_at s k xs = Some (Some b) \<longrightarrow> (\<exists>t ys. advance_view s cur xs = (k, (k, t, Some b) # ys))) \<and>
    (read_at s k xs = Some None \<longrightarrow> snd (advance_view s cur xs) = [] \<or> fst (advance_view s cur xs) \<noteq> k)"
  using assms
proof (induction xs arbitrary: cur)
  case (Cons x xs)
  obtain k0 t v where x: "x = (k0, t, v)" by (cases x) auto
  have s: "versions_sorted xs" "\<forall>(k', t', v') \<in> set xs. k0 < k' \<or> k0 = k' \<and> t' < t"
    using Cons.prems(1) versions_sorted_Cons unfolding x by blast+
  have le: "k0 \<le> fst x" if "x \<in> set xs" for x using s(2) that by (force simp: split_beta)
  consider "k0 = k" "t \<le> s" "v = None" | b where "k0 = k" "t \<le> s" "v = Some b" | "k0 = k" "\<not> t \<le> s" | "k < k0"
    using Cons.prems(2) x by (cases v) (auto simp: less_le)
  then show ?case
  proof cases
    case 1
    then show ?thesis using advance_leaves[OF s(1), of k k s] le x
      by (simp add: read_at_def visible_def Let_def)
  next
    case 2
    then show ?thesis using Cons.prems(3) x by (simp add: read_at_def visible_def Let_def)
  next
    case 3
    then show ?thesis using Cons.IH[OF s(1) _ Cons.prems(3)] le x by (simp add: read_at_def visible_def Let_def)
  next
    case 4
    then have gt: "\<forall>x \<in> set xs. fst x \<noteq> k" using le by force
    then have "find (visible s k) (x # xs) = None" using 4 by (auto simp: find_None_iff visible_def x)
    moreover have "k0 \<noteq> k" using 4 by blast
    then have "\<not> passes s k cur (x # xs)" by (intro passes_none) (use gt x in auto)
    ultimately show ?thesis by (simp add: read_at_def)
  qed
qed (simp add: read_at_def)

section \<open>Point reads\<close>

text \<open>What a point read through the iterator answers: \<open>seek\<close>, and then \<open>is_valid() && key() == k\<close> and
  \<open>value()\<close>, as the readers of the iterator do.\<close>

definition point_read :: "'it iterator_ops \<Rightarrow> bytes \<Rightarrow> 'it user_key_iterator \<Rightarrow> (bytes option option) res" where
  "point_read ops k ui =
     rbind (ui_seek ops (RandomForward k) ui) (\<lambda>(found, ui).
     if \<not> found then Ok None
     else
       rbind (ui_is_valid ops ui) (\<lambda>valid.
       rbind (if valid then rbind (ui_key_of ops ui) (\<lambda>k'. Ok (k' = k)) else Ok False) (\<lambda>here.
       if here then rbind (ui_value ops ui) (\<lambda>v. Ok (Some (Some v))) else Ok (Some None))))"

lemma lower_user_key:
  assumes "versions_sorted xs"
  shows "drop (lower (map entry_of xs) (full_key k (- 1))) (map entry_of xs) = map entry_of (filter (\<lambda>x. k \<le> fst x) xs)"
proof -
  have "(\<not> key_ord (fst (entry_of x)) < key_ord (full_key k (- 1))) = (k \<le> fst x)" for x
  proof -
    have "\<not> (- 1 :: u64) < t" for t by (simp add: not_less)
    then show ?thesis by (auto simp: entry_of_def key_ord_full_key_less not_less)
  qed
  then show ?thesis using drop_lower_filter[OF assms, of "full_key k (- 1)"] by (simp add: filter_map comp_def)
qed

lemma read_at_filter: "read_at s k (filter (\<lambda>x. k \<le> fst x) xs) = read_at s k xs"
proof -
  have "find (visible s k) (filter (\<lambda>x. k \<le> fst x) xs) = find (visible s k) xs"
    by (induction xs) (auto simp: visible_def)
  then show ?thesis by (simp add: read_at_def)
qed

context forward_iterator
begin

text \<open>Seeking a key leads to the first live key from it on, which is the key itself exactly when a read of
  it gives a value.\<close>

lemma seek_forward_ok:
  assumes over: "over it (map entry_of xs)" and k: "k \<noteq> []" and len: "length xs < 2 ^ 64"
  shows "\<exists>it' cur zs. ui_seek ops (RandomForward k) (ui_new it s) =
      Ok (read_at s k xs \<noteq> None, \<lparr>ui_iter = it', ui_sequence = s, ui_key = cur\<rparr>) \<and> ahead it' (map entry_of zs) \<and>
    (\<forall>b. read_at s k xs = Some (Some b) \<longrightarrow> cur = k \<and> (\<exists>t ys. zs = (k, t, Some b) # ys)) \<and>
    (read_at s k xs = Some None \<longrightarrow> zs = [] \<or> cur \<noteq> k)"
proof -
  have sorted: "versions_sorted xs" using over_sorted[OF over] .
  define ys where "ys = filter (\<lambda>x. k \<le> fst x) xs"
  have ys: "versions_sorted ys" "\<forall>x \<in> set ys. k \<le> fst x" "read_at s k ys = read_at s k xs"
    using sorted read_at_filter by (auto simp: ys_def key_sorted_def sorted_wrt_map sorted_wrt_filter)
  obtain f it1 where it1: "it_seek ops (RandomForward (full_key k (- 1))) it = Ok (f, it1)" "ahead it1 (map entry_of ys)"
    using over_forward[OF over, of "full_key k (- 1)"] lower_user_key[OF sorted, of k] by (auto simp: ys_def)
  let ?ui = "\<lparr>ui_iter = it1, ui_sequence = s, ui_key = []\<rparr>"
  have "length ys < loop_fuel"
    unfolding ys_def loop_fuel_def by (rule le_less_trans[OF length_filter_le len])
  with next_inner_ahead[of ?ui ys loop_fuel k False] it1(2) obtain it2 where it2:
    "ui_next_inner ops loop_fuel k False ?ui = Ok (passes s k [] ys, \<lparr>ui_iter = it2, ui_sequence = s, ui_key = fst (advance_view s [] ys)\<rparr>)"
    "ahead it2 (map entry_of (snd (advance_view s [] ys)))" by auto
  have "ui_seek ops (RandomForward k) (ui_new it s) =
      Ok (passes s k [] ys, \<lparr>ui_iter = it2, ui_sequence = s, ui_key = fst (advance_view s [] ys)\<rparr>)"
    using it1(1) it2(1) by (simp add: seek_inner_def ui_new_def)
  with read_from[OF ys(1,2) k[symmetric], of s] it2(2) ys(3) show ?thesis
    by (intro exI[of _ it2] exI[of _ "fst (advance_view s [] ys)"] exI[of _ "snd (advance_view s [] ys)"]) auto
qed

lemma point_read_ok:
  assumes over: "over it (map entry_of xs)" and k: "k \<noteq> []" and len: "length xs < 2 ^ 64"
  shows "point_read ops k (ui_new it s) = Ok (read_at s k xs)"
proof -
  obtain it2 cur zs where seek: "ui_seek ops (RandomForward k) (ui_new it s) =
      Ok (read_at s k xs \<noteq> None, \<lparr>ui_iter = it2, ui_sequence = s, ui_key = cur\<rparr>)" and it2: "ahead it2 (map entry_of zs)"
    and live: "\<And>b. read_at s k xs = Some (Some b) \<Longrightarrow> cur = k \<and> (\<exists>t ys. zs = (k, t, Some b) # ys)"
    and dead: "read_at s k xs = Some None \<Longrightarrow> zs = [] \<or> cur \<noteq> k"
    using seek_forward_ok[OF assms, of s] by blast
  show ?thesis
  proof (cases "read_at s k xs")
    case None
    then show ?thesis using seek by (simp add: point_read_def)
  next
    case (Some v)
    show ?thesis
    proof (cases v)
      case (Some b)
      then obtain t ys where zs: "cur = k" "zs = (k, t, Some b) # ys" using live \<open>read_at s k xs = Some v\<close> by auto
      then have a: "ahead it2 ((full_key k t, raw_value (Some b)) # map entry_of ys)" using it2 by (simp add: entry_of_triple)
      show ?thesis using seek zs ahead_valid[OF a] ahead_value[OF a] Some \<open>read_at s k xs = Some v\<close>
        by (simp add: point_read_def ui_is_valid_def ui_key_of_def ui_value_def)
    next
      case None
      then show ?thesis using seek dead ahead_valid[OF it2] \<open>read_at s k xs = Some v\<close>
        by (auto simp: point_read_def ui_is_valid_def ui_key_of_def)
    qed
  qed
qed

end

section \<open>Scans\<close>

text \<open>The live keys of a snapshot, in order, with the values they are read with.\<close>

fun live_view :: "u64 \<Rightarrow> bytes \<Rightarrow> version_entry list \<Rightarrow> kvs" where
  "live_view s cur [] = []"
| "live_view s cur ((k, t, v) # xs) =
     (if t \<le> s \<and> k \<noteq> cur
      then (case v of None \<Rightarrow> live_view s k xs | Some b \<Rightarrow> (k, b) # live_view s k xs)
      else live_view s cur xs)"

lemma live_view_advance:
  "live_view s cur xs = (case snd (advance_view s cur xs) of [] \<Rightarrow> []
     | x # ys \<Rightarrow> (fst x, the (snd (snd x))) # live_view s (fst x) ys)"
  "snd (advance_view s cur xs) \<noteq> [] \<Longrightarrow> \<exists>t b ys. snd (advance_view s cur xs) = (fst (advance_view s cur xs), t, Some b) # ys"
  by (induction s cur xs rule: advance_view.induct) (auto simp: Let_def)

context forward_iterator
begin

lemma scan_view:
  assumes "ahead (ui_iter ui) (map entry_of xs)" "length xs < 2 ^ 64" "length xs < fuel"
    "xs \<noteq> [] \<Longrightarrow> \<exists>t b ys. xs = (ui_key ui, t, Some b) # ys"
  shows "it_scan (user_key_iterator_ops ops) fuel ui =
    Ok (case xs of [] \<Rightarrow> [] | x # ys \<Rightarrow> (fst x, the (snd (snd x))) # live_view (ui_sequence ui) (fst x) ys)"
  using assms
proof (induction "length xs" arbitrary: xs ui fuel rule: less_induct)
  case less
  let ?s = "ui_sequence ui"
  obtain n where n: "fuel = Suc n" using less.prems(3) by (cases fuel) auto
  show ?case
  proof (cases xs)
    case Nil
    then show ?thesis using ahead_valid[OF less.prems(1)] n by (simp add: user_key_iterator_ops_def ui_is_valid_def)
  next
    case (Cons x ys)
    then obtain t b where x: "xs = (ui_key ui, t, Some b) # ys" "x = (ui_key ui, t, Some b)" using less.prems(4) by auto
    have a: "ahead (ui_iter ui) ((full_key (ui_key ui) t, raw_value (Some b)) # map entry_of ys)"
      using less.prems(1) by (simp add: x entry_of_triple)
    let ?adv = "advance_view ?s (ui_key ui) ys"
    have adv: "advance_view ?s (ui_key ui) xs = ?adv" by (simp add: x Let_def)
    have "length xs < loop_fuel" using less.prems(2) by (simp add: loop_fuel_def)
    from next_inner_ahead[OF less.prems(1) this, of "[]" False] obtain it' where
      it': "ui_next_inner ops loop_fuel [] False ui = Ok (passes ?s [] (ui_key ui) xs, ui\<lparr>ui_iter := it', ui_key := fst ?adv\<rparr>)"
      "ahead it' (map entry_of (snd ?adv))" unfolding adv by auto
    let ?ui = "ui\<lparr>ui_iter := it', ui_key := fst ?adv\<rparr>"
    have shorter: "length (snd ?adv) < length xs" using advance_length[of ?s "ui_key ui" ys] by (simp add: x)
    have head: "snd ?adv \<noteq> [] \<Longrightarrow> \<exists>t b ys. snd ?adv = (ui_key ?ui, t, Some b) # ys"
      using live_view_advance(2)[of ?s "ui_key ui" ys] by simp
    have "it_scan (user_key_iterator_ops ops) n ?ui = Ok (case snd ?adv of [] \<Rightarrow> []
        | x # ys \<Rightarrow> (fst x, the (snd (snd x))) # live_view ?s (fst x) ys)"
      using less.hyps[OF shorter, of ?ui n] it'(2) shorter less.prems(2,3) head n by (simp cong: list.case_cong)
    then have "it_scan (user_key_iterator_ops ops) n ?ui = Ok (live_view ?s (ui_key ui) ys)"
      by (simp only: live_view_advance(1)[of ?s "ui_key ui" ys])
    then show ?thesis
      using n x it'(1) ahead_valid[OF a] ahead_value[OF a]
      by (simp add: user_key_iterator_ops_def ui_is_valid_def ui_key_of_def ui_value_def ui_next_def)
  qed
qed

lemma scan_first:
  assumes over: "over it (map entry_of xs)" and len: "length xs < 2 ^ 64"
  shows "\<exists>found ui. ui_seek ops First (ui_new it s) = Ok (found, ui) \<and>
    it_scan (user_key_iterator_ops ops) (Suc (length xs)) ui = Ok (live_view s [] xs)"
proof -
  obtain f it1 where it1: "it_seek ops First it = Ok (f, it1)" "ahead it1 (map entry_of xs)" using over_first[OF over] by blast
  let ?ui = "\<lparr>ui_iter = it1, ui_sequence = s, ui_key = []\<rparr>" and ?adv = "advance_view s [] xs"
  from next_inner_ahead[of ?ui xs loop_fuel "[]" False] it1(2) len obtain it2 where it2:
    "ui_next_inner ops loop_fuel [] False ?ui = Ok (passes s [] [] xs, \<lparr>ui_iter = it2, ui_sequence = s, ui_key = fst ?adv\<rparr>)"
    "ahead it2 (map entry_of (snd ?adv))" by (auto simp: loop_fuel_def)
  let ?ui2 = "\<lparr>ui_iter = it2, ui_sequence = s, ui_key = fst ?adv\<rparr>"
  have shorter: "length (snd ?adv) \<le> length xs" by (rule advance_length)
  have head: "snd ?adv \<noteq> [] \<Longrightarrow> \<exists>t b ys. snd ?adv = (ui_key ?ui2, t, Some b) # ys"
    using live_view_advance(2)[of s "[]" xs] by simp
  have "it_scan (user_key_iterator_ops ops) (Suc (length xs)) ?ui2 = Ok (case snd ?adv of [] \<Rightarrow> []
      | x # ys \<Rightarrow> (fst x, the (snd (snd x))) # live_view s (fst x) ys)"
    using scan_view[of ?ui2 "snd ?adv" "Suc (length xs)"] it2(2) shorter len head by (simp del: it_scan.simps cong: list.case_cong)
  then have "it_scan (user_key_iterator_ops ops) (Suc (length xs)) ?ui2 = Ok (live_view s [] xs)"
    by (simp only: live_view_advance(1)[of s "[]" xs])
  then show ?thesis
    using it1(1) it2(1) ahead_valid[OF it2(2)] by (simp add: seek_inner_def ui_new_def ui_is_valid_def del: it_scan.simps)
qed

end

lemma live_view_reads:
  assumes "versions_sorted xs" "\<forall>x \<in> set xs. cur \<le> fst x"
  shows "(k, b) \<in> set (live_view s cur xs) \<longleftrightarrow> k \<noteq> cur \<and> read_at s k xs = Some (Some b)"
  using assms
proof (induction s cur xs rule: live_view.induct)
  case (2 s cur k0 t v xs)
  have s: "versions_sorted xs" "\<forall>(k', t', v') \<in> set xs. k0 < k' \<or> k0 = k' \<and> t' < t"
    using "2.prems"(1) versions_sorted_Cons by blast+
  have le: "\<forall>x \<in> set xs. k0 \<le> fst x" using s(2) by (force simp: split_beta)
  show ?case
  proof (cases "t \<le> s \<and> k0 \<noteq> cur")
    case True
    have "cur < k0" using "2.prems"(2) True by (auto simp: order_less_le)
    then have "\<forall>x \<in> set xs. fst x \<noteq> cur" using le by force
    then have "find (visible s cur) xs = None" by (auto simp: find_None_iff visible_def)
    then have none: "read_at s cur xs = None" by (simp add: read_at_def)
    show ?thesis
    proof (cases v)
      case None
      then show ?thesis using True "2.IH"(1)[OF True None s(1) le] none
        by (auto simp: read_at_def visible_def)
    next
      case (Some c)
      then show ?thesis using True "2.IH"(2)[OF True Some s(1) le] none
        by (auto simp: read_at_def visible_def)
    qed
  next
    case False
    then show ?thesis using "2.IH"(3)[OF False s(1)] "2.prems"(2) by (auto simp: read_at_def visible_def)
  qed
qed (simp add: read_at_def)

lemma live_view_sorted:
  assumes "versions_sorted xs" "\<forall>x \<in> set xs. cur \<le> fst x"
  shows "sorted_wrt (\<lambda>a b. fst a < fst b) (live_view s cur xs) \<and> (\<forall>e \<in> set (live_view s cur xs). cur < fst e)"
  using assms
proof (induction s cur xs rule: live_view.induct)
  case (2 s cur k0 t v xs)
  have s: "versions_sorted xs" "\<forall>(k', t', v') \<in> set xs. k0 < k' \<or> k0 = k' \<and> t' < t"
    using "2.prems"(1) versions_sorted_Cons by blast+
  have le: "\<forall>x \<in> set xs. k0 \<le> fst x" using s(2) by (force simp: split_beta)
  show ?case
  proof (cases "t \<le> s \<and> k0 \<noteq> cur")
    case True
    then have "cur < k0" using "2.prems"(2) by (auto simp: order_less_le)
    then show ?thesis using True "2.IH"(1)[OF True _ s(1) le] "2.IH"(2)[OF True _ s(1) le]
      by (cases v) (auto intro: order.strict_trans)
  next
    case False
    then show ?thesis using "2.IH"(3)[OF False s(1)] "2.prems"(2) by auto
  qed
qed simp

section \<open>Properties\<close>

text \<open>C13. Snapshot reads of stored tables: a point read at sequence \<open>s\<close> through the merge of any number of
  stored tables finds exactly the newest version of the key that is not newer than \<open>s\<close>: its value, or
  that it is a tombstone, or that there is none.\<close>

theorem snapshot_read_of_tables:
  assumes "ss_run mem_object_store_ops decompress crc32 tabs st"
    and "\<forall>i \<in> set ids. \<exists>r. tabs i = Some (r, bss i, m i) \<and> segments (bss i) \<and> length (concat (bss i)) < 2 ^ 64"
    and "key_sorted (map entry_of xs)" "mset (map entry_of xs) = mset (concat (map (\<lambda>i. concat (bss i)) ids))"
    and "k \<noteq> []" "length xs < 2 ^ 64"
  shows "point_read (merge_iterator_ops (sstable_iterator_ops mem_object_store_ops decompress crc32)) k
      (ui_new (mi_new (map (\<lambda>i. si_new st \<lparr>sst_id = i, sst_meta = m i\<rparr> policy) ids)) s) = Ok (read_at s k xs)"
proof -
  have "merged (map (\<lambda>i. concat (bss i)) ids) (map entry_of xs)" using assms(3,4) by (simp add: merged_def)
  from mem_os.table_iter.merge.point_read_ok[OF stored_tables_merge[OF mem_os.run_inv[OF assms(1)] assms(2) this] assms(5,6)] show ?thesis .
qed

text \<open>Snapshot scans of stored tables: reading the merge of stored tables at sequence \<open>s\<close> from its first
  key to its end returns, in ascending order, exactly the keys a point read at \<open>s\<close> finds alive, each
  with the value the point read gives (the empty key apart, which the iterator takes for its initial
  state).\<close>

theorem snapshot_scan_of_tables:
  assumes "ss_run mem_object_store_ops decompress crc32 tabs st"
    and "\<forall>i \<in> set ids. \<exists>r. tabs i = Some (r, bss i, m i) \<and> segments (bss i) \<and> length (concat (bss i)) < 2 ^ 64"
    and "key_sorted (map entry_of xs)" "mset (map entry_of xs) = mset (concat (map (\<lambda>i. concat (bss i)) ids))"
    and "length xs < 2 ^ 64"
  shows "\<exists>found ui es. ui_seek (merge_iterator_ops (sstable_iterator_ops mem_object_store_ops decompress crc32)) First
      (ui_new (mi_new (map (\<lambda>i. si_new st \<lparr>sst_id = i, sst_meta = m i\<rparr> policy) ids)) s) = Ok (found, ui) \<and>
    it_scan (user_key_iterator_ops (merge_iterator_ops (sstable_iterator_ops mem_object_store_ops decompress crc32)))
      (Suc (length xs)) ui = Ok es \<and>
    sorted_wrt (\<lambda>a b. fst a < fst b) es \<and> (\<forall>k b. (k, b) \<in> set es \<longleftrightarrow> k \<noteq> [] \<and> read_at s k xs = Some (Some b))"
proof -
  have "merged (map (\<lambda>i. concat (bss i)) ids) (map entry_of xs)" using assms(3,4) by (simp add: merged_def)
  from mem_os.table_iter.merge.scan_first[OF stored_tables_merge[OF mem_os.run_inv[OF assms(1)] assms(2) this] assms(5), of policy s] obtain found ui where
    "ui_seek (merge_iterator_ops (sstable_iterator_ops mem_object_store_ops decompress crc32)) First
      (ui_new (mi_new (map (\<lambda>i. si_new st \<lparr>sst_id = i, sst_meta = m i\<rparr> policy) ids)) s) = Ok (found, ui)"
    "it_scan (user_key_iterator_ops (merge_iterator_ops (sstable_iterator_ops mem_object_store_ops decompress crc32)))
      (Suc (length xs)) ui = Ok (live_view s [] xs)" by blast
  moreover have "sorted_wrt (\<lambda>a b. fst a < fst b) (live_view s [] xs)"
    using live_view_sorted[OF assms(3), of "[]" s] by simp
  moreover have "\<forall>k b. (k, b) \<in> set (live_view s [] xs) \<longleftrightarrow> k \<noteq> [] \<and> read_at s k xs = Some (Some b)"
    using live_view_reads[OF assms(3), of "[]"] by simp
  ultimately show ?thesis by blast
qed

definition union_versions :: "version_entry list" where
  "union_versions = [([107, 49], 9, Some [8]), ([107, 49], 6, None), ([107, 49], 4, Some [7]), ([107, 50], 7, None), ([107, 51], 1, Some [3])]"

lemma union_versions_ok:
  "key_sorted (map entry_of union_versions)" "length union_versions < 2 ^ 64" "map entry_of union_versions \<noteq> []"
  "segments [map entry_of union_versions]"
  by (simp_all add: union_versions_def entry_of_def key_sorted_def key_ord_full_key_less segments_def)

lemma versions_run:
  "\<exists>m st. ss_run mem_object_store_ops stored_decompress (\<lambda>_. 7) [5 \<mapsto> (2, [map entry_of union_versions], m)] st"
proof -
  obtain m data where t: "table_holds stored_decompress (\<lambda>_. 7) 2 [map entry_of union_versions] m data" "meta_fits m"
    using single_block_table[of "map entry_of union_versions"] union_versions_ok
    by (auto simp: union_versions_def entry_of_def raw_value_def)
  let ?st0 = "sstable_store_new ''t'' \<lparr>mo_objects = Map.empty\<rparr> Map.empty"
  obtain st where put: "ss_put mem_object_store_ops stored_decompress (\<lambda>_. 7) \<lparr>sst_id = 5, sst_meta = m\<rparr> data Disable ?st0 =
      (Ok (), st)" using mem_put_Ok by blast
  have "ss_run mem_object_store_ops stored_decompress (\<lambda>_. 7) [5 \<mapsto> (2, [map entry_of union_versions], m)] st"
    by (rule run_put[OF run_new _ _ t(2,1) put]) simp_all
  then show ?thesis by blast
qed

theorem snapshot_read_of_tables_witness:
  "\<exists>m st. point_read (merge_iterator_ops (sstable_iterator_ops mem_object_store_ops stored_decompress (\<lambda>_. 7))) [107, 49]
      (ui_new (mi_new [si_new st \<lparr>sst_id = 5, sst_meta = m\<rparr> Fill]) 5) = Ok (Some (Some [7])) \<and>
    point_read (merge_iterator_ops (sstable_iterator_ops mem_object_store_ops stored_decompress (\<lambda>_. 7))) [107, 49]
      (ui_new (mi_new [si_new st \<lparr>sst_id = 5, sst_meta = m\<rparr> Fill]) 6) = Ok (Some None)"
proof -
  obtain m st where run: "ss_run mem_object_store_ops stored_decompress (\<lambda>_. 7) [5 \<mapsto> (2, [map entry_of union_versions], m)] st"
    using versions_run by blast
  have "point_read (merge_iterator_ops (sstable_iterator_ops mem_object_store_ops stored_decompress (\<lambda>_. 7))) [107, 49]
      (ui_new (mi_new (map (\<lambda>i. si_new st \<lparr>sst_id = i, sst_meta = m\<rparr> Fill) [5])) s) = Ok (read_at s [107, 49] union_versions)" for s
    by (rule snapshot_read_of_tables[OF run, where bss = "\<lambda>_. [map entry_of union_versions]"])
      (use union_versions_ok in \<open>auto simp: union_versions_def\<close>)
  from this[of 5] this[of 6] show ?thesis by (auto simp: read_at_def visible_def union_versions_def)
qed

theorem snapshot_scan_of_tables_witness:
  "\<exists>m st found ui es. ui_seek (merge_iterator_ops (sstable_iterator_ops mem_object_store_ops stored_decompress (\<lambda>_. 7))) First
      (ui_new (mi_new [si_new st \<lparr>sst_id = 5, sst_meta = m\<rparr> Fill]) 5) = Ok (found, ui) \<and>
    it_scan (user_key_iterator_ops (merge_iterator_ops (sstable_iterator_ops mem_object_store_ops stored_decompress (\<lambda>_. 7)))) 6 ui = Ok es \<and>
    ([107, 49], [7]) \<in> set es"
proof -
  obtain m st where run: "ss_run mem_object_store_ops stored_decompress (\<lambda>_. 7) [5 \<mapsto> (2, [map entry_of union_versions], m)] st"
    using versions_run by blast
  have "\<exists>found ui es. ui_seek (merge_iterator_ops (sstable_iterator_ops mem_object_store_ops stored_decompress (\<lambda>_. 7))) First
      (ui_new (mi_new (map (\<lambda>i. si_new st \<lparr>sst_id = i, sst_meta = m\<rparr> Fill) [5])) 5) = Ok (found, ui) \<and>
    it_scan (user_key_iterator_ops (merge_iterator_ops (sstable_iterator_ops mem_object_store_ops stored_decompress (\<lambda>_. 7))))
      (Suc (length union_versions)) ui = Ok es \<and>
    sorted_wrt (\<lambda>a b. fst a < fst b) es \<and> (\<forall>k b. (k, b) \<in> set es \<longleftrightarrow> k \<noteq> [] \<and> read_at 5 k union_versions = Some (Some b))"
    by (rule snapshot_scan_of_tables[OF run, where bss = "\<lambda>_. [map entry_of union_versions]"])
      (use union_versions_ok in \<open>auto simp: union_versions_def\<close>)
  moreover have "Suc (length union_versions) = 6" "read_at 5 [107, 49] union_versions = Some (Some [7])"
    by (simp_all add: union_versions_def read_at_def visible_def)
  ultimately show ?thesis by (simp only: list.map) blast
qed

end
