(* ===== verification/Memtable.thy ===== *)
theory Memtable
  imports Skiplist UserKeyIterator
begin

text \<open>
  \<open>storage/src/lsm_tree/components/memtable.rs\<close> and \<open>storage/src/lsm_tree/iterator/memtable_iterator.rs\<close>: the
  in-memory table of versions over the skip list, and its snapshot iterator.

  The iterator has the fields of the user key iterator and the same forward loop over the skip list's
  own iterator; its backward loop differs in what it returns after a tombstone.
\<close>

record memtable =
  mt_inner :: skiplist
  mt_capacity :: nat

definition memtable_new :: "node_layout \<Rightarrow> nat \<Rightarrow> memtable res" where
  "memtable_new nl capacity =
     rbind (skiplist_with_capacity nl (capacity mod 2 ^ 32)) (\<lambda>sl. Ok \<lparr>mt_inner = sl, mt_capacity = capacity\<rparr>)"

text \<open>The outcome of the inner put is dropped: a second value for the same key and sequence is ignored.\<close>

definition memtable_put :: "node_layout \<Rightarrow> nat \<Rightarrow> bytes \<Rightarrow> bytes option \<Rightarrow> u64 \<Rightarrow> memtable \<Rightarrow> memtable res" where
  "memtable_put nl height key value seqno mt =
     rbind (sl_put nl height (full_key key seqno) (raw_value value) (mt_inner mt)) (\<lambda>(_, sl). Ok (mt\<lparr>mt_inner := sl\<rparr>))"

definition memtable_get_raw :: "bytes \<Rightarrow> u64 \<Rightarrow> memtable \<Rightarrow> bytes option res" where
  "memtable_get_raw key seqno mt = sl_get (mt_inner mt) (full_key key seqno)"

definition memtable_get :: "bytes \<Rightarrow> u64 \<Rightarrow> memtable \<Rightarrow> bytes option res" where
  "memtable_get key seqno mt =
     rbind (memtable_get_raw key seqno mt) (\<lambda>raw.
     case raw of None \<Rightarrow> Ok None | Some raw \<Rightarrow> raw_to_value raw)"

definition memtable_mem_size :: "memtable \<Rightarrow> nat" where
  "memtable_mem_size mt = sl_mem_size (mt_inner mt)"

definition memtable_mem_remain :: "memtable \<Rightarrow> nat res" where
  "memtable_mem_remain mt = sub_u64 (mt_capacity mt) (sl_mem_size (mt_inner mt))"

definition memtable_is_empty :: "memtable \<Rightarrow> bool res" where
  "memtable_is_empty mt = sl_is_empty (mt_inner mt)"

definition memtable_iter :: "memtable \<Rightarrow> skip_iter" where
  "memtable_iter mt = sk_iter (mt_inner mt)"

section \<open>The iterator\<close>

type_synonym memtable_iterator = "skip_iter user_key_iterator"

definition mti_new :: "memtable \<Rightarrow> u64 \<Rightarrow> memtable_iterator" where
  "mti_new mt seqno = \<lparr>ui_iter = memtable_iter mt, ui_sequence = seqno, ui_key = []\<rparr>"

definition mti_next_inner :: "bytes \<Rightarrow> memtable_iterator \<Rightarrow> (bool \<times> memtable_iterator) res" where
  "mti_next_inner key mti = ui_next_inner skip_iterator_ops loop_fuel key False mti"

definition mti_seek_latest :: "memtable_iterator \<Rightarrow> memtable_iterator res" where
  "mti_seek_latest mti = seek_latest_visiable_current_user_key skip_iterator_ops loop_fuel mti"

fun mti_prev_inner :: "nat \<Rightarrow> bytes \<Rightarrow> bool \<Rightarrow> memtable_iterator \<Rightarrow> (bool \<times> memtable_iterator) res" where
  "mti_prev_inner 0 key found mti = OutOfFuel"
| "mti_prev_inner (Suc fuel) key found mti =
     (if \<not> sk_valid (ui_iter mti) then Ok (found, mti)
      else
        rbind (sk_key (ui_iter mti)) (\<lambda>k.
        rbind (user_key k) (\<lambda>uk.
        rbind (sequence k) (\<lambda>ts.
        let found = (found \<or> key = uk \<and> ui_sequence mti \<ge> ts) in
        if ui_sequence mti \<ge> ts \<and> uk \<noteq> ui_key mti then
          rbind (mti_seek_latest (mti\<lparr>ui_key := uk\<rparr>)) (\<lambda>mti.
          rbind (rbind (sk_value (ui_iter mti)) raw_to_value) (\<lambda>v.
            case v of
              Some _ \<Rightarrow> Ok (found, mti)
            | None \<Rightarrow> rbind (mti_prev_inner fuel key False mti) (\<lambda>(_, mti). Ok (found, mti))))
        else
          rbind (sk_prev (ui_iter mti)) (\<lambda>it. mti_prev_inner fuel key found (mti\<lparr>ui_iter := it\<rparr>))))))"

definition mti_is_valid :: "memtable_iterator \<Rightarrow> bool" where
  "mti_is_valid mti \<longleftrightarrow> sk_valid (ui_iter mti)"

definition mti_next :: "memtable_iterator \<Rightarrow> memtable_iterator res" where
  "mti_next mti = rbind (rassert (mti_is_valid mti)) (\<lambda>_. rbind (mti_next_inner [] mti) (\<lambda>(_, mti). Ok mti))"

definition mti_prev :: "memtable_iterator \<Rightarrow> memtable_iterator res" where
  "mti_prev mti = rbind (rassert (mti_is_valid mti)) (\<lambda>_. rbind (mti_prev_inner loop_fuel [] False mti) (\<lambda>(_, mti). Ok mti))"

definition mti_key :: "memtable_iterator \<Rightarrow> bytes res" where
  "mti_key mti =
     rbind (rassert (mti_is_valid mti)) (\<lambda>_.
     rbind (sk_key (ui_iter mti)) (\<lambda>k.
     rbind (sub_u64 (length k) 8) (\<lambda>n. slice 0 n k)))"

definition mti_value :: "memtable_iterator \<Rightarrow> bytes res" where
  "mti_value mti =
     rbind (rassert (mti_is_valid mti)) (\<lambda>_. rbind (sk_value (ui_iter mti)) (\<lambda>v. slice 1 (length v) v))"

fun mti_seek :: "seek \<Rightarrow> memtable_iterator \<Rightarrow> (bool \<times> memtable_iterator) res" where
  "mti_seek First mti =
     rbind (sk_seek_to_first (ui_iter mti)) (\<lambda>it.
     rbind (mti_next_inner [] (mti\<lparr>ui_key := [], ui_iter := it\<rparr>)) (\<lambda>(_, mti). Ok (mti_is_valid mti, mti)))"
| "mti_seek Last mti =
     rbind (sk_seek_to_last (ui_iter mti)) (\<lambda>it.
     rbind (mti_prev_inner loop_fuel [] False (mti\<lparr>ui_key := [], ui_iter := it\<rparr>)) (\<lambda>(_, mti). Ok (mti_is_valid mti, mti)))"
| "mti_seek (RandomForward key) mti =
     rbind (sk_seek (full_key key (- 1)) (ui_iter mti)) (\<lambda>it. mti_next_inner key (mti\<lparr>ui_key := [], ui_iter := it\<rparr>))"
| "mti_seek (RandomBackward key) mti =
     rbind (sk_seek_for_prev (full_key key 0) (ui_iter mti)) (\<lambda>it.
       mti_prev_inner loop_fuel key False (mti\<lparr>ui_key := [], ui_iter := it\<rparr>))"

text \<open>The skip list's iterator keeps the contract of a forward iterator.\<close>

interpretation skip_fwd: forward_iterator skip_iterator_ops sk_ahead sk_over
proof
  show "key_sorted es" if "sk_over it es" for it es using that by (auto simp: sk_over_def sl_rep_def)
next
  fix it xs assume "sk_ahead it xs"
  then obtain ps i where a: "sl_rep (sk_list it) ps" "i \<le> length ps"
    "sk_cursor it = ptr_at ps (if i < length ps then Some i else None)" "xs = drop i (sl_entries (sk_list it) ps)"
    by (auto simp: sk_ahead_def)
  then show "key_sorted xs" using key_sorted_drop by (auto simp: sl_rep_def)
  show "it_is_valid skip_iterator_ops it = Ok (xs \<noteq> [])"
    using a rep_node(2)[OF a(1), of i] by (auto simp: skip_iterator_ops_def sk_valid_def ptr_at_def)
next
  fix it e xs assume "sk_ahead it (e # xs)"
  then obtain ps i where a: "sl_rep (sk_list it) ps" "arena_ok (sl_arena (sk_list it))" "i \<le> length ps"
    "sk_cursor it = ptr_at ps (if i < length ps then Some i else None)" "e # xs = drop i (sl_entries (sk_list it) ps)"
    by (auto simp: sk_ahead_def)
  have i: "i < length ps" using a(5) by (metis drop_all length_sl_entries list.distinct(1) not_le)
  have e: "sl_entries (sk_list it) ps ! i = e" "xs = drop (Suc i) (sl_entries (sk_list it) ps)"
    using a(5) i by (metis Cons_nth_drop_Suc length_sl_entries list.inject)+
  have c: "sk_cursor it = ps ! i" "sk_valid it" using a(4) i rep_node(2)[OF a(1) i] by (auto simp: ptr_at_def sk_valid_def)
  show "it_key skip_iterator_ops it = Ok (fst e)" "it_value skip_iterator_ops it = Ok (snd e)"
    using c rep_node(4)[OF a(1) i] e(1) i by (auto simp: skip_iterator_ops_def sk_key_def sk_value_def)
  have "next_offset (sk_list it) (ps ! i) 0 = Ok (ptr_at ps (if Suc i < length ps then Some (Suc i) else None))"
    using rep_next[OF a(1), of "Suc i" 0] i by (auto simp: ptr_at_def Cons_nth_drop_Suc[symmetric] tower_max_height_def)
  then show "\<exists>it'. it_next skip_iterator_ops it = Ok it' \<and> sk_ahead it' xs"
    using c sk_ahead_at[OF a(1,2), of "Suc i"] i e(2) by (simp add: skip_iterator_ops_def sk_next_def)
next
  fix it es assume "sk_over it es"
  then obtain ps where o: "sl_rep (sk_list it) ps" "arena_ok (sl_arena (sk_list it))" "es = sl_entries (sk_list it) ps"
    by (auto simp: sk_over_def)
  show "\<exists>found it'. it_seek skip_iterator_ops First it = Ok (found, it') \<and> sk_ahead it' es"
    using rep_first[OF o(1)] sk_ahead_at[OF o(1,2), of 0] o(3) by (simp add: skip_iterator_ops_def sk_seek_to_first_def)
  fix k :: bytes assume k: "8 \<le> length k"
  show "\<exists>found it'. it_seek skip_iterator_ops (RandomForward k) it = Ok (found, it') \<and> sk_ahead it' (drop (lower es k) es)"
    using find_near_from_head[OF o(1,2) k, of False True] sk_ahead_at[OF o(1,2), of "lower es k"] lower_bound(1)[of es k]
    unfolding o(3) by (simp add: skip_iterator_ops_def sk_seek_def sk_find_near_def near_target_def Let_def)
qed

section \<open>What a memtable holds\<close>

definition mt_rep :: "memtable \<Rightarrow> version_entry list \<Rightarrow> bool" where
  "mt_rep mt xs \<longleftrightarrow>
     (\<exists>ps. sl_rep (mt_inner mt) ps \<and> arena_ok (sl_arena (mt_inner mt)) \<and> sl_entries (mt_inner mt) ps = map entry_of xs)"

lemma mt_rep_sorted: "mt_rep mt xs \<Longrightarrow> versions_sorted xs"
  unfolding mt_rep_def sl_rep_def by metis

lemma memtable_new_rep:
  assumes "memtable_new nl capacity = Ok mt" "layout_ok nl"
  shows "mt_rep mt []"
  using assms skiplist_new_rep[of nl "capacity mod 2 ^ 32"]
  by (fastforce simp: memtable_new_def mt_rep_def outcome_simps sl_entries_def)

lemma memtable_put_rep:
  assumes rep: "mt_rep mt xs" and put: "memtable_put nl h k v s mt = Ok mt'" and nl: "layout_ok nl" "h < tower_max_height"
  shows "\<exists>ys. mt_rep mt' ys \<and> set ys = (if (k, s) \<in> (\<lambda>x. (fst x, fst (snd x))) ` set xs then set xs else insert (k, s, v) (set xs))"
proof -
  obtain ps where ps: "sl_rep (mt_inner mt) ps" "arena_ok (sl_arena (mt_inner mt))" "sl_entries (mt_inner mt) ps = map entry_of xs"
    using rep by (auto simp: mt_rep_def)
  let ?fk = "full_key k s"
  have pr: "present (mt_inner mt) ps ?fk \<longleftrightarrow> (k, s) \<in> (\<lambda>x. (fst x, fst (snd x))) ` set xs"
    unfolding present_def ps(3) by (force simp: entry_of_def)
  obtain r sl where sl: "sl_put nl h ?fk (raw_value v) (mt_inner mt) = Ok (r, sl)" "mt' = mt\<lparr>mt_inner := sl\<rparr>"
    using put by (auto simp: memtable_put_def outcome_simps)
  have k8: "8 \<le> length ?fk" by simp
  show ?thesis
  proof (cases "present (mt_inner mt) ps ?fk")
    case True
    then have "sl = mt_inner mt"
      using put_search_from_head[OF ps(1,2) k8, of "raw_value v"] sl(1) by (auto simp: sl_put_def Let_def outcome_simps)
    then show ?thesis using True pr rep sl(2) by auto
  next
    case False
    let ?es = "map entry_of xs"
    have room: "ar_len (sl_arena (mt_inner mt)) + node_bytes nl h \<le> ar_cap (sl_arena (mt_inner mt))"
      by (rule sl_put_room[OF sl(1) False ps(1,2) k8])
    from sl_put_ok[OF ps(1,2) nl(1) k8 nl(2) room, of "raw_value v"] False sl(1) obtain ps' where
      r: "sl_rep sl ps'" "arena_ok (sl_arena sl)"
        "sl_entries sl ps' = take (lower ?es ?fk) ?es @ (?fk, raw_value v) # drop (lower ?es ?fk) ?es"
      unfolding ps(3) by auto
    define ys where "ys = take (lower ?es ?fk) xs @ (k, s, v) # drop (lower ?es ?fk) xs"
    have "sl_entries sl ps' = map entry_of ys" unfolding r(3) by (simp add: ys_def take_map drop_map entry_of_triple)
    then have "mt_rep mt' ys" using r(1,2) sl(2) by (auto simp: mt_rep_def)
    moreover have "set ys = insert (k, s, v) (set (take (lower ?es ?fk) xs) \<union> set (drop (lower ?es ?fk) xs))" by (auto simp: ys_def)
    then have "set ys = insert (k, s, v) (set xs)" by (metis append_take_drop_id set_append)
    ultimately show ?thesis using False pr by auto
  qed
qed

text \<open>With room left in the arena a put succeeds.\<close>

lemma memtable_put_total:
  assumes rep: "mt_rep mt xs" and nl: "layout_ok nl" "h < tower_max_height"
    and room: "memtable_mem_size mt + node_bytes nl h \<le> ar_cap (sl_arena (mt_inner mt))"
  shows "\<exists>mt'. memtable_put nl h k v s mt = Ok mt' \<and> memtable_mem_size mt' \<le> memtable_mem_size mt + node_bytes nl h \<and>
    ar_cap (sl_arena (mt_inner mt')) = ar_cap (sl_arena (mt_inner mt))"
proof -
  obtain ps where ps: "sl_rep (mt_inner mt) ps" "arena_ok (sl_arena (mt_inner mt))" using rep by (auto simp: mt_rep_def)
  have "8 \<le> length (full_key k s)" by simp
  from sl_put_ok[OF ps nl(1) this nl(2), of "raw_value v"] room show ?thesis
    by (cases "present (mt_inner mt) ps (full_key k s)") (auto simp: memtable_put_def memtable_mem_size_def sl_mem_size_def)
qed

lemma memtable_new_total:
  assumes "layout_ok nl" "1 + node_bytes nl (tower_max_height - 1) \<le> capacity div 8 * 8" "capacity < 2 ^ 32"
  shows "\<exists>mt. memtable_new nl capacity = Ok mt \<and> mt_rep mt [] \<and> mt_capacity mt = capacity \<and>
    memtable_mem_size mt = 1 + node_bytes nl (tower_max_height - 1) \<and> ar_cap (sl_arena (mt_inner mt)) = capacity div 8 * 8"
proof -
  have "arena_ok (arena_with_capacity capacity)" using assms(3) by (auto simp: arena_ok_def arena_with_capacity_def)
  from node_alloc_ok[OF this assms(1), of "tower_max_height - 1" "[]" "[]"] assms(2)
  obtain mt where "memtable_new nl capacity = Ok mt" "mt_capacity mt = capacity"
    "memtable_mem_size mt = 1 + node_bytes nl (tower_max_height - 1)" "ar_cap (sl_arena (mt_inner mt)) = capacity div 8 * 8"
    using assms(3) by (auto simp: memtable_new_def skiplist_with_capacity_def arena_with_capacity_def tower_max_height_def
        memtable_mem_size_def sl_mem_size_def)
  then show ?thesis using memtable_new_rep[OF _ assms(1)] by blast
qed

lemma first_visible:
  fixes k s
  assumes sorted: "versions_sorted xs"
  defines "n \<equiv> lower (map entry_of xs) (full_key k s)"
  shows "find (visible s k) xs = (if n < length xs \<and> fst (xs ! n) = k then Some (xs ! n) else None)"
proof -
  have low: "i < n \<longleftrightarrow> fst (xs ! i) < k \<or> fst (xs ! i) = k \<and> s < fst (snd (xs ! i))" if "i < length xs" for i
    using lower_iff[OF sorted, of i "full_key k s"] that
    by (cases "xs ! i") (simp add: n_def entry_of_def key_ord_full_key_less)
  have before: "\<not> visible s k (xs ! i)" if "i < n" for i
  proof -
    have "i < length xs" using that lower_bound(1)[of "map entry_of xs" "full_key k s"] by (simp add: n_def)
    then show ?thesis using low that by (auto simp: visible_def)
  qed
  show ?thesis
  proof (cases "n < length xs \<and> fst (xs ! n) = k")
    case True
    then have "visible s k (xs ! n)" using low[of n] by (auto simp: visible_def)
    then show ?thesis using True before by (auto simp: find_Some_iff)
  next
    case False
    have "\<not> visible s k (xs ! i)" if "i < length xs" for i
    proof
      assume v: "visible s k (xs ! i)"
      then have "n \<le> i" using before not_le by blast
      then have "n < length xs" using that by simp
      have "fst (xs ! n) \<le> fst (xs ! i)"
      proof (cases "n = i")
        case False
        then have "key_less (map entry_of xs ! n) (map entry_of xs ! i)"
          using \<open>n \<le> i\<close> that sorted sorted_wrt_nth_less[of key_less "map entry_of xs" n i] by (simp add: key_sorted_def)
        then show ?thesis using that \<open>n < length xs\<close> by (auto simp: entry_of_def key_ord_full_key_less split: prod.splits)
      qed simp
      then show False using False low[of n] v \<open>n < length xs\<close> by (auto simp: visible_def)
    qed
    then have "find (visible s k) xs = None" unfolding find_None_iff by (metis in_set_conv_nth)
    then show ?thesis using False by auto
  qed
qed

lemma memtable_get_raw_ok:
  assumes "mt_rep mt xs"
  shows "memtable_get_raw k s mt = Ok (map_option raw_value (read_at s k xs))"
proof -
  obtain ps where ps: "sl_rep (mt_inner mt) ps" "arena_ok (sl_arena (mt_inner mt))" "sl_entries (mt_inner mt) ps = map entry_of xs"
    using assms by (auto simp: mt_rep_def)
  let ?fk = "full_key k s"
  define n where "n = lower (map entry_of xs) ?fk"
  have len: "length ps = length xs" using arg_cong[OF ps(3), of length] by simp
  have near: "find_near loop_fuel (mt_inner mt) ?fk False True (sl_head (mt_inner mt)) (sl_height (mt_inner mt)) =
      Ok (ptr_at ps (if n < length xs then Some n else None))"
    using find_near_from_head[OF ps(1,2), of ?fk False True] by (simp add: near_target_def Let_def ps(3) n_def[symmetric])
  have v: "find (visible s k) xs = (if n < length xs \<and> fst (xs ! n) = k then Some (xs ! n) else None)"
    using first_visible[OF mt_rep_sorted[OF assms], of s k] by (simp add: n_def)
  show ?thesis
  proof (cases "n < length xs")
    case True
    have "sl_entries (mt_inner mt) ps ! n = entry_of (xs ! n)" using True by (simp add: ps(3))
    then have e: "nd_key (node_of (mt_inner mt) (ps ! n)) = full_key (fst (xs ! n)) (fst (snd (xs ! n)))"
      "nd_value (node_of (mt_inner mt) (ps ! n)) = raw_value (snd (snd (xs ! n)))"
      using True len by (auto simp: entry_of_def split: prod.splits)
    show ?thesis using near rep_node(2,4)[OF ps(1), of n] True len e v
      by (simp add: memtable_get_raw_def sl_get_def get_with_key_def ptr_at_def read_at_def)
  qed (use near v in \<open>simp add: memtable_get_raw_def sl_get_def get_with_key_def ptr_at_def read_at_def\<close>)
qed

section \<open>Properties\<close>

type_synonym memtable_write = "nat \<times> bytes \<times> bytes option \<times> u64"

fun apply_write :: "node_layout \<Rightarrow> memtable_write \<Rightarrow> memtable \<Rightarrow> memtable res" where
  "apply_write nl (h, k, v, s) mt = memtable_put nl h k v s mt"

fun write_version :: "memtable_write \<Rightarrow> version_entry" where
  "write_version (h, k, v, s) = (k, s, v)"

lemma versions_distinct: "versions_sorted xs \<Longrightarrow> distinct (map (\<lambda>x. (fst x, fst (snd x))) xs)"
proof (induction xs)
  case (Cons x xs)
  obtain k t v where x: "x = (k, t, v)" by (cases x) auto
  have "versions_sorted xs" "\<forall>(k', t', v') \<in> set xs. k < k' \<or> k = k' \<and> t' < t"
    using Cons.prems versions_sorted_Cons unfolding x by blast+
  then show ?case using Cons.IH by (auto simp: x)
qed simp

lemma versions_sorted_unique:
  assumes "versions_sorted xs" "versions_sorted ys" "set xs = set ys"
  shows "xs = ys"
  using assms
proof (induction xs arbitrary: ys)
  case (Cons x xs)
  obtain y ys' where ys: "ys = y # ys'" using Cons.prems(3) by (cases ys) auto
  obtain k t v k' t' v' where xy: "x = (k, t, v)" "y = (k', t', v')" by (cases x, cases y) auto
  have sx: "versions_sorted xs" "\<forall>(k', t', v') \<in> set xs. k < k' \<or> k = k' \<and> t' < t"
    using Cons.prems(1) versions_sorted_Cons unfolding xy by blast+
  have sy: "versions_sorted ys'" "\<forall>(k, t, v) \<in> set ys'. k' < k \<or> k' = k \<and> t < t'"
    using Cons.prems(2) versions_sorted_Cons unfolding ys xy by blast+
  have "x = y"
  proof (rule ccontr)
    assume "x \<noteq> y"
    then have "x \<in> set ys'" "y \<in> set xs" using Cons.prems(3) ys by auto
    then have "k < k' \<or> k = k' \<and> t' < t" "k' < k \<or> k' = k \<and> t < t'" using sx(2) sy(2) by (auto simp: xy)
    then show False by auto
  qed
  moreover have "x \<notin> set xs" "y \<notin> set ys'" using sx(2) sy(2) by (auto simp: xy)
  ultimately have "set xs = set ys'" using Cons.prems(3) ys by auto
  then show ?case using Cons.IH[OF sx(1) sy(1)] \<open>x = y\<close> ys by simp
qed simp

lemma memtable_writes_rep:
  assumes "mt_rep mt xs" "rfold (apply_write nl) ws mt = Ok mt'" "layout_ok nl" "\<forall>w \<in> set ws. fst w < tower_max_height"
    and "distinct (map (\<lambda>x. (fst x, fst (snd x))) (xs @ map write_version ws))"
  shows "\<exists>ys. mt_rep mt' ys \<and> set ys = set xs \<union> write_version ` set ws"
  using assms(1,2,4,5)
proof (induction ws arbitrary: mt xs)
  case Nil
  then show ?case by auto
next
  case (Cons w ws)
  obtain h k v s where w: "w = (h, k, v, s)" by (cases w) auto
  obtain mt1 where m1: "memtable_put nl h k v s mt = Ok mt1" "rfold (apply_write nl) ws mt1 = Ok mt'"
    using Cons.prems(2) by (auto simp: w outcome_simps)
  have fresh: "(k, s) \<notin> (\<lambda>x. (fst x, fst (snd x))) ` set xs" using Cons.prems(4) by (auto simp: w image_iff)
  obtain ys where ys: "mt_rep mt1 ys" "set ys = insert (k, s, v) (set xs)"
    using memtable_put_rep[OF Cons.prems(1) m1(1) assms(3)] Cons.prems(3) fresh by (auto simp: w)
  have "distinct (map (\<lambda>x. (fst x, fst (snd x))) ys)" by (rule versions_distinct[OF mt_rep_sorted[OF ys(1)]])
  then have "distinct (map (\<lambda>x. (fst x, fst (snd x))) (ys @ map write_version ws))" using Cons.prems(4) ys(2) by (auto simp: w)
  from Cons.IH[OF ys(1) m1(2) _ this] Cons.prems(3) ys(2) show ?case by (auto simp: w)
qed

text \<open>C15. A memtable reads like its versions: after any writes that succeed, whatever the heights of their
  nodes, every read at a sequence gives the newest version of the key that is not newer, and a
  tombstone or a missing version reads as no value.\<close>

theorem memtable_reads_newest_version:
  assumes "layout_ok nl" "memtable_new nl capacity = Ok mt0" "rfold (apply_write nl) ws mt0 = Ok mt"
    and "\<forall>w \<in> set ws. fst w < tower_max_height" "distinct (map (\<lambda>x. (fst x, fst (snd x))) (map write_version ws))"
  shows "\<exists>xs. versions_sorted xs \<and> set xs = write_version ` set ws \<and>
    (\<forall>k s. memtable_get_raw k s mt = Ok (map_option raw_value (read_at s k xs)) \<and>
      memtable_get k s mt = Ok (case read_at s k xs of None \<Rightarrow> None | Some v \<Rightarrow> v))"
proof -
  obtain xs where xs: "mt_rep mt xs" "set xs = write_version ` set ws"
    using memtable_writes_rep[OF memtable_new_rep[OF assms(2,1)] assms(3,1,4)] assms(5) by auto
  then show ?thesis using mt_rep_sorted[OF xs(1)] memtable_get_raw_ok[OF xs(1)]
    by (intro exI[of _ xs]) (auto simp: memtable_get_def split: option.splits)
qed

text \<open>The iterator of a memtable agrees with its reads: seeking a key at a sequence finds it exactly when
  a version of it is visible, and stands on it with its value exactly when that version is not a
  tombstone.\<close>

theorem memtable_iterator_finds_live_key:
  assumes "layout_ok nl" "memtable_new nl capacity = Ok mt0" "rfold (apply_write nl) ws mt0 = Ok mt"
    and "\<forall>w \<in> set ws. fst w < tower_max_height" "distinct (map (\<lambda>x. (fst x, fst (snd x))) (map write_version ws))"
    and "k \<noteq> []" "memtable_get_raw k s mt = Ok raw"
  shows "\<exists>mti. mti_seek (RandomForward k) (mti_new mt s) = Ok (raw \<noteq> None, mti) \<and>
    (\<forall>b. raw = Some (1 # b) \<longrightarrow> mti_key mti = Ok k \<and> mti_value mti = Ok b)"
proof -
  obtain xs where xs: "mt_rep mt xs"
    using memtable_writes_rep[OF memtable_new_rep[OF assms(2,1)] assms(3,1,4)] assms(5) by auto
  obtain ps where ps: "sl_rep (mt_inner mt) ps" "arena_ok (sl_arena (mt_inner mt))" "sl_entries (mt_inner mt) ps = map entry_of xs"
    using xs by (auto simp: mt_rep_def)
  have over: "sk_over (memtable_iter mt) (map entry_of xs)" using ps by (auto simp: sk_over_def memtable_iter_def sk_iter_def)
  have "length ps = length xs" using arg_cong[OF ps(3), of length] by simp
  then have len: "length xs < 2 ^ 64" using rep_length[OF ps(1,2)] by simp
  have raw: "raw = map_option raw_value (read_at s k xs)" using memtable_get_raw_ok[OF xs, of k s] assms(7) by simp
  obtain it cur zs where seek: "ui_seek skip_iterator_ops (RandomForward k) (ui_new (memtable_iter mt) s) =
      Ok (read_at s k xs \<noteq> None, \<lparr>ui_iter = it, ui_sequence = s, ui_key = cur\<rparr>)" "sk_ahead it (map entry_of zs)"
      "\<forall>b. read_at s k xs = Some (Some b) \<longrightarrow> cur = k \<and> (\<exists>t ys. zs = (k, t, Some b) # ys)"
    using skip_fwd.seek_forward_ok[OF over assms(6) len, of s] by blast
  let ?mti = "\<lparr>ui_iter = it, ui_sequence = s, ui_key = cur\<rparr>"
  have "mti_seek (RandomForward k) (mti_new mt s) = Ok (raw \<noteq> None, ?mti)"
    using seek(1) by (auto simp: raw seek_inner_def ui_new_def mti_new_def mti_next_inner_def skip_iterator_ops_def outcome_simps
        split: prod.splits)
  moreover have "mti_key ?mti = Ok k \<and> mti_value ?mti = Ok b" if b: "raw = Some (1 # b)" for b
  proof -
    obtain w where w: "read_at s k xs = Some w" "raw_value w = 1 # b" using b raw by (cases "read_at s k xs") auto
    then have "w = Some b" by (cases w) (auto simp: raw_value_def)
    then obtain t ys where "zs = (k, t, Some b) # ys" using seek(3) w(1) by blast
    then have a: "sk_ahead it ((full_key k t, raw_value (Some b)) # map entry_of ys)" using seek(2) by (simp add: entry_of_triple)
    show ?thesis using skip_fwd.ahead_valid[OF a] skip_fwd.ahead_key[OF a] skip_fwd.ahead_value[OF a] w
      by (auto simp: skip_iterator_ops_def mti_key_def mti_value_def mti_is_valid_def slice_def full_key_def raw_value_def)
  qed
  ultimately show ?thesis by blast
qed

definition example_layout_of_node :: node_layout where
  "example_layout_of_node = \<lparr>nl_align = 8, nl_size = 152\<rparr>"

definition example_writes :: "memtable_write list" where
  "example_writes = [(3, [107, 50], Some [1], 4), (0, [107, 49], Some [2], 6), (1, [107, 50], None, 9)]"

lemma example_writes_ok:
  "layout_ok example_layout_of_node" "\<forall>w \<in> set example_writes. fst w < tower_max_height"
  "distinct (map (\<lambda>x. (fst x, fst (snd x))) (map write_version example_writes))"
  "\<exists>mt0 mt. memtable_new example_layout_of_node 1024 = Ok mt0 \<and> rfold (apply_write example_layout_of_node) example_writes mt0 = Ok mt"
proof -
  show nl: "layout_ok example_layout_of_node" by (simp add: layout_ok_def example_layout_of_node_def tower_max_height_def)
  show "\<forall>w \<in> set example_writes. fst w < tower_max_height" "distinct (map (\<lambda>x. (fst x, fst (snd x))) (map write_version example_writes))"
    by (simp_all add: example_writes_def tower_max_height_def)
  let ?nl = example_layout_of_node
  have nb: "node_bytes ?nl h = 83 + 4 * h" if "h < tower_max_height" for h
    using that by (simp add: node_bytes_def example_layout_of_node_def tower_max_height_def)
  have h: "0 < tower_max_height" "1 < tower_max_height" "3 < tower_max_height" "19 < tower_max_height" "tower_max_height - 1 = 19"
    by (simp_all add: tower_max_height_def)
  obtain mt0 where m0: "memtable_new ?nl 1024 = Ok mt0" "mt_rep mt0 []" "memtable_mem_size mt0 = 160" "ar_cap (sl_arena (mt_inner mt0)) = 1024"
    using memtable_new_total[OF nl, of 1024] nb[OF h(4)] h(5) by auto
  obtain mt1 where m1: "memtable_put ?nl 3 [107, 50] (Some [1]) 4 mt0 = Ok mt1" "memtable_mem_size mt1 \<le> 255" "ar_cap (sl_arena (mt_inner mt1)) = 1024"
    using memtable_put_total[OF m0(2) nl h(3), of "[107, 50]" "Some [1]" 4] m0(3,4) nb[OF h(3)] by auto
  obtain xs1 where r1: "mt_rep mt1 xs1" using memtable_put_rep[OF m0(2) m1(1) nl h(3)] by auto
  obtain mt2 where m2: "memtable_put ?nl 0 [107, 49] (Some [2]) 6 mt1 = Ok mt2" "memtable_mem_size mt2 \<le> 338" "ar_cap (sl_arena (mt_inner mt2)) = 1024"
    using memtable_put_total[OF r1 nl h(1), of "[107, 49]" "Some [2]" 6] m1(2,3) nb[OF h(1)] by auto
  obtain xs2 where r2: "mt_rep mt2 xs2" using memtable_put_rep[OF r1 m2(1) nl h(1)] by auto
  obtain mt3 where m3: "memtable_put ?nl 1 [107, 50] None 9 mt2 = Ok mt3"
    using memtable_put_total[OF r2 nl h(2), of "[107, 50]" None 9] m2(2,3) nb[OF h(2)] by auto
  show "\<exists>mt0 mt. memtable_new ?nl 1024 = Ok mt0 \<and> rfold (apply_write ?nl) example_writes mt0 = Ok mt"
    using m0(1) m1(1) m2(1) m3 by (intro exI[of _ mt0] exI[of _ mt3]) (simp add: example_writes_def)
qed

theorem memtable_reads_newest_version_witness:
  "\<exists>mt0 mt. memtable_new example_layout_of_node 1024 = Ok mt0 \<and>
    rfold (apply_write example_layout_of_node) example_writes mt0 = Ok mt \<and>
    memtable_get [107, 50] 9 mt = Ok None \<and> memtable_get [107, 50] 8 mt = Ok (Some [1])"
proof -
  obtain mt0 mt where mt: "memtable_new example_layout_of_node 1024 = Ok mt0"
    "rfold (apply_write example_layout_of_node) example_writes mt0 = Ok mt" using example_writes_ok(4) by blast
  obtain xs where xs: "versions_sorted xs" "set xs = write_version ` set example_writes"
    "\<forall>k s. memtable_get_raw k s mt = Ok (map_option raw_value (read_at s k xs)) \<and>
      memtable_get k s mt = Ok (case read_at s k xs of None \<Rightarrow> None | Some v \<Rightarrow> v)"
    using memtable_reads_newest_version[OF example_writes_ok(1) mt example_writes_ok(2,3)] by (elim exE conjE) (rule that)
  let ?ys = "[([107, 49], 6, Some [2]), ([107, 50], 9, None), ([107, 50], 4, Some [1])] :: version_entry list"
  have "xs = ?ys"
  proof (rule versions_sorted_unique[OF xs(1)])
    show "versions_sorted ?ys" by (simp add: key_sorted_def entry_of_def key_ord_full_key_less)
    show "set xs = set ?ys" using xs(2) by (auto simp: example_writes_def)
  qed
  then have "read_at 9 [107, 50] xs = Some None" "read_at 8 [107, 50] xs = Some (Some [1])"
    by (simp_all add: read_at_def visible_def)
  then show ?thesis using mt xs(3) by auto
qed

theorem memtable_iterator_finds_live_key_witness:
  "\<exists>mt0 mt raw mti. memtable_new example_layout_of_node 1024 = Ok mt0 \<and>
    rfold (apply_write example_layout_of_node) example_writes mt0 = Ok mt \<and> memtable_get_raw [107, 49] 7 mt = Ok raw \<and>
    mti_seek (RandomForward [107, 49]) (mti_new mt 7) = Ok (raw \<noteq> None, mti)"
proof -
  obtain mt0 mt where mt: "memtable_new example_layout_of_node 1024 = Ok mt0"
    "rfold (apply_write example_layout_of_node) example_writes mt0 = Ok mt" using example_writes_ok(4) by blast
  obtain xs where "mt_rep mt xs"
    using memtable_writes_rep[OF memtable_new_rep[OF mt(1) example_writes_ok(1)] mt(2) example_writes_ok(1,2)] example_writes_ok(3) by auto
  from memtable_get_raw_ok[OF this] obtain raw where raw: "memtable_get_raw [107, 49] 7 mt = Ok raw" by blast
  from memtable_iterator_finds_live_key[OF example_writes_ok(1) mt example_writes_ok(2,3) _ raw] mt raw show ?thesis by auto
qed

end
