(* ===== verification/Manifest.thy ===== *)
theory Manifest
  imports UserKeyIterator "HOL-Library.Sublist"
begin

text \<open>
  \<open>storage/src/lsm_tree/manifest/version.rs\<close>: the version manager, which keeps the identifiers of the
  tables of every level and the history of the changes to them, and answers which tables may hold a
  key. Table metadata is fetched through the table store, whose cache changes with every fetch.

  The manager's read-write lock serialises its operations, so \<open>VersionManager\<close>'s methods are those of
  the core. A call returns its outcome and the state it leaves: an update that fails half way keeps
  the changes made before.
\<close>

datatype level_compaction_strategy = Overlap | NonOverlap

record level_options =
  lo_compaction_strategy :: level_compaction_strategy
  lo_compression_algorithm :: compression_algorithm

datatype sstable_op = Insert | Delete

record sstable_diff =
  sd_id :: nat
  sd_level :: nat
  sd_op :: sstable_op
  sd_data_size :: nat

record version_diff =
  vd_id :: nat
  vd_sstable_diffs :: "sstable_diff list"

record 'os version_manager =
  vm_level_options :: "level_options list"
  vm_levels :: "nat list list"
  vm_levels_data_size :: "nat list"
  vm_diffs :: "version_diff list"
  vm_store :: "'os sstable_store"
  vm_watermark :: u64

type_synonym ('os, 'a) vm_call = "'os version_manager \<Rightarrow> 'a res \<times> 'os version_manager"

section \<open>Calls\<close>

definition vok :: "'a \<Rightarrow> ('os, 'a) vm_call" where
  "vok a vm = (Ok a, vm)"

definition vres :: "'a res \<Rightarrow> ('os, 'a) vm_call" where
  "vres r vm = (r, vm)"

definition vbind :: "('os, 'a) vm_call \<Rightarrow> ('a \<Rightarrow> ('os, 'b) vm_call) \<Rightarrow> ('os, 'b) vm_call" where
  "vbind c f vm =
     (case c vm of
        (Ok a, vm) \<Rightarrow> f a vm
      | (Err e, vm) \<Rightarrow> (Err e, vm)
      | (Panic, vm) \<Rightarrow> (Panic, vm)
      | (OutOfFuel, vm) \<Rightarrow> (OutOfFuel, vm))"

fun vfold :: "('x \<Rightarrow> ('os, unit) vm_call) \<Rightarrow> 'x list \<Rightarrow> ('os, unit) vm_call" where
  "vfold f [] = vok ()"
| "vfold f (x # xs) = vbind (f x) (\<lambda>_. vfold f xs)"

definition vm_sstable :: "'os object_store_ops \<Rightarrow> nat \<Rightarrow> ('os, sstable) vm_call" where
  "vm_sstable ops i vm =
     (case ss_sstable ops i (vm_store vm) of
        Ok (sst, st) \<Rightarrow> (Ok sst, vm\<lparr>vm_store := st\<rparr>)
      | Err e \<Rightarrow> (Err e, vm)
      | Panic \<Rightarrow> (Panic, vm)
      | OutOfFuel \<Rightarrow> (OutOfFuel, vm))"

section \<open>State\<close>

definition vm_new :: "level_options list \<Rightarrow> nat list list \<Rightarrow> 'os sstable_store \<Rightarrow> 'os version_manager res" where
  "vm_new levels_options levels st =
     rbind (rassert (length levels = length levels_options)) (\<lambda>_.
       Ok \<lparr>vm_level_options = levels_options, vm_levels = levels, vm_levels_data_size = replicate (length levels) 0,
           vm_diffs = [], vm_store = st, vm_watermark = 0\<rparr>)"

definition vm_levels_len :: "'os version_manager \<Rightarrow> nat" where
  "vm_levels_len vm = length (vm_levels vm)"

definition vm_level_data_size :: "nat \<Rightarrow> 'os version_manager \<Rightarrow> nat res" where
  "vm_level_data_size level_idx vm = index (vm_levels_data_size vm) level_idx"

definition vm_advance :: "u64 \<Rightarrow> ('os, unit) vm_call" where
  "vm_advance watermark vm =
     (if watermark < vm_watermark vm then (Err (ManifestError (InvalidWatermark (vm_watermark vm) watermark)), vm)
      else (Ok (), vm\<lparr>vm_watermark := watermark\<rparr>))"

definition vm_latest_version_id :: "'os version_manager \<Rightarrow> nat" where
  "vm_latest_version_id vm = (case last_of (vm_diffs vm) of None \<Rightarrow> 0 | Some diff \<Rightarrow> vd_id diff)"

definition vm_squash :: "nat \<Rightarrow> 'os version_manager \<Rightarrow> 'os version_manager" where
  "vm_squash diff_id vm = vm\<lparr>vm_diffs := dropWhile (\<lambda>diff. vd_id diff < diff_id) (vm_diffs vm)\<rparr>"

definition vm_level_compression_algorithm :: "nat \<Rightarrow> 'os version_manager \<Rightarrow> compression_algorithm res" where
  "vm_level_compression_algorithm level_idx vm =
     (if level_idx < length (vm_level_options vm)
      then Ok (lo_compression_algorithm (vm_level_options vm ! level_idx))
      else Err (ManifestError (LevelNotExists level_idx (length (vm_level_options vm)))))"

definition vm_level_compaction_strategy :: "nat \<Rightarrow> 'os version_manager \<Rightarrow> level_compaction_strategy res" where
  "vm_level_compaction_strategy level_idx vm =
     (if level_idx < length (vm_level_options vm)
      then Ok (lo_compaction_strategy (vm_level_options vm ! level_idx))
      else Err (ManifestError (LevelNotExists level_idx (length (vm_level_options vm)))))"

text \<open>At most \<open>max_len\<close> diffs from \<open>start_id\<close> on; the length is tested after each diff.\<close>

fun collect_diffs :: "nat \<Rightarrow> nat \<Rightarrow> version_diff list \<Rightarrow> version_diff list \<Rightarrow> version_diff list" where
  "collect_diffs start_id max_len acc [] = acc"
| "collect_diffs start_id max_len acc (d # ds) =
     (let acc = (if start_id \<le> vd_id d then acc @ [d] else acc) in
      if max_len \<le> length acc then acc else collect_diffs start_id max_len acc ds)"

definition vm_version_diffs_from :: "nat \<Rightarrow> nat \<Rightarrow> 'os version_manager \<Rightarrow> version_diff list res" where
  "vm_version_diffs_from start_id max_len vm =
     (case vm_diffs vm of
        [] \<Rightarrow> Err (ManifestError (VersionDiffExpired start_id))
      | d # _ \<Rightarrow>
          if start_id < vd_id d then Err (ManifestError (VersionDiffExpired start_id))
          else Ok (collect_diffs start_id max_len [] (vm_diffs vm)))"

section \<open>Updates\<close>

definition vget :: "('os version_manager \<Rightarrow> 'a res) \<Rightarrow> ('os, 'a) vm_call" where
  "vget f vm = (f vm, vm)"

definition vm_set_level :: "nat \<Rightarrow> nat list \<Rightarrow> ('os, unit) vm_call" where
  "vm_set_level level is vm = (Ok (), vm\<lparr>vm_levels := (vm_levels vm)[level := is]\<rparr>)"

definition vm_set_size :: "nat \<Rightarrow> nat \<Rightarrow> ('os, unit) vm_call" where
  "vm_set_size level n vm = (Ok (), vm\<lparr>vm_levels_data_size := (vm_levels_data_size vm)[level := n]\<rparr>)"

fun insert_position :: "'os object_store_ops \<Rightarrow> sstable \<Rightarrow> nat \<Rightarrow> nat list \<Rightarrow> ('os, nat) vm_call" where
  "insert_position ops sst_to_insert idx [] = vok idx"
| "insert_position ops sst_to_insert idx (i # is) =
     vbind (vm_sstable ops i) (\<lambda>sst.
     vbind (vres (sst_first_key sst_to_insert)) (\<lambda>first_key.
     vbind (vres (sst_first_key sst)) (\<lambda>k.
       if first_key \<le> k then vok idx else insert_position ops sst_to_insert (Suc idx) is)))"

definition insert_sstable :: "'os object_store_ops \<Rightarrow> level_compaction_strategy \<Rightarrow> sstable_diff \<Rightarrow> ('os, unit) vm_call" where
  "insert_sstable ops strategy d =
     vbind (vm_sstable ops (sd_id d)) (\<lambda>sst_to_insert.
     vbind (vget (\<lambda>vm. index (vm_levels vm) (sd_level d))) (\<lambda>is.
     vbind (insert_position ops sst_to_insert 0 is) (\<lambda>idx.
     vbind (vm_set_level (sd_level d) (take idx is @ sd_id d # drop idx is)) (\<lambda>_.
     vbind (vget (\<lambda>vm. rbind (index (vm_levels_data_size vm) (sd_level d)) (\<lambda>size. add_u64 size (sd_data_size d)))) (\<lambda>size.
     vbind (vm_set_size (sd_level d) size) (\<lambda>_.
       if strategy = NonOverlap \<and> idx > 0 then
         vbind (vm_sstable ops (is ! (idx - 1))) (\<lambda>prev_sst.
         vbind (vres (sst_first_key sst_to_insert)) (\<lambda>first_key.
         vbind (vres (sst_last_key prev_sst)) (\<lambda>last_key.
           if first_key \<le> last_key
           then vres (Err (ManifestError (InvalidVersionDiff ''sst overlaps in non-overlap level'')))
           else vok ())))
       else vok ()))))))"

definition delete_sstable :: "sstable_diff \<Rightarrow> ('os, unit) vm_call" where
  "delete_sstable d =
     vbind (vget (\<lambda>vm. index (vm_levels vm) (sd_level d))) (\<lambda>is.
     if sd_id d \<in> set is then
       vbind (vm_set_level (sd_level d) (remove1 (sd_id d) is)) (\<lambda>_.
       vbind (vget (\<lambda>vm. rbind (index (vm_levels_data_size vm) (sd_level d)) (\<lambda>size. sub_u64 size (sd_data_size d)))) (\<lambda>size.
         vm_set_size (sd_level d) size))
     else vres (Err (ManifestError (InvalidVersionDiff ''sst not exists''))))"

definition apply_sstable_diff :: "'os object_store_ops \<Rightarrow> sstable_diff \<Rightarrow> ('os, unit) vm_call" where
  "apply_sstable_diff ops d =
     vbind (vget (\<lambda>vm. if sd_level d < length (vm_level_options vm)
       then Ok (lo_compaction_strategy (vm_level_options vm ! sd_level d))
       else Err (ManifestError (InvalidVersionDiff ''invalid level idx'')))) (\<lambda>strategy.
     case sd_op d of
       Insert \<Rightarrow> insert_sstable ops strategy d
     | Delete \<Rightarrow> delete_sstable d)"

definition vm_push_diff :: "version_diff \<Rightarrow> ('os, unit) vm_call" where
  "vm_push_diff diff vm = (Ok (), vm\<lparr>vm_diffs := vm_diffs vm @ [diff]\<rparr>)"

definition vm_update :: "'os object_store_ops \<Rightarrow> version_diff \<Rightarrow> bool \<Rightarrow> ('os, unit) vm_call" where
  "vm_update ops diff sync =
     vbind (vget (\<lambda>vm.
       let current_diff_id = vm_latest_version_id vm in
       if sync then
         if vm_diffs vm = [] then Ok diff
         else rbind (add_u64 current_diff_id 1) (\<lambda>diff_id.
           if diff_id \<noteq> vd_id diff then Err (ManifestError (VersionDiffIdNotMatch current_diff_id (vd_id diff)))
           else Ok diff)
       else rbind (add_u64 current_diff_id 1) (\<lambda>diff_id. Ok (diff\<lparr>vd_id := diff_id\<rparr>)))) (\<lambda>diff.
     vbind (vfold (apply_sstable_diff ops) (vd_sstable_diffs diff)) (\<lambda>_.
       vm_push_diff diff))"

section \<open>Picking tables\<close>

text \<open>The tables of a level that pass a test, up to the first one past the range in a non-overlap level.\<close>

fun pick_in_level ::
  "'os object_store_ops \<Rightarrow> level_compaction_strategy \<Rightarrow> (sstable \<Rightarrow> bool res) \<Rightarrow> bytes \<Rightarrow> nat list \<Rightarrow> ('os, nat list) vm_call" where
  "pick_in_level ops strategy test end_key [] = vok []"
| "pick_in_level ops strategy test end_key (i # is) =
     vbind (vm_sstable ops i) (\<lambda>sst.
     vbind (vres (test sst)) (\<lambda>overlap.
     vbind (vres (if strategy = NonOverlap
                  then rbind (rbind (sst_first_key sst) user_key) (\<lambda>k. Ok (end_key < k)) else Ok False)) (\<lambda>past.
     if past then vok (if overlap then [i] else [])
     else vbind (pick_in_level ops strategy test end_key is) (\<lambda>js. vok (if overlap then i # js else js)))))"

fun pick_in_levels ::
  "'os object_store_ops \<Rightarrow> (sstable \<Rightarrow> bool res) \<Rightarrow> bytes \<Rightarrow> nat list \<Rightarrow> ('os, nat list list) vm_call" where
  "pick_in_levels ops test end_key [] = vok []"
| "pick_in_levels ops test end_key (level # levels) =
     vbind (vget (\<lambda>vm. if level < length (vm_level_options vm)
       then Ok (lo_compaction_strategy (vm_level_options vm ! level))
       else Err (ManifestError (InvalidVersionDiff ''invalid level idx'')))) (\<lambda>strategy.
     vbind (vget (\<lambda>vm. index (vm_levels vm) level)) (\<lambda>is.
     vbind (pick_in_level ops strategy test end_key is) (\<lambda>js.
     vbind (pick_in_levels ops test end_key levels) (\<lambda>jss. vok (js # jss)))))"

text \<open>\<open>levels.end - levels.start\<close> must not underflow.\<close>

definition pick_overlap_ssts_by_user_key_range ::
  "'os object_store_ops \<Rightarrow> nat \<times> nat \<Rightarrow> bytes \<times> bytes \<Rightarrow> ('os, nat list list) vm_call" where
  "pick_overlap_ssts_by_user_key_range ops levels rng =
     vbind (vres (sub_u64 (snd levels) (fst levels))) (\<lambda>_.
       pick_in_levels ops (\<lambda>sst. sst_is_overlap_with_user_key_range sst rng) (snd rng) [fst levels..<snd levels])"

definition pick_overlap_ssts_by_key ::
  "'os object_store_ops \<Rightarrow> (bytes \<Rightarrow> u32) \<Rightarrow> nat \<times> nat \<Rightarrow> bytes \<Rightarrow> ('os, nat list list) vm_call" where
  "pick_overlap_ssts_by_key ops fingerprint32 levels key =
     vbind (vres (sub_u64 (snd levels) (fst levels))) (\<lambda>_.
       pick_in_levels ops
         (\<lambda>sst. rbind (sst_may_contain_key fingerprint32 sst key) (\<lambda>may.
            if may then sst_is_overlap_with_user_key_range sst (key, key) else Ok False))
         key [fst levels..<snd levels])"

definition pick_overlap_ssts_by_sst_id ::
  "'os object_store_ops \<Rightarrow> nat \<times> nat \<Rightarrow> nat \<Rightarrow> ('os, nat list list) vm_call" where
  "pick_overlap_ssts_by_sst_id ops levels i =
     vbind (vm_sstable ops i) (\<lambda>sst.
     vbind (vres (rbind (sst_first_key sst) user_key)) (\<lambda>a.
     vbind (vres (rbind (sst_last_key sst) user_key)) (\<lambda>b.
       pick_overlap_ssts_by_user_key_range ops levels (a, b))))"

fun key_hull :: "'os object_store_ops \<Rightarrow> bytes \<times> bytes \<Rightarrow> nat list \<Rightarrow> ('os, bytes \<times> bytes) vm_call" where
  "key_hull ops kr [] = vok kr"
| "key_hull ops kr (i # is) =
     vbind (vm_sstable ops i) (\<lambda>sst.
     vbind (vres (rbind (sst_first_key sst) user_key)) (\<lambda>a.
     vbind (vres (rbind (sst_last_key sst) user_key)) (\<lambda>b.
       key_hull ops (if fst kr = [] \<or> a < fst kr then a else fst kr,
                     if snd kr = [] \<or> snd kr < b then b else snd kr) is)))"

definition pick_overlap_ssts_by_sst_ids ::
  "'os object_store_ops \<Rightarrow> nat \<times> nat \<Rightarrow> nat list \<Rightarrow> ('os, nat list list) vm_call" where
  "pick_overlap_ssts_by_sst_ids ops levels is =
     (if is = [] then vok []
      else vbind (key_hull ops ([], []) is) (\<lambda>kr. pick_overlap_ssts_by_user_key_range ops levels kr))"

text \<open>\<open>verify_non_overlap\<close> compares every table with the first one of its level. Its \<open>unwrap\<close> of the strategy
  never fails: the levels range over the options.\<close>

fun all_after :: "'os object_store_ops \<Rightarrow> bytes \<Rightarrow> nat list \<Rightarrow> ('os, bool) vm_call" where
  "all_after ops last_key [] = vok True"
| "all_after ops last_key (i # is) =
     vbind (vm_sstable ops i) (\<lambda>sst.
     vbind (vres (sst_first_key sst)) (\<lambda>k. if k \<le> last_key then vok False else all_after ops last_key is))"

fun verify_levels :: "'os object_store_ops \<Rightarrow> nat list \<Rightarrow> ('os, bool) vm_call" where
  "verify_levels ops [] = vok True"
| "verify_levels ops (level # levels) =
     vbind (vget (vm_level_compaction_strategy level)) (\<lambda>strategy.
     vbind (vget (\<lambda>vm. index (vm_levels vm) level)) (\<lambda>is.
     vbind (if strategy = NonOverlap \<and> 1 < length is then
              vbind (vm_sstable ops (hd is)) (\<lambda>prev_sst.
              vbind (vres (sst_last_key prev_sst)) (\<lambda>last_key. all_after ops last_key (tl is)))
            else vok True) (\<lambda>ok.
     if ok then verify_levels ops levels else vok False)))"

definition verify_non_overlap :: "'os object_store_ops \<Rightarrow> ('os, bool) vm_call" where
  "verify_non_overlap ops vm = verify_levels ops [0..<length (vm_level_options vm)] vm"

section \<open>Reading the manifest\<close>

text \<open>A call reads \<open>a\<close>: over a store that holds the tables \<open>tabs\<close> and a manager with these options and
  levels it returns \<open>a\<close> and changes nothing but the store's caches.\<close>

definition vm_reads ::
  "('os \<Rightarrow> string \<rightharpoonup> bytes) \<Rightarrow> (bytes \<Rightarrow> bytes option) \<Rightarrow> (bytes \<Rightarrow> nat) \<Rightarrow> (nat \<rightharpoonup> table) \<Rightarrow> level_options list \<Rightarrow>
     nat list list \<Rightarrow> ('os, 'a) vm_call \<Rightarrow> 'a \<Rightarrow> bool" where
  "vm_reads objects decompress crc32 tabs opts levels c a \<longleftrightarrow>
     (\<forall>vm. vm_level_options vm = opts \<longrightarrow> vm_levels vm = levels \<longrightarrow> ss_inv objects decompress crc32 tabs (vm_store vm) \<longrightarrow>
        (\<exists>st. c vm = (Ok a, vm\<lparr>vm_store := st\<rparr>) \<and> ss_inv objects decompress crc32 tabs st))"

named_theorems reads_intros

lemma reads_vok [reads_intros]: "vm_reads objects decompress crc32 tabs opts levels (vok a) a"
  by (auto simp: vm_reads_def vok_def intro!: exI[of _ "vm_store _"])

lemma reads_vres [reads_intros]: "r = Ok a \<Longrightarrow> vm_reads objects decompress crc32 tabs opts levels (vres r) a"
  by (auto simp: vm_reads_def vres_def intro!: exI[of _ "vm_store _"])

lemma reads_vget [reads_intros]:
  "(\<And>vm. vm_level_options vm = opts \<Longrightarrow> vm_levels vm = levels \<Longrightarrow> f vm = Ok a) \<Longrightarrow>
    vm_reads objects decompress crc32 tabs opts levels (vget f) a"
  by (auto simp: vm_reads_def vget_def intro!: exI[of _ "vm_store _"])

lemma reads_vbind [reads_intros]:
  assumes "vm_reads objects decompress crc32 tabs opts levels c a"
    and "vm_reads objects decompress crc32 tabs opts levels (f a) b"
  shows "vm_reads objects decompress crc32 tabs opts levels (vbind c f) b"
proof (unfold vm_reads_def, intro allI impI)
  fix vm :: "'a version_manager" assume vm: "vm_level_options vm = opts" "vm_levels vm = levels" "ss_inv objects decompress crc32 tabs (vm_store vm)"
  then obtain st where st: "c vm = (Ok a, vm\<lparr>vm_store := st\<rparr>)" "ss_inv objects decompress crc32 tabs st"
    using assms(1) unfolding vm_reads_def by blast
  with vm obtain st' where "f a (vm\<lparr>vm_store := st\<rparr>) = (Ok b, vm\<lparr>vm_store := st'\<rparr>)" "ss_inv objects decompress crc32 tabs st'"
    using assms(2)[unfolded vm_reads_def, rule_format, of "vm\<lparr>vm_store := st\<rparr>"] by auto
  then show "\<exists>st. vbind c f vm = (Ok b, vm\<lparr>vm_store := st\<rparr>) \<and> ss_inv objects decompress crc32 tabs st"
    using st(1) by (auto simp: vbind_def)
qed

context object_store
begin

lemma reads_sstable:
  assumes "tabs i = Some (r, bss, m)"
  shows "vm_reads objects decompress crc32 tabs opts levels (vm_sstable ops i) \<lparr>sst_id = i, sst_meta = m\<rparr>"
  unfolding vm_reads_def
proof (intro allI impI)
  fix vm :: "'os version_manager" assume "ss_inv objects decompress crc32 tabs (vm_store vm)"
  from sstable_inv[OF this, of i r bss m] assms
  show "\<exists>st. vm_sstable ops i vm = (Ok \<lparr>sst_id = i, sst_meta = m\<rparr>, vm\<lparr>vm_store := st\<rparr>) \<and> ss_inv objects decompress crc32 tabs st"
    by (auto simp: vm_sstable_def)
qed

text \<open>Leaving a non-overlap level early loses no table: the test accepts no table past the end key and
  the tables after such a one are past it too.\<close>

lemma reads_pick_in_level:
  assumes "\<forall>i \<in> set is. \<exists>r bss. tabs i = Some (r, bss, m i)"
    and "\<forall>i \<in> set is. test \<lparr>sst_id = i, sst_meta = m i\<rparr> = Ok (sel i)"
    and "strategy = NonOverlap \<Longrightarrow> \<forall>i \<in> set is. rbind (meta_first_key (m i)) user_key = Ok (lo i) \<and> (sel i \<longrightarrow> lo i \<le> end_key)"
    and "strategy = NonOverlap \<Longrightarrow> sorted_wrt (\<lambda>i j. lo i \<le> lo j) is"
  shows "vm_reads objects decompress crc32 tabs opts levels (pick_in_level ops strategy test end_key is) (filter sel is)"
  using assms
proof (induction "is")
  case Nil
  then show ?case by (simp add: reads_intros)
next
  case (Cons i "is")
  obtain r bss where "tabs i = Some (r, bss, m i)" using Cons.prems(1) by auto
  note sst = reads_sstable[of tabs, OF this]
  define past where "past \<longleftrightarrow> strategy = NonOverlap \<and> end_key < lo i"
  have p: "(if strategy = NonOverlap
      then rbind (rbind (sst_first_key \<lparr>sst_id = i, sst_meta = m i\<rparr>) user_key) (\<lambda>k. Ok (end_key < k)) else Ok False) = Ok past"
    using Cons.prems(3) by (auto simp: past_def sst_first_key_def)
  have IH: "vm_reads objects decompress crc32 tabs opts levels (pick_in_level ops strategy test end_key is) (filter sel is)"
    using Cons.IH Cons.prems by auto
  have none: "filter sel is = []" if past
  proof -
    have "\<not> sel j" if "j \<in> set is" for j
      using Cons.prems(3,4) that \<open>past\<close> by (force simp: past_def)
    then show ?thesis by (simp add: filter_empty_conv)
  qed
  show ?case unfolding pick_in_level.simps
    by (rule reads_vbind[OF sst], rule reads_vbind[OF reads_vres, of _ "sel i"], use Cons.prems(2) in simp,
        rule reads_vbind[OF reads_vres[OF p]])
      (use none in \<open>auto intro!: reads_intros IH\<close>)
qed

lemma reads_pick_in_levels:
  assumes "\<forall>l \<in> set ls. l < length levels \<and> l < length opts \<and>
    (\<forall>vs. vs = levels ! l \<longrightarrow> vm_reads objects decompress crc32 tabs opts levels
      (pick_in_level ops (lo_compaction_strategy (opts ! l)) test end_key vs) (filter sel vs))"
  shows "vm_reads objects decompress crc32 tabs opts levels (pick_in_levels ops test end_key ls)
    (map (\<lambda>l. filter sel (levels ! l)) ls)"
  using assms
proof (induction ls)
  case Nil
  then show ?case by (simp add: reads_intros)
next
  case (Cons l ls)
  have l: "l < length opts" "l < length levels" using Cons.prems by auto
  have IH: "vm_reads objects decompress crc32 tabs opts levels (pick_in_levels ops test end_key ls)
    (map (\<lambda>l. filter sel (levels ! l)) ls)" using Cons.IH Cons.prems by simp
  show ?case unfolding pick_in_levels.simps list.map
    by (rule reads_vbind[OF reads_vget, of _ _ _ "lo_compaction_strategy (opts ! l)"], use l in simp,
        rule reads_vbind[OF reads_vget, of _ _ _ "levels ! l"], use l in \<open>simp add: index_def\<close>,
        rule reads_vbind[of _ _ _ _ _ _ _ "filter sel (levels ! l)"], use Cons.prems in simp,
        rule reads_vbind[OF IH], rule reads_vok)
qed

end

section \<open>Tables of versions\<close>

text \<open>A filter covers the versions of its table: it answers for every key, and yes for those it holds.\<close>

definition filter_covers :: "(bytes \<Rightarrow> u32) \<Rightarrow> sstable_meta \<Rightarrow> version_entry list \<Rightarrow> bool" where
  "filter_covers fingerprint32 m xs \<longleftrightarrow>
     (\<forall>k. \<exists>b. meta_may_contain_key fingerprint32 m k = Ok b \<and> (k \<in> fst ` set xs \<longrightarrow> b))"

definition versions_table :: "(bytes \<Rightarrow> u32) \<Rightarrow> (nat \<rightharpoonup> table) \<Rightarrow> nat \<Rightarrow> version_entry list \<Rightarrow> bool" where
  "versions_table fingerprint32 tabs i xs \<longleftrightarrow>
     (\<exists>r bss m. tabs i = Some (r, bss, m) \<and> bss \<noteq> [] \<and> concat bss = map entry_of xs \<and>
        versions_sorted xs \<and> filter_covers fingerprint32 m xs)"

lemma built_filter_covers:
  assumes "build_from_key_hashes (map (fingerprint32 \<circ> fst) xs) n = Ok (sm_bloom_filter_bytes m)"
    and "length xs * n + 64 < 2 ^ 32"
  shows "filter_covers fingerprint32 m xs"
proof -
  obtain bl where "bloom_new (sm_bloom_filter_bytes m) = Ok bl"
    "\<forall>h. \<exists>b. may_contain bl h = Ok b \<and> (h \<in> (fingerprint32 \<circ> fst) ` set xs \<longrightarrow> b)"
    using bloom_built[of "map (fingerprint32 \<circ> fst) xs" n] assms by auto
  then show ?thesis unfolding filter_covers_def meta_may_contain_key_def by (simp add: image_comp[symmetric]) blast
qed

lemma last_concat_blocks: "bss \<noteq> [] \<Longrightarrow> last bss \<noteq> [] \<Longrightarrow> last (concat bss) = last (last bss)"
  by (induction bss rule: rev_induct) auto

lemma versions_table_meta:
  assumes "ss_inv objects decompress crc32 tabs st" "tabs i = Some (r, bss, m)"
    and "bss \<noteq> []" "concat bss = map entry_of xs"
  shows "xs \<noteq> []" "meta_first_key m = Ok (full_key (fst (hd xs)) (fst (snd (hd xs))))"
    "meta_last_key m = Ok (full_key (fst (last xs)) (fst (snd (last xs))))"
proof -
  obtain data where t: "table_holds decompress crc32 r bss m data"
    using assms(1,2) by (fastforce simp: ss_inv_def table_stored_def)
  have ne: "\<forall>b \<in> set bss. b \<noteq> []" using t by (auto simp: table_holds_def in_set_conv_nth)
  have len: "length (sm_block_metas m) = length bss" and n: "0 < length bss" using t assms(3) by (auto simp: table_holds_def)
  have ends: "hd (concat bss) = hd (hd bss)" "last (concat bss) = last (last bss)" "concat bss \<noteq> []"
    using assms(3) ne by (auto simp: hd_concat last_concat_blocks)
  then show xs: "xs \<noteq> []" using assms(4) by auto
  have "bm_first_key (sm_block_metas m ! 0) = fst (hd (bss ! 0))"
    "bm_last_key (sm_block_metas m ! (length bss - 1)) = fst (last (bss ! (length bss - 1)))"
    using t n by (auto simp: table_holds_def)
  moreover have "hd (bss ! 0) = entry_of (hd xs)" "last (bss ! (length bss - 1)) = entry_of (last xs)"
    using ends assms(3,4) xs by (auto simp: hd_conv_nth last_conv_nth hd_map last_map)
  moreover have "sm_block_metas m \<noteq> []" using len n by auto
  then have "first_of (sm_block_metas m) = Some (sm_block_metas m ! 0)"
    "last_of (sm_block_metas m) = Some (sm_block_metas m ! (length bss - 1))"
    by (auto simp: last_of_def last_conv_nth len[symmetric] neq_Nil_conv)
  ultimately show "meta_first_key m = Ok (full_key (fst (hd xs)) (fst (snd (hd xs))))"
    "meta_last_key m = Ok (full_key (fst (last xs)) (fst (snd (last xs))))"
    by (simp_all add: meta_first_key_def meta_last_key_def entry_of_def split: prod.splits)
qed

lemma versions_between:
  assumes "key_sorted (map entry_of xs)" "x \<in> set xs"
  shows "fst (hd xs) \<le> fst x \<and> fst x \<le> fst (last xs)"
proof -
  obtain i where i: "i < length xs" "x = xs ! i" using assms(2) by (auto simp: in_set_conv_nth)
  have le: "fst (xs ! a) \<le> fst (xs ! b)" if "a \<le> b" "b < length xs" for a b
  proof (cases "a = b")
    case False
    then have "key_less (map entry_of xs ! a) (map entry_of xs ! b)"
      using that assms(1) sorted_wrt_nth_less[of key_less "map entry_of xs" a b] by (simp add: key_sorted_def)
    then show ?thesis using that by (auto simp: entry_of_def key_ord_full_key_less split: prod.splits)
  qed simp
  have "xs \<noteq> []" using i by auto
  then show ?thesis using le[of 0 i] le[of i "length xs - 1"] i by (auto simp: hd_conv_nth last_conv_nth)
qed

section \<open>Managers that agree\<close>

text \<open>Two managers agree when they differ only in the caches and objects of their stores, which both hold
  the tables \<open>tabs\<close>, the tables of the levels among them. A call keeps them in agreement when it returns
  the same outcome on both, a value of \<open>Q\<close> where it succeeds, leaves them in agreement and records no diff.\<close>

definition vm_agree ::
  "('os \<Rightarrow> string \<rightharpoonup> bytes) \<Rightarrow> (bytes \<Rightarrow> bytes option) \<Rightarrow> (bytes \<Rightarrow> nat) \<Rightarrow> (nat \<rightharpoonup> table) \<Rightarrow>
     'os version_manager \<Rightarrow> 'os version_manager \<Rightarrow> bool" where
  "vm_agree objects decompress crc32 tabs vm vm' \<longleftrightarrow>
     vm_level_options vm = vm_level_options vm' \<and> vm_levels vm = vm_levels vm' \<and>
     vm_levels_data_size vm = vm_levels_data_size vm' \<and> vm_diffs vm = vm_diffs vm' \<and>
     ss_inv objects decompress crc32 tabs (vm_store vm) \<and> ss_inv objects decompress crc32 tabs (vm_store vm') \<and>
     (\<forall>is \<in> set (vm_levels vm). set is \<subseteq> dom tabs)"

definition vm_sim ::
  "('os \<Rightarrow> string \<rightharpoonup> bytes) \<Rightarrow> (bytes \<Rightarrow> bytes option) \<Rightarrow> (bytes \<Rightarrow> nat) \<Rightarrow> (nat \<rightharpoonup> table) \<Rightarrow>
     ('os, 'a) vm_call \<Rightarrow> ('a \<Rightarrow> bool) \<Rightarrow> bool" where
  "vm_sim objects decompress crc32 tabs c Q \<longleftrightarrow>
     (\<forall>vm vm'. vm_agree objects decompress crc32 tabs vm vm' \<longrightarrow>
        (\<exists>r vm1 vm1'. c vm = (r, vm1) \<and> c vm' = (r, vm1') \<and> vm_agree objects decompress crc32 tabs vm1 vm1' \<and>
           vm_diffs vm1 = vm_diffs vm \<and> (\<forall>a. r = Ok a \<longrightarrow> Q a)))"

lemma sim_vok: "Q a \<Longrightarrow> vm_sim objects decompress crc32 tabs (vok a) Q"
  by (simp add: vm_sim_def vok_def)

lemma sim_vres: "(\<And>a. r = Ok a \<Longrightarrow> Q a) \<Longrightarrow> vm_sim objects decompress crc32 tabs (vres r) Q"
  by (simp add: vm_sim_def vres_def)

lemma sim_vget:
  assumes "\<And>vm vm'. vm_agree objects decompress crc32 tabs vm vm' \<Longrightarrow> f vm = f vm' \<and> (\<forall>a. f vm = Ok a \<longrightarrow> Q a)"
  shows "vm_sim objects decompress crc32 tabs (vget f) Q"
  using assms unfolding vm_sim_def vget_def by auto

lemma sim_vbind:
  assumes c: "vm_sim objects decompress crc32 tabs c Q" and f: "\<And>a. Q a \<Longrightarrow> vm_sim objects decompress crc32 tabs (f a) R"
  shows "vm_sim objects decompress crc32 tabs (vbind c f) R"
proof (unfold vm_sim_def, intro allI impI)
  fix vm vm' :: "'a version_manager" assume "vm_agree objects decompress crc32 tabs vm vm'"
  then obtain r vm1 vm1' where r: "c vm = (r, vm1)" "c vm' = (r, vm1')" "vm_agree objects decompress crc32 tabs vm1 vm1'"
    "\<forall>a. r = Ok a \<longrightarrow> Q a" "vm_diffs vm1 = vm_diffs vm" using c unfolding vm_sim_def by blast
  show "\<exists>r vm1 vm1'. vbind c f vm = (r, vm1) \<and> vbind c f vm' = (r, vm1') \<and>
      vm_agree objects decompress crc32 tabs vm1 vm1' \<and> vm_diffs vm1 = vm_diffs vm \<and> (\<forall>a. r = Ok a \<longrightarrow> R a)"
  proof (cases r)
    case (Ok a)
    then obtain r2 vm2 vm2' where "f a vm1 = (r2, vm2)" "f a vm1' = (r2, vm2')" "vm_agree objects decompress crc32 tabs vm2 vm2'"
      "\<forall>b. r2 = Ok b \<longrightarrow> R b" "vm_diffs vm2 = vm_diffs vm1" using r(3,4) f[of a] unfolding vm_sim_def by blast
    then show ?thesis using r(1,2,5) Ok by (simp add: vbind_def)
  qed (use r in \<open>simp_all add: vbind_def\<close>)
qed

lemma sim_vfold:
  assumes "\<And>x. x \<in> set xs \<Longrightarrow> vm_sim objects decompress crc32 tabs (f x) (\<lambda>_. True)"
  shows "vm_sim objects decompress crc32 tabs (vfold f xs) (\<lambda>_. True)"
  using assms by (induction xs) (auto intro!: sim_vok sim_vbind)

lemma sim_set_level:
  "set is \<subseteq> dom tabs \<Longrightarrow> vm_sim objects decompress crc32 tabs (vm_set_level level is) (\<lambda>_. True)"
  by (auto simp: vm_sim_def vm_set_level_def vm_agree_def dest!: set_update_subset_insert[THEN subsetD])

lemma sim_set_size: "vm_sim objects decompress crc32 tabs (vm_set_size level n) (\<lambda>_. True)"
  by (auto simp: vm_sim_def vm_set_size_def vm_agree_def)

lemma sim_level:
  "vm_sim objects decompress crc32 tabs (vget (\<lambda>vm. index (vm_levels vm) l)) (\<lambda>is. set is \<subseteq> dom tabs)"
  by (rule sim_vget) (auto simp: vm_agree_def index_def split: if_splits)

lemma sim_delete_sstable: "vm_sim objects decompress crc32 tabs (delete_sstable d) (\<lambda>_. True)"
  unfolding delete_sstable_def
  by (rule sim_vbind[OF sim_level])
    (auto intro!: sim_vbind[OF sim_set_level] sim_vres sim_vbind[OF sim_vget[where Q = "\<lambda>_. True"]] sim_set_size
      simp: vm_agree_def dest: subsetD[OF set_remove1_subset])

lemma inserted_in: "set is \<subseteq> A \<Longrightarrow> i \<in> A \<Longrightarrow> set (take n is @ i # drop n is) \<subseteq> A"
  using set_take_subset[of n "is"] set_drop_subset[of n "is"] by auto

lemma previous_in: "set is \<subseteq> A \<Longrightarrow> 0 < n \<Longrightarrow> n \<le> length is \<Longrightarrow> is ! (n - Suc 0) \<in> A"
  by (rule subsetD[of "set is"]) simp_all

context object_store
begin

lemma sim_sstable:
  assumes "i \<in> dom tabs"
  shows "vm_sim objects decompress crc32 tabs (vm_sstable ops i) (\<lambda>_. True)"
proof (unfold vm_sim_def, intro allI impI)
  fix vm vm' assume agree: "vm_agree objects decompress crc32 tabs vm vm'"
  obtain r bss m where t: "tabs i = Some (r, bss, m)" using assms by auto
  obtain st where st: "ss_sstable ops i (vm_store vm) = Ok (\<lparr>sst_id = i, sst_meta = m\<rparr>, st)" "ss_inv objects decompress crc32 tabs st"
    using sstable_inv[of decompress crc32 tabs "vm_store vm" i r bss m] agree t unfolding vm_agree_def by blast
  obtain st' where st': "ss_sstable ops i (vm_store vm') = Ok (\<lparr>sst_id = i, sst_meta = m\<rparr>, st')" "ss_inv objects decompress crc32 tabs st'"
    using sstable_inv[of decompress crc32 tabs "vm_store vm'" i r bss m] agree t unfolding vm_agree_def by blast
  show "\<exists>r vm1 vm1'. vm_sstable ops i vm = (r, vm1) \<and> vm_sstable ops i vm' = (r, vm1') \<and>
      vm_agree objects decompress crc32 tabs vm1 vm1' \<and> vm_diffs vm1 = vm_diffs vm \<and> (\<forall>a. r = Ok a \<longrightarrow> True)"
    using st st' agree by (simp add: vm_sstable_def vm_agree_def)
qed

lemma sim_insert_position:
  "set is \<subseteq> dom tabs \<Longrightarrow>
    vm_sim objects decompress crc32 tabs (insert_position ops sst idx is) (\<lambda>n. n \<le> idx + length is)"
proof (induction "is" arbitrary: idx)
  case Nil
  show ?case by (simp add: sim_vok)
next
  case (Cons i "is")
  have IH: "vm_sim objects decompress crc32 tabs (insert_position ops sst (Suc idx) is) (\<lambda>n. n \<le> idx + length (i # is))"
    using Cons.IH[of "Suc idx"] Cons.prems by simp
  show ?case unfolding insert_position.simps
    by (rule sim_vbind[OF sim_sstable], use Cons.prems in simp,
        rule sim_vbind[OF sim_vres, where Q = "\<lambda>_. True"], simp,
        rule sim_vbind[OF sim_vres, where Q = "\<lambda>_. True"], simp)
      (use IH in \<open>auto intro!: sim_vok\<close>)
qed

lemma sim_insert_sstable:
  assumes "sd_id d \<in> dom tabs"
  shows "vm_sim objects decompress crc32 tabs (insert_sstable ops strategy d) (\<lambda>_. True)"
  unfolding insert_sstable_def
  by (rule sim_vbind[OF sim_sstable[OF assms]], rule sim_vbind[OF sim_level], rule sim_vbind[OF sim_insert_position],
      assumption, rule sim_vbind[OF sim_set_level], rule inserted_in, assumption, rule assms,
      rule sim_vbind[OF sim_vget[where Q = "\<lambda>_. True"]], simp add: vm_agree_def, rule sim_vbind[OF sim_set_size])
    (auto intro!: sim_vok sim_vres sim_vbind[OF sim_sstable[OF previous_in]] sim_vbind[OF sim_vres, where Q = "\<lambda>_. True"])

lemma sim_apply_sstable_diff:
  assumes "sd_id d \<in> dom tabs"
  shows "vm_sim objects decompress crc32 tabs (apply_sstable_diff ops d) (\<lambda>_. True)"
  unfolding apply_sstable_diff_def
  by (rule sim_vbind[OF sim_vget[where Q = "\<lambda>_. True"]])
    (auto simp: vm_agree_def sim_delete_sstable sim_insert_sstable[OF assms] split: sstable_op.split)

end

section \<open>Properties\<close>

text \<open>What \<open>pick_overlap_ssts_by_key\<close> selects: the tables whose filter and key range admit the key.\<close>

definition admits :: "(bytes \<Rightarrow> u32) \<Rightarrow> (nat \<rightharpoonup> table) \<Rightarrow> bytes \<Rightarrow> nat \<Rightarrow> bool" where
  "admits fingerprint32 tabs key i \<longleftrightarrow>
     (\<exists>r bss m. tabs i = Some (r, bss, m) \<and> meta_may_contain_key fingerprint32 m key = Ok True \<and>
        meta_is_overlap_with_user_key_range m (key, key) = Ok True)"

context object_store
begin

lemma reads_pick_by_key:
  assumes inv: "ss_inv objects decompress crc32 tabs st0"
    and levels: "a \<le> b" "b \<le> length levels" "b \<le> length opts"
    and tabs: "\<forall>l \<in> {a..<b}. \<forall>i \<in> set (levels ! l). versions_table fingerprint32 tabs i (xs i)"
    and sorted: "\<forall>l \<in> {a..<b}. lo_compaction_strategy (opts ! l) = NonOverlap \<longrightarrow>
      sorted_wrt (\<lambda>i j. fst (hd (xs i)) \<le> fst (hd (xs j))) (levels ! l)"
  shows "vm_reads objects decompress crc32 tabs opts levels (pick_overlap_ssts_by_key ops fingerprint32 (a, b) key)
    (map (\<lambda>l. filter (admits fingerprint32 tabs key) (levels ! l)) [a..<b])"
proof -
  define test where "test = (\<lambda>sst. rbind (sst_may_contain_key fingerprint32 sst key) (\<lambda>may.
    if may then sst_is_overlap_with_user_key_range sst (key, key) else Ok False))"
  define m where "m i = snd (snd (the (tabs i)))" for i
  have lvl: "vm_reads objects decompress crc32 tabs opts levels
      (pick_in_level ops (lo_compaction_strategy (opts ! l)) test key (levels ! l))
      (filter (admits fingerprint32 tabs key) (levels ! l))" if l: "l \<in> {a..<b}" for l
  proof (rule reads_pick_in_level[where m = m and lo = "\<lambda>i. fst (hd (xs i))"])
    have t: "\<exists>r bss. tabs i = Some (r, bss, m i) \<and> test \<lparr>sst_id = i, sst_meta = m i\<rparr> = Ok (admits fingerprint32 tabs key i) \<and>
      rbind (meta_first_key (m i)) user_key = Ok (fst (hd (xs i))) \<and> (admits fingerprint32 tabs key i \<longrightarrow> fst (hd (xs i)) \<le> key)"
      if i: "i \<in> set (levels ! l)" for i
    proof -
      obtain r bss m' where v: "tabs i = Some (r, bss, m')" "bss \<noteq> []" "concat bss = map entry_of (xs i)"
        "filter_covers fingerprint32 m' (xs i)"
        using tabs l i unfolding versions_table_def by blast
      then have [simp]: "m i = m'" by (simp add: m_def)
      obtain may where "meta_may_contain_key fingerprint32 m' key = Ok may" using v(4) unfolding filter_covers_def by blast
      then show ?thesis using v(1) versions_table_meta[OF inv v(1-3)]
        by (auto simp: test_def admits_def sst_may_contain_key_def sst_is_overlap_with_user_key_range_def
            meta_is_overlap_with_user_key_range_def)
    qed
    then show "\<forall>i \<in> set (levels ! l). \<exists>r bss. tabs i = Some (r, bss, m i)"
      "\<forall>i \<in> set (levels ! l). test \<lparr>sst_id = i, sst_meta = m i\<rparr> = Ok (admits fingerprint32 tabs key i)"
      "\<forall>i \<in> set (levels ! l). rbind (meta_first_key (m i)) user_key = Ok (fst (hd (xs i))) \<and>
        (admits fingerprint32 tabs key i \<longrightarrow> fst (hd (xs i)) \<le> key)" by blast+
    show "sorted_wrt (\<lambda>i j. fst (hd (xs i)) \<le> fst (hd (xs j))) (levels ! l)"
      if "lo_compaction_strategy (opts ! l) = NonOverlap" using sorted l that by blast
  qed
  have "vm_reads objects decompress crc32 tabs opts levels (pick_in_levels ops test key [a..<b])
    (map (\<lambda>l. filter (admits fingerprint32 tabs key) (levels ! l)) [a..<b])"
    using lvl levels by (intro reads_pick_in_levels) auto
  then show ?thesis unfolding pick_overlap_ssts_by_key_def test_def
    by (intro reads_vbind[OF reads_vres, of _ "b - a"]) (use levels in simp_all)
qed

end

lemma admits_version:
  assumes "ss_inv objects decompress crc32 tabs st" "versions_table fingerprint32 tabs i xs" "key \<in> fst ` set xs"
  shows "admits fingerprint32 tabs key i"
proof -
  obtain r bss m where v: "tabs i = Some (r, bss, m)" "bss \<noteq> []" "concat bss = map entry_of xs"
    "key_sorted (map entry_of xs)" "filter_covers fingerprint32 m xs"
    using assms(2) unfolding versions_table_def by blast
  have "meta_may_contain_key fingerprint32 m key = Ok True" using v(5) assms(3) unfolding filter_covers_def by fastforce
  moreover have "meta_is_overlap_with_user_key_range m (key, key) = Ok True"
    using versions_table_meta[OF assms(1) v(1-3)] versions_between[OF v(4)] assms(3)
    by (auto simp: meta_is_overlap_with_user_key_range_def not_less)
  ultimately show ?thesis using v(1) unfolding admits_def by blast
qed

text \<open>C17. No table is missed: over a store that holds the tables of the levels, picking the tables for a
  key returns, level by level and in the order of the level, a selection that contains every table
  with a version of the key, although filters reject tables and a sorted non-overlap level is left at
  the first table past the key. Nothing but the store's caches changes.\<close>

theorem pick_by_key_misses_no_table:
  assumes run: "ss_run mem_object_store_ops decompress crc32 tabs (vm_store vm)"
    and levels: "a \<le> b" "b \<le> length (vm_levels vm)" "b \<le> length (vm_level_options vm)"
    and tabs: "\<forall>l \<in> {a..<b}. \<forall>i \<in> set (vm_levels vm ! l). versions_table fingerprint32 tabs i (xs i)"
    and sorted: "\<forall>l \<in> {a..<b}. lo_compaction_strategy (vm_level_options vm ! l) = NonOverlap \<longrightarrow>
      sorted_wrt (\<lambda>i j. fst (hd (xs i)) \<le> fst (hd (xs j))) (vm_levels vm ! l)"
  shows "\<exists>picks st. pick_overlap_ssts_by_key mem_object_store_ops fingerprint32 (a, b) key vm = (Ok picks, vm\<lparr>vm_store := st\<rparr>) \<and>
    length picks = b - a \<and>
    (\<forall>l < b - a. subseq (picks ! l) (vm_levels vm ! (a + l)) \<and>
      (\<forall>i \<in> set (vm_levels vm ! (a + l)). key \<in> fst ` set (xs i) \<longrightarrow> i \<in> set (picks ! l)))"
proof -
  note inv = mem_os.run_inv[OF run]
  obtain st where "pick_overlap_ssts_by_key mem_object_store_ops fingerprint32 (a, b) key vm =
      (Ok (map (\<lambda>l. filter (admits fingerprint32 tabs key) (vm_levels vm ! l)) [a..<b]), vm\<lparr>vm_store := st\<rparr>)"
    using mem_os.reads_pick_by_key[OF inv levels tabs sorted] inv unfolding vm_reads_def by blast
  moreover have "admits fingerprint32 tabs key i"
    if "l < b - a" "i \<in> set (vm_levels vm ! (a + l))" "key \<in> fst ` set (xs i)" for l i
    by (rule admits_version[OF inv, of fingerprint32 i "xs i"]) (use tabs that in auto)
  ultimately show ?thesis by (auto simp: nth_append)
qed

context object_store
begin

lemma update_replays:
  assumes agree: "vm_agree objects decompress crc32 tabs vm vm'"
    and ids: "\<forall>d \<in> set (vd_sstable_diffs diff). sd_id d \<in> dom tabs" and upd: "vm_update ops diff False vm = (Ok (), vm1)"
  defines "diff' \<equiv> diff\<lparr>vd_id := Suc (vm_latest_version_id vm)\<rparr>"
  shows "\<exists>vm1'. vm_update ops diff' True vm' = (Ok (), vm1') \<and> vm_agree objects decompress crc32 tabs vm1 vm1' \<and>
    vm_diffs vm1 = vm_diffs vm @ [diff']"
proof -
  define c where "c = vbind (vfold (apply_sstable_diff ops) (vd_sstable_diffs diff)) (\<lambda>_. vm_push_diff diff')"
  have add: "add_u64 (vm_latest_version_id vm) 1 = Ok (Suc (vm_latest_version_id vm))"
  proof (rule ccontr)
    assume "\<not> ?thesis"
    then have "add_u64 (vm_latest_version_id vm) 1 = Panic" by (auto simp: add_u64_def split: if_splits)
    then show False using upd by (simp add: vm_update_def vbind_def vget_def)
  qed
  then have "vm_update ops diff False vm = c vm" by (simp add: vm_update_def vbind_def vget_def c_def diff'_def)
  moreover have eq: "vm_diffs vm' = vm_diffs vm" using agree by (simp add: vm_agree_def)
  then have "vm_latest_version_id vm' = vm_latest_version_id vm" by (simp add: vm_latest_version_id_def)
  then have "vm_update ops diff' True vm' = c vm'"
    using add by (simp add: vm_update_def vbind_def vget_def c_def diff'_def Let_def)
  moreover have "vm_sim objects decompress crc32 tabs (vfold (apply_sstable_diff ops) (vd_sstable_diffs diff)) (\<lambda>_. True)"
    using ids by (intro sim_vfold sim_apply_sstable_diff) blast
  then obtain r vm2 vm2' where "vfold (apply_sstable_diff ops) (vd_sstable_diffs diff) vm = (r, vm2)"
    "vfold (apply_sstable_diff ops) (vd_sstable_diffs diff) vm' = (r, vm2')" "vm_agree objects decompress crc32 tabs vm2 vm2'"
    "vm_diffs vm2 = vm_diffs vm" using agree unfolding vm_sim_def by blast
  ultimately show ?thesis using upd
    by (cases r) (auto simp: c_def vbind_def vm_push_diff_def vm_agree_def)
qed

end

lemma collect_diffs_from:
  assumes "\<forall>d \<in> set ds. vd_id d < s" "\<forall>e \<in> set es. s \<le> vd_id e" "length es \<le> max_len"
  shows "collect_diffs s max_len [] (ds @ es) = es"
proof -
  have "collect_diffs s max_len acc es = acc @ es" if "length acc + length es \<le> max_len" for acc
    using that assms(2)
  proof (induction es arbitrary: acc)
    case (Cons e es)
    have "es = []" if "max_len \<le> Suc (length acc)" using Cons.prems(1) that by (cases es) auto
    then show ?case using Cons by (auto simp: Let_def)
  qed simp
  then show ?thesis using assms(1,3) by (induction ds) (auto simp: Let_def)
qed

lemma latest_version_id_max:
  assumes "sorted (map vd_id (vm_diffs vm))" "d \<in> set (vm_diffs vm)"
  shows "vd_id d \<le> vm_latest_version_id vm"
  using assms by (cases "vm_diffs vm" rule: rev_cases) (auto simp: vm_latest_version_id_def last_of_def sorted_append)

context object_store
begin

lemma updates_replay:
  assumes "vm_agree objects decompress crc32 tabs vm vm'"
    and "\<forall>diff \<in> set ds. \<forall>d \<in> set (vd_sstable_diffs diff). sd_id d \<in> dom tabs"
    and "vfold (\<lambda>diff. vm_update ops diff False) ds vm = (Ok (), vm1)"
  shows "\<exists>es vm1'. vm_diffs vm1 = vm_diffs vm @ es \<and> map vd_id es = [Suc (vm_latest_version_id vm)..<Suc (vm_latest_version_id vm) + length ds] \<and>
    vfold (\<lambda>diff. vm_update ops diff True) es vm' = (Ok (), vm1') \<and> vm_agree objects decompress crc32 tabs vm1 vm1'"
  using assms
proof (induction ds arbitrary: vm vm')
  case Nil
  then show ?case by (auto simp: vok_def)
next
  case (Cons diff ds)
  let ?diff = "diff\<lparr>vd_id := Suc (vm_latest_version_id vm)\<rparr>"
  obtain vm2 where u: "vm_update ops diff False vm = (Ok (), vm2)"
    "vfold (\<lambda>diff. vm_update ops diff False) ds vm2 = (Ok (), vm1)"
    using Cons.prems(3) by (auto simp: vbind_def split: prod.splits result.splits)
  obtain vm2' where r: "vm_update ops ?diff True vm' = (Ok (), vm2')" "vm_agree objects decompress crc32 tabs vm2 vm2'"
    "vm_diffs vm2 = vm_diffs vm @ [?diff]"
    using update_replays[OF Cons.prems(1) _ u(1)] Cons.prems(2) by auto
  have l: "vm_latest_version_id vm2 = Suc (vm_latest_version_id vm)" using r(3) by (simp add: vm_latest_version_id_def last_of_def)
  from Cons.IH[OF r(2) _ u(2)] Cons.prems(2) obtain es vm1' where
    "vm_diffs vm1 = vm_diffs vm2 @ es" "map vd_id es = [Suc (vm_latest_version_id vm2)..<Suc (vm_latest_version_id vm2) + length ds]"
    "vfold (\<lambda>diff. vm_update ops diff True) es vm2' = (Ok (), vm1')" "vm_agree objects decompress crc32 tabs vm1 vm1'"
    by auto
  then show ?case using r(1,3) l by (intro exI[of _ "?diff # es"] exI[of _ vm1']) (auto simp: vbind_def upt_conv_Cons simp del: upt_Suc)
qed

end

text \<open>A replica catches up: starting from the same levels, whatever diffs the primary numbers and
  applies, the diffs it then hands out from the next version on are accepted one after another by the
  replica, which ends with the primary's levels, level sizes and history. The stores may differ in
  their caches and hold the same tables.\<close>

theorem replica_catches_up:
  assumes "vm_agree mo_objects decompress crc32 tabs vm vm'" "sorted (map vd_id (vm_diffs vm))"
    and "\<forall>diff \<in> set ds. \<forall>d \<in> set (vd_sstable_diffs diff). sd_id d \<in> dom tabs" "ds \<noteq> []" "length ds \<le> max_len"
    and "vfold (\<lambda>diff. vm_update mem_object_store_ops diff False) ds vm = (Ok (), vm1)"
  shows "\<exists>es vm1'. vm_version_diffs_from (vm_latest_version_id vm + 1) max_len vm1 = Ok es \<and> length es = length ds \<and>
    vfold (\<lambda>diff. vm_update mem_object_store_ops diff True) es vm' = (Ok (), vm1') \<and>
    vm_levels vm1' = vm_levels vm1 \<and> vm_levels_data_size vm1' = vm_levels_data_size vm1 \<and> vm_diffs vm1' = vm_diffs vm1"
proof -
  obtain es vm1' where es: "vm_diffs vm1 = vm_diffs vm @ es"
    "map vd_id es = [Suc (vm_latest_version_id vm)..<Suc (vm_latest_version_id vm) + length ds]"
    "vfold (\<lambda>diff. vm_update mem_object_store_ops diff True) es vm' = (Ok (), vm1')"
    "vm_agree mo_objects decompress crc32 tabs vm1 vm1'"
    using mem_os.updates_replay[OF assms(1,3,6)] by blast
  have len: "length es = length ds" using arg_cong[OF es(2), of length] by (simp del: upt_Suc)
  have old: "\<forall>d \<in> set (vm_diffs vm). vd_id d < vm_latest_version_id vm + 1"
    using latest_version_id_max[OF assms(2)] by (auto simp: less_Suc_eq_le)
  have "vd_id ` set es = set [Suc (vm_latest_version_id vm)..<Suc (vm_latest_version_id vm) + length ds]"
    using arg_cong[OF es(2), of set] by (simp del: upt_Suc)
  then have new: "\<forall>e \<in> set es. vm_latest_version_id vm + 1 \<le> vd_id e" by (auto simp del: upt_Suc)
  have c: "collect_diffs (vm_latest_version_id vm + 1) max_len [] (vm_diffs vm @ es) = es"
    by (rule collect_diffs_from[OF old new]) (use len assms(5) in simp)
  have "vm_version_diffs_from (vm_latest_version_id vm + 1) max_len vm1 = Ok es"
    using c old es(1,2) assms(4) by (cases "vm_diffs vm"; cases es) (auto simp: vm_version_diffs_from_def upt_conv_Cons simp del: upt_Suc)
  then show ?thesis using es(3,4) len unfolding vm_agree_def by auto
qed

lemma two_filtered_tables_run:
  "\<exists>m st. ss_run mem_object_store_ops stored_decompress (\<lambda>_. 7)
      [5 \<mapsto> (2, [map entry_of union_versions], m), 6 \<mapsto> (2, [map entry_of union_versions], m)] st \<and>
    filter_covers (\<lambda>_. 1) m union_versions"
proof -
  obtain m0 data where t0: "table_holds stored_decompress (\<lambda>_. 7) 2 [map entry_of union_versions] m0 data" "meta_fits m0"
    using single_block_table[of "map entry_of union_versions"] union_versions_ok
    by (auto simp: union_versions_def entry_of_def raw_value_def)
  define m where "m = m0\<lparr>sm_bloom_filter_bytes := [31]\<rparr>"
  have t: "table_holds stored_decompress (\<lambda>_. 7) 2 [map entry_of union_versions] m data" "meta_fits m"
    using t0 by (simp_all add: m_def table_holds_def meta_fits_def)
  let ?st0 = "sstable_store_new ''t'' \<lparr>mo_objects = Map.empty\<rparr> Map.empty"
  obtain st1 where p1: "ss_put mem_object_store_ops stored_decompress (\<lambda>_. 7) \<lparr>sst_id = 5, sst_meta = m\<rparr> data Disable ?st0 =
      (Ok (), st1)" using mem_put_Ok by blast
  obtain st where p2: "ss_put mem_object_store_ops stored_decompress (\<lambda>_. 7) \<lparr>sst_id = 6, sst_meta = m\<rparr> data Disable st1 =
      (Ok (), st)" using mem_put_Ok by blast
  have "ss_run mem_object_store_ops stored_decompress (\<lambda>_. 7) [5 \<mapsto> (2, [map entry_of union_versions], m)] st1"
    by (rule run_put[OF run_new _ _ t(2,1) p1]) simp_all
  from run_put[OF this _ _ t(2,1) p2] have "ss_run mem_object_store_ops stored_decompress (\<lambda>_. 7)
      [5 \<mapsto> (2, [map entry_of union_versions], m), 6 \<mapsto> (2, [map entry_of union_versions], m)] st" by simp
  moreover have "filter_covers (\<lambda>_. 1) m union_versions"
    by (auto simp: filter_covers_def meta_may_contain_key_def m_def bloom_new_def slice_def index_def may_contain_def)
  ultimately show ?thesis by blast
qed

abbreviation example_manager :: "nat list \<Rightarrow> mem_object_store sstable_store \<Rightarrow> mem_object_store version_manager" where
  "example_manager level st \<equiv>
     \<lparr>vm_level_options = [\<lparr>lo_compaction_strategy = NonOverlap, lo_compression_algorithm = Lz4\<rparr>], vm_levels = [level],
      vm_levels_data_size = [0], vm_diffs = [], vm_store = st, vm_watermark = 0\<rparr>"

theorem pick_by_key_misses_no_table_witness:
  "\<exists>st picks st'. pick_overlap_ssts_by_key mem_object_store_ops (\<lambda>_. 1) (0, 1) [107, 49] (example_manager [5, 6] st) =
      (Ok picks, example_manager [5, 6] st') \<and> 6 \<in> set (picks ! 0)"
proof -
  obtain m st where run: "ss_run mem_object_store_ops stored_decompress (\<lambda>_. 7)
      [5 \<mapsto> (2, [map entry_of union_versions], m), 6 \<mapsto> (2, [map entry_of union_versions], m)] st"
    "filter_covers (\<lambda>_. 1) m union_versions" using two_filtered_tables_run by blast
  have "versions_table (\<lambda>_. 1) [5 \<mapsto> (2, [map entry_of union_versions], m), 6 \<mapsto> (2, [map entry_of union_versions], m)] i union_versions"
    if "i \<in> {5, 6}" for i
    using that run(2) union_versions_ok by (auto simp: versions_table_def)
  moreover have "[107, 49] \<in> fst ` set union_versions" by (simp add: union_versions_def)
  ultimately have "\<exists>picks st'. pick_overlap_ssts_by_key mem_object_store_ops (\<lambda>_. 1) (0, 1) [107, 49] (example_manager [5, 6] st) =
      (Ok picks, (example_manager [5, 6] st)\<lparr>vm_store := st'\<rparr>) \<and> length picks = 1 - 0 \<and>
      (\<forall>l < 1 - 0. subseq (picks ! l) (vm_levels (example_manager [5, 6] st) ! (0 + l)) \<and>
        (\<forall>i \<in> set (vm_levels (example_manager [5, 6] st) ! (0 + l)). [107, 49] \<in> fst ` set union_versions \<longrightarrow> i \<in> set (picks ! l)))"
    by (intro pick_by_key_misses_no_table) (use run(1) in auto)
  then show ?thesis using \<open>[107, 49] \<in> fst ` set union_versions\<close> by auto
qed

theorem replica_catches_up_witness:
  "\<exists>st vm1 es vm1'. vfold (\<lambda>diff. vm_update mem_object_store_ops diff False)
      [\<lparr>vd_id = 0, vd_sstable_diffs = [\<lparr>sd_id = 5, sd_level = 0, sd_op = Insert, sd_data_size = 10\<rparr>]\<rparr>] (example_manager [] st) = (Ok (), vm1) \<and>
    vm_version_diffs_from 1 8 vm1 = Ok es \<and> length es = 1 \<and>
    vfold (\<lambda>diff. vm_update mem_object_store_ops diff True) es (example_manager [] st) = (Ok (), vm1') \<and> vm_levels vm1' = [[5]]"
proof -
  obtain m st where run: "ss_run mem_object_store_ops stored_decompress (\<lambda>_. 7)
      [5 \<mapsto> (2, [map entry_of union_versions], m), 6 \<mapsto> (2, [map entry_of union_versions], m)] st" using two_filtered_tables_run by blast
  let ?tabs = "[5 \<mapsto> (2, [map entry_of union_versions], m), 6 \<mapsto> (2, [map entry_of union_versions], m)]"
  let ?ds = "[\<lparr>vd_id = 0, vd_sstable_diffs = [\<lparr>sd_id = 5, sd_level = 0, sd_op = Insert, sd_data_size = 10\<rparr>]\<rparr>]"
  note inv = mem_os.run_inv[OF run]
  obtain st' where st': "ss_sstable mem_object_store_ops 5 st = Ok (\<lparr>sst_id = 5, sst_meta = m\<rparr>, st')"
    using mem_os.sstable_inv[OF inv, of 5 2 "[map entry_of union_versions]" m] by auto
  obtain vm1 where upd: "vfold (\<lambda>diff. vm_update mem_object_store_ops diff False) ?ds (example_manager [] st) = (Ok (), vm1)" "vm_levels vm1 = [[5]]"
    using st' by (simp add: vbind_def vm_update_def vget_def vm_latest_version_id_def last_of_def apply_sstable_diff_def
        insert_sstable_def vm_sstable_def index_def vok_def vm_set_level_def vm_set_size_def vm_push_diff_def Let_def)
  have "vm_agree mo_objects stored_decompress (\<lambda>_. 7) ?tabs (example_manager [] st) (example_manager [] st)"
    using inv by (simp add: vm_agree_def)
  moreover have "vm_latest_version_id (example_manager [] st) + 1 = 1" by (simp add: vm_latest_version_id_def last_of_def)
  ultimately have "\<exists>es vm1'. vm_version_diffs_from 1 8 vm1 = Ok es \<and> length es = length ?ds \<and>
    vfold (\<lambda>diff. vm_update mem_object_store_ops diff True) es (example_manager [] st) = (Ok (), vm1') \<and> vm_levels vm1' = vm_levels vm1"
    using replica_catches_up[of stored_decompress "\<lambda>_. 7" ?tabs "example_manager [] st" "example_manager [] st" ?ds 8 vm1] upd(1)
    by (simp del: vfold.simps) blast
  then show ?thesis using upd by (simp del: vfold.simps) blast
qed

text \<open>The overlap check looks one way only: inserting a table into a non-overlap level in front of
  the table of that level is accepted however far its keys reach, and the manager's own
  \<open>verify_non_overlap\<close> then rejects the level when the two key ranges meet.\<close>

theorem non_overlap_insert_ignores_next_table:
  assumes run: "ss_run mem_object_store_ops decompress crc32 tabs (vm_store vm)"
    and i: "tabs i = Some (ri, bi, mi)" "meta_first_key mi = Ok a" "meta_last_key mi = Ok z"
    and j: "tabs j = Some (rj, bj, mj)" "meta_first_key mj = Ok b" and keys: "a \<le> b" "b \<le> z"
    and vm: "vm_levels vm = [[j]]" "vm_level_options vm = [\<lparr>lo_compaction_strategy = NonOverlap, lo_compression_algorithm = c\<rparr>]"
      "vm_levels_data_size vm = [n]" "n + sz < 2 ^ 64" "vm_diffs vm = []"
  shows "\<exists>vm' vm''. vm_update mem_object_store_ops
      \<lparr>vd_id = 0, vd_sstable_diffs = [\<lparr>sd_id = i, sd_level = 0, sd_op = Insert, sd_data_size = sz\<rparr>]\<rparr> False vm = (Ok (), vm') \<and>
    vm_levels vm' = [[i, j]] \<and> verify_non_overlap mem_object_store_ops vm' = (Ok False, vm'')"
proof -
  have fetch: "\<exists>st'. ss_sstable mem_object_store_ops k st = Ok (\<lparr>sst_id = k, sst_meta = m\<rparr>, st') \<and> ss_inv mo_objects decompress crc32 tabs st'"
    if "ss_inv mo_objects decompress crc32 tabs st" "tabs k = Some (r, bs, m)" for st k r bs m
    using mem_os.sstable_inv that by blast
  obtain st1 where s1: "ss_sstable mem_object_store_ops i (vm_store vm) = Ok (\<lparr>sst_id = i, sst_meta = mi\<rparr>, st1)"
    "ss_inv mo_objects decompress crc32 tabs st1" using fetch[OF mem_os.run_inv[OF run] i(1)] by blast
  obtain st2 where s2: "ss_sstable mem_object_store_ops j st1 = Ok (\<lparr>sst_id = j, sst_meta = mj\<rparr>, st2)"
    "ss_inv mo_objects decompress crc32 tabs st2" using fetch[OF s1(2) j(1)] by blast
  obtain st3 where s3: "ss_sstable mem_object_store_ops i st2 = Ok (\<lparr>sst_id = i, sst_meta = mi\<rparr>, st3)"
    "ss_inv mo_objects decompress crc32 tabs st3" using fetch[OF s2(2) i(1)] by blast
  obtain st4 where s4: "ss_sstable mem_object_store_ops j st3 = Ok (\<lparr>sst_id = j, sst_meta = mj\<rparr>, st4)"
    using fetch[OF s3(2) j(1)] by blast
  note unfolds = vbind_def vget_def vres_def vok_def vm_sstable_def index_def sst_first_key_def sst_last_key_def
  obtain vm' where vm': "vm_update mem_object_store_ops
      \<lparr>vd_id = 0, vd_sstable_diffs = [\<lparr>sd_id = i, sd_level = 0, sd_op = Insert, sd_data_size = sz\<rparr>]\<rparr> False vm = (Ok (), vm')"
    "vm_levels vm' = [[i, j]]" "vm_store vm' = st2" "vm_level_options vm' = vm_level_options vm"
    using s1 s2 i j keys(1) vm
    by (simp add: unfolds vm_update_def vm_latest_version_id_def last_of_def apply_sstable_diff_def insert_sstable_def
        vm_set_level_def vm_set_size_def vm_push_diff_def Let_def)
  moreover have "\<exists>vm''. verify_non_overlap mem_object_store_ops vm' = (Ok False, vm'')"
    using s3 s4 i j keys(2) vm' vm(2) by (simp add: unfolds verify_non_overlap_def vm_level_compaction_strategy_def)
  ultimately show ?thesis by blast
qed

theorem non_overlap_insert_ignores_next_table_witness:
  "\<exists>st vm' vm''. vm_update mem_object_store_ops
      \<lparr>vd_id = 0, vd_sstable_diffs = [\<lparr>sd_id = 5, sd_level = 0, sd_op = Insert, sd_data_size = 10\<rparr>]\<rparr> False (example_manager [6] st) = (Ok (), vm') \<and>
    vm_levels vm' = [[5, 6]] \<and> verify_non_overlap mem_object_store_ops vm' = (Ok False, vm'')"
proof -
  obtain m st where run: "ss_run mem_object_store_ops stored_decompress (\<lambda>_. 7)
      [5 \<mapsto> (2, [map entry_of union_versions], m), 6 \<mapsto> (2, [map entry_of union_versions], m)] st" using two_filtered_tables_run by blast
  have k: "meta_first_key m = Ok (full_key [107, 49] 9)" "meta_last_key m = Ok (full_key [107, 51] 1)"
    using versions_table_meta[OF mem_os.run_inv[OF run], of 5 2 "[map entry_of union_versions]" m union_versions]
    by (simp_all add: union_versions_def)
  have "full_key [107, 49] 9 \<le> full_key [107, 51] 1" by (simp add: full_key_def)
  then show ?thesis
    using non_overlap_insert_ignores_next_table[of stored_decompress "\<lambda>_. 7" _ "example_manager [6] st" 5 _ _ m _ _ 6 _ _ m _ Lz4 0 10]
      run k by fastforce
qed

text \<open>Squashing the whole history restarts the numbering: after every diff is revoked, the next update is
  numbered 1 again, and a replica that asks for the version after the last one it saw gets no diff.\<close>

theorem squash_restarts_version_ids:
  assumes "sorted (map vd_id (vm_diffs vm))" "vm_latest_version_id vm < diff_id" "0 < vm_latest_version_id vm"
    and "vm_update ops \<lparr>vd_id = 0, vd_sstable_diffs = []\<rparr> False (vm_squash diff_id vm) = (r, vm')"
  shows "r = Ok () \<and> vm_latest_version_id vm' = 1 \<and> vm_version_diffs_from (vm_latest_version_id vm + 1) (Suc n) vm' = Ok []"
proof -
  have "\<forall>d \<in> set (vm_diffs vm). vd_id d < diff_id" using latest_version_id_max[OF assms(1)] assms(2) le_less_trans by blast
  then have "dropWhile (\<lambda>d. vd_id d < diff_id) (vm_diffs vm) = []" by (simp add: dropWhile_eq_Nil_conv)
  then have sq: "vm_squash diff_id vm = vm\<lparr>vm_diffs := []\<rparr>" by (simp only: vm_squash_def)
  show ?thesis using assms(3,4)
    by (auto simp: sq vm_update_def vbind_def vget_def vok_def vm_push_diff_def vm_latest_version_id_def
        last_of_def vm_version_diffs_from_def Let_def)
qed

theorem squash_restarts_version_ids_witness:
  "let vm = (example_manager [] (sstable_store_new ''t'' \<lparr>mo_objects = Map.empty\<rparr> Map.empty))\<lparr>vm_diffs := [\<lparr>vd_id = 1, vd_sstable_diffs = []\<rparr>, \<lparr>vd_id = 2, vd_sstable_diffs = []\<rparr>]\<rparr>;
       (r, vm') = vm_update mem_object_store_ops \<lparr>vd_id = 0, vd_sstable_diffs = []\<rparr> False (vm_squash 3 vm)
   in r = Ok () \<and> vm_latest_version_id vm' = 1 \<and> vm_version_diffs_from 3 10 vm' = Ok []"
proof -
  let ?vm = "(example_manager [] (sstable_store_new ''t'' \<lparr>mo_objects = Map.empty\<rparr> Map.empty))\<lparr>vm_diffs := [\<lparr>vd_id = 1, vd_sstable_diffs = []\<rparr>, \<lparr>vd_id = 2, vd_sstable_diffs = []\<rparr>]\<rparr>"
  have l: "vm_latest_version_id ?vm = 2" by (simp add: vm_latest_version_id_def last_of_def)
  obtain r vm' where u: "vm_update mem_object_store_ops \<lparr>vd_id = 0, vd_sstable_diffs = []\<rparr> False (vm_squash 3 ?vm) = (r, vm')"
    by fastforce
  from squash_restarts_version_ids[OF _ _ _ this, of 9] show ?thesis unfolding Let_def u l by simp
qed

end
