(* ===== verification/LsmTree.thy ===== *)
theory LsmTree
  imports Memtable Manifest
begin

text \<open>
  \<open>wheel/src/components/lsm_tree.rs\<close>: the LSM tree of a raft group, with a mutable memtable, immutable
  memtables waiting to be uploaded (the newest first), and the tables of the version manager's levels.

  The tree and its version manager share one table store, which is the one of the manager's state. An
  iterator works on the store as it is when it is made; blocks it caches are not carried back. The
  lock around the memtables makes writes atomic, and reads clone the handles of the memtables.
\<close>

record memtable_with_ctx =
  mc_table :: memtable
  mc_max_applied_index :: nat
  mc_max_sequence :: u64

record 'os lsm_tree =
  lt_write_buffer_capacity :: nat
  lt_version_manager :: "'os version_manager"
  lt_memtable :: memtable_with_ctx
  lt_immutable_memtables :: "memtable_with_ctx list"

definition memtable_with_ctx_new :: "node_layout \<Rightarrow> nat \<Rightarrow> memtable_with_ctx res" where
  "memtable_with_ctx_new nl capacity =
     rbind (memtable_new nl capacity) (\<lambda>mt. Ok \<lparr>mc_table = mt, mc_max_applied_index = 0, mc_max_sequence = 0\<rparr>)"

definition lsm_new :: "node_layout \<Rightarrow> nat \<Rightarrow> 'os version_manager \<Rightarrow> 'os lsm_tree res" where
  "lsm_new nl capacity vm =
     rbind (memtable_with_ctx_new nl capacity) (\<lambda>mc.
       Ok \<lparr>lt_write_buffer_capacity = capacity, lt_version_manager = vm, lt_memtable = mc, lt_immutable_memtables = []\<rparr>)"

section \<open>Reads\<close>

fun lsm_get_memtables :: "bytes \<Rightarrow> u64 \<Rightarrow> memtable list \<Rightarrow> bytes option option res" where
  "lsm_get_memtables key seqno [] = Ok None"
| "lsm_get_memtables key seqno (mt # mts) =
     rbind (memtable_get_raw key seqno mt) (\<lambda>raw.
     case raw of
       Some raw \<Rightarrow> rbind (raw_to_value raw) (\<lambda>v. Ok (Some v))
     | None \<Rightarrow> lsm_get_memtables key seqno mts)"

fun lsm_sstables :: "'os object_store_ops \<Rightarrow> nat list \<Rightarrow> ('os, sstable list) vm_call" where
  "lsm_sstables ops [] = vok []"
| "lsm_sstables ops (i # is) = vbind (vm_sstable ops i) (\<lambda>sst. vbind (lsm_sstables ops is) (\<lambda>ssts. vok (sst # ssts)))"

definition lsm_get_level ::
  "'os object_store_ops \<Rightarrow> (bytes \<Rightarrow> bytes option) \<Rightarrow> (bytes \<Rightarrow> nat) \<Rightarrow> bytes \<Rightarrow> u64 \<Rightarrow> level_compaction_strategy \<Rightarrow>
     nat list \<Rightarrow> ('os, bytes option option) vm_call" where
  "lsm_get_level ops decompress crc32 key seqno strategy level =
     (case strategy of
        Overlap \<Rightarrow>
          vbind (lsm_sstables ops level) (\<lambda>ssts.
          vget (\<lambda>vm. point_read (merge_iterator_ops (sstable_iterator_ops ops decompress crc32)) key
            (ui_new (mi_new (map (\<lambda>sst. si_new (vm_store vm) sst Fill) ssts)) seqno)))
      | NonOverlap \<Rightarrow>
          vbind (vres (rassert (length level = 1))) (\<lambda>_.
          vbind (vm_sstable ops (level ! 0)) (\<lambda>sst.
          vget (\<lambda>vm. point_read (sstable_iterator_ops ops decompress crc32) key
            (ui_new (si_new (vm_store vm) sst Fill) seqno)))))"

fun lsm_get_levels ::
  "'os object_store_ops \<Rightarrow> (bytes \<Rightarrow> bytes option) \<Rightarrow> (bytes \<Rightarrow> nat) \<Rightarrow> bytes \<Rightarrow> u64 \<Rightarrow> nat \<Rightarrow> nat list list \<Rightarrow>
     ('os, bytes option) vm_call" where
  "lsm_get_levels ops decompress crc32 key seqno level_idx [] = vok None"
| "lsm_get_levels ops decompress crc32 key seqno level_idx (level # levels) =
     (if level = [] then lsm_get_levels ops decompress crc32 key seqno (Suc level_idx) levels
      else
        vbind (vget (vm_level_compaction_strategy level_idx)) (\<lambda>strategy.
        vbind (lsm_get_level ops decompress crc32 key seqno strategy level) (\<lambda>r.
        case r of
          Some v \<Rightarrow> vok v
        | None \<Rightarrow> lsm_get_levels ops decompress crc32 key seqno (Suc level_idx) levels)))"

text \<open>\<open>unwrap\<close> of a call's result.\<close>

definition vunwrap :: "('os, 'a) vm_call \<Rightarrow> ('os, 'a) vm_call" where
  "vunwrap c vm = (case c vm of (Err e, vm) \<Rightarrow> (Panic, vm) | r \<Rightarrow> r)"

definition lsm_get_ssts ::
  "'os object_store_ops \<Rightarrow> (bytes \<Rightarrow> bytes option) \<Rightarrow> (bytes \<Rightarrow> nat) \<Rightarrow> (bytes \<Rightarrow> u32) \<Rightarrow> bytes \<Rightarrow> u64 \<Rightarrow> ('os, bytes option) vm_call" where
  "lsm_get_ssts ops decompress crc32 fingerprint32 key seqno =
     vbind (vget (\<lambda>vm. Ok (vm_levels_len vm))) (\<lambda>n.
     vbind (vunwrap (pick_overlap_ssts_by_key ops fingerprint32 (0, n) key)) (\<lambda>levels.
       lsm_get_levels ops decompress crc32 key seqno 0 levels))"

definition lsm_get ::
  "'os object_store_ops \<Rightarrow> (bytes \<Rightarrow> bytes option) \<Rightarrow> (bytes \<Rightarrow> nat) \<Rightarrow> (bytes \<Rightarrow> u32) \<Rightarrow> bytes \<Rightarrow> u64 \<Rightarrow> 'os lsm_tree \<Rightarrow>
     bytes option res \<times> 'os lsm_tree" where
  "lsm_get ops decompress crc32 fingerprint32 key seqno lt =
     (case lsm_get_memtables key seqno (mc_table (lt_memtable lt) # map mc_table (lt_immutable_memtables lt)) of
        Ok (Some v) \<Rightarrow> (Ok v, lt)
      | Ok None \<Rightarrow>
          (let (r, vm) = lsm_get_ssts ops decompress crc32 fingerprint32 key seqno (lt_version_manager lt)
           in (r, lt\<lparr>lt_version_manager := vm\<rparr>))
      | Err e \<Rightarrow> (Err e, lt)
      | Panic \<Rightarrow> (Panic, lt)
      | OutOfFuel \<Rightarrow> (OutOfFuel, lt))"

section \<open>Writes\<close>

definition approximate_size :: "bytes \<Rightarrow> bytes option \<Rightarrow> nat" where
  "approximate_size key value =
     length key + (case value of Some v \<Rightarrow> length v | None \<Rightarrow> 0) + 8 + 4 * tower_max_height + 8"

definition lsm_rotate :: "node_layout \<Rightarrow> 'os lsm_tree \<Rightarrow> 'os lsm_tree res" where
  "lsm_rotate nl lt =
     rbind (memtable_with_ctx_new nl (lt_write_buffer_capacity lt)) (\<lambda>mc.
       Ok (lt\<lparr>lt_memtable := mc, lt_immutable_memtables := lt_memtable lt # lt_immutable_memtables lt\<rparr>))"

definition lsm_write ::
  "node_layout \<Rightarrow> nat \<Rightarrow> bytes \<Rightarrow> bytes option \<Rightarrow> u64 \<Rightarrow> nat \<Rightarrow> 'os lsm_tree \<Rightarrow> 'os lsm_tree res" where
  "lsm_write nl height key value seqno apply_index lt =
     rbind (memtable_mem_remain (mc_table (lt_memtable lt))) (\<lambda>remain.
     rbind (if remain < approximate_size key value then lsm_rotate nl lt else Ok lt) (\<lambda>lt.
     rbind (memtable_put nl height key value seqno (mc_table (lt_memtable lt))) (\<lambda>mt.
     rbind (rassert (apply_index > mc_max_applied_index (lt_memtable lt))) (\<lambda>_.
     rbind (rassert (seqno > mc_max_sequence (lt_memtable lt))) (\<lambda>_.
       Ok (lt\<lparr>lt_memtable := \<lparr>mc_table = mt, mc_max_applied_index = apply_index, mc_max_sequence = seqno\<rparr>\<rparr>))))))"

definition lsm_put :: "node_layout \<Rightarrow> nat \<Rightarrow> bytes \<Rightarrow> bytes \<Rightarrow> u64 \<Rightarrow> nat \<Rightarrow> 'os lsm_tree \<Rightarrow> 'os lsm_tree res" where
  "lsm_put nl height key value seqno apply_index lt = lsm_write nl height key (Some value) seqno apply_index lt"

definition lsm_delete :: "node_layout \<Rightarrow> nat \<Rightarrow> bytes \<Rightarrow> u64 \<Rightarrow> nat \<Rightarrow> 'os lsm_tree \<Rightarrow> 'os lsm_tree res" where
  "lsm_delete nl height key seqno apply_index lt = lsm_write nl height key None seqno apply_index lt"

definition get_oldest_immutable_memtable :: "'os lsm_tree \<Rightarrow> memtable option" where
  "get_oldest_immutable_memtable lt = map_option mc_table (last_of (lt_immutable_memtables lt))"

definition drop_oldest_immutable_memtable :: "'os lsm_tree \<Rightarrow> (memtable_with_ctx \<times> 'os lsm_tree) res" where
  "drop_oldest_immutable_memtable lt =
     rbind (unwrap (last_of (lt_immutable_memtables lt))) (\<lambda>imm.
       Ok (imm, lt\<lparr>lt_immutable_memtables := butlast (lt_immutable_memtables lt)\<rparr>))"

section \<open>Layers\<close>

text \<open>A read takes the first layer with a visible version of the key.\<close>

fun read_layers :: "u64 \<Rightarrow> bytes \<Rightarrow> version_entry list list \<Rightarrow> bytes option option" where
  "read_layers s k [] = None"
| "read_layers s k (xs # xss) = (case read_at s k xs of Some v \<Rightarrow> Some v | None \<Rightarrow> read_layers s k xss)"

text \<open>The versions of a key in an earlier layer are newer than those in a later one.\<close>

definition layered :: "version_entry list list \<Rightarrow> bool" where
  "layered xss \<longleftrightarrow> (\<forall>xs \<in> set xss. versions_sorted xs) \<and>
     sorted_wrt (\<lambda>xs ys. \<forall>x \<in> set xs. \<forall>y \<in> set ys. fst x = fst y \<longrightarrow> fst (snd y) < fst (snd x)) xss"

lemma read_at_None: "read_at s k xs = None \<longleftrightarrow> (\<forall>x \<in> set xs. \<not> visible s k x)"
  by (auto simp: read_at_def find_None_iff)

lemma read_at_newest:
  assumes "versions_sorted xs" "(k, t, v) \<in> set xs" "t \<le> s" "\<forall>x \<in> set xs. visible s k x \<longrightarrow> fst (snd x) \<le> t"
  shows "read_at s k xs = Some v"
  using assms
proof (induction xs)
  case (Cons x xs)
  obtain k0 t0 v0 where x: "x = (k0, t0, v0)" by (cases x) auto
  have sx: "versions_sorted xs" "\<forall>(k', t', v') \<in> set xs. k0 < k' \<or> k0 = k' \<and> t' < t0"
    using Cons.prems(1) versions_sorted_Cons unfolding x by blast+
  show ?case
  proof (cases "visible s k x")
    case True
    then have "t0 \<le> t" "k0 = k" using Cons.prems(4) by (auto simp: x visible_def)
    then have "(k, t, v) \<notin> set xs" using sx(2) by auto
    then show ?thesis using Cons.prems(2) True by (auto simp: x read_at_def)
  next
    case False
    then have "(k, t, v) \<in> set xs" using Cons.prems(2,3) by (auto simp: visible_def)
    then show ?thesis using Cons.IH[OF sx(1)] Cons.prems(3,4) False by (simp add: read_at_def)
  qed
qed simp

lemma read_at_SomeD:
  assumes "versions_sorted xs" "read_at s k xs = Some v"
  shows "\<exists>t. (k, t, v) \<in> set xs \<and> t \<le> s \<and> (\<forall>x \<in> set xs. visible s k x \<longrightarrow> fst (snd x) \<le> t)"
  using assms
proof (induction xs)
  case (Cons x xs)
  obtain k0 t0 v0 where x: "x = (k0, t0, v0)" by (cases x) auto
  have sx: "versions_sorted xs" "\<forall>(k', t', v') \<in> set xs. k0 < k' \<or> k0 = k' \<and> t' < t0"
    using Cons.prems(1) versions_sorted_Cons unfolding x by blast+
  show ?case
  proof (cases "visible s k x")
    case True
    then have h: "k0 = k" "t0 \<le> s" "v0 = v" using Cons.prems(2) by (auto simp: x visible_def read_at_def)
    have "fst (snd y) \<le> t0" if "y \<in> set xs" "visible s k y" for y
      using sx(2) that h(1) by (cases y) (auto simp: visible_def)
    then show ?thesis using h by (intro exI[of _ t0]) (auto simp: x)
  next
    case False
    then have "read_at s k xs = Some v" using Cons.prems(2) by (simp add: read_at_def)
    then show ?thesis using Cons.IH[OF sx(1)] False by auto
  qed
qed (simp add: read_at_def)

lemma read_at_filter_visible:
  assumes "\<forall>x \<in> set xs. visible s k x \<longrightarrow> P x"
  shows "read_at s k (filter P xs) = read_at s k xs"
proof -
  have "find (visible s k) (filter P xs) = find (visible s k) xs" using assms by (induction xs) auto
  then show ?thesis by (simp add: read_at_def)
qed

lemma versions_sorted_filter: "versions_sorted xs \<Longrightarrow> versions_sorted (filter P xs)"
  by (auto simp: key_sorted_def sorted_wrt_map sorted_wrt_filter)

lemma read_layers_union:
  assumes "layered xss" "versions_sorted zs" "set zs = (\<Union>xs \<in> set xss. set xs)"
  shows "read_layers s k xss = read_at s k zs"
  using assms
proof (induction xss arbitrary: zs)
  case Nil
  then show ?case by (simp add: read_at_def)
next
  case (Cons xs xss)
  have lay: "layered xss" "versions_sorted xs" "\<forall>ys \<in> set xss. \<forall>x \<in> set xs. \<forall>y \<in> set ys. fst x = fst y \<longrightarrow> fst (snd y) < fst (snd x)"
    using Cons.prems(1) by (auto simp: layered_def)
  show ?case
  proof (cases "read_at s k xs")
    case (Some v)
    then obtain t where t: "(k, t, v) \<in> set xs" "t \<le> s" "\<forall>x \<in> set xs. visible s k x \<longrightarrow> fst (snd x) \<le> t"
      using read_at_SomeD[OF lay(2)] by blast
    have "fst (snd z) \<le> t" if z: "z \<in> set zs" "visible s k z" for z
    proof (cases "z \<in> set xs")
      case False
      then obtain ys where "ys \<in> set xss" "z \<in> set ys" using z(1) Cons.prems(3) by auto
      then show ?thesis using lay(3) t(1) z(2) by (fastforce simp: visible_def)
    qed (use t z in auto)
    then have "read_at s k zs = Some v" using read_at_newest[OF Cons.prems(2), of k t v s] t Cons.prems(3) by auto
    then show ?thesis using Some by simp
  next
    case None
    define P where "P z \<longleftrightarrow> (\<exists>ys \<in> set xss. z \<in> set ys)" for z
    have "set (filter P zs) = (\<Union>xs \<in> set xss. set xs)" using Cons.prems(3) by (auto simp: P_def)
    from Cons.IH[OF lay(1) versions_sorted_filter[OF Cons.prems(2)] this]
    have "read_layers s k xss = read_at s k (filter P zs)" .
    moreover have "\<forall>z \<in> set zs. visible s k z \<longrightarrow> P z" using None Cons.prems(3) by (auto simp: read_at_None P_def)
    ultimately show ?thesis using None read_at_filter_visible[of zs s k P] by simp
  qed
qed

text \<open>A read depends only on the visible versions.\<close>

lemma read_at_subset:
  assumes "versions_sorted ys" "versions_sorted zs" "set ys \<subseteq> set zs" "\<forall>z \<in> set zs. visible s k z \<longrightarrow> z \<in> set ys"
  shows "read_at s k ys = read_at s k zs"
proof -
  have "filter (\<lambda>z. z \<in> set ys) zs = ys"
    by (rule versions_sorted_unique[OF versions_sorted_filter[OF assms(2)] assms(1)]) (use assms(3) in auto)
  then show ?thesis using read_at_filter_visible[of zs s k "\<lambda>z. z \<in> set ys"] assms(4) by simp
qed

abbreviation version_ids :: "version_entry list \<Rightarrow> (bytes \<times> u64) list" where
  "version_ids xs \<equiv> map (\<lambda>x. (fst x, fst (snd x))) xs"

lemma versions_sort:
  assumes "distinct (version_ids zs)"
  shows "\<exists>ys. versions_sorted ys \<and> mset ys = mset zs"
proof -
  define f where "f x = key_ord (fst (entry_of x))" for x
  let ?ys = "sort_key f zs"
  have inj: "f x = f y \<longleftrightarrow> (fst x, fst (snd x)) = (fst y, fst (snd y))" for x y
    by (auto simp: f_def entry_of_def key_ord_inject split: prod.splits)
  have "distinct (map f zs)" using assms inj by (auto simp: distinct_map inj_on_def)
  moreover have "mset (map f ?ys) = mset (map f zs)" by simp
  ultimately have "distinct (map f ?ys)" using mset_eq_imp_distinct_iff by blast
  then have "sorted_wrt (<) (map f ?ys)" by (simp add: strict_sorted_iff)
  then have "versions_sorted ?ys" by (auto simp: key_sorted_def sorted_wrt_map f_def entry_of_def)
  then show ?thesis by (intro exI[of _ ?ys]) simp
qed

section \<open>Reading the levels\<close>

text \<open>What a level holds: tables of versions without a common version, in ascending order without
  overlap in a non-overlap level, and \<open>zs\<close>, the versions of all of them in order.\<close>

definition level_holds ::
  "(bytes \<Rightarrow> u32) \<Rightarrow> (nat \<rightharpoonup> table) \<Rightarrow> (nat \<Rightarrow> version_entry list) \<Rightarrow> level_compaction_strategy \<Rightarrow> nat list \<Rightarrow> version_entry list \<Rightarrow> bool" where
  "level_holds fingerprint32 tabs xs strategy is zs \<longleftrightarrow>
     (\<forall>i \<in> set is. versions_table fingerprint32 tabs i (xs i)) \<and>
     distinct (version_ids (concat (map xs is))) \<and> length (concat (map xs is)) < 2 ^ 64 \<and>
     (strategy = NonOverlap \<longrightarrow> sorted_wrt (\<lambda>i j. fst (last (xs i)) < fst (hd (xs j))) is) \<and>
     versions_sorted zs \<and> set zs = (\<Union>i \<in> set is. set (xs i))"

lemma reads_vget_inv:
  "(\<And>vm. ss_inv objects decompress crc32 tabs (vm_store vm) \<Longrightarrow> f vm = Ok a) \<Longrightarrow>
    vm_reads objects decompress crc32 tabs opts levels (vget f) a"
  by (auto simp: vm_reads_def vget_def intro!: exI[of _ "vm_store _"])

lemma reads_sstables:
  assumes "\<forall>i \<in> set is. \<exists>r bss. tabs i = Some (r, bss, m i)"
  shows "vm_reads mo_objects decompress crc32 tabs opts levels (lsm_sstables mem_object_store_ops is)
    (map (\<lambda>i. \<lparr>sst_id = i, sst_meta = m i\<rparr>) is)"
  using assms
proof (induction "is")
  case (Cons i "is")
  obtain r bss where "tabs i = Some (r, bss, m i)" using Cons.prems by auto
  note sst = mem_os.reads_sstable[of tabs, OF this]
  show ?case unfolding lsm_sstables.simps list.map
    by (rule reads_vbind[OF sst], rule reads_vbind[OF Cons.IH], use Cons.prems in simp, rule reads_vok)
qed (simp add: reads_vok)

lemma versions_table_segments:
  assumes "ss_inv mo_objects decompress crc32 tabs st" "tabs i = Some (r, bss, m)" "bss \<noteq> []" "concat bss = map entry_of xs"
    "versions_sorted xs"
  shows "segments bss"
proof -
  obtain data where "table_holds decompress crc32 r bss m data"
    using assms(1,2) by (fastforce simp: ss_inv_def table_stored_def)
  then have "\<forall>b \<in> set bss. b \<noteq> []" by (auto simp: table_holds_def in_set_conv_nth)
  then show ?thesis using assms(3-5) by (simp add: segments_def)
qed

lemma distinct_filter_concat: "distinct (map g (concat (map xs is))) \<Longrightarrow> distinct (map g (concat (map xs (filter P is))))"
  by (induction "is") auto

lemma admits_range:
  assumes "ss_inv objects decompress crc32 tabs st" "versions_table fingerprint32 tabs i xs" "admits fingerprint32 tabs key i"
  shows "fst (hd xs) \<le> key \<and> key \<le> fst (last xs)"
proof -
  obtain r bss m where v: "tabs i = Some (r, bss, m)" "bss \<noteq> []" "concat bss = map entry_of xs"
    using assms(2) unfolding versions_table_def by blast
  show ?thesis using assms(3) versions_table_meta[OF assms(1) v]
    by (auto simp: admits_def v(1) meta_is_overlap_with_user_key_range_def not_less)
qed

text \<open>The tables a read of a level opens, and that they hold every visible version of the level.\<close>

lemma picked_tables:
  assumes inv: "ss_inv mo_objects decompress crc32 tabs st0" and lv: "level_holds fingerprint32 tabs xs strategy is zs"
    and js: "js = filter (admits fingerprint32 tabs k) is"
  obtains bss m where "\<forall>i \<in> set js. \<exists>r. tabs i = Some (r, bss i, m i) \<and> segments (bss i) \<and> length (concat (bss i)) < 2 ^ 64"
    "\<forall>i \<in> set js. concat (bss i) = map entry_of (xs i)" "(\<Union>j \<in> set js. set (xs j)) \<subseteq> set zs"
    "\<forall>z \<in> set zs. visible s k z \<longrightarrow> z \<in> (\<Union>j \<in> set js. set (xs j))"
proof -
  define bss m where "bss i = fst (snd (the (tabs i)))" and "m i = snd (snd (the (tabs i)))" for i
  have t: "\<exists>r. tabs i = Some (r, bss i, m i) \<and> segments (bss i) \<and> length (concat (bss i)) < 2 ^ 64 \<and> concat (bss i) = map entry_of (xs i)"
    if "i \<in> set is" for i
  proof -
    have vt: "versions_table fingerprint32 tabs i (xs i)" using lv that by (simp add: level_holds_def)
    then obtain r bs mm where v: "tabs i = Some (r, bs, mm)" "bs \<noteq> []" "concat bs = map entry_of (xs i)" "versions_sorted (xs i)"
      unfolding versions_table_def by blast
    have "length (xs i) \<le> length (concat (map xs is))"
      using that by (induction "is") auto
    then have "length (concat bs) < 2 ^ 64" using lv v(3) by (simp add: level_holds_def)
    then show ?thesis using v versions_table_segments[OF inv v] by (simp add: bss_def m_def)
  qed
  have "z \<in> (\<Union>j \<in> set js. set (xs j))" if z: "z \<in> set zs" "visible s k z" for z
  proof -
    obtain i where i: "i \<in> set is" "z \<in> set (xs i)" using lv z(1) by (auto simp: level_holds_def)
    then have "versions_table fingerprint32 tabs i (xs i)" "k \<in> fst ` set (xs i)" using lv z(2) by (auto simp: level_holds_def visible_def)
    then show ?thesis using admits_version[OF inv, of fingerprint32 i "xs i" k] i js by auto
  qed
  then have "\<forall>z \<in> set zs. visible s k z \<longrightarrow> z \<in> (\<Union>j \<in> set js. set (xs j))" by blast
  moreover have "(\<Union>j \<in> set js. set (xs j)) \<subseteq> set zs" using lv by (auto simp: js level_holds_def)
  moreover have "set js \<subseteq> set is" by (auto simp: js)
  ultimately show ?thesis using that[of bss m] t by (metis (no_types, lifting) subsetD)
qed

lemma reads_level:
  assumes inv: "ss_inv mo_objects decompress crc32 tabs st0" and k: "k \<noteq> []"
    and lv: "level_holds fingerprint32 tabs xs strategy is zs" and js: "js = filter (admits fingerprint32 tabs k) is" "js \<noteq> []"
  shows "vm_reads mo_objects decompress crc32 tabs opts levels
    (lsm_get_level mem_object_store_ops decompress crc32 k s strategy js) (read_at s k zs)"
proof -
  obtain bss m where t: "\<forall>i \<in> set js. \<exists>r. tabs i = Some (r, bss i, m i) \<and> segments (bss i) \<and> length (concat (bss i)) < 2 ^ 64"
    and c: "\<forall>i \<in> set js. concat (bss i) = map entry_of (xs i)" and sub: "(\<Union>j \<in> set js. set (xs j)) \<subseteq> set zs"
    and vis: "\<forall>z \<in> set zs. visible s k z \<longrightarrow> z \<in> (\<Union>j \<in> set js. set (xs j))"
    by (rule picked_tables[OF inv lv js(1), where s = s])
  have tm: "\<forall>i \<in> set js. \<exists>r bss. tabs i = Some (r, bss, m i)" using t by blast
  have zs: "versions_sorted zs" using lv by (simp add: level_holds_def)
  have dist: "distinct (version_ids (concat (map xs js)))"
    using lv unfolding level_holds_def js(1) by (intro distinct_filter_concat) blast
  have shorter: "length (concat (map xs js)) < 2 ^ 64"
  proof -
    have "length (concat (map xs (filter P is))) \<le> length (concat (map xs is))" for P by (induction "is") auto
    then show ?thesis using lv le_less_trans unfolding level_holds_def js(1) by blast
  qed
  show ?thesis
  proof (cases strategy)
    case Overlap
    obtain ys where ys: "versions_sorted ys" "mset ys = mset (concat (map xs js))" using versions_sort[OF dist] by blast
    have "map entry_of (concat (map xs qs)) = concat (map (\<lambda>i. concat (bss i)) qs)"
      if "\<forall>i \<in> set qs. concat (bss i) = map entry_of (xs i)" for qs using that by (induction qs) auto
    from this[OF c] have "mset (map entry_of ys) = mset (concat (map (\<lambda>i. concat (bss i)) js))"
      unfolding mset_map ys(2) by (simp flip: mset_map)
    then have "merged (map (\<lambda>i. concat (bss i)) js) (map entry_of ys)" using ys(1) by (simp add: merged_def)
    note over = stored_tables_merge[OF _ t this, of decompress crc32]
    have len: "length ys < 2 ^ 64" using shorter ys(2) by (metis size_mset)
    have same: "read_at s k ys = read_at s k zs"
    proof (rule read_at_subset[OF ys(1) zs])
      have "set ys = (\<Union>j \<in> set js. set (xs j))" using mset_eq_setD[OF ys(2)] by simp
      then show "set ys \<subseteq> set zs" "\<forall>z \<in> set zs. visible s k z \<longrightarrow> z \<in> set ys" using sub vis by auto
    qed
    note read = mem_os.table_iter.merge.point_read_ok[OF over k len]
    show ?thesis unfolding lsm_get_level_def Overlap level_compaction_strategy.case
      by (rule reads_vbind[OF reads_sstables[OF tm]], rule reads_vget_inv) (simp add: read same comp_def)
  next
    case NonOverlap
    have apart: "sorted_wrt (\<lambda>i j. fst (last (xs i)) < fst (hd (xs j))) js"
      using lv NonOverlap by (simp add: level_holds_def js(1) sorted_wrt_filter)
    have between: "fst (hd (xs i)) \<le> k \<and> k \<le> fst (last (xs i))" if "i \<in> set js" for i
      using admits_range[OF inv, of fingerprint32 i "xs i" k] that lv js(1) by (auto simp: level_holds_def)
    obtain i rest where ir: "js = i # rest" using js(2) by (cases js) auto
    have "rest = []"
    proof (cases rest)
      case (Cons j rest')
      then have gap: "fst (last (xs i)) < fst (hd (xs j))" "k \<le> fst (last (xs i))" "fst (hd (xs j)) \<le> k"
        using apart between[of i] between[of j] ir by auto
      have "fst (last (xs i)) < k" by (rule order.strict_trans2[OF gap(1,3)])
      then show ?thesis using leD[OF gap(2)] by simp
    qed
    then have i: "js = [i]" using ir by simp
    obtain r where tab: "tabs i = Some (r, bss i, m i)" "segments (bss i)" "length (concat (bss i)) < 2 ^ 64" using t i by auto
    have xi: "concat (bss i) = map entry_of (xs i)" using c i by simp
    have si: "versions_sorted (xs i)" using tab(2) xi by (simp add: segments_def)
    have same: "read_at s k (xs i) = read_at s k zs"
      by (rule read_at_subset[OF si zs]) (use sub vis i in auto)
    have len: "length (xs i) < 2 ^ 64" using shorter i by simp
    have over: "si_over mo_objects decompress crc32 (si_new st \<lparr>sst_id = i, sst_meta = m i\<rparr> Fill) (map entry_of (xs i))"
      if "ss_inv mo_objects decompress crc32 tabs st" for st
      using stored_table_over[of decompress crc32 tabs st i r "bss i" "m i" Fill] that tab xi by simp
    note read = mem_os.table_iter.fwd.point_read_ok[OF over k len]
    note sst = mem_os.reads_sstable[of tabs i r "bss i" "m i" decompress crc32 opts levels, OF tab(1)]
    show ?thesis unfolding lsm_get_level_def NonOverlap level_compaction_strategy.case i
      by (rule reads_vbind[OF reads_vres], simp, simp only: nth_Cons_0, rule reads_vbind[OF sst], rule reads_vget_inv)
        (simp add: read same)
  qed
qed

lemma reads_vunwrap:
  assumes "vm_reads objects decompress crc32 tabs opts levels c a"
  shows "vm_reads objects decompress crc32 tabs opts levels (vunwrap c) a"
  using assms unfolding vm_reads_def vunwrap_def by fastforce

abbreviation opt_join :: "'a option option \<Rightarrow> 'a option" where
  "opt_join x \<equiv> (case x of None \<Rightarrow> None | Some v \<Rightarrow> v)"

lemma reads_get_levels:
  assumes inv: "ss_inv mo_objects decompress crc32 tabs st0" and k: "k \<noteq> []"
    and "\<forall>j < length zss. level_holds fingerprint32 tabs xs (lo_compaction_strategy (opts ! (n + j))) (levels ! (n + j)) (zss ! j)"
    and "n + length zss \<le> length opts"
  shows "vm_reads mo_objects decompress crc32 tabs opts levels
    (lsm_get_levels mem_object_store_ops decompress crc32 k s n
      (map (\<lambda>l. filter (admits fingerprint32 tabs k) (levels ! l)) [n..<n + length zss]))
    (opt_join (read_layers s k zss))"
  using assms(3,4)
proof (induction zss arbitrary: n)
  case Nil
  then show ?case by (simp add: reads_vok)
next
  case (Cons zs zss)
  have lv: "level_holds fingerprint32 tabs xs (lo_compaction_strategy (opts ! n)) (levels ! n) zs" using Cons.prems(1) by force
  have "\<forall>j < length zss. level_holds fingerprint32 tabs xs (lo_compaction_strategy (opts ! (Suc n + j))) (levels ! (Suc n + j)) (zss ! j)"
  proof (intro allI impI)
    fix j assume "j < length zss"
    then show "level_holds fingerprint32 tabs xs (lo_compaction_strategy (opts ! (Suc n + j))) (levels ! (Suc n + j)) (zss ! j)"
      using Cons.prems(1)[rule_format, of "Suc j"] by simp
  qed
  from Cons.IH[OF this] Cons.prems(2) have IH: "vm_reads mo_objects decompress crc32 tabs opts levels
    (lsm_get_levels mem_object_store_ops decompress crc32 k s (Suc n)
      (map (\<lambda>l. filter (admits fingerprint32 tabs k) (levels ! l)) [Suc n..<Suc n + length zss]))
    (opt_join (read_layers s k zss))" by simp
  have ups: "[n..<n + length (zs # zss)] = n # [Suc n..<Suc n + length zss]" by (simp add: upt_conv_Cons del: upt_Suc)
  define js where "js = filter (admits fingerprint32 tabs k) (levels ! n)"
  show ?case
  proof (cases "js = []")
    case True
    obtain bss m where "\<forall>z \<in> set zs. visible s k z \<longrightarrow> z \<in> (\<Union>j \<in> set js. set (xs j))"
      by (rule picked_tables[OF inv lv js_def, where s = s])
    then have "read_at s k zs = None" using True by (simp add: read_at_None)
    then show ?thesis unfolding ups list.map lsm_get_levels.simps js_def[symmetric] using True IH by simp
  next
    case False
    note lev = reads_level[OF inv k lv js_def False, of opts levels s]
    have strat: "vm_reads mo_objects decompress crc32 tabs opts levels (vget (vm_level_compaction_strategy n)) (lo_compaction_strategy (opts ! n))"
      by (rule reads_vget) (use Cons.prems(2) in \<open>simp add: vm_level_compaction_strategy_def\<close>)
    show ?thesis unfolding ups list.map lsm_get_levels.simps js_def[symmetric] if_not_P[OF False]
      by (rule reads_vbind[OF strat], rule reads_vbind[OF lev])
        (use IH in \<open>cases "read_at s k zs"; auto simp: reads_vok\<close>)
  qed
qed

section \<open>Properties\<close>

text \<open>What a tree holds: one layer of versions per memtable, newest first, and one per level.\<close>

definition lsm_holds ::
  "(bytes \<Rightarrow> bytes option) \<Rightarrow> (bytes \<Rightarrow> nat) \<Rightarrow> (bytes \<Rightarrow> u32) \<Rightarrow> mem_object_store lsm_tree \<Rightarrow> version_entry list list \<Rightarrow> bool" where
  "lsm_holds decompress crc32 fingerprint32 lt xss \<longleftrightarrow>
     (\<exists>tabs xs mss zss. xss = mss @ zss \<and>
        list_all2 mt_rep (mc_table (lt_memtable lt) # map mc_table (lt_immutable_memtables lt)) mss \<and>
        ss_inv mo_objects decompress crc32 tabs (vm_store (lt_version_manager lt)) \<and>
        length (vm_levels (lt_version_manager lt)) = length zss \<and> length (vm_level_options (lt_version_manager lt)) = length zss \<and>
        (\<forall>l < length zss. level_holds fingerprint32 tabs xs (lo_compaction_strategy (vm_level_options (lt_version_manager lt) ! l))
           (vm_levels (lt_version_manager lt) ! l) (zss ! l)))"

lemma get_memtables_layers:
  assumes "list_all2 mt_rep mts mss"
  shows "lsm_get_memtables k s mts = Ok (read_layers s k mss)"
  using assms
proof (induction mts mss rule: list_all2_induct)
  case (Cons mt mts xs mss)
  then show ?case using memtable_get_raw_ok[OF Cons.hyps(1), of k s] by (cases "read_at s k xs") auto
qed simp

lemma read_layers_append:
  "read_layers s k (xss @ yss) = (case read_layers s k xss of Some v \<Rightarrow> Some v | None \<Rightarrow> read_layers s k yss)"
  by (induction xss) (auto split: option.splits)

lemma level_sorted_firsts:
  assumes "ss_inv objects decompress crc32 tabs st" "level_holds fingerprint32 tabs xs NonOverlap is zs"
  shows "sorted_wrt (\<lambda>i j. fst (hd (xs i)) \<le> fst (hd (xs j))) is"
proof -
  have le: "fst (hd (xs i)) \<le> fst (last (xs i))" if i: "i \<in> set is" for i
  proof -
    obtain r bss m where v: "tabs i = Some (r, bss, m)" "bss \<noteq> []" "concat bss = map entry_of (xs i)" "versions_sorted (xs i)"
      using assms(2) i unfolding level_holds_def versions_table_def by blast
    have "xs i \<noteq> []" by (rule versions_table_meta(1)[OF assms(1) v(1-3)])
    then show ?thesis using versions_between[OF v(4), of "hd (xs i)"] by simp
  qed
  have apart: "sorted_wrt (\<lambda>i j. fst (last (xs i)) < fst (hd (xs j))) is" using assms(2) by (simp add: level_holds_def)
  show ?thesis
  proof (rule sorted_wrt_mono_rel[OF _ apart])
    fix i j assume "i \<in> set is" "fst (last (xs i)) < fst (hd (xs j))"
    then show "fst (hd (xs i)) \<le> fst (hd (xs j))" using order.strict_trans1[OF le[of i]] less_imp_le by blast
  qed
qed

lemma lsm_get_layers:
  assumes "lsm_holds decompress crc32 fingerprint32 lt xss" "k \<noteq> []"
  shows "\<exists>lt'. lsm_get mem_object_store_ops decompress crc32 fingerprint32 k s lt = (Ok (opt_join (read_layers s k xss)), lt') \<and>
    lsm_holds decompress crc32 fingerprint32 lt' xss"
proof -
  let ?vm = "lt_version_manager lt"
  obtain tabs xs mss zss where h: "xss = mss @ zss"
    "list_all2 mt_rep (mc_table (lt_memtable lt) # map mc_table (lt_immutable_memtables lt)) mss"
    "ss_inv mo_objects decompress crc32 tabs (vm_store ?vm)" "length (vm_levels ?vm) = length zss" "length (vm_level_options ?vm) = length zss"
    "\<forall>l < length zss. level_holds fingerprint32 tabs xs (lo_compaction_strategy (vm_level_options ?vm ! l)) (vm_levels ?vm ! l) (zss ! l)"
    using assms(1) unfolding lsm_holds_def by blast
  note mem = get_memtables_layers[OF h(2), of k s]
  show ?thesis
  proof (cases "read_layers s k mss")
    case (Some v)
    then show ?thesis using mem h(1) assms(1) by (auto simp: lsm_get_def read_layers_append)
  next
    case None
    have pick: "vm_reads mo_objects decompress crc32 tabs (vm_level_options ?vm) (vm_levels ?vm)
        (pick_overlap_ssts_by_key mem_object_store_ops fingerprint32 (0, length zss) k)
        (map (\<lambda>l. filter (admits fingerprint32 tabs k) (vm_levels ?vm ! l)) [0..<length zss])"
      by (rule mem_os.reads_pick_by_key[OF h(3), where xs = xs])
        (use h(4-6) level_sorted_firsts[OF h(3)] in \<open>auto simp: level_holds_def\<close>)
    have "vm_reads mo_objects decompress crc32 tabs (vm_level_options ?vm) (vm_levels ?vm)
      (lsm_get_ssts mem_object_store_ops decompress crc32 fingerprint32 k s) (opt_join (read_layers s k zss))"
      unfolding lsm_get_ssts_def
      by (rule reads_vbind[OF reads_vget, of _ _ _ "length zss"], use h(4) in \<open>simp add: vm_levels_len_def\<close>,
          rule reads_vbind[OF reads_vunwrap[OF pick]])
        (use reads_get_levels[OF h(3) assms(2), of zss fingerprint32 xs "vm_level_options ?vm" 0 "vm_levels ?vm" s] h(5,6) in simp)
    then obtain st where "lsm_get_ssts mem_object_store_ops decompress crc32 fingerprint32 k s ?vm =
        (Ok (opt_join (read_layers s k zss)), ?vm\<lparr>vm_store := st\<rparr>)"
      and st: "ss_inv mo_objects decompress crc32 tabs st" using h(3) unfolding vm_reads_def by blast
    moreover have "lsm_holds decompress crc32 fingerprint32 (lt\<lparr>lt_version_manager := ?vm\<lparr>vm_store := st\<rparr>\<rparr>) xss"
      unfolding lsm_holds_def
      by (rule exI[of _ tabs], rule exI[of _ xs], rule exI[of _ mss], rule exI[of _ zss]) (use h st in simp)
    ultimately show ?thesis using None mem h(1) by (auto simp: lsm_get_def read_layers_append)
  qed
qed

text \<open>C1. A read of the tree is a snapshot read: when newer layers hold newer versions, a read of a key at a
  sequence returns the value of the newest version of the key, in any memtable or any table of any
  level, that is not newer than the sequence, and nothing when that version is a tombstone or there
  is none. Filters, key ranges and early exits never lose it.\<close>

theorem lsm_get_reads_newest_version:
  assumes "lsm_holds decompress crc32 fingerprint32 lt xss" "layered xss"
    and "versions_sorted zs" "set zs = (\<Union>xs \<in> set xss. set xs)" "k \<noteq> []"
  shows "\<exists>lt'. lsm_get mem_object_store_ops decompress crc32 fingerprint32 k s lt =
    (Ok (case read_at s k zs of None \<Rightarrow> None | Some v \<Rightarrow> v), lt')"
  using lsm_get_layers[OF assms(1,5), of s] read_layers_union[OF assms(2-4), of s k] by auto

lemma read_at_insert:
  assumes "versions_sorted ys" "versions_sorted zs" "set zs = insert (k, s, v) (set ys)" "\<forall>y \<in> set ys. fst y = k \<longrightarrow> fst (snd y) < s"
  shows "read_at s' k' zs = (if k' = k \<and> s \<le> s' then Some v else read_at s' k' ys)"
proof (cases "k' = k \<and> s \<le> s'")
  case True
  then show ?thesis using read_at_newest[OF assms(2), of k s v s'] assms(3,4) by (force simp: visible_def)
next
  case False
  have "read_at s' k' ys = read_at s' k' zs" by (rule read_at_subset[OF assms(1,2)]) (use assms(3) False in \<open>auto simp: visible_def\<close>)
  then show ?thesis using False by auto
qed

text \<open>A write extends the first layer, or starts a new one when the memtable is full.\<close>

lemma lsm_write_layers:
  assumes holds: "lsm_holds decompress crc32 fingerprint32 lt xss" and wr: "lsm_write nl h k v s apply_index lt = Ok lt'"
    and nl: "layout_ok nl" "h < tower_max_height" and newer: "\<forall>xs \<in> set xss. \<forall>x \<in> set xs. fst x = k \<longrightarrow> fst (snd x) < s"
  obtains ys ys' rest where "xss = ys # rest \<or> ys = [] \<and> xss = rest" "versions_sorted ys" "versions_sorted ys'"
    "set ys' = insert (k, s, v) (set ys)" "lsm_holds decompress crc32 fingerprint32 lt' (ys' # rest)" "set ys \<subseteq> (\<Union>xs \<in> set xss. set xs)"
proof -
  obtain tabs xs mss zss where h: "xss = mss @ zss"
    "list_all2 mt_rep (mc_table (lt_memtable lt) # map mc_table (lt_immutable_memtables lt)) mss"
    "ss_inv mo_objects decompress crc32 tabs (vm_store (lt_version_manager lt))"
    "length (vm_levels (lt_version_manager lt)) = length zss" "length (vm_level_options (lt_version_manager lt)) = length zss"
    "\<forall>l < length zss. level_holds fingerprint32 tabs xs (lo_compaction_strategy (vm_level_options (lt_version_manager lt) ! l))
      (vm_levels (lt_version_manager lt) ! l) (zss ! l)"
    using holds unfolding lsm_holds_def by blast
  obtain m0 ms where mss: "mss = m0 # ms" "mt_rep (mc_table (lt_memtable lt)) m0" "list_all2 mt_rep (map mc_table (lt_immutable_memtables lt)) ms"
    using h(2) by (auto simp: list_all2_Cons1)
  have put: "\<exists>ys'. mt_rep mt' ys' \<and> set ys' = insert (k, s, v) (set ys)"
    if "mt_rep mt ys" "memtable_put nl h k v s mt = Ok mt'" "set ys \<subseteq> (\<Union>xs \<in> set xss. set xs)" for mt mt' ys
  proof -
    have "(k, s) \<notin> (\<lambda>x. (fst x, fst (snd x))) ` set ys" using newer that(3) by fastforce
    then show ?thesis using memtable_put_rep[OF that(1,2) nl] by auto
  qed
  have m0: "set m0 \<subseteq> (\<Union>xs \<in> set xss. set xs)" using h(1) mss(1) by auto
  obtain remain where "memtable_mem_remain (mc_table (lt_memtable lt)) = Ok remain" using wr by (auto simp: lsm_write_def outcome_simps)
  show ?thesis
  proof (cases "remain < approximate_size k v")
    case False
    then obtain mt' where mt': "memtable_put nl h k v s (mc_table (lt_memtable lt)) = Ok mt'"
      "lt' = lt\<lparr>lt_memtable := \<lparr>mc_table = mt', mc_max_applied_index = apply_index, mc_max_sequence = s\<rparr>\<rparr>"
      using wr \<open>memtable_mem_remain _ = _\<close> by (auto simp: lsm_write_def outcome_simps)
    obtain ys' where ys': "mt_rep mt' ys'" "set ys' = insert (k, s, v) (set m0)" using put[OF mss(2) mt'(1) m0] by blast
    have "lsm_holds decompress crc32 fingerprint32 lt' (ys' # ms @ zss)"
      unfolding lsm_holds_def
      by (rule exI[of _ tabs], rule exI[of _ xs], rule exI[of _ "ys' # ms"], rule exI[of _ zss]) (use h(3-6) mss ys' mt' in simp)
    then show ?thesis using that[of m0 "ms @ zss" ys'] h(1) mss ys' m0 mt_rep_sorted by auto
  next
    case True
    then obtain mt mt' where mt': "memtable_new nl (lt_write_buffer_capacity lt) = Ok mt" "memtable_put nl h k v s mt = Ok mt'"
      "lt' = lt\<lparr>lt_memtable := \<lparr>mc_table = mt', mc_max_applied_index = apply_index, mc_max_sequence = s\<rparr>,
        lt_immutable_memtables := lt_memtable lt # lt_immutable_memtables lt\<rparr>"
      using wr \<open>memtable_mem_remain _ = _\<close> by (auto simp: lsm_write_def lsm_rotate_def memtable_with_ctx_new_def outcome_simps)
    obtain ys' where ys': "mt_rep mt' ys'" "set ys' = insert (k, s, v) (set [])" using put[OF memtable_new_rep[OF mt'(1) nl(1)] mt'(2)] by auto
    have "lsm_holds decompress crc32 fingerprint32 lt' (ys' # mss @ zss)"
      unfolding lsm_holds_def
      by (rule exI[of _ tabs], rule exI[of _ xs], rule exI[of _ "ys' # mss"], rule exI[of _ zss]) (use h(3-6) mss ys' mt' in simp)
    then show ?thesis using that[of "[]" "mss @ zss" ys'] h(1) ys' mt_rep_sorted by (auto simp: key_sorted_def)
  qed
qed

text \<open>The history of a tree: its writes, the newest of every key first.\<close>

definition lsm_history ::
  "(bytes \<Rightarrow> bytes option) \<Rightarrow> (bytes \<Rightarrow> nat) \<Rightarrow> (bytes \<Rightarrow> u32) \<Rightarrow> mem_object_store lsm_tree \<Rightarrow> version_entry list \<Rightarrow> bool" where
  "lsm_history decompress crc32 fingerprint32 lt hist \<longleftrightarrow>
     (\<exists>xss. lsm_holds decompress crc32 fingerprint32 lt xss \<and> layered xss \<and> set hist = (\<Union>xs \<in> set xss. set xs) \<and>
        (\<forall>s k. read_layers s k xss = read_at s k hist))"

lemma lsm_history_get:
  assumes "lsm_history decompress crc32 fingerprint32 lt hist" "k \<noteq> []"
  shows "\<exists>lt'. lsm_get mem_object_store_ops decompress crc32 fingerprint32 k s lt = (Ok (opt_join (read_at s k hist)), lt') \<and>
    lsm_history decompress crc32 fingerprint32 lt' hist"
proof -
  obtain xss where x: "lsm_holds decompress crc32 fingerprint32 lt xss" "layered xss" "set hist = (\<Union>xs \<in> set xss. set xs)"
    "\<And>s k. read_layers s k xss = read_at s k hist" using assms(1) unfolding lsm_history_def by blast
  from lsm_get_layers[OF x(1) assms(2), of s] obtain lt' where
    "lsm_get mem_object_store_ops decompress crc32 fingerprint32 k s lt = (Ok (opt_join (read_at s k hist)), lt')"
    "lsm_holds decompress crc32 fingerprint32 lt' xss" unfolding x(4) by blast
  then show ?thesis using x unfolding lsm_history_def by blast
qed

lemma read_at_Cons: "read_at s' k' ((k, s, v) # hist) = (if k' = k \<and> s \<le> s' then Some v else read_at s' k' hist)"
  by (auto simp: read_at_def visible_def)

lemma lsm_history_write:
  assumes hist: "lsm_history decompress crc32 fingerprint32 lt hist" and nl: "layout_ok nl" "h < tower_max_height"
    and newer: "\<forall>x \<in> set hist. fst x = k \<longrightarrow> fst (snd x) < s" and wr: "lsm_write nl h k v s apply_index lt = Ok lt'"
  shows "lsm_history decompress crc32 fingerprint32 lt' ((k, s, v) # hist)"
proof -
  obtain xss where x: "lsm_holds decompress crc32 fingerprint32 lt xss" "layered xss" "set hist = (\<Union>xs \<in> set xss. set xs)"
    "\<And>s k. read_layers s k xss = read_at s k hist" using hist unfolding lsm_history_def by blast
  have new: "\<forall>xs \<in> set xss. \<forall>x \<in> set xs. fst x = k \<longrightarrow> fst (snd x) < s" using newer x(3) by blast
  obtain ys ys' rest where w: "xss = ys # rest \<or> ys = [] \<and> xss = rest" "versions_sorted ys" "versions_sorted ys'"
    "set ys' = insert (k, s, v) (set ys)" "lsm_holds decompress crc32 fingerprint32 lt' (ys' # rest)" "set ys \<subseteq> (\<Union>xs \<in> set xss. set xs)"
    by (rule lsm_write_layers[OF x(1) wr nl new])
  have newer_ys: "\<forall>y \<in> set ys. fst y = k \<longrightarrow> fst (snd y) < s" using new w(6) by blast
  have "read_layers s' k' xss = (case read_at s' k' ys of Some v \<Rightarrow> Some v | None \<Rightarrow> read_layers s' k' rest)" for s' k'
    using w(1) by (auto simp: read_at_def)
  then have "read_layers s' k' (ys' # rest) = read_at s' k' ((k, s, v) # hist)" for s' k'
    using read_at_insert[OF w(2-4) newer_ys, of s' k'] x(4)[of s' k'] by (auto simp: read_at_Cons)
  moreover have "fst (snd y) < fst (snd x)" if "zs \<in> set rest" "x \<in> set ys'" "y \<in> set zs" "fst x = fst y" for zs x y
  proof (cases "x = (k, s, v)")
    case True
    then show ?thesis using new w(1) that by auto
  next
    case False
    then have y: "x \<in> set ys" using that(2) w(4) by simp
    then have xs: "xss = ys # rest" using w(1) by auto
    show ?thesis using x(2)[unfolded xs layered_def sorted_wrt.simps] that y by blast
  qed
  then have "layered (ys' # rest)" using x(2) w(1,3) by (auto simp: layered_def)
  moreover have "set ((k, s, v) # hist) = (\<Union>xs \<in> set (ys' # rest). set xs)" using w(1,4) x(3) by auto
  ultimately show ?thesis using w(5) unfolding lsm_history_def by blast
qed

lemma lsm_history_get_same:
  assumes "lsm_history decompress crc32 fingerprint32 lt hist" "k \<noteq> []"
  shows "fst (lsm_get mem_object_store_ops decompress crc32 fingerprint32 k s lt) = Ok (opt_join (read_at s k hist))"
  using lsm_history_get[OF assms, of s] by auto

text \<open>C2. Writes are read back and disturb nothing else: after a write with a sequence above those of the
  key's other versions, whether or not it rotates the memtable, a read of the key at that sequence or
  later returns what was written, every other read answers as before, and the tree keeps a history.\<close>

theorem lsm_write_then_read:
  assumes "lsm_history decompress crc32 fingerprint32 lt hist" "layout_ok nl" "h < tower_max_height"
    and "\<forall>x \<in> set hist. fst x = k \<longrightarrow> fst (snd x) < s"
    and "lsm_write nl h k v s apply_index lt = Ok lt'" "k' \<noteq> []"
  shows "fst (lsm_get mem_object_store_ops decompress crc32 fingerprint32 k' s' lt') =
      (if k' = k \<and> s \<le> s' then Ok v else fst (lsm_get mem_object_store_ops decompress crc32 fingerprint32 k' s' lt)) \<and>
    lsm_history decompress crc32 fingerprint32 lt' ((k, s, v) # hist)"
  using lsm_history_write[OF assms(1-5)] lsm_history_get_same[OF assms(1,6)] lsm_history_get_same[OF _ assms(6)]
  by (auto simp: read_at_Cons)

section \<open>When a write fails\<close>

lemma sl_put_full:
  assumes "\<not> present sl ps k" "sl_rep sl ps" "arena_ok (sl_arena sl)" "8 \<le> length k" "layout_ok nl" "h < tower_max_height"
    and "ar_cap (sl_arena sl) < ar_len (sl_arena sl) + node_bytes nl h"
  shows "sl_put nl h k v sl = Panic"
proof -
  have lh: "sl_height sl < tower_max_height" using assms(2) by (simp add: sl_rep_def)
  have "(tower_max_height - h - 1) * 4 \<le> nl_size nl" using assms(5,6) by (auto simp: layout_ok_def)
  then have "node_alloc nl k v h (sl_arena sl) = Panic"
    using assms(7) by (auto simp: node_alloc_def arena_alloc_def sub_u64_def node_bytes_def Let_def)
  then show ?thesis using put_search_from_head[OF assms(2-4), of v] assms(1) lh by (auto simp: sl_put_def Let_def)
qed

lemma memtable_put_full:
  assumes rep: "mt_rep mt xs" and nl: "layout_ok nl" "h < tower_max_height" and fresh: "(k, s) \<notin> (\<lambda>x. (fst x, fst (snd x))) ` set xs"
    and full: "ar_cap (sl_arena (mt_inner mt)) < memtable_mem_size mt + node_bytes nl h"
  shows "memtable_put nl h k v s mt = Panic"
proof -
  obtain ps where ps: "sl_rep (mt_inner mt) ps" "arena_ok (sl_arena (mt_inner mt))" "sl_entries (mt_inner mt) ps = map entry_of xs"
    using rep by (auto simp: mt_rep_def)
  have "\<not> present (mt_inner mt) ps (full_key k s)" using fresh unfolding present_def ps(3) by (force simp: entry_of_def)
  from sl_put_full[OF this ps(1,2) _ nl] full show ?thesis by (simp add: memtable_put_def memtable_mem_size_def sl_mem_size_def)
qed

lemma memtable_put_safe:
  assumes "mt_rep mt xs" "layout_ok nl" "h < tower_max_height" "(k, s) \<notin> (\<lambda>x. (fst x, fst (snd x))) ` set xs"
  shows "memtable_put nl h k v s mt = Panic \<or> (\<exists>mt'. memtable_put nl h k v s mt = Ok mt')"
  using memtable_put_full[OF assms, of v] memtable_put_total[OF assms(1-3), of k v s] by (metis not_le)

lemma memtable_new_safe: "memtable_new nl capacity = Panic \<or> (\<exists>mt. memtable_new nl capacity = Ok mt)"
  by (auto simp: memtable_new_def skiplist_with_capacity_def node_alloc_def arena_alloc_def sub_u64_def rassert_def Let_def)

lemma lsm_write_safe:
  assumes hist: "lsm_history decompress crc32 fingerprint32 lt hist" and nl: "layout_ok nl" "h < tower_max_height"
    and newer: "\<forall>x \<in> set hist. fst x = k \<longrightarrow> fst (snd x) < s"
  shows "lsm_write nl h k v s apply_index lt = Panic \<or> (\<exists>lt'. lsm_write nl h k v s apply_index lt = Ok lt')"
proof -
  obtain m0 where m0: "mt_rep (mc_table (lt_memtable lt)) m0" "set m0 \<subseteq> set hist"
    using hist by (auto simp: lsm_history_def lsm_holds_def list_all2_Cons1)
  have "(k, s) \<notin> (\<lambda>x. (fst x, fst (snd x))) ` set m0" using m0(2) newer by fastforce
  note put = memtable_put_safe[OF m0(1) nl this, of v]
  have new: "memtable_put nl h k v s mt = Panic \<or> (\<exists>mt'. memtable_put nl h k v s mt = Ok mt')"
    if "memtable_new nl (lt_write_buffer_capacity lt) = Ok mt" for mt
    by (rule memtable_put_safe[OF memtable_new_rep[OF that nl(1)] nl]) simp
  show ?thesis using put new memtable_new_safe[of nl "lt_write_buffer_capacity lt"]
    by (auto simp: lsm_write_def lsm_rotate_def memtable_with_ctx_new_def memtable_mem_remain_def sub_u64_def rassert_def split: if_splits)
qed

text \<open>C31. The rotation check does not bound the node a write allocates: when the approximate size of a pair
  still fits but the node of its height does not, the write panics, although a new memtable could
  take it.\<close>

theorem write_may_overflow_arena:
  assumes "lsm_history decompress crc32 fingerprint32 lt hist" "layout_ok nl" "h < tower_max_height"
    and "\<forall>x \<in> set hist. fst x = k \<longrightarrow> fst (snd x) < s"
    and "memtable_mem_remain (mc_table (lt_memtable lt)) = Ok remain" "approximate_size k v \<le> remain"
    and "ar_cap (sl_arena (mt_inner (mc_table (lt_memtable lt)))) < memtable_mem_size (mc_table (lt_memtable lt)) + node_bytes nl h"
  shows "lsm_write nl h k v s apply_index lt = Panic"
proof -
  obtain m0 where m0: "mt_rep (mc_table (lt_memtable lt)) m0" "set m0 \<subseteq> set hist"
    using assms(1) by (auto simp: lsm_history_def lsm_holds_def list_all2_Cons1)
  have "(k, s) \<notin> (\<lambda>x. (fst x, fst (snd x))) ` set m0" using m0(2) assms(4) by fastforce
  from memtable_put_full[OF m0(1) assms(2,3) this assms(7), of v] assms(5,6) show ?thesis by (simp add: lsm_write_def)
qed

text \<open>When a write succeeds. A sized tree has a write buffer of a multiple of 8 bytes, all of it in the arena
  of its memtable. A sized write has a node no larger than the approximate size the rotation check
  goes by, and fits into a new memtable.\<close>

definition tree_sized :: "'os lsm_tree \<Rightarrow> bool" where
  "tree_sized lt \<longleftrightarrow>
     (let c = lt_write_buffer_capacity lt; mt = mc_table (lt_memtable lt) in
      8 dvd c \<and> c < 2 ^ 32 \<and> mt_capacity mt = c \<and> ar_cap (sl_arena (mt_inner mt)) = c \<and> memtable_mem_size mt \<le> c)"

definition write_sized :: "node_layout \<Rightarrow> nat \<Rightarrow> bytes \<Rightarrow> bytes option \<Rightarrow> nat \<Rightarrow> bool" where
  "write_sized nl h k v c \<longleftrightarrow> node_bytes nl h \<le> approximate_size k v \<and>
     1 + node_bytes nl (tower_max_height - 1) + approximate_size k v \<le> c"

lemma memtable_put_sized:
  assumes "mt_rep mt xs" "layout_ok nl" "h < tower_max_height" "ar_cap (sl_arena (mt_inner mt)) = c"
    and "memtable_mem_size mt + approximate_size k v \<le> c" "write_sized nl h k v c'"
  shows "\<exists>mt'. memtable_put nl h k v s mt = Ok mt' \<and> mt_capacity mt' = mt_capacity mt \<and>
    ar_cap (sl_arena (mt_inner mt')) = c \<and> memtable_mem_size mt' \<le> c"
proof -
  have "memtable_mem_size mt + node_bytes nl h \<le> c" using assms(5,6) by (simp add: write_sized_def)
  then obtain mt' where mt': "memtable_put nl h k v s mt = Ok mt'" "memtable_mem_size mt' \<le> memtable_mem_size mt + node_bytes nl h"
    "ar_cap (sl_arena (mt_inner mt')) = c" using memtable_put_total[OF assms(1-3), of k v s] assms(4) by auto
  moreover from mt'(1) have "mt_capacity mt' = mt_capacity mt" by (auto simp: memtable_put_def outcome_simps)
  ultimately show ?thesis using \<open>memtable_mem_size mt + node_bytes nl h \<le> c\<close> by auto
qed

lemma lsm_write_succeeds:
  assumes hist: "lsm_history decompress crc32 fingerprint32 lt hist" and nl: "layout_ok nl" "h < tower_max_height"
    and sized: "tree_sized lt" "write_sized nl h k v (lt_write_buffer_capacity lt)"
    and newer: "mc_max_applied_index (lt_memtable lt) < apply_index" "mc_max_sequence (lt_memtable lt) < s"
  shows "\<exists>lt'. lsm_write nl h k v s apply_index lt = Ok lt' \<and> tree_sized lt' \<and>
    lt_write_buffer_capacity lt' = lt_write_buffer_capacity lt \<and>
    mc_max_applied_index (lt_memtable lt') = apply_index \<and> mc_max_sequence (lt_memtable lt') = s"
proof -
  define c where "c = lt_write_buffer_capacity lt"
  let ?mt = "mc_table (lt_memtable lt)"
  have c: "8 dvd c" "c < 2 ^ 32" "mt_capacity ?mt = c" "ar_cap (sl_arena (mt_inner ?mt)) = c" "memtable_mem_size ?mt \<le> c"
    and w: "1 + node_bytes nl (tower_max_height - 1) + approximate_size k v \<le> c" "write_sized nl h k v c"
    using sized by (auto simp: tree_sized_def write_sized_def c_def Let_def)
  obtain m0 where m0: "mt_rep ?mt m0" using hist by (auto simp: lsm_history_def lsm_holds_def list_all2_Cons1)
  have rem: "memtable_mem_remain ?mt = Ok (c - memtable_mem_size ?mt)"
    using c(3,5) by (simp add: memtable_mem_remain_def memtable_mem_size_def)
  have pos: "0 < apply_index" "0 < s" using newer by (auto intro: le_less_trans)
  show ?thesis
  proof (cases "c - memtable_mem_size ?mt < approximate_size k v")
    case False
    then have "memtable_mem_size ?mt + approximate_size k v \<le> c" using c(5) by linarith
    from memtable_put_sized[OF m0 nl c(4) this w(2), of s] obtain mt' where
      "memtable_put nl h k v s ?mt = Ok mt'" "mt_capacity mt' = c" "ar_cap (sl_arena (mt_inner mt')) = c" "memtable_mem_size mt' \<le> c"
      using c(3) by auto
    then show ?thesis using False rem newer c(1,2) by (simp add: lsm_write_def tree_sized_def Let_def flip: c_def)
  next
    case True
    have "c div 8 * 8 = c" using c(1) by simp
    then obtain mt where mt: "memtable_new nl c = Ok mt" "mt_rep mt []" "mt_capacity mt = c"
      "memtable_mem_size mt = 1 + node_bytes nl (tower_max_height - 1)" "ar_cap (sl_arena (mt_inner mt)) = c"
      using memtable_new_total[OF nl(1) _ c(2)] w(1) by auto
    have "memtable_mem_size mt + approximate_size k v \<le> c" using mt(4) w(1) by simp
    from memtable_put_sized[OF mt(2) nl mt(5) this w(2), of s] obtain mt' where
      "memtable_put nl h k v s mt = Ok mt'" "mt_capacity mt' = c" "ar_cap (sl_arena (mt_inner mt')) = c" "memtable_mem_size mt' \<le> c"
      using mt(3) by auto
    then show ?thesis using True rem mt(1) pos c(1,2)
      by (simp add: lsm_write_def lsm_rotate_def memtable_with_ctx_new_def tree_sized_def Let_def flip: c_def)
  qed
qed

text \<open>A layered tree has a history: its versions in the order of the keys.\<close>

lemma lsm_history_of_layers:
  assumes "lsm_holds decompress crc32 fingerprint32 lt xss" "layered xss" "versions_sorted zs" "set zs = (\<Union>xs \<in> set xss. set xs)"
  shows "lsm_history decompress crc32 fingerprint32 lt zs"
  using assms read_layers_union[OF assms(2-4)] unfolding lsm_history_def by auto

abbreviation example_tree :: "memtable \<Rightarrow> mem_object_store sstable_store \<Rightarrow> mem_object_store lsm_tree" where
  "example_tree mt st \<equiv>
     \<lparr>lt_write_buffer_capacity = 1024, lt_version_manager = example_manager [5] st,
      lt_memtable = \<lparr>mc_table = mt, mc_max_applied_index = 0, mc_max_sequence = 0\<rparr>, lt_immutable_memtables = []\<rparr>"

lemma example_tree_levels:
  "\<exists>st. \<forall>mt. mt_rep mt [] \<longrightarrow> lsm_holds stored_decompress (\<lambda>_. 7) (\<lambda>_. 1) (example_tree mt st) [[], union_versions]"
proof -
  obtain m st where run: "ss_run mem_object_store_ops stored_decompress (\<lambda>_. 7)
      [5 \<mapsto> (2, [map entry_of union_versions], m), 6 \<mapsto> (2, [map entry_of union_versions], m)] st"
    "filter_covers (\<lambda>_. 1) m union_versions" using two_filtered_tables_run by blast
  let ?tabs = "[5 \<mapsto> (2, [map entry_of union_versions], m), 6 \<mapsto> (2, [map entry_of union_versions], m)]"
  have "level_holds (\<lambda>_. 1) ?tabs (\<lambda>_. union_versions) NonOverlap [5] union_versions"
    using run(2) union_versions_ok versions_distinct[OF union_versions_ok(1)] by (auto simp: level_holds_def versions_table_def)
  then have "lsm_holds stored_decompress (\<lambda>_. 7) (\<lambda>_. 1) (example_tree mt st) [[], union_versions]" if "mt_rep mt []" for mt
    unfolding lsm_holds_def
    by (intro exI[of _ ?tabs] exI[of _ "\<lambda>_. union_versions"] exI[of _ "[[]]"] exI[of _ "[union_versions]"])
      (use that mem_os.run_inv[OF run(1)] in simp)
  then show ?thesis by blast
qed

lemma example_layers: "layered [[], union_versions]"
  using union_versions_ok by (simp add: layered_def key_sorted_def)

lemma example_memtable:
  assumes "160 \<le> c" "c < 2 ^ 32" "8 dvd c"
  shows "\<exists>mt. memtable_new example_layout_of_node c = Ok mt \<and> mt_rep mt [] \<and> memtable_mem_remain mt = Ok (c - 160) \<and>
    ar_cap (sl_arena (mt_inner mt)) = c \<and> memtable_mem_size mt = 160"
proof -
  have nb: "node_bytes example_layout_of_node (tower_max_height - 1) = 159"
    by (simp add: node_bytes_def example_layout_of_node_def tower_max_height_def)
  obtain mt where mt: "memtable_new example_layout_of_node c = Ok mt" "mt_rep mt []" "mt_capacity mt = c"
    "memtable_mem_size mt = 160" "ar_cap (sl_arena (mt_inner mt)) = c"
    using memtable_new_total[OF example_writes_ok(1), of c] nb assms by auto
  moreover have "memtable_mem_remain mt = Ok (c - 160)"
    using mt(3,4) assms(1) by (simp add: memtable_mem_remain_def memtable_mem_size_def sub_u64_def)
  ultimately show ?thesis by blast
qed

lemma example_tree_holds:
  "\<exists>mt st. memtable_new example_layout_of_node 1024 = Ok mt \<and> mt_rep mt [] \<and> memtable_mem_remain mt = Ok 864 \<and>
    ar_cap (sl_arena (mt_inner mt)) = 1024 \<and> memtable_mem_size mt = 160 \<and>
    lsm_holds stored_decompress (\<lambda>_. 7) (\<lambda>_. 1) (example_tree mt st) [[], union_versions] \<and> layered [[], union_versions]"
  using example_memtable[of 1024] example_tree_levels example_layers by auto

lemma example_tree_history:
  "\<exists>st. \<forall>mt. mt_rep mt [] \<longrightarrow> lsm_history stored_decompress (\<lambda>_. 7) (\<lambda>_. 1) (example_tree mt st) union_versions"
  using example_tree_levels lsm_history_of_layers[OF _ example_layers union_versions_ok(1)] by fastforce

theorem write_may_overflow_arena_witness:
  "\<exists>mt st. memtable_mem_remain mt = Ok 104 \<and> approximate_size [107] (Some [5]) = 98 \<and>
    lsm_write example_layout_of_node 19 [107] (Some [5]) 12 1 (example_tree mt st) = Panic"
proof -
  obtain mt where mt: "mt_rep mt []" "memtable_mem_remain mt = Ok 104" "ar_cap (sl_arena (mt_inner mt)) = 264" "memtable_mem_size mt = 160"
    using example_memtable[of 264] by auto
  obtain st where st: "lsm_history stored_decompress (\<lambda>_. 7) (\<lambda>_. 1) (example_tree mt st) union_versions"
    using example_tree_history mt(1) by blast
  have size: "approximate_size [107] (Some [5]) = 98" by (simp add: approximate_size_def tower_max_height_def)
  have "lsm_write example_layout_of_node 19 [107] (Some [5]) 12 1 (example_tree mt st) = Panic"
    by (rule write_may_overflow_arena[OF st example_writes_ok(1), where remain = 104])
      (use mt size in \<open>simp_all add: node_bytes_def example_layout_of_node_def tower_max_height_def union_versions_def\<close>)
  then show ?thesis using mt(2) size by blast
qed

theorem lsm_get_reads_newest_version_witness:
  "\<exists>mt st lt1 lt2. lsm_get mem_object_store_ops stored_decompress (\<lambda>_. 7) (\<lambda>_. 1) [107, 49] 5 (example_tree mt st) = (Ok (Some [7]), lt1) \<and>
    lsm_get mem_object_store_ops stored_decompress (\<lambda>_. 7) (\<lambda>_. 1) [107, 49] 6 (example_tree mt st) = (Ok None, lt2)"
proof -
  obtain mt st where h: "lsm_holds stored_decompress (\<lambda>_. 7) (\<lambda>_. 1) (example_tree mt st) [[], union_versions]" "layered [[], union_versions]"
    using example_tree_holds by blast
  have "\<exists>lt'. lsm_get mem_object_store_ops stored_decompress (\<lambda>_. 7) (\<lambda>_. 1) [107, 49] s (example_tree mt st) =
      (Ok (case read_at s [107, 49] union_versions of None \<Rightarrow> None | Some v \<Rightarrow> v), lt')" for s
    by (rule lsm_get_reads_newest_version[OF h union_versions_ok(1)]) simp_all
  from this[of 5] this[of 6] show ?thesis by (auto simp: read_at_def visible_def union_versions_def)
qed

lemma example_tree_write:
  "\<exists>mt st lt'. mt_rep mt [] \<and> lsm_history stored_decompress (\<lambda>_. 7) (\<lambda>_. 1) (example_tree mt st) union_versions \<and>
    lsm_write example_layout_of_node 2 [107, 49] (Some [5]) 12 1 (example_tree mt st) = Ok lt'"
proof -
  obtain mt st where h: "mt_rep mt []" "memtable_mem_remain mt = Ok 864" "ar_cap (sl_arena (mt_inner mt)) = 1024" "memtable_mem_size mt = 160"
    "lsm_holds stored_decompress (\<lambda>_. 7) (\<lambda>_. 1) (example_tree mt st) [[], union_versions]" "layered [[], union_versions]"
    using example_tree_holds by blast
  have "memtable_mem_size mt + node_bytes example_layout_of_node 2 \<le> ar_cap (sl_arena (mt_inner mt))"
    using h(3,4) by (simp add: node_bytes_def example_layout_of_node_def tower_max_height_def)
  from memtable_put_total[OF h(1) example_writes_ok(1) _ this, of "[107, 49]" "Some [5]" 12] obtain mt' where
    "memtable_put example_layout_of_node 2 [107, 49] (Some [5]) 12 mt = Ok mt'" by (auto simp: tower_max_height_def)
  then have "\<exists>lt'. lsm_write example_layout_of_node 2 [107, 49] (Some [5]) 12 1 (example_tree mt st) = Ok lt'"
    using h(2) by (auto simp: lsm_write_def approximate_size_def tower_max_height_def)
  then show ?thesis using h(1) lsm_history_of_layers[OF h(5,6) union_versions_ok(1)] by auto
qed

theorem lsm_write_then_read_witness:
  "\<exists>mt st lt'. lsm_write example_layout_of_node 2 [107, 49] (Some [5]) 12 1 (example_tree mt st) = Ok lt' \<and>
    fst (lsm_get mem_object_store_ops stored_decompress (\<lambda>_. 7) (\<lambda>_. 1) [107, 49] 12 lt') = Ok (Some [5])"
proof -
  obtain mt st lt' where lt': "lsm_write example_layout_of_node 2 [107, 49] (Some [5]) 12 1 (example_tree mt st) = Ok lt'"
    and hist: "lsm_history stored_decompress (\<lambda>_. 7) (\<lambda>_. 1) (example_tree mt st) union_versions" using example_tree_write by blast
  have two: "2 < tower_max_height" by (simp add: tower_max_height_def)
  have "\<forall>x \<in> set union_versions. fst x = [107, 49] \<longrightarrow> fst (snd x) < 12" by (simp add: union_versions_def)
  from lsm_write_then_read[OF hist example_writes_ok(1) two this lt', of "[107, 49]" 12] lt' show ?thesis by auto
qed

end
