(* ===== verification/Pools.thy ===== *)
theory Pools
  imports Prelude
begin

text \<open>
  \<open>common/src/sharded_hash_map.rs\<close>, \<open>common/src/notify_pool.rs\<close> and \<open>common/src/channel_pool.rs\<close>.

  A sharded map keeps one hash map per shard; the hash of the standard library's \<open>DefaultHasher\<close> is a
  function from keys to 64-bit words. A notify pool is such a map from identifiers to the senders of
  one-shot channels. Channels are numbered in the order of their creation; a channel holds the value
  that was sent, and knows whether its receiver is alive.
\<close>

section \<open>Sharded hash maps\<close>

record ('k, 'v) sharded_hash_map =
  sh_shards :: nat
  sh_buckets :: "nat \<rightharpoonup> ('k \<rightharpoonup> 'v)"

definition sharded_hash_map_new :: "nat \<Rightarrow> ('k, 'v) sharded_hash_map" where
  "sharded_hash_map_new shards =
     \<lparr>sh_shards = shards, sh_buckets = (\<lambda>i. if i < shards then Some Map.empty else None)\<rparr>"

text \<open>The remainder panics when there is no shard; the cast to 16 bits keeps a remainder below a \<open>u16\<close>.\<close>

definition shard_of :: "('k \<Rightarrow> u64) \<Rightarrow> 'k \<Rightarrow> ('k, 'v) sharded_hash_map \<Rightarrow> (nat, 'e) result" where
  "shard_of hash key m =
     rbind (rassert (sh_shards m \<noteq> 0)) (\<lambda>_. Ok (unat (hash key) mod sh_shards m mod 2 ^ 16))"

definition shard_bucket :: "('k \<Rightarrow> u64) \<Rightarrow> 'k \<Rightarrow> ('k, 'v) sharded_hash_map \<Rightarrow> (nat \<times> ('k \<rightharpoonup> 'v), 'e) result" where
  "shard_bucket hash key m =
     rbind (shard_of hash key m) (\<lambda>shard. rbind (unwrap (sh_buckets m shard)) (\<lambda>bucket. Ok (shard, bucket)))"

definition sharded_insert ::
  "('k \<Rightarrow> u64) \<Rightarrow> 'k \<Rightarrow> 'v \<Rightarrow> ('k, 'v) sharded_hash_map \<Rightarrow> ('v option \<times> ('k, 'v) sharded_hash_map, 'e) result" where
  "sharded_insert hash key v m =
     rbind (shard_bucket hash key m) (\<lambda>(shard, bucket).
       Ok (bucket key, m\<lparr>sh_buckets := (sh_buckets m)(shard \<mapsto> bucket(key \<mapsto> v))\<rparr>))"

text \<open>A read guard gives the value of the key, a write guard lets its holder change it.\<close>

definition sharded_read :: "('k \<Rightarrow> u64) \<Rightarrow> 'k \<Rightarrow> ('k, 'v) sharded_hash_map \<Rightarrow> ('v option, 'e) result" where
  "sharded_read hash key m = rbind (shard_bucket hash key m) (\<lambda>(_, bucket). Ok (bucket key))"

definition sharded_write ::
  "('k \<Rightarrow> u64) \<Rightarrow> 'k \<Rightarrow> ('v \<Rightarrow> 'v) \<Rightarrow> ('k, 'v) sharded_hash_map \<Rightarrow> ('v option \<times> ('k, 'v) sharded_hash_map, 'e) result" where
  "sharded_write hash key f m =
     rbind (shard_bucket hash key m) (\<lambda>(shard, bucket).
       Ok (bucket key, m\<lparr>sh_buckets := (sh_buckets m)(shard \<mapsto> bucket(key := map_option f (bucket key)))\<rparr>))"

section \<open>Notify pools\<close>

record 'r oneshot =
  oc_value :: "'r option"
  oc_receiver :: bool

datatype 'i pool_error =
    IdAlreadyExists 'i
  | IdDoesNotExist 'i
  | NotifierClosed 'i
  | EndpointNotFound 'i
  | ConnectError 'i
  | ChannelDoesNotExist 'i

record ('i, 'r) notify_pool =
  np_senders :: "('i, nat) sharded_hash_map"
  np_channels :: "'r oneshot list"

definition notify_pool_new :: "nat \<Rightarrow> ('i, 'r) notify_pool" where
  "notify_pool_new shards = \<lparr>np_senders = sharded_hash_map_new shards, np_channels = []\<rparr>"

definition np_register :: "('i \<Rightarrow> u64) \<Rightarrow> 'i \<Rightarrow> ('i, 'r) notify_pool \<Rightarrow> (nat \<times> ('i, 'r) notify_pool, 'i pool_error) result" where
  "np_register hash i np =
     rbind (shard_bucket hash i (np_senders np)) (\<lambda>(shard, bucket).
     case bucket i of
       Some _ \<Rightarrow> Err (IdAlreadyExists i)
     | None \<Rightarrow>
         let tx = length (np_channels np);
             senders = (np_senders np)\<lparr>sh_buckets := (sh_buckets (np_senders np))(shard \<mapsto> bucket(i \<mapsto> tx))\<rparr>
         in Ok (tx, \<lparr>np_senders = senders, np_channels = np_channels np @ [\<lparr>oc_value = None, oc_receiver = True\<rparr>]\<rparr>))"

text \<open>\<open>notify\<close> removes the sender before it sends.\<close>

definition np_notify ::
  "('i \<Rightarrow> u64) \<Rightarrow> 'i \<Rightarrow> 'r \<Rightarrow> ('i, 'r) notify_pool \<Rightarrow> (unit, 'i pool_error) result \<times> ('i, 'r) notify_pool" where
  "np_notify hash i r np =
     (case shard_bucket hash i (np_senders np) of
        Ok (shard, bucket) \<Rightarrow>
          (case bucket i of
             None \<Rightarrow> (Err (IdDoesNotExist i), np)
           | Some tx \<Rightarrow>
               let senders = (np_senders np)\<lparr>sh_buckets := (sh_buckets (np_senders np))(shard \<mapsto> bucket(i := None))\<rparr>;
                   np = np\<lparr>np_senders := senders\<rparr>
               in if tx < length (np_channels np) \<and> oc_receiver (np_channels np ! tx)
                  then (Ok (), np\<lparr>np_channels := (np_channels np)[tx := (np_channels np ! tx)\<lparr>oc_value := Some r\<rparr>]\<rparr>)
                  else (Err (NotifierClosed i), np))
      | Err e \<Rightarrow> (Err e, np)
      | Panic \<Rightarrow> (Panic, np)
      | OutOfFuel \<Rightarrow> (OutOfFuel, np))"

text \<open>What the receiver of a channel has got, and a receiver that is dropped.\<close>

definition np_received :: "nat \<Rightarrow> ('i, 'r) notify_pool \<Rightarrow> 'r option" where
  "np_received rx np = (if rx < length (np_channels np) then oc_value (np_channels np ! rx) else None)"

definition np_drop_receiver :: "nat \<Rightarrow> ('i, 'r) notify_pool \<Rightarrow> ('i, 'r) notify_pool" where
  "np_drop_receiver rx np =
     np\<lparr>np_channels := (np_channels np)[rx := (np_channels np ! rx)\<lparr>oc_receiver := False\<rparr>]\<rparr>"

section \<open>Channel pools\<close>

record net_node =
  nn_id :: nat
  nn_host :: string
  nn_port :: nat

record ('ep, 'ch) channel_pool =
  cp_endpoints :: "nat \<rightharpoonup> 'ep"
  cp_channels :: "nat \<rightharpoonup> 'ch"

definition cp_with_nodes :: "(net_node \<Rightarrow> 'ep) \<Rightarrow> net_node list \<Rightarrow> ('ep, 'ch) channel_pool" where
  "cp_with_nodes endpoint nodes =
     \<lparr>cp_endpoints = fold (\<lambda>node m. m(nn_id node \<mapsto> endpoint node)) nodes Map.empty, cp_channels = Map.empty\<rparr>"

definition cp_put_node :: "(net_node \<Rightarrow> 'ep) \<Rightarrow> net_node \<Rightarrow> ('ep, 'ch) channel_pool \<Rightarrow> ('ep, 'ch) channel_pool" where
  "cp_put_node endpoint node cp = cp\<lparr>cp_endpoints := (cp_endpoints cp)(nn_id node \<mapsto> endpoint node)\<rparr>"

definition cp_get ::
  "('ep \<Rightarrow> 'ch option) \<Rightarrow> nat \<Rightarrow> ('ep, 'ch) channel_pool \<Rightarrow> ('ch \<times> ('ep, 'ch) channel_pool, nat pool_error) result" where
  "cp_get connect node cp =
     (case cp_channels cp node of
        Some channel \<Rightarrow> Ok (channel, cp)
      | None \<Rightarrow>
          (case cp_endpoints cp node of
             Some endpoint \<Rightarrow>
               rbind (ok_or (ConnectError node) (connect endpoint)) (\<lambda>channel.
                 Ok (channel, cp\<lparr>cp_channels := (cp_channels cp)(node \<mapsto> channel)\<rparr>))
           | None \<Rightarrow> Err (EndpointNotFound node)))"

definition cp_release :: "nat \<Rightarrow> ('ep, 'ch) channel_pool \<Rightarrow> (('ep, 'ch) channel_pool, nat pool_error) result" where
  "cp_release node cp =
     (case cp_channels cp node of
        Some _ \<Rightarrow> Ok (cp\<lparr>cp_channels := (cp_channels cp)(node := None)\<rparr>)
      | None \<Rightarrow> Err (ChannelDoesNotExist node))"

section \<open>A sharded map is a map\<close>

definition sharded_ok :: "('k, 'v) sharded_hash_map \<Rightarrow> bool" where
  "sharded_ok m \<longleftrightarrow> 0 < sh_shards m \<and> sh_shards m < 2 ^ 16 \<and> dom (sh_buckets m) = {..<sh_shards m}"

definition sharded_abs :: "('k \<Rightarrow> u64) \<Rightarrow> ('k, 'v) sharded_hash_map \<Rightarrow> 'k \<rightharpoonup> 'v" where
  "sharded_abs hash m key = the (sh_buckets m (unat (hash key) mod sh_shards m)) key"

lemma sharded_new_ok:
  "0 < n \<Longrightarrow> n < 2 ^ 16 \<Longrightarrow> sharded_ok (sharded_hash_map_new n)"
  "0 < n \<Longrightarrow> sharded_abs hash (sharded_hash_map_new n) = Map.empty"
  by (auto simp: sharded_ok_def sharded_hash_map_new_def sharded_abs_def dom_def fun_eq_iff)

abbreviation home_shard :: "('k \<Rightarrow> u64) \<Rightarrow> ('k, 'v) sharded_hash_map \<Rightarrow> 'k \<Rightarrow> nat" where
  "home_shard hash m key \<equiv> unat (hash key) mod sh_shards m"

lemma shard_bucket_ok:
  assumes "sharded_ok m"
  shows "shard_bucket hash key m = Ok (home_shard hash m key, the (sh_buckets m (home_shard hash m key)))"
proof -
  have i: "home_shard hash m key < sh_shards m" "home_shard hash m key < 2 ^ 16"
    using assms by (simp_all add: sharded_ok_def) (meson less_trans mod_less_divisor)
  then have "home_shard hash m key \<in> dom (sh_buckets m)" using assms by (simp add: sharded_ok_def)
  then obtain bucket where "sh_buckets m (home_shard hash m key) = Some bucket" by blast
  then show ?thesis using i assms by (auto simp: shard_bucket_def shard_of_def sharded_ok_def)
qed

text \<open>Changing the entry of a key in its shard changes the map at that key.\<close>

abbreviation put_entry :: "('k \<Rightarrow> u64) \<Rightarrow> 'k \<Rightarrow> 'v option \<Rightarrow> ('k, 'v) sharded_hash_map \<Rightarrow> ('k, 'v) sharded_hash_map" where
  "put_entry hash key v m \<equiv>
     m\<lparr>sh_buckets := (sh_buckets m)(home_shard hash m key \<mapsto> (the (sh_buckets m (home_shard hash m key)))(key := v))\<rparr>"

lemma sharded_update:
  assumes "sharded_ok m"
  shows "sharded_ok (put_entry hash key v m)" "sharded_abs hash (put_entry hash key v m) = (sharded_abs hash m)(key := v)"
  using assms by (auto simp: sharded_ok_def sharded_abs_def fun_eq_iff)

lemma sharded_insert_refines:
  assumes "sharded_ok m"
  shows "sharded_insert hash key v m = Ok (sharded_abs hash m key, put_entry hash key (Some v) m)"
  using assms by (simp add: shard_bucket_ok sharded_insert_def sharded_abs_def)

lemma sharded_read_refines: "sharded_ok m \<Longrightarrow> sharded_read hash key m = Ok (sharded_abs hash m key)"
  by (simp add: sharded_read_def shard_bucket_ok sharded_abs_def)

lemma sharded_write_refines:
  assumes "sharded_ok m"
  shows "sharded_write hash key f m = Ok (sharded_abs hash m key, put_entry hash key (map_option f (sharded_abs hash m key)) m)"
  using assms by (simp add: shard_bucket_ok sharded_write_def sharded_abs_def)

section \<open>A notification reaches the receiver that was registered\<close>

definition np_ok :: "('i \<Rightarrow> u64) \<Rightarrow> ('i, 'r) notify_pool \<Rightarrow> bool" where
  "np_ok hash np \<longleftrightarrow> sharded_ok (np_senders np) \<and>
     (\<forall>i tx. sharded_abs hash (np_senders np) i = Some tx \<longrightarrow>
        tx < length (np_channels np) \<and> oc_value (np_channels np ! tx) = None) \<and>
     inj_on (sharded_abs hash (np_senders np)) (dom (sharded_abs hash (np_senders np)))"

abbreviation np_pending :: "('i \<Rightarrow> u64) \<Rightarrow> ('i, 'r) notify_pool \<Rightarrow> 'i \<rightharpoonup> nat" where
  "np_pending hash np \<equiv> sharded_abs hash (np_senders np)"

lemma np_new_ok:
  assumes "0 < n" "n < 2 ^ 16"
  shows "np_ok hash (notify_pool_new n)" "np_pending hash (notify_pool_new n) = Map.empty"
  using assms by (simp_all add: np_ok_def notify_pool_new_def sharded_new_ok)

lemma np_register_ok:
  assumes ok: "np_ok hash np" and new: "np_pending hash np i = None"
  shows "\<exists>np'. np_register hash i np = Ok (length (np_channels np), np') \<and> np_ok hash np' \<and>
    np_pending hash np' = (np_pending hash np)(i \<mapsto> length (np_channels np)) \<and>
    (\<forall>rx. np_received rx np' = np_received rx np)"
proof -
  let ?m = "np_senders np"
  have m: "sharded_ok ?m" using ok by (simp add: np_ok_def)
  note b = shard_bucket_ok[OF m]
  define np' where "np' = \<lparr>np_senders = put_entry hash i (Some (length (np_channels np))) ?m,
    np_channels = np_channels np @ [\<lparr>oc_value = None, oc_receiver = True\<rparr>]\<rparr>"
  note u = sharded_update[OF m, of hash i "Some (length (np_channels np))"]
  have "np_register hash i np = Ok (length (np_channels np), np')"
    using new by (simp add: b np_register_def np'_def Let_def sharded_abs_def)
  moreover have pend: "np_pending hash np' = (np_pending hash np)(i \<mapsto> length (np_channels np))" using u by (simp add: np'_def)
  moreover have old: "tx < length (np_channels np)" if "np_pending hash np j = Some tx" for j tx using ok that by (simp add: np_ok_def)
  have "inj_on (np_pending hash np') (dom (np_pending hash np'))"
    using ok old unfolding pend np_ok_def by (fastforce simp: inj_on_def dom_def)
  moreover have "tx < length (np_channels np') \<and> oc_value (np_channels np' ! tx) = None" if "np_pending hash np' j = Some tx" for j tx
    using that ok unfolding pend by (cases "j = i") (auto simp: np'_def np_ok_def nth_append less_SucI)
  moreover have "sharded_ok (np_senders np')" using u by (simp add: np'_def)
  ultimately show ?thesis by (auto simp: np_ok_def np_received_def np'_def nth_append)
qed

lemma np_register_taken:
  assumes "np_ok hash np" "np_pending hash np i = Some tx"
  shows "np_register hash i np = Err (IdAlreadyExists i)"
  using assms by (simp add: np_ok_def np_register_def shard_bucket_ok sharded_abs_def)

lemma np_notify_ok:
  assumes ok: "np_ok hash np" and tx: "np_pending hash np i = Some tx"
  shows "\<exists>np'. snd (np_notify hash i r np) = np' \<and> np_ok hash np' \<and> np_pending hash np' = (np_pending hash np)(i := None) \<and>
    (\<forall>rx. rx \<noteq> tx \<longrightarrow> np_received rx np' = np_received rx np) \<and>
    (if oc_receiver (np_channels np ! tx) then fst (np_notify hash i r np) = Ok () \<and> np_received tx np' = Some r
     else fst (np_notify hash i r np) = Err (NotifierClosed i))"
proof -
  let ?m = "np_senders np"
  have m: "sharded_ok ?m" using ok by (simp add: np_ok_def)
  note b = shard_bucket_ok[OF m]
  have len: "tx < length (np_channels np)" using ok tx by (simp add: np_ok_def)
  note u = sharded_update[OF m, of hash i None]
  define chs where "chs = (if oc_receiver (np_channels np ! tx)
    then (np_channels np)[tx := (np_channels np ! tx)\<lparr>oc_value := Some r\<rparr>] else np_channels np)"
  define np' where "np' = \<lparr>np_senders = put_entry hash i None ?m, np_channels = chs\<rparr>"
  have n: "np_notify hash i r np = (if oc_receiver (np_channels np ! tx) then Ok () else Err (NotifierClosed i), np')"
    using tx len by (simp add: b np_notify_def np'_def Let_def chs_def sharded_abs_def)
  have pend: "np_pending hash np' = (np_pending hash np)(i := None)" using u by (simp add: np'_def)
  have inj: "inj_on (np_pending hash np) (dom (np_pending hash np))" using ok by (simp add: np_ok_def)
  then have "inj_on (np_pending hash np') (dom (np_pending hash np'))" unfolding pend by (auto simp: inj_on_def)
  moreover have "ty < length (np_channels np') \<and> oc_value (np_channels np' ! ty) = None" if "np_pending hash np' j = Some ty" for j ty
  proof -
    have j: "j \<noteq> i" "np_pending hash np j = Some ty" using that unfolding pend by (auto split: if_splits)
    then have "ty \<noteq> tx" using inj tx by (auto simp: inj_on_def dom_def)
    then show ?thesis using j ok by (auto simp: np_ok_def np'_def chs_def)
  qed
  moreover have "sharded_ok (np_senders np')" using u by (simp add: np'_def)
  ultimately have "np_ok hash np'" by (simp add: np_ok_def)
  then show ?thesis using n pend len by (auto simp: np_received_def np'_def chs_def)
qed

lemma np_notify_unknown:
  assumes "np_ok hash np" "np_pending hash np i = None"
  shows "np_notify hash i r np = (Err (IdDoesNotExist i), np)"
  using assms by (simp add: np_ok_def np_notify_def shard_bucket_ok sharded_abs_def)

text \<open>Which receivers are alive is not changed by a notification.\<close>

definition np_alive :: "nat \<Rightarrow> ('i, 'r) notify_pool \<Rightarrow> bool" where
  "np_alive rx np \<longleftrightarrow> rx < length (np_channels np) \<and> oc_receiver (np_channels np ! rx)"

lemma np_notify_alive [simp]: "np_alive rx (snd (np_notify hash i r np)) = np_alive rx np"
  by (auto simp: np_notify_def np_alive_def Let_def nth_list_update split: result.splits option.splits)

lemma np_register_alive: "np_register hash i np = Ok (rx, np') \<Longrightarrow> np_alive rx np'"
  by (auto simp: np_register_def np_alive_def outcome_simps Let_def split: option.splits)

text \<open>A notification in one statement, for a registered identifier or not.\<close>

lemma np_notify_effect:
  fixes i r
  assumes ok: "np_ok hash np"
  defines "np' \<equiv> snd (np_notify hash i r np)"
  shows "np_ok hash np'" "np_pending hash np' = (np_pending hash np)(i := None)"
    "np_pending hash np i \<noteq> Some rx \<Longrightarrow> np_received rx np' = np_received rx np"
    "np_pending hash np i = Some rx \<Longrightarrow> np_alive rx np \<Longrightarrow> np_received rx np' = Some r"
    "fst (np_notify hash i r np) \<noteq> Panic"
proof -
  have "np_ok hash np' \<and> np_pending hash np' = (np_pending hash np)(i := None) \<and>
      (np_pending hash np i \<noteq> Some rx \<longrightarrow> np_received rx np' = np_received rx np) \<and>
      (np_pending hash np i = Some rx \<longrightarrow> np_alive rx np \<longrightarrow> np_received rx np' = Some r) \<and> fst (np_notify hash i r np) \<noteq> Panic"
  proof (cases "np_pending hash np i")
    case None
    then show ?thesis using np_notify_unknown[OF ok None, of r] ok by (auto simp: np'_def)
  next
    case (Some tx)
    then show ?thesis using np_notify_ok[OF ok Some, of r] by (auto simp: np'_def np_alive_def split: if_splits)
  qed
  then show "np_ok hash np'" "np_pending hash np' = (np_pending hash np)(i := None)"
    "np_pending hash np i \<noteq> Some rx \<Longrightarrow> np_received rx np' = np_received rx np"
    "np_pending hash np i = Some rx \<Longrightarrow> np_alive rx np \<Longrightarrow> np_received rx np' = Some r"
    "fst (np_notify hash i r np) \<noteq> Panic" by auto
qed

end
