(* ===== verification/WheelService.thy ===== *)
theory WheelService
  imports Sync Pools
begin

text \<open>
  \<open>wheel/src/meta\<close>, \<open>wheel/src/components/command.rs\<close> and the request path of \<open>wheel/src/service.rs\<close>:
  the shards of a node, and how a transaction gets its sequence and is proposed to raft.

  Transactions run concurrently. Each takes the ticket lock, reads or advances the sequence of its raft
  node, draws a request identifier, registers for the response, proposes the command, and releases the
  lock; the loads and stores of these steps are the atomic actions of a thread. An error on the way
  returns from \<open>txn_inner\<close> at once. The encoding of commands (the \<open>bincode\<close> crate) is a parameter.
\<close>

section \<open>Shards\<close>

type_synonym key_range = "bytes \<times> bytes"
type_synonym wheel_meta_store = "(key_range \<times> nat \<times> nat list) list"

definition is_overlap :: "key_range \<Rightarrow> key_range \<Rightarrow> bool" where
  "is_overlap r1 r2 \<longleftrightarrow> \<not> (fst r1 > snd r2 \<or> snd r1 < fst r2)"

definition in_range :: "bytes \<Rightarrow> key_range \<Rightarrow> bool" where
  "in_range key r \<longleftrightarrow> key \<ge> fst r \<and> key < snd r"

text \<open>The map is ordered by the start keys of its ranges; inserting at an equal start key keeps the old
  range and replaces its value.\<close>

fun key_ranges_insert :: "key_range \<Rightarrow> nat \<times> nat list \<Rightarrow> wheel_meta_store \<Rightarrow> wheel_meta_store" where
  "key_ranges_insert r v [] = [(r, v)]"
| "key_ranges_insert r v ((r', v') # xs) =
     (if fst r = fst r' then (r', v) # xs
      else if fst r < fst r' then (r, v) # (r', v') # xs
      else (r', v') # key_ranges_insert r v xs)"

definition add_key_range :: "key_range \<Rightarrow> nat \<Rightarrow> nat list \<Rightarrow> wheel_meta_store \<Rightarrow> wheel_meta_store res" where
  "add_key_range r gid raft_nodes ms =
     (case find (\<lambda>x. is_overlap (fst x) r) ms of
        Some (r', _) \<Rightarrow> Err (KeyRangeOverlaps r' r)
      | None \<Rightarrow> Ok (key_ranges_insert r (gid, raft_nodes) ms))"

definition meta_in_range :: "bytes \<Rightarrow> wheel_meta_store \<Rightarrow> (key_range \<times> nat \<times> nat list) option" where
  "meta_in_range key ms = find (\<lambda>x. in_range key (fst x)) ms"

fun all_in_range :: "bytes list \<Rightarrow> wheel_meta_store \<Rightarrow> (key_range \<times> nat \<times> nat list) option" where
  "all_in_range [] ms = None"
| "all_in_range (key # keys) ms =
     (case find (\<lambda>x. in_range key (fst x)) ms of
        None \<Rightarrow> None
      | Some (r, v) \<Rightarrow> if list_all (\<lambda>key. in_range key r) keys then Some (r, v) else None)"

definition key_ranges :: "wheel_meta_store \<Rightarrow> key_range list" where
  "key_ranges ms = map fst ms"

section \<open>Requests and commands\<close>

datatype kv_op_request =
    GetRequest bytes u64
  | PutRequest bytes bytes
  | DeleteRequest bytes
  | SnapshotRequest bytes

datatype kv_op_response =
    GetResponse bytes
  | PutResponse
  | DeleteResponse
  | SnapshotResponse u64

text \<open>The operations of a message are optional fields.\<close>

type_synonym txn_request = "kv_op_request option list"
type_synonym txn_response = "kv_op_response option list"

datatype command =
    TxnCommand (cmd_request_id: u64) (cmd_sequence: u64) (cmd_request: txn_request)
  | CompactRaftLog (cmd_index: u64) (cmd_sequence: u64)

record proposal =
  pr_data :: bytes
  pr_context :: bytes

section \<open>The state of the service\<close>

record wheel =
  wh_meta_store :: wheel_meta_store
  wh_sequences :: "nat \<rightharpoonup> u64"
  wh_request_id :: u64
  wh_notify_pool :: "(u64, txn_response res) notify_pool"
  wh_proposals :: "nat \<rightharpoonup> proposal list"
  wh_stopped :: "nat set"

text \<open>\<open>wh_proposals\<close> is what was sent on the proposal channel of each raft node, \<open>wh_stopped\<close> the raft nodes whose
  worker has dropped the receiver.\<close>

fun op_key :: "kv_op_request \<Rightarrow> bytes" where
  "op_key (GetRequest key _) = key"
| "op_key (PutRequest key _) = key"
| "op_key (DeleteRequest key) = key"
| "op_key (SnapshotRequest key) = key"

definition txn_raft_nodes :: "txn_request \<Rightarrow> wheel_meta_store \<Rightarrow> nat list res" where
  "txn_raft_nodes request ms =
     rbind (rassert (request \<noteq> [])) (\<lambda>_.
     rbind (rmap_list (\<lambda>op. rmap op_key (unwrap op)) request) (\<lambda>keys.
     rbind (ok_or InvalidShard (all_in_range keys ms)) (\<lambda>(_, _, raft_nodes). Ok raft_nodes)))"

fun op_read_only :: "kv_op_request option \<Rightarrow> bool" where
  "op_read_only (Some (SnapshotRequest _)) = True"
| "op_read_only (Some (GetRequest _ _)) = True"
| "op_read_only _ = False"

definition read_only :: "txn_request \<Rightarrow> bool" where
  "read_only request = list_all op_read_only request"

definition get_sequence :: "nat \<Rightarrow> nat \<Rightarrow> wheel \<Rightarrow> u64 res" where
  "get_sequence node raft_node wh = ok_or (RaftNodeNotExists raft_node node) (wh_sequences wh raft_node)"

section \<open>Transactions\<close>

record txn_arg =
  ta_raft_node :: nat
  ta_span :: u64
  ta_request :: txn_request

text \<open>What \<open>txn_inner\<close> does before it takes the lock.\<close>

definition txn_prepare :: "nat \<Rightarrow> u64 \<Rightarrow> txn_request \<Rightarrow> wheel \<Rightarrow> txn_arg res" where
  "txn_prepare node span request wh =
     rbind (txn_raft_nodes request (wh_meta_store wh)) (\<lambda>raft_nodes.
     rbind (rassert (raft_nodes \<noteq> [])) (\<lambda>_.
     rbind (get_sequence node (hd raft_nodes) wh) (\<lambda>_.
       Ok \<lparr>ta_raft_node = hd raft_nodes, ta_span = span, ta_request = request\<rparr>)))"

text \<open>The places between the atomic actions under the lock.\<close>

datatype txn_pc =
    TxnLocked (pc_arg: txn_arg)
  | TxnSequenced (pc_arg: txn_arg) u64
  | TxnNumbered (pc_arg: txn_arg) u64 u64
  | TxnRegistered (pc_arg: txn_arg) u64 u64 nat
  | TxnReady (pc_arg: txn_arg) proposal nat
  | TxnSent (pc_arg: txn_arg) nat

definition txn_load_sequence :: "txn_arg \<Rightarrow> wheel \<Rightarrow> txn_pc section_step \<times> wheel" where
  "txn_load_sequence a wh =
     (case wh_sequences wh (ta_raft_node a) of
        None \<Rightarrow> (Abandon, wh)
      | Some s \<Rightarrow>
          if read_only (ta_request a) then (Stay (TxnSequenced a s), wh)
          else (if s = - 1 then Abandon else Stay (TxnSequenced a (s + 1)),
                wh\<lparr>wh_sequences := (wh_sequences wh)(ta_raft_node a \<mapsto> s + 1)\<rparr>))"

definition txn_number :: "txn_arg \<Rightarrow> u64 \<Rightarrow> wheel \<Rightarrow> txn_pc section_step \<times> wheel" where
  "txn_number a s wh =
     (if wh_request_id wh = - 1 then Abandon else Stay (TxnNumbered a s (wh_request_id wh + 1)),
      wh\<lparr>wh_request_id := wh_request_id wh + 1\<rparr>)"

definition txn_register :: "(u64 \<Rightarrow> u64) \<Rightarrow> txn_arg \<Rightarrow> u64 \<Rightarrow> u64 \<Rightarrow> wheel \<Rightarrow> txn_pc section_step \<times> wheel" where
  "txn_register hash a s rid wh =
     (case np_register hash rid (wh_notify_pool wh) of
        Ok (rx, np) \<Rightarrow> (Stay (TxnRegistered a s rid rx), wh\<lparr>wh_notify_pool := np\<rparr>)
      | _ \<Rightarrow> (Abandon, wh))"

definition txn_encode ::
  "(command \<Rightarrow> bytes option) \<Rightarrow> (u64 \<times> u64 \<Rightarrow> bytes option) \<Rightarrow> nat \<Rightarrow> txn_arg \<Rightarrow> u64 \<Rightarrow> u64 \<Rightarrow> wheel \<Rightarrow> proposal res" where
  "txn_encode encode encode_context node a s rid wh =
     rbind (ok_or (SerdeError ''command'') (encode (TxnCommand rid s (ta_request a)))) (\<lambda>data.
     rbind (ok_or (SerdeError ''context'') (encode_context (ta_span a, rid))) (\<lambda>context.
     rbind (ok_or (RaftNodeNotExists (ta_raft_node a) node) (wh_proposals wh (ta_raft_node a))) (\<lambda>_.
       Ok \<lparr>pr_data = data, pr_context = context\<rparr>)))"

definition txn_send :: "txn_arg \<Rightarrow> proposal \<Rightarrow> nat \<Rightarrow> wheel \<Rightarrow> txn_pc section_step \<times> wheel" where
  "txn_send a p rx wh =
     (if ta_raft_node a \<in> wh_stopped wh then (Abandon, wh)
      else
        case wh_proposals wh (ta_raft_node a) of
          None \<Rightarrow> (Abandon, wh)
        | Some ps \<Rightarrow> (Stay (TxnSent a rx), wh\<lparr>wh_proposals := (wh_proposals wh)(ta_raft_node a \<mapsto> ps @ [p])\<rparr>))"

fun txn_section ::
  "(command \<Rightarrow> bytes option) \<Rightarrow> (u64 \<times> u64 \<Rightarrow> bytes option) \<Rightarrow> (u64 \<Rightarrow> u64) \<Rightarrow> nat \<Rightarrow> (txn_pc, wheel) section_code" where
  "txn_section encode encode_context hash node (TxnLocked a) wh = txn_load_sequence a wh"
| "txn_section encode encode_context hash node (TxnSequenced a s) wh = txn_number a s wh"
| "txn_section encode encode_context hash node (TxnNumbered a s rid) wh = txn_register hash a s rid wh"
| "txn_section encode encode_context hash node (TxnRegistered a s rid rx) wh =
     (case txn_encode encode encode_context node a s rid wh of
        Ok p \<Rightarrow> (Stay (TxnReady a p rx), wh)
      | _ \<Rightarrow> (Abandon, wh))"
| "txn_section encode encode_context hash node (TxnReady a p rx) wh = txn_send a p rx wh"
| "txn_section encode encode_context hash node (TxnSent a rx) wh = (Leave, wh)"

text \<open>After the release the transaction waits for its response.\<close>

definition txn_response_of :: "nat \<Rightarrow> wheel \<Rightarrow> txn_response res option" where
  "txn_response_of rx wh = np_received rx (wh_notify_pool wh)"

text \<open>The single-operation requests are transactions of one operation.\<close>

definition single_request :: "kv_op_request \<Rightarrow> txn_request" where
  "single_request op = [Some op]"

definition get_inner_response :: "txn_response \<Rightarrow> bytes res" where
  "get_inner_response ops =
     rbind (rbind (index ops 0) unwrap) (\<lambda>r. case r of GetResponse v \<Rightarrow> Ok v | _ \<Rightarrow> Panic)"

definition put_inner_response :: "txn_response \<Rightarrow> unit res" where
  "put_inner_response ops =
     rbind (rbind (index ops 0) unwrap) (\<lambda>r. case r of PutResponse \<Rightarrow> Ok () | _ \<Rightarrow> Panic)"

definition delete_inner_response :: "txn_response \<Rightarrow> unit res" where
  "delete_inner_response ops =
     rbind (rbind (index ops 0) unwrap) (\<lambda>r. case r of DeleteResponse \<Rightarrow> Ok () | _ \<Rightarrow> Panic)"

definition snapshot_inner_response :: "txn_response \<Rightarrow> u64 res" where
  "snapshot_inner_response ops =
     rbind (rbind (index ops 0) unwrap) (\<lambda>r. case r of SnapshotResponse s \<Rightarrow> Ok s | _ \<Rightarrow> Panic)"

section \<open>A key belongs to one shard\<close>

definition ranges_disjoint :: "wheel_meta_store \<Rightarrow> bool" where
  "ranges_disjoint ms \<longleftrightarrow> sorted_wrt (\<lambda>x y. fst (fst x) < fst (fst y) \<and> \<not> is_overlap (fst x) (fst y)) ms"

lemma is_overlap_sym: "is_overlap r1 r2 \<longleftrightarrow> is_overlap r2 r1"
  by (auto simp: is_overlap_def)

lemma in_both_overlap: "in_range k r1 \<Longrightarrow> in_range k r2 \<Longrightarrow> is_overlap r1 r2"
  by (auto simp: in_range_def is_overlap_def dest: order.strict_trans1 order.strict_trans2)

lemma key_ranges_insert_sub: "fst ` set (key_ranges_insert r v ms) \<subseteq> insert r (fst ` set ms)"
proof (induction ms)
  case (Cons x ms)
  then show ?case by (cases x) (simp, blast)
qed simp

lemma key_ranges_insert_disjoint:
  assumes "ranges_disjoint ms" "\<forall>x \<in> set ms. \<not> is_overlap (fst x) r"
  shows "ranges_disjoint (key_ranges_insert r v ms)"
  using assms
proof (induction ms)
  case (Cons x ms)
  obtain r' v' where x: "x = (r', v')" by (cases x)
  have tail: "ranges_disjoint (key_ranges_insert r v ms)" using Cons by (simp add: ranges_disjoint_def)
  have all: "fst r' < fst (fst y) \<and> \<not> is_overlap r' (fst y)" if "y \<in> set ms" for y
    using Cons.prems(1) that by (simp add: ranges_disjoint_def x)
  have ins: "fst r' < fst (fst y) \<and> \<not> is_overlap r' (fst y)" if "y \<in> set (key_ranges_insert r v ms)" "fst r' < fst r" for y
  proof (cases "fst y = r")
    case True
    then show ?thesis using that(2) Cons.prems(2) x by simp
  next
    case False
    then have "fst y \<in> fst ` set ms" using key_ranges_insert_sub that(1) by blast
    then show ?thesis using all by auto
  qed
  consider "fst r = fst r'" | "fst r < fst r'" | "fst r' < fst r" by (metis linorder_less_linear)
  then show ?case
  proof cases
    case 1
    then show ?thesis using Cons.prems(1) by (simp add: x ranges_disjoint_def)
  next
    case 2
    have "fst r < fst (fst y)" "\<not> is_overlap r (fst y)" if "y \<in> set ms" for y
      using order.strict_trans[OF 2] all[OF that] Cons.prems(2) that by (simp_all add: is_overlap_sym)
    moreover have "\<not> is_overlap r r'" using Cons.prems(2) by (simp add: x is_overlap_sym)
    ultimately show ?thesis using 2 Cons.prems(1) by (simp add: x ranges_disjoint_def)
  next
    case 3
    then have "\<not> fst r < fst r'" "fst r \<noteq> fst r'" by auto
    with 3 show ?thesis using tail ins by (simp add: x ranges_disjoint_def)
  qed
qed (simp add: ranges_disjoint_def)

lemma add_key_range_disjoint:
  assumes "ranges_disjoint ms" "add_key_range r gid ns ms = Ok ms'"
  shows "ranges_disjoint ms'"
proof -
  have f: "find (\<lambda>x. is_overlap (fst x) r) ms = None" and ms': "ms' = key_ranges_insert r (gid, ns) ms"
    using assms(2) by (auto simp: add_key_range_def split: option.splits)
  have "\<forall>x \<in> set ms. \<not> is_overlap (fst x) r" using f by (metis find_None_iff)
  then show ?thesis unfolding ms' by (rule key_ranges_insert_disjoint[OF assms(1)])
qed

text \<open>In a store whose ranges do not overlap the shard of a key is unique, and a transaction is accepted
  exactly when one shard holds all its keys.\<close>

lemma shard_unique:
  assumes "ranges_disjoint ms" "(r, v) \<in> set ms" "in_range k r"
  shows "meta_in_range k ms = Some (r, v)"
  using assms
proof (induction ms)
  case (Cons x ms)
  have "\<not> in_range k (fst x)" if "(r, v) \<in> set ms"
    using Cons.prems that in_both_overlap[of k "fst x" r] by (auto simp: ranges_disjoint_def)
  then show ?case using Cons by (cases x) (auto simp: meta_in_range_def ranges_disjoint_def)
qed simp

lemma all_in_range_iff:
  assumes "ranges_disjoint ms" "keys \<noteq> []"
  shows "all_in_range keys ms = Some (r, v) \<longleftrightarrow> (r, v) \<in> set ms \<and> (\<forall>k \<in> set keys. in_range k r)"
proof (cases keys)
  case (Cons k ks)
  have sound: "x \<in> set ms \<and> in_range k (fst x)" if "meta_in_range k ms = Some x" for x
    using that by (auto simp: meta_in_range_def find_Some_iff)
  have complete: "meta_in_range k ms = Some (r, v)" if "(r, v) \<in> set ms" "in_range k r"
    by (rule shard_unique[OF assms(1) that])
  show ?thesis
  proof (cases "meta_in_range k ms")
    case None
    then show ?thesis using Cons complete by (auto simp: meta_in_range_def)
  next
    case (Some x)
    then show ?thesis using Cons complete sound[OF Some] by (cases x) (auto simp: meta_in_range_def list_all_iff)
  qed
qed (use assms in simp)

section \<open>Commands are proposed in the order of their sequences\<close>

definition cmd_writes :: "command \<Rightarrow> bool" where
  "cmd_writes c \<longleftrightarrow> (case c of TxnCommand _ _ request \<Rightarrow> \<not> read_only request | CompactRaftLog _ _ \<Rightarrow> True)"

fun cmd_id :: "command \<Rightarrow> u64" where
  "cmd_id (TxnCommand rid _ _) = rid"
| "cmd_id (CompactRaftLog _ _) = 0"

definition commands :: "(bytes \<Rightarrow> command option) \<Rightarrow> proposal list \<Rightarrow> command list" where
  "commands decode ps = map (\<lambda>p. the (decode (pr_data p))) ps"

text \<open>A later command has a later request identifier, no smaller a sequence, and a greater one when it writes.\<close>

definition in_sequence_order :: "command list \<Rightarrow> bool" where
  "in_sequence_order cs \<longleftrightarrow>
     sorted_wrt (\<lambda>c d. cmd_sequence c \<le> cmd_sequence d \<and> (cmd_writes d \<longrightarrow> cmd_sequence c < cmd_sequence d) \<and> cmd_id c < cmd_id d) cs"

definition wheel_ordered :: "(bytes \<Rightarrow> command option) \<Rightarrow> wheel \<Rightarrow> bool" where
  "wheel_ordered decode wh \<longleftrightarrow> (\<forall>r ps. wh_proposals wh r = Some ps \<longrightarrow> in_sequence_order (commands decode ps))"

definition proposed :: "(bytes \<Rightarrow> command option) \<Rightarrow> wheel \<Rightarrow> nat \<Rightarrow> command set" where
  "proposed decode wh r = (case wh_proposals wh r of None \<Rightarrow> {} | Some ps \<Rightarrow> set (commands decode ps))"

lemma proposed_simps [simp]:
  "proposed decode (wh\<lparr>wh_sequences := m\<rparr>) = proposed decode wh"
  "proposed decode (wh\<lparr>wh_request_id := i\<rparr>) = proposed decode wh"
  "proposed decode (wh\<lparr>wh_notify_pool := np\<rparr>) = proposed decode wh"
  by (simp_all add: proposed_def fun_eq_iff)

lemma wheel_ordered_simps [simp]:
  "wheel_ordered decode (wh\<lparr>wh_sequences := m\<rparr>) = wheel_ordered decode wh"
  "wheel_ordered decode (wh\<lparr>wh_request_id := i\<rparr>) = wheel_ordered decode wh"
  "wheel_ordered decode (wh\<lparr>wh_notify_pool := np\<rparr>) = wheel_ordered decode wh"
  by (simp_all add: wheel_ordered_def)

text \<open>Between transactions the counters are at or above everything that was proposed.\<close>

definition wheel_inv :: "(bytes \<Rightarrow> command option) \<Rightarrow> wheel \<Rightarrow> bool" where
  "wheel_inv decode wh \<longleftrightarrow> wheel_ordered decode wh \<and>
     (\<forall>r. \<forall>c \<in> proposed decode wh r. cmd_id c \<le> wh_request_id wh \<and> (\<exists>v. wh_sequences wh r = Some v \<and> cmd_sequence c \<le> v))"

text \<open>A transaction that has its sequence, and one that also has its identifier, may go last.\<close>

definition sequence_fits :: "(bytes \<Rightarrow> command option) \<Rightarrow> txn_arg \<Rightarrow> u64 \<Rightarrow> wheel \<Rightarrow> bool" where
  "sequence_fits decode a s wh \<longleftrightarrow>
     (\<exists>v. wh_sequences wh (ta_raft_node a) = Some v \<and> s \<le> v) \<and>
     (\<forall>c \<in> proposed decode wh (ta_raft_node a). cmd_sequence c \<le> s \<and> (\<not> read_only (ta_request a) \<longrightarrow> cmd_sequence c < s))"

definition number_fits :: "(bytes \<Rightarrow> command option) \<Rightarrow> u64 \<Rightarrow> wheel \<Rightarrow> bool" where
  "number_fits decode rid wh \<longleftrightarrow> rid \<le> wh_request_id wh \<and> (\<forall>r. \<forall>c \<in> proposed decode wh r. cmd_id c < rid)"

fun txn_inv :: "(bytes \<Rightarrow> command option) \<Rightarrow> txn_pc \<Rightarrow> wheel \<Rightarrow> bool" where
  "txn_inv decode (TxnLocked a) wh = wheel_inv decode wh"
| "txn_inv decode (TxnSequenced a s) wh = (wheel_inv decode wh \<and> sequence_fits decode a s wh)"
| "txn_inv decode (TxnNumbered a s rid) wh =
     (wheel_inv decode wh \<and> sequence_fits decode a s wh \<and> number_fits decode rid wh)"
| "txn_inv decode (TxnRegistered a s rid rx) wh =
     (wheel_inv decode wh \<and> sequence_fits decode a s wh \<and> number_fits decode rid wh)"
| "txn_inv decode (TxnReady a p rx) wh =
     (\<exists>s rid. decode (pr_data p) = Some (TxnCommand rid s (ta_request a)) \<and>
        wheel_inv decode wh \<and> sequence_fits decode a s wh \<and> number_fits decode rid wh)"
| "txn_inv decode (TxnSent a rx) wh = wheel_inv decode wh"

lemma in_sequence_order_snoc:
  "in_sequence_order (cs @ [d]) \<longleftrightarrow> in_sequence_order cs \<and>
     (\<forall>c \<in> set cs. cmd_sequence c \<le> cmd_sequence d \<and> (cmd_writes d \<longrightarrow> cmd_sequence c < cmd_sequence d) \<and> cmd_id c < cmd_id d)"
  by (simp add: in_sequence_order_def sorted_wrt_append)

lemma word_succ_above: "s \<noteq> - 1 \<Longrightarrow> c \<le> s \<Longrightarrow> c < s + 1" for s :: u64
proof -
  assume a: "s \<noteq> - 1" "c \<le> s"
  have "unat (- 1 :: u64) = 2 ^ 64 - 1" by (simp add: unsigned_minus_1_eq_mask mask_eq_exp_minus_1)
  then have "unat s \<noteq> 2 ^ 64 - 1" using a(1) by (metis word_unat_eq_iff)
  then have "unat s + 1 < 2 ^ 64" using unsigned_less[of s, where 'a = nat] by simp
  then have "unat (s + 1) = unat s + 1" by (simp add: unat_word_ariths)
  then show ?thesis using a(2) by (simp add: word_less_nat_alt word_le_nat_alt)
qed

lemma wheel_invD:
  assumes "wheel_inv decode wh" "c \<in> proposed decode wh r"
  shows "cmd_id c \<le> wh_request_id wh" "wh_sequences wh r = Some v \<Longrightarrow> cmd_sequence c \<le> v"
  using assms unfolding wheel_inv_def by fastforce+

lemma load_sequence_inv:
  assumes "wheel_inv decode wh" "txn_load_sequence a wh = (r, wh')"
  shows "wheel_ordered decode wh'" "r = Stay l \<Longrightarrow> txn_inv decode l wh'"
proof -
  show "wheel_ordered decode wh'"
    using assms by (auto simp: txn_load_sequence_def wheel_inv_def wheel_ordered_def split: option.splits if_splits)
  assume r: "r = Stay l"
  show "txn_inv decode l wh'"
  proof (cases "read_only (ta_request a)")
    case True
    then show ?thesis using assms r
      by (fastforce simp: txn_load_sequence_def wheel_inv_def sequence_fits_def proposed_def split: option.splits)
  next
    case False
    then obtain s where s: "wh_sequences wh (ta_raft_node a) = Some s" "s \<noteq> - 1" "l = TxnSequenced a (s + 1)"
      "wh' = wh\<lparr>wh_sequences := (wh_sequences wh)(ta_raft_node a \<mapsto> s + 1)\<rparr>"
      using assms(2) r by (auto simp: txn_load_sequence_def split: option.splits if_splits)
    have below: "cmd_sequence c < s + 1" if "c \<in> proposed decode wh (ta_raft_node a)" for c
      by (rule word_succ_above[OF s(2) wheel_invD(2)[OF assms(1) that s(1)]])
    then have "sequence_fits decode a (s + 1) wh'" by (auto simp: sequence_fits_def s(4) intro: less_imp_le)
    moreover have "wheel_inv decode wh'" using assms(1) below
      unfolding wheel_inv_def by (auto simp: s(4) intro: less_imp_le)
    ultimately show ?thesis by (simp add: s(3))
  qed
qed

lemma number_inv:
  assumes "wheel_inv decode wh" "sequence_fits decode a s wh" "txn_number a s wh = (r, wh')"
  shows "wheel_ordered decode wh'" "r = Stay l \<Longrightarrow> txn_inv decode l wh'"
proof -
  show "wheel_ordered decode wh'" using assms by (auto simp: txn_number_def wheel_inv_def)
  assume r: "r = Stay l"
  let ?rid = "wh_request_id wh + 1"
  have l: "l = TxnNumbered a s ?rid" "wh' = wh\<lparr>wh_request_id := ?rid\<rparr>" "wh_request_id wh \<noteq> - 1"
    using assms(3) r by (auto simp: txn_number_def split: if_splits)
  have below: "cmd_id c < ?rid" if "c \<in> proposed decode wh q" for c q
    by (rule word_succ_above[OF l(3) wheel_invD(1)[OF assms(1) that]])
  then have "number_fits decode ?rid wh'" by (auto simp: number_fits_def l(2))
  moreover have "wheel_inv decode wh'" using assms(1) below unfolding wheel_inv_def by (auto simp: l(2) intro: less_imp_le)
  moreover have "sequence_fits decode a s wh'" using assms(2) by (simp add: sequence_fits_def l(2))
  ultimately show "txn_inv decode l wh'" by (simp add: l(1))
qed

lemma register_inv:
  assumes "txn_inv decode (TxnNumbered a s rid) wh" "txn_register hash a s rid wh = (r, wh')"
  shows "wheel_ordered decode wh'" "r = Stay l \<Longrightarrow> txn_inv decode l wh'"
  using assms by (auto simp: txn_register_def wheel_inv_def sequence_fits_def number_fits_def split: result.splits prod.splits)

lemma send_inv:
  assumes "txn_inv decode (TxnReady a p rx) wh" "txn_send a p rx wh = (r, wh')"
  shows "wheel_ordered decode wh'" "r = Stay l \<Longrightarrow> txn_inv decode l wh'"
proof -
  obtain s rid where d: "decode (pr_data p) = Some (TxnCommand rid s (ta_request a))"
    and inv: "wheel_inv decode wh" "sequence_fits decode a s wh" "number_fits decode rid wh" using assms(1) by auto
  have "wheel_ordered decode wh' \<and> (r = Stay l \<longrightarrow> txn_inv decode l wh')"
  proof (cases "ta_raft_node a \<in> wh_stopped wh \<or> wh_proposals wh (ta_raft_node a) = None")
    case True
    then show ?thesis using assms(2) inv(1) by (auto simp: txn_send_def wheel_inv_def split: if_splits)
  next
    case False
    then obtain ps where ps: "wh_proposals wh (ta_raft_node a) = Some ps" "r = Stay (TxnSent a rx)"
      "wh' = wh\<lparr>wh_proposals := (wh_proposals wh)(ta_raft_node a \<mapsto> ps @ [p])\<rparr>"
      using assms(2) by (auto simp: txn_send_def)
    let ?c = "TxnCommand rid s (ta_request a)"
    have cs: "commands decode (ps @ [p]) = commands decode ps @ [?c]" using d by (simp add: commands_def)
    have old: "proposed decode wh (ta_raft_node a) = set (commands decode ps)" using ps(1) by (simp add: proposed_def)
    have "in_sequence_order (commands decode (ps @ [p]))"
      unfolding cs in_sequence_order_snoc using inv ps(1)
      by (auto simp: wheel_inv_def wheel_ordered_def sequence_fits_def number_fits_def old[symmetric] cmd_writes_def)
    then have ord: "wheel_ordered decode wh'" using inv(1) by (auto simp: wheel_inv_def wheel_ordered_def ps(3))
    have new: "proposed decode wh' q = (if q = ta_raft_node a then insert ?c (proposed decode wh q) else proposed decode wh q)" for q
      using cs old by (auto simp: proposed_def ps(3))
    have "wheel_inv decode wh'"
      using ord inv unfolding wheel_inv_def new by (auto simp: ps(3) sequence_fits_def number_fits_def)
    then show ?thesis using ord ps(2) by auto
  qed
  then show "wheel_ordered decode wh'" "r = Stay l \<Longrightarrow> txn_inv decode l wh'" by auto
qed

lemma encode_inv:
  assumes "\<And>c b. encode c = Some b \<Longrightarrow> decode b = Some c"
    and "txn_inv decode (TxnRegistered a s rid rx) wh" "txn_encode encode encode_context node a s rid wh = Ok p"
  shows "txn_inv decode (TxnReady a p rx) wh"
  using assms by (auto simp: txn_encode_def outcome_simps)

lemma txn_inv_ordered: "txn_inv decode l wh \<Longrightarrow> wheel_ordered decode wh"
  by (cases l) (auto simp: wheel_inv_def)

text \<open>The sections of transactions keep the invariant, for a codec whose decoder inverts its encoder.\<close>

definition codec_ok :: "(command \<Rightarrow> bytes option) \<Rightarrow> (bytes \<Rightarrow> command option) \<Rightarrow> bool" where
  "codec_ok encode decode \<longleftrightarrow> (\<forall>c b. encode c = Some b \<longrightarrow> decode b = Some c)"

lemma txn_section_inv:
  assumes "codec_ok encode decode" "txn_inv decode l wh" "txn_section encode encode_context hash node l wh = (r, wh')"
  shows "wheel_ordered decode wh'" "r = Stay l' \<Longrightarrow> txn_inv decode l' wh'" "r = Leave \<Longrightarrow> wheel_inv decode wh'"
proof -
  have "wheel_ordered decode wh' \<and> (r = Stay l' \<longrightarrow> txn_inv decode l' wh') \<and> (r = Leave \<longrightarrow> wheel_inv decode wh')"
  proof (cases l)
    case (TxnLocked a)
    have "r \<noteq> Leave" using TxnLocked assms(3) by (auto simp: txn_load_sequence_def split: option.splits if_splits)
    then show ?thesis using TxnLocked assms load_sequence_inv(1)[of decode wh a r wh'] load_sequence_inv(2)[of decode wh a r wh' l'] by simp
  next
    case (TxnSequenced a s)
    have "r \<noteq> Leave" using TxnSequenced assms(3) by (auto simp: txn_number_def split: if_splits)
    then show ?thesis using TxnSequenced assms number_inv(1)[of decode wh a s r wh'] number_inv(2)[of decode wh a s r wh' l'] by simp
  next
    case (TxnNumbered a s rid)
    have "r \<noteq> Leave" using TxnNumbered assms(3) by (auto simp: txn_register_def split: result.splits prod.splits)
    then show ?thesis using TxnNumbered assms register_inv(1)[of decode a s rid wh hash r wh'] register_inv(2)[of decode a s rid wh hash r wh' l'] by simp
  next
    case (TxnRegistered a s rid rx)
    then show ?thesis using assms encode_inv[of encode decode a s rid rx wh encode_context node] txn_inv_ordered[of decode l wh]
      by (auto simp: codec_ok_def simp del: txn_inv.simps split: result.splits)
  next
    case (TxnReady a p rx)
    have "r \<noteq> Leave" using TxnReady assms(3) by (auto simp: txn_send_def split: option.splits if_splits)
    then show ?thesis using TxnReady assms send_inv(1)[of decode a p rx wh r wh'] send_inv(2)[of decode a p rx wh r wh' l'] by (simp del: txn_inv.simps)
  next
    case (TxnSent a rx)
    then show ?thesis using assms(2,3) by (auto simp: wheel_inv_def)
  qed
  then show "wheel_ordered decode wh'" "r = Stay l' \<Longrightarrow> txn_inv decode l' wh'" "r = Leave \<Longrightarrow> wheel_inv decode wh'" by auto
qed

interpretation txn: fifo_monitor ticket_lock_ops ticket_rep "2 ^ 64" "txn_section encode encode_context hash node"
  "\<lambda>l. \<exists>a. l = TxnLocked a" "\<lambda>wh. codec_ok encode decode \<longrightarrow> wheel_inv decode wh"
  "\<lambda>l wh. codec_ok encode decode \<longrightarrow> txn_inv decode l wh" "\<lambda>wh. codec_ok encode decode \<longrightarrow> wheel_ordered decode wh"
  for encode encode_context hash node decode
  using txn_section_inv txn_inv_ordered by unfold_locales (auto simp: wheel_inv_def)

abbreviation txn_run ::
  "(command \<Rightarrow> bytes option) \<Rightarrow> (u64 \<times> u64 \<Rightarrow> bytes option) \<Rightarrow> (u64 \<Rightarrow> u64) \<Rightarrow> nat \<Rightarrow> (nat \<times> txn_arg) list \<Rightarrow> wheel \<Rightarrow>
     (u64, ticket_lock, txn_pc, wheel) lock_system" where
  "txn_run encode encode_context hash node labels wh \<equiv>
     lock_run ticket_lock_ops (txn_section encode encode_context hash node) (map (map_prod id TxnLocked) labels) (ticket_system wh)"

lemma thread_labels: "fst ` set (map (map_prod id TxnLocked) labels) = fst ` set labels"
  by force

text \<open>C9. However the transactions of a node interleave, the commands proposed to a raft node are in the order
  of their sequences: request identifiers grow, sequences never fall, and a command that writes has a
  greater sequence than all commands before it.\<close>

theorem proposals_in_sequence_order:
  assumes "finite T" "card T < 2 ^ 64" "fst ` set labels \<subseteq> T"
    and "codec_ok encode decode" "wheel_inv decode wh"
    and "wh_proposals (ls_shared (txn_run encode encode_context hash node labels wh)) r = Some ps"
  shows "in_sequence_order (commands decode ps)"
proof -
  have "txn.monitored encode decode T (ticket_system wh) []"
    by (rule txn.monitored_init[OF ticket_rep_default]) (use assms(5) in blast)
  then have "\<exists>q. txn.monitored encode decode T (txn_run encode encode_context hash node labels wh) q"
    by (rule txn.monitored_run[OF assms(1,2), rotated 2]) (use assms(3) in \<open>auto simp: thread_labels\<close>)
  then have "wheel_ordered decode (ls_shared (txn_run encode encode_context hash node labels wh))"
    using txn.monitored_inv assms(4) by blast
  then show ?thesis using assms(6) by (auto simp: wheel_ordered_def)
qed

text \<open>Two transactions of two threads that wait for each other. The codec of the example knows their commands.\<close>

definition example_put :: txn_arg where
  "example_put = \<lparr>ta_raft_node = 1, ta_span = 0, ta_request = [Some (PutRequest [1] [2])]\<rparr>"

definition example_delete :: txn_arg where
  "example_delete = \<lparr>ta_raft_node = 1, ta_span = 0, ta_request = [Some (DeleteRequest [1])]\<rparr>"

definition example_encode :: "command \<Rightarrow> bytes option" where
  "example_encode c =
     (if c = TxnCommand 1 1 (ta_request example_put) then Some [1]
      else if c = TxnCommand 2 2 (ta_request example_delete) then Some [2] else None)"

definition example_decode :: "bytes \<Rightarrow> command option" where
  "example_decode b =
     (if b = [1] then Some (TxnCommand 1 1 (ta_request example_put))
      else if b = [2] then Some (TxnCommand 2 2 (ta_request example_delete)) else None)"

definition example_wheel :: "nat set \<Rightarrow> wheel" where
  "example_wheel stopped =
     \<lparr>wh_meta_store = [], wh_sequences = [1 \<mapsto> 0], wh_request_id = 0, wh_notify_pool = notify_pool_new 3,
      wh_proposals = [1 \<mapsto> []], wh_stopped = stopped\<rparr>"

definition example_schedule :: "(nat \<times> txn_arg) list" where
  "example_schedule =
     (let a = (0, example_put); b = (1, example_delete) in [a, b, a, a, a, a, a, a, a, b, b, b, b, b, b, b])"

lemma example_codec: "codec_ok example_encode example_decode"
  by (auto simp: codec_ok_def example_encode_def example_decode_def example_put_def example_delete_def split: if_splits)

lemma example_wheel_inv: "wheel_inv decode (example_wheel stopped)"
  by (auto simp: wheel_inv_def wheel_ordered_def proposed_def example_wheel_def commands_def in_sequence_order_def split: option.splits if_splits)

lemmas example_txn_simps = example_schedule_def example_wheel_def example_put_def example_delete_def Let_def
  ticket_lock_ops_def ticket_take_def ticket_poll_def ticket_release_def lock_system_new_def ticket_lock_default_def
  txn_load_sequence_def txn_number_def txn_register_def txn_encode_def txn_send_def read_only_def
  np_register_def notify_pool_new_def sharded_hash_map_new_def shard_bucket_def shard_of_def

theorem proposals_in_sequence_order_witness:
  "\<exists>ps. wh_proposals (ls_shared (txn_run example_encode (\<lambda>_. Some []) id 7 example_schedule (example_wheel {}))) 1 = Some ps \<and>
     map pr_data ps = [[1], [2]] \<and> in_sequence_order (commands example_decode ps)"
proof -
  have "wh_proposals (ls_shared (txn_run example_encode (\<lambda>_. Some []) id 7 example_schedule (example_wheel {}))) 1 =
      Some [\<lparr>pr_data = [1], pr_context = []\<rparr>, \<lparr>pr_data = [2], pr_context = []\<rparr>]"
    by (simp add: example_txn_simps example_encode_def)
  moreover from this have "in_sequence_order (commands example_decode [\<lparr>pr_data = [1], pr_context = []\<rparr>, \<lparr>pr_data = [2], pr_context = []\<rparr>])"
    by (rule proposals_in_sequence_order[where T = "{0, 1}", rotated 5])
      (auto simp: example_codec example_wheel_inv example_schedule_def Let_def)
  ultimately show ?thesis by auto
qed

text \<open>C28. An error between taking and releasing the lock leaves it held: after it no transaction of the node
  gets the lock again, whatever runs later.\<close>

theorem txn_error_blocks_service:
  assumes "finite T" "card T < 2 ^ 64" "fst ` set labels \<subseteq> T" "fst ` set later \<subseteq> T"
    and "ls_pc (txn_run encode encode_context hash node labels wh) t = Inside k l"
    and "fst (txn_section encode encode_context hash node l (ls_shared (txn_run encode encode_context hash node labels wh))) = Abandon"
  shows "lock_entered ticket_lock_ops (txn_section encode encode_context hash node) (map (map_prod id TxnLocked) later)
    (lock_step ticket_lock_ops (txn_section encode encode_context hash node) (t, TxnLocked a)
      (txn_run encode encode_context hash node labels wh)) = []"
proof -
  have sub: "fst ` set (map (map_prod id TxnLocked) labels) \<subseteq> T" using assms(3) by (simp only: thread_labels)
  from ticket.served_in_order[OF assms(1,2) sub ticket.queued_init[OF ticket_rep_default], of "txn_section encode encode_context hash node" wh]
  obtain q where q: "ticket.queued T (txn_run encode encode_context hash node labels wh) q" by blast
  have "t \<in> T" using ticket.queued_insideD[OF q assms(5)] q by (auto simp: ticket.queued_def)
  then show ?thesis using assms(4) by (intro ticket.abandon_blocks[where work = "txn_section encode encode_context hash node", OF assms(1,2) _ _ q assms(5,6)]) (simp_all only: thread_labels)
qed

text \<open>The raft worker has stopped: the first transaction fails to send, the second waits for ever.\<close>

theorem txn_error_blocks_service_witness:
  "lock_entered ticket_lock_ops (txn_section example_encode (\<lambda>_. Some []) id 7) (map (map_prod id TxnLocked) (replicate 5 (1, example_delete)))
    (lock_step ticket_lock_ops (txn_section example_encode (\<lambda>_. Some []) id 7) (0, TxnLocked example_put)
      (txn_run example_encode (\<lambda>_. Some []) id 7 (take 7 example_schedule) (example_wheel {1}))) = []"
proof (rule txn_error_blocks_service[where T = "{0, 1}"])
  let ?s = "txn_run example_encode (\<lambda>_. Some []) id 7 (take 7 example_schedule) (example_wheel {1})"
  show "ls_pc ?s 0 = Inside 0 (TxnReady example_put \<lparr>pr_data = [1], pr_context = []\<rparr> 0)" by (simp add: example_txn_simps example_encode_def)
  show "fst (txn_section example_encode (\<lambda>_. Some []) id 7 (TxnReady example_put \<lparr>pr_data = [1], pr_context = []\<rparr> 0) (ls_shared ?s)) = Abandon"
    by (simp add: example_txn_simps example_encode_def)
qed (auto simp: example_schedule_def Let_def)

end
