(* ===== verification/Fsm.thy ===== *)
theory Fsm
  imports Calls RaftGroup LsmTree WheelService
begin

text \<open>
  \<open>wheel/src/components/fsm.rs\<close>: the state machine of a raft group. It executes the transactions of
  committed entries on the LSM tree of the group and answers them through the notify pool, and keeps
  in the raft log store how far entries are available and how far they have been applied.

  What lies outside of the code is collected in a record: the object store, the checksum, compression
  and fingerprint functions, the encodings of commands and indices (the \<open>bincode\<close> crate), the layout of
  skip list nodes and the random height each write gets. The \<open>tracing\<close> feature is off.
\<close>

section \<open>State\<close>

record 'os fsm_env =
  fe_objects :: "'os object_store_ops"
  fe_decompress :: "bytes \<Rightarrow> bytes option"
  fe_crc32 :: "bytes \<Rightarrow> nat"
  fe_fingerprint32 :: "bytes \<Rightarrow> u32"
  fe_layout :: node_layout
  fe_height :: "u64 \<Rightarrow> bytes \<Rightarrow> nat"
  fe_encode_index :: "nat \<Rightarrow> bytes option"
  fe_decode_index :: "bytes \<Rightarrow> nat option"
  fe_decode_command :: "bytes \<Rightarrow> command option"
  fe_hash :: "u64 \<Rightarrow> u64"

record 'os fsm =
  fs_raft_node :: nat
  fs_log :: raft_log_store
  fs_tree :: "'os lsm_tree"
  fs_pool :: "(u64, txn_response res) notify_pool"

definition done_index_key :: bytes where
  "done_index_key = map (\<lambda>c. word_of_nat (of_char c)) ''done_index''"

definition available_index_key :: bytes where
  "available_index_key = map (\<lambda>c. word_of_nat (of_char c)) ''available_index''"

definition on_log :: "(raft_log_store, 'a) call \<Rightarrow> ('os fsm, 'a) call" where
  "on_log c fs = (let (r, lg) = c (fs_log fs) in (r, fs\<lparr>fs_log := lg\<rparr>))"

section \<open>Progress\<close>

definition store_index :: "'os fsm_env \<Rightarrow> bytes \<Rightarrow> nat \<Rightarrow> ('os fsm, unit) call" where
  "store_index env key i fs = on_log (rg_put_state (fe_encode_index env) key (fs_raft_node fs) i) fs"

definition load_index :: "'os fsm_env \<Rightarrow> bytes \<Rightarrow> 'os fsm \<Rightarrow> nat res" where
  "load_index env key fs =
     rbind (rg_get_state (fe_decode_index env) key (fs_raft_node fs) (fs_log fs)) (\<lambda>v.
       Ok (case v of None \<Rightarrow> 0 | Some i \<Rightarrow> i))"

definition log_gap :: "nat \<Rightarrow> nat \<Rightarrow> error" where
  "log_gap start upper_bound = RaftLogStoreError (RaftLogGap start upper_bound)"

definition check_log_gap :: "raft_entry list \<Rightarrow> nat \<Rightarrow> nat \<Rightarrow> unit res" where
  "check_log_gap entries start upper_bound =
     rbind (sub_u64 upper_bound start) (\<lambda>len.
     if len = 0 \<and> entries = [] then Ok ()
     else if entries = [] then Err (log_gap start upper_bound)
     else if re_index (hd entries) \<noteq> start then Err (log_gap start (re_index (hd entries)))
     else rbind (add_u64 (re_index (last entries)) 1) (\<lambda>stop.
       if stop \<noteq> upper_bound then Err (log_gap stop upper_bound) else Ok ()))"

section \<open>Transactions\<close>

definition fsm_get :: "'os fsm_env \<Rightarrow> bytes \<Rightarrow> u64 \<Rightarrow> ('os fsm, bytes option) call" where
  "fsm_get env key s fs =
     (let (r, lt) = lsm_get (fe_objects env) (fe_decompress env) (fe_crc32 env) (fe_fingerprint32 env) key s (fs_tree fs)
      in (r, fs\<lparr>fs_tree := lt\<rparr>))"

definition fsm_write :: "'os fsm_env \<Rightarrow> bytes \<Rightarrow> bytes option \<Rightarrow> nat \<Rightarrow> u64 \<Rightarrow> ('os fsm, unit) call" where
  "fsm_write env key v i s fs =
     (case lsm_write (fe_layout env) (fe_height env s key) key v s i (fs_tree fs) of
        Ok lt \<Rightarrow> (Ok (), fs\<lparr>fs_tree := lt\<rparr>)
      | Err e \<Rightarrow> (Err e, fs)
      | Panic \<Rightarrow> (Panic, fs)
      | OutOfFuel \<Rightarrow> (OutOfFuel, fs))"

definition fsm_put :: "'os fsm_env \<Rightarrow> bytes \<Rightarrow> bytes \<Rightarrow> nat \<Rightarrow> u64 \<Rightarrow> ('os fsm, unit) call" where
  "fsm_put env key v i s = fsm_write env key (Some v) i s"

definition fsm_delete :: "'os fsm_env \<Rightarrow> bytes \<Rightarrow> nat \<Rightarrow> u64 \<Rightarrow> ('os fsm, unit) call" where
  "fsm_delete env key i s = fsm_write env key None i s"

fun fsm_op :: "'os fsm_env \<Rightarrow> u64 \<Rightarrow> nat \<Rightarrow> kv_op_request \<Rightarrow> ('os fsm, kv_op_response) call" where
  "fsm_op env s i (GetRequest key q) =
     cbind (fsm_get env key (if q > 0 then q else s)) (\<lambda>v. cok (GetResponse (case v of Some v \<Rightarrow> v | None \<Rightarrow> [])))"
| "fsm_op env s i (PutRequest key v) = cbind (fsm_put env key v i s) (\<lambda>_. cok PutResponse)"
| "fsm_op env s i (DeleteRequest key) = cbind (fsm_delete env key i s) (\<lambda>_. cok DeleteResponse)"
| "fsm_op env s i (SnapshotRequest _) = cok (SnapshotResponse s)"

definition fsm_txn :: "'os fsm_env \<Rightarrow> txn_request \<Rightarrow> u64 \<Rightarrow> nat \<Rightarrow> ('os fsm, txn_response) call" where
  "fsm_txn env request s i =
     cmap (\<lambda>op. cbind (cres (unwrap op)) (\<lambda>op. cbind (fsm_op env s i op) (\<lambda>r. cok (Some r)))) request"

section \<open>Applying entries\<close>

text \<open>The response of a transaction, an error too, goes to whoever waits for it; that nobody does is only
  logged. A panic is not a response.\<close>

definition fsm_respond :: "'os fsm_env \<Rightarrow> u64 \<Rightarrow> txn_response res \<Rightarrow> ('os fsm, unit) call" where
  "fsm_respond env rid response fs =
     (case response of
        Panic \<Rightarrow> (Panic, fs)
      | OutOfFuel \<Rightarrow> (OutOfFuel, fs)
      | _ \<Rightarrow>
          let (r, np) = np_notify (fe_hash env) rid response (fs_pool fs)
          in (if r = Panic then Panic else Ok (), fs\<lparr>fs_pool := np\<rparr>))"

definition apply_normal :: "'os fsm_env \<Rightarrow> raft_entry \<Rightarrow> ('os fsm, unit) call" where
  "apply_normal env e =
     (if re_data e = [] then cok ()
      else
        cbind (cres (ok_or (SerdeError ''command'') (fe_decode_command env (re_data e)))) (\<lambda>cmd.
        case cmd of
          TxnCommand rid s request \<Rightarrow>
            (\<lambda>fs. let (response, fs) = fsm_txn env request s (re_index e) fs in fsm_respond env rid response fs)
        | CompactRaftLog _ _ \<Rightarrow> cres Panic))"

text \<open>The library's accessor reads an unknown entry type as the default one.\<close>

definition apply_entry :: "'os fsm_env \<Rightarrow> raft_entry \<Rightarrow> ('os fsm, unit) call" where
  "apply_entry env e = (if re_type e = 1 \<or> re_type e = 2 then cres Panic else apply_normal env e)"

definition load_entries :: "'os fsm_env \<Rightarrow> nat \<Rightarrow> nat \<Rightarrow> ('os fsm, raft_entry list) call" where
  "load_entries env first len fs =
     (case rg_entries (fe_decompress env) (fe_crc32 env) (fs_raft_node fs) first len (fs_log fs) of
        Ok (entries, lg) \<Rightarrow> (Ok entries, fs\<lparr>fs_log := lg\<rparr>)
      | Err e \<Rightarrow> (Err e, fs)
      | Panic \<Rightarrow> (Panic, fs)
      | OutOfFuel \<Rightarrow> (OutOfFuel, fs))"

definition fsm_catch_up :: "'os fsm_env \<Rightarrow> raft_entry list \<Rightarrow> nat \<Rightarrow> nat \<Rightarrow> ('os fsm, unit) call" where
  "fsm_catch_up env entries first_apply first_carried =
     cbind (cres (sub_u64 first_carried first_apply)) (\<lambda>load_len.
     if load_len > 0 then
       cbind (load_entries env first_apply load_len) (\<lambda>loaded.
       cbind (cres (check_log_gap entries first_apply first_carried)) (\<lambda>_.
         cfold (apply_entry env) loaded))
     else cok ())"

definition fsm_apply :: "'os fsm_env \<Rightarrow> bool \<Rightarrow> raft_entry list \<Rightarrow> ('os fsm, unit) call" where
  "fsm_apply env is_leader entries =
     cbind (if entries \<noteq> [] then store_index env available_index_key (re_index (last entries)) else cok ()) (\<lambda>_.
     if \<not> is_leader then cok ()
     else
       cbind (if entries \<noteq> [] then cok (re_index (last entries)) else cget (load_index env available_index_key)) (\<lambda>available.
       cbind (cget (load_index env done_index_key)) (\<lambda>last_done.
       cbind (cres (add_u64 last_done 1)) (\<lambda>first_apply.
       cbind (if entries \<noteq> [] then cok (re_index (hd entries)) else cres (add_u64 available 1)) (\<lambda>first_carried.
       cbind (fsm_catch_up env entries first_apply first_carried) (\<lambda>_.
       cbind (cfold (apply_entry env) entries) (\<lambda>_.
         if last_done \<noteq> available then store_index env done_index_key available else cok ())))))))"

definition raft_applied_index :: "'os fsm_env \<Rightarrow> 'os fsm \<Rightarrow> nat res" where
  "raft_applied_index env fs = load_index env available_index_key fs"

section \<open>A log that has to be read again is never applied\<close>

text \<open>The carried entries, not the loaded ones, are checked against the range to load.\<close>

lemma check_log_gap_carried:
  assumes "first_apply < first_carried" "entries \<noteq> [] \<Longrightarrow> re_index (hd entries) = first_carried"
  shows "check_log_gap entries first_apply first_carried \<noteq> Ok ()"
  using assms by (auto simp: check_log_gap_def sub_u64_def)

lemma store_entries_states:
  assumes "store_entries decompress crc32 st gid i n = Ok (es, st')"
  shows "rs_states st' = rs_states st"
proof -
  have "rs_states st' = rs_states st" if "store_entries_loop decompress crc32 gid i eis st = Ok (es, st')" for i eis es st st'
    using that
  proof (induction eis arbitrary: i es st)
    case (Cons ei eis)
    then obtain data st1 es1 where "store_entry_data decompress crc32 st ei = Ok (data, st1)"
      "store_entries_loop decompress crc32 gid (Suc i) eis st1 = Ok (es1, st')"
      by (auto simp: outcome_simps)
    then show ?case using Cons.IH by (auto simp: store_entry_data_def outcome_simps)
  qed simp
  then show ?thesis using assms by (auto simp: store_entries_def outcome_simps)
qed

lemma keys_differ: "done_index_key \<noteq> available_index_key"
  by (simp add: done_index_key_def available_index_key_def)

lemma store_put_failed: "store_put gid key val st = (r, st') \<Longrightarrow> r \<noteq> Ok () \<Longrightarrow> rs_states st' = rs_states st"
  by (auto simp: store_put_def with_log_append_def lift_states_def split: result.splits prod.splits)

lemma load_index_states:
  "rs_states (fs_log fs') = rs_states (fs_log fs) \<Longrightarrow> fs_raft_node fs' = fs_raft_node fs \<Longrightarrow> load_index env key fs' = load_index env key fs"
  by (simp add: load_index_def rg_get_state_def rg_get_def store_get_def)

text \<open>Writing one index leaves the tree, the pool and the other index alone.\<close>

lemma store_index_ok:
  assumes "store_index env key i fs = (r, fs')"
  shows "fs_tree fs' = fs_tree fs" "fs_pool fs' = fs_pool fs" "fs_raft_node fs' = fs_raft_node fs"
    "key' \<noteq> key \<Longrightarrow> load_index env key' fs' = load_index env key' fs"
    "r = Ok () \<Longrightarrow> \<forall>i b. fe_encode_index env i = Some b \<longrightarrow> fe_decode_index env b = Some i \<Longrightarrow> load_index env key fs' = Ok i"
proof -
  show "fs_tree fs' = fs_tree fs" "fs_pool fs' = fs_pool fs" and node: "fs_raft_node fs' = fs_raft_node fs"
    using assms by (auto simp: store_index_def on_log_def split: prod.splits)
  have ok: "(key' \<noteq> key \<longrightarrow> load_index env key' fs' = load_index env key' fs) \<and>
      ((\<forall>i b. fe_encode_index env i = Some b \<longrightarrow> fe_decode_index env b = Some i) \<longrightarrow> load_index env key fs' = Ok i)" if r: "r = Ok ()"
  proof -
    obtain buf lg where put: "fe_encode_index env i = Some buf" "store_put (fs_raft_node fs) key buf (fs_log fs) = (Ok (), lg)" "fs' = fs\<lparr>fs_log := lg\<rparr>"
      using assms r by (auto simp: store_index_def on_log_def rg_put_state_def rg_put_def split: prod.splits option.splits)
    have get: "rg_get_state dec key' (fs_raft_node fs) lg = (if key' = key then rbind (ok_or (SerdeError ''deserialize'') (dec buf)) (\<lambda>v. Ok (Some v))
        else rg_get_state dec key' (fs_raft_node fs) (fs_log fs))" for key' and dec :: "bytes \<Rightarrow> nat option"
      using store_put_get[OF put(2)] by (simp add: rg_get_state_def rg_get_def)
    show ?thesis using get put(1,3) by (simp add: load_index_def)
  qed
  have failed: "load_index env key' fs' = load_index env key' fs" if "r \<noteq> Ok ()"
    by (rule load_index_states) (use assms that in \<open>auto simp: store_index_def on_log_def rg_put_state_def rg_put_def
      dest: store_put_failed split: prod.splits option.splits\<close>)
  show "key' \<noteq> key \<Longrightarrow> load_index env key' fs' = load_index env key' fs" using ok failed by blast
  show "r = Ok () \<Longrightarrow> \<forall>i b. fe_encode_index env i = Some b \<longrightarrow> fe_decode_index env b = Some i \<Longrightarrow> load_index env key fs' = Ok i"
    using ok by blast
qed

lemma load_entries_keeps:
  assumes "load_entries env first n fs = (r, fs')"
  shows "fs_tree fs' = fs_tree fs" "load_index env key fs' = load_index env key fs"
  using assms store_entries_states[of "fe_decompress env" "fe_crc32 env" "fs_log fs" "fs_raft_node fs" first n]
  by (auto simp: load_entries_def rg_entries_def load_index_def rg_get_state_def rg_get_def store_get_def outcome_simps
      split: result.splits prod.splits)

lemma catch_up_fails:
  assumes "first_apply < first_carried" "entries \<noteq> [] \<Longrightarrow> re_index (hd entries) = first_carried"
    and "fsm_catch_up env entries first_apply first_carried fs = (r, fs')"
  shows "r \<noteq> Ok () \<and> fs_tree fs' = fs_tree fs \<and> load_index env key fs' = load_index env key fs"
proof -
  obtain r1 fs1 where l: "load_entries env first_apply (first_carried - first_apply) fs = (r1, fs1)" by fastforce
  note keep = load_entries_keeps[OF l]
  have c: "check_log_gap entries first_apply first_carried \<noteq> Ok ()" by (rule check_log_gap_carried[OF assms(1,2)])
  have sub: "sub_u64 first_carried first_apply = Ok (first_carried - first_apply)" using assms(1) by (simp add: sub_u64_def)
  show ?thesis
  proof (cases r1)
    case (Ok loaded)
    then show ?thesis using assms(1,3) c keep l sub
      by (cases "check_log_gap entries first_apply first_carried") (auto simp: fsm_catch_up_def cbind_def split: if_splits)
  qed (use assms(1,3) keep l sub in \<open>auto simp: fsm_catch_up_def cbind_def split: if_splits\<close>)
qed

lemma apply_behind_fails:
  assumes "load_index env done_index_key fs = Ok last_done"
    and "entries \<noteq> [] \<Longrightarrow> last_done + 1 < re_index (hd entries)"
    and "entries = [] \<Longrightarrow> load_index env available_index_key fs = Ok available \<and> last_done < available"
  shows "fst (fsm_apply env True entries fs) \<noteq> Ok () \<and>
    fs_tree (snd (fsm_apply env True entries fs)) = fs_tree fs \<and>
    load_index env done_index_key (snd (fsm_apply env True entries fs)) = Ok last_done"
proof (cases "entries = []")
  case True
  then have av: "load_index env available_index_key fs = Ok available" "last_done < available" using assms(3) by auto
  show ?thesis
  proof (cases "last_done + 1 < 2 ^ 64 \<and> available + 1 < 2 ^ 64")
    case False
    then show ?thesis using True assms(1) av by (auto simp: fsm_apply_def cbind_def add_u64_def)
  next
    case fits: True
    obtain r fs' where c: "fsm_catch_up env [] (last_done + 1) (available + 1) fs = (r, fs')" by fastforce
    have "r \<noteq> Ok () \<and> fs_tree fs' = fs_tree fs \<and> load_index env done_index_key fs' = load_index env done_index_key fs"
      by (rule catch_up_fails[OF _ _ c]) (use av in auto)
    then show ?thesis using True assms(1) av fits c by (cases r) (auto simp: fsm_apply_def cbind_def add_u64_def)
  qed
next
  case False
  obtain r0 fs0 where st: "store_index env available_index_key (re_index (last entries)) fs = (r0, fs0)" by fastforce
  note keep = store_index_ok[OF st]
  show ?thesis
  proof (cases "r0 = Ok ()")
    case fail: False
    then show ?thesis using False st keep(1) keep(4)[OF keys_differ] assms(1) by (cases r0) (auto simp: fsm_apply_def cbind_def)
  next
    case ok: True
    have d: "load_index env done_index_key fs0 = Ok last_done" using keep(4)[OF keys_differ] assms(1) by simp
    show ?thesis
    proof (cases "last_done + 1 < 2 ^ 64")
      case no: False
      then show ?thesis using False st ok d keep(1) by (auto simp: fsm_apply_def cbind_def add_u64_def)
    next
      case fits: True
      obtain r fs' where c: "fsm_catch_up env entries (last_done + 1) (re_index (hd entries)) fs0 = (r, fs')" by fastforce
      have "r \<noteq> Ok () \<and> fs_tree fs' = fs_tree fs0 \<and> load_index env done_index_key fs' = load_index env done_index_key fs0"
        by (rule catch_up_fails[OF _ _ c]) (use assms(2) False in auto)
      then show ?thesis using False st ok d keep(1) fits c by (cases r) (auto simp: fsm_apply_def cbind_def add_u64_def)
    qed
  qed
qed

text \<open>Calls of \<open>apply\<close> one after the other, whatever they return.\<close>

fun apply_calls :: "'os fsm_env \<Rightarrow> raft_entry list list \<Rightarrow> 'os fsm \<Rightarrow> unit res list \<times> 'os fsm" where
  "apply_calls env [] fs = ([], fs)"
| "apply_calls env (entries # batches) fs =
     (let (r, fs) = fsm_apply env True entries fs; (rs, fs) = apply_calls env batches fs in (r # rs, fs))"

text \<open>C29. A state machine that has fallen behind its log never catches up by itself: a leader that is
  handed entries behind the next one to apply has to read the ones between from its log, but \<open>apply\<close>
  fails, because the gap check looks at the entries it was handed. Nothing is applied and the progress
  stays. So along every sequence of calls whose entries all start behind the next one to apply, which is
  what the raft library hands out once it has handed out the missing ones, each call fails, and the tree
  and the progress are what they were.\<close>

theorem leader_never_catches_up:
  assumes "load_index env done_index_key fs = Ok last_done"
    and "\<forall>entries \<in> set batches. entries \<noteq> [] \<and> last_done + 1 < re_index (hd entries)"
    and "apply_calls env batches fs = (rs, fs')"
  shows "length rs = length batches \<and> Ok () \<notin> set rs \<and> fs_tree fs' = fs_tree fs \<and> load_index env done_index_key fs' = Ok last_done"
  using assms
proof (induction batches arbitrary: fs rs)
  case (Cons entries batches)
  obtain r fs1 rs1 where calls: "fsm_apply env True entries fs = (r, fs1)" "apply_calls env batches fs1 = (rs1, fs')" "rs = r # rs1"
    using Cons.prems(3) by (auto split: prod.splits)
  have "r \<noteq> Ok ()" "fs_tree fs1 = fs_tree fs" "load_index env done_index_key fs1 = Ok last_done"
    using apply_behind_fails[OF Cons.prems(1), of entries] Cons.prems(2) calls(1) by auto
  then show ?case using Cons.IH[OF _ _ calls(2)] Cons.prems(2) calls(3) by auto
qed simp

section \<open>The abstract state machine\<close>

text \<open>Its state is the history of writes. A transaction runs its operations in order at its sequence.\<close>

fun spec_op :: "u64 \<Rightarrow> kv_op_request \<Rightarrow> version_entry list \<Rightarrow> kv_op_response \<times> version_entry list" where
  "spec_op s (GetRequest key q) hist =
     (GetResponse (case read_at (if q > 0 then q else s) key hist of Some (Some v) \<Rightarrow> v | _ \<Rightarrow> []), hist)"
| "spec_op s (PutRequest key v) hist = (PutResponse, (key, s, Some v) # hist)"
| "spec_op s (DeleteRequest key) hist = (DeleteResponse, (key, s, None) # hist)"
| "spec_op s (SnapshotRequest key) hist = (SnapshotResponse s, hist)"

fun spec_txn :: "u64 \<Rightarrow> kv_op_request list \<Rightarrow> version_entry list \<Rightarrow> kv_op_response list \<times> version_entry list" where
  "spec_txn s [] hist = ([], hist)"
| "spec_txn s (op # ops) hist =
     (let (r, hist) = spec_op s op hist; (rs, hist) = spec_txn s ops hist in (r # rs, hist))"

fun op_write :: "kv_op_request \<Rightarrow> bytes list" where
  "op_write (PutRequest key _) = [key]"
| "op_write (DeleteRequest key) = [key]"
| "op_write _ = []"

text \<open>A transaction that writes every key once, with a sequence above those of the key's versions.\<close>

definition txn_fits :: "u64 \<Rightarrow> kv_op_request list \<Rightarrow> version_entry list \<Rightarrow> bool" where
  "txn_fits s ops hist \<longleftrightarrow> (\<forall>op \<in> set ops. op_key op \<noteq> []) \<and> distinct (concat (map op_write ops)) \<and>
     (\<forall>k \<in> set (concat (map op_write ops)). \<forall>x \<in> set hist. fst x = k \<longrightarrow> fst (snd x) < s)"

definition env_ok :: "mem_object_store fsm_env \<Rightarrow> bool" where
  "env_ok env \<longleftrightarrow> fe_objects env = mem_object_store_ops \<and> layout_ok (fe_layout env) \<and>
     (\<forall>s k. fe_height env s k < tower_max_height) \<and> (\<forall>x. fe_crc32 env x < 2 ^ 32) \<and>
     (\<forall>i < 2 ^ 64. \<exists>b. fe_encode_index env i = Some b \<and> length b < 2 ^ 32) \<and>
     (\<forall>i b. fe_encode_index env i = Some b \<longrightarrow> fe_decode_index env b = Some i)"

text \<open>A log that was reached by the operations of the store, with the group in it and not removed.\<close>

definition log_ready :: "(bytes \<Rightarrow> bytes) \<Rightarrow> 'os fsm_env \<Rightarrow> 'os fsm \<Rightarrow> bool" where
  "log_ready compress env fs \<longleftrightarrow> lz4_frames compress (fe_decompress env) \<and>
     (\<exists>removed. store_run compress (fe_decompress env) (fe_crc32 env) removed (fs_log fs) \<and> fs_raft_node fs \<notin> removed) \<and>
     rs_states (fs_log fs) (fs_raft_node fs) \<noteq> None \<and>
     fs_raft_node fs < 2 ^ 64"

abbreviation fsm_history :: "mem_object_store fsm_env \<Rightarrow> mem_object_store fsm \<Rightarrow> version_entry list \<Rightarrow> bool" where
  "fsm_history env fs hist \<equiv> lsm_history (fe_decompress env) (fe_crc32 env) (fe_fingerprint32 env) (fs_tree fs) hist"

text \<open>Everything but the tree.\<close>

definition fsm_frame :: "'os fsm \<Rightarrow> 'os fsm \<Rightarrow> bool" where
  "fsm_frame fs fs' \<longleftrightarrow> fs_raft_node fs' = fs_raft_node fs \<and> fs_log fs' = fs_log fs \<and> fs_pool fs' = fs_pool fs"

text \<open>What the tree can take. All writes of a transaction carry the index of its entry, and the assertions of
  a write ask for increasing indices and sequences, so a transaction may write once; the write has to be
  sized. The state of the bookkeeping is the last index and sequence that were written.\<close>

definition tree_at :: "nat \<Rightarrow> nat \<times> u64 \<Rightarrow> 'os lsm_tree \<Rightarrow> bool" where
  "tree_at c x lt \<longleftrightarrow> tree_sized lt \<and> lt_write_buffer_capacity lt = c \<and>
     x = (mc_max_applied_index (lt_memtable lt), mc_max_sequence (lt_memtable lt))"

fun op_writes :: "kv_op_request \<Rightarrow> (bytes \<times> bytes option) list" where
  "op_writes (PutRequest key v) = [(key, Some v)]"
| "op_writes (DeleteRequest key) = [(key, None)]"
| "op_writes _ = []"

definition txn_takes :: "'os fsm_env \<Rightarrow> nat \<Rightarrow> u64 \<Rightarrow> nat \<Rightarrow> kv_op_request list \<Rightarrow> nat \<times> u64 \<Rightarrow> (nat \<times> u64) option" where
  "txn_takes env c s i ops x =
     (case concat (map op_writes ops) of
        [] \<Rightarrow> Some x
      | [(k, v)] \<Rightarrow>
          if fst x < i \<and> snd x < s \<and> write_sized (fe_layout env) (fe_height env s k) k v c then Some (i, s) else None
      | _ \<Rightarrow> None)"

fun entries_take :: "'os fsm_env \<Rightarrow> nat \<Rightarrow> raft_entry list \<Rightarrow> nat \<times> u64 \<Rightarrow> (nat \<times> u64) option" where
  "entries_take env c [] x = Some x"
| "entries_take env c (e # es) x =
     (case fe_decode_command env (re_data e) of
        Some (TxnCommand rid s request) \<Rightarrow>
          (case txn_takes env c s (re_index e) (map the request) x of None \<Rightarrow> None | Some x \<Rightarrow> entries_take env c es x)
      | _ \<Rightarrow> entries_take env c es x)"

lemma entries_take_append:
  "entries_take env c (es @ es') x = (case entries_take env c es x of None \<Rightarrow> None | Some x \<Rightarrow> entries_take env c es' x)"
  by (induction es arbitrary: x) (simp_all split: option.splits command.splits)

lemma txn_takes_Cons:
  assumes "txn_takes env c s i (op # ops) x = Some y"
  obtains z where "txn_takes env c s i [op] x = Some z" "txn_takes env c s i ops z = Some y"
proof (cases "op_writes op")
  case Nil
  then show ?thesis using that[of x] assms by (simp add: txn_takes_def)
next
  case (Cons w ws)
  then have "ws = []" by (cases op) auto
  moreover from this have "concat (map op_writes ops) = []" using assms Cons
    by (cases w; cases "concat (map op_writes ops)") (simp_all add: txn_takes_def)
  ultimately show ?thesis using that[of y] assms Cons by (simp add: txn_takes_def del: concat_eq_Nil_conv)
qed

lemma fsm_write_refines:
  assumes env: "env_ok env" and hist: "fsm_history env fs hist" and newer: "\<forall>x \<in> set hist. fst x = k \<longrightarrow> fst (snd x) < s"
    and tree: "tree_at c x (fs_tree fs)" "fst x < i" "snd x < s" "write_sized (fe_layout env) (fe_height env s k) k v c"
  shows "\<exists>fs'. fsm_write env k v i s fs = (Ok (), fs') \<and> fsm_history env fs' ((k, s, v) # hist) \<and> fsm_frame fs fs' \<and>
    tree_at c (i, s) (fs_tree fs')"
proof -
  have nl: "layout_ok (fe_layout env)" "fe_height env s k < tower_max_height" using env by (auto simp: env_ok_def)
  have "\<exists>lt'. lsm_write (fe_layout env) (fe_height env s k) k v s i (fs_tree fs) = Ok lt' \<and> tree_sized lt' \<and>
      lt_write_buffer_capacity lt' = lt_write_buffer_capacity (fs_tree fs) \<and>
      mc_max_applied_index (lt_memtable lt') = i \<and> mc_max_sequence (lt_memtable lt') = s"
    by (rule lsm_write_succeeds[OF hist nl]) (use tree in \<open>auto simp: tree_at_def\<close>)
  then obtain lt' where lt': "lsm_write (fe_layout env) (fe_height env s k) k v s i (fs_tree fs) = Ok lt'" "tree_at c (i, s) lt'"
    using tree(1) by (auto simp: tree_at_def)
  then show ?thesis using lsm_history_write[OF hist nl newer lt'(1)] by (auto simp: fsm_write_def fsm_frame_def)
qed

lemma lsm_get_memtable: "lsm_get ops d k f key s lt = (r, lt') \<Longrightarrow> tree_at c x lt' = tree_at c x lt"
  by (auto simp: lsm_get_def tree_at_def tree_sized_def split: result.splits option.splits prod.splits)

lemma fsm_op_refines:
  assumes env: "env_ok env" and hist: "fsm_history env fs hist" and key: "op_key op \<noteq> []"
    and newer: "\<forall>k \<in> set (op_write op). \<forall>x \<in> set hist. fst x = k \<longrightarrow> fst (snd x) < s"
    and tree: "tree_at c x (fs_tree fs)" "txn_takes env c s i [op] x = Some y"
  shows "\<exists>fs'. fsm_op env s i op fs = (Ok (fst (spec_op s op hist)), fs') \<and> fsm_history env fs' (snd (spec_op s op hist)) \<and>
    fsm_frame fs fs' \<and> tree_at c y (fs_tree fs')"
proof (cases op)
  case (GetRequest k q)
  have "k \<noteq> []" "y = x" using key tree(2) GetRequest by (simp_all add: txn_takes_def)
  with lsm_history_get[OF hist this(1), of "if q > 0 then q else s"] env tree(1) show ?thesis
    by (auto simp: GetRequest fsm_get_def env_ok_def fsm_frame_def cbind_def lsm_get_memtable split: option.splits)
next
  case (PutRequest k v)
  then have "fst x < i" "snd x < s" "write_sized (fe_layout env) (fe_height env s k) k (Some v) c" "y = (i, s)"
    using tree(2) by (auto simp: txn_takes_def split: if_splits)
  then show ?thesis using fsm_write_refines[OF env hist _ tree(1), of k s i "Some v"] newer PutRequest by (auto simp: fsm_put_def cbind_def)
next
  case (DeleteRequest k)
  then have "fst x < i" "snd x < s" "write_sized (fe_layout env) (fe_height env s k) k None c" "y = (i, s)"
    using tree(2) by (auto simp: txn_takes_def split: if_splits)
  then show ?thesis using fsm_write_refines[OF env hist _ tree(1), of k s i None] newer DeleteRequest by (auto simp: fsm_delete_def cbind_def)
qed (use hist tree in \<open>auto simp: fsm_frame_def txn_takes_def\<close>)

lemma spec_op_hist: "set (snd (spec_op s op hist)) \<subseteq> set hist \<union> {(k, s, v) | k v. k \<in> set (op_write op)}"
  by (cases op) auto

lemma txn_fits_step:
  assumes "txn_fits s (op # ops) hist"
  shows "op_key op \<noteq> []" "\<forall>k \<in> set (op_write op). \<forall>x \<in> set hist. fst x = k \<longrightarrow> fst (snd x) < s" "txn_fits s ops (snd (spec_op s op hist))"
proof -
  show "op_key op \<noteq> []" "\<forall>k \<in> set (op_write op). \<forall>x \<in> set hist. fst x = k \<longrightarrow> fst (snd x) < s"
    using assms by (auto simp: txn_fits_def)
  have "fst (snd x) < s" if "k \<in> set (concat (map op_write ops))" "x \<in> set (snd (spec_op s op hist))" "fst x = k" for k x
  proof (cases "x \<in> set hist")
    case True
    then show ?thesis using assms that by (auto simp: txn_fits_def)
  next
    case False
    then have "fst x \<in> set (op_write op)" using spec_op_hist that(2) by fastforce
    then show ?thesis using assms that by (auto simp: txn_fits_def)
  qed
  then show "txn_fits s ops (snd (spec_op s op hist))" using assms by (auto simp: txn_fits_def)
qed

lemma fsm_txn_refines:
  assumes env: "env_ok env" and "fsm_history env fs hist" "txn_fits s ops hist"
    and "tree_at c x (fs_tree fs)" "txn_takes env c s i ops x = Some y"
  shows "\<exists>fs'. fsm_txn env (map Some ops) s i fs = (Ok (map Some (fst (spec_txn s ops hist))), fs') \<and>
    fsm_history env fs' (snd (spec_txn s ops hist)) \<and> fsm_frame fs fs' \<and> tree_at c y (fs_tree fs')"
  using assms(2-)
proof (induction ops arbitrary: fs hist x)
  case Nil
  then show ?case by (auto simp: fsm_txn_def fsm_frame_def txn_takes_def)
next
  case (Cons op ops)
  note fit = txn_fits_step[OF Cons.prems(2)]
  obtain z where z: "txn_takes env c s i [op] x = Some z" "txn_takes env c s i ops z = Some y"
    using Cons.prems(4) by (rule txn_takes_Cons)
  obtain fs1 where op: "fsm_op env s i op fs = (Ok (fst (spec_op s op hist)), fs1)" "fsm_history env fs1 (snd (spec_op s op hist))"
    "fsm_frame fs fs1" "tree_at c z (fs_tree fs1)" using fsm_op_refines[OF env Cons.prems(1) fit(1,2) Cons.prems(3) z(1)] by blast
  from Cons.IH[OF op(2) fit(3) op(4) z(2)] show ?case
    using op by (auto simp: fsm_txn_def cbind_def fsm_frame_def split: prod.splits)
qed

text \<open>What a sequence of committed entries does: the responses with their request, and the history.\<close>

fun spec_entries :: "(bytes \<Rightarrow> command option) \<Rightarrow> raft_entry list \<Rightarrow> version_entry list \<Rightarrow>
    (u64 \<times> kv_op_response list) list \<times> version_entry list" where
  "spec_entries decode [] hist = ([], hist)"
| "spec_entries decode (e # es) hist =
     (case decode (re_data e) of
        Some (TxnCommand rid s request) \<Rightarrow>
          let (rsp, hist) = spec_txn s (map the request) hist; (rsps, hist) = spec_entries decode es hist
          in ((rid, rsp) # rsps, hist)
      | _ \<Rightarrow> spec_entries decode es hist)"

text \<open>Entries a group proposes: transactions that fit the history, and the empty entry of a new leader.\<close>

fun entries_fit :: "(bytes \<Rightarrow> command option) \<Rightarrow> raft_entry list \<Rightarrow> version_entry list \<Rightarrow> bool" where
  "entries_fit decode [] hist = True"
| "entries_fit decode (e # es) hist =
     (re_type e = 0 \<and>
      (case decode (re_data e) of
         None \<Rightarrow> re_data e = [] \<and> entries_fit decode es hist
       | Some (TxnCommand rid s request) \<Rightarrow>
           re_data e \<noteq> [] \<and> None \<notin> set request \<and> txn_fits s (map the request) hist \<and>
           entries_fit decode es (snd (spec_txn s (map the request) hist))
       | Some (CompactRaftLog _ _) \<Rightarrow> False))"

lemma spec_entries_append:
  "spec_entries decode (es @ es') hist =
     (let (rsps, hist) = spec_entries decode es hist; (rsps', hist) = spec_entries decode es' hist in (rsps @ rsps', hist))"
  by (induction es arbitrary: hist) (simp_all add: Let_def split: option.splits command.splits prod.splits)

lemma entries_fit_append:
  "entries_fit decode (es @ es') hist \<longleftrightarrow> entries_fit decode es hist \<and> entries_fit decode es' (snd (spec_entries decode es hist))"
  by (induction es arbitrary: hist) (auto simp: Let_def split: option.splits command.splits prod.splits)

definition answered :: "(u64 \<Rightarrow> u64) \<Rightarrow> (u64, txn_response res) notify_pool \<Rightarrow> (u64 \<times> kv_op_response list) list \<Rightarrow>
    (u64, txn_response res) notify_pool \<Rightarrow> bool" where
  "answered hash np rsps np' \<longleftrightarrow> np_ok hash np' \<and>
     np_pending hash np' = np_pending hash np |` (- fst ` set rsps) \<and>
     (\<forall>rx. np_alive rx np' = np_alive rx np) \<and>
     (\<forall>rid rx. np_pending hash np rid = Some rx \<longrightarrow> rid \<notin> fst ` set rsps \<longrightarrow> np_received rx np' = np_received rx np) \<and>
     (\<forall>rx. rx \<notin> ran (np_pending hash np) \<longrightarrow> np_received rx np' = np_received rx np) \<and>
     (distinct (map fst rsps) \<longrightarrow> (\<forall>rid rsp rx. (rid, rsp) \<in> set rsps \<longrightarrow> np_pending hash np rid = Some rx \<longrightarrow> np_alive rx np \<longrightarrow>
        np_received rx np' = Some (Ok (map Some rsp))))"

lemma answered_nil: "np_ok hash np \<Longrightarrow> answered hash np [] np"
  by (simp add: answered_def restrict_map_def)

lemma np_pending_inj: "np_ok hash np \<Longrightarrow> np_pending hash np i = Some rx \<Longrightarrow> np_pending hash np j = Some rx \<Longrightarrow> i = j"
  by (auto simp: np_ok_def inj_on_def dom_def)

lemma answered_cons:
  assumes ok: "np_ok hash np" and rest: "answered hash (snd (np_notify hash rid (Ok (map Some rsp)) np)) rsps np'"
  shows "answered hash np ((rid, rsp) # rsps) np'"
proof -
  let ?np = "snd (np_notify hash rid (Ok (map Some rsp)) np)"
  note e = np_notify_effect[OF ok, where i = rid and r = "Ok (map Some rsp)"]
  have pend: "np_pending hash ?np = (np_pending hash np)(rid := None)" by (rule e(2))
  note r = rest[unfolded answered_def pend]
  have got: "np_received rx np' = Some (Ok (map Some rsp))" if "np_pending hash np rid = Some rx" "np_alive rx np" for rx
  proof -
    have "rx \<notin> ran ((np_pending hash np)(rid := None))" using np_pending_inj[OF ok that(1)] by (auto simp: ran_def)
    then have "np_received rx np' = np_received rx ?np" using r by blast
    then show ?thesis using e(4)[OF that] by simp
  qed
  have other: "np_received rx ?np = np_received rx np" if "np_pending hash np i = Some rx" "i \<noteq> rid" for i rx
    using e(3)[of rx] np_pending_inj[OF ok that(1)] that(2) by blast
  have "rx \<notin> ran (np_pending hash np) \<Longrightarrow> np_received rx ?np = np_received rx np" for rx using e(3)[of rx] by (auto simp: ran_def)
  moreover have "rx \<notin> ran (np_pending hash np) \<Longrightarrow> rx \<notin> ran ((np_pending hash np)(rid := None))" for rx by (auto simp: ran_def)
  moreover have "(np_pending hash np)(rid := None) |` (- fst ` set rsps) = np_pending hash np |` (- fst ` set ((rid, rsp) # rsps))"
    by (auto simp: restrict_map_def)
  moreover have "np_received rx np' = Some (Ok (map Some b))"
    if "distinct (map fst ((rid, rsp) # rsps))" "(a, b) \<in> set ((rid, rsp) # rsps)" "np_pending hash np a = Some rx" "np_alive rx np" for a b rx
  proof (cases "(a, b) = (rid, rsp)")
    case False
    then have "(a, b) \<in> set rsps" "a \<noteq> rid" "distinct (map fst rsps)" using that(1,2) by (auto simp: rev_image_eqI)
    then show ?thesis using r that(3,4) by simp
  qed (use got that in simp)
  moreover have "np_received rx np' = np_received rx np" if "np_pending hash np i = Some rx" "i \<notin> fst ` set ((rid, rsp) # rsps)" for i rx
  proof -
    have "((np_pending hash np)(rid := None)) i = Some rx" "i \<notin> fst ` set rsps" "i \<noteq> rid" using that by auto
    then have "np_received rx np' = np_received rx ?np" using r by blast
    then show ?thesis using other[OF that(1) \<open>i \<noteq> rid\<close>] by simp
  qed
  ultimately show ?thesis using r unfolding answered_def by simp
qed

lemma answered_append:
  assumes "answered hash np rsps np1" "answered hash np1 rsps' np'" "np_ok hash np"
  shows "answered hash np (rsps @ rsps') np'"
proof -
  note a = assms(1)[unfolded answered_def] and b = assms(2)[unfolded answered_def]
  have pend: "np_pending hash np1 = np_pending hash np |` (- fst ` set rsps)" using a by blast
  have still: "np_pending hash np1 i = Some rx" if "np_pending hash np i = Some rx" "i \<notin> fst ` set rsps" for i rx
    using that unfolding pend by simp
  have gone: "rx \<notin> ran (np_pending hash np1)" if "np_pending hash np i = Some rx" "i \<in> fst ` set rsps" for i rx
    using np_pending_inj[OF assms(3) that(1)] that(2) unfolding pend by (auto simp: ran_def restrict_map_def split: if_splits)
  have out: "rx \<notin> ran (np_pending hash np) \<Longrightarrow> rx \<notin> ran (np_pending hash np1)" for rx
    unfolding pend by (auto simp: ran_def restrict_map_def split: if_splits)
  have got: "np_received rx np' = Some (Ok (map Some rsp))"
    if "distinct (map fst (rsps @ rsps'))" "(i, rsp) \<in> set (rsps @ rsps')" "np_pending hash np i = Some rx" "np_alive rx np" for i rsp rx
  proof (cases "(i, rsp) \<in> set rsps")
    case True
    then have "np_received rx np1 = Some (Ok (map Some rsp))" using a that(1,3,4) by simp
    moreover have "rx \<notin> ran (np_pending hash np1)" by (rule gone[OF that(3)]) (use True in force)
    ultimately show ?thesis using b by simp
  next
    case False
    then have "(i, rsp) \<in> set rsps'" "i \<notin> fst ` set rsps" using that(1,2) by (auto simp: rev_image_eqI)
    then show ?thesis using b a that(1,4) still[OF that(3)] by simp
  qed
  have keep: "np_received rx np' = np_received rx np" if "np_pending hash np i = Some rx" "i \<notin> fst ` set (rsps @ rsps')" for i rx
  proof -
    have "i \<notin> fst ` set rsps" "i \<notin> fst ` set rsps'" using that(2) by auto
    then show ?thesis using a b that(1) still[OF that(1)] by metis
  qed
  have "np_pending hash np' = np_pending hash np |` (- fst ` set (rsps @ rsps'))"
    using b unfolding pend by (auto simp: restrict_map_def fun_eq_iff)
  moreover have "np_ok hash np'" "\<forall>rx. np_alive rx np' = np_alive rx np" using a b by simp_all
  moreover have "\<forall>rx. rx \<notin> ran (np_pending hash np) \<longrightarrow> np_received rx np' = np_received rx np" using a b out by simp
  ultimately show ?thesis unfolding answered_def using got keep by blast
qed

lemma apply_txn_refines:
  assumes env: "env_ok env" and pool: "np_ok (fe_hash env) (fs_pool fs)" and hist: "fsm_history env fs hist"
    and e: "re_type e = 0" "re_data e \<noteq> []" "fe_decode_command env (re_data e) = Some (TxnCommand rid s request)"
    and fits: "None \<notin> set request" "txn_fits s (map the request) hist"
    and tree: "tree_at c x (fs_tree fs)" "txn_takes env c s (re_index e) (map the request) x = Some y"
  shows "\<exists>fs'. apply_entry env e fs = (Ok (), fs') \<and> fsm_history env fs' (snd (spec_txn s (map the request) hist)) \<and>
    fs_raft_node fs' = fs_raft_node fs \<and> fs_log fs' = fs_log fs \<and> tree_at c y (fs_tree fs') \<and>
    fs_pool fs' = snd (np_notify (fe_hash env) rid (Ok (map Some (fst (spec_txn s (map the request) hist)))) (fs_pool fs))"
proof -
  have req: "map Some (map the request) = request" using fits(1) by (induction request) auto
  from fsm_txn_refines[OF env hist fits(2) tree] obtain fs1 where
    t: "fsm_txn env request s (re_index e) fs = (Ok (map Some (fst (spec_txn s (map the request) hist))), fs1)"
    "fsm_history env fs1 (snd (spec_txn s (map the request) hist))" "fsm_frame fs fs1" "tree_at c y (fs_tree fs1)"
    unfolding req by blast
  have "fst (np_notify (fe_hash env) rid (Ok (map Some (fst (spec_txn s (map the request) hist)))) (fs_pool fs)) \<noteq> Panic"
    by (rule np_notify_effect(5)[OF pool])
  then show ?thesis using e t
    by (auto simp: apply_entry_def apply_normal_def cbind_def fsm_respond_def fsm_frame_def split: prod.splits)
qed

lemma apply_entries_refine:
  assumes env: "env_ok env"
  shows "np_ok (fe_hash env) (fs_pool fs) \<Longrightarrow> fsm_history env fs hist \<Longrightarrow> entries_fit (fe_decode_command env) es hist \<Longrightarrow>
    tree_at c x (fs_tree fs) \<Longrightarrow> entries_take env c es x = Some y \<Longrightarrow>
    \<exists>fs'. cfold (apply_entry env) es fs = (Ok (), fs') \<and> fsm_history env fs' (snd (spec_entries (fe_decode_command env) es hist)) \<and>
      fs_raft_node fs' = fs_raft_node fs \<and> fs_log fs' = fs_log fs \<and> tree_at c y (fs_tree fs') \<and>
      answered (fe_hash env) (fs_pool fs) (fst (spec_entries (fe_decode_command env) es hist)) (fs_pool fs')"
proof (induction es arbitrary: fs hist x)
  case Nil
  then show ?case by (simp add: answered_nil)
next
  case (Cons e es)
  show ?case
  proof (cases "fe_decode_command env (re_data e)")
    case None
    then have "re_type e = 0" "re_data e = []" "entries_fit (fe_decode_command env) es hist" using Cons.prems(3) by auto
    moreover from this have "apply_entry env e fs = (Ok (), fs)" by (simp add: apply_entry_def apply_normal_def)
    ultimately show ?thesis using Cons.IH[OF Cons.prems(1,2) _ Cons.prems(4)] Cons.prems(5) None by simp
  next
    case (Some cmd)
    then obtain rid s request where c: "fe_decode_command env (re_data e) = Some (TxnCommand rid s request)"
      using Cons.prems(3) by (cases cmd) auto
    let ?t = "spec_txn s (map the request) hist"
    have fit: "re_type e = 0" "re_data e \<noteq> []" "None \<notin> set request" "txn_fits s (map the request) hist"
      "entries_fit (fe_decode_command env) es (snd ?t)" using Cons.prems(3) c by auto
    obtain z where z: "txn_takes env c s (re_index e) (map the request) x = Some z" "entries_take env c es z = Some y"
      using Cons.prems(5) c by (auto split: option.splits)
    from apply_txn_refines[OF env Cons.prems(1,2) fit(1,2) c fit(3,4) Cons.prems(4) z(1)] obtain fs1 where
      t: "apply_entry env e fs = (Ok (), fs1)" "fsm_history env fs1 (snd ?t)" "fs_raft_node fs1 = fs_raft_node fs" "fs_log fs1 = fs_log fs"
        "tree_at c z (fs_tree fs1)" "fs_pool fs1 = snd (np_notify (fe_hash env) rid (Ok (map Some (fst ?t))) (fs_pool fs))" by blast
    have pool: "np_ok (fe_hash env) (fs_pool fs1)" unfolding t(6) by (rule np_notify_effect(1)[OF Cons.prems(1)])
    from Cons.IH[OF pool t(2) fit(5) t(5) z(2)] show ?thesis
      using c t(1,3,4,6) answered_cons[OF Cons.prems(1), of rid "fst ?t"] by (auto split: prod.splits)
  qed
qed

lemma store_index_total:
  assumes "env_ok env" "log_ready compress env fs" "i < 2 ^ 64" "key \<in> {available_index_key, done_index_key}"
  shows "\<exists>fs'. store_index env key i fs = (Ok (), fs') \<and> log_ready compress env fs'"
proof -
  obtain b where b: "fe_encode_index env i = Some b" "length b < 2 ^ 32" using assms(1,3) by (auto simp: env_ok_def)
  have "length key < 2 ^ 32" using assms(4) by (auto simp: available_index_key_def done_index_key_def)
  moreover obtain removed where "store_run compress (fe_decompress env) (fe_crc32 env) removed (fs_log fs)" "fs_raft_node fs \<notin> removed"
    using assms(2) by (auto simp: log_ready_def)
  moreover from calculation obtain st' where "store_put (fs_raft_node fs) key b (fs_log fs) = (Ok (), st')"
    "store_run compress (fe_decompress env) (fe_crc32 env) removed st'" "rs_states st' (fs_raft_node fs) \<noteq> None"
    using store_put_total[of compress "fe_decompress env" "fe_crc32 env" removed "fs_log fs" "fs_raft_node fs" key b] assms(1,2) b(2)
    by (auto simp: log_ready_def env_ok_def)
  ultimately show ?thesis using b(1) assms(2) by (auto simp: store_index_def on_log_def rg_put_state_def rg_put_def log_ready_def)
qed

lemma fsm_apply_run:
  assumes "store_index env available_index_key (re_index (last es)) fs = (Ok (), fs1)"
    and "load_index env done_index_key fs = Ok last_done"
    and "es \<noteq> []" "re_index (hd es) = last_done + 1" "last_done < re_index (last es)" "last_done + 1 < 2 ^ 64"
  shows "fsm_apply env True es fs = cbind (cfold (apply_entry env) es) (\<lambda>_. store_index env done_index_key (re_index (last es))) fs1"
  using assms store_index_ok(4)[OF assms(1) keys_differ] by (simp add: fsm_apply_def add_u64_def fsm_catch_up_def sub_u64_def)

text \<open>The window of a group in the log, which writing an index leaves alone.\<close>

definition log_window :: "nat \<Rightarrow> raft_log_store \<Rightarrow> (nat \<times> entry_index list) option" where
  "log_window gid st = map_option (\<lambda>ms. (first_index ms, indices ms)) (rs_states st gid)"

lemma store_put_window: "store_put gid key val st = (r, st') \<Longrightarrow> log_window g st' = log_window g st"
  by (auto simp: log_window_def store_put_def with_log_append_def lift_states_def mem_put_def with_state_mut_Ok split: result.splits prod.splits)

lemma store_index_window: "store_index env key i fs = (r, fs') \<Longrightarrow> log_window g (fs_log fs') = log_window g (fs_log fs)"
  by (auto simp: store_index_def on_log_def rg_put_state_def rg_put_def dest: store_put_window split: prod.splits option.splits)

lemma store_index_holds:
  assumes "env_ok env" "log_ready compress env fs" "store_index env key i fs = (Ok (), fs')" "i < 2 ^ 64"
    and "key \<in> {available_index_key, done_index_key}"
  shows "holds_batch compress (fe_crc32 env) b (fs_log fs) \<Longrightarrow> holds_batch compress (fe_crc32 env) b (fs_log fs')"
    and "key' \<notin> {available_index_key, done_index_key} \<Longrightarrow>
      store_get (fs_log fs') (fs_raft_node fs) key' = store_get (fs_log fs) (fs_raft_node fs) key'"
proof -
  obtain buf where buf: "fe_encode_index env i = Some buf" "length buf < 2 ^ 32" using assms(1,4) by (auto simp: env_ok_def)
  obtain lg where put: "store_put (fs_raft_node fs) key buf (fs_log fs) = (Ok (), lg)" "fs' = fs\<lparr>fs_log := lg\<rparr>"
    using assms(3) buf(1) by (auto simp: store_index_def on_log_def rg_put_state_def rg_put_def split: prod.splits)
  have "length key < 2 ^ 32" using assms(5) by (auto simp: available_index_key_def done_index_key_def)
  then show "holds_batch compress (fe_crc32 env) b (fs_log fs) \<Longrightarrow> holds_batch compress (fe_crc32 env) b (fs_log fs')"
    using holds_batch_put[OF _ put(1)] put(2) buf(2) assms(2) by (simp add: log_ready_def)
  show "key' \<notin> {available_index_key, done_index_key} \<Longrightarrow>
      store_get (fs_log fs') (fs_raft_node fs) key' = store_get (fs_log fs) (fs_raft_node fs) key'"
    using store_put_get[OF put(1), of "fs_raft_node fs" key'] put(2) assms(5) by auto
qed

text \<open>Where a state machine stands: its group is in the log, its tree holds the history and can take the
  writes after \<open>x\<close>, and the entries up to \<open>last_done\<close> have been applied.\<close>

definition fsm_at ::
  "(bytes \<Rightarrow> bytes) \<Rightarrow> mem_object_store fsm_env \<Rightarrow> nat \<Rightarrow> version_entry list \<Rightarrow> nat \<Rightarrow> nat \<times> u64 \<Rightarrow> mem_object_store fsm \<Rightarrow> bool" where
  "fsm_at compress env c hist last_done x fs \<longleftrightarrow>
     env_ok env \<and> np_ok (fe_hash env) (fs_pool fs) \<and> fsm_history env fs hist \<and> log_ready compress env fs \<and>
     tree_at c x (fs_tree fs) \<and> load_index env done_index_key fs = Ok last_done \<and> last_done + 1 < 2 ^ 64"

text \<open>The entries that come next: they start behind the last applied one.\<close>

definition next_entries :: "nat \<Rightarrow> raft_entry list \<Rightarrow> bool" where
  "next_entries last_done es \<longleftrightarrow> re_index (hd es) = last_done + 1 \<and> last_done < re_index (last es) \<and> re_index (last es) + 1 < 2 ^ 64"

lemma fsm_apply_refinement:
  assumes fsm: "fsm_at compress env c hist last_done x fs" and es: "es \<noteq> []" "next_entries last_done es"
    and fit: "entries_fit (fe_decode_command env) es hist" "entries_take env c es x = Some y"
  shows "\<exists>fs'. fsm_apply env True es fs = (Ok (), fs') \<and>
    fsm_at compress env c (snd (spec_entries (fe_decode_command env) es hist)) (re_index (last es)) y fs' \<and>
    answered (fe_hash env) (fs_pool fs) (fst (spec_entries (fe_decode_command env) es hist)) (fs_pool fs') \<and>
    raft_applied_index env fs' = Ok (re_index (last es)) \<and> fs_raft_node fs' = fs_raft_node fs \<and>
    (\<forall>gid. log_window gid (fs_log fs') = log_window gid (fs_log fs)) \<and>
    (\<forall>b. holds_batch compress (fe_crc32 env) b (fs_log fs) \<longrightarrow> holds_batch compress (fe_crc32 env) b (fs_log fs')) \<and>
    (\<forall>key. key \<notin> {available_index_key, done_index_key} \<longrightarrow>
       store_get (fs_log fs') (fs_raft_node fs) key = store_get (fs_log fs) (fs_raft_node fs) key)"
proof -
  have env: "env_ok env" and pool: "np_ok (fe_hash env) (fs_pool fs)" and hist: "fsm_history env fs hist" and log: "log_ready compress env fs"
    and tree: "tree_at c x (fs_tree fs)" and prog: "load_index env done_index_key fs = Ok last_done" "last_done + 1 < 2 ^ 64"
    using fsm by (simp_all add: fsm_at_def)
  have idx: "re_index (hd es) = last_done + 1" "last_done < re_index (last es)" "re_index (last es) < 2 ^ 64" "re_index (last es) + 1 < 2 ^ 64"
    using es(2) by (simp_all add: next_entries_def)
  have codec: "\<forall>i b. fe_encode_index env i = Some b \<longrightarrow> fe_decode_index env b = Some i" using env by (simp add: env_ok_def)
  obtain fs1 where st: "store_index env available_index_key (re_index (last es)) fs = (Ok (), fs1)" and log1: "log_ready compress env fs1"
    using store_index_total[OF env log idx(3)] by blast
  note k = store_index_ok[OF st]
  have fs1: "fsm_history env fs1 hist" "np_ok (fe_hash env) (fs_pool fs1)" "tree_at c x (fs_tree fs1)" using hist pool tree k(1,2) by simp_all
  obtain fs2 where a: "cfold (apply_entry env) es fs1 = (Ok (), fs2)"
    "fsm_history env fs2 (snd (spec_entries (fe_decode_command env) es hist))" "fs_raft_node fs2 = fs_raft_node fs1" "fs_log fs2 = fs_log fs1"
    "tree_at c y (fs_tree fs2)" "answered (fe_hash env) (fs_pool fs1) (fst (spec_entries (fe_decode_command env) es hist)) (fs_pool fs2)"
    using apply_entries_refine[OF env fs1(2,1) fit(1) fs1(3) fit(2)] by blast
  have log2: "log_ready compress env fs2" using log1 a(3,4) by (simp add: log_ready_def)
  then obtain fs' where st2: "store_index env done_index_key (re_index (last es)) fs2 = (Ok (), fs')" and log': "log_ready compress env fs'"
    using store_index_total[OF env _ idx(3)] by blast
  note k2 = store_index_ok[OF st2]
  have run: "fsm_apply env True es fs = (Ok (), fs')" using fsm_apply_run[OF st prog(1) es(1) idx(1,2) prog(2)] a(1) st2 by simp
  have "load_index env available_index_key fs' = load_index env available_index_key fs2" by (rule k2(4)) (use keys_differ in simp)
  also have "\<dots> = Ok (re_index (last es))" using load_index_states[OF _ a(3)] a(4) k(5)[OF _ codec] by simp
  finally have av: "raft_applied_index env fs' = Ok (re_index (last es))" by (simp add: raft_applied_index_def)
  have "fsm_at compress env c (snd (spec_entries (fe_decode_command env) es hist)) (re_index (last es)) y fs'"
    using env a(2,5,6) k2(1,2) k2(5)[OF _ codec] log' idx(4) by (simp add: fsm_at_def answered_def)
  moreover have "log_window gid (fs_log fs') = log_window gid (fs_log fs)" for gid
    using store_index_window[OF st] store_index_window[OF st2] a(4) by simp
  moreover have "holds_batch compress (fe_crc32 env) b (fs_log fs) \<longrightarrow> holds_batch compress (fe_crc32 env) b (fs_log fs')" for b
    using store_index_holds(1)[OF env log st idx(3), of b] store_index_holds(1)[OF env log2 st2 idx(3), of b] a(4) by simp
  moreover have "store_get (fs_log fs') (fs_raft_node fs) key = store_get (fs_log fs) (fs_raft_node fs) key"
    if "key \<notin> {available_index_key, done_index_key}" for key
    using store_index_holds(2)[OF env log st idx(3) _ that] store_index_holds(2)[OF env log2 st2 idx(3) _ that] a(3,4) k(3) by simp
  ultimately show ?thesis using run av a(3,6) k(2,3) k2(2,3) by (intro exI[of _ fs']) simp
qed

text \<open>C4. The state machine refines the abstract one: when a leader that is up to date applies the next
  committed entries, it succeeds; the tree afterwards holds exactly the writes of their transactions in
  order, every transaction that is still waited for is answered with what the abstract machine answers
  at its place in the sequence, nobody else is woken, and the progress is the last entry.

  The conditions: the entries are transactions or empty, with non-empty keys; a transaction writes at
  most one key, with an index and a sequence above those of all writes before it; the node of the
  write takes no more than its approximate size, and a new memtable has room for it. The write buffer
  is a multiple of 8 bytes below 4 GiB, the table store is the in-memory one, the group is in the log
  and was not removed, and the indices stay below \<open>u64::MAX\<close>.\<close>

theorem fsm_apply_refines:
  assumes "fsm_at compress env c hist last_done x fs" "es \<noteq> []" "next_entries last_done es"
    and "entries_fit (fe_decode_command env) es hist" "entries_take env c es x = Some y"
  shows "\<exists>fs'. fsm_apply env True es fs = (Ok (), fs') \<and>
    fsm_at compress env c (snd (spec_entries (fe_decode_command env) es hist)) (re_index (last es)) y fs' \<and>
    answered (fe_hash env) (fs_pool fs) (fst (spec_entries (fe_decode_command env) es hist)) (fs_pool fs') \<and>
    raft_applied_index env fs' = Ok (re_index (last es))"
  using fsm_apply_refinement[OF assms] by blast

section \<open>How many writes a transaction can have\<close>

abbreviation rotations :: "'os fsm \<Rightarrow> nat" where
  "rotations fs \<equiv> length (lt_immutable_memtables (fs_tree fs))"

abbreviation tree_applied :: "'os fsm \<Rightarrow> nat" where
  "tree_applied fs \<equiv> mc_max_applied_index (lt_memtable (fs_tree fs))"

lemma fsm_write_rotations:
  assumes "fsm_write env k v i s fs = (Ok (), fs')"
  shows "tree_applied fs' = i \<and> (rotations fs' = Suc (rotations fs) \<or> rotations fs' = rotations fs \<and> tree_applied fs < i)"
  using assms by (auto simp: fsm_write_def lsm_write_def lsm_rotate_def outcome_simps split: result.splits if_splits)

lemma fsm_op_rotations:
  assumes "fsm_op env s i op fs = (Ok rsp, fs')"
  shows "length (op_write op) + rotations fs + (if tree_applied fs' < i then 1 else 0) \<le> rotations fs' + (if tree_applied fs < i then 1 else 0)"
proof (cases op)
  case (GetRequest k q)
  then show ?thesis using assms
    by (auto simp: fsm_get_def lsm_get_def outcome_simps split: prod.splits result.splits option.splits)
next
  case (PutRequest k v)
  then show ?thesis using assms fsm_write_rotations[of env k "Some v" i s fs fs'] by (auto simp: fsm_put_def outcome_simps)
next
  case (DeleteRequest k)
  then show ?thesis using assms fsm_write_rotations[of env k None i s fs fs'] by (auto simp: fsm_delete_def outcome_simps)
qed (use assms in auto)

lemma fsm_txn_frame:
  assumes "fsm_txn env request s i fs = (Ok rsp, fs')"
  shows "fsm_frame fs fs'"
proof -
  have "fsm_frame fs fs'" if "fsm_op env s i op fs = (Ok rsp, fs')" for op fs rsp fs'
    using that by (cases op) (auto simp: fsm_frame_def fsm_get_def fsm_put_def fsm_delete_def fsm_write_def outcome_simps split: result.splits prod.splits)
  then show ?thesis using assms
    by (induction request arbitrary: fs rsp) (fastforce simp: fsm_txn_def fsm_frame_def outcome_simps)+
qed

lemma fsm_txn_rotations:
  assumes "fsm_txn env request s i fs = (Ok rsp, fs')"
  shows "length (concat (map (op_write \<circ> the) request)) + rotations fs \<le> rotations fs' + (if tree_applied fs < i then 1 else 0)"
  using assms
proof (induction request arbitrary: fs rsp)
  case Nil
  then show ?case by (simp add: fsm_txn_def)
next
  case (Cons op request)
  then obtain op' r fs1 rsp1 where "op = Some op'" "fsm_op env s i op' fs = (Ok r, fs1)" "fsm_txn env request s i fs1 = (Ok rsp1, fs')"
    by (auto simp: fsm_txn_def outcome_simps)
  from Cons.IH[OF this(3)] fsm_op_rotations[OF this(2)] this(1) show ?case by simp
qed

text \<open>C30. A transaction with several writes needs a memtable for each: all its writes carry the index of
  the one entry, and a memtable takes only writes of increasing index. So a transaction succeeds only
  when the memtable was replaced before each of its writes but the first, and with enough room left
  in the memtable a transaction of two writes panics.\<close>

theorem txn_writes_need_rotations:
  assumes "fsm_txn env request s i fs = (Ok rsp, fs')"
  shows "length (concat (map (op_write \<circ> the) request)) \<le> rotations fs' - rotations fs + 1"
  using fsm_txn_rotations[OF assms] by (simp split: if_splits)

section \<open>Examples\<close>

definition example_command :: command where
  "example_command = TxnCommand 9 12 [Some (PutRequest [107, 49] [5]), Some (GetRequest [107, 49] 0)]"

definition example_env :: "mem_object_store fsm_env" where
  "example_env =
     \<lparr>fe_objects = mem_object_store_ops, fe_decompress = stored_decompress, fe_crc32 = (\<lambda>_. 7), fe_fingerprint32 = (\<lambda>_. 1),
      fe_layout = example_layout_of_node, fe_height = (\<lambda>_ _. 2), fe_encode_index = (\<lambda>i. if i < 2 ^ 64 then Some (le_bytes 8 i) else None),
      fe_decode_index = (\<lambda>b. case get_u64_le b of Ok (i, _) \<Rightarrow> Some i | _ \<Rightarrow> None), fe_decode_command = (\<lambda>b. if b = [1] then Some example_command else None), fe_hash = id\<rparr>"

definition example_entry :: "nat \<Rightarrow> raft_entry" where
  "example_entry i = \<lparr>re_type = 0, re_term = 1, re_index = i, re_data = [1], re_context = []\<rparr>"

lemma example_env_ok: "env_ok example_env"
  using example_writes_ok(1) by (auto simp: env_ok_def example_env_def tower_max_height_def get_le_put[of 8 _ "[]", simplified] split: if_splits)

abbreviation example_fsm :: "mem_object_store lsm_tree \<Rightarrow> (u64, txn_response res) notify_pool \<Rightarrow> mem_object_store fsm" where
  "example_fsm lt np \<equiv> \<lparr>fs_raft_node = 1, fs_log = example_store, fs_tree = lt, fs_pool = np\<rparr>"

lemma example_progress: "load_index env key (example_fsm lt np) = Ok 0"
  by (simp add: load_index_def rg_get_state_def rg_get_def store_get_def mem_get_def with_state_def example_store_def new_mem_state_def)

theorem leader_never_catches_up_witness:
  "\<forall>lt. let (rs, fs') = apply_calls example_env [[example_entry 2], [example_entry 3]] (example_fsm lt (notify_pool_new 1)) in
     length rs = 2 \<and> Ok () \<notin> set rs \<and> fs_tree fs' = lt"
proof
  fix lt
  obtain rs fs' where c: "apply_calls example_env [[example_entry 2], [example_entry 3]] (example_fsm lt (notify_pool_new 1)) = (rs, fs')"
    by fastforce
  from leader_never_catches_up[OF example_progress _ c] c
  show "let (rs, fs') = apply_calls example_env [[example_entry 2], [example_entry 3]] (example_fsm lt (notify_pool_new 1)) in
     length rs = 2 \<and> Ok () \<notin> set rs \<and> fs_tree fs' = lt"
    by (simp add: example_entry_def)
qed

lemma example_log_ready: "log_ready stored_compress example_env (example_fsm lt np)"
  using example_store_run lz4_frames_stored by (auto simp: log_ready_def example_env_def example_store_def)

text \<open>One receiver waits for the request of the example.\<close>

lemma example_pool:
  "\<exists>np :: (u64, txn_response res) notify_pool. np_register id 9 (notify_pool_new 1) = Ok (0, np) \<and> np_ok id np \<and> np_pending id np = [9 \<mapsto> 0] \<and> np_alive 0 np"
proof -
  have new: "np_ok id (notify_pool_new 1)" "np_pending id (notify_pool_new 1) 9 = None" "np_pending id (notify_pool_new 1) = Map.empty"
    "np_channels (notify_pool_new 1) = []" for np :: "(u64, txn_response res) notify_pool"
    using np_new_ok[of 1 id] by (simp_all add: notify_pool_new_def)
  from np_register_ok[OF new(1,2)] show ?thesis unfolding new(3,4) by (auto dest: np_register_alive)
qed

lemma example_fit: "entries_fit (fe_decode_command example_env) [example_entry 1] union_versions"
  by (simp add: example_env_def example_entry_def example_command_def txn_fits_def union_versions_def)

text \<open>The write of the example fits into the memtable.\<close>

lemma example_txn:
  assumes hist: "fsm_history example_env fs union_versions"
    and wr: "lsm_write example_layout_of_node 2 [107, 49] (Some [5]) 12 1 (fs_tree fs) = Ok lt"
  shows "\<exists>fs'. fsm_txn example_env [Some (PutRequest [107, 49] [5]), Some (GetRequest [107, 49] 0)] 12 1 fs =
    (Ok [Some PutResponse, Some (GetResponse [5])], fs')"
proof -
  have put: "fsm_op example_env 12 1 (PutRequest [107, 49] [5]) fs = (Ok PutResponse, fs\<lparr>fs_tree := lt\<rparr>)"
    using wr by (simp add: fsm_put_def fsm_write_def example_env_def)
  have "fsm_history example_env (fs\<lparr>fs_tree := lt\<rparr>) (([107, 49], 12, Some [5]) # union_versions)"
    using lsm_history_write[OF hist example_writes_ok(1) _ _ wr] by (simp add: tower_max_height_def union_versions_def)
  from lsm_history_get[OF this, of "[107, 49]" 12] obtain lt' where
    "lsm_get mem_object_store_ops stored_decompress (\<lambda>_. 7) (\<lambda>_. 1) [107, 49] 12 lt = (Ok (Some [5]), lt')"
    unfolding read_at_Cons by (auto simp: example_env_def)
  then have "fsm_op example_env 12 1 (GetRequest [107, 49] 0) (fs\<lparr>fs_tree := lt\<rparr>) = (Ok (GetResponse [5]), fs\<lparr>fs_tree := lt'\<rparr>)"
    by (simp add: fsm_get_def example_env_def)
  then show ?thesis using put by (simp add: fsm_txn_def del: fsm_op.simps)
qed

text \<open>Before the entry of the example is applied.\<close>

lemma example_tree_at:
  "\<exists>mt st. lsm_history stored_decompress (\<lambda>_. 7) (\<lambda>_. 1) (example_tree mt st) union_versions \<and> tree_at 1024 (0, 0) (example_tree mt st)"
proof -
  obtain mt st where h: "memtable_new example_layout_of_node 1024 = Ok mt" "ar_cap (sl_arena (mt_inner mt)) = 1024" "memtable_mem_size mt = 160"
    "lsm_holds stored_decompress (\<lambda>_. 7) (\<lambda>_. 1) (example_tree mt st) [[], union_versions]" "layered [[], union_versions]"
    using example_tree_holds by blast
  have "mt_capacity mt = 1024" using h(1) by (auto simp: memtable_new_def outcome_simps)
  then have "tree_at 1024 (0, 0) (example_tree mt st)" using h(2,3) by (simp add: tree_at_def tree_sized_def)
  then show ?thesis using lsm_history_of_layers[OF h(4,5) union_versions_ok(1)] by auto
qed

lemma example_at:
  assumes "lsm_history stored_decompress (\<lambda>_. 7) (\<lambda>_. 1) lt union_versions" "tree_at 1024 (0, 0) lt" "np_ok id np"
  shows "fsm_at stored_compress example_env 1024 union_versions 0 (0, 0) (example_fsm lt np)"
  unfolding fsm_at_def using example_env_ok example_log_ready example_progress assms by (simp add: example_env_def)

lemma example_take: "entries_take example_env 1024 [example_entry 1] (0, 0) = Some (1, 12)"
  by (simp add: example_env_def example_entry_def example_command_def txn_takes_def write_sized_def node_bytes_def example_layout_of_node_def
      approximate_size_def tower_max_height_def)

lemma example_spec:
  "spec_entries (fe_decode_command example_env) [example_entry 1] union_versions =
     ([(9, [PutResponse, GetResponse [5]])], ([107, 49], 12, Some [5]) # union_versions)"
  by (simp add: example_env_def example_entry_def example_command_def read_at_Cons)

theorem fsm_apply_refines_witness:
  "\<exists>mt st np fs'. np_register id 9 (notify_pool_new 1) = Ok (0, np) \<and>
    fsm_apply example_env True [example_entry 1] (example_fsm (example_tree mt st) np) = (Ok (), fs') \<and>
    np_received 0 (fs_pool fs') = Some (Ok [Some PutResponse, Some (GetResponse [5])]) \<and>
    load_index example_env done_index_key fs' = Ok 1"
proof -
  obtain mt st where mt: "lsm_history stored_decompress (\<lambda>_. 7) (\<lambda>_. 1) (example_tree mt st) union_versions" "tree_at 1024 (0, 0) (example_tree mt st)"
    using example_tree_at by blast
  obtain np :: "(u64, txn_response res) notify_pool" where np: "np_register id 9 (notify_pool_new 1) = Ok (0, np)" "np_ok id np" "np_pending id np = [9 \<mapsto> 0]" "np_alive 0 np"
    using example_pool by blast
  let ?fs = "example_fsm (example_tree mt st) np"
  have "next_entries 0 [example_entry 1]" "fe_hash example_env = id" "re_index (example_entry 1) = 1"
    by (simp_all add: next_entries_def example_entry_def example_env_def)
  then obtain fs' where "fsm_apply example_env True [example_entry 1] ?fs = (Ok (), fs')"
    "answered id np [(9, [PutResponse, GetResponse [5]])] (fs_pool fs')" "load_index example_env done_index_key fs' = Ok 1"
    using fsm_apply_refines[OF example_at[OF mt np(2)] _ _ example_fit example_take, unfolded example_spec] by (auto simp: fsm_at_def)
  then show ?thesis using np by (auto simp: answered_def)
qed

theorem txn_writes_need_rotations_witness:
  "\<exists>mt st fs'. fsm_txn example_env [Some (PutRequest [107, 49] [5]), Some (GetRequest [107, 49] 0)] 12 1
      (example_fsm (example_tree mt st) (notify_pool_new 1)) = (Ok [Some PutResponse, Some (GetResponse [5])], fs') \<and>
    1 \<le> rotations fs' - rotations (example_fsm (example_tree mt st) (notify_pool_new 1)) + 1"
proof -
  obtain mt st lt' where mt: "lsm_history stored_decompress (\<lambda>_. 7) (\<lambda>_. 1) (example_tree mt st) union_versions"
    "lsm_write example_layout_of_node 2 [107, 49] (Some [5]) 12 1 (example_tree mt st) = Ok lt'" using example_tree_write by blast
  let ?fs = "example_fsm (example_tree mt st) (notify_pool_new 1)"
  have "fsm_history example_env ?fs union_versions" using mt(1) by (simp add: example_env_def)
  then obtain fs' where t: "fsm_txn example_env [Some (PutRequest [107, 49] [5]), Some (GetRequest [107, 49] 0)] 12 1 ?fs =
    (Ok [Some PutResponse, Some (GetResponse [5])], fs')" using example_txn[of ?fs lt'] mt(2) by auto
  show ?thesis using txn_writes_need_rotations[OF t] t by auto
qed

end
