(* ===== verification/Compaction.thy ===== *)
theory Compaction
  imports Calls LsmTree
begin

text \<open>
  \<open>exhauster/src/compaction_filter.rs\<close>, \<open>exhauster/src/partitioner.rs\<close> and \<open>exhauster/src/service.rs\<close>: a
  compaction merges tables, drops versions nobody reads any more and writes the rest to new tables.

  Every iterator reads through its own handle of the table store. The loop of the handler takes fuel,
  one unit per iteration: an iteration either closes the open builder or moves the merged iterator, so
  twice the number of entries is enough. Requests carry the false-positive rate of the filters as a real.
\<close>

section \<open>The filter and the partitioner\<close>

record compaction_filter =
  cf_last_key :: bytes
  cf_watermark :: u64
  cf_remove_tombstone :: bool

definition compaction_filter_new :: "u64 \<Rightarrow> bool \<Rightarrow> compaction_filter" where
  "compaction_filter_new watermark remove_tombstone =
     \<lparr>cf_last_key = [], cf_watermark = watermark, cf_remove_tombstone = remove_tombstone\<rparr>"

definition cf_filter :: "bytes \<Rightarrow> bytes option \<Rightarrow> u64 \<Rightarrow> compaction_filter \<Rightarrow> bool \<times> compaction_filter" where
  "cf_filter key v s cf = (\<not> (key = cf_last_key cf \<and> s < cf_watermark cf), cf\<lparr>cf_last_key := key\<rparr>)"

datatype partitioner =
    NoPartitioner
  | DefaultPartitioner "bytes list" nat

definition partitioner_new :: "bytes list \<Rightarrow> partitioner" where
  "partitioner_new points = (if points = [] then NoPartitioner else DefaultPartitioner (sort points) 0)"

fun partition_at :: "bytes \<Rightarrow> bytes option \<Rightarrow> u64 \<Rightarrow> partitioner \<Rightarrow> bool \<times> partitioner" where
  "partition_at key v s NoPartitioner = (False, NoPartitioner)"
| "partition_at key v s (DefaultPartitioner points offset) =
     (if offset \<ge> length points then (False, DefaultPartitioner points offset)
      else if key \<ge> points ! offset then (True, DefaultPartitioner points (offset + 1))
      else (False, DefaultPartitioner points offset))"

section \<open>Writing tables\<close>

record 'os table_env =
  te_objects :: "'os object_store_ops"
  te_compress :: "bytes \<Rightarrow> bytes"
  te_decompress :: "bytes \<Rightarrow> bytes option"
  te_crc32 :: "bytes \<Rightarrow> nat"
  te_fingerprint32 :: "bytes \<Rightarrow> u32"

record sstable_info =
  info_id :: nat
  info_data_size :: nat

definition upload_sst :: "'os table_env \<Rightarrow> nat \<Rightarrow> sstable_builder \<Rightarrow> ('os sstable_store, sstable_info) call" where
  "upload_sst env i builder st =
     (case sb_build (te_compress env) (te_crc32 env) builder of
        Ok (m, data) \<Rightarrow>
          let (r, st) = ss_put (te_objects env) (te_decompress env) (te_crc32 env) \<lparr>sst_id = i, sst_meta = m\<rparr> data Fill st
          in continue_with r (\<lambda>_. (Ok \<lparr>info_id = i, info_data_size = sm_data_size m\<rparr>, st)) st
      | Err e \<Rightarrow> (Err e, st)
      | Panic \<Rightarrow> (Panic, st)
      | OutOfFuel \<Rightarrow> (OutOfFuel, st))"

definition sstable_id :: "u64 \<Rightarrow> u64 \<Rightarrow> nat" where
  "sstable_id node_id sequential_id = unat (Bit_Operations.or (push_bit 32 node_id) sequential_id)"

section \<open>The exhauster\<close>

record 'os exhauster =
  ex_node_id :: u64
  ex_sstable_store :: "'os sstable_store"
  ex_sstable_sequential_id :: u64

definition exhauster_new :: "u64 \<Rightarrow> 'os sstable_store \<Rightarrow> u64 \<Rightarrow> 'os exhauster" where
  "exhauster_new node st i = \<lparr>ex_node_id = node, ex_sstable_store = st, ex_sstable_sequential_id = i\<rparr>"

definition ex_gen_sstable_id :: "('os exhauster, nat) call" where
  "ex_gen_sstable_id ex =
     (Ok (sstable_id (ex_node_id ex) (ex_sstable_sequential_id ex)),
      ex\<lparr>ex_sstable_sequential_id := ex_sstable_sequential_id ex + 1\<rparr>)"

definition ex_build_and_upload_sst :: "'os table_env \<Rightarrow> nat \<Rightarrow> sstable_builder \<Rightarrow> ('os exhauster, sstable_info) call" where
  "ex_build_and_upload_sst env i builder ex =
     (let (r, st) = upload_sst env i builder (ex_sstable_store ex) in (r, ex\<lparr>ex_sstable_store := st\<rparr>))"

record compaction_request =
  cr_sst_ids :: "nat list"
  cr_watermark :: u64
  cr_sstable_capacity :: nat
  cr_block_capacity :: nat
  cr_restart_interval :: nat
  cr_bloom_false_positive :: real
  cr_compression_algorithm :: u64
  cr_remove_tombstone :: bool
  cr_partition_points :: "bytes list"

record compaction_response =
  cp_old_sst_infos :: "sstable_info list"
  cp_new_sst_infos :: "sstable_info list"

text \<open>The variables of the loop.\<close>

record 'it compaction_job =
  cj_iter :: 'it
  cj_builder :: "sstable_builder option"
  cj_sst_id :: nat
  cj_filter :: compaction_filter
  cj_partitioner :: partitioner
  cj_new_sst_infos :: "sstable_info list"
  cj_last_user_key :: bytes

definition cj_open :: "sstable_builder_options \<Rightarrow> 'it compaction_job \<Rightarrow> ('os exhauster, 'it compaction_job) call" where
  "cj_open options cj =
     (case cj_builder cj of
        Some _ \<Rightarrow> cok cj
      | None \<Rightarrow>
          cbind ex_gen_sstable_id (\<lambda>i.
          cbind (cres (sstable_builder_new options)) (\<lambda>sb.
            cok (cj\<lparr>cj_sst_id := i, cj_builder := Some sb\<rparr>))))"

text \<open>Whether the open table is full: the partitioner is asked only when the capacity is not reached.\<close>

definition cj_cut ::
  "sstable_builder_options \<Rightarrow> bytes \<Rightarrow> bytes option \<Rightarrow> u64 \<Rightarrow> sstable_builder \<Rightarrow> 'it compaction_job \<Rightarrow> bool \<times> 'it compaction_job" where
  "cj_cut options uk v ts sb cj =
     (if sb_is_empty sb \<or> uk = cj_last_user_key cj then (False, cj)
      else if sb_approximate_len sb \<ge> sbo_capacity options then (True, cj)
      else let (p, pt) = partition_at uk v ts (cj_partitioner cj) in (p, cj\<lparr>cj_partitioner := pt\<rparr>))"

definition cj_close :: "'os table_env \<Rightarrow> sstable_builder \<Rightarrow> 'it compaction_job \<Rightarrow> ('os exhauster, 'it compaction_job) call" where
  "cj_close env sb cj =
     cbind (ex_build_and_upload_sst env (cj_sst_id cj) sb) (\<lambda>info.
       cok (cj\<lparr>cj_builder := None, cj_new_sst_infos := cj_new_sst_infos cj @ [info]\<rparr>))"

definition cj_take ::
  "'os table_env \<Rightarrow> 'it iterator_ops \<Rightarrow> bytes \<Rightarrow> bytes option \<Rightarrow> u64 \<Rightarrow> sstable_builder \<Rightarrow> 'it compaction_job \<Rightarrow>
     'it compaction_job res" where
  "cj_take env ops uk v ts sb cj =
     (let (retain, cf) = cf_filter uk v ts (cj_filter cj); cj = cj\<lparr>cj_filter := cf\<rparr> in
      rbind (if retain then
               rbind (sb_add (te_compress env) (te_crc32 env) (te_fingerprint32 env) uk ts v sb) (\<lambda>sb.
                 Ok (cj\<lparr>cj_builder := Some sb, cj_last_user_key := uk\<rparr>))
             else Ok cj) (\<lambda>cj.
      rbind (it_next ops (cj_iter cj)) (\<lambda>it. Ok (cj\<lparr>cj_iter := it\<rparr>))))"

definition cj_step ::
  "'os table_env \<Rightarrow> 'it iterator_ops \<Rightarrow> sstable_builder_options \<Rightarrow> 'it compaction_job \<Rightarrow> ('os exhauster, 'it compaction_job) call" where
  "cj_step env ops options cj =
     cbind (cres (it_key ops (cj_iter cj))) (\<lambda>k.
     cbind (cres (user_key k)) (\<lambda>uk.
     cbind (cres (sequence k)) (\<lambda>ts.
     cbind (cres (it_value ops (cj_iter cj))) (\<lambda>raw.
     cbind (cres (raw_to_value raw)) (\<lambda>v.
     cbind (cj_open options cj) (\<lambda>cj.
     cbind (cres (unwrap (cj_builder cj))) (\<lambda>sb.
       let (full, cj) = cj_cut options uk v ts sb cj
       in if full then cj_close env sb cj else cres (cj_take env ops uk v ts sb cj))))))))"

fun cj_loop ::
  "'os table_env \<Rightarrow> 'it iterator_ops \<Rightarrow> sstable_builder_options \<Rightarrow> nat \<Rightarrow> 'it compaction_job \<Rightarrow> ('os exhauster, 'it compaction_job) call" where
  "cj_loop env ops options 0 cj = cres OutOfFuel"
| "cj_loop env ops options (Suc fuel) cj =
     cbind (cres (it_is_valid ops (cj_iter cj))) (\<lambda>valid.
     if valid then cbind (cj_step env ops options cj) (\<lambda>cj. cj_loop env ops options fuel cj)
     else cok cj)"

definition cj_finish :: "'os table_env \<Rightarrow> 'it compaction_job \<Rightarrow> ('os exhauster, 'it compaction_job) call" where
  "cj_finish env cj = (case cj_builder cj of None \<Rightarrow> cok cj | Some sb \<Rightarrow> cj_close env sb cj)"

text \<open>Opening the tables of a request.\<close>

definition ex_open_sst :: "'os table_env \<Rightarrow> nat \<Rightarrow> ('os exhauster, sstable_info \<times> 'os sstable_iterator) call" where
  "ex_open_sst env i ex =
     (case ss_sstable (te_objects env) i (ex_sstable_store ex) of
        Ok (sst, st) \<Rightarrow>
          (Ok (\<lparr>info_id = i, info_data_size = sst_data_size sst\<rparr>, si_new st sst Fill), ex\<lparr>ex_sstable_store := st\<rparr>)
      | Err e \<Rightarrow> (Err e, ex)
      | Panic \<Rightarrow> (Panic, ex)
      | OutOfFuel \<Rightarrow> (OutOfFuel, ex))"

definition table_merge_ops :: "'os table_env \<Rightarrow> 'os sstable_iterator merge_iterator iterator_ops" where
  "table_merge_ops env = merge_iterator_ops (sstable_iterator_ops (te_objects env) (te_decompress env) (te_crc32 env))"

definition cr_options :: "compaction_request \<Rightarrow> sstable_builder_options res" where
  "cr_options req =
     rbind (compression_try_from (ucast (cr_compression_algorithm req))) (\<lambda>ca.
       Ok \<lparr>sbo_capacity = cr_sstable_capacity req, sbo_block_capacity = cr_block_capacity req,
           sbo_restart_interval = cr_restart_interval req, sbo_bloom_false_positive = cr_bloom_false_positive req,
           sbo_compression_algorithm = ca\<rparr>)"

definition cj_new :: "compaction_request \<Rightarrow> 'it \<Rightarrow> 'it compaction_job" where
  "cj_new req it =
     \<lparr>cj_iter = it, cj_builder = None, cj_sst_id = 0,
      cj_filter = compaction_filter_new (cr_watermark req) (cr_remove_tombstone req),
      cj_partitioner = partitioner_new (cr_partition_points req), cj_new_sst_infos = [], cj_last_user_key = []\<rparr>"

definition compaction :: "'os table_env \<Rightarrow> nat \<Rightarrow> compaction_request \<Rightarrow> ('os exhauster, compaction_response) call" where
  "compaction env fuel req =
     cbind (cmap (ex_open_sst env) (cr_sst_ids req)) (\<lambda>ssts.
     cbind (cres (cr_options req)) (\<lambda>options.
     cbind (cres (it_seek (table_merge_ops env) First (mi_new (map snd ssts)))) (\<lambda>(_, it).
     cbind (cj_loop env (table_merge_ops env) options fuel (cj_new req it)) (\<lambda>cj.
     cbind (cj_finish env cj) (\<lambda>cj.
       cok \<lparr>cp_old_sst_infos = map fst ssts, cp_new_sst_infos = cj_new_sst_infos cj\<rparr>)))))"

section \<open>What the filter keeps\<close>

definition last_key :: "bytes \<Rightarrow> version_entry list \<Rightarrow> bytes" where
  "last_key k xs = (if xs = [] then k else fst (last xs))"

text \<open>The versions that pass the filter when it has seen the key \<open>k\<close> last.\<close>

fun kept_after :: "u64 \<Rightarrow> bytes \<Rightarrow> version_entry list \<Rightarrow> version_entry list" where
  "kept_after w k [] = []"
| "kept_after w k (x # xs) = (if fst x = k \<and> fst (snd x) < w then [] else [x]) @ kept_after w (fst x) xs"

text \<open>The newest version of every key, and the versions from the watermark on.\<close>

definition newest_of :: "version_entry list \<Rightarrow> version_entry \<Rightarrow> bool" where
  "newest_of xs x \<longleftrightarrow> (\<forall>y \<in> set xs. fst y = fst x \<longrightarrow> fst (snd y) \<le> fst (snd x))"

definition kept :: "u64 \<Rightarrow> version_entry list \<Rightarrow> version_entry list" where
  "kept w xs = filter (\<lambda>x. w \<le> fst (snd x) \<or> newest_of xs x) xs"

lemma kept_after_snoc:
  "kept_after w k (xs @ [x]) = kept_after w k xs @ (if fst x = last_key k xs \<and> fst (snd x) < w then [] else [x])"
  by (induction xs arbitrary: k) (auto simp: last_key_def)

lemma kept_after_sub: "set (kept_after w k xs) \<subseteq> set xs"
  by (induction xs arbitrary: k) auto

lemma versions_sorted_head:
  "versions_sorted (x # xs) \<longleftrightarrow> versions_sorted xs \<and> (\<forall>y \<in> set xs. fst x < fst y \<or> fst x = fst y \<and> fst (snd y) < fst (snd x))"
  using versions_sorted_Cons[of "fst x" "fst (snd x)" "snd (snd x)" xs] by (simp add: split_beta)

lemma kept_after_filter:
  assumes "versions_sorted xs" "\<forall>x \<in> set xs. k \<le> fst x"
  shows "kept_after w k xs = filter (\<lambda>x. w \<le> fst (snd x) \<or> fst x \<noteq> k \<and> newest_of xs x) xs"
  using assms
proof (induction xs arbitrary: k)
  case (Cons x xs)
  have s: "versions_sorted xs" "\<forall>y \<in> set xs. fst x < fst y \<or> fst x = fst y \<and> fst (snd y) < fst (snd x)"
    using Cons.prems(1) versions_sorted_head by blast+
  then have IH: "kept_after w (fst x) xs = filter (\<lambda>y. w \<le> fst (snd y) \<or> fst y \<noteq> fst x \<and> newest_of xs y) xs"
    by (intro Cons.IH) (auto simp: le_less)
  have "fst (snd y) \<le> fst (snd x)" if "y \<in> set xs" "fst y = fst x" for y using bspec[OF s(2) that(1)] that(2) by auto
  then have "newest_of (x # xs) x" by (simp add: newest_of_def)
  moreover have "fst y \<noteq> fst x \<and> newest_of xs y \<longleftrightarrow> fst y \<noteq> k \<and> newest_of (x # xs) y" if y: "y \<in> set xs" for y
    using bspec[OF s(2) y]
  proof
    assume less: "fst x < fst y"
    then have "fst y \<noteq> fst x" "fst y \<noteq> k" using bspec[OF Cons.prems(2), of x] by auto
    then show ?thesis by (simp add: newest_of_def)
  next
    assume "fst x = fst y \<and> fst (snd y) < fst (snd x)"
    then show ?thesis by (auto simp: newest_of_def)
  qed
  then have "filter (\<lambda>y. w \<le> fst (snd y) \<or> fst y \<noteq> fst x \<and> newest_of xs y) xs =
      filter (\<lambda>y. w \<le> fst (snd y) \<or> fst y \<noteq> k \<and> newest_of (x # xs) y) xs" by (intro filter_cong) auto
  ultimately show ?case using IH by (auto simp: not_less)
qed simp

lemma kept_after_kept:
  assumes "versions_sorted xs" "\<forall>x \<in> set xs. fst x \<noteq> []"
  shows "kept_after w [] xs = kept w xs"
proof -
  have "filter (\<lambda>x. w \<le> fst (snd x) \<or> fst x \<noteq> [] \<and> newest_of xs x) xs = kept w xs"
    unfolding kept_def by (rule filter_cong) (use assms(2) in auto)
  then show ?thesis using kept_after_filter[OF assms(1), of "[]" w] by simp
qed

lemma kept_sorted: "versions_sorted xs \<Longrightarrow> versions_sorted (kept w xs)"
  unfolding kept_def by (rule versions_sorted_filter)

lemma kept_sub: "set (kept w xs) \<subseteq> set xs"
  by (auto simp: kept_def)

text \<open>The version a read returns.\<close>

lemma read_at_find:
  assumes "versions_sorted xs"
  shows "find (visible s k) xs = Some x \<longleftrightarrow> x \<in> set xs \<and> visible s k x \<and> (\<forall>y \<in> set xs. visible s k y \<longrightarrow> fst (snd y) \<le> fst (snd x))"
  using assms
proof (induction xs)
  case (Cons z xs)
  have s: "versions_sorted xs" "\<forall>y \<in> set xs. fst z < fst y \<or> fst z = fst y \<and> fst (snd y) < fst (snd z)"
    using Cons.prems versions_sorted_head by blast+
  show ?case
  proof (cases "visible s k z")
    case True
    have older: "fst (snd y) < fst (snd z)" if "y \<in> set xs" "visible s k y" for y
      using bspec[OF s(2) that(1)] that(2) True by (auto simp: visible_def)
    have "x = z" if "x \<in> set (z # xs)" "visible s k x" "fst (snd z) \<le> fst (snd x)" using older[of x] that by auto
    moreover have "fst (snd y) \<le> fst (snd z)" if "y \<in> set (z # xs)" "visible s k y" for y using older[of y] that by auto
    ultimately show ?thesis using True by (metis find.simps(2) list.set_intros(1) option.inject)
  qed (use Cons.IH[OF s(1)] in auto)
qed simp

lemma compacted_read:
  assumes "versions_sorted xs"
  shows "read_at s k (kept w xs) = (case find (visible s k) xs of None \<Rightarrow> None
    | Some x \<Rightarrow> if w \<le> fst (snd x) \<or> newest_of xs x then Some (snd (snd x)) else None)"
proof (cases "find (visible s k) xs")
  case None
  have "\<not> (\<exists>x. x \<in> set xs \<and> visible s k x)" by (rule iffD1[OF find_None_iff None])
  then have "read_at s k (kept w xs) = None" using kept_sub[of w xs] unfolding read_at_None by blast
  then show ?thesis using None by simp
next
  case (Some x)
  then have x: "x \<in> set xs" "visible s k x" "\<forall>y \<in> set xs. visible s k y \<longrightarrow> fst (snd y) \<le> fst (snd x)"
    using read_at_find[OF assms] by blast+
  show ?thesis
  proof (cases "w \<le> fst (snd x) \<or> newest_of xs x")
    case True
    then have "x \<in> set (kept w xs)" using x(1) by (simp add: kept_def)
    then have "find (visible s k) (kept w xs) = Some x" using read_at_find[OF kept_sorted[OF assms]] x kept_sub by blast
    then show ?thesis using True Some by (simp add: read_at_def)
  next
    case False
    have "\<not> visible s k y" if "y \<in> set (kept w xs)" for y
    proof
      assume y: "visible s k y"
      have "y \<in> set xs" and or: "w \<le> fst (snd y) \<or> newest_of xs y" using that by (auto simp: kept_def)
      then have le: "fst (snd y) \<le> fst (snd x)" using x(3) y by blast
      have "newest_of xs y" using or le False by auto
      then have "fst (snd x) \<le> fst (snd y)" using x(1,2) y by (auto simp: newest_of_def visible_def)
      then have "newest_of xs x" using \<open>newest_of xs y\<close> le x(2) y by (simp add: newest_of_def visible_def)
      then show False using False by simp
    qed
    then show ?thesis using False Some by (simp add: read_at_None)
  qed
qed

section \<open>The loop\<close>

text \<open>A table that was written: its identifier, its versions, its blocks and its metadata.\<close>

type_synonym written_table = "nat \<times> version_entry list \<times> kvs list \<times> sstable_meta"

abbreviation wt_versions :: "written_table \<Rightarrow> version_entry list" where
  "wt_versions t \<equiv> fst (snd t)"

abbreviation wt_table :: "sstable_builder_options \<Rightarrow> written_table \<Rightarrow> table" where
  "wt_table o1 t \<equiv> (sbo_restart_interval o1, fst (snd (snd t)), snd (snd (snd t)))"

abbreviation wt_info :: "written_table \<Rightarrow> sstable_info" where
  "wt_info t \<equiv> \<lparr>info_id = fst t, info_data_size = sm_data_size (snd (snd (snd t)))\<rparr>"

definition table_written :: "mem_object_store table_env \<Rightarrow> sstable_builder_options \<Rightarrow> written_table \<Rightarrow> bool" where
  "table_written env o1 t \<longleftrightarrow> (case t of (i, xs, bss, m) \<Rightarrow>
     xs \<noteq> [] \<and> bss \<noteq> [] \<and> concat bss = map entry_of xs \<and>
     (\<exists>data. table_holds (te_decompress env) (te_crc32 env) (sbo_restart_interval o1) bss m data \<and> sm_data_size m = length data) \<and>
     (0 < sbo_bloom_false_positive o1 \<longrightarrow>
      length xs * bloom_bits_per_key (length xs) (sbo_bloom_false_positive o1) + 64 < 2 ^ 32 \<longrightarrow>
      filter_covers (te_fingerprint32 env) m xs \<and> length (sm_bloom_filter_bytes m) < 2 ^ 32))"

definition table_env_ok :: "mem_object_store table_env \<Rightarrow> bool" where
  "table_env_ok env \<longleftrightarrow> te_objects env = mem_object_store_ops \<and> lz4_frames (te_compress env) (te_decompress env) \<and>
     (\<forall>x. te_crc32 env x < 2 ^ 32)"

definition versions_fit :: "version_entry list \<Rightarrow> bool" where
  "versions_fit xs \<longleftrightarrow> versions_sorted xs \<and> length xs < 2 ^ 63 \<and> (\<forall>x \<in> set xs. fst x \<noteq> [] \<and> entry_fits (entry_of x))"

definition env_sb_inv :: "mem_object_store table_env \<Rightarrow> sstable_builder_options \<Rightarrow> version_entry list \<Rightarrow> sstable_builder \<Rightarrow> bool" where
  "env_sb_inv env o1 xs sb \<longleftrightarrow> (\<exists>bss cur. sb_inv (te_decompress env) (te_crc32 env) (te_fingerprint32 env) o1 bss cur xs sb)"

abbreviation env_ss_inv :: "mem_object_store table_env \<Rightarrow> (nat \<rightharpoonup> table) \<Rightarrow> mem_object_store sstable_store \<Rightarrow> bool" where
  "env_ss_inv env \<equiv> ss_inv mo_objects (te_decompress env) (te_crc32 env)"

lemma length_blocks_le:
  assumes "\<forall>i < length bss. bss ! i \<noteq> []"
  shows "length bss \<le> length (concat bss)"
proof -
  have "\<forall>b \<in> set bss. b \<noteq> []" using assms by (metis in_set_conv_nth)
  then show ?thesis
  proof (induction bss)
    case (Cons b bss)
    then show ?case by (cases b) auto
  qed simp
qed

lemma mem_put_fill:
  assumes "table_holds decompress crc32 r bss m data" "i < 2 ^ 64" "length bss < 2 ^ 64"
  shows "\<exists>st'. ss_put mem_object_store_ops decompress crc32 \<lparr>sst_id = i, sst_meta = m\<rparr> data Fill st = (Ok (), st')"
proof -
  have h: "length (sm_block_metas m) = length bss" "\<forall>k < length (sm_block_metas m). \<exists>buf.
      slice (fst (data_range (sm_block_metas m ! k))) (snd (data_range (sm_block_metas m ! k))) data = Ok buf \<and>
      block_decode decompress crc32 buf = Ok (block_image r (bss ! k))"
    using assms(1) by (auto simp: table_holds_def)
  have "\<exists>cache'. fill_blocks decompress crc32 i data 0 (sm_block_metas m) cache = (Ok (), cache')" for cache
    using fill_blocks_table[OF h(2,1) _ assms(2), of 0 cache] assms(3) by auto
  then obtain f where "fill_blocks decompress crc32 i data 0 (sm_block_metas m) cache = (Ok (), f cache)" for cache by metis
  then show ?thesis by (simp add: ss_put_def mem_object_store_ops_def mem_os_put_def)
qed

lemma upload_sst_ok:
  assumes env: "table_env_ok env" and o1: "options_ok o1" and sb: "env_sb_inv env o1 xs sb" and xs: "versions_fit xs" "xs \<noteq> []" and i: "i < 2 ^ 64"
  shows "\<exists>t st'. upload_sst env i sb st = (Ok (wt_info t), st') \<and> fst t = i \<and> wt_versions t = xs \<and> table_written env o1 t \<and>
    (\<forall>tabs. env_ss_inv env tabs st \<longrightarrow> tabs i = None \<longrightarrow> meta_fits (snd (snd (snd t))) \<longrightarrow> env_ss_inv env (tabs(i \<mapsto> wt_table o1 t)) st')"
proof -
  have e: "te_objects env = mem_object_store_ops" "lz4_frames (te_compress env) (te_decompress env)" "\<forall>x. te_crc32 env x < 2 ^ 32"
    using env by (auto simp: table_env_ok_def)
  have x: "key_sorted (map entry_of xs)" "\<forall>e \<in> set (map entry_of xs). entry_fits e" using xs(1) by (auto simp: versions_fit_def)
  obtain bs0 cur where "sb_inv (te_decompress env) (te_crc32 env) (te_fingerprint32 env) o1 bs0 cur xs sb" using sb by (auto simp: env_sb_inv_def)
  from sb_build_holds[OF this o1 x e(2,3)] obtain bss m data where
    b: "sb_build (te_compress env) (te_crc32 env) sb = Ok (m, data)" "concat bss = map entry_of xs"
      "table_holds (te_decompress env) (te_crc32 env) (sbo_restart_interval o1) bss m data" "sm_data_size m = length data"
      "0 < sbo_bloom_false_positive o1 \<longrightarrow> build_from_key_hashes (map (te_fingerprint32 env \<circ> fst) xs)
        (bloom_bits_per_key (length xs) (sbo_bloom_false_positive o1)) = Ok (sm_bloom_filter_bytes m)" by blast
  have "length bss \<le> length xs" using length_blocks_le[of bss] b(2,3) by (simp add: table_holds_def)
  then have "length bss < 2 ^ 64" using xs(1) by (simp add: versions_fit_def)
  then obtain st' where put: "ss_put mem_object_store_ops (te_decompress env) (te_crc32 env) \<lparr>sst_id = i, sst_meta = m\<rparr> data Fill st = (Ok (), st')"
    using mem_put_fill[OF b(3) i] by blast
  have "env_ss_inv env (tabs(i \<mapsto> (sbo_restart_interval o1, bss, m))) st'" if "env_ss_inv env tabs st" "tabs i = None" "meta_fits m" for tabs
    by (rule mem_os.put_inv[OF that(1,2) i that(3) b(3) put])
  moreover have "bss \<noteq> []" using b(2) xs(2) by auto
  then have "table_written env o1 (i, xs, bss, m)"
    using b xs(2) built_filter_covers build_from_key_hashes_length[of _ _ "sm_bloom_filter_bytes m"] by (fastforce simp: table_written_def)
  ultimately show ?thesis using b(1) put e(1)
    by (intro exI[of _ "(i, xs, bss, m)"] exI[of _ st']) (auto simp: upload_sst_def)
qed

text \<open>The metadata of a written table fits its encoding when the table and its filter are below 4 GiB.\<close>

definition filter_small :: "sstable_builder_options \<Rightarrow> nat \<Rightarrow> bool" where
  "filter_small o1 n \<longleftrightarrow> 0 < sbo_bloom_false_positive o1 \<and> n * bloom_bits_per_key n (sbo_bloom_false_positive o1) + 64 < 2 ^ 32 \<and> n < 2 ^ 32"

lemma written_meta_fits:
  assumes t: "table_written env o1 t" "versions_fit (wt_versions t)" "filter_small o1 (length (wt_versions t))"
    and size: "info_data_size (wt_info t) < 2 ^ 32"
  shows "meta_fits (snd (snd (snd t)))"
proof -
  obtain i xs bss m where [simp]: "t = (i, xs, bss, m)" by (cases t) auto
  obtain data where d: "table_holds (te_decompress env) (te_crc32 env) (sbo_restart_interval o1) bss m data" "sm_data_size m = length data"
    "concat bss = map entry_of xs" "length (sm_bloom_filter_bytes m) < 2 ^ 32"
    using t(1,3) by (auto simp: table_written_def filter_small_def)
  have "length bss \<le> length (concat bss)" using d(1) by (intro length_blocks_le) (auto simp: table_holds_def)
  then have "length (sm_block_metas m) < 2 ^ 32" using d(1,3) t(3) by (simp add: table_holds_def filter_small_def)
  moreover have "block_meta_fits (sm_block_metas m ! j)" if j: "j < length bss" for j
  proof -
    have h: "bss ! j \<noteq> []" "bm_first_key (sm_block_metas m ! j) = fst (hd (bss ! j))" "bm_last_key (sm_block_metas m ! j) = fst (last (bss ! j))"
      "bm_offset (sm_block_metas m ! j) + bm_len (sm_block_metas m ! j) \<le> length data"
      using d(1) j by (auto simp: table_holds_def data_range_def outcome_simps)
    have "entry_fits e" if "e \<in> set (bss ! j)" for e
    proof -
      have "e \<in> set (concat bss)" using that nth_mem[OF j] by auto
      then show ?thesis using t(2) unfolding d(3) by (auto simp: versions_fit_def)
    qed
    then have "length (fst (hd (bss ! j))) < 2 ^ 28" "length (fst (last (bss ! j))) < 2 ^ 28"
      using hd_in_set[OF h(1)] last_in_set[OF h(1)] by (auto simp: entry_fits_def)
    then show ?thesis using h size d(2) by (simp add: block_meta_fits_def)
  qed
  ultimately show ?thesis using d size by (auto simp: meta_fits_def table_holds_def in_set_conv_nth)
qed

text \<open>After the versions \<open>ps\<close> the tables \<open>ts\<close> are written and \<open>cur\<close> is in the open builder; \<open>rest\<close> is still to come.\<close>

definition tables_split :: "version_entry list \<Rightarrow> written_table list \<Rightarrow> bool" where
  "tables_split rest ts \<longleftrightarrow>
     sorted_wrt (\<lambda>t t'. \<forall>x \<in> set (wt_versions t). \<forall>y \<in> set (wt_versions t'). fst x < fst y) ts \<and>
     (\<forall>t \<in> set ts. \<forall>x \<in> set (wt_versions t). \<forall>y \<in> set rest. fst x < fst y)"

definition nth_id :: "'os exhauster \<Rightarrow> nat \<Rightarrow> nat" where
  "nth_id ex j = sstable_id (ex_node_id ex) (ex_sstable_sequential_id ex + of_nat j)"

fun add_tables :: "sstable_builder_options \<Rightarrow> written_table list \<Rightarrow> (nat \<rightharpoonup> table) \<Rightarrow> nat \<rightharpoonup> table" where
  "add_tables o1 [] tabs = tabs"
| "add_tables o1 (t # ts) tabs = add_tables o1 ts (tabs(fst t \<mapsto> wt_table o1 t))"

definition tables_stored ::
  "mem_object_store table_env \<Rightarrow> sstable_builder_options \<Rightarrow> mem_object_store sstable_store \<Rightarrow> written_table list \<Rightarrow>
     mem_object_store sstable_store \<Rightarrow> bool" where
  "tables_stored env o1 st ts st' \<longleftrightarrow>
     (\<forall>tabs. env_ss_inv env tabs st \<longrightarrow> distinct (map fst ts) \<longrightarrow> (\<forall>t \<in> set ts. tabs (fst t) = None \<and> meta_fits (snd (snd (snd t)))) \<longrightarrow>
        env_ss_inv env (add_tables o1 ts tabs) st')"

definition job_core ::
  "mem_object_store table_env \<Rightarrow> sstable_builder_options \<Rightarrow> u64 \<Rightarrow> mem_object_store exhauster \<Rightarrow> version_entry list \<Rightarrow> version_entry list \<Rightarrow>
     written_table list \<Rightarrow> version_entry list \<Rightarrow> 'it compaction_job \<Rightarrow> mem_object_store exhauster \<Rightarrow> bool" where
  "job_core env o1 w ex0 ps rest ts cur cj ex \<longleftrightarrow>
     versions_fit (ps @ rest) \<and> cf_watermark (cj_filter cj) = w \<and>
     cf_last_key (cj_filter cj) = last_key [] ps \<and> cj_last_user_key cj = last_key [] ps \<and>
     concat (map wt_versions ts) @ cur = kept_after w [] ps \<and> tables_split (cur @ rest) ts \<and>
     (\<forall>t \<in> set ts. table_written env o1 t) \<and> map fst ts = map (nth_id ex0) [0..<length ts] \<and> cj_new_sst_infos cj = map wt_info ts \<and>
     ex_node_id ex = ex_node_id ex0 \<and> tables_stored env o1 (ex_sstable_store ex0) ts (ex_sstable_store ex)"

fun builder_inv ::
  "mem_object_store table_env \<Rightarrow> sstable_builder_options \<Rightarrow> mem_object_store exhauster \<Rightarrow> version_entry list \<Rightarrow> version_entry list \<Rightarrow>
     nat \<Rightarrow> version_entry list \<Rightarrow> nat \<Rightarrow> mem_object_store exhauster \<Rightarrow> sstable_builder option \<Rightarrow> bool" where
  "builder_inv env o1 ex0 ps rest n cur i ex None \<longleftrightarrow>
     cur = [] \<and> ex_sstable_sequential_id ex = ex_sstable_sequential_id ex0 + of_nat n \<and>
     (ps \<noteq> [] \<longrightarrow> rest \<noteq> [] \<and> fst (hd rest) \<noteq> last_key [] ps)"
| "builder_inv env o1 ex0 ps rest n cur i ex (Some sb) \<longleftrightarrow>
     cur \<noteq> [] \<and> env_sb_inv env o1 cur sb \<and> i = nth_id ex0 n \<and>
     ex_sstable_sequential_id ex = ex_sstable_sequential_id ex0 + of_nat n + 1"

definition job_inv ::
  "mem_object_store table_env \<Rightarrow> sstable_builder_options \<Rightarrow> u64 \<Rightarrow> mem_object_store exhauster \<Rightarrow> version_entry list \<Rightarrow> version_entry list \<Rightarrow>
     written_table list \<Rightarrow> version_entry list \<Rightarrow> 'it compaction_job \<Rightarrow> mem_object_store exhauster \<Rightarrow> bool" where
  "job_inv env o1 w ex0 ps rest ts cur cj ex \<longleftrightarrow> job_core env o1 w ex0 ps rest ts cur cj ex \<and>
     builder_inv env o1 ex0 ps rest (length ts) cur (cj_sst_id cj) ex (cj_builder cj)"

lemma add_tables_snoc: "add_tables o1 (ts @ [t]) tabs = (add_tables o1 ts tabs)(fst t \<mapsto> wt_table o1 t)"
  by (induction ts arbitrary: tabs) auto

lemma add_tables_other: "i \<notin> fst ` set ts \<Longrightarrow> add_tables o1 ts tabs i = tabs i"
  by (induction ts arbitrary: tabs) auto

lemma tables_stored_snoc:
  assumes "tables_stored env o1 st ts st1"
    and "\<forall>tabs. env_ss_inv env tabs st1 \<longrightarrow> tabs (fst t) = None \<longrightarrow> meta_fits (snd (snd (snd t))) \<longrightarrow> env_ss_inv env (tabs(fst t \<mapsto> wt_table o1 t)) st2"
  shows "tables_stored env o1 st (ts @ [t]) st2"
  unfolding tables_stored_def
proof (intro allI impI)
  fix tabs assume a: "env_ss_inv env tabs st" "distinct (map fst (ts @ [t]))" "\<forall>t \<in> set (ts @ [t]). tabs (fst t) = None \<and> meta_fits (snd (snd (snd t)))"
  have "env_ss_inv env (add_tables o1 ts tabs) st1" using assms(1) a by (simp add: tables_stored_def)
  moreover have "add_tables o1 ts tabs (fst t) = None" using add_tables_other[of "fst t" ts o1 tabs] a(2,3) by auto
  ultimately show "env_ss_inv env (add_tables o1 (ts @ [t]) tabs) st2" using assms(2) a(3) by (simp add: add_tables_snoc)
qed

lemma nth_id_less: "nth_id ex j < 2 ^ 64"
  unfolding nth_id_def sstable_id_def using unsigned_less[where 'a = nat and 'b = 64] by simp

lemma versions_sorted_append:
  "versions_sorted (xs @ ys) \<longleftrightarrow> versions_sorted xs \<and> versions_sorted ys \<and>
    (\<forall>x \<in> set xs. \<forall>y \<in> set ys. fst x < fst y \<or> fst x = fst y \<and> fst (snd y) < fst (snd x))"
proof (induction xs)
  case (Cons x xs)
  then show ?case unfolding append_Cons versions_sorted_head by auto
qed (simp add: key_sorted_def)

text \<open>Where a new user key begins, everything before is smaller.\<close>

lemma new_key_separates:
  assumes "versions_sorted (ps @ x # rest)" "fst x \<noteq> last_key [] ps" "a \<in> set ps" "b \<in> set (x # rest)"
  shows "fst a < fst b"
proof -
  have ne: "ps \<noteq> []" using assms(3) by auto
  have "versions_sorted ps" using assms(1) versions_sorted_append by blast
  then have a: "fst a \<le> fst (last ps)" using versions_between[of ps a] assms(3) by blast
  have "fst (last ps) < fst x \<or> fst (last ps) = fst x \<and> fst (snd x) < fst (snd (last ps))"
    using assms(1) last_in_set[OF ne] unfolding versions_sorted_append by (meson list.set_intros(1))
  then have l: "fst (last ps) < fst x" using assms(2) ne by (auto simp: last_key_def)
  have "versions_sorted (x # rest)" using assms(1) versions_sorted_append by blast
  then have "fst x \<le> fst b" using versions_between[of "x # rest" b] assms(4) by simp
  then show ?thesis using a l by order
qed

lemma versions_fit_append: "versions_fit (xs @ ys) \<Longrightarrow> versions_fit xs \<and> versions_fit ys"
  unfolding versions_fit_def versions_sorted_append by auto

lemma versions_fit_filter: "versions_fit xs \<Longrightarrow> versions_fit (filter P xs)"
  unfolding versions_fit_def using versions_sorted_filter[of xs P] le_less_trans[OF length_filter_le[of P xs]] by auto

lemma kept_fit: "versions_fit xs \<Longrightarrow> versions_fit (kept_after w [] xs)"
  using kept_after_kept[of xs w] versions_fit_filter unfolding kept_def by (auto simp: versions_fit_def)

lemma tables_split_close:
  assumes "tables_split (cur @ rest) ts" "\<forall>a \<in> set cur. \<forall>b \<in> set rest. fst a < fst b" "wt_versions t = cur"
  shows "tables_split rest (ts @ [t])"
  using assms by (auto simp: tables_split_def sorted_wrt_append)

lemma close_ok:
  assumes env: "table_env_ok env" "options_ok o1" and core: "job_core env o1 w ex0 ps rest ts cur cj ex"
    and sb: "cur \<noteq> []" "env_sb_inv env o1 cur sb" "cj_sst_id cj = nth_id ex0 (length ts)" and apart: "\<forall>a \<in> set ps. \<forall>b \<in> set rest. fst a < fst b"
  shows "\<exists>t cj' ex'. cj_close env sb cj ex = (Ok cj', ex') \<and> job_core env o1 w ex0 ps rest (ts @ [t]) [] cj' ex' \<and>
    cj_builder cj' = None \<and> cj_iter cj' = cj_iter cj \<and> ex_sstable_sequential_id ex' = ex_sstable_sequential_id ex"
proof -
  note c = core[unfolded job_core_def]
  have kept: "concat (map wt_versions ts) @ cur = kept_after w [] ps" using c by blast
  have "versions_fit ps" using c versions_fit_append by blast
  from kept_fit[OF this, of w] have fit: "versions_fit cur" unfolding kept[symmetric] using versions_fit_append by blast
  from upload_sst_ok[OF env sb(2) fit sb(1) nth_id_less, of ex0 "length ts" "ex_sstable_store ex"] obtain t st' where
    t: "upload_sst env (nth_id ex0 (length ts)) sb (ex_sstable_store ex) = (Ok (wt_info t), st')" "fst t = nth_id ex0 (length ts)"
      "wt_versions t = cur" "table_written env o1 t"
    and inv: "\<forall>tabs. env_ss_inv env tabs (ex_sstable_store ex) \<longrightarrow> tabs (fst t) = None \<longrightarrow> meta_fits (snd (snd (snd t))) \<longrightarrow>
      env_ss_inv env (tabs(fst t \<mapsto> wt_table o1 t)) st'" by auto
  let ?cj = "cj\<lparr>cj_builder := None, cj_new_sst_infos := cj_new_sst_infos cj @ [wt_info t]\<rparr>" and ?ex = "ex\<lparr>ex_sstable_store := st'\<rparr>"
  have "cj_close env sb cj ex = (Ok ?cj, ?ex)"
    using t(1) sb(3) by (simp add: cj_close_def ex_build_and_upload_sst_def cbind_def)
  moreover have "set (concat (map wt_versions ts) @ cur) \<subseteq> set ps" unfolding kept by (rule kept_after_sub)
  then have "\<forall>a \<in> set cur. \<forall>b \<in> set rest. fst a < fst b" using apart unfolding set_append by blast
  then have "tables_split rest (ts @ [t])" using tables_split_close[OF _ _ t(3)] c by blast
  moreover have "tables_stored env o1 (ex_sstable_store ex0) (ts @ [t]) st'" by (rule tables_stored_snoc[OF _ inv]) (use c in blast)
  ultimately show ?thesis
    by (intro exI[of _ t] exI[of _ ?cj] exI[of _ ?ex]) (use c t kept in \<open>simp add: job_core_def\<close>)
qed

lemma env_add_ok:
  assumes env: "table_env_ok env" "options_ok o1" and sb: "env_sb_inv env o1 cur sb" and fit: "versions_fit (cur @ [x])"
  shows "\<exists>sb'. sb_add (te_compress env) (te_crc32 env) (te_fingerprint32 env) (fst x) (fst (snd x)) (snd (snd x)) sb = Ok sb' \<and>
    env_sb_inv env o1 (cur @ [x]) sb'"
proof -
  have e: "lz4_frames (te_compress env) (te_decompress env)" "\<forall>x. te_crc32 env x < 2 ^ 32" using env by (auto simp: table_env_ok_def)
  have f: "key_sorted (map entry_of (cur @ [(fst x, fst (snd x), snd (snd x))]))"
    "\<forall>e \<in> set (map entry_of (cur @ [(fst x, fst (snd x), snd (snd x))])). entry_fits e" using fit by (auto simp: versions_fit_def)
  obtain bss0 cur0 where "sb_inv (te_decompress env) (te_crc32 env) (te_fingerprint32 env) o1 bss0 cur0 cur sb"
    using sb by (auto simp: env_sb_inv_def)
  from sb_add_inv[OF this env(2) f e] show ?thesis by (auto simp: env_sb_inv_def)
qed

lemma env_new_ok:
  assumes "options_ok o1"
  shows "\<exists>sb. sstable_builder_new o1 = Ok sb \<and> env_sb_inv env o1 [] sb \<and> sb_is_empty sb"
proof -
  obtain sb where sb: "sstable_builder_new o1 = Ok sb" using assms by (simp add: sstable_builder_new_def options_ok_def)
  have "env_sb_inv env o1 [] sb" unfolding env_sb_inv_def using sb_inv_new[OF sb] by blast
  then show ?thesis using sb by (auto simp: sstable_builder_new_def sb_is_empty_def outcome_simps)
qed

lemma take_ok:
  assumes it: "it_next ops (cj_iter cj) = Ok it'" and env: "table_env_ok env" "options_ok o1"
    and core: "job_core env o1 w ex0 ps (x # rest) ts cur cj ex"
    and sb: "env_sb_inv env o1 cur sb" "cj_builder cj = Some sb" "cur = [] \<longrightarrow> fst x \<noteq> last_key [] ps"
  shows "\<exists>cj' sb' cur'. cj_take env ops (fst x) (snd (snd x)) (fst (snd x)) sb cj = Ok cj' \<and>
    job_core env o1 w ex0 (ps @ [x]) rest ts cur' cj' ex \<and> cur' \<noteq> [] \<and> env_sb_inv env o1 cur' sb' \<and> cj_builder cj' = Some sb' \<and>
    cj_sst_id cj' = cj_sst_id cj \<and> cj_iter cj' = it'"
proof -
  note c = core[unfolded job_core_def]
  have kept: "concat (map wt_versions ts) @ cur = kept_after w [] ps" using c by blast
  have fit: "versions_fit (ps @ [x])" "versions_fit ((ps @ [x]) @ rest)" using c versions_fit_append[of "ps @ [x]" rest] by auto
  have split: "tables_split (cur @ x # rest) ts" using c by blast
  let ?cf = "(cj_filter cj)\<lparr>cf_last_key := fst x\<rparr>"
  show ?thesis
  proof (cases "fst x = last_key [] ps \<and> fst (snd x) < w")
    case True
    then have "cur \<noteq> []" using sb(3) by blast
    moreover have "tables_split (cur @ rest) ts" using split by (auto simp: tables_split_def)
    moreover have "cj_take env ops (fst x) (snd (snd x)) (fst (snd x)) sb cj = Ok (cj\<lparr>cj_filter := ?cf, cj_iter := it'\<rparr>)"
      using c True it by (simp add: cj_take_def cf_filter_def)
    ultimately show ?thesis
      by (intro exI[of _ "cj\<lparr>cj_filter := ?cf, cj_iter := it'\<rparr>"] exI[of _ sb] exI[of _ cur])
        (use c True fit sb kept in \<open>auto simp: job_core_def kept_after_snoc last_key_def\<close>)
  next
    case False
    then have k': "concat (map wt_versions ts) @ (cur @ [x]) = kept_after w [] (ps @ [x])" using kept by (auto simp: kept_after_snoc)
    then have "versions_fit (cur @ [x])" using kept_fit[OF fit(1), of w] versions_fit_append by metis
    from env_add_ok[OF env sb(1) this] obtain sb' where
      add: "sb_add (te_compress env) (te_crc32 env) (te_fingerprint32 env) (fst x) (fst (snd x)) (snd (snd x)) sb = Ok sb'"
      and inv: "env_sb_inv env o1 (cur @ [x]) sb'" by blast
    let ?cj = "cj\<lparr>cj_filter := ?cf, cj_builder := Some sb', cj_last_user_key := fst x, cj_iter := it'\<rparr>"
    have "cj_take env ops (fst x) (snd (snd x)) (fst (snd x)) sb cj = Ok ?cj"
      using c False it add by (auto simp: cj_take_def cf_filter_def)
    moreover have "job_core env o1 w ex0 (ps @ [x]) rest ts (cur @ [x]) ?cj ex"
      using c fit k' by (simp add: job_core_def last_key_def)
    ultimately show ?thesis using inv by (intro exI[of _ ?cj] exI[of _ sb'] exI[of _ "cur @ [x]"]) simp
  qed
qed

context forward_iterator
begin

text \<open>One iteration either writes the open table or takes the next version.\<close>

lemma step_ok:
  assumes env: "table_env_ok env" "options_ok o1" and inv: "job_inv env o1 w ex0 ps (x # rest) ts cur cj ex"
    and it: "ahead (cj_iter cj) (map entry_of (x # rest))"
  shows "\<exists>cj' ex'. cj_step env ops o1 cj ex = (Ok cj', ex') \<and>
    ((\<exists>ts'. cj_builder cj \<noteq> None \<and> cj_builder cj' = None \<and> ahead (cj_iter cj') (map entry_of (x # rest)) \<and>
        job_inv env o1 w ex0 ps (x # rest) ts' [] cj' ex') \<or>
     (\<exists>cur'. ahead (cj_iter cj') (map entry_of rest) \<and> job_inv env o1 w ex0 (ps @ [x]) rest ts cur' cj' ex'))"
proof -
  note i = inv[unfolded job_inv_def]
  have core: "job_core env o1 w ex0 ps (x # rest) ts cur cj ex" using i by blast
  have fit: "versions_fit (ps @ x # rest)" and lk: "cj_last_user_key cj = last_key [] ps"
    and node: "ex_node_id ex = ex_node_id ex0" using core by (auto simp: job_core_def)
  have key: "it_key ops (cj_iter cj) = Ok (full_key (fst x) (fst (snd x)))" "it_value ops (cj_iter cj) = Ok (raw_value (snd (snd x)))"
    using ahead_key ahead_value it by (auto simp: entry_of_def)
  obtain it' where nxt: "it_next ops (cj_iter cj) = Ok it'" "ahead it' (map entry_of rest)"
    using ahead_next[of "cj_iter cj" "entry_of x" "map entry_of rest"] it by auto
  show ?thesis
  proof (cases "cj_builder cj")
    case None
    then have bi: "builder_inv env o1 ex0 ps (x # rest) (length ts) cur (cj_sst_id cj) ex None" using i by simp
    then have b: "cur = []" "ex_sstable_sequential_id ex = ex_sstable_sequential_id ex0 + of_nat (length ts)" "fst x \<noteq> last_key [] ps"
      using fit by (auto simp: versions_fit_def last_key_def split: if_splits)
    obtain sb where sb: "sstable_builder_new o1 = Ok sb" and sbi: "env_sb_inv env o1 [] sb" "sb_is_empty sb"
      using env_new_ok[OF env(2), of env] by blast
    let ?cj = "cj\<lparr>cj_sst_id := nth_id ex0 (length ts), cj_builder := Some sb\<rparr>"
    let ?ex = "ex\<lparr>ex_sstable_sequential_id := ex_sstable_sequential_id ex + 1\<rparr>"
    have op: "cj_open o1 cj ex = (Ok ?cj, ?ex)"
      using None sb b(2) node by (simp add: cj_open_def ex_gen_sstable_id_def cbind_def nth_id_def)
    have core': "job_core env o1 w ex0 ps (x # rest) ts [] ?cj ?ex" using core b(1) by (simp add: job_core_def)
    from take_ok[of ops ?cj, OF _ env core' sbi(1)] nxt(1) b(3) obtain cj' sb' cur' where
      t: "cj_take env ops (fst x) (snd (snd x)) (fst (snd x)) sb ?cj = Ok cj'" "job_core env o1 w ex0 (ps @ [x]) rest ts cur' cj' ?ex"
        "cur' \<noteq> []" "env_sb_inv env o1 cur' sb'" "cj_builder cj' = Some sb'" "cj_sst_id cj' = nth_id ex0 (length ts)" "cj_iter cj' = it'" by auto
    have "cj_step env ops o1 cj ex = (Ok cj', ?ex)"
      using key op t(1) sbi(2) by (simp add: cj_step_def cbind_def cj_cut_def)
    then show ?thesis using t nxt(2) b(2) by (auto simp: job_inv_def)
  next
    case (Some sb)
    then have b: "cur \<noteq> []" "env_sb_inv env o1 cur sb" "cj_sst_id cj = nth_id ex0 (length ts)"
      "ex_sstable_sequential_id ex = ex_sstable_sequential_id ex0 + of_nat (length ts) + 1" using i by auto
    obtain full cj1 where cut: "cj_cut o1 (fst x) (snd (snd x)) (fst (snd x)) sb cj = (full, cj1)" by fastforce
    then have same: "job_core env o1 w ex0 ps (x # rest) ts cur cj1 ex" "cj_sst_id cj1 = cj_sst_id cj" "cj_iter cj1 = cj_iter cj"
      "cj_builder cj1 = Some sb" and new: "full \<Longrightarrow> fst x \<noteq> last_key [] ps"
      using core Some lk by (auto simp: cj_cut_def job_core_def split: if_splits prod.splits)
    have step: "cj_step env ops o1 cj ex = (if full then cj_close env sb cj1 else cres (cj_take env ops (fst x) (snd (snd x)) (fst (snd x)) sb cj1)) ex"
      using key cut Some by (simp add: cj_step_def cbind_def cj_open_def)
    show ?thesis
    proof (cases full)
      case True
      have "\<forall>a \<in> set ps. \<forall>b \<in> set (x # rest). fst a < fst b"
        by (intro ballI, rule new_key_separates[OF _ new[OF True]]) (use fit in \<open>simp_all add: versions_fit_def\<close>)
      from close_ok[OF env same(1) b(1,2) _ this] b(3) same(2) obtain t cj' ex' where
        "cj_close env sb cj1 ex = (Ok cj', ex')" "job_core env o1 w ex0 ps (x # rest) (ts @ [t]) [] cj' ex'"
        "cj_builder cj' = None" "cj_iter cj' = cj_iter cj1" "ex_sstable_sequential_id ex' = ex_sstable_sequential_id ex" by auto
      then show ?thesis using step True Some it same(3) b(4) new by (auto simp: job_inv_def algebra_simps)
    next
      case False
      from take_ok[of ops cj1, OF _ env same(1) b(2) same(4)] nxt(1) b(1) same(3) obtain cj' sb' cur' where
        t: "cj_take env ops (fst x) (snd (snd x)) (fst (snd x)) sb cj1 = Ok cj'" "job_core env o1 w ex0 (ps @ [x]) rest ts cur' cj' ex"
          "cur' \<noteq> []" "env_sb_inv env o1 cur' sb'" "cj_builder cj' = Some sb'" "cj_sst_id cj' = cj_sst_id cj1" "cj_iter cj' = it'" by auto
      then show ?thesis using step False nxt(2) b(3,4) same(2) by (auto simp: job_inv_def)
    qed
  qed
qed

text \<open>Two iterations per version are enough.\<close>

lemma loop_ok:
  assumes env: "table_env_ok env" "options_ok o1"
  shows "job_inv env o1 w ex0 ps rest ts cur cj ex \<Longrightarrow> ahead (cj_iter cj) (map entry_of rest) \<Longrightarrow>
    2 * length rest + (if cj_builder cj = None then 0 else 1) < fuel \<Longrightarrow>
    \<exists>cj' ex' ts' cur'. cj_loop env ops o1 fuel cj ex = (Ok cj', ex') \<and> job_inv env o1 w ex0 (ps @ rest) [] ts' cur' cj' ex'"
proof (induction fuel arbitrary: ps rest ts cur cj ex)
  case (Suc fuel)
  have valid: "it_is_valid ops (cj_iter cj) = Ok (rest \<noteq> [])" using ahead_valid[OF Suc.prems(2)] by simp
  show ?case
  proof (cases rest)
    case Nil
    then show ?thesis using Suc.prems(1) valid by (auto simp: cbind_def)
  next
    case (Cons x rest')
    from step_ok[OF env Suc.prems(1,2)[unfolded Cons]] obtain cj1 ex1 where step: "cj_step env ops o1 cj ex = (Ok cj1, ex1)"
      and or: "(\<exists>ts'. cj_builder cj \<noteq> None \<and> cj_builder cj1 = None \<and> ahead (cj_iter cj1) (map entry_of rest) \<and>
          job_inv env o1 w ex0 ps rest ts' [] cj1 ex1) \<or>
        (\<exists>cur'. ahead (cj_iter cj1) (map entry_of rest') \<and> job_inv env o1 w ex0 (ps @ [x]) rest' ts cur' cj1 ex1)"
      unfolding Cons by blast
    have loop: "cj_loop env ops o1 (Suc fuel) cj ex = cj_loop env ops o1 fuel cj1 ex1" using valid step Cons by (simp add: cbind_def)
    from or show ?thesis
    proof (elim disjE exE conjE)
      fix ts' assume "cj_builder cj \<noteq> None" "cj_builder cj1 = None" "ahead (cj_iter cj1) (map entry_of rest)" "job_inv env o1 w ex0 ps rest ts' [] cj1 ex1"
      then show ?thesis unfolding loop using Suc.IH[of ps rest ts' "[]" cj1 ex1] Suc.prems(3) by (simp split: if_splits)
    next
      fix cur' assume "ahead (cj_iter cj1) (map entry_of rest')" "job_inv env o1 w ex0 (ps @ [x]) rest' ts cur' cj1 ex1"
      then show ?thesis unfolding loop using Suc.IH[of "ps @ [x]" rest' ts cur' cj1 ex1] Suc.prems(3) Cons by (simp split: if_splits)
    qed
  qed
qed simp

end

section \<open>A compaction\<close>

lemma finish_ok:
  assumes env: "table_env_ok env" "options_ok o1" and inv: "job_inv env o1 w ex0 ps [] ts cur cj ex"
  shows "\<exists>cj' ex' ts'. cj_finish env cj ex = (Ok cj', ex') \<and> job_core env o1 w ex0 ps [] ts' [] cj' ex' \<and>
    ex_sstable_sequential_id ex' = ex_sstable_sequential_id ex0 + of_nat (length ts')"
proof (cases "cj_builder cj")
  case None
  then show ?thesis using inv by (auto simp: cj_finish_def job_inv_def)
next
  case (Some sb)
  then have b: "cur \<noteq> []" "env_sb_inv env o1 cur sb" "cj_sst_id cj = nth_id ex0 (length ts)" "job_core env o1 w ex0 ps [] ts cur cj ex"
    "ex_sstable_sequential_id ex = ex_sstable_sequential_id ex0 + of_nat (length ts) + 1" using inv by (auto simp: job_inv_def)
  from close_ok[OF env b(4,1-3)] obtain t cj' ex' where "cj_close env sb cj ex = (Ok cj', ex')"
    "job_core env o1 w ex0 ps [] (ts @ [t]) [] cj' ex'" "ex_sstable_sequential_id ex' = ex_sstable_sequential_id ex" by auto
  then show ?thesis using Some b(5)
    by (intro exI[of _ cj'] exI[of _ ex'] exI[of _ "ts @ [t]"]) (simp add: cj_finish_def algebra_simps)
qed

lemma open_ssts_ok:
  assumes env: "table_env_ok env"
  shows "env_ss_inv env tabs (ex_sstable_store ex) \<Longrightarrow> \<forall>i \<in> set ids. versions_table (te_fingerprint32 env) tabs i (xs i) \<and> length (xs i) < 2 ^ 64 \<Longrightarrow>
    \<exists>ssts ex'. cmap (ex_open_sst env) ids ex = (Ok ssts, ex') \<and>
      list_all2 (si_over mo_objects (te_decompress env) (te_crc32 env)) (map snd ssts) (map (\<lambda>i. map entry_of (xs i)) ids) \<and>
      map (info_id \<circ> fst) ssts = ids \<and> env_ss_inv env tabs (ex_sstable_store ex') \<and> ex_node_id ex' = ex_node_id ex \<and>
      ex_sstable_sequential_id ex' = ex_sstable_sequential_id ex"
proof (induction ids arbitrary: ex)
  case Nil
  then show ?case by auto
next
  case (Cons i ids)
  have e: "te_objects env = mem_object_store_ops" using env by (simp add: table_env_ok_def)
  obtain r bss m where v: "tabs i = Some (r, bss, m)" "bss \<noteq> []" "concat bss = map entry_of (xs i)" "versions_sorted (xs i)"
    using Cons.prems(2) by (auto simp: versions_table_def)
  obtain st' where st': "ss_sstable mem_object_store_ops i (ex_sstable_store ex) = Ok (\<lparr>sst_id = i, sst_meta = m\<rparr>, st')" "env_ss_inv env tabs st'"
    using mem_os.sstable_inv[OF Cons.prems(1) v(1)] by blast
  have "si_over mo_objects (te_decompress env) (te_crc32 env) (si_new st' \<lparr>sst_id = i, sst_meta = m\<rparr> Fill) (concat bss)"
    by (rule stored_table_over[OF st'(2) v(1) versions_table_segments[OF st'(2) v]]) (use v(3) Cons.prems(2) in simp)
  moreover have "ex_open_sst env i ex = (Ok (\<lparr>info_id = i, info_data_size = sst_data_size \<lparr>sst_id = i, sst_meta = m\<rparr>\<rparr>,
      si_new st' \<lparr>sst_id = i, sst_meta = m\<rparr> Fill), ex\<lparr>ex_sstable_store := st'\<rparr>)" using st'(1) e by (simp add: ex_open_sst_def)
  moreover obtain ssts ex' where "cmap (ex_open_sst env) ids (ex\<lparr>ex_sstable_store := st'\<rparr>) = (Ok ssts, ex')"
    "list_all2 (si_over mo_objects (te_decompress env) (te_crc32 env)) (map snd ssts) (map (\<lambda>i. map entry_of (xs i)) ids)"
    "map (info_id \<circ> fst) ssts = ids" "env_ss_inv env tabs (ex_sstable_store ex')" "ex_node_id ex' = ex_node_id ex"
    "ex_sstable_sequential_id ex' = ex_sstable_sequential_id ex"
    using Cons.IH[of "ex\<lparr>ex_sstable_store := st'\<rparr>"] Cons.prems(2) st'(2) by auto
  ultimately show ?case using v(3) by (simp add: comp_def)
qed

lemma cj_new_inv:
  assumes "versions_fit vs"
  shows "job_inv env o1 (cr_watermark req) ex [] vs [] [] (cj_new req it) ex"
  using assms by (simp add: job_inv_def job_core_def cj_new_def compaction_filter_new_def last_key_def tables_split_def tables_stored_def)

text \<open>Tables the exhauster writes get new identifiers as long as no node draws more than \<open>2 ^ 32\<close> of them.\<close>

lemma sstable_id_inject:
  assumes "n < 2 ^ 32" "n' < 2 ^ 32" "i < 2 ^ 32" "i' < 2 ^ 32"
  shows "sstable_id (of_nat n) (of_nat i) = sstable_id (of_nat n') (of_nat i') \<longleftrightarrow> n = n' \<and> i = i'"
proof -
  have val: "sstable_id (of_nat n) (of_nat i) = n * 2 ^ 32 + i" if "n < 2 ^ 32" "i < 2 ^ 32" for n i
  proof -
    have i: "take_bit 32 (of_nat i :: u64) = of_nat i" using that(2) by (simp add: take_bit_of_nat take_bit_nat_eq_self)
    have "Bit_Operations.and (push_bit 32 (of_nat n)) (of_nat i :: u64) = 0"
      by (subst i[symmetric], rule bit_eqI) (auto simp: bit_simps)
    then have "Bit_Operations.or (push_bit 32 (of_nat n)) (of_nat i :: u64) = of_nat (n * 2 ^ 32 + i)"
      by (simp add: disjunctive_add_eq_or[symmetric] push_bit_eq_mult)
    then show ?thesis using that unfolding sstable_id_def by (simp add: unat_of_nat del: of_nat_add of_nat_mult)
  qed
  have "i = i'" if "n * 2 ^ 32 + i = n' * 2 ^ 32 + i'"
    using arg_cong[OF that, of "\<lambda>x. x mod 2 ^ 32"] assms(3,4) by simp
  then show ?thesis unfolding val[OF assms(1,3)] val[OF assms(2,4)] by auto
qed

text \<open>What a request works on, and what it leaves behind.\<close>

definition compaction_input ::
  "mem_object_store table_env \<Rightarrow> compaction_request \<Rightarrow> sstable_builder_options \<Rightarrow> mem_object_store exhauster \<Rightarrow> (nat \<rightharpoonup> table) \<Rightarrow>
     (nat \<Rightarrow> version_entry list) \<Rightarrow> version_entry list \<Rightarrow> bool" where
  "compaction_input env req o1 ex tabs xs vs \<longleftrightarrow>
     table_env_ok env \<and> cr_options req = Ok o1 \<and> options_ok o1 \<and> env_ss_inv env tabs (ex_sstable_store ex) \<and>
     (\<forall>i \<in> set (cr_sst_ids req). versions_table (te_fingerprint32 env) tabs i (xs i) \<and> length (xs i) < 2 ^ 64) \<and>
     versions_fit vs \<and> mset vs = mset (concat (map xs (cr_sst_ids req)))"

definition compaction_output ::
  "mem_object_store table_env \<Rightarrow> compaction_request \<Rightarrow> sstable_builder_options \<Rightarrow> mem_object_store exhauster \<Rightarrow> (nat \<rightharpoonup> table) \<Rightarrow>
     compaction_response \<Rightarrow> mem_object_store exhauster \<Rightarrow> written_table list \<Rightarrow> bool" where
  "compaction_output env req o1 ex tabs rsp ex' ts \<longleftrightarrow>
     (\<forall>t \<in> set ts. table_written env o1 t) \<and> map fst ts = map (nth_id ex) [0..<length ts] \<and>
     map info_id (cp_old_sst_infos rsp) = cr_sst_ids req \<and> cp_new_sst_infos rsp = map wt_info ts \<and>
     ((\<forall>t \<in> set ts. tabs (fst t) = None \<and> meta_fits (snd (snd (snd t)))) \<and> distinct (map fst ts) \<longrightarrow>
       env_ss_inv env (add_tables o1 ts tabs) (ex_sstable_store ex'))"

lemma compaction_ok:
  assumes "compaction_input env req o1 ex tabs xs vs" and fuel: "2 * length vs < fuel"
  shows "\<exists>rsp ex' ts. compaction env fuel req ex = (Ok rsp, ex') \<and> compaction_output env req o1 ex tabs rsp ex' ts \<and>
    concat (map wt_versions ts) = kept (cr_watermark req) vs \<and> tables_split [] ts"
proof -
  have env: "table_env_ok env" and req: "cr_options req = Ok o1" "options_ok o1" and tabs: "env_ss_inv env tabs (ex_sstable_store ex)"
      "\<forall>i \<in> set (cr_sst_ids req). versions_table (te_fingerprint32 env) tabs i (xs i) \<and> length (xs i) < 2 ^ 64"
    and vs: "versions_fit vs" "mset vs = mset (concat (map xs (cr_sst_ids req)))" using assms(1) by (simp_all add: compaction_input_def)
  have e: "te_objects env = mem_object_store_ops" using env by (simp add: table_env_ok_def)
  obtain ssts ex1 where o: "cmap (ex_open_sst env) (cr_sst_ids req) ex = (Ok ssts, ex1)"
    "list_all2 (si_over mo_objects (te_decompress env) (te_crc32 env)) (map snd ssts) (map (\<lambda>i. map entry_of (xs i)) (cr_sst_ids req))"
    "map (info_id \<circ> fst) ssts = cr_sst_ids req" "env_ss_inv env tabs (ex_sstable_store ex1)" "ex_node_id ex1 = ex_node_id ex"
    "ex_sstable_sequential_id ex1 = ex_sstable_sequential_id ex" using open_ssts_ok[OF env tabs] by blast
  have "mset (map entry_of vs) = mset (concat (map (\<lambda>i. map entry_of (xs i)) (cr_sst_ids req)))"
    using arg_cong[OF vs(2), of "image_mset entry_of"] by (simp add: map_concat comp_def flip: mset_map)
  then have "merged (map (\<lambda>i. map entry_of (xs i)) (cr_sst_ids req)) (map entry_of vs)"
    using vs(1) by (simp add: merged_def versions_fit_def)
  then have "mi_over (si_over mo_objects (te_decompress env) (te_crc32 env)) (mi_new (map snd ssts)) (map entry_of vs)"
    using o(2) by (auto simp: mi_over_def mi_new_def)
  from mem_os.table_iter.merge.over_first[OF this] obtain found it where
    seek: "it_seek (table_merge_ops env) First (mi_new (map snd ssts)) = Ok (found, it)"
      "mi_ahead (ahead_of (si_cursor mo_objects (te_decompress env) (te_crc32 env))) it (map entry_of vs)"
    using e by (auto simp: table_merge_ops_def)
  have it: "cj_iter (cj_new req it) = it" "cj_builder (cj_new req it) = None" by (simp_all add: cj_new_def)
  have "\<exists>cj ex2 ts cur. cj_loop env (merge_iterator_ops (sstable_iterator_ops mem_object_store_ops (te_decompress env) (te_crc32 env))) o1 fuel
      (cj_new req it) ex1 = (Ok cj, ex2) \<and> job_inv env o1 (cr_watermark req) ex1 ([] @ vs) [] ts cur cj ex2"
    by (rule mem_os.table_iter.merge.loop_ok[OF env req(2) cj_new_inv[OF vs(1)]]) (use seek(2) it fuel in simp_all)
  then obtain cj ex2 ts cur where loop: "cj_loop env (table_merge_ops env) o1 fuel (cj_new req it) ex1 = (Ok cj, ex2)"
    "job_inv env o1 (cr_watermark req) ex1 vs [] ts cur cj ex2" using e by (auto simp: table_merge_ops_def)
  obtain cj' ex' ts' where fin: "cj_finish env cj ex2 = (Ok cj', ex')" "job_core env o1 (cr_watermark req) ex1 vs [] ts' [] cj' ex'"
    using finish_ok[OF env req(2) loop(2)] by blast
  note c = fin(2)[unfolded job_core_def]
  have "nth_id ex1 = nth_id ex" using o(5,6) by (simp add: fun_eq_iff nth_id_def)
  moreover have "kept_after (cr_watermark req) [] vs = kept (cr_watermark req) vs" using kept_after_kept vs(1) by (simp add: versions_fit_def)
  moreover have "compaction env fuel req ex = (Ok \<lparr>cp_old_sst_infos = map fst ssts, cp_new_sst_infos = cj_new_sst_infos cj'\<rparr>, ex')"
    using o(1) req(1) seek(1) loop(1) fin(1) by (simp add: compaction_def)
  ultimately show ?thesis using c o(3,4)
    by (intro exI[of _ "\<lparr>cp_old_sst_infos = map fst ssts, cp_new_sst_infos = cj_new_sst_infos cj'\<rparr>"] exI[of _ ex'] exI[of _ ts'])
      (simp add: tables_stored_def compaction_output_def)
qed

text \<open>C18. A compaction writes what its filter keeps: for any tables without a common version, the handler
  succeeds, and the tables it writes hold, in order, exactly the versions from the watermark on and
  the newest version of every key, each table at least one, and no user key lies in two of them. Its
  loop ends after two iterations per version. The tables can be read from the store when their
  metadata fits its encoding and their identifiers are new.\<close>

theorem compaction_writes_kept_versions:
  assumes "compaction_input env req o1 ex tabs xs vs" "2 * length vs < fuel"
  shows "\<exists>rsp ex' ts. compaction env fuel req ex = (Ok rsp, ex') \<and> compaction_output env req o1 ex tabs rsp ex' ts \<and>
    concat (map wt_versions ts) = kept (cr_watermark req) vs \<and> tables_split [] ts"
  by (rule compaction_ok[OF assms])

text \<open>C6. A compaction does not change the present: a read at or after the newest version of its key gets the
  same answer from the new tables as from the old ones, and so does every read whose version is at
  or after the watermark.\<close>

theorem compaction_preserves_current_reads:
  assumes "compaction_input env req o1 ex tabs xs vs" "2 * length vs < fuel"
  shows "\<exists>rsp ex' ts. compaction env fuel req ex = (Ok rsp, ex') \<and> compaction_output env req o1 ex tabs rsp ex' ts \<and>
    (\<forall>s k. (\<forall>x \<in> set vs. fst x = k \<longrightarrow> fst (snd x) \<le> s) \<or> (\<exists>x \<in> set vs. visible s k x \<and> cr_watermark req \<le> fst (snd x)) \<longrightarrow>
      read_at s k (concat (map wt_versions ts)) = read_at s k vs)"
proof -
  have vs: "versions_sorted vs" using assms(1) by (simp add: compaction_input_def versions_fit_def)
  have "read_at s k (kept (cr_watermark req) vs) = read_at s k vs"
    if "(\<forall>x \<in> set vs. fst x = k \<longrightarrow> fst (snd x) \<le> s) \<or> (\<exists>x \<in> set vs. visible s k x \<and> cr_watermark req \<le> fst (snd x))" for s k
  proof (cases "find (visible s k) vs")
    case (Some x)
    then have x: "x \<in> set vs" "visible s k x" "\<forall>y \<in> set vs. visible s k y \<longrightarrow> fst (snd y) \<le> fst (snd x)" using read_at_find[OF vs] by blast+
    have "cr_watermark req \<le> fst (snd x) \<or> newest_of vs x"
      using that x unfolding newest_of_def visible_def by (meson order.trans)
    then show ?thesis using Some compacted_read[OF vs, of s k] by (simp add: read_at_def)
  next
    case None
    then show ?thesis using compacted_read[OF vs, of s k "cr_watermark req"] by (simp add: read_at_def)
  qed
  then show ?thesis using compaction_ok[OF assms] by metis
qed

text \<open>C32. A compaction loses pinned snapshots: when the version a read at or after the watermark returns is
  older than the watermark and the key has a newer version, the new tables hold no version for that
  read, although the watermark is the smallest sequence that is still read.\<close>

theorem compaction_loses_pinned_snapshot:
  assumes "compaction_input env req o1 ex tabs xs vs" "2 * length vs < fuel"
    and "(k, t, v) \<in> set vs" "t < cr_watermark req" "cr_watermark req \<le> s"
    and "(k, t', v') \<in> set vs" "s < t'" "\<forall>x \<in> set vs. visible s k x \<longrightarrow> fst (snd x) \<le> t"
  shows "\<exists>rsp ex' ts. compaction env fuel req ex = (Ok rsp, ex') \<and> compaction_output env req o1 ex tabs rsp ex' ts \<and>
    read_at s k vs = Some v \<and> read_at s k (concat (map wt_versions ts)) = None"
proof -
  have vs: "versions_sorted vs" using assms(1) by (simp add: compaction_input_def versions_fit_def)
  have vis: "visible s k (k, t, v)" using assms(4,5) by (simp add: visible_def)
  have find: "find (visible s k) vs = Some (k, t, v)" using read_at_find[OF vs] assms(3,8) vis by simp
  have "t < t'" using assms(4,5,7) by order
  then have "\<not> newest_of vs (k, t, v)" using assms(6) by (force simp: newest_of_def)
  then have "read_at s k (kept (cr_watermark req) vs) = None" using compacted_read[OF vs, of s k] find assms(4) by simp
  moreover have "read_at s k vs = Some v" using find by (simp add: read_at_def)
  ultimately show ?thesis using compaction_ok[OF assms(1,2)] by metis
qed

section \<open>An example\<close>

definition example_table_env :: "mem_object_store table_env" where
  "example_table_env = \<lparr>te_objects = mem_object_store_ops, te_compress = stored_compress, te_decompress = stored_decompress,
     te_crc32 = (\<lambda>_. 7), te_fingerprint32 = (\<lambda>_. 1)\<rparr>"

definition example_request :: compaction_request where
  "example_request = \<lparr>cr_sst_ids = [5], cr_watermark = 5, cr_sstable_capacity = 1024, cr_block_capacity = 32, cr_restart_interval = 2,
     cr_bloom_false_positive = 1, cr_compression_algorithm = 1, cr_remove_tombstone = False, cr_partition_points = [[107, 50]]\<rparr>"

lemma example_compaction:
  "\<exists>tabs st. compaction_input example_table_env example_request example_options (exhauster_new 3 st 1) tabs (\<lambda>_. union_versions) union_versions"
proof -
  obtain m st where run: "ss_run mem_object_store_ops stored_decompress (\<lambda>_. 7)
      [5 \<mapsto> (2, [map entry_of union_versions], m), 6 \<mapsto> (2, [map entry_of union_versions], m)] st"
    "filter_covers (\<lambda>_. 1) m union_versions" using two_filtered_tables_run by blast
  let ?tabs = "[5 \<mapsto> (2, [map entry_of union_versions], m), 6 \<mapsto> (2, [map entry_of union_versions], m)]"
  have "versions_fit union_versions"
    using union_versions_ok(1) by (simp add: versions_fit_def union_versions_def entry_fits_def entry_of_def raw_value_def)
  moreover have "versions_table (\<lambda>_. 1) ?tabs 5 union_versions"
    using run(2) union_versions_ok(1,3) by (simp add: versions_table_def)
  moreover have "cr_options example_request = Ok example_options"
    by (simp add: cr_options_def example_request_def example_options_def compression_try_from_def)
  ultimately have "compaction_input example_table_env example_request example_options (exhauster_new 3 st 1) ?tabs (\<lambda>_. union_versions) union_versions"
    using mem_os.run_inv[OF run(1)] example_versions_ok(1) lz4_frames_stored union_versions_ok(2)
    by (simp add: compaction_input_def example_table_env_def table_env_ok_def example_request_def exhauster_new_def)
  then show ?thesis by blast
qed

lemma example_versions_length: "2 * length union_versions < 11"
  by (simp add: union_versions_def)

theorem compaction_writes_kept_versions_witness:
  "\<exists>st rsp ex' ts. compaction example_table_env 11 example_request (exhauster_new 3 st 1) = (Ok rsp, ex') \<and>
    cp_new_sst_infos rsp = map wt_info ts \<and>
    concat (map wt_versions ts) = [([107, 49], 9, Some [8]), ([107, 49], 6, None), ([107, 50], 7, None), ([107, 51], 1, Some [3])]"
proof -
  obtain tabs st where i: "compaction_input example_table_env example_request example_options (exhauster_new 3 st 1) tabs (\<lambda>_. union_versions) union_versions"
    using example_compaction by blast
  have kept: "kept (cr_watermark example_request) union_versions =
      [([107, 49], 9, Some [8]), ([107, 49], 6, None), ([107, 50], 7, None), ([107, 51], 1, Some [3])]"
    by (simp add: union_versions_def kept_def newest_of_def example_request_def)
  from compaction_writes_kept_versions[OF i example_versions_length] obtain rsp ex' ts where
    r: "compaction example_table_env 11 example_request (exhauster_new 3 st 1) = (Ok rsp, ex')" "concat (map wt_versions ts) = kept (cr_watermark example_request) union_versions"
      and out: "compaction_output example_table_env example_request example_options (exhauster_new 3 st 1) tabs rsp ex' ts" by blast
  have "cp_new_sst_infos rsp = map wt_info ts" using out by (simp add: compaction_output_def)
  with r[unfolded kept] show ?thesis by blast
qed

theorem compaction_preserves_current_reads_witness:
  "\<exists>st rsp ex' ts. compaction example_table_env 11 example_request (exhauster_new 3 st 1) = (Ok rsp, ex') \<and>
    cp_new_sst_infos rsp = map wt_info ts \<and> read_at 10 [107, 49] (concat (map wt_versions ts)) = Some (Some [8])"
proof -
  obtain tabs st where i: "compaction_input example_table_env example_request example_options (exhauster_new 3 st 1) tabs (\<lambda>_. union_versions) union_versions"
    using example_compaction by blast
  have v: "\<forall>x \<in> set union_versions. fst x = [107, 49] \<longrightarrow> fst (snd x) \<le> 10" "read_at 10 [107, 49] union_versions = Some (Some [8])"
    by (simp_all add: union_versions_def read_at_def visible_def)
  from compaction_preserves_current_reads[OF i example_versions_length] obtain rsp ex' ts where
    r: "compaction example_table_env 11 example_request (exhauster_new 3 st 1) = (Ok rsp, ex')"
      "(\<forall>x \<in> set union_versions. fst x = [107, 49] \<longrightarrow> fst (snd x) \<le> 10) \<longrightarrow>
        read_at 10 [107, 49] (concat (map wt_versions ts)) = read_at 10 [107, 49] union_versions"
      and out: "compaction_output example_table_env example_request example_options (exhauster_new 3 st 1) tabs rsp ex' ts" by blast
  have "cp_new_sst_infos rsp = map wt_info ts" using out by (simp add: compaction_output_def)
  moreover have "read_at 10 [107, 49] (concat (map wt_versions ts)) = Some (Some [8])" using r(2) v by simp
  ultimately show ?thesis using r(1) by blast
qed

theorem compaction_loses_pinned_snapshot_witness:
  "\<exists>st rsp ex' ts. compaction example_table_env 11 example_request (exhauster_new 3 st 1) = (Ok rsp, ex') \<and>
    cp_new_sst_infos rsp = map wt_info ts \<and>
    read_at 5 [107, 49] union_versions = Some (Some [7]) \<and> read_at 5 [107, 49] (concat (map wt_versions ts)) = None"
proof -
  obtain tabs st where i: "compaction_input example_table_env example_request example_options (exhauster_new 3 st 1) tabs (\<lambda>_. union_versions) union_versions"
    using example_compaction by blast
  have "\<exists>rsp ex' ts. compaction example_table_env 11 example_request (exhauster_new 3 st 1) = (Ok rsp, ex') \<and>
    compaction_output example_table_env example_request example_options (exhauster_new 3 st 1) tabs rsp ex' ts \<and>
    read_at 5 [107, 49] union_versions = Some (Some [7]) \<and> read_at 5 [107, 49] (concat (map wt_versions ts)) = None"
    by (rule compaction_loses_pinned_snapshot[OF i, where t = 4 and t' = 6 and v' = None])
      (simp_all add: union_versions_def example_request_def visible_def)
  then show ?thesis unfolding compaction_output_def by blast
qed

end
