(* ===== verification/Rudder.thy ===== *)
theory Rudder
  imports Compaction WheelService
begin

text \<open>
  \<open>rudder/src/meta/mem.rs\<close>, \<open>rudder/src/service.rs\<close> and \<open>rudder/src/worker/compaction_detector.rs\<close>: the node
  that keeps the manifest, learns of the other nodes from their heartbeats and decides what to compact.

  Points in time and durations are natural numbers; the clock is an argument. The maps the code iterates
  over are association lists in the order of their keys. Random choices are arguments too. A call to
  another node runs the handler of that node on its own state; all nodes share the object store.
\<close>

section \<open>The meta store\<close>

fun btree_insert :: "'k::linorder \<Rightarrow> 'v \<Rightarrow> ('k \<times> 'v) list \<Rightarrow> ('k \<times> 'v) list" where
  "btree_insert k v [] = [(k, v)]"
| "btree_insert k v ((k', v') # xs) =
     (if k = k' then (k', v) # xs else if k < k' then (k, v) # (k', v') # xs else (k', v') # btree_insert k v xs)"

record rudder_meta =
  rm_exhausters :: "(nat \<times> nat) list"
  rm_node_ranges :: "(nat \<times> key_range list) list"
  rm_pinned_sstables :: "nat \<rightharpoonup> nat"
  rm_sstable_pin_ttl :: nat
  rm_timestamp :: u32

definition rudder_meta_new :: "nat \<Rightarrow> rudder_meta" where
  "rudder_meta_new ttl =
     \<lparr>rm_exhausters = [], rm_node_ranges = [], rm_pinned_sstables = Map.empty, rm_sstable_pin_ttl = ttl, rm_timestamp = 1\<rparr>"

definition update_exhauster :: "nat \<Rightarrow> nat \<Rightarrow> rudder_meta \<Rightarrow> rudder_meta" where
  "update_exhauster now node_id rm = rm\<lparr>rm_exhausters := btree_insert node_id now (rm_exhausters rm)\<rparr>"

fun first_live :: "nat \<Rightarrow> nat \<Rightarrow> (nat \<times> nat) list \<Rightarrow> nat list \<Rightarrow> nat option res" where
  "first_live now live exhausters [] = Ok None"
| "first_live now live exhausters (i # is) =
     rbind (unwrap (map_of exhausters i)) (\<lambda>heartbeat.
     rbind (sub_u64 now heartbeat) (\<lambda>elapsed.
     if elapsed \<le> live then Ok (Some i) else first_live now live exhausters is))"

definition pick_exhauster :: "(nat list \<Rightarrow> nat list) \<Rightarrow> nat \<Rightarrow> nat \<Rightarrow> rudder_meta \<Rightarrow> nat option res" where
  "pick_exhauster shuffle now live rm =
     first_live now live (rm_exhausters rm) (shuffle (map fst (rm_exhausters rm)))"

definition update_node_ranges :: "nat \<Rightarrow> key_range list \<Rightarrow> rudder_meta \<Rightarrow> rudder_meta" where
  "update_node_ranges node_id ranges rm = rm\<lparr>rm_node_ranges := btree_insert node_id ranges (rm_node_ranges rm)\<rparr>"

definition all_node_ranges :: "rudder_meta \<Rightarrow> (nat \<times> key_range list) list" where
  "all_node_ranges rm = rm_node_ranges rm"

definition all_ranges :: "rudder_meta \<Rightarrow> key_range list" where
  "all_ranges rm = concat (map snd (rm_node_ranges rm))"

definition pin_conflict :: "nat \<Rightarrow> rudder_meta \<Rightarrow> nat \<Rightarrow> bool" where
  "pin_conflict time rm i =
     (case rm_pinned_sstables rm i of None \<Rightarrow> False | Some last_pin_time \<Rightarrow> last_pin_time + rm_sstable_pin_ttl rm < time)"

definition pin_sstables :: "nat list \<Rightarrow> nat \<Rightarrow> rudder_meta \<Rightarrow> bool \<times> rudder_meta" where
  "pin_sstables ids time rm =
     (if list_ex (pin_conflict time rm) ids then (False, rm)
      else (True, rm\<lparr>rm_pinned_sstables := fold (\<lambda>i m. m(i \<mapsto> time)) ids (rm_pinned_sstables rm)\<rparr>))"

definition unpin_sstables :: "nat list \<Rightarrow> rudder_meta \<Rightarrow> rudder_meta" where
  "unpin_sstables ids rm = rm\<lparr>rm_pinned_sstables := fold (\<lambda>i m. m(i := None)) ids (rm_pinned_sstables rm)\<rparr>"

definition sstable_pinned :: "nat \<Rightarrow> rudder_meta \<Rightarrow> nat \<Rightarrow> bool" where
  "sstable_pinned time rm i =
     (case rm_pinned_sstables rm i of None \<Rightarrow> False | Some last_pin_time \<Rightarrow> last_pin_time + rm_sstable_pin_ttl rm \<ge> time)"

definition is_sstables_pinned :: "nat list \<Rightarrow> nat \<Rightarrow> rudder_meta \<Rightarrow> bool list" where
  "is_sstables_pinned ids time rm = map (sstable_pinned time rm) ids"

definition timestamp_fetch_add :: "u32 \<Rightarrow> rudder_meta \<Rightarrow> u32 \<times> rudder_meta" where
  "timestamp_fetch_add val rm = (rm_timestamp rm, rm\<lparr>rm_timestamp := rm_timestamp rm + val\<rparr>)"

section \<open>The service\<close>

record ('os, 'ep, 'ch) rudder =
  rd_version_manager :: "'os version_manager"
  rd_channel_pool :: "('ep, 'ch) channel_pool"
  rd_meta_store :: rudder_meta

definition on_manager :: "('os, 'a) vm_call \<Rightarrow> (('os, 'ep, 'ch) rudder, 'a) call" where
  "on_manager c rd = (let (r, vm) = c (rd_version_manager rd) in (r, rd\<lparr>rd_version_manager := vm\<rparr>))"

definition default_version_diff_batch :: nat where
  "default_version_diff_batch = 10"

definition insert_l0_diff :: "sstable_info list \<Rightarrow> version_diff" where
  "insert_l0_diff infos =
     \<lparr>vd_id = 0,
      vd_sstable_diffs = map (\<lambda>info. \<lparr>sd_id = info_id info, sd_level = 0, sd_op = Insert, sd_data_size = info_data_size info\<rparr>) infos\<rparr>"

definition insert_l0 ::
  "'os object_store_ops \<Rightarrow> sstable_info list \<Rightarrow> nat \<Rightarrow> (('os, 'ep, 'ch) rudder, version_diff list) call" where
  "insert_l0 ops infos next_version_id =
     cbind (on_manager (vm_update ops (insert_l0_diff infos) False)) (\<lambda>_.
       cget (\<lambda>rd. vm_version_diffs_from next_version_id u64_max (rd_version_manager rd)))"

text \<open>The response adds one in 32 bits.\<close>

definition tso :: "(('os, 'ep, 'ch) rudder, u32) call" where
  "tso rd =
     (let (current_ts, rm) = timestamp_fetch_add 1 (rd_meta_store rd)
      in (if current_ts = - 1 then Panic else Ok (current_ts + 1), rd\<lparr>rd_meta_store := rm\<rparr>))"

definition handle_wheel_heartbeat :: "nat \<Rightarrow> nat \<Rightarrow> key_range list \<Rightarrow> (('os, 'ep, 'ch) rudder, version_diff list) call" where
  "handle_wheel_heartbeat node_id next_version_id ranges =
     cbind (cget (\<lambda>rd. vm_version_diffs_from next_version_id default_version_diff_batch (rd_version_manager rd))) (\<lambda>diffs rd.
       (Ok diffs, rd\<lparr>rd_meta_store := update_node_ranges node_id ranges (rd_meta_store rd)\<rparr>))"

definition handle_exhauster_heartbeat ::
  "(net_node \<Rightarrow> 'ep) \<Rightarrow> nat \<Rightarrow> nat \<Rightarrow> string \<Rightarrow> u32 \<Rightarrow> (('os, 'ep, 'ch) rudder, unit) call" where
  "handle_exhauster_heartbeat endpoint now node_id host port rd =
     (Ok (), rd\<lparr>rd_channel_pool :=
         cp_put_node endpoint \<lparr>nn_id = node_id, nn_host = host, nn_port = unat (ucast port :: 16 word)\<rparr> (rd_channel_pool rd),
       rd_meta_store := update_exhauster now node_id (rd_meta_store rd)\<rparr>)"

datatype heartbeat_message =
    WheelHeartbeat (hb_watermark: u64) (hb_next_version_id: nat) (hb_key_ranges: "key_range list")
  | ExhausterHeartbeat

text \<open>The response carries the diffs for a wheel node, nothing for an exhauster.\<close>

definition heartbeat ::
  "(net_node \<Rightarrow> 'ep) \<Rightarrow> nat \<Rightarrow> nat \<Rightarrow> (string \<times> u32) option \<Rightarrow> heartbeat_message option \<Rightarrow>
     (('os, 'ep, 'ch) rudder, version_diff list option) call" where
  "heartbeat endpoint now node_id ep msg =
     cbind (cres (unwrap msg)) (\<lambda>msg.
     cbind (cres (unwrap ep)) (\<lambda>(host, port).
     case msg of
       WheelHeartbeat _ next_version_id ranges \<Rightarrow>
         cbind (handle_wheel_heartbeat node_id next_version_id ranges) (\<lambda>diffs. cok (Some diffs))
     | ExhausterHeartbeat \<Rightarrow>
         cbind (handle_exhauster_heartbeat endpoint now node_id host port) (\<lambda>_. cok None)))"

section \<open>Configuration\<close>

record raw_lsm_tree_config =
  rc_l1_capacity :: string
  rc_level_multiplier :: nat
  rc_trigger_l0_compaction_ssts :: nat
  rc_trigger_l0_compaction_interval :: string
  rc_trigger_lmax_compaction_interval :: string
  rc_trigger_compaction_interval :: string
  rc_sstable_capacity :: string
  rc_block_capacity :: string
  rc_restart_interval :: nat
  rc_bloom_false_positive :: real
  rc_compaction_pin_ttl :: string
  rc_levels_options :: "level_options list"

record lsm_tree_config =
  lc_trigger_l0_compaction_ssts :: nat
  lc_trigger_l0_compaction_interval :: nat
  lc_trigger_lmax_compaction_interval :: nat
  lc_trigger_compaction_interval :: nat
  lc_l1_capacity :: nat
  lc_level_multiplier :: nat
  lc_sstable_capacity :: nat
  lc_block_capacity :: nat
  lc_restart_interval :: nat
  lc_bloom_false_positive :: real
  lc_compaction_pin_ttl :: nat
  lc_levels_options :: "level_options list"

text \<open>The parsers are those of the \<open>humantime\<close> and \<open>bytesize\<close> crates.\<close>

definition lsm_tree_config_try_from ::
  "(string \<Rightarrow> nat option) \<Rightarrow> (string \<Rightarrow> nat option) \<Rightarrow> raw_lsm_tree_config \<Rightarrow> lsm_tree_config res" where
  "lsm_tree_config_try_from parse_duration parse_size cfg =
     rbind (ok_or (ConfigError ''duration'') (parse_duration (rc_trigger_l0_compaction_interval cfg))) (\<lambda>l0_interval.
     rbind (ok_or (ConfigError ''duration'') (parse_duration (rc_trigger_lmax_compaction_interval cfg))) (\<lambda>lmax_interval.
     rbind (ok_or (ConfigError ''duration'') (parse_duration (rc_trigger_compaction_interval cfg))) (\<lambda>interval.
     rbind (ok_or (ConfigError ''size'') (parse_size (rc_l1_capacity cfg))) (\<lambda>l1_capacity.
     rbind (ok_or (ConfigError ''size'') (parse_size (rc_sstable_capacity cfg))) (\<lambda>sstable_capacity.
     rbind (ok_or (ConfigError ''size'') (parse_size (rc_block_capacity cfg))) (\<lambda>block_capacity.
     rbind (ok_or (ConfigError ''duration'') (parse_duration (rc_compaction_pin_ttl cfg))) (\<lambda>pin_ttl.
       Ok \<lparr>lc_trigger_l0_compaction_ssts = rc_trigger_l0_compaction_ssts cfg, lc_trigger_l0_compaction_interval = l0_interval,
           lc_trigger_lmax_compaction_interval = lmax_interval, lc_trigger_compaction_interval = interval,
           lc_l1_capacity = l1_capacity, lc_level_multiplier = rc_level_multiplier cfg, lc_sstable_capacity = sstable_capacity,
           lc_block_capacity = block_capacity, lc_restart_interval = rc_restart_interval cfg,
           lc_bloom_false_positive = rc_bloom_false_positive cfg, lc_compaction_pin_ttl = pin_ttl,
           lc_levels_options = rc_levels_options cfg\<rparr>)))))))"

section \<open>Which levels are too large\<close>

definition mul_u64 :: "nat \<Rightarrow> nat \<Rightarrow> nat res" where
  "mul_u64 a b = (if a * b < 2 ^ 64 then Ok (a * b) else Panic)"

fun check_levels :: "'os version_manager \<Rightarrow> nat \<Rightarrow> nat \<Rightarrow> nat list \<Rightarrow> bool list res" where
  "check_levels vm multiplier limit [] = Ok []"
| "check_levels vm multiplier limit (l # ls) =
     rbind (vm_level_data_size l vm) (\<lambda>size.
     rbind (mul_u64 limit multiplier) (\<lambda>limit'.
     rbind (check_levels vm multiplier limit' ls) (\<lambda>overstep. Ok ((size > limit) # overstep))))"

definition check_levels_size :: "nat \<Rightarrow> nat \<Rightarrow> 'os version_manager \<Rightarrow> bool list res" where
  "check_levels_size l1_capacity level_multiplier vm =
     rbind (sub_u64 (vm_levels_len vm) 1) (\<lambda>lmax.
     rbind (check_levels vm level_multiplier l1_capacity [1..<lmax]) (\<lambda>overstep. Ok (False # overstep @ [False])))"

section \<open>Picking tables to compact\<close>

record compaction_context =
  cc_level :: nat
  cc_config :: lsm_tree_config
  cc_health_timeout :: nat

record two_level_sstables =
  tl_first :: "nat list"
  tl_second :: "nat list"

definition tl_to_vec :: "two_level_sstables \<Rightarrow> nat list" where
  "tl_to_vec ssts = tl_first ssts @ tl_second ssts"

text \<open>A set of identifiers, kept in order.\<close>

definition btree_extend :: "nat list \<Rightarrow> nat list \<Rightarrow> nat list" where
  "btree_extend ids new = sort (remdups (new @ ids))"

text \<open>The random choices for the \<open>j\<close>th range of a node: an index up to a bound, and a sublist.\<close>

record compaction_choices =
  ch_index :: "nat \<Rightarrow> nat \<Rightarrow> nat \<Rightarrow> nat"
  ch_choose :: "nat \<Rightarrow> nat \<Rightarrow> nat \<Rightarrow> nat list \<Rightarrow> nat list"

definition vm_one_level :: "('os, nat list list) vm_call \<Rightarrow> ('os, nat list) vm_call" where
  "vm_one_level c = vbind c (\<lambda>jss. vbind (vres (rassert (length jss = 1))) (\<lambda>_. vok (hd jss)))"

fun pick_overlaps :: "'os object_store_ops \<Rightarrow> nat \<Rightarrow> nat list \<Rightarrow> ('os, nat list) vm_call" where
  "pick_overlaps ops level [] = vok []"
| "pick_overlaps ops level (i # is) =
     vbind (vm_one_level (pick_overlap_ssts_by_sst_id ops (level, level + 1) i)) (\<lambda>js.
     vbind (pick_overlaps ops level is) (\<lambda>ks. vok (js @ ks)))"

definition pick_range ::
  "'os object_store_ops \<Rightarrow> compaction_choices \<Rightarrow> compaction_context \<Rightarrow> nat \<Rightarrow> nat \<Rightarrow> key_range \<Rightarrow> ('os, nat list) vm_call" where
  "pick_range ops ch cc node j r =
     vbind (vm_one_level (pick_overlap_ssts_by_user_key_range ops (cc_level cc, cc_level cc + 1) r)) (\<lambda>base.
     if base = [] then vok []
     else if cc_level cc = 0 then vok base
     else
       vbind (vres (index (lc_levels_options (cc_config cc)) (cc_level cc))) (\<lambda>options.
       case lo_compaction_strategy options of
         NonOverlap \<Rightarrow>
           let involves = max (length base div 10) 1; first_idx = ch_index ch node j (length base - involves)
           in vres (slice first_idx (first_idx + involves) base)
       | Overlap \<Rightarrow>
           let involves = max (length base div 100) 1; ssts = ch_choose ch node j involves base
           in vbind (pick_overlaps ops (cc_level cc) ssts) (\<lambda>overlaps. vok (ssts @ overlaps))))"

fun pick_ranges ::
  "'os object_store_ops \<Rightarrow> compaction_choices \<Rightarrow> compaction_context \<Rightarrow> nat \<Rightarrow> nat \<Rightarrow> nat list \<Rightarrow> key_range list \<Rightarrow> ('os, nat list) vm_call" where
  "pick_ranges ops ch cc node j picked [] = vok picked"
| "pick_ranges ops ch cc node j picked (r # rs) =
     vbind (pick_range ops ch cc node j r) (\<lambda>is. pick_ranges ops ch cc node (Suc j) (btree_extend picked is) rs)"

definition pick_next_level :: "'os object_store_ops \<Rightarrow> compaction_context \<Rightarrow> nat list \<Rightarrow> ('os, nat list) vm_call" where
  "pick_next_level ops cc picked =
     (if cc_level cc + 1 < length (lc_levels_options (cc_config cc)) \<and>
         lo_compaction_strategy (lc_levels_options (cc_config cc) ! (cc_level cc + 1)) = NonOverlap
      then vbind (vm_one_level (pick_overlap_ssts_by_sst_ids ops (cc_level cc + 1, cc_level cc + 2) picked)) (\<lambda>is. vok (btree_extend [] is))
      else vok [])"

definition pick_node ::
  "'os object_store_ops \<Rightarrow> compaction_choices \<Rightarrow> compaction_context \<Rightarrow> rudder_meta \<Rightarrow> nat \<Rightarrow> nat \<times> key_range list \<Rightarrow>
     ('os, (nat \<times> two_level_sstables) list) vm_call" where
  "pick_node ops ch cc rm now x =
     vbind (pick_ranges ops ch cc (fst x) 0 [] (snd x)) (\<lambda>picked.
     if cc_level cc = 0 \<and> length picked < lc_trigger_l0_compaction_ssts (cc_config cc) then vok []
     else
       vbind (pick_next_level ops cc picked) (\<lambda>nxt.
       if list_ex id (is_sstables_pinned picked now rm @ is_sstables_pinned nxt now rm) then vok []
       else vok [(fst x, \<lparr>tl_first = picked, tl_second = nxt\<rparr>)]))"

fun pick_ssts ::
  "'os object_store_ops \<Rightarrow> compaction_choices \<Rightarrow> compaction_context \<Rightarrow> rudder_meta \<Rightarrow> nat \<Rightarrow> (nat \<times> key_range list) list \<Rightarrow>
     ('os, (nat \<times> two_level_sstables) list) vm_call" where
  "pick_ssts ops ch cc rm now [] = vok []"
| "pick_ssts ops ch cc rm now (x # xs) =
     vbind (pick_node ops ch cc rm now x) (\<lambda>ps. vbind (pick_ssts ops ch cc rm now xs) (\<lambda>qs. vok (ps @ qs)))"

fun no_duplication :: "nat list \<Rightarrow> nat list \<Rightarrow> bool" where
  "no_duplication unique [] = True"
| "no_duplication unique (v # vs) = (v \<notin> set unique \<and> no_duplication (v # unique) vs)"

definition verify_no_duplication :: "nat list \<Rightarrow> bool" where
  "verify_no_duplication ids = no_duplication [] ids"

section \<open>Compactions\<close>

text \<open>The rudder, and the exhausters it can reach.\<close>

record ('os, 'ep, 'ch) cluster =
  cl_rudder :: "('os, 'ep, 'ch) rudder"
  cl_exhausters :: "nat \<rightharpoonup> 'os exhauster"

record ('os, 'ep, 'ch) detector_env =
  de_tables :: "'os table_env"
  de_fuel :: nat
  de_connect :: "'ep \<Rightarrow> 'ch option"
  de_node_of :: "'ch \<Rightarrow> nat"
  de_shuffle :: "nat list \<Rightarrow> nat list"
  de_choices :: compaction_choices

abbreviation rd_store :: "('os, 'ep, 'ch) rudder \<Rightarrow> 'os sstable_store" where
  "rd_store rd \<equiv> vm_store (rd_version_manager rd)"

definition with_objects :: "'os \<Rightarrow> 'os sstable_store \<Rightarrow> 'os sstable_store" where
  "with_objects os st = st\<lparr>ss_object_store := os\<rparr>"

definition on_rudder :: "(('os, 'ep, 'ch) rudder, 'a) call \<Rightarrow> (('os, 'ep, 'ch) cluster, 'a) call" where
  "on_rudder c cl = (let (r, rd) = c (cl_rudder cl) in (r, cl\<lparr>cl_rudder := rd\<rparr>))"

text \<open>A remote compaction: the exhauster sees the objects of the store and leaves those it wrote. An error
  of the handler arrives as a status.\<close>

definition rpc_compaction ::
  "('os, 'ep, 'ch) detector_env \<Rightarrow> nat \<Rightarrow> compaction_request \<Rightarrow> (('os, 'ep, 'ch) cluster, compaction_response) call" where
  "rpc_compaction de node req cl =
     (case cl_exhausters cl node of
        None \<Rightarrow> (Err RpcStatus, cl)
      | Some ex \<Rightarrow>
          let rd = cl_rudder cl;
              (r, ex) = compaction (de_tables de) (de_fuel de) req
                (ex\<lparr>ex_sstable_store := with_objects (ss_object_store (rd_store rd)) (ex_sstable_store ex)\<rparr>);
              vm = (rd_version_manager rd)\<lparr>vm_store := with_objects (ss_object_store (ex_sstable_store ex)) (rd_store rd)\<rparr>
          in (map_err (\<lambda>_. RpcStatus) r,
              cl\<lparr>cl_rudder := rd\<lparr>rd_version_manager := vm\<rparr>, cl_exhausters := (cl_exhausters cl)(node \<mapsto> ex)\<rparr>))"

definition target_level :: "compaction_context \<Rightarrow> nat" where
  "target_level cc = (if cc_level cc + 1 = length (lc_levels_options (cc_config cc)) then cc_level cc else cc_level cc + 1)"

definition sub_compaction_request ::
  "compaction_context \<Rightarrow> two_level_sstables \<Rightarrow> bytes list \<Rightarrow> u64 \<Rightarrow> compaction_request res" where
  "sub_compaction_request cc old_ssts partition_points watermark =
     rbind (index (lc_levels_options (cc_config cc)) (target_level cc)) (\<lambda>options.
     rbind (sub_u64 (length (lc_levels_options (cc_config cc))) 1) (\<lambda>lmax.
       Ok \<lparr>cr_sst_ids = tl_to_vec old_ssts, cr_watermark = watermark, cr_sstable_capacity = lc_sstable_capacity (cc_config cc),
           cr_block_capacity = lc_block_capacity (cc_config cc), cr_restart_interval = lc_restart_interval (cc_config cc),
           cr_bloom_false_positive = lc_bloom_false_positive (cc_config cc),
           cr_compression_algorithm = of_nat (u64_of_compression (lo_compression_algorithm options)),
           cr_remove_tombstone = (target_level cc = lmax), cr_partition_points = partition_points\<rparr>))"

fun delete_diffs :: "(nat \<times> nat) list \<Rightarrow> nat \<Rightarrow> nat list \<Rightarrow> sstable_diff list res" where
  "delete_diffs sizes level [] = Ok []"
| "delete_diffs sizes level (i # is) =
     rbind (unwrap (map_of sizes i)) (\<lambda>n.
     rbind (delete_diffs sizes level is) (\<lambda>ds. Ok (\<lparr>sd_id = i, sd_level = level, sd_op = Delete, sd_data_size = n\<rparr> # ds)))"

text \<open>Collecting into a map keeps the last size of an identifier.\<close>

definition sub_compaction_diff ::
  "compaction_context \<Rightarrow> two_level_sstables \<Rightarrow> compaction_response \<Rightarrow> version_diff res" where
  "sub_compaction_diff cc old_ssts rsp =
     (let sizes = rev (map (\<lambda>info. (info_id info, info_data_size info)) (cp_old_sst_infos rsp)) in
      rbind (delete_diffs sizes (cc_level cc) (tl_first old_ssts)) (\<lambda>ds1.
      rbind (delete_diffs sizes (cc_level cc + 1) (tl_second old_ssts)) (\<lambda>ds2.
        Ok \<lparr>vd_id = 0, vd_sstable_diffs = ds1 @ ds2 @
          map (\<lambda>info. \<lparr>sd_id = info_id info, sd_level = target_level cc, sd_op = Insert, sd_data_size = info_data_size info\<rparr>)
            (cp_new_sst_infos rsp)\<rparr>)))"

definition pool_get :: "('ep \<Rightarrow> 'ch option) \<Rightarrow> nat \<Rightarrow> (('os, 'ep, 'ch) rudder, 'ch) call" where
  "pool_get connect node rd =
     (case cp_get connect node (rd_channel_pool rd) of
        Ok (channel, cp) \<Rightarrow> (Ok channel, rd\<lparr>rd_channel_pool := cp\<rparr>)
      | Err _ \<Rightarrow> (Err (Other ''channel''), rd)
      | Panic \<Rightarrow> (Panic, rd)
      | OutOfFuel \<Rightarrow> (OutOfFuel, rd))"

text \<open>\<open>elapsed\<close> is how long the remote compaction took.\<close>

definition sub_compaction ::
  "('os, 'ep, 'ch) detector_env \<Rightarrow> compaction_context \<Rightarrow> nat \<Rightarrow> nat \<Rightarrow> two_level_sstables \<Rightarrow> bytes list \<Rightarrow>
     (('os, 'ep, 'ch) cluster, unit) call" where
  "sub_compaction de cc now elapsed old_ssts partition_points =
     cbind (cget (\<lambda>cl. sub_compaction_request cc old_ssts partition_points (vm_watermark (rd_version_manager (cl_rudder cl))))) (\<lambda>req.
     cbind (cget (\<lambda>cl. pick_exhauster (de_shuffle de) now (cc_health_timeout cc) (rd_meta_store (cl_rudder cl)))) (\<lambda>exhauster.
     case exhauster of
       None \<Rightarrow> cok ()
     | Some node \<Rightarrow>
         cbind (on_rudder (pool_get (de_connect de) node)) (\<lambda>channel.
         cbind (rpc_compaction de (de_node_of de channel) req) (\<lambda>rsp.
         if elapsed > lc_compaction_pin_ttl (cc_config cc) then cok ()
         else
           cbind (cres (sub_compaction_diff cc old_ssts rsp)) (\<lambda>diff.
             on_rudder (on_manager (vm_update (te_objects (de_tables de)) diff False)))))))"

definition on_meta :: "(rudder_meta \<Rightarrow> 'a \<times> rudder_meta) \<Rightarrow> (('os, 'ep, 'ch) cluster, 'a) call" where
  "on_meta f cl =
     (let (a, rm) = f (rd_meta_store (cl_rudder cl)) in (Ok a, cl\<lparr>cl_rudder := (cl_rudder cl)\<lparr>rd_meta_store := rm\<rparr>\<rparr>))"

definition compaction_job_of ::
  "('os, 'ep, 'ch) detector_env \<Rightarrow> compaction_context \<Rightarrow> nat \<Rightarrow> (nat \<Rightarrow> nat) \<Rightarrow> bytes list \<Rightarrow> nat \<times> two_level_sstables \<Rightarrow>
     (('os, 'ep, 'ch) cluster, unit) call" where
  "compaction_job_of de cc now elapsed points x =
     cbind (on_meta (pin_sstables (tl_to_vec (snd x)) now)) (\<lambda>pinned.
     if \<not> pinned then cok ()
     else
       cbind (sub_compaction de cc now (elapsed (fst x)) (snd x) points) (\<lambda>_.
         on_meta (\<lambda>rm. ((), unpin_sstables (tl_to_vec (snd x)) rm))))"

text \<open>The jobs of all nodes run to their end, one after the other here; an error in one is reported after
  all are done, a panic ends them.\<close>

fun run_jobs :: "(('s, unit) call) list \<Rightarrow> bool \<Rightarrow> ('s, bool) call" where
  "run_jobs [] failed = cok failed"
| "run_jobs (c # cs) failed =
     (\<lambda>s. let (r, s) = c s in
        case r of
          Ok _ \<Rightarrow> run_jobs cs failed s
        | Err _ \<Rightarrow> run_jobs cs True s
        | Panic \<Rightarrow> (Panic, s)
        | OutOfFuel \<Rightarrow> (OutOfFuel, s))"

definition trigger_compaction ::
  "('os, 'ep, 'ch) detector_env \<Rightarrow> compaction_context \<Rightarrow> nat \<Rightarrow> (nat \<Rightarrow> nat) \<Rightarrow> (('os, 'ep, 'ch) cluster, unit) call" where
  "trigger_compaction de cc now elapsed cl =
     (let rm = rd_meta_store (cl_rudder cl); node_ranges = all_node_ranges rm;
          points = concat (map (\<lambda>x. map fst (snd x)) node_ranges)
      in cbind (on_rudder (on_manager (pick_ssts (te_objects (de_tables de)) (de_choices de) cc rm now node_ranges))) (\<lambda>picked.
         let old_ssts = concat (map (tl_to_vec \<circ> snd) picked) in
         if old_ssts = [] then cok ()
         else
           cbind (cres (rassert (verify_no_duplication old_ssts))) (\<lambda>_.
           cbind (run_jobs (map (compaction_job_of de cc now elapsed points) picked) False) (\<lambda>failed.
             if failed then cres (Err (Other ''compaction error'')) else cok ()))) cl)"

section \<open>Pins\<close>

lemma fold_pin: "fold (\<lambda>i m. m(i \<mapsto> time)) ids m i = (if i \<in> set ids then Some time else m i)"
  by (induction ids arbitrary: m) auto

lemma fold_unpin: "fold (\<lambda>i m. m(i := None)) ids m i = (if i \<in> set ids then None else m i)"
  by (induction ids arbitrary: m) auto

text \<open>A pin does not exclude anybody: tables that are pinned, and are reported as pinned, can be pinned
  again at once by somebody else; it is only after the pin has expired that pinning them is refused,
  until they are unpinned.\<close>

theorem pin_does_not_exclude:
  assumes "pin_sstables ids t rm = (True, rm')" "ids \<noteq> []"
  shows "(\<forall>t'. t' \<le> t + rm_sstable_pin_ttl rm \<longrightarrow> list_all id (is_sstables_pinned ids t' rm') \<and> fst (pin_sstables ids t' rm')) \<and>
    (\<forall>t'. t + rm_sstable_pin_ttl rm < t' \<longrightarrow> \<not> list_ex id (is_sstables_pinned ids t' rm') \<and> \<not> fst (pin_sstables ids t' rm')) \<and>
    (\<forall>t'. fst (pin_sstables ids t' (unpin_sstables ids rm')))"
proof -
  have rm': "rm' = rm\<lparr>rm_pinned_sstables := fold (\<lambda>i m. m(i \<mapsto> t)) ids (rm_pinned_sstables rm)\<rparr>"
    using assms(1) by (auto simp: pin_sstables_def split: if_splits)
  have pinned: "i \<in> set ids \<Longrightarrow> rm_pinned_sstables rm' i = Some t" for i by (simp add: rm' fold_pin)
  have free: "i \<in> set ids \<Longrightarrow> rm_pinned_sstables (unpin_sstables ids rm') i = None" for i by (simp add: unpin_sstables_def fold_unpin)
  have ttl: "rm_sstable_pin_ttl rm' = rm_sstable_pin_ttl rm" by (simp add: rm')
  have "pin_conflict t' rm' i \<longleftrightarrow> t + rm_sstable_pin_ttl rm < t'" "sstable_pinned t' rm' i \<longleftrightarrow> \<not> t + rm_sstable_pin_ttl rm < t'"
    "\<not> pin_conflict t' (unpin_sstables ids rm') i" if "i \<in> set ids" for t' i
    using pinned[OF that] free[OF that] ttl by (auto simp: pin_conflict_def sstable_pinned_def)
  moreover obtain i where "i \<in> set ids" using assms(2) by (cases ids) auto
  ultimately show ?thesis by (auto simp: pin_sstables_def is_sstables_pinned_def list_all_iff list_ex_iff)
qed

theorem pin_does_not_exclude_witness:
  "fst (pin_sstables [5] 13 (snd (pin_sstables [5] 10 (rudder_meta_new 60)))) \<and>
   is_sstables_pinned [5] 13 (snd (pin_sstables [5] 10 (rudder_meta_new 60))) = [True] \<and>
   \<not> fst (pin_sstables [5] 71 (snd (pin_sstables [5] 10 (rudder_meta_new 60))))"
proof -
  obtain rm' where rm': "pin_sstables [5] 10 (rudder_meta_new 60) = (True, rm')" by (simp add: pin_sstables_def pin_conflict_def rudder_meta_new_def)
  have "rm_sstable_pin_ttl (rudder_meta_new 60) = 60" by (simp add: rudder_meta_new_def)
  then show ?thesis using pin_does_not_exclude[OF rm'] rm' by (simp add: is_sstables_pinned_def)
qed

section \<open>Timestamps\<close>

fun tso_calls :: "nat \<Rightarrow> (('os, 'ep, 'ch) rudder, u32 list) call" where
  "tso_calls 0 = cok []"
| "tso_calls (Suc n) = cbind tso (\<lambda>t. cbind (tso_calls n) (\<lambda>ts. cok (t # ts)))"

text \<open>Timestamps increase: any number of calls of the timestamp service, as long as the 32 bits last,
  return consecutive timestamps; the call that would wrap around panics.\<close>

theorem tso_increases:
  assumes "unat (rm_timestamp (rd_meta_store rd)) + n < 2 ^ 32"
  shows "\<exists>rd'. tso_calls n rd = (Ok (map (\<lambda>i. rm_timestamp (rd_meta_store rd) + 1 + of_nat i) [0..<n]), rd') \<and>
    rm_timestamp (rd_meta_store rd') = rm_timestamp (rd_meta_store rd) + of_nat n \<and>
    sorted_wrt (<) (map (\<lambda>i. rm_timestamp (rd_meta_store rd) + 1 + of_nat i) [0..<n])"
proof -
  have run: "\<exists>rd'. tso_calls n rd = (Ok (map (\<lambda>i. rm_timestamp (rd_meta_store rd) + 1 + of_nat i) [0..<n]), rd') \<and>
      rm_timestamp (rd_meta_store rd') = rm_timestamp (rd_meta_store rd) + of_nat n"
    if "unat (rm_timestamp (rd_meta_store rd)) + n < 2 ^ 32" for n and rd :: "('a, 'b, 'c) rudder"
    using that
  proof (induction n arbitrary: rd)
    case (Suc n)
    let ?t = "rm_timestamp (rd_meta_store rd)"
    let ?rd = "rd\<lparr>rd_meta_store := (rd_meta_store rd)\<lparr>rm_timestamp := ?t + 1\<rparr>\<rparr>"
    have "unat ?t \<noteq> 2 ^ 32 - 1" using Suc.prems by auto
    then have ne: "?t \<noteq> - 1" by (auto simp: unsigned_minus_1_eq_mask mask_eq_exp_minus_1)
    then have "unat (?t + 1) = unat ?t + 1" using Suc.prems by (simp add: unat_word_ariths)
    then obtain rd' where "tso_calls n ?rd = (Ok (map (\<lambda>i. ?t + 1 + 1 + of_nat i) [0..<n]), rd')" "rm_timestamp (rd_meta_store rd') = ?t + 1 + of_nat n"
      using Suc.IH[of ?rd] Suc.prems by auto
    moreover have "tso rd = (Ok (?t + 1), ?rd)" using ne by (simp add: tso_def timestamp_fetch_add_def)
    moreover have "map (\<lambda>i. ?t + 1 + of_nat i) [0..<Suc n] = (?t + 1) # map (\<lambda>i. ?t + 1 + 1 + of_nat i) [0..<n]"
      unfolding upt_conv_Cons[OF zero_less_Suc] by (simp add: algebra_simps map_Suc_upt[symmetric] del: upt_Suc)
    ultimately show ?case by (simp add: algebra_simps)
  qed simp
  have "?thesis \<longleftrightarrow> sorted_wrt (<) (map (\<lambda>i. rm_timestamp (rd_meta_store rd) + 1 + of_nat i) [0..<n])" using run[OF assms] by auto
  moreover have "unat (rm_timestamp (rd_meta_store rd) + 1 + of_nat i) = unat (rm_timestamp (rd_meta_store rd)) + 1 + i" if "i < n" for i
    using assms that by (simp add: unat_word_ariths unat_of_nat)
  then have "sorted_wrt (<) (map (\<lambda>i. rm_timestamp (rd_meta_store rd) + 1 + of_nat i) [0..<n])"
    by (simp add: sorted_wrt_iff_nth_less word_less_nat_alt)
  ultimately show ?thesis by blast
qed

theorem tso_increases_witness:
  "fst (tso_calls 3 \<lparr>rd_version_manager = (\<lparr>vm_level_options = [], vm_levels = [], vm_levels_data_size = [], vm_diffs = [],
      vm_store = sstable_store_new ''t'' \<lparr>mo_objects = Map.empty\<rparr> Map.empty, vm_watermark = 0\<rparr>),
    rd_channel_pool = (cp_with_nodes id [] :: (net_node, nat) channel_pool), rd_meta_store = rudder_meta_new 60\<rparr>) = Ok [2, 3, 4]"
proof -
  let ?rd = "\<lparr>rd_version_manager = (\<lparr>vm_level_options = [], vm_levels = [], vm_levels_data_size = [], vm_diffs = [],
      vm_store = sstable_store_new ''t'' \<lparr>mo_objects = Map.empty\<rparr> Map.empty, vm_watermark = 0\<rparr>),
    rd_channel_pool = (cp_with_nodes id [] :: (net_node, nat) channel_pool), rd_meta_store = rudder_meta_new 60\<rparr>"
  have "unat (rm_timestamp (rd_meta_store ?rd)) + 3 < 2 ^ 32" by (simp add: rudder_meta_new_def)
  from tso_increases[OF this] show ?thesis by (auto simp: rudder_meta_new_def upt_rec)
qed

section \<open>Level sizes\<close>

lemma check_levels_ok:
  assumes "l + n \<le> length (vm_levels_data_size vm)" "limit * m ^ n < 2 ^ 64" "0 < m"
  shows "check_levels vm m limit [l..<l + n] = Ok (map (\<lambda>i. vm_levels_data_size vm ! (l + i) > limit * m ^ i) [0..<n])"
  using assms(1,2)
proof (induction n arbitrary: l limit)
  case (Suc n)
  have "limit * m * m ^ n < 2 ^ 64" using Suc.prems(2) by (simp add: ac_simps)
  then have IH: "check_levels vm m (limit * m) [Suc l..<Suc l + n] = Ok (map (\<lambda>i. vm_levels_data_size vm ! (Suc l + i) > limit * m * m ^ i) [0..<n])"
    using Suc.IH[of "Suc l"] Suc.prems(1) by simp
  have "limit * m \<le> limit * m * m ^ n" using assms(3) by simp
  then have "limit * m < 2 ^ 64" using \<open>limit * m * m ^ n < 2 ^ 64\<close> by (rule le_less_trans)
  then have "mul_u64 limit m = Ok (limit * m)" by (simp add: mul_u64_def)
  moreover have "[l..<l + Suc n] = l # [Suc l..<Suc l + n]" by (simp add: upt_conv_Cons)
  moreover have "vm_level_data_size l vm = Ok (vm_levels_data_size vm ! l)" using Suc.prems(1) by (simp add: vm_level_data_size_def index_def)
  moreover have "map f [0..<Suc n] = f 0 # map (\<lambda>i. f (Suc i)) [0..<n]" for f :: "nat \<Rightarrow> bool"
    unfolding upt_conv_Cons[OF zero_less_Suc] by (simp add: map_Suc_upt[symmetric] del: upt_Suc)
  ultimately show ?case using IH by (simp add: ac_simps del: upt_Suc)
qed simp

text \<open>The levels that are reported as too large are those whose size exceeds the capacity of the first
  level times the multiplier to the power of their distance to it; the first and the last level never
  are, and there is one answer per level.\<close>

theorem check_levels_size_limits:
  assumes "2 \<le> vm_levels_len vm" "length (vm_levels_data_size vm) = vm_levels_len vm" "0 < m" "c * m ^ (vm_levels_len vm - 2) < 2 ^ 64"
  shows "\<exists>overstep. check_levels_size c m vm = Ok overstep \<and> length overstep = vm_levels_len vm \<and>
    (\<forall>l < vm_levels_len vm. overstep ! l \<longleftrightarrow> 0 < l \<and> l < vm_levels_len vm - 1 \<and> vm_levels_data_size vm ! l > c * m ^ (l - 1))"
proof -
  let ?n = "vm_levels_len vm - 2" and ?k = "vm_levels_len vm"
  have k: "1 + ?n = ?k - 1" using assms(1) by simp
  have "check_levels vm m c [1..<1 + ?n] = Ok (map (\<lambda>i. vm_levels_data_size vm ! (1 + i) > c * m ^ i) [0..<?n])"
    by (rule check_levels_ok) (use assms in auto)
  then have "check_levels vm m c [1..<?k - 1] = Ok (map (\<lambda>i. vm_levels_data_size vm ! (1 + i) > c * m ^ i) [0..<?n])" unfolding k .
  then have c: "check_levels_size c m vm = Ok (False # map (\<lambda>i. vm_levels_data_size vm ! (1 + i) > c * m ^ i) [0..<?n] @ [False])" (is "_ = Ok ?o")
    using assms(1) by (simp add: check_levels_size_def sub_u64_def)
  have "?o ! l \<longleftrightarrow> 0 < l \<and> l < ?k - 1 \<and> vm_levels_data_size vm ! l > c * m ^ (l - 1)" if "l < ?k" for l
    using that k by (cases l) (auto simp: nth_append)
  then show ?thesis using c assms(1) by (intro exI[of _ ?o]) simp
qed

theorem check_levels_size_limits_witness:
  "check_levels_size 100 10 (example_manager [5] (sstable_store_new ''t'' \<lparr>mo_objects = Map.empty\<rparr> Map.empty)\<lparr>vm_levels := [[], [1], [2], [3]], vm_levels_data_size := [500, 101, 999, 9999]\<rparr>) =
    Ok [False, True, False, False]"
proof -
  let ?vm = "example_manager [5] (sstable_store_new ''t'' \<lparr>mo_objects = Map.empty\<rparr> Map.empty)\<lparr>vm_levels := [[], [1], [2], [3]], vm_levels_data_size := [500, 101, 999, 9999]\<rparr>"
  have k: "vm_levels_len ?vm = 4" by (simp add: vm_levels_len_def)
  obtain overstep where o: "check_levels_size 100 10 ?vm = Ok overstep" "length overstep = 4"
    "\<forall>l < 4. overstep ! l \<longleftrightarrow> 0 < l \<and> l < 3 \<and> vm_levels_data_size ?vm ! l > 100 * 10 ^ (l - 1)"
    using check_levels_size_limits[of ?vm 10 100] k by auto
  have "overstep = [overstep ! 0, overstep ! 1, overstep ! 2, overstep ! 3]"
    using o(2) by (simp add: list_eq_iff_nth_eq less_Suc_eq numeral_eq_Suc)
  then show ?thesis using o(1,3) by simp
qed

section \<open>Nodes without tables\<close>

text \<open>What one node contributes when the manager finds no table for any of its ranges.\<close>

lemma reads_pick_no_range:
  assumes "\<forall>r \<in> set ranges. vm_reads objects decompress crc32 tabs opts levels
    (pick_overlap_ssts_by_user_key_range ops (cc_level cc, cc_level cc + 1) r) [[]]"
  shows "vm_reads objects decompress crc32 tabs opts levels (pick_ranges ops ch cc node j [] ranges) []"
  using assms
proof (induction ranges arbitrary: j)
  case (Cons r rs)
  have one: "vm_reads objects decompress crc32 tabs opts levels (vm_one_level (pick_overlap_ssts_by_user_key_range ops (cc_level cc, cc_level cc + 1) r)) []"
    unfolding vm_one_level_def by (rule reads_vbind, rule bspec[OF Cons.prems], simp, rule reads_vbind, rule reads_vres, simp, simp add: reads_vok)
  have "vm_reads objects decompress crc32 tabs opts levels (pick_range ops ch cc node j r) []"
    unfolding pick_range_def by (rule reads_vbind[OF one]) (simp add: reads_vok)
  then show ?case using Cons.IH[of "Suc j"] Cons.prems unfolding pick_ranges.simps
    by (intro reads_vbind) (auto simp: btree_extend_def)
qed (simp add: reads_vok)

lemma pick_next_level_idle:
  assumes "cc_level cc + 1 < length (lc_levels_options (cc_config cc))"
    "lo_compaction_strategy (lc_levels_options (cc_config cc) ! (cc_level cc + 1)) = NonOverlap"
  shows "pick_next_level ops cc [] vm = (Panic, vm)"
  using assms by (simp add: pick_next_level_def vm_one_level_def pick_overlap_ssts_by_sst_ids_def vbind_def vok_def vres_def)

text \<open>C33. A node without tables stops the compaction of a level. At a level other than level 0 that has a
  next level without overlapping tables, when no table of the level overlaps the ranges of the first
  node, in the order of their identifiers, that has sent a heartbeat, for instance because no range was given to it
  yet, picking tables panics on the length of an empty answer: the trigger ends before any node's tables are
  compacted, and the levels stay as they are.\<close>

theorem idle_node_stops_compaction:
  assumes "cc_level cc \<noteq> 0" "cc_level cc + 1 < length (lc_levels_options (cc_config cc))"
    and "lo_compaction_strategy (lc_levels_options (cc_config cc) ! (cc_level cc + 1)) = NonOverlap"
    and "rm_node_ranges (rd_meta_store (cl_rudder cl)) = (node, ranges) # rest"
    and "ss_inv objects decompress crc32 tabs (rd_store (cl_rudder cl))"
    and "\<forall>r \<in> set ranges. vm_reads objects decompress crc32 tabs (vm_level_options (rd_version_manager (cl_rudder cl)))
      (vm_levels (rd_version_manager (cl_rudder cl)))
      (pick_overlap_ssts_by_user_key_range (te_objects (de_tables de)) (cc_level cc, cc_level cc + 1) r) [[]]"
  shows "fst (trigger_compaction de cc now elapsed cl) = Panic \<and>
    vm_levels (rd_version_manager (cl_rudder (snd (trigger_compaction de cc now elapsed cl)))) = vm_levels (rd_version_manager (cl_rudder cl))"
proof -
  let ?ops = "te_objects (de_tables de)" and ?vm = "rd_version_manager (cl_rudder cl)" and ?rm = "rd_meta_store (cl_rudder cl)"
  from reads_pick_no_range[OF assms(6), where ch = "de_choices de" and node = node and j = 0]
  obtain st where ranges: "pick_ranges ?ops (de_choices de) cc node 0 [] ranges ?vm = (Ok [], ?vm\<lparr>vm_store := st\<rparr>)"
    using assms(5) unfolding vm_reads_def by blast
  have "pick_node ?ops (de_choices de) cc ?rm now (node, ranges) ?vm = (Panic, ?vm\<lparr>vm_store := st\<rparr>)"
    using ranges assms(1) pick_next_level_idle[OF assms(2,3), of ?ops] by (simp add: pick_node_def vbind_def)
  then have "pick_ssts ?ops (de_choices de) cc ?rm now ((node, ranges) # rest) ?vm = (Panic, ?vm\<lparr>vm_store := st\<rparr>)" by (simp add: vbind_def)
  then have "trigger_compaction de cc now elapsed cl = (Panic, cl\<lparr>cl_rudder := (cl_rudder cl)\<lparr>rd_version_manager := ?vm\<lparr>vm_store := st\<rparr>\<rparr>\<rparr>)"
    using assms(4) by (simp add: trigger_compaction_def all_node_ranges_def Let_def on_rudder_def on_manager_def)
  then show ?thesis by simp
qed

definition example_context :: compaction_context where
  "example_context =
     \<lparr>cc_level = 1,
      cc_config = \<lparr>lc_trigger_l0_compaction_ssts = 4, lc_trigger_l0_compaction_interval = 1, lc_trigger_lmax_compaction_interval = 9,
        lc_trigger_compaction_interval = 1, lc_l1_capacity = 100, lc_level_multiplier = 10, lc_sstable_capacity = 1024,
        lc_block_capacity = 32, lc_restart_interval = 2, lc_bloom_false_positive = 1, lc_compaction_pin_ttl = 60,
        lc_levels_options = replicate 3 \<lparr>lo_compaction_strategy = NonOverlap, lo_compression_algorithm = Lz4\<rparr>\<rparr>,
      cc_health_timeout = 10\<rparr>"

definition example_cluster :: "rudder_meta \<Rightarrow> (mem_object_store, net_node, nat) cluster" where
  "example_cluster rm =
     \<lparr>cl_rudder = \<lparr>rd_version_manager = example_manager [] (sstable_store_new ''t'' \<lparr>mo_objects = Map.empty\<rparr> Map.empty),
        rd_channel_pool = cp_with_nodes id [], rd_meta_store = rm\<rparr>,
      cl_exhausters = Map.empty\<rparr>"

definition example_detector :: "(mem_object_store, net_node, nat) detector_env" where
  "example_detector =
     \<lparr>de_tables = example_table_env, de_fuel = 11, de_connect = (\<lambda>ep. Some (nn_id ep)), de_node_of = id, de_shuffle = id,
      de_choices = \<lparr>ch_index = (\<lambda>_ _ _. 0), ch_choose = (\<lambda>_ _ n is. take n is)\<rparr>\<rparr>"

theorem idle_node_stops_compaction_witness:
  "fst (trigger_compaction example_detector example_context 5 (\<lambda>_. 1)
     (example_cluster (update_node_ranges 1 [] (rudder_meta_new 60)))) = Panic"
proof -
  let ?cl = "example_cluster (update_node_ranges 1 [] (rudder_meta_new 60))"
  have "ss_inv mo_objects stored_decompress (\<lambda>_. 7) Map.empty (rd_store (cl_rudder ?cl))"
    using mem_os.run_inv[OF run_new] by (simp add: example_cluster_def)
  then have "fst (trigger_compaction example_detector example_context 5 (\<lambda>_. 1) ?cl) = Panic \<and>
    vm_levels (rd_version_manager (cl_rudder (snd (trigger_compaction example_detector example_context 5 (\<lambda>_. 1) ?cl)))) =
      vm_levels (rd_version_manager (cl_rudder ?cl))"
    by (intro idle_node_stops_compaction[where ranges = "[]" and rest = "[]" and node = 1])
      (simp_all add: example_context_def example_cluster_def update_node_ranges_def rudder_meta_new_def)
  then show ?thesis by blast
qed

end
