(* ===== verification/Uploader.thy ===== *)
theory Uploader
  imports Rudder
begin

text \<open>
  \<open>wheel/src/worker/sstable_uploader.rs\<close>: a raft node's worker that turns its oldest immutable memtable
  into tables of level 0, has the rudder record them, follows the rudder's versions and then drops the
  memtable.

  The uploader, the LSM tree and their version manager share one handle of the table store, that of the
  tree's manager. The rudder the worker calls is part of the state: it sees the same objects through a
  store of its own. The loop takes fuel, one unit per iteration, as the loop of the exhauster does.
\<close>

section \<open>The worker\<close>

record ('os, 'ep, 'ch) uploader =
  up_raft_node :: u64
  up_options :: sstable_builder_options
  up_lsm_tree :: "'os lsm_tree"
  up_channel_pool :: "('ep, 'ch) channel_pool"
  up_rudder_node_id :: nat
  up_sstable_sequential_id :: u64
  up_rudders :: "nat \<rightharpoonup> ('os, 'ep, 'ch) rudder"

record ('os, 'ep, 'ch) uploader_env =
  ue_tables :: "'os table_env"
  ue_connect :: "'ep \<Rightarrow> 'ch option"
  ue_node_of :: "'ch \<Rightarrow> nat"

definition uploader_new ::
  "u64 \<Rightarrow> sstable_builder_options \<Rightarrow> 'os lsm_tree \<Rightarrow> ('ep, 'ch) channel_pool \<Rightarrow> nat \<Rightarrow> (nat \<rightharpoonup> ('os, 'ep, 'ch) rudder) \<Rightarrow>
     ('os, 'ep, 'ch) uploader" where
  "uploader_new raft_node options lt cp rudder_node_id rudders =
     \<lparr>up_raft_node = raft_node, up_options = options, up_lsm_tree = lt, up_channel_pool = cp, up_rudder_node_id = rudder_node_id,
      up_sstable_sequential_id = 1, up_rudders = rudders\<rparr>"

abbreviation up_manager :: "('os, 'ep, 'ch) uploader \<Rightarrow> 'os version_manager" where
  "up_manager up \<equiv> lt_version_manager (up_lsm_tree up)"

definition up_set_manager :: "'os version_manager \<Rightarrow> ('os, 'ep, 'ch) uploader \<Rightarrow> ('os, 'ep, 'ch) uploader" where
  "up_set_manager vm up = up\<lparr>up_lsm_tree := (up_lsm_tree up)\<lparr>lt_version_manager := vm\<rparr>\<rparr>"

definition up_gen_sstable_id :: "(('os, 'ep, 'ch) uploader, nat) call" where
  "up_gen_sstable_id up =
     (Ok (sstable_id (up_raft_node up) (up_sstable_sequential_id up)),
      up\<lparr>up_sstable_sequential_id := up_sstable_sequential_id up + 1\<rparr>)"

definition up_build_and_upload_sst :: "'os table_env \<Rightarrow> nat \<Rightarrow> sstable_builder \<Rightarrow> (('os, 'ep, 'ch) uploader, sstable_info) call" where
  "up_build_and_upload_sst env i builder up =
     (let (r, st) = upload_sst env i builder (vm_store (up_manager up)) in (r, up_set_manager ((up_manager up)\<lparr>vm_store := st\<rparr>) up))"

section \<open>Writing the tables of a memtable\<close>

text \<open>The variables of the loop.\<close>

record upload_job =
  uj_iter :: skip_iter
  uj_builder :: "sstable_builder option"
  uj_sst_id :: nat
  uj_sst_infos :: "sstable_info list"

definition uj_open :: "upload_job \<Rightarrow> (('os, 'ep, 'ch) uploader, upload_job) call" where
  "uj_open uj =
     (case uj_builder uj of
        Some _ \<Rightarrow> cok uj
      | None \<Rightarrow>
          cbind up_gen_sstable_id (\<lambda>i.
          cbind (cget (\<lambda>up. sstable_builder_new (up_options up))) (\<lambda>sb.
            cok (uj\<lparr>uj_sst_id := i, uj_builder := Some sb\<rparr>))))"

definition uj_close :: "'os table_env \<Rightarrow> sstable_builder \<Rightarrow> upload_job \<Rightarrow> (('os, 'ep, 'ch) uploader, upload_job) call" where
  "uj_close env sb uj =
     cbind (up_build_and_upload_sst env (uj_sst_id uj) sb) (\<lambda>info.
       cok (uj\<lparr>uj_builder := None, uj_sst_infos := uj_sst_infos uj @ [info]\<rparr>))"

definition uj_take :: "'os table_env \<Rightarrow> sstable_builder \<Rightarrow> upload_job \<Rightarrow> upload_job res" where
  "uj_take env sb uj =
     rbind (sk_key (uj_iter uj)) (\<lambda>fk.
     rbind (user_key fk) (\<lambda>uk.
     rbind (sequence fk) (\<lambda>ts.
     rbind (sk_value (uj_iter uj)) (\<lambda>vraw.
     rbind (raw_to_value vraw) (\<lambda>v.
     rbind (sb_add (te_compress env) (te_crc32 env) (te_fingerprint32 env) uk ts v sb) (\<lambda>sb.
     rbind (sk_next (uj_iter uj)) (\<lambda>it.
       Ok (uj\<lparr>uj_builder := Some sb, uj_iter := it\<rparr>))))))))"

definition uj_step :: "'os table_env \<Rightarrow> upload_job \<Rightarrow> (('os, 'ep, 'ch) uploader, upload_job) call" where
  "uj_step env uj =
     cbind (uj_open uj) (\<lambda>uj.
     cbind (cres (unwrap (uj_builder uj))) (\<lambda>sb.
     cbind (cget (\<lambda>up. Ok (\<not> sb_is_empty sb \<and> sb_approximate_len sb \<ge> sbo_capacity (up_options up)))) (\<lambda>full.
       if full then uj_close env sb uj else cres (uj_take env sb uj))))"

fun uj_loop :: "'os table_env \<Rightarrow> nat \<Rightarrow> upload_job \<Rightarrow> (('os, 'ep, 'ch) uploader, upload_job) call" where
  "uj_loop env 0 uj = cres OutOfFuel"
| "uj_loop env (Suc fuel) uj =
     (if sk_valid (uj_iter uj) then cbind (uj_step env uj) (\<lambda>uj. uj_loop env fuel uj) else cok uj)"

definition uj_finish :: "'os table_env \<Rightarrow> upload_job \<Rightarrow> (('os, 'ep, 'ch) uploader, upload_job) call" where
  "uj_finish env uj = (case uj_builder uj of None \<Rightarrow> cok uj | Some sb \<Rightarrow> uj_close env sb uj)"

definition up_write_ssts :: "'os table_env \<Rightarrow> nat \<Rightarrow> memtable \<Rightarrow> (('os, 'ep, 'ch) uploader, sstable_info list) call" where
  "up_write_ssts env fuel mt =
     cbind (cres (sk_seek_to_first (memtable_iter mt))) (\<lambda>it.
     cbind (uj_loop env fuel \<lparr>uj_iter = it, uj_builder = None, uj_sst_id = 0, uj_sst_infos = []\<rparr>) (\<lambda>uj.
     cbind (uj_finish env uj) (\<lambda>uj. cok (uj_sst_infos uj))))"

section \<open>Following the rudder\<close>

definition up_pool_get :: "('ep \<Rightarrow> 'ch option) \<Rightarrow> (('os, 'ep, 'ch) uploader, 'ch) call" where
  "up_pool_get connect up =
     (case cp_get connect (up_rudder_node_id up) (up_channel_pool up) of
        Ok (channel, cp) \<Rightarrow> (Ok channel, up\<lparr>up_channel_pool := cp\<rparr>)
      | Err _ \<Rightarrow> (Err (Other ''channel''), up)
      | Panic \<Rightarrow> (Panic, up)
      | OutOfFuel \<Rightarrow> (OutOfFuel, up))"

text \<open>The remote call: the rudder sees the objects the worker wrote. An error of the handler arrives as a
  status.\<close>

definition rpc_insert_l0 ::
  "('os, 'ep, 'ch) uploader_env \<Rightarrow> nat \<Rightarrow> sstable_info list \<Rightarrow> nat \<Rightarrow> (('os, 'ep, 'ch) uploader, version_diff list) call" where
  "rpc_insert_l0 ue node infos next_version_id up =
     (case up_rudders up node of
        None \<Rightarrow> (Err RpcStatus, up)
      | Some rd \<Rightarrow>
          let vm = rd_version_manager rd;
              vm = vm\<lparr>vm_store := with_objects (ss_object_store (vm_store (up_manager up))) (vm_store vm)\<rparr>;
              (r, rd) = insert_l0 (te_objects (ue_tables ue)) infos next_version_id (rd\<lparr>rd_version_manager := vm\<rparr>)
          in (map_err (\<lambda>_. RpcStatus) r, up\<lparr>up_rudders := (up_rudders up)(node \<mapsto> rd)\<rparr>))"

text \<open>Every error of an update is passed over: a version that does not match with a warning, others silently.\<close>

definition up_sync :: "'os object_store_ops \<Rightarrow> version_diff \<Rightarrow> (('os, 'ep, 'ch) uploader, unit) call" where
  "up_sync ops diff up =
     (let (r, vm) = vm_update ops diff True (up_manager up)
      in (case r of Err _ \<Rightarrow> Ok () | _ \<Rightarrow> r, up_set_manager vm up))"

definition up_drop_memtable :: "(('os, 'ep, 'ch) uploader, unit) call" where
  "up_drop_memtable up =
     (case drop_oldest_immutable_memtable (up_lsm_tree up) of
        Ok (_, lt) \<Rightarrow> (Ok (), up\<lparr>up_lsm_tree := lt\<rparr>)
      | Err e \<Rightarrow> (Err e, up)
      | Panic \<Rightarrow> (Panic, up)
      | OutOfFuel \<Rightarrow> (OutOfFuel, up))"

definition notify_update_version :: "('os, 'ep, 'ch) uploader_env \<Rightarrow> sstable_info list \<Rightarrow> (('os, 'ep, 'ch) uploader, unit) call" where
  "notify_update_version ue infos =
     cbind (cget (\<lambda>up. add_u64 (vm_latest_version_id (up_manager up)) 1)) (\<lambda>next_version_id.
     cbind (up_pool_get (ue_connect ue)) (\<lambda>channel.
     cbind (rpc_insert_l0 ue (ue_node_of ue channel) infos next_version_id) (\<lambda>diffs.
     cbind (cfold (up_sync (te_objects (ue_tables ue))) diffs) (\<lambda>_.
       up_drop_memtable))))"

text \<open>One round. The capacity of the vector of infos is a division by the capacity of a table.\<close>

definition up_run_inner :: "('os, 'ep, 'ch) uploader_env \<Rightarrow> nat \<Rightarrow> (('os, 'ep, 'ch) uploader, unit) call" where
  "up_run_inner ue fuel =
     cbind (cget (\<lambda>up. Ok (get_oldest_immutable_memtable (up_lsm_tree up)))) (\<lambda>imm.
     case imm of
       None \<Rightarrow> cok ()
     | Some mt \<Rightarrow>
         cbind (cget (\<lambda>up. rassert (sbo_capacity (up_options up) \<noteq> 0))) (\<lambda>_.
         cbind (cres (memtable_is_empty mt)) (\<lambda>is_empty.
         if is_empty then cok ()
         else
           cbind (up_write_ssts (ue_tables ue) fuel mt) (\<lambda>infos.
             notify_update_version ue infos))))"

text \<open>The loop of the worker, for a number of rounds: errors of a round are logged and passed over.\<close>

fun up_rounds :: "('os, 'ep, 'ch) uploader_env \<Rightarrow> nat \<Rightarrow> nat \<Rightarrow> (('os, 'ep, 'ch) uploader, unit) call" where
  "up_rounds ue fuel 0 up = (Ok (), up)"
| "up_rounds ue fuel (Suc n) up =
     (let (r, up) = up_run_inner ue fuel up
      in case r of Panic \<Rightarrow> (Panic, up) | OutOfFuel \<Rightarrow> (OutOfFuel, up) | _ \<Rightarrow> up_rounds ue fuel n up)"

section \<open>The loop\<close>

lemma upload_sst_path:
  assumes "te_objects env = mem_object_store_ops" "upload_sst env i sb st = (r, st')"
  shows "ss_path st' = ss_path st"
  using assms by (auto simp: upload_sst_def ss_put_def mem_object_store_ops_def mem_os_put_def Let_def
      split: result.splits prod.splits if_splits elim!: continue_with.elims)

definition up_at ::
  "mem_object_store sstable_store \<Rightarrow> u64 \<Rightarrow> (mem_object_store, 'ep, 'ch) uploader \<Rightarrow> (mem_object_store, 'ep, 'ch) uploader" where
  "up_at st i up = (up_set_manager ((up_manager up)\<lparr>vm_store := st\<rparr>) up)\<lparr>up_sstable_sequential_id := i\<rparr>"

definition up_id :: "('os, 'ep, 'ch) uploader \<Rightarrow> nat \<Rightarrow> nat" where
  "up_id up j = sstable_id (up_raft_node up) (up_sstable_sequential_id up + of_nat j)"

text \<open>The tables \<open>ts\<close> are written, in order, from the worker's first state to the store \<open>st\<close>.\<close>

definition uploaded ::
  "mem_object_store table_env \<Rightarrow> (mem_object_store, 'ep, 'ch) uploader \<Rightarrow> written_table list \<Rightarrow> mem_object_store sstable_store \<Rightarrow> bool" where
  "uploaded env up ts st \<longleftrightarrow>
     (\<forall>t \<in> set ts. table_written env (up_options up) t) \<and> map fst ts = map (up_id up) [0..<length ts] \<and>
     ss_path st = ss_path (vm_store (up_manager up)) \<and> tables_stored env (up_options up) (vm_store (up_manager up)) ts st"

fun upload_builder ::
  "mem_object_store table_env \<Rightarrow> (mem_object_store, 'ep, 'ch) uploader \<Rightarrow> nat \<Rightarrow> version_entry list \<Rightarrow> nat \<Rightarrow> u64 \<Rightarrow> sstable_builder option \<Rightarrow> bool" where
  "upload_builder env up n cur i s None \<longleftrightarrow> cur = [] \<and> s = up_sstable_sequential_id up + of_nat n"
| "upload_builder env up n cur i s (Some sb) \<longleftrightarrow>
     cur \<noteq> [] \<and> env_sb_inv env (up_options up) cur sb \<and> i = up_id up n \<and> s = up_sstable_sequential_id up + of_nat n + 1"

definition upload_inv ::
  "mem_object_store table_env \<Rightarrow> (mem_object_store, 'ep, 'ch) uploader \<Rightarrow> version_entry list \<Rightarrow> written_table list \<Rightarrow> version_entry list \<Rightarrow>
     upload_job \<Rightarrow> mem_object_store sstable_store \<Rightarrow> u64 \<Rightarrow> bool" where
  "upload_inv env up ps ts cur uj st s \<longleftrightarrow>
     concat (map wt_versions ts) @ cur = ps \<and> uploaded env up ts st \<and> uj_sst_infos uj = map wt_info ts \<and>
     upload_builder env up (length ts) cur (uj_sst_id uj) s (uj_builder uj)"

lemma up_at_simps [simp]:
  "up_options (up_at st s up) = up_options up" "up_raft_node (up_at st s up) = up_raft_node up"
  "up_sstable_sequential_id (up_at st s up) = s" "up_manager (up_at st s up) = (up_manager up)\<lparr>vm_store := st\<rparr>"
  "up_set_manager ((up_manager up)\<lparr>vm_store := st'\<rparr>) (up_at st s up) = up_at st' s up"
  "(up_at st s up)\<lparr>up_sstable_sequential_id := s'\<rparr> = up_at st s' up"
  by (simp_all add: up_at_def up_set_manager_def)

lemma up_at_same [simp]: "up_at (vm_store (up_manager up)) (up_sstable_sequential_id up) up = up"
  by (simp add: up_at_def up_set_manager_def)

lemma up_id_less: "up_id up j < 2 ^ 64"
  unfolding up_id_def sstable_id_def using unsigned_less[where 'a = nat and 'b = 64] by simp

lemma up_close_ok:
  assumes env: "table_env_ok env" "options_ok (up_options up)" and fit: "versions_fit cur" "cur \<noteq> []"
    and up: "uploaded env up ts st" "uj_sst_infos uj = map wt_info ts" "env_sb_inv env (up_options up) cur sb" "uj_sst_id uj = up_id up (length ts)"
  shows "\<exists>t uj' st'. uj_close env sb uj (up_at st s up) = (Ok uj', up_at st' s up) \<and> wt_versions t = cur \<and> uploaded env up (ts @ [t]) st' \<and>
    uj_sst_infos uj' = map wt_info (ts @ [t]) \<and> uj_builder uj' = None \<and> uj_iter uj' = uj_iter uj"
proof -
  from upload_sst_ok[OF env up(3) fit up_id_less, of up "length ts" st] obtain t st' where
    t: "upload_sst env (up_id up (length ts)) sb st = (Ok (wt_info t), st')" "fst t = up_id up (length ts)" "wt_versions t = cur"
      "table_written env (up_options up) t" and
    inv: "\<forall>tabs. env_ss_inv env tabs st \<longrightarrow> tabs (up_id up (length ts)) = None \<longrightarrow> meta_fits (snd (snd (snd t))) \<longrightarrow>
      env_ss_inv env (tabs(up_id up (length ts) \<mapsto> wt_table (up_options up) t)) st'" by blast
  let ?uj = "uj\<lparr>uj_builder := None, uj_sst_infos := uj_sst_infos uj @ [wt_info t]\<rparr>"
  have "uj_close env sb uj (up_at st s up) = (Ok ?uj, up_at st' s up)"
    using t(1) up(4) by (simp add: uj_close_def up_build_and_upload_sst_def cbind_def)
  moreover have "ss_path st' = ss_path st" by (rule upload_sst_path[OF _ t(1)]) (use env(1) in \<open>simp add: table_env_ok_def\<close>)
  moreover have "tables_stored env (up_options up) (vm_store (up_manager up)) (ts @ [t]) st'"
    by (rule tables_stored_snoc[OF _ inv[folded t(2)]]) (use up(1) in \<open>simp add: uploaded_def\<close>)
  ultimately show ?thesis using up(1,2) t(2-4)
    by (intro exI[of _ t] exI[of _ ?uj] exI[of _ st']) (simp add: uploaded_def)
qed

lemma up_take_ok:
  assumes env: "table_env_ok env" "options_ok (up_options up)" and it: "sk_ahead (uj_iter uj) (map entry_of (x # rest))"
    and fit: "versions_fit (cur @ [x])" and sb: "env_sb_inv env (up_options up) cur sb"
  shows "\<exists>it' sb'. uj_take env sb uj = Ok (uj\<lparr>uj_builder := Some sb', uj_iter := it'\<rparr>) \<and> sk_ahead it' (map entry_of rest) \<and>
    env_sb_inv env (up_options up) (cur @ [x]) sb'"
proof -
  have "sk_key (uj_iter uj) = Ok (full_key (fst x) (fst (snd x)))" "sk_value (uj_iter uj) = Ok (raw_value (snd (snd x)))"
    using skip_fwd.ahead_key[of "uj_iter uj" "entry_of x"] skip_fwd.ahead_value[of "uj_iter uj" "entry_of x"] it
    by (auto simp: entry_of_def skip_iterator_ops_def)
  moreover obtain it' where "sk_next (uj_iter uj) = Ok it'" "sk_ahead it' (map entry_of rest)"
    using skip_fwd.ahead_next[of "uj_iter uj" "entry_of x" "map entry_of rest"] it by (auto simp: skip_iterator_ops_def)
  moreover obtain sb' where "sb_add (te_compress env) (te_crc32 env) (te_fingerprint32 env) (fst x) (fst (snd x)) (snd (snd x)) sb = Ok sb'"
    "env_sb_inv env (up_options up) (cur @ [x]) sb'" using env_add_ok[OF env sb fit] by blast
  ultimately show ?thesis by (intro exI[of _ it'] exI[of _ sb']) (simp add: uj_take_def)
qed

text \<open>One iteration either writes the open table or takes the next version.\<close>

lemma up_step_ok:
  assumes env: "table_env_ok env" "options_ok (up_options up)" and fit: "versions_fit (ps @ x # rest)"
    and inv: "upload_inv env up ps ts cur uj st s" and it: "sk_ahead (uj_iter uj) (map entry_of (x # rest))"
  shows "\<exists>uj' st' s'. uj_step env uj (up_at st s up) = (Ok uj', up_at st' s' up) \<and>
    ((\<exists>ts'. uj_builder uj \<noteq> None \<and> uj_builder uj' = None \<and> sk_ahead (uj_iter uj') (map entry_of (x # rest)) \<and> upload_inv env up ps ts' [] uj' st' s') \<or>
     (sk_ahead (uj_iter uj') (map entry_of rest) \<and> upload_inv env up (ps @ [x]) ts (cur @ [x]) uj' st' s'))"
proof -
  have cat: "concat (map wt_versions ts) @ cur = ps" and up: "uploaded env up ts st" "uj_sst_infos uj = map wt_info ts"
    and bu: "upload_builder env up (length ts) cur (uj_sst_id uj) s (uj_builder uj)" using inv by (auto simp: upload_inv_def)
  have fits: "versions_fit (cur @ [x])" "versions_fit cur"
    using fit versions_fit_append[of "concat (map wt_versions ts)" "(cur @ [x]) @ rest"] versions_fit_append[of "cur @ [x]" rest]
      versions_fit_append[of cur "[x]"] cat by auto
  show ?thesis
  proof (cases "uj_builder uj")
    case None
    then have b: "cur = []" "s = up_sstable_sequential_id up + of_nat (length ts)" using bu by auto
    obtain sb where sb: "sstable_builder_new (up_options up) = Ok sb" "env_sb_inv env (up_options up) [] sb" "sb_is_empty sb"
      using env_new_ok[OF env(2), of env] by blast
    let ?uj = "uj\<lparr>uj_sst_id := up_id up (length ts), uj_builder := Some sb\<rparr>"
    have op: "uj_open uj (up_at st s up) = (Ok ?uj, up_at st (s + 1) up)"
      using None sb(1) b(2) by (simp add: uj_open_def up_gen_sstable_id_def cbind_def up_id_def)
    obtain it' sb' where t: "uj_take env sb ?uj = Ok (?uj\<lparr>uj_builder := Some sb', uj_iter := it'\<rparr>)" "sk_ahead it' (map entry_of rest)"
      "env_sb_inv env (up_options up) ([] @ [x]) sb'" using up_take_ok[OF env, of ?uj x rest "[]" sb] it fits b(1) sb(2) by auto
    have "uj_step env uj (up_at st s up) = (Ok (?uj\<lparr>uj_builder := Some sb', uj_iter := it'\<rparr>), up_at st (s + 1) up)"
      using op t(1) sb(3) by (simp add: uj_step_def cbind_def)
    moreover have "upload_inv env up (ps @ [x]) ts (cur @ [x]) (?uj\<lparr>uj_builder := Some sb', uj_iter := it'\<rparr>) st (s + 1)"
      using cat up b t(3) by (simp add: upload_inv_def)
    ultimately show ?thesis using t(2) by (intro exI) auto
  next
    case (Some sb)
    then have b: "cur \<noteq> []" "env_sb_inv env (up_options up) cur sb" "uj_sst_id uj = up_id up (length ts)"
      "s = up_sstable_sequential_id up + of_nat (length ts) + 1" using bu by auto
    let ?full = "\<not> sb_is_empty sb \<and> sb_approximate_len sb \<ge> sbo_capacity (up_options up)"
    have step: "uj_step env uj (up_at st s up) = (if ?full then uj_close env sb uj else cres (uj_take env sb uj)) (up_at st s up)"
      using Some by (simp add: uj_step_def cbind_def uj_open_def)
    show ?thesis
    proof (cases ?full)
      case True
      from up_close_ok[OF env fits(2) b(1) up b(2,3), of s] obtain t uj' st' where
        "uj_close env sb uj (up_at st s up) = (Ok uj', up_at st' s up)" "wt_versions t = cur" "uploaded env up (ts @ [t]) st'"
        "uj_sst_infos uj' = map wt_info (ts @ [t])" "uj_builder uj' = None" "uj_iter uj' = uj_iter uj" by blast
      moreover from this have "upload_inv env up ps (ts @ [t]) [] uj' st' s" using cat b(4) by (simp add: upload_inv_def algebra_simps)
      ultimately show ?thesis using step True Some it by (intro exI[of _ uj'] exI[of _ st'] exI[of _ s]) auto
    next
      case False
      from up_take_ok[OF env it fits(1) b(2)] obtain it' sb' where
        t: "uj_take env sb uj = Ok (uj\<lparr>uj_builder := Some sb', uj_iter := it'\<rparr>)" "sk_ahead it' (map entry_of rest)"
          "env_sb_inv env (up_options up) (cur @ [x]) sb'" by blast
      then have "upload_inv env up (ps @ [x]) ts (cur @ [x]) (uj\<lparr>uj_builder := Some sb', uj_iter := it'\<rparr>) st s"
        using cat up b by (simp add: upload_inv_def)
      then show ?thesis using step False t by (intro exI[of _ "uj\<lparr>uj_builder := Some sb', uj_iter := it'\<rparr>"] exI[of _ st] exI[of _ s]) auto
    qed
  qed
qed

text \<open>Two iterations per version are enough.\<close>

lemma up_loop_ok:
  assumes env: "table_env_ok env" "options_ok (up_options up)"
  shows "versions_fit (ps @ rest) \<Longrightarrow> upload_inv env up ps ts cur uj st s \<Longrightarrow> sk_ahead (uj_iter uj) (map entry_of rest) \<Longrightarrow>
    2 * length rest + (if uj_builder uj = None then 0 else 1) < fuel \<Longrightarrow>
    \<exists>uj' st' s' ts' cur'. uj_loop env fuel uj (up_at st s up) = (Ok uj', up_at st' s' up) \<and> upload_inv env up (ps @ rest) ts' cur' uj' st' s'"
proof (induction fuel arbitrary: ps rest ts cur uj st s)
  case (Suc fuel)
  have valid: "sk_valid (uj_iter uj) \<longleftrightarrow> rest \<noteq> []" using skip_fwd.ahead_valid[OF Suc.prems(3)] by (simp add: skip_iterator_ops_def)
  show ?case
  proof (cases rest)
    case Nil
    then show ?thesis using Suc.prems(2) valid by auto
  next
    case (Cons x rest')
    from up_step_ok[OF env Suc.prems(1-3)[unfolded Cons]] obtain uj1 st1 s1 where
      step: "uj_step env uj (up_at st s up) = (Ok uj1, up_at st1 s1 up)"
      and or: "(\<exists>ts'. uj_builder uj \<noteq> None \<and> uj_builder uj1 = None \<and> sk_ahead (uj_iter uj1) (map entry_of rest) \<and>
          upload_inv env up ps ts' [] uj1 st1 s1) \<or>
        (sk_ahead (uj_iter uj1) (map entry_of rest') \<and> upload_inv env up (ps @ [x]) ts (cur @ [x]) uj1 st1 s1)"
      unfolding Cons by blast
    have loop: "uj_loop env (Suc fuel) uj (up_at st s up) = uj_loop env fuel uj1 (up_at st1 s1 up)" using valid step Cons by simp
    from or show ?thesis
    proof (elim disjE exE conjE)
      fix ts' assume "uj_builder uj \<noteq> None" "uj_builder uj1 = None" "sk_ahead (uj_iter uj1) (map entry_of rest)" "upload_inv env up ps ts' [] uj1 st1 s1"
      then show ?thesis unfolding loop using Suc.IH[of ps rest ts' "[]" uj1 st1 s1] Suc.prems(1,4) by (simp split: if_splits)
    next
      assume "sk_ahead (uj_iter uj1) (map entry_of rest')" "upload_inv env up (ps @ [x]) ts (cur @ [x]) uj1 st1 s1"
      then show ?thesis unfolding loop using Suc.IH[of "ps @ [x]" rest' ts "cur @ [x]" uj1 st1 s1] Suc.prems(1,4) Cons by (simp split: if_splits)
    qed
  qed
qed simp

text \<open>The tables of a memtable hold its versions, in order.\<close>

lemma up_write_ssts_ok:
  assumes env: "table_env_ok env" "options_ok (up_options up)" and mt: "mt_rep mt xs" "versions_fit xs" and fuel: "2 * length xs < fuel"
  shows "\<exists>ts st s. up_write_ssts env fuel mt up = (Ok (map wt_info ts), up_at st s up) \<and> uploaded env up ts st \<and> concat (map wt_versions ts) = xs"
proof -
  have "sk_over (memtable_iter mt) (map entry_of xs)" using mt(1) by (auto simp: mt_rep_def sk_over_def memtable_iter_def sk_iter_def)
  then obtain it where it: "sk_seek_to_first (memtable_iter mt) = Ok it" "sk_ahead it (map entry_of xs)"
    using skip_fwd.over_first[of "memtable_iter mt"] by (auto simp: skip_iterator_ops_def outcome_simps)
  let ?uj = "\<lparr>uj_iter = it, uj_builder = None, uj_sst_id = 0, uj_sst_infos = []\<rparr>"
  have "upload_inv env up [] [] [] ?uj (vm_store (up_manager up)) (up_sstable_sequential_id up)"
    by (simp add: upload_inv_def uploaded_def tables_stored_def)
  from up_loop_ok[OF env _ this, of xs fuel] it(2) mt(2) fuel obtain uj st s ts cur where
    loop: "uj_loop env fuel ?uj up = (Ok uj, up_at st s up)" "upload_inv env up xs ts cur uj st s" by auto
  have i: "concat (map wt_versions ts) @ cur = xs" "uploaded env up ts st" "uj_sst_infos uj = map wt_info ts"
    "upload_builder env up (length ts) cur (uj_sst_id uj) s (uj_builder uj)" using loop(2) by (auto simp: upload_inv_def)
  show ?thesis
  proof (cases "uj_builder uj")
    case None
    then show ?thesis using it(1) loop(1) i by (auto simp: up_write_ssts_def uj_finish_def)
  next
    case (Some sb)
    then have b: "cur \<noteq> []" "env_sb_inv env (up_options up) cur sb" "uj_sst_id uj = up_id up (length ts)" using i(4) by auto
    have "versions_fit cur" using mt(2) i(1) versions_fit_append by metis
    from up_close_ok[OF env this b(1) i(2,3) b(2,3), of s] obtain t uj' st' where
      "uj_close env sb uj (up_at st s up) = (Ok uj', up_at st' s up)" "wt_versions t = cur" "uploaded env up (ts @ [t]) st'"
      "uj_sst_infos uj' = map wt_info (ts @ [t])" by blast
    then show ?thesis using it(1) loop(1) i(1) Some
      by (intro exI[of _ "ts @ [t]"] exI[of _ st'] exI[of _ s]) (simp add: up_write_ssts_def uj_finish_def)
  qed
qed

section \<open>Recording the tables\<close>

definition first_keyed :: "(nat \<rightharpoonup> table) \<Rightarrow> nat \<Rightarrow> bool" where
  "first_keyed tabs i \<longleftrightarrow> (\<exists>r bss m k. tabs i = Some (r, bss, m) \<and> meta_first_key m = Ok k)"

abbreviation l0_diff :: "sstable_info \<Rightarrow> sstable_diff" where
  "l0_diff info \<equiv> \<lparr>sd_id = info_id info, sd_level = 0, sd_op = Insert, sd_data_size = info_data_size info\<rparr>"

lemma reads_at_store:
  assumes "vm_reads mo_objects decompress crc32 tabs (vm_level_options vm) (vm_levels vm) c a" "ss_inv mo_objects decompress crc32 tabs st"
  shows "\<exists>st'. c (vm\<lparr>vm_store := st\<rparr>) = (Ok a, vm\<lparr>vm_store := st'\<rparr>) \<and> ss_inv mo_objects decompress crc32 tabs st'"
  using assms(1)[unfolded vm_reads_def, rule_format, of "vm\<lparr>vm_store := st\<rparr>"] assms(2) by simp

lemma reads_insert_position:
  assumes "sst_first_key sst = Ok fk" "\<forall>i \<in> set is. first_keyed tabs i"
  shows "\<exists>n. vm_reads mo_objects decompress crc32 tabs opts levels (insert_position mem_object_store_ops sst idx is) n"
  using assms(2)
proof (induction "is" arbitrary: idx)
  case Nil
  show ?case by (rule exI[of _ idx]) (simp add: reads_vok)
next
  case (Cons i "is")
  obtain r bss m k where m: "tabs i = Some (r, bss, m)" "meta_first_key m = Ok k" using Cons.prems by (auto simp: first_keyed_def)
  obtain n where n: "vm_reads mo_objects decompress crc32 tabs opts levels (insert_position mem_object_store_ops sst (Suc idx) is) n"
    using Cons by auto
  have "vm_reads mo_objects decompress crc32 tabs opts levels
      (if fk \<le> k then vok idx else insert_position mem_object_store_ops sst (Suc idx) is) (if fk \<le> k then idx else n)"
    using n reads_vok by auto
  then show ?case unfolding insert_position.simps
    by (intro exI[of _ "if fk \<le> k then idx else n"] reads_vbind[OF mem_os.reads_sstable[of tabs i r bss m]] reads_vbind[OF reads_vres])
      (use m assms(1) in \<open>auto simp: sst_first_key_def\<close>)
qed

lemma insert_l0_table:
  assumes inv: "ss_inv mo_objects decompress crc32 tabs (vm_store vm)"
    and vm: "vm_levels vm = is # lv" "vm_level_options vm = o0 # os" "lo_compaction_strategy o0 = Overlap" "vm_levels_data_size vm = n # ns"
    and info: "n + info_data_size info < 2 ^ 64" "\<forall>i \<in> set (info_id info # is). first_keyed tabs i"
  shows "\<exists>is' st. apply_sstable_diff mem_object_store_ops (l0_diff info) vm =
      (Ok (), vm\<lparr>vm_levels := is' # lv, vm_levels_data_size := (n + info_data_size info) # ns, vm_store := st\<rparr>) \<and>
    mset is' = add_mset (info_id info) (mset is) \<and> ss_inv mo_objects decompress crc32 tabs st"
proof -
  obtain r bss m k where m: "tabs (info_id info) = Some (r, bss, m)" "meta_first_key m = Ok k" using info(2) by (auto simp: first_keyed_def)
  let ?sst = "\<lparr>sst_id = info_id info, sst_meta = m\<rparr>"
  obtain st1 where st1: "vm_sstable mem_object_store_ops (info_id info) vm = (Ok ?sst, vm\<lparr>vm_store := st1\<rparr>)" "ss_inv mo_objects decompress crc32 tabs st1"
    using mem_os.reads_sstable[of tabs "info_id info", OF m(1)] inv unfolding vm_reads_def by blast
  obtain j where pos: "vm_reads mo_objects decompress crc32 tabs (vm_level_options vm) (vm_levels vm) (insert_position mem_object_store_ops ?sst 0 is) j"
    using reads_insert_position[of ?sst k "is" tabs decompress crc32 "vm_level_options vm" "vm_levels vm" 0] m(2) info(2) by (auto simp: sst_first_key_def)
  obtain st2 where st2: "insert_position mem_object_store_ops ?sst 0 is (vm\<lparr>vm_store := st1\<rparr>) = (Ok j, vm\<lparr>vm_store := st2\<rparr>)"
      "ss_inv mo_objects decompress crc32 tabs st2" using reads_at_store[OF pos st1(2)] by blast
  have "mset (take j is @ info_id info # drop j is) = add_mset (info_id info) (mset is)"
    by (metis append_take_drop_id mset.simps(2) mset_append union_mset_add_mset_right)
  then show ?thesis using st1(1) st2 vm info(1)
    by (intro exI[of _ "take j is @ info_id info # drop j is"] exI[of _ st2])
      (simp add: apply_sstable_diff_def insert_sstable_def vbind_def vget_def index_def vm_set_level_def vm_set_size_def add_u64_def vok_def)
qed

lemma insert_l0_tables:
  assumes "ss_inv mo_objects decompress crc32 tabs (vm_store vm)"
    and "vm_levels vm = is # lv" "vm_level_options vm = o0 # os" "lo_compaction_strategy o0 = Overlap" "vm_levels_data_size vm = n # ns"
    and "n + sum_list (map info_data_size infos) < 2 ^ 64" "\<forall>i \<in> set (map info_id infos @ is). first_keyed tabs i"
  shows "\<exists>is' st n'. vfold (apply_sstable_diff mem_object_store_ops) (map l0_diff infos) vm =
      (Ok (), vm\<lparr>vm_levels := is' # lv, vm_levels_data_size := n' # ns, vm_store := st\<rparr>) \<and>
    mset is' = mset (map info_id infos) + mset is \<and> ss_inv mo_objects decompress crc32 tabs st"
  using assms
proof (induction infos arbitrary: vm "is" n)
  case Nil
  then show ?case by (intro exI[of _ "is"] exI[of _ "vm_store vm"] exI[of _ n]) (simp add: vok_def)
next
  case (Cons info infos)
  obtain is1 st1 where a: "apply_sstable_diff mem_object_store_ops (l0_diff info) vm =
      (Ok (), vm\<lparr>vm_levels := is1 # lv, vm_levels_data_size := (n + info_data_size info) # ns, vm_store := st1\<rparr>)"
    "mset is1 = add_mset (info_id info) (mset is)" "ss_inv mo_objects decompress crc32 tabs st1"
    using insert_l0_table[OF Cons.prems(1-5), of info] Cons.prems(6,7) by auto
  let ?vm = "vm\<lparr>vm_levels := is1 # lv, vm_levels_data_size := (n + info_data_size info) # ns, vm_store := st1\<rparr>"
  have "set is1 = insert (info_id info) (set is)" using arg_cong[OF a(2), of set_mset] by simp
  then have "\<exists>is' st n'. vfold (apply_sstable_diff mem_object_store_ops) (map l0_diff infos) ?vm =
      (Ok (), ?vm\<lparr>vm_levels := is' # lv, vm_levels_data_size := n' # ns, vm_store := st\<rparr>) \<and>
    mset is' = mset (map info_id infos) + mset is1 \<and> ss_inv mo_objects decompress crc32 tabs st"
    by (intro Cons.IH) (use Cons.prems a in auto)
  then show ?case using a(1,2) by (auto simp: vbind_def)
qed

text \<open>The rudder records the tables under the next version and answers with that version alone.\<close>

lemma latest_diff_from:
  assumes "sorted (map vd_id (vm_diffs vm))" "vm_diffs vm' = vm_diffs vm @ [d]" "vd_id d = Suc (vm_latest_version_id vm)"
  shows "vm_version_diffs_from (Suc (vm_latest_version_id vm)) u64_max vm' = Ok [d]"
proof -
  have old: "\<forall>d \<in> set (vm_diffs vm). vd_id d < Suc (vm_latest_version_id vm)"
    using latest_version_id_max[OF assms(1)] by (auto simp: less_Suc_eq_le)
  have "collect_diffs (Suc (vm_latest_version_id vm)) u64_max [] (vm_diffs vm @ [d]) = [d]"
    by (rule collect_diffs_from[OF old]) (use assms(3) in simp_all)
  then show ?thesis using old assms(2,3) by (cases "vm_diffs vm") (auto simp: vm_version_diffs_from_def)
qed

lemma insert_l0_ok:
  assumes inv: "ss_inv mo_objects decompress crc32 tabs (vm_store vm)" and vm: "rd_version_manager rd = vm"
    "vm_levels vm = is # lv" "vm_level_options vm = o0 # os" "lo_compaction_strategy o0 = Overlap" "vm_levels_data_size vm = n # ns"
    and infos: "n + sum_list (map info_data_size infos) < 2 ^ 64" "\<forall>i \<in> set (map info_id infos @ is). first_keyed tabs i"
    and ids: "sorted (map vd_id (vm_diffs vm))" "Suc (vm_latest_version_id vm) < 2 ^ 64"
  shows "\<exists>is' st n'. let diff = (insert_l0_diff infos)\<lparr>vd_id := Suc (vm_latest_version_id vm)\<rparr>;
      vm' = vm\<lparr>vm_levels := is' # lv, vm_levels_data_size := n' # ns, vm_store := st, vm_diffs := vm_diffs vm @ [diff]\<rparr>
    in vm_update mem_object_store_ops (insert_l0_diff infos) False vm = (Ok (), vm') \<and>
       insert_l0 mem_object_store_ops infos (Suc (vm_latest_version_id vm)) rd = (Ok [diff], rd\<lparr>rd_version_manager := vm'\<rparr>) \<and>
       mset is' = mset (map info_id infos) + mset is \<and> ss_inv mo_objects decompress crc32 tabs st"
proof -
  let ?diff = "(insert_l0_diff infos)\<lparr>vd_id := Suc (vm_latest_version_id vm)\<rparr>"
  obtain is' st n' where f: "vfold (apply_sstable_diff mem_object_store_ops) (map l0_diff infos) vm =
      (Ok (), vm\<lparr>vm_levels := is' # lv, vm_levels_data_size := n' # ns, vm_store := st\<rparr>)"
    "mset is' = mset (map info_id infos) + mset is" "ss_inv mo_objects decompress crc32 tabs st"
    using insert_l0_tables[OF inv vm(2-5) infos] by blast
  let ?vm = "vm\<lparr>vm_levels := is' # lv, vm_levels_data_size := n' # ns, vm_store := st, vm_diffs := vm_diffs vm @ [?diff]\<rparr>"
  have "vm_update mem_object_store_ops (insert_l0_diff infos) False vm = (Ok (), ?vm)"
    using f(1) ids(2) by (simp add: vm_update_def vbind_def vget_def Let_def add_u64_def insert_l0_diff_def vm_push_diff_def)
  moreover have "vm_version_diffs_from (Suc (vm_latest_version_id vm)) u64_max ?vm = Ok [?diff]"
    by (rule latest_diff_from[OF ids(1)]) simp_all
  ultimately show ?thesis using f(2,3) vm(1)
    by (intro exI[of _ is'] exI[of _ st] exI[of _ n']) (simp add: insert_l0_def on_manager_def cbind_def Let_def)
qed

section \<open>What a flush changes\<close>

text \<open>The tree over given tables: its memtables hold \<open>mss\<close>, its levels \<open>zss\<close>.\<close>

definition tree_over ::
  "mem_object_store table_env \<Rightarrow> (nat \<rightharpoonup> table) \<Rightarrow> (nat \<Rightarrow> version_entry list) \<Rightarrow> mem_object_store lsm_tree \<Rightarrow>
     version_entry list list \<Rightarrow> version_entry list list \<Rightarrow> bool" where
  "tree_over env tabs xs lt mss zss \<longleftrightarrow>
     list_all2 mt_rep (mc_table (lt_memtable lt) # map mc_table (lt_immutable_memtables lt)) mss \<and>
     env_ss_inv env tabs (vm_store (lt_version_manager lt)) \<and>
     length (vm_levels (lt_version_manager lt)) = length zss \<and> length (vm_level_options (lt_version_manager lt)) = length zss \<and>
     (\<forall>l < length zss. level_holds (te_fingerprint32 env) tabs xs (lo_compaction_strategy (vm_level_options (lt_version_manager lt) ! l))
        (vm_levels (lt_version_manager lt) ! l) (zss ! l))"

lemma tree_over_holds:
  "tree_over env tabs xs lt mss zss \<Longrightarrow> lsm_holds (te_decompress env) (te_crc32 env) (te_fingerprint32 env) lt (mss @ zss)"
  unfolding tree_over_def lsm_holds_def by blast

text \<open>Moving a layer into the one below it changes no read.\<close>

lemma merge_layers:
  assumes "layered (xss @ a # b # yss)"
  shows "\<exists>c. versions_sorted c \<and> set c = set a \<union> set b \<and> length c = length a + length b \<and> layered (xss @ c # yss) \<and>
    (\<forall>s k. read_layers s k (xss @ c # yss) = read_layers s k (xss @ a # b # yss)) \<and> distinct (version_ids (a @ b))"
proof -
  have lay: "\<forall>xs \<in> set (xss @ a # b # yss). versions_sorted xs" "sorted_wrt (\<lambda>xs ys. \<forall>x \<in> set xs. \<forall>y \<in> set ys. fst x = fst y \<longrightarrow> fst (snd y) < fst (snd x)) (xss @ a # b # yss)"
    using assms by (auto simp: layered_def)
  then have ab: "versions_sorted a" "versions_sorted b" "\<forall>x \<in> set a. \<forall>y \<in> set b. fst x = fst y \<longrightarrow> fst (snd y) < fst (snd x)"
    by (auto simp: sorted_wrt_append)
  then have dist: "distinct (version_ids (a @ b))" using versions_distinct[of a] versions_distinct[of b] by fastforce
  obtain c where c: "versions_sorted c" "mset c = mset (a @ b)" using versions_sort[OF dist] by blast
  have set: "set c = set a \<union> set b" "length c = length a + length b" using c(2) mset_eq_setD[OF c(2)] mset_eq_length[OF c(2)] by auto
  have "layered [a, b]" using ab by (simp add: layered_def)
  from read_layers_union[OF this c(1)] set(1) have "read_layers s k [a, b] = read_at s k c" for s k by simp
  then have "read_layers s k (xss @ c # yss) = read_layers s k (xss @ a # b # yss)" for s k
    using read_layers_append[of s k "[a, b]" yss] by (simp add: read_layers_append split: option.splits)
  moreover have "layered (xss @ c # yss)" using lay c(1) by (simp add: layered_def sorted_wrt_append ball_Un set(1))
  ultimately show ?thesis using c(1) set dist by blast
qed

lemma add_tables_at:
  assumes "distinct (map fst ts)" "t \<in> set ts"
  shows "add_tables o1 ts tabs (fst t) = Some (wt_table o1 t)"
  using assms add_tables_other[of "fst t" _ o1] by (induction ts arbitrary: tabs) auto

text \<open>The versions of the tables, old and new.\<close>

definition with_written :: "written_table list \<Rightarrow> (nat \<Rightarrow> version_entry list) \<Rightarrow> nat \<Rightarrow> version_entry list" where
  "with_written ts xs i = (case map_of (map (\<lambda>t. (fst t, wt_versions t)) ts) i of Some vs \<Rightarrow> vs | None \<Rightarrow> xs i)"

lemma with_written_new: "distinct (map fst ts) \<Longrightarrow> t \<in> set ts \<Longrightarrow> with_written ts xs (fst t) = wt_versions t"
proof -
  assume "distinct (map fst ts)" "t \<in> set ts"
  then have "map_of (map (\<lambda>t. (fst t, wt_versions t)) ts) (fst t) = Some (wt_versions t)"
    by (intro map_of_is_SomeI) (auto simp: comp_def)
  then show ?thesis by (simp add: with_written_def)
qed

lemma with_written_old: "i \<notin> fst ` set ts \<Longrightarrow> with_written ts xs i = xs i"
  by (simp add: with_written_def map_of_eq_None_iff[THEN iffD2] image_comp comp_def)

text \<open>Written tables that are small enough, with identifiers that are not in use.\<close>

definition tables_ok :: "mem_object_store table_env \<Rightarrow> sstable_builder_options \<Rightarrow> (nat \<rightharpoonup> table) \<Rightarrow> written_table list \<Rightarrow> bool" where
  "tables_ok env o1 tabs ts \<longleftrightarrow> distinct (map fst ts) \<and>
     (\<forall>t \<in> set ts. tabs (fst t) = None \<and> table_written env o1 t \<and> versions_fit (wt_versions t) \<and> filter_small o1 (length (wt_versions t)))"

lemma written_table_holds:
  assumes "tables_ok env o1 tabs ts" "t \<in> set ts"
  shows "versions_table (te_fingerprint32 env) (add_tables o1 ts tabs) (fst t) (with_written ts xs (fst t))"
proof -
  have t: "distinct (map fst ts)" "table_written env o1 t" "versions_fit (wt_versions t)" "filter_small o1 (length (wt_versions t))"
    using assms by (auto simp: tables_ok_def)
  obtain i vs bss m where [simp]: "t = (i, vs, bss, m)" by (cases t) auto
  show ?thesis using t add_tables_at[OF t(1) assms(2), of o1 tabs] with_written_new[OF t(1) assms(2), of xs]
    by (auto simp: versions_table_def table_written_def filter_small_def versions_fit_def)
qed

lemma old_table_holds:
  assumes "tables_ok env o1 tabs ts" "versions_table f tabs i (xs i)"
  shows "versions_table f (add_tables o1 ts tabs) i (with_written ts xs i)" "i \<notin> fst ` set ts"
proof -
  have "tabs i \<noteq> None" using assms(2) by (auto simp: versions_table_def)
  then show new: "i \<notin> fst ` set ts" using assms(1) by (auto simp: tables_ok_def)
  then show "versions_table f (add_tables o1 ts tabs) i (with_written ts xs i)"
    using assms(2) add_tables_other[OF new, of o1 tabs] with_written_old[OF new] by (simp add: versions_table_def)
qed

lemma old_level_holds:
  assumes "tables_ok env o1 tabs ts" "level_holds f tabs xs strategy is zs"
  shows "level_holds f (add_tables o1 ts tabs) (with_written ts xs) strategy is zs"
proof -
  have old: "i \<notin> fst ` set ts" if "i \<in> set is" for i using old_table_holds(2)[OF assms(1)] assms(2) that by (auto simp: level_holds_def)
  have same: "map (with_written ts xs) is = map xs is" using old with_written_old by simp
  have "sorted_wrt (\<lambda>i j. fst (last (with_written ts xs i)) < fst (hd (with_written ts xs j))) is"
    if "sorted_wrt (\<lambda>i j. fst (last (xs i)) < fst (hd (xs j))) is"
    by (rule sorted_wrt_mono_rel[OF _ that]) (use old with_written_old in simp)
  moreover have "\<forall>i \<in> set is. versions_table f (add_tables o1 ts tabs) i (with_written ts xs i)"
    using assms(2) old_table_holds(1)[OF assms(1)] by (auto simp: level_holds_def)
  moreover have "(\<Union>i \<in> set is. set (with_written ts xs i)) = (\<Union>i \<in> set is. set (xs i))" using old with_written_old by simp
  ultimately show ?thesis using assms(2) unfolding level_holds_def same by simp
qed

lemma distinct_of_map: "distinct (map f xs) \<Longrightarrow> distinct xs"
  by (simp add: distinct_map)

lemma mset_concat_map: "mset is = mset js \<Longrightarrow> mset (concat (map f is)) = mset (concat (map f js))"
proof (induction "is" arbitrary: js)
  case (Cons i "is")
  then obtain as bs where js: "js = as @ i # bs" by (metis list.set_intros(1) mset_eq_setD split_list)
  then have "mset is = mset (as @ bs)" using Cons.prems by simp
  from Cons.IH[OF this] show ?case unfolding js by simp
qed simp

text \<open>Level 0 with the new tables in any order.\<close>

lemma new_level_holds:
  assumes ts: "tables_ok env o1 tabs ts" and lv: "level_holds (te_fingerprint32 env) tabs xs Overlap is z"
    and is': "mset is' = mset (map fst ts) + mset is" and a: "a = concat (map wt_versions ts)"
    and dist: "distinct (version_ids (a @ z))" "length a + length z < 2 ^ 64" and c: "versions_sorted c" "set c = set a \<union> set z"
  shows "level_holds (te_fingerprint32 env) (add_tables o1 ts tabs) (with_written ts xs) Overlap is' c"
proof -
  let ?ys = "with_written ts xs"
  have d: "distinct (map fst ts)" using ts by (simp add: tables_ok_def)
  have set: "set is' = fst ` set ts \<union> set is" using arg_cong[OF is', of set_mset] by (simp add: image_comp)
  have tabs: "\<forall>i \<in> set is. versions_table (te_fingerprint32 env) tabs i (xs i)" using lv by (simp add: level_holds_def)
  have old: "?ys i = xs i" if "i \<in> set is" for i 
    by (rule with_written_old[OF old_table_holds(2)[of _ _ _ _ _ _ xs, OF ts bspec[OF tabs that]]])
  have new: "?ys (fst t) = wt_versions t" if "t \<in> set ts" for t by (rule with_written_new[OF d that])
  have "mset (concat (map ?ys is')) = mset (concat (map ?ys (map fst ts @ is)))"
    by (rule mset_concat_map) (use is' in simp)
  also have "map ?ys (map fst ts @ is) = map wt_versions ts @ map xs is" using old new by simp
  finally have m: "mset (concat (map ?ys is')) = mset (a @ concat (map xs is))" using a by simp
  have "distinct (concat (map xs is))" using lv distinct_of_map unfolding level_holds_def by blast
  moreover have "distinct z" by (rule distinct_of_map[OF versions_distinct]) (use lv in \<open>simp add: level_holds_def\<close>)
  moreover have "set (concat (map xs is)) = set z" using lv by (simp add: level_holds_def)
  ultimately have z: "mset (concat (map xs is)) = mset z" by (rule set_eq_iff_mset_eq_distinct[THEN iffD1])
  then have m': "mset (concat (map ?ys is')) = mset (a @ z)" using m by simp
  then have "mset (version_ids (concat (map ?ys is'))) = mset (version_ids (a @ z))" using arg_cong[OF m', of "image_mset (\<lambda>x. (fst x, fst (snd x)))"] by (simp only: mset_map)
  then have "distinct (version_ids (concat (map ?ys is')))" using dist(1) mset_eq_imp_distinct_iff by blast
  moreover have "length (concat (map ?ys is')) < 2 ^ 64" using mset_eq_length[OF m'] dist(2) by simp
  moreover have "set c = (\<Union>i \<in> set is'. set (?ys i))" using mset_eq_setD[OF m'] c(2) by auto
  moreover have "versions_table (te_fingerprint32 env) (add_tables o1 ts tabs) i (?ys i)" if i: "i \<in> set is'" for i
  proof (cases "i \<in> set is")
    case True
    show ?thesis by (rule old_table_holds(1)[of _ _ _ _ _ _ xs, OF ts bspec[OF tabs True]])
  next
    case False
    then obtain t where "t \<in> set ts" "i = fst t" using i set by auto
    then show ?thesis using written_table_holds[OF ts] by simp
  qed
  ultimately show ?thesis using c(1) by (simp add: level_holds_def)
qed

lemma flush_layers:
  assumes over: "tree_over env tabs xs lt (mss @ [a]) (z # zss)" and lay: "layered (mss @ a # z # zss)"
    and strategy: "lo_compaction_strategy (hd (vm_level_options (lt_version_manager lt))) = Overlap"
    and ts: "tables_ok env o1 tabs ts" "concat (map wt_versions ts) = a" "length a + length z < 2 ^ 64"
    and lt': "lt_memtable lt' = lt_memtable lt" "lt_immutable_memtables lt' = butlast (lt_immutable_memtables lt)" "lt_immutable_memtables lt \<noteq> []"
    and vm': "vm_level_options (lt_version_manager lt') = vm_level_options (lt_version_manager lt)"
      "vm_levels (lt_version_manager lt') = is' # tl (vm_levels (lt_version_manager lt))"
      "mset is' = mset (map fst ts) + mset (hd (vm_levels (lt_version_manager lt)))"
      "env_ss_inv env (add_tables o1 ts tabs) (vm_store (lt_version_manager lt'))"
  shows "\<exists>c. tree_over env (add_tables o1 ts tabs) (with_written ts xs) lt' mss (c # zss) \<and> layered (mss @ c # zss) \<and>
    (\<forall>s k. read_layers s k (mss @ c # zss) = read_layers s k (mss @ a # z # zss))"
proof -
  let ?vm = "lt_version_manager lt"
  obtain c where c: "versions_sorted c" "set c = set a \<union> set z" "layered (mss @ c # zss)" "distinct (version_ids (a @ z))"
    "\<forall>s k. read_layers s k (mss @ c # zss) = read_layers s k (mss @ a # z # zss)" using merge_layers[OF lay] by blast
  have o: "list_all2 mt_rep (mc_table (lt_memtable lt) # map mc_table (lt_immutable_memtables lt)) (mss @ [a])"
    "length (vm_levels ?vm) = length (z # zss)" "length (vm_level_options ?vm) = length (z # zss)"
    "\<forall>l < length (z # zss). level_holds (te_fingerprint32 env) tabs xs (lo_compaction_strategy (vm_level_options ?vm ! l)) (vm_levels ?vm ! l) ((z # zss) ! l)"
    using over by (simp_all add: tree_over_def)
  obtain "is" lv o0 os where vm: "vm_levels ?vm = is # lv" "vm_level_options ?vm = o0 # os"
    using o(2,3) by (cases "vm_levels ?vm"; cases "vm_level_options ?vm") auto
  have "level_holds (te_fingerprint32 env) tabs xs Overlap is z" using o(4) strategy vm by force
  from new_level_holds[OF ts(1) this _ ts(2)[symmetric] c(4) ts(3) c(1,2)] vm'(3) vm(1)
  have new: "level_holds (te_fingerprint32 env) (add_tables o1 ts tabs) (with_written ts xs) Overlap is' c" by simp
  have old: "level_holds (te_fingerprint32 env) (add_tables o1 ts tabs) (with_written ts xs) (lo_compaction_strategy (os ! l)) (lv ! l) (zss ! l)"
    if "l < length zss" for l by (rule old_level_holds[OF ts(1)]) (use o(4)[rule_format, of "Suc l"] that vm in simp)
  have "list_all2 mt_rep (butlast (mc_table (lt_memtable lt) # map mc_table (lt_immutable_memtables lt))) mss"
    using o(1) by (auto simp: list_all2_append2 list_all2_Cons2 butlast_snoc simp del: butlast.simps(2) butlast_append)
  then have mem: "list_all2 mt_rep (mc_table (lt_memtable lt') # map mc_table (lt_immutable_memtables lt')) mss"
    using lt' by (simp add: map_butlast)
  have "level_holds (te_fingerprint32 env) (add_tables o1 ts tabs) (with_written ts xs)
      (lo_compaction_strategy ((o0 # os) ! l)) ((is' # lv) ! l) ((c # zss) ! l)" if "l < length (c # zss)" for l
    using that new old strategy vm by (cases l) auto
  then have "tree_over env (add_tables o1 ts tabs) (with_written ts xs) lt' mss (c # zss)"
    using mem vm' vm o(2,3) by (simp add: tree_over_def)
  then show ?thesis using c by blast
qed

lemma memtable_is_empty_ok:
  assumes "mt_rep mt xs"
  shows "memtable_is_empty mt = Ok (xs = [])"
proof -
  obtain ps where ps: "sl_rep (mt_inner mt) ps" "sl_entries (mt_inner mt) ps = map entry_of xs" using assms by (auto simp: mt_rep_def)
  have "length ps = length xs" using arg_cong[OF ps(2), of length] by simp
  then show ?thesis using rep_first[OF ps(1)] rep_node(2)[OF ps(1), of 0]
    by (cases xs) (auto simp: memtable_is_empty_def sl_is_empty_def ptr_at_def)
qed

text \<open>A store sees the tables another one put into the shared objects.\<close>

lemma shared_objects:
  assumes "ss_inv objects decompress crc32 tabs st" "ss_inv objects decompress crc32 tabs' st'" "ss_path st = ss_path st'" "tabs \<subseteq>\<^sub>m tabs'"
  shows "ss_inv objects decompress crc32 tabs' (with_objects (ss_object_store st') st)"
proof -
  have "table_stored decompress crc32 objs (with_objects os st) i t = table_stored decompress crc32 objs st' i t" for objs os i t
    using assms(3) by (simp add: with_objects_def table_stored_def meta_path_def data_path_def)
  moreover have "tabs' i = Some t" if "tabs i = Some t" for i t using assms(4) that unfolding map_le_def by (metis domI)
  then have "caches_ok tabs' (with_objects (ss_object_store st') st)"
    using assms(1) unfolding ss_inv_def caches_ok_def with_objects_def by (simp del: split_paired_All split_paired_Ex) blast
  ultimately show ?thesis using assms(2) by (simp add: ss_inv_def with_objects_def)
qed

lemma versions_table_keyed:
  assumes "ss_inv objects decompress crc32 tabs st" "versions_table f tabs i vs"
  shows "first_keyed tabs i"
proof -
  obtain r bss m where "tabs i = Some (r, bss, m)" "bss \<noteq> []" "concat bss = map entry_of vs" using assms(2) by (auto simp: versions_table_def)
  then show ?thesis using versions_table_meta(2)[OF assms(1)] unfolding first_keyed_def by blast
qed

lemma add_tables_le:
  assumes "tables_ok env o1 tabs ts"
  shows "tabs \<subseteq>\<^sub>m add_tables o1 ts tabs"
  unfolding map_le_def
proof
  fix i assume "i \<in> dom tabs"
  then have "i \<notin> fst ` set ts" using assms by (auto simp: tables_ok_def)
  then show "tabs i = add_tables o1 ts tabs i" using add_tables_other by metis
qed

text \<open>The identifiers a worker draws are distinct while their sequential part has 32 bits.\<close>

lemma up_id_inj:
  assumes "unat (up_raft_node up) < 2 ^ 32" "unat (up_sstable_sequential_id up) + n \<le> 2 ^ 32"
  shows "inj_on (up_id up) {..<n}"
proof (rule inj_onI)
  fix i j assume ij: "i \<in> {..<n}" "j \<in> {..<n}" "up_id up i = up_id up j"
  let ?s = "unat (up_sstable_sequential_id up)"
  have "up_id up k = sstable_id (of_nat (unat (up_raft_node up))) (of_nat (?s + k))" for k by (simp add: up_id_def)
  then have "?s + i = ?s + j" using ij assms sstable_id_inject[of "unat (up_raft_node up)" "unat (up_raft_node up)" "?s + i" "?s + j"]
    by (simp del: of_nat_add)
  then show "i = j" by simp
qed

section \<open>A flush\<close>

text \<open>A worker whose oldest immutable memtable holds the versions \<open>a\<close>, over a tree with the layers \<open>mss\<close> above
  it and \<open>z\<close> and \<open>zss\<close> below, in step with the rudder \<open>rd\<close> it is connected to.\<close>

definition flush_tree ::
  "mem_object_store table_env \<Rightarrow> (mem_object_store, 'ep, 'ch) uploader \<Rightarrow> (nat \<rightharpoonup> table) \<Rightarrow> (nat \<Rightarrow> version_entry list) \<Rightarrow>
     version_entry list list \<Rightarrow> version_entry list \<Rightarrow> version_entry list \<Rightarrow> version_entry list list \<Rightarrow> bool" where
  "flush_tree env up tabs xs mss a z zss \<longleftrightarrow>
     tree_over env tabs xs (up_lsm_tree up) (mss @ [a]) (z # zss) \<and> layered (mss @ a # z # zss) \<and>
     lt_immutable_memtables (up_lsm_tree up) \<noteq> [] \<and> lo_compaction_strategy (hd (vm_level_options (up_manager up))) = Overlap \<and>
     versions_fit a \<and> a \<noteq> [] \<and> length a + length z < 2 ^ 64"

definition flush_env :: "mem_object_store table_env \<Rightarrow> (mem_object_store, 'ep, 'ch) uploader \<Rightarrow> (nat \<rightharpoonup> table) \<Rightarrow> nat \<Rightarrow> bool" where
  "flush_env env up tabs n \<longleftrightarrow>
     table_env_ok env \<and> options_ok (up_options up) \<and> sbo_capacity (up_options up) \<noteq> 0 \<and> (\<forall>k \<le> n. filter_small (up_options up) k) \<and>
     unat (up_raft_node up) < 2 ^ 32 \<and> unat (up_sstable_sequential_id up) + n \<le> 2 ^ 32 \<and> (\<forall>j < n. tabs (up_id up j) = None)"

definition in_step ::
  "(mem_object_store, 'ep, 'ch) uploader_env \<Rightarrow> (mem_object_store, 'ep, 'ch) uploader \<Rightarrow> (nat \<rightharpoonup> table) \<Rightarrow> nat \<Rightarrow>
     (mem_object_store, 'ep, 'ch) rudder \<Rightarrow> bool" where
  "in_step ue up tabs node rd \<longleftrightarrow>
     (\<exists>channel cp. cp_get (ue_connect ue) (up_rudder_node_id up) (up_channel_pool up) = Ok (channel, cp) \<and> ue_node_of ue channel = node) \<and>
     up_rudders up node = Some rd \<and>
     vm_agree mo_objects (te_decompress (ue_tables ue)) (te_crc32 (ue_tables ue)) tabs (rd_version_manager rd) (up_manager up) \<and>
     ss_path (rd_store rd) = ss_path (vm_store (up_manager up)) \<and>
     sorted (map vd_id (vm_diffs (up_manager up))) \<and> Suc (vm_latest_version_id (up_manager up)) < 2 ^ 64 \<and>
     vm_levels_data_size (up_manager up) \<noteq> []"

lemma written_tables_ok:
  assumes env: "flush_env env up tabs (length a)" and fit: "versions_fit a"
    and ts: "uploaded env up ts st" "concat (map wt_versions ts) = a" and size: "\<forall>t \<in> set ts. info_data_size (wt_info t) < 2 ^ 32"
  shows "tables_ok env (up_options up) tabs ts" "\<forall>t \<in> set ts. meta_fits (snd (snd (snd t)))"
proof -
  have t: "\<forall>t \<in> set ts. table_written env (up_options up) t" "map fst ts = map (up_id up) [0..<length ts]" using ts(1) by (auto simp: uploaded_def)
  have "\<forall>i < length (map wt_versions ts). map wt_versions ts ! i \<noteq> []" using t(1) nth_mem by (fastforce simp: table_written_def split_beta)
  from length_blocks_le[OF this] have len: "length ts \<le> length a" using ts(2) by simp
  have "inj_on (up_id up) {..<length a}" by (rule up_id_inj) (use env in \<open>auto simp: flush_env_def\<close>)
  then have "distinct (map fst ts)" unfolding t(2) using len by (auto simp: distinct_map intro: inj_on_subset)
  moreover have "tabs (fst x) = None" if "x \<in> set ts" for x
  proof -
    have "fst x \<in> up_id up ` {..<length ts}" using arg_cong[OF t(2), of set] that by (simp add: atLeast0LessThan) (metis image_eqI)
    then show ?thesis using env len by (auto simp: flush_env_def)
  qed
  moreover have w: "versions_fit (wt_versions x) \<and> filter_small (up_options up) (length (wt_versions x))" if x: "x \<in> set ts" for x
  proof -
    obtain as bs where "ts = as @ x # bs" using split_list[OF x] by blast
    then have "a = concat (map wt_versions as) @ wt_versions x @ concat (map wt_versions bs)" using ts(2) by simp
    moreover from this have "length (wt_versions x) \<le> length a" by simp
    ultimately show ?thesis using fit env versions_fit_append unfolding flush_env_def by metis
  qed
  ultimately show "tables_ok env (up_options up) tabs ts" using t(1) by (simp add: tables_ok_def)
  show "\<forall>t \<in> set ts. meta_fits (snd (snd (snd t)))" using written_meta_fits t(1) w size by blast
qed

lemma notify_eq:
  assumes "cp_get (ue_connect ue) (up_rudder_node_id up) (up_channel_pool up) = Ok (channel, cp)" "up_rudders up (ue_node_of ue channel) = Some rd"
    and "Suc (vm_latest_version_id (up_manager up)) < 2 ^ 64" "lt_immutable_memtables (up_lsm_tree up) \<noteq> []"
    and "insert_l0 (te_objects (ue_tables ue)) infos (Suc (vm_latest_version_id (up_manager up)))
      (rd\<lparr>rd_version_manager := (rd_version_manager rd)\<lparr>vm_store := with_objects (ss_object_store (vm_store (up_manager up))) (rd_store rd)\<rparr>\<rparr>) =
      (Ok [diff], rd')"
    and "vm_update (te_objects (ue_tables ue)) diff True (up_manager up) = (Ok (), vm')"
  shows "notify_update_version ue infos up =
    (Ok (), up\<lparr>up_channel_pool := cp, up_rudders := (up_rudders up)(ue_node_of ue channel \<mapsto> rd'),
      up_lsm_tree := (up_lsm_tree up)\<lparr>lt_version_manager := vm', lt_immutable_memtables := butlast (lt_immutable_memtables (up_lsm_tree up))\<rparr>\<rparr>)"
proof -
  have "add_u64 (vm_latest_version_id (up_manager up)) 1 = Ok (Suc (vm_latest_version_id (up_manager up)))" using assms(3) by (simp add: add_u64_def)
  moreover have "last_of (lt_immutable_memtables (up_lsm_tree up)) = Some (last (lt_immutable_memtables (up_lsm_tree up)))"
    using assms(4) by (simp add: last_of_def)
  ultimately show ?thesis using assms
    by (simp add: notify_update_version_def up_pool_get_def rpc_insert_l0_def up_sync_def up_set_manager_def up_drop_memtable_def
        drop_oldest_immutable_memtable_def cbind_def Let_def)
qed

text \<open>Telling the rudder: it records the tables, the worker follows its version and drops the memtable.\<close>

lemma notify_ok:
  assumes tree: "flush_tree env up tabs xs mss a z zss" and env: "env = ue_tables ue" "te_objects env = mem_object_store_ops"
    and step: "in_step ue up tabs node rd" and ts: "tables_ok env (up_options up) tabs ts" "concat (map wt_versions ts) = a"
    and st: "env_ss_inv env (add_tables (up_options up) ts tabs) st" "ss_path st = ss_path (vm_store (up_manager up))"
    and size: "hd (vm_levels_data_size (up_manager up)) + sum_list (map info_data_size (map wt_info ts)) < 2 ^ 64"
  shows "\<exists>up' rd' is'. notify_update_version ue (map wt_info ts) (up_at st s up) = (Ok (), up') \<and>
    lt_memtable (up_lsm_tree up') = lt_memtable (up_lsm_tree up) \<and>
    lt_immutable_memtables (up_lsm_tree up') = butlast (lt_immutable_memtables (up_lsm_tree up)) \<and>
    vm_level_options (up_manager up') = vm_level_options (up_manager up) \<and> vm_levels (up_manager up') = is' # tl (vm_levels (up_manager up)) \<and>
    mset is' = mset (map fst ts) + mset (hd (vm_levels (up_manager up))) \<and>
    up_rudders up' node = Some rd' \<and>
    vm_agree mo_objects (te_decompress env) (te_crc32 env) (add_tables (up_options up) ts tabs) (rd_version_manager rd') (up_manager up')"
proof -
  let ?tabs = "add_tables (up_options up) ts tabs" and ?D = "te_decompress env" and ?C = "te_crc32 env" and ?vm = "up_manager up"
  let ?infos = "map wt_info ts"
  obtain channel cp where ch: "cp_get (ue_connect ue) (up_rudder_node_id up) (up_channel_pool up) = Ok (channel, cp)" "ue_node_of ue channel = node"
    and rd: "up_rudders up node = Some rd" "vm_agree mo_objects ?D ?C tabs (rd_version_manager rd) ?vm"
      "ss_path (rd_store rd) = ss_path (vm_store ?vm)" "sorted (map vd_id (vm_diffs ?vm))" "Suc (vm_latest_version_id ?vm) < 2 ^ 64"
      "vm_levels_data_size ?vm \<noteq> []" using step env(1) by (auto simp: in_step_def)
  let ?rvm = "(rd_version_manager rd)\<lparr>vm_store := with_objects (ss_object_store st) (rd_store rd)\<rparr>"
  have inv: "env_ss_inv env ?tabs (vm_store ?rvm)"
    using shared_objects[OF _ st(1) _ add_tables_le[OF ts(1)], of "rd_store rd"] rd(2,3) st(2) by (simp add: vm_agree_def)
  have sub: "dom tabs \<subseteq> dom ?tabs" using map_le_implies_dom_le[OF add_tables_le[OF ts(1)]] .
  have levels: "\<forall>is \<in> set (vm_levels ?vm). set is \<subseteq> dom ?tabs" using rd(2) sub unfolding vm_agree_def by (metis subset_trans)
  have agree: "vm_agree mo_objects ?D ?C ?tabs ?rvm (?vm\<lparr>vm_store := st\<rparr>)"
    using rd(2) inv st(1) levels by (simp add: vm_agree_def)
  have same: "vm_diffs ?rvm = vm_diffs ?vm" "vm_latest_version_id ?rvm = vm_latest_version_id ?vm" "vm_levels ?rvm = vm_levels ?vm"
    "vm_level_options ?rvm = vm_level_options ?vm" "vm_levels_data_size ?rvm = vm_levels_data_size ?vm"
    using rd(2) by (auto simp: vm_agree_def vm_latest_version_id_def)
  have over: "tree_over env tabs xs (up_lsm_tree up) (mss @ [a]) (z # zss)" "lo_compaction_strategy (hd (vm_level_options ?vm)) = Overlap"
    "lt_immutable_memtables (up_lsm_tree up) \<noteq> []" using tree by (auto simp: flush_tree_def)
  obtain "is" lv o0 os n ns where vm: "vm_levels ?vm = is # lv" "vm_level_options ?vm = o0 # os" "vm_levels_data_size ?vm = n # ns"
    using over(1) rd(6) by (cases "vm_levels ?vm"; cases "vm_level_options ?vm"; cases "vm_levels_data_size ?vm") (auto simp: tree_over_def)
  have lv: "level_holds (te_fingerprint32 env) tabs xs Overlap is z" using over(1,2) vm by (force simp: tree_over_def)
  have "first_keyed ?tabs i" if "i \<in> set is" for i
    by (rule versions_table_keyed[OF inv, of "te_fingerprint32 env"], rule old_table_holds(1)[of env _ _ _ _ _ xs, OF ts(1)])
      (use that lv in \<open>simp add: level_holds_def\<close>)
  moreover have "first_keyed ?tabs (fst t)" if "t \<in> set ts" for t using versions_table_keyed[OF inv written_table_holds[OF ts(1) that]] .
  ultimately have keyed: "\<forall>i \<in> set (map info_id ?infos @ is). first_keyed ?tabs i" by auto
  have size': "n + sum_list (map info_data_size ?infos) < 2 ^ 64" using size vm(3) by simp
  let ?rd = "rd\<lparr>rd_version_manager := ?rvm\<rparr>" and ?diff = "(insert_l0_diff ?infos)\<lparr>vd_id := Suc (vm_latest_version_id ?vm)\<rparr>"
  have pre: "rd_version_manager ?rd = ?rvm" "vm_levels ?rvm = is # lv" "vm_level_options ?rvm = o0 # os" "lo_compaction_strategy o0 = Overlap"
    "vm_levels_data_size ?rvm = n # ns" "sorted (map vd_id (vm_diffs ?rvm))" "Suc (vm_latest_version_id ?rvm) < 2 ^ 64"
    using same vm over(2) rd(4,5) by simp_all
  from insert_l0_ok[OF inv pre(1-5) size' keyed pre(6,7)] obtain is' st1 n' vm1 where
    vm1: "vm1 = ?rvm\<lparr>vm_levels := is' # lv, vm_levels_data_size := n' # ns, vm_store := st1, vm_diffs := vm_diffs ?rvm @ [?diff]\<rparr>" and
    ins: "vm_update mem_object_store_ops (insert_l0_diff ?infos) False ?rvm = (Ok (), vm1)"
      "insert_l0 mem_object_store_ops ?infos (Suc (vm_latest_version_id ?vm)) ?rd = (Ok [?diff], ?rd\<lparr>rd_version_manager := vm1\<rparr>)"
      "mset is' = mset (map info_id ?infos) + mset is" unfolding Let_def same(2) by blast
  have "\<forall>d \<in> set (vd_sstable_diffs (insert_l0_diff ?infos)). sd_id d \<in> dom ?tabs"
    using add_tables_at[of ts _ "up_options up" tabs] ts(1) by (auto simp: insert_l0_diff_def tables_ok_def)
  from mem_os.update_replays[OF agree this ins(1)] obtain vm1' where
    sync: "vm_update mem_object_store_ops ?diff True (?vm\<lparr>vm_store := st\<rparr>) = (Ok (), vm1')" "vm_agree mo_objects ?D ?C ?tabs vm1 vm1'"
    unfolding same(2) by blast
  let ?rd1 = "?rd\<lparr>rd_version_manager := vm1\<rparr>"
  let ?up' = "(up_at st s up)\<lparr>up_channel_pool := cp, up_rudders := (up_rudders up)(node \<mapsto> ?rd1), up_lsm_tree := (up_lsm_tree up)\<lparr>
      lt_version_manager := vm1', lt_immutable_memtables := butlast (lt_immutable_memtables (up_lsm_tree up))\<rparr>\<rparr>"
  have "notify_update_version ue ?infos (up_at st s up) = (Ok (), ?up')"
    using notify_eq[of ue "up_at st s up" channel cp rd ?infos ?diff ?rd1 vm1', folded env(1)] ch rd(1,5) ins(2) sync(1) over(3) env(2)
    by (simp add: up_at_def up_set_manager_def vm_latest_version_id_def)
  moreover have "vm_level_options vm1' = vm_level_options ?vm" "vm_levels vm1' = is' # lv"
    using sync(2) vm1 same(4) by (simp_all add: vm_agree_def)
  ultimately show ?thesis
    by (intro exI[of _ ?up'] exI[of _ ?rd1] exI[of _ is']) (use sync(2) ins(3) vm in \<open>simp add: comp_def\<close>)
qed

lemma flush_run_eq:
  assumes "lt_immutable_memtables (up_lsm_tree up) \<noteq> []" "sbo_capacity (up_options up) \<noteq> 0"
    and "memtable_is_empty (mc_table (last (lt_immutable_memtables (up_lsm_tree up)))) = Ok False"
    and "up_write_ssts (ue_tables ue) fuel (mc_table (last (lt_immutable_memtables (up_lsm_tree up)))) up = (Ok infos, up1)"
  shows "up_run_inner ue fuel up = notify_update_version ue infos up1"
  using assms by (simp add: up_run_inner_def get_oldest_immutable_memtable_def last_of_def)

lemma flush_memtable:
  assumes "flush_tree env up tabs xs mss a z zss"
  shows "mt_rep (mc_table (last (lt_immutable_memtables (up_lsm_tree up)))) a"
proof -
  let ?is = "lt_immutable_memtables (up_lsm_tree up)"
  have "list_all2 mt_rep (mc_table (lt_memtable (up_lsm_tree up)) # map mc_table ?is) (mss @ [a])" "?is \<noteq> []"
    using assms by (auto simp: flush_tree_def tree_over_def)
  moreover from this(2) have "mc_table (lt_memtable (up_lsm_tree up)) # map mc_table ?is =
      (mc_table (lt_memtable (up_lsm_tree up)) # map mc_table (butlast ?is)) @ [mc_table (last ?is)]"
    by (metis append_Cons append_butlast_last_id list.simps(9) map_append list.map(1))
  ultimately show ?thesis by (auto simp: list_all2_append2 list_all2_Cons2)
qed

text \<open>C5. A flush changes no read. Writing the tables of the oldest immutable memtable always succeeds; when the
  tables are below 4 GiB and the recorded size of level 0 does not overflow, the round succeeds: the
  memtable is gone, the worker's levels are those the rudder recorded, and every read at every sequence
  answers as before. The worker starts in step with the rudder and draws identifiers that are not in use.\<close>

theorem flush_preserves_reads:
  assumes "flush_tree (ue_tables ue) up tabs xs mss a z zss" "flush_env (ue_tables ue) up tabs (length a)"
    and "in_step ue up tabs node rd" "2 * length a < fuel"
  shows "\<exists>infos up1. up_write_ssts (ue_tables ue) fuel (mc_table (last (lt_immutable_memtables (up_lsm_tree up)))) up = (Ok infos, up1) \<and>
    ((\<forall>info \<in> set infos. info_data_size info < 2 ^ 32) \<and>
      hd (vm_levels_data_size (up_manager up)) + sum_list (map info_data_size infos) < 2 ^ 64 \<longrightarrow>
     (\<exists>up' rd'. up_run_inner ue fuel up = (Ok (), up') \<and>
        lt_immutable_memtables (up_lsm_tree up') = butlast (lt_immutable_memtables (up_lsm_tree up)) \<and>
        up_rudders up' node = Some rd' \<and> vm_levels (up_manager up') = vm_levels (rd_version_manager rd') \<and>
        (\<forall>k s. k \<noteq> [] \<longrightarrow>
          fst (lsm_get mem_object_store_ops (te_decompress (ue_tables ue)) (te_crc32 (ue_tables ue)) (te_fingerprint32 (ue_tables ue)) k s (up_lsm_tree up')) =
          fst (lsm_get mem_object_store_ops (te_decompress (ue_tables ue)) (te_crc32 (ue_tables ue)) (te_fingerprint32 (ue_tables ue)) k s (up_lsm_tree up)))))"
proof -
  let ?env = "ue_tables ue" and ?lt = "up_lsm_tree up" and ?o = "up_options up"
  have t: "tree_over ?env tabs xs ?lt (mss @ [a]) (z # zss)" "layered (mss @ a # z # zss)" "lt_immutable_memtables ?lt \<noteq> []"
    "lo_compaction_strategy (hd (vm_level_options (up_manager up))) = Overlap" "versions_fit a" "a \<noteq> []" "length a + length z < 2 ^ 64"
    using assms(1) by (simp_all add: flush_tree_def)
  have e: "table_env_ok ?env" "options_ok ?o" "sbo_capacity ?o \<noteq> 0" using assms(2) by (simp_all add: flush_env_def)
  note mt = flush_memtable[OF assms(1)]
  from up_write_ssts_ok[OF e(1,2) mt t(5) assms(4)] obtain ts st s where
    w: "up_write_ssts ?env fuel (mc_table (last (lt_immutable_memtables ?lt))) up = (Ok (map wt_info ts), up_at st s up)"
      "uploaded ?env up ts st" "concat (map wt_versions ts) = a" by blast
  have run: "up_run_inner ue fuel up = notify_update_version ue (map wt_info ts) (up_at st s up)"
    by (rule flush_run_eq[OF t(3) e(3) _ w(1)]) (simp add: memtable_is_empty_ok[OF mt] t(6))
  show ?thesis
  proof (rule exI[of _ "map wt_info ts"], rule exI[of _ "up_at st s up"], intro conjI impI, rule w(1), elim conjE)
    assume size: "\<forall>info \<in> set (map wt_info ts). info_data_size info < 2 ^ 32"
      "hd (vm_levels_data_size (up_manager up)) + sum_list (map info_data_size (map wt_info ts)) < 2 ^ 64"
    then have small: "\<forall>t \<in> set ts. info_data_size (wt_info t) < 2 ^ 32" by simp
    note ok = written_tables_ok[OF assms(2) t(5) w(2,3) small]
    have st: "env_ss_inv ?env (add_tables ?o ts tabs) st" "ss_path st = ss_path (vm_store (up_manager up))"
      using w(2) t(1) ok by (auto simp: uploaded_def tables_stored_def tree_over_def tables_ok_def)
    have ops: "te_objects ?env = mem_object_store_ops" using e(1) by (simp add: table_env_ok_def)
    obtain up' rd' is' where n: "notify_update_version ue (map wt_info ts) (up_at st s up) = (Ok (), up')"
      "lt_memtable (up_lsm_tree up') = lt_memtable ?lt" "lt_immutable_memtables (up_lsm_tree up') = butlast (lt_immutable_memtables ?lt)"
      "vm_level_options (up_manager up') = vm_level_options (up_manager up)" "vm_levels (up_manager up') = is' # tl (vm_levels (up_manager up))"
      "mset is' = mset (map fst ts) + mset (hd (vm_levels (up_manager up)))" "up_rudders up' node = Some rd'"
      "vm_agree mo_objects (te_decompress ?env) (te_crc32 ?env) (add_tables ?o ts tabs) (rd_version_manager rd') (up_manager up')"
      using notify_ok[OF assms(1) refl ops assms(3) ok(1) w(3) st size(2), of s] by blast
    have store: "env_ss_inv ?env (add_tables ?o ts tabs) (vm_store (up_manager up'))" using n(8) by (simp add: vm_agree_def)
    from flush_layers[OF t(1,2,4) ok(1) w(3) t(7) n(2,3) t(3) n(4-6) store] obtain c where
      c: "tree_over ?env (add_tables ?o ts tabs) (with_written ts xs) (up_lsm_tree up') mss (c # zss)"
        "\<forall>s k. read_layers s k (mss @ c # zss) = read_layers s k (mss @ a # z # zss)" by blast
    have "fst (lsm_get mem_object_store_ops (te_decompress ?env) (te_crc32 ?env) (te_fingerprint32 ?env) k s (up_lsm_tree up')) =
        fst (lsm_get mem_object_store_ops (te_decompress ?env) (te_crc32 ?env) (te_fingerprint32 ?env) k s ?lt)" if "k \<noteq> []" for k s
      using lsm_get_layers[OF tree_over_holds[OF c(1)] that, of s] lsm_get_layers[OF tree_over_holds[OF t(1)] that, of s] c(2) by auto
    then show "\<exists>up' rd'. up_run_inner ue fuel up = (Ok (), up') \<and>
        lt_immutable_memtables (up_lsm_tree up') = butlast (lt_immutable_memtables ?lt) \<and>
        up_rudders up' node = Some rd' \<and> vm_levels (up_manager up') = vm_levels (rd_version_manager rd') \<and>
        (\<forall>k s. k \<noteq> [] \<longrightarrow>
          fst (lsm_get mem_object_store_ops (te_decompress ?env) (te_crc32 ?env) (te_fingerprint32 ?env) k s (up_lsm_tree up')) =
          fst (lsm_get mem_object_store_ops (te_decompress ?env) (te_crc32 ?env) (te_fingerprint32 ?env) k s ?lt))"
      unfolding run using n(1,3,7,8) by (auto simp: vm_agree_def)
  qed
qed

text \<open>An empty memtable stops the flushing: when the oldest immutable memtable is empty, a round succeeds and
  changes nothing, so every later round finds the same memtable and no other one is ever flushed.\<close>

theorem empty_memtable_stops_flushes:
  assumes "lt_immutable_memtables (up_lsm_tree up) \<noteq> []" "mt_rep (mc_table (last (lt_immutable_memtables (up_lsm_tree up)))) []"
    and "sbo_capacity (up_options up) \<noteq> 0"
  shows "up_rounds ue fuel n up = (Ok (), up)"
proof -
  have "up_run_inner ue fuel up = (Ok (), up)"
    using assms memtable_is_empty_ok[OF assms(2)] by (simp add: up_run_inner_def get_oldest_immutable_memtable_def last_of_def)
  then show ?thesis by (induction n) simp_all
qed

section \<open>An example\<close>

lemma small_table:
  assumes "sstable_builder_new o1 = Ok sb0" "sb_add compress crc32 fp k s v sb0 = Ok sb1" "sb_build compress crc32 sb1 = Ok (m, data)"
    and "sbo_compression_algorithm o1 = NoCompression" "length (full_key k s) + length (raw_value v) + 100 < sbo_block_capacity o1"
  shows "sm_data_size m < sbo_block_capacity o1"
proof -
  have pl: "prefix_len kp \<le> 15" for kp
    using var_u32_len_bounds[of "of_nat (kp_value kp)"] var_u32_len_bounds[of "of_nat (kp_diff kp)"] var_u32_len_bounds[of "of_nat (kp_overlap kp)"]
    by (simp add: prefix_len_def)
  obtain kb where kb: "block_add (full_key k s) (raw_value v) \<lparr>kb_buf = [], kb_restart_count = sbo_restart_interval o1, kb_restart_points = [],
      kb_last_key = [], kb_entry_count = 0, kb_compression = NoCompression\<rparr> = Ok kb"
    and sb1: "sb1 = sb0\<lparr>sb_block_builder := Some kb, sb_user_key_hashes := [fp k], sb_last_full_key := full_key k s,
      sb_block_metas := [\<lparr>bm_offset = 0, bm_len = 0, bm_first_key = full_key k s, bm_last_key = []\<rparr>]\<rparr> \<or> sbo_block_capacity o1 \<le> block_approximate_len kb"
    using assms(1,2,4) by (auto simp: sstable_builder_new_def sb_add_def sb_rotate_def block_builder_new_def outcome_simps Let_def last_of_def split: if_splits)
  have len: "length (kb_buf kb) \<le> 15 + length (full_key k s) + length (raw_value v)" "length (kb_restart_points kb) = 1" "kb_compression kb = NoCompression"
    using kb pl by (auto simp: block_add_def Let_def outcome_simps prefix_encode_def[symmetric] split: if_splits)
  then have sb1: "sb1 = sb0\<lparr>sb_block_builder := Some kb, sb_user_key_hashes := [fp k], sb_last_full_key := full_key k s,
      sb_block_metas := [\<lparr>bm_offset = 0, bm_len = 0, bm_first_key = full_key k s, bm_last_key = []\<rparr>]\<rparr>" using sb1 assms(5) by (simp add: block_approximate_len_def)
  obtain p where p: "kb_restart_points kb = [p]" using len(2) by (cases "kb_restart_points kb") auto
  then show ?thesis using assms(1,3,5) len sb1
    by (auto simp: sb_build_def sb_build_block_def block_build_def outcome_simps Let_def last_of_def compression_encode_def sstable_builder_new_def)
qed

definition flush_options :: sstable_builder_options where
  "flush_options = \<lparr>sbo_capacity = 1024, sbo_block_capacity = 512, sbo_restart_interval = 2,
     sbo_bloom_false_positive = 1, sbo_compression_algorithm = NoCompression\<rparr>"

definition flush_manager :: "mem_object_store version_manager" where
  "flush_manager =
     \<lparr>vm_level_options = [\<lparr>lo_compaction_strategy = Overlap, lo_compression_algorithm = NoCompression\<rparr>], vm_levels = [[]],
      vm_levels_data_size = [0], vm_diffs = [], vm_store = sstable_store_new ''t'' \<lparr>mo_objects = Map.empty\<rparr> Map.empty, vm_watermark = 0\<rparr>"

definition flush_uploader :: "memtable \<Rightarrow> memtable \<Rightarrow> (mem_object_store, net_node, nat) uploader" where
  "flush_uploader mt imm =
     uploader_new 3 flush_options
       \<lparr>lt_write_buffer_capacity = 1024, lt_version_manager = flush_manager,
        lt_memtable = \<lparr>mc_table = mt, mc_max_applied_index = 0, mc_max_sequence = 0\<rparr>,
        lt_immutable_memtables = [\<lparr>mc_table = imm, mc_max_applied_index = 1, mc_max_sequence = 12\<rparr>]\<rparr>
       (cp_with_nodes id [\<lparr>nn_id = 1, nn_host = ''r'', nn_port = 80\<rparr>]) 1
       [1 \<mapsto> \<lparr>rd_version_manager = flush_manager, rd_channel_pool = cp_with_nodes id [], rd_meta_store = rudder_meta_new 60\<rparr>]"

definition flush_example_env :: "(mem_object_store, net_node, nat) uploader_env" where
  "flush_example_env = \<lparr>ue_tables = example_table_env, ue_connect = (\<lambda>ep. Some (nn_id ep)), ue_node_of = id\<rparr>"

lemma flush_memtables:
  "\<exists>mt imm. mt_rep mt [] \<and> mt_rep imm [([107], 12, Some [5])]"
proof -
  obtain mt where mt: "mt_rep mt []" "ar_cap (sl_arena (mt_inner mt)) = 1024" "memtable_mem_size mt = 160"
    using example_memtable[of 1024] by auto
  have h: "2 < tower_max_height" by (simp add: tower_max_height_def)
  have "memtable_mem_size mt + node_bytes example_layout_of_node 2 \<le> ar_cap (sl_arena (mt_inner mt))"
    using mt by (simp add: node_bytes_def example_layout_of_node_def tower_max_height_def)
  from memtable_put_total[OF mt(1) example_writes_ok(1) h this, of "[107]" "Some [5]" 12] obtain imm where
    imm: "memtable_put example_layout_of_node 2 [107] (Some [5]) 12 mt = Ok imm" by blast
  obtain ys where "mt_rep imm ys" "set ys = insert ([107], 12, Some [5]) (set [])"
    using memtable_put_rep[OF mt(1) imm example_writes_ok(1) h] by auto
  moreover from this have "ys = [([107], 12, Some [5])]"
    using versions_sorted_unique[OF mt_rep_sorted[OF \<open>mt_rep imm ys\<close>], of "[([107], 12, Some [5])]"] by (simp add: key_sorted_def entry_of_def)
  ultimately show ?thesis using mt(1) by blast
qed

lemma flush_example:
  assumes "mt_rep mt []" "mt_rep imm [([107], 12, Some [5])]"
  shows "flush_tree example_table_env (flush_uploader mt imm) Map.empty (\<lambda>_. []) [[]] [([107], 12, Some [5])] [] []"
    "flush_env example_table_env (flush_uploader mt imm) Map.empty 1"
    "in_step flush_example_env (flush_uploader mt imm) Map.empty 1
      \<lparr>rd_version_manager = flush_manager, rd_channel_pool = cp_with_nodes id [], rd_meta_store = rudder_meta_new 60\<rparr>"
proof -
  have inv: "ss_inv mo_objects stored_decompress (\<lambda>_. 7) Map.empty (sstable_store_new ''t'' \<lparr>mo_objects = Map.empty\<rparr> Map.empty)"
    by (rule mem_os.run_inv[OF run_new])
  have sorted: "versions_sorted [([107], 12, Some [5])]" "versions_sorted []" by (simp_all add: key_sorted_def entry_of_def)
  show "flush_tree example_table_env (flush_uploader mt imm) Map.empty (\<lambda>_. []) [[]] [([107], 12, Some [5])] [] []"
    using assms inv sorted
    by (simp add: flush_tree_def tree_over_def flush_uploader_def uploader_new_def flush_manager_def example_table_env_def layered_def
        level_holds_def versions_fit_def entry_fits_def entry_of_def raw_value_def)
  have "filter_small flush_options k" if "k \<le> 1" for k using that by (simp add: filter_small_def flush_options_def bloom_bits_per_key_def)
  then show "flush_env example_table_env (flush_uploader mt imm) Map.empty 1"
    using lz4_frames_stored by (simp add: flush_env_def flush_uploader_def uploader_new_def example_table_env_def table_env_ok_def flush_options_def options_ok_def)
  show "in_step flush_example_env (flush_uploader mt imm) Map.empty 1
      \<lparr>rd_version_manager = flush_manager, rd_channel_pool = cp_with_nodes id [], rd_meta_store = rudder_meta_new 60\<rparr>"
    using inv by (auto simp: in_step_def flush_example_env_def flush_uploader_def uploader_new_def flush_manager_def example_table_env_def
        cp_get_def cp_with_nodes_def vm_agree_def vm_latest_version_id_def last_of_def)
qed

lemma uj_close_info:
  assumes "uj_close env sb uj up = (Ok uj', up')"
  shows "\<exists>m data. sb_build (te_compress env) (te_crc32 env) sb = Ok (m, data) \<and>
    uj_sst_infos uj' = uj_sst_infos uj @ [\<lparr>info_id = uj_sst_id uj, info_data_size = sm_data_size m\<rparr>]"
proof -
  obtain info up1 where i: "up_build_and_upload_sst env (uj_sst_id uj) sb up = (Ok info, up1)" "uj_sst_infos uj' = uj_sst_infos uj @ [info]"
    using assms by (auto simp: uj_close_def outcome_simps)
  obtain st where "upload_sst env (uj_sst_id uj) sb (vm_store (up_manager up)) = (Ok info, st)"
    using i(1) by (auto simp: up_build_and_upload_sst_def split: prod.splits)
  then have "\<exists>m data. sb_build (te_compress env) (te_crc32 env) sb = Ok (m, data) \<and> info = \<lparr>info_id = uj_sst_id uj, info_data_size = sm_data_size m\<rparr>"
    by (auto simp: upload_sst_def Let_def split: result.splits prod.splits elim!: continue_with.elims)
  then show ?thesis using i(2) by blast
qed

lemma flush_example_size:
  assumes mt: "mt_rep imm [([107], 12, Some [5])]"
    and w: "up_write_ssts example_table_env 3 imm (flush_uploader mt imm) = (Ok infos, up1)"
  shows "\<exists>info. infos = [info] \<and> info_data_size info < 512"
proof -
  let ?x = "([107], 12, Some [5]) :: version_entry"
  have "sk_over (memtable_iter imm) (map entry_of [?x])" using mt by (auto simp: mt_rep_def sk_over_def memtable_iter_def sk_iter_def)
  then obtain it where it: "sk_seek_to_first (memtable_iter imm) = Ok it" "sk_ahead it (map entry_of [?x])"
    using skip_fwd.over_first[of "memtable_iter imm"] by (auto simp: skip_iterator_ops_def outcome_simps)
  have valid: "sk_valid it" using skip_fwd.ahead_valid[OF it(2)] by (simp add: skip_iterator_ops_def)
  have key: "sk_key it = Ok (full_key [107] 12)" "sk_value it = Ok (raw_value (Some [5]))"
    using skip_fwd.ahead_key[of it "entry_of ?x" "[]"] skip_fwd.ahead_value[of it "entry_of ?x" "[]"] it(2) by (auto simp: entry_of_def skip_iterator_ops_def)
  obtain it' where nxt: "sk_next it = Ok it'" "\<not> sk_valid it'"
    using skip_fwd.ahead_next[of it "entry_of ?x" "[]"] skip_fwd.ahead_valid[of _ "[]"] it(2) by (auto simp: skip_iterator_ops_def)
  obtain sb0 where sb0: "sstable_builder_new flush_options = Ok sb0" "sb_is_empty sb0"
    using env_new_ok[of flush_options] by (auto simp: options_ok_def flush_options_def)
  have opts: "up_options (flush_uploader mt imm) = flush_options" by (simp add: flush_uploader_def uploader_new_def)
  let ?uj = "\<lparr>uj_iter = it, uj_builder = None, uj_sst_id = 0, uj_sst_infos = []\<rparr>"
  obtain uj1 up2 uj2 where r: "uj_loop example_table_env 3 ?uj (flush_uploader mt imm) = (Ok uj1, up2)" "uj_finish example_table_env uj1 up2 = (Ok uj2, up1)"
    "infos = uj_sst_infos uj2" using w it(1) by (auto simp: up_write_ssts_def outcome_simps)
  obtain sb1 where sb1: "sb_add stored_compress (\<lambda>_. 7) (\<lambda>_. 1) [107] 12 (Some [5]) sb0 = Ok sb1" "uj_builder uj1 = Some sb1" "uj_sst_infos uj1 = []"
    using r(1) valid key nxt sb0 opts
    by (auto simp: numeral_3_eq_3 uj_step_def uj_open_def up_gen_sstable_id_def uj_take_def example_table_env_def outcome_simps)
  obtain m data where "sb_build stored_compress (\<lambda>_. 7) sb1 = Ok (m, data)" "infos = [\<lparr>info_id = uj_sst_id uj1, info_data_size = sm_data_size m\<rparr>]"
    using uj_close_info[of example_table_env sb1 uj1 up2 uj2 up1] r(2,3) sb1(2,3) by (auto simp: uj_finish_def example_table_env_def)
  then show ?thesis using small_table[OF sb0(1) sb1(1)] by (simp add: flush_options_def raw_value_def)
qed

theorem flush_preserves_reads_witness:
  "\<exists>mt imm up'. mt_rep imm [([107], 12, Some [5])] \<and> up_run_inner flush_example_env 3 (flush_uploader mt imm) = (Ok (), up') \<and>
    lt_immutable_memtables (up_lsm_tree up') = [] \<and>
    fst (lsm_get mem_object_store_ops stored_decompress (\<lambda>_. 7) (\<lambda>_. 1) [107] 12 (up_lsm_tree up')) = Ok (Some [5])"
proof -
  obtain mt imm where mt: "mt_rep mt []" "mt_rep imm [([107], 12, Some [5])]" using flush_memtables by blast
  note ex = flush_example[OF mt]
  let ?up = "flush_uploader mt imm"
  have env: "ue_tables flush_example_env = example_table_env" by (simp add: flush_example_env_def)
  have tree: "mc_table (last (lt_immutable_memtables (up_lsm_tree ?up))) = imm" "butlast (lt_immutable_memtables (up_lsm_tree ?up)) = []"
    "hd (vm_levels_data_size (up_manager ?up)) = 0" by (simp_all add: flush_uploader_def uploader_new_def flush_manager_def)
  have pre: "flush_tree (ue_tables flush_example_env) ?up Map.empty (\<lambda>_. []) [[]] [([107], 12, Some [5])] [] []"
    "flush_env (ue_tables flush_example_env) ?up Map.empty (length [([107], 12, Some [5]) :: version_entry])" using ex(1,2) env by simp_all
  from flush_preserves_reads[OF pre ex(3), of 3, unfolded tree env] obtain infos up1 where
    w: "up_write_ssts example_table_env 3 imm ?up = (Ok infos, up1)" and
    imp: "(\<forall>info \<in> set infos. info_data_size info < 2 ^ 32) \<and> 0 + sum_list (map info_data_size infos) < 2 ^ 64 \<longrightarrow>
      (\<exists>up' rd'. up_run_inner flush_example_env 3 ?up = (Ok (), up') \<and> lt_immutable_memtables (up_lsm_tree up') = [] \<and>
        up_rudders up' 1 = Some rd' \<and> vm_levels (up_manager up') = vm_levels (rd_version_manager rd') \<and>
        (\<forall>k s. k \<noteq> [] \<longrightarrow>
          fst (lsm_get mem_object_store_ops (te_decompress example_table_env) (te_crc32 example_table_env) (te_fingerprint32 example_table_env) k s (up_lsm_tree up')) =
          fst (lsm_get mem_object_store_ops (te_decompress example_table_env) (te_crc32 example_table_env) (te_fingerprint32 example_table_env) k s (up_lsm_tree ?up))))"
    by auto
  have "(\<forall>info \<in> set infos. info_data_size info < 2 ^ 32) \<and> 0 + sum_list (map info_data_size infos) < 2 ^ 64"
    using flush_example_size[OF mt(2) w] by auto
  with imp obtain up' where u: "up_run_inner flush_example_env 3 ?up = (Ok (), up')" "lt_immutable_memtables (up_lsm_tree up') = []"
    "\<forall>k s. k \<noteq> [] \<longrightarrow>
          fst (lsm_get mem_object_store_ops (te_decompress example_table_env) (te_crc32 example_table_env) (te_fingerprint32 example_table_env) k s (up_lsm_tree up')) =
          fst (lsm_get mem_object_store_ops (te_decompress example_table_env) (te_crc32 example_table_env) (te_fingerprint32 example_table_env) k s (up_lsm_tree ?up))"
    by blast
  have "tree_over example_table_env Map.empty (\<lambda>_. []) (up_lsm_tree ?up) ([[]] @ [[([107], 12, Some [5])]]) ([] # [])"
    using ex(1) by (simp add: flush_tree_def)
  from lsm_get_layers[OF tree_over_holds[OF this], of "[107]" 12]
  have "fst (lsm_get mem_object_store_ops (te_decompress example_table_env) (te_crc32 example_table_env) (te_fingerprint32 example_table_env) [107] 12
      (up_lsm_tree ?up)) = Ok (Some [5])" by (auto simp: read_at_def visible_def)
  then show ?thesis using u mt(2) by (intro exI[of _ mt] exI[of _ imm] exI[of _ up']) (simp add: example_table_env_def)
qed

theorem empty_memtable_stops_flushes_witness:
  "\<exists>mt. up_rounds flush_example_env 3 100 (flush_uploader mt mt) = (Ok (), flush_uploader mt mt)"
proof -
  obtain mt where "mt_rep mt []" using flush_memtables by blast
  then have "up_rounds flush_example_env 3 100 (flush_uploader mt mt) = (Ok (), flush_uploader mt mt)"
    by (intro empty_memtable_stops_flushes) (simp_all add: flush_uploader_def uploader_new_def flush_options_def)
  then show ?thesis by blast
qed

end
