(* ===== verification/RaftNetwork.thy ===== *)
theory RaftNetwork
  imports Calls Pools
begin

text \<open>
  \<open>wheel/src/components/raft_network.rs\<close>: which raft nodes there are, on which node each of them runs, and
  the channel through which messages reach it.

  The network is shared behind a read-write lock, so its operations are atomic. A message of the raft
  library is its receiver and a body the code does not look at. A channel is the queue of its messages;
  the receiver stays in the network until a raft worker takes it, and sending fails once it was dropped.
  The \<open>bincode\<close> crate and the remote call are parameters.
\<close>

section \<open>State\<close>

record 'b raft_message =
  rm_to :: nat
  rm_body :: 'b

record 'm msg_channel =
  mc_queue :: "'m list"
  mc_rx :: bool
  mc_open :: bool

definition unbounded_channel :: "'m msg_channel" where
  "unbounded_channel = \<lparr>mc_queue = [], mc_rx = True, mc_open = True\<rparr>"

record ('b, 'ep, 'ch) raft_network =
  rn_node :: nat
  rn_raft_nodes :: "nat \<rightharpoonup> nat"
  rn_message_channels :: "nat \<rightharpoonup> 'b raft_message msg_channel"
  rn_groups :: "nat \<rightharpoonup> nat list"
  rn_channel_pool :: "('ep, 'ch) channel_pool"

definition raft_network_new :: "nat \<Rightarrow> ('ep, 'ch) channel_pool \<Rightarrow> ('b, 'ep, 'ch) raft_network" where
  "raft_network_new node cp =
     \<lparr>rn_node = node, rn_raft_nodes = Map.empty, rn_message_channels = Map.empty, rn_groups = Map.empty, rn_channel_pool = cp\<rparr>"

definition rn_raft_nodes_of :: "nat \<Rightarrow> ('b, 'ep, 'ch) raft_network \<Rightarrow> nat list res" where
  "rn_raft_nodes_of gid rn = ok_or (RaftGroupNotExists gid) (rn_groups rn gid)"

section \<open>Operations\<close>

text \<open>The nodes of a group come in the order of their identifiers.\<close>

definition rn_register_node :: "nat \<Rightarrow> nat \<times> nat \<Rightarrow> (('b, 'ep, 'ch) raft_network, unit) call" where
  "rn_register_node gid n rn =
     (if rn_raft_nodes rn (fst n) \<noteq> None
      then (Err (RaftNodeAlreadyExists gid (fst n) (snd n)), rn\<lparr>rn_groups := (rn_groups rn)(gid := None)\<rparr>)
      else (Ok (), rn\<lparr>rn_raft_nodes := (rn_raft_nodes rn)(fst n \<mapsto> snd n),
                      rn_message_channels := (rn_message_channels rn)(fst n \<mapsto> unbounded_channel)\<rparr>))"

definition rn_register :: "nat \<Rightarrow> (nat \<times> nat) list \<Rightarrow> (('b, 'ep, 'ch) raft_network, unit) call" where
  "rn_register gid raft_nodes rn =
     (if rn_groups rn gid \<noteq> None then (Err (RaftGroupAlreadyExists gid), rn)
      else cfold (rn_register_node gid) raft_nodes (rn\<lparr>rn_groups := (rn_groups rn)(gid \<mapsto> map fst raft_nodes)\<rparr>))"

text \<open>A client is the channel to the node of a raft node.\<close>

definition rn_client :: "('ep \<Rightarrow> 'ch option) \<Rightarrow> nat \<Rightarrow> (('b, 'ep, 'ch) raft_network, 'ch) call" where
  "rn_client connect raft_node rn =
     (case rn_raft_nodes rn raft_node of
        None \<Rightarrow> (Err (RaftNodeNotExists raft_node (rn_node rn)), rn)
      | Some node \<Rightarrow>
          (case cp_get connect node (rn_channel_pool rn) of
             Ok (channel, cp) \<Rightarrow> (Ok channel, rn\<lparr>rn_channel_pool := cp\<rparr>)
           | Err _ \<Rightarrow> (Err (Other ''channel pool''), rn)
           | Panic \<Rightarrow> (Panic, rn)
           | OutOfFuel \<Rightarrow> (OutOfFuel, rn)))"

definition rn_recv_one :: "'b raft_message \<Rightarrow> (('b, 'ep, 'ch) raft_network, unit) call" where
  "rn_recv_one msg rn =
     (case rn_message_channels rn (rm_to msg) of
        None \<Rightarrow> (Err (RaftNodeNotExists (rm_to msg) (rn_node rn)), rn)
      | Some ch \<Rightarrow>
          if mc_open ch
          then (Ok (), rn\<lparr>rn_message_channels := (rn_message_channels rn)(rm_to msg \<mapsto> ch\<lparr>mc_queue := mc_queue ch @ [msg]\<rparr>)\<rparr>)
          else (Err (Other ''channel closed''), rn))"

definition rn_recv :: "'b raft_message list \<Rightarrow> (('b, 'ep, 'ch) raft_network, unit) call" where
  "rn_recv msgs = cfold rn_recv_one msgs"

definition take_message_rx :: "nat \<Rightarrow> (('b, 'ep, 'ch) raft_network, unit) call" where
  "take_message_rx raft_node rn =
     (case rn_message_channels rn raft_node of
        None \<Rightarrow> (Err (RaftNodeNotExists raft_node (rn_node rn)), rn)
      | Some ch \<Rightarrow>
          if mc_rx ch
          then (Ok (), rn\<lparr>rn_message_channels := (rn_message_channels rn)(raft_node \<mapsto> ch\<lparr>mc_rx := False\<rparr>)\<rparr>)
          else (Err (Other ''message rx has already been taken''), rn))"

text \<open>The receiver that was taken reads the queue, or is dropped.\<close>

datatype 'm try_recv = Received 'm | Empty | Disconnected

definition rn_try_recv :: "nat \<Rightarrow> ('b, 'ep, 'ch) raft_network \<Rightarrow> 'b raft_message try_recv \<times> ('b, 'ep, 'ch) raft_network" where
  "rn_try_recv raft_node rn =
     (case rn_message_channels rn raft_node of
        None \<Rightarrow> (Disconnected, rn)
      | Some ch \<Rightarrow>
          (case mc_queue ch of
             [] \<Rightarrow> (Empty, rn)
           | m # ms \<Rightarrow> (Received m, rn\<lparr>rn_message_channels := (rn_message_channels rn)(raft_node \<mapsto> ch\<lparr>mc_queue := ms\<rparr>)\<rparr>)))"

definition rn_drop_rx :: "nat \<Rightarrow> ('b, 'ep, 'ch) raft_network \<Rightarrow> ('b, 'ep, 'ch) raft_network" where
  "rn_drop_rx raft_node rn =
     rn\<lparr>rn_message_channels := (rn_message_channels rn)(raft_node :=
       map_option (\<lambda>ch. ch\<lparr>mc_open := False\<rparr>) (rn_message_channels rn raft_node))\<rparr>"

text \<open>A client serialises the messages and calls the service of the other node, which hands them to its
  network.\<close>

definition grpc_send :: "('b raft_message list \<Rightarrow> bytes option) \<Rightarrow> ('ch \<Rightarrow> bytes \<Rightarrow> ('w, unit) call) \<Rightarrow> 'ch \<Rightarrow> 'b raft_message list \<Rightarrow> ('w, unit) call" where
  "grpc_send serialize rpc client msgs =
     cbind (cres (ok_or (SerdeError ''messages'') (serialize msgs))) (\<lambda>data w.
       let (r, w) = rpc client data w in (map_err (\<lambda>_. RpcStatus) r, w))"

definition raft_service :: "(bytes \<Rightarrow> 'b raft_message list option) \<Rightarrow> bytes \<Rightarrow> (('b, 'ep, 'ch) raft_network, unit) call" where
  "raft_service deserialize data =
     cbind (cres (ok_or (SerdeError ''messages'') (deserialize data))) rn_recv"

section \<open>Messages are delivered in order\<close>

definition reaches :: "('b, 'ep, 'ch) raft_network \<Rightarrow> nat \<Rightarrow> bool" where
  "reaches rn n \<longleftrightarrow> (case rn_message_channels rn n of None \<Rightarrow> False | Some ch \<Rightarrow> mc_open ch)"

definition inbox :: "('b, 'ep, 'ch) raft_network \<Rightarrow> nat \<Rightarrow> 'b raft_message list" where
  "inbox rn n = (case rn_message_channels rn n of None \<Rightarrow> [] | Some ch \<Rightarrow> mc_queue ch)"

abbreviation for_node :: "nat \<Rightarrow> 'b raft_message list \<Rightarrow> 'b raft_message list" where
  "for_node n msgs \<equiv> filter (\<lambda>m. rm_to m = n) msgs"

text \<open>Everything but the queues.\<close>

definition same_routes :: "('b, 'ep, 'ch) raft_network \<Rightarrow> ('b, 'ep, 'ch) raft_network \<Rightarrow> bool" where
  "same_routes rn rn' \<longleftrightarrow> rn_node rn' = rn_node rn \<and> rn_raft_nodes rn' = rn_raft_nodes rn \<and> rn_groups rn' = rn_groups rn \<and>
     rn_channel_pool rn' = rn_channel_pool rn \<and> dom (rn_message_channels rn') = dom (rn_message_channels rn) \<and> reaches rn' = reaches rn"

lemma same_routes_refl [simp]: "same_routes rn rn"
  by (simp add: same_routes_def)

lemma same_routes_trans: "same_routes a b \<Longrightarrow> same_routes b c \<Longrightarrow> same_routes a c"
  by (simp add: same_routes_def)

lemma rn_recv_one_ok:
  assumes "reaches rn (rm_to msg)"
  shows "\<exists>rn'. rn_recv_one msg rn = (Ok (), rn') \<and> same_routes rn rn' \<and> inbox rn' = (inbox rn)(rm_to msg := inbox rn (rm_to msg) @ [msg])"
  using assms by (auto simp: reaches_def rn_recv_one_def same_routes_def inbox_def fun_eq_iff split: option.splits)

lemma rn_recv_one_fails: "\<not> reaches rn (rm_to msg) \<Longrightarrow> \<exists>e. rn_recv_one msg rn = (Err e, rn)"
  by (auto simp: reaches_def rn_recv_one_def split: option.splits)

lemma rn_recv_effect:
  "\<exists>r rn'. rn_recv msgs rn = (r, rn') \<and> same_routes rn rn' \<and>
     (\<forall>n. inbox rn' n = inbox rn n @ for_node n (takeWhile (\<lambda>m. reaches rn (rm_to m)) msgs)) \<and>
     (if list_all (\<lambda>m. reaches rn (rm_to m)) msgs then r = Ok () else \<exists>e. r = Err e)"
proof (induction msgs arbitrary: rn)
  case Nil
  then show ?case by (simp add: rn_recv_def)
next
  case (Cons m ms)
  show ?case
  proof (cases "reaches rn (rm_to m)")
    case True
    then obtain rn1 where one: "rn_recv_one m rn = (Ok (), rn1)" "same_routes rn rn1" "inbox rn1 = (inbox rn)(rm_to m := inbox rn (rm_to m) @ [m])"
      using rn_recv_one_ok by blast
    have same: "reaches rn1 = reaches rn" using one(2) by (simp add: same_routes_def)
    from Cons.IH[of rn1] obtain r rn' where "rn_recv ms rn1 = (r, rn')" "same_routes rn1 rn'"
      "\<forall>n. inbox rn' n = inbox rn1 n @ for_node n (takeWhile (\<lambda>m. reaches rn (rm_to m)) ms)"
      "if list_all (\<lambda>m. reaches rn (rm_to m)) ms then r = Ok () else \<exists>e. r = Err e" unfolding same by blast
    then show ?thesis using one True same_routes_trans[OF one(2)] by (auto simp: rn_recv_def)
  next
    case False
    then obtain e where "rn_recv_one m rn = (Err e, rn)" using rn_recv_one_fails by blast
    then show ?thesis using False by (auto simp: rn_recv_def)
  qed
qed

text \<open>What a raft worker relies on of the network of another node: messages for nodes that can be reached
  are taken, and join the inboxes in the order they were sent.\<close>

locale raft_transport =
  fixes deliver :: "'b raft_message list \<Rightarrow> ('s, unit) call"
    and inbox_of :: "'s \<Rightarrow> nat \<Rightarrow> 'b raft_message list"
    and reached :: "'s \<Rightarrow> nat \<Rightarrow> bool"
  assumes deliver_all: "list_all (\<lambda>m. reached s (rm_to m)) msgs \<Longrightarrow>
    \<exists>s'. deliver msgs s = (Ok (), s') \<and> reached s' = reached s \<and> (\<forall>n. inbox_of s' n = inbox_of s n @ for_node n msgs)"
begin

lemma deliver_batches:
  assumes "\<forall>msgs \<in> set batches. list_all (\<lambda>m. reached s (rm_to m)) msgs"
  shows "\<exists>s'. cfold deliver batches s = (Ok (), s') \<and> reached s' = reached s \<and>
    (\<forall>n. inbox_of s' n = inbox_of s n @ for_node n (concat batches))"
  using assms
proof (induction batches arbitrary: s)
  case (Cons msgs batches)
  then obtain s1 where one: "deliver msgs s = (Ok (), s1)" "reached s1 = reached s" "\<forall>n. inbox_of s1 n = inbox_of s n @ for_node n msgs"
    using deliver_all[of s msgs] by auto
  from Cons.IH[of s1] Cons.prems one show ?case by auto
qed simp

end

interpretation grpc: raft_transport rn_recv inbox reaches
proof (unfold_locales, goal_cases)
  case all: (1 s msgs)
  then have tw: "takeWhile (\<lambda>m. reaches s (rm_to m)) msgs = msgs" by (auto simp: list_all_iff takeWhile_eq_all_conv)
  obtain r rn' where "rn_recv msgs s = (r, rn')" "same_routes s rn'"
    "\<forall>n. inbox rn' n = inbox s n @ for_node n msgs" "if list_all (\<lambda>m. reaches s (rm_to m)) msgs then r = Ok () else \<exists>e. r = Err e"
    using rn_recv_effect[of msgs s] unfolding tw by blast
  then show ?case
    by (intro exI[of _ rn']) (use all in \<open>simp add: same_routes_def\<close>)
qed

section \<open>Registering groups\<close>

text \<open>Every raft node has a node and a channel; a group lists nodes that are registered, no node twice,
  and no node of another group.\<close>

definition rn_ok :: "('b, 'ep, 'ch) raft_network \<Rightarrow> bool" where
  "rn_ok rn \<longleftrightarrow> dom (rn_message_channels rn) = dom (rn_raft_nodes rn) \<and>
     (\<forall>g ns. rn_groups rn g = Some ns \<longrightarrow> distinct ns \<and> set ns \<subseteq> dom (rn_raft_nodes rn)) \<and>
     (\<forall>g g' ns ns'. rn_groups rn g = Some ns \<longrightarrow> rn_groups rn g' = Some ns' \<longrightarrow> g \<noteq> g' \<longrightarrow> set ns \<inter> set ns' = {})"

definition fresh_nodes :: "(nat \<times> nat) list \<Rightarrow> ('b, 'ep, 'ch) raft_network \<Rightarrow> bool" where
  "fresh_nodes ns rn \<longleftrightarrow> list_all (\<lambda>n. rn_raft_nodes rn (fst n) = None) ns"

lemma register_nodes_ok:
  assumes "distinct (map fst ns)" "fresh_nodes ns rn"
  shows "cfold (rn_register_node gid) ns rn = (Ok (), rn\<lparr>rn_raft_nodes := rn_raft_nodes rn ++ map_of ns,
    rn_message_channels := rn_message_channels rn ++ (\<lambda>n. if n \<in> fst ` set ns then Some unbounded_channel else None)\<rparr>)"
  using assms
proof (induction ns arbitrary: rn)
  case Nil
  then show ?case by (simp add: map_add_def)
next
  case (Cons n ns)
  obtain raft_node node where n: "n = (raft_node, node)" by (cases n)
  let ?rn = "rn\<lparr>rn_raft_nodes := (rn_raft_nodes rn)(raft_node \<mapsto> node), rn_message_channels := (rn_message_channels rn)(raft_node \<mapsto> unbounded_channel)\<rparr>"
  have one: "rn_register_node gid n rn = (Ok (), ?rn)" using Cons.prems by (simp add: rn_register_node_def fresh_nodes_def n)
  have fresh: "fresh_nodes ns ?rn" using Cons.prems by (auto simp: fresh_nodes_def list_all_iff n)
  have rest: "cfold (rn_register_node gid) ns ?rn = (Ok (), ?rn\<lparr>rn_raft_nodes := rn_raft_nodes ?rn ++ map_of ns,
    rn_message_channels := rn_message_channels ?rn ++ (\<lambda>n. if n \<in> fst ` set ns then Some unbounded_channel else None)\<rparr>)"
    by (rule Cons.IH) (use Cons.prems(1) fresh in simp_all)
  have "raft_node \<notin> fst ` set ns" using Cons.prems(1) by (simp add: n)
  then have e: "rn_raft_nodes ?rn ++ map_of ns = rn_raft_nodes rn ++ map_of (n # ns)"
    "rn_message_channels ?rn ++ (\<lambda>n. if n \<in> fst ` set ns then Some unbounded_channel else None) =
     rn_message_channels rn ++ (\<lambda>n'. if n' \<in> fst ` set (n # ns) then Some unbounded_channel else None)"
    by (auto simp: fun_eq_iff map_add_def n dest: map_of_SomeD split: option.splits intro: rev_image_eqI)
  show ?case unfolding e[symmetric] using one rest by simp
qed

lemma register_nodes_conflict:
  assumes "distinct (map fst (xs @ y # ys))" "fresh_nodes xs rn" "rn_raft_nodes rn (fst y) \<noteq> None"
  shows "\<exists>rn'. cfold (rn_register_node gid) (xs @ y # ys) rn = (Err (RaftNodeAlreadyExists gid (fst y) (snd y)), rn') \<and>
    rn_groups rn' = (rn_groups rn)(gid := None) \<and> rn_raft_nodes rn' = rn_raft_nodes rn ++ map_of xs \<and>
    rn_message_channels rn' = rn_message_channels rn ++ (\<lambda>n. if n \<in> fst ` set xs then Some unbounded_channel else None)"
proof -
  show ?thesis using assms register_nodes_ok[of xs rn gid] unfolding cfold_append
    by (auto simp: cbind_def rn_register_node_def map_add_def split: option.splits)
qed

text \<open>A registration fails on a group that exists, takes all nodes, or stops at the first node that exists.\<close>

lemma rn_register_cases:
  assumes "distinct (map fst ns)"
  obtains (taken) "rn_groups rn gid \<noteq> None" "rn_register gid ns rn = (Err (RaftGroupAlreadyExists gid), rn)"
  | (registered) rn' where "rn_groups rn gid = None" "fresh_nodes ns rn" "rn_register gid ns rn = (Ok (), rn')"
      "rn_groups rn' = (rn_groups rn)(gid \<mapsto> map fst ns)" "rn_raft_nodes rn' = rn_raft_nodes rn ++ map_of ns"
      "rn_message_channels rn' = rn_message_channels rn ++ (\<lambda>n. if n \<in> fst ` set ns then Some unbounded_channel else None)"
  | (conflict) xs y ys rn' where "rn_groups rn gid = None" "ns = xs @ y # ys" "fresh_nodes xs rn" "rn_raft_nodes rn (fst y) \<noteq> None"
      "rn_register gid ns rn = (Err (RaftNodeAlreadyExists gid (fst y) (snd y)), rn')"
      "rn_groups rn' = rn_groups rn" "rn_raft_nodes rn' = rn_raft_nodes rn ++ map_of xs"
      "rn_message_channels rn' = rn_message_channels rn ++ (\<lambda>n. if n \<in> fst ` set xs then Some unbounded_channel else None)"
proof (cases "rn_groups rn gid")
  case None
  let ?rn = "rn\<lparr>rn_groups := (rn_groups rn)(gid \<mapsto> map fst ns)\<rparr>"
  have r: "rn_register gid ns rn = cfold (rn_register_node gid) ns ?rn" using None by (simp add: rn_register_def)
  show ?thesis
  proof (cases "fresh_nodes ns rn")
    case True
    then show ?thesis using registered None r register_nodes_ok[OF assms, of ?rn gid] by (simp add: fresh_nodes_def)
  next
    case False
    then obtain xs y ys where "ns = xs @ y # ys" "fresh_nodes xs rn" "rn_raft_nodes rn (fst y) \<noteq> None"
      using split_list_first_prop[of ns "\<lambda>n. rn_raft_nodes rn (fst n) \<noteq> None"] by (auto simp: fresh_nodes_def list_all_iff)
    moreover from this register_nodes_conflict[of xs y ys ?rn gid] assms obtain rn' where
      "rn_register gid ns rn = (Err (RaftNodeAlreadyExists gid (fst y) (snd y)), rn')" "rn_groups rn' = (rn_groups ?rn)(gid := None)"
      "rn_raft_nodes rn' = rn_raft_nodes ?rn ++ map_of xs"
      "rn_message_channels rn' = rn_message_channels ?rn ++ (\<lambda>n. if n \<in> fst ` set xs then Some unbounded_channel else None)"
      unfolding r by (auto simp: fresh_nodes_def)
    moreover have "(rn_groups ?rn)(gid := None) = rn_groups rn" using None by (simp add: fun_upd_idem)
    ultimately show ?thesis using conflict None by simp
  qed
qed (use taken in \<open>simp add: rn_register_def\<close>)

text \<open>The operations of a network, in any order.\<close>

inductive rn_step :: "('b, 'ep, 'ch) raft_network \<Rightarrow> ('b, 'ep, 'ch) raft_network \<Rightarrow> bool" where
  step_register: "distinct (map fst ns) \<Longrightarrow> rn_step rn (snd (rn_register gid ns rn))"
| step_client: "rn_step rn (snd (rn_client connect raft_node rn))"
| step_recv: "rn_step rn (snd (rn_recv msgs rn))"
| step_take: "rn_step rn (snd (take_message_rx raft_node rn))"
| step_try_recv: "rn_step rn (snd (rn_try_recv raft_node rn))"
| step_drop: "rn_step rn (rn_drop_rx raft_node rn)"

lemma rn_quiet_steps:
  "\<exists>cp. snd (rn_client connect raft_node rn) = rn\<lparr>rn_channel_pool := cp\<rparr>"
  "\<exists>chs. snd (take_message_rx raft_node rn) = rn\<lparr>rn_message_channels := chs\<rparr> \<and> dom chs = dom (rn_message_channels rn)"
  "\<exists>chs. snd (rn_try_recv raft_node rn) = rn\<lparr>rn_message_channels := chs\<rparr> \<and> dom chs = dom (rn_message_channels rn)"
  "\<exists>chs. rn_drop_rx raft_node rn = rn\<lparr>rn_message_channels := chs\<rparr> \<and> dom chs = dom (rn_message_channels rn)"
proof -
  show "\<exists>cp. snd (rn_client connect raft_node rn) = rn\<lparr>rn_channel_pool := cp\<rparr>"
    by (auto simp: rn_client_def split: option.splits result.splits intro: exI[of _ "rn_channel_pool rn"])
  show "\<exists>chs. snd (take_message_rx raft_node rn) = rn\<lparr>rn_message_channels := chs\<rparr> \<and> dom chs = dom (rn_message_channels rn)"
    by (rule exI[of _ "rn_message_channels (snd (take_message_rx raft_node rn))"]) (auto simp: take_message_rx_def split: option.splits)
  show "\<exists>chs. snd (rn_try_recv raft_node rn) = rn\<lparr>rn_message_channels := chs\<rparr> \<and> dom chs = dom (rn_message_channels rn)"
    by (rule exI[of _ "rn_message_channels (snd (rn_try_recv raft_node rn))"]) (auto simp: rn_try_recv_def split: option.splits list.splits)
  show "\<exists>chs. rn_drop_rx raft_node rn = rn\<lparr>rn_message_channels := chs\<rparr> \<and> dom chs = dom (rn_message_channels rn)"
    by (rule exI[of _ "rn_message_channels (rn_drop_rx raft_node rn)"]) (auto simp: rn_drop_rx_def dom_def)
qed

lemma register_dom: "dom (\<lambda>n. if n \<in> S then Some c else None) = S"
  by (auto simp: dom_def)

lemma rn_ok_cong:
  "rn_raft_nodes rn' = rn_raft_nodes rn \<Longrightarrow> rn_groups rn' = rn_groups rn \<Longrightarrow>
    dom (rn_message_channels rn') = dom (rn_message_channels rn) \<Longrightarrow> rn_ok rn' = rn_ok rn"
  by (simp add: rn_ok_def)

lemma rn_register_ok:
  assumes "rn_ok rn" "distinct (map fst ns)"
  shows "rn_ok (snd (rn_register gid ns rn))"
  using assms(2)
proof (cases rule: rn_register_cases[where rn = rn and gid = gid])
  case (registered rn')
  have old: "set ms \<subseteq> dom (rn_raft_nodes rn)" if "rn_groups rn g = Some ms" for g ms using assms(1) that by (simp add: rn_ok_def)
  have "dom (rn_raft_nodes rn) \<inter> fst ` set ns = {}" using registered(2) by (fastforce simp: fresh_nodes_def list_all_iff)
  then have new: "set ms \<inter> fst ` set ns = {}" if "rn_groups rn g = Some ms" for g ms using old[OF that] by blast
  have "dom (rn_message_channels rn') = dom (rn_raft_nodes rn')" "dom (rn_raft_nodes rn') = dom (rn_raft_nodes rn) \<union> fst ` set ns"
    using assms(1) registered by (simp_all add: rn_ok_def register_dom dom_map_of_conv_image_fst Un_commute)
  moreover have "distinct ms \<and> set ms \<subseteq> dom (rn_raft_nodes rn) \<union> fst ` set ns" if "rn_groups rn' g = Some ms" for g ms
  proof (cases "g = gid")
    case False
    then have "rn_groups rn g = Some ms" using that registered(4) by simp
    then show ?thesis using old[of g ms] assms(1) by (simp add: rn_ok_def le_supI1)
  qed (use that assms(2) registered(4) in auto)
  moreover have "set ms \<inter> set ms' = {}" if "rn_groups rn' g = Some ms" "rn_groups rn' g' = Some ms'" "g \<noteq> g'" for g g' ms ms'
    using that new[of g ms] new[of g' ms'] assms(1) registered(4) unfolding rn_ok_def by (cases "g = gid"; cases "g' = gid") auto
  ultimately show ?thesis using registered(3) unfolding rn_ok_def by simp
next
  case (conflict xs y ys rn')
  then have "dom (rn_message_channels rn') = dom (rn_raft_nodes rn')" "dom (rn_raft_nodes rn') = dom (rn_raft_nodes rn) \<union> fst ` set xs"
    using assms(1) by (simp_all add: rn_ok_def register_dom dom_map_of_conv_image_fst Un_commute)
  then show ?thesis using assms(1) conflict(5,6) unfolding rn_ok_def by (simp add: le_supI1)
qed (use assms in simp)

lemma rn_step_keeps:
  assumes "rn_step rn rn'"
  shows "dom (rn_raft_nodes rn) \<subseteq> dom (rn_raft_nodes rn')" "rn_ok rn \<Longrightarrow> rn_ok rn'"
proof -
  have "dom (rn_raft_nodes rn) \<subseteq> dom (rn_raft_nodes rn') \<and> (rn_ok rn \<longrightarrow> rn_ok rn')"
    using assms
  proof cases
    case (step_register ns gid)
    have "dom (rn_raft_nodes rn) \<subseteq> dom (rn_raft_nodes (snd (rn_register gid ns rn)))"
      using step_register(2) by (cases rule: rn_register_cases[where rn = rn and gid = gid]) auto
    then show ?thesis using rn_register_ok step_register by blast
  next
    case (step_recv msgs)
    then show ?thesis using rn_recv_effect[of msgs rn] rn_ok_cong[of "snd (rn_recv msgs rn)" rn] by (auto simp: same_routes_def)
  next
    case (step_client connect raft_node)
    then show ?thesis using rn_quiet_steps(1)[of connect raft_node rn] rn_ok_cong[of "snd (rn_client connect raft_node rn)" rn] by auto
  next
    case (step_take raft_node)
    then show ?thesis using rn_quiet_steps(2)[of raft_node rn] rn_ok_cong[of "snd (take_message_rx raft_node rn)" rn] by auto
  next
    case (step_try_recv raft_node)
    then show ?thesis using rn_quiet_steps(3)[of raft_node rn] rn_ok_cong[of "snd (rn_try_recv raft_node rn)" rn] by auto
  next
    case (step_drop raft_node)
    then show ?thesis using rn_quiet_steps(4)[of raft_node rn] rn_ok_cong[of rn' rn] by auto
  qed
  then show "dom (rn_raft_nodes rn) \<subseteq> dom (rn_raft_nodes rn')" "rn_ok rn \<Longrightarrow> rn_ok rn'" by auto
qed

lemma rn_steps_keep:
  assumes "rn_step\<^sup>*\<^sup>* rn rn'"
  shows "dom (rn_raft_nodes rn) \<subseteq> dom (rn_raft_nodes rn')" "rn_ok rn \<Longrightarrow> rn_ok rn'"
  using assms by (induction rule: rtranclp_induct) (use rn_step_keeps order_trans in blast)+

lemma rn_new_ok: "rn_ok (raft_network_new node cp)"
  by (simp add: rn_ok_def raft_network_new_def)

text \<open>C35. In every network that operations can reach, each raft node has exactly one node and one channel,
  a group has no raft node twice, and no two groups share a raft node.\<close>

theorem network_groups_disjoint:
  assumes "rn_step\<^sup>*\<^sup>* (raft_network_new node cp) rn"
  shows "dom (rn_message_channels rn) = dom (rn_raft_nodes rn) \<and>
    (\<forall>g ns. rn_raft_nodes_of g rn = Ok ns \<longrightarrow> distinct ns \<and> set ns \<subseteq> dom (rn_raft_nodes rn)) \<and>
    (\<forall>g g' ns ns'. rn_raft_nodes_of g rn = Ok ns \<longrightarrow> rn_raft_nodes_of g' rn = Ok ns' \<longrightarrow> g \<noteq> g' \<longrightarrow> set ns \<inter> set ns' = {})"
proof -
  have ok: "rn_ok rn" by (rule rn_steps_keep(2)[OF assms rn_new_ok])
  have lookup: "rn_raft_nodes_of g rn = Ok ns \<longleftrightarrow> rn_groups rn g = Some ns" for g ns
    by (cases "rn_groups rn g") (simp_all add: rn_raft_nodes_of_def)
  show ?thesis using ok unfolding rn_ok_def lookup .
qed

lemma rn_register_known:
  assumes "distinct (map fst ns)" "n \<in> fst ` set ns" "n \<in> dom (rn_raft_nodes rn)"
  shows "fst (rn_register gid ns rn) \<noteq> Ok ()"
  using assms(1)
proof (cases rule: rn_register_cases[where rn = rn and gid = gid])
  case (registered rn')
  then show ?thesis using assms(2,3) by (auto simp: fresh_nodes_def list_all_iff)
qed simp_all

text \<open>A registration that meets a raft node which is already registered fails and withdraws the group,
  but the nodes before it stay: whatever happens later, no group with one of them can be registered,
  the same registration included.\<close>

theorem failed_register_is_final:
  assumes "distinct (map fst (xs @ y # ys))" "rn_groups rn gid = None" "fresh_nodes xs rn" "rn_raft_nodes rn (fst y) \<noteq> None"
    and "rn_step\<^sup>*\<^sup>* (snd (rn_register gid (xs @ y # ys) rn)) later" "n \<in> fst ` set xs"
  shows "fst (rn_register gid (xs @ y # ys) rn) = Err (RaftNodeAlreadyExists gid (fst y) (snd y)) \<and>
    rn_groups (snd (rn_register gid (xs @ y # ys) rn)) gid = None \<and>
    (\<forall>gid' ns. distinct (map fst ns) \<longrightarrow> n \<in> fst ` set ns \<longrightarrow> fst (rn_register gid' ns later) \<noteq> Ok ())"
proof -
  from register_nodes_conflict[OF assms(1), of "rn\<lparr>rn_groups := (rn_groups rn)(gid \<mapsto> map fst (xs @ y # ys))\<rparr>" gid] assms(2-4)
  obtain rn' where r: "rn_register gid (xs @ y # ys) rn = (Err (RaftNodeAlreadyExists gid (fst y) (snd y)), rn')"
    "rn_groups rn' gid = None" "rn_raft_nodes rn' = rn_raft_nodes rn ++ map_of xs"
    by (auto simp: rn_register_def fresh_nodes_def)
  have "n \<in> dom (rn_raft_nodes rn')" using assms(6) r(3) by (simp add: dom_map_of_conv_image_fst)
  then have "n \<in> dom (rn_raft_nodes later)" using rn_steps_keep(1)[OF assms(5)] r(1) by auto
  then show ?thesis using r rn_register_known[of _ n later] by auto
qed

section \<open>Examples\<close>

definition example_network :: "(unit, nat, nat) raft_network" where
  "example_network = snd (rn_register 1 [(1, 10), (2, 20)] (raft_network_new 10 \<lparr>cp_endpoints = Map.empty, cp_channels = Map.empty\<rparr>))"

lemma example_network_step: "rn_step\<^sup>*\<^sup>* (raft_network_new 10 \<lparr>cp_endpoints = Map.empty, cp_channels = Map.empty\<rparr>) example_network"
  unfolding example_network_def by (intro r_into_rtranclp step_register) simp

lemmas example_network_simps = example_network_def rn_register_def raft_network_new_def rn_register_node_def cbind_def

theorem network_groups_disjoint_witness:
  "\<exists>rn :: (unit, nat, nat) raft_network. rn_raft_nodes_of 1 rn = Ok [1, 2] \<and> rn_raft_nodes_of 2 rn = Ok [3] \<and> {1, 2 :: nat} \<inter> {3} = {}"
proof -
  let ?rn = "snd (rn_register 2 [(3, 10)] example_network)"
  have s: "rn_step\<^sup>*\<^sup>* (raft_network_new 10 \<lparr>cp_endpoints = Map.empty, cp_channels = Map.empty\<rparr>) ?rn"
    by (rule rtranclp.rtrancl_into_rtrancl[OF example_network_step step_register]) simp
  have g: "rn_raft_nodes_of 1 ?rn = Ok [1, 2]" "rn_raft_nodes_of 2 ?rn = Ok [3]"
    by (simp_all add: example_network_simps rn_raft_nodes_of_def)
  have "set [1, 2] \<inter> set [3 :: nat] = {}" by (rule network_groups_disjoint[OF s, THEN conjunct2, THEN conjunct2, rule_format, of 1 _ 2]) (use g in simp_all)
  then show ?thesis using g by (intro exI[of _ ?rn]) simp
qed

theorem failed_register_is_final_witness:
  "fst (rn_register 2 [(3, 10), (2, 20)] example_network) = Err (RaftNodeAlreadyExists 2 2 20) \<and>
   fst (rn_register 2 [(3, 10)] (snd (rn_register 2 [(3, 10), (2, 20)] example_network))) \<noteq> Ok ()"
  using failed_register_is_final[of "[(3, 10)]" "(2, 20)" "[]" example_network 2 "snd (rn_register 2 [(3, 10), (2, 20)] example_network)" 3]
  by (simp add: fresh_nodes_def) (simp add: example_network_simps)

end
