(* ===== verification/RaftWorker.thy ===== *)
theory RaftWorker
  imports RaftNetwork Fsm
begin

text \<open>
  \<open>wheel/src/worker/raft.rs\<close>: the worker of a raft node. It takes messages and proposals from its channels,
  gives them to the node of the raft library, and does what the library asks for when it is ready: send
  messages, apply committed entries, persist new entries and the hard state.

  The library's node is a parameter: a record of the calls the worker makes, each of which may read the
  log store it was built on. Remote calls go to a world of their own. The requests to different nodes
  run concurrently in the code; here one after the other, in an order that is a parameter, up to the
  first that fails. Times are in milliseconds; how long a turn took is an argument of it. The \<open>tracing\<close>
  feature is off, and metrics are left out.
\<close>

section \<open>The raft library\<close>

datatype state_role = Follower | Candidate | Leader | PreCandidate

record soft_state =
  so_leader_id :: nat
  so_raft_state :: state_role

record ('b, 'hs, 'sn) raft_ready =
  ry_ss :: "soft_state option"
  ry_messages :: "'b raft_message list"
  ry_snapshot :: "'sn option"
  ry_committed_entries :: "raft_entry list"
  ry_entries :: "raft_entry list"
  ry_hs :: "'hs option"
  ry_persisted_messages :: "'b raft_message list"

record 'b light_ready =
  lr_messages :: "'b raft_message list"
  lr_committed_entries :: "raft_entry list"

record raft_config =
  rc_id :: nat
  rc_applied :: nat
  rc_max_size_per_msg :: nat
  rc_max_inflight_msgs :: nat
  rc_check_quorum :: bool
  rc_pre_vote :: bool
  rc_batch_append :: bool

text \<open>An empty snapshot is \<open>None\<close>.\<close>

record ('r, 'b, 'hs, 'sn) raft_lib =
  rl_validate :: "raft_config \<Rightarrow> unit res"
  rl_new :: "raft_config \<Rightarrow> (raft_log_store, 'r) call"
  rl_propose :: "bytes \<Rightarrow> bytes \<Rightarrow> ('r \<times> raft_log_store, unit) call"
  rl_step :: "'b raft_message \<Rightarrow> ('r \<times> raft_log_store, unit) call"
  rl_tick :: "('r \<times> raft_log_store, unit) call"
  rl_has_ready :: "('r \<times> raft_log_store, bool) call"
  rl_ready :: "('r \<times> raft_log_store, ('b, 'hs, 'sn) raft_ready) call"
  rl_advance :: "('b, 'hs, 'sn) raft_ready \<Rightarrow> ('r \<times> raft_log_store, 'b light_ready) call"

section \<open>State\<close>

record ('r, 'b, 'hs, 'sn, 'os, 'ep, 'ch, 'w) worker_env =
  we_fsm :: "'os fsm_env"
  we_compress :: "bytes \<Rightarrow> bytes"
  we_lib :: "('r, 'b, 'hs, 'sn) raft_lib"
  we_encode_hs :: "'hs \<Rightarrow> bytes option"
  we_encode_voters :: "nat list \<Rightarrow> bytes option"
  we_serialize :: "'b raft_message list \<Rightarrow> bytes option"
  we_rpc :: "'ch \<Rightarrow> bytes \<Rightarrow> ('w, unit) call"
  we_connect :: "'ep \<Rightarrow> 'ch option"
  we_order :: "nat list \<Rightarrow> nat list"

text \<open>The receiver of messages reads the channel of the network; \<open>rw_proposal_tx\<close> says whether a sender of
  proposals is alive.\<close>

record ('r, 'b, 'os, 'ep, 'ch, 'w) raft_worker =
  rw_group :: nat
  rw_node :: nat
  rw_raft_node :: nat
  rw_raft :: 'r
  rw_network :: "('b, 'ep, 'ch) raft_network"
  rw_soft_state :: "soft_state option"
  rw_clients :: "nat \<rightharpoonup> 'ch"
  rw_proposals :: "proposal list"
  rw_proposal_tx :: bool
  rw_fsm :: "'os fsm"
  rw_world :: 'w

definition on_raft :: "('r \<times> raft_log_store, 'a) call \<Rightarrow> (('r, 'b, 'os, 'ep, 'ch, 'w) raft_worker, 'a) call" where
  "on_raft c rw =
     (let (r, (raft, lg)) = c (rw_raft rw, fs_log (rw_fsm rw))
      in (r, rw\<lparr>rw_raft := raft, rw_fsm := (rw_fsm rw)\<lparr>fs_log := lg\<rparr>\<rparr>))"

definition on_fsm :: "('os fsm, 'a) call \<Rightarrow> (('r, 'b, 'os, 'ep, 'ch, 'w) raft_worker, 'a) call" where
  "on_fsm c rw = (let (r, fs) = c (rw_fsm rw) in (r, rw\<lparr>rw_fsm := fs\<rparr>))"

definition on_world :: "('w, 'a) call \<Rightarrow> (('r, 'b, 'os, 'ep, 'ch, 'w) raft_worker, 'a) call" where
  "on_world c rw = (let (r, w) = c (rw_world rw) in (r, rw\<lparr>rw_world := w\<rparr>))"

section \<open>Handling what the library has ready\<close>

text \<open>Messages are grouped by their receiver. A receiver without a client panics before anything is sent.\<close>

definition send_messages ::
  "('r, 'b, 'hs, 'sn, 'os, 'ep, 'ch, 'w) worker_env \<Rightarrow> 'b raft_message list \<Rightarrow> (('r, 'b, 'os, 'ep, 'ch, 'w) raft_worker, unit) call" where
  "send_messages env messages rw =
     (if messages = [] then (Ok (), rw)
      else
        case rmap_list (\<lambda>n. rmap (\<lambda>client. (client, for_node n messages)) (unwrap (rw_clients rw n)))
               (we_order env (remdups (map rm_to messages))) of
          Ok sends \<Rightarrow> cfold (\<lambda>(client, msgs). on_world (grpc_send (we_serialize env) (we_rpc env) client msgs)) sends rw
        | Err e \<Rightarrow> (Err e, rw)
        | Panic \<Rightarrow> (Panic, rw)
        | OutOfFuel \<Rightarrow> (OutOfFuel, rw))"

definition apply_snapshot :: "'sn \<Rightarrow> (('r, 'b, 'os, 'ep, 'ch, 'w) raft_worker, unit) call" where
  "apply_snapshot snapshot = cres Panic"

definition rw_is_leader :: "('r, 'b, 'os, 'ep, 'ch, 'w) raft_worker \<Rightarrow> bool" where
  "rw_is_leader rw = (case rw_soft_state rw of None \<Rightarrow> False | Some ss \<Rightarrow> so_raft_state ss = Leader)"

definition apply_log_entries ::
  "('r, 'b, 'hs, 'sn, 'os, 'ep, 'ch, 'w) worker_env \<Rightarrow> raft_entry list \<Rightarrow> (('r, 'b, 'os, 'ep, 'ch, 'w) raft_worker, unit) call" where
  "apply_log_entries env entries rw = on_fsm (fsm_apply (we_fsm env) (rw_is_leader rw) entries) rw"

definition log_batches :: "(bytes \<Rightarrow> bytes) \<Rightarrow> (bytes \<Rightarrow> nat) \<Rightarrow> nat \<Rightarrow> raft_entry list \<Rightarrow> raft_log_batch list res" where
  "log_batches compress crc32 raft_node entries =
     rbind (rfold (\<lambda>e. builder_add raft_node (re_term e) (re_index e) (re_context e) (encode_entry_data e)) entries default_builder)
       (builder_build compress crc32)"

definition append_batches ::
  "(bytes \<Rightarrow> bytes) \<Rightarrow> (bytes \<Rightarrow> nat) \<Rightarrow> nat \<Rightarrow> raft_entry list \<Rightarrow> (raft_log_store, unit) call" where
  "append_batches compress crc32 raft_node entries = cbind (cres (log_batches compress crc32 raft_node entries)) rg_append"

definition append_log_entries ::
  "('r, 'b, 'hs, 'sn, 'os, 'ep, 'ch, 'w) worker_env \<Rightarrow> raft_entry list \<Rightarrow> (('r, 'b, 'os, 'ep, 'ch, 'w) raft_worker, unit) call" where
  "append_log_entries env entries rw =
     (if entries = [] then (Ok (), rw)
      else on_fsm (on_log (append_batches (we_compress env) (fe_crc32 (we_fsm env)) (rw_raft_node rw) entries)) rw)"

definition store_hard_state ::
  "('r, 'b, 'hs, 'sn, 'os, 'ep, 'ch, 'w) worker_env \<Rightarrow> 'hs \<Rightarrow> (('r, 'b, 'os, 'ep, 'ch, 'w) raft_worker, unit) call" where
  "store_hard_state env hs rw = on_fsm (on_log (put_hard_state (we_encode_hs env) (rw_raft_node rw) hs)) rw"

definition update_soft_state :: "soft_state option \<Rightarrow> (('r, 'b, 'os, 'ep, 'ch, 'w) raft_worker, unit) call" where
  "update_soft_state ss rw = (Ok (), case ss of None \<Rightarrow> rw | Some ss \<Rightarrow> rw\<lparr>rw_soft_state := Some ss\<rparr>)"

definition handle_ready ::
  "('r, 'b, 'hs, 'sn, 'os, 'ep, 'ch, 'w) worker_env \<Rightarrow> (('r, 'b, 'os, 'ep, 'ch, 'w) raft_worker, unit) call" where
  "handle_ready env =
     cbind (on_raft (rl_ready (we_lib env))) (\<lambda>ready.
     cbind (update_soft_state (ry_ss ready)) (\<lambda>_.
     cbind (send_messages env (ry_messages ready)) (\<lambda>_.
     cbind (case ry_snapshot ready of None \<Rightarrow> cok () | Some snapshot \<Rightarrow> apply_snapshot snapshot) (\<lambda>_.
     cbind (apply_log_entries env (ry_committed_entries ready)) (\<lambda>_.
     cbind (append_log_entries env (ry_entries ready)) (\<lambda>_.
     cbind (case ry_hs ready of None \<Rightarrow> cok () | Some hs \<Rightarrow> store_hard_state env hs) (\<lambda>_.
     cbind (send_messages env (ry_persisted_messages ready)) (\<lambda>_.
     cbind (on_raft (rl_advance (we_lib env)
       (ready\<lparr>ry_messages := [], ry_committed_entries := [], ry_entries := [], ry_persisted_messages := []\<rparr>))) (\<lambda>light.
     cbind (send_messages env (lr_messages light)) (\<lambda>_.
       apply_log_entries env (lr_committed_entries light)))))))))))"

section \<open>The loop\<close>

definition rw_propose ::
  "('r, 'b, 'hs, 'sn, 'os, 'ep, 'ch, 'w) worker_env \<Rightarrow> proposal \<Rightarrow> (('r, 'b, 'os, 'ep, 'ch, 'w) raft_worker, unit) call" where
  "rw_propose env p = on_raft (rl_propose (we_lib env) (pr_context p) (pr_data p))"

definition rw_step ::
  "('r, 'b, 'hs, 'sn, 'os, 'ep, 'ch, 'w) worker_env \<Rightarrow> 'b raft_message \<Rightarrow> (('r, 'b, 'os, 'ep, 'ch, 'w) raft_worker, unit) call" where
  "rw_step env msg = on_raft (rl_step (we_lib env) msg)"

definition rw_tick ::
  "('r, 'b, 'hs, 'sn, 'os, 'ep, 'ch, 'w) worker_env \<Rightarrow> (('r, 'b, 'os, 'ep, 'ch, 'w) raft_worker, unit) call" where
  "rw_tick env = on_raft (rl_tick (we_lib env))"

definition poll_message :: "'b raft_message list \<Rightarrow> (('r, 'b, 'os, 'ep, 'ch, 'w) raft_worker, 'b raft_message list) call" where
  "poll_message msgs rw =
     (case rn_try_recv (rw_raft_node rw) (rw_network rw) of
        (Received msg, rn) \<Rightarrow> (Ok (msgs @ [msg]), rw\<lparr>rw_network := rn\<rparr>)
      | (Empty, rn) \<Rightarrow> (Ok msgs, rw)
      | (Disconnected, rn) \<Rightarrow> (Err (Other ''channel closed''), rw))"

definition poll_proposal :: "proposal list \<Rightarrow> (('r, 'b, 'os, 'ep, 'ch, 'w) raft_worker, proposal list) call" where
  "poll_proposal ps rw =
     (case rw_proposals rw of
        p # rest \<Rightarrow> (Ok (ps @ [p]), rw\<lparr>rw_proposals := rest\<rparr>)
      | [] \<Rightarrow> (if rw_proposal_tx rw then Ok ps else Err (Other ''channel closed''), rw))"

fun poll_channels ::
  "nat \<Rightarrow> 'b raft_message list \<Rightarrow> proposal list \<Rightarrow> (('r, 'b, 'os, 'ep, 'ch, 'w) raft_worker, 'b raft_message list \<times> proposal list) call" where
  "poll_channels 0 msgs ps = cok (msgs, ps)"
| "poll_channels (Suc n) msgs ps = cbind (poll_message msgs) (\<lambda>msgs. cbind (poll_proposal ps) (\<lambda>ps. poll_channels n msgs ps))"

definition batch_size_of_turn :: nat where
  "batch_size_of_turn = 128"

definition min_loop_duration :: nat where
  "min_loop_duration = 10"

definition raft_heartbeat_tick_duration :: nat where
  "raft_heartbeat_tick_duration = 100"

text \<open>One turn: \<open>before\<close> and \<open>after\<close> are the time since its start before and after it slept, \<open>remaining\<close> what is left
  until the next tick. It returns what is left then.\<close>

definition run_turn ::
  "('r, 'b, 'hs, 'sn, 'os, 'ep, 'ch, 'w) worker_env \<Rightarrow> nat \<times> nat \<Rightarrow> nat \<Rightarrow> (('r, 'b, 'os, 'ep, 'ch, 'w) raft_worker, nat) call" where
  "run_turn env time remaining =
     cbind (poll_channels batch_size_of_turn [] []) (\<lambda>(msgs, proposals).
     cbind (cfold (rw_propose env) proposals) (\<lambda>_.
     cbind (cfold (rw_step env) msgs) (\<lambda>_.
     cbind (on_raft (rl_has_ready (we_lib env))) (\<lambda>has_ready.
     cbind (if has_ready then handle_ready env else cok ()) (\<lambda>_.
       let elapsed = (if fst time < min_loop_duration then snd time else fst time) in
       if remaining \<le> elapsed then cbind (rw_tick env) (\<lambda>_. cok raft_heartbeat_tick_duration)
       else cok (remaining - elapsed))))))"

text \<open>An error ends \<open>run_inner\<close>, which is started again; a panic ends the worker.\<close>

fun rw_run ::
  "('r, 'b, 'hs, 'sn, 'os, 'ep, 'ch, 'w) worker_env \<Rightarrow> (nat \<times> nat) list \<Rightarrow> nat \<Rightarrow> (('r, 'b, 'os, 'ep, 'ch, 'w) raft_worker, nat) call" where
  "rw_run env [] remaining rw = (Ok remaining, rw)"
| "rw_run env (time # clock) remaining rw =
     (case run_turn env time remaining rw of
        (Ok remaining, rw) \<Rightarrow> rw_run env clock remaining rw
      | (Err e, rw) \<Rightarrow> rw_run env clock raft_heartbeat_tick_duration rw
      | (Panic, rw) \<Rightarrow> (Panic, rw)
      | (OutOfFuel, rw) \<Rightarrow> (OutOfFuel, rw))"

section \<open>Building a worker\<close>

datatype raft_start_mode = Initialize "nat list" | Restart "nat list"

fun start_peers :: "raft_start_mode \<Rightarrow> nat list" where
  "start_peers (Initialize peers) = peers"
| "start_peers (Restart peers) = peers"

definition raft_config_of :: "nat \<Rightarrow> nat \<Rightarrow> raft_config" where
  "raft_config_of raft_node applied =
     \<lparr>rc_id = raft_node, rc_applied = applied, rc_max_size_per_msg = 2 ^ 20, rc_max_inflight_msgs = 256,
      rc_check_quorum = True, rc_pre_vote = True, rc_batch_append = True\<rparr>"

text \<open>What building a worker changes: the network and the state machine with its log.\<close>

type_synonym ('b, 'os, 'ep, 'ch) build_state = "('b, 'ep, 'ch) raft_network \<times> 'os fsm"

definition build_log :: "(raft_log_store, 'a) call \<Rightarrow> (('b, 'os, 'ep, 'ch) build_state, 'a) call" where
  "build_log c s = (let (r, fs) = on_log c (snd s) in (r, (fst s, fs)))"

definition build_net :: "(('b, 'ep, 'ch) raft_network, 'a) call \<Rightarrow> (('b, 'os, 'ep, 'ch) build_state, 'a) call" where
  "build_net c s = (let (r, rn) = c (fst s) in (r, (rn, snd s)))"

text \<open>When a client cannot be had, the receiver that was taken is dropped with the error.\<close>

definition build_clients ::
  "('r, 'b, 'hs, 'sn, 'os, 'ep, 'ch, 'w) worker_env \<Rightarrow> nat \<Rightarrow> nat list \<Rightarrow> (('b, 'os, 'ep, 'ch) build_state, nat \<rightharpoonup> 'ch) call" where
  "build_clients env raft_node peers s =
     (case cmap (\<lambda>peer. build_net (rn_client (we_connect env) peer)) peers s of
        (Ok clients, s) \<Rightarrow> (Ok (fold (\<lambda>(peer, client) m. m(peer \<mapsto> client)) (zip peers clients) Map.empty), s)
      | (Err e, s) \<Rightarrow> (Err e, (rn_drop_rx raft_node (fst s), snd s))
      | (Panic, s) \<Rightarrow> (Panic, s)
      | (OutOfFuel, s) \<Rightarrow> (OutOfFuel, s))"

definition worker_build ::
  "('r, 'b, 'hs, 'sn, 'os, 'ep, 'ch, 'w) worker_env \<Rightarrow> nat \<Rightarrow> nat \<Rightarrow> nat \<Rightarrow> raft_start_mode \<Rightarrow> 'w \<Rightarrow>
     (('b, 'os, 'ep, 'ch) build_state, ('r, 'b, 'os, 'ep, 'ch, 'w) raft_worker) call" where
  "worker_build env gid node raft_node mode w =
     cbind (cget (\<lambda>s. case mode of Initialize _ \<Rightarrow> Ok 0 | Restart _ \<Rightarrow> raft_applied_index (we_fsm env) (snd s))) (\<lambda>applied.
     cbind (cres (rl_validate (we_lib env) (raft_config_of raft_node applied))) (\<lambda>_.
     cbind (case mode of
         Initialize peers \<Rightarrow> (\<lambda>s. case build_log (put_conf_state (we_encode_voters env) raft_node peers) s of
             (Err e, s) \<Rightarrow> (Panic, s) | r \<Rightarrow> r)
       | Restart _ \<Rightarrow> cok ()) (\<lambda>_.
     cbind (build_log (rl_new (we_lib env) (raft_config_of raft_node applied))) (\<lambda>raft.
     cbind (build_net (take_message_rx raft_node)) (\<lambda>_.
     cbind (build_clients env raft_node (start_peers mode)) (\<lambda>clients s.
       (Ok \<lparr>rw_group = gid, rw_node = node, rw_raft_node = raft_node, rw_raft = raft, rw_network = fst s, rw_soft_state = None,
            rw_clients = clients, rw_proposals = [], rw_proposal_tx = True, rw_fsm = snd s, rw_world = w\<rparr>, s)))))))"

section \<open>A turn takes its batches in order\<close>

definition polled :: "nat \<Rightarrow> 'b raft_message msg_channel \<Rightarrow> ('r, 'b, 'os, 'ep, 'ch, 'w) raft_worker \<Rightarrow> ('r, 'b, 'os, 'ep, 'ch, 'w) raft_worker" where
  "polled n ch rw =
     rw\<lparr>rw_network := (rw_network rw)\<lparr>rn_message_channels :=
          (rn_message_channels (rw_network rw))(rw_raft_node rw \<mapsto> ch\<lparr>mc_queue := drop n (mc_queue ch)\<rparr>)\<rparr>,
        rw_proposals := drop n (rw_proposals rw)\<rparr>"

lemma no_proposals [simp]: "rw_proposals rw = [] \<Longrightarrow> rw\<lparr>rw_proposals := []\<rparr> = rw"
  by (cases rw) simp

lemma take_one_more: "take 1 xs @ take n (drop 1 xs) = take (Suc n) xs"
  by (cases xs) simp_all

lemma poll_channels_takes:
  assumes "rn_message_channels (rw_network rw) (rw_raft_node rw) = Some ch" "rw_proposal_tx rw"
  shows "poll_channels n msgs ps rw = (Ok (msgs @ take n (mc_queue ch), ps @ take n (rw_proposals rw)), polled n ch rw)"
  using assms
proof (induction n arbitrary: msgs ps rw ch)
  case 0
  then show ?case by (simp add: polled_def fun_upd_idem)
next
  case (Suc n)
  define rw1 where "rw1 = polled 1 ch rw"
  define ch1 where "ch1 = ch\<lparr>mc_queue := drop 1 (mc_queue ch)\<rparr>"
  have one: "cbind (poll_message msgs) (\<lambda>msgs. cbind (poll_proposal ps) (\<lambda>ps. poll_channels n msgs ps)) rw =
      poll_channels n (msgs @ take 1 (mc_queue ch)) (ps @ take 1 (rw_proposals rw)) rw1"
    using Suc.prems by (cases "mc_queue ch"; cases "rw_proposals rw")
      (simp_all add: cbind_def poll_message_def poll_proposal_def rn_try_recv_def polled_def rw1_def fun_upd_idem)
  have "rn_message_channels (rw_network rw1) (rw_raft_node rw1) = Some ch1" "rw_proposal_tx rw1"
    using Suc.prems by (simp_all add: rw1_def polled_def ch1_def)
  note Suc.IH[OF this]
  moreover have "polled n ch1 rw1 = polled (Suc n) ch rw" by (simp add: polled_def rw1_def ch1_def)
  ultimately show ?case using one take_one_more[of "mc_queue ch" n] take_one_more[of "rw_proposals rw" n]
    by (simp add: ch1_def rw1_def polled_def)
qed

lemma cfold_on_raft:
  "cfold (\<lambda>x. on_raft (f x)) xs rw = on_raft (cfold f xs) rw"
proof (induction xs arbitrary: rw)
  case (Cons x xs)
  obtain r raft lg where f: "f x (rw_raft rw, fs_log (rw_fsm rw)) = (r, (raft, lg))" by (metis prod.exhaust)
  then show ?case using Cons.IH by (cases r) (simp_all add: cbind_def on_raft_def)
qed (simp add: on_raft_def)

text \<open>C34. A proposal that the raft node refuses ends the turn: the messages and the remaining proposals the
  turn has taken from the channels are gone, the node has seen none of these messages, and the time
  until the next tick starts again.\<close>

theorem refused_proposal_drops_messages:
  assumes "rn_message_channels (rw_network rw) (rw_raft_node rw) = Some ch" "rw_proposal_tx rw"
    and "take batch_size_of_turn (rw_proposals rw) = ps @ p # qs"
    and "cfold (\<lambda>p. rl_propose (we_lib env) (pr_context p) (pr_data p)) ps (rw_raft rw, fs_log (rw_fsm rw)) = (Ok (), s)"
    and "rl_propose (we_lib env) (pr_context p) (pr_data p) s = (Err e, (raft, lg))"
  shows "\<exists>rw'. run_turn env time remaining rw = (Err e, rw') \<and>
    rw_raft rw' = raft \<and> rw_fsm rw' = (rw_fsm rw)\<lparr>fs_log := lg\<rparr> \<and> rw_world rw' = rw_world rw \<and>
    inbox (rw_network rw') (rw_raft_node rw) = drop batch_size_of_turn (mc_queue ch) \<and>
    rw_proposals rw' = drop batch_size_of_turn (rw_proposals rw) \<and>
    rw_run env (time # clock) remaining rw = rw_run env clock raft_heartbeat_tick_duration rw'"
proof -
  let ?rw = "polled batch_size_of_turn ch rw"
  have poll: "poll_channels batch_size_of_turn [] [] rw = (Ok (take batch_size_of_turn (mc_queue ch), ps @ p # qs), ?rw)"
    using poll_channels_takes[OF assms(1,2), of batch_size_of_turn "[]" "[]"] assms(3) by simp
  have fold: "cfold (rw_propose env) (ps @ p # qs) ?rw = (Err e, ?rw\<lparr>rw_raft := raft, rw_fsm := (rw_fsm rw)\<lparr>fs_log := lg\<rparr>\<rparr>)"
    using assms(4,5) unfolding rw_propose_def cfold_on_raft by (simp add: on_raft_def polled_def cfold_append cbind_def)
  then have "run_turn env time remaining rw = (Err e, ?rw\<lparr>rw_raft := raft, rw_fsm := (rw_fsm rw)\<lparr>fs_log := lg\<rparr>\<rparr>)"
    using poll by (simp add: run_turn_def)
  then show ?thesis by (simp add: polled_def inbox_def)
qed

section \<open>Messages reach the other nodes in order\<close>

text \<open>A cluster: the remote call on a channel is the raft service of the node at its other end.\<close>

definition cluster_rpc :: "(bytes \<Rightarrow> 'b raft_message list option) \<Rightarrow> 'ch \<Rightarrow> bytes \<Rightarrow> ('ch \<Rightarrow> ('b, 'ep, 'ch) raft_network, unit) call" where
  "cluster_rpc deserialize client data w = (let (r, rn) = raft_service deserialize data (w client) in (r, w(client := rn)))"

definition messages_codec :: "('m list \<Rightarrow> bytes option) \<Rightarrow> (bytes \<Rightarrow> 'm list option) \<Rightarrow> bool" where
  "messages_codec serialize deserialize \<longleftrightarrow> (\<forall>msgs. \<exists>data. serialize msgs = Some data \<and> deserialize data = Some msgs)"

definition any_order :: "('a list \<Rightarrow> 'a list) \<Rightarrow> bool" where
  "any_order f \<longleftrightarrow> (\<forall>xs. distinct xs \<longrightarrow> distinct (f xs) \<and> set (f xs) = set xs)"

text \<open>Where messages may go: the receiver has a client, and the network at its other end reaches it.\<close>

definition routed :: "(nat \<rightharpoonup> 'ch) \<Rightarrow> ('ch \<Rightarrow> ('b, 'ep, 'ch) raft_network) \<Rightarrow> nat \<Rightarrow> bool" where
  "routed clients w n \<longleftrightarrow> (\<exists>client. clients n = Some client \<and> reaches (w client) n)"

lemma grpc_send_delivers:
  assumes "messages_codec serialize deserialize" "reaches (w client) n" "\<forall>m \<in> set msgs. rm_to m = n"
  shows "\<exists>rn. grpc_send serialize (cluster_rpc deserialize) client msgs w = (Ok (), w(client := rn)) \<and>
    reaches rn = reaches (w client) \<and> inbox rn = (inbox (w client))(n := inbox (w client) n @ msgs)"
proof -
  obtain data where d: "serialize msgs = Some data" "deserialize data = Some msgs"
    using assms(1) by (auto simp: messages_codec_def)
  have "list_all (\<lambda>m. reaches (w client) (rm_to m)) msgs" using assms(2,3) by (simp add: list_all_iff)
  from grpc.deliver_all[OF this] obtain rn where rn: "rn_recv msgs (w client) = (Ok (), rn)" "reaches rn = reaches (w client)"
    "\<forall>k. inbox rn k = inbox (w client) k @ for_node k msgs" by blast
  have "for_node k msgs = (if k = n then msgs else [])" for k using assms(3) by (auto simp: filter_empty_conv)
  then have "inbox rn = (inbox (w client))(n := inbox (w client) n @ msgs)" using rn(3) by (auto simp: fun_eq_iff)
  then show ?thesis using d rn by (auto simp: grpc_send_def cluster_rpc_def raft_service_def)
qed

lemma send_groups_deliver:
  assumes codec: "messages_codec serialize deserialize" and "distinct ns" "\<forall>n \<in> set ns. routed clients (rw_world rw) n"
  shows "\<exists>w. cfold (\<lambda>(client, msgs). on_world (grpc_send serialize (cluster_rpc deserialize) client msgs))
      (map (\<lambda>n. (the (clients n), for_node n messages)) ns) rw = (Ok (), rw\<lparr>rw_world := w\<rparr>) \<and>
    (\<forall>client. reaches (w client) = reaches (rw_world rw client)) \<and>
    (\<forall>client n. inbox (w client) n = inbox (rw_world rw client) n @
       (if n \<in> set ns \<and> clients n = Some client then for_node n messages else []))"
  using assms(2-)
proof (induction ns arbitrary: rw)
  case Nil
  then show ?case by (intro exI[of _ "rw_world rw"]) simp
next
  case (Cons n ns)
  obtain client where cl: "clients n = Some client" "reaches (rw_world rw client) n" using Cons.prems(2) by (auto simp: routed_def)
  from grpc_send_delivers[OF codec, of "rw_world rw" client n "for_node n messages"] cl(2) obtain rn where
    one: "grpc_send serialize (cluster_rpc deserialize) client (for_node n messages) (rw_world rw) = (Ok (), (rw_world rw)(client := rn))"
    "reaches rn = reaches (rw_world rw client)" "inbox rn = (inbox (rw_world rw client))(n := inbox (rw_world rw client) n @ for_node n messages)"
    by auto
  define rw1 where "rw1 = rw\<lparr>rw_world := (rw_world rw)(client := rn)\<rparr>"
  have same: "reaches (rw_world rw1 c) = reaches (rw_world rw c)" for c using one(2) by (simp add: rw1_def)
  have "\<forall>k \<in> set ns. routed clients (rw_world rw1) k" using Cons.prems(2) by (simp add: routed_def same)
  from Cons.IH[OF _ this] Cons.prems(1) obtain w where w: "cfold (\<lambda>(client, msgs). on_world (grpc_send serialize (cluster_rpc deserialize) client msgs))
      (map (\<lambda>n. (the (clients n), for_node n messages)) ns) rw1 = (Ok (), rw1\<lparr>rw_world := w\<rparr>)"
    "\<forall>c. reaches (w c) = reaches (rw_world rw1 c)"
    "\<forall>c k. inbox (w c) k = inbox (rw_world rw1 c) k @ (if k \<in> set ns \<and> clients k = Some c then for_node k messages else [])"
    by auto
  have "on_world (grpc_send serialize (cluster_rpc deserialize) client (for_node n messages)) rw = (Ok (), rw1)"
    using one(1) by (simp add: on_world_def rw1_def)
  moreover have "rw1\<lparr>rw_world := w\<rparr> = rw\<lparr>rw_world := w\<rparr>" by (simp add: rw1_def)
  moreover have "inbox (w c) k = inbox (rw_world rw c) k @ (if k \<in> set (n # ns) \<and> clients k = Some c then for_node k messages else [])" for c k
    using w(3) Cons.prems(1) cl(1) one(3) by (cases "k = n"; cases "c = client") (auto simp: rw1_def)
  ultimately show ?case using w(1,2) same cl(1) by (intro exI[of _ w]) simp
qed

lemma send_messages_delivers:
  assumes env: "we_rpc env = cluster_rpc deserialize" "messages_codec (we_serialize env) deserialize" "any_order (we_order env)"
    and routes: "\<forall>m \<in> set messages. routed (rw_clients rw) (rw_world rw) (rm_to m)"
  shows "\<exists>w. send_messages env messages rw = (Ok (), rw\<lparr>rw_world := w\<rparr>) \<and>
    (\<forall>client. reaches (w client) = reaches (rw_world rw client)) \<and>
    (\<forall>client n. inbox (w client) n = inbox (rw_world rw client) n @
       (if rw_clients rw n = Some client then for_node n messages else []))"
proof (cases "messages = []")
  case True
  then show ?thesis by (intro exI[of _ "rw_world rw"]) (simp add: send_messages_def)
next
  case False
  let ?ns = "we_order env (remdups (map rm_to messages))"
  have ns: "distinct ?ns" "set ?ns = rm_to ` set messages" using env(3) by (simp_all add: any_order_def)
  then have r: "\<forall>n \<in> set ?ns. routed (rw_clients rw) (rw_world rw) n" using routes by auto
  have "send_messages env messages rw = cfold (\<lambda>(client, msgs). on_world (grpc_send (we_serialize env) (we_rpc env) client msgs))
      (map (\<lambda>n. (the (rw_clients rw n), for_node n messages)) ?ns) rw"
    unfolding send_messages_def
    by (subst rmap_list_Ok[where g = "\<lambda>n. (the (rw_clients rw n), for_node n messages)"]) (use r False in \<open>auto simp: routed_def\<close>)
  moreover obtain w where w: "cfold (\<lambda>(client, msgs). on_world (grpc_send (we_serialize env) (we_rpc env) client msgs))
      (map (\<lambda>n. (the (rw_clients rw n), for_node n messages)) ?ns) rw = (Ok (), rw\<lparr>rw_world := w\<rparr>)"
    "\<forall>client. reaches (w client) = reaches (rw_world rw client)"
    "\<forall>client n. inbox (w client) n = inbox (rw_world rw client) n @
       (if n \<in> set ?ns \<and> rw_clients rw n = Some client then for_node n messages else [])"
    using send_groups_deliver[OF env(2) ns(1) r, of messages] unfolding env(1) by blast
  moreover have "for_node n messages = []" if "n \<notin> set ?ns" for n using that unfolding ns(2) by (auto simp: filter_empty_conv)
  ultimately show ?thesis by (intro exI[of _ w]) auto
qed

section \<open>What the library has ready is carried out\<close>

lemma fsm_apply_idle:
  assumes "load_index env available_index_key fs = Ok i" "load_index env done_index_key fs = Ok i" "i + 1 < 2 ^ 64"
  shows "fsm_apply env True [] fs = (Ok (), fs)"
  using assms by (simp add: fsm_apply_def add_u64_def fsm_catch_up_def sub_u64_def cbind_def)

lemma fs_log_idem [simp]: "fs\<lparr>fs_log := fs_log fs\<rparr> = fs"
  by (cases fs) simp

lemma hard_state_key_differs: "raft_hard_state_key \<noteq> available_index_key" "raft_hard_state_key \<noteq> done_index_key"
  by (simp_all add: raft_hard_state_key_def available_index_key_def done_index_key_def)

lemma load_index_gets:
  "fs_raft_node fs' = fs_raft_node fs \<Longrightarrow> store_get (fs_log fs') (fs_raft_node fs) key = store_get (fs_log fs) (fs_raft_node fs) key \<Longrightarrow>
    load_index env key fs' = load_index env key fs"
  by (simp add: load_index_def rg_get_state_def rg_get_def)

text \<open>How far the entries have been applied once \<open>es\<close> were.\<close>

definition applied_upto :: "nat \<Rightarrow> raft_entry list \<Rightarrow> nat" where
  "applied_upto last_done es = (if es = [] then last_done else re_index (last es))"

text \<open>An up to date leader applies the next entries, or none.\<close>

lemma fsm_apply_next:
  assumes fsm: "fsm_at compress env c hist last_done x fs" "raft_applied_index env fs = Ok last_done"
    and es: "es \<noteq> [] \<Longrightarrow> next_entries last_done es" "entries_fit (fe_decode_command env) es hist" "entries_take env c es x = Some y"
  shows "\<exists>fs'. fsm_apply env True es fs = (Ok (), fs') \<and>
    fsm_at compress env c (snd (spec_entries (fe_decode_command env) es hist)) (applied_upto last_done es) y fs' \<and>
    answered (fe_hash env) (fs_pool fs) (fst (spec_entries (fe_decode_command env) es hist)) (fs_pool fs') \<and>
    raft_applied_index env fs' = Ok (applied_upto last_done es) \<and> fs_raft_node fs' = fs_raft_node fs \<and>
    (\<forall>gid. log_window gid (fs_log fs') = log_window gid (fs_log fs)) \<and>
    (\<forall>b. holds_batch compress (fe_crc32 env) b (fs_log fs) \<longrightarrow> holds_batch compress (fe_crc32 env) b (fs_log fs')) \<and>
    (\<forall>key. key \<notin> {available_index_key, done_index_key} \<longrightarrow>
       store_get (fs_log fs') (fs_raft_node fs) key = store_get (fs_log fs) (fs_raft_node fs) key)"
proof (cases "es = []")
  case True
  have "fsm_apply env True [] fs = (Ok (), fs)"
    by (rule fsm_apply_idle[of _ _ last_done]) (use fsm in \<open>auto simp: fsm_at_def raft_applied_index_def\<close>)
  moreover have "y = x" "np_ok (fe_hash env) (fs_pool fs)" using True es(3) fsm(1) by (simp_all add: fsm_at_def)
  ultimately show ?thesis using True fsm by (intro exI[of _ fs]) (simp add: applied_upto_def answered_nil)
next
  case False
  then show ?thesis using fsm_apply_refinement[OF fsm(1) False es(1)[OF False] es(2,3)] by (simp add: applied_upto_def)
qed

text \<open>A batch of the log that holds the entries.\<close>

definition logged_as :: "(bytes \<Rightarrow> bytes) \<Rightarrow> (bytes \<Rightarrow> nat) \<Rightarrow> nat \<Rightarrow> raft_entry list \<Rightarrow> raft_log_batch \<Rightarrow> bool" where
  "logged_as compress crc32 gid entries b \<longleftrightarrow> rb_group b = gid \<and> rb_first_index b = re_index (hd entries) \<and>
     length (rb_offsets b) = length entries + 1 \<and> (\<forall>e \<in> set entries. \<exists>ty. entry_type_of (re_type e) = Ok ty) \<and>
     batch_items b = map (\<lambda>e. (gid, re_term e, re_index e, re_context e, encode_entry_data e)) entries"

lemma append_new_entries:
  assumes env: "\<forall>x. fe_crc32 env x < 2 ^ 32" and log: "log_ready compress env fs"
    and win: "entries \<noteq> [] \<Longrightarrow> log_window (fs_raft_node fs) (fs_log fs) = Some (first, eis) \<and> storable compress (fe_crc32 env) (first + length eis) entries"
  shows "\<exists>st. (if entries = [] then (Ok (), fs_log fs) else append_batches compress (fe_crc32 env) (fs_raft_node fs) entries (fs_log fs)) = (Ok (), st) \<and>
    log_ready compress env (fs\<lparr>fs_log := st\<rparr>) \<and> (\<forall>key. store_get st (fs_raft_node fs) key = store_get (fs_log fs) (fs_raft_node fs) key) \<and>
    (entries \<noteq> [] \<longrightarrow> (\<exists>b. logged_as compress (fe_crc32 env) (fs_raft_node fs) entries b \<and> holds_batch compress (fe_crc32 env) b st))"
proof (cases "entries = []")
  case False
  let ?gid = "fs_raft_node fs"
  obtain removed where lr: "lz4_frames compress (fe_decompress env)" "store_run compress (fe_decompress env) (fe_crc32 env) removed (fs_log fs)"
    "?gid < 2 ^ 64" "?gid \<notin> removed" using log by (auto simp: log_ready_def)
  obtain ms where ms: "rs_states (fs_log fs) ?gid = Some ms" "first_index ms = first" "indices ms = eis"
    using win[OF False] by (auto simp: log_window_def)
  have sto: "storable compress (fe_crc32 env) (first_index ms + length (indices ms)) entries" using win[OF False] ms by simp
  obtain b st where st: "append_batches compress (fe_crc32 env) ?gid entries (fs_log fs) = (Ok (), st)"
    "store_run compress (fe_decompress env) (fe_crc32 env) removed st" "rs_states st ?gid \<noteq> None" "\<forall>key. store_get st ?gid key = store_get (fs_log fs) ?gid key"
    "holds_batch compress (fe_crc32 env) b st" "rb_group b = ?gid" "rb_first_index b = re_index (hd entries)" "length (rb_offsets b) = length entries + 1"
    "batch_items b = map (\<lambda>e. (?gid, re_term e, re_index e, re_context e, encode_entry_data e)) entries"
    using append_entries_holds[OF lr(1) env lr(2) ms(1) sto lr(3,4)] by (auto simp: append_batches_def log_batches_def rg_append_def cbind_def cres_def)
  have "log_ready compress env (fs\<lparr>fs_log := st\<rparr>)" using lr st(2,3) by (auto simp: log_ready_def)
  moreover have "logged_as compress (fe_crc32 env) ?gid entries b" using st(6-9) sto by (simp add: logged_as_def storable_def)
  ultimately show ?thesis using False st(1,4,5) by auto
qed (use log in simp)

text \<open>The hard state is stored when the ready has one.\<close>

lemma store_new_hard_state:
  assumes env: "\<forall>x. fe_crc32 env x < 2 ^ 32" and log: "log_ready compress env fs"
    and hs: "\<And>hs. ready_hs = Some hs \<Longrightarrow> \<exists>buf. encode_hs hs = Some buf \<and> length buf < 2 ^ 32 \<and> decode_hs buf = Some hs"
  shows "\<exists>st. (case ready_hs of None \<Rightarrow> (Ok (), fs_log fs) | Some hs \<Rightarrow> put_hard_state encode_hs (fs_raft_node fs) hs (fs_log fs)) = (Ok (), st) \<and>
    log_ready compress env (fs\<lparr>fs_log := st\<rparr>) \<and>
    (\<forall>key. key \<noteq> raft_hard_state_key \<longrightarrow> store_get st (fs_raft_node fs) key = store_get (fs_log fs) (fs_raft_node fs) key) \<and>
    (\<forall>b. holds_batch compress (fe_crc32 env) b (fs_log fs) \<longrightarrow> holds_batch compress (fe_crc32 env) b st) \<and>
    get_hard_state decode_hs (fs_raft_node fs) st =
      (case ready_hs of None \<Rightarrow> get_hard_state decode_hs (fs_raft_node fs) (fs_log fs) | Some hs \<Rightarrow> Ok (Some hs))"
proof (cases ready_hs)
  case (Some hs)
  let ?gid = "fs_raft_node fs"
  obtain buf where buf: "encode_hs hs = Some buf" "length buf < 2 ^ 32" "decode_hs buf = Some hs" using assms(3)[OF Some] by blast
  obtain removed where lr: "lz4_frames compress (fe_decompress env)" "store_run compress (fe_decompress env) (fe_crc32 env) removed (fs_log fs)"
    "rs_states (fs_log fs) ?gid \<noteq> None" "?gid < 2 ^ 64" "?gid \<notin> removed" using log by (auto simp: log_ready_def)
  have key: "length raft_hard_state_key < 2 ^ 32" by (simp add: raft_hard_state_key_def)
  obtain st where st: "store_put ?gid raft_hard_state_key buf (fs_log fs) = (Ok (), st)" "store_run compress (fe_decompress env) (fe_crc32 env) removed st"
    "rs_states st ?gid \<noteq> None" using store_put_total[OF lr(1) env lr(2-5) key buf(2)] by blast
  note get = store_put_get[OF st(1), of ?gid]
  have "put_hard_state encode_hs ?gid hs (fs_log fs) = (Ok (), st)" using st(1) buf(1) by (simp add: put_hard_state_def rg_put_state_def rg_put_def)
  moreover have "get_hard_state decode_hs ?gid st = Ok (Some hs)"
    using get[of raft_hard_state_key] buf(3) by (simp add: get_hard_state_def rg_get_state_def rg_get_def)
  moreover have "log_ready compress env (fs\<lparr>fs_log := st\<rparr>)" using lr st(2,3) by (auto simp: log_ready_def)
  moreover have "holds_batch compress (fe_crc32 env) b (fs_log fs) \<longrightarrow> holds_batch compress (fe_crc32 env) b st" for b
    using holds_batch_put[OF _ st(1) lr(4) key buf(2)] by blast
  ultimately show ?thesis using Some get by simp
qed (use log in simp)

text \<open>Where a leader stands before it handles a ready: its state machine is up to date, the committed
  entries of the ready, and then those of the light ready, are the next ones and can be applied, and new
  entries continue its log.\<close>

definition leader_ready ::
  "mem_object_store fsm_env \<Rightarrow> (bytes \<Rightarrow> bytes) \<Rightarrow> ('b, 'hs, 'sn) raft_ready \<Rightarrow> 'b light_ready \<Rightarrow> mem_object_store fsm \<Rightarrow>
     version_entry list \<Rightarrow> nat \<Rightarrow> bool" where
  "leader_ready env compress ready light fs hist last_done \<longleftrightarrow>
     (\<exists>c x y. fsm_at compress env c hist last_done x fs \<and>
        entries_take env c (ry_committed_entries ready @ lr_committed_entries light) x = Some y) \<and>
     raft_applied_index env fs = Ok last_done \<and> ry_snapshot ready = None \<and>
     (ry_committed_entries ready \<noteq> [] \<longrightarrow> next_entries last_done (ry_committed_entries ready)) \<and>
     (lr_committed_entries light \<noteq> [] \<longrightarrow>
        next_entries (applied_upto last_done (ry_committed_entries ready)) (lr_committed_entries light)) \<and>
     entries_fit (fe_decode_command env) (ry_committed_entries ready @ lr_committed_entries light) hist \<and>
     (ry_entries ready \<noteq> [] \<longrightarrow>
        (\<exists>first eis. log_window (fs_raft_node fs) (fs_log fs) = Some (first, eis) \<and>
           storable compress (fe_crc32 env) (first + length eis) (ry_entries ready)))"

text \<open>Afterwards the new entries can be read from the log, whatever its cache drops, and its hard state
  is the one of the ready, or the old one when the ready has none.\<close>

definition persisted :: "'os fsm_env \<Rightarrow> (bytes \<Rightarrow> 'hs option) \<Rightarrow> raft_entry list \<Rightarrow> 'hs option \<Rightarrow> 'os fsm \<Rightarrow> 'os fsm \<Rightarrow> bool" where
  "persisted env decode_hs entries ready_hs fs fs' \<longleftrightarrow>
     get_hard_state decode_hs (fs_raft_node fs) (fs_log fs') =
       (case ready_hs of None \<Rightarrow> get_hard_state decode_hs (fs_raft_node fs) (fs_log fs) | Some hs \<Rightarrow> Ok (Some hs)) \<and>
     (entries \<noteq> [] \<longrightarrow> (\<forall>dropped. \<exists>st. rg_entries (fe_decompress env) (fe_crc32 env) (fs_raft_node fs) (re_index (hd entries)) (length entries)
        (cache_evict dropped (fs_log fs')) = Ok (entries, st)))"

lemma applied_upto_append: "applied_upto (applied_upto last_done es) es' = applied_upto last_done (es @ es')"
  by (simp add: applied_upto_def)

lemma fsm_at_log:
  assumes "fsm_at compress env c hist last_done x fs" "log_ready compress env (fs\<lparr>fs_log := st\<rparr>)"
    and "store_get st (fs_raft_node fs) done_index_key = store_get (fs_log fs) (fs_raft_node fs) done_index_key"
  shows "fsm_at compress env c hist last_done x (fs\<lparr>fs_log := st\<rparr>)"
  using assms load_index_gets[of "fs\<lparr>fs_log := st\<rparr>" fs done_index_key env] by (simp add: fsm_at_def)

lemma logged_read:
  assumes "lz4_frames compress (fe_decompress env)" "\<forall>x. fe_crc32 env x < 2 ^ 32"
    and "logged_as compress (fe_crc32 env) gid entries b" "holds_batch compress (fe_crc32 env) b st"
  shows "\<exists>st'. rg_entries (fe_decompress env) (fe_crc32 env) gid (re_index (hd entries)) (length entries) (cache_evict dropped st) = Ok (entries, st')"
proof -
  have b: "batch_items b = map (\<lambda>e. (gid, re_term e, re_index e, re_context e, encode_entry_data e)) entries"
    "rb_group b = gid" "rb_first_index b = re_index (hd entries)" "length (rb_offsets b) = length entries + 1"
    "\<forall>e \<in> set entries. \<exists>ty. entry_type_of (re_type e) = Ok ty" using assms(3) by (simp_all add: logged_as_def)
  show ?thesis by (rule holds_entries_read[OF assms(1,2) holds_batch_evict[OF assms(4)] b])
qed

text \<open>The steps of a ready on the state machine and its log.\<close>

lemma get_hard_state_same:
  "store_get lg gid raft_hard_state_key = store_get lg' gid raft_hard_state_key \<Longrightarrow>
    get_hard_state decode_hs gid lg = get_hard_state decode_hs gid lg'"
  by (simp add: get_hard_state_def rg_get_state_def rg_get_def)

text \<open>The two writes to the log between applying the entries of the ready and of the light ready.\<close>

lemma log_writes:
  assumes env: "\<forall>x. fe_crc32 env x < 2 ^ 32" and log: "log_ready compress env fs"
    and win: "entries \<noteq> [] \<Longrightarrow> log_window (fs_raft_node fs) (fs_log fs) = Some (first, eis) \<and> storable compress (fe_crc32 env) (first + length eis) entries"
    and hs: "\<And>hs. ready_hs = Some hs \<Longrightarrow> \<exists>buf. encode_hs hs = Some buf \<and> length buf < 2 ^ 32 \<and> decode_hs buf = Some hs"
  defines "gid \<equiv> fs_raft_node fs"
  shows "\<exists>st1 st2. (if entries = [] then (Ok (), fs_log fs) else append_batches compress (fe_crc32 env) gid entries (fs_log fs)) = (Ok (), st1) \<and>
    (case ready_hs of None \<Rightarrow> (Ok (), st1) | Some hs \<Rightarrow> put_hard_state encode_hs gid hs st1) = (Ok (), st2) \<and>
    log_ready compress env (fs\<lparr>fs_log := st2\<rparr>) \<and> (\<forall>key. key \<noteq> raft_hard_state_key \<longrightarrow> store_get st2 gid key = store_get (fs_log fs) gid key) \<and>
    get_hard_state decode_hs gid st2 = (case ready_hs of None \<Rightarrow> get_hard_state decode_hs gid (fs_log fs) | Some hs \<Rightarrow> Ok (Some hs)) \<and>
    (entries \<noteq> [] \<longrightarrow> (\<exists>b. logged_as compress (fe_crc32 env) gid entries b \<and> holds_batch compress (fe_crc32 env) b st2))"
proof -
  obtain st1 where s1: "(if entries = [] then (Ok (), fs_log fs) else append_batches compress (fe_crc32 env) gid entries (fs_log fs)) = (Ok (), st1)"
    "log_ready compress env (fs\<lparr>fs_log := st1\<rparr>)" "\<forall>key. store_get st1 gid key = store_get (fs_log fs) gid key"
    "entries \<noteq> [] \<longrightarrow> (\<exists>b. logged_as compress (fe_crc32 env) gid entries b \<and> holds_batch compress (fe_crc32 env) b st1)"
    using append_new_entries[OF env log win] unfolding gid_def by blast
  have "\<exists>st. (case ready_hs of None \<Rightarrow> (Ok (), st1) | Some hs \<Rightarrow> put_hard_state encode_hs gid hs st1) = (Ok (), st) \<and>
    log_ready compress env (fs\<lparr>fs_log := st\<rparr>) \<and> (\<forall>key. key \<noteq> raft_hard_state_key \<longrightarrow> store_get st gid key = store_get st1 gid key) \<and>
    (\<forall>b. holds_batch compress (fe_crc32 env) b st1 \<longrightarrow> holds_batch compress (fe_crc32 env) b st) \<and>
    get_hard_state decode_hs gid st = (case ready_hs of None \<Rightarrow> get_hard_state decode_hs gid st1 | Some hs \<Rightarrow> Ok (Some hs))"
    using store_new_hard_state[OF env s1(2), where encode_hs = encode_hs and decode_hs = decode_hs and ready_hs = ready_hs] hs
    by (simp add: gid_def cong: option.case_cong)
  then obtain st2 where s2: "(case ready_hs of None \<Rightarrow> (Ok (), st1) | Some hs \<Rightarrow> put_hard_state encode_hs gid hs st1) = (Ok (), st2)"
    "log_ready compress env (fs\<lparr>fs_log := st2\<rparr>)" "\<forall>key. key \<noteq> raft_hard_state_key \<longrightarrow> store_get st2 gid key = store_get st1 gid key"
    "\<forall>b. holds_batch compress (fe_crc32 env) b st1 \<longrightarrow> holds_batch compress (fe_crc32 env) b st2"
    "get_hard_state decode_hs gid st2 = (case ready_hs of None \<Rightarrow> get_hard_state decode_hs gid st1 | Some hs \<Rightarrow> Ok (Some hs))" by blast
  have "get_hard_state decode_hs gid st1 = get_hard_state decode_hs gid (fs_log fs)" by (rule get_hard_state_same) (use s1(3) in simp)
  then have "get_hard_state decode_hs gid st2 = (case ready_hs of None \<Rightarrow> get_hard_state decode_hs gid (fs_log fs) | Some hs \<Rightarrow> Ok (Some hs))"
    using s2(5) by (simp cong: option.case_cong)
  moreover have "\<forall>key. key \<noteq> raft_hard_state_key \<longrightarrow> store_get st2 gid key = store_get (fs_log fs) gid key" using s1(3) s2(3) by simp
  moreover have "entries \<noteq> [] \<longrightarrow> (\<exists>b. logged_as compress (fe_crc32 env) gid entries b \<and> holds_batch compress (fe_crc32 env) b st2)" using s1(4) s2(4) by blast
  ultimately show ?thesis using s1(1) s2(1,2) by blast
qed

lemma ready_steps:
  assumes ready: "leader_ready env compress ready light fs hist last_done"
    and hs: "\<And>hs. ry_hs ready = Some hs \<Longrightarrow> \<exists>buf. encode_hs hs = Some buf \<and> length buf < 2 ^ 32 \<and> decode_hs buf = Some hs"
  defines "es \<equiv> ry_committed_entries ready" and "es' \<equiv> lr_committed_entries light" and "gid \<equiv> fs_raft_node fs"
  shows "\<exists>fs1 st1 st2 fs'. fsm_apply env True es fs = (Ok (), fs1) \<and>
    (if ry_entries ready = [] then (Ok (), fs_log fs1)
     else append_batches compress (fe_crc32 env) gid (ry_entries ready) (fs_log fs1)) = (Ok (), st1) \<and>
    (case ry_hs ready of None \<Rightarrow> (Ok (), st1) | Some hs \<Rightarrow> put_hard_state encode_hs gid hs st1) = (Ok (), st2) \<and>
    fsm_apply env True es' (fs1\<lparr>fs_log := st2\<rparr>) = (Ok (), fs') \<and>
    fsm_history env fs' (snd (spec_entries (fe_decode_command env) (es @ es') hist)) \<and>
    answered (fe_hash env) (fs_pool fs) (fst (spec_entries (fe_decode_command env) (es @ es') hist)) (fs_pool fs') \<and>
    raft_applied_index env fs' = Ok (applied_upto last_done (es @ es')) \<and> persisted env decode_hs (ry_entries ready) (ry_hs ready) fs fs'"
proof -
  obtain c x y where at: "fsm_at compress env c hist last_done x fs" "entries_take env c (es @ es') x = Some y"
    "raft_applied_index env fs = Ok last_done" "es \<noteq> [] \<Longrightarrow> next_entries last_done es"
    "es' \<noteq> [] \<Longrightarrow> next_entries (applied_upto last_done es) es'" "entries_fit (fe_decode_command env) (es @ es') hist"
    using ready unfolding leader_ready_def es_def es'_def by blast
  obtain first eis where win: "ry_entries ready \<noteq> [] \<Longrightarrow> log_window gid (fs_log fs) = Some (first, eis) \<and>
      storable compress (fe_crc32 env) (first + length eis) (ry_entries ready)"
    using ready unfolding leader_ready_def gid_def by blast
  obtain z where z: "entries_take env c es x = Some z" "entries_take env c es' z = Some y"
    using at(2) by (auto simp: entries_take_append split: option.splits)
  let ?spec = "spec_entries (fe_decode_command env)"
  have fit: "entries_fit (fe_decode_command env) es hist" "entries_fit (fe_decode_command env) es' (snd (?spec es hist))"
    using at(6) by (simp_all add: entries_fit_append)
  have crc: "\<forall>x. fe_crc32 env x < 2 ^ 32" and lz4: "lz4_frames compress (fe_decompress env)"
    using at(1) by (simp_all add: fsm_at_def env_ok_def log_ready_def)
  obtain fs1 where f1: "fsm_apply env True es fs = (Ok (), fs1)" "fsm_at compress env c (snd (?spec es hist)) (applied_upto last_done es) z fs1"
    "answered (fe_hash env) (fs_pool fs) (fst (?spec es hist)) (fs_pool fs1)" "raft_applied_index env fs1 = Ok (applied_upto last_done es)"
    "fs_raft_node fs1 = gid" "\<forall>g. log_window g (fs_log fs1) = log_window g (fs_log fs)"
    "\<forall>key. key \<notin> {available_index_key, done_index_key} \<longrightarrow> store_get (fs_log fs1) gid key = store_get (fs_log fs) gid key"
    using fsm_apply_next[OF at(1,3,4) fit(1) z(1)] unfolding gid_def by blast
  have log1: "log_ready compress env fs1" using f1(2) by (simp add: fsm_at_def)
  have win1: "log_window (fs_raft_node fs1) (fs_log fs1) = Some (first, eis) \<and> storable compress (fe_crc32 env) (first + length eis) (ry_entries ready)"
    if "ry_entries ready \<noteq> []" using win[OF that] f1(5,6) by simp
  note writes = log_writes[OF crc log1 win1, where ready_hs = "ry_hs ready" and encode_hs = encode_hs and decode_hs = decode_hs, OF _ hs, unfolded f1(5)]
  obtain st1 st2 where s: "(if ry_entries ready = [] then (Ok (), fs_log fs1)
       else append_batches compress (fe_crc32 env) gid (ry_entries ready) (fs_log fs1)) = (Ok (), st1)"
    "(case ry_hs ready of None \<Rightarrow> (Ok (), st1) | Some hs \<Rightarrow> put_hard_state encode_hs gid hs st1) = (Ok (), st2)"
    "log_ready compress env (fs1\<lparr>fs_log := st2\<rparr>)" "\<forall>key. key \<noteq> raft_hard_state_key \<longrightarrow> store_get st2 gid key = store_get (fs_log fs1) gid key"
    "get_hard_state decode_hs gid st2 = (case ry_hs ready of None \<Rightarrow> get_hard_state decode_hs gid (fs_log fs1) | Some hs \<Rightarrow> Ok (Some hs))"
    "ry_entries ready \<noteq> [] \<longrightarrow> (\<exists>b. logged_as compress (fe_crc32 env) gid (ry_entries ready) b \<and> holds_batch compress (fe_crc32 env) b st2)"
    using writes by blast
  define fs2 where "fs2 = fs1\<lparr>fs_log := st2\<rparr>"
  have get2: "store_get st2 gid key = store_get (fs_log fs1) gid key" if "key \<in> {available_index_key, done_index_key}" for key
    using s(4) that hard_state_key_differs by auto
  have at2: "fsm_at compress env c (snd (?spec es hist)) (applied_upto last_done es) z fs2"
    unfolding fs2_def by (rule fsm_at_log[OF f1(2) s(3)]) (use get2 f1(5) in simp)
  have "load_index env available_index_key fs2 = load_index env available_index_key fs1"
    by (rule load_index_gets) (use get2 f1(5) in \<open>simp_all add: fs2_def\<close>)
  then have av2: "raft_applied_index env fs2 = Ok (applied_upto last_done es)" using f1(4) by (simp add: raft_applied_index_def)
  obtain fs' where f2: "fsm_apply env True es' fs2 = (Ok (), fs')"
    "fsm_at compress env c (snd (?spec es' (snd (?spec es hist)))) (applied_upto (applied_upto last_done es) es') y fs'"
    "answered (fe_hash env) (fs_pool fs2) (fst (?spec es' (snd (?spec es hist)))) (fs_pool fs')"
    "raft_applied_index env fs' = Ok (applied_upto (applied_upto last_done es) es')"
    "\<forall>b. holds_batch compress (fe_crc32 env) b (fs_log fs2) \<longrightarrow> holds_batch compress (fe_crc32 env) b (fs_log fs')"
    "\<forall>key. key \<notin> {available_index_key, done_index_key} \<longrightarrow> store_get (fs_log fs') (fs_raft_node fs2) key = store_get (fs_log fs2) (fs_raft_node fs2) key"
    using fsm_apply_next[OF at2 av2 at(5) fit(2) z(2)] by blast
  have spec: "?spec (es @ es') hist = (fst (?spec es hist) @ fst (?spec es' (snd (?spec es hist))), snd (?spec es' (snd (?spec es hist))))"
    by (simp add: spec_entries_append Let_def split: prod.splits)
  have "fs_pool fs2 = fs_pool fs1" "np_ok (fe_hash env) (fs_pool fs)" using at(1) by (simp_all add: fs2_def fsm_at_def)
  then have "answered (fe_hash env) (fs_pool fs) (fst (?spec (es @ es') hist)) (fs_pool fs')"
    using answered_append[OF f1(3), of "fst (?spec es' (snd (?spec es hist)))" "fs_pool fs'"] f2(3) spec by simp
  moreover have "fsm_history env fs' (snd (?spec (es @ es') hist))" using f2(2) spec by (simp add: fsm_at_def)
  moreover have "get_hard_state decode_hs gid (fs_log fs') =
      (case ry_hs ready of None \<Rightarrow> get_hard_state decode_hs gid (fs_log fs) | Some hs \<Rightarrow> Ok (Some hs))"
  proof -
    have "get_hard_state decode_hs gid (fs_log fs') = get_hard_state decode_hs gid st2"
      by (rule get_hard_state_same) (use f2(6) f1(5) hard_state_key_differs in \<open>simp add: fs2_def\<close>)
    moreover have "get_hard_state decode_hs gid (fs_log fs1) = get_hard_state decode_hs gid (fs_log fs)"
      by (rule get_hard_state_same) (use f1(7) hard_state_key_differs in simp)
    ultimately show ?thesis using s(5) by (simp cong: option.case_cong)
  qed
  moreover have "\<exists>st. rg_entries (fe_decompress env) (fe_crc32 env) gid (re_index (hd (ry_entries ready))) (length (ry_entries ready))
      (cache_evict dropped (fs_log fs')) = Ok (ry_entries ready, st)" if ne: "ry_entries ready \<noteq> []" for dropped
  proof -
    obtain b where b: "logged_as compress (fe_crc32 env) gid (ry_entries ready) b" "holds_batch compress (fe_crc32 env) b st2" using s(6) ne by blast
    have "holds_batch compress (fe_crc32 env) b (fs_log fs')" using b(2) f2(5) by (simp add: fs2_def)
    then show ?thesis by (rule logged_read[OF lz4 crc b(1)])
  qed
  ultimately have "persisted env decode_hs (ry_entries ready) (ry_hs ready) fs fs'" "fsm_history env fs' (snd (?spec (es @ es') hist))"
    "answered (fe_hash env) (fs_pool fs) (fst (?spec (es @ es') hist)) (fs_pool fs')" unfolding persisted_def gid_def by blast+
  then show ?thesis using f1(1) s(1,2) f2(1,4) unfolding fs2_def applied_upto_append by blast
qed

text \<open>The ready that is handed back: its messages and entries have been taken out.\<close>

abbreviation taken :: "('b, 'hs, 'sn) raft_ready \<Rightarrow> ('b, 'hs, 'sn) raft_ready" where
  "taken ready \<equiv> ready\<lparr>ry_messages := [], ry_committed_entries := [], ry_entries := [], ry_persisted_messages := []\<rparr>"

abbreviation all_messages :: "('b, 'hs, 'sn) raft_ready \<Rightarrow> 'b light_ready \<Rightarrow> 'b raft_message list" where
  "all_messages ready light \<equiv> ry_messages ready @ ry_persisted_messages ready @ lr_messages light"

text \<open>C3. A leader's worker carries out what the raft library has ready, with or without a new soft state,
  committed entries, new entries and a hard state: it succeeds; the soft state is the new one, or stays;
  the transactions of the committed entries of the ready and then of the light ready are executed in
  order and answered; new entries and a new hard state are in the log, whatever its cache drops; all
  messages are in the inboxes of their receivers, in order; and the library's node has advanced.

  The conditions: the node is a leader after the update of the soft state, there is no snapshot, the
  committed entries are the next ones and can be applied (as for \<open>fsm_apply\<close>: at most one write for a
  transaction, of a size the memtable takes), new entries start at the end of the log's window and fit
  into a batch, the hard state can be encoded, and every receiver of a message is connected. Reading a
  ready and advancing leave the log alone.\<close>

theorem worker_carries_out_ready:
  assumes lib: "rl_ready (we_lib env) (rw_raft rw, fs_log (rw_fsm rw)) = (Ok ready, (raft1, fs_log (rw_fsm rw)))"
      "\<forall>st. rl_advance (we_lib env) (taken ready) (raft1, st) = (Ok light, (raft2, st))"
    and leader: "(if ry_ss ready = None then rw_soft_state rw else ry_ss ready) = Some ss" "so_raft_state ss = Leader"
      "fs_raft_node (rw_fsm rw) = rw_raft_node rw"
    and fsm: "leader_ready (we_fsm env) (we_compress env) ready light (rw_fsm rw) hist last_done"
    and hs: "\<forall>hs. ry_hs ready = Some hs \<longrightarrow> (\<exists>buf. we_encode_hs env hs = Some buf \<and> length buf < 2 ^ 32 \<and> decode_hs buf = Some hs)"
    and net: "we_rpc env = cluster_rpc deserialize" "messages_codec (we_serialize env) deserialize" "any_order (we_order env)"
      "\<forall>m \<in> set (all_messages ready light). routed (rw_clients rw) (rw_world rw) (rm_to m)"
  defines "es \<equiv> ry_committed_entries ready @ lr_committed_entries light"
  shows "\<exists>rw'. handle_ready env rw = (Ok (), rw') \<and> rw_raft rw' = raft2 \<and> rw_soft_state rw' = Some ss \<and>
    fsm_history (we_fsm env) (rw_fsm rw') (snd (spec_entries (fe_decode_command (we_fsm env)) es hist)) \<and>
    answered (fe_hash (we_fsm env)) (fs_pool (rw_fsm rw))
      (fst (spec_entries (fe_decode_command (we_fsm env)) es hist)) (fs_pool (rw_fsm rw')) \<and>
    raft_applied_index (we_fsm env) (rw_fsm rw') = Ok (applied_upto last_done es) \<and>
    persisted (we_fsm env) decode_hs (ry_entries ready) (ry_hs ready) (rw_fsm rw) (rw_fsm rw') \<and>
    (\<forall>client n. inbox (rw_world rw' client) n = inbox (rw_world rw client) n @
       (if rw_clients rw n = Some client then for_node n (all_messages ready light) else []))"
proof -
  note send = send_messages_delivers[OF net(1-3)]
  let ?fe = "we_fsm env"
  have r: "\<forall>m \<in> set (ry_messages ready). routed (rw_clients rw) (rw_world rw) (rm_to m)"
    "\<forall>m \<in> set (ry_persisted_messages ready). routed (rw_clients rw) (rw_world rw) (rm_to m)"
    "\<forall>m \<in> set (lr_messages light). routed (rw_clients rw) (rw_world rw) (rm_to m)" using net(4) by auto
  have snap: "ry_snapshot ready = None" using fsm by (simp add: leader_ready_def)
  from ready_steps[OF fsm, of "we_encode_hs env" decode_hs] hs obtain fs1 st1 st2 fs' where
    f1: "fsm_apply ?fe True (ry_committed_entries ready) (rw_fsm rw) = (Ok (), fs1)"
    and p: "(if ry_entries ready = [] then (Ok (), fs_log fs1)
       else append_batches (we_compress env) (fe_crc32 ?fe) (rw_raft_node rw) (ry_entries ready) (fs_log fs1)) = (Ok (), st1)"
    "(case ry_hs ready of None \<Rightarrow> (Ok (), st1) | Some hs \<Rightarrow> put_hard_state (we_encode_hs env) (rw_raft_node rw) hs st1) = (Ok (), st2)"
    and f2: "fsm_apply ?fe True (lr_committed_entries light) (fs1\<lparr>fs_log := st2\<rparr>) = (Ok (), fs')"
    and result: "fsm_history ?fe fs' (snd (spec_entries (fe_decode_command ?fe) es hist))"
    "answered (fe_hash ?fe) (fs_pool (rw_fsm rw)) (fst (spec_entries (fe_decode_command ?fe) es hist)) (fs_pool fs')"
    "raft_applied_index ?fe fs' = Ok (applied_upto last_done es)" "persisted ?fe decode_hs (ry_entries ready) (ry_hs ready) (rw_fsm rw) fs'"
    unfolding leader(3) es_def by blast
  define rw1 where "rw1 = rw\<lparr>rw_raft := raft1, rw_soft_state := Some ss\<rparr>"
  obtain w1 where w1: "send_messages env (ry_messages ready) rw1 = (Ok (), rw1\<lparr>rw_world := w1\<rparr>)" "\<forall>c. reaches (w1 c) = reaches (rw_world rw c)"
    "\<forall>c n. inbox (w1 c) n = inbox (rw_world rw c) n @ (if rw_clients rw n = Some c then for_node n (ry_messages ready) else [])"
    using send[of "ry_messages ready" rw1] r(1) by (auto simp: rw1_def)
  define rw2 where "rw2 = rw1\<lparr>rw_world := w1, rw_fsm := fs1\<lparr>fs_log := st2\<rparr>\<rparr>"
  have r2: "\<forall>m \<in> set (ry_persisted_messages ready). routed (rw_clients rw2) (rw_world rw2) (rm_to m)"
    using r(2) w1(2) by (simp add: rw2_def rw1_def routed_def)
  obtain w2 where w2: "send_messages env (ry_persisted_messages ready) rw2 = (Ok (), rw2\<lparr>rw_world := w2\<rparr>)" "\<forall>c. reaches (w2 c) = reaches (w1 c)"
    "\<forall>c n. inbox (w2 c) n = inbox (w1 c) n @ (if rw_clients rw n = Some c then for_node n (ry_persisted_messages ready) else [])"
    using send[OF r2] by (auto simp: rw2_def rw1_def)
  define rw3 where "rw3 = rw2\<lparr>rw_world := w2, rw_raft := raft2\<rparr>"
  have r3: "\<forall>m \<in> set (lr_messages light). routed (rw_clients rw3) (rw_world rw3) (rm_to m)"
    using r(3) w1(2) w2(2) by (simp add: rw3_def rw2_def rw1_def routed_def)
  obtain w3 where w3: "send_messages env (lr_messages light) rw3 = (Ok (), rw3\<lparr>rw_world := w3\<rparr>)"
    "\<forall>c n. inbox (w3 c) n = inbox (w2 c) n @ (if rw_clients rw n = Some c then for_node n (lr_messages light) else [])"
    using send[OF r3] by (auto simp: rw3_def rw2_def rw1_def)
  have s0: "on_raft (rl_ready (we_lib env)) rw = (Ok ready, rw\<lparr>rw_raft := raft1\<rparr>)" using lib(1) by (simp add: on_raft_def)
  have s1: "update_soft_state (ry_ss ready) (rw\<lparr>rw_raft := raft1\<rparr>) = (Ok (), rw1)"
    using leader(1) by (cases "ry_ss ready"; cases rw) (simp_all add: update_soft_state_def rw1_def)
  have s3: "apply_log_entries env (ry_committed_entries ready) (rw1\<lparr>rw_world := w1\<rparr>) = (Ok (), rw1\<lparr>rw_world := w1, rw_fsm := fs1\<rparr>)"
    using f1 leader(2) by (simp add: apply_log_entries_def on_fsm_def rw_is_leader_def rw1_def)
  have s4: "append_log_entries env (ry_entries ready) (rw1\<lparr>rw_world := w1, rw_fsm := fs1\<rparr>) =
      (Ok (), rw1\<lparr>rw_world := w1, rw_fsm := fs1\<lparr>fs_log := st1\<rparr>\<rparr>)"
    using p(1) by (auto simp: append_log_entries_def on_fsm_def on_log_def rw1_def split: if_splits)
  have s5: "(case ry_hs ready of None \<Rightarrow> cok () | Some hs \<Rightarrow> store_hard_state env hs) (rw1\<lparr>rw_world := w1, rw_fsm := fs1\<lparr>fs_log := st1\<rparr>\<rparr>) = (Ok (), rw2)"
    using p(2) by (cases "ry_hs ready") (simp_all add: store_hard_state_def on_fsm_def on_log_def rw1_def rw2_def cok_def)
  have s7: "on_raft (rl_advance (we_lib env) (taken ready)) (rw2\<lparr>rw_world := w2\<rparr>) = (Ok light, rw3)"
    using lib(2) by (simp add: on_raft_def rw3_def rw2_def rw1_def)
  have s9: "apply_log_entries env (lr_committed_entries light) (rw3\<lparr>rw_world := w3\<rparr>) = (Ok (), rw3\<lparr>rw_world := w3, rw_fsm := fs'\<rparr>)"
    using f2 leader(2) by (simp add: apply_log_entries_def on_fsm_def rw_is_leader_def rw3_def rw2_def rw1_def)
  have "handle_ready env rw = (Ok (), rw3\<lparr>rw_world := w3, rw_fsm := fs'\<rparr>)"
    using s0 s1 w1(1) s3 s4 s5 w2(1) s7 w3(1) s9 snap by (simp add: handle_ready_def)
  then show ?thesis using result w1(3) w2(3) w3(2)
    by (intro exI[of _ "rw3\<lparr>rw_world := w3, rw_fsm := fs'\<rparr>"]) (simp add: rw3_def rw2_def rw1_def)
qed

section \<open>Examples\<close>

fun decode_unary :: "nat \<Rightarrow> bytes \<Rightarrow> unit raft_message list" where
  "decode_unary n [] = []"
| "decode_unary n (b # bs) = (if b = 1 then decode_unary (Suc n) bs else \<lparr>rm_to = n, rm_body = ()\<rparr> # decode_unary 0 bs)"

definition encode_unary :: "unit raft_message list \<Rightarrow> bytes" where
  "encode_unary msgs = concat (map (\<lambda>m. replicate (rm_to m) 1 @ [0]) msgs)"

lemma unary_codec: "messages_codec (\<lambda>msgs. Some (encode_unary msgs)) (\<lambda>bs. Some (decode_unary 0 bs))"
proof -
  have one: "decode_unary k (replicate n 1 @ 0 # bs) = \<lparr>rm_to = k + n, rm_body = ()\<rparr> # decode_unary 0 bs" for k n bs
    by (induction n arbitrary: k) simp_all
  have "decode_unary 0 (encode_unary msgs) = msgs" for msgs
    using one[of 0] by (induction msgs) (simp_all add: encode_unary_def)
  then show ?thesis by (simp add: messages_codec_def)
qed

definition example_ready :: "(unit, nat, unit) raft_ready" where
  "example_ready =
     \<lparr>ry_ss = Some \<lparr>so_leader_id = 1, so_raft_state = Leader\<rparr>, ry_messages = [\<lparr>rm_to = 2, rm_body = ()\<rparr>], ry_snapshot = None,
      ry_committed_entries = [example_entry 1], ry_entries = [example_entry 1], ry_hs = Some 5, ry_persisted_messages = []\<rparr>"

definition example_light :: "unit light_ready" where
  "example_light = \<lparr>lr_messages = [\<lparr>rm_to = 2, rm_body = ()\<rparr>], lr_committed_entries = [(example_entry 2)\<lparr>re_data := []\<rparr>]\<rparr>"

text \<open>A node that refuses proposals, and has one ready.\<close>

definition example_lib :: "(nat, unit, nat, unit) raft_lib" where
  "example_lib =
     \<lparr>rl_validate = (\<lambda>_. Ok ()), rl_new = (\<lambda>_ st. (Ok 0, st)), rl_propose = (\<lambda>_ _ s. (Err (RaftError ''proposal dropped''), s)),
      rl_step = (\<lambda>_ s. (Ok (), (fst s + 100, snd s))), rl_tick = (\<lambda>s. (Ok (), s)), rl_has_ready = (\<lambda>s. (Ok False, s)),
      rl_ready = (\<lambda>s. (Ok example_ready, (fst s + 1, snd s))),
      rl_advance = (\<lambda>_ s. (Ok example_light, (fst s + 1, snd s)))\<rparr>"

definition example_worker_env :: "(nat, unit, nat, unit, mem_object_store, nat, nat, nat \<Rightarrow> (unit, nat, nat) raft_network) worker_env" where
  "example_worker_env =
     \<lparr>we_fsm = example_env, we_compress = stored_compress, we_lib = example_lib, we_encode_hs = (\<lambda>hs. Some [word_of_nat hs]),
      we_encode_voters = (\<lambda>_. Some []), we_serialize = (\<lambda>msgs. Some (encode_unary msgs)),
      we_rpc = cluster_rpc (\<lambda>bs. Some (decode_unary 0 bs)), we_connect = Some, we_order = rev\<rparr>"

definition example_worker ::
  "mem_object_store fsm \<Rightarrow> (nat, unit, mem_object_store, nat, nat, nat \<Rightarrow> (unit, nat, nat) raft_network) raft_worker" where
  "example_worker fs =
     \<lparr>rw_group = 1, rw_node = 10, rw_raft_node = 1, rw_raft = 0, rw_network = snd (rn_recv [\<lparr>rm_to = 1, rm_body = ()\<rparr>] example_network),
      rw_soft_state = None, rw_clients = [2 \<mapsto> 20], rw_proposals = [\<lparr>pr_data = [1], pr_context = []\<rparr>], rw_proposal_tx = True, rw_fsm = fs,
      rw_world = (\<lambda>_. example_network)\<rparr>"

theorem refused_proposal_drops_messages_witness:
  "\<forall>fs. \<exists>rw'. run_turn example_worker_env (12, 12) 100 (example_worker fs) = (Err (RaftError ''proposal dropped''), rw') \<and>
     inbox (rw_network (example_worker fs)) 1 \<noteq> [] \<and> inbox (rw_network rw') 1 = [] \<and> rw_raft rw' = 0"
proof
  fix fs
  let ?ch = "\<lparr>mc_queue = [\<lparr>rm_to = 1, rm_body = ()\<rparr>], mc_rx = True, mc_open = True\<rparr>"
  have ch: "rn_message_channels (rw_network (example_worker fs)) (rw_raft_node (example_worker fs)) = Some ?ch"
    by (simp add: example_worker_def example_network_simps rn_recv_def rn_recv_one_def unbounded_channel_def)
  have env: "we_lib example_worker_env = example_lib" by (simp add: example_worker_env_def)
  have rw: "rw_proposal_tx (example_worker fs)" "take batch_size_of_turn (rw_proposals (example_worker fs)) = [] @ \<lparr>pr_data = [1], pr_context = []\<rparr> # []"
    "rw_raft (example_worker fs) = 0" "rw_raft_node (example_worker fs) = 1" by (simp_all add: example_worker_def batch_size_of_turn_def)
  have "\<exists>rw'. run_turn example_worker_env (12, 12) 100 (example_worker fs) = (Err (RaftError ''proposal dropped''), rw') \<and> rw_raft rw' = 0 \<and>
      rw_fsm rw' = (rw_fsm (example_worker fs))\<lparr>fs_log := fs_log (rw_fsm (example_worker fs))\<rparr> \<and> rw_world rw' = rw_world (example_worker fs) \<and>
      inbox (rw_network rw') (rw_raft_node (example_worker fs)) = drop batch_size_of_turn (mc_queue ?ch) \<and>
      rw_proposals rw' = drop batch_size_of_turn (rw_proposals (example_worker fs)) \<and>
      rw_run example_worker_env [(12, 12)] 100 (example_worker fs) = rw_run example_worker_env [] raft_heartbeat_tick_duration rw'"
    by (rule refused_proposal_drops_messages[OF ch rw(1,2)]) (simp_all add: env rw(3) example_lib_def)
  moreover have "inbox (rw_network (example_worker fs)) 1 \<noteq> []" using ch rw(4) by (simp add: inbox_def)
  ultimately show "\<exists>rw'. run_turn example_worker_env (12, 12) 100 (example_worker fs) = (Err (RaftError ''proposal dropped''), rw') \<and>
     inbox (rw_network (example_worker fs)) 1 \<noteq> [] \<and> inbox (rw_network rw') 1 = [] \<and> rw_raft rw' = 0"
    unfolding rw(4) by (auto simp: batch_size_of_turn_def)
qed

lemma length_stored_compress: "length (stored_compress bs) = 2 * length bs + 1"
  unfolding stored_compress_def by (induction bs) simp_all

lemma example_storable: "storable stored_compress (fe_crc32 example_env) (1 + length []) [example_entry 1]"
  by (simp add: storable_def example_env_def example_entry_def encode_entry_data_def entry_type_of_def data_segment_def compression_encode_def
      length_stored_compress Let_def)

lemma example_leader_ready:
  assumes "lsm_history stored_decompress (\<lambda>_. 7) (\<lambda>_. 1) lt union_versions" "tree_at 1024 (0, 0) lt" "np_ok id np"
  shows "leader_ready example_env stored_compress example_ready example_light (example_fsm lt np) union_versions 0"
proof -
  have r: "ry_committed_entries example_ready = [example_entry 1]" "ry_entries example_ready = [example_entry 1]" "ry_snapshot example_ready = None"
    "lr_committed_entries example_light = [(example_entry 2)\<lparr>re_data := []\<rparr>]" by (simp_all add: example_ready_def example_light_def)
  have idx: "next_entries 0 [example_entry 1]" "next_entries (applied_upto 0 [example_entry 1]) [(example_entry 2)\<lparr>re_data := []\<rparr>]"
    by (simp_all add: next_entries_def applied_upto_def example_entry_def)
  have none: "fe_decode_command example_env [] = None" "re_type (example_entry 2) = 0" by (simp_all add: example_env_def example_entry_def)
  have "entries_take example_env 1024 ([example_entry 1] @ [(example_entry 2)\<lparr>re_data := []\<rparr>]) (0, 0) = Some (1, 12)"
    unfolding entries_take_append example_take by (simp add: none)
  with example_at[OF assms] have "\<exists>c x y. fsm_at stored_compress example_env c union_versions 0 x (example_fsm lt np) \<and>
      entries_take example_env c ([example_entry 1] @ [(example_entry 2)\<lparr>re_data := []\<rparr>]) x = Some y" by blast
  moreover have "entries_fit (fe_decode_command example_env) ([example_entry 1] @ [(example_entry 2)\<lparr>re_data := []\<rparr>]) union_versions"
    unfolding entries_fit_append using example_fit by (simp add: none del: entries_fit.simps(2)) (simp add: none)
  moreover have "log_window 1 example_store = Some (1, [])" by (simp add: log_window_def example_store_def new_mem_state_def)
  moreover have "raft_applied_index example_env (example_fsm lt np) = Ok 0" using example_progress by (simp add: raft_applied_index_def)
  ultimately show ?thesis unfolding leader_ready_def r using idx example_storable by auto
qed

lemma example_reaches: "reaches example_network 2"
  by (simp add: reaches_def example_network_simps unbounded_channel_def)

theorem worker_carries_out_ready_witness:
  "\<exists>mt st np rw'. np_register id 9 (notify_pool_new 1) = Ok (0, np) \<and>
    handle_ready example_worker_env (example_worker (example_fsm (example_tree mt st) np)) = (Ok (), rw') \<and> rw_raft rw' = 2 \<and>
    np_received 0 (fs_pool (rw_fsm rw')) = Some (Ok [Some PutResponse, Some (GetResponse [5])]) \<and>
    raft_applied_index example_env (rw_fsm rw') = Ok 2 \<and>
    persisted example_env (\<lambda>b. Some (unat (hd b))) [example_entry 1] (Some 5) (example_fsm (example_tree mt st) np) (rw_fsm rw') \<and>
    inbox (rw_world rw' 20) 2 = [\<lparr>rm_to = 2, rm_body = ()\<rparr>, \<lparr>rm_to = 2, rm_body = ()\<rparr>]"
proof -
  obtain mt st where mt: "lsm_history stored_decompress (\<lambda>_. 7) (\<lambda>_. 1) (example_tree mt st) union_versions" "tree_at 1024 (0, 0) (example_tree mt st)"
    using example_tree_at by blast
  obtain np :: "(u64, txn_response res) notify_pool" where np: "np_register id 9 (notify_pool_new 1) = Ok (0, np)" "np_ok id np" "np_pending id np = [9 \<mapsto> 0]" "np_alive 0 np"
    using example_pool by blast
  let ?fs = "example_fsm (example_tree mt st) np"
  let ?rw = "example_worker ?fs"
  have e: "we_fsm example_worker_env = example_env" "we_compress example_worker_env = stored_compress" "we_lib example_worker_env = example_lib"
    "rw_fsm ?rw = ?fs" "rw_raft ?rw = 0" "rw_raft_node ?rw = 1" "rw_clients ?rw = [2 \<mapsto> 20]" "rw_world ?rw = (\<lambda>_. example_network)"
    "ry_committed_entries example_ready = [example_entry 1]" "ry_entries example_ready = [example_entry 1]" "ry_hs example_ready = Some 5"
    "lr_committed_entries example_light = [(example_entry 2)\<lparr>re_data := []\<rparr>]" "fe_hash example_env = id" "fs_pool ?fs = np"
    by (simp_all add: example_worker_env_def example_worker_def example_ready_def example_light_def example_env_def)
  have ready: "leader_ready (we_fsm example_worker_env) (we_compress example_worker_env) example_ready example_light (rw_fsm ?rw) union_versions 0"
    unfolding e by (rule example_leader_ready[OF mt np(2)])
  have spec: "fst (spec_entries (fe_decode_command example_env) ([example_entry 1] @ [(example_entry 2)\<lparr>re_data := []\<rparr>]) union_versions) =
      [(9, [PutResponse, GetResponse [5]])]"
    unfolding spec_entries_append example_spec by (simp add: example_env_def)
  have upto: "applied_upto 0 ([example_entry 1] @ [(example_entry 2)\<lparr>re_data := []\<rparr>]) = 2" by (simp add: applied_upto_def example_entry_def)
  have lib: "rl_ready (we_lib example_worker_env) (rw_raft ?rw, fs_log (rw_fsm ?rw)) = (Ok example_ready, (1, fs_log (rw_fsm ?rw)))"
    "\<forall>s. rl_advance (we_lib example_worker_env) (taken example_ready) (1, s) = (Ok example_light, (2, s))"
    unfolding e by (simp_all add: example_lib_def)
  have leader: "(if ry_ss example_ready = None then rw_soft_state ?rw else ry_ss example_ready) = Some \<lparr>so_leader_id = 1, so_raft_state = Leader\<rparr>"
    "so_raft_state \<lparr>so_leader_id = 1, so_raft_state = Leader\<rparr> = Leader" "fs_raft_node (rw_fsm ?rw) = rw_raft_node ?rw"
    and hs: "\<forall>hs. ry_hs example_ready = Some hs \<longrightarrow> (\<exists>buf. we_encode_hs example_worker_env hs = Some buf \<and> length buf < 2 ^ 32 \<and>
        (\<lambda>b :: bytes. Some (unat (hd b))) buf = Some hs)"
    and net: "we_rpc example_worker_env = cluster_rpc (\<lambda>bs. Some (decode_unary 0 bs))"
    "messages_codec (we_serialize example_worker_env) (\<lambda>bs. Some (decode_unary 0 bs))" "any_order (we_order example_worker_env)"
    "\<forall>m \<in> set (all_messages example_ready example_light). routed (rw_clients ?rw) (rw_world ?rw) (rm_to m)"
    using unary_codec example_reaches by (simp_all add: example_ready_def example_light_def example_worker_env_def any_order_def routed_def example_worker_def)
  from worker_carries_out_ready[where decode_hs = "\<lambda>b :: bytes. Some (unat (hd b))", OF lib leader ready hs net, unfolded e spec upto] obtain rw' where
    "handle_ready example_worker_env ?rw = (Ok (), rw')" "rw_raft rw' = 2" "answered id np [(9, [PutResponse, GetResponse [5]])] (fs_pool (rw_fsm rw'))"
    "raft_applied_index example_env (rw_fsm rw') = Ok 2" "persisted example_env (\<lambda>b. Some (unat (hd b))) [example_entry 1] (Some 5) ?fs (rw_fsm rw')"
    "inbox (rw_world rw' 20) 2 = inbox example_network 2 @ for_node 2 (all_messages example_ready example_light)" by auto
  moreover have "inbox example_network 2 = []" by (simp add: inbox_def example_network_simps unbounded_channel_def)
  moreover have "for_node 2 (all_messages example_ready example_light) = [\<lparr>rm_to = 2, rm_body = ()\<rparr>, \<lparr>rm_to = 2, rm_body = ()\<rparr>]"
    by (simp add: example_ready_def example_light_def)
  ultimately show ?thesis using np by (intro exI[of _ mt] exI[of _ st] exI[of _ np] exI[of _ rw']) (simp add: answered_def)
qed

end
