(* ===== verification/ConcatIterator.thy ===== *)
theory ConcatIterator
  imports BlockIterator Segments
begin

text \<open>
  \<open>storage/src/lsm_tree/iterator/concat_iterator.rs\<close>: the concatenation of iterators over consecutive ranges
  of keys, for iterators of any kind. Its operations are those of the iterator trait over the
  operations of its parts; the results hold for every instance of \<open>kv_iterator\<close>.
\<close>

section \<open>Operations\<close>

record 'it concat_iterator =
  ci_iters :: "'it list"
  ci_offset :: nat

definition ci_new :: "'it list \<Rightarrow> 'it concat_iterator" where
  "ci_new iters = \<lparr>ci_iters = iters, ci_offset = u64_max\<rparr>"

definition ci_invalid :: "'it concat_iterator \<Rightarrow> 'it concat_iterator" where
  "ci_invalid it = it\<lparr>ci_offset := length (ci_iters it)\<rparr>"

definition ci_is_valid :: "'it concat_iterator \<Rightarrow> bool" where
  "ci_is_valid it \<longleftrightarrow> ci_offset it < length (ci_iters it)"

text \<open>An operation on the part at an offset.\<close>

definition ci_set :: "nat \<Rightarrow> 'it \<Rightarrow> 'it concat_iterator \<Rightarrow> 'it concat_iterator" where
  "ci_set i x it = it\<lparr>ci_iters := (ci_iters it)[i := x]\<rparr>"

definition ci_seek_part :: "'it iterator_ops \<Rightarrow> nat \<Rightarrow> seek \<Rightarrow> 'it concat_iterator \<Rightarrow> 'it concat_iterator res" where
  "ci_seek_part ops i sk it =
     rbind (index (ci_iters it) i) (\<lambda>x. rbind (it_seek ops sk x) (\<lambda>(_, x). Ok (ci_set i x it)))"

definition ci_part_valid :: "'it iterator_ops \<Rightarrow> nat \<Rightarrow> 'it concat_iterator \<Rightarrow> bool res" where
  "ci_part_valid ops i it = rbind (index (ci_iters it) i) (it_is_valid ops)"

definition ci_next_inner :: "'it iterator_ops \<Rightarrow> 'it concat_iterator \<Rightarrow> 'it concat_iterator res" where
  "ci_next_inner ops it =
     rbind (index (ci_iters it) (ci_offset it)) (\<lambda>x.
     rbind (it_next ops x) (\<lambda>x.
     let it = ci_set (ci_offset it) x it in
     rbind (ci_part_valid ops (ci_offset it) it) (\<lambda>valid.
     if valid then Ok it
     else if ci_offset it + 1 = length (ci_iters it) then Ok (ci_invalid it)
     else
       let it = it\<lparr>ci_offset := ci_offset it + 1\<rparr> in ci_seek_part ops (ci_offset it) First it)))"

definition ci_prev_inner :: "'it iterator_ops \<Rightarrow> 'it concat_iterator \<Rightarrow> 'it concat_iterator res" where
  "ci_prev_inner ops it =
     rbind (index (ci_iters it) (ci_offset it)) (\<lambda>x.
     rbind (it_prev ops x) (\<lambda>x.
     let it = ci_set (ci_offset it) x it in
     rbind (ci_part_valid ops (ci_offset it) it) (\<lambda>valid.
     if valid then Ok it
     else if ci_offset it = 0 then Ok (ci_invalid it)
     else
       let it = it\<lparr>ci_offset := ci_offset it - 1\<rparr> in ci_seek_part ops (ci_offset it) Last it)))"

definition ci_key :: "'it iterator_ops \<Rightarrow> 'it concat_iterator \<Rightarrow> bytes res" where
  "ci_key ops it = rbind (rassert (ci_is_valid it)) (\<lambda>_. rbind (index (ci_iters it) (ci_offset it)) (it_key ops))"

definition ci_value :: "'it iterator_ops \<Rightarrow> 'it concat_iterator \<Rightarrow> bytes res" where
  "ci_value ops it = rbind (rassert (ci_is_valid it)) (\<lambda>_. rbind (index (ci_iters it) (ci_offset it)) (it_value ops))"

definition ci_next :: "'it iterator_ops \<Rightarrow> 'it concat_iterator \<Rightarrow> 'it concat_iterator res" where
  "ci_next ops it = rbind (rassert (ci_is_valid it)) (\<lambda>_. ci_next_inner ops it)"

definition ci_prev :: "'it iterator_ops \<Rightarrow> 'it concat_iterator \<Rightarrow> 'it concat_iterator res" where
  "ci_prev ops it = rbind (rassert (ci_is_valid it)) (\<lambda>_. ci_prev_inner ops it)"

definition ci_prev_until_key :: "'it iterator_ops \<Rightarrow> bytes \<Rightarrow> 'it concat_iterator \<Rightarrow> 'it concat_iterator res" where
  "ci_prev_until_key ops = prev_until (\<lambda>it. Ok (ci_is_valid it)) (ci_key ops) (ci_prev_inner ops)"

definition ci_probe :: "'it iterator_ops \<Rightarrow> bytes \<Rightarrow> nat \<Rightarrow> 'it concat_iterator \<Rightarrow> (ordering \<times> 'it concat_iterator) res" where
  "ci_probe ops key mid it =
     rbind (ci_seek_part ops mid (RandomForward key) it) (\<lambda>it.
     rbind (ci_part_valid ops mid it) (\<lambda>valid.
     rbind (if valid then rbind (rbind (index (ci_iters it) mid) (it_key ops)) (\<lambda>k. compare_full_key k key) else Ok Less) (\<lambda>c.
       Ok (c, it))))"

definition ci_binary_seek_inner :: "'it iterator_ops \<Rightarrow> bytes \<Rightarrow> 'it concat_iterator \<Rightarrow> (nat \<times> 'it concat_iterator) res" where
  "ci_binary_seek_inner ops key it =
     rbind (bsearch (ci_probe ops key) 0 (length (ci_iters it)) it) (\<lambda>((found, i), it). Ok (if found then i else i - 1, it))"

text \<open>When the part that was found has no entry from the key on, the first entry of the next part is taken.\<close>

definition ci_binary_seek :: "'it iterator_ops \<Rightarrow> bytes \<Rightarrow> 'it concat_iterator \<Rightarrow> 'it concat_iterator res" where
  "ci_binary_seek ops key it =
     rbind (ci_binary_seek_inner ops key it) (\<lambda>(offset, it).
     if length (ci_iters it) \<le> offset then Ok (ci_invalid it)
     else
       rbind (ci_seek_part ops offset (RandomForward key) it) (\<lambda>it.
       rbind (ci_part_valid ops offset it) (\<lambda>valid.
       if valid then Ok (it\<lparr>ci_offset := offset\<rparr>)
       else
         let it = it\<lparr>ci_offset := offset + 1\<rparr> in
         if ci_offset it < length (ci_iters it) then ci_seek_part ops (ci_offset it) First it else Ok (ci_invalid it))))"

definition ci_seek_last :: "'it iterator_ops \<Rightarrow> 'it concat_iterator \<Rightarrow> (bool \<times> 'it concat_iterator) res" where
  "ci_seek_last ops it =
     rbind (sub_u64 (length (ci_iters it)) 1) (\<lambda>offset.
     rbind (ci_seek_part ops offset Last (it\<lparr>ci_offset := offset\<rparr>)) (\<lambda>it. Ok (ci_is_valid it, it)))"

fun ci_seek :: "'it iterator_ops \<Rightarrow> seek \<Rightarrow> 'it concat_iterator \<Rightarrow> (bool \<times> 'it concat_iterator) res" where
  "ci_seek ops First it = rbind (ci_seek_part ops 0 First (it\<lparr>ci_offset := 0\<rparr>)) (\<lambda>it. Ok (ci_is_valid it, it))"
| "ci_seek ops Last it = ci_seek_last ops it"
| "ci_seek ops (RandomForward key) it =
     rbind (ci_binary_seek ops key it) (found_at (\<lambda>it. Ok (ci_is_valid it)) (ci_key ops) key)"
| "ci_seek ops (RandomBackward key) it =
     rbind (ci_binary_seek ops key it) (\<lambda>it.
     rbind (if \<not> ci_is_valid it then rbind (ci_seek_last ops it) (\<lambda>(_, it). Ok it) else Ok it) (\<lambda>it.
     rbind (ci_prev_until_key ops key it) (found_at (\<lambda>it. Ok (ci_is_valid it)) (ci_key ops) key)))"

definition concat_iterator_ops :: "'it iterator_ops \<Rightarrow> 'it concat_iterator iterator_ops" where
  "concat_iterator_ops ops =
     \<lparr>it_next = ci_next ops, it_prev = ci_prev ops, it_key = ci_key ops, it_value = ci_value ops,
      it_is_valid = (\<lambda>it. Ok (ci_is_valid it)), it_seek = ci_seek ops\<rparr>"

section \<open>Positions\<close>

definition ci_parts :: "('it \<Rightarrow> kvs \<Rightarrow> bool) \<Rightarrow> kvs list \<Rightarrow> 'it concat_iterator \<Rightarrow> bool" where
  "ci_parts over bss it \<longleftrightarrow> segments bss \<and> length (concat bss) < 2 ^ 64 \<and> length (ci_iters it) = length bss \<and>
     (\<forall>b < length bss. over (ci_iters it ! b) (bss ! b))"

definition ci_at :: "('it \<Rightarrow> kvs \<Rightarrow> nat option \<Rightarrow> bool) \<Rightarrow> kvs list \<Rightarrow> nat \<Rightarrow> nat \<Rightarrow> 'it concat_iterator \<Rightarrow> bool" where
  "ci_at cursor bss b k it \<longleftrightarrow> b < length bss \<and> k < length (bss ! b) \<and> ci_offset it = b \<and> cursor (ci_iters it ! b) (bss ! b) (Some k)"

definition ci_pos :: "('it \<Rightarrow> kvs \<Rightarrow> nat option \<Rightarrow> bool) \<Rightarrow> kvs list \<Rightarrow> nat option \<Rightarrow> 'it concat_iterator \<Rightarrow> bool" where
  "ci_pos cursor bss p it \<longleftrightarrow>
     (case p of None \<Rightarrow> length bss \<le> ci_offset it | Some g \<Rightarrow> \<exists>b k. g = base bss b + k \<and> ci_at cursor bss b k it)"

definition ci_over :: "('it \<Rightarrow> kvs \<Rightarrow> bool) \<Rightarrow> 'it concat_iterator \<Rightarrow> kvs \<Rightarrow> bool" where
  "ci_over over it es \<longleftrightarrow> (\<exists>bss. ci_parts over bss it \<and> es = concat bss)"

definition ci_cursor :: "('it \<Rightarrow> kvs \<Rightarrow> bool) \<Rightarrow> ('it \<Rightarrow> kvs \<Rightarrow> nat option \<Rightarrow> bool) \<Rightarrow> 'it concat_iterator \<Rightarrow> kvs \<Rightarrow> nat option \<Rightarrow> bool" where
  "ci_cursor over cursor it es p \<longleftrightarrow> (\<exists>bss. ci_parts over bss it \<and> es = concat bss \<and> ci_pos cursor bss p it)"

text \<open>Where the search leads: to the first entry from the key on when the key is there, when it lies in the
  first part, or when it lies between two parts; otherwise to the first entry of the part it lies in.\<close>

definition concat_target :: "kvs list \<Rightarrow> bytes \<Rightarrow> nat option" where
  "concat_target bss k =
     (let b = length (takeWhile (\<lambda>bs. lower bs k = length bs) bss) in
      if b = length bss then None
      else Some (if b = 0 \<or> k \<in> fst ` set (concat bss) then lower (concat bss) k else base bss b))"

lemma first_not_below:
  assumes "b \<le> length bss" "\<forall>c < b. below bss k c" "b < length bss \<Longrightarrow> \<not> below bss k b"
  shows "length (takeWhile (\<lambda>bs. lower bs k = length bs) bss) = b"
proof -
  have "takeWhile (\<lambda>bs. lower bs k = length bs) bss = take b bss"
    by (rule takeWhile_eq_take_P_nth) (use assms in \<open>auto simp: below_def\<close>)
  then show ?thesis using assms(1) by simp
qed

text \<open>An entry from the key on lies in part \<open>i\<close>; the search finds the key there if it is anywhere.\<close>

lemma key_in_part:
  assumes s: "segments bss" and i: "i \<le> length bss" "\<forall>c < i. below bss k c" "i < length bss \<Longrightarrow> \<not> below bss k i"
  shows "k \<in> fst ` set (concat bss) \<longleftrightarrow> i < length bss \<and> probe_of bss k i = Equal"
proof (cases "i < length bss")
  case True
  then have l: "lower (bss ! i) k < length (bss ! i)" using i(3) lower_le[of "bss ! i" k] by (simp add: below_def)
  have low: "lower (concat bss) k = base bss i + lower (bss ! i) k" using lower_concat[OF s i] True by simp
  have "k \<in> fst ` set (concat bss) \<longleftrightarrow> key_at (bss ! i) (lower (bss ! i) k) = k"
    using found_forward[OF segmentsD(1)[OF s], of k] low base_bound[OF True l] concat_nth_base[OF True l] by simp
  then show ?thesis using True i(3) by (simp add: probe_of_def key_ord_inject)
next
  case False
  then have "lower (concat bss) k = length (concat bss)" using lower_concat[OF s i] i(1) by simp
  then show ?thesis using found_forward[OF segmentsD(1)[OF s], of k] False by simp
qed

lemma ci_pos_at: "ci_at cursor bss b k it \<Longrightarrow> g = base bss b + k \<Longrightarrow> ci_pos cursor bss (Some g) it"
  by (auto simp: ci_pos_def)

lemma ci_parts_update [simp]: "ci_parts over bss (it\<lparr>ci_offset := n\<rparr>) = ci_parts over bss it"
  by (simp add: ci_parts_def)

context kv_iterator
begin

lemma parts_set:
  assumes "ci_parts over bss it" "b < length bss" "over x (bss ! b)"
  shows "ci_parts over bss (ci_set b x it)" "ci_iters (ci_set b x it) ! b = x" "ci_offset (ci_set b x it) = ci_offset it"
    "length (ci_iters (ci_set b x it)) = length bss"
  using assms by (auto simp: ci_parts_def ci_set_def nth_list_update)

lemma seek_part_ok:
  assumes t: "ci_parts over bss it" and b: "b < length bss" and "wf_seek sk"
  shows "\<exists>it'. ci_seek_part ops b sk it = Ok it' \<and> ci_parts over bss it' \<and> ci_offset it' = ci_offset it \<and>
    cursor (ci_iters it' ! b) (bss ! b) (seek_target (bss ! b) sk)"
proof -
  have o: "over (ci_iters it ! b) (bss ! b)" and l: "b < length (ci_iters it)" using t b by (auto simp: ci_parts_def)
  from over_seek[OF o assms(3)] obtain x where x: "it_seek ops sk (ci_iters it ! b) = Ok (seek_found (bss ! b) sk, x)"
    "cursor x (bss ! b) (seek_target (bss ! b) sk)" by blast
  note s = parts_set[OF t b cursor_over[OF x(2)]]
  show ?thesis using x l s by (intro exI[of _ "ci_set b x it"]) (simp add: ci_seek_part_def index_def)
qed

lemma part_valid:
  assumes "ci_parts over bss it" "b < length bss" "cursor (ci_iters it ! b) (bss ! b) p"
  shows "ci_part_valid ops b it = Ok (p \<noteq> None)"
  using assms cursor_valid[OF assms(3)] by (simp add: ci_part_valid_def ci_parts_def index_def)

lemma seek_part_at:
  assumes t: "ci_parts over bss it" and "b < length bss" "wf_seek sk" "seek_target (bss ! b) sk = Some k" "ci_offset it = b"
  shows "\<exists>it'. ci_seek_part ops b sk it = Ok it' \<and> ci_parts over bss it' \<and> ci_at cursor bss b k it'"
  using seek_part_ok[OF assms(1-3)] assms(2,4,5) seek_target_bound[OF assms(4)] by (auto simp: ci_at_def)

lemma concat_next_inner:
  assumes t: "ci_parts over bss it" and at: "ci_at cursor bss b k it"
  shows "\<exists>it'. ci_next_inner ops it = Ok it' \<and> ci_parts over bss it' \<and>
    ci_pos cursor bss (if Suc (base bss b + k) < length (concat bss) then Some (Suc (base bss b + k)) else None) it'"
proof -
  have s: "segments bss" and l: "length (ci_iters it) = length bss" using t by (auto simp: ci_parts_def)
  have a: "b < length bss" "k < length (bss ! b)" "ci_offset it = b" "cursor (ci_iters it ! b) (bss ! b) (Some k)" using at by (auto simp: ci_at_def)
  obtain x where x: "it_next ops (ci_iters it ! b) = Ok x" "cursor x (bss ! b) (if Suc k < length (bss ! b) then Some (Suc k) else None)"
    using cursor_next[OF a(4)] by blast
  define it1 where "it1 = ci_set b x it"
  note p = parts_set[OF t a(1) cursor_over[OF x(2)], folded it1_def]
  have v: "ci_part_valid ops b it1 = Ok (Suc k < length (bss ! b))" using part_valid[OF p(1) a(1)] x(2) p(2) by auto
  have step: "ci_next_inner ops it = (if Suc k < length (bss ! b) then Ok it1 else if b + 1 = length bss then Ok (ci_invalid it1)
      else ci_seek_part ops (b + 1) First (it1\<lparr>ci_offset := b + 1\<rparr>))"
    using x(1) a(1,3) l v p(3,4) by (simp add: ci_next_inner_def index_def Let_def flip: it1_def)
  note nxt = segments_next[OF s a(1,2)]
  consider "Suc k < length (bss ! b)" | "\<not> Suc k < length (bss ! b)" "Suc b = length bss" | "\<not> Suc k < length (bss ! b)" "Suc b < length bss"
    using a(1) by linarith
  then show ?thesis
  proof cases
    case 1
    then have "ci_at cursor bss b (Suc k) it1" using a p x(2) by (simp add: ci_at_def)
    then show ?thesis using step 1 nxt p(1) ci_pos_at[of cursor bss b "Suc k" it1] by auto
  next
    case 2
    then show ?thesis using step nxt p(1,4) by (simp add: ci_pos_def ci_invalid_def)
  next
    case 3
    have "seek_target (bss ! Suc b) First = Some 0" using segmentsD(3)[OF s 3(2)] by simp
    from seek_part_at[OF _ 3(2) _ this, of "it1\<lparr>ci_offset := Suc b\<rparr>"] p(1) obtain it2 where
      "ci_seek_part ops (Suc b) First (it1\<lparr>ci_offset := Suc b\<rparr>) = Ok it2" "ci_parts over bss it2" "ci_at cursor bss (Suc b) 0 it2" by auto
    moreover have "Suc (base bss b + k) = base bss (Suc b)" using base_Suc[OF a(1)] 3(1) a(2) by simp
    ultimately show ?thesis using step 3 nxt ci_pos_at[of cursor bss "Suc b" 0 it2] by auto
  qed
qed

lemma concat_prev_inner:
  assumes t: "ci_parts over bss it" and at: "ci_at cursor bss b k it"
  shows "\<exists>it'. ci_prev_inner ops it = Ok it' \<and> ci_parts over bss it' \<and>
    ci_pos cursor bss (if base bss b + k = 0 then None else Some (base bss b + k - 1)) it'"
proof -
  have s: "segments bss" and l: "length (ci_iters it) = length bss" using t by (auto simp: ci_parts_def)
  have a: "b < length bss" "k < length (bss ! b)" "ci_offset it = b" "cursor (ci_iters it ! b) (bss ! b) (Some k)" using at by (auto simp: ci_at_def)
  obtain x where x: "it_prev ops (ci_iters it ! b) = Ok x" "cursor x (bss ! b) (if k = 0 then None else Some (k - 1))"
    using cursor_prev[OF a(4)] by blast
  define it1 where "it1 = ci_set b x it"
  note p = parts_set[OF t a(1) cursor_over[OF x(2)], folded it1_def]
  have v: "ci_part_valid ops b it1 = Ok (k \<noteq> 0)" using part_valid[OF p(1) a(1)] x(2) p(2) by auto
  have step: "ci_prev_inner ops it = (if k \<noteq> 0 then Ok it1 else if b = 0 then Ok (ci_invalid it1)
      else ci_seek_part ops (b - 1) Last (it1\<lparr>ci_offset := b - 1\<rparr>))"
    using x(1) a(1,3) l v p(3,4) by (auto simp: ci_prev_inner_def index_def Let_def it1_def)
  consider "k \<noteq> 0" | "k = 0" "b = 0" | c where "k = 0" "b = Suc c" by (cases b) auto
  then show ?thesis
  proof cases
    case 1
    then have "ci_at cursor bss b (k - 1) it1" using a p x(2) by (simp add: ci_at_def)
    then show ?thesis using step 1 p(1) ci_pos_at[of cursor bss b "k - 1" it1] by auto
  next
    case 2
    then show ?thesis using step p(1,4) by (simp add: ci_pos_def ci_invalid_def)
  next
    case 3
    then have c: "c < length bss" using a(1) by simp
    have ne: "bss ! c \<noteq> []" by (rule segmentsD(3)[OF s c])
    from seek_part_at[OF _ c, of "it1\<lparr>ci_offset := c\<rparr>" Last "length (bss ! c) - 1"] p(1) ne obtain it2 where
      "ci_seek_part ops c Last (it1\<lparr>ci_offset := c\<rparr>) = Ok it2" "ci_parts over bss it2" "ci_at cursor bss c (length (bss ! c) - 1) it2" by auto
    moreover have "base bss b + k - 1 = base bss c + (length (bss ! c) - 1)" "base bss b + k \<noteq> 0"
      using base_Suc[OF c] 3 ne by (auto simp: Suc_leI)
    ultimately show ?thesis using step 3 ci_pos_at[of cursor bss c "length (bss ! c) - 1" it2] by auto
  qed
qed

lemma concat_pos_valid: "ci_parts over bss it \<Longrightarrow> ci_pos cursor bss p it \<Longrightarrow> ci_is_valid it \<longleftrightarrow> p \<noteq> None"
  by (cases p) (auto simp: ci_pos_def ci_at_def ci_parts_def ci_is_valid_def)

lemma concat_probe:
  assumes t: "ci_parts over bss it" and b: "b < length bss" and k: "8 \<le> length k"
  shows "\<exists>it'. ci_probe ops k b it = Ok (probe_of bss k b, it') \<and> ci_parts over bss it'"
proof -
  have s: "segments bss" using t by (simp add: ci_parts_def)
  obtain it' where it': "ci_seek_part ops b (RandomForward k) it = Ok it'" "ci_parts over bss it'"
    "cursor (ci_iters it' ! b) (bss ! b) (seek_target (bss ! b) (RandomForward k))" using seek_part_ok[OF t b, of "RandomForward k"] k by auto
  note v = part_valid[OF it'(2) b it'(3)]
  show ?thesis
  proof (cases "below bss k b")
    case True
    then show ?thesis using it' v by (auto simp: ci_probe_def below_def probe_of_def)
  next
    case False
    then have l: "lower (bss ! b) k < length (bss ! b)" using lower_le[of "bss ! b" k] by (simp add: below_def)
    then have "it_key ops (ci_iters it' ! b) = Ok (key_at (bss ! b) (lower (bss ! b) k))" "8 \<le> length (key_at (bss ! b) (lower (bss ! b) k))"
      using cursor_key[of "ci_iters it' ! b" "bss ! b"] it'(3) key_sorted_length[OF segmentsD(5)[OF s b] l] by auto
    moreover have "b < length (ci_iters it')" using it'(2) b by (simp add: ci_parts_def)
    ultimately show ?thesis using it' v False l k by (auto simp: ci_probe_def probe_of_def compare_full_key_cmp index_def)
  qed
qed

lemma concat_binary_seek:
  assumes t: "ci_parts over bss it" and k: "8 \<le> length k"
  shows "\<exists>it'. ci_binary_seek ops k it = Ok it' \<and> ci_parts over bss it' \<and> ci_pos cursor bss (concat_target bss k) it'"
proof -
  have s: "segments bss" and l: "length (ci_iters it) = length bss" using t by (auto simp: ci_parts_def)
  have "\<exists>found i it'. bsearch (ci_probe ops k) 0 (length bss) it = Ok ((found, i), it') \<and> ci_parts over bss it' \<and>
      (if found then i < length bss \<and> probe_of bss k i = Equal
       else i \<le> length bss \<and> (\<forall>j < i. probe_of bss k j = Less) \<and> (\<forall>j. i \<le> j \<and> j < length bss \<longrightarrow> probe_of bss k j = Greater))"
    by (rule bsearch_correct[OF probe_order_segments[OF s, of k] order_refl]) (use t concat_probe[OF _ _ k] in auto)
  then obtain found i it1 where b: "bsearch (ci_probe ops k) 0 (length bss) it = Ok ((found, i), it1)" "ci_parts over bss it1"
    "if found then i < length bss \<and> probe_of bss k i = Equal
     else i \<le> length bss \<and> (\<forall>j < i. probe_of bss k j = Less) \<and> (\<forall>j. i \<le> j \<and> j < length bss \<longrightarrow> probe_of bss k j = Greater)"
    by blast
  have i: "i \<le> length bss" "\<forall>c < i. below bss k c" "i < length bss \<Longrightarrow> \<not> below bss k i"
  proof -
    show "i \<le> length bss" "\<forall>c < i. below bss k c"
      using b(3) segment_found[OF s, of i k] probe_of_not_Less[OF s, of _ k] by (auto split: if_splits)
    assume "i < length bss"
    then have "probe_of bss k i \<noteq> Less" using b(3) by (auto split: if_splits)
    then show "\<not> below bss k i" using probe_of_not_Less[OF s \<open>i < length bss\<close>] by blast
  qed
  note low = lower_concat[OF s i] and first = first_not_below[OF i]
  have found: "found \<longleftrightarrow> k \<in> fst ` set (concat bss)" using key_in_part[OF s i] b(3) by (cases found) auto
  define o1 where "o1 = (if found then i else i - 1)"
  have o1: "o1 < length bss" using b(3) segmentsD(2)[OF s] by (cases i) (auto simp: o1_def split: if_splits)
  have l1: "length (ci_iters it1) = length bss" using b(2) by (simp add: ci_parts_def)
  have inner: "ci_binary_seek_inner ops k it = Ok (o1, it1)" using b(1) l by (simp add: ci_binary_seek_inner_def o1_def)
  obtain it2 where it2: "ci_seek_part ops o1 (RandomForward k) it1 = Ok it2" "ci_parts over bss it2"
    "cursor (ci_iters it2 ! o1) (bss ! o1) (seek_target (bss ! o1) (RandomForward k))" using seek_part_ok[OF b(2) o1, of "RandomForward k"] k by auto
  have l2: "length (ci_iters it2) = length bss" using it2(2) by (simp add: ci_parts_def)
  note v = part_valid[OF it2(2) o1 it2(3)]
  show ?thesis
  proof (cases "below bss k o1")
    case False
    then have oi: "o1 = i" using i(2) by (cases i) (auto simp: o1_def split: if_splits)
    then have zero: "i = 0 \<or> found" by (cases i) (auto simp: o1_def split: if_splits)
    have lt: "lower (bss ! o1) k < length (bss ! o1)" using False lower_le[of "bss ! o1" k] by (simp add: below_def)
    have "ci_binary_seek ops k it = Ok (it2\<lparr>ci_offset := o1\<rparr>)" using inner it2(1) v lt o1 l1 by (simp add: ci_binary_seek_def)
    moreover have "ci_at cursor bss o1 (lower (bss ! o1) k) (it2\<lparr>ci_offset := o1\<rparr>)" using o1 lt it2(3) by (simp add: ci_at_def)
    then have "ci_pos cursor bss (Some (lower (concat bss) k)) (it2\<lparr>ci_offset := o1\<rparr>)" using low oi o1 by (intro ci_pos_at) auto
    moreover have "concat_target bss k = Some (lower (concat bss) k)" using first oi o1 zero found by (auto simp: concat_target_def Let_def)
    ultimately show ?thesis using it2(2) by auto
  next
    case True
    then have io: "i = Suc o1" using i(3) o1 by (cases i) (auto simp: o1_def split: if_splits)
    then have nf: "\<not> found" by (auto simp: o1_def)
    have nv: "\<not> lower (bss ! o1) k < length (bss ! o1)" using True by (simp add: below_def)
    show ?thesis
    proof (cases "i < length bss")
      case in_range: True
      have "seek_target (bss ! i) First = Some 0" using segmentsD(3)[OF s in_range] by simp
      from seek_part_at[OF _ in_range _ this, of "it2\<lparr>ci_offset := i\<rparr>"] it2(2) obtain it3 where
        it3: "ci_seek_part ops i First (it2\<lparr>ci_offset := i\<rparr>) = Ok it3" "ci_parts over bss it3" "ci_at cursor bss i 0 it3" by auto
      have "ci_binary_seek ops k it = Ok it3" using inner it2(1) v nv o1 l1 l2 io in_range it3(1) by (simp add: ci_binary_seek_def Let_def)
      moreover have "concat_target bss k = Some (base bss i)" using first io in_range nf found by (auto simp: concat_target_def Let_def)
      ultimately show ?thesis using it3(2) ci_pos_at[OF it3(3)] by auto
    next
      case False
      then have "concat_target bss k = None" using first i(1) by (simp add: concat_target_def Let_def)
      moreover have "ci_binary_seek ops k it = Ok (ci_invalid (it2\<lparr>ci_offset := i\<rparr>))"
        using inner it2(1) v nv o1 l1 l2 io False by (simp add: ci_binary_seek_def Let_def)
      ultimately show ?thesis using it2(2) l2 by (auto simp: ci_pos_def ci_invalid_def)
    qed
  qed
qed

lemma concat_seek_ends:
  assumes t: "ci_parts over bss it"
  shows "\<exists>it'. ci_seek ops First it = Ok (True, it') \<and> ci_parts over bss it' \<and> ci_pos cursor bss (Some 0) it'"
    and "\<exists>it'. ci_seek_last ops it = Ok (True, it') \<and> ci_parts over bss it' \<and> ci_pos cursor bss (Some (length (concat bss) - 1)) it'"
proof -
  have s: "segments bss" and l: "length (ci_iters it) = length bss" using t by (auto simp: ci_parts_def)
  let ?b = "length bss - 1"
  have b: "0 < length bss" "?b < length bss" using segmentsD(2)[OF s] by auto
  have tgt: "seek_target (bss ! 0) First = Some 0" "seek_target (bss ! ?b) Last = Some (length (bss ! ?b) - 1)"
    using segmentsD(3)[OF s b(1)] segmentsD(3)[OF s b(2)] by simp_all
  obtain it1 where "ci_seek_part ops 0 First (it\<lparr>ci_offset := 0\<rparr>) = Ok it1" "ci_parts over bss it1" "ci_at cursor bss 0 0 it1"
    using seek_part_at[OF _ b(1) _ tgt(1), of "it\<lparr>ci_offset := 0\<rparr>"] t by auto
  then show "\<exists>it'. ci_seek ops First it = Ok (True, it') \<and> ci_parts over bss it' \<and> ci_pos cursor bss (Some 0) it'"
    using ci_pos_at[of cursor bss 0 0 it1] concat_pos_valid[of bss it1 "Some 0"] by auto
  obtain it2 where it2: "ci_seek_part ops ?b Last (it\<lparr>ci_offset := ?b\<rparr>) = Ok it2" "ci_parts over bss it2" "ci_at cursor bss ?b (length (bss ! ?b) - 1) it2"
    using seek_part_at[OF _ b(2) _ tgt(2), of "it\<lparr>ci_offset := ?b\<rparr>"] t by auto
  have "last bss = bss ! ?b" using segmentsD(2)[OF s] by (simp add: last_conv_nth)
  then have pos: "ci_pos cursor bss (Some (length (concat bss) - 1)) it2" using ci_pos_at[OF it2(3)] base_last[OF s] by simp
  then show "\<exists>it'. ci_seek_last ops it = Ok (True, it') \<and> ci_parts over bss it' \<and> ci_pos cursor bss (Some (length (concat bss) - 1)) it'"
    using it2(1,2) concat_pos_valid[OF it2(2) pos] l b(1) by (auto simp: ci_seek_last_def sub_u64_def Suc_leI)
qed

end

text \<open>The cursor laws, for every kind of parts.\<close>

sublocale kv_iterator \<subseteq> chain: kv_cursor "concat_iterator_ops ops" "ci_cursor over cursor" "ci_over over"
proof
  fix it es p i
  show "ci_over over it es \<Longrightarrow> key_sorted es \<and> es \<noteq> []"
    unfolding ci_over_def ci_parts_def using segmentsD(1,4) by metis
  show "ci_cursor over cursor it es p \<Longrightarrow> ci_over over it es" by (auto simp: ci_cursor_def ci_over_def)
  show "ci_cursor over cursor it es (Some i) \<Longrightarrow> i < length es" using base_bound by (auto simp: ci_cursor_def ci_pos_def ci_at_def)
  show "ci_cursor over cursor it es p \<Longrightarrow> it_is_valid (concat_iterator_ops ops) it = Ok (p \<noteq> None)"
    using concat_pos_valid by (auto simp: ci_cursor_def concat_iterator_ops_def)
  assume c: "ci_cursor over cursor it es (Some i)"
  then obtain bss b k where t: "ci_parts over bss it" "es = concat bss" "i = base bss b + k" and at: "ci_at cursor bss b k it"
    by (auto simp: ci_cursor_def ci_pos_def)
  have v: "ci_is_valid it" using concat_pos_valid[OF t(1) ci_pos_at[OF at refl]] by simp
  have a: "b < length bss" "k < length (bss ! b)" "ci_offset it = b" "cursor (ci_iters it ! b) (bss ! b) (Some k)" "b < length (ci_iters it)"
    using at t(1) by (auto simp: ci_at_def ci_parts_def)
  show "it_key (concat_iterator_ops ops) it = Ok (key_at es i)"
    using v a cursor_key[OF a(4)] concat_nth_base[OF a(1,2)] t(2,3) by (simp add: concat_iterator_ops_def ci_key_def index_def)
  show "it_value (concat_iterator_ops ops) it = Ok (value_at es i)"
    using v a cursor_value[OF a(4)] concat_nth_base[OF a(1,2)] t(2,3) by (simp add: concat_iterator_ops_def ci_value_def index_def)
  show "\<exists>it'. it_next (concat_iterator_ops ops) it = Ok it' \<and> ci_cursor over cursor it' es (if Suc i < length es then Some (Suc i) else None)"
    using concat_next_inner[OF t(1) at] v t(2,3) by (auto simp: concat_iterator_ops_def ci_next_def ci_cursor_def)
  show "\<exists>it'. it_prev (concat_iterator_ops ops) it = Ok it' \<and> ci_cursor over cursor it' es (if i = 0 then None else Some (i - 1))"
    using concat_prev_inner[OF t(1) at] v t(2,3) by (auto simp: concat_iterator_ops_def ci_prev_def ci_cursor_def)
qed

context kv_cursor
begin

lemma scan_from:
  assumes "cursor it es p" "length es < fuel"
  shows "it_scan ops fuel it = Ok (case p of None \<Rightarrow> [] | Some i \<Rightarrow> drop i es)"
proof -
  have main: "it_scan ops n it = Ok (case p of None \<Rightarrow> [] | Some i \<Rightarrow> drop i es)"
    if "cursor it es p" "(case p of None \<Rightarrow> 0 | Some i \<Rightarrow> length es - i) < n" for n it p
    using that
  proof (induction n arbitrary: it p)
    case (Suc n)
    show ?case
    proof (cases p)
      case None
      then show ?thesis using cursor_valid[OF Suc.prems(1)] by simp
    next
      case (Some i)
      then have at: "cursor it es (Some i)" using Suc.prems(1) by simp
      have i: "i < length es" by (rule cursor_bound[OF at])
      obtain it' where it': "it_next ops it = Ok it'" "cursor it' es (if Suc i < length es then Some (Suc i) else None)"
        using cursor_next[OF at] by blast
      have "it_scan ops n it' = Ok (drop (Suc i) es)" using Suc.IH[OF it'(2)] Suc.prems(2) Some i by (cases "Suc i < length es") auto
      then show ?thesis using Some it'(1) cursor_valid[OF at] cursor_key[OF at] cursor_value[OF at] Cons_nth_drop_Suc[OF i] by simp
    qed
  qed simp
  show ?thesis by (rule main[OF assms(1)]) (use assms(2) in \<open>cases p; simp\<close>)
qed

end

section \<open>Seeking\<close>

text \<open>The key lies strictly inside a part that is not the first.\<close>

definition inside_later_part :: "kvs list \<Rightarrow> bytes \<Rightarrow> bool" where
  "inside_later_part bss k \<longleftrightarrow> k \<notin> fst ` set (concat bss) \<and>
     (\<exists>b. 0 < b \<and> b < length bss \<and> (\<forall>c < b. below bss k c) \<and> \<not> below bss k b \<and> 0 < lower (bss ! b) k)"

lemma first_part:
  obtains b where "b \<le> length bss" "\<forall>c < b. below bss k c" "b < length bss \<Longrightarrow> \<not> below bss k b"
proof -
  let ?b = "length (takeWhile (\<lambda>bs. lower bs k = length bs) bss)"
  have "below bss k c" if "c < ?b" for c using that set_takeWhileD[of _ "\<lambda>bs. lower bs k = length bs" bss] nth_mem[OF that]
    by (simp add: below_def takeWhile_nth)
  moreover have "\<not> below bss k ?b" if "?b < length bss" using nth_length_takeWhile[OF that] by (simp add: below_def)
  ultimately show ?thesis using that length_takeWhile_le by blast
qed

lemma concat_target_exact:
  assumes s: "segments bss"
  shows "concat_target bss k = seek_target (concat bss) (RandomForward k) \<longleftrightarrow> \<not> inside_later_part bss k"
proof -
  obtain b where b: "b \<le> length bss" "\<forall>c < b. below bss k c" "b < length bss \<Longrightarrow> \<not> below bss k b" using first_part by blast
  note low = lower_concat[OF s b] and first = first_not_below[OF b]
  have only: "c = b" if "c < length bss" "\<forall>d < c. below bss k d" "\<not> below bss k c" for c
    using that b by (meson linorder_neqE_nat order_less_trans)
  show ?thesis
  proof (cases "b < length bss")
    case True
    then have l: "lower (bss ! b) k < length (bss ! b)" using b(3) lower_le[of "bss ! b" k] by (simp add: below_def)
    have lt: "lower (concat bss) k < length (concat bss)" using low base_bound[OF True l] True by simp
    have "inside_later_part bss k \<longleftrightarrow> k \<notin> fst ` set (concat bss) \<and> 0 < b \<and> 0 < lower (bss ! b) k"
      unfolding inside_later_part_def using only True b by blast
    moreover have "seek_target (concat bss) (RandomForward k) = Some (base bss b + lower (bss ! b) k)" using lt low True by simp
    ultimately show ?thesis using first low True unfolding concat_target_def Let_def by auto
  next
    case False
    then have "b = length bss" using b(1) by simp
    then have "\<not> inside_later_part bss k" unfolding inside_later_part_def using b(2) by blast
    moreover have "seek_target (concat bss) (RandomForward k) = None" using low False \<open>b = length bss\<close> by simp
    ultimately show ?thesis using first \<open>b = length bss\<close> by (simp add: concat_target_def Let_def)
  qed
qed

context kv_iterator
begin

lemma concat_forward:
  assumes t: "ci_parts over bss it" and k: "8 \<le> length k"
  shows "\<exists>it'. it_seek (concat_iterator_ops ops) (RandomForward k) it = Ok (k \<in> fst ` set (concat bss), it') \<and>
    ci_cursor over cursor it' (concat bss) (concat_target bss k)"
proof -
  have s: "segments bss" using t by (simp add: ci_parts_def)
  obtain it' where it': "ci_binary_seek ops k it = Ok it'" "ci_cursor over cursor it' (concat bss) (concat_target bss k)"
    using concat_binary_seek[OF t k] by (auto simp: ci_cursor_def)
  have ops: "it_is_valid (concat_iterator_ops ops) = (\<lambda>it. Ok (ci_is_valid it))" "it_key (concat_iterator_ops ops) = ci_key ops"
    "it_seek (concat_iterator_ops ops) = ci_seek ops" by (simp_all add: concat_iterator_ops_def)
  have "(\<exists>i. concat_target bss k = Some i \<and> key_at (concat bss) i = k) \<longleftrightarrow> k \<in> fst ` set (concat bss)"
  proof
    assume "\<exists>i. concat_target bss k = Some i \<and> key_at (concat bss) i = k"
    then obtain i where "i < length (concat bss)" "key_at (concat bss) i = k" using chain.cursor_bound it'(2) by metis
    then show "k \<in> fst ` set (concat bss)" by (metis image_eqI nth_mem)
  next
    assume f: "k \<in> fst ` set (concat bss)"
    then have "\<not> inside_later_part bss k" by (simp add: inside_later_part_def)
    then have "concat_target bss k = seek_target (concat bss) (RandomForward k)" using concat_target_exact[OF s] by blast
    moreover have "lower (concat bss) k < length (concat bss) \<and> key_at (concat bss) (lower (concat bss) k) = k"
      using found_forward[OF segmentsD(1)[OF s], of k] f by (simp only: seek_found.simps)
    ultimately show "\<exists>i. concat_target bss k = Some i \<and> key_at (concat bss) i = k" by simp
  qed
  then have "found_at (\<lambda>it. Ok (ci_is_valid it)) (ci_key ops) k it' = Ok (k \<in> fst ` set (concat bss), it')"
    using chain.cursor_found[OF it'(2), of k] unfolding ops by simp
  then show ?thesis using it' unfolding ops by simp
qed

end

section \<open>Properties\<close>

text \<open>C37. A scan of concatenated block iterators ends: from the first entry on it takes as many steps as there
  are entries in all parts together, and returns exactly them, in order.\<close>

theorem concat_scan_ends:
  assumes "ci_over bi_over it es"
  shows "\<exists>it'. it_seek (concat_iterator_ops block_iterator_ops) First it = Ok (True, it') \<and>
    (\<forall>fuel > length es. it_scan (concat_iterator_ops block_iterator_ops) fuel it' = Ok es)"
proof -
  obtain bss where t: "ci_parts bi_over bss it" "es = concat bss" using assms by (auto simp: ci_over_def)
  from block_iter.concat_seek_ends(1)[OF t(1)] obtain it' where it': "ci_seek block_iterator_ops First it = Ok (True, it')"
    "ci_cursor bi_over bi_cursor it' es (Some 0)" using t(2) by (auto simp: ci_cursor_def)
  have "it_scan (concat_iterator_ops block_iterator_ops) fuel it' = Ok es" if "length es < fuel" for fuel
    using block_iter.chain.scan_from[OF it'(2) that] by simp
  then show ?thesis using it'(1) by (auto simp: concat_iterator_ops_def)
qed

text \<open>C36. A forward seek in concatenated block iterators finds a key that is there, and says so; it stops at
  the first entry from the key on unless the key lies strictly inside a part that is not the first.
  Then it stops at the first entry of that part, which is before the key.\<close>

theorem concat_forward_seek:
  assumes "ci_parts bi_over bss it" "8 \<le> length k"
  shows "\<exists>it'. it_seek (concat_iterator_ops block_iterator_ops) (RandomForward k) it = Ok (k \<in> fst ` set (concat bss), it') \<and>
    ci_cursor bi_over bi_cursor it' (concat bss) (concat_target bss k) \<and>
    (concat_target bss k = seek_target (concat bss) (RandomForward k) \<longleftrightarrow> \<not> inside_later_part bss k) \<and>
    (inside_later_part bss k \<longrightarrow> (\<exists>first. it_key (concat_iterator_ops block_iterator_ops) it' = Ok first \<and> key_ord first < key_ord k))"
proof -
  have s: "segments bss" using assms(1) by (simp add: ci_parts_def)
  obtain it' where it': "it_seek (concat_iterator_ops block_iterator_ops) (RandomForward k) it = Ok (k \<in> fst ` set (concat bss), it')"
    "ci_cursor bi_over bi_cursor it' (concat bss) (concat_target bss k)" using block_iter.concat_forward[OF assms] by blast
  have "\<exists>first. it_key (concat_iterator_ops block_iterator_ops) it' = Ok first \<and> key_ord first < key_ord k" if "inside_later_part bss k"
  proof -
    obtain b where b: "0 < b" "b < length bss" "\<forall>c < b. below bss k c" "\<not> below bss k b" "0 < lower (bss ! b) k" and k: "k \<notin> fst ` set (concat bss)"
      using \<open>inside_later_part bss k\<close> by (auto simp: inside_later_part_def)
    have "length (takeWhile (\<lambda>bs. lower bs k = length bs) bss) = b" using first_not_below[of b bss k] b by simp
    then have tgt: "concat_target bss k = Some (base bss b)" using b(1,2) k unfolding concat_target_def Let_def by auto
    have l: "0 < length (bss ! b)" by (rule less_le_trans[OF b(5) lower_le])
    have "it_key (concat_iterator_ops block_iterator_ops) it' = Ok (key_at (concat bss) (base bss b))"
      using block_iter.chain.cursor_key it'(2) unfolding tgt by blast
    moreover have "key_at (concat bss) (base bss b) = key_at (bss ! b) 0" using concat_nth_base[OF b(2) l] by simp
    moreover have "key_ord (key_at (bss ! b) 0) < key_ord k" using lower_iff[OF segmentsD(5)[OF s b(2)] l, of k] b(5) by simp
    ultimately show ?thesis by simp
  qed
  then show ?thesis using it' concat_target_exact[OF s, of k] by blast
qed

section \<open>Examples\<close>

definition example_parts :: "kvs list" where
  "example_parts = [[(full_key [106] 1, [])], example_entries]"

definition example_concat :: "block_iterator concat_iterator" where
  "example_concat = ci_new (map (\<lambda>es. bi_new (block_image 2 es)) example_parts)"

lemma example_parts_over: "ci_parts bi_over example_parts example_concat"
proof -
  let ?e = "[(full_key [106] 1, [])]"
  have "length (entry_bytes 2 ?e 0) < 100"
    using var_u32_len_bounds[of 0] var_u32_len_bounds[of 9]
    by (simp add: entry_bytes_def prefix_at_def overlap_at_def full_key_def length_prefix_encode prefix_len_def)
  then have "length (layout 2 ?e) < 100" by (simp add: layout_def)
  then have "block_ok 2 ?e" by (simp add: block_ok_def key_sorted_def full_key_def)
  moreover have "block_ok 2 example_entries"
    using example_layout example_entries_sorted by (simp add: block_ok_def) (simp add: example_entries_def full_key_def)
  ultimately have "bi_over (bi_new (block_image 2 es)) es" if "es \<in> set example_parts" for es
    using that by (auto simp: example_parts_def bi_over_def bi_new_def)
  moreover have "segments example_parts"
    by (simp add: segments_def example_parts_def key_sorted_def example_entries_def key_ord_full_key_less)
  ultimately show ?thesis by (simp add: ci_parts_def example_concat_def ci_new_def) (simp add: example_parts_def example_entries_def)
qed

theorem concat_scan_ends_witness:
  "\<exists>it'. it_seek (concat_iterator_ops block_iterator_ops) First example_concat = Ok (True, it') \<and>
    it_scan (concat_iterator_ops block_iterator_ops) 5 it' = Ok (concat example_parts)"
proof -
  have "ci_over bi_over example_concat (concat example_parts)" using example_parts_over by (auto simp: ci_over_def)
  from concat_scan_ends[OF this] show ?thesis by (auto simp: example_parts_def example_entries_def)
qed

theorem concat_forward_seek_witness:
  "inside_later_part example_parts (full_key [107, 49] 5) \<and>
   (\<exists>it' first. it_seek (concat_iterator_ops block_iterator_ops) (RandomForward (full_key [107, 49] 5)) example_concat = Ok (False, it') \<and>
      it_key (concat_iterator_ops block_iterator_ops) it' = Ok first \<and> key_ord first < key_ord (full_key [107, 49] 5))"
proof -
  let ?k = "full_key [107, 49] 5"
  have e: "lower example_entries ?k = 1" "?k \<notin> fst ` set (concat example_parts)" "lower [(full_key [106] 1, [])] ?k = 1"
    by (simp_all add: lower_def example_entries_def example_parts_def key_ord_full_key_less)
  have i: "inside_later_part example_parts ?k"
    unfolding inside_later_part_def using e by (intro conjI exI[of _ 1]) (auto simp: below_def example_parts_def example_entries_def)
  have "8 \<le> length ?k" by (simp add: full_key_def)
  from concat_forward_seek[OF example_parts_over this] i e(2) show ?thesis by auto
qed

end
