(* ===== verification/RaftManager.thy ===== *)
theory RaftManager
  imports RaftWorker Uploader
begin

text \<open>
  \<open>wheel/src/components/raft_manager.rs\<close>, the administrative handlers of \<open>wheel/src/service.rs\<close> and
  \<open>common/src/time.rs\<close>: how a node gets its shards, with a raft worker, a table uploader and a sequence for
  each raft node of a shard.

  The manager shares the raft log store, the network, the notify pool and the version manager with the
  workers it starts; here they are fields of the manager. The channel pool is the one of the network. A
  handle of a started worker is the worker as it was built, with the shared parts as they were then. The
  world a worker sends to, the rudders an uploader calls and the time are arguments.
\<close>

section \<open>Time\<close>

text \<open>Milliseconds since the Unix epoch, and since the epoch of RunKV; a clock that is before it panics.\<close>

definition runkv_unix_date_epoch :: nat where
  "runkv_unix_date_epoch = 1615248000 * 1000"

definition timestamp :: "nat \<Rightarrow> u64" where
  "timestamp now = of_nat now"

definition rtimestamp :: "nat \<Rightarrow> u64 res" where
  "rtimestamp now = (if now < runkv_unix_date_epoch then Panic else Ok (of_nat (now - runkv_unix_date_epoch)))"

section \<open>The manager\<close>

record lsm_tree_options =
  lo_write_buffer_capacity :: nat
  lo_sstable :: sstable_builder_options

record ('r, 'b, 'os, 'ep, 'ch, 'w) raft_manager =
  mg_node :: nat
  mg_rudder_node_id :: nat
  mg_raft_log_store :: raft_log_store
  mg_raft_network :: "('b, 'ep, 'ch) raft_network"
  mg_txn_notify_pool :: "(u64, txn_response res) notify_pool"
  mg_version_manager :: "'os version_manager"
  mg_lsm_tree_options :: lsm_tree_options
  mg_proposal_txs :: "nat \<rightharpoonup> proposal list"
  mg_raft_worker_handles :: "nat \<rightharpoonup> ('r, 'b, 'os, 'ep, 'ch, 'w) raft_worker"
  mg_sstable_uploader_handles :: "nat \<rightharpoonup> ('os, 'ep, 'ch) uploader"
  mg_sequences :: "nat \<rightharpoonup> u64"

definition raft_manager_new ::
  "nat \<Rightarrow> nat \<Rightarrow> raft_log_store \<Rightarrow> ('b, 'ep, 'ch) raft_network \<Rightarrow> (u64, txn_response res) notify_pool \<Rightarrow> 'os version_manager \<Rightarrow>
     lsm_tree_options \<Rightarrow> ('r, 'b, 'os, 'ep, 'ch, 'w) raft_manager" where
  "raft_manager_new node rudder_node_id lg rn np vm options =
     \<lparr>mg_node = node, mg_rudder_node_id = rudder_node_id, mg_raft_log_store = lg, mg_raft_network = rn, mg_txn_notify_pool = np,
      mg_version_manager = vm, mg_lsm_tree_options = options, mg_proposal_txs = Map.empty, mg_raft_worker_handles = Map.empty,
      mg_sstable_uploader_handles = Map.empty, mg_sequences = Map.empty\<rparr>"

definition mg_register :: "nat \<Rightarrow> (nat \<times> nat) list \<Rightarrow> (('r, 'b, 'os, 'ep, 'ch, 'w) raft_manager, unit) call" where
  "mg_register gid raft_nodes m =
     (let (r, rn) = rn_register gid raft_nodes (mg_raft_network m) in (r, m\<lparr>mg_raft_network := rn\<rparr>))"

definition mg_add_group :: "nat \<Rightarrow> (('r, 'b, 'os, 'ep, 'ch, 'w) raft_manager, unit) call" where
  "mg_add_group raft_node m =
     (let (r, lg) = store_add_group raft_node (mg_raft_log_store m) in (r, m\<lparr>mg_raft_log_store := lg\<rparr>))"

definition mg_fsm :: "nat \<Rightarrow> 'os lsm_tree \<Rightarrow> ('r, 'b, 'os, 'ep, 'ch, 'w) raft_manager \<Rightarrow> 'os fsm" where
  "mg_fsm raft_node tree m = \<lparr>fs_raft_node = raft_node, fs_log = mg_raft_log_store m, fs_tree = tree, fs_pool = mg_txn_notify_pool m\<rparr>"

definition mg_build_worker ::
  "('r, 'b, 'hs, 'sn, 'os, 'ep, 'ch, 'w) worker_env \<Rightarrow> 'w \<Rightarrow> nat \<Rightarrow> nat \<Rightarrow> 'os lsm_tree \<Rightarrow> nat list \<Rightarrow>
     (('r, 'b, 'os, 'ep, 'ch, 'w) raft_manager, ('r, 'b, 'os, 'ep, 'ch, 'w) raft_worker) call" where
  "mg_build_worker env w gid raft_node tree peers m =
     (let (r, rn, fs) = worker_build env gid (mg_node m) raft_node (Initialize peers) w (mg_raft_network m, mg_fsm raft_node tree m)
      in (r, m\<lparr>mg_raft_network := rn, mg_raft_log_store := fs_log fs\<rparr>))"

definition mg_uploader ::
  "(nat \<rightharpoonup> ('os, 'ep, 'ch) rudder) \<Rightarrow> nat \<Rightarrow> 'os lsm_tree \<Rightarrow> ('r, 'b, 'os, 'ep, 'ch, 'w) raft_manager \<Rightarrow> ('os, 'ep, 'ch) uploader" where
  "mg_uploader rudders raft_node tree m =
     uploader_new (of_nat raft_node) (lo_sstable (mg_lsm_tree_options m)) tree (rn_channel_pool (mg_raft_network m))
       (mg_rudder_node_id m) rudders"

text \<open>The condition of the last \<open>if\<close>: the first insertion that finds an entry ends it, after the insertion.\<close>

definition already_exists :: error where
  "already_exists = Other ''already exists''"

definition mg_insert ::
  "nat \<Rightarrow> nat \<Rightarrow> ('r, 'b, 'os, 'ep, 'ch, 'w) raft_worker \<Rightarrow> ('os, 'ep, 'ch) uploader \<Rightarrow>
     (('r, 'b, 'os, 'ep, 'ch, 'w) raft_manager, unit) call" where
  "mg_insert now raft_node worker up m =
     (let m1 = m\<lparr>mg_proposal_txs := (mg_proposal_txs m)(raft_node \<mapsto> [])\<rparr>;
          m2 = m1\<lparr>mg_raft_worker_handles := (mg_raft_worker_handles m)(raft_node \<mapsto> worker)\<rparr>;
          m3 = m2\<lparr>mg_sstable_uploader_handles := (mg_sstable_uploader_handles m)(raft_node \<mapsto> up)\<rparr>
      in if mg_proposal_txs m raft_node \<noteq> None then (Err already_exists, m1)
         else if mg_raft_worker_handles m raft_node \<noteq> None then (Err already_exists, m2)
         else if mg_sstable_uploader_handles m raft_node \<noteq> None then (Err already_exists, m3)
         else
           cbind (cres (rtimestamp now)) (\<lambda>s m.
             (if mg_sequences m raft_node \<noteq> None then Err already_exists else Ok (),
              m\<lparr>mg_sequences := (mg_sequences m)(raft_node \<mapsto> s)\<rparr>)) m3)"

definition create_raft_node ::
  "('r, 'b, 'hs, 'sn, 'os, 'ep, 'ch, 'w) worker_env \<Rightarrow> 'w \<Rightarrow> (nat \<rightharpoonup> ('os, 'ep, 'ch) rudder) \<Rightarrow> nat \<Rightarrow> nat \<Rightarrow> nat \<Rightarrow>
     (('r, 'b, 'os, 'ep, 'ch, 'w) raft_manager, unit) call" where
  "create_raft_node env w rudders now gid raft_node =
     cbind (cget (\<lambda>m. lsm_new (fe_layout (we_fsm env)) (lo_write_buffer_capacity (mg_lsm_tree_options m)) (mg_version_manager m))) (\<lambda>tree.
     cbind (mg_add_group raft_node) (\<lambda>_.
     cbind (cget (\<lambda>m. rn_raft_nodes_of gid (mg_raft_network m))) (\<lambda>peers.
     cbind (mg_build_worker env w gid raft_node tree peers) (\<lambda>worker.
     cbind (cget (\<lambda>m. Ok (mg_uploader rudders raft_node tree m))) (\<lambda>up.
       mg_insert now raft_node worker up)))))"

definition get_proposal_channel :: "nat \<Rightarrow> ('r, 'b, 'os, 'ep, 'ch, 'w) raft_manager \<Rightarrow> proposal list res" where
  "get_proposal_channel raft_node m = ok_or (RaftNodeNotExists raft_node (mg_node m)) (mg_proposal_txs m raft_node)"

section \<open>The service of a node\<close>

text \<open>\<open>wn_stopped\<close> holds the raft nodes whose worker has ended. The request path runs on the part of the node that
  \<open>wheel_of\<close> selects.\<close>

record ('r, 'b, 'os, 'ep, 'ch, 'w) wheel_node =
  wn_node :: nat
  wn_meta_store :: wheel_meta_store
  wn_manager :: "('r, 'b, 'os, 'ep, 'ch, 'w) raft_manager"
  wn_request_id :: u64
  wn_stopped :: "nat set"

definition wheel_new :: "nat \<Rightarrow> ('r, 'b, 'os, 'ep, 'ch, 'w) raft_manager \<Rightarrow> ('r, 'b, 'os, 'ep, 'ch, 'w) wheel_node" where
  "wheel_new node m = \<lparr>wn_node = node, wn_meta_store = [], wn_manager = m, wn_request_id = 0, wn_stopped = {}\<rparr>"

definition wheel_of :: "('r, 'b, 'os, 'ep, 'ch, 'w) wheel_node \<Rightarrow> wheel" where
  "wheel_of wn =
     \<lparr>wh_meta_store = wn_meta_store wn, wh_sequences = mg_sequences (wn_manager wn), wh_request_id = wn_request_id wn,
      wh_notify_pool = mg_txn_notify_pool (wn_manager wn), wh_proposals = mg_proposal_txs (wn_manager wn), wh_stopped = wn_stopped wn\<rparr>"

definition with_wheel :: "wheel \<Rightarrow> ('r, 'b, 'os, 'ep, 'ch, 'w) wheel_node \<Rightarrow> ('r, 'b, 'os, 'ep, 'ch, 'w) wheel_node" where
  "with_wheel wh wn =
     wn\<lparr>wn_meta_store := wh_meta_store wh, wn_request_id := wh_request_id wh, wn_stopped := wh_stopped wh,
        wn_manager := (wn_manager wn)\<lparr>mg_sequences := wh_sequences wh, mg_txn_notify_pool := wh_notify_pool wh,
                                      mg_proposal_txs := wh_proposals wh\<rparr>\<rparr>"

definition on_raft_manager ::
  "(('r, 'b, 'os, 'ep, 'ch, 'w) raft_manager, 'a) call \<Rightarrow> (('r, 'b, 'os, 'ep, 'ch, 'w) wheel_node, 'a) call" where
  "on_raft_manager c wn = (let (r, m) = c (wn_manager wn) in (r, wn\<lparr>wn_manager := m\<rparr>))"

definition on_raft_network ::
  "(('b, 'ep, 'ch) raft_network, 'a) call \<Rightarrow> (('r, 'b, 'os, 'ep, 'ch, 'w) wheel_node, 'a) call" where
  "on_raft_network c = on_raft_manager (\<lambda>m. let (r, rn) = c (mg_raft_network m) in (r, m\<lparr>mg_raft_network := rn\<rparr>))"

text \<open>The port of an endpoint is a 32-bit field of the message and is cut to 16 bits.\<close>

definition endpoint_node :: "nat \<times> string \<times> u32 \<Rightarrow> net_node" where
  "endpoint_node e = (case e of (node, host, port) \<Rightarrow> \<lparr>nn_id = node, nn_host = host, nn_port = unat (ucast port :: 16 word)\<rparr>)"

definition wheel_add_endpoints ::
  "(net_node \<Rightarrow> 'ep) \<Rightarrow> (nat \<times> string \<times> u32) list \<Rightarrow> (('r, 'b, 'os, 'ep, 'ch, 'w) wheel_node, unit) call" where
  "wheel_add_endpoints endpoint eps =
     on_raft_network (\<lambda>rn. (Ok (), rn\<lparr>rn_channel_pool := fold (cp_put_node endpoint) (map endpoint_node eps) (rn_channel_pool rn)\<rparr>))"

text \<open>The entries of \<open>ak_nodes\<close> come from a map with one entry for each raft node, and are sorted by it.\<close>

record add_key_range_request =
  ak_key_range :: "key_range option"
  ak_group :: nat
  ak_raft_nodes :: "nat list"
  ak_nodes :: "(nat \<times> nat) list"

definition meta_add_key_range :: "key_range \<Rightarrow> nat \<Rightarrow> nat list \<Rightarrow> (('r, 'b, 'os, 'ep, 'ch, 'w) wheel_node, unit) call" where
  "meta_add_key_range r gid raft_nodes wn =
     (case add_key_range r gid raft_nodes (wn_meta_store wn) of
        Ok ms \<Rightarrow> (Ok (), wn\<lparr>wn_meta_store := ms\<rparr>)
      | Err e \<Rightarrow> (Err e, wn)
      | Panic \<Rightarrow> (Panic, wn)
      | OutOfFuel \<Rightarrow> (OutOfFuel, wn))"

definition wheel_add_key_range ::
  "('r, 'b, 'hs, 'sn, 'os, 'ep, 'ch, 'w) worker_env \<Rightarrow> 'w \<Rightarrow> (nat \<rightharpoonup> ('os, 'ep, 'ch) rudder) \<Rightarrow> nat \<Rightarrow> add_key_range_request \<Rightarrow>
     (('r, 'b, 'os, 'ep, 'ch, 'w) wheel_node, unit) call" where
  "wheel_add_key_range env w rudders now req =
     cbind (cres (unwrap (ak_key_range req))) (\<lambda>r.
     cbind (meta_add_key_range r (ak_group req) (ak_raft_nodes req)) (\<lambda>_.
     cbind (on_raft_network (rn_register (ak_group req) (sort_key fst (ak_nodes req)))) (\<lambda>_.
       cfold (\<lambda>raft_node. on_raft_manager (create_raft_node env w rudders now (ak_group req) raft_node)) (ak_raft_nodes req))))"

definition wheel_raft ::
  "(bytes \<Rightarrow> 'b raft_message list option) \<Rightarrow> bytes \<Rightarrow> (('r, 'b, 'os, 'ep, 'ch, 'w) wheel_node, unit) call" where
  "wheel_raft deserialize data = on_raft_network (raft_service deserialize data)"

section \<open>Started raft nodes keep their entries\<close>

text \<open>The receiver of a raft node has been taken from the network.\<close>

definition rx_taken :: "('b, 'ep, 'ch) raft_network \<Rightarrow> nat \<Rightarrow> bool" where
  "rx_taken rn n \<longleftrightarrow> (case rn_message_channels rn n of None \<Rightarrow> False | Some ch \<Rightarrow> \<not> mc_rx ch)"

lemma rn_recv_taken: "rx_taken (snd (rn_recv msgs rn)) n = rx_taken rn n"
  unfolding rn_recv_def
proof (induction msgs arbitrary: rn)
  case (Cons msg msgs)
  have one: "rx_taken (snd (rn_recv_one msg rn)) n = rx_taken rn n"
    by (auto simp: rn_recv_one_def rx_taken_def split: option.splits)
  show ?case
  proof (cases "rn_recv_one msg rn")
    case (Pair r rn')
    then show ?thesis using one Cons.IH[of rn'] by (cases r) (simp_all add: cbind_def)
  qed
qed simp

lemma rn_step_taken:
  assumes "rn_step rn rn'" "rn_ok rn" "rx_taken rn n"
  shows "rx_taken rn' n"
  using assms(1)
proof cases
  case (step_register ns gid)
  have "n \<in> dom (rn_raft_nodes rn)" using assms(2,3) by (auto simp: rn_ok_def rx_taken_def split: option.splits)
  then have out: "n \<notin> fst ` set xs" if "fresh_nodes xs rn" for xs using that by (auto simp: fresh_nodes_def list_all_iff)
  from step_register(2) show ?thesis
    by (cases rule: rn_register_cases[where rn = rn and gid = gid]) (use out step_register(1) assms(3) in \<open>auto simp: rx_taken_def map_add_def\<close>)
next
  case (step_client connect raft_node)
  then show ?thesis using rn_quiet_steps(1)[of connect raft_node rn] assms(3) by (auto simp: rx_taken_def)
next
  case (step_recv msgs)
  then show ?thesis using assms(3) by (simp add: rn_recv_taken)
qed (use assms(3) in \<open>auto simp: rx_taken_def take_message_rx_def rn_try_recv_def rn_drop_rx_def split: option.splits list.splits\<close>)

lemma rn_steps_taken:
  assumes "rn_step\<^sup>*\<^sup>* rn rn'" "rn_ok rn" "rx_taken rn n"
  shows "rx_taken rn' n"
proof -
  have "rn_ok rn' \<and> rx_taken rn' n" using assms(1)
    by (induction rule: rtranclp_induct) (use assms(2,3) rn_step_keeps(2) rn_step_taken in blast)+
  then show ?thesis by simp
qed

text \<open>The steps of a call either go on, or end it with the state they left.\<close>

lemma cbind_cases:
  assumes "cbind c f s = (r, s'')"
  obtains (cont) a s' where "c s = (Ok a, s')" "f a s' = (r, s'')"
  | (stop) r' where "c s = (r', s'')" "\<And>a. r' \<noteq> Ok a" "\<And>b. r \<noteq> Ok b"
proof (cases "c s" rule: prod.exhaust)
  case (Pair r' s')
  then show thesis using assms cont stop by (cases r') (auto simp: cbind_def)
qed

text \<open>The raft library reads the log it is built on and removes no group from it.\<close>

definition keeps_groups :: "(raft_log_store, 'a) call \<Rightarrow> bool" where
  "keeps_groups c \<longleftrightarrow> (\<forall>lg. dom (rs_states lg) \<subseteq> dom (rs_states (snd (c lg))))"

definition lib_reads_log :: "('r, 'b, 'hs, 'sn, 'os, 'ep, 'ch, 'w) worker_env \<Rightarrow> bool" where
  "lib_reads_log env \<longleftrightarrow> (\<forall>config. keeps_groups (rl_new (we_lib env) config))"

lemma put_conf_state_keeps: "keeps_groups (put_conf_state encode gid voters)"
proof -
  have mem: "dom states \<subseteq> dom states'" if "mem_put states gid key val = Ok states'" for states states' key val
    using that by (auto simp: mem_put_def with_state_mut_def with_state_def outcome_simps split: option.splits if_splits)
  have lift: "dom (rs_states lg) \<subseteq> dom (rs_states (snd (lift_states (\<lambda>states. mem_put states gid key val) lg)))" for lg key val
    using mem by (auto simp: lift_states_def split: result.splits)
  have "dom (rs_states lg) \<subseteq> dom (rs_states (snd (store_put gid key val lg)))" for lg key val
    unfolding store_put_def with_log_append_def using lift[of "lg\<lparr>rs_log := _\<rparr>"] by (auto split: result.splits prod.splits)
  then show ?thesis unfolding keeps_groups_def put_conf_state_def rg_put_state_def rg_put_def by (auto split: option.splits)
qed

definition build_steps :: "(('b, 'os, 'ep, 'ch) build_state, 'a) call \<Rightarrow> bool" where
  "build_steps c \<longleftrightarrow> (\<forall>s. rn_step\<^sup>*\<^sup>* (fst s) (fst (snd (c s))) \<and> dom (rs_states (fs_log (snd s))) \<subseteq> dom (rs_states (fs_log (snd (snd (c s))))))"

lemma build_stepsD:
  assumes "build_steps c" "c s = (r, s')"
  shows "rn_step\<^sup>*\<^sup>* (fst s) (fst s')" "dom (rs_states (fs_log (snd s))) \<subseteq> dom (rs_states (fs_log (snd s')))"
  using assms(1)[unfolded build_steps_def, rule_format, of s] assms(2) by simp_all

lemma build_stepsI:
  assumes "\<And>s r s'. c s = (r, s') \<Longrightarrow> rn_step\<^sup>*\<^sup>* (fst s) (fst s') \<and> dom (rs_states (fs_log (snd s))) \<subseteq> dom (rs_states (fs_log (snd s')))"
  shows "build_steps c"
  unfolding build_steps_def
proof
  fix s
  show "rn_step\<^sup>*\<^sup>* (fst s) (fst (snd (c s))) \<and> dom (rs_states (fs_log (snd s))) \<subseteq> dom (rs_states (fs_log (snd (snd (c s)))))"
    by (rule assms[of s "fst (c s)"]) simp
qed

lemma build_steps_cbind:
  assumes "build_steps c" "\<And>a. build_steps (f a)"
  shows "build_steps (cbind c f)"
proof (rule build_stepsI)
  fix s r s''
  assume "cbind c f s = (r, s'')"
  then show "rn_step\<^sup>*\<^sup>* (fst s) (fst s'') \<and> dom (rs_states (fs_log (snd s))) \<subseteq> dom (rs_states (fs_log (snd s'')))"
  proof (cases rule: cbind_cases)
    case (cont a s')
    show ?thesis using rtranclp_trans[OF build_stepsD(1)[OF assms(1) cont(1)] build_stepsD(1)[OF assms(2) cont(2)]]
        subset_trans[OF build_stepsD(2)[OF assms(1) cont(1)] build_stepsD(2)[OF assms(2) cont(2)]] by blast
  next
    case (stop r')
    then show ?thesis using build_stepsD[OF assms(1) stop(1)] by blast
  qed
qed

lemma build_steps_quiet [simp]: "build_steps (cok a)" "build_steps (cres r)" "build_steps (cget g)"
  by (auto simp: build_steps_def)

lemma build_log_effect:
  assumes "build_log c s = (r, s')"
  shows "fst s' = fst s" "keeps_groups c \<Longrightarrow> dom (rs_states (fs_log (snd s))) \<subseteq> dom (rs_states (fs_log (snd s')))"
proof -
  obtain lg where c: "c (fs_log (snd s)) = (r, lg)" and s': "s' = (fst s, (snd s)\<lparr>fs_log := lg\<rparr>)"
    using assms by (auto simp: build_log_def on_log_def split: prod.splits)
  show "fst s' = fst s" by (simp add: s')
  show "dom (rs_states (fs_log (snd s))) \<subseteq> dom (rs_states (fs_log (snd s')))" if "keeps_groups c"
    using that[unfolded keeps_groups_def, rule_format, of "fs_log (snd s)"] by (simp add: c s')
qed

lemma build_steps_log:
  assumes "keeps_groups c"
  shows "build_steps (build_log c)"
proof (rule build_stepsI)
  fix s r s'
  assume "build_log c s = (r, s')"
  from build_log_effect(1)[OF this] build_log_effect(2)[OF this assms]
  show "rn_step\<^sup>*\<^sup>* (fst s) (fst s') \<and> dom (rs_states (fs_log (snd s))) \<subseteq> dom (rs_states (fs_log (snd s')))" by simp
qed

lemma build_steps_net:
  assumes "\<And>rn. rn_step rn (snd (c rn))"
  shows "build_steps (build_net c)"
proof (rule build_stepsI)
  fix s r s'
  assume "build_net c s = (r, s')"
  then obtain rn where "c (fst s) = (r, rn)" "s' = (rn, snd s)" by (auto simp: build_net_def split: prod.splits)
  then show "rn_step\<^sup>*\<^sup>* (fst s) (fst s') \<and> dom (rs_states (fs_log (snd s))) \<subseteq> dom (rs_states (fs_log (snd s')))"
    using r_into_rtranclp[of rn_step, OF assms[of "fst s"]] by simp
qed

lemma build_steps_cmap: "(\<And>x. build_steps (f x)) \<Longrightarrow> build_steps (cmap f xs)"
proof (induction xs)
  case (Cons x xs)
  then show ?case by (simp, intro build_steps_cbind build_steps_quiet) simp_all
qed simp

lemma build_steps_clients:
  "build_steps (build_clients env raft_node peers :: (('b, 'os, 'ep, 'ch) build_state, nat \<rightharpoonup> 'ch) call)"
proof (rule build_stepsI)
  fix s r s'
  assume run: "build_clients env raft_node peers s = (r, s')"
  let ?c = "cmap (\<lambda>peer. build_net (rn_client (we_connect env) peer)) peers :: (('b, 'os, 'ep, 'ch) build_state, 'ch list) call"
  have c: "build_steps ?c" by (intro build_steps_cmap build_steps_net step_client)
  obtain r1 s1 where one: "?c s = (r1, s1)" by (cases "?c s" rule: prod.exhaust)
  from run show "rn_step\<^sup>*\<^sup>* (fst s) (fst s') \<and> dom (rs_states (fs_log (snd s))) \<subseteq> dom (rs_states (fs_log (snd s')))"
    using build_stepsD[OF c one] one rtranclp.rtrancl_into_rtrancl[OF build_stepsD(1)[OF c one] step_drop]
    by (cases r1) (auto simp: build_clients_def)
qed

lemma build_conf_effect:
  assumes "(case build_log c s of (Err e, s) \<Rightarrow> (Panic, s) | r \<Rightarrow> r) = (r, s')"
  shows "\<exists>r'. build_log c s = (r', s')"
proof (cases "build_log c s" rule: prod.exhaust)
  case (Pair r t)
  then show ?thesis using assms by (cases r) auto
qed

lemma build_steps_build:
  assumes "lib_reads_log env"
  shows "build_steps (worker_build env gid node raft_node mode w)"
proof -
  have conf: "build_steps (\<lambda>s. case build_log c s of (Err e, s) \<Rightarrow> (Panic, s) | r \<Rightarrow> r)"
    if "keeps_groups c" for c :: "(raft_log_store, unit) call"
  proof (rule build_stepsI)
    fix s r s'
    assume "(case build_log c s of (Err e, s) \<Rightarrow> (Panic, s) | r \<Rightarrow> r) = (r, s')"
    from build_conf_effect[OF this] obtain r' where "build_log c s = (r', s')" ..
    from build_stepsD[OF build_steps_log[OF that] this]
    show "rn_step\<^sup>*\<^sup>* (fst s) (fst s') \<and> dom (rs_states (fs_log (snd s))) \<subseteq> dom (rs_states (fs_log (snd s')))" by blast
  qed
  have "keeps_groups (rl_new (we_lib env) config)" for config using assms by (simp add: lib_reads_log_def)
  then show ?thesis unfolding worker_build_def
    by (intro build_steps_cbind build_steps_quiet build_steps_clients build_steps_net step_take build_steps_log)
      (cases mode; simp add: conf put_conf_state_keeps; simp add: build_steps_def)+
qed

text \<open>A worker is built only when the receiver of its raft node was still there, and takes it.\<close>

lemma build_clients_channels:
  assumes "build_clients env raft_node peers s = (Ok clients, s')"
  shows "rn_message_channels (fst s') = rn_message_channels (fst s) \<and> snd s' = snd s"
proof -
  have "rn_message_channels (fst s') = rn_message_channels (fst s) \<and> snd s' = snd s"
    if "cmap (\<lambda>peer. build_net (rn_client (we_connect env) peer)) ps s = (Ok cs, s')" for ps cs s s'
    using that
  proof (induction ps arbitrary: s cs)
    case (Cons p ps)
    then obtain c s1 cs' where one: "build_net (rn_client (we_connect env) p) s = (Ok c, s1)"
      "cmap (\<lambda>peer. build_net (rn_client (we_connect env) peer)) ps s1 = (Ok cs', s')"
      by (fastforce simp: cbind_eq_Ok)
    have "rn_message_channels (fst s1) = rn_message_channels (fst s) \<and> snd s1 = snd s"
      using one(1) rn_quiet_steps(1)[of "we_connect env" p "fst s"] by (auto simp: build_net_def split: prod.splits)
    then show ?case using Cons.IH[OF one(2)] by simp
  qed simp
  moreover obtain cs where "cmap (\<lambda>peer. build_net (rn_client (we_connect env) peer)) peers s = (Ok cs, s')"
    using assms by (auto simp: build_clients_def split: prod.splits result.splits)
  ultimately show ?thesis by blast
qed

lemma cbind_OkE:
  assumes "cbind c f s = (Ok b, s'')"
  obtains a s' where "c s = (Ok a, s')" "f a s' = (Ok b, s'')"
  using assms unfolding cbind_eq_Ok by blast

lemma worker_build_takes:
  assumes "worker_build env gid node raft_node mode w s = (Ok worker, s')"
  shows "\<not> rx_taken (fst s) raft_node" "rx_taken (fst s') raft_node" "rw_fsm worker = snd s'"
proof -
  obtain s1 s2 clients where
    s1: "fst s1 = fst s" and s2: "build_net (take_message_rx raft_node) s1 = (Ok (), s2)"
    and cl: "build_clients env raft_node (start_peers mode) s2 = (Ok clients, s')" and fs: "rw_fsm worker = snd s'"
    using assms unfolding worker_build_def
  proof (elim cbind_OkE, goal_cases)
    case (1 applied s0 u s0' u' s1 raft s2 u'' s3 clients s4)
    have "fst s1 = fst s0'"
    proof (cases mode)
      case (Initialize peers)
      from build_conf_effect[OF 1(4)[unfolded Initialize raft_start_mode.case]] build_log_effect(1) show ?thesis by blast
    qed (use 1(4) in simp)
    moreover have "fst s2 = fst s1" by (rule build_log_effect(1)[OF 1(5)])
    ultimately have "fst s2 = fst s" using 1(2,3) by simp
    moreover have "s4 = s'" "rw_fsm worker = snd s'" using 1(8) by auto
    ultimately show ?case using 1(1)[of s2 s3 clients] 1(6,7) by simp
  qed
  show "\<not> rx_taken (fst s) raft_node"
    using s1 s2 by (auto simp: build_net_def take_message_rx_def rx_taken_def split: prod.splits option.splits if_splits)
  have "rx_taken (fst s2) raft_node"
    using s2 by (auto simp: build_net_def take_message_rx_def rx_taken_def split: prod.splits option.splits if_splits)
  then show "rx_taken (fst s') raft_node" using build_clients_channels[OF cl] by (simp add: rx_taken_def)
  show "rw_fsm worker = snd s'" by (rule fs)
qed

text \<open>A raft node has a channel for proposals, a worker, an uploader and a sequence, or none of them; the
  receiver of one that has them is taken.\<close>

definition mg_ok :: "('r, 'b, 'os, 'ep, 'ch, 'w) raft_manager \<Rightarrow> bool" where
  "mg_ok m \<longleftrightarrow> rn_ok (mg_raft_network m) \<and> dom (mg_raft_worker_handles m) = dom (mg_proposal_txs m) \<and>
     dom (mg_sstable_uploader_handles m) = dom (mg_proposal_txs m) \<and> dom (mg_sequences m) = dom (mg_proposal_txs m) \<and>
     (\<forall>n \<in> dom (mg_proposal_txs m). rx_taken (mg_raft_network m) n)"

abbreviation entries_of where
  "entries_of m \<equiv> (mg_proposal_txs m, mg_raft_worker_handles m, mg_sstable_uploader_handles m, mg_sequences m)"

lemma mg_ok_network:
  assumes "mg_ok m" "rn_step\<^sup>*\<^sup>* (mg_raft_network m) rn" "entries_of m' = entries_of m" "mg_raft_network m' = rn"
  shows "mg_ok m'"
proof -
  have "rn_ok (mg_raft_network m)" "\<forall>n \<in> dom (mg_proposal_txs m). rx_taken (mg_raft_network m) n" using assms(1) by (simp_all add: mg_ok_def)
  then have "rn_ok rn" "\<forall>n \<in> dom (mg_proposal_txs m). rx_taken rn n"
    using rn_steps_keep(2)[OF assms(2)] rn_steps_taken[OF assms(2)] by blast+
  then show ?thesis using assms(1,3,4) unfolding mg_ok_def by simp
qed

abbreviation groups_of where
  "groups_of m \<equiv> dom (rs_states (mg_raft_log_store m))"

lemma mg_build_worker_effect:
  assumes lib: "lib_reads_log env" and "mg_build_worker env w gid raft_node tree peers m = (r, m')"
  shows "entries_of m' = entries_of m" "rn_step\<^sup>*\<^sup>* (mg_raft_network m) (mg_raft_network m')"
    "groups_of m \<subseteq> groups_of m'" "\<And>worker. r = Ok worker \<Longrightarrow> \<not> rx_taken (mg_raft_network m) raft_node \<and> rx_taken (mg_raft_network m') raft_node"
proof -
  let ?s = "(mg_raft_network m, mg_fsm raft_node tree m)"
  obtain rn fs where b: "worker_build env gid (mg_node m) raft_node (Initialize peers) w ?s = (r, rn, fs)"
    and m': "m' = m\<lparr>mg_raft_network := rn, mg_raft_log_store := fs_log fs\<rparr>"
    using assms(2) by (auto simp: mg_build_worker_def split: prod.splits)
  note steps = build_stepsD[OF build_steps_build[OF lib] b]
  show "rn_step\<^sup>*\<^sup>* (mg_raft_network m) (mg_raft_network m')" using steps(1) by (simp add: m')
  show "groups_of m \<subseteq> groups_of m'" using steps(2) by (simp add: m' mg_fsm_def)
  show "entries_of m' = entries_of m" by (simp add: m')
  show "\<not> rx_taken (mg_raft_network m) raft_node \<and> rx_taken (mg_raft_network m') raft_node" if "r = Ok worker" for worker
    using worker_build_takes(1,2)[OF b[unfolded that]] by (simp add: m')
qed

lemma mg_insert_fresh:
  assumes "mg_ok m" "raft_node \<notin> dom (mg_proposal_txs m)" "rx_taken (mg_raft_network m) raft_node" "runkv_unix_date_epoch \<le> now"
  shows "\<exists>s. mg_insert now raft_node worker up m =
    (Ok (), m\<lparr>mg_proposal_txs := (mg_proposal_txs m)(raft_node \<mapsto> []), mg_raft_worker_handles := (mg_raft_worker_handles m)(raft_node \<mapsto> worker),
      mg_sstable_uploader_handles := (mg_sstable_uploader_handles m)(raft_node \<mapsto> up), mg_sequences := (mg_sequences m)(raft_node \<mapsto> s)\<rparr>)"
    "mg_ok (snd (mg_insert now raft_node worker up m))"
proof -
  have none: "mg_proposal_txs m raft_node = None" "mg_raft_worker_handles m raft_node = None"
    "mg_sstable_uploader_handles m raft_node = None" "mg_sequences m raft_node = None"
    using assms(1,2) unfolding mg_ok_def by blast+
  then show "\<exists>s. mg_insert now raft_node worker up m =
    (Ok (), m\<lparr>mg_proposal_txs := (mg_proposal_txs m)(raft_node \<mapsto> []), mg_raft_worker_handles := (mg_raft_worker_handles m)(raft_node \<mapsto> worker),
      mg_sstable_uploader_handles := (mg_sstable_uploader_handles m)(raft_node \<mapsto> up), mg_sequences := (mg_sequences m)(raft_node \<mapsto> s)\<rparr>)"
    using assms(4) by (intro exI[of _ "of_nat (now - runkv_unix_date_epoch)"]) (simp add: mg_insert_def rtimestamp_def cbind_def)
  then obtain s where "snd (mg_insert now raft_node worker up m) =
    m\<lparr>mg_proposal_txs := (mg_proposal_txs m)(raft_node \<mapsto> []), mg_raft_worker_handles := (mg_raft_worker_handles m)(raft_node \<mapsto> worker),
      mg_sstable_uploader_handles := (mg_sstable_uploader_handles m)(raft_node \<mapsto> up), mg_sequences := (mg_sequences m)(raft_node \<mapsto> s)\<rparr>" by auto
  then show "mg_ok (snd (mg_insert now raft_node worker up m))" using assms(1,3) unfolding mg_ok_def by simp
qed

lemma mg_add_group_effect:
  assumes "mg_add_group n m = (r, m')"
  shows "entries_of m' = entries_of m" "mg_ok m \<Longrightarrow> mg_ok m'" "groups_of m \<subseteq> groups_of m'" "r = Ok () \<Longrightarrow> n \<notin> groups_of m"
proof -
  obtain lg where m': "m' = m\<lparr>mg_raft_log_store := lg\<rparr>" and lg: "store_add_group n (mg_raft_log_store m) = (r, lg)"
    using assms by (auto simp: mg_add_group_def split: prod.splits)
  show "entries_of m' = entries_of m" "mg_ok m \<Longrightarrow> mg_ok m'" by (simp_all add: m' mg_ok_def)
  show "groups_of m \<subseteq> groups_of m'" "r = Ok () \<Longrightarrow> n \<notin> groups_of m"
    using lg by (auto simp: m' store_add_group_def lift_states_def add_group_def split: option.splits)
qed

lemma create_raft_node_effect:
  assumes "mg_ok m" "runkv_unix_date_epoch \<le> now" "lib_reads_log env" "create_raft_node env w rudders now gid n m = (r, m')"
  shows "mg_ok m' \<and> groups_of m \<subseteq> groups_of m' \<and>
    (if r = Ok () then \<exists>worker up s. n \<notin> dom (mg_proposal_txs m) \<and> n \<notin> groups_of m \<and> entries_of m' =
      ((mg_proposal_txs m)(n \<mapsto> []), (mg_raft_worker_handles m)(n \<mapsto> worker), (mg_sstable_uploader_handles m)(n \<mapsto> up), (mg_sequences m)(n \<mapsto> s))
    else entries_of m' = entries_of m)"
  using assms(4) unfolding create_raft_node_def
proof (cases rule: cbind_cases)
  case new: (cont tree m1)
  then have m1: "m1 = m" by simp
  from new(2)[unfolded m1] show ?thesis
  proof (cases rule: cbind_cases)
    case add: (cont u m2)
    note m2 = mg_add_group_effect(1,3)[OF add(1)] mg_add_group_effect(4)[OF add(1)[unfolded unit_eq[of u]] refl]
      and ok2 = mg_add_group_effect(2)[OF add(1) assms(1)]
    from add(2) show ?thesis
    proof (cases rule: cbind_cases)
      case peers: (cont peers m3)
      then have m3: "m3 = m2" by simp
      from peers(2)[unfolded m3] show ?thesis
      proof (cases rule: cbind_cases)
        case build: (cont worker m4)
        note b = mg_build_worker_effect[OF assms(3) build(1)]
        have ok4: "mg_ok m4" by (rule mg_ok_network[OF ok2 b(2,1) refl])
        have fresh: "n \<notin> dom (mg_proposal_txs m4)" using b(1) b(4)[OF refl] ok2 unfolding mg_ok_def by auto
        note i = mg_insert_fresh[OF ok4 fresh _ assms(2), of worker "mg_uploader rudders n tree m4"]
        have "mg_insert now n worker (mg_uploader rudders n tree m4) m4 = (r, m')" using build(2) by (simp add: cbind_def)
        moreover have "groups_of m \<subseteq> groups_of m4" by (rule subset_trans[OF m2(2) b(3)])
        ultimately show ?thesis using i b(1) b(4)[OF refl] m2(1,3) fresh by auto
      next
        case (stop r')
        note b = mg_build_worker_effect[OF assms(3) stop(1)]
        have "mg_ok m'" by (rule mg_ok_network[OF ok2 b(2,1) refl])
        moreover have "groups_of m \<subseteq> groups_of m'" by (rule subset_trans[OF m2(2) b(3)])
        ultimately show ?thesis using b(1) m2(1) stop(3) by simp
      qed
    next
      case (stop r')
      then show ?thesis using ok2 m2 by simp
    qed
  next
    case (stop r')
    then show ?thesis using mg_add_group_effect[OF stop(1)] assms(1) by simp
  qed
next
  case (stop r')
  then show ?thesis using assms(1) by simp
qed

section \<open>Adding a shard\<close>

text \<open>What happens on a node: the handlers, steps of the network, atomic actions of transactions, and the
  workers, which change the shared state and themselves but not which of them there are, and remove no group
  of the log. The clock is not before the epoch of RunKV, and \<open>Q\<close> holds of the ranges that are requested:
  a request is not checked by the code, in particular a range may end before it starts.\<close>

inductive wn_step :: "('r, 'b, 'hs, 'sn, 'os, 'ep, 'ch, 'w) worker_env \<Rightarrow> (key_range \<Rightarrow> bool) \<Rightarrow>
    ('r, 'b, 'os, 'ep, 'ch, 'w) wheel_node \<Rightarrow> ('r, 'b, 'os, 'ep, 'ch, 'w) wheel_node \<Rightarrow> bool"
  for env Q where
  step_add_endpoints: "wn_step env Q wn (snd (wheel_add_endpoints endpoint eps wn))"
| step_add_key_range: "runkv_unix_date_epoch \<le> now \<Longrightarrow> distinct (map fst (ak_nodes req)) \<Longrightarrow>
    (\<And>r. ak_key_range req = Some r \<Longrightarrow> Q r) \<Longrightarrow>
    wn_step env Q wn (snd (wheel_add_key_range env w rudders now req wn))"
| step_raft: "wn_step env Q wn (snd (wheel_raft deserialize data wn))"
| step_network: "rn_step (mg_raft_network (wn_manager wn)) rn \<Longrightarrow>
    wn_step env Q wn (wn\<lparr>wn_manager := (wn_manager wn)\<lparr>mg_raft_network := rn\<rparr>\<rparr>)"
| step_txn: "wn_step env Q wn (with_wheel (snd (txn_section encode encode_context hash (wn_node wn) pc (wheel_of wn))) wn)"
| step_workers: "dom ws = dom (mg_raft_worker_handles (wn_manager wn)) \<Longrightarrow> dom us = dom (mg_sstable_uploader_handles (wn_manager wn)) \<Longrightarrow>
    dom (rs_states (mg_raft_log_store (wn_manager wn))) \<subseteq> dom (rs_states lg) \<Longrightarrow>
    wn_step env Q wn (wn\<lparr>wn_stopped := stopped, wn_manager := (wn_manager wn)\<lparr>mg_raft_log_store := lg, mg_txn_notify_pool := np,
      mg_version_manager := vm, mg_raft_worker_handles := ws, mg_sstable_uploader_handles := us\<rparr>\<rparr>)"

text \<open>A range that starts at a given key does not end before it.\<close>

definition ordered_at :: "bytes \<Rightarrow> key_range \<Rightarrow> bool" where
  "ordered_at start r \<longleftrightarrow> fst r = start \<longrightarrow> fst r \<le> snd r"

lemma txn_section_keeps:
  assumes "txn_section encode encode_context hash node pc wh = (r, wh')"
  shows "wh_meta_store wh' = wh_meta_store wh \<and> dom (wh_sequences wh') = dom (wh_sequences wh) \<and> dom (wh_proposals wh') = dom (wh_proposals wh)"
  using assms
  by (cases pc) (auto simp: txn_load_sequence_def txn_number_def txn_register_def txn_send_def
      split: option.splits if_splits result.splits)

definition wn_ok :: "(key_range \<Rightarrow> bool) \<Rightarrow> ('r, 'b, 'os, 'ep, 'ch, 'w) wheel_node \<Rightarrow> bool" where
  "wn_ok Q wn \<longleftrightarrow> mg_ok (wn_manager wn) \<and> ranges_disjoint (wn_meta_store wn) \<and> (\<forall>x \<in> set (wn_meta_store wn). Q (fst x))"

text \<open>Raft nodes and groups of the log stay; a raft node that has a group is not started again.\<close>

definition wn_grows :: "('r, 'b, 'os, 'ep, 'ch, 'w) wheel_node \<Rightarrow> ('r, 'b, 'os, 'ep, 'ch, 'w) wheel_node \<Rightarrow> bool" where
  "wn_grows wn wn' \<longleftrightarrow> wn_node wn' = wn_node wn \<and>
     dom (mg_proposal_txs (wn_manager wn)) \<subseteq> dom (mg_proposal_txs (wn_manager wn')) \<and> groups_of (wn_manager wn) \<subseteq> groups_of (wn_manager wn') \<and>
     dom (mg_proposal_txs (wn_manager wn')) \<inter> groups_of (wn_manager wn) \<subseteq> dom (mg_proposal_txs (wn_manager wn))"

text \<open>A shard stays when no range is requested that starts where it does and ends before.\<close>

definition keeps_shards :: "(key_range \<Rightarrow> bool) \<Rightarrow> wheel_meta_store \<Rightarrow> wheel_meta_store \<Rightarrow> bool" where
  "keeps_shards Q ms ms' \<longleftrightarrow>
     (\<forall>r v. (r, v) \<in> set ms \<longrightarrow> fst r \<le> snd r \<longrightarrow> (\<forall>r'. Q r' \<longrightarrow> ordered_at (fst r) r') \<longrightarrow> (r, v) \<in> set ms')"

lemma keeps_shards_refl [simp]: "keeps_shards Q ms ms"
  by (simp add: keeps_shards_def)

lemma wn_grows_refl [simp]: "wn_grows wn wn"
  by (simp add: wn_grows_def)

lemma wn_grows_trans: "wn_grows a b \<Longrightarrow> wn_grows b c \<Longrightarrow> wn_grows a c"
  unfolding wn_grows_def by (elim conjE, intro conjI) (simp, ((erule (1) subset_trans)+)[2], blast)

lemma key_ranges_insert_bounds: "fst ` set (key_ranges_insert r v ms) \<subseteq> insert r (fst ` set ms)"
  by (induction r v ms rule: key_ranges_insert.induct) (simp, auto simp: image_iff split: if_splits)

lemma key_ranges_insert_others: "x \<in> set ms \<Longrightarrow> fst (fst x) \<noteq> fst r \<Longrightarrow> x \<in> set (key_ranges_insert r v ms)"
  by (induction r v ms rule: key_ranges_insert.induct) auto

lemma key_ranges_insert_new: "\<forall>x \<in> set ms. fst (fst x) \<noteq> fst r \<Longrightarrow> (r, v) \<in> set (key_ranges_insert r v ms)"
  by (induction r v ms rule: key_ranges_insert.induct) auto

text \<open>Adding a range: the bounds of shards come from requests, a shard is replaced only by a request for a range
  that starts where it does and ends before, and the range is there unless such a range was there before.\<close>

lemma add_key_range_cases:
  assumes "add_key_range r' gid ns ms = Ok ms'"
  shows "fst ` set ms' \<subseteq> insert r' (fst ` set ms)"
    and "(r, v) \<in> set ms \<Longrightarrow> fst r \<le> snd r \<Longrightarrow> ordered_at (fst r) r' \<Longrightarrow> (r, v) \<in> set ms'"
    and "fst r' \<le> snd r' \<Longrightarrow> \<forall>x \<in> set ms. ordered_at (fst r') (fst x) \<Longrightarrow> (r', gid, ns) \<in> set ms'"
proof -
  have f: "find (\<lambda>x. is_overlap (fst x) r') ms = None" and ms': "ms' = key_ranges_insert r' (gid, ns) ms"
    using assms by (auto simp: add_key_range_def split: option.splits)
  have no: "\<not> is_overlap (fst x) r'" if "x \<in> set ms" for x using f that by (metis find_None_iff)
  show "fst ` set ms' \<subseteq> insert r' (fst ` set ms)" unfolding ms' by (rule key_ranges_insert_bounds)
  show "(r, v) \<in> set ms'" if "(r, v) \<in> set ms" "fst r \<le> snd r" "ordered_at (fst r) r'"
    unfolding ms' using no[OF that(1)] that by (intro key_ranges_insert_others) (auto simp: is_overlap_def ordered_at_def)
  show "(r', gid, ns) \<in> set ms'" if "fst r' \<le> snd r'" "\<forall>x \<in> set ms. ordered_at (fst r') (fst x)"
    unfolding ms' using no that by (intro key_ranges_insert_new) (fastforce simp: is_overlap_def ordered_at_def)
qed

lemma on_raft_network_step:
  assumes "mg_ok (wn_manager wn)" "on_raft_network c wn = (r, wn')" "rn_step\<^sup>*\<^sup>* (mg_raft_network (wn_manager wn)) (snd (c (mg_raft_network (wn_manager wn))))"
  shows "mg_ok (wn_manager wn')" "wn_meta_store wn' = wn_meta_store wn" "wn_node wn' = wn_node wn"
    "entries_of (wn_manager wn') = entries_of (wn_manager wn)" "mg_raft_log_store (wn_manager wn') = mg_raft_log_store (wn_manager wn)"
proof -
  obtain rn where rn: "snd (c (mg_raft_network (wn_manager wn))) = rn" "wn' = wn\<lparr>wn_manager := (wn_manager wn)\<lparr>mg_raft_network := rn\<rparr>\<rparr>"
    using assms(2) by (auto simp: on_raft_network_def on_raft_manager_def split: prod.splits)
  show "wn_meta_store wn' = wn_meta_store wn" "wn_node wn' = wn_node wn" "entries_of (wn_manager wn') = entries_of (wn_manager wn)"
    "mg_raft_log_store (wn_manager wn') = mg_raft_log_store (wn_manager wn)"
    by (simp_all add: rn)
  show "mg_ok (wn_manager wn')" by (rule mg_ok_network[OF assms(1) assms(3)]) (simp_all add: rn)
qed

lemma create_raft_nodes_effect:
  assumes "mg_ok (wn_manager wn)" "runkv_unix_date_epoch \<le> now" "lib_reads_log env"
    "cfold (\<lambda>raft_node. on_raft_manager (create_raft_node env w rudders now gid raft_node)) ns wn = (r, wn')"
  shows "mg_ok (wn_manager wn') \<and> wn_grows wn wn' \<and> wn_meta_store wn' = wn_meta_store wn \<and>
    (r = Ok () \<longrightarrow> set ns \<subseteq> dom (mg_proposal_txs (wn_manager wn')))"
  using assms(1,4)
proof (induction ns arbitrary: wn)
  case (Cons n ns)
  have one: "mg_ok (wn_manager wn1) \<and> wn_grows wn wn1 \<and> wn_meta_store wn1 = wn_meta_store wn \<and>
      (r1 = Ok () \<longrightarrow> n \<in> dom (mg_proposal_txs (wn_manager wn1)))"
    if c: "on_raft_manager (create_raft_node env w rudders now gid n) wn = (r1, wn1)" for r1 wn1
  proof -
    obtain m1 where "create_raft_node env w rudders now gid n (wn_manager wn) = (r1, m1)" and w1: "wn1 = wn\<lparr>wn_manager := m1\<rparr>"
      using c by (auto simp: on_raft_manager_def split: prod.splits)
    from create_raft_node_effect[OF Cons.prems(1) assms(2,3) this(1)] show ?thesis
      by (auto simp: w1 wn_grows_def split: if_splits)
  qed
  from Cons.prems(2) show ?case unfolding cfold.simps
  proof (cases rule: cbind_cases)
    case (cont u wn1)
    then show ?thesis using one[OF cont(1)] Cons.IH[of wn1] wn_grows_trans[of wn wn1 wn'] by (auto simp: wn_grows_def)
  next
    case (stop r')
    then show ?thesis using one[OF stop(1)] by simp
  qed
qed simp

text \<open>The shards after a request, whether it succeeds or not.\<close>

definition shards_after :: "add_key_range_request \<Rightarrow> wheel_meta_store \<Rightarrow> wheel_meta_store" where
  "shards_after req ms =
     (case ak_key_range req of
        None \<Rightarrow> ms
      | Some r \<Rightarrow> (case add_key_range r (ak_group req) (ak_raft_nodes req) ms of Ok ms' \<Rightarrow> ms' | _ \<Rightarrow> ms))"

lemma shards_after_ok:
  assumes "ranges_disjoint ms" "\<forall>x \<in> set ms. Q (fst x)" "\<And>r. ak_key_range req = Some r \<Longrightarrow> Q r"
  shows "ranges_disjoint (shards_after req ms)" "\<forall>x \<in> set (shards_after req ms). Q (fst x)" "keeps_shards Q ms (shards_after req ms)"
proof -
  have "ranges_disjoint (shards_after req ms) \<and> (\<forall>x \<in> set (shards_after req ms). Q (fst x)) \<and> keeps_shards Q ms (shards_after req ms)"
  proof (cases "shards_after req ms = ms")
    case False
    then obtain r where r: "ak_key_range req = Some r" "add_key_range r (ak_group req) (ak_raft_nodes req) ms = Ok (shards_after req ms)"
      by (auto simp: shards_after_def split: option.splits result.splits)
    note c = add_key_range_cases[OF r(2)]
    have "Q (fst x)" if "x \<in> set (shards_after req ms)" for x
    proof -
      from subsetD[OF c(1) imageI[OF that, of fst]] show ?thesis using assms(2) assms(3)[OF r(1)] by auto
    qed
    moreover have "keeps_shards Q ms (shards_after req ms)" using c(2) assms(3)[OF r(1)] unfolding keeps_shards_def by blast
    ultimately show ?thesis using add_key_range_disjoint[OF assms(1) r(2)] by blast
  qed (use assms in simp)
  then show "ranges_disjoint (shards_after req ms)" "\<forall>x \<in> set (shards_after req ms). Q (fst x)" "keeps_shards Q ms (shards_after req ms)"
    by blast+
qed

lemma wheel_add_key_range_effect:
  assumes "mg_ok (wn_manager wn)" "runkv_unix_date_epoch \<le> now" "distinct (map fst (ak_nodes req))" "lib_reads_log env"
    and "wheel_add_key_range env w rudders now req wn = (res, wn')"
  shows "mg_ok (wn_manager wn') \<and> wn_grows wn wn' \<and> wn_meta_store wn' = shards_after req (wn_meta_store wn) \<and>
    (res = Ok () \<longrightarrow> (\<exists>r ms. ak_key_range req = Some r \<and> add_key_range r (ak_group req) (ak_raft_nodes req) (wn_meta_store wn) = Ok ms) \<and>
       set (ak_raft_nodes req) \<subseteq> dom (mg_proposal_txs (wn_manager wn')))"
proof (cases "ak_key_range req")
  case None
  then show ?thesis using assms(1,5) by (auto simp: wheel_add_key_range_def shards_after_def)
next
  case (Some r)
  let ?add = "add_key_range r (ak_group req) (ak_raft_nodes req) (wn_meta_store wn)"
  have run: "cbind (meta_add_key_range r (ak_group req) (ak_raft_nodes req)) (\<lambda>_.
      cbind (on_raft_network (rn_register (ak_group req) (sort_key fst (ak_nodes req)))) (\<lambda>_.
        cfold (\<lambda>raft_node. on_raft_manager (create_raft_node env w rudders now (ak_group req) raft_node)) (ak_raft_nodes req))) wn = (res, wn')"
    using assms(5) by (simp add: wheel_add_key_range_def Some)
  then show ?thesis
  proof (cases rule: cbind_cases)
    case meta: (cont u wn1)
    then obtain ms where ms: "?add = Ok ms" and wn1: "wn1 = wn\<lparr>wn_meta_store := ms\<rparr>"
      by (auto simp: meta_add_key_range_def split: result.splits)
    have after: "shards_after req (wn_meta_store wn) = ms" using ms Some by (simp add: shards_after_def)
    have mg: "mg_ok (wn_manager wn1)" using assms(1) by (simp add: wn1)
    have "rn_step\<^sup>*\<^sup>* rn (snd (rn_register (ak_group req) (sort_key fst (ak_nodes req)) rn))" (is "rn_step\<^sup>*\<^sup>* rn (snd (?reg rn))") for rn :: "('b, 'd, 'e) raft_network"
      using assms(3) by (intro r_into_rtranclp step_register) (metis distinct_map distinct_sort set_sort)
    note net = on_raft_network_step[OF mg, where c = ?reg, OF _ this]
    from meta(2) show ?thesis
    proof (cases rule: cbind_cases)
      case reg: (cont u' wn2)
      note n = net[OF reg(1)]
      note c = create_raft_nodes_effect[OF n(1) assms(2,4) reg(2)]
      have "wn_grows wn wn'" using c n by (simp add: wn_grows_def wn1)
      then show ?thesis using c n after ms Some by (simp add: wn1)
    next
      case (stop r')
      note n = net[OF stop(1)]
      have "wn_grows wn wn'" using n by (simp add: wn_grows_def wn1)
      then show ?thesis using n stop(3) after by (simp add: wn1)
    qed
  next
    case (stop r')
    then show ?thesis using assms(1) Some by (auto simp: meta_add_key_range_def shards_after_def split: result.splits)
  qed
qed

lemma raft_service_step: "rn_step\<^sup>*\<^sup>* rn (snd (raft_service deserialize data rn))"
  by (cases "deserialize data") (auto simp: raft_service_def intro: r_into_rtranclp step_recv)

lemma mg_ok_routes:
  assumes "mg_ok m" "entries_of m' = entries_of m" "rn_raft_nodes (mg_raft_network m') = rn_raft_nodes (mg_raft_network m)"
    "rn_groups (mg_raft_network m') = rn_groups (mg_raft_network m)"
    "rn_message_channels (mg_raft_network m') = rn_message_channels (mg_raft_network m)"
  shows "mg_ok m'"
  using assms rn_ok_cong[of "mg_raft_network m'" "mg_raft_network m"] by (simp add: mg_ok_def rx_taken_def)

lemma wn_step_keeps:
  assumes "wn_step env Q wn wn'" "wn_ok Q wn" "lib_reads_log env"
  shows "wn_ok Q wn' \<and> wn_grows wn wn' \<and> keeps_shards Q (wn_meta_store wn) (wn_meta_store wn')"
  using assms(1)
proof cases
  case (step_add_endpoints endpoint eps)
  let ?rn = "mg_raft_network (wn_manager wn)"
  have wn': "wn' = wn\<lparr>wn_manager := (wn_manager wn)\<lparr>mg_raft_network :=
      ?rn\<lparr>rn_channel_pool := fold (cp_put_node endpoint) (map endpoint_node eps) (rn_channel_pool ?rn)\<rparr>\<rparr>\<rparr>"
    unfolding step_add_endpoints by (simp add: wheel_add_endpoints_def on_raft_network_def on_raft_manager_def)
  have "mg_ok (wn_manager wn')" by (rule mg_ok_routes[of "wn_manager wn"]) (use assms(2) in \<open>simp_all add: wn' wn_ok_def\<close>)
  then show ?thesis using assms(2) by (simp add: wn_ok_def wn_grows_def wn')
next
  case (step_add_key_range now req w rudders)
  have mg: "mg_ok (wn_manager wn)" using assms(2) by (simp add: wn_ok_def)
  note e = wheel_add_key_range_effect[OF mg step_add_key_range(2,3) assms(3) prod.collapse[symmetric], of w rudders]
  have "ranges_disjoint (wn_meta_store wn)" "\<forall>x \<in> set (wn_meta_store wn). Q (fst x)" using assms(2) by (simp_all add: wn_ok_def)
  note sh = shards_after_ok[OF this step_add_key_range(4)]
  show ?thesis unfolding step_add_key_range(1) wn_ok_def using e sh by simp
next
  case (step_raft deserialize data)
  have mg: "mg_ok (wn_manager wn)" using assms(2) by (simp add: wn_ok_def)
  note n = on_raft_network_step[OF mg, of "raft_service deserialize data", OF prod.collapse[symmetric] raft_service_step]
  show ?thesis using n assms(2) unfolding step_raft wheel_raft_def by (simp add: wn_ok_def wn_grows_def)
next
  case (step_network rn)
  have "mg_ok (wn_manager wn')"
    by (rule mg_ok_network[of "wn_manager wn" rn]) (use assms(2) step_network in \<open>auto simp: wn_ok_def\<close>)
  then show ?thesis using assms(2) step_network by (simp add: wn_ok_def wn_grows_def)
next
  case (step_txn encode encode_context hash pc)
  obtain r wh where t: "txn_section encode encode_context hash (wn_node wn) pc (wheel_of wn) = (r, wh)" by fastforce
  have wn': "wn' = with_wheel wh wn" using step_txn t by simp
  have k: "wh_meta_store wh = wn_meta_store wn" "dom (wh_sequences wh) = dom (mg_sequences (wn_manager wn))"
    "dom (wh_proposals wh) = dom (mg_proposal_txs (wn_manager wn))"
    using txn_section_keeps[OF t] by (simp_all add: wheel_of_def)
  then have "mg_ok (wn_manager wn')" using assms(2) unfolding wn' by (simp add: wn_ok_def mg_ok_def with_wheel_def)
  then show ?thesis using assms(2) k by (simp add: wn_ok_def wn_grows_def wn' with_wheel_def)
next
  case (step_workers ws us lg stopped np vm)
  have "mg_ok (wn_manager wn')" using assms(2) step_workers by (simp add: wn_ok_def mg_ok_def)
  then show ?thesis using assms(2) step_workers by (simp add: wn_ok_def wn_grows_def)
qed

lemma wn_steps_keep:
  assumes "(wn_step env Q)\<^sup>*\<^sup>* wn wn'" "wn_ok Q wn" "lib_reads_log env"
  shows "wn_ok Q wn'" "wn_grows wn wn'" "keeps_shards Q (wn_meta_store wn) (wn_meta_store wn')"
proof -
  have "wn_ok Q wn' \<and> wn_grows wn wn' \<and> keeps_shards Q (wn_meta_store wn) (wn_meta_store wn')" using assms(1)
  proof (induction rule: rtranclp_induct)
    case (step wn1 wn2)
    note k = wn_step_keeps[OF step(2) _ assms(3)]
    have "keeps_shards Q (wn_meta_store wn) (wn_meta_store wn2)" using step.IH k unfolding keeps_shards_def by blast
    then show ?case using step.IH k wn_grows_trans by blast
  qed (simp add: assms(2))
  then show "wn_ok Q wn'" "wn_grows wn wn'" "keeps_shards Q (wn_meta_store wn) (wn_meta_store wn')" by simp_all
qed

abbreviation wheel_start where
  "wheel_start node rudder_node_id lg cp np vm options \<equiv>
     wheel_new node (raft_manager_new node rudder_node_id lg (raft_network_new node cp) np vm options)"

lemma wheel_start_ok: "wn_ok Q (wheel_start node rudder_node_id lg cp np vm options)"
  by (simp add: wn_ok_def mg_ok_def wheel_new_def raft_manager_new_def rn_new_ok ranges_disjoint_def)

abbreviation txn_keys :: "txn_request \<Rightarrow> bytes list res" where
  "txn_keys request \<equiv> rmap_list (\<lambda>op. rmap op_key (unwrap op)) request"

text \<open>Transactions on a shard go to its first raft node.\<close>

lemma txn_prepare_shard:
  assumes "wn_ok Q wn" "(r, gid, n # ns) \<in> set (wn_meta_store wn)" "request \<noteq> []"
    "txn_keys request = Ok keys" "\<forall>k \<in> set keys. in_range k r"
  shows "txn_prepare (wn_node wn) sp request (wheel_of wn) =
    (if n \<in> dom (mg_proposal_txs (wn_manager wn)) then Ok \<lparr>ta_raft_node = n, ta_span = sp, ta_request = request\<rparr>
     else Err (RaftNodeNotExists n (wn_node wn)))"
proof -
  have "keys \<noteq> []" using assms(3,4) by (cases request) (auto simp: outcome_simps)
  then have "all_in_range keys (wn_meta_store wn) = Some (r, gid, n # ns)"
    using all_in_range_iff[of "wn_meta_store wn" keys r "(gid, n # ns)"] assms(1,2,5) by (simp add: wn_ok_def)
  then have "txn_raft_nodes request (wn_meta_store wn) = Ok (n # ns)" using assms(3,4) by (simp add: txn_raft_nodes_def)
  moreover have "mg_sequences (wn_manager wn) n = None \<longleftrightarrow> n \<notin> dom (mg_proposal_txs (wn_manager wn))"
    using assms(1) unfolding wn_ok_def mg_ok_def by blast
  ultimately show ?thesis
    by (cases "mg_sequences (wn_manager wn) n") (simp_all add: txn_prepare_def get_sequence_def wheel_of_def)
qed

text \<open>A request for a range that can be added leaves it among the shards.\<close>

lemma add_shard_present:
  assumes ok: "wn_ok (ordered_at (fst r)) wn" and lib: "lib_reads_log env"
    and req: "ak_key_range req = Some r" "fst r \<le> snd r" "distinct (map fst (ak_nodes req))" "runkv_unix_date_epoch \<le> now"
    and run: "wheel_add_key_range env w rudders now req wn = (res, wn')"
    and add: "add_key_range r (ak_group req) (ak_raft_nodes req) (wn_meta_store wn) = Ok ms"
  shows "wn_ok (ordered_at (fst r)) wn'" "wn_grows wn wn'" "(r, ak_group req, ak_raft_nodes req) \<in> set (wn_meta_store wn')"
proof -
  have mg: "mg_ok (wn_manager wn)" "ranges_disjoint (wn_meta_store wn)" "\<forall>x \<in> set (wn_meta_store wn). ordered_at (fst r) (fst x)"
    using ok by (simp_all add: wn_ok_def)
  note e = wheel_add_key_range_effect[OF mg(1) req(4,3) lib run]
  have "ordered_at (fst r) r'" if "ak_key_range req = Some r'" for r' using that req(1,2) by (simp add: ordered_at_def)
  note sh = shards_after_ok[OF mg(2,3) this]
  show "wn_ok (ordered_at (fst r)) wn'" "wn_grows wn wn'" using e sh by (simp_all add: wn_ok_def)
  have "wn_meta_store wn' = ms" using e req(1) add by (simp add: shards_after_def)
  then show "(r, ak_group req, ak_raft_nodes req) \<in> set (wn_meta_store wn')" using add_key_range_cases(3)[OF add req(2) mg(3)] by simp
qed

text \<open>C38. In every state a node can reach, a raft node has a channel for proposals, a worker, an uploader and a
  sequence, or none of them, and the receiver of one that has them was taken from the network. Creating a
  raft node replaces none of the entries: it adds those of a new raft node, or fails and adds nothing. Any
  ranges may have been requested; the clock is not before the epoch of RunKV.\<close>

theorem raft_node_entries_complete:
  assumes "(wn_step env (\<lambda>_. True))\<^sup>*\<^sup>* (wheel_start node rudder_node_id lg cp np vm options) wn" "lib_reads_log env"
  shows "(let m = wn_manager wn in dom (mg_raft_worker_handles m) = dom (mg_proposal_txs m) \<and>
      dom (mg_sstable_uploader_handles m) = dom (mg_proposal_txs m) \<and> dom (mg_sequences m) = dom (mg_proposal_txs m) \<and>
      (\<forall>n \<in> dom (mg_proposal_txs m). fst (take_message_rx n (mg_raft_network m)) \<noteq> Ok ())) \<and>
    (\<forall>now w rudders gid n r m. runkv_unix_date_epoch \<le> now \<longrightarrow> create_raft_node env w rudders now gid n (wn_manager wn) = (r, m) \<longrightarrow>
      dom (mg_proposal_txs m) = (if r = Ok () then {n} else {}) \<union> dom (mg_proposal_txs (wn_manager wn)) \<and>
      mg_proposal_txs (wn_manager wn) \<subseteq>\<^sub>m mg_proposal_txs m \<and> mg_raft_worker_handles (wn_manager wn) \<subseteq>\<^sub>m mg_raft_worker_handles m \<and>
      mg_sstable_uploader_handles (wn_manager wn) \<subseteq>\<^sub>m mg_sstable_uploader_handles m \<and> mg_sequences (wn_manager wn) \<subseteq>\<^sub>m mg_sequences m)"
proof -
  have ok: "mg_ok (wn_manager wn)" using wn_steps_keep(1)[OF assms(1) wheel_start_ok assms(2)] by (simp add: wn_ok_def)
  have rx: "fst (take_message_rx n rn) \<noteq> Ok ()" if "rx_taken rn n" for n and rn :: "('b, 'd, 'e) raft_network"
    using that by (auto simp: rx_taken_def take_message_rx_def split: option.splits)
  have "dom (mg_proposal_txs m) = (if r = Ok () then {n} else {}) \<union> dom (mg_proposal_txs (wn_manager wn)) \<and>
      mg_proposal_txs (wn_manager wn) \<subseteq>\<^sub>m mg_proposal_txs m \<and> mg_raft_worker_handles (wn_manager wn) \<subseteq>\<^sub>m mg_raft_worker_handles m \<and>
      mg_sstable_uploader_handles (wn_manager wn) \<subseteq>\<^sub>m mg_sstable_uploader_handles m \<and> mg_sequences (wn_manager wn) \<subseteq>\<^sub>m mg_sequences m"
    if "runkv_unix_date_epoch \<le> now" "create_raft_node env w rudders now gid n (wn_manager wn) = (r, m)" for now w rudders gid n r m
  proof (cases "r = Ok ()")
    case True
    with create_raft_node_effect[OF ok that(1) assms(2) that(2)] obtain worker up s where e: "n \<notin> dom (mg_proposal_txs (wn_manager wn))"
      "entries_of m = ((mg_proposal_txs (wn_manager wn))(n \<mapsto> []), (mg_raft_worker_handles (wn_manager wn))(n \<mapsto> worker),
        (mg_sstable_uploader_handles (wn_manager wn))(n \<mapsto> up), (mg_sequences (wn_manager wn))(n \<mapsto> s))" by auto
    moreover have "n \<notin> dom (mg_raft_worker_handles (wn_manager wn))" "n \<notin> dom (mg_sstable_uploader_handles (wn_manager wn))"
      "n \<notin> dom (mg_sequences (wn_manager wn))" using ok e(1) unfolding mg_ok_def by simp_all
    ultimately show ?thesis using True by (simp add: map_le_def fun_upd_apply)
  next
    case False
    then show ?thesis using create_raft_node_effect[OF ok that(1) assms(2) that(2)] by simp
  qed
  then show ?thesis using ok rx unfolding mg_ok_def Let_def by blast
qed

text \<open>C10. When a key range was added, then from that moment on every transaction whose keys lie in the range is
  prepared for the first raft node of the range, which has a worker and a channel for proposals. This holds
  whatever else happens on the node, before and afterwards, as long as nobody requests a range that
  starts where this one does and ends before it starts: such a request is accepted and replaces the shard.
  The clock is not before the epoch of RunKV.\<close>

theorem added_shard_serves:
  assumes "(wn_step env (ordered_at (fst r)))\<^sup>*\<^sup>* (wheel_start node rudder_node_id lg cp np vm options) wn" "lib_reads_log env"
    and "ak_key_range req = Some r" "fst r \<le> snd r" "ak_raft_nodes req = n # ns" "distinct (map fst (ak_nodes req))" "runkv_unix_date_epoch \<le> now"
    and "wheel_add_key_range env w rudders now req wn = (Ok (), wn')" "(wn_step env (ordered_at (fst r)))\<^sup>*\<^sup>* wn' later"
    and "request \<noteq> []" "txn_keys request = Ok keys" "\<forall>k \<in> set keys. in_range k r"
  shows "txn_prepare (wn_node later) sp request (wheel_of later) = Ok \<lparr>ta_raft_node = n, ta_span = sp, ta_request = request\<rparr> \<and>
    n \<in> dom (mg_raft_worker_handles (wn_manager later)) \<and> (\<exists>ps. get_proposal_channel n (wn_manager later) = Ok ps)"
proof -
  have ok: "wn_ok (ordered_at (fst r)) wn" by (rule wn_steps_keep(1)[OF assms(1) wheel_start_ok assms(2)])
  have mg: "mg_ok (wn_manager wn)" using ok by (simp add: wn_ok_def)
  from wheel_add_key_range_effect[OF mg assms(7,6,2,8)] assms(3,5) obtain ms where
    e: "add_key_range r (ak_group req) (n # ns) (wn_meta_store wn) = Ok ms" "n \<in> dom (mg_proposal_txs (wn_manager wn'))" by auto
  note a = add_shard_present[OF ok assms(2-4,6,7) assms(8) e(1)[folded assms(5)]]
  note l = wn_steps_keep[OF assms(9) a(1) assms(2)]
  have "(r, ak_group req, n # ns) \<in> set (wn_meta_store later)" using l(3) a(3) assms(4,5) unfolding keeps_shards_def by metis
  moreover have "n \<in> dom (mg_proposal_txs (wn_manager later))" using l(2) e(2) by (auto simp: wn_grows_def)
  moreover from this have "n \<in> dom (mg_raft_worker_handles (wn_manager later))" using l(1) by (simp add: wn_ok_def mg_ok_def)
  moreover have "\<exists>ps. get_proposal_channel n (wn_manager later) = Ok ps"
    using \<open>n \<in> dom (mg_proposal_txs (wn_manager later))\<close> by (auto simp: get_proposal_channel_def)
  ultimately show ?thesis using txn_prepare_shard[OF l(1) _ assms(10-12)] by simp
qed

text \<open>C39. A raft node whose group is in the log store and which is not running, as after a restart of the node,
  cannot be started again. Adding a key range with it among its raft nodes fails but leaves the range: from
  then on every request to add a range that overlaps it fails, and when it is the first raft node of the
  range, every transaction on the range fails. This holds whatever else happens on the node, before and
  afterwards, as long as nobody requests a range that starts where this one does and ends before it starts,
  and the clock is not before the epoch of RunKV.\<close>

theorem known_group_blocks_shard:
  assumes "(wn_step env (ordered_at (fst r)))\<^sup>*\<^sup>* (wheel_start node rudder_node_id lg cp np vm options) wn" "lib_reads_log env"
    and "ak_key_range req = Some r" "fst r \<le> snd r" "n \<in> set (ak_raft_nodes req)" "distinct (map fst (ak_nodes req))" "runkv_unix_date_epoch \<le> now"
    and "add_key_range r (ak_group req) (ak_raft_nodes req) (wn_meta_store wn) = Ok ms"
    and "rs_states (mg_raft_log_store (wn_manager wn)) n \<noteq> None" "mg_proposal_txs (wn_manager wn) n = None"
    and "(wn_step env (ordered_at (fst r)))\<^sup>*\<^sup>* (snd (wheel_add_key_range env w rudders now req wn)) later"
  shows "fst (wheel_add_key_range env w rudders now req wn) \<noteq> Ok () \<and>
    (\<forall>w' rudders' now' req' r'. ak_key_range req' = Some r' \<longrightarrow> is_overlap r r' \<longrightarrow>
      (\<exists>r''. wheel_add_key_range env w' rudders' now' req' later = (Err (KeyRangeOverlaps r'' r'), later))) \<and>
    (\<forall>ns sp request keys. ak_raft_nodes req = n # ns \<longrightarrow> request \<noteq> [] \<longrightarrow> txn_keys request = Ok keys \<longrightarrow> (\<forall>k \<in> set keys. in_range k r) \<longrightarrow>
      txn_prepare (wn_node later) sp request (wheel_of later) = Err (RaftNodeNotExists n (wn_node later)))"
proof -
  obtain res wn' where run: "wheel_add_key_range env w rudders now req wn = (res, wn')" by fastforce
  have ok: "wn_ok (ordered_at (fst r)) wn" by (rule wn_steps_keep(1)[OF assms(1) wheel_start_ok assms(2)])
  have mg: "mg_ok (wn_manager wn)" using ok by (simp add: wn_ok_def)
  note a = add_shard_present[OF ok assms(2-4,6,7) run assms(8)]
  have "(wn_step env (ordered_at (fst r)))\<^sup>*\<^sup>* wn' later" using assms(11) by (simp add: run)
  note l = wn_steps_keep[OF this a(1) assms(2)]
  have shard: "(r, ak_group req, ak_raft_nodes req) \<in> set (wn_meta_store later)" using l(3) a(3) assms(4) unfolding keeps_shards_def by blast
  have "n \<notin> dom (mg_proposal_txs (wn_manager wn))" "n \<in> groups_of (wn_manager wn)" using assms(9,10) by auto
  then have out: "n \<notin> dom (mg_proposal_txs (wn_manager wn'))" "n \<notin> dom (mg_proposal_txs (wn_manager later))"
    using a(2) wn_grows_trans[OF a(2) l(2)] unfolding wn_grows_def by blast+
  have "\<exists>r''. wheel_add_key_range env w' rudders' now' req' later = (Err (KeyRangeOverlaps r'' r'), later)"
    if "ak_key_range req' = Some r'" "is_overlap r r'" for w' rudders' now' req' r'
  proof -
    have "find (\<lambda>x. is_overlap (fst x) r') (wn_meta_store later) \<noteq> None" using shard that(2) by (metis find_None_iff fst_conv)
    then show ?thesis by (auto simp: wheel_add_key_range_def that(1) meta_add_key_range_def add_key_range_def cbind_def split: prod.splits)
  qed
  moreover have "txn_prepare (wn_node later) sp request (wheel_of later) = Err (RaftNodeNotExists n (wn_node later))"
    if "ak_raft_nodes req = n # ns" "request \<noteq> []" "txn_keys request = Ok keys" "\<forall>k \<in> set keys. in_range k r" for ns sp request keys
    using txn_prepare_shard[OF l(1) shard[unfolded that(1)] that(2-4)] out(2) by simp
  moreover have "res \<noteq> Ok ()" using wheel_add_key_range_effect[OF mg assms(7,6,2) run] assms(5) out(1) by blast
  ultimately show ?thesis unfolding run fst_conv by blast
qed

section \<open>Ranges that end before they start\<close>

lemma key_ranges_insert_at:
  assumes "\<forall>x \<in> set xs. fst (fst x) < fst r"
  shows "key_ranges_insert (fst r, e) v (xs @ (r, v') # ys) = xs @ (r, v) # ys"
  using assms
proof (induction xs)
  case (Cons x xs)
  then have "fst (fst x) < fst r" by simp
  then have "\<not> fst r < fst (fst x)" "fst r \<noteq> fst (fst x)" by auto
  then show ?case using Cons by (cases x) simp
qed simp

text \<open>C0. A range that ends before it starts overlaps no shard. When it starts where a shard does, adding it
  succeeds and hands the shard, with its own bounds, to the group and the raft nodes of the request.\<close>

theorem inverted_range_takes_shard:
  assumes "ranges_disjoint ms" "\<forall>x \<in> set ms. fst (fst x) \<le> snd (fst x)" "(r, gid, ns) \<in> set ms" "e < fst r" "in_range k r"
  shows "\<exists>ms'. add_key_range (fst r, e) gid' ns' ms = Ok ms' \<and> key_ranges ms' = key_ranges ms \<and> meta_in_range k ms' = Some (r, gid', ns')"
proof -
  obtain xs ys where ms: "ms = xs @ (r, gid, ns) # ys" using split_list[OF assms(3)] by blast
  have before: "fst (fst x) < fst r \<and> snd (fst x) < fst r" if "x \<in> set xs" for x
  proof -
    have "fst (fst x) < fst r" "\<not> is_overlap (fst x) r" using assms(1) that by (auto simp: ms ranges_disjoint_def sorted_wrt_append)
    moreover have "fst r \<le> snd r" using assms(2) by (simp add: ms)
    ultimately show ?thesis by (auto simp: is_overlap_def)
  qed
  have after: "fst r < fst (fst x)" if "x \<in> set ys" for x using assms(1) that by (auto simp: ms ranges_disjoint_def sorted_wrt_append)
  have "\<not> is_overlap (fst x) (fst r, e)" if "x \<in> set ms" for x
    using that before[of x] order.strict_trans[OF assms(4) after, of x] assms(4) by (auto simp: ms is_overlap_def)
  then have "find (\<lambda>x. is_overlap (fst x) (fst r, e)) ms = None" unfolding find_None_iff by blast
  then have add: "add_key_range (fst r, e) gid' ns' ms = Ok (xs @ (r, gid', ns') # ys)"
    using before by (simp add: add_key_range_def ms key_ranges_insert_at)
  have "ranges_disjoint (xs @ (r, gid', ns') # ys)" using assms(1) by (simp add: ms ranges_disjoint_def sorted_wrt_append)
  then have "meta_in_range k (xs @ (r, gid', ns') # ys) = Some (r, gid', ns')" by (rule shard_unique) (simp_all add: assms(5))
  then show ?thesis using add by (simp add: key_ranges_def ms)
qed

section \<open>Examples\<close>

definition example_node ::
  "raft_log_store \<Rightarrow> mem_object_store version_manager \<Rightarrow>
     (nat, unit, mem_object_store, nat, nat, nat \<Rightarrow> (unit, nat, nat) raft_network) wheel_node" where
  "example_node lg vm =
     wheel_start 10 0 lg \<lparr>cp_endpoints = [10 \<mapsto> 10], cp_channels = Map.empty\<rparr> (notify_pool_new 1) vm
       \<lparr>lo_write_buffer_capacity = 4096,
        lo_sstable = \<lparr>sbo_capacity = 64, sbo_block_capacity = 32, sbo_restart_interval = 2, sbo_bloom_false_positive = 1 / 10,
          sbo_compression_algorithm = NoCompression\<rparr>\<rparr>"

definition example_shard_request :: add_key_range_request where
  "example_shard_request = \<lparr>ak_key_range = Some ([1], [5]), ak_group = 1, ak_raft_nodes = [1], ak_nodes = [(1, 10)]\<rparr>"

definition example_add ::
  "(nat, unit, mem_object_store, nat, nat, nat \<Rightarrow> (unit, nat, nat) raft_network) wheel_node \<Rightarrow>
     unit res \<times> (nat, unit, mem_object_store, nat, nat, nat \<Rightarrow> (unit, nat, nat) raft_network) wheel_node" where
  "example_add = wheel_add_key_range example_worker_env (\<lambda>_. example_network) Map.empty runkv_unix_date_epoch example_shard_request"

lemma example_lib_reads: "lib_reads_log example_worker_env"
  by (simp add: lib_reads_log_def keeps_groups_def example_worker_env_def example_lib_def)

lemma example_lsm: "\<exists>lt. lsm_new (fe_layout (we_fsm example_worker_env)) 4096 vm = Ok lt"
  by (simp add: example_worker_env_def lsm_new_def memtable_with_ctx_new_def memtable_new_def skiplist_with_capacity_def node_alloc_def
      arena_with_capacity_def example_env_def example_layout_of_node_def arena_alloc_def tower_max_height_def)

lemma example_conf:
  "\<exists>lg. put_conf_state (we_encode_voters example_worker_env) 1 [1] example_store = (Ok (), lg)"
proof -
  have "\<exists>lg. store_put 1 raft_conf_state_key [] example_store = (Ok (), lg) \<and> store_run stored_compress stored_decompress (\<lambda>_. 7) {} lg \<and> rs_states lg 1 \<noteq> None"
    by (rule store_put_total[OF lz4_frames_stored _ example_store_run]) (simp_all add: example_store_def raft_conf_state_key_def)
  then show ?thesis by (auto simp: put_conf_state_def rg_put_state_def rg_put_def example_worker_env_def)
qed

lemma example_add_ok:
  "\<exists>wn. example_add (example_node (example_store\<lparr>rs_states := Map.empty\<rparr>) vm) = (Ok (), wn)"
proof -
  obtain lt where lt: "lsm_new (fe_layout (we_fsm example_worker_env)) 4096 vm = Ok lt" using example_lsm by blast
  obtain lg where lg: "put_conf_state (we_encode_voters example_worker_env) 1 [1] example_store = (Ok (), lg)" using example_conf by blast
  have group: "store_add_group 1 (example_store\<lparr>rs_states := Map.empty\<rparr>) = (Ok (), example_store)"
    by (simp add: store_add_group_def lift_states_def add_group_def example_store_def)
  have lib: "rl_validate (we_lib example_worker_env) = (\<lambda>_. Ok ())" "rl_new (we_lib example_worker_env) = (\<lambda>_ st. (Ok 0, st))"
    "we_connect example_worker_env = Some" by (simp_all add: example_worker_env_def example_lib_def)
  show ?thesis
    by (simp add: example_add_def wheel_add_key_range_def example_shard_request_def meta_add_key_range_def add_key_range_def example_node_def
        wheel_new_def on_raft_network_def on_raft_manager_def raft_manager_new_def rn_register_def raft_network_new_def rn_register_node_def
        create_raft_node_def cbind_def lt mg_add_group_def group rn_raft_nodes_of_def mg_build_worker_def mg_fsm_def worker_build_def lib
        build_log_def on_log_def lg build_net_def take_message_rx_def unbounded_channel_def build_clients_def rn_client_def cp_get_def
        mg_insert_def rtimestamp_def del: One_nat_def)
qed

lemma example_add_step: "wn_step example_worker_env (\<lambda>_. True) (example_node lg vm) (snd (example_add (example_node lg vm)))"
  unfolding example_add_def by (rule step_add_key_range) (simp_all add: example_shard_request_def)

theorem raft_node_entries_complete_witness:
  "\<forall>vm. \<exists>wn. example_add (example_node (example_store\<lparr>rs_states := Map.empty\<rparr>) vm) = (Ok (), wn) \<and>
    dom (mg_raft_worker_handles (wn_manager wn)) = dom (mg_proposal_txs (wn_manager wn))"
proof
  fix vm
  obtain wn where wn: "example_add (example_node (example_store\<lparr>rs_states := Map.empty\<rparr>) vm) = (Ok (), wn)" using example_add_ok by blast
  have "(wn_step example_worker_env (\<lambda>_. True))\<^sup>*\<^sup>* (example_node (example_store\<lparr>rs_states := Map.empty\<rparr>) vm) wn"
    using r_into_rtranclp[of "wn_step example_worker_env (\<lambda>_. True)", OF example_add_step[of "example_store\<lparr>rs_states := Map.empty\<rparr>" vm]] by (simp add: wn)
  from raft_node_entries_complete[OF this[unfolded example_node_def] example_lib_reads]
  have "dom (mg_raft_worker_handles (wn_manager wn)) = dom (mg_proposal_txs (wn_manager wn))" by (simp add: Let_def)
  with wn show "\<exists>wn. example_add (example_node (example_store\<lparr>rs_states := Map.empty\<rparr>) vm) = (Ok (), wn) \<and>
    dom (mg_raft_worker_handles (wn_manager wn)) = dom (mg_proposal_txs (wn_manager wn))"
    by (intro exI[of _ wn]) simp
qed

theorem added_shard_serves_witness:
  "\<forall>vm. \<exists>wn. example_add (example_node (example_store\<lparr>rs_states := Map.empty\<rparr>) vm) = (Ok (), wn) \<and>
    txn_prepare (wn_node wn) 0 [Some (PutRequest [3] [7])] (wheel_of wn) =
      Ok \<lparr>ta_raft_node = 1, ta_span = 0, ta_request = [Some (PutRequest [3] [7])]\<rparr>"
proof
  fix vm
  obtain wn where wn: "example_add (example_node (example_store\<lparr>rs_states := Map.empty\<rparr>) vm) = (Ok (), wn)" using example_add_ok by blast
  have "txn_prepare (wn_node wn) 0 [Some (PutRequest [3] [7])] (wheel_of wn) =
      Ok \<lparr>ta_raft_node = 1, ta_span = 0, ta_request = [Some (PutRequest [3] [7])]\<rparr> \<and>
      1 \<in> dom (mg_raft_worker_handles (wn_manager wn)) \<and> (\<exists>ps. get_proposal_channel 1 (wn_manager wn) = Ok ps)"
    by (rule added_shard_serves[OF rtranclp.rtrancl_refl example_lib_reads _ _ _ _ _ wn[unfolded example_node_def example_add_def] rtranclp.rtrancl_refl,
          where r = "([1], [5])" and ns = "[]" and keys = "[[3]]"])
      (simp_all add: example_shard_request_def in_range_def)
  then show "\<exists>wn. example_add (example_node (example_store\<lparr>rs_states := Map.empty\<rparr>) vm) = (Ok (), wn) \<and>
    txn_prepare (wn_node wn) 0 [Some (PutRequest [3] [7])] (wheel_of wn) =
      Ok \<lparr>ta_raft_node = 1, ta_span = 0, ta_request = [Some (PutRequest [3] [7])]\<rparr>" using wn by blast
qed

text \<open>The log store of the second node was read from files that hold the group.\<close>

theorem known_group_blocks_shard_witness:
  "\<forall>vm. let wn = snd (example_add (example_node example_store vm)) in
    fst (example_add (example_node example_store vm)) \<noteq> Ok () \<and> (\<exists>r. fst (example_add wn) = Err (KeyRangeOverlaps r ([1], [5]))) \<and>
    txn_prepare (wn_node wn) 0 [Some (PutRequest [3] [7])] (wheel_of wn) = Err (RaftNodeNotExists 1 (wn_node wn))"
proof
  fix vm
  let ?n = "example_node example_store vm"
  let ?wn = "snd (example_add ?n)"
  have all: "fst (example_add ?n) \<noteq> Ok () \<and>
    (\<forall>w' rudders' now' req' r'. ak_key_range req' = Some r' \<longrightarrow> is_overlap ([1], [5]) r' \<longrightarrow>
      (\<exists>r''. wheel_add_key_range example_worker_env w' rudders' now' req' ?wn = (Err (KeyRangeOverlaps r'' r'), ?wn))) \<and>
    (\<forall>ns sp request keys. ak_raft_nodes example_shard_request = 1 # ns \<longrightarrow> request \<noteq> [] \<longrightarrow> txn_keys request = Ok keys \<longrightarrow> (\<forall>k \<in> set keys. in_range k ([1], [5])) \<longrightarrow>
      txn_prepare (wn_node ?wn) sp request (wheel_of ?wn) = Err (RaftNodeNotExists 1 (wn_node ?wn)))"
    unfolding example_add_def example_node_def
    by (rule known_group_blocks_shard[OF rtranclp.rtrancl_refl example_lib_reads _ _ _ _ _ _ _ _ rtranclp.rtrancl_refl,
          where ms = "[(([1], [5]), 1, [1])]"])
      (simp_all add: example_shard_request_def add_key_range_def wheel_new_def raft_manager_new_def example_store_def)
  then obtain r'' where "example_add ?wn = (Err (KeyRangeOverlaps r'' ([1], [5])), ?wn)"
    unfolding example_add_def by (force simp: example_shard_request_def is_overlap_def)
  then show "let wn = ?wn in fst (example_add ?n) \<noteq> Ok () \<and> (\<exists>r. fst (example_add wn) = Err (KeyRangeOverlaps r ([1], [5]))) \<and>
    txn_prepare (wn_node wn) 0 [Some (PutRequest [3] [7])] (wheel_of wn) = Err (RaftNodeNotExists 1 (wn_node wn))"
    using all by (simp add: in_range_def example_shard_request_def)
qed

theorem inverted_range_takes_shard_witness:
  "\<exists>ms'. add_key_range ([2], [1]) 9 [7] [(([2], [5]), 1, [1])] = Ok ms' \<and> meta_in_range [3] ms' = Some (([2], [5]), 9, [7])"
  using inverted_range_takes_shard[of "[(([2], [5]), 1, [1])]" "([2], [5])" 1 "[1]" "[1]" "[3]" 9 "[7]"]
  by (auto simp: ranges_disjoint_def in_range_def)

end
