(* ===== verification/Workers.thy ===== *)
theory Workers
  imports Rudder
begin

text \<open>
  The workers that run beside the services: the heartbeaters of wheel and exhauster nodes
  (\<open>wheel/src/worker/heartbeater.rs\<close>, \<open>exhauster/src/worker/heartbeater.rs\<close>) and the loop of the compaction detector
  (\<open>rudder/src/worker/compaction_detector.rs\<close>).

  A heartbeater calls the rudder, whose handler runs on the rudder's own state; the rudders a node can reach
  are part of the state. Waiting is left out: a round or a tick comes with the time at which the handler runs.
\<close>

section \<open>The heartbeater of a wheel node\<close>

record ('os, 'ep, 'ch) wheel_heartbeater =
  wb_node_id :: nat
  wb_endpoint :: "string \<times> u32"
  wb_meta_store :: wheel_meta_store
  wb_version_manager :: "'os version_manager"
  wb_channel_pool :: "('ep, 'ch) channel_pool"
  wb_rudder_node_id :: nat
  wb_rudders :: "nat \<rightharpoonup> ('os, 'ep, 'ch) rudder"

record ('os, 'ep, 'ch) heartbeat_env =
  he_objects :: "'os object_store_ops"
  he_endpoint :: "net_node \<Rightarrow> 'ep"
  he_connect :: "'ep \<Rightarrow> 'ch option"
  he_node_of :: "'ch \<Rightarrow> nat"

definition wheel_heartbeater_new ::
  "nat \<Rightarrow> string \<times> u32 \<Rightarrow> wheel_meta_store \<Rightarrow> 'os version_manager \<Rightarrow> ('ep, 'ch) channel_pool \<Rightarrow> nat \<Rightarrow>
     (nat \<rightharpoonup> ('os, 'ep, 'ch) rudder) \<Rightarrow> ('os, 'ep, 'ch) wheel_heartbeater" where
  "wheel_heartbeater_new node ep ms vm cp rudder_node_id rudders =
     \<lparr>wb_node_id = node, wb_endpoint = ep, wb_meta_store = ms, wb_version_manager = vm, wb_channel_pool = cp,
      wb_rudder_node_id = rudder_node_id, wb_rudders = rudders\<rparr>"

definition wb_request :: "('os, 'ep, 'ch) wheel_heartbeater \<Rightarrow> heartbeat_message res" where
  "wb_request wb =
     rbind (add_u64 (vm_latest_version_id (wb_version_manager wb)) 1) (\<lambda>next_version_id.
       Ok (WheelHeartbeat (vm_watermark (wb_version_manager wb)) next_version_id (key_ranges (wb_meta_store wb))))"

definition wb_pool_get :: "('ep \<Rightarrow> 'ch option) \<Rightarrow> (('os, 'ep, 'ch) wheel_heartbeater, 'ch) call" where
  "wb_pool_get connect wb =
     (case cp_get connect (wb_rudder_node_id wb) (wb_channel_pool wb) of
        Ok (channel, cp) \<Rightarrow> (Ok channel, wb\<lparr>wb_channel_pool := cp\<rparr>)
      | Err _ \<Rightarrow> (Err (Other ''channel''), wb)
      | Panic \<Rightarrow> (Panic, wb)
      | OutOfFuel \<Rightarrow> (OutOfFuel, wb))"

text \<open>The remote call; an error of the handler arrives as a status.\<close>

definition rpc_heartbeat ::
  "('os, 'ep, 'ch) heartbeat_env \<Rightarrow> nat \<Rightarrow> nat \<Rightarrow> nat \<Rightarrow> string \<times> u32 \<Rightarrow> heartbeat_message \<Rightarrow>
     (nat \<rightharpoonup> ('os, 'ep, 'ch) rudder, version_diff list option) call" where
  "rpc_heartbeat he now node node_id ep msg rudders =
     (case rudders node of
        None \<Rightarrow> (Err RpcStatus, rudders)
      | Some rd \<Rightarrow>
          let (r, rd) = heartbeat (he_endpoint he) now node_id (Some ep) (Some msg) rd
          in (map_err (\<lambda>_. RpcStatus) r, rudders(node \<mapsto> rd)))"

definition wb_call ::
  "('os, 'ep, 'ch) heartbeat_env \<Rightarrow> nat \<Rightarrow> nat \<Rightarrow> heartbeat_message \<Rightarrow>
     (('os, 'ep, 'ch) wheel_heartbeater, version_diff list option) call" where
  "wb_call he now node msg wb =
     (let (r, rudders) = rpc_heartbeat he now node (wb_node_id wb) (wb_endpoint wb) msg (wb_rudders wb)
      in (r, wb\<lparr>wb_rudders := rudders\<rparr>))"

text \<open>Every error of an update is passed over: a version that does not match with a warning, others silently.\<close>

definition wb_sync :: "'os object_store_ops \<Rightarrow> version_diff \<Rightarrow> (('os, 'ep, 'ch) wheel_heartbeater, unit) call" where
  "wb_sync ops diff wb =
     (let (r, vm) = vm_update ops diff True (wb_version_manager wb)
      in (case r of Err _ \<Rightarrow> Ok () | _ \<Rightarrow> r, wb\<lparr>wb_version_manager := vm\<rparr>))"

definition wb_run_inner :: "('os, 'ep, 'ch) heartbeat_env \<Rightarrow> nat \<Rightarrow> (('os, 'ep, 'ch) wheel_heartbeater, unit) call" where
  "wb_run_inner he now =
     cbind (cget wb_request) (\<lambda>msg.
     cbind (wb_pool_get (he_connect he)) (\<lambda>channel.
     cbind (wb_call he now (he_node_of he channel) msg) (\<lambda>rsp.
     case rsp of
       None \<Rightarrow> cres Panic
     | Some ds \<Rightarrow> cfold (wb_sync (he_objects he)) ds)))"

text \<open>An error of a round is logged and passed over; the next round follows at once.\<close>

fun wb_run :: "('os, 'ep, 'ch) heartbeat_env \<Rightarrow> nat list \<Rightarrow> (('os, 'ep, 'ch) wheel_heartbeater, unit) call" where
  "wb_run he [] wb = (Ok (), wb)"
| "wb_run he (now # clock) wb =
     (let (r, wb) = wb_run_inner he now wb
      in case r of Panic \<Rightarrow> (Panic, wb) | OutOfFuel \<Rightarrow> (OutOfFuel, wb) | _ \<Rightarrow> wb_run he clock wb)"

section \<open>The heartbeater of an exhauster\<close>

record ('os, 'ep, 'ch) exhauster_heartbeater =
  xb_node_id :: nat
  xb_endpoint :: "string \<times> u32"
  xb_channel_pool :: "('ep, 'ch) channel_pool"
  xb_rudder_node_id :: nat
  xb_rudders :: "nat \<rightharpoonup> ('os, 'ep, 'ch) rudder"

definition exhauster_heartbeater_new ::
  "nat \<Rightarrow> string \<times> u32 \<Rightarrow> ('ep, 'ch) channel_pool \<Rightarrow> nat \<Rightarrow> (nat \<rightharpoonup> ('os, 'ep, 'ch) rudder) \<Rightarrow>
     ('os, 'ep, 'ch) exhauster_heartbeater" where
  "exhauster_heartbeater_new node ep cp rudder_node_id rudders =
     \<lparr>xb_node_id = node, xb_endpoint = ep, xb_channel_pool = cp, xb_rudder_node_id = rudder_node_id, xb_rudders = rudders\<rparr>"

definition xb_run_inner :: "('os, 'ep, 'ch) heartbeat_env \<Rightarrow> nat \<Rightarrow> (('os, 'ep, 'ch) exhauster_heartbeater, unit) call" where
  "xb_run_inner he now xb =
     (case cp_get (he_connect he) (xb_rudder_node_id xb) (xb_channel_pool xb) of
        Ok (channel, cp) \<Rightarrow>
          let (r, rudders) = rpc_heartbeat he now (he_node_of he channel) (xb_node_id xb) (xb_endpoint xb) ExhausterHeartbeat (xb_rudders xb)
          in (rmap (\<lambda>_. ()) r, xb\<lparr>xb_channel_pool := cp, xb_rudders := rudders\<rparr>)
      | Err _ \<Rightarrow> (Err (Other ''channel''), xb)
      | Panic \<Rightarrow> (Panic, xb)
      | OutOfFuel \<Rightarrow> (OutOfFuel, xb))"

fun xb_run :: "('os, 'ep, 'ch) heartbeat_env \<Rightarrow> nat list \<Rightarrow> (('os, 'ep, 'ch) exhauster_heartbeater, unit) call" where
  "xb_run he [] xb = (Ok (), xb)"
| "xb_run he (now # clock) xb =
     (let (r, xb) = xb_run_inner he now xb
      in case r of Panic \<Rightarrow> (Panic, xb) | OutOfFuel \<Rightarrow> (OutOfFuel, xb) | _ \<Rightarrow> xb_run he clock xb)"

section \<open>The compaction detector\<close>

text \<open>The detector shares the meta store, the version manager and the channel pool with the rudder.\<close>

record compaction_detector =
  cd_config :: lsm_tree_config
  cd_health_timeout :: nat

definition compaction_detector_new :: "lsm_tree_config \<Rightarrow> nat \<Rightarrow> compaction_detector" where
  "compaction_detector_new cfg health_timeout = \<lparr>cd_config = cfg, cd_health_timeout = health_timeout\<rparr>"

definition create_context :: "compaction_detector \<Rightarrow> nat \<Rightarrow> compaction_context" where
  "create_context cd level = \<lparr>cc_level = level, cc_config = cd_config cd, cc_health_timeout = cd_health_timeout cd\<rparr>"

text \<open>A trigger runs in a task of its own, to its end here: an error is logged, a panic ends that task only.\<close>

definition spawn_trigger ::
  "('os, 'ep, 'ch) detector_env \<Rightarrow> compaction_detector \<Rightarrow> nat \<Rightarrow> (nat \<Rightarrow> nat) \<Rightarrow> nat \<Rightarrow> (('os, 'ep, 'ch) cluster, unit) call" where
  "spawn_trigger de cd now elapsed level cl =
     (let (r, cl) = trigger_compaction de (create_context cd level) now elapsed cl
      in (if r = OutOfFuel then OutOfFuel else Ok (), cl))"

datatype detector_tick = TickL0 | TickLmax | TickLevels

definition levels_overstep :: "bool list \<Rightarrow> nat list" where
  "levels_overstep levels = map fst (filter snd (enumerate 0 levels))"

definition on_tick ::
  "('os, 'ep, 'ch) detector_env \<Rightarrow> compaction_detector \<Rightarrow> nat \<Rightarrow> detector_tick \<Rightarrow> nat \<Rightarrow> (nat \<Rightarrow> nat) \<Rightarrow>
     (('os, 'ep, 'ch) cluster, unit) call" where
  "on_tick de cd lmax tick now elapsed =
     (case tick of
        TickL0 \<Rightarrow> spawn_trigger de cd now elapsed 0
      | TickLmax \<Rightarrow> spawn_trigger de cd now elapsed lmax
      | TickLevels \<Rightarrow>
          (\<lambda>cl. case check_levels_size (lc_l1_capacity (cd_config cd)) (lc_level_multiplier (cd_config cd)) (rd_version_manager (cl_rudder cl)) of
             Ok levels \<Rightarrow> cfold (spawn_trigger de cd now elapsed) (levels_overstep levels) cl
           | Err _ \<Rightarrow> (Ok (), cl)
           | Panic \<Rightarrow> (Panic, cl)
           | OutOfFuel \<Rightarrow> (OutOfFuel, cl)))"

text \<open>The ticks that occur, each with its time, the durations of its remote compactions and its random choices.\<close>

definition detector_run ::
  "compaction_detector \<Rightarrow> (('os, 'ep, 'ch) detector_env \<times> detector_tick \<times> nat \<times> (nat \<Rightarrow> nat)) list \<Rightarrow>
     (('os, 'ep, 'ch) cluster, unit) call" where
  "detector_run cd ticks =
     cbind (cres (sub_u64 (length (lc_levels_options (cd_config cd))) 1)) (\<lambda>lmax.
       cfold (\<lambda>(de, tick, now, elapsed). on_tick de cd lmax tick now elapsed) ticks)"

section \<open>A wheel node follows the rudder\<close>

lemma collect_diffs_batch:
  assumes "\<forall>d \<in> set ds. vd_id d < s" "\<forall>e \<in> set es. s \<le> vd_id e" "0 < max_len"
  shows "collect_diffs s max_len [] (ds @ es) = take max_len es"
proof -
  have "collect_diffs s max_len acc es = acc @ take (max_len - length acc) es" if "length acc < max_len" for acc
    using that assms(2)
  proof (induction es arbitrary: acc)
    case (Cons e es)
    have "max_len - length acc = Suc (max_len - Suc (length acc))" using Cons.prems(1) by simp
    then show ?case using Cons by (auto simp: Let_def le_Suc_eq)
  qed simp
  then show ?thesis using assms(1,3) by (induction ds) (auto simp: Let_def)
qed

lemma vfold_append_Ok:
  "vfold f (xs @ ys) vm = (Ok (), vm'') \<longleftrightarrow> (\<exists>vm'. vfold f xs vm = (Ok (), vm') \<and> vfold f ys vm' = (Ok (), vm''))"
proof (induction xs arbitrary: vm)
  case (Cons x xs)
  show ?case
  proof (cases "f x vm")
    case (Pair r vm1)
    then show ?thesis using Cons.IH[of vm1] by (cases r) (auto simp: vbind_def)
  qed
qed (simp add: vok_def)

lemma wb_sync_all:
  assumes "vfold (\<lambda>diff. vm_update ops diff True) es (wb_version_manager wb) = (Ok (), vm)"
  shows "cfold (wb_sync ops) es wb = (Ok (), wb\<lparr>wb_version_manager := vm\<rparr>)"
  using assms
proof (induction es arbitrary: wb)
  case (Cons e es)
  then obtain vm1 where one: "vm_update ops e True (wb_version_manager wb) = (Ok (), vm1)"
    "vfold (\<lambda>diff. vm_update ops diff True) es vm1 = (Ok (), vm)"
    using vfold_append_Ok[of "\<lambda>diff. vm_update ops diff True" "[e]" es "wb_version_manager wb" vm]
    by (auto simp: vbind_def vok_def split: prod.splits result.splits)
  then have "wb_sync ops e wb = (Ok (), wb\<lparr>wb_version_manager := vm1\<rparr>)" by (simp add: wb_sync_def)
  then show ?case using Cons.IH[of "wb\<lparr>wb_version_manager := vm1\<rparr>"] one(2) by simp
qed (simp add: vok_def)

lemma wb_round:
  assumes "wb_rudders wb (he_node_of he ch) = Some rd" "cp_get (he_connect he) (wb_rudder_node_id wb) (wb_channel_pool wb) = Ok (ch, cp)"
    and "vm_latest_version_id (wb_version_manager wb) + 1 < 2 ^ 64"
    and "vm_version_diffs_from (vm_latest_version_id (wb_version_manager wb) + 1) default_version_diff_batch (rd_version_manager rd) = Ok es"
    and "vfold (\<lambda>diff. vm_update (he_objects he) diff True) es (wb_version_manager wb) = (Ok (), vm)"
  shows "wb_run_inner he now wb =
    (Ok (), wb\<lparr>wb_version_manager := vm, wb_channel_pool := cp,
      wb_rudders := (wb_rudders wb)(he_node_of he ch \<mapsto>
        rd\<lparr>rd_meta_store := update_node_ranges (wb_node_id wb) (key_ranges (wb_meta_store wb)) (rd_meta_store rd)\<rparr>)\<rparr>)"
proof -
  let ?rd = "rd\<lparr>rd_meta_store := update_node_ranges (wb_node_id wb) (key_ranges (wb_meta_store wb)) (rd_meta_store rd)\<rparr>"
  let ?wb = "wb\<lparr>wb_channel_pool := cp, wb_rudders := (wb_rudders wb)(he_node_of he ch \<mapsto> ?rd)\<rparr>"
  let ?i = "Suc (vm_latest_version_id (wb_version_manager wb))"
  let ?msg = "WheelHeartbeat (vm_watermark (wb_version_manager wb)) ?i (key_ranges (wb_meta_store wb))"
  have req: "wb_request wb = Ok ?msg" using assms(3) by (simp add: wb_request_def add_u64_def)
  have get: "wb_pool_get (he_connect he) wb = (Ok ch, wb\<lparr>wb_channel_pool := cp\<rparr>)" using assms(2) by (simp add: wb_pool_get_def)
  have "heartbeat (he_endpoint he) now (wb_node_id wb) (Some (wb_endpoint wb)) (Some ?msg) rd = (Ok (Some es), ?rd)"
    using assms(4) by (simp add: heartbeat_def handle_wheel_heartbeat_def cbind_def split: prod.splits)
  then have call: "wb_call he now (he_node_of he ch) ?msg (wb\<lparr>wb_channel_pool := cp\<rparr>) = (Ok (Some es), ?wb)"
    using assms(1) by (simp add: wb_call_def rpc_heartbeat_def)
  show ?thesis using wb_sync_all[of "he_objects he" es ?wb vm] assms(5) by (simp add: wb_run_inner_def cbind_def req get call)
qed

lemma cp_get_again: "cp_get connect node cp = Ok (ch, cp') \<Longrightarrow> cp_get connect node cp' = Ok (ch, cp')"
  by (auto simp: cp_get_def outcome_simps split: option.splits)

lemma latest_of_append:
  assumes "vm_diffs vm' = vm_diffs vm @ es" "map vd_id es = [Suc (vm_latest_version_id vm)..<Suc (vm_latest_version_id vm) + n]"
  shows "vm_latest_version_id vm' = vm_latest_version_id vm + n"
    and "sorted (map vd_id (vm_diffs vm)) \<Longrightarrow> sorted (map vd_id (vm_diffs vm'))"
proof -
  have len: "length es = n" using arg_cong[OF assms(2), of length] by (simp del: upt_Suc)
  have ids: "vd_id (es ! i) = Suc (vm_latest_version_id vm) + i" if "i < n" for i
    using arg_cong[OF assms(2), of "\<lambda>xs. xs ! i"] that len by (simp del: upt_Suc)
  show "vm_latest_version_id vm' = vm_latest_version_id vm + n"
  proof (cases n)
    case (Suc k)
    then have "es \<noteq> []" using len by auto
    then have "last es = es ! k" using len Suc by (simp add: last_conv_nth)
    then show ?thesis using \<open>es \<noteq> []\<close> ids[of k] Suc assms(1) by (simp add: vm_latest_version_id_def last_of_def)
  qed (use len assms(1) in \<open>simp add: vm_latest_version_id_def\<close>)
  show "sorted (map vd_id (vm_diffs vm'))" if "sorted (map vd_id (vm_diffs vm))"
    using latest_version_id_max[OF that] that by (auto simp: assms sorted_append less_Suc_eq_le simp del: upt_Suc) (meson Suc_leD le_trans)
qed

text \<open>The batch the rudder hands out to a replica that has seen the diffs up to \<open>vm\<close>.\<close>

lemma diffs_for_replica:
  assumes "sorted (map vd_id (vm_diffs vm))" "vm_diffs vm1 = vm_diffs vm @ es" "vm_diffs vm1 \<noteq> []"
    and "map vd_id es = [Suc (vm_latest_version_id vm)..<Suc (vm_latest_version_id vm) + n]"
  shows "vm_version_diffs_from (vm_latest_version_id vm + 1) default_version_diff_batch vm1 = Ok (take default_version_diff_batch es)"
proof -
  have "vd_id ` set es = set [Suc (vm_latest_version_id vm)..<Suc (vm_latest_version_id vm) + n]"
    using arg_cong[OF assms(4), of set] by (simp del: upt_Suc)
  then have new: "\<forall>e \<in> set es. vm_latest_version_id vm + 1 \<le> vd_id e" by (auto simp del: upt_Suc)
  have old: "\<forall>d \<in> set (vm_diffs vm). vd_id d < vm_latest_version_id vm + 1"
    using latest_version_id_max[OF assms(1)] by (auto simp: less_Suc_eq_le)
  have "vd_id (hd (vm_diffs vm1)) \<le> vm_latest_version_id vm + 1"
  proof (cases "vm_diffs vm")
    case Nil
    then obtain e es' where "es = e # es'" using assms(2,3) by (cases es) auto
    moreover from this have "vd_id e = Suc (vm_latest_version_id vm)" using assms(4) by (cases n) (auto simp: upt_conv_Cons simp del: upt_Suc)
    ultimately show ?thesis using Nil assms(2) by simp
  qed (use old assms(2) in force)
  moreover have "collect_diffs (vm_latest_version_id vm + 1) default_version_diff_batch [] (vm_diffs vm1) = take default_version_diff_batch es"
    unfolding assms(2) by (rule collect_diffs_batch[OF old new]) (simp add: default_version_diff_batch_def)
  moreover obtain d ds where "vm_diffs vm1 = d # ds" using assms(3) by (cases "vm_diffs vm1") auto
  ultimately show ?thesis by (simp add: vm_version_diffs_from_def)
qed

definition wb_synced ::
  "(mem_object_store, 'ep, 'ch) heartbeat_env \<Rightarrow> 'ch \<Rightarrow> mem_object_store version_manager \<Rightarrow>
     (mem_object_store, 'ep, 'ch) wheel_heartbeater \<Rightarrow> (mem_object_store, 'ep, 'ch) wheel_heartbeater \<Rightarrow> bool" where
  "wb_synced he ch vm wb wb' \<longleftrightarrow> wb_node_id wb' = wb_node_id wb \<and> wb_meta_store wb' = wb_meta_store wb \<and>
     wb_rudder_node_id wb' = wb_rudder_node_id wb \<and>
     cp_get (he_connect he) (wb_rudder_node_id wb') (wb_channel_pool wb') = Ok (ch, wb_channel_pool wb') \<and>
     (\<exists>rd. wb_rudders wb' (he_node_of he ch) = Some rd \<and> rd_version_manager rd = vm \<and>
        map_of (all_node_ranges (rd_meta_store rd)) (wb_node_id wb) = Some (key_ranges (wb_meta_store wb)))"

lemma btree_insert_lookup: "map_of (btree_insert k v xs) k = Some v"
  by (induction xs) auto

lemma heartbeat_round:
  assumes env: "he_objects he = mem_object_store_ops" "cp_get (he_connect he) (wb_rudder_node_id wb) (wb_channel_pool wb) = Ok (ch, cp)"
    and rudder: "wb_rudders wb (he_node_of he ch) = Some rd" "rd_version_manager rd = vm1" "vm_diffs vm1 \<noteq> []" "vm_latest_version_id vm1 + 1 < 2 ^ 64"
    and agree: "vm_agree mo_objects decompress crc32 tabs vm (wb_version_manager wb)" "sorted (map vd_id (vm_diffs vm))"
    and upd: "\<forall>diff \<in> set ds. \<forall>d \<in> set (vd_sstable_diffs diff). sd_id d \<in> dom tabs"
      "vfold (\<lambda>diff. vm_update mem_object_store_ops diff False) ds vm = (Ok (), vm1)"
  shows "\<exists>wb' vm'. wb_run_inner he now wb = (Ok (), wb') \<and> wb_synced he ch vm1 wb wb' \<and>
    vm_agree mo_objects decompress crc32 tabs vm' (wb_version_manager wb') \<and> sorted (map vd_id (vm_diffs vm')) \<and>
    vfold (\<lambda>diff. vm_update mem_object_store_ops diff False) (drop default_version_diff_batch ds) vm' = (Ok (), vm1)"
proof -
  let ?b = default_version_diff_batch
  obtain vm' where part: "vfold (\<lambda>diff. vm_update mem_object_store_ops diff False) (take ?b ds) vm = (Ok (), vm')"
    "vfold (\<lambda>diff. vm_update mem_object_store_ops diff False) (drop ?b ds) vm' = (Ok (), vm1)"
    using upd(2) vfold_append_Ok[of _ "take ?b ds" "drop ?b ds" vm vm1] by (auto simp: append_take_drop_id)
  have "\<forall>diff \<in> set (take ?b ds). \<forall>d \<in> set (vd_sstable_diffs diff). sd_id d \<in> dom tabs" using upd(1) by (meson in_set_takeD)
  from mem_os.updates_replay[OF agree(1) this part(1)] obtain es1 wvm where es1: "vm_diffs vm' = vm_diffs vm @ es1"
    "map vd_id es1 = [Suc (vm_latest_version_id vm)..<Suc (vm_latest_version_id vm) + length (take ?b ds)]"
    "vfold (\<lambda>diff. vm_update mem_object_store_ops diff True) es1 (wb_version_manager wb) = (Ok (), wvm)"
    "vm_agree mo_objects decompress crc32 tabs vm' wvm" by blast
  from mem_os.updates_replay[OF agree(1) upd] obtain es where es: "vm_diffs vm1 = vm_diffs vm @ es"
    "map vd_id es = [Suc (vm_latest_version_id vm)..<Suc (vm_latest_version_id vm) + length ds]" by blast
  have "\<forall>diff \<in> set (drop ?b ds). \<forall>d \<in> set (vd_sstable_diffs diff). sd_id d \<in> dom tabs" using upd(1) by (meson in_set_dropD)
  from mem_os.updates_replay[OF es1(4) this part(2)] obtain es2 where "vm_diffs vm1 = vm_diffs vm' @ es2" by blast
  then have "es = es1 @ es2" using es(1) es1(1) by simp
  moreover have "length es = length ds" "length es1 = length (take ?b ds)"
    using arg_cong[OF es(2), of length] arg_cong[OF es1(2), of length] by (simp_all del: upt_Suc)
  ultimately have take: "take ?b es = es1" by (cases "length ds \<le> ?b") auto
  have latest: "vm_latest_version_id (wb_version_manager wb) = vm_latest_version_id vm" using agree(1) by (simp add: vm_agree_def vm_latest_version_id_def)
  have small: "vm_latest_version_id (wb_version_manager wb) + 1 < 2 ^ 64" using latest_of_append(1)[OF es] rudder(4) latest by simp
  let ?rd = "rd\<lparr>rd_meta_store := update_node_ranges (wb_node_id wb) (key_ranges (wb_meta_store wb)) (rd_meta_store rd)\<rparr>"
  let ?wb = "wb\<lparr>wb_version_manager := wvm, wb_channel_pool := cp, wb_rudders := (wb_rudders wb)(he_node_of he ch \<mapsto> ?rd)\<rparr>"
  have run: "wb_run_inner he now wb = (Ok (), ?wb)"
    by (rule wb_round[OF rudder(1) env(2) small, of es1])
      (use diffs_for_replica[OF agree(2) es(1) rudder(3) es(2)] take latest rudder(2) es1(3) env(1) in simp_all)
  have "wb_synced he ch vm1 wb ?wb"
    using cp_get_again[OF env(2)] rudder(2) by (simp add: wb_synced_def update_node_ranges_def all_node_ranges_def btree_insert_lookup)
  moreover have "sorted (map vd_id (vm_diffs vm'))" by (rule latest_of_append(2)[OF es1(1,2) agree(2)])
  ultimately show ?thesis using run es1(4) part(2) by (intro exI[of _ ?wb] exI[of _ vm']) simp
qed

lemma heartbeats_sync:
  assumes "he_objects he = mem_object_store_ops" "cp_get (he_connect he) (wb_rudder_node_id wb) (wb_channel_pool wb) = Ok (ch, cp)"
    and "wb_rudders wb (he_node_of he ch) = Some rd" "vm_diffs (rd_version_manager rd) \<noteq> []" "vm_latest_version_id (rd_version_manager rd) + 1 < 2 ^ 64"
    and "vm_agree mo_objects decompress crc32 tabs vm (wb_version_manager wb)" "sorted (map vd_id (vm_diffs vm))"
    and "\<forall>diff \<in> set ds. \<forall>d \<in> set (vd_sstable_diffs diff). sd_id d \<in> dom tabs"
    and "vfold (\<lambda>diff. vm_update mem_object_store_ops diff False) ds vm = (Ok (), rd_version_manager rd)"
    and "length ds \<le> default_version_diff_batch * length clock" "clock \<noteq> []"
  shows "\<exists>wb' rd'. wb_run he clock wb = (Ok (), wb') \<and> wb_rudders wb' (he_node_of he ch) = Some rd' \<and>
    vm_levels (wb_version_manager wb') = vm_levels (rd_version_manager rd) \<and>
    vm_levels_data_size (wb_version_manager wb') = vm_levels_data_size (rd_version_manager rd) \<and>
    vm_diffs (wb_version_manager wb') = vm_diffs (rd_version_manager rd) \<and>
    map_of (all_node_ranges (rd_meta_store rd')) (wb_node_id wb) = Some (key_ranges (wb_meta_store wb))"
  using assms(2,3,4,5,6,7,8,9,10,11)
proof (induction clock arbitrary: wb rd cp vm ds)
  case (Cons now clock)
  note round = heartbeat_round[OF assms(1) Cons.prems(1,2) refl Cons.prems(3-8)]
  from round[of now] obtain wb1 vm1 where one: "wb_run_inner he now wb = (Ok (), wb1)" "wb_synced he ch (rd_version_manager rd) wb wb1"
    "vm_agree mo_objects decompress crc32 tabs vm1 (wb_version_manager wb1)" "sorted (map vd_id (vm_diffs vm1))"
    "vfold (\<lambda>diff. vm_update mem_object_store_ops diff False) (drop default_version_diff_batch ds) vm1 = (Ok (), rd_version_manager rd)" by blast
  from one(2) obtain rd1 where rd1: "wb_rudders wb1 (he_node_of he ch) = Some rd1" "rd_version_manager rd1 = rd_version_manager rd"
    "map_of (all_node_ranges (rd_meta_store rd1)) (wb_node_id wb) = Some (key_ranges (wb_meta_store wb))"
    and same: "wb_node_id wb1 = wb_node_id wb" "wb_meta_store wb1 = wb_meta_store wb"
      "cp_get (he_connect he) (wb_rudder_node_id wb1) (wb_channel_pool wb1) = Ok (ch, wb_channel_pool wb1)"
    unfolding wb_synced_def by blast
  show ?case
  proof (cases "clock = []")
    case True
    then have "drop default_version_diff_batch ds = []" using Cons.prems(9) by simp
    then have "vm1 = rd_version_manager rd" using one(5) by (simp add: vok_def)
    then show ?thesis using one(1,3) rd1 True by (auto simp: vm_agree_def)
  next
    case False
    have "\<forall>diff \<in> set (drop default_version_diff_batch ds). \<forall>d \<in> set (vd_sstable_diffs diff). sd_id d \<in> dom tabs"
      using Cons.prems(7) by (meson in_set_dropD)
    moreover have "length (drop default_version_diff_batch ds) \<le> default_version_diff_batch * length clock" using Cons.prems(9) by simp
    ultimately show ?thesis
      using Cons.IH[OF same(3) rd1(1) _ _ one(3,4), of "drop default_version_diff_batch ds"] Cons.prems(3,4) one(1,5) False
      unfolding rd1(2) same(1,2) by simp
  qed
qed simp

text \<open>C16. A wheel node catches up with the rudder by heartbeats: when its manager agreed with the rudder's before
  the rudder applied any number of diffs, then after one heartbeat for every ten of them its levels, level
  sizes and history are the rudder's, and the rudder knows the key ranges of the node.\<close>

theorem heartbeats_catch_up:
  assumes "he_objects he = mem_object_store_ops" "cp_get (he_connect he) (wb_rudder_node_id wb) (wb_channel_pool wb) = Ok (ch, cp)"
    and "wb_rudders wb (he_node_of he ch) = Some rd" "vm_diffs (rd_version_manager rd) \<noteq> []" "vm_latest_version_id (rd_version_manager rd) + 1 < 2 ^ 64"
    and "vm_agree mo_objects decompress crc32 tabs vm (wb_version_manager wb)" "sorted (map vd_id (vm_diffs vm))"
    and "\<forall>diff \<in> set ds. \<forall>d \<in> set (vd_sstable_diffs diff). sd_id d \<in> dom tabs"
    and "vfold (\<lambda>diff. vm_update mem_object_store_ops diff False) ds vm = (Ok (), rd_version_manager rd)"
    and "length ds \<le> default_version_diff_batch * length clock" "clock \<noteq> []"
  shows "\<exists>wb' rd'. wb_run he clock wb = (Ok (), wb') \<and> wb_rudders wb' (he_node_of he ch) = Some rd' \<and>
    vm_levels (wb_version_manager wb') = vm_levels (rd_version_manager rd) \<and>
    vm_levels_data_size (wb_version_manager wb') = vm_levels_data_size (rd_version_manager rd) \<and>
    vm_diffs (wb_version_manager wb') = vm_diffs (rd_version_manager rd) \<and>
    map_of (all_node_ranges (rd_meta_store rd')) (wb_node_id wb) = Some (key_ranges (wb_meta_store wb))"
  by (rule heartbeats_sync[OF assms])

section \<open>Examples\<close>

definition example_heartbeats :: "(mem_object_store, nat, nat) heartbeat_env" where
  "example_heartbeats = \<lparr>he_objects = mem_object_store_ops, he_endpoint = nn_port, he_connect = Some, he_node_of = id\<rparr>"

definition example_rudder :: "mem_object_store version_manager \<Rightarrow> (mem_object_store, nat, nat) rudder" where
  "example_rudder vm =
     \<lparr>rd_version_manager = vm, rd_channel_pool = \<lparr>cp_endpoints = Map.empty, cp_channels = Map.empty\<rparr>, rd_meta_store = rudder_meta_new 15\<rparr>"

definition example_heartbeater ::
  "mem_object_store version_manager \<Rightarrow> mem_object_store version_manager \<Rightarrow> (mem_object_store, nat, nat) wheel_heartbeater" where
  "example_heartbeater vm rvm =
     wheel_heartbeater_new 3 (''w'', 80) [(([1], [5]), 1, [1])] vm \<lparr>cp_endpoints = [0 \<mapsto> 7], cp_channels = Map.empty\<rparr> 0 [7 \<mapsto> example_rudder rvm]"

lemma example_primary:
  "\<exists>m st vm1. ss_inv mo_objects stored_decompress (\<lambda>_. 7)
      [5 \<mapsto> (2, [map entry_of union_versions], m), 6 \<mapsto> (2, [map entry_of union_versions], m)] st \<and>
    vfold (\<lambda>diff. vm_update mem_object_store_ops diff False)
      [\<lparr>vd_id = 0, vd_sstable_diffs = [\<lparr>sd_id = 5, sd_level = 0, sd_op = Insert, sd_data_size = 10\<rparr>]\<rparr>] (example_manager [] st) = (Ok (), vm1) \<and>
    vm_levels vm1 = [[5]] \<and> vm_diffs vm1 = [\<lparr>vd_id = 1, vd_sstable_diffs = [\<lparr>sd_id = 5, sd_level = 0, sd_op = Insert, sd_data_size = 10\<rparr>]\<rparr>]"
proof -
  obtain m st where run: "ss_run mem_object_store_ops stored_decompress (\<lambda>_. 7)
      [5 \<mapsto> (2, [map entry_of union_versions], m), 6 \<mapsto> (2, [map entry_of union_versions], m)] st" using two_filtered_tables_run by blast
  note inv = mem_os.run_inv[OF run]
  obtain st' where st': "ss_sstable mem_object_store_ops 5 st = Ok (\<lparr>sst_id = 5, sst_meta = m\<rparr>, st')"
    using mem_os.sstable_inv[OF inv, of 5 2 "[map entry_of union_versions]" m] by auto
  show ?thesis
    by (rule exI[of _ m], rule exI[of _ st])
      (use inv st' in \<open>simp add: vbind_def vm_update_def vget_def vm_latest_version_id_def last_of_def apply_sstable_diff_def
        insert_sstable_def vm_sstable_def index_def vok_def vm_set_level_def vm_set_size_def vm_push_diff_def Let_def\<close>)
qed

theorem heartbeats_catch_up_witness:
  "\<exists>st vm1 wb'. wb_run example_heartbeats [0, 100] (example_heartbeater (example_manager [] st) vm1) = (Ok (), wb') \<and>
    vm_levels (wb_version_manager wb') = [[5]]"
proof -
  obtain m st vm1 where e: "ss_inv mo_objects stored_decompress (\<lambda>_. 7)
      [5 \<mapsto> (2, [map entry_of union_versions], m), 6 \<mapsto> (2, [map entry_of union_versions], m)] st"
    "vfold (\<lambda>diff. vm_update mem_object_store_ops diff False)
      [\<lparr>vd_id = 0, vd_sstable_diffs = [\<lparr>sd_id = 5, sd_level = 0, sd_op = Insert, sd_data_size = 10\<rparr>]\<rparr>] (example_manager [] st) = (Ok (), vm1)"
    "vm_levels vm1 = [[5]]" "vm_diffs vm1 = [\<lparr>vd_id = 1, vd_sstable_diffs = [\<lparr>sd_id = 5, sd_level = 0, sd_op = Insert, sd_data_size = 10\<rparr>]\<rparr>]"
    using example_primary by blast
  let ?tabs = "[5 \<mapsto> (2, [map entry_of union_versions], m), 6 \<mapsto> (2, [map entry_of union_versions], m)]"
  let ?wb = "example_heartbeater (example_manager [] st) vm1"
  have "vm_agree mo_objects stored_decompress (\<lambda>_. 7) ?tabs (example_manager [] st) (wb_version_manager ?wb)"
    using e(1) by (simp add: vm_agree_def example_heartbeater_def wheel_heartbeater_new_def)
  note h = heartbeats_catch_up[of example_heartbeats ?wb 7 "\<lparr>cp_endpoints = [0 \<mapsto> 7], cp_channels = [0 \<mapsto> 7]\<rparr>" "example_rudder vm1",
      OF _ _ _ _ _ this _ _ _ _, of "[\<lparr>vd_id = 0, vd_sstable_diffs = [\<lparr>sd_id = 5, sd_level = 0, sd_op = Insert, sd_data_size = 10\<rparr>]\<rparr>]" "[0, 100]"]
  have "\<exists>wb' rd'. wb_run example_heartbeats [0, 100] ?wb = (Ok (), wb') \<and> wb_rudders wb' (he_node_of example_heartbeats 7) = Some rd' \<and>
    vm_levels (wb_version_manager wb') = vm_levels (rd_version_manager (example_rudder vm1)) \<and>
    vm_levels_data_size (wb_version_manager wb') = vm_levels_data_size (rd_version_manager (example_rudder vm1)) \<and>
    vm_diffs (wb_version_manager wb') = vm_diffs (rd_version_manager (example_rudder vm1)) \<and>
    map_of (all_node_ranges (rd_meta_store rd')) (wb_node_id ?wb) = Some (key_ranges (wb_meta_store ?wb))"
    by (rule h) (use e in \<open>simp_all add: example_heartbeats_def example_heartbeater_def wheel_heartbeater_new_def example_rudder_def cp_get_def
      vm_latest_version_id_def last_of_def default_version_diff_batch_def del: vfold.simps\<close>)
  then show ?thesis using e(3) by (auto simp: example_rudder_def)
qed

end
