(* ===== verification/Bootstrap.thy ===== *)
theory Bootstrap
  imports RaftManager Workers
begin

text \<open>
  \<open>wheel/src/lib.rs\<close>, \<open>rudder/src/lib.rs\<close>, \<open>exhauster/src/lib.rs\<close> and their \<open>config.rs\<close>: how a node is built from its
  configuration, on an object store that is given.

  The parsers of sizes, durations and the persist mode are parameters. Parts of the configuration that only
  bound caches, name directories or concern metrics and logging are read and not kept; the files of the raft
  log are an argument. The rudders a node can reach, which the heartbeaters call, are an argument as well.
\<close>

section \<open>Configuration\<close>

record cache_config =
  kc_block_cache_capacity :: string
  kc_meta_cache_capacity :: string

record raft_log_store_config =
  lgc_log_file_capacity :: string
  lgc_block_cache_capacity :: string
  lgc_persist :: string

record wheel_config =
  wc_id :: nat
  wc_host :: string
  wc_port :: "16 word"
  wc_data_path :: string
  wc_poll_interval :: string
  wc_heartbeat_interval :: string
  wc_rudder :: net_node
  wc_write_buffer_capacity :: string
  wc_cache :: cache_config
  wc_lsm_tree :: raw_lsm_tree_config
  wc_raft_log_store :: raft_log_store_config

record rudder_config =
  uc_id :: nat
  uc_data_path :: string
  uc_health_timeout :: string
  uc_cache :: cache_config
  uc_lsm_tree :: raw_lsm_tree_config

record exhauster_config =
  xc_id :: nat
  xc_host :: string
  xc_port :: "16 word"
  xc_data_path :: string
  xc_heartbeat_interval :: string
  xc_rudder :: net_node
  xc_cache :: cache_config

record config_parsers =
  cp_size :: "string \<Rightarrow> nat option"
  cp_duration :: "string \<Rightarrow> nat option"
  cp_persist :: "string \<Rightarrow> unit option"

definition parse_size :: "config_parsers \<Rightarrow> string \<Rightarrow> nat res" where
  "parse_size ps s = ok_or (ConfigError ''size'') (cp_size ps s)"

definition parse_duration :: "config_parsers \<Rightarrow> string \<Rightarrow> nat res" where
  "parse_duration ps s = ok_or (ConfigError ''duration'') (cp_duration ps s)"

section \<open>Wheel nodes\<close>

definition wheel_sstable_store :: "config_parsers \<Rightarrow> wheel_config \<Rightarrow> 'os \<Rightarrow> 'os sstable_store res" where
  "wheel_sstable_store ps cfg os =
     rbind (parse_size ps (kc_block_cache_capacity (wc_cache cfg))) (\<lambda>_.
     rbind (parse_size ps (kc_meta_cache_capacity (wc_cache cfg))) (\<lambda>_.
       Ok (sstable_store_new (wc_data_path cfg) os Map.empty)))"

definition wheel_version_manager :: "wheel_config \<Rightarrow> 'os sstable_store \<Rightarrow> 'os version_manager res" where
  "wheel_version_manager cfg st =
     (let options = rc_levels_options (wc_lsm_tree cfg) in vm_new options (replicate (length options) []) st)"

definition wheel_heartbeater_of ::
  "config_parsers \<Rightarrow> wheel_config \<Rightarrow> 'os version_manager \<Rightarrow> wheel_meta_store \<Rightarrow> ('ep, 'ch) channel_pool \<Rightarrow>
     (nat \<rightharpoonup> ('os, 'ep, 'ch) rudder) \<Rightarrow> ('os, 'ep, 'ch) wheel_heartbeater res" where
  "wheel_heartbeater_of ps cfg vm ms cp rudders =
     rbind (parse_duration ps (wc_heartbeat_interval cfg)) (\<lambda>_.
       Ok (wheel_heartbeater_new (wc_id cfg) (wc_host cfg, ucast (wc_port cfg)) ms vm cp (nn_id (wc_rudder cfg)) rudders))"

definition wheel_raft_log_store :: "config_parsers \<Rightarrow> wheel_config \<Rightarrow> (string \<rightharpoonup> bytes) \<Rightarrow> string list \<Rightarrow> raft_log_store res" where
  "wheel_raft_log_store ps cfg dir names =
     rbind (parse_size ps (lgc_log_file_capacity (wc_raft_log_store cfg))) (\<lambda>capacity.
     rbind (parse_size ps (lgc_block_cache_capacity (wc_raft_log_store cfg))) (\<lambda>_.
     rbind (ok_or (ConfigError ''persist'') (cp_persist ps (lgc_persist (wc_raft_log_store cfg)))) (\<lambda>_.
       store_open dir names capacity)))"

definition wheel_raft_manager ::
  "config_parsers \<Rightarrow> wheel_config \<Rightarrow> raft_log_store \<Rightarrow> ('b, 'ep, 'ch) raft_network \<Rightarrow> (u64, txn_response res) notify_pool \<Rightarrow>
     'os version_manager \<Rightarrow> ('r, 'b, 'os, 'ep, 'ch, 'w) raft_manager res" where
  "wheel_raft_manager ps cfg lg rn np vm =
     (let lsm = wc_lsm_tree cfg in
      rbind (parse_size ps (wc_write_buffer_capacity cfg)) (\<lambda>write_buffer_capacity.
      rbind (parse_size ps (rc_sstable_capacity lsm)) (\<lambda>sstable_capacity.
      rbind (parse_size ps (rc_block_capacity lsm)) (\<lambda>block_capacity.
      rbind (ok_or (Other ''no L0 in lsm_tree.levels_options'') (case rc_levels_options lsm of [] \<Rightarrow> None | l0 # _ \<Rightarrow> Some l0)) (\<lambda>l0.
      rbind (parse_duration ps (wc_poll_interval cfg)) (\<lambda>_.
        Ok (raft_manager_new (wc_id cfg) (nn_id (wc_rudder cfg)) lg rn np vm
          \<lparr>lo_write_buffer_capacity = write_buffer_capacity,
           lo_sstable = \<lparr>sbo_capacity = sstable_capacity, sbo_block_capacity = block_capacity, sbo_restart_interval = rc_restart_interval lsm,
             sbo_bloom_false_positive = rc_bloom_false_positive lsm, sbo_compression_algorithm = lo_compression_algorithm l0\<rparr>\<rparr>)))))))"

definition wheel_txn_notify_pool :: "(u64, txn_response res) notify_pool" where
  "wheel_txn_notify_pool = notify_pool_new 65535"

definition build_wheel ::
  "config_parsers \<Rightarrow> (net_node \<Rightarrow> 'ep) \<Rightarrow> wheel_config \<Rightarrow> 'os \<Rightarrow> (string \<rightharpoonup> bytes) \<Rightarrow> string list \<Rightarrow> (nat \<rightharpoonup> ('os, 'ep, 'ch) rudder) \<Rightarrow>
     (('r, 'b, 'os, 'ep, 'ch, 'w) wheel_node \<times> ('os, 'ep, 'ch) wheel_heartbeater) res" where
  "build_wheel ps endpoint cfg os dir names rudders =
     rbind (wheel_sstable_store ps cfg os) (\<lambda>st.
     rbind (wheel_version_manager cfg st) (\<lambda>vm.
       let cp = cp_with_nodes endpoint [wc_rudder cfg] in
     rbind (wheel_heartbeater_of ps cfg vm [] cp rudders) (\<lambda>wb.
     rbind (wheel_raft_log_store ps cfg dir names) (\<lambda>lg.
     rbind (wheel_raft_manager ps cfg lg (raft_network_new (wc_id cfg) cp) wheel_txn_notify_pool vm) (\<lambda>m.
       Ok (wheel_new (wc_id cfg) m, wb))))))"

section \<open>The rudder\<close>

definition rudder_sstable_store :: "config_parsers \<Rightarrow> rudder_config \<Rightarrow> 'os \<Rightarrow> 'os sstable_store res" where
  "rudder_sstable_store ps cfg os =
     rbind (parse_size ps (kc_meta_cache_capacity (uc_cache cfg))) (\<lambda>_. Ok (sstable_store_new (uc_data_path cfg) os Map.empty))"

text \<open>The rudder starts with an empty diff, which gets the number 1.\<close>

definition first_diff :: version_diff where
  "first_diff = \<lparr>vd_id = 0, vd_sstable_diffs = []\<rparr>"

definition rudder_version_manager :: "'os object_store_ops \<Rightarrow> rudder_config \<Rightarrow> 'os sstable_store \<Rightarrow> 'os version_manager res" where
  "rudder_version_manager ops cfg st =
     (let options = rc_levels_options (uc_lsm_tree cfg) in
      rbind (vm_new options (replicate (length options) []) st) (\<lambda>vm.
        let (r, vm) = vm_update ops first_diff False vm in rbind r (\<lambda>_. Ok vm)))"

definition rudder_meta_store :: "config_parsers \<Rightarrow> rudder_config \<Rightarrow> rudder_meta res" where
  "rudder_meta_store ps cfg = rbind (parse_duration ps (rc_compaction_pin_ttl (uc_lsm_tree cfg))) (\<lambda>ttl. Ok (rudder_meta_new ttl))"

definition rudder_compaction_detector :: "config_parsers \<Rightarrow> rudder_config \<Rightarrow> compaction_detector res" where
  "rudder_compaction_detector ps cfg =
     rbind (lsm_tree_config_try_from (cp_duration ps) (cp_size ps) (uc_lsm_tree cfg)) (\<lambda>lsm_tree_config.
     rbind (parse_duration ps (uc_health_timeout cfg)) (\<lambda>health_timeout.
       Ok (compaction_detector_new lsm_tree_config health_timeout)))"

definition rudder_new :: "'os version_manager \<Rightarrow> rudder_meta \<Rightarrow> ('ep, 'ch) channel_pool \<Rightarrow> ('os, 'ep, 'ch) rudder" where
  "rudder_new vm rm cp = \<lparr>rd_version_manager = vm, rd_channel_pool = cp, rd_meta_store = rm\<rparr>"

definition build_rudder ::
  "config_parsers \<Rightarrow> 'os object_store_ops \<Rightarrow> rudder_config \<Rightarrow> 'os \<Rightarrow> (('os, 'ep, 'ch) rudder \<times> compaction_detector) res" where
  "build_rudder ps ops cfg os =
     rbind (rudder_sstable_store ps cfg os) (\<lambda>st.
     rbind (rudder_version_manager ops cfg st) (\<lambda>vm.
     rbind (rudder_meta_store ps cfg) (\<lambda>rm.
     rbind (rudder_compaction_detector ps cfg) (\<lambda>cd.
       Ok (rudder_new vm rm \<lparr>cp_endpoints = Map.empty, cp_channels = Map.empty\<rparr>, cd)))))"

section \<open>Exhausters\<close>

definition exhauster_sstable_store :: "config_parsers \<Rightarrow> exhauster_config \<Rightarrow> 'os \<Rightarrow> 'os sstable_store res" where
  "exhauster_sstable_store ps cfg os =
     rbind (parse_size ps (kc_meta_cache_capacity (xc_cache cfg))) (\<lambda>_. Ok (sstable_store_new (xc_data_path cfg) os Map.empty))"

definition build_exhauster ::
  "config_parsers \<Rightarrow> (net_node \<Rightarrow> 'ep) \<Rightarrow> exhauster_config \<Rightarrow> 'os \<Rightarrow> (nat \<rightharpoonup> ('os, 'ep, 'ch) rudder) \<Rightarrow>
     ('os exhauster \<times> ('os, 'ep, 'ch) exhauster_heartbeater) res" where
  "build_exhauster ps endpoint cfg os rudders =
     rbind (exhauster_sstable_store ps cfg os) (\<lambda>st.
     rbind (parse_duration ps (xc_heartbeat_interval cfg)) (\<lambda>_.
       Ok (exhauster_new (of_nat (xc_id cfg)) st 1,
           exhauster_heartbeater_new (xc_id cfg) (xc_host cfg, ucast (xc_port cfg)) (cp_with_nodes endpoint [xc_rudder cfg])
             (nn_id (xc_rudder cfg)) rudders)))"

section \<open>What a built node is\<close>

text \<open>A wheel node that was built is in the state from which its steps start, with the log that was opened.\<close>

lemma build_wheel_start:
  assumes "build_wheel ps endpoint cfg os dir names rudders = Ok (wn, wb)"
  shows "\<exists>capacity lg vm options. store_open dir names capacity = Ok lg \<and>
    vm_new (rc_levels_options (wc_lsm_tree cfg)) (replicate (length (rc_levels_options (wc_lsm_tree cfg))) [])
      (sstable_store_new (wc_data_path cfg) os Map.empty) = Ok vm \<and>
    wn = wheel_start (wc_id cfg) (nn_id (wc_rudder cfg)) lg (cp_with_nodes endpoint [wc_rudder cfg]) wheel_txn_notify_pool vm options \<and>
    wb = wheel_heartbeater_new (wc_id cfg) (wc_host cfg, ucast (wc_port cfg)) [] vm (cp_with_nodes endpoint [wc_rudder cfg])
      (nn_id (wc_rudder cfg)) rudders"
  using assms
  by (auto simp: build_wheel_def wheel_sstable_store_def wheel_version_manager_def wheel_heartbeater_of_def wheel_raft_log_store_def
      wheel_raft_manager_def Let_def outcome_simps)

lemma vm_new_fields:
  "vm_new options levels st = Ok vm \<Longrightarrow>
    vm = \<lparr>vm_level_options = options, vm_levels = levels, vm_levels_data_size = replicate (length levels) 0, vm_diffs = [], vm_store = st, vm_watermark = 0\<rparr>"
  by (simp add: vm_new_def outcome_simps rassert_def split: if_splits)

lemma build_rudder_start:
  assumes "build_rudder ps ops cfg os = Ok (rd, cd)"
  shows "\<exists>vm. vm_new (rc_levels_options (uc_lsm_tree cfg)) (replicate (length (rc_levels_options (uc_lsm_tree cfg))) [])
      (sstable_store_new (uc_data_path cfg) os Map.empty) = Ok vm \<and> vm_update ops first_diff False vm = (Ok (), rd_version_manager rd)"
  using assms
  by (auto simp: build_rudder_def rudder_sstable_store_def rudder_version_manager_def rudder_meta_store_def rudder_compaction_detector_def
      rudder_new_def Let_def outcome_simps case_prod_unfold prod_eq_iff)

text \<open>A rudder and a wheel node that were built with the same levels converge: whatever diffs the rudder has
  applied since it was built, the heartbeater of the node, on its first heartbeats, takes over all of them, one
  heartbeat for every ten diffs, the first diff of the rudder included.\<close>

theorem built_wheel_follows_rudder:
  assumes rudder: "build_rudder ps mem_object_store_ops rcfg os = Ok (rd0, cd)"
    and upd: "vfold (\<lambda>diff. vm_update mem_object_store_ops diff False) ds (rd_version_manager rd0) = (Ok (), rd_version_manager rd)"
      "\<forall>diff \<in> set ds. \<forall>d \<in> set (vd_sstable_diffs diff). sd_id d \<in> dom tabs" "Suc (vm_latest_version_id (rd_version_manager rd)) < 2 ^ 64"
    and stores: "ss_inv mo_objects decompress crc32 tabs (sstable_store_new (uc_data_path rcfg) os Map.empty)"
      "ss_inv mo_objects decompress crc32 tabs (sstable_store_new (wc_data_path cfg) os' Map.empty)"
    and wheel: "rc_levels_options (wc_lsm_tree cfg) = rc_levels_options (uc_lsm_tree rcfg)"
      "build_wheel ps (he_endpoint he) cfg os' dir names [he_node_of he ch \<mapsto> rd] = Ok (wn, wb)"
    and env: "he_objects he = mem_object_store_ops" "he_connect he (he_endpoint he (wc_rudder cfg)) = Some ch"
    and clock: "Suc (length ds) \<le> 10 * length clock"
  shows "\<exists>wb'. wb_run he clock wb = (Ok (), wb') \<and> vm_levels (wb_version_manager wb') = vm_levels (rd_version_manager rd) \<and>
    vm_levels_data_size (wb_version_manager wb') = vm_levels_data_size (rd_version_manager rd) \<and>
    vm_diffs (wb_version_manager wb') = vm_diffs (rd_version_manager rd)"
proof -
  let ?options = "rc_levels_options (uc_lsm_tree rcfg)"
  obtain vm0 where vm0: "vm_new ?options (replicate (length ?options) []) (sstable_store_new (uc_data_path rcfg) os Map.empty) = Ok vm0"
    "vm_update mem_object_store_ops first_diff False vm0 = (Ok (), rd_version_manager rd0)"
    using build_rudder_start[OF rudder] by blast
  obtain vm where vm: "vm_new ?options (replicate (length ?options) []) (sstable_store_new (wc_data_path cfg) os' Map.empty) = Ok vm"
    and wb: "wb = wheel_heartbeater_new (wc_id cfg) (wc_host cfg, ucast (wc_port cfg)) [] vm (cp_with_nodes (he_endpoint he) [wc_rudder cfg])
      (nn_id (wc_rudder cfg)) [he_node_of he ch \<mapsto> rd]"
    using build_wheel_start[OF wheel(2)] unfolding wheel(1) by blast
  note f = vm_new_fields[OF vm0(1)] vm_new_fields[OF vm]
  have agree: "vm_agree mo_objects decompress crc32 tabs vm0 (wb_version_manager wb)"
    using stores by (simp add: vm_agree_def wb wheel_heartbeater_new_def f)
  have all: "vfold (\<lambda>diff. vm_update mem_object_store_ops diff False) (first_diff # ds) vm0 = (Ok (), rd_version_manager rd)"
    using vm0(2) upd(1) by (simp add: vbind_def)
  have ids: "\<forall>diff \<in> set (first_diff # ds). \<forall>d \<in> set (vd_sstable_diffs diff). sd_id d \<in> dom tabs" using upd(2) by (simp add: first_diff_def)
  from mem_os.updates_replay[OF agree ids all] have some: "vm_diffs (rd_version_manager rd) \<noteq> []" by (auto simp: upt_conv_Cons simp del: upt_Suc)
  have get: "cp_get (he_connect he) (wb_rudder_node_id wb) (wb_channel_pool wb) = 
      Ok (ch, (cp_with_nodes (he_endpoint he) [wc_rudder cfg])\<lparr>cp_channels := [nn_id (wc_rudder cfg) \<mapsto> ch]\<rparr>)"
    using env(2) by (simp add: wb wheel_heartbeater_new_def cp_get_def cp_with_nodes_def)
  have "wb_rudders wb (he_node_of he ch) = Some rd" by (simp add: wb wheel_heartbeater_new_def)
  moreover have "clock \<noteq> []" using clock by auto
  ultimately show ?thesis using heartbeats_sync[OF env(1) get _ some _ agree _ ids all, of clock] upd(3) clock
    by (auto simp: f default_version_diff_batch_def)
qed

text \<open>C40. The identifiers of tables start again with every start of a node. The first table an exhauster writes after
  a restart replaces the object of the first table it wrote before, whatever that holds, and the uploader of a
  raft node with the exhauster's identifier uses the same identifiers.\<close>

theorem table_ids_reused:
  assumes "build_exhauster ps endpoint cfg os rudders = Ok (ex, xb)" "te_objects env = mem_object_store_ops"
    and "ex_gen_sstable_id ex = (Ok i, ex1)" "ex_build_and_upload_sst env i sb ex1 = (Ok info, ex2)"
  shows "i = sstable_id (of_nat (xc_id cfg)) 1 \<and> (\<forall>rudders' tree m. fst (up_gen_sstable_id (mg_uploader rudders' (xc_id cfg) tree m)) = Ok i) \<and>
    (\<exists>meta data. sb_build (te_compress env) (te_crc32 env) sb = Ok (meta, data) \<and>
      mo_objects (ss_object_store (ex_sstable_store ex2)) = (mo_objects os)
        (data_path (ex_sstable_store ex) i \<mapsto> data, meta_path (ex_sstable_store ex) i \<mapsto> sst_encode_meta (te_crc32 env) \<lparr>sst_id = i, sst_meta = meta\<rparr>))"
proof -
  have ex: "ex = exhauster_new (of_nat (xc_id cfg)) (sstable_store_new (xc_data_path cfg) os Map.empty) 1"
    using assms(1) by (auto simp: build_exhauster_def exhauster_sstable_store_def outcome_simps)
  have i: "i = sstable_id (of_nat (xc_id cfg)) 1" and ex1: "ex_sstable_store ex1 = ex_sstable_store ex"
    using assms(3) by (auto simp: ex_gen_sstable_id_def ex exhauster_new_def)
  obtain st where "upload_sst env i sb (ex_sstable_store ex) = (Ok info, st)" and ex2: "ex_sstable_store ex2 = st"
    using assms(4) by (auto simp: ex_build_and_upload_sst_def ex1 split: prod.splits)
  then obtain meta data where b: "sb_build (te_compress env) (te_crc32 env) sb = Ok (meta, data)"
    and put: "ss_put mem_object_store_ops (te_decompress env) (te_crc32 env) \<lparr>sst_id = i, sst_meta = meta\<rparr> data Fill (ex_sstable_store ex) = (Ok (), st)"
    using assms(2) by (auto simp: upload_sst_def Let_def split: result.splits prod.splits elim!: continue_with.elims)
  from put have "mo_objects (ss_object_store st) = (mo_objects os)
      (data_path (ex_sstable_store ex) i \<mapsto> data, meta_path (ex_sstable_store ex) i \<mapsto> sst_encode_meta (te_crc32 env) \<lparr>sst_id = i, sst_meta = meta\<rparr>)"
    by (auto simp: ss_put_def mem_object_store_ops_def mem_os_put_def Let_def ex exhauster_new_def sstable_store_new_def data_path_def meta_path_def
        split: prod.splits if_splits)
  moreover have "\<forall>rudders' tree m. fst (up_gen_sstable_id (mg_uploader rudders' (xc_id cfg) tree m)) = Ok i"
    by (simp add: up_gen_sstable_id_def mg_uploader_def uploader_new_def i)
  ultimately show ?thesis using i b ex2 by blast
qed

section \<open>Examples\<close>

definition example_parsers :: config_parsers where
  "example_parsers = \<lparr>cp_size = (\<lambda>_. Some 64), cp_duration = (\<lambda>_. Some 100), cp_persist = (\<lambda>_. Some ())\<rparr>"

definition example_lsm_config :: raw_lsm_tree_config where
  "example_lsm_config =
     \<lparr>rc_l1_capacity = ''1 MiB'', rc_level_multiplier = 10, rc_trigger_l0_compaction_ssts = 4, rc_trigger_l0_compaction_interval = ''1 s'',
      rc_trigger_lmax_compaction_interval = ''10 s'', rc_trigger_compaction_interval = ''5 s'', rc_sstable_capacity = ''64 KiB'',
      rc_block_capacity = ''4 KiB'', rc_restart_interval = 2, rc_bloom_false_positive = 1 / 10, rc_compaction_pin_ttl = ''15 s'',
      rc_levels_options = [\<lparr>lo_compaction_strategy = Overlap, lo_compression_algorithm = NoCompression\<rparr>]\<rparr>"

abbreviation example_cache :: cache_config where
  "example_cache \<equiv> \<lparr>kc_block_cache_capacity = ''1 MiB'', kc_meta_cache_capacity = ''1 MiB''\<rparr>"

definition example_wheel_config :: wheel_config where
  "example_wheel_config =
     \<lparr>wc_id = 3, wc_host = ''w'', wc_port = 80, wc_data_path = ''data'', wc_poll_interval = ''1 s'', wc_heartbeat_interval = ''1 s'',
      wc_rudder = \<lparr>nn_id = 0, nn_host = ''r'', nn_port = 7\<rparr>, wc_write_buffer_capacity = ''4 MiB'', wc_cache = example_cache,
      wc_lsm_tree = example_lsm_config,
      wc_raft_log_store = \<lparr>lgc_log_file_capacity = ''64 MiB'', lgc_block_cache_capacity = ''1 MiB'', lgc_persist = ''sync''\<rparr>\<rparr>"

definition example_rudder_config :: rudder_config where
  "example_rudder_config =
     \<lparr>uc_id = 0, uc_data_path = ''data'', uc_health_timeout = ''10 s'', uc_cache = example_cache, uc_lsm_tree = example_lsm_config\<rparr>"

definition example_exhauster_config :: exhauster_config where
  "example_exhauster_config =
     \<lparr>xc_id = 5, xc_host = ''x'', xc_port = 80, xc_data_path = ''data'', xc_heartbeat_interval = ''1 s'',
      xc_rudder = \<lparr>nn_id = 0, nn_host = ''r'', nn_port = 7\<rparr>, xc_cache = example_cache\<rparr>"

lemmas example_config_simps = example_parsers_def parse_size_def parse_duration_def example_wheel_config_def example_rudder_config_def
  example_exhauster_config_def example_lsm_config_def

lemma example_build_rudder:
  "\<exists>rd :: (mem_object_store, nat, nat) rudder. \<exists>cd. build_rudder example_parsers mem_object_store_ops example_rudder_config os = Ok (rd, cd) \<and>
     vm_diffs (rd_version_manager rd) = [\<lparr>vd_id = 1, vd_sstable_diffs = []\<rparr>]"
  by (simp add: build_rudder_def rudder_sstable_store_def rudder_version_manager_def rudder_meta_store_def rudder_compaction_detector_def
      rudder_new_def lsm_tree_config_try_from_def example_config_simps vm_new_def first_diff_def vm_update_def vbind_def vget_def vok_def
      vm_latest_version_id_def last_of_def vm_push_diff_def add_u64_def Let_def)

lemma example_build_wheel:
  "\<exists>wn :: (nat, unit, mem_object_store, nat, nat, nat) wheel_node. \<exists>wb.
     build_wheel example_parsers nn_port example_wheel_config os Map.empty [] rudders = Ok (wn, wb)"
  by (simp add: build_wheel_def wheel_sstable_store_def wheel_version_manager_def wheel_heartbeater_of_def wheel_raft_log_store_def
      wheel_raft_manager_def example_config_simps vm_new_def store_open_def log_open_def new_active_file_def log_replay_def Let_def)

theorem built_wheel_follows_rudder_witness:
  "\<forall>os. \<exists>rd :: (mem_object_store, nat, nat) rudder. \<exists>wn wb wb'. build_rudder example_parsers mem_object_store_ops example_rudder_config os = Ok (rd, wn) \<and>
    wb_run example_heartbeats [0] wb = (Ok (), wb') \<and> vm_diffs (wb_version_manager wb) = [] \<and>
    vm_diffs (wb_version_manager wb') = [\<lparr>vd_id = 1, vd_sstable_diffs = []\<rparr>]"
proof
  fix os
  obtain rd cd where rd: "build_rudder example_parsers mem_object_store_ops example_rudder_config os = Ok (rd :: (mem_object_store, nat, nat) rudder, cd)"
    "vm_diffs (rd_version_manager rd) = [\<lparr>vd_id = 1, vd_sstable_diffs = []\<rparr>]" using example_build_rudder by blast
  obtain wn wb where wb: "build_wheel example_parsers nn_port example_wheel_config os Map.empty [] [7 \<mapsto> rd] =
      Ok (wn :: (nat, unit, mem_object_store, nat, nat, nat) wheel_node, wb)" using example_build_wheel by blast
  have inv: "ss_inv mo_objects stored_decompress (\<lambda>_. 7) Map.empty (sstable_store_new p os Map.empty)" for p
    by (rule mem_os.run_inv[OF run_new])
  have same: "rc_levels_options (wc_lsm_tree example_wheel_config) = rc_levels_options (uc_lsm_tree example_rudder_config)"
    "nn_port (wc_rudder example_wheel_config) = 7" by (simp_all add: example_wheel_config_def example_rudder_config_def)
  have "\<exists>wb'. wb_run example_heartbeats [0] wb = (Ok (), wb') \<and> vm_levels (wb_version_manager wb') = vm_levels (rd_version_manager rd) \<and>
    vm_levels_data_size (wb_version_manager wb') = vm_levels_data_size (rd_version_manager rd) \<and>
    vm_diffs (wb_version_manager wb') = vm_diffs (rd_version_manager rd)"
    by (rule built_wheel_follows_rudder[OF rd(1) _ _ _ inv inv _ _, where ds = "[]" and ch = 7 and names = "[]"])
      (use wb rd(2) same in \<open>simp_all add: example_heartbeats_def vok_def vm_latest_version_id_def last_of_def\<close>)
  moreover have "vm_diffs (wb_version_manager wb) = []"
    using build_wheel_start[OF wb] vm_new_fields by (fastforce simp: wheel_heartbeater_new_def)
  ultimately show "\<exists>rd :: (mem_object_store, nat, nat) rudder. \<exists>wn wb wb'. build_rudder example_parsers mem_object_store_ops example_rudder_config os = Ok (rd, wn) \<and>
    wb_run example_heartbeats [0] wb = (Ok (), wb') \<and> vm_diffs (wb_version_manager wb) = [] \<and>
    vm_diffs (wb_version_manager wb') = [\<lparr>vd_id = 1, vd_sstable_diffs = []\<rparr>]" using rd by (auto simp del: wb_run.simps)
qed

lemma example_table_builder: "\<exists>sb. env_sb_inv example_table_env example_options [([107], 3, Some [5])] sb \<and> versions_fit [([107], 3, Some [5])]"
proof -
  have env: "table_env_ok example_table_env" using lz4_frames_stored by (simp add: table_env_ok_def example_table_env_def)
  have fit: "versions_fit [([107], 3, Some [5])]"
    by (simp add: versions_fit_def key_sorted_def entry_fits_def entry_of_def raw_value_def)
  obtain sb where "env_sb_inv example_table_env example_options [] sb" using env_new_ok[OF example_versions_ok(1)] by blast
  from env_add_ok[OF env example_versions_ok(1) this, of "([107], 3, Some [5])"] fit show ?thesis by auto
qed

theorem table_ids_reused_witness:
  "\<exists>sb data. \<forall>os. \<exists>ex xb i ex1 info ex2.
    build_exhauster example_parsers nn_port example_exhauster_config os (Map.empty :: nat \<rightharpoonup> (mem_object_store, nat, nat) rudder) = Ok (ex, xb) \<and>
    ex_gen_sstable_id ex = (Ok i, ex1) \<and> ex_build_and_upload_sst example_table_env i sb ex1 = (Ok info, ex2) \<and>
    mo_objects (ss_object_store (ex_sstable_store ex2)) (''data/'' @ dec_digits (sstable_id 5 1) @ ''.data'') = Some data"
proof -
  obtain sb where sb: "env_sb_inv example_table_env example_options [([107], 3, Some [5])] sb" "versions_fit [([107], 3, Some [5])]"
    using example_table_builder by blast
  have env: "table_env_ok example_table_env" using lz4_frames_stored by (simp add: table_env_ok_def example_table_env_def)
  obtain meta data where b: "sb_build (te_compress example_table_env) (te_crc32 example_table_env) sb = Ok (meta, data)"
    using upload_sst_ok[OF env example_versions_ok(1) sb, of 0 undefined] by (auto simp: upload_sst_def split: result.splits)
  have "\<exists>ex xb i ex1 info ex2. build_exhauster example_parsers nn_port example_exhauster_config os (Map.empty :: nat \<rightharpoonup> (mem_object_store, nat, nat) rudder) = Ok (ex, xb) \<and>
    ex_gen_sstable_id ex = (Ok i, ex1) \<and> ex_build_and_upload_sst example_table_env i sb ex1 = (Ok info, ex2) \<and>
    mo_objects (ss_object_store (ex_sstable_store ex2)) (''data/'' @ dec_digits (sstable_id 5 1) @ ''.data'') = Some data" for os
  proof -
    obtain ex xb where ex: "build_exhauster example_parsers nn_port example_exhauster_config os (Map.empty :: nat \<rightharpoonup> (mem_object_store, nat, nat) rudder) = Ok (ex, xb)"
      by (auto simp: build_exhauster_def exhauster_sstable_store_def example_config_simps)
    obtain i ex1 where g: "ex_gen_sstable_id ex = (Ok i, ex1)" by (simp add: ex_gen_sstable_id_def)
    have "i = nth_id ex 0" using g by (simp add: ex_gen_sstable_id_def nth_id_def)
    then have "i < 2 ^ 64" using nth_id_less by simp
    from upload_sst_ok[OF env example_versions_ok(1) sb _ this, of "ex_sstable_store ex1"] obtain info ex2 where
      u: "ex_build_and_upload_sst example_table_env i sb ex1 = (Ok info, ex2)" by (auto simp: ex_build_and_upload_sst_def)
    have "te_objects example_table_env = mem_object_store_ops" by (simp add: example_table_env_def)
    from table_ids_reused[OF ex this g u] have i: "i = sstable_id 5 1"
      and o: "mo_objects (ss_object_store (ex_sstable_store ex2)) = (mo_objects os)(data_path (ex_sstable_store ex) i \<mapsto> data,
        meta_path (ex_sstable_store ex) i \<mapsto> sst_encode_meta (te_crc32 example_table_env) \<lparr>sst_id = i, sst_meta = meta\<rparr>)"
      using b by (auto simp: example_exhauster_config_def)
    have "ss_path (ex_sstable_store ex) = ''data''"
      using ex by (auto simp: build_exhauster_def exhauster_sstable_store_def example_config_simps exhauster_new_def sstable_store_new_def)
    then have "mo_objects (ss_object_store (ex_sstable_store ex2)) (''data/'' @ dec_digits (sstable_id 5 1) @ ''.data'') = Some data"
      by (simp add: o i data_path_def meta_path_def)
    then show ?thesis using ex g u by blast
  qed
  then show ?thesis by blast
qed

end
