(* ===== verification/Spec2Isabelle.thy ===== *)
theory Spec2Isabelle
  imports RaftStore Sync Fsm Uploader RaftWorker ConcatIterator Bootstrap
begin

text \<open>
  RunKV, a distributed key-value store written in Rust: a model of its storage engine, its raft log, its
  replicated state machine and its compaction service, with the theorems that make them correct.

  \<^bold>\<open>The program.\<close> A cluster has three kinds of nodes. A \<open>wheel\<close> serves clients: it maps the keys of a
  transaction to a shard, gives the transaction a sequence under a ticket lock, proposes it to the raft
  group of the shard and waits for the answer. The raft worker of a group persists the group's log in the
  raft log store and hands committed entries to the state machine, which executes them on the LSM tree of
  the group and answers through the notify pool. An uploader turns full memtables into sorted-string
  tables in the object store and reports them to the \<open>rudder\<close>, which keeps the manifest of all tables and
  hands version diffs to the wheels. The rudder's detector sends the tables of a level that has grown too
  large to an \<open>exhauster\<close>, which merges them and writes the result back.

  \<^bold>\<open>Theories\<close>, bottom up, with the files under \<open>src/\<close> they translate.

  \<^item> \<open>Prelude\<close>: machine words, byte buffers with Rust's cursor operations, the outcome of a call (\<open>Ok\<close>, \<open>Err\<close>,
    \<open>Panic\<close>, and \<open>OutOfFuel\<close> for a bounded loop), the error type (\<open>*/src/error.rs\<close>) and the collections of
    simplification rules. \<open>Calls\<close>: the same with a state that stays changed when a call fails. \<open>Decimal\<close>,
    \<open>Search\<close>, \<open>Segments\<close>: decimal numbers, binary search, sorted lists cut into segments.
  \<^item> \<open>Coding\<close>, \<open>Compression\<close>, \<open>Bloom\<close>: \<open>storage/src/utils\<close>, \<open>common/src/coding.rs\<close>.
  \<^item> \<open>RaftEntry\<close>, \<open>RaftLog\<close>, \<open>RaftMem\<close>, \<open>RaftStore\<close>: \<open>storage/src/raft_log_store\<close>, from the byte format of an entry and the
    files with group commit and rotation over the index of each group to the store with its block cache.
    Entries round trip; the log replays what it acknowledged; the index refines a partial map from
    indices to entries, and the calls that panic on it are known exactly; appended entries are read back;
    reopening rebuilds the index of every group that was not removed (\<open>store_run removed\<close> are the stores
    reachable by successful calls, with the groups removed since the last opening).
  \<^item> \<open>Iter\<close>, \<open>Block\<close>, \<open>BlockIterator\<close>, \<open>Sstable\<close>, \<open>SstableStore\<close>, \<open>SstableIterator\<close>, \<open>MergeIterator\<close>, \<open>UserKeyIterator\<close>,
    \<open>ConcatIterator\<close>: the table format, its store over an object store with caches, and the iterators of
    \<open>storage/src/lsm_tree/iterator\<close>. The iterator trait is the record \<open>iterator_ops\<close>; its contract is the locale
    \<open>kv_iterator\<close> (a cursor over a sorted list, in both directions) and the weaker \<open>forward_iterator\<close>. The block
    and the table iterators and the skip list are instances, and the merge of instances is one.
  \<^item> \<open>Skiplist\<close>, \<open>Memtable\<close>: the arena, the towers and the memtable with its iterator.
  \<^item> \<open>Manifest\<close>: the version manager of \<open>storage/src/lsm_tree/manifest\<close>. \<open>LsmTree\<close>: \<open>wheel/src/components/lsm_tree.rs\<close>;
    a read returns the newest visible version over memtables and levels.
  \<^item> \<open>Sync\<close>, \<open>Pools\<close>: \<open>common/src\<close>. The ticket lock is an instance of the locale \<open>fifo_lock\<close>; mutual exclusion, order of
    entry and progress are proved in the locale over all interleavings of atomic actions.
  \<^item> \<open>WheelService\<close>: the shards and the request path of \<open>wheel/src/service.rs\<close>, as the critical section of that lock.
  \<^item> \<open>RaftGroup\<close>, \<open>Fsm\<close>: \<open>wheel/src/components/raft_log_store.rs\<close> and \<open>fsm.rs\<close>. Applying committed entries refines an
    abstract state machine on histories of writes. It is proved to succeed where the code can: \<open>fsm_at\<close> is
    the state of a leader that is up to date, \<open>entries_take\<close> tracks whether the memtables take the writes of
    the entries, at most one for a transaction.
  \<^item> \<open>RaftNetwork\<close>, \<open>RaftWorker\<close>: \<open>wheel/src/components/raft_network.rs\<close> and \<open>wheel/src/worker/raft.rs\<close>. What a worker relies on of
    another node's network is the locale \<open>raft_transport\<close>. A leader's worker executes, persists and sends
    what the raft library has ready, and executes what the library commits while it advances; its turns
    are modelled with their channels and timers.
  \<^item> \<open>Compaction\<close>: \<open>exhauster/src\<close>; \<open>Rudder\<close>: \<open>rudder/src\<close>; \<open>Uploader\<close>: \<open>wheel/src/worker/sstable_uploader.rs\<close>. Compaction
    and flushing preserve reads.
  \<^item> \<open>Workers\<close>: the heartbeat loops of \<open>wheel/src/worker\<close> and \<open>exhauster/src/worker\<close>; a wheel reaches the rudder's version.
  \<^item> \<open>RaftManager\<close>: \<open>wheel/src/components/raft_manager.rs\<close> and the handlers of a node that add shards. \<open>wn_step env Q\<close> is
    what can happen on a node, \<open>Q\<close> restricting the ranges that are requested; a shard that was added serves
    from then on. \<open>Bootstrap\<close>: building the three kinds of nodes from their configurations (\<open>*/src/lib.rs\<close>).

  \<^bold>\<open>State and effects.\<close> A struct is a record, its operations return the changed record. Behind a lock or an
  \<open>Arc\<close> the code shares one state; operations of one lock are atomic, and where more than one thread matters
  (\<open>Sync\<close>, \<open>WheelService\<close>) the threads are explicit step sequences. Caches lose entries in steps of their own.
  Rust's debug assertions and overflow checks are on: an overflow is a \<open>Panic\<close>.

  \<^bold>\<open>Parameters.\<close> The node of the raft library (a record of its calls), the LZ4 codec (the hypothesis \<open>lz4_frames\<close>: decoding inverts encoding, whatever follows), CRC-32
  and the key fingerprint, the object store, \<open>bincode\<close> encodings (decoding inverts encoding), the random
  heights of skip list nodes, the memory layout of a node, connecting to a node, the hash of a map.

  \<^bold>\<open>Fuel.\<close> A loop whose end depends on its data takes fuel and returns \<open>OutOfFuel\<close> when that is used up. Block
  scans take the length of the block; loops over iterators and skip lists take \<open>2 ^ 64\<close>, more than the
  positions or nodes there can be; the loops of a compaction and of an upload take any fuel above the
  number of entries. The theorems conclude \<open>Ok\<close>, so the fuel suffices.

  \<^bold>\<open>Not modelled.\<close> Parts of the repository: the entry points with their command lines, metrics, tracing and logs,
  the S3 client, the generated protocol messages, benchmarks and integration tests; the manifest of
  components lists each with its reason. Beyond that: the consensus protocol, the transport and its server,
  which are libraries; the contention between threads inside the skip list and between reads and appends
  of the raft log, whose locks are taken in opposite orders; the concurrency of requests that are sent
  together, which run one after the other here.
\<close>

end
